(* ===== verification/Prelude.thy ===== *)
theory Prelude
  imports Main "HOL-Library.Word" "HOL-Library.List_Lexorder"
begin

unbundle bit_operations_syntax

text \<open>
  Shared vocabulary of the development. A Go byte is an \<open>8 word\<close>; Go strings and byte
  slices are both lists of bytes, because Go strings are byte sequences and the code
  converts between the two freely. Slice and string helpers of Go's standard library
  (\<open>bytes.IndexByte\<close>, \<open>strings.HasPrefix\<close>, \<open>bytes.Compare\<close>, \<open>binary.BigEndian\<close>) are
  defined here with the lemmas every component shares.
\<close>

type_synonym byte = "8 word"
type_synonym bytes = "byte list"

named_theorems go_defs "definitions of the Go helpers, for unfolding"

text \<open>Literals: \<open>str ''abc''\<close> is the byte sequence of the Go literal.\<close>

definition str :: "string \<Rightarrow> bytes" where
  [simp]: "str s = map of_char s"

abbreviation ascii :: "char \<Rightarrow> byte" where
  "ascii c \<equiv> of_char c"

section \<open>Searching and prefixes\<close>

text \<open>\<open>bytes.IndexByte\<close> and \<open>strings.IndexByte\<close>; \<open>None\<close> is Go's negative result.\<close>

fun index_byte :: "'a list \<Rightarrow> 'a \<Rightarrow> nat option" where
  "index_byte [] c = None"
| "index_byte (x # xs) c = (if x = c then Some 0 else map_option Suc (index_byte xs c))"

lemma index_byte_None [simp]: "index_byte xs c = None \<longleftrightarrow> c \<notin> set xs"
  by (induction xs) auto

lemma index_byte_notin: "c \<notin> set xs \<Longrightarrow> index_byte xs c = None"
  by simp

lemma index_byte_SomeD:
  "index_byte xs c = Some i \<Longrightarrow>
     i < length xs \<and> xs ! i = c \<and> c \<notin> set (take i xs)"
proof (induction xs arbitrary: i)
  case Nil
  then show ?case by simp
next
  case (Cons x xs)
  show ?case
  proof (cases "x = c")
    case True
    with Cons.prems show ?thesis by simp
  next
    case False
    with Cons.prems obtain k where "index_byte xs c = Some k" "i = Suc k" by auto
    with Cons.IH False show ?thesis by auto
  qed
qed

lemma index_byte_split:
  "index_byte xs c = Some i \<Longrightarrow> xs = take i xs @ c # drop (Suc i) xs"
  by (metis index_byte_SomeD id_take_nth_drop)

lemma index_byte_append [simp]:
  "c \<notin> set xs \<Longrightarrow> index_byte (xs @ c # ys) c = Some (length xs)"
  by (induction xs) auto

lemma index_byte_append_Some:
  "index_byte xs c = Some i \<Longrightarrow> index_byte (xs @ ys) c = Some i"
  by (induction xs arbitrary: i) (auto split: if_splits)

lemma index_byte_lt: "index_byte xs c = Some i \<Longrightarrow> i < length xs"
  by (simp add: index_byte_SomeD)

definition has_prefix :: "bytes \<Rightarrow> bytes \<Rightarrow> bool" where
  "has_prefix s p \<longleftrightarrow> length p \<le> length s \<and> take (length p) s = p"

lemma has_prefix_append [simp]: "has_prefix (p @ s) p"
  by (simp add: has_prefix_def)

lemma has_prefix_iff: "has_prefix s p \<longleftrightarrow> (\<exists>r. s = p @ r)"
proof
  assume "has_prefix s p"
  then have "s = p @ drop (length p) s"
    unfolding has_prefix_def by (metis append_take_drop_id)
  then show "\<exists>r. s = p @ r" ..
qed auto

definition has_suffix :: "bytes \<Rightarrow> bytes \<Rightarrow> bool" where
  "has_suffix s p \<longleftrightarrow> length p \<le> length s \<and> drop (length s - length p) s = p"

lemma has_suffix_iff: "has_suffix s p \<longleftrightarrow> (\<exists>r. s = r @ p)"
proof
  assume "has_suffix s p"
  then have "s = take (length s - length p) s @ p"
    unfolding has_suffix_def by (metis append_take_drop_id)
  then show "\<exists>r. s = r @ p" ..
qed (auto simp: has_suffix_def)

text \<open>\<open>strings.CutPrefix\<close>: the rest after the prefix, when it is there.\<close>

definition cut_prefix :: "bytes \<Rightarrow> bytes \<Rightarrow> bytes option" where
  "cut_prefix s p = (if has_prefix s p then Some (drop (length p) s) else None)"

lemma cut_prefix_append [simp]: "cut_prefix (p @ s) p = Some s"
  by (simp add: cut_prefix_def)

lemma cut_prefix_None: "cut_prefix s p = None \<longleftrightarrow> (\<nexists>r. s = p @ r)"
  by (simp add: cut_prefix_def has_prefix_iff)

lemma cut_prefix_SomeD: "cut_prefix s p = Some r \<Longrightarrow> s = p @ r"
  by (auto simp: cut_prefix_def has_prefix_iff split: if_splits)

text \<open>\<open>strings.TrimRight\<close> and \<open>strings.TrimLeft\<close> with a set of bytes to drop.\<close>

definition trim_left :: "(byte \<Rightarrow> bool) \<Rightarrow> bytes \<Rightarrow> bytes" where
  "trim_left p s = dropWhile p s"

definition trim_right :: "(byte \<Rightarrow> bool) \<Rightarrow> bytes \<Rightarrow> bytes" where
  "trim_right p s = rev (dropWhile p (rev s))"

lemma trim_right_id: "s = [] \<or> \<not> p (last s) \<Longrightarrow> trim_right p s = s"
  by (cases s rule: rev_cases) (auto simp: trim_right_def)

text \<open>Splitting at every byte that satisfies a predicate: always at least one piece.
  \<open>bytes.Split(s, sep)\<close> for a one-byte separator is \<open>split_on\<close>.\<close>

fun split_by :: "('a \<Rightarrow> bool) \<Rightarrow> 'a list \<Rightarrow> 'a list list" where
  "split_by p [] = [[]]"
| "split_by p (x # xs) =
     (if p x then [] # split_by p xs
      else (x # hd (split_by p xs)) # tl (split_by p xs))"

definition split_on :: "byte \<Rightarrow> bytes \<Rightarrow> bytes list" where
  "split_on c = split_by (\<lambda>x. x = c)"

lemma split_by_nonempty [simp]: "split_by p xs \<noteq> []"
  by (cases xs) auto

lemma split_by_none: "\<forall>x \<in> set xs. \<not> p x \<Longrightarrow> split_by p xs = [xs]"
  by (induction xs) auto

lemma split_by_append:
  "\<forall>x \<in> set xs. \<not> p x \<Longrightarrow> p c \<Longrightarrow> split_by p (xs @ c # ys) = xs # split_by p ys"
  by (induction xs) auto

lemma split_by_takeWhile:
  "split_by p xs = takeWhile (\<lambda>x. \<not> p x) xs #
     (case dropWhile (\<lambda>x. \<not> p x) xs of [] \<Rightarrow> [] | _ # ys \<Rightarrow> split_by p ys)"
  by (induction xs) auto

lemma split_on_notin: "c \<notin> set xs \<Longrightarrow> split_on c xs = [xs]"
  unfolding split_on_def by (rule split_by_none) auto

lemma split_on_append: "c \<notin> set xs \<Longrightarrow> split_on c (xs @ c # ys) = xs # split_on c ys"
  unfolding split_on_def by (rule split_by_append) auto

section \<open>Comparison\<close>

text \<open>\<open>bytes.Compare\<close>: negative, zero or positive in lexicographic order.\<close>

fun bytes_compare :: "bytes \<Rightarrow> bytes \<Rightarrow> int" where
  "bytes_compare [] [] = 0"
| "bytes_compare [] (y # ys) = -1"
| "bytes_compare (x # xs) [] = 1"
| "bytes_compare (x # xs) (y # ys) =
     (if x < y then -1 else if y < x then 1 else bytes_compare xs ys)"

lemma bytes_compare_neg: "bytes_compare xs ys < 0 \<longleftrightarrow> xs < ys"
  by (induction xs ys rule: bytes_compare.induct) auto

lemma bytes_compare_zero: "bytes_compare xs ys = 0 \<longleftrightarrow> xs = ys"
  by (induction xs ys rule: bytes_compare.induct) auto

lemma bytes_compare_pos: "0 < bytes_compare xs ys \<longleftrightarrow> ys < xs"
  by (metis bytes_compare_neg bytes_compare_zero linorder_cases not_less_iff_gr_or_eq)

lemmas bytes_compare_iff = bytes_compare_neg bytes_compare_zero bytes_compare_pos

section \<open>Big-endian integers\<close>

text \<open>\<open>be_val\<close> reads a big-endian unsigned integer; \<open>be32\<close> and \<open>be64\<close> read the leading
  four and eight bytes as \<open>binary.BigEndian.Uint32\<close> and \<open>Uint64\<close> do, on slices the
  callers have checked to be long enough.\<close>

fun be_val :: "bytes \<Rightarrow> nat" where
  "be_val [] = 0"
| "be_val (x # xs) = unat x * 256 ^ length xs + be_val xs"

definition be16 :: "bytes \<Rightarrow> nat" where "be16 b = be_val (take 2 b)"
definition be32 :: "bytes \<Rightarrow> nat" where "be32 b = be_val (take 4 b)"
definition be64 :: "bytes \<Rightarrow> nat" where "be64 b = be_val (take 8 b)"

text \<open>\<open>enc_be k n\<close> writes \<open>n\<close> as \<open>k\<close> big-endian bytes, dropping what does not fit.\<close>

fun enc_be :: "nat \<Rightarrow> nat \<Rightarrow> bytes" where
  "enc_be 0 n = []"
| "enc_be (Suc k) n = word_of_nat (n div 256 ^ k) # enc_be k (n mod 256 ^ k)"

lemma unat_byte_lt [simp]: "unat (b :: byte) < 256"
  using unsigned_less [of b] by simp

lemma unat_byte_le [simp]: "unat (b :: byte) \<le> 255"
  using unat_byte_lt [of b] by linarith

lemma length_enc_be [simp]: "length (enc_be k n) = k"
  by (induction k arbitrary: n) auto

lemma be_val_lt: "be_val xs < 256 ^ length xs"
proof (induction xs)
  case Nil
  then show ?case by simp
next
  case (Cons x xs)
  have "unat x * 256 ^ length xs + be_val xs < unat x * 256 ^ length xs + 256 ^ length xs"
    using Cons.IH by simp
  also have "\<dots> = Suc (unat x) * 256 ^ length xs" by simp
  also have "\<dots> \<le> 256 * 256 ^ length xs"
    using unat_byte_lt [of x] by (intro mult_right_mono) (simp_all add: Suc_le_eq del: unat_byte_le)
  finally show ?case by simp
qed

lemma be32_lt [simp]: "be32 b < 2 ^ 32"
proof -
  have "be32 b < 256 ^ length (take 4 b)" unfolding be32_def by (rule be_val_lt)
  also have "\<dots> \<le> 256 ^ 4" by (intro power_increasing) simp_all
  finally show ?thesis by simp
qed

lemma be_val_enc_be: "n < 256 ^ k \<Longrightarrow> be_val (enc_be k n) = n"
proof (induction k arbitrary: n)
  case 0
  then show ?case by simp
next
  case (Suc k)
  from Suc.prems have "n div 256 ^ k < 256"
    by (simp add: less_mult_imp_div_less)
  then have "unat (word_of_nat (n div 256 ^ k) :: byte) = n div 256 ^ k"
    by (simp add: unat_of_nat take_bit_eq_mod)
  moreover have "be_val (enc_be k (n mod 256 ^ k)) = n mod 256 ^ k"
    by (rule Suc.IH) simp
  ultimately show ?case by (simp add: div_mult_mod_eq)
qed

lemma be16_enc_be: "n < 65536 \<Longrightarrow> be16 (enc_be 2 n @ r) = n"
  by (simp add: be16_def be_val_enc_be del: enc_be.simps)

lemma be32_enc_be: "n < 2 ^ 32 \<Longrightarrow> be32 (enc_be 4 n @ r) = n"
  by (simp add: be32_def be_val_enc_be del: enc_be.simps)

section \<open>Decimal numbers\<close>

text \<open>\<open>strconv.AppendInt\<close> and the \<open>%d\<close> verb for a non-negative number.\<close>

fun dec_digits :: "nat \<Rightarrow> bytes" where
  "dec_digits n = (if n < 10 then [word_of_nat (48 + n)]
                   else dec_digits (n div 10) @ [word_of_nat (48 + n mod 10)])"

declare dec_digits.simps [simp del]

definition dec_int :: "int \<Rightarrow> bytes" where
  "dec_int i = (if i < 0 then ascii CHR ''-'' # dec_digits (nat (- i)) else dec_digits (nat i))"

lemma dec_digits_nonempty [simp]: "dec_digits n \<noteq> []"
  by (subst dec_digits.simps) simp

section \<open>Lists\<close>

lemma take_drop_split: "n \<le> length xs \<Longrightarrow> xs = take n xs @ drop n xs"
  by simp

text \<open>A strictly increasing chain, checked between neighbours, is sorted throughout.\<close>

fun adjacent :: "('a \<Rightarrow> 'a \<Rightarrow> bool) \<Rightarrow> 'a list \<Rightarrow> bool" where
  "adjacent r [] = True"
| "adjacent r [x] = True"
| "adjacent r (x # y # zs) = (r x y \<and> adjacent r (y # zs))"

lemma adjacent_sorted_wrt:
  assumes tr: "\<And>x y z. r x y \<Longrightarrow> r y z \<Longrightarrow> r x z"
  shows "adjacent r xs \<longleftrightarrow> sorted_wrt r xs"
proof (induction xs)
  case Nil
  then show ?case by simp
next
  case (Cons x xs)
  then show ?case by (cases xs) (auto intro: tr)
qed

end
