(* ===== verification/Search.thy ===== *)
theory Search
  imports Prelude
begin

text \<open>
  Ordered tables. \<open>sort_search\<close> is Go's \<open>sort.Search\<close>, \<open>find_loop\<close> is the halving loop
  of \<open>Pack.Find\<close>. The locale \<open>three_way\<close> is the contract of a comparison function
  (\<open>oidcmp\<close>, \<open>bytes.Compare\<close>): its sign agrees with the order of a key. Inside it live
  the two facts the table checks rest on: neighbours in order means the whole table is
  sorted and free of duplicates, and a halving search over a sorted table finds exactly
  what is there.
\<close>

section \<open>Binary search\<close>

function sort_search_loop :: "(nat \<Rightarrow> bool) \<Rightarrow> nat \<Rightarrow> nat \<Rightarrow> nat" where
  "sort_search_loop f i j =
     (if i < j then
        (let h = (i + j) div 2
         in if f h then sort_search_loop f i h else sort_search_loop f (Suc h) j)
      else i)"
  by pat_completeness auto
termination
  by (relation "measure (\<lambda>(f, i, j). j - i)") auto

declare sort_search_loop.simps [simp del]

definition sort_search :: "nat \<Rightarrow> (nat \<Rightarrow> bool) \<Rightarrow> nat" where
  "sort_search n f = sort_search_loop f 0 n"

text \<open>
  With \<open>f\<close> monotone below \<open>n\<close>, the loop returns the first index where \<open>f\<close> holds, or \<open>n\<close>.
\<close>

definition mono_below :: "nat \<Rightarrow> (nat \<Rightarrow> bool) \<Rightarrow> bool" where
  "mono_below n f \<longleftrightarrow> (\<forall>a b. a \<le> b \<longrightarrow> b < n \<longrightarrow> f a \<longrightarrow> f b)"

lemma mono_belowD: "mono_below n f \<Longrightarrow> a \<le> b \<Longrightarrow> b < n \<Longrightarrow> f a \<Longrightarrow> f b"
  by (auto simp: mono_below_def)

lemma sort_search_loop_spec:
  assumes "mono_below n f" and "i \<le> j" and "j \<le> n"
    and "\<forall>k < i. \<not> f k" and "\<forall>k. j \<le> k \<longrightarrow> k < n \<longrightarrow> f k"
  shows "sort_search_loop f i j \<le> n \<and> (\<forall>k < sort_search_loop f i j. \<not> f k) \<and>
    (\<forall>k. sort_search_loop f i j \<le> k \<longrightarrow> k < n \<longrightarrow> f k)"
  using assms
proof (induction f i j rule: sort_search_loop.induct)
  case (1 f i j)
  show ?case
  proof (cases "i < j")
    case False
    then have "sort_search_loop f i j = i" by (simp add: sort_search_loop.simps)
    with False "1.prems" show ?thesis by auto
  next
    case True
    define h where "h = (i + j) div 2"
    have h: "i \<le> h" "h < j" "h < n" using True "1.prems"(3) by (auto simp: h_def)
    show ?thesis
    proof (cases "f h")
      case fh: True
      have "\<forall>k. h \<le> k \<longrightarrow> k < n \<longrightarrow> f k"
        using mono_belowD [OF "1.prems"(1)] fh by blast
      with "1.IH"(1) [OF True h_def fh] "1.prems" h True fh show ?thesis
        by (simp add: sort_search_loop.simps [of f i j] Let_def flip: h_def)
    next
      case fh: False
      have "\<forall>k < Suc h. \<not> f k"
        using mono_belowD [OF "1.prems"(1)] fh h(3) by (metis less_Suc_eq_le)
      with "1.IH"(2) [OF True h_def fh] "1.prems" h True fh show ?thesis
        by (simp add: sort_search_loop.simps [of f i j] Let_def flip: h_def)
    qed
  qed
qed

lemma sort_search_first:
  assumes "mono_below n f"
  shows "sort_search n f \<le> n" and "k < sort_search n f \<Longrightarrow> \<not> f k"
    and "sort_search n f < n \<Longrightarrow> f (sort_search n f)"
  using sort_search_loop_spec [OF assms, of 0 n] by (auto simp: sort_search_def)

text \<open>The loop of \<open>Pack.Find\<close>: \<open>c m\<close> compares the entry at \<open>m\<close> with the name sought.\<close>

function find_loop :: "(nat \<Rightarrow> int) \<Rightarrow> nat \<Rightarrow> nat \<Rightarrow> nat option" where
  "find_loop c lo hi =
     (if lo < hi then
        (let mid = lo + (hi - lo) div 2
         in if c mid < 0 then find_loop c (Suc mid) hi
            else if c mid > 0 then find_loop c lo mid
            else Some mid)
      else None)"
  by pat_completeness auto
termination
  by (relation "measure (\<lambda>(c, lo, hi). hi - lo)") auto

declare find_loop.simps [simp del]

lemma find_loop_SomeD:
  "find_loop c lo hi = Some m \<Longrightarrow> lo \<le> m \<and> m < hi \<and> c m = 0"
proof (induction c lo hi rule: find_loop.induct)
  case (1 c lo hi)
  define mid where "mid = lo + (hi - lo) div 2"
  from "1.prems" have lt: "lo < hi"
    by (cases "lo < hi") (auto simp: find_loop.simps [of c lo hi])
  then have mid: "lo \<le> mid" "mid < hi" by (auto simp: mid_def)
  show ?case
  proof (cases "c mid = 0")
    case True
    with "1.prems" lt mid show ?thesis
      by (auto simp: find_loop.simps [of c lo hi] Let_def simp flip: mid_def)
  next
    case False
    show ?thesis
    proof (cases "c mid < 0")
      case True
      with "1.prems" lt have "find_loop c (Suc mid) hi = Some m"
        by (simp add: find_loop.simps [of c lo hi] Let_def flip: mid_def)
      with "1.IH"(1) [OF lt mid_def True] mid show ?thesis by auto
    next
      case neg: False
      with False "1.prems" lt have "find_loop c lo mid = Some m"
        by (simp add: find_loop.simps [of c lo hi] Let_def flip: mid_def)
      with "1.IH"(2) [OF lt mid_def neg] False neg mid show ?thesis by auto
    qed
  qed
qed

text \<open>
  \<open>c\<close> changes sign once, upwards: the shape a comparison against a sorted table has.
\<close>

definition sign_sorted :: "nat \<Rightarrow> nat \<Rightarrow> (nat \<Rightarrow> int) \<Rightarrow> bool" where
  "sign_sorted lo hi c \<longleftrightarrow>
     (\<forall>a b. lo \<le> a \<longrightarrow> a < b \<longrightarrow> b < hi \<longrightarrow> (0 \<le> c a \<longrightarrow> 0 < c b))"

lemma sign_sorted_sub:
  "sign_sorted lo hi c \<Longrightarrow> lo \<le> lo' \<Longrightarrow> hi' \<le> hi \<Longrightarrow> sign_sorted lo' hi' c"
  unfolding sign_sorted_def by (meson order.trans order.strict_trans2)

lemma find_loop_complete:
  "sign_sorted lo hi c \<Longrightarrow> lo \<le> m \<Longrightarrow> m < hi \<Longrightarrow> c m = 0 \<Longrightarrow> find_loop c lo hi = Some m"
proof (induction c lo hi rule: find_loop.induct)
  case (1 c lo hi)
  define mid where "mid = lo + (hi - lo) div 2"
  have lt: "lo < hi" using "1.prems" by linarith
  then have mid: "lo \<le> mid" "mid < hi" by (auto simp: mid_def)
  have order: "c a < 0" if "lo \<le> a" "a < m" for a
    using that "1.prems" unfolding sign_sorted_def by (metis less_irrefl not_le)
  have order': "0 < c b" if "m < b" "b < hi" for b
    using that "1.prems" unfolding sign_sorted_def by (metis order_refl)
  consider "mid < m" | "mid = m" | "m < mid" by linarith
  then show ?case
  proof cases
    case 1
    with order mid have neg: "c mid < 0" by blast
    have "sign_sorted (Suc mid) hi c"
      by (rule sign_sorted_sub [OF "1.prems"(1)]) (use mid in auto)
    with "1.IH"(1) [OF lt mid_def neg] 1 "1.prems" have "find_loop c (Suc mid) hi = Some m"
      by simp
    with lt neg show ?thesis by (simp add: find_loop.simps [of c lo hi] Let_def flip: mid_def)
  next
    case 2
    with lt "1.prems"(4) show ?thesis
      by (simp add: find_loop.simps [of c lo hi] Let_def flip: mid_def)
  next
    case 3
    with order' mid have pos: "0 < c mid" by blast
    then have neg: "\<not> c mid < 0" by simp
    have "sign_sorted lo mid c"
      by (rule sign_sorted_sub [OF "1.prems"(1)]) (use mid in auto)
    with "1.IH"(2) [OF lt mid_def neg pos] 3 "1.prems" have "find_loop c lo mid = Some m"
      by simp
    with lt pos neg show ?thesis by (simp add: find_loop.simps [of c lo hi] Let_def flip: mid_def)
  qed
qed

section \<open>Comparison functions\<close>

locale three_way =
  fixes cmp :: "'a \<Rightarrow> 'a \<Rightarrow> int"
    and key :: "'a \<Rightarrow> 'k :: linorder"
  assumes cmp_neg: "cmp a b < 0 \<longleftrightarrow> key a < key b"
    and cmp_pos: "0 < cmp a b \<longleftrightarrow> key b < key a"
begin

lemma cmp_zero: "cmp a b = 0 \<longleftrightarrow> key a = key b"
proof -
  have "cmp a b = 0 \<longleftrightarrow> \<not> cmp a b < 0 \<and> \<not> 0 < cmp a b" by linarith
  also have "\<dots> \<longleftrightarrow> key a = key b" unfolding cmp_neg cmp_pos by auto
  finally show ?thesis .
qed

lemma cmp_swap: "0 \<le> cmp a b \<longleftrightarrow> \<not> key a < key b"
  using cmp_neg [of a b] by linarith

lemma chain_sorted: "adjacent (\<lambda>a b. \<not> 0 \<le> cmp a b) xs \<longleftrightarrow> sorted_wrt (<) (map key xs)"
proof -
  have "adjacent (\<lambda>a b. \<not> 0 \<le> cmp a b) xs \<longleftrightarrow> sorted_wrt (\<lambda>a b. \<not> 0 \<le> cmp a b) xs"
    by (rule adjacent_sorted_wrt) (auto simp: cmp_swap)
  also have "\<dots> \<longleftrightarrow> sorted_wrt (<) (map key xs)" by (simp add: sorted_wrt_map cmp_swap)
  finally show ?thesis .
qed

lemma chain_distinct: "adjacent (\<lambda>a b. \<not> 0 \<le> cmp a b) xs \<Longrightarrow> distinct xs"
  using strict_sorted_iff [of "map key xs"] by (simp add: chain_sorted distinct_map)

lemma sorted_table_sign:
  assumes "sorted_wrt (<) (map (\<lambda>i. key (at i)) [0..<n])" and "hi \<le> n"
  shows "sign_sorted lo hi (\<lambda>m. cmp (at m) x)"
proof -
  have "key (at a) < key (at b)" if "a < b" "b < n" for a b
    using assms(1) that by (auto simp: sorted_wrt_iff_nth_less)
  then show ?thesis
    using assms(2) unfolding sign_sorted_def cmp_swap cmp_pos by (meson le_less_trans not_le order_less_le_trans)
qed

lemma find_loop_iff:
  assumes "sorted_wrt (<) (map (\<lambda>i. key (at i)) [0..<n])" and "hi \<le> n"
  shows "find_loop (\<lambda>m. cmp (at m) x) lo hi = Some m \<longleftrightarrow>
    lo \<le> m \<and> m < hi \<and> key (at m) = key x"
  using find_loop_SomeD [of "\<lambda>m. cmp (at m) x" lo hi m]
    find_loop_complete [OF sorted_table_sign [OF assms], of lo m x]
  by (auto simp: cmp_zero)

end

interpretation bytes_order: three_way bytes_compare "\<lambda>b. b"
  by unfold_locales (simp_all add: bytes_compare_neg bytes_compare_pos)

end
