(* ===== verification/GitObj.thy ===== *)
theory GitObj
  imports Search
begin

text \<open>
  Object names and types: \<open>internal/gitobj/oid.go\<close> and \<open>internal/gitobj/type.go\<close>.
  An \<open>oid\<close> is the code's \<open>OID\<close>: a fixed array of 32 bytes and the number of them that
  count. The hash algorithm is the code's \<open>Algo\<close> record; its \<open>New\<close> field, which makes a
  SHA-1 or SHA-256 digest, is the function \<open>digest\<close> from the bytes written to the sum.
\<close>

section \<open>Hexadecimal\<close>

definition unhex :: "byte \<Rightarrow> byte option" where
  "unhex c =
     (if ascii CHR ''0'' \<le> c \<and> c \<le> ascii CHR ''9'' then Some (c - ascii CHR ''0'')
      else if ascii CHR ''a'' \<le> c \<and> c \<le> ascii CHR ''f'' then Some (c - ascii CHR ''a'' + 10)
      else if ascii CHR ''A'' \<le> c \<and> c \<le> ascii CHR ''F'' then Some (c - ascii CHR ''A'' + 10)
      else None)"

text \<open>\<open>hex.EncodeToString\<close> writes lower case; \<open>hex.DecodeString\<close> takes either case and
  refuses an odd length.\<close>

definition hex_digit :: "byte \<Rightarrow> byte" where
  "hex_digit n = (if n < 10 then ascii CHR ''0'' + n else ascii CHR ''a'' + (n - 10))"

fun hex_encode :: "bytes \<Rightarrow> bytes" where
  "hex_encode [] = []"
| "hex_encode (b # bs) = hex_digit (drop_bit 4 b) # hex_digit (b AND 15) # hex_encode bs"

fun hex_decode :: "bytes \<Rightarrow> bytes option" where
  "hex_decode [] = Some []"
| "hex_decode [x] = None"
| "hex_decode (x # y # zs) =
     (case unhex x of None \<Rightarrow> None
      | Some hi \<Rightarrow> (case unhex y of None \<Rightarrow> None
        | Some lo \<Rightarrow> (case hex_decode zs of None \<Rightarrow> None
          | Some bs \<Rightarrow> Some ((push_bit 4 hi OR lo) # bs))))"

lemma hex_digit_cases:
  assumes "n < 16"
  obtains "n < 10" "unat (hex_digit n) = 48 + unat n" "unat n < 10"
    | "\<not> n < 10" "unat (hex_digit n) = 87 + unat n" "10 \<le> unat n" "unat n < 16"
proof (cases "n < 10")
  case True
  then have "unat n < 10" by (simp add: word_less_nat_alt)
  then have "unat (hex_digit n) = 48 + unat n"
    using True by (simp add: hex_digit_def unat_word_ariths)
  with True \<open>unat n < 10\<close> that(1) show ?thesis by blast
next
  case False
  then have lo: "10 \<le> unat n" by (simp add: word_less_nat_alt)
  from assms have hi: "unat n < 16" by (simp add: word_less_nat_alt)
  from lo hi have "unat (hex_digit n) = 87 + unat n"
    using False by (simp add: hex_digit_def unat_word_ariths unat_sub word_le_nat_alt)
  with False lo hi that(2) show ?thesis by blast
qed

lemma unhex_hex_digit: "n < 16 \<Longrightarrow> unhex (hex_digit n) = Some n"
  by (erule hex_digit_cases) (simp_all add: unhex_def word_le_nat_alt, simp_all add: hex_digit_def)

lemma nibbles: "push_bit 4 (drop_bit 4 (b :: byte)) OR (b AND 15) = b"
proof -
  have m: "15 = (mask 4 :: byte)" by (simp add: mask_numeral)
  show ?thesis unfolding m by (auto intro!: bit_eqI simp: bit_simps)
qed

lemma nibble_lt: "drop_bit 4 (b :: byte) < 16" "b AND 15 < (16 :: byte)"
proof -
  show "drop_bit 4 b < 16"
    by (simp add: word_less_nat_alt drop_bit_eq_div unat_div_distrib less_mult_imp_div_less del: unat_byte_le)
  have "b AND 15 \<le> 15" by (rule word_and_le1)
  then have "unat (b AND 15) \<le> 15" by (simp add: word_le_nat_alt)
  then show "b AND 15 < (16 :: byte)" by (simp add: word_less_nat_alt)
qed

lemma hex_decode_encode [simp]: "hex_decode (hex_encode bs) = Some bs"
  by (induction bs) (auto simp: unhex_hex_digit nibble_lt nibbles)

lemma length_hex_encode [simp]: "length (hex_encode bs) = 2 * length bs"
  by (induction bs) auto

lemma hex_decode_length: "hex_decode s = Some bs \<Longrightarrow> length s = 2 * length bs"
  by (induction s arbitrary: bs rule: hex_decode.induct) (auto split: option.splits)

definition is_lower_hex :: "byte \<Rightarrow> bool" where
  "is_lower_hex c \<longleftrightarrow> ascii CHR ''0'' \<le> c \<and> c \<le> ascii CHR ''9'' \<or>
     ascii CHR ''a'' \<le> c \<and> c \<le> ascii CHR ''f''"

lemma hex_digit_lower: "n < 16 \<Longrightarrow> is_lower_hex (hex_digit n)"
  by (erule hex_digit_cases) (simp_all add: is_lower_hex_def word_le_nat_alt)

lemma hex_encode_lower: "c \<in> set (hex_encode bs) \<Longrightarrow> is_lower_hex c"
  using hex_digit_lower nibble_lt by (induction bs) auto

section \<open>Algorithms and object names\<close>

record algo =
  alg_name :: bytes
  alg_format :: nat
  raw_size :: nat
  hex_size :: nat
  digest :: "bytes \<Rightarrow> bytes"

record oid =
  oid_h :: bytes
  oid_n :: nat

definition max_raw_size :: nat where
  "max_raw_size = 32"

text \<open>\<open>SHA1\<close> and \<open>SHA256\<close>, over the digest each of the standard library's packages computes.\<close>

definition sha1_algo :: "(bytes \<Rightarrow> bytes) \<Rightarrow> algo" where
  "sha1_algo sha1 = \<lparr>alg_name = str ''sha1'', alg_format = 1, raw_size = 20, hex_size = 40,
     digest = sha1\<rparr>"

definition sha256_algo :: "(bytes \<Rightarrow> bytes) \<Rightarrow> algo" where
  "sha256_algo sha256 = \<lparr>alg_name = str ''sha256'', alg_format = 2, raw_size = 32, hex_size = 64,
     digest = sha256\<rparr>"

definition algo_by_name :: "(bytes \<Rightarrow> bytes) \<Rightarrow> (bytes \<Rightarrow> bytes) \<Rightarrow> bytes \<Rightarrow> algo option" where
  "algo_by_name sha1 sha256 name =
     (if name = str ''sha1'' then Some (sha1_algo sha1)
      else if name = str ''sha256'' then Some (sha256_algo sha256)
      else None)"

text \<open>What every use of an algorithm relies on: two hex digits a byte, a name that fits the
  fixed array, digests of the announced size.\<close>

definition wf_algo :: "algo \<Rightarrow> bool" where
  "wf_algo a \<longleftrightarrow> hex_size a = 2 * raw_size a \<and> 0 < raw_size a \<and> raw_size a \<le> max_raw_size \<and>
     (\<forall>m. length (digest a m) = raw_size a)"

lemma wf_algo_sizes:
  "wf_algo a \<Longrightarrow> hex_size a = 2 * raw_size a \<and> 0 < raw_size a \<and> raw_size a \<le> 32"
  by (simp add: wf_algo_def max_raw_size_def)

lemma wf_sha1: "(\<And>m. length (f m) = 20) \<Longrightarrow> wf_algo (sha1_algo f)"
  and wf_sha256: "(\<And>m. length (f m) = 32) \<Longrightarrow> wf_algo (sha256_algo f)"
  by (simp_all add: wf_algo_def sha1_algo_def sha256_algo_def max_raw_size_def)

text \<open>The fixed array: what is copied in, and zeros behind it.\<close>

definition pad_raw :: "bytes \<Rightarrow> bytes" where
  "pad_raw b = take max_raw_size b @ replicate (max_raw_size - length b) 0"

lemma length_pad_raw [simp]: "length (pad_raw b) = 32"
  by (simp add: pad_raw_def max_raw_size_def)

lemma take_pad_raw: "length b \<le> 32 \<Longrightarrow> take (length b) (pad_raw b) = b"
  by (simp add: pad_raw_def max_raw_size_def)

definition zero_oid :: oid where
  "zero_oid = \<lparr>oid_h = replicate max_raw_size 0, oid_n = 0\<rparr>"

definition from_bytes :: "bytes \<Rightarrow> oid" where
  "from_bytes b = \<lparr>oid_h = pad_raw b, oid_n = min max_raw_size (length b)\<rparr>"

definition null_oid :: "algo \<Rightarrow> oid" where
  "null_oid a = \<lparr>oid_h = replicate max_raw_size 0, oid_n = raw_size a\<rparr>"

definition oid_raw :: "oid \<Rightarrow> bytes" where
  "oid_raw x = take (oid_n x) (oid_h x)"

definition oid_string :: "oid \<Rightarrow> bytes" where
  "oid_string x = hex_encode (take (oid_n x) (oid_h x))"

definition is_null :: "oid \<Rightarrow> bool" where
  "is_null x \<longleftrightarrow> (if list_all (\<lambda>c. c = 0) (take (oid_n x) (oid_h x)) then 0 < oid_n x else False)"

definition valid_oid :: "oid \<Rightarrow> bool" where
  "valid_oid x \<longleftrightarrow> 0 < oid_n x"

text \<open>\<open>Compare\<close> walks the two fixed arrays, which have the same length.\<close>

definition oid_compare :: "oid \<Rightarrow> oid \<Rightarrow> int" where
  "oid_compare a b = bytes_compare (oid_h a) (oid_h b)"

definition parse_oid :: "algo \<Rightarrow> bytes \<Rightarrow> oid option" where
  "parse_oid a s =
     (if length s \<noteq> hex_size a then None
      else (case hex_decode s of None \<Rightarrow> None | Some b \<Rightarrow> Some (from_bytes b)))"

text \<open>The loop of \<open>ParseHexBytes\<close>: \<open>n\<close> pairs of digits from the front.\<close>

fun hex_pairs :: "nat \<Rightarrow> bytes \<Rightarrow> bytes option" where
  "hex_pairs 0 buf = Some []"
| "hex_pairs (Suc n) (x # y # rest) =
     (case (unhex x, unhex y) of
        (Some hi, Some lo) \<Rightarrow> map_option ((#) (push_bit 4 hi OR lo)) (hex_pairs n rest)
      | _ \<Rightarrow> None)"
| "hex_pairs (Suc n) buf = None"

definition parse_hex_bytes :: "algo \<Rightarrow> bytes \<Rightarrow> oid option" where
  "parse_hex_bytes a buf =
     (if length buf < hex_size a then None
      else (case hex_pairs (raw_size a) buf of None \<Rightarrow> None
            | Some h \<Rightarrow> Some \<lparr>oid_h = pad_raw h, oid_n = raw_size a\<rparr>))"

definition parse_prefix :: "algo \<Rightarrow> bytes \<Rightarrow> (oid \<times> bytes) option" where
  "parse_prefix a s =
     (case parse_hex_bytes a s of None \<Rightarrow> None | Some x \<Rightarrow> Some (x, drop (hex_size a) s))"

text \<open>\<open>FromRaw\<close>, on a slice its callers have checked to hold \<open>raw_size\<close> bytes.\<close>

definition from_raw :: "algo \<Rightarrow> bytes \<Rightarrow> oid" where
  "from_raw a b = \<lparr>oid_h = pad_raw (take (raw_size a) b), oid_n = raw_size a\<rparr>"

section \<open>Object types\<close>

text \<open>The code's \<open>Type\<close> is an \<open>int\<close> with named values; a packfile can hold values with no name.\<close>

type_synonym obj_type = int

definition TypeBad :: obj_type where [simp]: "TypeBad = -1"
definition TypeNone :: obj_type where [simp]: "TypeNone = 0"
definition TypeCommit :: obj_type where [simp]: "TypeCommit = 1"
definition TypeTree :: obj_type where [simp]: "TypeTree = 2"
definition TypeBlob :: obj_type where [simp]: "TypeBlob = 3"
definition TypeTag :: obj_type where [simp]: "TypeTag = 4"
definition TypeOfsDelta :: obj_type where [simp]: "TypeOfsDelta = 6"
definition TypeRefDelta :: obj_type where [simp]: "TypeRefDelta = 7"
definition TypeAny :: obj_type where [simp]: "TypeAny = -2"

definition type_name :: "obj_type \<Rightarrow> bytes" where
  "type_name t =
     (if t = TypeNone then str ''none''
      else if t = TypeCommit then str ''commit''
      else if t = TypeTree then str ''tree''
      else if t = TypeBlob then str ''blob''
      else if t = TypeTag then str ''tag''
      else if t = TypeOfsDelta then str ''ofs-delta''
      else if t = TypeRefDelta then str ''ref-delta''
      else [])"

definition type_from_name :: "bytes \<Rightarrow> obj_type" where
  "type_from_name s =
     (if s = str ''commit'' then TypeCommit
      else if s = str ''tree'' then TypeTree
      else if s = str ''blob'' then TypeBlob
      else if s = str ''tag'' then TypeTag
      else TypeBad)"

definition type_header :: "obj_type \<Rightarrow> int \<Rightarrow> bytes" where
  "type_header t sz = type_name t @ str '' '' @ dec_int sz @ [0]"

section \<open>Lemmas\<close>

definition wf_oid :: "algo \<Rightarrow> oid \<Rightarrow> bool" where
  "wf_oid a x \<longleftrightarrow> oid_n x = raw_size a \<and> (\<exists>b. length b = raw_size a \<and> oid_h x = pad_raw b)"

lemma wf_oidI: "length b = raw_size a \<Longrightarrow> wf_oid a \<lparr>oid_h = pad_raw b, oid_n = raw_size a\<rparr>"
  unfolding wf_oid_def by auto

lemma wf_oidE:
  assumes "wf_algo a" and "wf_oid a x"
  obtains b where "length b = raw_size a" "x = \<lparr>oid_h = pad_raw b, oid_n = raw_size a\<rparr>"
    "oid_string x = hex_encode b"
proof -
  from assms(2) obtain b where b: "length b = raw_size a" "oid_h x = pad_raw b"
    "oid_n x = raw_size a" by (auto simp: wf_oid_def)
  moreover have "take (raw_size a) (pad_raw b) = b"
    using wf_algo_sizes [OF assms(1)] take_pad_raw [of b] b(1) by simp
  ultimately show ?thesis using that by (cases x) (simp add: oid_string_def)
qed

lemma wf_from_raw: "raw_size a \<le> length b \<Longrightarrow> wf_oid a (from_raw a b)"
  unfolding from_raw_def by (rule wf_oidI) simp

lemma wf_null_oid: "wf_algo a \<Longrightarrow> wf_oid a (null_oid a)"
  using wf_algo_sizes [of a]
  by (auto simp: wf_oid_def null_oid_def pad_raw_def max_raw_size_def simp flip: replicate_add
      intro!: exI [of _ "replicate (raw_size a) 0"])

lemma hex_pairs_encode: "hex_pairs (length b) (hex_encode b @ r) = Some b"
  by (induction b) (auto simp: unhex_hex_digit nibble_lt nibbles)

lemma hex_pairs_length: "hex_pairs n buf = Some b \<Longrightarrow> length b = n"
  by (induction n buf arbitrary: b rule: hex_pairs.induct) (auto split: option.splits)

lemma hex_pairs_decode:
  "length s = 2 * n \<Longrightarrow> hex_pairs n s = hex_decode s"
  by (induction n s rule: hex_pairs.induct) (auto split: option.splits simp: length_Suc_conv)

lemma parse_hex_bytes_string:
  assumes "wf_algo a" and "wf_oid a x"
  shows "parse_hex_bytes a (oid_string x @ r) = Some x"
proof -
  obtain b where "length b = raw_size a" "x = \<lparr>oid_h = pad_raw b, oid_n = raw_size a\<rparr>"
    "oid_string x = hex_encode b" using wf_oidE [OF assms] .
  then show ?thesis
    using wf_algo_sizes [OF assms(1)] hex_pairs_encode [of b r] by (simp add: parse_hex_bytes_def)
qed

lemma parse_hex_bytes_wf: "parse_hex_bytes a s = Some x \<Longrightarrow> wf_oid a x"
  by (auto simp: parse_hex_bytes_def wf_oid_def dest: hex_pairs_length split: if_splits option.splits)

lemma parse_oid_eq:
  assumes "wf_algo a" and "length s = hex_size a"
  shows "parse_oid a s = parse_hex_bytes a s"
proof -
  note sz = wf_algo_sizes [OF assms(1)]
  have "hex_pairs (raw_size a) s = hex_decode s" using assms(2) sz by (intro hex_pairs_decode) simp
  then show ?thesis
    using sz assms(2) hex_decode_length [of s]
    by (auto simp: parse_oid_def parse_hex_bytes_def from_bytes_def max_raw_size_def split: option.splits)
qed

lemma length_oid_string: "wf_algo a \<Longrightarrow> wf_oid a x \<Longrightarrow> length (oid_string x) = hex_size a"
  using wf_algo_sizes [of a] by (auto elim!: wf_oidE)

lemma oid_string_lower: "c \<in> set (oid_string x) \<Longrightarrow> is_lower_hex c"
  unfolding oid_string_def by (rule hex_encode_lower)

lemma parse_prefix_string:
  "wf_algo a \<Longrightarrow> wf_oid a x \<Longrightarrow> parse_prefix a (oid_string x @ r) = Some (x, r)"
  by (simp add: parse_prefix_def parse_hex_bytes_string length_oid_string flip: length_oid_string)

text \<open>
  An object name of the repository's width prints as hexadecimal that reads back, with
  each of the three readers, as the same name, and that none of the readers confuses with
  what follows it.
\<close>

theorem oid_text_roundtrip:
  assumes "wf_algo a" and "wf_oid a x"
  shows "parse_oid a (oid_string x) = Some x \<and>
    parse_hex_bytes a (oid_string x @ r) = Some x \<and>
    parse_prefix a (oid_string x @ r) = Some (x, r) \<and>
    (\<forall>y. wf_oid a y \<longrightarrow> oid_string y = oid_string x \<longrightarrow> y = x)"
proof (intro conjI allI impI)
  show "parse_oid a (oid_string x) = Some x"
    using parse_hex_bytes_string [OF assms, of "[]"] assms
    by (simp add: parse_oid_eq length_oid_string)
  fix y assume "wf_oid a y" "oid_string y = oid_string x"
  then show "y = x"
    using parse_hex_bytes_string [OF assms(1), of _ "[]"] assms(2) by (metis option.inject)
qed (use assms in \<open>simp_all add: parse_hex_bytes_string parse_prefix_string\<close>)

theorem oid_text_roundtrip_witness:
  "let a = sha1_algo (\<lambda>m. replicate 20 0); x = from_bytes (replicate 20 171) in
     parse_oid a (oid_string x) = Some x \<and> parse_prefix a (oid_string x @ [10]) = Some (x, [10])"
proof -
  let ?a = "sha1_algo (\<lambda>m. replicate 20 0)" and ?x = "from_bytes (replicate 20 171)"
  have a: "wf_algo ?a" by (rule wf_sha1) simp
  have x: "wf_oid ?a ?x"
    using wf_oidI [of "replicate 20 171" ?a]
    by (simp add: from_bytes_def sha1_algo_def max_raw_size_def)
  show ?thesis using oid_text_roundtrip [OF a x, of "[10]"] by (simp add: Let_def)
qed

interpretation oid_order: three_way oid_compare oid_h
  by unfold_locales (simp_all add: oid_compare_def bytes_compare_neg bytes_compare_pos)

lemma type_name_roundtrip:
  "t \<in> {TypeCommit, TypeTree, TypeBlob, TypeTag} \<longleftrightarrow> type_from_name (type_name t) = t \<and> t \<noteq> TypeBad"
  by (auto simp: type_name_def type_from_name_def)

end
