(* ===== verification/Fsck_Options.thy ===== *)
theory Fsck_Options
  imports GitObj
begin

text \<open>
  The message table and the options a whole fsck run shares: \<open>internal/fsck/msgid.go\<close> and
  \<open>internal/fsck/options.go\<close>. \<open>options\<close> is the code's \<open>Options\<close>; its mutex makes every
  operation atomic, so each is one state transformer here. \<open>logged\<close> is the sequence of
  findings handed to the \<open>Error\<close> callback, and \<open>error_func\<close> the value the callback returns
  for each. \<open>msg_type\<close> is the severity table that \<open>SetSeverity\<close> materializes.
\<close>

section \<open>Messages\<close>

datatype severity = SevIgnore | SevInfo | SevFatal | SevError | SevWarn

text \<open>\<open>MsgID\<close> is an integer type whose constants count up in declaration order.\<close>

datatype msg_id = MsgID nat

abbreviation MsgNulInHeader :: msg_id where "MsgNulInHeader \<equiv> MsgID 0"
abbreviation MsgUnterminatedHeader :: msg_id where "MsgUnterminatedHeader \<equiv> MsgID 1"
abbreviation MsgBadDate :: msg_id where "MsgBadDate \<equiv> MsgID 2"
abbreviation MsgBadDateOverflow :: msg_id where "MsgBadDateOverflow \<equiv> MsgID 3"
abbreviation MsgBadEmail :: msg_id where "MsgBadEmail \<equiv> MsgID 4"
abbreviation MsgBadName :: msg_id where "MsgBadName \<equiv> MsgID 5"
abbreviation MsgBadObjectSha1 :: msg_id where "MsgBadObjectSha1 \<equiv> MsgID 6"
abbreviation MsgBadParentSha1 :: msg_id where "MsgBadParentSha1 \<equiv> MsgID 7"
abbreviation MsgBadTimezone :: msg_id where "MsgBadTimezone \<equiv> MsgID 8"
abbreviation MsgBadTree :: msg_id where "MsgBadTree \<equiv> MsgID 9"
abbreviation MsgBadTreeSha1 :: msg_id where "MsgBadTreeSha1 \<equiv> MsgID 10"
abbreviation MsgBadType :: msg_id where "MsgBadType \<equiv> MsgID 11"
abbreviation MsgDuplicateEntries :: msg_id where "MsgDuplicateEntries \<equiv> MsgID 12"
abbreviation MsgMissingAuthor :: msg_id where "MsgMissingAuthor \<equiv> MsgID 13"
abbreviation MsgMissingCommitter :: msg_id where "MsgMissingCommitter \<equiv> MsgID 14"
abbreviation MsgMissingEmail :: msg_id where "MsgMissingEmail \<equiv> MsgID 15"
abbreviation MsgMissingNameBeforeEmail :: msg_id where "MsgMissingNameBeforeEmail \<equiv> MsgID 16"
abbreviation MsgMissingObject :: msg_id where "MsgMissingObject \<equiv> MsgID 17"
abbreviation MsgMissingSpaceBeforeDate :: msg_id where "MsgMissingSpaceBeforeDate \<equiv> MsgID 18"
abbreviation MsgMissingSpaceBeforeEmail :: msg_id where "MsgMissingSpaceBeforeEmail \<equiv> MsgID 19"
abbreviation MsgMissingTag :: msg_id where "MsgMissingTag \<equiv> MsgID 20"
abbreviation MsgMissingTagEntry :: msg_id where "MsgMissingTagEntry \<equiv> MsgID 21"
abbreviation MsgMissingTree :: msg_id where "MsgMissingTree \<equiv> MsgID 22"
abbreviation MsgMissingType :: msg_id where "MsgMissingType \<equiv> MsgID 23"
abbreviation MsgMissingTypeEntry :: msg_id where "MsgMissingTypeEntry \<equiv> MsgID 24"
abbreviation MsgMultipleAuthors :: msg_id where "MsgMultipleAuthors \<equiv> MsgID 25"
abbreviation MsgTreeNotSorted :: msg_id where "MsgTreeNotSorted \<equiv> MsgID 26"
abbreviation MsgUnknownType :: msg_id where "MsgUnknownType \<equiv> MsgID 27"
abbreviation MsgZeroPaddedDate :: msg_id where "MsgZeroPaddedDate \<equiv> MsgID 28"
abbreviation MsgGitmodulesMissing :: msg_id where "MsgGitmodulesMissing \<equiv> MsgID 29"
abbreviation MsgGitmodulesBlob :: msg_id where "MsgGitmodulesBlob \<equiv> MsgID 30"
abbreviation MsgGitmodulesLarge :: msg_id where "MsgGitmodulesLarge \<equiv> MsgID 31"
abbreviation MsgGitmodulesName :: msg_id where "MsgGitmodulesName \<equiv> MsgID 32"
abbreviation MsgGitmodulesSymlink :: msg_id where "MsgGitmodulesSymlink \<equiv> MsgID 33"
abbreviation MsgGitmodulesUrl :: msg_id where "MsgGitmodulesUrl \<equiv> MsgID 34"
abbreviation MsgGitmodulesPath :: msg_id where "MsgGitmodulesPath \<equiv> MsgID 35"
abbreviation MsgGitmodulesUpdate :: msg_id where "MsgGitmodulesUpdate \<equiv> MsgID 36"
abbreviation MsgGitattributesMissing :: msg_id where "MsgGitattributesMissing \<equiv> MsgID 37"
abbreviation MsgGitattributesLarge :: msg_id where "MsgGitattributesLarge \<equiv> MsgID 38"
abbreviation MsgGitattributesLineLength :: msg_id where "MsgGitattributesLineLength \<equiv> MsgID 39"
abbreviation MsgGitattributesBlob :: msg_id where "MsgGitattributesBlob \<equiv> MsgID 40"
abbreviation MsgEmptyName :: msg_id where "MsgEmptyName \<equiv> MsgID 41"
abbreviation MsgFullPathname :: msg_id where "MsgFullPathname \<equiv> MsgID 42"
abbreviation MsgHasDot :: msg_id where "MsgHasDot \<equiv> MsgID 43"
abbreviation MsgHasDotdot :: msg_id where "MsgHasDotdot \<equiv> MsgID 44"
abbreviation MsgHasDotgit :: msg_id where "MsgHasDotgit \<equiv> MsgID 45"
abbreviation MsgNullSha1 :: msg_id where "MsgNullSha1 \<equiv> MsgID 46"
abbreviation MsgZeroPaddedFilemode :: msg_id where "MsgZeroPaddedFilemode \<equiv> MsgID 47"
abbreviation MsgNulInCommit :: msg_id where "MsgNulInCommit \<equiv> MsgID 48"
abbreviation MsgLargePathname :: msg_id where "MsgLargePathname \<equiv> MsgID 49"
abbreviation MsgBadFilemode :: msg_id where "MsgBadFilemode \<equiv> MsgID 50"
abbreviation MsgGitmodulesParse :: msg_id where "MsgGitmodulesParse \<equiv> MsgID 51"
abbreviation MsgGitignoreSymlink :: msg_id where "MsgGitignoreSymlink \<equiv> MsgID 52"
abbreviation MsgGitattributesSymlink :: msg_id where "MsgGitattributesSymlink \<equiv> MsgID 53"
abbreviation MsgMailmapSymlink :: msg_id where "MsgMailmapSymlink \<equiv> MsgID 54"
abbreviation MsgBadTagName :: msg_id where "MsgBadTagName \<equiv> MsgID 55"
abbreviation MsgMissingTaggerEntry :: msg_id where "MsgMissingTaggerEntry \<equiv> MsgID 56"
abbreviation MsgExtraHeaderEntry :: msg_id where "MsgExtraHeaderEntry \<equiv> MsgID 57"
abbreviation MsgBadHeadTarget :: msg_id where "MsgBadHeadTarget \<equiv> MsgID 58"
abbreviation MsgBadPackedRefEntry :: msg_id where "MsgBadPackedRefEntry \<equiv> MsgID 59"
abbreviation MsgBadPackedRefHeader :: msg_id where "MsgBadPackedRefHeader \<equiv> MsgID 60"
abbreviation MsgBadReferentName :: msg_id where "MsgBadReferentName \<equiv> MsgID 61"
abbreviation MsgBadRefContent :: msg_id where "MsgBadRefContent \<equiv> MsgID 62"
abbreviation MsgBadRefFiletype :: msg_id where "MsgBadRefFiletype \<equiv> MsgID 63"
abbreviation MsgBadRefName :: msg_id where "MsgBadRefName \<equiv> MsgID 64"
abbreviation MsgBadRefOid :: msg_id where "MsgBadRefOid \<equiv> MsgID 65"
abbreviation MsgEmptyPackedRefsFile :: msg_id where "MsgEmptyPackedRefsFile \<equiv> MsgID 66"
abbreviation MsgPackedRefEntryNotTerminated :: msg_id where "MsgPackedRefEntryNotTerminated \<equiv> MsgID 67"
abbreviation MsgPackedRefUnsorted :: msg_id where "MsgPackedRefUnsorted \<equiv> MsgID 68"
abbreviation MsgRefMissingNewline :: msg_id where "MsgRefMissingNewline \<equiv> MsgID 69"
abbreviation MsgSymlinkRef :: msg_id where "MsgSymlinkRef \<equiv> MsgID 70"
abbreviation MsgSymrefTargetIsNotARef :: msg_id where "MsgSymrefTargetIsNotARef \<equiv> MsgID 71"
abbreviation MsgTrailingRefContent :: msg_id where "MsgTrailingRefContent \<equiv> MsgID 72"

definition msg_id_count :: nat where
  "msg_id_count = 73"

record msg_info =
  camel :: bytes
  lower :: bytes
  default_sev :: severity

text \<open>The table \<open>msgInfos\<close>, indexed by the constants above: the printed spelling, the configuration
  key and the severity a check has before any configuration.\<close>

definition mk_info :: "string \<Rightarrow> string \<Rightarrow> severity \<Rightarrow> msg_info" where
  "mk_info c l s = \<lparr>camel = str c, lower = str l, default_sev = s\<rparr>"

definition msg_table :: "msg_info list" where
  "msg_table = [
    mk_info ''nulInHeader'' ''nulinheader'' SevFatal,
    mk_info ''unterminatedHeader'' ''unterminatedheader'' SevFatal,
    mk_info ''badDate'' ''baddate'' SevError,
    mk_info ''badDateOverflow'' ''baddateoverflow'' SevError,
    mk_info ''badEmail'' ''bademail'' SevError,
    mk_info ''badName'' ''badname'' SevError,
    mk_info ''badObjectSha1'' ''badobjectsha1'' SevError,
    mk_info ''badParentSha1'' ''badparentsha1'' SevError,
    mk_info ''badTimezone'' ''badtimezone'' SevError,
    mk_info ''badTree'' ''badtree'' SevError,
    mk_info ''badTreeSha1'' ''badtreesha1'' SevError,
    mk_info ''badType'' ''badtype'' SevError,
    mk_info ''duplicateEntries'' ''duplicateentries'' SevError,
    mk_info ''missingAuthor'' ''missingauthor'' SevError,
    mk_info ''missingCommitter'' ''missingcommitter'' SevError,
    mk_info ''missingEmail'' ''missingemail'' SevError,
    mk_info ''missingNameBeforeEmail'' ''missingnamebeforeemail'' SevError,
    mk_info ''missingObject'' ''missingobject'' SevError,
    mk_info ''missingSpaceBeforeDate'' ''missingspacebeforedate'' SevError,
    mk_info ''missingSpaceBeforeEmail'' ''missingspacebeforeemail'' SevError,
    mk_info ''missingTag'' ''missingtag'' SevError,
    mk_info ''missingTagEntry'' ''missingtagentry'' SevError,
    mk_info ''missingTree'' ''missingtree'' SevError,
    mk_info ''missingType'' ''missingtype'' SevError,
    mk_info ''missingTypeEntry'' ''missingtypeentry'' SevError,
    mk_info ''multipleAuthors'' ''multipleauthors'' SevError,
    mk_info ''treeNotSorted'' ''treenotsorted'' SevError,
    mk_info ''unknownType'' ''unknowntype'' SevError,
    mk_info ''zeroPaddedDate'' ''zeropaddeddate'' SevError,
    mk_info ''gitmodulesMissing'' ''gitmodulesmissing'' SevError,
    mk_info ''gitmodulesBlob'' ''gitmodulesblob'' SevError,
    mk_info ''gitmodulesLarge'' ''gitmoduleslarge'' SevError,
    mk_info ''gitmodulesName'' ''gitmodulesname'' SevError,
    mk_info ''gitmodulesSymlink'' ''gitmodulessymlink'' SevError,
    mk_info ''gitmodulesUrl'' ''gitmodulesurl'' SevError,
    mk_info ''gitmodulesPath'' ''gitmodulespath'' SevError,
    mk_info ''gitmodulesUpdate'' ''gitmodulesupdate'' SevError,
    mk_info ''gitattributesMissing'' ''gitattributesmissing'' SevError,
    mk_info ''gitattributesLarge'' ''gitattributeslarge'' SevError,
    mk_info ''gitattributesLineLength'' ''gitattributeslinelength'' SevError,
    mk_info ''gitattributesBlob'' ''gitattributesblob'' SevError,
    mk_info ''emptyName'' ''emptyname'' SevWarn,
    mk_info ''fullPathname'' ''fullpathname'' SevWarn,
    mk_info ''hasDot'' ''hasdot'' SevWarn,
    mk_info ''hasDotdot'' ''hasdotdot'' SevWarn,
    mk_info ''hasDotgit'' ''hasdotgit'' SevWarn,
    mk_info ''nullSha1'' ''nullsha1'' SevWarn,
    mk_info ''zeroPaddedFilemode'' ''zeropaddedfilemode'' SevWarn,
    mk_info ''nulInCommit'' ''nulincommit'' SevWarn,
    mk_info ''largePathname'' ''largepathname'' SevWarn,
    mk_info ''badFilemode'' ''badfilemode'' SevInfo,
    mk_info ''gitmodulesParse'' ''gitmodulesparse'' SevInfo,
    mk_info ''gitignoreSymlink'' ''gitignoresymlink'' SevInfo,
    mk_info ''gitattributesSymlink'' ''gitattributessymlink'' SevInfo,
    mk_info ''mailmapSymlink'' ''mailmapsymlink'' SevInfo,
    mk_info ''badTagName'' ''badtagname'' SevInfo,
    mk_info ''missingTaggerEntry'' ''missingtaggerentry'' SevInfo,
    mk_info ''extraHeaderEntry'' ''extraheaderentry'' SevIgnore,
    mk_info ''badHeadTarget'' ''badheadtarget'' SevError,
    mk_info ''badPackedRefEntry'' ''badpackedrefentry'' SevError,
    mk_info ''badPackedRefHeader'' ''badpackedrefheader'' SevError,
    mk_info ''badReferentName'' ''badreferentname'' SevError,
    mk_info ''badRefContent'' ''badrefcontent'' SevError,
    mk_info ''badRefFiletype'' ''badreffiletype'' SevError,
    mk_info ''badRefName'' ''badrefname'' SevError,
    mk_info ''badRefOid'' ''badrefoid'' SevError,
    mk_info ''emptyPackedRefsFile'' ''emptypackedrefsfile'' SevInfo,
    mk_info ''packedRefEntryNotTerminated'' ''packedrefentrynotterminated'' SevError,
    mk_info ''packedRefUnsorted'' ''packedrefunsorted'' SevError,
    mk_info ''refMissingNewline'' ''refmissingnewline'' SevInfo,
    mk_info ''symlinkRef'' ''symlinkref'' SevInfo,
    mk_info ''symrefTargetIsNotARef'' ''symreftargetisnotaref'' SevInfo,
    mk_info ''trailingRefContent'' ''trailingrefcontent'' SevInfo]"

primrec msg_infos :: "msg_id \<Rightarrow> msg_info" where
  "msg_infos (MsgID n) = msg_table ! n"

definition all_msg_ids :: "msg_id list" where
  "all_msg_ids = map MsgID [0..<msg_id_count]"

definition msg_name :: "msg_id \<Rightarrow> bytes" where
  "msg_name i = camel (msg_infos i)"

definition default_severity :: "msg_id \<Rightarrow> severity" where
  "default_severity i = default_sev (msg_infos i)"

definition to_lower :: "byte \<Rightarrow> byte" where
  "to_lower c = (if ascii CHR ''A'' \<le> c \<and> c \<le> ascii CHR ''Z''
                 then c + ascii CHR ''a'' - ascii CHR ''A'' else c)"

definition msg_id_by_name :: "bytes \<Rightarrow> msg_id option" where
  "msg_id_by_name name =
     (let l = map to_lower (filter (\<lambda>c. c \<noteq> ascii CHR ''_'') name)
      in find (\<lambda>i. lower (msg_infos i) = l) all_msg_ids)"

section \<open>Severities\<close>

definition severity_string :: "severity \<Rightarrow> bytes" where
  "severity_string s =
     (case s of SevIgnore \<Rightarrow> str ''ignore'' | SevWarn \<Rightarrow> str ''warn'' | SevError \<Rightarrow> str ''error''
      | SevInfo \<Rightarrow> str ''info'' | SevFatal \<Rightarrow> str ''fatal'')"

definition parse_severity :: "bytes \<Rightarrow> severity option" where
  "parse_severity s =
     (if s = str ''error'' then Some SevError
      else if s = str ''warn'' then Some SevWarn
      else if s = str ''ignore'' then Some SevIgnore
      else None)"

section \<open>The options\<close>

record finding =
  f_oid :: oid
  f_type :: obj_type
  f_sev :: severity
  f_id :: msg_id
  f_text :: bytes

record options =
  strict :: bool
  opt_algo :: algo
  max_tree_entry_len :: int
  error_func :: "finding \<Rightarrow> int"
  msg_type :: "(msg_id \<Rightarrow> severity) option"
  skiplist :: "oid set"
  gitmodules_found :: "oid set"
  gitmodules_done :: "oid set"
  gitattributes_found :: "oid set"
  gitattributes_done :: "oid set"
  obj_names :: "(oid \<rightharpoonup> bytes) option"
  logged :: "finding list"

definition default_error_func :: "finding \<Rightarrow> int" where
  "default_error_func f = (if f_sev f = SevWarn then 0 else 1)"

definition new_options :: "algo \<Rightarrow> options" where
  "new_options a = \<lparr>strict = False, opt_algo = a, max_tree_entry_len = 4096,
     error_func = default_error_func, msg_type = None, skiplist = {},
     gitmodules_found = {}, gitmodules_done = {}, gitattributes_found = {},
     gitattributes_done = {}, obj_names = None, logged = []\<rparr>"

definition enable_object_names :: "options \<Rightarrow> options" where
  "enable_object_names q = (if obj_names q = None then q\<lparr>obj_names := Some Map.empty\<rparr> else q)"

definition put_object_name :: "options \<Rightarrow> oid \<Rightarrow> bytes \<Rightarrow> options" where
  "put_object_name q x name =
     (case obj_names q of None \<Rightarrow> q
      | Some m \<Rightarrow> (case m x of Some _ \<Rightarrow> q
                  | None \<Rightarrow> q\<lparr>obj_names := Some (m(x \<mapsto> name))\<rparr>))"

definition object_name :: "options \<Rightarrow> oid \<Rightarrow> bytes" where
  "object_name q x =
     (case obj_names q of None \<Rightarrow> [] | Some m \<Rightarrow> (case m x of None \<Rightarrow> [] | Some n \<Rightarrow> n))"

definition describe :: "options \<Rightarrow> oid \<Rightarrow> bytes" where
  "describe q x =
     (if object_name q x \<noteq> [] then oid_string x @ str '' ('' @ object_name q x @ str '')''
      else oid_string x)"

text \<open>The unexported \<open>severity\<close> and the locking \<open>Severity\<close> around it.\<close>

definition severity_of :: "options \<Rightarrow> msg_id \<Rightarrow> severity" where
  "severity_of q i =
     (case msg_type q of
        None \<Rightarrow> (let s = default_sev (msg_infos i)
                 in if strict q \<and> s = SevWarn then SevError else s)
      | Some t \<Rightarrow> t i)"

definition set_severity :: "options \<Rightarrow> msg_id \<Rightarrow> severity \<Rightarrow> options" where
  "set_severity q i s =
     (let t = (case msg_type q of None \<Rightarrow> severity_of q | Some t \<Rightarrow> t)
      in q\<lparr>msg_type := Some (t(i := s))\<rparr>)"

definition add_skip :: "options \<Rightarrow> oid \<Rightarrow> options" where
  "add_skip q x = q\<lparr>skiplist := insert x (skiplist q)\<rparr>"

definition skipped :: "options \<Rightarrow> oid \<Rightarrow> bool" where
  "skipped q x \<longleftrightarrow> x \<in> skiplist q"

definition report :: "options \<Rightarrow> oid \<Rightarrow> obj_type \<Rightarrow> msg_id \<Rightarrow> bytes \<Rightarrow> options \<times> int" where
  "report q x t i text =
     (let sev = severity_of q i
      in if sev = SevIgnore then (q, 0)
         else if valid_oid x \<and> skipped q x then (q, 0)
         else let sev' = (case sev of SevFatal \<Rightarrow> SevError | SevInfo \<Rightarrow> SevWarn | s \<Rightarrow> s);
                  f = \<lparr>f_oid = x, f_type = t, f_sev = sev', f_id = i,
                       f_text = camel (msg_infos i) @ str '': '' @ text\<rparr>
              in (q\<lparr>logged := logged q @ [f]\<rparr>, error_func q f))"

text \<open>The line \<open>DefaultErrorFunc\<close> prints for a finding.\<close>

definition default_error_line :: "options \<Rightarrow> finding \<Rightarrow> bytes" where
  "default_error_line q f =
     (if f_sev f = SevWarn then str ''warning: object '' else str ''error: object '') @
       describe q (f_oid f) @ str '': '' @ f_text f"

section \<open>What a check may do to the options\<close>

text \<open>Every message is reported for this object: none is ignored, and the object is not skipped.\<close>

definition loud :: "options \<Rightarrow> oid \<Rightarrow> bool" where
  "loud q x \<longleftrightarrow> (\<forall>i. severity_of q i \<noteq> SevIgnore) \<and> \<not> (valid_oid x \<and> skipped q x)"

text \<open>A check only ever appends to what is logged.\<close>

definition extends :: "options \<Rightarrow> options \<Rightarrow> bool" where
  "extends q q' \<longleftrightarrow> (\<exists>fs. q' = q\<lparr>logged := logged q @ fs\<rparr>)"

lemma extends_refl [simp, intro]: "extends q q"
  unfolding extends_def by (rule exI [of _ "[]"]) simp

lemma extends_trans [trans]: "extends q q' \<Longrightarrow> extends q' q'' \<Longrightarrow> extends q q''"
  by (auto simp: extends_def)

lemma extends_quiet: "extends q q' \<Longrightarrow> extends q' q \<Longrightarrow> q' = q"
proof -
  have le: "logged b = logged a @ drop (length (logged a)) (logged b)" if "extends a b" for a b
    using that by (auto simp: extends_def)
  assume e: "extends q q'" and "extends q' q"
  then have "length (logged q) \<le> length (logged q')" "length (logged q') \<le> length (logged q)"
    by (metis le length_append le_add1)+
  moreover obtain fs where "q' = q\<lparr>logged := logged q @ fs\<rparr>"
    using e unfolding extends_def by blast
  ultimately show "q' = q" by simp
qed

lemma severity_of_logged [simp]: "severity_of (q\<lparr>logged := l\<rparr>) i = severity_of q i"
  by (cases "msg_type q") (simp_all add: severity_of_def)

lemma extends_fields:
  assumes "extends q q'"
  shows "opt_algo q' = opt_algo q" "loud q' x = loud q x"
  using assms by (auto simp: extends_def loud_def skipped_def)

lemma report_extends: "extends q (fst (report q x t i text))"
  unfolding report_def by (auto simp: Let_def extends_def intro: exI [of _ "[]"])

lemma report_logs: "loud q x \<Longrightarrow> length (logged (fst (report q x t i s))) = Suc (length (logged q))"
  by (auto simp: report_def loud_def Let_def)

lemma report_loud: "loud q x \<Longrightarrow> fst (report q x t i s) \<noteq> q"
  using report_logs [of q x t i s] by auto

lemma report_pair_loud: "loud q x \<Longrightarrow> report q x t i s \<noteq> (q, r)"
  using report_loud [of q x t i s] by auto

text \<open>Two steps in sequence: the first may stop with a status, the second goes on.\<close>

lemma extends_bind:
  assumes "extends q (fst m)" and "\<And>q1 a. m = (q1, Inr a) \<Longrightarrow> extends q1 (fst (k q1 a))"
  shows "extends q (fst (case m of (q1, Inl e) \<Rightarrow> (q1, f e) | (q1, Inr a) \<Rightarrow> k q1 a))"
  using assms extends_trans by (auto split: prod.splits sum.splits)

lemma quiet_bind:
  assumes "extends q (fst m)" and k: "\<And>q1 a. m = (q1, Inr a) \<Longrightarrow> extends q1 (fst (k q1 a))"
    and run: "(case m of (q1, Inl e) \<Rightarrow> (q1, f e) | (q1, Inr a) \<Rightarrow> k q1 a) = (q, r)"
    and loud: "\<And>e. m \<noteq> (q, Inl e)"
  shows "\<exists>a. m = (q, Inr a) \<and> k q a = (q, r)"
proof -
  obtain q1 s where m: "m = (q1, s)" by force
  show ?thesis
  proof (cases s)
    case (Inl e)
    with run m loud show ?thesis by simp
  next
    case (Inr a)
    with run m k have "extends q1 q" by (metis (no_types, lifting) fst_conv old.sum.simps(6) split_conv)
    with assms(1) m have "q1 = q" by (intro extends_quiet) simp_all
    with run m Inr show ?thesis by simp
  qed
qed

lemma extends_fst: "m = (q', r) \<Longrightarrow> extends q (fst m) \<Longrightarrow> extends q q'"
  by simp

lemma extends_ne: "extends q q1 \<Longrightarrow> q1 \<noteq> q \<Longrightarrow> extends q1 q2 \<Longrightarrow> q2 \<noteq> q"
  using extends_quiet by auto

end
