(* ===== verification/Refname.thy ===== *)
theory Refname
  imports Fsck_Options
begin

text \<open>
  Reference names: \<open>internal/fsck/refname.go\<close>. The scanner \<open>check_refname_component\<close> and
  the loop \<open>check_refname_format\<close> follow the code; \<open>refname_grammar\<close> states what they accept
  as a grammar over the components of a name.
\<close>

section \<open>The scanner\<close>

text \<open>The code's flag word has two bits; the scanner clears the second when it meets an asterisk.\<close>

record refname_flags =
  allow_onelevel :: bool
  refspec_pattern :: bool

definition no_flags :: refname_flags where
  "no_flags = \<lparr>allow_onelevel = False, refspec_pattern = False\<rparr>"

definition disposition_table :: "nat list" where
  "disposition_table = [
     1, 4, 4, 4, 4, 4, 4, 4, 4, 4, 4, 4, 4, 4, 4, 4,
     4, 4, 4, 4, 4, 4, 4, 4, 4, 4, 4, 4, 4, 4, 4, 4,
     4, 0, 0, 0, 0, 0, 0, 0, 0, 0, 5, 0, 0, 0, 2, 1,
     0, 0, 0, 0, 0, 0, 0, 0, 0, 0, 4, 0, 0, 0, 0, 4,
     0, 0, 0, 0, 0, 0, 0, 0, 0, 0, 0, 0, 0, 0, 0, 0,
     0, 0, 0, 0, 0, 0, 0, 0, 0, 0, 0, 4, 4, 0, 4, 0,
     0, 0, 0, 0, 0, 0, 0, 0, 0, 0, 0, 0, 0, 0, 0, 0,
     0, 0, 0, 0, 0, 0, 0, 0, 0, 0, 0, 3, 0, 0, 4, 4]"

text \<open>The array has 256 places; the literal leaves the upper half zero.\<close>

definition refname_disposition :: "byte \<Rightarrow> nat" where
  "refname_disposition c = (if unat c < 128 then disposition_table ! unat c else 0)"

definition lock_suffix :: bytes where
  "lock_suffix = str ''.lock''"

fun component_scan :: "bytes \<Rightarrow> byte \<Rightarrow> nat \<Rightarrow> refname_flags \<Rightarrow> (nat \<times> refname_flags) option" where
  "component_scan [] prev i fl = Some (i, fl)"
| "component_scan (ch # rest) prev i fl =
     (let d = refname_disposition ch in
      if d = 1 then Some (i, fl)
      else if d = 2 then
        (if prev = ascii CHR ''.'' then None else component_scan rest ch (Suc i) fl)
      else if d = 3 then
        (if prev = ascii CHR ''@'' then None else component_scan rest ch (Suc i) fl)
      else if d = 4 then None
      else if d = 5 then
        (if \<not> refspec_pattern fl then None
         else component_scan rest ch (Suc i) (fl\<lparr>refspec_pattern := False\<rparr>))
      else component_scan rest ch (Suc i) fl)"

definition check_refname_component :: "bytes \<Rightarrow> refname_flags \<Rightarrow> (nat \<times> refname_flags) option" where
  "check_refname_component refname fl =
     (case component_scan refname 0 0 fl of
        None \<Rightarrow> None
      | Some (i, fl') \<Rightarrow>
          if i = 0 then Some (0, fl')
          else if refname ! 0 = ascii CHR ''.'' then None
          else if length lock_suffix \<le> i \<and>
                  take (length lock_suffix) (drop (i - length lock_suffix) refname) = lock_suffix
          then None
          else Some (i, fl'))"

function check_refname_loop :: "bytes \<Rightarrow> nat \<Rightarrow> refname_flags \<Rightarrow> bool" where
  "check_refname_loop refname count fl =
     (case check_refname_component refname fl of
        None \<Rightarrow> False
      | Some (n, fl') \<Rightarrow>
          if n = 0 then False
          else if length refname \<le> n then
            refname ! (n - 1) \<noteq> ascii CHR ''.'' \<and> (allow_onelevel fl' \<or> 2 \<le> Suc count)
          else check_refname_loop (drop (Suc n) refname) (Suc count) fl')"
  by pat_completeness auto
termination
  by (relation "measure (\<lambda>(s, _, _). length s)") auto

declare check_refname_loop.simps [simp del]

definition check_refname_format :: "bytes \<Rightarrow> refname_flags \<Rightarrow> bool" where
  "check_refname_format refname fl \<longleftrightarrow>
     (if refname = str ''@'' then False else check_refname_loop refname 0 fl)"

definition is_branch_ref :: "bytes \<Rightarrow> bool" where
  "is_branch_ref refname \<longleftrightarrow> has_prefix refname (str ''refs/heads/'')"

definition irregular_root_refs :: "bytes list" where
  "irregular_root_refs = [str ''HEAD'', str ''AUTO_MERGE'', str ''BISECT_EXPECTED_REV'',
     str ''NOTES_MERGE_PARTIAL'', str ''NOTES_MERGE_REF'', str ''MERGE_AUTOSTASH'']"

definition is_root_ref_syntax :: "bytes \<Rightarrow> bool" where
  "is_root_ref_syntax refname \<longleftrightarrow>
     list_all (\<lambda>c. \<not> ((c < ascii CHR ''A'' \<or> ascii CHR ''Z'' < c) \<and>
       c \<noteq> ascii CHR ''-'' \<and> c \<noteq> ascii CHR ''_'')) refname"

definition is_pseudo_ref :: "bytes \<Rightarrow> bool" where
  "is_pseudo_ref refname \<longleftrightarrow> refname = str ''FETCH_HEAD'' \<or> refname = str ''MERGE_HEAD''"

definition is_root_ref :: "bytes \<Rightarrow> bool" where
  "is_root_ref refname \<longleftrightarrow>
     (if \<not> is_root_ref_syntax refname \<or> is_pseudo_ref refname then False
      else if has_suffix refname (str ''_HEAD'') then True
      else refname \<in> set irregular_root_refs)"

section \<open>The grammar\<close>

text \<open>
  A separator is a slash or, because the code's table gives it the same class, a NUL byte.
  \<open>pair_ok\<close> rules out the two-byte sequences no component may hold.
\<close>

definition is_sep :: "byte \<Rightarrow> bool" where
  "is_sep c \<longleftrightarrow> c = 0 \<or> c = ascii CHR ''/''"

definition forbidden_byte :: "byte \<Rightarrow> bool" where
  "forbidden_byte c \<longleftrightarrow> unat c \<le> 32 \<or> c = 127 \<or>
     c \<in> set (str '':?[^~*'') \<or> c = ascii CHR 0x5C"

definition pair_ok :: "byte \<Rightarrow> byte \<Rightarrow> bool" where
  "pair_ok a b \<longleftrightarrow> \<not> (a = ascii CHR ''.'' \<and> b = ascii CHR ''.'') \<and>
     \<not> (a = ascii CHR ''@'' \<and> b = ascii CHR ''{'')"

definition good_component :: "bytes \<Rightarrow> bool" where
  "good_component w \<longleftrightarrow> w \<noteq> [] \<and> hd w \<noteq> ascii CHR ''.'' \<and> (\<forall>c \<in> set w. \<not> forbidden_byte c) \<and>
     adjacent pair_ok w \<and> \<not> has_suffix w lock_suffix"

lemma disposition_table_eq:
  "disposition_table = map (\<lambda>n. if n = 0 \<or> n = 47 then 1 else if n = 46 then 2
     else if n = 123 then 3 else if n = 42 then 5
     else if n \<le> 32 \<or> n \<in> set [58, 63, 91, 92, 94, 126, 127] then 4 else 0) [0..<128]"
  by code_simp

lemma disposition_iff:
  "refname_disposition c =
     (if c = 0 \<or> c = 47 then 1 else if c = 46 then 2 else if c = 123 then 3 else if c = 42 then 5
      else if unat c \<le> 32 \<or> c \<in> {58, 63, 91, 92, 94, 126, 127} then 4 else 0)"
proof (cases "unat c < 128")
  case True
  then show ?thesis
    by (simp add: refname_disposition_def disposition_table_eq word_unat_eq_iff)
next
  case False
  then show ?thesis by (auto simp: refname_disposition_def)
qed

lemma disposition_facts:
  "refname_disposition c = 1 \<longleftrightarrow> is_sep c"
  "refname_disposition c = 2 \<longleftrightarrow> c = 46"
  "refname_disposition c = 3 \<longleftrightarrow> c = 123"
  "\<not> is_sep c \<Longrightarrow> forbidden_byte c \<longleftrightarrow> refname_disposition c = 4 \<or> refname_disposition c = 5"
  by (auto simp: disposition_iff is_sep_def forbidden_byte_def split: if_splits)

abbreviation not_sep :: "byte \<Rightarrow> bool" where
  "not_sep c \<equiv> \<not> is_sep c"

lemma component_scan_eq:
  "\<not> refspec_pattern fl \<Longrightarrow> component_scan s prev i fl =
     (let w = takeWhile not_sep s
      in if (\<forall>c \<in> set w. \<not> forbidden_byte c) \<and> adjacent pair_ok (prev # w)
         then Some (i + length w, fl) else None)"
proof (induction s arbitrary: prev i)
  case Nil
  then show ?case by simp
next
  case (Cons ch s)
  show ?case
  proof (cases "is_sep ch")
    case True
    then show ?thesis using disposition_facts(1) [of ch] by simp
  next
    case False
    have pair: "pair_ok prev ch \<longleftrightarrow> \<not> (ch = 46 \<and> prev = 46) \<and> \<not> (ch = 123 \<and> prev = 64)"
      by (auto simp: pair_ok_def)
    from Cons.IH [OF Cons.prems] Cons.prems False disposition_facts [of ch] show ?thesis
      by (auto simp: Let_def pair)
  qed
qed

lemma adjacent_zero: "adjacent pair_ok (0 # w) \<longleftrightarrow> adjacent pair_ok w"
  by (cases w) (auto simp: pair_ok_def)

lemma suffix_window:
  "length l \<le> length w \<Longrightarrow> take (length l) (drop (length w - length l) (w @ r)) = drop (length w - length l) w"
  by simp

lemma check_refname_component_eq:
  assumes "\<not> refspec_pattern fl"
  shows "check_refname_component s fl =
    (let w = takeWhile not_sep s
     in if w = [] then Some (0, fl) else if good_component w then Some (length w, fl) else None)"
proof -
  define w where "w = takeWhile not_sep s"
  define r where "r = dropWhile not_sep s"
  have s: "s = w @ r" by (simp add: w_def r_def)
  have scan: "component_scan s 0 0 fl =
      (if (\<forall>c \<in> set w. \<not> forbidden_byte c) \<and> adjacent pair_ok w then Some (length w, fl) else None)"
    using component_scan_eq [OF assms, of s 0 0] by (simp add: Let_def adjacent_zero flip: w_def)
  show ?thesis
  proof (cases w)
    case Nil
    with scan show ?thesis by (simp add: check_refname_component_def flip: w_def)
  next
    case (Cons c w')
    have "has_suffix w lock_suffix \<longleftrightarrow> length lock_suffix \<le> length w \<and>
        take (length lock_suffix) (drop (length w - length lock_suffix) s) = lock_suffix"
      unfolding has_suffix_def s by (auto simp: suffix_window)
    moreover have "s ! 0 = hd w" "w \<noteq> []" using Cons s by auto
    ultimately show ?thesis
      using scan by (auto simp: check_refname_component_def good_component_def Let_def simp flip: w_def)
  qed
qed

lemma check_refname_loop_eq:
  "\<not> refspec_pattern fl \<Longrightarrow> check_refname_loop s count fl \<longleftrightarrow>
     list_all good_component (split_by is_sep s) \<and>
     last (last (split_by is_sep s)) \<noteq> ascii CHR ''.'' \<and>
     (allow_onelevel fl \<or> 2 \<le> count + length (split_by is_sep s))"
proof (induction "length s" arbitrary: s count rule: less_induct)
  case less
  define w where "w = takeWhile not_sep s"
  define r where "r = dropWhile not_sep s"
  have s: "s = w @ r" by (simp add: w_def r_def)
  have comp: "check_refname_component s fl =
      (if w = [] then Some (0, fl) else if good_component w then Some (length w, fl) else None)"
    using check_refname_component_eq [OF less.prems, of s] by (simp add: Let_def flip: w_def)
  have split: "split_by is_sep s = w # (case r of [] \<Rightarrow> [] | _ # ys \<Rightarrow> split_by is_sep ys)"
    by (subst split_by_takeWhile) (simp add: w_def r_def)
  show ?case
  proof (cases "good_component w")
    case False
    then show ?thesis
      by (subst check_refname_loop.simps) (auto simp: comp split)
  next
    case good: True
    then have ne: "w \<noteq> []" by (auto simp: good_component_def)
    show ?thesis
    proof (cases r)
      case Nil
      then have sw: "s = w" using s by simp
      have "check_refname_component w fl = Some (length w, fl)" "split_by is_sep w = [w]"
        using comp split good ne Nil by (simp_all add: sw)
      with good ne show ?thesis unfolding sw
        by (subst check_refname_loop.simps) (auto simp: last_conv_nth)
    next
      case (Cons c ys)
      have "check_refname_loop ys (Suc count) fl \<longleftrightarrow>
          list_all good_component (split_by is_sep ys) \<and>
          last (last (split_by is_sep ys)) \<noteq> ascii CHR ''.'' \<and>
          (allow_onelevel fl \<or> 2 \<le> Suc count + length (split_by is_sep ys))"
        by (rule less.hyps) (use s Cons less.prems in auto)
      moreover have "check_refname_component s fl = Some (length w, fl)"
        "split_by is_sep s = w # split_by is_sep ys" "drop (Suc (length w)) s = ys"
        "\<not> length s \<le> length w"
        using comp split good ne Cons by (simp_all add: s)
      ultimately show ?thesis using good ne
        by (subst check_refname_loop.simps) auto
    qed
  qed
qed

text \<open>
  C29: with no flags, the reference name check accepts exactly the names other than the single
  character at-sign that are two or more good components joined by separators, the final one
  not ending in a period. A good component is not empty, does not start with a period, does not
  end in the lock suffix, and holds no forbidden byte, no two periods in a row and no at-brace.
\<close>

theorem refname_grammar:
  "check_refname_format s no_flags \<longleftrightarrow>
     s \<noteq> str ''@'' \<and> 2 \<le> length (split_by is_sep s) \<and>
     list_all good_component (split_by is_sep s) \<and>
     last (last (split_by is_sep s)) \<noteq> ascii CHR ''.''"
  using check_refname_loop_eq [of no_flags s 0]
  by (auto simp: check_refname_format_def no_flags_def)

text \<open>What other components use of an accepted name: no byte in it ends a line or a field.\<close>

lemma split_by_bytes: "c \<in> set s \<Longrightarrow> p c \<or> (\<exists>w \<in> set (split_by p s). c \<in> set w)"
proof (induction s)
  case (Cons x s)
  then show ?case by (cases "split_by p s") (auto split: if_splits)
qed simp

lemma check_refname_format_bytes:
  assumes "check_refname_format s no_flags" and "c \<in> set s"
  shows "is_sep c \<or> \<not> forbidden_byte c"
proof -
  have "list_all good_component (split_by is_sep s)"
    using assms(1) check_refname_loop_eq [of no_flags s 0]
    by (auto simp: check_refname_format_def no_flags_def split: if_splits)
  with split_by_bytes [OF assms(2), of is_sep] show ?thesis
    by (auto simp: list_all_iff good_component_def)
qed

lemma check_refname_format_nonempty:
  "check_refname_format s no_flags \<Longrightarrow> s \<noteq> []"
  by (auto simp: check_refname_format_def check_refname_loop.simps check_refname_component_def)

text \<open>
  A NUL byte is taken for a component separator, so the check accepts a name with a NUL in
  it that, read up to the NUL as git's C string would be, is a different reference.
\<close>

theorem refname_accepts_nul:
  "check_refname_format (str ''refs/heads/a'' @ 0 # str ''b'') no_flags \<and>
   split_by is_sep (str ''refs/heads/a'' @ 0 # str ''b'') =
     [str ''refs'', str ''heads'', str ''a'', str ''b'']"
proof -
  have "list_all good_component [str ''refs'', str ''heads'', str ''a'', str ''b'']"
    by (simp add: good_component_def forbidden_byte_def pair_ok_def has_suffix_def lock_suffix_def)
  moreover have "split_by is_sep (str ''refs/heads/a'' @ 0 # str ''b'') =
     [str ''refs'', str ''heads'', str ''a'', str ''b'']"
    by (simp add: is_sep_def)
  ultimately show ?thesis
    using check_refname_loop_eq [of no_flags "str ''refs/heads/a'' @ 0 # str ''b''" 0]
    by (simp add: check_refname_format_def no_flags_def)
qed

end
