(* ===== verification/DotGit.thy ===== *)
theory DotGit
  imports Fsck_Options
begin

text \<open>
  Names that reach a control file: \<open>internal/gitpath/dotgit.go\<close>. \<open>golang.org/x/text\<close>'s
  NFKD normalization is not under \<open>src/\<close>; it is the parameter \<open>normalizer\<close>, and the only
  thing the results below use of it is that an ASCII leading byte stays where it is.
  The rune decoder and the case folding are Go's standard library and are defined here.
\<close>

section \<open>Runes\<close>

type_synonym rune = nat

definition rune_self :: byte where "rune_self = 0x80"
definition rune_error :: rune where "rune_error = 0xFFFD"

definition is_cont :: "byte \<Rightarrow> bool" where
  "is_cont c \<longleftrightarrow> 0x80 \<le> c \<and> c \<le> 0xBF"

text \<open>\<open>utf8.DecodeRune\<close>: the code point and its width; a malformed sequence is the error rune
  with width one, an empty slice the error rune with width zero.\<close>

definition decode_rune :: "bytes \<Rightarrow> rune \<times> nat" where
  "decode_rune s =
     (case s of
        [] \<Rightarrow> (rune_error, 0)
      | a # r1 \<Rightarrow>
          if a < 0x80 then (unat a, 1)
          else (case r1 of
              [] \<Rightarrow> (rune_error, 1)
            | b # r2 \<Rightarrow>
                if 0xC2 \<le> a \<and> a \<le> 0xDF \<and> is_cont b
                then ((unat a mod 32) * 64 + unat b mod 64, 2)
                else (case r2 of
                    [] \<Rightarrow> (rune_error, 1)
                  | c # r3 \<Rightarrow>
                      if 0xE0 \<le> a \<and> a \<le> 0xEF \<and> is_cont b \<and> is_cont c \<and>
                         (a = 0xE0 \<longrightarrow> 0xA0 \<le> b) \<and> (a = 0xED \<longrightarrow> b \<le> 0x9F)
                      then ((unat a mod 16) * 4096 + (unat b mod 64) * 64 + unat c mod 64, 3)
                      else (case r3 of
                          [] \<Rightarrow> (rune_error, 1)
                        | d # r4 \<Rightarrow>
                            if 0xF0 \<le> a \<and> a \<le> 0xF4 \<and> is_cont b \<and> is_cont c \<and> is_cont d \<and>
                               (a = 0xF0 \<longrightarrow> 0x90 \<le> b) \<and> (a = 0xF4 \<longrightarrow> b \<le> 0x8F)
                            then ((unat a mod 8) * 262144 + (unat b mod 64) * 4096 +
                                  (unat c mod 64) * 64 + unat d mod 64, 4)
                            else (rune_error, 1)))))"

lemma decode_rune_size: "s \<noteq> [] \<Longrightarrow> 0 < snd (decode_rune s)"
  by (auto simp: decode_rune_def split: list.splits)

lemma decode_rune_ascii: "a < 0x80 \<Longrightarrow> decode_rune (a # s) = (unat a, 1)"
  by (simp add: decode_rune_def)

function runes :: "bytes \<Rightarrow> (rune \<times> nat) list" where
  "runes s = (if s = [] then [] else decode_rune s # runes (drop (snd (decode_rune s)) s))"
  by pat_completeness auto
termination
  by (relation "measure length") (auto simp: decode_rune_size)

declare runes.simps [simp del]

text \<open>\<open>utf8.Valid\<close>, and \<open>bytes.EqualFold\<close> against a lower-case ASCII name: two letters outside
  ASCII fold to ASCII ones, the Kelvin sign to k and the long s to s.\<close>

definition utf8_valid :: "bytes \<Rightarrow> bool" where
  "utf8_valid s \<longleftrightarrow> list_all (\<lambda>(r, n). \<not> (r = rune_error \<and> n = 1)) (runes s)"

definition fold_rune :: "rune \<Rightarrow> rune" where
  "fold_rune r =
     (if 65 \<le> r \<and> r \<le> 90 then r + 32
      else if r = 0x212A then 107
      else if r = 0x017F then 115
      else r)"

definition equal_fold :: "bytes \<Rightarrow> bytes \<Rightarrow> bool" where
  "equal_fold s t \<longleftrightarrow> map (fold_rune \<circ> fst) (runes s) = map unat t"

section \<open>Control names\<close>

datatype needle = dotGit | dotGitmodules | dotGitignore | dotGitattrs | dotMailmap

definition needle_str :: "needle \<Rightarrow> bytes" where
  "needle_str n =
     (case n of dotGit \<Rightarrow> str ''git'' | dotGitmodules \<Rightarrow> str ''gitmodules''
      | dotGitignore \<Rightarrow> str ''gitignore'' | dotGitattrs \<Rightarrow> str ''gitattributes''
      | dotMailmap \<Rightarrow> str ''mailmap'')"

definition dotted :: "needle \<Rightarrow> bytes" where
  "dotted n =
     (case n of dotGit \<Rightarrow> str ''.git'' | dotGitmodules \<Rightarrow> str ''.gitmodules''
      | dotGitignore \<Rightarrow> str ''.gitignore'' | dotGitattrs \<Rightarrow> str ''.gitattributes''
      | dotMailmap \<Rightarrow> str ''.mailmap'')"

definition eq_any_case :: "byte \<Rightarrow> byte \<Rightarrow> bool" where
  "eq_any_case c l \<longleftrightarrow> to_lower c = l"

definition has_prefix_fold :: "bytes \<Rightarrow> bytes \<Rightarrow> bool" where
  "has_prefix_fold s p \<longleftrightarrow> length p \<le> length s \<and> map to_lower (take (length p) s) = p"

definition could_reach :: "bytes \<Rightarrow> bool" where
  "could_reach name =
     (case name of [] \<Rightarrow> False
      | c # rest \<Rightarrow>
          if c = ascii CHR ''.'' \<or> c = ascii CHR ''~'' \<or> rune_self \<le> c then True
          else (case rest of [] \<Rightarrow> False
            | c1 # _ \<Rightarrow>
                if to_lower c = ascii CHR ''g'' then
                  to_lower c1 = ascii CHR ''i'' \<or> to_lower c1 = ascii CHR ''~''
                else if to_lower c = ascii CHR ''m'' then
                  to_lower c1 = ascii CHR ''a'' \<or> to_lower c1 = ascii CHR ''~''
                else False))"

definition is_ascii :: "bytes \<Rightarrow> bool" where
  "is_ascii b \<longleftrightarrow> list_all (\<lambda>c. c < rune_self) b"

definition ntfs_shortname_prefix :: "needle \<Rightarrow> bytes" where
  "ntfs_shortname_prefix n =
     (case n of dotGitmodules \<Rightarrow> str ''gi7eba'' | dotGitignore \<Rightarrow> str ''gi250a''
      | dotGitattrs \<Rightarrow> str ''gi7d29'' | dotMailmap \<Rightarrow> str ''maba30'' | dotGit \<Rightarrow> [])"

definition hfs_ignorable :: "rune \<Rightarrow> bool" where
  "hfs_ignorable r \<longleftrightarrow> r \<in> set [0x200c, 0x200d, 0x200e, 0x200f,
     0x202a, 0x202b, 0x202c, 0x202d, 0x202e,
     0x206a, 0x206b, 0x206c, 0x206d, 0x206e, 0x206f, 0xfeff]"

text \<open>The next code point HFS+ compares and what follows it; \<open>None\<close> on a malformed sequence.
  The end of the name is code point 0.\<close>

function next_hfs_char :: "bytes \<Rightarrow> (rune \<times> bytes) option" where
  "next_hfs_char s =
     (if s = [] then Some (0, [])
      else let r = fst (decode_rune s); n = snd (decode_rune s)
           in if r = rune_error \<and> n \<le> 1 then None
              else if hfs_ignorable r then next_hfs_char (drop n s)
              else Some (r, drop n s))"
  by pat_completeness auto
termination
  by (relation "measure length") (auto simp: decode_rune_size)

declare next_hfs_char.simps [simp del]

fun hfs_match :: "bytes \<Rightarrow> bytes \<Rightarrow> bool" where
  "hfs_match [] s =
     (case next_hfs_char s of None \<Rightarrow> False
      | Some (r, _) \<Rightarrow> r = 0 \<or> r = 47 \<or> r = 92)"
| "hfs_match (c # cs) s =
     (case next_hfs_char s of None \<Rightarrow> False
      | Some (r, rest) \<Rightarrow>
          if 127 < r \<or> to_lower (word_of_nat r) \<noteq> c then False else hfs_match cs rest)"

definition is_hfs_dot_generic :: "bytes \<Rightarrow> needle \<Rightarrow> bool" where
  "is_hfs_dot_generic name n =
     (case next_hfs_char name of None \<Rightarrow> False
      | Some (r, rest) \<Rightarrow> if r \<noteq> 46 then False else hfs_match (needle_str n) rest)"

text \<open>The closure \<open>next\<close> of \<open>isNTFSDotGit\<close> yields 0 past the end.\<close>

fun next_byte :: "bytes \<Rightarrow> byte \<times> bytes" where
  "next_byte [] = (0, [])"
| "next_byte (c # cs) = (c, cs)"

fun ntfs_tail :: "bytes \<Rightarrow> bool" where
  "ntfs_tail [] = True"
| "ntfs_tail (c # cs) =
     (if c = 0 \<or> c = ascii CHR ''/'' \<or> c = 92 \<or> c = ascii CHR '':'' then True
      else if c \<noteq> ascii CHR ''.'' \<and> c \<noteq> ascii CHR '' '' then False
      else ntfs_tail cs)"

definition is_ntfs_dot_git :: "bytes \<Rightarrow> bool" where
  "is_ntfs_dot_git name =
     (let (c, s0) = next_byte name; (c1, s1) = next_byte s0; (c2, s2) = next_byte s1;
          (c3, s3) = next_byte s2; (c4, s4) = next_byte s3
      in if c = ascii CHR ''.'' then
           eq_any_case c1 (ascii CHR ''g'') \<and> eq_any_case c2 (ascii CHR ''i'') \<and>
           eq_any_case c3 (ascii CHR ''t'') \<and> ntfs_tail s3
         else if c = ascii CHR ''g'' \<or> c = ascii CHR ''G'' then
           eq_any_case c1 (ascii CHR ''i'') \<and> eq_any_case c2 (ascii CHR ''t'') \<and>
           c3 = ascii CHR ''~'' \<and> c4 = ascii CHR ''1'' \<and> ntfs_tail s4
         else False)"

fun only_spaces_tail :: "bytes \<Rightarrow> bool" where
  "only_spaces_tail [] = True"
| "only_spaces_tail (c # cs) =
     (if c = ascii CHR '':'' then True
      else if c \<noteq> ascii CHR '' '' \<and> c \<noteq> ascii CHR ''.'' then False
      else only_spaces_tail cs)"

definition only_spaces_and_periods :: "bytes \<Rightarrow> nat \<Rightarrow> bool" where
  "only_spaces_and_periods name i = only_spaces_tail (drop i name)"

text \<open>The loop over the eight characters of a short name; the tilde consumes its digit.\<close>

function short_name_loop :: "bytes \<Rightarrow> bytes \<Rightarrow> nat \<Rightarrow> bool \<Rightarrow> bool" where
  "short_name_loop name prefix i saw_tilde =
     (if 8 \<le> i then True
      else if length name \<le> i \<or> name ! i = 0 then False
      else if saw_tilde then
        (if name ! i < ascii CHR ''0'' \<or> ascii CHR ''9'' < name ! i then False
         else short_name_loop name prefix (Suc i) True)
      else if name ! i = ascii CHR ''~'' then
        (if length name \<le> Suc i \<or> name ! Suc i < ascii CHR ''1'' \<or> ascii CHR ''9'' < name ! Suc i
         then False
         else short_name_loop name prefix (Suc (Suc i)) True)
      else if 6 \<le> i then False
      else if name ! i AND 0x80 \<noteq> 0 then False
      else if to_lower (name ! i) \<noteq> prefix ! i then False
      else short_name_loop name prefix (Suc i) False)"
  by pat_completeness auto
termination
  by (relation "measure (\<lambda>(_, _, i, _). 8 - i)") auto

declare short_name_loop.simps [simp del]

definition is_ntfs_dot_generic :: "bytes \<Rightarrow> needle \<Rightarrow> bool" where
  "is_ntfs_dot_generic name n =
     (let s = needle_str n; prefix = ntfs_shortname_prefix n
      in if 0 < length name \<and> name ! 0 = ascii CHR ''.'' \<and> has_prefix_fold (drop 1 name) s
         then only_spaces_and_periods name (length s + 1)
         else if 6 \<le> length s \<and> has_prefix_fold name (take 6 s) \<and> 7 < length name \<and>
                 name ! 6 = ascii CHR ''~'' \<and> ascii CHR ''1'' \<le> name ! 7 \<and> name ! 7 \<le> ascii CHR ''4''
         then only_spaces_and_periods name 8
         else if short_name_loop name prefix 0 False then only_spaces_and_periods name 8
         else False)"

section \<open>Normalization\<close>

record normalizer =
  nf_is_normal :: "bytes \<Rightarrow> bool"
  nf_bytes :: "bytes \<Rightarrow> bytes"

definition is_ext4_dot_generic :: "bytes \<Rightarrow> needle \<Rightarrow> bool" where
  "is_ext4_dot_generic name n = (if \<not> utf8_valid name then False else equal_fold name (dotted n))"

definition is_zfs_dot_generic :: "normalizer \<Rightarrow> bytes \<Rightarrow> needle \<Rightarrow> bool" where
  "is_zfs_dot_generic nf name n =
     (if \<not> utf8_valid name then False
      else if nf_is_normal nf name then equal_fold name (dotted n)
      else equal_fold (nf_bytes nf name) (dotted n))"

definition matches :: "normalizer \<Rightarrow> bytes \<Rightarrow> needle \<Rightarrow> bool" where
  "matches nf name n =
     (if \<not> could_reach name then False
      else if n = dotGit \<and> (is_hfs_dot_generic name n \<or> is_ntfs_dot_git name) then True
      else if n \<noteq> dotGit \<and> (is_hfs_dot_generic name n \<or> is_ntfs_dot_generic name n) then True
      else if is_ascii name then False
      else is_ext4_dot_generic name n \<or> is_zfs_dot_generic nf name n)"

definition is_dot_git :: "normalizer \<Rightarrow> bytes \<Rightarrow> bool" where
  "is_dot_git nf name = matches nf name dotGit"

definition is_dot_gitmodules :: "normalizer \<Rightarrow> bytes \<Rightarrow> bool" where
  "is_dot_gitmodules nf name = matches nf name dotGitmodules"

definition is_dot_gitignore :: "normalizer \<Rightarrow> bytes \<Rightarrow> bool" where
  "is_dot_gitignore nf name = matches nf name dotGitignore"

definition is_dot_gitattributes :: "normalizer \<Rightarrow> bytes \<Rightarrow> bool" where
  "is_dot_gitattributes nf name = matches nf name dotGitattrs"

definition is_dot_mailmap :: "normalizer \<Rightarrow> bytes \<Rightarrow> bool" where
  "is_dot_mailmap nf name = matches nf name dotMailmap"

definition ntfs_dot_git :: "bytes \<Rightarrow> bool" where
  "ntfs_dot_git name \<longleftrightarrow> could_reach name \<and> is_ntfs_dot_git name"

definition ntfs_dot_gitmodules :: "bytes \<Rightarrow> bool" where
  "ntfs_dot_gitmodules name \<longleftrightarrow> could_reach name \<and> is_ntfs_dot_generic name dotGitmodules"

section \<open>The shortcuts lose nothing\<close>

text \<open>
  What Unicode documents of NFKD: ASCII is its own decomposition and never reordered, so an ASCII
  string is left alone and an ASCII leading byte stays in front.
\<close>

definition nfkd_laws :: "normalizer \<Rightarrow> bool" where
  "nfkd_laws nf \<longleftrightarrow>
     (\<forall>s. is_ascii s \<longrightarrow> nf_bytes nf s = s) \<and>
     (\<forall>b s. b < 0x80 \<longrightarrow> (\<exists>r. nf_bytes nf (b # s) = b # r))"

lemma runes_Nil [simp]: "runes [] = []"
  by (simp add: runes.simps)

lemma runes_ascii: "a < 0x80 \<Longrightarrow> runes (a # s) = (unat a, 1) # runes s"
  by (simp add: runes.simps [of "a # s"] decode_rune_ascii)

lemma runes_of_ascii: "is_ascii s \<Longrightarrow> map fst (runes s) = map unat s"
  by (induction s) (auto simp: is_ascii_def rune_self_def runes_ascii)

lemma byte_lt_128: "b < (0x80 :: byte) \<longleftrightarrow> unat b < 128"
  by (simp add: word_less_nat_alt)

lemma equal_fold_head:
  assumes "equal_fold (b # s) (ascii CHR ''.'' # t)" and "b < 0x80"
  shows "b = ascii CHR ''.''"
proof -
  from assms have "fold_rune (unat b) = 46"
    by (simp add: equal_fold_def runes_ascii)
  then have "unat b = 46" using assms(2) by (auto simp: fold_rune_def byte_lt_128 split: if_splits)
  then show ?thesis by (simp add: word_unat_eq_iff)
qed

lemma dotted_eq: "dotted n = ascii CHR ''.'' # needle_str n"
  by (cases n) (simp_all add: dotted_def needle_str_def)

lemma could_reach_high: "rune_self \<le> b \<Longrightarrow> could_reach (b # s)"
  by (simp add: could_reach_def)

lemma could_reach_dot: "could_reach (ascii CHR ''.'' # s)"
  by (simp add: could_reach_def)

lemma could_reach_equal_fold:
  assumes "equal_fold name (dotted n)"
  shows "could_reach name"
proof (cases name)
  case Nil
  with assms show ?thesis by (simp add: equal_fold_def dotted_eq)
next
  case (Cons b s)
  show ?thesis
  proof (cases "b < 0x80")
    case True
    with equal_fold_head assms Cons show ?thesis
      by (metis dotted_eq could_reach_dot)
  next
    case False
    with Cons show ?thesis by (simp add: could_reach_high rune_self_def)
  qed
qed

lemma could_reach_zfs:
  assumes "nfkd_laws nf" and "is_zfs_dot_generic nf name n"
  shows "could_reach name"
proof (cases "nf_is_normal nf name")
  case True
  with assms(2) show ?thesis
    by (auto simp: is_zfs_dot_generic_def intro: could_reach_equal_fold split: if_splits)
next
  case False
  with assms(2) have eq: "equal_fold (nf_bytes nf name) (dotted n)"
    by (auto simp: is_zfs_dot_generic_def split: if_splits)
  show ?thesis
  proof (cases name)
    case Nil
    have "nf_bytes nf [] = []" using assms(1) by (simp add: nfkd_laws_def is_ascii_def)
    with eq Nil show ?thesis by (simp add: equal_fold_def dotted_eq)
  next
    case (Cons b s)
    show ?thesis
    proof (cases "b < 0x80")
      case True
      with assms(1) obtain r where "nf_bytes nf (b # s) = b # r"
        unfolding nfkd_laws_def by blast
      with eq Cons True equal_fold_head show ?thesis by (metis dotted_eq could_reach_dot)
    next
      case False
      with Cons show ?thesis by (simp add: could_reach_high rune_self_def)
    qed
  qed
qed

lemma hfs_ignorable_high: "r < 128 \<Longrightarrow> \<not> hfs_ignorable r"
  by (auto simp: hfs_ignorable_def)

lemma next_hfs_char_Nil [simp]: "next_hfs_char [] = Some (0, [])"
  by (simp add: next_hfs_char.simps)

lemma next_hfs_char_ascii: "b < 0x80 \<Longrightarrow> next_hfs_char (b # s) = Some (unat b, s)"
  by (subst next_hfs_char.simps)
    (simp add: decode_rune_ascii rune_error_def hfs_ignorable_high byte_lt_128)

lemma could_reach_hfs:
  assumes "is_hfs_dot_generic name n"
  shows "could_reach name"
proof (cases name)
  case Nil
  with assms show ?thesis by (simp add: is_hfs_dot_generic_def)
next
  case (Cons b s)
  show ?thesis
  proof (cases "b < 0x80")
    case True
    with assms Cons have "unat b = 46"
      by (simp add: is_hfs_dot_generic_def next_hfs_char_ascii split: if_splits)
    then have "b = ascii CHR ''.''" by (simp add: word_unat_eq_iff)
    with Cons show ?thesis using could_reach_dot by blast
  next
    case False
    with Cons show ?thesis by (simp add: could_reach_high rune_self_def)
  qed
qed

lemma to_lower_closed [simp]:
  "to_lower 126 = 126" "to_lower 0 = 0" "to_lower 103 = 103" "to_lower 71 = 103"
  by (simp_all add: to_lower_def)

lemma could_reach_ntfs_git:
  assumes "is_ntfs_dot_git name"
  shows "could_reach name"
proof (cases name)
  case Nil
  with assms show ?thesis by (simp add: is_ntfs_dot_git_def)
next
  case (Cons c s)
  with assms show ?thesis
    by (cases s) (auto simp: is_ntfs_dot_git_def could_reach_def eq_any_case_def Let_def
        split: if_splits prod.splits)
qed

lemma short_name_loop_step:
  assumes "short_name_loop (c # c1 # s) prefix 0 False" and "c \<noteq> ascii CHR ''~''"
  shows "to_lower c = prefix ! 0 \<and> (c1 = ascii CHR ''~'' \<or> to_lower c1 = prefix ! 1)"
proof (rule ccontr)
  assume no: "\<not> ?thesis"
  have "\<not> short_name_loop (c # c1 # s) prefix 0 False"
  proof (cases "to_lower c = prefix ! 0")
    case True
    with no have "\<not> short_name_loop (c # c1 # s) prefix (Suc 0) False"
      by (simp add: short_name_loop.simps [of "c # c1 # s" prefix "Suc 0" False])
    then show ?thesis
      using assms(2) by (simp add: short_name_loop.simps [of "c # c1 # s" prefix 0 False])
  next
    case False
    then show ?thesis
      using assms(2) by (simp add: short_name_loop.simps [of "c # c1 # s" prefix 0 False])
  qed
  with assms(1) show False by simp
qed

lemma could_reach_ntfs_generic:
  assumes "is_ntfs_dot_generic name n" and "n \<noteq> dotGit"
  shows "could_reach name"
proof (cases name)
  case Nil
  with assms show ?thesis
    by (simp add: is_ntfs_dot_generic_def has_prefix_fold_def short_name_loop.simps Let_def split: if_splits)
next
  case c: (Cons c s)
  show ?thesis
  proof (cases s)
    case Nil
    with assms c show ?thesis
      by (cases n) (auto simp: is_ntfs_dot_generic_def has_prefix_fold_def needle_str_def Let_def
          short_name_loop.simps [of _ _ 0] short_name_loop.simps [of _ _ "Suc 0"] could_reach_def
          split: if_splits)
  next
    case c1: (Cons c1 r)
    show ?thesis
    proof (cases "c = ascii CHR ''.''")
      case True
      with c show ?thesis using could_reach_dot by blast
    next
      case False
      with assms(1) c c1 have "has_prefix_fold name (take 6 (needle_str n)) \<or>
          short_name_loop name (ntfs_shortname_prefix n) 0 False"
        by (auto simp: is_ntfs_dot_generic_def Let_def split: if_splits)
      then show ?thesis
      proof
        assume "has_prefix_fold name (take 6 (needle_str n))"
        with assms(2) c c1 show ?thesis
          by (cases n) (simp_all add: has_prefix_fold_def needle_str_def could_reach_def)
      next
        assume "short_name_loop name (ntfs_shortname_prefix n) 0 False"
        then have "c = ascii CHR ''~'' \<or> to_lower c = ntfs_shortname_prefix n ! 0 \<and>
            (c1 = ascii CHR ''~'' \<or> to_lower c1 = ntfs_shortname_prefix n ! 1)"
          using short_name_loop_step [of c c1 r] c c1 by blast
        with c c1 assms(2) show ?thesis
          by (cases n) (auto simp: ntfs_shortname_prefix_def could_reach_def)
      qed
    qed
  qed
qed

lemma fold_rune_to_lower:
  assumes "b < 0x80"
  shows "fold_rune (unat b) = unat (to_lower b)"
proof (cases "ascii CHR ''A'' \<le> b \<and> b \<le> ascii CHR ''Z''")
  case True
  then have "65 \<le> unat b" "unat b \<le> 90" by (simp_all add: word_le_nat_alt)
  moreover from this have "unat (b + 97 - 65) = unat b + 32"
    by (simp add: unat_word_ariths unat_sub_if')
  ultimately show ?thesis using True by (simp add: fold_rune_def to_lower_def)
next
  case False
  then have "\<not> (65 \<le> unat b \<and> unat b \<le> 90)" by (simp add: word_le_nat_alt)
  with False assms show ?thesis by (auto simp: fold_rune_def to_lower_def byte_lt_128)
qed

lemma hfs_match_ascii: "is_ascii s \<Longrightarrow> map to_lower s = t \<Longrightarrow> hfs_match t s"
proof (induction s arbitrary: t)
  case Nil
  then show ?case by simp
next
  case (Cons b s)
  then have "b < 0x80" by (simp add: is_ascii_def rune_self_def)
  with Cons show ?case
    by (auto simp: next_hfs_char_ascii is_ascii_def byte_lt_128)
qed

lemma equal_fold_ascii:
  assumes "is_ascii s"
  shows "equal_fold s t \<longleftrightarrow> map to_lower s = t"
proof -
  have "map (fold_rune \<circ> fst) (runes s) = map fold_rune (map unat s)"
    using runes_of_ascii [OF assms] by (metis map_map)
  also have "\<dots> = map unat (map to_lower s)"
    using assms by (auto simp: is_ascii_def rune_self_def list_all_iff fold_rune_to_lower)
  finally show ?thesis
    unfolding equal_fold_def by (metis inj_map_eq_map injI word_unat_eq_iff)
qed

lemma ascii_fold_is_hfs:
  assumes "is_ascii name" and "equal_fold name (dotted n)"
  shows "is_hfs_dot_generic name n"
proof -
  from assms equal_fold_ascii have low: "map to_lower name = ascii CHR ''.'' # needle_str n"
    by (simp add: dotted_eq)
  then obtain b s where name: "name = b # s" by (cases name) auto
  with assms(1) have b: "b < 0x80" "is_ascii s" by (auto simp: is_ascii_def rune_self_def)
  have "b = ascii CHR ''.''"
    using equal_fold_head assms(2) b(1) unfolding name dotted_eq by blast
  with low name b hfs_match_ascii show ?thesis
    by (simp add: is_hfs_dot_generic_def next_hfs_char_ascii)
qed

text \<open>
  C31: the two shortcuts of the name check, the filter on a name's leading bytes and the early
  answer for an ASCII name, never change its answer: for every normalizer that leaves ASCII
  alone, a name is reported exactly when one of the four file systems resolves it to the
  control name.
\<close>

theorem dotgit_shortcuts_sound:
  assumes "nfkd_laws nf"
  shows "matches nf name n \<longleftrightarrow>
    is_hfs_dot_generic name n \<or>
    (if n = dotGit then is_ntfs_dot_git name else is_ntfs_dot_generic name n) \<or>
    is_ext4_dot_generic name n \<or> is_zfs_dot_generic nf name n"
    (is "_ \<longleftrightarrow> ?any")
proof -
  have reach: "could_reach name" if ?any
    using that could_reach_hfs could_reach_ntfs_git could_reach_ntfs_generic
      could_reach_equal_fold could_reach_zfs [OF assms]
    by (auto simp: is_ext4_dot_generic_def split: if_splits)
  have ascii: "is_hfs_dot_generic name n"
    if "is_ascii name" "is_ext4_dot_generic name n \<or> is_zfs_dot_generic nf name n"
    using that ascii_fold_is_hfs assms
    by (auto simp: is_ext4_dot_generic_def is_zfs_dot_generic_def nfkd_laws_def split: if_splits)
  show ?thesis
    using reach ascii by (auto simp: matches_def)
qed

theorem dotgit_shortcuts_sound_witness:
  "let nf = \<lparr>nf_is_normal = (\<lambda>s. is_ascii s), nf_bytes = (\<lambda>s. s)\<rparr>
   in matches nf (str ''.GIT'') dotGit \<and> matches nf (str ''GI7EBA~1'') dotGitmodules"
proof -
  let ?nf = "\<lparr>nf_is_normal = (\<lambda>s. is_ascii s), nf_bytes = (\<lambda>s. s)\<rparr>"
  have nf: "nfkd_laws ?nf" by (simp add: nfkd_laws_def)
  have "is_ntfs_dot_git (str ''.GIT'')"
    by (simp add: is_ntfs_dot_git_def eq_any_case_def to_lower_def)
  moreover have "is_ntfs_dot_generic (str ''GI7EBA~1'') dotGitmodules"
    by (simp add: is_ntfs_dot_generic_def has_prefix_fold_def needle_str_def ntfs_shortname_prefix_def
        short_name_loop.simps to_lower_def only_spaces_and_periods_def Let_def)
  ultimately show ?thesis
    using dotgit_shortcuts_sound [OF nf, of "str ''.GIT''" dotGit]
      dotgit_shortcuts_sound [OF nf, of "str ''GI7EBA~1''" dotGitmodules]
    by (simp add: Let_def)
qed

end
