(* ===== verification/TreeObj.thy ===== *)
theory TreeObj
  imports DotGit
begin

text \<open>
  Tree objects: \<open>internal/fsck/tree.go\<close>. Parsing (\<open>decode_tree_entry\<close>, \<open>parse_tree\<close>), the order
  and duplicate check with its stack of pending names (\<open>verify_ordered\<close>), and the whole check of
  a decoded tree (\<open>tree_entries\<close>). The local flags of \<open>TreeEntries\<close> are the record \<open>tree_scan\<close>;
  \<open>candidates\<close> is the code's slice with its end first.
\<close>

section \<open>Entries\<close>

definition mode_dir :: "32 word" where "mode_dir = 0x4000"
definition mode_regular :: "32 word" where "mode_regular = 0x8000"
definition mode_symlink :: "32 word" where "mode_symlink = 0xA000"
definition mode_gitlink :: "32 word" where "mode_gitlink = 0xE000"
definition mode_mask :: "32 word" where "mode_mask = 0xF000"

lemmas mode_defs = mode_dir_def mode_regular_def mode_symlink_def mode_gitlink_def mode_mask_def

record tree_entry =
  te_mode :: "32 word"
  te_name :: bytes
  te_oid :: oid
  te_raw :: bytes

definition is_dir :: "tree_entry \<Rightarrow> bool" where
  "is_dir e \<longleftrightarrow> te_mode e AND mode_mask = mode_dir"

definition is_gitlink :: "tree_entry \<Rightarrow> bool" where
  "is_gitlink e \<longleftrightarrow> te_mode e AND mode_mask = mode_gitlink"

definition is_symlink :: "tree_entry \<Rightarrow> bool" where
  "is_symlink e \<longleftrightarrow> te_mode e AND mode_mask = mode_symlink"

definition is_regular :: "tree_entry \<Rightarrow> bool" where
  "is_regular e \<longleftrightarrow> te_mode e AND mode_mask = mode_regular"

definition walk_kind :: "tree_entry \<Rightarrow> obj_type \<times> bool" where
  "walk_kind e =
     (if is_regular e \<or> is_symlink e then (TypeBlob, True)
      else if is_dir e then (TypeTree, True)
      else (TypeNone, False))"

section \<open>Parsing\<close>

fun parse_mode :: "32 word \<Rightarrow> bytes \<Rightarrow> 32 word option" where
  "parse_mode m [] = Some m"
| "parse_mode m (c # cs) =
     (if c < ascii CHR ''0'' \<or> ascii CHR ''7'' < c then None
      else parse_mode (push_bit 3 m + ucast (c - ascii CHR ''0'')) cs)"

text \<open>\<open>None\<close> is \<open>errBadTree\<close>, the one error the decoder has.\<close>

definition decode_tree_entry :: "bytes \<Rightarrow> algo \<Rightarrow> (tree_entry \<times> bytes) option" where
  "decode_tree_entry buf a =
     (let rawsz = raw_size a in
      if length buf < rawsz + 3 then None
      else (case index_byte buf (ascii CHR '' '') of
          None \<Rightarrow> None
        | Some sp \<Rightarrow>
            if sp = 0 then None
            else (case parse_mode 0 (take sp buf) of
                None \<Rightarrow> None
              | Some mode \<Rightarrow>
                  (case index_byte (drop (sp + 1) buf) 0 of
                     None \<Rightarrow> None
                   | Some nul \<Rightarrow>
                       if nul = 0 then None
                       else let name_end = sp + 1 + nul in
                         if length buf < name_end + 1 + rawsz then None
                         else Some (\<lparr>te_mode = mode,
                                te_name = take nul (drop (sp + 1) buf),
                                te_oid = from_raw a (drop (name_end + 1) buf),
                                te_raw = take sp buf\<rparr>,
                              drop (name_end + 1 + rawsz) buf)))))"

lemma decode_tree_entry_shrinks:
  "decode_tree_entry buf a = Some (e, rest) \<Longrightarrow> length rest < length buf"
  by (auto simp: decode_tree_entry_def Let_def split: if_splits option.splits)

text \<open>The entries before the first one that will not decode, and whether there was one.\<close>

function parse_tree :: "bytes \<Rightarrow> algo \<Rightarrow> tree_entry list \<times> bool" where
  "parse_tree buf a =
     (if buf = [] then ([], False)
      else (case decode_tree_entry buf a of
          None \<Rightarrow> ([], True)
        | Some (e, rest) \<Rightarrow> (let (es, err) = parse_tree rest a in (e # es, err))))"
  by pat_completeness auto
termination
  by (relation "measure (length \<circ> fst)") (auto simp: decode_tree_entry_shrinks)

declare parse_tree.simps [simp del]

section \<open>Order and duplicates\<close>

datatype tree_order = TreeOrdered | TreeUnordered | TreeHasDups

definition is_less_than_slash :: "byte \<Rightarrow> bool" where
  "is_less_than_slash c \<longleftrightarrow> 0 < c \<and> c < ascii CHR ''/''"

text \<open>The inner loop of \<open>verifyOrdered\<close>: whether a pending name is this one, and what stays pending.\<close>

fun pop_candidates :: "bytes \<Rightarrow> bytes list \<Rightarrow> bool \<times> bytes list" where
  "pop_candidates name2 [] = (False, [])"
| "pop_candidates name2 (f # fs) =
     (if length name2 < length f \<or> take (length f) name2 \<noteq> f then pop_candidates name2 fs
      else (case drop (length f) name2 of
          [] \<Rightarrow> (True, fs)
        | c # _ \<Rightarrow> if is_less_than_slash c then (False, f # fs) else pop_candidates name2 fs))"

definition byte_at0 :: "bytes \<Rightarrow> nat \<Rightarrow> byte" where
  "byte_at0 s i = (if i < length s then s ! i else 0)"

definition verify_ordered ::
    "32 word \<Rightarrow> bytes \<Rightarrow> 32 word \<Rightarrow> bytes \<Rightarrow> bytes list \<Rightarrow> tree_order \<times> bytes list" where
  "verify_ordered mode1 name1 mode2 name2 cands =
     (let l = min (length name1) (length name2);
          cmp = bytes_compare (take l name1) (take l name2)
      in if cmp < 0 then (TreeOrdered, cands)
         else if 0 < cmp then (TreeUnordered, cands)
         else
           let c1 = byte_at0 name1 l; c2 = byte_at0 name2 l
           in if c1 = 0 \<and> c2 = 0 then (TreeHasDups, cands)
              else
                let c1' = (if c1 = 0 \<and> mode1 AND mode_mask = mode_dir then ascii CHR ''/'' else c1);
                    c2' = (if c2 = 0 \<and> mode2 AND mode_mask = mode_dir then ascii CHR ''/'' else c2);
                    final = (if c1' < c2' then TreeOrdered else TreeUnordered)
                in if c1' = 0 \<and> is_less_than_slash c2' then (final, name1 # cands)
                   else if c2' = ascii CHR ''/'' \<and> is_less_than_slash c1' then
                     (let (dup, cands') = pop_candidates name2 cands
                      in (if dup then TreeHasDups else final, cands'))
                   else (final, cands))"

section \<open>The tree check\<close>

record tree_scan =
  has_null_sha1 :: bool
  has_full_path :: bool
  has_empty_name :: bool
  has_dot :: bool
  has_dotdot :: bool
  has_dotgit :: bool
  has_zero_pad :: bool
  has_bad_modes :: bool
  has_dup_entries :: bool
  not_sorted :: bool
  has_large_name :: bool
  candidates :: "bytes list"
  prev_entry :: "tree_entry option"

definition init_scan :: tree_scan where
  "init_scan = \<lparr>has_null_sha1 = False, has_full_path = False, has_empty_name = False,
     has_dot = False, has_dotdot = False, has_dotgit = False, has_zero_pad = False,
     has_bad_modes = False, has_dup_entries = False, not_sorted = False, has_large_name = False,
     candidates = [], prev_entry = None\<rparr>"

definition found_gitmodules :: "options \<Rightarrow> oid \<Rightarrow> options" where
  "found_gitmodules q x = q\<lparr>gitmodules_found := insert x (gitmodules_found q)\<rparr>"

definition found_gitattributes :: "options \<Rightarrow> oid \<Rightarrow> options" where
  "found_gitattributes q x = q\<lparr>gitattributes_found := insert x (gitattributes_found q)\<rparr>"

text \<open>\<open>retval += o.report(...)\<close>, on the options and the running sum.\<close>

definition add_report ::
    "oid \<Rightarrow> obj_type \<Rightarrow> msg_id \<Rightarrow> bytes \<Rightarrow> options \<times> int \<Rightarrow> options \<times> int" where
  "add_report x t i text qr = (let (q', r) = report (fst qr) x t i text in (q', snd qr + r))"

definition add_report_if ::
    "bool \<Rightarrow> oid \<Rightarrow> msg_id \<Rightarrow> bytes \<Rightarrow> options \<times> int \<Rightarrow> options \<times> int" where
  "add_report_if b x i text qr = (if b then add_report x TypeTree i text qr else qr)"

definition quoted :: "bytes \<Rightarrow> bytes" where
  "quoted s = [39] @ s @ [39]"

text \<open>The segments behind each backslash of a name, first to last.\<close>

function backslash_segments :: "bytes \<Rightarrow> bytes list" where
  "backslash_segments s =
     (case index_byte s (ascii CHR 0x5C) of
        None \<Rightarrow> []
      | Some k \<Rightarrow> drop (k + 1) s # backslash_segments (drop (k + 1) s))"
  by pat_completeness auto
termination
  by (relation "measure length") (auto dest: index_byte_lt)

declare backslash_segments.simps [simp del]

definition gitmodules_hit :: "oid \<Rightarrow> tree_entry \<Rightarrow> options \<times> int \<Rightarrow> options \<times> int" where
  "gitmodules_hit x e qr =
     (if \<not> is_symlink e then (found_gitmodules (fst qr) (te_oid e), snd qr)
      else add_report x TypeTree MsgGitmodulesSymlink (str ''.gitmodules is a symbolic link'') qr)"

definition gitattributes_hit :: "oid \<Rightarrow> tree_entry \<Rightarrow> options \<times> int \<Rightarrow> options \<times> int" where
  "gitattributes_hit x e qr =
     (if \<not> is_symlink e then (found_gitattributes (fst qr) (te_oid e), snd qr)
      else add_report x TypeTree MsgGitattributesSymlink (str ''.gitattributes is a symlink'') qr)"

definition entry_mode_bad :: "bool \<Rightarrow> 32 word \<Rightarrow> bool" where
  "entry_mode_bad strict_on m =
     (if m \<in> set [mode_regular OR 0x1ED, mode_regular OR 0x1A4, mode_symlink, mode_dir, mode_gitlink]
      then False
      else if m = mode_regular OR 0x1B4 then strict_on
      else True)"

text \<open>The reports the loop body makes for one entry.\<close>

definition entry_reports ::
    "normalizer \<Rightarrow> oid \<Rightarrow> tree_entry \<Rightarrow> options \<times> int \<Rightarrow> options \<times> int" where
  "entry_reports nf x e qr0 =
     (let qr1 = (if is_dot_gitmodules nf (te_name e) then gitmodules_hit x e qr0 else qr0);
          qr2 = (if is_dot_gitattributes nf (te_name e) then gitattributes_hit x e qr1 else qr1);
          qr3 = add_report_if (is_symlink e \<and> is_dot_gitignore nf (te_name e)) x
                  MsgGitignoreSymlink (str ''.gitignore is a symlink'') qr2;
          qr4 = add_report_if (is_symlink e \<and> is_dot_mailmap nf (te_name e)) x
                  MsgMailmapSymlink (str ''.mailmap is a symlink'') qr3
      in fold (\<lambda>seg qr. if ntfs_dot_gitmodules seg then gitmodules_hit x e qr else qr)
           (backslash_segments (te_name e)) qr4)"

text \<open>The flags the loop body sets for one entry.\<close>

definition scan_order :: "tree_scan \<Rightarrow> tree_entry \<Rightarrow> tree_scan" where
  "scan_order s e =
     (case prev_entry s of
        None \<Rightarrow> s\<lparr>prev_entry := Some e\<rparr>
      | Some p \<Rightarrow>
          (case verify_ordered (te_mode p) (te_name p) (te_mode e) (te_name e) (candidates s) of
             (TreeUnordered, cs) \<Rightarrow> s\<lparr>not_sorted := True, candidates := cs, prev_entry := Some e\<rparr>
           | (TreeHasDups, cs) \<Rightarrow> s\<lparr>has_dup_entries := True, candidates := cs, prev_entry := Some e\<rparr>
           | (TreeOrdered, cs) \<Rightarrow> s\<lparr>candidates := cs, prev_entry := Some e\<rparr>))"

definition scan_flags :: "normalizer \<Rightarrow> bool \<Rightarrow> int \<Rightarrow> tree_scan \<Rightarrow> tree_entry \<Rightarrow> tree_scan" where
  "scan_flags nf strict_on max_len s e =
     (let name = te_name e in
      s\<lparr>has_null_sha1 := has_null_sha1 s \<or> is_null (te_oid e),
        has_full_path := has_full_path s \<or> ascii CHR ''/'' \<in> set name,
        has_empty_name := has_empty_name s \<or> name = [],
        has_dot := has_dot s \<or> name = str ''.'',
        has_dotdot := has_dotdot s \<or> name = str ''..'',
        has_dotgit := has_dotgit s \<or> is_dot_git nf name \<or>
          list_ex ntfs_dot_git (backslash_segments name),
        has_zero_pad := has_zero_pad s \<or> (te_raw e \<noteq> [] \<and> te_raw e ! 0 = ascii CHR ''0''),
        has_large_name := has_large_name s \<or> int (length name) > max_len,
        has_bad_modes := has_bad_modes s \<or> entry_mode_bad strict_on (te_mode e)\<rparr>)"

definition tree_step ::
    "normalizer \<Rightarrow> oid \<Rightarrow> tree_entry \<Rightarrow> tree_scan \<times> options \<times> int \<Rightarrow> tree_scan \<times> options \<times> int" where
  "tree_step nf x e st =
     (let (s, qr) = st
      in (scan_order (scan_flags nf (strict (fst qr)) (max_tree_entry_len (fst qr)) s e) e,
          entry_reports nf x e qr))"

definition final_reports :: "oid \<Rightarrow> bool \<Rightarrow> tree_scan \<Rightarrow> options \<times> int \<Rightarrow> options \<times> int" where
  "final_reports x err s qr0 =
     (let qr1 = add_report_if err x MsgBadTree (str ''cannot be parsed as a tree'') qr0;
          qr2 = add_report_if (has_null_sha1 s) x MsgNullSha1
                  (str ''contains entries pointing to null sha1'') qr1;
          qr3 = add_report_if (has_full_path s) x MsgFullPathname (str ''contains full pathnames'') qr2;
          qr4 = add_report_if (has_empty_name s) x MsgEmptyName (str ''contains empty pathname'') qr3;
          qr5 = add_report_if (has_dot s) x MsgHasDot (str ''contains '' @ quoted (str ''.'')) qr4;
          qr6 = add_report_if (has_dotdot s) x MsgHasDotdot (str ''contains '' @ quoted (str ''..'')) qr5;
          qr7 = add_report_if (has_dotgit s) x MsgHasDotgit (str ''contains '' @ quoted (str ''.git'')) qr6;
          qr8 = add_report_if (has_zero_pad s) x MsgZeroPaddedFilemode
                  (str ''contains zero-padded file modes'') qr7;
          qr9 = add_report_if (has_bad_modes s) x MsgBadFilemode (str ''contains bad file modes'') qr8;
          qr10 = add_report_if (has_dup_entries s) x MsgDuplicateEntries
                  (str ''contains duplicate file entries'') qr9;
          qr11 = add_report_if (not_sorted s) x MsgTreeNotSorted (str ''not properly sorted'') qr10
      in add_report_if (has_large_name s) x MsgLargePathname
           (str ''contains excessively large pathname'') qr11)"

definition tree_entries ::
    "normalizer \<Rightarrow> options \<Rightarrow> oid \<Rightarrow> tree_entry list \<Rightarrow> bool \<Rightarrow> options \<times> int" where
  "tree_entries nf q x entries err =
     (if err \<and> entries = [] then
        add_report x TypeTree MsgBadTree (str ''cannot be parsed as a tree'') (q, 0)
      else
        let (s, qr) = fold (tree_step nf x) entries (init_scan, q, 0)
        in final_reports x err s qr)"

definition check_tree :: "normalizer \<Rightarrow> options \<Rightarrow> oid \<Rightarrow> bytes \<Rightarrow> options \<times> int" where
  "check_tree nf q x buf =
     (let (entries, err) = parse_tree buf (opt_algo q) in tree_entries nf q x entries err)"

end
