(* ===== verification/ObjectCheck.thy ===== *)
theory ObjectCheck
  imports Refname TreeObj
begin

text \<open>
  Commits and tags: \<open>internal/fsck/object.go\<close>. The checks thread the options, which collect what
  is reported; \<open>Inl\<close> is an early return with its status, \<open>Inr\<close> the state the check goes on with.
\<close>

section \<open>Lines\<close>

definition is_hex :: "byte \<Rightarrow> bool" where
  "is_hex c \<longleftrightarrow> ascii CHR ''0'' \<le> c \<and> c \<le> ascii CHR ''9'' \<or>
     ascii CHR ''a'' \<le> c \<and> c \<le> ascii CHR ''f'' \<or> ascii CHR ''A'' \<le> c \<and> c \<le> ascii CHR ''F''"

definition is_digit :: "byte \<Rightarrow> bool" where
  "is_digit c \<longleftrightarrow> ascii CHR ''0'' \<le> c \<and> c \<le> ascii CHR ''9''"

fun cspn :: "bytes \<Rightarrow> bytes \<Rightarrow> nat" where
  "cspn [] reject = 0"
| "cspn (c # cs) reject = (if c \<in> set reject then 0 else Suc (cspn cs reject))"

definition valid_hex_line :: "bytes \<Rightarrow> nat \<Rightarrow> bool" where
  "valid_hex_line buf hexsz \<longleftrightarrow>
     \<not> (length buf < hexsz + 1 \<or> buf ! hexsz \<noteq> 10) \<and> list_all is_hex (take hexsz buf)"

definition after_line :: "bytes \<Rightarrow> nat \<Rightarrow> bytes" where
  "after_line buf hexsz =
     (if hexsz + 1 \<le> length buf \<and> buf ! hexsz = 10 then drop (hexsz + 1) buf
      else drop 1 (dropWhile is_hex buf))"

text \<open>The value of a run of decimal digits; \<open>strtoumax\<close> saturates at 64 bits.\<close>

fun dec_val :: "nat \<Rightarrow> bytes \<Rightarrow> nat" where
  "dec_val n [] = n"
| "dec_val n (c # cs) = dec_val (10 * n + unat (c - 48)) cs"

definition parse_timestamp :: "bytes \<Rightarrow> 64 word \<times> nat" where
  "parse_timestamp p =
     (let ds = takeWhile is_digit p; n = length ds
      in if n = 0 then (0, 0)
         else (if dec_val 0 ds < 2 ^ 64 then word_of_nat (dec_val 0 ds) else - 1, n))"

definition date_overflows :: "64 word \<Rightarrow> bool" where
  "date_overflows t \<longleftrightarrow> 0x7FFFFFFFFFFFFFFF < t"

section \<open>The header block\<close>

datatype header_scan = NulAt nat | BlankLine | NoBlankLine

fun scan_headers :: "nat \<Rightarrow> bytes \<Rightarrow> header_scan" where
  "scan_headers i [] = NoBlankLine"
| "scan_headers i (c # cs) =
     (if c = 0 then NulAt i
      else if c = 10 \<and> (case cs of [] \<Rightarrow> False | d # _ \<Rightarrow> d = 10) then BlankLine
      else scan_headers (Suc i) cs)"

definition verify_headers :: "options \<Rightarrow> bytes \<Rightarrow> oid \<Rightarrow> obj_type \<Rightarrow> options \<times> int" where
  "verify_headers q buf x t =
     (case scan_headers 0 buf of
        NulAt i \<Rightarrow> report q x t MsgNulInHeader
          (str ''unterminated header: NUL at offset '' @ dec_digits i)
      | BlankLine \<Rightarrow> (q, 0)
      | NoBlankLine \<Rightarrow>
          if buf \<noteq> [] \<and> last buf = 10 then (q, 0)
          else report q x t MsgUnterminatedHeader (str ''unterminated header''))"

section \<open>Identity lines\<close>

definition ident_rest :: "bytes \<Rightarrow> bytes" where
  "ident_rest buf = (case index_byte buf 10 of Some nl \<Rightarrow> drop (nl + 1) buf | None \<Rightarrow> [])"

definition angle_or_nl :: bytes where
  "angle_or_nl = [60, 62, 10]"

definition ident_line_text :: "string \<Rightarrow> bytes" where
  "ident_line_text s = str ''invalid author/committer line - '' @ str s"

text \<open>Behind the email: blank, blanks, digits, blank, sign and four digits, newline.\<close>

definition ident_date :: "bytes \<Rightarrow> (msg_id \<times> bytes) option" where
  "ident_date p0 =
     (if p0 = [] \<or> hd p0 \<noteq> 32 then
        Some (MsgMissingSpaceBeforeDate, ident_line_text ''missing space before date'')
      else
        let p = dropWhile (\<lambda>c. c = 32 \<or> c = 9) (tl p0) in
        if p = [] \<or> \<not> is_digit (hd p) then Some (MsgBadDate, ident_line_text ''bad date'')
        else if hd p = 48 \<and> (length p < 2 \<or> p ! 1 \<noteq> 32) then
          Some (MsgZeroPaddedDate, ident_line_text ''zero-padded date'')
        else
          let (ts, ndigits) = parse_timestamp p in
          if date_overflows ts then
            Some (MsgBadDateOverflow, ident_line_text ''date causes integer overflow'')
          else if ndigits = 0 \<or> length p \<le> ndigits \<or> p ! ndigits \<noteq> 32 then
            Some (MsgBadDate, ident_line_text ''bad date'')
          else
            let z = drop (ndigits + 1) p in
            if length z < 6 \<or> (z ! 0 \<noteq> 43 \<and> z ! 0 \<noteq> 45) \<or> \<not> is_digit (z ! 1) \<or>
               \<not> is_digit (z ! 2) \<or> \<not> is_digit (z ! 3) \<or> \<not> is_digit (z ! 4) \<or> z ! 5 \<noteq> 10
            then Some (MsgBadTimezone, ident_line_text ''bad time zone'')
            else None)"

definition ident_email :: "bytes \<Rightarrow> (msg_id \<times> bytes) option" where
  "ident_email p =
     (let i = cspn p angle_or_nl in
      if length p \<le> i \<or> p ! i \<noteq> 62 then Some (MsgBadEmail, ident_line_text ''bad email'')
      else ident_date (drop (i + 1) p))"

definition ident_fault :: "bytes \<Rightarrow> (msg_id \<times> bytes) option" where
  "ident_fault p =
     (if p \<noteq> [] \<and> hd p = 60 then
        Some (MsgMissingNameBeforeEmail, ident_line_text ''missing space before email'')
      else
        let i = cspn p angle_or_nl in
        if i < length p \<and> p ! i = 62 then Some (MsgBadName, ident_line_text ''bad name'')
        else if length p \<le> i \<or> p ! i \<noteq> 60 then
          Some (MsgMissingEmail, ident_line_text ''missing email'')
        else if i = 0 \<or> p ! (i - 1) \<noteq> 32 then
          Some (MsgMissingSpaceBeforeEmail, ident_line_text ''missing space before email'')
        else ident_email (drop (i + 1) p))"

definition ident :: "options \<Rightarrow> bytes \<Rightarrow> oid \<Rightarrow> obj_type \<Rightarrow> options \<times> bytes \<times> int" where
  "ident q buf x t =
     (case ident_fault buf of
        None \<Rightarrow> (q, ident_rest buf, 0)
      | Some (i, text) \<Rightarrow>
          (let (q', r) = report q x t i text in (q', ident_rest buf, r)))"

section \<open>Commits\<close>

definition hexsz :: "options \<Rightarrow> nat" where
  "hexsz q = hex_size (opt_algo q)"

text \<open>\<open>if err := report(...); err != 0 { return err }\<close>\<close>

definition report_or_stop ::
    "options \<Rightarrow> oid \<Rightarrow> obj_type \<Rightarrow> msg_id \<Rightarrow> bytes \<Rightarrow> options \<times> (int + unit)" where
  "report_or_stop q x t i text =
     (let (q', r) = report q x t i text in (q', if r \<noteq> 0 then Inl r else Inr ()))"

definition check_hex_line ::
    "options \<Rightarrow> oid \<Rightarrow> obj_type \<Rightarrow> msg_id \<Rightarrow> bytes \<Rightarrow> bytes \<Rightarrow> options \<times> (int + unit)" where
  "check_hex_line q x t i text buf =
     (if valid_hex_line buf (hexsz q) then (q, Inr ()) else report_or_stop q x t i text)"

lemma after_line_le: "length (after_line buf n) \<le> length buf"
  using length_dropWhile_le [of is_hex buf] unfolding after_line_def by (auto intro: le_trans)

lemma ident_result: "ident q b x t = (q', rest, r) \<Longrightarrow> rest = ident_rest b"
  by (auto simp: ident_def split: option.splits prod.splits)

lemma ident_rest_le: "length (ident_rest buf) \<le> length buf"
  by (auto simp: ident_rest_def split: option.splits)

function check_parents :: "options \<Rightarrow> oid \<Rightarrow> bytes \<Rightarrow> options \<times> (int + bytes)" where
  "check_parents q x buf =
     (case cut_prefix buf (str ''parent '') of
        None \<Rightarrow> (q, Inr buf)
      | Some b \<Rightarrow>
          (case check_hex_line q x TypeCommit MsgBadParentSha1
              (str ''invalid '' @ quoted (str ''parent'') @ str '' line format - bad sha1'') b of
             (q', Inl r) \<Rightarrow> (q', Inl r)
           | (q', Inr _) \<Rightarrow> check_parents q' x (after_line b (hexsz q))))"
  by pat_completeness auto
termination
proof (relation "measure (\<lambda>(q, x, buf). length buf)", goal_cases)
  case (2 q x buf b p q' u)
  then have "length buf = 7 + length b" by (auto dest: cut_prefix_SomeD)
  with after_line_le [of b "hexsz q"] show ?case by simp
qed simp

declare check_parents.simps [simp del]

function check_authors :: "options \<Rightarrow> oid \<Rightarrow> bytes \<Rightarrow> nat \<Rightarrow> options \<times> (int + bytes \<times> nat)" where
  "check_authors q x buf n =
     (case cut_prefix buf (str ''author '') of
        None \<Rightarrow> (q, Inr (buf, n))
      | Some b \<Rightarrow>
          (case ident q b x TypeCommit of
             (q', rest, err) \<Rightarrow>
               if err \<noteq> 0 then (q', Inl err) else check_authors q' x rest (Suc n)))"
  by pat_completeness auto
termination
proof (relation "measure (\<lambda>(q, x, buf, n). length buf)", goal_cases)
  case (2 q x buf n b p q' rest err)
  then have "length buf = 7 + length b" by (auto dest: cut_prefix_SomeD)
  moreover from 2 have "rest = ident_rest b" using ident_result by metis
  ultimately show ?case using ident_rest_le [of b] by simp
qed simp

declare check_authors.simps [simp del]

definition commit_committer :: "options \<Rightarrow> oid \<Rightarrow> bytes \<Rightarrow> bytes \<Rightarrow> options \<times> int" where
  "commit_committer q x whole buf =
     (case cut_prefix buf (str ''committer '') of
        None \<Rightarrow> report q x TypeCommit MsgMissingCommitter
          (str ''invalid format - expected '' @ quoted (str ''committer'') @ str '' line'')
      | Some b \<Rightarrow>
          (let (q1, _, err) = ident q b x TypeCommit in
           if err \<noteq> 0 then (q1, err)
           else if 0 \<in> set whole then
             report q1 x TypeCommit MsgNulInCommit (str ''NUL byte in the commit object body'')
           else (q1, 0)))"

definition count_authors :: "options \<Rightarrow> oid \<Rightarrow> nat \<Rightarrow> options \<times> int" where
  "count_authors q x n =
     (if n < 1 then report q x TypeCommit MsgMissingAuthor
        (str ''invalid format - expected '' @ quoted (str ''author'') @ str '' line'')
      else if 1 < n then report q x TypeCommit MsgMultipleAuthors
        (str ''invalid format - multiple '' @ quoted (str ''author'') @ str '' lines'')
      else (q, 0))"

definition commit_author :: "options \<Rightarrow> oid \<Rightarrow> bytes \<Rightarrow> bytes \<Rightarrow> options \<times> int" where
  "commit_author q x whole buf =
     (case check_authors q x buf 0 of
        (q1, Inl err) \<Rightarrow> (q1, err)
      | (q1, Inr (buf', n)) \<Rightarrow>
          (let (q2, err) = count_authors q1 x n
           in if err \<noteq> 0 then (q2, err) else commit_committer q2 x whole buf'))"

definition commit_parents :: "options \<Rightarrow> oid \<Rightarrow> bytes \<Rightarrow> bytes \<Rightarrow> options \<times> int" where
  "commit_parents q x whole buf =
     (case check_parents q x buf of
        (q1, Inl err) \<Rightarrow> (q1, err)
      | (q1, Inr buf') \<Rightarrow> commit_author q1 x whole buf')"

definition commit_tree :: "options \<Rightarrow> oid \<Rightarrow> bytes \<Rightarrow> options \<times> int" where
  "commit_tree q x buf =
     (case cut_prefix buf (str ''tree '') of
        None \<Rightarrow> report q x TypeCommit MsgMissingTree
          (str ''invalid format - expected '' @ quoted (str ''tree'') @ str '' line'')
      | Some b \<Rightarrow>
          (case check_hex_line q x TypeCommit MsgBadTreeSha1
              (str ''invalid '' @ quoted (str ''tree'') @ str '' line format - bad sha1'') b of
             (q1, Inl err) \<Rightarrow> (q1, err)
           | (q1, Inr _) \<Rightarrow> commit_parents q1 x buf (after_line b (hexsz q))))"

definition check_commit :: "options \<Rightarrow> oid \<Rightarrow> bytes \<Rightarrow> options \<times> int" where
  "check_commit q x buf =
     (let (q0, bad) = verify_headers q buf x TypeCommit in
      if bad \<noteq> 0 then (q0, - 1) else commit_tree q0 x buf)"

section \<open>Tags\<close>

record tag_info =
  tag_object :: oid
  tag_target :: obj_type
  tag_label :: bytes

definition tag_tagger :: "options \<Rightarrow> oid \<Rightarrow> bytes \<Rightarrow> options \<times> int" where
  "tag_tagger q x buf =
     (let (q1, buf1, ret, stop) =
        (case cut_prefix buf (str ''tagger '') of
           None \<Rightarrow>
             (let (q1, r) = report q x TypeTag MsgMissingTaggerEntry
                  (str ''invalid format - expected '' @ quoted (str ''tagger'') @ str '' line'')
              in (q1, buf, r, r \<noteq> 0))
         | Some b \<Rightarrow> (let (q1, rest, r) = ident q b x TypeTag in (q1, rest, r, False)))
      in if stop then (q1, ret)
         else if buf1 \<noteq> [] \<and> hd buf1 \<noteq> 10 then
           report q1 x TypeTag MsgExtraHeaderEntry
             (str ''invalid format - extra header(s) after '' @ quoted (str ''tagger''))
         else (q1, ret))"

definition tag_name_line :: "options \<Rightarrow> oid \<Rightarrow> tag_info \<Rightarrow> bytes \<Rightarrow> options \<times> int \<times> tag_info" where
  "tag_name_line q x info buf =
     (case cut_prefix buf (str ''tag '') of
        None \<Rightarrow> (let (q1, r) = report q x TypeTag MsgMissingTagEntry
                  (str ''invalid format - expected '' @ quoted (str ''tag'') @ str '' line'')
              in (q1, r, info))
      | Some b \<Rightarrow>
          (case index_byte b 10 of
             None \<Rightarrow> (let (q1, r) = report q x TypeTag MsgMissingTag
                  (str ''invalid format - unexpected end after '' @ quoted (str ''type'') @ str '' line'')
                in (q1, r, info))
           | Some eol \<Rightarrow>
               (let info1 = info\<lparr>tag_label := take eol b\<rparr>;
                    (q1, r) = (if check_refname_format (str ''refs/tags/'' @ take eol b) no_flags
                      then (q, Inr ())
                      else report_or_stop q x TypeTag MsgBadTagName
                        (str ''invalid '' @ quoted (str ''tag'') @ str '' name: '' @ take eol b))
                in case r of Inl err \<Rightarrow> (q1, err, info1)
                   | Inr _ \<Rightarrow> (let (q2, ret) = tag_tagger q1 x (drop (eol + 1) b)
                              in (q2, ret, info1)))))"

definition tag_type_line :: "options \<Rightarrow> oid \<Rightarrow> tag_info \<Rightarrow> bytes \<Rightarrow> options \<times> int \<times> tag_info" where
  "tag_type_line q x info buf =
     (case cut_prefix buf (str ''type '') of
        None \<Rightarrow> (let (q1, r) = report q x TypeTag MsgMissingTypeEntry
                  (str ''invalid format - expected '' @ quoted (str ''type'') @ str '' line'')
              in (q1, r, info))
      | Some b \<Rightarrow>
          (case index_byte b 10 of
             None \<Rightarrow> (let (q1, r) = report q x TypeTag MsgMissingType
                  (str ''invalid format - unexpected end after '' @ quoted (str ''type'') @ str '' line'')
                in (q1, r, info))
           | Some eol \<Rightarrow>
               (let info1 = info\<lparr>tag_target := type_from_name (take eol b)\<rparr>;
                    (q1, r) = (if tag_target info1 \<noteq> TypeBad then (q, Inr ())
                      else report_or_stop q x TypeTag MsgBadType
                        (str ''invalid '' @ quoted (str ''type'') @ str '' value''))
                in case r of Inl err \<Rightarrow> (q1, err, info1)
                   | Inr _ \<Rightarrow> tag_name_line q1 x info1 (drop (eol + 1) b))))"

definition empty_info :: tag_info where
  "empty_info = \<lparr>tag_object = zero_oid, tag_target = TypeBad, tag_label = []\<rparr>"

definition tag_object_line :: "options \<Rightarrow> oid \<Rightarrow> bytes \<Rightarrow> options \<times> int \<times> tag_info" where
  "tag_object_line q x buf =
     (case cut_prefix buf (str ''object '') of
        None \<Rightarrow> (let (q1, r) = report q x TypeTag MsgMissingObject
                  (str ''invalid format - expected '' @ quoted (str ''object'') @ str '' line'')
              in (q1, r, empty_info))
      | Some b \<Rightarrow>
          (let info1 = (if valid_hex_line b (hexsz q)
                 then empty_info\<lparr>tag_object :=
                   (case parse_hex_bytes (opt_algo q) b of Some y \<Rightarrow> y | None \<Rightarrow> zero_oid)\<rparr>
                 else empty_info)
           in case check_hex_line q x TypeTag MsgBadObjectSha1
                (str ''invalid '' @ quoted (str ''object'') @ str '' line format - bad sha1'') b of
                (q1, Inl err) \<Rightarrow> (q1, err, info1)
              | (q1, Inr _) \<Rightarrow> tag_type_line q1 x info1 (after_line b (hexsz q))))"

definition tag_with_info :: "options \<Rightarrow> oid \<Rightarrow> bytes \<Rightarrow> options \<times> int \<times> tag_info" where
  "tag_with_info q x buf =
     (let (q0, bad) = verify_headers q buf x TypeTag
      in if bad \<noteq> 0 then (q0, bad, empty_info) else tag_object_line q0 x buf)"

definition check_tag :: "options \<Rightarrow> oid \<Rightarrow> bytes \<Rightarrow> options \<times> int" where
  "check_tag q x buf = (let (q', r, _) = tag_with_info q x buf in (q', r))"

end
