(* ===== verification/ObjectGrammar.thy ===== *)
theory ObjectGrammar
  imports ObjectCheck
begin

text \<open>
  What commits the commit check lets pass. The grammar is written down as the shape of the byte
  sequence; the check, with every message reported, stays silent exactly on that shape.
\<close>

section \<open>Object name lines\<close>

definition hex_line :: "nat \<Rightarrow> bytes \<Rightarrow> bool" where
  "hex_line n h \<longleftrightarrow> length h = n \<and> list_all is_hex h"

lemma valid_hex_line_iff:
  "valid_hex_line b n \<longleftrightarrow> (\<exists>h. hex_line n h \<and> b = h @ 10 # after_line b n)"
proof
  assume v: "valid_hex_line b n"
  then have "n < length b" by (simp add: valid_hex_line_def not_less)
  then have "b = take n b @ b ! n # drop (Suc n) b" by (rule id_take_nth_drop)
  with v have "b = take n b @ 10 # after_line b n"
    by (simp add: valid_hex_line_def after_line_def not_less)
  moreover have "hex_line n (take n b)" using v by (auto simp: valid_hex_line_def hex_line_def)
  ultimately show "\<exists>h. hex_line n h \<and> b = h @ 10 # after_line b n" by blast
next
  assume "\<exists>h. hex_line n h \<and> b = h @ 10 # after_line b n"
  then obtain h r where "hex_line n h" "b = h @ 10 # r" by blast
  then show "valid_hex_line b n" by (auto simp: valid_hex_line_def hex_line_def)
qed

lemma valid_hex_line_append [simp]:
  "hex_line n h \<Longrightarrow> valid_hex_line (h @ 10 # r) n"
  "hex_line n h \<Longrightarrow> after_line (h @ 10 # r) n = r"
  by (auto simp: valid_hex_line_def hex_line_def after_line_def)

section \<open>Identity lines\<close>

lemma cspn_takeWhile: "cspn p r = length (takeWhile (\<lambda>c. c \<notin> set r) p)"
  by (induction p) auto

lemma takeWhile_append_stop: "list_all P xs \<Longrightarrow> \<not> P y \<Longrightarrow> takeWhile P (xs @ y # ys) = xs"
  by (induction xs) auto

lemma dropWhile_append_stop: "list_all P xs \<Longrightarrow> \<not> P y \<Longrightarrow> dropWhile P (xs @ y # ys) = y # ys"
  by (induction xs) auto

text \<open>What stops a scan: the piece before it and the byte that ended it.\<close>

lemma takeWhile_split:
  assumes "length (takeWhile P p) < length p"
  shows "p = takeWhile P p @ p ! length (takeWhile P p) # drop (Suc (length (takeWhile P p))) p"
    and "\<not> P (p ! length (takeWhile P p))"
proof -
  show "p = takeWhile P p @ p ! length (takeWhile P p) # drop (Suc (length (takeWhile P p))) p"
    by (metis assms id_take_nth_drop takeWhile_eq_take)
  show "\<not> P (p ! length (takeWhile P p))" by (rule nth_length_takeWhile [OF assms])
qed

definition no_angle :: "bytes \<Rightarrow> bool" where
  "no_angle s \<longleftrightarrow> list_all (\<lambda>c. c \<notin> set angle_or_nl) s"

definition date_zone :: "bytes \<Rightarrow> bool" where
  "date_zone l \<longleftrightarrow> (\<exists>blanks ds sgn tz. l = 32 # blanks @ ds @ 32 # sgn # tz @ [10] \<and>
     set blanks \<subseteq> {32, 9} \<and> ds \<noteq> [] \<and> list_all is_digit ds \<and> (hd ds = 48 \<longrightarrow> ds = [48]) \<and>
     dec_val 0 ds < 2 ^ 63 \<and> sgn \<in> {43, 45} \<and> length tz = 4 \<and> list_all is_digit tz)"

lemma date_zoneI:
  "set blanks \<subseteq> {32, 9} \<Longrightarrow> ds \<noteq> [] \<Longrightarrow> list_all is_digit ds \<Longrightarrow> (hd ds = 48 \<Longrightarrow> ds = [48]) \<Longrightarrow>
    dec_val 0 ds < 2 ^ 63 \<Longrightarrow> sg \<in> {43, 45} \<Longrightarrow> length tz = 4 \<Longrightarrow> list_all is_digit tz \<Longrightarrow>
    date_zone (32 # blanks @ ds @ 32 # sg # tz @ [10])"
  unfolding date_zone_def by blast

definition ident_line :: "bytes \<Rightarrow> bool" where
  "ident_line l \<longleftrightarrow> (\<exists>name email d. l = name @ 60 # email @ 62 # d \<and>
     no_angle name \<and> name \<noteq> [] \<and> last name = 32 \<and> no_angle email \<and> date_zone d)"

lemma dec_val_date:
  "date_overflows (if v < 2 ^ 64 then word_of_nat v else - 1) \<longleftrightarrow> 2 ^ 63 \<le> v"
  by (auto simp: date_overflows_def word_less_nat_alt unat_of_nat take_bit_eq_mod unsigned_minus_1_eq_mask mask_numeral)

lemma parse_timestamp_overflow:
  "takeWhile is_digit p \<noteq> [] \<Longrightarrow>
    date_overflows (fst (parse_timestamp p)) \<longleftrightarrow> 2 ^ 63 \<le> dec_val 0 (takeWhile is_digit p)"
  using dec_val_date by (simp add: parse_timestamp_def Let_def)

lemma parse_timestamp_len: "snd (parse_timestamp p) = length (takeWhile is_digit p)"
  by (simp add: parse_timestamp_def Let_def)

lemma not_digit_32: "\<not> is_digit 32" "\<not> is_digit 10" "\<not> is_digit 9" "is_digit 48"
  by (simp_all add: is_digit_def)

lemma ident_date_accepts:
  assumes "date_zone d"
  shows "ident_date (d @ r) = None"
proof -
  from assms obtain blanks ds sgn tz where d: "d = 32 # blanks @ ds @ 32 # sgn # tz @ [10]"
    and b: "set blanks \<subseteq> {32, 9}" and ds: "ds \<noteq> []" "list_all is_digit ds"
    "hd ds = 48 \<longrightarrow> ds = [48]" "dec_val 0 ds < 2 ^ 63"
    and z: "sgn \<in> {43, 45}" "length tz = 4" "list_all is_digit tz"
    unfolding date_zone_def by blast
  define p where "p = ds @ 32 # sgn # tz @ 10 # r"
  from ds obtain c cs where c: "ds = c # cs" "is_digit c" by (cases ds) auto
  then have c': "c \<noteq> 32" "c \<noteq> 9" using not_digit_32 by auto
  have "list_all (\<lambda>c. c = 32 \<or> c = 9) blanks" using b by (auto simp: list_all_iff)
  with c' have p: "dropWhile (\<lambda>c. c = 32 \<or> c = 9) (tl (d @ r)) = p"
    unfolding d p_def c(1) by (simp add: dropWhile_append_stop)
  have tw: "takeWhile is_digit p = ds"
    unfolding p_def by (rule takeWhile_append_stop) (use ds not_digit_32 in auto)
  have ts: "\<not> date_overflows (fst (parse_timestamp p))" "snd (parse_timestamp p) = length ds"
    using parse_timestamp_overflow [of p] parse_timestamp_len [of p] ds tw by auto
  obtain t1 t2 t3 t4 where t: "tz = [t1, t2, t3, t4]"
    using z(2) by (auto simp: length_Suc_conv numeral_eq_Suc)
  have drop: "drop (length ds + 1) p = sgn # tz @ 10 # r" by (simp add: p_def)
  have hd: "p \<noteq> []" "is_digit (hd p)" "\<not> (hd p = 48 \<and> (length p < 2 \<or> p ! 1 \<noteq> 32))"
    using ds(3) c by (auto simp: p_def)
  have nth: "p ! length ds = 32" "length ds < length p" by (simp_all add: p_def)
  from z t have ok: "\<not> (length (sgn # tz @ 10 # r) < 6 \<or>
      ((sgn # tz @ 10 # r) ! 0 \<noteq> 43 \<and> (sgn # tz @ 10 # r) ! 0 \<noteq> 45) \<or>
      \<not> is_digit ((sgn # tz @ 10 # r) ! 1) \<or> \<not> is_digit ((sgn # tz @ 10 # r) ! 2) \<or>
      \<not> is_digit ((sgn # tz @ 10 # r) ! 3) \<or> \<not> is_digit ((sgn # tz @ 10 # r) ! 4) \<or>
      (sgn # tz @ 10 # r) ! 5 \<noteq> 10)"
    by auto
  have start: "\<not> (d @ r = [] \<or> hd (d @ r) \<noteq> 32)" by (simp add: d)
  show ?thesis
    unfolding ident_date_def p Let_def case_prod_beta ts(2) drop
    using start hd ts(1) ok nth ds(1) by simp
qed

lemma list6:
  assumes "6 \<le> length z" and "z ! 5 = c"
  shows "z = z ! 0 # [z ! 1, z ! 2, z ! 3, z ! 4] @ c # drop 6 z"
proof -
  obtain a0 a1 a2 a3 a4 a5 r where "z = a0 # a1 # a2 # a3 # a4 # a5 # r"
    using assms(1) by (metis Suc_le_length_iff numeral_eq_Suc pred_numeral_simps(2,3) BitM.simps)
  with assms(2) show ?thesis by simp
qed

lemma ident_date_rejects:
  assumes "ident_date p0 = None"
  obtains d r where "p0 = d @ r" and "date_zone d"
proof -
  define p where "p = dropWhile (\<lambda>c. c = 32 \<or> c = 9) (tl p0)"
  define ds where "ds = takeWhile is_digit p"
  define z where "z = drop (length ds + 1) p"
  have n: "snd (parse_timestamp p) = length ds" by (simp add: parse_timestamp_len ds_def)
  from assms have all: "p0 \<noteq> []" "hd p0 = 32" "p \<noteq> []" "is_digit (hd p)"
    "\<not> (hd p = 48 \<and> (length p < 2 \<or> p ! 1 \<noteq> 32))" "\<not> date_overflows (fst (parse_timestamp p))"
    "length ds \<noteq> 0" "length ds < length p" "p ! length ds = 32"
    "6 \<le> length z" "z ! 0 = 43 \<or> z ! 0 = 45" "is_digit (z ! 1)" "is_digit (z ! 2)"
    "is_digit (z ! 3)" "is_digit (z ! 4)" "z ! 5 = 10"
    unfolding ident_date_def Let_def case_prod_beta p_def [symmetric] n z_def [symmetric]
    by (simp_all add: not_le not_less split: if_splits)
  define blanks where "blanks = takeWhile (\<lambda>c. c = 32 \<or> c = 9) (tl p0)"
  have p0: "p0 = 32 # blanks @ p"
    using all(1,2) by (cases p0) (simp_all add: blanks_def p_def)
  have p: "p = ds @ 32 # z"
    using takeWhile_split(1) [of is_digit p] all(8,9) unfolding z_def ds_def Suc_eq_plus1 by metis
  have z: "z = z ! 0 # [z ! 1, z ! 2, z ! 3, z ! 4] @ 10 # drop 6 z"
    by (rule list6 [OF all(10,16)])
  have ds: "ds \<noteq> []" "list_all is_digit ds" "dec_val 0 ds < 2 ^ 63"
    using all(6,7) parse_timestamp_overflow [of p] set_takeWhileD [of _ is_digit p]
    by (auto simp: ds_def list_all_iff)
  have lead: "ds = [48]" if "hd ds = 48"
  proof -
    have "hd p = 48" using that ds(1) p by (cases ds) auto
    with all(5) have "p ! 1 = 32" by auto
    with p that ds not_digit_32 show ?thesis by (cases ds; cases "tl ds") auto
  qed
  let ?d = "32 # blanks @ ds @ 32 # z ! 0 # [z ! 1, z ! 2, z ! 3, z ! 4] @ [10]"
  have "set blanks \<subseteq> {32, 9}" using set_takeWhileD by (fastforce simp: blanks_def)
  then have "date_zone ?d" by (rule date_zoneI) (use ds lead all in auto)
  moreover have "p0 = ?d @ drop 6 z" using p0 p z by simp
  ultimately show thesis by (rule that [rotated])
qed

lemma ident_email_iff:
  "ident_email p = None \<longleftrightarrow>
     (\<exists>email d r. p = email @ 62 # d @ r \<and> no_angle email \<and> date_zone d)"
proof
  assume ok: "ident_email p = None"
  define e where "e = takeWhile (\<lambda>c. c \<notin> set angle_or_nl) p"
  from ok have c: "length e < length p" "p ! length e = 62" "ident_date (drop (length e + 1) p) = None"
    by (simp_all add: ident_email_def Let_def cspn_takeWhile flip: e_def split: if_splits)
  from ident_date_rejects [OF c(3)] obtain d r
    where d: "drop (length e + 1) p = d @ r" "date_zone d" by blast
  have "p = e @ p ! length e # drop (Suc (length e)) p"
    unfolding e_def by (rule takeWhile_split) (use c(1) in \<open>simp add: e_def\<close>)
  then have "p = e @ 62 # d @ r" using c(2) d(1) unfolding Suc_eq_plus1 by metis
  moreover have "no_angle e"
    using set_takeWhileD by (fastforce simp: no_angle_def list_all_iff e_def)
  ultimately show "\<exists>email d r. p = email @ 62 # d @ r \<and> no_angle email \<and> date_zone d"
    using d(2) by blast
next
  assume "\<exists>email d r. p = email @ 62 # d @ r \<and> no_angle email \<and> date_zone d"
  then obtain e d r where p: "p = e @ 62 # d @ r" "no_angle e" "date_zone d" by blast
  then have "cspn p angle_or_nl = length e"
    by (simp add: cspn_takeWhile takeWhile_append_stop no_angle_def angle_or_nl_def)
  with p ident_date_accepts [OF p(3), of r] show "ident_email p = None"
    by (simp add: ident_email_def Let_def)
qed

lemma ident_fault_iff:
  "ident_fault p = None \<longleftrightarrow> (\<exists>l r. p = l @ r \<and> ident_line l)"
proof
  assume ok: "ident_fault p = None"
  define e where "e = takeWhile (\<lambda>c. c \<notin> set angle_or_nl) p"
  from ok have c: "length e < length p" "p ! length e = 60" "length e \<noteq> 0"
    "p ! (length e - 1) = 32" "ident_email (drop (length e + 1) p) = None"
    by (simp_all add: ident_fault_def Let_def cspn_takeWhile flip: e_def split: if_splits)
  from c(5) obtain m d r where d: "drop (length e + 1) p = m @ 62 # d @ r" "no_angle m" "date_zone d"
    unfolding ident_email_iff by blast
  have "p = e @ p ! length e # drop (Suc (length e)) p"
    unfolding e_def by (rule takeWhile_split) (use c(1) in \<open>simp add: e_def\<close>)
  then have p: "p = (e @ 60 # m @ 62 # d) @ r" using c(2) d(1) unfolding Suc_eq_plus1 by simp
  have e: "no_angle e" "e \<noteq> []"
    using set_takeWhileD c(3) by (fastforce simp: no_angle_def list_all_iff e_def)+
  have "last e = 32"
    using c(3,4) p e(2) by (simp add: last_conv_nth nth_append)
  with e d have "ident_line (e @ 60 # m @ 62 # d)" unfolding ident_line_def by blast
  with p show "\<exists>l r. p = l @ r \<and> ident_line l" by blast
next
  assume "\<exists>l r. p = l @ r \<and> ident_line l"
  then obtain e m d r where p: "p = e @ 60 # m @ 62 # d @ r" "no_angle e" "e \<noteq> []" "last e = 32"
    "no_angle m" "date_zone d" unfolding ident_line_def by auto
  have "cspn p angle_or_nl = length e"
    using p(1,2) by (simp add: cspn_takeWhile takeWhile_append_stop no_angle_def angle_or_nl_def)
  moreover have "ident_email (m @ 62 # d @ r) = None" using p(5,6) ident_email_iff by blast
  moreover have "p ! (length e - 1) = 32" using p(1,3,4) by (simp add: last_conv_nth nth_append)
  moreover have "hd p \<noteq> 60"
    using p(1-3) by (cases e) (auto simp: no_angle_def angle_or_nl_def)
  ultimately show "ident_fault p = None" using p(1,3) by (simp add: ident_fault_def Let_def)
qed

lemma ident_line_newline:
  assumes "ident_line l"
  shows "\<exists>l'. l = l' @ [10] \<and> 10 \<notin> set l'"
proof -
  from assms obtain e m blanks ds sgn tz
    where l: "l = e @ 60 # m @ 62 # 32 # blanks @ ds @ 32 # sgn # tz @ [10]"
      and s: "no_angle e" "no_angle m" "set blanks \<subseteq> {32, 9}" "list_all is_digit ds"
        "sgn \<in> {43, 45}" "list_all is_digit tz"
    unfolding ident_line_def date_zone_def by blast
  have "10 \<notin> set e" "10 \<notin> set m" using s(1,2) by (auto simp: no_angle_def angle_or_nl_def list_all_iff)
  moreover have "10 \<notin> set ds" "10 \<notin> set tz" using s(4,6) not_digit_32(2) unfolding list_all_iff by metis+
  moreover have "10 \<notin> set blanks" "sgn \<noteq> 10" using s(3,5) by auto
  ultimately have "10 \<notin> set (e @ 60 # m @ 62 # 32 # blanks @ ds @ 32 # sgn # tz)" by simp
  then show ?thesis using l by (intro exI [of _ "e @ 60 # m @ 62 # 32 # blanks @ ds @ 32 # sgn # tz"]) simp
qed

lemma ident_rest_line: "ident_line l \<Longrightarrow> ident_rest (l @ r) = r"
  using ident_line_newline [of l] by (auto simp: ident_rest_def)

text \<open>A silent identity check is a well-formed line, and it leaves the rest.\<close>

lemma ident_quiet:
  assumes "loud q x"
  shows "fst (ident q b x t) = q \<longleftrightarrow> (\<exists>l r. b = l @ r \<and> ident_line l)"
    and "ident_line l \<Longrightarrow> ident q (l @ r) x t = (q, r, 0)"
proof -
  show "fst (ident q b x t) = q \<longleftrightarrow> (\<exists>l r. b = l @ r \<and> ident_line l)"
    using report_pair_loud [OF assms] unfolding ident_fault_iff [symmetric]
    by (auto simp: ident_def split: option.splits prod.splits)
  assume l: "ident_line l"
  then have "ident_fault (l @ r) = None" using ident_fault_iff by blast
  with ident_rest_line [OF l] show "ident q (l @ r) x t = (q, r, 0)" by (simp add: ident_def)
qed

lemma ident_extends: "extends q (fst (ident q b x t))"
  using report_extends [of q x t] by (auto simp: ident_def split: option.splits prod.splits)
    (metis fst_conv)

section \<open>Commits\<close>

definition commit_shape :: "nat \<Rightarrow> bytes \<Rightarrow> bool" where
  "commit_shape n buf \<longleftrightarrow> (\<exists>t ps author committer body.
     buf = str ''tree '' @ t @ 10 # concat (map (\<lambda>p. str ''parent '' @ p @ [10]) ps) @
       str ''author '' @ author @ str ''committer '' @ committer @ body \<and>
     hex_line n t \<and> list_all (hex_line n) ps \<and> ident_line author \<and> ident_line committer)"

definition header_ends :: "bytes \<Rightarrow> bool" where
  "header_ends buf \<longleftrightarrow> (\<exists>u v. buf = u @ [10, 10] @ v) \<or> (buf \<noteq> [] \<and> last buf = 10)"

lemma scan_headers_blank:
  "0 \<notin> set buf \<Longrightarrow> scan_headers i buf = (if \<exists>u v. buf = u @ [10, 10] @ v then BlankLine else NoBlankLine)"
proof (induction i buf rule: scan_headers.induct)
  case (1 i)
  then show ?case by simp
next
  case (2 i c cs)
  have "(\<exists>u v. c # cs = u @ [10, 10] @ v) \<longleftrightarrow>
      (c = 10 \<and> (case cs of [] \<Rightarrow> False | d # _ \<Rightarrow> d = 10)) \<or> (\<exists>u v. cs = u @ [10, 10] @ v)"
    by (auto simp: Cons_eq_append_conv split: list.splits)
  with 2 show ?case by auto
qed

lemma verify_headers_quiet:
  assumes "loud q x"
  shows "0 \<notin> set buf \<Longrightarrow> fst (verify_headers q buf x t) = q \<longleftrightarrow> header_ends buf"
    and "fst (verify_headers q buf x t) = q \<Longrightarrow> verify_headers q buf x t = (q, 0)"
proof -
  show "0 \<notin> set buf \<Longrightarrow> fst (verify_headers q buf x t) = q \<longleftrightarrow> header_ends buf"
    using report_loud [OF assms]
    by (auto simp: verify_headers_def scan_headers_blank header_ends_def)
  show "fst (verify_headers q buf x t) = q \<Longrightarrow> verify_headers q buf x t = (q, 0)"
    using report_loud [OF assms] by (auto simp: verify_headers_def split: header_scan.splits if_splits)
qed

lemma verify_headers_extends: "extends q (fst (verify_headers q buf x t))"
  using report_extends by (auto simp: verify_headers_def split: header_scan.splits)

lemma check_hex_line_quiet:
  "loud q x \<Longrightarrow> fst (check_hex_line q x t i s b) = q \<longleftrightarrow> valid_hex_line b (hexsz q)"
  "valid_hex_line b (hexsz q) \<Longrightarrow> check_hex_line q x t i s b = (q, Inr ())"
  by (auto simp: check_hex_line_def report_or_stop_def report_pair_loud split: prod.splits)

lemma check_hex_line_extends: "extends q (fst (check_hex_line q x t i s b))"
  using report_extends [of q x t i s]
  by (auto simp: check_hex_line_def report_or_stop_def split: prod.splits)

lemma hexsz_extends: "extends q q' \<Longrightarrow> hexsz q' = hexsz q"
  by (simp add: hexsz_def extends_fields)

lemma check_parents_extends: "extends q (fst (check_parents q x buf))"
proof (induction q x buf rule: check_parents.induct)
  case (1 q x buf)
  show ?case
  proof (cases "cut_prefix buf (str ''parent '')")
    case None
    then show ?thesis by (simp add: check_parents.simps [of q x buf])
  next
    case (Some b)
    let ?s = "str ''invalid '' @ quoted (str ''parent'') @ str '' line format - bad sha1''"
    obtain q' r where c: "check_hex_line q x TypeCommit MsgBadParentSha1 ?s b = (q', r)" by force
    then have q': "extends q q'" using check_hex_line_extends by (metis fst_conv)
    show ?thesis
    proof (cases r)
      case (Inl e)
      with Some c q' show ?thesis by (simp add: check_parents.simps [of q x buf])
    next
      case (Inr u)
      with "1.IH" [OF Some c [symmetric] Inr] extends_trans [OF q']
      show ?thesis using Some c by (simp add: check_parents.simps [of q x buf])
    qed
  qed
qed

text \<open>An object name line that is silent and not the end of the loop starts another turn.\<close>

lemma check_parents_lines:
  "list_all (hex_line (hexsz q)) ps \<Longrightarrow> \<not> has_prefix r (str ''parent '') \<Longrightarrow>
    check_parents q x (concat (map (\<lambda>p. str ''parent '' @ p @ [10]) ps) @ r) = (q, Inr r)"
proof (induction ps)
  case Nil
  then show ?case by (simp add: check_parents.simps cut_prefix_def)
next
  case (Cons p ps)
  then have "hex_line (hexsz q) p" by simp
  with Cons show ?case
    by (subst check_parents.simps)
      (simp add: cut_prefix_def has_prefix_def check_hex_line_quiet)
qed

lemma check_parents_quiet:
  assumes "loud q x" and "check_parents q x buf = (q, res)"
  obtains ps r where "res = Inr r"
    and "buf = concat (map (\<lambda>p. str ''parent '' @ p @ [10]) ps) @ r"
    and "list_all (hex_line (hexsz q)) ps" and "\<not> has_prefix r (str ''parent '')"
  using assms
proof (induction "length buf" arbitrary: buf thesis rule: less_induct)
  case less
  show ?case
  proof (cases "cut_prefix buf (str ''parent '')")
    case None
    with less.prems(3) have "res = Inr buf" by (simp add: check_parents.simps)
    moreover have "\<not> has_prefix buf (str ''parent '')" using None by (simp add: cut_prefix_def split: if_splits)
    ultimately show ?thesis using less.prems(1) [of buf "[]"] by simp
  next
    case (Some b)
    let ?s = "str ''invalid '' @ quoted (str ''parent'') @ str '' line format - bad sha1''"
    obtain q' c where c: "check_hex_line q x TypeCommit MsgBadParentSha1 ?s b = (q', c)" by force
    have "extends q' q"
    proof (cases c)
      case (Inl e)
      with less.prems(3) Some c show ?thesis by (simp add: check_parents.simps)
    next
      case (Inr u)
      with less.prems(3) Some c have "check_parents q' x (after_line b (hexsz q)) = (q, res)"
        by (simp add: check_parents.simps [of q x buf])
      then show ?thesis by (metis check_parents_extends fst_conv)
    qed
    with c check_hex_line_extends [of q x TypeCommit MsgBadParentSha1 ?s b] have "q' = q"
      by (intro extends_quiet) simp_all
    with c less.prems(2) have v: "valid_hex_line b (hexsz q)"
      using check_hex_line_quiet(1) [of q x TypeCommit MsgBadParentSha1 ?s b] by simp
    then obtain h where h: "hex_line (hexsz q) h" "b = h @ 10 # after_line b (hexsz q)"
      unfolding valid_hex_line_iff by blast
    have buf: "buf = str ''parent '' @ b" using Some by (rule cut_prefix_SomeD)
    have run: "check_parents q x (after_line b (hexsz q)) = (q, res)"
      using less.prems(3) Some v by (simp add: check_parents.simps [of q x buf] check_hex_line_quiet)
    have "length (after_line b (hexsz q)) < length buf"
      using after_line_le [of b "hexsz q"] by (simp add: buf)
    then obtain ps r where "res = Inr r"
      "after_line b (hexsz q) = concat (map (\<lambda>p. str ''parent '' @ p @ [10]) ps) @ r"
      "list_all (hex_line (hexsz q)) ps" "\<not> has_prefix r (str ''parent '')"
      using less.hyps [OF _ _ less.prems(2) run] by blast
    with less.prems(1) [of r "h # ps"] h buf show ?thesis by simp
  qed
qed

lemma check_authors_extends: "extends q (fst (check_authors q x buf n))"
proof (induction q x buf n rule: check_authors.induct)
  case (1 q x buf n)
  show ?case
  proof (cases "cut_prefix buf (str ''author '')")
    case None
    then show ?thesis by (simp add: check_authors.simps [of q x buf])
  next
    case (Some b)
    obtain q' rest e where c: "ident q b x TypeCommit = (q', rest, e)" by (metis prod_cases3)
    then have q': "extends q q'" using ident_extends by (metis fst_conv)
    show ?thesis
    proof (cases "e = 0")
      case True
      with "1.IH" [OF Some c [symmetric]] extends_trans [OF q']
      show ?thesis using Some c by (simp add: check_authors.simps [of q x buf])
    next
      case False
      with Some c q' show ?thesis by (simp add: check_authors.simps [of q x buf])
    qed
  qed
qed

definition author_line :: "bytes \<Rightarrow> bytes" where
  "author_line l = str ''author '' @ l"

lemma check_authors_lines:
  "loud q x \<Longrightarrow> list_all ident_line ls \<Longrightarrow> \<not> has_prefix r (str ''author '') \<Longrightarrow>
    check_authors q x (concat (map author_line ls) @ r) n = (q, Inr (r, n + length ls))"
proof (induction ls arbitrary: n)
  case Nil
  then show ?case by (simp add: check_authors.simps cut_prefix_def)
next
  case (Cons l ls)
  define rest where "rest = concat (map author_line ls) @ r"
  have split: "concat (map author_line (l # ls)) @ r = str ''author '' @ l @ rest"
    by (simp add: author_line_def [of l] rest_def)
  have "check_authors q x rest (Suc n) = (q, Inr (r, Suc n + length ls))"
    unfolding rest_def by (rule Cons.IH) (use Cons.prems in auto)
  with Cons.prems show ?case
    unfolding split by (subst check_authors.simps) (simp add: cut_prefix_def has_prefix_def ident_quiet)
qed

lemma check_authors_quiet:
  assumes "loud q x" and "check_authors q x buf n = (q, res)"
  obtains ls r where "res = Inr (r, n + length ls)"
    and "buf = concat (map author_line ls) @ r" and "list_all ident_line ls"
  using assms
proof (induction "length buf" arbitrary: buf n thesis rule: less_induct)
  case less
  show ?case
  proof (cases "cut_prefix buf (str ''author '')")
    case None
    with less.prems(3) have "res = Inr (buf, n)" by (simp add: check_authors.simps)
    then show ?thesis using less.prems(1) [of buf "[]"] by simp
  next
    case (Some b)
    obtain q' rest e where c: "ident q b x TypeCommit = (q', rest, e)" by (metis prod_cases3)
    have "extends q' q"
    proof (cases "e = 0")
      case False
      with less.prems(3) Some c show ?thesis by (simp add: check_authors.simps)
    next
      case True
      with less.prems(3) Some c have "check_authors q' x rest (Suc n) = (q, res)"
        by (simp add: check_authors.simps [of q x buf])
      then show ?thesis by (metis check_authors_extends fst_conv)
    qed
    with c ident_extends [of q b x TypeCommit] have "q' = q" by (intro extends_quiet) simp_all
    with c less.prems(2) obtain l r where l: "b = l @ r" "ident_line l"
      using ident_quiet(1) [of q x b TypeCommit] by auto
    have buf: "buf = str ''author '' @ b" using Some by (rule cut_prefix_SomeD)
    have run: "check_authors q x r (Suc n) = (q, res)"
      using less.prems(2,3) Some l by (simp add: check_authors.simps [of q x buf] ident_quiet)
    have "length r < length buf" by (simp add: buf l(1))
    then obtain ls r' where "res = Inr (r', Suc n + length ls)"
      "r = concat (map author_line ls) @ r'" "list_all ident_line ls"
      using less.hyps [OF _ _ less.prems(2) run] by blast
    with less.prems(1) [of r' "l # ls"] l buf show ?thesis by (simp add: author_line_def)
  qed
qed

lemma commit_committer_quiet:
  assumes "loud q x"
  shows "commit_committer q x whole buf = (q, r) \<longleftrightarrow> r = 0 \<and> 0 \<notin> set whole \<and>
    (\<exists>l body. buf = str ''committer '' @ l @ body \<and> ident_line l)"
proof (cases "cut_prefix buf (str ''committer '')")
  case None
  then have "\<nexists>b. buf = str ''committer '' @ b" unfolding cut_prefix_None .
  with None show ?thesis
    using report_pair_loud [OF assms] by (simp add: commit_committer_def)
next
  case (Some b)
  then have buf: "buf = str ''committer '' @ b" by (rule cut_prefix_SomeD)
  obtain q' rest e where c: "ident q b x TypeCommit = (q', rest, e)" by (metis prod_cases3)
  show ?thesis
  proof (cases "q' = q")
    case True
    with c obtain l body where l: "b = l @ body" "ident_line l"
      using ident_quiet(1) [OF assms, of b TypeCommit] by auto
    with Some show ?thesis
      using report_pair_loud [OF assms] buf ident_quiet(2) [OF assms]
      by (auto simp: commit_committer_def)
  next
    case False
    have no: "\<nexists>l body. buf = str ''committer '' @ l @ body \<and> ident_line l"
      using False c ident_quiet(1) [OF assms, of b TypeCommit] buf by auto
    have "extends q q'" using c ident_extends by (metis fst_conv)
    then have "\<not> extends q' q" using extends_quiet False by blast
    then have "commit_committer q x whole buf \<noteq> (q, r)"
      using Some c report_extends [of q' x]
      by (auto simp: commit_committer_def split: if_splits) (metis fst_conv)
    with no show ?thesis by blast
  qed
qed

lemma commit_committer_extends: "extends q (fst (commit_committer q x whole buf))"
proof (cases "cut_prefix buf (str ''committer '')")
  case None
  then show ?thesis by (simp add: commit_committer_def report_extends)
next
  case (Some b)
  obtain q' rest e where c: "ident q b x TypeCommit = (q', rest, e)" by (metis prod_cases3)
  then have "extends q q'" using ident_extends by (metis fst_conv)
  with Some c show ?thesis
    by (auto simp: commit_committer_def intro: extends_trans report_extends)
qed

lemma count_authors_quiet: "loud q x \<Longrightarrow> fst (count_authors q x n) = q \<longleftrightarrow> n = 1"
  using report_loud [of q x] by (auto simp: count_authors_def)

lemma count_authors_extends: "extends q (fst (count_authors q x n))"
  by (simp add: count_authors_def report_extends)

lemma commit_author_quiet:
  assumes "loud q x"
  shows "commit_author q x whole buf = (q, r) \<longleftrightarrow> r = 0 \<and> 0 \<notin> set whole \<and>
    (\<exists>a l body. buf = str ''author '' @ a @ str ''committer '' @ l @ body \<and>
       ident_line a \<and> ident_line l)"
proof
  assume run: "commit_author q x whole buf = (q, r)"
  obtain q1 res where c: "check_authors q x buf 0 = (q1, res)" by force
  then have q1: "extends q q1" using check_authors_extends by (metis fst_conv)
  obtain b n q2 err where res: "res = Inl r \<and> q1 = q \<or> res = Inr (b, n) \<and>
      count_authors q1 x n = (q2, err) \<and> extends q2 q"
    and tail: "res = Inr (b, n) \<Longrightarrow> q2 = q \<Longrightarrow> err = 0 \<Longrightarrow> commit_committer q x whole b = (q, r)"
  proof (cases res)
    case (Inl e)
    with run c show ?thesis by (intro that) (auto simp: commit_author_def)
  next
    case (Inr bn)
    obtain b n where bn: "bn = (b, n)" by force
    obtain q2 err where q2: "count_authors q1 x n = (q2, err)" by force
    with run c Inr bn have "extends q2 q"
      using commit_committer_extends [of q2 x whole b]
      by (auto simp: commit_author_def split: if_splits)
    with q2 Inr bn run c show ?thesis by (intro that [of b n q2 err]) (auto simp: commit_author_def)
  qed
  have "extends q1 q" using res count_authors_extends [of q1 x n] extends_trans by auto
  then have [simp]: "q1 = q" using q1 extends_quiet by blast
  from c have "check_authors q x buf 0 = (q, res)" by simp
  then obtain ls b' where ls: "res = Inr (b', length ls)"
    "buf = concat (map author_line ls) @ b'" "list_all ident_line ls"
    by (rule check_authors_quiet [OF assms]) simp
  with res have q2: "count_authors q x (length ls) = (q2, err)" "extends q2 q" "b = b'" "n = length ls"
    by auto
  then have "q2 = q" using count_authors_extends extends_quiet by (metis fst_conv)
  with q2(1) have "length ls = 1" using count_authors_quiet [OF assms] by (metis fst_conv)
  moreover from this q2(1) have "err = 0" by (simp add: count_authors_def)
  ultimately obtain a where a: "ls = [a]" "commit_committer q x whole b' = (q, r)"
    using tail ls(1) q2 \<open>q2 = q\<close> by (auto simp: length_Suc_conv)
  with commit_committer_quiet [OF assms] ls
  show "r = 0 \<and> 0 \<notin> set whole \<and>
    (\<exists>a l body. buf = str ''author '' @ a @ str ''committer '' @ l @ body \<and>
       ident_line a \<and> ident_line l)" by (auto simp: author_line_def)
next
  assume "r = 0 \<and> 0 \<notin> set whole \<and>
    (\<exists>a l body. buf = str ''author '' @ a @ str ''committer '' @ l @ body \<and>
       ident_line a \<and> ident_line l)"
  then obtain a l body where h: "r = 0" "0 \<notin> set whole"
    "buf = str ''author '' @ a @ str ''committer '' @ l @ body" "ident_line a" "ident_line l"
    by blast
  have "check_authors q x buf 0 = (q, Inr (str ''committer '' @ l @ body, 1))"
    using check_authors_lines [OF assms, of "[a]" "str ''committer '' @ l @ body" 0] h(3,4)
    by (simp add: has_prefix_def author_line_def)
  moreover have "commit_committer q x whole (str ''committer '' @ l @ body) = (q, 0)"
    using h commit_committer_quiet [OF assms] by blast
  ultimately show "commit_author q x whole buf = (q, r)"
    using h(1) by (simp add: commit_author_def count_authors_def)
qed

lemma commit_author_extends: "extends q (fst (commit_author q x whole buf))"
proof -
  obtain q1 res where c: "check_authors q x buf 0 = (q1, res)" by force
  then have q1: "extends q q1" using check_authors_extends by (metis fst_conv)
  show ?thesis
  proof (cases res)
    case (Inl e)
    with c q1 show ?thesis by (simp add: commit_author_def)
  next
    case (Inr bn)
    obtain b n where bn: "bn = (b, n)" by force
    obtain q2 err where q2: "count_authors q1 x n = (q2, err)" by force
    then have "extends q1 q2" using count_authors_extends by (metis fst_conv)
    then have "extends q q2" using q1 by (rule extends_trans [rotated])
    with c Inr bn q2 show ?thesis
      using commit_committer_extends [of q2 x whole b] extends_trans
      by (auto simp: commit_author_def)
  qed
qed

lemma commit_parents_extends: "extends q (fst (commit_parents q x whole buf))"
  unfolding commit_parents_def
  by (rule extends_bind [OF check_parents_extends commit_author_extends])

lemma commit_parents_quiet:
  assumes "loud q x"
  shows "commit_parents q x whole buf = (q, r) \<longleftrightarrow> r = 0 \<and> 0 \<notin> set whole \<and>
    (\<exists>ps a l body. buf = concat (map (\<lambda>p. str ''parent '' @ p @ [10]) ps) @
       str ''author '' @ a @ str ''committer '' @ l @ body \<and>
       list_all (hex_line (hexsz q)) ps \<and> ident_line a \<and> ident_line l)"
proof
  assume run: "commit_parents q x whole buf = (q, r)"
  have "\<exists>b. check_parents q x buf = (q, Inr b) \<and> commit_author q x whole b = (q, r)"
  proof (rule quiet_bind [OF check_parents_extends commit_author_extends])
    show "(case check_parents q x buf of (q1, Inl e) \<Rightarrow> (q1, e)
        | (q1, Inr b) \<Rightarrow> commit_author q1 x whole b) = (q, r)"
      using run by (simp add: commit_parents_def)
    show "check_parents q x buf \<noteq> (q, Inl e)" for e
      using check_parents_quiet [OF assms, of buf "Inl e"] by blast
  qed
  then obtain b where b: "check_parents q x buf = (q, Inr b)" "commit_author q x whole b = (q, r)"
    by blast
  from b(1) obtain ps where "buf = concat (map (\<lambda>p. str ''parent '' @ p @ [10]) ps) @ b"
    "list_all (hex_line (hexsz q)) ps"
    by (rule check_parents_quiet [OF assms]) blast
  moreover from b(2) obtain a l body where "r = 0" "0 \<notin> set whole"
    "b = str ''author '' @ a @ str ''committer '' @ l @ body" "ident_line a" "ident_line l"
    unfolding commit_author_quiet [OF assms] by auto
  ultimately show "r = 0 \<and> 0 \<notin> set whole \<and>
    (\<exists>ps a l body. buf = concat (map (\<lambda>p. str ''parent '' @ p @ [10]) ps) @
       str ''author '' @ a @ str ''committer '' @ l @ body \<and>
       list_all (hex_line (hexsz q)) ps \<and> ident_line a \<and> ident_line l)" by blast
next
  assume "r = 0 \<and> 0 \<notin> set whole \<and>
    (\<exists>ps a l body. buf = concat (map (\<lambda>p. str ''parent '' @ p @ [10]) ps) @
       str ''author '' @ a @ str ''committer '' @ l @ body \<and>
       list_all (hex_line (hexsz q)) ps \<and> ident_line a \<and> ident_line l)"
  then obtain ps a l body where h: "r = 0" "0 \<notin> set whole"
    "buf = concat (map (\<lambda>p. str ''parent '' @ p @ [10]) ps) @
       (str ''author '' @ a @ str ''committer '' @ l @ body)"
    "list_all (hex_line (hexsz q)) ps" "ident_line a" "ident_line l" by blast
  have "check_parents q x buf = (q, Inr (str ''author '' @ a @ str ''committer '' @ l @ body))"
    unfolding h(3) by (rule check_parents_lines [OF h(4)]) (simp add: has_prefix_def)
  moreover have "commit_author q x whole (str ''author '' @ a @ str ''committer '' @ l @ body) = (q, r)"
    using h commit_author_quiet [OF assms] by blast
  ultimately show "commit_parents q x whole buf = (q, r)" by (simp add: commit_parents_def)
qed

lemma commit_tree_extends: "extends q (fst (commit_tree q x buf))"
proof (cases "cut_prefix buf (str ''tree '')")
  case None
  then show ?thesis by (simp add: commit_tree_def report_extends)
next
  case (Some b)
  have "extends q (fst (case check_hex_line q x TypeCommit MsgBadTreeSha1
      (str ''invalid '' @ quoted (str ''tree'') @ str '' line format - bad sha1'') b of
      (q1, Inl err) \<Rightarrow> (q1, err)
    | (q1, Inr _) \<Rightarrow> commit_parents q1 x buf (after_line b (hexsz q))))"
    by (rule extends_bind [OF check_hex_line_extends commit_parents_extends])
  with Some show ?thesis by (simp add: commit_tree_def)
qed

lemma commit_tree_quiet:
  assumes "loud q x"
  shows "commit_tree q x buf = (q, r) \<longleftrightarrow>
    r = 0 \<and> 0 \<notin> set buf \<and> commit_shape (hexsz q) buf"
proof (cases "cut_prefix buf (str ''tree '')")
  case None
  then have "\<not> commit_shape (hexsz q) buf" unfolding cut_prefix_None commit_shape_def by blast
  with None show ?thesis using report_pair_loud [OF assms] by (simp add: commit_tree_def)
next
  case (Some b)
  let ?s = "str ''invalid '' @ quoted (str ''tree'') @ str '' line format - bad sha1''"
  have buf: "buf = str ''tree '' @ b" using Some by (rule cut_prefix_SomeD)
  let ?tail = "\<lambda>c. \<exists>ps a l body. c = concat (map (\<lambda>p. str ''parent '' @ p @ [10]) ps) @
       str ''author '' @ a @ str ''committer '' @ l @ body \<and>
       list_all (hex_line (hexsz q)) ps \<and> ident_line a \<and> ident_line l"
  have shape: "commit_shape (hexsz q) buf \<longleftrightarrow>
    valid_hex_line b (hexsz q) \<and> ?tail (after_line b (hexsz q))"
  proof
    assume "commit_shape (hexsz q) buf"
    then obtain t r where "b = t @ 10 # r" "hex_line (hexsz q) t" "?tail r"
      unfolding commit_shape_def buf same_append_eq by blast
    then show "valid_hex_line b (hexsz q) \<and> ?tail (after_line b (hexsz q))" by simp
  next
    assume "valid_hex_line b (hexsz q) \<and> ?tail (after_line b (hexsz q))"
    then obtain t r where "b = t @ 10 # r" "hex_line (hexsz q) t" "?tail r"
      unfolding valid_hex_line_iff by blast
    then show "commit_shape (hexsz q) buf"
      unfolding commit_shape_def buf same_append_eq by blast
  qed
  have "commit_tree q x buf = (q, r) \<longleftrightarrow> valid_hex_line b (hexsz q) \<and>
      commit_parents q x buf (after_line b (hexsz q)) = (q, r)"
  proof
    assume run: "commit_tree q x buf = (q, r)"
    have "\<exists>u. check_hex_line q x TypeCommit MsgBadTreeSha1 ?s b = (q, Inr u) \<and>
        commit_parents q x buf (after_line b (hexsz q)) = (q, r)"
    proof (rule quiet_bind [where f = "\<lambda>e. e"
        and k = "\<lambda>q1 u. commit_parents q1 x buf (after_line b (hexsz q))",
          OF check_hex_line_extends commit_parents_extends])
      show "(case check_hex_line q x TypeCommit MsgBadTreeSha1 ?s b of (q1, Inl e) \<Rightarrow> (q1, e)
          | (q1, Inr _) \<Rightarrow> commit_parents q1 x buf (after_line b (hexsz q))) = (q, r)"
        using run Some by (simp add: commit_tree_def)
      show "check_hex_line q x TypeCommit MsgBadTreeSha1 ?s b \<noteq> (q, Inl e)" for e
        using check_hex_line_quiet(1) [OF assms] check_hex_line_quiet(2)
        by (metis Inl_Inr_False fst_conv snd_conv)
    qed
    then show "valid_hex_line b (hexsz q) \<and>
        commit_parents q x buf (after_line b (hexsz q)) = (q, r)"
      using check_hex_line_quiet(1) [OF assms] by (metis fst_conv)
  next
    assume "valid_hex_line b (hexsz q) \<and> commit_parents q x buf (after_line b (hexsz q)) = (q, r)"
    with Some show "commit_tree q x buf = (q, r)"
      by (simp add: commit_tree_def check_hex_line_quiet)
  qed
  with shape commit_parents_quiet [OF assms] show ?thesis by blast
qed

lemma commit_check_silent:
  assumes "loud q x"
  shows "(fst (check_commit q x buf) = q \<longleftrightarrow>
      commit_shape (hexsz q) buf \<and> 0 \<notin> set buf \<and> header_ends buf) \<and>
    (fst (check_commit q x buf) = q \<longrightarrow> snd (check_commit q x buf) = 0)"
proof -
  obtain q0 bad where h: "verify_headers q buf x TypeCommit = (q0, bad)" by force
  have e0: "extends q q0" using h verify_headers_extends by (metis fst_conv)
  have run: "fst (check_commit q x buf) = q \<longleftrightarrow>
      q0 = q \<and> bad = 0 \<and> fst (commit_tree q x buf) = q"
  proof
    assume f: "fst (check_commit q x buf) = q"
    have "extends q0 (fst (check_commit q x buf))"
      using h commit_tree_extends by (simp add: check_commit_def)
    with f e0 have q0: "q0 = q" using extends_quiet by simp
    with h have "bad = 0" using verify_headers_quiet(2) [OF assms, of buf TypeCommit] by simp
    with q0 f h show "q0 = q \<and> bad = 0 \<and> fst (commit_tree q x buf) = q"
      by (simp add: check_commit_def)
  qed (use h in \<open>simp add: check_commit_def\<close>)
  have tree: "fst (commit_tree q x buf) = q \<longleftrightarrow> 0 \<notin> set buf \<and> commit_shape (hexsz q) buf"
    using commit_tree_quiet [OF assms] by (metis fst_conv prod.collapse)
  have head: "q0 = q \<longleftrightarrow> header_ends buf" if "0 \<notin> set buf"
    using verify_headers_quiet(1) [OF assms that] h by (metis fst_conv)
  have bad: "bad = 0" if "q0 = q"
    using verify_headers_quiet(2) [OF assms, of buf TypeCommit] h that by simp
  have "snd (check_commit q x buf) = 0" if f: "fst (check_commit q x buf) = q"
  proof -
    from f run h have "check_commit q x buf = commit_tree q x buf" by (simp add: check_commit_def)
    with f show ?thesis using commit_tree_quiet [OF assms] by (metis prod.collapse)
  qed
  then show ?thesis using run tree head bad by blast
qed

text \<open>
  C14: the commit check. With every message reported for the object, the check logs nothing
  exactly on the byte sequences that have the shape of a commit (one tree line, any number of
  parent lines, one author and one committer line, each identity well formed and its date
  within 63 bits), hold no NUL byte, and whose header block ends; and then it returns 0.
\<close>

theorem commit_check_exact:
  assumes "loud q x"
  shows "(fst (check_commit q x buf) = q \<longleftrightarrow>
      commit_shape (hexsz q) buf \<and> 0 \<notin> set buf \<and> header_ends buf) \<and>
    (fst (check_commit q x buf) = q \<longrightarrow> snd (check_commit q x buf) = 0)"
  using commit_check_silent [OF assms] .

theorem commit_check_exact_witness:
  "let q = (new_options (sha1_algo (\<lambda>m. []))) \<lparr>msg_type := Some (\<lambda>i. SevError)\<rparr>;
       line = str ''A <a@b> 1234567890 +0100'' @ [10]
   in check_commit q zero_oid
        (str ''tree '' @ replicate 40 97 @ [10] @ str ''parent '' @ replicate 40 48 @ [10] @
         str ''author '' @ line @ str ''committer '' @ line @ [10] @ str ''msg'') = (q, 0)"
proof -
  let ?q = "(new_options (sha1_algo (\<lambda>m. []))) \<lparr>msg_type := Some (\<lambda>i. SevError)\<rparr>"
  let ?line = "str ''A <a@b> 1234567890 +0100'' @ [10]"
  let ?buf = "str ''tree '' @ replicate 40 97 @ 10 #
    concat (map (\<lambda>p. str ''parent '' @ p @ [10]) [replicate 40 48]) @
    str ''author '' @ ?line @ str ''committer '' @ ?line @ 10 # str ''msg''"
  have loud: "loud ?q zero_oid" by (simp add: loud_def severity_of_def new_options_def skipped_def)
  have zone: "date_zone (str '' 1234567890 +0100'' @ [10])"
    using date_zoneI [of "[]" "str ''1234567890''" 43 "str ''0100''"] by (simp add: is_digit_def)
  have "?line = str ''A '' @ 60 # str ''a@b'' @ 62 # str '' 1234567890 +0100'' @ [10]" by simp
  then have line: "ident_line ?line"
    unfolding ident_line_def using zone
    by (intro exI [of _ "str ''A ''"] exI [of _ "str ''a@b''"] exI [of _ "str '' 1234567890 +0100'' @ [10]"])
      (simp add: no_angle_def angle_or_nl_def)
  have sz: "hexsz ?q = 40" by (simp add: hexsz_def new_options_def sha1_algo_def)
  have hex: "hex_line 40 (replicate 40 97)" "list_all (hex_line 40) [replicate 40 48]"
    by (simp_all add: hex_line_def is_hex_def list_all_length)
  have "commit_shape (hexsz ?q) ?buf"
    unfolding commit_shape_def sz using hex line by blast
  moreover have "0 \<notin> set ?buf" by simp
  moreover have "header_ends ?buf"
    unfolding header_ends_def
    by (intro disjI1 exI [of _ "str ''tree '' @ replicate 40 97 @ 10 #
      concat (map (\<lambda>p. str ''parent '' @ p @ [10]) [replicate 40 48]) @
      str ''author '' @ ?line @ str ''committer '' @ str ''A <a@b> 1234567890 +0100''"]
      exI [of _ "str ''msg''"]) simp
  ultimately have "fst (check_commit ?q zero_oid ?buf) = ?q \<and> snd (check_commit ?q zero_oid ?buf) = 0"
    using commit_check_exact [OF loud, of ?buf] by blast
  then have "check_commit ?q zero_oid ?buf = (?q, 0)" by (simp add: prod_eq_iff del: str_def)
  then show ?thesis by (simp add: Let_def)
qed

end
