(* ===== verification/TagGrammar.thy ===== *)
theory TagGrammar
  imports ObjectGrammar
begin

text \<open>
  What tags the tag check lets pass, and what it then says the tag names. The last section has
  the one way a finding can be missing from the status.
\<close>

section \<open>A report that is logged cannot be taken back\<close>

lemma report_lost: "loud q x \<Longrightarrow> extends (fst (report q x t i s)) q' \<Longrightarrow> q' \<noteq> q"
  using report_loud [of q x t i s] extends_quiet [OF report_extends, of q x t i s] by auto

lemma report_or_stop_extends: "extends q (fst (report_or_stop q x t i s))"
  using report_extends [of q x t i s] by (simp add: report_or_stop_def case_prod_beta)

lemma report_or_stop_lost:
  "loud q x \<Longrightarrow> extends (fst (report_or_stop q x t i s)) q' \<Longrightarrow> q' \<noteq> q"
  using report_lost [of q x t i s] by (simp add: report_or_stop_def case_prod_beta)

section \<open>The tagger line\<close>

lemma tag_tagger_extends: "extends q (fst (tag_tagger q x buf))"
proof (cases "cut_prefix buf (str ''tagger '')")
  case None
  obtain q1 r where r: "report q x TypeTag MsgMissingTaggerEntry
      (str ''invalid format - expected '' @ quoted (str ''tagger'') @ str '' line'') = (q1, r)" by force
  then have "extends q q1" by (rule extends_fst) (rule report_extends)
  with None r show ?thesis by (auto simp: tag_tagger_def intro: extends_trans report_extends)
next
  case (Some b)
  obtain q1 rest r where r: "ident q b x TypeTag = (q1, rest, r)" by (metis prod_cases3)
  then have "extends q q1" by (rule extends_fst) (rule ident_extends)
  with Some r show ?thesis by (auto simp: tag_tagger_def intro: extends_trans report_extends)
qed

lemma tag_tagger_quiet:
  assumes "loud q x"
  shows "tag_tagger q x buf = (q, ret) \<longleftrightarrow> ret = 0 \<and>
    (\<exists>l rest. buf = str ''tagger '' @ l @ rest \<and> ident_line l \<and> (rest = [] \<or> hd rest = 10))"
proof (cases "cut_prefix buf (str ''tagger '')")
  case None
  then have no: "\<nexists>b. buf = str ''tagger '' @ b" unfolding cut_prefix_None .
  let ?s = "str ''invalid format - expected '' @ quoted (str ''tagger'') @ str '' line''"
  have "extends (fst (report q x TypeTag MsgMissingTaggerEntry ?s)) (fst (tag_tagger q x buf))"
    using None report_extends by (auto simp: tag_tagger_def split: prod.splits)
  with report_lost [OF assms] have "fst (tag_tagger q x buf) \<noteq> q" by blast
  with no show ?thesis by auto
next
  case (Some b)
  then have buf: "buf = str ''tagger '' @ b" by (rule cut_prefix_SomeD)
  obtain q1 rest r where r: "ident q b x TypeTag = (q1, rest, r)" by (metis prod_cases3)
  then have q1: "extends q q1" by (rule extends_fst) (rule ident_extends)
  have run: "tag_tagger q x buf = (if rest \<noteq> [] \<and> hd rest \<noteq> 10 then
      report q1 x TypeTag MsgExtraHeaderEntry
        (str ''invalid format - extra header(s) after '' @ quoted (str ''tagger'')) else (q1, r))"
    using Some r by (simp add: tag_tagger_def)
  show ?thesis
  proof (cases "q1 = q")
    case True
    with r obtain l rest' where l: "b = l @ rest'" "ident_line l"
      using ident_quiet(1) [OF assms, of b TypeTag] by auto
    with r ident_quiet(2) [OF assms l(2)] have "rest = rest'" "r = 0" by simp_all
    have pick: "(\<exists>l rest. buf = str ''tagger '' @ l @ rest \<and> ident_line l \<and> (rest = [] \<or> hd rest = 10))
        \<longleftrightarrow> rest = [] \<or> hd rest = 10"
      using l \<open>rest = rest'\<close> ident_rest_line unfolding buf same_append_eq by metis
    show ?thesis
    proof (cases "rest = [] \<or> hd rest = 10")
      case ok: True
      then have "tag_tagger q x buf = (q, 0)" using run True \<open>r = 0\<close> by auto
      with pick ok show ?thesis by auto
    next
      case no: False
      then have "tag_tagger q x buf \<noteq> (q, ret)"
        using run True report_pair_loud [OF assms] by auto
      with pick no show ?thesis by blast
    qed
  next
    case False
    have no: "\<nexists>l rest. buf = str ''tagger '' @ l @ rest \<and> ident_line l"
    proof -
      have "fst (ident q b x TypeTag) \<noteq> q" using r False by simp
      then have "\<nexists>l rest. b = l @ rest \<and> ident_line l"
        using ident_quiet(1) [OF assms, of b TypeTag] by blast
      then show ?thesis unfolding buf same_append_eq .
    qed
    have "extends q1 (fst (tag_tagger q x buf))" unfolding run by (simp add: report_extends)
    then have "fst (tag_tagger q x buf) \<noteq> q" by (rule extends_ne [OF q1 False])
    then have "tag_tagger q x buf \<noteq> (q, ret)" by auto
    with no show ?thesis by blast
  qed
qed

section \<open>The name, the type and the object\<close>

lemma index_byte_line:
  "index_byte b (10 :: byte) = Some k \<Longrightarrow> b = take k b @ 10 # drop (k + 1) b \<and> 10 \<notin> set (take k b)"
  using index_byte_split [of b 10 k] index_byte_SomeD [of b 10 k] by simp

lemma line_cases:
  fixes b :: bytes
  obtains (none) "10 \<notin> set b" | (line) l r where "b = l @ 10 # r" "10 \<notin> set l"
proof (cases "index_byte b 10")
  case None
  then show ?thesis by (intro none) simp
next
  case (Some k)
  with index_byte_line [OF Some] show ?thesis by (intro line) auto
qed

lemma line_unique:
  assumes "l @ 10 # r = l' @ 10 # r'" "10 \<notin> set l" "10 \<notin> set (l' :: bytes)"
  shows "l = l' \<and> r = r'"
proof -
  have "Some (length l) = Some (length l')"
    using assms index_byte_append by metis
  with assms(1) show ?thesis by simp
qed

definition tag_name_ok :: "bytes \<Rightarrow> bool" where
  "tag_name_ok l \<longleftrightarrow> check_refname_format (str ''refs/tags/'' @ l) no_flags"

lemma tag_name_line_eqs:
  "\<nexists>b. buf = str ''tag '' @ b \<Longrightarrow> \<exists>i s. tag_name_line q x info buf =
     (fst (report q x TypeTag i s), snd (report q x TypeTag i s), info)"
  "10 \<notin> set b \<Longrightarrow> \<exists>i s. tag_name_line q x info (str ''tag '' @ b) =
     (fst (report q x TypeTag i s), snd (report q x TypeTag i s), info)"
  "10 \<notin> set l \<Longrightarrow> tag_name_ok l \<Longrightarrow> tag_name_line q x info (str ''tag '' @ l @ 10 # r) =
     (fst (tag_tagger q x r), snd (tag_tagger q x r), info\<lparr>tag_label := l\<rparr>)"
  "10 \<notin> set l \<Longrightarrow> \<not> tag_name_ok l \<Longrightarrow> \<exists>i s. extends (fst (report_or_stop q x TypeTag i s))
     (fst (tag_name_line q x info (str ''tag '' @ l @ 10 # r)))"
proof -
  show "\<exists>i s. tag_name_line q x info buf =
      (fst (report q x TypeTag i s), snd (report q x TypeTag i s), info)"
    if "\<nexists>b. buf = str ''tag '' @ b"
    using that unfolding cut_prefix_None [symmetric] tag_name_line_def
    by (simp add: case_prod_beta) blast
  show "\<exists>i s. tag_name_line q x info (str ''tag '' @ b) =
      (fst (report q x TypeTag i s), snd (report q x TypeTag i s), info)" if "10 \<notin> set b"
    using that unfolding tag_name_line_def cut_prefix_append
    by (simp add: case_prod_beta index_byte_notin) blast
  show "tag_name_line q x info (str ''tag '' @ l @ 10 # r) =
      (fst (tag_tagger q x r), snd (tag_tagger q x r), info\<lparr>tag_label := l\<rparr>)"
    if "10 \<notin> set l" "tag_name_ok l"
    using that unfolding tag_name_line_def cut_prefix_append tag_name_ok_def
    by (simp add: case_prod_beta)
  show "\<exists>i s. extends (fst (report_or_stop q x TypeTag i s))
      (fst (tag_name_line q x info (str ''tag '' @ l @ 10 # r)))"
    if "10 \<notin> set l" "\<not> tag_name_ok l"
    using that unfolding tag_name_line_def cut_prefix_append tag_name_ok_def
    by (intro exI [of _ MsgBadTagName]
        exI [of _ "str ''invalid '' @ quoted (str ''tag'') @ str '' name: '' @ l"])
      (simp add: case_prod_beta Let_def tag_tagger_extends split: sum.splits)
qed

lemma tag_name_line_extends: "extends q (fst (tag_name_line q x info buf))"
proof (cases "\<exists>b. buf = str ''tag '' @ b")
  case False
  then obtain i s where "tag_name_line q x info buf =
      (fst (report q x TypeTag i s), snd (report q x TypeTag i s), info)"
    using tag_name_line_eqs(1) by blast
  with report_extends [of q x TypeTag i s] show ?thesis by simp
next
  case True
  then obtain b where buf: "buf = str ''tag '' @ b" by blast
  show ?thesis
  proof (cases rule: line_cases [of b])
    case none
    then obtain i s where "tag_name_line q x info buf =
        (fst (report q x TypeTag i s), snd (report q x TypeTag i s), info)"
      unfolding buf using tag_name_line_eqs(2) by blast
    with report_extends [of q x TypeTag i s] show ?thesis by simp
  next
    case (line l r)
    show ?thesis
    proof (cases "tag_name_ok l")
      case True
      show ?thesis
        unfolding buf line(1) tag_name_line_eqs(3) [OF line(2) True] fst_conv by (rule tag_tagger_extends)
    next
      case False
      then obtain i s where "extends (fst (report_or_stop q x TypeTag i s)) (fst (tag_name_line q x info buf))"
        unfolding buf line(1) using tag_name_line_eqs(4) [OF line(2)] by blast
      with report_or_stop_extends [of q x TypeTag i s] show ?thesis by (rule extends_trans)
    qed
  qed
qed

lemma tag_name_line_quiet:
  assumes "loud q x"
  shows "tag_name_line q x info buf = (q, ret, info') \<longleftrightarrow> ret = 0 \<and>
    (\<exists>name l rest. buf = str ''tag '' @ name @ 10 # str ''tagger '' @ l @ rest \<and>
       10 \<notin> set name \<and> tag_name_ok name \<and> ident_line l \<and> (rest = [] \<or> hd rest = 10) \<and>
       info' = info\<lparr>tag_label := name\<rparr>)"
proof (cases "\<exists>name r. buf = str ''tag '' @ name @ 10 # r \<and> 10 \<notin> set name \<and> tag_name_ok name")
  case True
  then obtain name r where n: "buf = str ''tag '' @ name @ 10 # r" "10 \<notin> set name" "tag_name_ok name"
    by blast
  have uniq: "buf = str ''tag '' @ name' @ 10 # r' \<and> 10 \<notin> set name' \<longleftrightarrow> name' = name \<and> r' = r" for name' r'
    using n(1,2) line_unique by (metis same_append_eq)
  have "tag_name_line q x info buf = (q, ret, info') \<longleftrightarrow>
      tag_tagger q x r = (q, ret) \<and> info' = info\<lparr>tag_label := name\<rparr>"
    unfolding n(1) tag_name_line_eqs(3) [OF n(2,3)] by (auto simp: prod_eq_iff)
  also have "\<dots> \<longleftrightarrow> ret = 0 \<and> (\<exists>l rest. r = str ''tagger '' @ l @ rest \<and> ident_line l \<and>
      (rest = [] \<or> hd rest = 10)) \<and> info' = info\<lparr>tag_label := name\<rparr>"
    unfolding tag_tagger_quiet [OF assms] by blast
  finally show ?thesis using uniq n(3) by metis
next
  case False
  have "fst (tag_name_line q x info buf) \<noteq> q"
  proof (cases "\<exists>b. buf = str ''tag '' @ b")
    case no: False
    then show ?thesis using tag_name_line_eqs(1) report_loud [OF assms] by (metis fst_conv)
  next
    case True
    then obtain b where buf: "buf = str ''tag '' @ b" by blast
    show ?thesis
    proof (cases rule: line_cases [of b])
      case none
      then show ?thesis unfolding buf using tag_name_line_eqs(2) report_loud [OF assms] by (metis fst_conv)
    next
      case (line l r)
      then have "\<not> tag_name_ok l" using False buf by blast
      then show ?thesis
        unfolding buf line(1) using tag_name_line_eqs(4) [OF line(2)] report_or_stop_lost [OF assms] by blast
    qed
  qed
  then have "tag_name_line q x info buf \<noteq> (q, ret, info')" by auto
  with False show ?thesis by blast
qed

lemma tag_type_line_eqs:
  "\<nexists>b. buf = str ''type '' @ b \<Longrightarrow> \<exists>i s. tag_type_line q x info buf =
     (fst (report q x TypeTag i s), snd (report q x TypeTag i s), info)"
  "10 \<notin> set b \<Longrightarrow> \<exists>i s. tag_type_line q x info (str ''type '' @ b) =
     (fst (report q x TypeTag i s), snd (report q x TypeTag i s), info)"
  "10 \<notin> set l \<Longrightarrow> type_from_name l \<noteq> TypeBad \<Longrightarrow> tag_type_line q x info (str ''type '' @ l @ 10 # r) =
     tag_name_line q x (info\<lparr>tag_target := type_from_name l\<rparr>) r"
  "10 \<notin> set l \<Longrightarrow> type_from_name l = TypeBad \<Longrightarrow> \<exists>i s. extends (fst (report_or_stop q x TypeTag i s))
     (fst (tag_type_line q x info (str ''type '' @ l @ 10 # r)))"
proof -
  show "\<exists>i s. tag_type_line q x info buf =
      (fst (report q x TypeTag i s), snd (report q x TypeTag i s), info)"
    if "\<nexists>b. buf = str ''type '' @ b"
    using that unfolding cut_prefix_None [symmetric] tag_type_line_def
    by (simp add: case_prod_beta) blast
  show "\<exists>i s. tag_type_line q x info (str ''type '' @ b) =
      (fst (report q x TypeTag i s), snd (report q x TypeTag i s), info)" if "10 \<notin> set b"
    using that unfolding tag_type_line_def cut_prefix_append
    by (simp add: case_prod_beta index_byte_notin) blast
  show "tag_type_line q x info (str ''type '' @ l @ 10 # r) =
      tag_name_line q x (info\<lparr>tag_target := type_from_name l\<rparr>) r"
    if "10 \<notin> set l" "type_from_name l \<noteq> TypeBad"
    using that unfolding tag_type_line_def cut_prefix_append
    by (simp add: case_prod_beta)
  show "\<exists>i s. extends (fst (report_or_stop q x TypeTag i s))
      (fst (tag_type_line q x info (str ''type '' @ l @ 10 # r)))"
    if "10 \<notin> set l" "type_from_name l = TypeBad"
    using that unfolding tag_type_line_def cut_prefix_append
    by (intro exI [of _ MsgBadType] exI [of _ "str ''invalid '' @ quoted (str ''type'') @ str '' value''"])
      (simp add: case_prod_beta Let_def tag_name_line_extends split: sum.splits)
qed

lemma tag_type_line_extends: "extends q (fst (tag_type_line q x info buf))"
proof (cases "\<exists>b. buf = str ''type '' @ b")
  case False
  then obtain i s where "tag_type_line q x info buf =
      (fst (report q x TypeTag i s), snd (report q x TypeTag i s), info)"
    using tag_type_line_eqs(1) by blast
  with report_extends [of q x TypeTag i s] show ?thesis by simp
next
  case True
  then obtain b where buf: "buf = str ''type '' @ b" by blast
  show ?thesis
  proof (cases rule: line_cases [of b])
    case none
    then obtain i s where "tag_type_line q x info buf =
        (fst (report q x TypeTag i s), snd (report q x TypeTag i s), info)"
      unfolding buf using tag_type_line_eqs(2) by blast
    with report_extends [of q x TypeTag i s] show ?thesis by simp
  next
    case (line l r)
    show ?thesis
    proof (cases "type_from_name l = TypeBad")
      case False
      show ?thesis
        unfolding buf line(1) tag_type_line_eqs(3) [OF line(2) False] by (rule tag_name_line_extends)
    next
      case True
      then obtain i s where "extends (fst (report_or_stop q x TypeTag i s)) (fst (tag_type_line q x info buf))"
        unfolding buf line(1) using tag_type_line_eqs(4) [OF line(2)] by blast
      with report_or_stop_extends [of q x TypeTag i s] show ?thesis by (rule extends_trans)
    qed
  qed
qed

lemma tag_type_line_quiet:
  assumes "loud q x"
  shows "tag_type_line q x info buf = (q, ret, info') \<longleftrightarrow>
    (\<exists>ty r. buf = str ''type '' @ ty @ 10 # r \<and> 10 \<notin> set ty \<and> type_from_name ty \<noteq> TypeBad \<and>
       tag_name_line q x (info\<lparr>tag_target := type_from_name ty\<rparr>) r = (q, ret, info'))"
proof (cases "\<exists>ty r. buf = str ''type '' @ ty @ 10 # r \<and> 10 \<notin> set ty \<and> type_from_name ty \<noteq> TypeBad")
  case True
  then obtain ty r where n: "buf = str ''type '' @ ty @ 10 # r" "10 \<notin> set ty" "type_from_name ty \<noteq> TypeBad"
    by blast
  have uniq: "buf = str ''type '' @ ty' @ 10 # r' \<and> 10 \<notin> set ty' \<longleftrightarrow> ty' = ty \<and> r' = r" for ty' r'
    using n(1,2) line_unique by (metis same_append_eq)
  have "tag_type_line q x info buf = tag_name_line q x (info\<lparr>tag_target := type_from_name ty\<rparr>) r"
    unfolding n(1) by (rule tag_type_line_eqs(3) [OF n(2,3)])
  with uniq n(3) show ?thesis by metis
next
  case False
  have "fst (tag_type_line q x info buf) \<noteq> q"
  proof (cases "\<exists>b. buf = str ''type '' @ b")
    case no: False
    then show ?thesis using tag_type_line_eqs(1) report_loud [OF assms] by (metis fst_conv)
  next
    case True
    then obtain b where buf: "buf = str ''type '' @ b" by blast
    show ?thesis
    proof (cases rule: line_cases [of b])
      case none
      then show ?thesis unfolding buf using tag_type_line_eqs(2) report_loud [OF assms] by (metis fst_conv)
    next
      case (line l r)
      then have "type_from_name l = TypeBad" using False buf by blast
      then show ?thesis
        unfolding buf line(1) using tag_type_line_eqs(4) [OF line(2)] report_or_stop_lost [OF assms] by blast
    qed
  qed
  then have "tag_type_line q x info buf \<noteq> (q, ret, info')" by auto
  with False show ?thesis by blast
qed

section \<open>The whole tag\<close>

definition header_clean :: "bytes \<Rightarrow> bool" where
  "header_clean buf \<longleftrightarrow> (case scan_headers 0 buf of NulAt i \<Rightarrow> False | BlankLine \<Rightarrow> True
     | NoBlankLine \<Rightarrow> buf \<noteq> [] \<and> last buf = 10)"

lemma verify_headers_clean:
  "loud q x \<Longrightarrow> fst (verify_headers q buf x t) = q \<longleftrightarrow> header_clean buf"
  using report_loud [of q x] by (auto simp: verify_headers_def header_clean_def split: header_scan.splits)

lemma unhex_is_hex: "(\<exists>v. unhex c = Some v) \<longleftrightarrow> is_hex c"
  by (auto simp: unhex_def is_hex_def)

lemma hex_pairs_hex:
  "length h = 2 * n \<Longrightarrow> list_all is_hex h \<Longrightarrow> \<exists>b. hex_pairs n (h @ r) = Some b \<and> hex_pairs n h = Some b"
proof (induction n h rule: hex_pairs.induct)
  case (2 n c d rest)
  then obtain v w where "unhex c = Some v" "unhex d = Some w" using unhex_is_hex by fastforce
  moreover from this 2 obtain b where "hex_pairs n (rest @ r) = Some b" "hex_pairs n rest = Some b"
    by auto
  ultimately show ?case by simp
qed auto

lemma parse_hex_bytes_line:
  assumes "wf_algo a" and "hex_line (hex_size a) h"
  obtains y where "parse_hex_bytes a (h @ r) = Some y" "parse_hex_bytes a h = Some y"
proof -
  have "length h = 2 * raw_size a" "list_all is_hex h"
    using assms wf_algo_sizes by (auto simp: hex_line_def)
  from hex_pairs_hex [OF this, of r] show thesis
    using that assms(2) by (auto simp: parse_hex_bytes_def hex_line_def)
qed

lemma tag_object_line_quiet:
  assumes "loud q x" and "wf_algo (opt_algo q)"
  shows "tag_object_line q x buf = (q, ret, info) \<longleftrightarrow>
    (\<exists>h r y. buf = str ''object '' @ h @ 10 # r \<and> hex_line (hexsz q) h \<and>
       parse_hex_bytes (opt_algo q) h = Some y \<and>
       tag_type_line q x (empty_info\<lparr>tag_object := y\<rparr>) r = (q, ret, info))"
proof (cases "\<exists>h r. buf = str ''object '' @ h @ 10 # r \<and> hex_line (hexsz q) h")
  case True
  then obtain h r where b: "buf = str ''object '' @ h @ 10 # r" "hex_line (hexsz q) h" by blast
  from assms(2) b(2) obtain y where y: "parse_hex_bytes (opt_algo q) (h @ 10 # r) = Some y"
    "parse_hex_bytes (opt_algo q) h = Some y" unfolding hexsz_def by (rule parse_hex_bytes_line)
  have "tag_object_line q x buf = tag_type_line q x (empty_info\<lparr>tag_object := y\<rparr>) r"
    unfolding b(1) tag_object_line_def cut_prefix_append
    using b(2) y by (simp add: check_hex_line_quiet Let_def)
  moreover have "buf = str ''object '' @ h' @ 10 # r' \<and> hex_line (hexsz q) h' \<longleftrightarrow> h' = h \<and> r' = r" for h' r'
    unfolding b(1) same_append_eq using b(2) by (auto simp: hex_line_def)
  ultimately show ?thesis using y(2) by (metis option.inject)
next
  case False
  have "fst (tag_object_line q x buf) \<noteq> q"
  proof (cases "cut_prefix buf (str ''object '')")
    case None
    then show ?thesis using report_loud [OF assms(1)] by (simp add: tag_object_line_def case_prod_beta)
  next
    case (Some b)
    let ?s = "str ''invalid '' @ quoted (str ''object'') @ str '' line format - bad sha1''"
    from Some have buf: "buf = str ''object '' @ b" by (rule cut_prefix_SomeD)
    have "\<not> valid_hex_line b (hexsz q)" using False buf valid_hex_line_iff by blast
    then have check: "check_hex_line q x TypeTag MsgBadObjectSha1 ?s b =
        report_or_stop q x TypeTag MsgBadObjectSha1 ?s"
      by (simp add: check_hex_line_def)
    have "extends (fst (report_or_stop q x TypeTag MsgBadObjectSha1 ?s)) (fst (tag_object_line q x buf))"
      unfolding tag_object_line_def Some option.case Let_def check
      using tag_type_line_extends by (simp add: case_prod_beta split: sum.splits)
    then show ?thesis by (rule report_or_stop_lost [OF assms(1)])
  qed
  then have "tag_object_line q x buf \<noteq> (q, ret, info)" by auto
  with False show ?thesis by blast
qed

lemma tag_object_line_extends: "extends q (fst (tag_object_line q x buf))"
proof (cases "cut_prefix buf (str ''object '')")
  case None
  then show ?thesis by (simp add: tag_object_line_def report_extends case_prod_beta)
next
  case (Some b)
  let ?s = "str ''invalid '' @ quoted (str ''object'') @ str '' line format - bad sha1''"
  obtain q1 res where c: "check_hex_line q x TypeTag MsgBadObjectSha1 ?s b = (q1, res)" by force
  then have "extends q q1" by (rule extends_fst) (rule check_hex_line_extends)
  with Some c show ?thesis
    by (cases res) (auto simp: tag_object_line_def intro: extends_trans tag_type_line_extends)
qed

lemma tag_check_silent:
  assumes "loud q x" and "wf_algo (opt_algo q)"
  shows "tag_with_info q x buf = (q, ret, info) \<longleftrightarrow> ret = 0 \<and> header_clean buf \<and>
    (\<exists>h ty name l rest. buf = str ''object '' @ h @ [10] @ str ''type '' @ ty @ [10] @
         str ''tag '' @ name @ [10] @ str ''tagger '' @ l @ rest \<and>
       hex_line (hexsz q) h \<and> 10 \<notin> set ty \<and> type_from_name ty \<noteq> TypeBad \<and>
       10 \<notin> set name \<and> check_refname_format (str ''refs/tags/'' @ name) no_flags \<and>
       ident_line l \<and> (rest = [] \<or> hd rest = 10) \<and>
       parse_hex_bytes (opt_algo q) h = Some (tag_object info) \<and>
       tag_target info = type_from_name ty \<and> tag_label info = name)"
proof -
  let ?tail = "\<lambda>r. \<exists>ty name l rest. r = str ''type '' @ ty @ 10 # str ''tag '' @ name @ 10 #
         str ''tagger '' @ l @ rest \<and> 10 \<notin> set ty \<and> type_from_name ty \<noteq> TypeBad \<and>
       10 \<notin> set name \<and> tag_name_ok name \<and> ident_line l \<and> (rest = [] \<or> hd rest = 10) \<and>
       tag_target info = type_from_name ty \<and> tag_label info = name"
  obtain q0 bad where h: "verify_headers q buf x TypeTag = (q0, bad)" by force
  then have e0: "extends q q0" by (rule extends_fst) (rule verify_headers_extends)
  have "tag_with_info q x buf = (q, ret, info) \<longleftrightarrow>
      header_clean buf \<and> tag_object_line q x buf = (q, ret, info)"
  proof (cases "header_clean buf")
    case True
    then have "verify_headers q buf x TypeTag = (q, 0)"
      using verify_headers_clean [OF assms(1)] verify_headers_quiet(2) [OF assms(1)] by blast
    with True show ?thesis by (simp add: tag_with_info_def)
  next
    case False
    then have "q0 \<noteq> q" using verify_headers_clean [OF assms(1), of buf TypeTag] h by simp
    moreover have "extends q0 (fst (tag_with_info q x buf))"
      using h tag_object_line_extends by (simp add: tag_with_info_def)
    ultimately have "fst (tag_with_info q x buf) \<noteq> q" using extends_ne [OF e0] by blast
    with False show ?thesis by auto
  qed
  also have "\<dots> \<longleftrightarrow> header_clean buf \<and> (\<exists>h r. buf = str ''object '' @ h @ 10 # r \<and>
      hex_line (hexsz q) h \<and> parse_hex_bytes (opt_algo q) h = Some (tag_object info) \<and>
      ret = 0 \<and> ?tail r)"
  proof -
    have info: "info = empty_info\<lparr>tag_object := y\<rparr>\<lparr>tag_target := t\<rparr>\<lparr>tag_label := n\<rparr> \<longleftrightarrow>
        tag_object info = y \<and> tag_target info = t \<and> tag_label info = n" for y t n
      by (auto simp: empty_info_def)
    have "tag_type_line q x (empty_info\<lparr>tag_object := y\<rparr>) r = (q, ret, info) \<longleftrightarrow>
        tag_object info = y \<and> ret = 0 \<and> ?tail r" for y r
      unfolding tag_type_line_quiet [OF assms(1)] tag_name_line_quiet [OF assms(1)] info by blast
    then show ?thesis unfolding tag_object_line_quiet [OF assms] by metis
  qed
  finally show ?thesis unfolding tag_name_ok_def by simp blast
qed

lemma hex_pairs_zeros: "hex_pairs n (replicate (2 * n) 48) = Some (replicate n 0)"
  by (induction n) (simp_all add: unhex_def)

lemma parse_zeros: "parse_hex_bytes (sha1_algo f) (replicate 40 48) = Some (null_oid (sha1_algo f))"
  using hex_pairs_zeros [of 20]
  by (simp add: parse_hex_bytes_def sha1_algo_def null_oid_def pad_raw_def max_raw_size_def flip: replicate_add)

lemma tag_name_v1: "check_refname_format (str ''refs/tags/v1'') no_flags"
proof -
  have "split_by is_sep (str ''refs/tags/v1'') = [str ''refs'', str ''tags'', str ''v1'']"
    by (simp add: is_sep_def)
  moreover have "list_all good_component [str ''refs'', str ''tags'', str ''v1'']"
    by (simp add: good_component_def forbidden_byte_def pair_ok_def has_suffix_def lock_suffix_def)
  ultimately show ?thesis
    using check_refname_loop_eq [of no_flags "str ''refs/tags/v1''" 0]
    by (simp add: check_refname_format_def no_flags_def)
qed

lemma ident_line_example: "ident_line (str ''A <a@b> 1 +0000'' @ [10])"
proof -
  have zone: "date_zone (str '' 1 +0000'' @ [10])"
    using date_zoneI [of "[]" "str ''1''" 43 "str ''0000''"] by (simp add: is_digit_def)
  have "str ''A <a@b> 1 +0000'' @ [10] = str ''A '' @ 60 # str ''a@b'' @ 62 # str '' 1 +0000'' @ [10]" by simp
  with zone show ?thesis
    unfolding ident_line_def
    by (intro exI [of _ "str ''A ''"] exI [of _ "str ''a@b''"] exI [of _ "str '' 1 +0000'' @ [10]"])
      (simp add: no_angle_def angle_or_nl_def)
qed

lemma scan_headers_append:
  "0 \<notin> set u \<Longrightarrow> 10 \<notin> set u \<Longrightarrow> scan_headers i (u @ r) = scan_headers (i + length u) r"
  by (induction u arbitrary: i) auto

lemma scan_headers_zeros: "scan_headers i (replicate n 48 @ r) = scan_headers (i + n) r"
  by (simp add: scan_headers_append)

text \<open>
  C15: the tag check. With every message reported, the check logs nothing exactly on a tag of
  four lines (object, type, name, tagger) whose name makes a valid reference and that has no
  further header; the check then returns 0, and what it says of the tag is the name, the type
  and the object those lines spell.
\<close>

theorem tag_check_exact:
  assumes "loud q x" and "wf_algo (opt_algo q)"
  shows "tag_with_info q x buf = (q, ret, info) \<longleftrightarrow> ret = 0 \<and> header_clean buf \<and>
    (\<exists>h ty name l rest. buf = str ''object '' @ h @ [10] @ str ''type '' @ ty @ [10] @
         str ''tag '' @ name @ [10] @ str ''tagger '' @ l @ rest \<and>
       hex_line (hexsz q) h \<and> 10 \<notin> set ty \<and> type_from_name ty \<noteq> TypeBad \<and>
       10 \<notin> set name \<and> check_refname_format (str ''refs/tags/'' @ name) no_flags \<and>
       ident_line l \<and> (rest = [] \<or> hd rest = 10) \<and>
       parse_hex_bytes (opt_algo q) h = Some (tag_object info) \<and>
       tag_target info = type_from_name ty \<and> tag_label info = name)"
  using tag_check_silent [OF assms] .

text \<open>A tag the check passes.\<close>

definition v1_tag :: bytes where
  "v1_tag = str ''object '' @ replicate 40 48 @ [10] @ str ''type '' @ str ''commit'' @ [10] @
     str ''tag '' @ str ''v1'' @ [10] @ str ''tagger '' @ (str ''A <a@b> 1 +0000'' @ [10])"

definition v1_info :: tag_info where
  "v1_info = \<lparr>tag_object = null_oid (sha1_algo (\<lambda>m. replicate 20 0)), tag_target = TypeCommit, tag_label = str ''v1''\<rparr>"

lemma v1_loud:
  "loud ((new_options (sha1_algo (\<lambda>m. replicate 20 0)))\<lparr>msg_type := Some (\<lambda>i. SevError)\<rparr>) zero_oid"
  "wf_algo (opt_algo ((new_options (sha1_algo (\<lambda>m. replicate 20 0)))\<lparr>msg_type := Some (\<lambda>i. SevError)\<rparr>))"
  using wf_sha1 by (simp_all add: loud_def severity_of_def new_options_def skipped_def)

lemma v1_tag_shape:
  fixes q defines "q \<equiv> (new_options (sha1_algo (\<lambda>m. replicate 20 0)))\<lparr>msg_type := Some (\<lambda>i. SevError)\<rparr>"
  shows "(0::int) = 0 \<and> header_clean v1_tag \<and>
    (\<exists>h ty name l rest. v1_tag = str ''object '' @ h @ [10] @ str ''type '' @ ty @ [10] @
         str ''tag '' @ name @ [10] @ str ''tagger '' @ l @ rest \<and>
       hex_line (hexsz q) h \<and> 10 \<notin> set ty \<and> type_from_name ty \<noteq> TypeBad \<and>
       10 \<notin> set name \<and> check_refname_format (str ''refs/tags/'' @ name) no_flags \<and>
       ident_line l \<and> (rest = [] \<or> hd rest = 10) \<and>
       parse_hex_bytes (opt_algo q) h = Some (tag_object v1_info) \<and>
       tag_target v1_info = type_from_name ty \<and> tag_label v1_info = name)"
proof -
  have sz: "hexsz q = 40" "opt_algo q = sha1_algo (\<lambda>m. replicate 20 0)"
    by (simp_all add: q_def hexsz_def new_options_def sha1_algo_def)
  have clean: "header_clean v1_tag" by (simp add: v1_tag_def header_clean_def scan_headers_zeros)
  have hex: "hex_line 40 (replicate 40 48)" by (simp add: hex_line_def is_hex_def list_all_length)
  have ty: "type_from_name (str ''commit'') = TypeCommit" by (simp add: type_from_name_def)
  have name: "check_refname_format (str ''refs/tags/'' @ str ''v1'') no_flags" using tag_name_v1 by simp
  show ?thesis
    unfolding sz
    by (intro conjI refl clean, rule exI [of _ "replicate 40 48"], rule exI [of _ "str ''commit''"],
        rule exI [of _ "str ''v1''"], rule exI [of _ "str ''A <a@b> 1 +0000'' @ [10]"], rule exI [of _ "[]"])
      (use hex ty name ident_line_example parse_zeros in \<open>simp add: v1_tag_def v1_info_def\<close>)
qed

theorem tag_check_exact_witness:
  "let q = (new_options (sha1_algo (\<lambda>m. replicate 20 0))) \<lparr>msg_type := Some (\<lambda>i. SevError)\<rparr>;
       buf = str ''object '' @ replicate 40 48 @ [10] @ str ''type commit'' @ [10] @
         str ''tag v1'' @ [10] @ str ''tagger A <a@b> 1 +0000'' @ [10]
   in tag_with_info q zero_oid buf = (q, 0,
        \<lparr>tag_object = null_oid (opt_algo q), tag_target = TypeCommit, tag_label = str ''v1''\<rparr>)"
proof -
  let ?q = "(new_options (sha1_algo (\<lambda>m. replicate 20 0))) \<lparr>msg_type := Some (\<lambda>i. SevError)\<rparr>"
  have "tag_with_info ?q zero_oid v1_tag = (?q, 0, v1_info)"
    unfolding tag_check_exact [OF v1_loud] by (rule v1_tag_shape)
  then show ?thesis by (simp add: Let_def new_options_def v1_tag_def v1_info_def)
qed

section \<open>A finding without a status\<close>

text \<open>
  The status of the tag check is not the sum of its findings. With the default options, a
  tag whose tagger line is broken and is followed by a further header line has an error logged
  for the tagger, and the check still returns 0: the status of the last report replaces it.
\<close>

theorem tag_status_lost:
  "let q = new_options (sha1_algo (\<lambda>m. replicate 20 0));
       buf = str ''object '' @ replicate 40 48 @ [10] @ str ''type commit'' @ [10] @
         str ''tag v1'' @ [10] @ str ''tagger A <a@b> x'' @ [10] @ str ''more'' @ [10]
   in case check_tag q zero_oid buf of
        (q', r) \<Rightarrow> r = 0 \<and> map f_id (logged q') = [MsgBadDate] \<and> map f_sev (logged q') = [SevError]"
proof -
  let ?q = "new_options (sha1_algo (\<lambda>m. replicate 20 0))"
  have sz: "hexsz ?q = 40" by (simp add: hexsz_def new_options_def sha1_algo_def)
  have hex: "hex_line (hexsz ?q) (replicate 40 48)" by (simp add: sz hex_line_def is_hex_def list_all_length)
  have check: "check_hex_line ?q zero_oid t i s (replicate 40 48 @ 10 # r) = (?q, Inr ())" for t i s r
    by (rule check_hex_line_quiet(2)) (rule valid_hex_line_append(1) [OF hex])
  have fault: "ident_fault (str ''A <a@b> x'' @ [10] @ str ''more'' @ [10]) =
      Some (MsgBadDate, ident_line_text ''bad date'')"
    by (simp add: ident_fault_def ident_email_def ident_date_def angle_or_nl_def is_digit_def Let_def)
  have tagger: "case tag_tagger ?q zero_oid (str ''tagger A <a@b> x'' @ [10] @ str ''more'' @ [10]) of
      (q', r) \<Rightarrow> r = 0 \<and> map f_id (logged q') = [MsgBadDate] \<and> map f_sev (logged q') = [SevError]"
    using fault
    by (simp add: tag_tagger_def cut_prefix_def has_prefix_def ident_def ident_rest_def report_def
        severity_of_def msg_table_def mk_info_def new_options_def default_error_func_def
        valid_oid_def zero_oid_def)
  let ?tg = "str ''tagger A <a@b> x'' @ [10] @ str ''more'' @ [10]"
  let ?buf = "str ''object '' @ replicate 40 48 @ 10 # str ''type '' @ str ''commit'' @ 10 #
      str ''tag '' @ str ''v1'' @ 10 # ?tg"
  have head: "verify_headers ?q ?buf zero_oid TypeTag = (?q, 0)"
    by (simp add: verify_headers_def scan_headers_zeros)
  have "check_tag ?q zero_oid ?buf = tag_tagger ?q zero_oid ?tg"
  proof -
    have ty: "10 \<notin> set (str ''commit'')" "type_from_name (str ''commit'') \<noteq> TypeBad"
      by (simp_all add: type_from_name_def)
    have name: "10 \<notin> set (str ''v1'')" "tag_name_ok (str ''v1'')"
      using tag_name_v1 by (simp_all add: tag_name_ok_def)
    show ?thesis
      unfolding check_tag_def tag_with_info_def head case_prod_conv Let_def tag_object_line_def
        cut_prefix_append option.case valid_hex_line_append [OF hex] check sum.case
        tag_type_line_eqs(3) [OF ty] tag_name_line_eqs(3) [OF name]
      by (simp add: check_tag_def tag_with_info_def empty_info_def)
  qed
  with tagger show ?thesis by (simp add: Let_def)
qed

end
