(* ===== verification/GitConfig.thy ===== *)
theory GitConfig
  imports Fsck_Options
begin

text \<open>
  The configuration parser of \<open>internal/gitconfig/parse.go\<close>. A \<open>cursor\<close> is what is left of the
  data and the line number; the parser's \<open>section\<close> and \<open>out\<close> are arguments of \<open>run_loop\<close>. Every
  error carries its line and its text.
\<close>

type_synonym cursor = "bytes \<times> int"
type_synonym config_error = "int \<times> bytes"

record entry =
  e_key :: bytes
  e_value :: "bytes option"
  e_line :: int

section \<open>Characters\<close>

definition is_alpha :: "byte \<Rightarrow> bool" where
  "is_alpha c \<longleftrightarrow> ascii CHR ''a'' \<le> c \<and> c \<le> ascii CHR ''z'' \<or> ascii CHR ''A'' \<le> c \<and> c \<le> ascii CHR ''Z''"

definition is_key_char :: "byte \<Rightarrow> bool" where
  "is_key_char c \<longleftrightarrow> ascii CHR ''a'' \<le> c \<and> c \<le> ascii CHR ''z'' \<or> ascii CHR ''A'' \<le> c \<and> c \<le> ascii CHR ''Z'' \<or>
     ascii CHR ''0'' \<le> c \<and> c \<le> ascii CHR ''9'' \<or> c = ascii CHR ''-''"

definition is_blank :: "byte \<Rightarrow> bool" where
  "is_blank c \<longleftrightarrow> c = 32 \<or> c = 9"

fun next_char :: "cursor \<Rightarrow> (byte \<times> cursor) option" where
  "next_char ([], l) = None"
| "next_char (c # r, l) =
     (let (c', r') = (if c = 13 \<and> r \<noteq> [] \<and> hd r = 10 then (10, tl r) else (c, r))
      in Some (c', r', if c' = 10 then l + 1 else l))"

lemma next_char_shrinks: "next_char cur = Some (c, cur') \<Longrightarrow> length (fst cur') < length (fst cur)"
  by (cases cur rule: next_char.cases) (auto split: if_splits)

lemma next_char_shrinks2:
  "next_char cur = Some (c, cur') \<Longrightarrow> next_char cur' = Some (d, cur'') \<Longrightarrow>
    length (fst cur'') < length (fst cur)"
  using next_char_shrinks [of cur c cur'] next_char_shrinks [of cur' d cur''] by simp

section \<open>Section headers\<close>

definition bad_header :: "cursor \<Rightarrow> string \<Rightarrow> config_error" where
  "bad_header cur s = (snd cur, str s)"

text \<open>The three loops of \<open>subsection\<close>: up to the quote, inside it, and up to the bracket.\<close>

function sub_start :: "cursor \<Rightarrow> config_error + cursor" where
  "sub_start cur =
     (case next_char cur of
        None \<Rightarrow> Inl (bad_header cur ''unterminated section header'')
      | Some (c, cur') \<Rightarrow>
          if c = 34 then Inr cur'
          else if is_blank c then sub_start cur'
          else Inl (bad_header cur' ''bad section header''))"
  by pat_completeness auto
termination
  by (relation "measure (length \<circ> fst)") (auto dest: next_char_shrinks next_char_shrinks2)

function sub_body :: "cursor \<Rightarrow> bytes \<Rightarrow> config_error + (bytes \<times> cursor)" where
  "sub_body cur sub =
     (case next_char cur of
        None \<Rightarrow> Inl (bad_header cur ''unterminated subsection name'')
      | Some (c, cur') \<Rightarrow>
          if c = 10 then Inl (bad_header cur' ''unterminated subsection name'')
          else if c = 34 then Inr (sub, cur')
          else if c = 92 then
            (case next_char cur' of
               None \<Rightarrow> Inl (bad_header cur' ''unterminated subsection name'')
             | Some (d, cur'') \<Rightarrow>
                 if d = 10 then Inl (bad_header cur'' ''unterminated subsection name'')
                 else sub_body cur'' (sub @ [d]))
          else sub_body cur' (sub @ [c]))"
  by pat_completeness auto
termination
  by (relation "measure (length \<circ> fst \<circ> fst)") (auto dest: next_char_shrinks next_char_shrinks2)

function sub_end :: "cursor \<Rightarrow> bytes \<Rightarrow> config_error + (bytes \<times> cursor)" where
  "sub_end cur sub =
     (case next_char cur of
        None \<Rightarrow> Inl (bad_header cur ''unterminated section header'')
      | Some (c, cur') \<Rightarrow>
          if c = 93 then Inr (sub, cur')
          else if is_blank c then sub_end cur' sub
          else Inl (bad_header cur' ''bad section header''))"
  by pat_completeness auto
termination
  by (relation "measure (length \<circ> fst \<circ> fst)") (auto dest: next_char_shrinks next_char_shrinks2)

declare sub_start.simps [simp del] sub_body.simps [simp del] sub_end.simps [simp del]

definition subsection_of :: "cursor \<Rightarrow> config_error + (bytes \<times> cursor)" where
  "subsection_of cur =
     (case sub_start cur of
        Inl e \<Rightarrow> Inl e
      | Inr cur1 \<Rightarrow>
          (case sub_body cur1 [] of
             Inl e \<Rightarrow> Inl e
           | Inr (sub, cur2) \<Rightarrow> sub_end cur2 sub))"

function section_loop :: "cursor \<Rightarrow> bytes \<Rightarrow> config_error + (bytes \<times> cursor)" where
  "section_loop cur name =
     (case next_char cur of
        None \<Rightarrow> Inl (bad_header cur ''unterminated section header'')
      | Some (c, cur') \<Rightarrow>
          if c = 93 then
            (if name = [] then Inl (bad_header cur' ''empty section name'') else Inr (name, cur'))
          else if is_blank c then
            (case subsection_of cur' of
               Inl e \<Rightarrow> Inl e
             | Inr (sub, cur'') \<Rightarrow>
                 if name = [] then Inl (bad_header cur'' ''empty section name'')
                 else Inr (name @ [46] @ sub, cur''))
          else if is_key_char c \<or> c = 46 then section_loop cur' (name @ [to_lower c])
          else Inl (bad_header cur' ''bad section header''))"
  by pat_completeness auto
termination
  by (relation "measure (length \<circ> fst \<circ> fst)") (auto dest: next_char_shrinks next_char_shrinks2)

declare section_loop.simps [simp del]

section \<open>Settings\<close>

definition escape_char :: "byte \<Rightarrow> byte option" where
  "escape_char e =
     (if e = ascii CHR ''t'' then Some 9
      else if e = ascii CHR ''b'' then Some 8
      else if e = ascii CHR ''n'' then Some 10
      else if e = 34 \<or> e = 92 then Some e
      else None)"

text \<open>The \<open>%c\<close> verb prints a byte as the code point of its value.\<close>

definition rune_bytes :: "byte \<Rightarrow> bytes" where
  "rune_bytes c = (if c < 0x80 then [c] else [0xC0 OR drop_bit 6 c, 0x80 OR (c AND 0x3F)])"

function value_loop :: "cursor \<Rightarrow> bytes \<Rightarrow> bool \<Rightarrow> nat \<Rightarrow> config_error + (bytes \<times> cursor)" where
  "value_loop cur b q spaces =
     (case next_char cur of
        None \<Rightarrow> if q then Inl (bad_header cur ''unterminated quoted value'') else Inr (b, cur)
      | Some (c, cur') \<Rightarrow>
          if c = 10 then
            (if q then Inl (bad_header cur' ''unterminated quoted value'')
             else Inr (b, 10 # fst cur', snd cur' - 1))
          else if \<not> q \<and> (c = 35 \<or> c = 59) then
            Inr (b, dropWhile (\<lambda>c. c \<noteq> 10) (fst cur'), snd cur')
          else if is_blank c then
            value_loop cur' (if q then b @ [c] else b) q (if \<not> q \<and> b \<noteq> [] then Suc spaces else spaces)
          else if c = 34 then value_loop cur' b (\<not> q) spaces
          else if c = 92 then
            (case next_char cur' of
               None \<Rightarrow> Inl (bad_header cur' ''unfinished escape'')
             | Some (e, cur'') \<Rightarrow>
                 if e = 10 then value_loop cur'' b q spaces
                 else (case escape_char e of
                     None \<Rightarrow> Inl (snd cur'', str ''bad escape '' @ 92 # rune_bytes e)
                   | Some d \<Rightarrow> value_loop cur'' (b @ replicate spaces 32 @ [d]) q 0))
          else value_loop cur' (b @ replicate spaces 32 @ [c]) q 0)"
  by pat_completeness auto
termination
  by (relation "measure (length \<circ> fst \<circ> fst)") (auto dest: next_char_shrinks next_char_shrinks2)

declare value_loop.simps [simp del]

definition key_value :: "byte \<Rightarrow> cursor \<Rightarrow> config_error + (bytes \<times> bytes option \<times> cursor)" where
  "key_value first cur =
     (let name = to_lower first # map to_lower (takeWhile is_key_char (fst cur));
          r = dropWhile is_blank (dropWhile is_key_char (fst cur));
          l = snd cur
      in if r = [] \<or> hd r = 10 \<or> hd r = 35 \<or> hd r = 59 then Inr (name, None, r, l)
         else if hd r \<noteq> 61 then Inl (l, str ''expected '' @ [39, 61, 39] @ str '' after key'')
         else (case value_loop (tl r, l) [] False 0 of
             Inl e \<Rightarrow> Inl e
           | Inr (v, cur') \<Rightarrow> Inr (name, Some v, cur')))"

section \<open>No step of the parser goes back\<close>

lemma sub_start_le: "sub_start cur = Inr cur' \<Longrightarrow> length (fst cur') \<le> length (fst cur)"
proof (induction "length (fst cur)" arbitrary: cur rule: less_induct)
  case less
  have IH: "sub_start c = Inr cur' \<Longrightarrow> length (fst c) < length (fst cur) \<Longrightarrow>
      length (fst cur') \<le> length (fst cur)" for c
    using less.hyps [of c] by fastforce
  show ?case
    using less.prems
    by (subst (asm) sub_start.simps)
      (auto dest: next_char_shrinks next_char_shrinks2 
        intro: IH less_imp_le split: option.splits prod.splits if_splits sum.splits)
qed

lemma sub_body_le: "sub_body cur sub = Inr (s, cur') \<Longrightarrow> length (fst cur') \<le> length (fst cur)"
proof (induction "length (fst cur)" arbitrary: cur sub rule: less_induct)
  case less
  have IH: "sub_body c sub' = Inr (s, cur') \<Longrightarrow> length (fst c) < length (fst cur) \<Longrightarrow>
      length (fst cur') \<le> length (fst cur)" for c sub'
    using less.hyps [of c] by fastforce
  show ?case
    using less.prems
    by (subst (asm) sub_body.simps)
      (auto dest: next_char_shrinks next_char_shrinks2 
        intro: IH less_imp_le split: option.splits prod.splits if_splits sum.splits)
qed

lemma sub_end_le: "sub_end cur sub = Inr (s, cur') \<Longrightarrow> length (fst cur') \<le> length (fst cur)"
proof (induction "length (fst cur)" arbitrary: cur sub rule: less_induct)
  case less
  have IH: "sub_end c sub' = Inr (s, cur') \<Longrightarrow> length (fst c) < length (fst cur) \<Longrightarrow>
      length (fst cur') \<le> length (fst cur)" for c sub'
    using less.hyps [of c] by fastforce
  show ?case
    using less.prems
    by (subst (asm) sub_end.simps)
      (auto dest: next_char_shrinks next_char_shrinks2 
        intro: IH less_imp_le split: option.splits prod.splits if_splits sum.splits)
qed

lemma subsection_of_le: "subsection_of cur = Inr (s, cur') \<Longrightarrow> length (fst cur') \<le> length (fst cur)"
  by (fastforce simp: subsection_of_def dest: sub_start_le sub_body_le sub_end_le
      split: sum.splits prod.splits)

lemma subsection_of_after:
  "next_char cur = Some (c, cur1) \<Longrightarrow> subsection_of cur1 = Inr (s, cur2) \<Longrightarrow>
    length (fst cur2) \<le> length (fst cur)"
  using next_char_shrinks [of cur c cur1] subsection_of_le [of cur1 s cur2] by simp

lemma section_loop_le: "section_loop cur name = Inr (s, cur') \<Longrightarrow> length (fst cur') \<le> length (fst cur)"
proof (induction "length (fst cur)" arbitrary: cur name rule: less_induct)
  case less
  have IH: "section_loop c name' = Inr (s, cur') \<Longrightarrow> length (fst c) < length (fst cur) \<Longrightarrow>
      length (fst cur') \<le> length (fst cur)" for c name'
    using less.hyps [of c] by fastforce
  show ?case
    using less.prems
    by (subst (asm) section_loop.simps)
      (auto dest: next_char_shrinks next_char_shrinks2 subsection_of_after
        intro: IH less_imp_le split: option.splits prod.splits if_splits sum.splits)
qed

lemma next_char_drop:
  "next_char cur = Some (c, r, l) \<Longrightarrow> length (dropWhile P r) \<le> length (fst cur)"
  using next_char_shrinks [of cur c "(r, l)"] length_dropWhile_le [of P r] by simp

lemma value_eol: "length xs < length ys \<Longrightarrow> Suc (length xs) \<le> length ys"
  by simp

lemma value_loop_le: "value_loop cur b q sp = Inr (s, cur') \<Longrightarrow> length (fst cur') \<le> length (fst cur)"
proof (induction "length (fst cur)" arbitrary: cur b q sp rule: less_induct)
  case less
  have IH: "value_loop c b' q' sp' = Inr (s, cur') \<Longrightarrow> length (fst c) < length (fst cur) \<Longrightarrow>
      length (fst cur') \<le> length (fst cur)" for c b' q' sp'
    using less.hyps [of c] by fastforce
  show ?case
    using less.prems
    by (subst (asm) value_loop.simps)
      (auto dest: next_char_shrinks next_char_shrinks2 
        intro: IH less_imp_le value_eol next_char_drop split: option.splits prod.splits if_splits sum.splits)
qed


lemma value_le: "value_loop (tl r, l) [] False 0 = Inr (v, cur') \<Longrightarrow> length (fst cur') \<le> length r"
  using value_loop_le [of "(tl r, l)" "[]" False 0 v cur'] by simp

lemma key_value_le:
  assumes "key_value c cur = Inr (n, v, cur')" shows "length (fst cur') \<le> length (fst cur)"
proof -
  let ?r = "dropWhile is_blank (dropWhile is_key_char (fst cur))"
  have "length ?r \<le> length (fst cur)" by (meson le_trans length_dropWhile_le)
  with assms value_le [of ?r "snd cur"] show ?thesis
    by (fastforce simp: key_value_def Let_def split: if_splits sum.splits)
qed

section \<open>The whole parser\<close>

function run_loop :: "bool \<Rightarrow> bytes \<Rightarrow> entry list \<Rightarrow> cursor \<Rightarrow> entry list \<times> config_error option" where
  "run_loop comment sec out cur =
     (case next_char cur of
        None \<Rightarrow> (out, None)
      | Some (c, cur') \<Rightarrow>
          if c = 10 then run_loop False sec out cur'
          else if comment \<or> c = 35 \<or> c = 59 then run_loop True sec out cur'
          else if is_blank c then run_loop comment sec out cur'
          else if c = 91 then
            (case section_loop cur' [] of
               Inl e \<Rightarrow> (out, Some e)
             | Inr (name, cur'') \<Rightarrow> run_loop comment name out cur'')
          else if \<not> is_alpha c then
            (out, Some (bad_header cur' ''key does not start with a letter''))
          else if sec = [] then (out, Some (bad_header cur' ''key outside a section''))
          else (case key_value c cur' of
              Inl e \<Rightarrow> (out, Some e)
            | Inr (name, v, cur'') \<Rightarrow>
                run_loop comment sec
                  (out @ [\<lparr>e_key = sec @ [46] @ name, e_value = v, e_line = snd cur''\<rparr>]) cur''))"
  by pat_completeness auto
termination
proof (relation "measure (\<lambda>(comment, sec, out, cur). length (fst cur))", goal_cases)
  case (5 comment sec out cur x c cur' y name cur'')
  then show ?case using next_char_shrinks [of cur c cur'] section_loop_le [of cur' "[]" name cur''] by simp
next
  case (6 comment sec out cur x c cur' y name z v cur'')
  then show ?case using next_char_shrinks [of cur c cur'] key_value_le [of c cur' name v cur''] by simp
qed (auto dest: next_char_shrinks)

declare run_loop.simps [simp del]

definition parse_config :: "bytes \<Rightarrow> entry list \<times> config_error option" where
  "parse_config data = run_loop False [] [] (data, 1)"

text \<open>\<open>SplitKey\<close>: section, subsection, name, and whether there was a subsection.\<close>

definition last_index_byte :: "bytes \<Rightarrow> byte \<Rightarrow> nat option" where
  "last_index_byte s c = map_option (\<lambda>k. length s - 1 - k) (index_byte (rev s) c)"

definition split_key :: "bytes \<Rightarrow> bytes \<times> bytes \<times> bytes \<times> bool" where
  "split_key key =
     (case (index_byte key 46, last_index_byte key 46) of
        (Some f, Some l) \<Rightarrow>
          if l = f then (take f key, [], drop (f + 1) key, False)
          else (take f key, take (l - (f + 1)) (drop (f + 1) key), drop (l + 1) key, True)
      | _ \<Rightarrow> (key, [], [], False))"

section \<open>What is written is read back\<close>

text \<open>A submodule section with one quoted setting, as \<open>git config\<close> writes it.\<close>

definition esc_sub :: "bytes \<Rightarrow> bytes" where
  "esc_sub sub = concat (map (\<lambda>c. if c = 34 \<or> c = 92 then [92, c] else [c]) sub)"

definition esc_value :: "bytes \<Rightarrow> bytes" where
  "esc_value v = concat (map (\<lambda>c. if c = 10 then [92, 110] else if c = 34 \<or> c = 92 then [92, c] else [c]) v)"

definition render_setting :: "bytes \<times> bytes \<times> bytes \<Rightarrow> bytes" where
  "render_setting = (\<lambda>(sub, key, v). 91 # str ''submodule'' @ 32 # 34 # esc_sub sub @ 34 # 93 # 10 #
     9 # key @ 32 # 61 # 32 # 34 # esc_value v @ [34, 10])"

definition valid_key :: "bytes \<Rightarrow> bool" where
  "valid_key k \<longleftrightarrow> k \<noteq> [] \<and> is_alpha (hd k) \<and> list_all is_key_char k \<and> map to_lower k = k"

lemma next_char_plain:
  "c \<noteq> 10 \<Longrightarrow> (c = 13 \<Longrightarrow> r = [] \<or> hd r \<noteq> 10) \<Longrightarrow> next_char (c # r, l) = Some (c, r, l)"
  by auto

lemma hd_esc_sub: "10 \<notin> set sub \<Longrightarrow> hd (esc_sub sub @ 34 # r) \<noteq> 10"
  by (cases sub) (auto simp: esc_sub_def)

lemma hd_esc_value: "hd (esc_value v @ 34 # r) \<noteq> 10"
  by (cases v) (auto simp: esc_value_def)

lemma esc_Cons:
  "esc_sub (c # s) = (if c = 34 \<or> c = 92 then [92, c] else [c]) @ esc_sub s"
  "esc_value (c # s) = (if c = 10 then [92, 110] else if c = 34 \<or> c = 92 then [92, c] else [c]) @ esc_value s"
  "esc_sub [] = []" "esc_value [] = []"
  by (simp_all add: esc_sub_def esc_value_def)

lemma sub_body_esc:
  "10 \<notin> set sub \<Longrightarrow> sub_body (esc_sub sub @ 34 # r, l) acc = Inr (acc @ sub, r, l)"
proof (induction sub arbitrary: acc)
  case Nil
  then show ?case by (simp add: esc_Cons sub_body.simps)
next
  case (Cons c sub)
  then have hd: "hd (esc_sub sub @ 34 # r) \<noteq> 10" by (intro hd_esc_sub) simp
  show ?case
  proof (cases "c = 34 \<or> c = 92")
    case True
    with Cons hd show ?thesis
      by (subst sub_body.simps) (auto simp: esc_Cons)
  next
    case False
    with Cons.prems hd have "next_char (c # esc_sub sub @ 34 # r, l) = Some (c, esc_sub sub @ 34 # r, l)"
      by (intro next_char_plain) auto
    with Cons False show ?thesis
      by (subst sub_body.simps) (simp add: esc_Cons)
  qed
qed

lemma section_loop_name:
  "list_all is_key_char nm \<Longrightarrow> r \<noteq> [] \<Longrightarrow> hd r \<noteq> 10 \<Longrightarrow>
    section_loop (nm @ r, l) acc = section_loop (r, l) (acc @ map to_lower nm)"
proof (induction nm arbitrary: acc)
  case (Cons c nm)
  have c: "c \<noteq> 93" "\<not> is_blank c" "c \<noteq> 10" "c \<noteq> 13"
    using Cons.prems(1) by (auto simp: is_key_char_def is_blank_def)
  with Cons show ?case
    by (subst section_loop.simps) (simp add: next_char_plain)
qed simp

lemma section_header:
  assumes "10 \<notin> set sub"
  shows "section_loop (str ''submodule'' @ 32 # 34 # esc_sub sub @ 34 # 93 # r, l) [] =
    Inr (str ''submodule.'' @ sub, r, l)"
proof -
  have name: "list_all is_key_char (str ''submodule'')" by (simp add: is_key_char_def)
  have low: "map to_lower (str ''submodule'') = str ''submodule''" by (simp add: to_lower_def)
  have "subsection_of (34 # esc_sub sub @ 34 # 93 # r, l) = Inr (sub, r, l)"
    using sub_body_esc [OF assms, of "93 # r" l "[]"]
    by (simp add: subsection_of_def sub_start.simps sub_end.simps)
  then have "section_loop (32 # 34 # esc_sub sub @ 34 # 93 # r, l) (str ''submodule'') =
      Inr (str ''submodule.'' @ sub, r, l)"
    by (subst section_loop.simps) (simp add: is_blank_def)
  then show ?thesis
    using section_loop_name [OF name, of "32 # 34 # esc_sub sub @ 34 # 93 # r" l "[]"] low by simp
qed

lemma value_loop_esc:
  "value_loop (esc_value v @ 34 # 10 # r, l) acc True 0 = Inr (acc @ v, 10 # r, l)"
proof (induction v arbitrary: acc)
  case Nil
  have "value_loop (10 # r, l) acc False 0 = Inr (acc, 10 # r, l)"
    by (simp add: value_loop.simps)
  then show ?case
    by (subst value_loop.simps) (simp add: esc_Cons is_blank_def)
next
  case (Cons c v)
  have hd: "hd (esc_value v @ 34 # 10 # r) \<noteq> 10" by (rule hd_esc_value)
  consider "c = 10" | "c = 34 \<or> c = 92" | "c \<noteq> 10" "c \<noteq> 34" "c \<noteq> 92" by blast
  then show ?case
  proof cases
    case 1
    with Cons show ?thesis
      by (subst value_loop.simps) (simp add: esc_Cons is_blank_def escape_char_def)
  next
    case 2
    then have "next_char (c # esc_value v @ 34 # 10 # r, l) = Some (c, esc_value v @ 34 # 10 # r, l)"
      by (intro next_char_plain) auto
    with 2 Cons show ?thesis
      by (subst value_loop.simps) (auto simp: esc_Cons is_blank_def escape_char_def)
  next
    case 3
    with hd have "next_char (c # esc_value v @ 34 # 10 # r, l) = Some (c, esc_value v @ 34 # 10 # r, l)"
      by (intro next_char_plain) auto
    with 3 Cons show ?thesis
      by (subst value_loop.simps) (simp add: esc_Cons)
  qed
qed

lemma key_value_render:
  assumes "valid_key (k # ks)"
  shows "key_value k (ks @ 32 # 61 # 32 # 34 # esc_value v @ 34 # 10 # r, l) =
    Inr (k # ks, Some v, 10 # r, l)"
proof -
  let ?t = "61 # 32 # 34 # esc_value v @ 34 # 10 # r"
  have ks: "\<forall>c \<in> set ks. is_key_char c" and low: "map to_lower (k # ks) = k # ks"
    using assms by (auto simp: valid_key_def list_all_iff)
  have tw: "takeWhile is_key_char (ks @ 32 # ?t) = ks" "dropWhile is_key_char (ks @ 32 # ?t) = 32 # ?t"
    using ks by (simp_all add: takeWhile_append dropWhile_append is_key_char_def)
  have "value_loop (32 # 34 # esc_value v @ 34 # 10 # r, l) [] False 0 = Inr (v, 10 # r, l)"
    using value_loop_esc [of v r l "[]"]
    by (subst value_loop.simps, simp add: is_blank_def, subst value_loop.simps) (simp add: is_blank_def)
  with tw low show ?thesis by (simp add: key_value_def is_blank_def)
qed

lemma run_newline: "run_loop cm sec out (10 # r, l) = run_loop False sec out (r, l + 1)"
  by (subst run_loop.simps) simp

lemma run_setting:
  assumes "10 \<notin> set sub" and "valid_key k"
  shows "run_loop False sec out (render_setting (sub, k, v) @ r, l) =
    run_loop False (str ''submodule.'' @ sub)
      (out @ [\<lparr>e_key = str ''submodule.'' @ sub @ [46] @ k, e_value = Some v, e_line = l + 1\<rparr>])
      (r, l + 2)"
proof -
  obtain c cs where k: "k = c # cs" using assms(2) by (cases k) (auto simp: valid_key_def)
  then have c: "is_alpha c" "c \<noteq> 10" "c \<noteq> 13" "c \<noteq> 35" "c \<noteq> 59" "c \<noteq> 91" "\<not> is_blank c"
    using assms(2) by (auto simp: valid_key_def is_alpha_def is_blank_def)
  let ?set = "cs @ 32 # 61 # 32 # 34 # esc_value v @ 34 # 10 # r"
  have nc: "next_char (c # ?set, l') = Some (c, ?set, l')" for l'
    using c by (intro next_char_plain) auto
  have "run_loop False sec out (render_setting (sub, k, v) @ r, l) =
      run_loop False (str ''submodule.'' @ sub) out (10 # 9 # c # ?set, l)"
    using section_header [OF assms(1), of "10 # 9 # c # ?set" l]
    by (subst run_loop.simps) (simp add: render_setting_def k is_blank_def)
  also have "\<dots> = run_loop False (str ''submodule.'' @ sub) out (9 # c # ?set, l + 1)"
    by (subst run_loop.simps) simp
  also have "\<dots> = run_loop False (str ''submodule.'' @ sub) out (c # ?set, l + 1)"
    by (subst run_loop.simps) (simp add: is_blank_def)
  also have "\<dots> = run_loop False (str ''submodule.'' @ sub)
      (out @ [\<lparr>e_key = str ''submodule.'' @ sub @ [46] @ k, e_value = Some v, e_line = l + 1\<rparr>])
      (10 # r, l + 1)"
    using key_value_render [of c cs v r "l + 1"] assms(2) c nc
    by (subst run_loop.simps) (simp add: k)
  also have "\<dots> = run_loop False (str ''submodule.'' @ sub)
      (out @ [\<lparr>e_key = str ''submodule.'' @ sub @ [46] @ k, e_value = Some v, e_line = l + 1\<rparr>])
      (r, l + 2)"
    by (simp only: run_newline add.assoc one_add_one)
  finally show ?thesis .
qed

definition writable :: "bytes \<times> bytes \<times> bytes \<Rightarrow> bool" where
  "writable = (\<lambda>(sub, key, v). 10 \<notin> set sub \<and> valid_key key)"

definition setting_entry :: "bytes \<times> bytes \<times> bytes \<Rightarrow> bytes \<times> bytes option" where
  "setting_entry = (\<lambda>(sub, key, v). (str ''submodule.'' @ sub @ [46] @ key, Some v))"

lemma run_settings:
  "list_all writable ss \<Longrightarrow> \<exists>out'. run_loop False sec out (concat (map render_setting ss), l) = (out @ out', None) \<and>
     map (\<lambda>e. (e_key e, e_value e)) out' = map setting_entry ss"
proof (induction ss arbitrary: sec out l)
  case Nil
  then show ?case by (simp add: run_loop.simps)
next
  case (Cons t ss)
  obtain sub k v where t: "t = (sub, k, v)" by (cases t)
  with Cons.prems have ok: "10 \<notin> set sub" "valid_key k" "list_all writable ss"
    by (auto simp: writable_def)
  let ?e = "\<lparr>e_key = str ''submodule.'' @ sub @ [46] @ k, e_value = Some v, e_line = l + 1\<rparr>"
  from Cons.IH [OF ok(3), of "str ''submodule.'' @ sub" "out @ [?e]" "l + 2"] obtain out' where
    "run_loop False (str ''submodule.'' @ sub) (out @ [?e]) (concat (map render_setting ss), l + 2) =
      ((out @ [?e]) @ out', None)" "map (\<lambda>e. (e_key e, e_value e)) out' = map setting_entry ss"
    by blast
  then show ?case
    using run_setting [OF ok(1,2), of sec out v "concat (map render_setting ss)" l]
    by (intro exI [of _ "?e # out'"]) (simp add: t setting_entry_def)
qed

text \<open>\<open>SplitKey\<close> takes a key apart at the first and the last period.\<close>

lemma index_byte_first: "c \<notin> set a \<Longrightarrow> index_byte (a @ c # b) c = Some (length a)"
  by simp

lemma last_index_byte_last:
  "c \<notin> set b \<Longrightarrow> last_index_byte (a @ c # b) c = Some (length a)"
  by (simp add: last_index_byte_def)

lemma split_key_setting:
  assumes "list_all is_key_char key"
  shows "split_key (str ''submodule.'' @ sub @ [46] @ key) = (str ''submodule'', sub, key, True)"
proof -
  have key: "46 \<notin> set key" using assms by (auto simp: list_all_iff is_key_char_def)
  let ?k = "str ''submodule.'' @ sub @ [46] @ key"
  have "index_byte ?k 46 = Some 9"
    using index_byte_first [of 46 "str ''submodule''" "sub @ [46] @ key"] by simp
  moreover have "last_index_byte ?k 46 = Some (10 + length sub)"
    using last_index_byte_last [OF key, of "str ''submodule.'' @ sub"] by simp
  moreover have "drop (10 + length sub + 1) ?k = key" "take (10 + length sub - 10) (drop 10 ?k) = sub"
    "take 9 ?k = str ''submodule''"
    using drop_drop [of "length sub + 1" 10 ?k] by simp_all
  ultimately show ?thesis by (simp add: split_key_def del: str_def)
qed

lemma parse_rendered:
  assumes "list_all writable ss"
  obtains out where "parse_config (concat (map render_setting ss)) = (out, None)"
    and "map (\<lambda>e. (split_key (e_key e), e_value e)) out =
      map (\<lambda>(sub, key, v). ((str ''submodule'', sub, key, True), Some v)) ss"
proof -
  from run_settings [OF assms, of "[]" "[]" 1] obtain out where
    p: "parse_config (concat (map render_setting ss)) = (out, None)"
    and out: "map (\<lambda>e. (e_key e, e_value e)) out = map setting_entry ss"
    by (auto simp: parse_config_def)
  have "map (\<lambda>e. (split_key (e_key e), e_value e)) out =
      map (\<lambda>(k, v). (split_key k, v)) (map (\<lambda>e. (e_key e, e_value e)) out)" by simp
  also have "\<dots> = map (\<lambda>(sub, key, v). ((str ''submodule'', sub, key, True), Some v)) ss"
    using assms split_key_setting unfolding out
    by (auto simp: list_all_iff writable_def setting_entry_def valid_key_def simp del: str_def)
  finally show thesis by (rule that [OF p])
qed

text \<open>
  C30: what is written is read back. A file of submodule sections, each with one quoted
  setting, parses without error to those settings in order, and each key splits into the
  section, the subsection and the name, for any value bytes and any subsection name without a
  newline, however much of them has to be escaped.
\<close>

theorem config_roundtrip:
  assumes "list_all writable ss"
  shows "case parse_config (concat (map render_setting ss)) of (out, err) \<Rightarrow>
    err = None \<and> map (\<lambda>e. (split_key (e_key e), e_value e)) out =
      map (\<lambda>(sub, key, v). ((str ''submodule'', sub, key, True), Some v)) ss"
proof -
  obtain out where "parse_config (concat (map render_setting ss)) = (out, None)"
    and "map (\<lambda>e. (split_key (e_key e), e_value e)) out =
      map (\<lambda>(sub, key, v). ((str ''submodule'', sub, key, True), Some v)) ss"
    by (rule parse_rendered [OF assms])
  then show ?thesis by simp
qed

theorem config_roundtrip_witness:
  "case parse_config (concat (map render_setting [([97, 34], str ''url'', [10, 92, 13, 32])])) of
     (out, err) \<Rightarrow> err = None \<and> map e_value out = [Some [10, 92, 13, 32]]"
proof -
  have ok: "list_all writable [([97, 34], str ''url'', [10, 92, 13, 32])]"
    by (simp add: writable_def valid_key_def is_alpha_def is_key_char_def to_lower_def)
  show ?thesis
    using config_roundtrip [OF ok]
    by (auto simp: map_eq_Cons_conv split: prod.splits)
qed

end
