(* ===== verification/BlobCheck.thy ===== *)
theory BlobCheck
  imports TreeObj GitConfig
begin

text \<open>
  Blobs: \<open>internal/fsck/blob.go\<close>. The checks of \<open>.gitmodules\<close> and \<open>.gitattributes\<close> content, the
  sets of blobs a tree has named, and the rules for submodule names and URLs. \<open>net/url\<close>'s
  \<open>QueryUnescape\<close> is Go's standard library and is modelled (\<open>query_unescape\<close>).
\<close>

section \<open>Submodule names\<close>

definition is_xplatform_sep :: "byte \<Rightarrow> bool" where
  "is_xplatform_sep c \<longleftrightarrow> c = 47 \<or> c = 92"

fun index_any :: "bytes \<Rightarrow> bytes \<Rightarrow> nat option" where
  "index_any [] cs = None"
| "index_any (x # xs) cs = (if x \<in> set cs then Some 0 else map_option Suc (index_any xs cs))"

lemma index_any_SomeD: "index_any s cs = Some k \<Longrightarrow> k < length s"
  by (induction s arbitrary: k) (auto split: if_splits)

text \<open>The loop of \<open>checkSubmoduleName\<close>, on \<open>name[i:]\<close>.\<close>

function name_loop :: "bytes \<Rightarrow> bool" where
  "name_loop s =
     (if has_prefix s [46, 46] \<and> (drop 2 s = [] \<or> is_xplatform_sep (hd (drop 2 s))) then False
      else (case index_any s [47, 92] of
          None \<Rightarrow> True
        | Some k \<Rightarrow> name_loop (drop (k + 1) s)))"
  by pat_completeness auto
termination
  by (relation "measure length") (auto dest: index_any_SomeD)

declare name_loop.simps [simp del]

text \<open>True when the name is allowed.\<close>

definition check_submodule_name :: "bytes \<Rightarrow> bool" where
  "check_submodule_name name = (if name = [] then False else name_loop name)"

section \<open>Submodule URLs\<close>

definition looks_like_option :: "bytes \<Rightarrow> bool" where
  "looks_like_option s = has_prefix s [45]"

definition starts_with_dot_slash :: "bytes \<Rightarrow> bool" where
  "starts_with_dot_slash s \<longleftrightarrow> 2 \<le> length s \<and> s ! 0 = 46 \<and> is_xplatform_sep (s ! 1)"

definition starts_with_dotdot_slash :: "bytes \<Rightarrow> bool" where
  "starts_with_dotdot_slash s \<longleftrightarrow>
     3 \<le> length s \<and> s ! 0 = 46 \<and> s ! 1 = 46 \<and> is_xplatform_sep (s ! 2)"

function count_leading_dotdots :: "nat \<Rightarrow> bytes \<Rightarrow> nat \<times> bytes" where
  "count_leading_dotdots n u =
     (if starts_with_dotdot_slash u then count_leading_dotdots (Suc n) (drop 3 u)
      else if starts_with_dot_slash u then count_leading_dotdots n (drop 2 u)
      else (n, u))"
  by pat_completeness auto
termination
  by (relation "measure (length \<circ> snd)") (auto simp: starts_with_dotdot_slash_def starts_with_dot_slash_def)

declare count_leading_dotdots.simps [simp del]

definition curl_helpers :: "bytes list" where
  "curl_helpers = [str ''http::'', str ''https::'', str ''ftp::'', str ''ftps::'']"

definition curl_schemes :: "bytes list" where
  "curl_schemes = [str ''http://'', str ''https://'', str ''ftp://'', str ''ftps://'']"

definition url_to_curl_url :: "bytes \<Rightarrow> bytes option" where
  "url_to_curl_url u =
     (case find (has_prefix u) curl_helpers of
        Some p \<Rightarrow> Some (drop (length p) u)
      | None \<Rightarrow> if list_ex (has_prefix u) curl_schemes then Some u else None)"

definition hex_val :: "byte \<Rightarrow> byte option" where
  "hex_val c =
     (if 48 \<le> c \<and> c \<le> 57 then Some (c - 48)
      else if 97 \<le> c \<and> c \<le> 102 then Some (c - 97 + 10)
      else if 65 \<le> c \<and> c \<le> 70 then Some (c - 65 + 10)
      else None)"

fun url_decode :: "bytes \<Rightarrow> bytes" where
  "url_decode (c # x # y # r) =
     (if c = 37 then (case (hex_val x, hex_val y) of
         (Some hi, Some lo) \<Rightarrow> (push_bit 4 hi OR lo) # url_decode r
       | _ \<Rightarrow> c # url_decode (x # y # r))
      else c # url_decode (x # y # r))"
| "url_decode s = s"

text \<open>\<open>url.QueryUnescape\<close>: an escape that is not two hex digits is an error, \<open>+\<close> is a blank.\<close>

fun query_unescape :: "bytes \<Rightarrow> bytes option" where
  "query_unescape [] = Some []"
| "query_unescape (c # r) =
     (if c = 37 then (case r of
         x # y # r' \<Rightarrow> (case (hex_val x, hex_val y) of
             (Some hi, Some lo) \<Rightarrow> map_option ((#) (push_bit 4 hi OR lo)) (query_unescape r')
           | _ \<Rightarrow> None)
       | _ \<Rightarrow> None)
      else map_option ((#) (if c = 43 then 32 else c)) (query_unescape r))"

text \<open>\<open>strings.Index(u, "://")\<close>.\<close>

fun index_scheme_end :: "bytes \<Rightarrow> nat option" where
  "index_scheme_end [] = None"
| "index_scheme_end (x # xs) =
     (if has_prefix (x # xs) [58, 47, 47] then Some 0 else map_option Suc (index_scheme_end xs))"

text \<open>The user, the password and the host of \<open>cp\<close> up to \<open>slash\<close>, not decoded.\<close>

definition credential_parts :: "bytes \<Rightarrow> nat \<Rightarrow> bytes \<times> bytes \<times> bytes" where
  "credential_parts cp slash =
     (case index_byte cp 64 of
        None \<Rightarrow> ([], [], take slash cp)
      | Some a \<Rightarrow>
          if slash \<le> a then ([], [], take slash cp)
          else (case index_byte cp 58 of
              None \<Rightarrow> (take a cp, [], drop (a + 1) (take slash cp))
            | Some c \<Rightarrow>
                if a \<le> c then (take a cp, [], drop (a + 1) (take slash cp))
                else (take c cp, drop (c + 1) (take a cp), drop (a + 1) (take slash cp))))"

definition credential_host :: "bytes \<Rightarrow> bytes option" where
  "credential_host u =
     (case index_scheme_end u of
        None \<Rightarrow> None
      | Some e \<Rightarrow>
          if e = 0 then None
          else
            let proto = take e u; cp = drop (e + 3) u;
                slash = (case index_any cp [47, 63, 35] of Some k \<Rightarrow> k | None \<Rightarrow> length cp);
                (user, pass, host) = credential_parts cp slash;
                path = url_decode (trim_right (\<lambda>c. c = 47) (trim_left (\<lambda>c. c = 47) (drop slash cp)))
            in if list_ex (\<lambda>p. 10 \<in> set p)
                 [url_decode user, url_decode pass, proto, url_decode host, path] then None
               else Some (url_decode host))"

definition is_relative_url :: "bytes \<Rightarrow> bool" where
  "is_relative_url u \<longleftrightarrow> starts_with_dot_slash u \<or> starts_with_dotdot_slash u \<or>
     has_prefix u (str ''git://'')"

text \<open>True when the URL is allowed.\<close>

definition check_submodule_url :: "bytes \<Rightarrow> bool" where
  "check_submodule_url u =
     (if looks_like_option u then False
      else if is_relative_url u then
        (if 10 \<in> set (case query_unescape u of Some d \<Rightarrow> d | None \<Rightarrow> u) then False
         else (case count_leading_dotdots 0 u of
             (n, rest) \<Rightarrow> \<not> (0 < n \<and> rest \<noteq> [] \<and> (hd rest = 58 \<or> hd rest = 47))))
      else (case url_to_curl_url u of
          Some c \<Rightarrow> (case credential_host c of None \<Rightarrow> False | Some h \<Rightarrow> h \<noteq> [])
        | None \<Rightarrow> True))"

section \<open>The two files\<close>

definition attr_max_line_length :: nat where "attr_max_line_length = 2048"
definition attr_max_file_size :: nat where "attr_max_file_size = 100 * 1024 * 1024"

text \<open>The loop over lines: whether one is too long.\<close>

function long_attr_line :: "bytes \<Rightarrow> bool" where
  "long_attr_line buf =
     (if buf = [] then False
      else (case index_byte buf 10 of
          None \<Rightarrow> attr_max_line_length \<le> length buf
        | Some eol \<Rightarrow> attr_max_line_length \<le> eol \<or> long_attr_line (drop (eol + 1) buf)))"
  by pat_completeness auto
termination
  by (relation "measure length") (auto dest: index_byte_lt)

declare long_attr_line.simps [simp del]

definition check_gitattributes :: "options \<Rightarrow> oid \<Rightarrow> bytes \<Rightarrow> options \<times> int" where
  "check_gitattributes q x buf =
     (let b = (case index_byte buf 0 of Some i \<Rightarrow> take i buf | None \<Rightarrow> buf)
      in if long_attr_line b then
           report q x TypeBlob MsgGitattributesLineLength
             (str ''.gitattributes has too long lines to parse'')
         else (q, 0))"

text \<open>\<open>ret |= o.report(...)\<close>\<close>

definition or_report :: "oid \<Rightarrow> msg_id \<Rightarrow> bytes \<Rightarrow> options \<times> int \<Rightarrow> options \<times> int" where
  "or_report x i text qr =
     (let (q', r) = report (fst qr) x TypeBlob i text in (q', snd qr OR r))"

definition check_value :: "oid \<Rightarrow> bytes \<Rightarrow> bytes \<Rightarrow> options \<times> int \<Rightarrow> options \<times> int" where
  "check_value x key value qr =
     (if key = str ''url'' then
        (if \<not> check_submodule_url value then
           or_report x MsgGitmodulesUrl (str ''disallowed submodule url: '' @ value) qr else qr)
      else if key = str ''path'' then
        (if looks_like_option value then
           or_report x MsgGitmodulesPath (str ''disallowed submodule path: '' @ value) qr else qr)
      else if key = str ''update'' then
        (if has_prefix value [33] then
           or_report x MsgGitmodulesUpdate (str ''disallowed submodule update setting: '' @ value) qr
         else qr)
      else qr)"

definition check_setting ::
    "oid \<Rightarrow> (bytes \<times> bytes \<times> bytes \<times> bool) \<times> bytes option \<Rightarrow> options \<times> int \<Rightarrow> options \<times> int" where
  "check_setting x kv qr =
     (case kv of ((section, name, key, has_sub), v) \<Rightarrow>
       if section \<noteq> str ''submodule'' \<or> \<not> has_sub then qr
       else
         let qr1 = (if \<not> check_submodule_name name then
               or_report x MsgGitmodulesName (str ''disallowed submodule name: '' @ name) qr else qr)
         in (case v of None \<Rightarrow> qr1 | Some value \<Rightarrow> check_value x key value qr1))"

definition check_gitmodules :: "options \<Rightarrow> oid \<Rightarrow> bytes \<Rightarrow> options \<times> int" where
  "check_gitmodules q x buf =
     (let (entries, err) = parse_config buf;
          qr = fold (\<lambda>e. check_setting x (split_key (e_key e), e_value e)) entries (q, 0)
      in if err \<noteq> None then or_report x MsgGitmodulesParse (str ''could not parse gitmodules blob'') qr
         else qr)"

section \<open>Blobs\<close>

definition take_gitmodules :: "options \<Rightarrow> oid \<Rightarrow> options \<times> bool" where
  "take_gitmodules q x =
     (if x \<notin> gitmodules_found q then (q, False)
      else (q\<lparr>gitmodules_done := insert x (gitmodules_done q)\<rparr>, True))"

definition take_gitattributes :: "options \<Rightarrow> oid \<Rightarrow> options \<times> bool" where
  "take_gitattributes q x =
     (if x \<notin> gitattributes_found q then (q, False)
      else (q\<lparr>gitattributes_done := insert x (gitattributes_done q)\<rparr>, True))"

text \<open>\<open>buf\<close> is \<open>None\<close> for a blob too large to hold in memory, Go's nil slice.\<close>

definition check_blob :: "options \<Rightarrow> oid \<Rightarrow> bytes option \<Rightarrow> options \<times> int" where
  "check_blob q x buf =
     (if skipped q x then (q, 0)
      else
        let (q1, named) = take_gitmodules q x
        in if named \<and> buf = None then
             report q1 x TypeBlob MsgGitmodulesLarge (str ''.gitmodules too large to parse'')
           else
             let (q2, ret) = (if named then check_gitmodules q1 x (the buf) else (q1, 0));
                 (q3, attr) = take_gitattributes q2 x
             in if \<not> attr then (q3, ret)
                else (case buf of
                    None \<Rightarrow> report q3 x TypeBlob MsgGitattributesLarge
                      (str ''.gitattributes too large to parse'')
                  | Some b \<Rightarrow>
                      if attr_max_file_size < length b then
                        report q3 x TypeBlob MsgGitattributesLarge
                          (str ''.gitattributes too large to parse'')
                      else (let (q4, r) = check_gitattributes q3 x b in (q4, ret OR r))))"

definition pending_blobs :: "options \<Rightarrow> oid set \<times> oid set" where
  "pending_blobs q =
     (gitmodules_found q - gitmodules_done q, gitattributes_found q - gitattributes_done q)"

definition report_missing_blob :: "options \<Rightarrow> oid \<Rightarrow> bytes \<Rightarrow> options \<times> int" where
  "report_missing_blob q x kind =
     report q x TypeBlob
       (if kind = str ''.gitattributes'' then MsgGitattributesMissing else MsgGitmodulesMissing)
       (str ''unable to read '' @ kind @ str '' blob'')"

definition report_non_blob :: "options \<Rightarrow> oid \<Rightarrow> obj_type \<Rightarrow> bytes \<Rightarrow> options \<times> int" where
  "report_non_blob q x t kind =
     report q x t
       (if kind = str ''.gitattributes'' then MsgGitattributesBlob else MsgGitmodulesBlob)
       (str ''non-blob found at '' @ kind)"

end
