(* ===== verification/BlobRules.thy ===== *)
theory BlobRules
  imports BlobCheck
begin

text \<open>
  What the rules for submodule settings mean: the names and URLs they let pass, and that no
  setting of a well-formed \<open>.gitmodules\<close> file escapes them.
\<close>

section \<open>Names\<close>

lemma index_any_split:
  "index_any s cs = Some k \<Longrightarrow> s = take k s @ s ! k # drop (k + 1) s \<and> s ! k \<in> set cs \<and>
    set (take k s) \<inter> set cs = {}"
  by (induction s arbitrary: k) (auto split: if_splits)

lemma index_any_None: "index_any s cs = None \<longleftrightarrow> set s \<inter> set cs = {}"
  by (induction s) auto

lemma name_loop_iff: "name_loop s \<longleftrightarrow> [46, 46] \<notin> set (split_by is_xplatform_sep s)"
proof (induction "length s" arbitrary: s rule: less_induct)
  case less
  have sep: "is_xplatform_sep c \<longleftrightarrow> c \<in> set [47, 92]" for c by (auto simp: is_xplatform_sep_def)
  show ?case
  proof (cases "index_any s [47, 92]")
    case None
    then have no: "\<forall>c \<in> set s. \<not> is_xplatform_sep c" unfolding index_any_None sep by auto
    have "(has_prefix s [46, 46] \<and> (drop 2 s = [] \<or> is_xplatform_sep (hd (drop 2 s)))) \<longleftrightarrow> s = [46, 46]"
    proof (cases "drop 2 s")
      case (Cons c r)
      then have "\<not> is_xplatform_sep c" using no by (metis in_set_dropD list.set_intros(1))
      with Cons show ?thesis by auto
    qed (auto simp: has_prefix_def)
    with None no show ?thesis by (subst name_loop.simps) (simp add: split_by_none)
  next
    case (Some k)
    then obtain c r where s: "s = take k s @ c # r" "is_xplatform_sep c" "r = drop (k + 1) s"
      "\<forall>d \<in> set (take k s). \<not> is_xplatform_sep d" "k < length s"
      using index_any_split [OF Some] index_any_SomeD [OF Some] unfolding sep by blast
    define w where "w = take k s"
    have w: "s = w @ c # r" "\<forall>d \<in> set w. \<not> is_xplatform_sep d" using s by (simp_all add: w_def)
    have first: "(has_prefix s [46, 46] \<and> (drop 2 s = [] \<or> is_xplatform_sep (hd (drop 2 s)))) \<longleftrightarrow> w = [46, 46]"
    proof -
      have c: "c \<noteq> 46" using s(2) by (auto simp: is_xplatform_sep_def)
      consider "w = []" | a where "w = [a]" | a b u where "w = a # b # u"
        by (metis list.exhaust)
      then show ?thesis
      proof cases
        case 3
        with w s(2) show ?thesis by (cases u) (auto simp: has_prefix_def)
      qed (use w s(2) c in \<open>auto simp: has_prefix_def\<close>)
    qed
    have "name_loop s \<longleftrightarrow> w \<noteq> [46, 46] \<and> name_loop r"
      using first Some s(3) by (subst name_loop.simps) simp
    also have "name_loop r \<longleftrightarrow> [46, 46] \<notin> set (split_by is_xplatform_sep r)"
      using s(3,5) by (intro less.hyps) simp
    finally show ?thesis using w s(2) by (auto simp: split_by_append)
  qed
qed

text \<open>
  A submodule name is allowed exactly when it is not empty and none of its components,
  with a slash or a backslash as separator, is the parent directory.
\<close>

theorem submodule_name_exact:
  "check_submodule_name name \<longleftrightarrow>
     name \<noteq> [] \<and> str ''..'' \<notin> set (split_by is_xplatform_sep name)"
  by (simp add: check_submodule_name_def name_loop_iff)

section \<open>URLs\<close>

lemma url_decode_hex: "hex_val x = None \<Longrightarrow> url_decode (37 # x # r) = 37 # url_decode (x # r)"
  by (cases r) auto

lemma url_decode_other: "c \<noteq> 37 \<Longrightarrow> url_decode (c # r) = c # url_decode r"
  by (cases r rule: remdups_adj.cases) auto

text \<open>Decoding does not reach across a byte that is no hex digit.\<close>

lemma url_decode_append:
  "hex_val c = None \<Longrightarrow> url_decode (a @ c # b) = url_decode a @ url_decode (c # b)"
proof (induction a rule: url_decode.induct, goal_cases)
  case (1 d x y r)
  then show ?case by (auto split: option.splits)
next
  case 2
  then show ?case by simp
next
  case (3 v)
  then show ?case
    by (cases "v = 37") (simp_all add: url_decode_hex url_decode_other)
next
  case (4 v w)
  then show ?case
    by (cases "v = 37"; cases "w = 37"; cases b)
      (auto simp: url_decode_hex url_decode_other split: option.splits)
qed

lemma url_decode_plain: "37 \<notin> set s \<Longrightarrow> url_decode s = s"
  by (induction s rule: url_decode.induct) auto

lemma url_decode_before: "37 \<notin> set a \<Longrightarrow> url_decode (a @ b) = a @ url_decode b"
  by (induction a) (simp_all add: url_decode_other)

text \<open>A slash that is trimmed before decoding is no newline after it.\<close>

lemma decode_trim_left: "10 \<in> set (url_decode s) \<longleftrightarrow> 10 \<in> set (url_decode (trim_left (\<lambda>c. c = 47) s))"
  by (induction s) (auto simp: trim_left_def url_decode_other)

lemma decode_snoc_slash: "url_decode (s @ [47]) = url_decode s @ [47]"
  using url_decode_append [of 47 s "[]"] by (simp add: hex_val_def)

lemma decode_trim_right: "10 \<in> set (url_decode s) \<longleftrightarrow> 10 \<in> set (url_decode (trim_right (\<lambda>c. c = 47) s))"
proof (induction s rule: rev_induct)
  case (snoc c s)
  then show ?case by (cases "c = 47") (simp_all add: trim_right_def decode_snoc_slash)
qed (simp add: trim_right_def)

text \<open>The parts of a URL behind its scheme, and what joins them.\<close>

lemma index_byte_take_lt: "index_byte xs c = Some i \<Longrightarrow> i < n \<Longrightarrow> index_byte (take n xs) c = Some i"
proof (induction xs arbitrary: i n)
  case (Cons x xs)
  then show ?case by (cases n) (auto split: if_splits)
qed simp

lemma index_byte_take_None: "n \<le> i \<Longrightarrow> index_byte xs c = Some i \<Longrightarrow> index_byte (take n xs) c = None"
proof (induction xs arbitrary: i n)
  case (Cons x xs)
  then show ?case by (cases n) (auto split: if_splits)
qed simp

text \<open>The parts are those of the authority, the bytes before the slash.\<close>

definition auth_parts :: "bytes \<Rightarrow> bytes \<times> bytes \<times> bytes" where
  "auth_parts auth =
     (case index_byte auth 64 of
        None \<Rightarrow> ([], [], auth)
      | Some a \<Rightarrow>
          (case index_byte (take a auth) 58 of
             None \<Rightarrow> (take a auth, [], drop (Suc a) auth)
           | Some c \<Rightarrow> (take c auth, drop (Suc c) (take a auth), drop (Suc a) auth)))"

lemma credential_parts_auth:
  assumes "slash \<le> length cp"
  shows "credential_parts cp slash = auth_parts (take slash cp)"
proof (cases "index_byte cp 64")
  case None
  then have "64 \<notin> set (take slash cp)" by (metis index_byte_None in_set_takeD)
  then have "index_byte (take slash cp) 64 = None" by simp
  with None show ?thesis by (simp add: credential_parts_def auth_parts_def index_byte_notin)
next
  case (Some a)
  show ?thesis
  proof (cases "slash \<le> a")
    case True
    from index_byte_take_None [OF this Some] have "index_byte (take slash cp) 64 = None" .
    with True Some show ?thesis by (simp add: credential_parts_def auth_parts_def index_byte_notin)
  next
    case False
    then have at: "index_byte (take slash cp) 64 = Some a" using index_byte_take_lt [OF Some] by simp
    have tt: "take a (take slash cp) = take a cp" using False by (simp add: min_def)
    show ?thesis
    proof (cases "index_byte cp 58")
      case None
      then have "58 \<notin> set (take a cp)" by (metis index_byte_None in_set_takeD)
      then have "index_byte (take a cp) 58 = None" by simp
      with Some False None at tt show ?thesis by (simp add: credential_parts_def auth_parts_def index_byte_notin)
    next
      case colon: (Some c)
      show ?thesis
      proof (cases "a \<le> c")
        case True
        from index_byte_take_None [OF this colon] have "index_byte (take a cp) 58 = None" .
        with Some False True colon at tt show ?thesis by (simp add: credential_parts_def auth_parts_def index_byte_notin)
      next
        case lt: False
        then have "index_byte (take a cp) 58 = Some c" using index_byte_take_lt [OF colon] by simp
        moreover have "take c (take slash cp) = take c cp" using lt False by (simp add: min_def)
        ultimately show ?thesis using Some False lt colon at tt by (simp add: credential_parts_def auth_parts_def index_byte_notin)
      qed
    qed
  qed
qed

text \<open>The bytes that separate the parts are no hex digits, so decoding does not reach across them.\<close>

lemma auth_parts_newline:
  assumes "auth_parts auth = (user, pass, host)"
  shows "10 \<in> set (url_decode auth) \<longleftrightarrow>
    10 \<in> set (url_decode user) \<or> 10 \<in> set (url_decode pass) \<or> 10 \<in> set (url_decode host)"
proof (cases "index_byte auth 64")
  case None
  with None assms show ?thesis by (auto simp: auth_parts_def index_byte_notin)
next
  case (Some a)
  have hex: "hex_val 64 = None" "hex_val 58 = None" by (simp_all add: hex_val_def)
  have split: "auth = take a auth @ 64 # drop (Suc a) auth" by (rule index_byte_split [OF Some])
  have whole: "10 \<in> set (url_decode auth) \<longleftrightarrow>
      10 \<in> set (url_decode (take a auth)) \<or> 10 \<in> set (url_decode (drop (Suc a) auth))"
    by (subst split) (simp add: url_decode_append [OF hex(1)] url_decode_other del: append_take_drop_id)
  show ?thesis
  proof (cases "index_byte (take a auth) 58")
    case None
    with Some assms whole show ?thesis by (auto simp: auth_parts_def index_byte_notin)
  next
    case colon: (Some c)
    then have "c < a" using index_byte_lt [OF colon] by simp
    then have tc: "take c (take a auth) = take c auth" by (simp add: min_def)
    have "10 \<in> set (url_decode (take a auth)) \<longleftrightarrow>
        10 \<in> set (url_decode (take c auth)) \<or> 10 \<in> set (url_decode (drop (Suc c) (take a auth)))"
      by (subst index_byte_split [OF colon]) (simp add: url_decode_append [OF hex(2)] url_decode_other tc [simplified] del: append_take_drop_id)
    with Some colon assms whole show ?thesis by (auto simp: auth_parts_def)
  qed
qed

lemma auth_parts_host:
  "auth_parts auth = (user, pass, host) \<Longrightarrow>
     host = [] \<longleftrightarrow> auth = [] \<or> (\<exists>u. auth = u @ [64] \<and> 64 \<notin> set u)"
proof (cases "index_byte auth 64")
  case None
  assume "auth_parts auth = (user, pass, host)"
  with None show ?thesis by (auto simp: auth_parts_def index_byte_notin)
next
  case (Some a)
  assume p: "auth_parts auth = (user, pass, host)"
  then have h: "host = drop (Suc a) auth" using Some by (auto simp: auth_parts_def split: option.splits)
  have split: "auth = take a auth @ 64 # host" "64 \<notin> set (take a auth)"
    using index_byte_split [OF Some] index_byte_SomeD [OF Some] h by auto
  show ?thesis
  proof
    assume "host = []"
    with split show "auth = [] \<or> (\<exists>u. auth = u @ [64] \<and> 64 \<notin> set u)" by metis
  next
    assume "auth = [] \<or> (\<exists>u. auth = u @ [64] \<and> 64 \<notin> set u)"
    then obtain u where u: "auth = u @ [64]" "64 \<notin> set u" using split(1) by (metis append_is_Nil_conv list.discI)
    then have "index_byte auth 64 = Some (length u)" using index_byte_append [of 64 u "[]"] by simp
    with Some u h show "host = []" by simp
  qed
qed

lemma index_scheme_end_scheme:
  "s \<in> set curl_schemes \<Longrightarrow> index_scheme_end (s @ r) = Some (length s - 3) \<and> length s - 3 > 0 \<and>
     37 \<notin> set s \<and> 10 \<notin> set s \<and> 3 \<le> length s"
  by (auto simp: curl_schemes_def has_prefix_def)

text \<open>
  C28: a submodule URL with one of the four schemes git hands to curl is refused when decoding
  it yields a newline anywhere, wherever the percent escapes stand, although the code decodes
  the user, the password, the host and the path apart: none of the bytes that separate them
  can be part of an escape.
\<close>

theorem curl_url_no_newline:
  assumes "s \<in> set curl_schemes" and "check_submodule_url (s @ cp)"
  shows "10 \<notin> set (url_decode (s @ cp))"
proof -
  note sch = index_scheme_end_scheme [OF assms(1), of cp]
  have rel: "\<not> looks_like_option (s @ cp)" "\<not> is_relative_url (s @ cp)"
    "find (has_prefix (s @ cp)) curl_helpers = None" "list_ex (has_prefix (s @ cp)) curl_schemes"
    using assms(1) by (auto simp: curl_schemes_def curl_helpers_def looks_like_option_def has_prefix_def
        is_relative_url_def starts_with_dot_slash_def starts_with_dotdot_slash_def)
  then have "url_to_curl_url (s @ cp) = Some (s @ cp)" by (simp add: url_to_curl_url_def)
  with assms(2) rel obtain h where h: "credential_host (s @ cp) = Some h"
    by (auto simp: check_submodule_url_def split: option.splits)
  define slash where "slash = (case index_any cp [47, 63, 35] of Some k \<Rightarrow> k | None \<Rightarrow> length cp)"
  obtain user pass host where parts: "credential_parts cp slash = (user, pass, host)" by (metis prod_cases3)
  have le: "slash \<le> length cp"
    by (auto simp: slash_def dest: index_any_SomeD split: option.splits)
  have "drop (length s - 3 + 3) (s @ cp) = cp" using sch by simp
  with h sch parts have no: "10 \<notin> set (url_decode user)" "10 \<notin> set (url_decode pass)"
    "10 \<notin> set (url_decode host)"
    "10 \<notin> set (url_decode (trim_right (\<lambda>c. c = 47) (trim_left (\<lambda>c. c = 47) (drop slash cp))))"
    by (auto simp: credential_host_def Let_def simp flip: slash_def split: if_splits)
  have auth_free: "10 \<notin> set (url_decode (take slash cp))"
    using auth_parts_newline parts no(1-3) unfolding credential_parts_auth [OF le] by blast
  have tail: "10 \<notin> set (url_decode (drop slash cp))"
    using no(4) decode_trim_left decode_trim_right by blast
  have "10 \<notin> set (url_decode (take slash cp @ drop slash cp))"
  proof (cases "drop slash cp")
    case Nil
    with auth_free show ?thesis by simp
  next
    case (Cons c r)
    then obtain k where "index_any cp [47, 63, 35] = Some k" "slash = k"
      using le by (auto simp: slash_def split: option.splits)
    then have "cp ! slash \<in> set [47, 63, 35]" "cp ! slash = c"
      using index_any_split [of cp "[47, 63, 35]" k] Cons by (simp_all add: nth_via_drop)
    then have "hex_val c = None" by (auto simp: hex_val_def)
    with Cons tail auth_free show ?thesis
      by (simp add: url_decode_append)
  qed
  with sch show ?thesis by (simp add: url_decode_before)
qed

theorem curl_url_no_newline_witness:
  "check_submodule_url (str ''https://h/a%41'') \<and> 10 \<notin> set (url_decode (str ''https://h/a%41''))"
proof -
  have s: "str ''https://'' \<in> set curl_schemes" by (simp add: curl_schemes_def)
  have c: "check_submodule_url (str ''https://'' @ str ''h/a%41'')"
    by (simp add: check_submodule_url_def looks_like_option_def is_relative_url_def has_prefix_def
        starts_with_dot_slash_def starts_with_dotdot_slash_def url_to_curl_url_def curl_helpers_def
        curl_schemes_def credential_host_def credential_parts_def trim_left_def trim_right_def hex_val_def)
  show ?thesis using curl_url_no_newline [OF s c] c by simp
qed

text \<open>
  For a relative URL the newline rule can be evaded: one escape that is not valid makes the
  whole URL be examined undecoded, so an escaped newline is let through that the file's own
  decoder, which leaves an invalid escape in place, does decode.
\<close>

theorem relative_url_smuggles_newline:
  "check_submodule_url (str ''./%0a%zz'') \<and> 10 \<in> set (url_decode (str ''./%0a%zz'')) \<and>
   \<not> check_submodule_url (str ''./%0a'')"
  by (simp add: check_submodule_url_def looks_like_option_def has_prefix_def is_relative_url_def
      starts_with_dot_slash_def starts_with_dotdot_slash_def is_xplatform_sep_def hex_val_def
      count_leading_dotdots.simps)

section \<open>Which URLs are allowed\<close>

text \<open>A step to the same directory or to the one above, with either separator.\<close>

definition dot_step :: "bytes \<Rightarrow> bool" where
  "dot_step p \<longleftrightarrow> (\<exists>s \<in> {ascii CHR ''/'', ascii CHR 0x5C}. p = str ''.'' @ [s] \<or> p = str ''..'' @ [s])"

definition relative_form :: "bytes \<Rightarrow> bool" where
  "relative_form u \<longleftrightarrow> (\<exists>p r. u = p @ r \<and> (dot_step p \<or> p = str ''git://''))"

text \<open>Leading steps, one of them upwards, that a colon or a slash follows: the superproject's host or scheme is replaced.\<close>

definition climbs_out :: "bytes \<Rightarrow> bool" where
  "climbs_out u \<longleftrightarrow>
     (\<exists>ps c r. u = concat ps @ c # r \<and> list_all dot_step ps \<and> (\<exists>p \<in> set ps. length p = 3) \<and>
        c \<in> {ascii CHR '':'', ascii CHR ''/''})"

definition handed_to_curl :: "bytes \<Rightarrow> bytes \<Rightarrow> bool" where
  "handed_to_curl u c \<longleftrightarrow>
     (\<exists>p \<in> {str ''http::'', str ''https::'', str ''ftp::'', str ''ftps::''}. u = p @ c) \<or>
     c = u \<and> (\<exists>p \<in> {str ''http://'', str ''https://'', str ''ftp://'', str ''ftps://''}. \<exists>r. u = p @ r)"

text \<open>A scheme, an authority that names a host, and no newline, escaped or not, in either or behind them.\<close>

definition good_curl_url :: "bytes \<Rightarrow> bool" where
  "good_curl_url c \<longleftrightarrow>
     (\<exists>scheme auth rest. c = scheme @ str ''://'' @ auth @ rest \<and> scheme \<noteq> [] \<and>
        (\<forall>x y. c = x @ str ''://'' @ y \<longrightarrow> length scheme \<le> length x) \<and>
        set auth \<inter> {ascii CHR ''/'', ascii CHR ''?'', ascii CHR ''#''} = {} \<and>
        (rest = [] \<or> hd rest \<in> {ascii CHR ''/'', ascii CHR ''?'', ascii CHR ''#''}) \<and>
        auth \<noteq> [] \<and> \<not> (\<exists>user. auth = user @ [ascii CHR ''@''] \<and> ascii CHR ''@'' \<notin> set user) \<and>
        10 \<notin> set scheme \<and> 10 \<notin> set (url_decode (auth @ rest)))"

definition good_url :: "bytes \<Rightarrow> bool" where
  "good_url u \<longleftrightarrow>
     \<not> (\<exists>r. u = ascii CHR ''-'' # r) \<and>
     (if relative_form u then 10 \<notin> set (case query_unescape u of Some d \<Rightarrow> d | None \<Rightarrow> u) \<and> \<not> climbs_out u
      else \<forall>c. handed_to_curl u c \<longrightarrow> good_curl_url c)"

lemma looks_like_option_iff: "looks_like_option u \<longleftrightarrow> (\<exists>r. u = ascii CHR ''-'' # r)"
  by (auto simp: looks_like_option_def has_prefix_iff)

lemma starts_dot_iff:
  "starts_with_dot_slash u \<longleftrightarrow> (\<exists>s r. is_xplatform_sep s \<and> u = 46 # s # r)"
  "starts_with_dotdot_slash u \<longleftrightarrow> (\<exists>s r. is_xplatform_sep s \<and> u = 46 # 46 # s # r)"
proof -
  show "starts_with_dot_slash u \<longleftrightarrow> (\<exists>s r. is_xplatform_sep s \<and> u = 46 # s # r)"
    by (cases u rule: remdups_adj.cases) (auto simp: starts_with_dot_slash_def)
  show "starts_with_dotdot_slash u \<longleftrightarrow> (\<exists>s r. is_xplatform_sep s \<and> u = 46 # 46 # s # r)"
  proof (cases u rule: remdups_adj.cases)
    case (3 x y r)
    then show ?thesis by (cases r) (auto simp: starts_with_dotdot_slash_def)
  qed (auto simp: starts_with_dotdot_slash_def)
qed

lemma dot_step_iff: "dot_step p \<longleftrightarrow> (\<exists>s. is_xplatform_sep s \<and> (p = [46, s] \<or> p = [46, 46, s]))"
  by (auto simp: dot_step_def is_xplatform_sep_def)

lemma is_relative_iff: "is_relative_url u \<longleftrightarrow> relative_form u"
proof -
  have "(\<exists>p r. u = p @ r \<and> dot_step p) \<longleftrightarrow>
      (\<exists>s. is_xplatform_sep s \<and> ((\<exists>r. u = [46, s] @ r) \<or> (\<exists>r. u = [46, 46, s] @ r)))"
    unfolding dot_step_iff by blast
  then have "(\<exists>p r. u = p @ r \<and> dot_step p) \<longleftrightarrow> starts_with_dot_slash u \<or> starts_with_dotdot_slash u"
    unfolding starts_dot_iff by auto
  then show ?thesis unfolding is_relative_url_def relative_form_def has_prefix_iff by blast
qed

lemma count_dotdots_parts:
  "count_leading_dotdots n u = (m, rest) \<Longrightarrow>
     \<exists>ps. u = concat ps @ rest \<and> list_all dot_step ps \<and> m = n + length (filter (\<lambda>p. length p = 3) ps)"
proof (induction n u rule: count_leading_dotdots.induct)
  case (1 n u)
  consider (up) s r where "is_xplatform_sep s" "u = 46 # 46 # s # r"
    | (same) s r where "is_xplatform_sep s" "u = 46 # s # r" "\<not> starts_with_dotdot_slash u"
    | (none) "\<not> starts_with_dotdot_slash u" "\<not> starts_with_dot_slash u"
    using starts_dot_iff by metis
  then show ?case
  proof cases
    case up
    then have st: "starts_with_dotdot_slash u" by (auto simp: starts_dot_iff)
    moreover from st have "count_leading_dotdots (Suc n) r = (m, rest)"
      using "1.prems" up(2) by (subst (asm) count_leading_dotdots.simps) simp
    ultimately obtain ps where "r = concat ps @ rest" "list_all dot_step ps" "m = Suc n + length (filter (\<lambda>p. length p = 3) ps)"
      using "1.IH"(1) up(2) by auto
    with up show ?thesis by (intro exI [of _ "[46, 46, s] # ps"]) (auto simp: dot_step_iff [of "[46, 46, s]"])
  next
    case same
    then have st: "starts_with_dot_slash u" by (auto simp: starts_dot_iff)
    moreover from st have "count_leading_dotdots n r = (m, rest)"
      using "1.prems" same(2,3) by (subst (asm) count_leading_dotdots.simps) simp
    ultimately obtain ps where "r = concat ps @ rest" "list_all dot_step ps" "m = n + length (filter (\<lambda>p. length p = 3) ps)"
      using "1.IH"(2) same(2,3) by auto
    with same show ?thesis by (intro exI [of _ "[46, s] # ps"]) (auto simp: dot_step_iff [of "[46, s]"])
  next
    case none
    with "1.prems" have "m = n" "rest = u" by (subst (asm) count_leading_dotdots.simps, simp)+
    then show ?thesis by (intro exI [of _ "[]"]) simp
  qed
qed

lemma count_dotdots_steps:
  assumes "c \<noteq> 46"
  shows "list_all dot_step ps \<Longrightarrow>
    count_leading_dotdots n (concat ps @ c # r) = (n + length (filter (\<lambda>p. length p = 3) ps), c # r)"
proof (induction ps arbitrary: n)
  case Nil
  have "\<not> starts_with_dotdot_slash (c # r)" "\<not> starts_with_dot_slash (c # r)" using assms by (auto simp: starts_dot_iff)
  then show ?case by (subst count_leading_dotdots.simps) simp
next
  case (Cons p ps)
  then obtain s where s: "is_xplatform_sep s" "p = [46, s] \<or> p = [46, 46, s]" by (auto simp: dot_step_iff)
  then have ne: "s \<noteq> 46" by (auto simp: is_xplatform_sep_def)
  from s(2) show ?case
  proof
    assume p: "p = [46, s]"
    then have "\<not> starts_with_dotdot_slash (concat (p # ps) @ c # r)" "starts_with_dot_slash (concat (p # ps) @ c # r)"
      using s(1) ne by (auto simp: starts_dot_iff)
    with Cons p show ?thesis by (subst count_leading_dotdots.simps) simp
  next
    assume p: "p = [46, 46, s]"
    then have "starts_with_dotdot_slash (concat (p # ps) @ c # r)" using s(1) by (auto simp: starts_dot_iff)
    with Cons p show ?thesis by (subst count_leading_dotdots.simps) simp
  qed
qed

lemma climbs_out_iff:
  assumes "count_leading_dotdots 0 u = (n, rest)"
  shows "climbs_out u \<longleftrightarrow> 0 < n \<and> rest \<noteq> [] \<and> (hd rest = 58 \<or> hd rest = 47)"
proof
  assume "climbs_out u"
  then obtain ps c r where u: "u = concat ps @ c # r" "list_all dot_step ps" "\<exists>p \<in> set ps. length p = 3" "c = 58 \<or> c = 47"
    by (auto simp: climbs_out_def)
  then have "c \<noteq> 46" by auto
  from count_dotdots_steps [OF this u(2), of 0 r] assms u(1)
  have "n = length (filter (\<lambda>p. length p = 3) ps)" "rest = c # r" by simp_all
  moreover have "filter (\<lambda>p. length p = 3) ps \<noteq> []" using u(3) by (simp add: filter_empty_conv)
  ultimately show "0 < n \<and> rest \<noteq> [] \<and> (hd rest = 58 \<or> hd rest = 47)" using u(4) by simp
next
  assume r: "0 < n \<and> rest \<noteq> [] \<and> (hd rest = 58 \<or> hd rest = 47)"
  obtain ps where ps: "u = concat ps @ rest" "list_all dot_step ps" "n = 0 + length (filter (\<lambda>p. length p = 3) ps)"
    using count_dotdots_parts [OF assms] by blast
  then have "filter (\<lambda>p. length p = 3) ps \<noteq> []" using r by auto
  then have "\<exists>p \<in> set ps. length p = 3" by (simp add: filter_empty_conv)
  with ps r show "climbs_out u" unfolding climbs_out_def
    by (intro exI [of _ ps] exI [of _ "hd rest"] exI [of _ "tl rest"]) auto
qed

text \<open>Where a scheme ends: the first \<open>://\<close>.\<close>

lemma scheme_end_some:
  "index_scheme_end s = Some e \<longleftrightarrow>
     (\<exists>y. s = take e s @ [58, 47, 47] @ y \<and> e \<le> length s) \<and> (\<forall>x y. s = x @ [58, 47, 47] @ y \<longrightarrow> e \<le> length x)"
proof (induction s arbitrary: e)
  case (Cons c s)
  show ?case
  proof (cases "has_prefix (c # s) [58, 47, 47]")
    case True
    then obtain y where y: "c # s = [58, 47, 47] @ y" by (auto simp: has_prefix_iff)
    have "e = 0" if "\<forall>x y. c # s = x @ [58, 47, 47] @ y \<longrightarrow> e \<le> length x" for e
      using that [rule_format, of "[]" y] y by simp
    with True y show ?thesis by auto
  next
    case False
    have no: "c # s \<noteq> [58, 47, 47] @ y" for y using False by (auto simp: has_prefix_iff)
    have split: "(\<forall>x y. c # s = x @ [58, 47, 47] @ y \<longrightarrow> Suc e \<le> length x) \<longleftrightarrow>
        (\<forall>x y. s = x @ [58, 47, 47] @ y \<longrightarrow> e \<le> length x)" for e
    proof (intro iffI allI impI)
      fix x y assume l: "\<forall>x y. c # s = x @ [58, 47, 47] @ y \<longrightarrow> Suc e \<le> length x" and "s = x @ [58, 47, 47] @ y"
      then show "e \<le> length x" using l [rule_format, of "c # x" y] by simp
    next
      fix x y assume l: "\<forall>x y. s = x @ [58, 47, 47] @ y \<longrightarrow> e \<le> length x" and eq: "c # s = x @ [58, 47, 47] @ y"
      then obtain x' where "x = c # x'" using no by (cases x) auto
      with l eq show "Suc e \<le> length x" by auto
    qed
    show ?thesis
    proof (cases e)
      case 0
      then show ?thesis using False no by auto
    next
      case (Suc k)
      then show ?thesis using False Cons.IH [of k] split [of k] by auto
    qed
  qed
qed simp

lemma index_any_ne: "index_any cp [47, 63, 35] = Some k \<Longrightarrow> drop k cp \<noteq> [] \<and> hd (drop k cp) \<in> {47, 63, 35}"
  using index_any_split [of cp "[47, 63, 35]" k] index_any_SomeD [of cp "[47, 63, 35]" k]
  by (auto simp: hd_drop_conv_nth)

lemma index_any_auth:
  assumes "set auth \<inter> {47, 63, 35} = {}" and "rest = [] \<or> hd rest \<in> {47, 63, 35}"
  shows "(case index_any (auth @ rest) [47, 63, 35] of Some k \<Rightarrow> k | None \<Rightarrow> length (auth @ rest)) = length auth"
  using assms(1)
proof (induction auth)
  case Nil
  then show ?case using assms(2) by (cases rest) auto
next
  case (Cons c auth)
  then show ?case by (auto split: option.splits)
qed

lemma decode_tail: "10 \<in> set (url_decode (trim_right (\<lambda>c. c = 47) (trim_left (\<lambda>c. c = 47) s))) \<longleftrightarrow> 10 \<in> set (url_decode s)"
  using decode_trim_left [of s] decode_trim_right [of "trim_left (\<lambda>c. c = 47) s"] by blast

lemma decode_auth_rest:
  assumes "rest = [] \<or> hd rest \<in> {47, 63, 35}"
  shows "10 \<in> set (url_decode (auth @ rest)) \<longleftrightarrow> 10 \<in> set (url_decode auth) \<or> 10 \<in> set (url_decode rest)"
proof (cases rest)
  case (Cons c r)
  with assms have "hex_val c = None" by (auto simp: hex_val_def)
  with Cons show ?thesis by (simp add: url_decode_append)
qed simp

lemma url_decode_empty: "url_decode s = [] \<longleftrightarrow> s = []"
  by (cases s rule: url_decode.cases) (auto split: option.splits)

lemma credential_host_parts:
  assumes "c = scheme @ [58, 47, 47] @ auth @ rest" and "index_scheme_end c = Some (length scheme)"
    and "set auth \<inter> {47, 63, 35} = {}" and "rest = [] \<or> hd rest \<in> {47, 63, 35}"
  shows "(\<exists>h. credential_host c = Some h \<and> h \<noteq> []) \<longleftrightarrow>
    scheme \<noteq> [] \<and> auth \<noteq> [] \<and> \<not> (\<exists>user. auth = user @ [64] \<and> 64 \<notin> set user) \<and>
    10 \<notin> set scheme \<and> 10 \<notin> set (url_decode (auth @ rest))"
proof (cases "scheme = []")
  case False
  obtain user pass host where parts: "auth_parts auth = (user, pass, host)" by (metis prod_cases3)
  note nl = auth_parts_newline [OF parts] and host = auth_parts_host [OF parts]
  have cp: "drop (length scheme + 3) c = auth @ rest" "take (length scheme) c = scheme" using assms(1) by simp_all
  have cparts: "credential_parts (auth @ rest) (length auth) = (user, pass, host)"
    using credential_parts_auth [of "length auth" "auth @ rest"] parts by simp
  have "credential_host c =
      (if list_ex (\<lambda>p. 10 \<in> set p) [url_decode user, url_decode pass, scheme, url_decode host,
           url_decode (trim_right (\<lambda>c. c = 47) (trim_left (\<lambda>c. c = 47) rest))] then None
       else Some (url_decode host))"
    unfolding credential_host_def assms(2) option.case Let_def cp index_any_auth [OF assms(3,4)] cparts
    using False by simp
  then show ?thesis
    using False nl host decode_tail [of rest] decode_auth_rest [OF assms(4)] by (auto simp: url_decode_empty)
qed (use assms(2) in \<open>simp add: credential_host_def\<close>)

lemma good_curl_iff: "(\<exists>h. credential_host c = Some h \<and> h \<noteq> []) \<longleftrightarrow> good_curl_url c"
proof
  assume h: "\<exists>h. credential_host c = Some h \<and> h \<noteq> []"
  then obtain e where e: "index_scheme_end c = Some e" by (auto simp: credential_host_def split: option.splits)
  then obtain cp where cp: "c = take e c @ [58, 47, 47] @ cp" "e \<le> length c" "\<forall>x y. c = x @ [58, 47, 47] @ y \<longrightarrow> e \<le> length x"
    unfolding scheme_end_some by blast
  define slash where "slash = (case index_any cp [47, 63, 35] of Some k \<Rightarrow> k | None \<Rightarrow> length cp)"
  have rest: "drop slash cp = [] \<or> hd (drop slash cp) \<in> {47, 63, 35}"
    using index_any_ne by (auto simp: slash_def split: option.split)
  have auth: "set (take slash cp) \<inter> {47, 63, 35} = {}"
  proof (cases "index_any cp [47, 63, 35]")
    case None
    then show ?thesis using index_any_None [of cp "[47, 63, 35]"] by (auto simp: slash_def)
  next
    case (Some k)
    then show ?thesis using index_any_split [OF Some] by (auto simp: slash_def)
  qed
  have c: "c = take e c @ [58, 47, 47] @ take slash cp @ drop slash cp" using cp(1) by simp
  have "index_scheme_end c = Some (length (take e c))" using e cp(2) by (simp add: min_def)
  from credential_host_parts [OF c this auth rest] h
  show "good_curl_url c" unfolding good_curl_url_def using c cp(2,3) auth rest
    by (intro exI [of _ "take e c"] exI [of _ "take slash cp"] exI [of _ "drop slash cp"]) (simp add: min_def)
next
  assume "good_curl_url c"
  then obtain scheme auth rest where c: "c = scheme @ [58, 47, 47] @ auth @ rest" "scheme \<noteq> []"
    "\<forall>x y. c = x @ [58, 47, 47] @ y \<longrightarrow> length scheme \<le> length x" "set auth \<inter> {47, 63, 35} = {}"
    "rest = [] \<or> hd rest \<in> {47, 63, 35}" "auth \<noteq> []" "\<not> (\<exists>user. auth = user @ [64] \<and> 64 \<notin> set user)"
    "10 \<notin> set scheme" "10 \<notin> set (url_decode (auth @ rest))"
    unfolding good_curl_url_def by auto
  have "index_scheme_end c = Some (length scheme)" unfolding scheme_end_some using c(1,3) by auto
  from credential_host_parts [OF c(1) this c(4,5)] c(2,6-9) show "\<exists>h. credential_host c = Some h \<and> h \<noteq> []" by blast
qed

lemma helper_one:
  assumes "p \<in> set curl_helpers" and "q \<in> set curl_helpers \<union> set curl_schemes" and "has_prefix u p" and "has_prefix u q"
  shows "p = q"
proof -
  obtain r r' where "u = p @ r" "u = q @ r'" using assms(3,4) unfolding has_prefix_iff by blast
  then have "p @ r = q @ r'" by simp
  then show ?thesis using assms(1,2) unfolding curl_helpers_def curl_schemes_def by auto
qed

lemma url_to_curl_iff: "url_to_curl_url u = Some c \<longleftrightarrow> handed_to_curl u c"
proof -
  have sets: "{str ''http::'', str ''https::'', str ''ftp::'', str ''ftps::''} = set curl_helpers"
    "{str ''http://'', str ''https://'', str ''ftp://'', str ''ftps://''} = set curl_schemes"
    unfolding curl_helpers_def curl_schemes_def list.set by (rule refl)+
  have two: "set curl_helpers \<inter> set curl_schemes = {}" by (simp add: curl_helpers_def curl_schemes_def)
  show ?thesis
  proof (cases "find (has_prefix u) curl_helpers")
    case None
    then have "\<not> has_prefix u p" if "p \<in> set curl_helpers" for p using that by (auto simp: find_None_iff)
    then show ?thesis unfolding url_to_curl_url_def handed_to_curl_def sets None option.case
      by (auto simp: has_prefix_iff list_ex_iff)
  next
    case (Some p)
    then have p: "p \<in> set curl_helpers" "has_prefix u p" by (auto simp: find_Some_iff)
    then have u: "u = p @ drop (length p) u" by (auto simp: has_prefix_iff)
    have "\<not> has_prefix u q" if "q \<in> set curl_schemes" for q
      using helper_one [OF p(1) _ p(2), of q] that p(1) two by blast
    moreover have "q = p" if "q \<in> set curl_helpers" "has_prefix u q" for q
      using helper_one [OF p(1) _ p(2) that(2)] that(1) by simp
    ultimately have "handed_to_curl u c \<longleftrightarrow> u = p @ c"
      unfolding handed_to_curl_def sets has_prefix_iff using p(1) by blast
    then show ?thesis unfolding url_to_curl_url_def Some option.case using u by (metis append_eq_conv_conj option.inject)
  qed
qed

lemma check_url_iff: "check_submodule_url u \<longleftrightarrow> good_url u"
proof -
  obtain n rest where cnt: "count_leading_dotdots 0 u = (n, rest)" by force
  have curl: "(case url_to_curl_url u of Some c \<Rightarrow> (case credential_host c of None \<Rightarrow> False | Some h \<Rightarrow> h \<noteq> []) | None \<Rightarrow> True) \<longleftrightarrow>
      (\<forall>c. handed_to_curl u c \<longrightarrow> good_curl_url c)"
    unfolding url_to_curl_iff [symmetric] good_curl_iff [symmetric] by (auto split: option.splits)
  show ?thesis
    unfolding check_submodule_url_def good_url_def looks_like_option_iff is_relative_iff cnt prod.case
      climbs_out_iff [OF cnt] curl by simp
qed

section \<open>Whole files\<close>

text \<open>A setting of a submodule, its value missing where the line has none.\<close>

definition setting_ok :: "bytes \<Rightarrow> bytes \<Rightarrow> bytes option \<Rightarrow> bool" where
  "setting_ok name key v \<longleftrightarrow>
     name \<noteq> [] \<and> str ''..'' \<notin> set (split_by is_xplatform_sep name) \<and>
     (\<forall>s. v = Some s \<longrightarrow>
        (key = str ''url'' \<longrightarrow> good_url s) \<and>
        (key = str ''path'' \<longrightarrow> \<not> (\<exists>r. s = ascii CHR ''-'' # r)) \<and>
        (key = str ''update'' \<longrightarrow> \<not> (\<exists>r. s = ascii CHR ''!'' # r)))"

lemma or_report_extends: "extends (fst qr) (fst (or_report x i s qr))"
  by (simp add: or_report_def case_prod_beta report_extends)

lemma or_report_loud: "loud q x \<Longrightarrow> fst (or_report x i s (q, r)) \<noteq> q"
  by (simp add: or_report_def case_prod_beta report_loud)

lemma check_value_extends: "extends (fst qr) (fst (check_value x key v qr))"
  by (simp add: check_value_def or_report_extends)

lemma check_value_quiet:
  "loud q x \<Longrightarrow> fst (check_value x key v (q, r)) = q \<longleftrightarrow>
     (key = str ''url'' \<longrightarrow> check_submodule_url v) \<and> (key = str ''path'' \<longrightarrow> \<not> looks_like_option v) \<and>
     (key = str ''update'' \<longrightarrow> \<not> has_prefix v (str ''!''))"
  by (simp add: check_value_def or_report_loud)

lemma check_setting_extends: "extends (fst qr) (fst (check_setting x kv qr))"
  using extends_trans [OF or_report_extends check_value_extends]
  by (auto simp: check_setting_def Let_def or_report_extends check_value_extends split: prod.splits option.splits)

text \<open>An entry of the file: which setting of which submodule, and its value.\<close>

definition entry_ok :: "(bytes \<times> bytes \<times> bytes \<times> bool) \<times> bytes option \<Rightarrow> bool" where
  "entry_ok kv \<longleftrightarrow> (\<forall>name key. fst kv = (str ''submodule'', name, key, True) \<longrightarrow> setting_ok name key (snd kv))"

lemma update_iff: "has_prefix v (str ''!'') \<longleftrightarrow> (\<exists>r. v = ascii CHR ''!'' # r)"
  by (auto simp: has_prefix_iff)

lemma check_setting_quiet:
  assumes "loud q x"
  shows "fst (check_setting x kv (q, r)) = q \<longleftrightarrow> entry_ok kv"
proof -
  obtain sec name key has v where kv: "kv = ((sec, name, key, has), v)" by (metis prod_cases5 surj_pair)
  consider "sec \<noteq> str ''submodule'' \<or> \<not> has"
    | (good) "sec = str ''submodule''" "has" "check_submodule_name name"
    | (bad) "sec = str ''submodule''" "has" "\<not> check_submodule_name name" by blast
  then show ?thesis
  proof cases
    case 1
    then show ?thesis by (auto simp: kv check_setting_def entry_ok_def)
  next
    case good
    then have "fst (check_setting x kv (q, r)) = (case v of None \<Rightarrow> q | Some s \<Rightarrow> fst (check_value x key s (q, r)))"
      by (simp add: kv check_setting_def split: option.split)
    moreover have "entry_ok kv \<longleftrightarrow> (\<forall>s. v = Some s \<longrightarrow> fst (check_value x key s (q, r)) = q)"
      unfolding check_value_quiet [OF assms] check_url_iff looks_like_option_iff update_iff
      using good(1,2) good(3) [unfolded submodule_name_exact] by (simp add: kv entry_ok_def setting_ok_def)
    ultimately show ?thesis by (cases v) simp_all
  next
    case bad
    let ?q1 = "or_report x MsgGitmodulesName (str ''disallowed submodule name: '' @ name) (q, r)"
    have "fst ?q1 \<noteq> q" using or_report_loud [OF assms] .
    moreover have "extends (fst ?q1) (fst (check_setting x kv (q, r)))"
    proof -
      have "check_setting x kv (q, r) = (case v of None \<Rightarrow> ?q1 | Some s \<Rightarrow> check_value x key s ?q1)"
        using bad by (simp add: kv check_setting_def Let_def cong: option.case_cong)
      then show ?thesis using check_value_extends [of ?q1] extends_refl by (cases v) simp_all
    qed
    ultimately have "fst (check_setting x kv (q, r)) \<noteq> q"
      using extends_ne or_report_extends [of "(q, r)"] by (metis fst_conv)
    moreover have "\<not> entry_ok kv"
      using bad(1,2) bad(3) [unfolded submodule_name_exact] by (auto simp: kv entry_ok_def setting_ok_def)
    ultimately show ?thesis by simp
  qed
qed

lemma check_settings_quiet:
  assumes "loud q x"
  shows "extends q (fst (fold (check_setting x) kvs (q, r))) \<and>
    (fst (fold (check_setting x) kvs (q, r)) = q \<longleftrightarrow> list_all entry_ok kvs)"
    (is "extends q (?run q r kvs) \<and> _")
  using assms
proof (induction kvs arbitrary: q r)
  case (Cons kv kvs)
  obtain q1 r1 where q1: "check_setting x kv (q, r) = (q1, r1)" by force
  have e: "extends q q1" using check_setting_extends [of "(q, r)"] q1 by (metis fst_conv)
  with Cons.prems have "loud q1 x" using extends_fields(2) by blast
  then have ih: "extends q1 (?run q1 r1 kvs)" "?run q1 r1 kvs = q1 \<longleftrightarrow> list_all entry_ok kvs"
    using Cons.IH by blast+
  have run: "?run q r (kv # kvs) = ?run q1 r1 kvs" using q1 by simp
  have step: "q1 = q \<longleftrightarrow> entry_ok kv" using check_setting_quiet [OF Cons.prems, of kv r] q1 by simp
  have "?run q1 r1 kvs = q \<longleftrightarrow> entry_ok kv \<and> list_all entry_ok kvs"
  proof (cases "q1 = q")
    case True
    with step ih(2) show ?thesis by simp
  next
    case False
    with step extends_ne [OF e False ih(1)] show ?thesis by simp
  qed
  with run extends_trans [OF e ih(1)] show ?case by simp
qed simp

text \<open>
  C17: no setting of a \<open>.gitmodules\<close> file escapes the rules. With every message reported, the check of
  any blob logs nothing exactly when it parses to its end and every setting of a submodule in it has
  an allowed name, no URL outside the grammar of \<open>good_url\<close> (an option, a newline however escaped, a
  climb out of the superproject's host, a curl URL without a host), no path that reads as a
  command-line option and no update setting that is a command.
\<close>

theorem gitmodules_check_exact:
  assumes "loud q x"
  shows "fst (check_gitmodules q x buf) = q \<longleftrightarrow> snd (parse_config buf) = None \<and>
    (\<forall>e \<in> set (fst (parse_config buf)). \<forall>name key.
       split_key (e_key e) = (str ''submodule'', name, key, True) \<longrightarrow> setting_ok name key (e_value e))"
proof -
  obtain es err where p: "parse_config buf = (es, err)" by force
  define kvs where "kvs = map (\<lambda>e. (split_key (e_key e), e_value e)) es"
  obtain q1 r1 where run: "fold (check_setting x) kvs (q, 0) = (q1, r1)" by force
  have "check_gitmodules q x buf = (if err \<noteq> None then
      or_report x MsgGitmodulesParse (str ''could not parse gitmodules blob'') (q1, r1) else (q1, r1))"
    unfolding check_gitmodules_def p prod.case Let_def run [symmetric] kvs_def by (simp add: fold_map comp_def)
  moreover have e: "extends q q1" and q1: "q1 = q \<longleftrightarrow> list_all entry_ok kvs"
    using check_settings_quiet [OF assms, of kvs 0] run by simp_all
  moreover have "fst (or_report x MsgGitmodulesParse (str ''could not parse gitmodules blob'') (q1, r1)) \<noteq> q"
  proof (cases "q1 = q")
    case True
    with or_report_loud [OF assms] show ?thesis by simp
  next
    case False
    show ?thesis by (rule extends_ne [OF e False]) (use or_report_extends [of "(q1, r1)"] in simp)
  qed
  moreover have "list_all entry_ok kvs \<longleftrightarrow> (\<forall>e \<in> set es. \<forall>name key.
      split_key (e_key e) = (str ''submodule'', name, key, True) \<longrightarrow> setting_ok name key (e_value e))"
    unfolding kvs_def list_all_iff set_map entry_ok_def by simp
  ultimately show ?thesis by (cases err) (simp_all add: p)
qed

text \<open>A file whose second submodule is named with a step upwards, and one that is allowed.\<close>

theorem gitmodules_check_exact_witness:
  "let q = (new_options (sha1_algo (\<lambda>m. []))) \<lparr>msg_type := Some (\<lambda>i. SevError)\<rparr>
   in fst (check_gitmodules q zero_oid
        (concat (map render_setting [(str ''a'', str ''path'', str ''b''), (str ''a/..'', str ''url'', str ''x'')]))) \<noteq> q \<and>
      fst (check_gitmodules q zero_oid
        (concat (map render_setting [(str ''a'', str ''path'', str ''b''), (str ''a'', str ''url'', str ''../x'')]))) = q"
proof -
  let ?q = "(new_options (sha1_algo (\<lambda>m. []))) \<lparr>msg_type := Some (\<lambda>i. SevError)\<rparr>"
  let ?ss = "\<lambda>n u. [(str ''a'', str ''path'', str ''b''), (n, str ''url'', u)]"
  have loud: "loud ?q zero_oid" by (simp add: loud_def severity_of_def new_options_def skipped_def)
  have iff: "fst (check_gitmodules ?q zero_oid (concat (map render_setting (?ss n u)))) = ?q \<longleftrightarrow>
      setting_ok (str ''a'') (str ''path'') (Some (str ''b'')) \<and> setting_ok n (str ''url'') (Some u)"
    if w: "list_all writable (?ss n u)" for n u
  proof -
    obtain out where p: "parse_config (concat (map render_setting (?ss n u))) = (out, None)"
      and out: "map (\<lambda>e. (split_key (e_key e), e_value e)) out =
        map (\<lambda>(sub, key, v). ((str ''submodule'', sub, key, True), Some v)) (?ss n u)"
      by (rule parse_rendered [OF w])
    have "(\<forall>e \<in> set out. \<forall>name key. split_key (e_key e) = (str ''submodule'', name, key, True) \<longrightarrow> setting_ok name key (e_value e)) \<longleftrightarrow>
        (\<forall>kv \<in> set (map (\<lambda>e. (split_key (e_key e), e_value e)) out). entry_ok kv)"
      unfolding entry_ok_def by simp
    then show ?thesis unfolding gitmodules_check_exact [OF loud] p out by (simp add: entry_ok_def)
  qed
  have w: "list_all writable (?ss (str ''a/..'') (str ''x''))" "list_all writable (?ss (str ''a'') (str ''../x''))"
    by (simp_all add: writable_def valid_key_def is_alpha_def is_key_char_def to_lower_def)
  have "\<not> setting_ok (str ''a/..'') (str ''url'') (Some (str ''x''))"
    by (simp add: setting_ok_def is_xplatform_sep_def)
  moreover have "setting_ok (str ''a'') (str ''path'') (Some (str ''b''))"
    by (simp add: setting_ok_def is_xplatform_sep_def)
  moreover have "good_url (str ''../x'')"
    unfolding check_url_iff [symmetric]
    by (simp add: check_submodule_url_def looks_like_option_def has_prefix_def is_relative_url_def
        starts_with_dot_slash_def starts_with_dotdot_slash_def is_xplatform_sep_def count_leading_dotdots.simps)
  then have "setting_ok (str ''a'') (str ''url'') (Some (str ''../x''))"
    by (simp add: setting_ok_def is_xplatform_sep_def)
  ultimately show ?thesis unfolding Let_def using iff [OF w(1)] iff [OF w(2)] by blast
qed

section \<open>Attribute files\<close>

text \<open>
  The line rule of \<open>.gitattributes\<close>: up to the first NUL byte, the loop stops the file
  exactly when some line, the unterminated last one included, has 2048 bytes or more.
\<close>

theorem long_attr_line_exact:
  "long_attr_line buf \<longleftrightarrow> (\<exists>l \<in> set (split_on 10 buf). attr_max_line_length \<le> length l)"
proof (induction "length buf" arbitrary: buf rule: less_induct)
  case less
  show ?case
  proof (cases "index_byte buf 10")
    case None
    then show ?thesis
      by (subst long_attr_line.simps)
        (auto simp: split_on_notin index_byte_notin attr_max_line_length_def)
  next
    case (Some k)
    then have lt: "k < length buf" by (rule index_byte_lt)
    have "buf = take k buf @ 10 # drop (k + 1) buf" using index_byte_split [OF Some] by simp
    then have split: "split_on 10 buf = take k buf # split_on 10 (drop (k + 1) buf)"
      using index_byte_SomeD [OF Some] split_on_append by metis
    have "long_attr_line (drop (k + 1) buf) \<longleftrightarrow>
        (\<exists>l \<in> set (split_on 10 (drop (k + 1) buf)). attr_max_line_length \<le> length l)"
      using lt by (intro less.hyps) simp
    with Some lt split show ?thesis
      by (subst long_attr_line.simps) auto
  qed
qed

section \<open>Blobs that wait\<close>

lemma extends_sets:
  "extends q q' \<Longrightarrow> gitmodules_found q' = gitmodules_found q \<and> gitmodules_done q' = gitmodules_done q \<and>
     skiplist q' = skiplist q"
  by (auto simp: extends_def)

lemma check_gitmodules_extends: "extends q (fst (check_gitmodules q x buf))"
proof -
  have "extends (fst qr) (fst (fold (\<lambda>e. check_setting x (split_key (e_key e), e_value e)) es qr))" for es qr
  proof (induction es arbitrary: qr)
    case (Cons e es)
    show ?case
      using extends_trans [OF check_setting_extends [of qr x "(split_key (e_key e), e_value e)"] Cons]
      by simp
  qed simp
  from this [of "(q, 0)"] show ?thesis
    by (auto simp: check_gitmodules_def Let_def case_prod_beta intro: extends_trans or_report_extends)
qed

definition same_sets :: "options \<Rightarrow> options \<Rightarrow> bool" where
  "same_sets q q' \<longleftrightarrow> gitmodules_found q' = gitmodules_found q \<and>
     gitmodules_done q' = gitmodules_done q \<and> skiplist q' = skiplist q"

lemma same_sets_extends: "extends q q' \<Longrightarrow> same_sets q q'"
  by (auto simp: extends_def same_sets_def)

lemma same_sets_trans: "same_sets q q' \<Longrightarrow> same_sets q' q'' \<Longrightarrow> same_sets q q''"
  by (simp add: same_sets_def)

lemma same_sets_attr: "same_sets q (fst (take_gitattributes q x))"
  by (simp add: same_sets_def take_gitattributes_def)

lemma check_gitattributes_extends: "extends q (fst (check_gitattributes q x buf))"
  by (simp add: check_gitattributes_def Let_def report_extends)

lemma check_blob_same:
  assumes "\<not> skipped q x"
  shows "same_sets (fst (take_gitmodules q x)) (fst (check_blob q x buf))"
proof -
  obtain q1 named where t: "take_gitmodules q x = (q1, named)" by force
  obtain q2 ret where m: "(if named then check_gitmodules q1 x (the buf) else (q1, 0)) = (q2, ret)" by force
  obtain q3 attr where a: "take_gitattributes q2 x = (q3, attr)" by force
  have "extends q1 q2" using m check_gitmodules_extends [of q1 x "the buf"] by (auto split: if_splits)
  then have q3: "same_sets q1 q3"
    using a same_sets_attr [of q2 x] same_sets_extends same_sets_trans by (metis fst_conv)
  have fin: "same_sets q1 q4" if "extends q3 q4" for q4
    using same_sets_trans [OF q3 same_sets_extends [OF that]] .
  show ?thesis
    unfolding check_blob_def t m a Let_def case_prod_conv fst_conv
    using assms q3 report_extends fin check_gitattributes_extends [of q3 x]
    by (auto simp: case_prod_beta intro: same_sets_extends split: option.splits)
qed

lemma check_blob_sets:
  "gitmodules_found (fst (check_blob q x buf)) = gitmodules_found q"
  "skiplist (fst (check_blob q x buf)) = skiplist q"
  "gitmodules_done (fst (check_blob q x buf)) =
    (if x \<in> gitmodules_found q \<and> \<not> skipped q x then insert x (gitmodules_done q) else gitmodules_done q)"
  using check_blob_same [of q x buf]
  by (cases "skipped q x"; auto simp: same_sets_def take_gitmodules_def check_blob_def)+

text \<open>The steps of a run that touch the sets: a tree names a blob, or a blob is checked.\<close>

datatype blob_step = Named oid | Read oid "bytes option"

fun run_step :: "options \<Rightarrow> blob_step \<Rightarrow> options" where
  "run_step q (Named x) = found_gitmodules q x"
| "run_step q (Read x buf) = fst (check_blob q x buf)"

definition reads :: "oid \<Rightarrow> blob_step \<Rightarrow> bool" where
  "reads x s \<longleftrightarrow> (\<exists>buf. s = Read x buf)"

lemma run_step_skiplist: "skiplist (run_step q s) = skiplist q"
  by (cases s) (simp_all add: check_blob_sets found_gitmodules_def)

lemma run_found: "x \<in> gitmodules_found (foldl run_step q ss) \<longleftrightarrow> x \<in> gitmodules_found q \<or> Named x \<in> set ss"
proof (induction ss arbitrary: q)
  case (Cons s ss)
  then show ?case by (cases s) (auto simp: check_blob_sets found_gitmodules_def)
qed simp

lemma run_done:
  "x \<notin> skiplist q \<Longrightarrow> x \<in> gitmodules_done (foldl run_step q ss) \<longleftrightarrow> x \<in> gitmodules_done q \<or>
     (\<exists>pre s post. ss = pre @ s # post \<and> reads x s \<and> (x \<in> gitmodules_found q \<or> Named x \<in> set pre))"
proof (induction ss rule: rev_induct)
  case (snoc s ss)
  have skip: "x \<notin> skiplist (foldl run_step q ss)"
  proof -
    have "skiplist (foldl run_step q ss) = skiplist q"
      by (induction ss rule: rev_induct) (simp_all add: run_step_skiplist)
    with snoc.prems show ?thesis by simp
  qed
  have ext: "(\<exists>pre t post. ss @ [s] = pre @ t # post \<and> reads x t \<and> P pre) \<longleftrightarrow>
      (\<exists>pre t post. ss = pre @ t # post \<and> reads x t \<and> P pre) \<or> (reads x s \<and> P ss)"
    (is "?L \<longleftrightarrow> ?R") for P
  proof
    assume ?L
    then obtain pre t post where "ss @ [s] = pre @ t # post" "reads x t" "P pre" by blast
    then show ?R by (cases post rule: rev_cases) auto
  next
    assume ?R
    then show ?L by (metis append.assoc append_Cons)
  qed
  show ?case
    unfolding ext using snoc skip run_found [of x q ss]
    by (cases s) (auto simp: check_blob_sets found_gitmodules_def reads_def skipped_def)
qed simp

text \<open>
  What is left for the final pass. Whatever the order in which trees name a blob as
  \<open>.gitmodules\<close> and blobs are checked, the blob is pending at the end exactly when it was named
  and never checked after that: a check that ran before the naming does not count, and no
  named blob escapes.
\<close>

theorem pending_exact:
  assumes "x \<notin> skiplist q" and "gitmodules_found q = {}" and "gitmodules_done q = {}"
  shows "x \<in> fst (pending_blobs (foldl run_step q ss)) \<longleftrightarrow>
    Named x \<in> set ss \<and> (\<forall>pre post. ss = pre @ Named x # post \<longrightarrow> list_all (\<lambda>s. \<not> reads x s) post)"
proof -
  have "x \<in> fst (pending_blobs (foldl run_step q ss)) \<longleftrightarrow>
      Named x \<in> set ss \<and> \<not> (\<exists>pre s post. ss = pre @ s # post \<and> reads x s \<and> Named x \<in> set pre)"
    using assms by (simp add: pending_blobs_def run_found run_done)
  also have "(\<exists>pre s post. ss = pre @ s # post \<and> reads x s \<and> Named x \<in> set pre) \<longleftrightarrow>
      (\<exists>pre post. ss = pre @ Named x # post \<and> (\<exists>s \<in> set post. reads x s))" (is "?L \<longleftrightarrow> ?R")
  proof
    assume ?L
    then obtain pre s post where h: "ss = pre @ s # post" "reads x s" "Named x \<in> set pre" by blast
    then obtain a b where "pre = a @ Named x # b" by (auto simp: in_set_conv_decomp)
    with h show ?R by (intro exI [of _ a] exI [of _ "b @ s # post"]) auto
  next
    assume ?R
    then obtain pre post s where h: "ss = pre @ Named x # post" "s \<in> set post" "reads x s" by blast
    then obtain a b where "post = a @ s # b" by (auto simp: in_set_conv_decomp)
    with h show ?L by (intro exI [of _ "pre @ Named x # a"] exI [of _ s] exI [of _ b]) auto
  qed
  finally show ?thesis by (auto simp: list_all_iff)
qed

theorem pending_exact_witness:
  "let q = new_options (sha1_algo (\<lambda>m. []))
   in zero_oid \<in> fst (pending_blobs (foldl run_step q [Read zero_oid None, Named zero_oid]))"
proof -
  let ?q = "new_options (sha1_algo (\<lambda>m. []))"
  have q: "zero_oid \<notin> skiplist ?q" "gitmodules_found ?q = {}" "gitmodules_done ?q = {}"
    by (simp_all add: new_options_def)
  show ?thesis
    unfolding Let_def pending_exact [OF q] by (auto simp: Cons_eq_append_conv)
qed

end
