(* ===== verification/TreeOrder.thy ===== *)
theory TreeOrder
  imports TreeObj
begin

text \<open>
  What the order check of a tree decides. A directory sorts as though its name ended in a slash
  (\<open>path_key\<close>); the check passes exactly the trees whose keys increase and whose names are all
  different, although it only ever compares neighbours and a stack of pending names.
\<close>

section \<open>Lexicographic order\<close>

lemma append_less_append [simp]: "xs @ ys < xs @ zs \<longleftrightarrow> ys < (zs :: bytes)"
  by (induction xs) auto

lemma less_append_same_length:
  "length xs = length ys \<Longrightarrow> xs < ys \<Longrightarrow> xs @ us < ys @ (vs :: bytes)"
  by (induction xs ys rule: list_induct2) auto

lemma less_between:
  "f < k \<Longrightarrow> k < f @ t \<Longrightarrow> \<exists>d s. k = f @ d # s \<and> d # s < (t :: bytes)"
proof (induction f arbitrary: k)
  case Nil
  then show ?case by (cases k) auto
next
  case (Cons x f)
  then show ?case by (cases k) auto
qed

lemma prefix_less: "f < f @ c # (r :: bytes)"
  by (induction f) auto

lemma bytes_ne_cases:
  fixes a b :: bytes
  assumes "a \<noteq> b"
  obtains (diff) "take (min (length a) (length b)) a \<noteq> take (min (length a) (length b)) b"
    | (left) c r where "b = a @ c # r"
    | (right) c r where "a = b @ c # r"
proof (cases "take (min (length a) (length b)) a = take (min (length a) (length b)) b")
  case True
  show ?thesis
  proof (cases "length a \<le> length b")
    case le: True
    with True have "a = take (length a) b" by (simp add: min_def)
    then have "b = a @ drop (length a) b" by (metis append_take_drop_id)
    with assms left show ?thesis by (cases "drop (length a) b") auto
  next
    case False
    with True have "b = take (length b) a" by (simp add: min_def)
    then have "a = b @ drop (length b) a" by (metis append_take_drop_id)
    with assms right show ?thesis by (cases "drop (length b) a") auto
  qed
qed (use diff in blast)

section \<open>Two neighbours\<close>

definition path_key :: "tree_entry \<Rightarrow> bytes" where
  "path_key e = te_name e @ (if is_dir e then [ascii CHR ''/''] else [])"

definition clean_name :: "bytes \<Rightarrow> bool" where
  "clean_name n \<longleftrightarrow> 0 \<notin> set n \<and> ascii CHR ''/'' \<notin> set n"

definition verify_entries :: "tree_entry \<Rightarrow> tree_entry \<Rightarrow> bytes list \<Rightarrow> tree_order \<times> bytes list" where
  "verify_entries p e cs = verify_ordered (te_mode p) (te_name p) (te_mode e) (te_name e) cs"

lemma verify_same: "te_name p = te_name e \<Longrightarrow> verify_entries p e cs = (TreeHasDups, cs)"
  using bytes_compare_zero [of "te_name e" "te_name e"]
  by (simp add: verify_entries_def verify_ordered_def byte_at0_def Let_def)

lemma verify_diff:
  assumes "take (min (length (te_name p)) (length (te_name e))) (te_name p) \<noteq>
      take (min (length (te_name p)) (length (te_name e))) (te_name e)" (is "?a \<noteq> ?b")
  shows "verify_entries p e cs =
    (if path_key p < path_key e then TreeOrdered else TreeUnordered, cs)"
proof -
  let ?l = "min (length (te_name p)) (length (te_name e))"
  have split: "path_key p = ?a @ drop ?l (te_name p) @ (if is_dir p then [47] else [])"
    "path_key e = ?b @ drop ?l (te_name e) @ (if is_dir e then [47] else [])"
    by (simp_all add: path_key_def flip: append_assoc)
  have len: "length ?a = length ?b" by simp
  have key: "?a < ?b \<Longrightarrow> path_key p < path_key e" "?b < ?a \<Longrightarrow> path_key e < path_key p"
    unfolding split by (rule less_append_same_length; simp)+
  show ?thesis
  proof (cases "?a < ?b")
    case True
    with key(1) bytes_compare_neg [of ?a ?b] show ?thesis
      by (simp add: verify_entries_def verify_ordered_def Let_def)
  next
    case False
    with assms have gt: "?b < ?a" by auto
    with key(2) have "\<not> path_key p < path_key e" by auto
    with gt False bytes_compare_neg [of ?a ?b] bytes_compare_pos [of ?a ?b] show ?thesis
      by (simp add: verify_entries_def verify_ordered_def Let_def)
  qed
qed

lemma verify_left:
  assumes "te_name e = te_name p @ c # r" and "clean_name (te_name e)"
  shows "verify_entries p e cs =
    (if path_key p < path_key e then TreeOrdered else TreeUnordered,
     if \<not> is_dir p \<and> is_less_than_slash c then te_name p # cs else cs)"
proof -
  from assms have c: "c \<noteq> 0" "c \<noteq> 47" by (auto simp: clean_name_def)
  have key: "path_key p < path_key e \<longleftrightarrow> (if is_dir p then 47 < c else True)"
    using c by (auto simp: path_key_def assms(1))
  have "0 < c" using c(1) by (simp add: word_neq_0_conv)
  with c key bytes_compare_zero [of "te_name p" "te_name p"] show ?thesis
    by (simp add: verify_entries_def verify_ordered_def byte_at0_def Let_def assms(1) is_dir_def
        is_less_than_slash_def)
qed

lemma verify_right:
  assumes "te_name p = te_name e @ c # r" and "clean_name (te_name p)"
  shows "verify_entries p e cs =
    (if is_dir e \<and> is_less_than_slash c
     then (let (dup, cs') = pop_candidates (te_name e) cs
           in (if dup then TreeHasDups else TreeOrdered, cs'))
     else (if path_key p < path_key e then TreeOrdered else TreeUnordered, cs))"
proof -
  from assms have c: "c \<noteq> 0" "c \<noteq> 47" by (auto simp: clean_name_def)
  have key: "path_key p < path_key e \<longleftrightarrow> (if is_dir e then c < 47 else False)"
    using c by (auto simp: path_key_def assms(1))
  have "0 < c" using c(1) by (simp add: word_neq_0_conv)
  with c key bytes_compare_zero [of "te_name e" "te_name e"] show ?thesis
    by (auto simp: verify_entries_def verify_ordered_def byte_at0_def Let_def assms(1) is_dir_def
        is_less_than_slash_def)
qed

section \<open>The stack of pending names\<close>

lemma pop_candidates_subset: "set (snd (pop_candidates n cs)) \<subseteq> set cs"
  by (induction n cs rule: pop_candidates.induct) (auto split: list.splits)

lemma pop_candidates_dup: "fst (pop_candidates n cs) \<Longrightarrow> n \<in> set cs"
proof (induction n cs rule: pop_candidates.induct)
  case (2 n f fs)
  then show ?case
    by (cases "drop (length f) n") (auto split: if_splits dest: take_all)
qed simp

lemma pop_candidates_sorted:
  "sorted_wrt (>) cs \<Longrightarrow> sorted_wrt (>) (snd (pop_candidates n cs))"
  by (induction n cs rule: pop_candidates.induct) (auto split: list.splits)

lemma pop_candidates_finds:
  "sorted_wrt (>) cs \<Longrightarrow> n \<in> set cs \<Longrightarrow> fst (pop_candidates n cs)"
proof (induction n cs rule: pop_candidates.induct)
  case (2 n f fs)
  show ?case
  proof (cases "f = n")
    case False
    with 2 have "n < f" by auto
    have "take (length f) n \<noteq> f \<or> length n < length f"
    proof (rule ccontr)
      assume "\<not> ?thesis"
      then have "n = f @ drop (length f) n" by (metis append_take_drop_id)
      with False have "f < n" by (cases "drop (length f) n") (auto simp: prefix_less)
      with \<open>n < f\<close> show False by simp
    qed
    with 2 False show ?thesis by auto
  qed simp
qed simp

lemma pop_candidates_keeps:
  "n \<in> set cs \<Longrightarrow> is_less_than_slash c \<Longrightarrow> \<not> fst (pop_candidates (n @ c # r) cs) \<Longrightarrow>
    n \<in> set (snd (pop_candidates (n @ c # r) cs))"
proof (induction cs)
  case (Cons f fs)
  then show ?case by (cases "n = f") (auto split: if_splits list.splits)
qed simp

section \<open>A run of the check\<close>

fun chain_ok :: "tree_entry \<Rightarrow> bytes list \<Rightarrow> tree_entry list \<Rightarrow> bool" where
  "chain_ok p cs [] = True"
| "chain_ok p cs (e # es) =
     (fst (verify_entries p e cs) = TreeOrdered \<and> chain_ok e (snd (verify_entries p e cs)) es)"

lemma dir_key: "is_dir e \<Longrightarrow> path_key e = te_name e @ [47]"
  and file_key: "\<not> is_dir e \<Longrightarrow> path_key e = te_name e"
  by (simp_all add: path_key_def)

text \<open>Between a name and one that extends it below the slash, every name extends it so too.\<close>

lemma between_extends:
  assumes "n < path_key p" and "path_key p < n @ t" and "clean_name (te_name p)"
    and "\<And>d s. d # s < t \<Longrightarrow> d < 47"
  obtains d s where "te_name p = n @ d # s" and "is_less_than_slash d"
proof -
  from less_between [OF assms(1,2)] obtain d s where k: "path_key p = n @ d # s" "d # s < t"
    by auto
  then have d: "d < 47" using assms(4) by blast
  obtain s' where s': "te_name p = n @ d # s'"
  proof (cases "is_dir p")
    case True
    with k d have "te_name p @ [47] = n @ d # s" by (simp add: dir_key)
    with d have "s \<noteq> []" by (metis append1_eq_conv order_less_irrefl)
    then obtain s1 x where "s = s1 @ [x]" by (metis rev_exhaust)
    with \<open>te_name p @ [47] = n @ d # s\<close> have "te_name p = n @ d # s1" by simp
    then show thesis by (rule that)
  next
    case False
    with k show thesis by (auto simp: file_key intro: that)
  qed
  with assms(3) have "d \<noteq> 0" by (auto simp: clean_name_def)
  with d that [OF s'] show thesis by (simp add: is_less_than_slash_def word_neq_0_conv)
qed

lemma cons_less_slash: "d # s < [47] \<Longrightarrow> d < (47 :: byte)"
  by auto

lemma cons_less_below: "is_less_than_slash c \<Longrightarrow> d # s < c # r \<Longrightarrow> d < 47"
  by (auto simp: is_less_than_slash_def)

text \<open>What the stack holds after the entry \<open>p\<close>, of which \<open>ps\<close> are the earlier ones.\<close>

definition pending_inv :: "tree_entry list \<Rightarrow> tree_entry \<Rightarrow> bytes list \<Rightarrow> bool" where
  "pending_inv ps p cs \<longleftrightarrow>
     sorted_wrt (<) (map path_key (ps @ [p])) \<and> distinct (map te_name (ps @ [p])) \<and>
     sorted_wrt (>) cs \<and> (\<forall>f \<in> set cs. f < path_key p) \<and>
     (\<forall>f \<in> set ps. \<not> is_dir f \<longrightarrow> (\<forall>c r. te_name p = te_name f @ c # r \<longrightarrow> is_less_than_slash c
        \<longrightarrow> te_name f \<in> set cs))"

lemma pending_invD:
  assumes "pending_inv ps p cs"
  shows "sorted_wrt (<) (map path_key (ps @ [p]))" "distinct (map te_name (ps @ [p]))"
    "sorted_wrt (>) cs" "\<And>f. f \<in> set cs \<Longrightarrow> f < path_key p"
    "\<And>f c r. f \<in> set ps \<Longrightarrow> \<not> is_dir f \<Longrightarrow> te_name p = te_name f @ c # r \<Longrightarrow>
       is_less_than_slash c \<Longrightarrow> te_name f \<in> set cs"
    "\<And>f. f \<in> set ps \<Longrightarrow> path_key f < path_key p"
  using assms by (auto simp: pending_inv_def sorted_wrt_append)

lemma verify_ordered_key:
  assumes "fst (verify_entries p e cs) = TreeOrdered"
    and "clean_name (te_name p)" "clean_name (te_name e)"
  shows "te_name p \<noteq> te_name e \<and> path_key p < path_key e"
proof -
  have ne: "te_name p \<noteq> te_name e" using assms(1) verify_same by force
  then have "path_key p < path_key e"
  proof (cases rule: bytes_ne_cases)
    case diff
    with assms(1) show ?thesis by (simp add: verify_diff split: if_splits)
  next
    case (left c r)
    with assms show ?thesis by (simp add: verify_left split: if_splits)
  next
    case (right c r)
    then show ?thesis
    proof (cases "is_dir e \<and> is_less_than_slash c")
      case True
      with right show ?thesis by (auto simp: path_key_def is_less_than_slash_def)
    next
      case False
      with assms right show ?thesis by (simp add: verify_right split: if_splits)
    qed
  qed
  with ne show ?thesis by simp
qed

text \<open>A step that finds its neighbours in order keeps the invariant and finds no earlier name.\<close>

lemma pending_file_on_stack:
  assumes inv: "pending_inv ps p cs" and clean: "clean_name (te_name p)"
    and f: "f \<in> set ps" "\<not> is_dir f" and key: "path_key p < te_name f @ t"
    and t: "\<And>d s. d # s < t \<Longrightarrow> d < 47"
  shows "te_name f \<in> set cs"
proof -
  have "te_name f < path_key p" using pending_invD(6) [OF inv f(1)] f(2) by (simp add: file_key)
  then obtain d s where "te_name p = te_name f @ d # s" "is_less_than_slash d"
    using t by (rule between_extends [OF _ key clean])
  with pending_invD(5) [OF inv f] show ?thesis by blast
qed

lemma verify_fresh:
  assumes inv: "pending_inv ps p cs" and ord: "fst (verify_entries p e cs) = TreeOrdered"
    and clean: "clean_name (te_name p)" "clean_name (te_name e)"
  shows "te_name e \<notin> te_name ` set (ps @ [p])"
proof
  have key: "path_key p < path_key e" and ne: "te_name p \<noteq> te_name e"
    using verify_ordered_key [OF ord clean] by auto
  assume "te_name e \<in> te_name ` set (ps @ [p])"
  with ne obtain f where f: "f \<in> set ps" "te_name f = te_name e" by auto
  from pending_invD(6) [OF inv f(1)] key have fe: "path_key f < path_key e" by simp
  with f(2) have kinds: "\<not> is_dir f" "is_dir e" by (auto simp: path_key_def split: if_splits)
  have "te_name f < path_key p" using pending_invD(6) [OF inv f(1)] kinds(1) by (simp add: file_key)
  moreover have "path_key p < te_name f @ [47]" using key kinds f(2) by (simp add: dir_key)
  ultimately have "te_name e < path_key p" "path_key p < te_name e @ [47]"
    by (simp_all add: f(2))
  then obtain d s where d: "te_name p = te_name e @ d # s" "is_less_than_slash d"
    using cons_less_slash by (rule between_extends [OF _ _ clean(1)])
  have "te_name e \<in> set cs"
    using pending_invD(5) [OF inv f(1) kinds(1)] d f(2) by simp
  then have "fst (pop_candidates (te_name e) cs)"
    by (rule pop_candidates_finds [OF pending_invD(3) [OF inv]])
  with ord d kinds(2) show False by (simp add: verify_right [OF d(1) clean(1)] split: prod.splits)
qed

lemma verify_stack:
  assumes inv: "pending_inv ps p cs" and ord: "fst (verify_entries p e cs) = TreeOrdered"
    and clean: "clean_name (te_name p)" "clean_name (te_name e)"
  shows "sorted_wrt (>) (snd (verify_entries p e cs))"
    and "set (snd (verify_entries p e cs)) \<subseteq> set cs \<union> {path_key p}"
    and "f \<in> set cs \<Longrightarrow> te_name e = f @ c # r \<Longrightarrow> is_less_than_slash c \<Longrightarrow>
      f \<in> set (snd (verify_entries p e cs))"
    and "\<not> is_dir p \<Longrightarrow> te_name e = te_name p @ c # r \<Longrightarrow> is_less_than_slash c \<Longrightarrow>
      te_name p \<in> set (snd (verify_entries p e cs))"
proof -
  have ne: "te_name p \<noteq> te_name e" using verify_ordered_key [OF ord clean] by simp
  note lt = pending_invD(3,4) [OF inv]
  have *: "sorted_wrt (>) (snd (verify_entries p e cs)) \<and>
    set (snd (verify_entries p e cs)) \<subseteq> set cs \<union> {path_key p} \<and>
    (f \<in> set cs \<longrightarrow> te_name e = f @ c # r \<longrightarrow> is_less_than_slash c \<longrightarrow>
      f \<in> set (snd (verify_entries p e cs))) \<and>
    (\<not> is_dir p \<longrightarrow> te_name e = te_name p @ c # r \<longrightarrow> is_less_than_slash c \<longrightarrow>
      te_name p \<in> set (snd (verify_entries p e cs)))"
    using ne
  proof (cases rule: bytes_ne_cases)
    case diff
    moreover from diff have "te_name e \<noteq> te_name p @ c # r" by auto
    ultimately show ?thesis using lt by (auto simp: verify_diff)
  next
    case (left c' r')
    with lt show ?thesis by (auto simp: verify_left [OF left clean(2)] file_key)
  next
    case (right c' r')
    have no: "te_name e \<noteq> te_name p @ c # r" using right by auto
    show ?thesis
    proof (cases "is_dir e \<and> is_less_than_slash c'")
      case True
      then have v: "verify_entries p e cs = (let (dup, cs') = pop_candidates (te_name e) cs
           in (if dup then TreeHasDups else TreeOrdered, cs'))"
        by (simp add: verify_right [OF right clean(1)])
      have snd: "snd (verify_entries p e cs) = snd (pop_candidates (te_name e) cs)"
        by (simp add: v split: prod.splits)
      have "\<not> fst (pop_candidates (te_name e) cs)"
        using ord by (auto simp: v split: prod.splits)
      with no lt pop_candidates_subset [of "te_name e" cs] pop_candidates_sorted [of cs "te_name e"]
        pop_candidates_keeps [of f cs c r]
      show ?thesis unfolding snd by auto
    next
      case False
      with no lt show ?thesis by (auto simp: verify_right [OF right clean(1)])
    qed
  qed
  then show "sorted_wrt (>) (snd (verify_entries p e cs))"
    and "set (snd (verify_entries p e cs)) \<subseteq> set cs \<union> {path_key p}"
    and "f \<in> set cs \<Longrightarrow> te_name e = f @ c # r \<Longrightarrow> is_less_than_slash c \<Longrightarrow>
      f \<in> set (snd (verify_entries p e cs))"
    and "\<not> is_dir p \<Longrightarrow> te_name e = te_name p @ c # r \<Longrightarrow> is_less_than_slash c \<Longrightarrow>
      te_name p \<in> set (snd (verify_entries p e cs))"
    by blast+
qed

lemma pending_inv_step:
  assumes inv: "pending_inv ps p cs" and ord: "fst (verify_entries p e cs) = TreeOrdered"
    and clean: "clean_name (te_name p)" "clean_name (te_name e)"
  shows "pending_inv (ps @ [p]) e (snd (verify_entries p e cs))"
proof -
  have key: "path_key p < path_key e" using verify_ordered_key [OF ord clean] by auto
  have sorted: "sorted_wrt (<) (map path_key ((ps @ [p]) @ [e]))"
    using pending_invD(1,6) [OF inv] key
    by (auto simp: sorted_wrt_append intro: order.strict_trans)
  have dist: "distinct (map te_name ((ps @ [p]) @ [e]))"
    using verify_fresh [OF inv ord clean] pending_invD(2) [OF inv] by auto
  have below: "f < path_key e" if "f \<in> set (snd (verify_entries p e cs))" for f
    using that verify_stack(2) [OF inv ord clean] pending_invD(4) [OF inv] key by fastforce
  have kept: "te_name f \<in> set (snd (verify_entries p e cs))"
    if f: "f \<in> set (ps @ [p])" "\<not> is_dir f" "te_name e = te_name f @ c # r" "is_less_than_slash c"
    for f c r
  proof (cases "f \<in> set ps")
    case True
    have "path_key e = te_name f @ c # (r @ (if is_dir e then [47] else []))"
      by (simp add: path_key_def f(3))
    with key have "path_key p < te_name f @ c # (r @ (if is_dir e then [47] else []))" by metis
    then have "te_name f \<in> set cs"
      by (rule pending_file_on_stack [OF inv clean(1) True f(2)]) (rule cons_less_below [OF f(4)])
    then show ?thesis by (rule verify_stack(3) [OF inv ord clean _ f(3,4)])
  next
    case False
    with f verify_stack(4) [OF inv ord clean] show ?thesis by auto
  qed
  show ?thesis
    unfolding pending_inv_def
    using sorted dist verify_stack(1) [OF inv ord clean] below kept by blast
qed

lemma chain_ok_sound:
  "chain_ok p cs es \<Longrightarrow> pending_inv ps p cs \<Longrightarrow> list_all (clean_name \<circ> te_name) (p # es) \<Longrightarrow>
    sorted_wrt (<) (map path_key (ps @ p # es)) \<and> distinct (map te_name (ps @ p # es))"
proof (induction p cs es arbitrary: ps rule: chain_ok.induct)
  case (1 p cs)
  then show ?case using pending_invD(1,2) by simp
next
  case (2 p cs e es)
  then have "pending_inv (ps @ [p]) e (snd (verify_entries p e cs))"
    by (intro pending_inv_step) auto
  with "2.IH" [of "ps @ [p]"] "2.prems" show ?case by simp
qed

lemma chain_ok_complete:
  "sorted_wrt (<) (map path_key (p # es)) \<Longrightarrow> distinct (map te_name (p # es)) \<Longrightarrow>
    list_all (clean_name \<circ> te_name) (p # es) \<Longrightarrow> set cs \<inter> te_name ` set (p # es) = {} \<Longrightarrow>
    chain_ok p cs es"
proof (induction p cs es rule: chain_ok.induct)
  case (2 p cs e es)
  have key: "path_key p < path_key e" and ne: "te_name p \<noteq> te_name e"
    and clean: "clean_name (te_name p)" "clean_name (te_name e)"
    using "2.prems" by auto
  have step: "fst (verify_entries p e cs) = TreeOrdered \<and>
      set (snd (verify_entries p e cs)) \<subseteq> insert (te_name p) (set cs)"
    using ne
  proof (cases rule: bytes_ne_cases)
    case diff
    with key show ?thesis by (auto simp: verify_diff)
  next
    case (left c r)
    with key show ?thesis by (auto simp: verify_left [OF left clean(2)])
  next
    case (right c r)
    have "te_name e \<notin> set cs" using "2.prems"(4) by auto
    then have "\<not> fst (pop_candidates (te_name e) cs)" using pop_candidates_dup by blast
    with key pop_candidates_subset [of "te_name e" cs] show ?thesis
      by (auto simp: verify_right [OF right clean(1)] split: prod.splits)
  qed
  have "(set cs \<union> {te_name p}) \<inter> te_name ` set (e # es) = {}"
    using "2.prems"(2,4) by auto
  with step have "set (snd (verify_entries p e cs)) \<inter> te_name ` set (e # es) = {}" by blast
  with "2.prems"(1-3) have "chain_ok e (snd (verify_entries p e cs)) es"
    by (intro "2.IH") auto
  with step show ?case by simp
qed simp

lemma chain_ok_iff:
  assumes "list_all (clean_name \<circ> te_name) (p # es)"
  shows "chain_ok p [] es \<longleftrightarrow>
    sorted_wrt (<) (map path_key (p # es)) \<and> distinct (map te_name (p # es))"
proof
  assume "chain_ok p [] es"
  with assms show "sorted_wrt (<) (map path_key (p # es)) \<and> distinct (map te_name (p # es))"
    using chain_ok_sound [of p "[]" es "[]"] by (simp add: pending_inv_def)
qed (use assms chain_ok_complete [of p es "[]"] in auto)

section \<open>The flags of the whole check\<close>

definition order_flags :: "tree_scan \<Rightarrow> bool" where
  "order_flags s \<longleftrightarrow> not_sorted s \<or> has_dup_entries s"

lemma scan_flags_order [simp]:
  "order_flags (scan_flags nf b m s e) = order_flags s"
  "candidates (scan_flags nf b m s e) = candidates s"
  "prev_entry (scan_flags nf b m s e) = prev_entry s"
  by (simp_all add: scan_flags_def order_flags_def Let_def)

lemma scan_order_next:
  "prev_entry (scan_order s e) = Some e"
  "prev_entry s = Some p \<Longrightarrow> candidates (scan_order s e) = snd (verify_entries p e (candidates s))"
  "prev_entry s = Some p \<Longrightarrow> order_flags (scan_order s e) \<longleftrightarrow>
     order_flags s \<or> fst (verify_entries p e (candidates s)) \<noteq> TreeOrdered"
  "prev_entry s = None \<Longrightarrow> candidates (scan_order s e) = candidates s"
  "prev_entry s = None \<Longrightarrow> order_flags (scan_order s e) = order_flags s"
  by (auto simp: scan_order_def order_flags_def verify_entries_def
      split: option.splits prod.splits tree_order.splits)

lemma tree_step_fst: "fst (tree_step nf x e st) =
    scan_order (scan_flags nf (strict (fst (snd st))) (max_tree_entry_len (fst (snd st))) (fst st) e) e"
  by (simp add: tree_step_def split: prod.splits)

lemma tree_fold_order:
  "prev_entry (fst st) = Some p \<Longrightarrow>
    order_flags (fst (fold (tree_step nf x) es st)) \<longleftrightarrow>
      order_flags (fst st) \<or> \<not> chain_ok p (candidates (fst st)) es"
proof (induction es arbitrary: p st)
  case (Cons e es)
  have "prev_entry (fst (tree_step nf x e st)) = Some e"
    by (simp add: tree_step_fst scan_order_next)
  with Cons show ?case
    by (simp add: tree_step_fst scan_order_next)
qed simp

text \<open>
  C16: the order flags of a tree check. For names as the parser can deliver them and without a
  slash, the one pass over neighbours, with its stack of pending names, ends with both flags
  clear exactly when the names sort strictly in path order (a directory as though its name
  ended in a slash) and no two entries, adjacent or not, share a name.
\<close>

theorem tree_order_exact:
  assumes "list_all (clean_name \<circ> te_name) es"
  shows "(let (s, _) = fold (tree_step nf x) es (init_scan, q, 0)
          in \<not> not_sorted s \<and> \<not> has_dup_entries s) \<longleftrightarrow>
    sorted_wrt (<) (map path_key es) \<and> distinct (map te_name es)"
proof -
  have "(\<not> order_flags (fst (fold (tree_step nf x) es (init_scan, q, 0)))) \<longleftrightarrow>
    sorted_wrt (<) (map path_key es) \<and> distinct (map te_name es)"
  proof (cases es)
    case Nil
    then show ?thesis by (simp add: order_flags_def init_scan_def)
  next
    case (Cons p es')
    have "prev_entry (fst (tree_step nf x p (init_scan, q, 0))) = Some p"
      by (simp add: tree_step_fst scan_order_next)
    then have "order_flags (fst (fold (tree_step nf x) es (init_scan, q, 0))) \<longleftrightarrow>
        order_flags init_scan \<or> \<not> chain_ok p (candidates init_scan) es'"
      using tree_fold_order [of "tree_step nf x p (init_scan, q, 0)" p nf x es']
      by (simp add: Cons tree_step_fst scan_order_next init_scan_def)
    also have "\<dots> \<longleftrightarrow> \<not> chain_ok p [] es'" by (simp add: init_scan_def order_flags_def)
    finally show ?thesis using chain_ok_iff [of p es'] assms unfolding Cons by blast
  qed
  then show ?thesis by (simp add: order_flags_def case_prod_beta)
qed

text \<open>The file and the directory of one name, with a name between them, are found.\<close>

theorem tree_order_exact_witness:
  "let f = \<lparr>te_mode = 0x81A4, te_name = str ''foo'', te_oid = zero_oid, te_raw = str ''100644''\<rparr>;
       g = f\<lparr>te_name := str ''foo.bar''\<rparr>;
       d = f\<lparr>te_mode := 0x4000, te_raw := str ''40000''\<rparr>;
       nf = \<lparr>nf_is_normal = is_ascii, nf_bytes = (\<lambda>s. s)\<rparr>;
       q = new_options (sha1_algo (\<lambda>m. replicate 20 0));
       flags = (\<lambda>es. let (s, _) = fold (tree_step nf zero_oid) es (init_scan, q, 0)
                    in \<not> not_sorted s \<and> \<not> has_dup_entries s)
   in \<not> flags [f, g, d] \<and> flags [f, g]"
proof -
  let ?nf = "\<lparr>nf_is_normal = is_ascii, nf_bytes = (\<lambda>s. s)\<rparr>"
  let ?q = "new_options (sha1_algo (\<lambda>m. replicate 20 0))"
  let ?f = "\<lparr>te_mode = 0x81A4, te_name = str ''foo'', te_oid = zero_oid, te_raw = str ''100644''\<rparr>"
  let ?g = "?f\<lparr>te_name := str ''foo.bar''\<rparr>"
  let ?d = "?f\<lparr>te_mode := 0x4000, te_raw := str ''40000''\<rparr>"
  have clean: "list_all (clean_name \<circ> te_name) [?f, ?g, ?d]"
    "list_all (clean_name \<circ> te_name) [?f, ?g]"
    by (simp_all add: clean_name_def)
  show ?thesis
    using tree_order_exact [OF clean(1), of ?nf zero_oid ?q]
      tree_order_exact [OF clean(2), of ?nf zero_oid ?q]
    by (simp add: Let_def path_key_def is_dir_def mode_mask_def mode_dir_def)
qed

end
