(* ===== verification/Pack.thy ===== *)
theory Pack
  imports Search GitObj
begin

text \<open>
  Packfiles and their indexes: \<open>internal/odb/pack.go\<close>. A mapped file is its bytes. Offsets are
  Go's \<open>int64\<close>, modelled as \<open>int\<close> where the code compares them and as 64-bit words where it
  computes with bits. A read outside a slice is a panic in Go; the index lemmas show the reads of a
  parsed index stay inside.
\<close>

section \<open>The index file\<close>

definition idx_magic :: bytes where
  "idx_magic = [0xFF, 116, 79, 99]"

definition fanout_size :: nat where
  "fanout_size = 256 * 4"

record pack =
  pk_algo :: algo
  pk_num :: nat
  pk_ver :: nat
  pk_idx :: bytes
  pk_data :: bytes
  oid_table :: nat
  crc_table :: nat
  off_table :: nat
  big_off_table :: nat

datatype idx_error = IdxTooSmall | IdxVersion nat | NonMonotonic | IdxV1Size | IdxV2Size

definition be32_at :: "bytes \<Rightarrow> nat \<Rightarrow> nat" where
  "be32_at b i = be32 (drop i b)"

definition be64_at :: "bytes \<Rightarrow> nat \<Rightarrow> nat" where
  "be64_at b i = be64 (drop i b)"

definition monotone_fanout :: "bytes \<Rightarrow> bool" where
  "monotone_fanout f \<longleftrightarrow> list_all (\<lambda>i. be32_at f ((i - 1) * 4) \<le> be32_at f (i * 4)) [1..<256]"

definition empty_pack :: "algo \<Rightarrow> bytes \<Rightarrow> bytes \<Rightarrow> pack" where
  "empty_pack a idx data = \<lparr>pk_algo = a, pk_num = 0, pk_ver = 0, pk_idx = idx, pk_data = data,
     oid_table = 0, crc_table = 0, off_table = 0, big_off_table = 0\<rparr>"

definition parse_idx :: "pack \<Rightarrow> idx_error + pack" where
  "parse_idx p =
     (let rawsz = raw_size (pk_algo p); idx = pk_idx p in
      if length idx < 4 + fanout_size + 2 * rawsz then Inl IdxTooSmall
      else
        let v2 = take 4 idx = idx_magic in
        if v2 \<and> be32_at idx 4 \<noteq> 2 then Inl (IdxVersion (be32_at idx 4))
        else
          let base = (if v2 then 8 else 0); ver = (if v2 then 2 else 1);
              fanout = take fanout_size (drop base idx);
              n = be32_at fanout (255 * 4)
          in if \<not> monotone_fanout fanout then Inl NonMonotonic
             else
               let q = p\<lparr>pk_num := n, pk_ver := ver, oid_table := base + fanout_size\<rparr> in
               if ver = 1 then
                 (if length idx < oid_table q + n * (4 + rawsz) + 2 * rawsz then Inl IdxV1Size else Inr q)
               else
                 let crc = oid_table q + n * rawsz; off = crc + n * 4; big = off + n * 4
                 in if length idx < big + 2 * rawsz then Inl IdxV2Size
                    else Inr (q\<lparr>crc_table := crc, off_table := off, big_off_table := big\<rparr>))"

definition oid_at :: "pack \<Rightarrow> nat \<Rightarrow> oid" where
  "oid_at p i =
     (if pk_ver p = 1 then
        from_raw (pk_algo p) (drop (oid_table p + i * (4 + raw_size (pk_algo p)) + 4) (pk_idx p))
      else from_raw (pk_algo p) (drop (oid_table p + i * raw_size (pk_algo p)) (pk_idx p)))"

definition to_int64 :: "nat \<Rightarrow> int" where
  "to_int64 n = (if n < 2 ^ 63 then int n else int n - 2 ^ 64)"

definition offset_at :: "pack \<Rightarrow> nat \<Rightarrow> int" where
  "offset_at p i =
     (if pk_ver p = 1 then int (be32_at (pk_idx p) (oid_table p + i * (4 + raw_size (pk_algo p))))
      else
        let v = be32_at (pk_idx p) (off_table p + i * 4) in
        if v < 0x80000000 then int v
        else
          let off = big_off_table p + (v - 0x80000000) * 8 in
          if length (pk_idx p) < off + 8 then -1
          else to_int64 (be64_at (pk_idx p) off))"

definition crc_at :: "pack \<Rightarrow> nat \<Rightarrow> nat" where
  "crc_at p i = be32_at (pk_idx p) (crc_table p + i * 4)"

definition fanout_base :: "pack \<Rightarrow> nat" where
  "fanout_base p = (if pk_ver p = 2 then 8 else 0)"

definition fanout_at :: "pack \<Rightarrow> nat \<Rightarrow> nat" where
  "fanout_at p b = be32_at (drop (fanout_base p) (pk_idx p)) (b * 4)"

definition find :: "pack \<Rightarrow> oid \<Rightarrow> nat option" where
  "find p x =
     (if pk_num p = 0 then None
      else
        let b = unat (oid_h x ! 0);
            lo = (if 0 < b then fanout_at p (b - 1) else 0);
            hi = fanout_at p b
        in find_loop (\<lambda>m. oid_compare (oid_at p m) x) lo hi)"

section \<open>Entry headers\<close>

record obj_header =
  oh_type :: obj_type
  oh_size :: int
  oh_data :: int
  oh_base_off :: int
  oh_base_oid :: oid

datatype header_error =
    OutsidePack int | PastEnd | MalformedHeader int | BadDeltaBase int | TruncatedBase int
  | UnknownType obj_type int

definition trailer_offset :: "pack \<Rightarrow> int" where
  "trailer_offset p = int (length (pk_data p)) - int (raw_size (pk_algo p))"

definition byte_at :: "pack \<Rightarrow> int \<Rightarrow> byte option" where
  "byte_at p off =
     (if off < 0 \<or> int (length (pk_data p)) \<le> off then None else Some (pk_data p ! nat off))"

text \<open>The loops over continuation bytes: \<open>c\<close> is the byte just read, \<open>pos\<close> the next position.\<close>

function size_loop ::
    "pack \<Rightarrow> int \<Rightarrow> byte \<Rightarrow> int \<Rightarrow> 64 word \<Rightarrow> nat \<Rightarrow> header_error + (64 word \<times> int)" where
  "size_loop p off c pos sz shift =
     (if c AND 0x80 = 0 then Inr (sz, pos)
      else (case byte_at p pos of
          None \<Rightarrow> Inl PastEnd
        | Some c' \<Rightarrow>
            if 63 < shift + 7 then Inl (MalformedHeader off)
            else size_loop p off c' (pos + 1) (sz OR push_bit shift (ucast (c' AND 0x7F))) (shift + 7)))"
  by pat_completeness auto
termination
  by (relation "measure (\<lambda>(p, off, c, pos, sz, shift). 64 - shift)") auto

function ofs_loop :: "pack \<Rightarrow> int \<Rightarrow> byte \<Rightarrow> int \<Rightarrow> 64 word \<Rightarrow> header_error + (64 word \<times> int)" where
  "ofs_loop p at c pos d =
     (if c AND 0x80 = 0 then Inr (d, pos)
      else if sint (d + 1) \<le> 0 \<or> (d + 1) AND NOT (mask 57) \<noteq> 0 then Inl (BadDeltaBase at)
      else (case byte_at p pos of
          None \<Rightarrow> Inl PastEnd
        | Some c' \<Rightarrow> ofs_loop p at c' (pos + 1) (push_bit 7 (d + 1) OR ucast (c' AND 0x7F))))"
  by pat_completeness auto
termination
  by (relation "measure (\<lambda>(p, at, c, pos, d). nat (int (length (pk_data p)) - pos))")
    (auto simp: byte_at_def split: if_splits)

declare size_loop.simps [simp del] ofs_loop.simps [simp del]

definition read_ofs :: "pack \<Rightarrow> int \<Rightarrow> obj_header \<Rightarrow> int \<Rightarrow> header_error + obj_header" where
  "read_ofs p off h pos =
     (case byte_at p pos of
        None \<Rightarrow> Inl PastEnd
      | Some c \<Rightarrow>
          (case ofs_loop p pos c (pos + 1) (ucast (c AND 0x7F)) of
             Inl e \<Rightarrow> Inl e
           | Inr (d, pos') \<Rightarrow>
               let base = sint (word_of_int off - d) in
               if base \<le> 0 \<or> off \<le> base then Inl (BadDeltaBase pos)
               else Inr (h\<lparr>oh_base_off := base, oh_data := pos'\<rparr>)))"

text \<open>What follows the size, by type; \<open>pos\<close> is the position after it.\<close>

definition read_kind :: "pack \<Rightarrow> int \<Rightarrow> obj_header \<Rightarrow> int \<Rightarrow> header_error + obj_header" where
  "read_kind p off h pos =
     (if oh_type h = TypeOfsDelta then read_ofs p off h pos
      else if oh_type h = TypeRefDelta then
        (if trailer_offset p < pos + int (raw_size (pk_algo p)) then Inl (TruncatedBase off)
         else Inr (h\<lparr>oh_base_oid := from_raw (pk_algo p) (drop (nat pos) (pk_data p)),
                     oh_data := pos + int (raw_size (pk_algo p))\<rparr>))
      else if oh_type h \<in> {TypeCommit, TypeTree, TypeBlob, TypeTag} then Inr (h\<lparr>oh_data := pos\<rparr>)
      else Inl (UnknownType (oh_type h) off))"

definition read_header :: "pack \<Rightarrow> int \<Rightarrow> header_error + obj_header" where
  "read_header p off =
     (if off < 12 \<or> trailer_offset p \<le> off then Inl (OutsidePack off)
      else (case byte_at p off of
          None \<Rightarrow> Inl PastEnd
        | Some c \<Rightarrow>
            (case size_loop p off c (off + 1) (ucast (c AND 15)) 4 of
               Inl e \<Rightarrow> Inl e
             | Inr (sz, pos) \<Rightarrow>
                 read_kind p off
                   \<lparr>oh_type = int (unat (drop_bit 4 c AND 7)), oh_size = sint sz, oh_data = 0,
                    oh_base_off = 0, oh_base_oid = zero_oid\<rparr> pos)))"

definition max_header :: int where
  "max_header = 1 + 9 + int max_raw_size"

end
