(* ===== verification/PackIndex.thy ===== *)
theory PackIndex
  imports Pack
begin

text \<open>
  What the index reader guarantees. Every read of a parsed index stays inside the file; and an
  index written in the format git's documentation gives, over any strictly sorted table of names,
  parses, gives every column back and lets \<open>Pack.Find\<close> find exactly the names in the table.
\<close>

section \<open>Reads stay inside\<close>

lemma monotone_fanout_le:
  assumes "monotone_fanout f" and "i \<le> j" and "j < 256"
  shows "be32_at f (i * 4) \<le> be32_at f (j * 4)"
  using assms(2,3)
proof (induction j)
  case 0
  then show ?case by simp
next
  case (Suc j)
  show ?case
  proof (cases "i = Suc j")
    case False
    then have "be32_at f (i * 4) \<le> be32_at f (j * 4)" using Suc by simp
    moreover have "be32_at f ((Suc j - 1) * 4) \<le> be32_at f (Suc j * 4)"
      using assms(1) Suc.prems unfolding monotone_fanout_def list_all_iff
      by (metis atLeastLessThan_iff le_add1 plus_1_eq_Suc set_upt)
    ultimately show ?thesis by simp
  qed simp
qed

lemma parse_idx_v1:
  assumes "parse_idx p = Inr q" and "pk_ver q = 1"
  shows "oid_table q + pk_num q * (4 + raw_size (pk_algo q)) + 2 * raw_size (pk_algo q) \<le> length (pk_idx q)"
  using assms by (auto simp: parse_idx_def Let_def split: if_splits)

lemma parse_idx_v2:
  assumes "parse_idx p = Inr q" and "pk_ver q \<noteq> 1"
  shows "crc_table q = oid_table q + pk_num q * raw_size (pk_algo q) \<and>
    off_table q = crc_table q + pk_num q * 4 \<and> big_off_table q = off_table q + pk_num q * 4 \<and>
    big_off_table q + 2 * raw_size (pk_algo q) \<le> length (pk_idx q)"
  using assms by (auto simp: parse_idx_def Let_def split: if_splits)

lemma parse_idx_frame:
  assumes "parse_idx p = Inr q"
  shows "pk_algo q = pk_algo p \<and> pk_idx q = pk_idx p \<and> pk_data q = pk_data p \<and> pk_ver q \<in> {1, 2} \<and>
    oid_table q = fanout_base q + fanout_size \<and>
    fanout_base q + fanout_size \<le> length (pk_idx q) \<and>
    monotone_fanout (take fanout_size (drop (fanout_base q) (pk_idx q))) \<and>
    pk_num q = be32_at (take fanout_size (drop (fanout_base q) (pk_idx q))) (255 * 4)"
  using assms by (auto simp: parse_idx_def Let_def fanout_base_def fanout_size_def split: if_splits)

lemma parse_idx_fanout:
  assumes "parse_idx p = Inr q" and "b < 256"
  shows "fanout_at q b \<le> pk_num q"
proof -
  let ?f = "take fanout_size (drop (fanout_base q) (pk_idx q))"
  have eq: "fanout_at q c = be32_at ?f (c * 4)" if "c < 256" for c
    using that unfolding fanout_at_def be32_at_def be32_def fanout_size_def drop_take take_take
    by simp
  have "monotone_fanout ?f" "pk_num q = be32_at ?f (255 * 4)"
    using parse_idx_frame [OF assms(1)] by auto
  with monotone_fanout_le [OF this(1), of b 255] assms(2) eq show ?thesis by simp
qed

lemma be64_lt: "be64 b < 2 ^ 64"
  using be_val_lt [of "take 8 b"] power_increasing [of "length (take 8 b)" 8 "256 :: nat"]
  by (simp add: be64_def)

lemma to_int64_bound: "n < 2 ^ 64 \<Longrightarrow> - (2 ^ 63) \<le> to_int64 n \<and> to_int64 n < 2 ^ 63"
  by (auto simp: to_int64_def)

lemma be32_int_bound: "be32 b < 2 ^ 63"
  by (rule order.strict_trans [OF be32_lt]) simp

lemma row_fits:
  fixes i n w :: nat
  assumes "i < n"
  shows "i * w + w \<le> n * w"
  using assms mult_le_mono1 [of "Suc i" n w] by simp

text \<open>
  Once \<open>parseIdx\<close> has accepted an index, every position below \<open>Num\<close> has its name, its CRC and
  its offset inside the file, the names are complete object names, and both ends of the range
  \<open>Find\<close> searches are at most \<open>Num\<close>: no accepted index can make a read fail.
\<close>

theorem index_reads_in_bounds:
  assumes "parse_idx p = Inr q" and "i < pk_num q"
  shows "wf_oid (pk_algo p) (oid_at q i) \<and>
    (if pk_ver q = 1 then oid_table q + i * (4 + raw_size (pk_algo q)) + 4 \<le> length (pk_idx q)
     else crc_table q + i * 4 + 4 \<le> length (pk_idx q) \<and> off_table q + i * 4 + 4 \<le> length (pk_idx q)) \<and>
    - (2 ^ 63) \<le> offset_at q i \<and> offset_at q i < 2 ^ 63 \<and>
    (\<forall>b. fanout_at q (unat (b :: byte)) \<le> pk_num q)"
proof -
  let ?r = "raw_size (pk_algo q)"
  note fr = parse_idx_frame [OF assms(1)]
  have off: "- (2 ^ 63) \<le> offset_at q i \<and> offset_at q i < 2 ^ 63"
    unfolding offset_at_def Let_def be32_at_def be64_at_def
    using be32_int_bound to_int64_bound [OF be64_lt] by simp
  have fan: "\<forall>b. fanout_at q (unat (b :: byte)) \<le> pk_num q"
    using parse_idx_fanout [OF assms(1)] by simp
  show ?thesis
  proof (cases "pk_ver q = 1")
    case True
    have "i * (4 + ?r) + (4 + ?r) \<le> pk_num q * (4 + ?r)" by (rule row_fits [OF assms(2)])
    with parse_idx_v1 [OF assms(1) True]
    have *: "oid_table q + i * (4 + ?r) + 4 + ?r \<le> length (pk_idx q)" by linarith
    then have "wf_oid (pk_algo q) (oid_at q i)"
      using True by (auto simp: oid_at_def intro!: wf_from_raw)
    with * True off fan fr show ?thesis by simp
  next
    case False
    have "i * ?r + ?r \<le> pk_num q * ?r" "i * 4 + 4 \<le> pk_num q * 4"
      using row_fits [OF assms(2)] by blast+
    with parse_idx_v2 [OF assms(1) False]
    have *: "oid_table q + i * ?r + ?r \<le> length (pk_idx q)"
      "crc_table q + i * 4 + 4 \<le> length (pk_idx q)" "off_table q + i * 4 + 4 \<le> length (pk_idx q)"
      by linarith+
    then have "wf_oid (pk_algo q) (oid_at q i)"
      using False by (auto simp: oid_at_def intro!: wf_from_raw)
    with * False off fan fr show ?thesis by simp
  qed
qed

section \<open>The reference index\<close>

record idx_entry =
  ie_name :: bytes
  ie_crc :: nat
  ie_off :: nat

text \<open>The two offset tables: a large offset is replaced by its rank among the large ones.\<close>

fun off_words :: "nat \<Rightarrow> nat list \<Rightarrow> nat list" where
  "off_words k [] = []"
| "off_words k (x # xs) =
     (if x < 2 ^ 31 then x # off_words k xs else (2 ^ 31 + k) # off_words (Suc k) xs)"

definition big_offs :: "nat list \<Rightarrow> nat list" where
  "big_offs xs = filter (\<lambda>x. 2 ^ 31 \<le> x) xs"

definition fan_count :: "idx_entry list \<Rightarrow> nat \<Rightarrow> nat" where
  "fan_count es b = length (filter (\<lambda>e. unat (hd (ie_name e)) \<le> b) es)"

definition write_idx :: "idx_entry list \<Rightarrow> bytes \<Rightarrow> bytes" where
  "write_idx es tr =
     idx_magic @ enc_be 4 2 @ concat (map (\<lambda>b. enc_be 4 (fan_count es b)) [0..<256]) @
     concat (map ie_name es) @ concat (map (\<lambda>e. enc_be 4 (ie_crc e)) es) @
     concat (map (enc_be 4) (off_words 0 (map ie_off es))) @
     concat (map (enc_be 8) (big_offs (map ie_off es))) @ tr"

definition ok_entries :: "algo \<Rightarrow> idx_entry list \<Rightarrow> bool" where
  "ok_entries a es \<longleftrightarrow> length es < 2 ^ 31 \<and>
     list_all (\<lambda>e. length (ie_name e) = raw_size a \<and> ie_crc e < 2 ^ 32 \<and> ie_off e < 2 ^ 63) es"

lemma drop_table:
  "\<forall>x \<in> set xs. length (f x) = w \<Longrightarrow> drop (i * w) (concat (map f xs)) = concat (map f (drop i xs))"
proof (induction xs arbitrary: i)
  case (Cons x xs)
  then show ?case by (cases i) simp_all
qed simp

lemma length_table: "\<forall>x \<in> set xs. length (f x) = w \<Longrightarrow> length (concat (map f xs)) = length xs * w"
  by (induction xs) simp_all

lemma read_table:
  assumes "\<forall>x \<in> set xs. length (f x) = w" and "i < length xs" and "b = pre @ concat (map f xs) @ post"
    and "n = length pre + i * w"
  shows "\<exists>r. drop n b = f (xs ! i) @ r"
proof -
  have "i * w \<le> length (concat (map f xs))"
    using assms(2) by (simp add: length_table [OF assms(1)])
  moreover have "drop i xs = xs ! i # drop (Suc i) xs"
    using assms(2) by (simp add: Cons_nth_drop_Suc)
  ultimately show ?thesis
    using assms(3,4) by (simp add: drop_table [OF assms(1)])
qed

lemma read_be32:
  assumes "\<forall>x \<in> set xs. g x < 2 ^ 32" and "i < length xs"
    and "b = pre @ concat (map (\<lambda>x. enc_be 4 (g x)) xs) @ post" and "n = length pre + i * 4"
  shows "be32_at b n = g (xs ! i)"
proof -
  obtain r where "drop n b = enc_be 4 (g (xs ! i)) @ r"
    using read_table [OF _ assms(2,3,4)] by auto
  moreover have "g (xs ! i) < 2 ^ 32" using assms(1,2) nth_mem by blast
  ultimately show ?thesis unfolding be32_at_def by (simp only: be32_enc_be)
qed

lemma length_off_words [simp]: "length (off_words k xs) = length xs"
  by (induction k xs rule: off_words.induct) simp_all

lemma off_words_bound:
  "k + length xs < 2 ^ 31 \<Longrightarrow> x \<in> set (off_words k xs) \<Longrightarrow> x < 2 ^ 32"
  by (induction k xs rule: off_words.induct) (auto split: if_splits)

lemma off_words_nth:
  "i < length xs \<Longrightarrow>
     off_words k xs ! i = (if xs ! i < 2 ^ 31 then xs ! i else 2 ^ 31 + k + length (big_offs (take i xs)))"
proof (induction k xs arbitrary: i rule: off_words.induct)
  case (2 k x xs)
  then show ?case by (cases i) (auto simp: big_offs_def)
qed simp

lemma big_offs_nth:
  assumes "i < length xs" and "2 ^ 31 \<le> xs ! i"
  shows "length (big_offs (take i xs)) < length (big_offs xs) \<and>
    big_offs xs ! length (big_offs (take i xs)) = xs ! i"
proof -
  have "xs = take i xs @ xs ! i # drop (Suc i) xs" using assms(1) by (simp add: id_take_nth_drop)
  then have "big_offs xs = big_offs (take i xs) @ xs ! i # big_offs (drop (Suc i) xs)"
    using assms(2) unfolding big_offs_def by (metis filter.simps(2) filter_append)
  then show ?thesis by simp
qed


section \<open>Finding a name\<close>

text \<open>What a well-made index adds to a parsed one: names in strict order, and a fan-out that counts them.\<close>

definition first_byte :: "pack \<Rightarrow> nat \<Rightarrow> nat" where
  "first_byte q i = unat (hd (oid_h (oid_at q i)))"

definition sorted_idx :: "pack \<Rightarrow> bool" where
  "sorted_idx q \<longleftrightarrow> sorted_wrt (<) (map (\<lambda>i. oid_h (oid_at q i)) [0..<pk_num q]) \<and>
     list_all (\<lambda>b. fanout_at q b = length (filter (\<lambda>i. first_byte q i \<le> b) [0..<pk_num q])) [0..<256]"

lemma mono_count:
  fixes f :: "nat \<Rightarrow> nat"
  assumes "\<And>i j. i \<le> j \<Longrightarrow> j < n \<Longrightarrow> f i \<le> f j"
  shows "m < length (filter (\<lambda>i. f i \<le> b) [0..<n]) \<longleftrightarrow> m < n \<and> f m \<le> b"
  using assms
proof (induction n)
  case (Suc n)
  have IH: "m < length (filter (\<lambda>i. f i \<le> b) [0..<n]) \<longleftrightarrow> m < n \<and> f m \<le> b"
    by (rule Suc.IH) (use Suc.prems in auto)
  show ?case
  proof (cases "f n \<le> b")
    case True
    then have "filter (\<lambda>i. f i \<le> b) [0..<n] = [0..<n]"
      using order.trans [OF Suc.prems [OF less_imp_le lessI]] by (intro filter_True) auto
    moreover have "f m \<le> b" if "m < Suc n"
      using order.trans [OF Suc.prems [of m n] True] that by simp
    ultimately show ?thesis using True by (auto simp: less_Suc_eq)
  next
    case False
    with IH show ?thesis by (auto simp: less_Suc_eq)
  qed
qed simp

lemma length_oid_at [simp]: "length (oid_h (oid_at q i)) = 32"
  by (simp add: oid_at_def from_raw_def)

lemma hd_mono:
  assumes "(xs :: bytes) < ys" and "xs \<noteq> []" and "ys \<noteq> []"
  shows "unat (hd xs) \<le> unat (hd ys)"
  using assms by (cases xs; cases ys) (auto simp: word_le_nat_alt word_less_nat_alt)

lemma first_byte_mono:
  assumes "sorted_idx q" and "i \<le> j" and "j < pk_num q"
  shows "first_byte q i \<le> first_byte q j"
proof (cases "i = j")
  case False
  with assms have "oid_h (oid_at q i) < oid_h (oid_at q j)"
    by (auto simp: sorted_idx_def sorted_wrt_iff_nth_less)
  then show ?thesis
    unfolding first_byte_def by (rule hd_mono) (metis length_oid_at list.size(3) zero_neq_numeral)+
qed simp

lemma find_iff:
  assumes "parse_idx p = Inr q" and "sorted_idx q" and "length (oid_h x) = 32"
  shows "find q x = Some m \<longleftrightarrow> m < pk_num q \<and> oid_h (oid_at q m) = oid_h x"
proof (cases "pk_num q = 0")
  case True
  then show ?thesis by (simp add: find_def)
next
  case False
  let ?b = "unat (oid_h x ! 0)"
  have x0: "hd (oid_h x) = oid_h x ! 0" using assms(3) by (metis hd_conv_nth list.size(3) zero_neq_numeral)
  have fan: "k < fanout_at q c \<longleftrightarrow> k < pk_num q \<and> first_byte q k \<le> c" if "c < 256" for c k
    using assms(2) that mono_count [of "pk_num q" "first_byte q" k c] first_byte_mono [OF assms(2)]
    by (auto simp: sorted_idx_def list_all_iff)
  define lo where "lo = (if 0 < ?b then fanout_at q (?b - 1) else 0)"
  have lt: "?b < 256" by simp
  have lo: "lo \<le> k \<longleftrightarrow> \<not> k < pk_num q \<or> ?b \<le> first_byte q k" for k
  proof (cases ?b)
    case (Suc c)
    then have "c < 256" using lt by simp
    with fan [of c k] Suc show ?thesis by (auto simp: lo_def not_less)
  qed (simp add: lo_def)
  have "find q x = Some m \<longleftrightarrow> lo \<le> m \<and> m < fanout_at q ?b \<and> oid_h (oid_at q m) = oid_h x"
    using False oid_order.find_loop_iff [of "oid_at q" "pk_num q" "fanout_at q ?b" x lo m]
      assms(2) parse_idx_fanout [OF assms(1) lt]
    by (simp add: find_def sorted_idx_def lo_def Let_def)
  also have "\<dots> \<longleftrightarrow> m < pk_num q \<and> oid_h (oid_at q m) = oid_h x"
    using lo [of m] fan [OF lt, of m] x0 by (auto simp: first_byte_def)
  finally show ?thesis .
qed


section \<open>The round trip\<close>

lemma length_fan_table: "length (concat (map (\<lambda>b. enc_be 4 (fan_count es b)) [0..<n])) = n * 4"
  using length_table [of "[0..<n]" "\<lambda>b. enc_be 4 (fan_count es b)" 4] by simp

lemma fan_count_le: "fan_count es b \<le> length es"
  by (simp add: fan_count_def)

lemma fan_count_mono: "b \<le> c \<Longrightarrow> fan_count es b \<le> fan_count es c"
  unfolding fan_count_def by (induction es) auto

lemma fan_count_all: "fan_count es 255 = length es"
  by (simp add: fan_count_def)


definition ref_pack :: "algo \<Rightarrow> idx_entry list \<Rightarrow> bytes \<Rightarrow> bytes \<Rightarrow> pack" where
  "ref_pack a es tr data =
     (let n = length es; ot = 8 + fanout_size; ct = ot + n * raw_size a in
      \<lparr>pk_algo = a, pk_num = n, pk_ver = 2, pk_idx = write_idx es tr, pk_data = data, oid_table = ot,
       crc_table = ct, off_table = ct + n * 4, big_off_table = ct + n * 4 + n * 4\<rparr>)"

lemma ok_entriesD:
  assumes "ok_entries a es"
  shows "length es < 2 ^ 31" and "\<forall>e \<in> set es. length (ie_name e) = raw_size a"
    and "\<forall>e \<in> set es. ie_crc e < 2 ^ 32" and "\<forall>e \<in> set es. ie_off e < 2 ^ 63"
  using assms by (auto simp: ok_entries_def list_all_iff)

lemma length_magic: "length idx_magic = 4"
  by (simp add: idx_magic_def)

lemma length_tables:
  assumes "ok_entries a es"
  shows "length (concat (map ie_name es)) = length es * raw_size a"
    and "length (concat (map (\<lambda>e. enc_be 4 (ie_crc e)) es)) = length es * 4"
    and "length (concat (map (enc_be 4) (off_words 0 (map ie_off es)))) = length es * 4"
    and "length (concat (map (enc_be 8) (big_offs (map ie_off es)))) = length (big_offs (map ie_off es)) * 8"
  using length_table [OF ok_entriesD(2) [OF assms]] length_table [of es "\<lambda>e. enc_be 4 (ie_crc e)" 4]
    length_table [of "off_words 0 (map ie_off es)" "enc_be 4" 4]
    length_table [of "big_offs (map ie_off es)" "enc_be 8" 8] by simp_all

lemma ref_fanout:
  "take fanout_size (drop 8 (write_idx es tr)) = concat (map (\<lambda>b. enc_be 4 (fan_count es b)) [0..<256])"
  using length_fan_table [of es 256]
  by (simp add: write_idx_def length_magic fanout_size_def del: upt_Suc map_upt_Suc enc_be.simps)

lemma ref_fanout_at:
  assumes "ok_entries a es" and "b < 256"
  shows "be32_at (take fanout_size (drop 8 (write_idx es tr))) (b * 4) = fan_count es b"
proof -
  have "fan_count es c < 2 ^ 32" for c
    using fan_count_le [of es c] ok_entriesD(1) [OF assms(1)] by simp
  then have "be32_at (concat (map (\<lambda>b. enc_be 4 (fan_count es b)) [0..<256])) (b * 4) = fan_count es ([0..<256] ! b)"
    by (intro read_be32 [where pre = "[]" and post = "[]"])
      (use assms(2) in \<open>simp_all del: upt_Suc map_upt_Suc enc_be.simps\<close>)
  with assms(2) show ?thesis unfolding ref_fanout by (simp del: upt_Suc)
qed

lemma ref_monotone:
  assumes "ok_entries a es"
  shows "monotone_fanout (take fanout_size (drop 8 (write_idx es tr)))"
  unfolding monotone_fanout_def list_all_iff
proof
  fix i assume "i \<in> set [1..<256 :: nat]"
  then have "i < 256" "i - 1 < 256" by auto
  then show "be32_at (take fanout_size (drop 8 (write_idx es tr))) ((i - 1) * 4)
      \<le> be32_at (take fanout_size (drop 8 (write_idx es tr))) (i * 4)"
    using ref_fanout_at [OF assms, of "i - 1" tr] ref_fanout_at [OF assms, of i tr]
      fan_count_mono [of "i - 1" i es] by (simp del: upt_Suc)
qed

lemma length_write_idx:
  assumes "ok_entries a es"
  shows "length (write_idx es tr) =
    8 + fanout_size + length es * raw_size a + length es * 4 + length es * 4 +
      length (big_offs (map ie_off es)) * 8 + length tr"
  unfolding write_idx_def
  using length_fan_table [of es 256]
  by (simp add: length_tables [OF assms] length_magic fanout_size_def del: upt_Suc map_upt_Suc enc_be.simps)

lemma parse_ref:
  assumes "ok_entries a es" and "length tr = 2 * raw_size a"
  shows "parse_idx (empty_pack a (write_idx es tr) data) = Inr (ref_pack a es tr data)"
proof -
  let ?i = "write_idx es tr" and ?f = "take fanout_size (drop 8 (write_idx es tr))"
  have l: "\<not> length ?i < 4 + fanout_size + 2 * raw_size a"
    "\<not> length ?i < 8 + fanout_size + length es * raw_size a + length es * 4 + length es * 4 + 2 * raw_size a"
    using length_write_idx [OF assms(1), of tr] assms(2) by simp_all
  have m: "take 4 ?i = idx_magic" by (simp add: write_idx_def length_magic)
  have v: "be32_at ?i 4 = 2"
    unfolding be32_at_def write_idx_def
    using be32_enc_be [of 2] by (simp add: length_magic del: enc_be.simps upt_Suc map_upt_Suc)
  have n: "be32_at ?f (255 * 4) = length es"
    using ref_fanout_at [OF assms(1), of 255 tr] by (simp only: fan_count_all)
  note mono = ref_monotone [OF assms(1), of tr]
  show ?thesis
    unfolding parse_idx_def empty_pack_def ref_pack_def Let_def
    using l m v n mono by (simp del: be32_lt)
qed


lemmas ref_sel = ref_pack_def Let_def pack.select_convs


definition head_tab :: "idx_entry list \<Rightarrow> bytes" where
  "head_tab es = idx_magic @ enc_be 4 2 @ concat (map (\<lambda>b. enc_be 4 (fan_count es b)) [0..<256])"

definition crc_tab :: "idx_entry list \<Rightarrow> bytes" where
  "crc_tab es = concat (map (\<lambda>e. enc_be 4 (ie_crc e)) es)"

definition off_tab :: "idx_entry list \<Rightarrow> bytes" where
  "off_tab es = concat (map (enc_be 4) (off_words 0 (map ie_off es)))"

definition big_tab :: "idx_entry list \<Rightarrow> bytes" where
  "big_tab es = concat (map (enc_be 8) (big_offs (map ie_off es)))"

lemma write_idx_tabs:
  "write_idx es tr = head_tab es @ concat (map ie_name es) @ crc_tab es @ off_tab es @ big_tab es @ tr"
  by (simp only: write_idx_def head_tab_def crc_tab_def off_tab_def big_tab_def append_assoc)

lemma length_tabs:
  assumes "ok_entries a es"
  shows "length (head_tab es) = 8 + fanout_size" and "length (concat (map ie_name es)) = length es * raw_size a"
    and "length (crc_tab es) = length es * 4" and "length (off_tab es) = length es * 4"
    and "length (big_tab es) = length (big_offs (map ie_off es)) * 8"
  using length_fan_table [of es 256] length_tables [OF assms]
  by (simp_all add: head_tab_def crc_tab_def off_tab_def big_tab_def length_magic fanout_size_def
      del: upt_Suc map_upt_Suc enc_be.simps)

lemma ref_name:
  assumes "ok_entries a es" and "i < length es"
  shows "oid_at (ref_pack a es tr data) i = \<lparr>oid_h = pad_raw (ie_name (es ! i)), oid_n = raw_size a\<rparr>"
proof -
  have "\<exists>r. drop (8 + fanout_size + i * raw_size a) (write_idx es tr) = ie_name (es ! i) @ r"
    by (rule read_table [OF ok_entriesD(2) [OF assms(1)] assms(2) write_idx_tabs])
      (simp add: length_tabs [OF assms(1)])
  moreover have "length (ie_name (es ! i)) = raw_size a"
    using ok_entriesD(2) [OF assms(1)] assms(2) by simp
  ultimately show ?thesis by (auto simp: oid_at_def ref_sel from_raw_def)
qed

lemma ref_crc:
  assumes "ok_entries a es" and "i < length es"
  shows "crc_at (ref_pack a es tr data) i = ie_crc (es ! i)"
proof -
  have "be32_at (write_idx es tr) (8 + fanout_size + length es * raw_size a + i * 4) = ie_crc (es ! i)"
    by (rule read_be32 [OF ok_entriesD(3) [OF assms(1)] assms(2),
          where pre = "head_tab es @ concat (map ie_name es)" and post = "off_tab es @ big_tab es @ tr"])
      (simp_all only: write_idx_tabs crc_tab_def append_assoc length_append length_tabs [OF assms(1)])
  then show ?thesis by (simp add: crc_at_def ref_sel)
qed

lemma ref_off_word:
  assumes "ok_entries a es" and "i < length es"
  shows "be32_at (write_idx es tr) (8 + fanout_size + length es * raw_size a + length es * 4 + i * 4) =
    off_words 0 (map ie_off es) ! i"
  by (rule read_be32 [where g = "\<lambda>x. x" and
        pre = "head_tab es @ concat (map ie_name es) @ crc_tab es" and post = "big_tab es @ tr"])
    (use assms(2) off_words_bound [of 0 "map ie_off es"] ok_entriesD(1) [OF assms(1)] in
      \<open>simp_all add: write_idx_tabs off_tab_def length_tabs [OF assms(1)] del: enc_be.simps\<close>)

lemma ref_offset:
  assumes "ok_entries a es" and "i < length es"
  shows "offset_at (ref_pack a es tr data) i = int (ie_off (es ! i))"
proof (cases "ie_off (es ! i) < 2 ^ 31")
  case True
  with assms(2) show ?thesis
    using ref_off_word [OF assms, of tr] off_words_nth [of i "map ie_off es" 0]
    by (simp add: offset_at_def ref_sel)
next
  case False
  let ?k = "length (big_offs (take i (map ie_off es)))"
  let ?big = "8 + fanout_size + length es * raw_size a + length es * 4 + length es * 4"
  have w: "off_words 0 (map ie_off es) ! i = 2 ^ 31 + ?k"
    using off_words_nth [of i "map ie_off es" 0] assms(2) False by simp
  have k: "?k < length (big_offs (map ie_off es))" "big_offs (map ie_off es) ! ?k = ie_off (es ! i)"
    using big_offs_nth [of i "map ie_off es"] assms(2) False by auto
  have "\<exists>r. drop (?big + ?k * 8) (write_idx es tr) = enc_be 8 (big_offs (map ie_off es) ! ?k) @ r"
    by (rule read_table [where w = 8 and pre = "head_tab es @ concat (map ie_name es) @ crc_tab es @ off_tab es"
          and post = tr])
      (use k(1) in \<open>simp_all add: write_idx_tabs big_tab_def length_tabs [OF assms(1)] del: enc_be.simps\<close>)
  then obtain r where r: "drop (?big + ?k * 8) (write_idx es tr) = enc_be 8 (ie_off (es ! i)) @ r"
    using k(2) by auto
  then have fits: "?big + ?k * 8 + 8 \<le> length (write_idx es tr)"
    using arg_cong [OF r, of length] unfolding length_drop length_append length_enc_be by linarith
  have lt: "ie_off (es ! i) < 2 ^ 63" using ok_entriesD(4) [OF assms(1)] assms(2) by simp
  have "be64_at (write_idx es tr) (?big + ?k * 8) = ie_off (es ! i)"
    using lt r by (simp add: be64_at_def be64_def be_val_enc_be del: enc_be.simps)
  with fits lt w ref_off_word [OF assms, of tr] show ?thesis
    by (simp add: offset_at_def ref_sel to_int64_def ac_simps)
qed


lemma append_less:
  "length xs = length ys \<Longrightarrow> (xs :: bytes) < ys \<Longrightarrow> xs @ r < ys @ r"
  by (induction xs ys rule: list_induct2) auto

lemma pad_raw_less: "length xs = length ys \<Longrightarrow> length ys \<le> 32 \<Longrightarrow> xs < ys \<Longrightarrow> pad_raw xs < pad_raw ys"
  by (simp add: pad_raw_def max_raw_size_def append_less)

lemma ref_fanout_is:
  assumes "ok_entries a es" and "b < 256"
  shows "fanout_at (ref_pack a es tr data) b = fan_count es b"
proof -
  have "be32_at (drop 8 (write_idx es tr)) (b * 4) = be32_at (take fanout_size (drop 8 (write_idx es tr))) (b * 4)"
    unfolding be32_at_def be32_def fanout_size_def drop_take take_take using assms(2) by simp
  with ref_fanout_at [OF assms, of tr] show ?thesis
    by (simp add: fanout_at_def fanout_base_def ref_sel)
qed

lemma ref_sorted:
  assumes "wf_algo a" and "ok_entries a es" and "sorted_wrt (<) (map ie_name es)"
  shows "sorted_idx (ref_pack a es tr data)"
proof -
  let ?q = "ref_pack a es tr data"
  note sz = wf_algo_sizes [OF assms(1)]
  have pad: "oid_h (oid_at ?q i) = pad_raw (ie_name (es ! i))" if "i < length es" for i
    using ref_name [OF assms(2) that] by simp
  have len: "length (ie_name (es ! i)) = raw_size a" if "i < length es" for i
    using ok_entriesD(2) [OF assms(2)] that by simp
  have num: "pk_num ?q = length es" by (simp add: ref_sel)
  have "sorted_wrt (<) (map (\<lambda>i. oid_h (oid_at ?q i)) [0..<length es])"
    unfolding sorted_wrt_iff_nth_less using assms(3) sz
    by (auto simp: pad len sorted_wrt_iff_nth_less intro!: pad_raw_less)
  moreover have "fanout_at ?q b = length (filter (\<lambda>i. first_byte ?q i \<le> b) [0..<length es])"
    if "b < 256" for b
  proof -
    have "hd (pad_raw (ie_name (es ! i))) = hd (ie_name (es ! i))" if "i < length es" for i
      using len [OF that] sz by (cases "ie_name (es ! i)") (simp_all add: pad_raw_def max_raw_size_def)
    then have "filter (\<lambda>i. first_byte ?q i \<le> b) [0..<length es] =
        filter ((\<lambda>e. unat (hd (ie_name e)) \<le> b) \<circ> (!) es) [0..<length es]"
      by (intro filter_cong) (simp_all add: first_byte_def pad)
    moreover have "map ((!) es) [0..<length es] = es" by (rule map_nth)
    ultimately show ?thesis
      unfolding ref_fanout_is [OF assms(2) that] fan_count_def by (metis filter_map length_map)
  qed
  ultimately show ?thesis by (simp add: sorted_idx_def num list_all_iff del: upt_Suc)
qed

text \<open>
  C18: the index git's format describes is read back column by column (names, CRCs, and offsets of
  either width), and \<open>Pack.Find\<close> on it answers position \<open>m\<close> for a name exactly when entry \<open>m\<close>
  carries that name.
\<close>

theorem index_roundtrip:
  assumes "wf_algo a" and "ok_entries a es" and "length tr = 2 * raw_size a"
    and "sorted_wrt (<) (map ie_name es)"
  shows "case parse_idx (empty_pack a (write_idx es tr) data) of
      Inl e \<Rightarrow> False
    | Inr q \<Rightarrow> pk_num q = length es \<and>
        (\<forall>i < length es. oid_raw (oid_at q i) = ie_name (es ! i) \<and> crc_at q i = ie_crc (es ! i) \<and>
           offset_at q i = int (ie_off (es ! i))) \<and>
        (\<forall>x m. wf_oid a x \<longrightarrow> (find q x = Some m \<longleftrightarrow> m < length es \<and> ie_name (es ! m) = oid_raw x))"
proof -
  let ?q = "ref_pack a es tr data"
  note sz = wf_algo_sizes [OF assms(1)] and pr = parse_ref [OF assms(2,3), of data]
  have len: "length (ie_name (es ! i)) = raw_size a" if "i < length es" for i
    using ok_entriesD(2) [OF assms(2)] that by simp
  have raw: "take (raw_size a) (pad_raw b) = b" if "length b = raw_size a" for b
    using take_pad_raw [of b] that sz by simp
  have num: "pk_num ?q = length es" by (simp add: ref_sel)
  have "find ?q x = Some m \<longleftrightarrow> m < length es \<and> ie_name (es ! m) = oid_raw x" if x: "wf_oid a x" for x m
  proof -
    obtain b where b: "length b = raw_size a" "x = \<lparr>oid_h = pad_raw b, oid_n = raw_size a\<rparr>"
      using wf_oidE [OF assms(1) x] .
    then have "find ?q x = Some m \<longleftrightarrow> m < length es \<and> oid_h (oid_at ?q m) = pad_raw b"
      using find_iff [OF pr ref_sorted [OF assms(1,2,4)], of x] num by simp
    also have "\<dots> \<longleftrightarrow> m < length es \<and> ie_name (es ! m) = b"
      using ref_name [OF assms(2)] len raw b(1) by (metis oid.select_convs(1))
    finally show ?thesis using b raw by (simp add: oid_raw_def)
  qed
  moreover have "oid_raw (oid_at ?q i) = ie_name (es ! i)" if "i < length es" for i
    using ref_name [OF assms(2) that] raw [OF len [OF that]] by (simp add: oid_raw_def)
  ultimately show ?thesis
    using ref_crc [OF assms(2)] ref_offset [OF assms(2)] num pr by simp
qed


definition demo_algo :: algo where
  "demo_algo = sha1_algo (\<lambda>m. replicate 20 0)"

definition demo_entries :: "idx_entry list" where
  "demo_entries =
     [\<lparr>ie_name = replicate 20 1, ie_crc = 7, ie_off = 12\<rparr>,
      \<lparr>ie_name = replicate 20 2, ie_crc = 9, ie_off = 2 ^ 40\<rparr>]"

lemma demo_ok: "wf_algo demo_algo" "ok_entries demo_algo demo_entries"
  "sorted_wrt (<) (map ie_name demo_entries)" "raw_size demo_algo = 20"
proof -
  show "wf_algo demo_algo" unfolding demo_algo_def by (rule wf_sha1) simp
  show "ok_entries demo_algo demo_entries"
    by (simp add: ok_entries_def demo_entries_def demo_algo_def sha1_algo_def)
  have "replicate 20 (1 :: byte) < replicate 20 2" by (simp add: numeral_eq_Suc)
  then show "sorted_wrt (<) (map ie_name demo_entries)" by (simp add: demo_entries_def)
  show "raw_size demo_algo = 20" by (simp add: demo_algo_def sha1_algo_def)
qed

theorem index_reads_in_bounds_witness:
  "wf_oid demo_algo (oid_at (ref_pack demo_algo demo_entries (replicate 40 0) []) 1)"
proof -
  have "parse_idx (empty_pack demo_algo (write_idx demo_entries (replicate 40 0)) []) =
      Inr (ref_pack demo_algo demo_entries (replicate 40 0) [])"
    by (rule parse_ref [OF demo_ok(2)]) (simp add: demo_ok(4))
  from index_reads_in_bounds [OF this, of 1] show ?thesis
    by (simp add: ref_sel demo_entries_def empty_pack_def)
qed

theorem index_roundtrip_witness:
  "case parse_idx (empty_pack demo_algo (write_idx demo_entries (replicate 40 0)) []) of
     Inl e \<Rightarrow> False
   | Inr q \<Rightarrow> pk_num q = 2 \<and> crc_at q 0 = 7 \<and> offset_at q 1 = 2 ^ 40 \<and>
       find q (from_raw demo_algo (replicate 20 2)) = Some 1"
proof -
  have "length (replicate 40 0 :: bytes) = 2 * raw_size demo_algo" by (simp add: demo_ok(4))
  note rt = index_roundtrip [OF demo_ok(1,2) this demo_ok(3), of "[]"]
  have x: "wf_oid demo_algo (from_raw demo_algo (replicate 20 2))"
    by (rule wf_from_raw) (simp add: demo_ok(4))
  have raw: "oid_raw (from_raw demo_algo (replicate 20 2)) = replicate 20 2"
    by (simp add: oid_raw_def from_raw_def demo_ok(4) pad_raw_def max_raw_size_def)
  show ?thesis using rt x raw by (auto simp: demo_entries_def split: sum.splits)
qed

end
