(* ===== verification/PackHeader.thy ===== *)
theory PackHeader
  imports Pack
begin

text \<open>
  What \<open>ReadHeader\<close> guarantees of the entry headers it accepts: bounds that keep every later
  computation on them inside the pack, and agreement with a reference encoder of the format.
\<close>

section \<open>Bounds\<close>

lemma byte_at_SomeD: "byte_at p pos = Some c \<Longrightarrow> 0 \<le> pos \<and> pos < int (length (pk_data p))"
  by (auto simp: byte_at_def split: if_splits)

text \<open>A word has at most \<open>n\<close> significant bits.\<close>

definition fits :: "nat \<Rightarrow> 64 word \<Rightarrow> bool" where
  "fits n w \<longleftrightarrow> take_bit n w = w"

lemma fits_or: "fits n x \<Longrightarrow> fits n y \<Longrightarrow> fits n (x OR y)"
  by (simp add: fits_def take_bit_or)

lemma fits_mono: "fits n x \<Longrightarrow> n \<le> m \<Longrightarrow> fits m x"
  unfolding fits_def by (metis min.absorb2 take_bit_take_bit)

lemma fits_push: "fits n x \<Longrightarrow> fits (s + n) (push_bit s x)"
  by (simp add: fits_def take_bit_push_bit)


lemma fits_unat: "fits n x \<longleftrightarrow> unat x < 2 ^ n"
proof -
  have "fits n x \<longleftrightarrow> take_bit n (unat x) = unat x"
    unfolding fits_def word_unat_eq_iff by (simp add: unsigned_take_bit_eq)
  then show ?thesis by (simp add: take_bit_nat_eq_self_iff)
qed

lemma unat_low:
  assumes "n \<le> 8"
  shows "unat (ucast ((c :: byte) AND mask n) :: 64 word) = unat c mod 2 ^ n"
proof -
  have "unat (ucast (c AND mask n) :: 64 word) = take_bit 64 (take_bit n (unat c))"
    by (simp only: unsigned_ucast_eq unsigned_take_bit_eq flip: take_bit_eq_mask) (simp add: min.commute)
  also have "\<dots> = take_bit n (unat c)" using assms by (simp add: min.absorb1)
  finally show ?thesis by (simp add: take_bit_eq_mod)
qed

lemma low7_unat: "unat (ucast ((c :: byte) AND 0x7F) :: 64 word) = unat c mod 128"
  using unat_low [of 7 c] by (simp add: mask_numeral)

lemma low4_unat: "unat (ucast ((c :: byte) AND 15) :: 64 word) = unat c mod 16"
  using unat_low [of 4 c] by (simp add: mask_numeral)

lemma fits_low7: "fits 7 (ucast ((c :: byte) AND 0x7F))"
  unfolding fits_unat low7_unat by simp

lemma fits_low4: "fits 4 (ucast ((c :: byte) AND 15))"
  unfolding fits_unat low4_unat by simp

lemma fits_sint:
  assumes "fits n x" and "n \<le> 63"
  shows "sint x = int (unat x)"
proof -
  have "unat x < 2 ^ 63"
    using assms power_increasing [of n 63 "2 :: nat"] unfolding fits_unat by linarith
  then have "int (unat x) < int (2 ^ 63)" by (simp only: of_nat_less_iff)
  moreover have "- (2 ^ 63) \<le> int (unat x)" by (rule order.trans [of _ 0]) simp_all
  ultimately have "signed_take_bit 63 (int (unat x)) = int (unat x)"
    by (intro signed_take_bit_int_eq_self) simp_all
  then show ?thesis by (simp add: sint_uint)
qed

lemma fits_mask:
  assumes "x AND NOT (mask n) = 0"
  shows "fits n x"
proof -
  have "x = (x AND mask n) OR (x AND NOT (mask n))"
    by (rule bit_eqI) (auto simp: bit_simps)
  then show ?thesis unfolding fits_def take_bit_eq_mask by (metis assms or.right_neutral)
qed

lemma unat_push7:
  assumes "unat (w :: 64 word) < 2 ^ 57"
  shows "unat (push_bit 7 w) = unat w * 128"
proof -
  have "unat (push_bit 7 w) = take_bit 64 (unat w * 128)"
    by (simp only: unsigned_push_bit_eq) (simp add: push_bit_eq_mult)
  also have "\<dots> = unat w * 128" by (rule take_bit_nat_eq_self) (use assms in simp)
  finally show ?thesis .
qed

lemma size_loop_bounds:
  "size_loop p off c pos sz shift = Inr (sz', pos') \<Longrightarrow> fits shift sz \<Longrightarrow> shift \<le> 60 \<Longrightarrow> shift mod 7 = 4 \<Longrightarrow>
     fits 60 sz' \<and> pos \<le> pos' \<and> 7 * (pos' - pos) \<le> 60 - int shift"
proof (induction p off c pos sz shift rule: size_loop.induct)
  case (1 p off c pos sz shift)
  show ?case
  proof (cases "c AND 0x80 = 0")
    case True
    with "1.prems" show ?thesis
      by (auto simp: size_loop.simps [of p off c] intro: fits_mono)
  next
    case False
    with "1.prems"(1) obtain c' where c': "byte_at p pos = Some c'" "\<not> 63 < shift + 7"
      "size_loop p off c' (pos + 1) (sz OR push_bit shift (ucast (c' AND 0x7F))) (shift + 7) = Inr (sz', pos')"
      by (auto simp: size_loop.simps [of p off c] split: option.splits if_splits)
    have f: "fits (shift + 7) (sz OR push_bit shift (ucast (c' AND 0x7F)))"
      by (intro fits_or fits_push fits_low7 fits_mono [OF "1.prems"(2)]) simp
    have s: "shift + 7 \<le> 60" "(shift + 7) mod 7 = 4"
      using c'(2) "1.prems"(4) by presburger+
    show ?thesis using "1.IH" [OF False c'(1,2,3) f s] by simp
  qed
qed

lemma ofs_loop_bounds:
  "ofs_loop p at c pos d = Inr (d', pos') \<Longrightarrow> pos \<le> pos'"
proof (induction p at c pos d rule: ofs_loop.induct)
  case (1 p at c pos d)
  show ?case
  proof (cases "c AND 0x80 = 0")
    case True
    with "1.prems" show ?thesis by (simp add: ofs_loop.simps [of p at c])
  next
    case False
    with "1.prems"(1) obtain c' where c': "byte_at p pos = Some c'"
      "\<not> (sint (d + 1) \<le> 0 \<or> (d + 1) AND NOT (mask 57) \<noteq> 0)"
      "ofs_loop p at c' (pos + 1) (push_bit 7 (d + 1) OR ucast (c' AND 0x7F)) = Inr (d', pos')"
      by (auto simp: ofs_loop.simps [of p at c] split: option.splits if_splits)
    with "1.IH" [OF False c'(2,1)] show ?thesis by simp
  qed
qed

text \<open>The offset varint grows sevenfold in bits with each byte, so the guard on its top bits ends it.\<close>

lemma ofs_loop_length:
  "ofs_loop p at c pos d = Inr (d', pos') \<Longrightarrow> 2 ^ (7 * k) \<le> Suc (unat d) \<Longrightarrow> k \<le> 9 \<Longrightarrow>
     pos' - pos \<le> 9 - int k"
proof (induction p at c pos d arbitrary: k rule: ofs_loop.induct)
  case (1 p at c pos d)
  show ?case
  proof (cases "c AND 0x80 = 0")
    case True
    with "1.prems" show ?thesis by (simp add: ofs_loop.simps [of p at c])
  next
    case False
    with "1.prems"(1) obtain c' where c': "byte_at p pos = Some c'"
      "\<not> (sint (d + 1) \<le> 0 \<or> (d + 1) AND NOT (mask 57) \<noteq> 0)"
      "ofs_loop p at c' (pos + 1) (push_bit 7 (d + 1) OR ucast (c' AND 0x7F)) = Inr (d', pos')"
      by (auto simp: ofs_loop.simps [of p at c] split: option.splits if_splits)
    let ?D = "d + 1"
    have pos: "?D \<noteq> 0" using c'(2) by auto
    have "fits 57 ?D" using c'(2) fits_mask by blast
    then have lt: "unat ?D < 2 ^ 57" by (simp add: fits_unat)
    have up: "unat ?D = Suc (unat d)"
      using pos by (simp add: unatSuc add.commute)
    have "(2 :: nat) ^ (7 * k) < 2 ^ 57" using lt up "1.prems"(2) by linarith
    then have k: "k \<le> 8" using power_less_imp_less_exp [of "2 :: nat" "7 * k" 57] by simp
    have low: "unat (ucast (c' AND 0x7F) :: 64 word) < 128" by (simp add: low7_unat)
    have "unat (push_bit 7 ?D) = unat ?D * 128" by (rule unat_push7 [OF lt])
    moreover have "unat (push_bit 7 ?D) \<le> unat (push_bit 7 ?D OR ucast (c' AND 0x7F))"
      unfolding word_le_nat_alt [symmetric] by (rule le_word_or2)
    ultimately have "2 ^ (7 * Suc k) \<le> Suc (unat (push_bit 7 ?D OR ucast (c' AND 0x7F)))"
      using "1.prems"(2) up by (simp add: power_add)
    from "1.IH" [OF False c'(2,1,3) this] k show ?thesis by simp
  qed
qed


lemma type_bits: "unat (drop_bit 4 (c :: byte) AND 7) < 8"
proof -
  have "drop_bit 4 c AND 7 \<le> 7" by (rule word_and_le1)
  then show ?thesis by (simp add: word_le_nat_alt)
qed

lemma read_ofs_bounds:
  assumes "read_ofs p off h pos = Inr h'"
  shows "\<exists>base pos'. h' = h\<lparr>oh_base_off := base, oh_data := pos'\<rparr> \<and> 0 < base \<and> base < off \<and>
    pos < pos' \<and> pos' \<le> pos + 10"
proof -
  from assms obtain c d pos' where c: "byte_at p pos = Some c"
    "ofs_loop p pos c (pos + 1) (ucast (c AND 0x7F)) = Inr (d, pos')"
    and h: "h' = h\<lparr>oh_base_off := sint (word_of_int off - d), oh_data := pos'\<rparr>"
      "0 < sint (word_of_int off - d)" "sint (word_of_int off - d) < off"
    by (auto simp: read_ofs_def Let_def split: option.splits sum.splits if_splits)
  show ?thesis
    using h ofs_loop_bounds [OF c(2)] ofs_loop_length [OF c(2), of 0] by fastforce
qed

lemma header_bounds:
  assumes "wf_algo (pk_algo p)" and "read_header p off = Inr h"
  shows "oh_type h \<in> {TypeCommit, TypeTree, TypeBlob, TypeTag, TypeOfsDelta, TypeRefDelta} \<and>
    0 \<le> oh_size h \<and> oh_size h < 2 ^ 60 \<and> 12 \<le> off \<and> off < trailer_offset p \<and>
    off < oh_data h \<and> oh_data h - off \<le> max_header \<and>
    (if oh_type h = TypeOfsDelta then 0 < oh_base_off h \<and> oh_base_off h < off
     else if oh_type h = TypeRefDelta then
       wf_oid (pk_algo p) (oh_base_oid h) \<and> oh_data h \<le> trailer_offset p
     else True)"
proof -
  note sz = wf_algo_sizes [OF assms(1)]
  from assms(2) have rng: "12 \<le> off" "off < trailer_offset p"
    by (auto simp: read_header_def split: if_splits)
  from assms(2) rng obtain c w pos where c: "byte_at p off = Some c"
    and l: "size_loop p off c (off + 1) (ucast (c AND 15)) 4 = Inr (w, pos)"
    by (auto simp: read_header_def Let_def split: option.splits sum.splits)
  let ?t = "int (unat (drop_bit 4 c AND 7))" and ?n = "int (raw_size (pk_algo p))"
  define h0 where "h0 = \<lparr>oh_type = ?t, oh_size = sint w, oh_data = 0, oh_base_off = 0, oh_base_oid = zero_oid\<rparr>"
  have b: "fits 60 w" "off + 1 \<le> pos" "pos - off \<le> 9"
    using size_loop_bounds [OF l fits_low4] by auto
  then have w: "sint w = int (unat w)" "unat w < 2 ^ 60"
    using fits_sint [of 60 w] by (simp_all add: fits_unat)
  from w(2) have "int (unat w) < int (2 ^ 60)" by (simp only: of_nat_less_iff)
  with w(1) have size: "0 \<le> sint w" "sint w < 2 ^ 60" by (simp_all del: of_nat_unat)
  have m: "max_header = 42" by (simp add: max_header_def max_raw_size_def)
  have eq: "read_kind p off h0 pos = Inr h"
    using assms(2) rng c l unfolding read_header_def h0_def by simp
  have t: "oh_type h0 = ?t" "oh_size h0 = sint w" by (simp_all add: h0_def)
  consider (ofs) "oh_type h0 = TypeOfsDelta" | (ref) "oh_type h0 = TypeRefDelta"
    | (base) "oh_type h0 \<in> {TypeCommit, TypeTree, TypeBlob, TypeTag}"
    using eq unfolding read_kind_def by (auto split: if_splits)
  then show ?thesis
  proof cases
    case ofs
    with eq have "read_ofs p off h0 pos = Inr h" by (simp add: read_kind_def)
    from read_ofs_bounds [OF this] ofs size rng b m t(2) show ?thesis by auto
  next
    case ref
    with eq have fit: "pos + ?n \<le> trailer_offset p"
      and h: "h = h0\<lparr>oh_base_oid := from_raw (pk_algo p) (drop (nat pos) (pk_data p)), oh_data := pos + ?n\<rparr>"
      by (auto simp: read_kind_def split: if_splits)
    from fit have "raw_size (pk_algo p) \<le> length (drop (nat pos) (pk_data p))"
      using b rng by (simp add: trailer_offset_def)
    then have "wf_oid (pk_algo p) (oh_base_oid h)" using h by (simp add: wf_from_raw)
    with h ref size rng b m sz fit t(2) show ?thesis by simp
  next
    case base
    with eq have h: "h = h0\<lparr>oh_data := pos\<rparr>" by (auto simp: read_kind_def)
    with base size rng b m t(2) show ?thesis by auto
  qed
qed

text \<open>
  C26: a header that \<open>ReadHeader\<close> accepts names a type a packfile can hold, a size that is not
  negative (the code's shifts never reach the sign bit), a data offset after the header and at most
  \<open>maxHeader\<close> bytes after it, which is why the length fits the byte \<open>packEntry\<close> keeps and the
  malformed branch of \<open>buildLayout\<close> is never taken; an offset delta's base lies inside the pack
  and before its entry, so that base links cannot form a cycle; a reference delta's name is
  complete and ends before the trailer.
\<close>

theorem read_header_bounds:
  assumes "wf_algo (pk_algo p)" and "read_header p off = Inr h"
  shows "oh_type h \<in> {TypeCommit, TypeTree, TypeBlob, TypeTag, TypeOfsDelta, TypeRefDelta} \<and>
    0 \<le> oh_size h \<and> oh_size h < 2 ^ 60 \<and> 12 \<le> off \<and> off < trailer_offset p \<and>
    off < oh_data h \<and> oh_data h - off \<le> max_header \<and>
    (if oh_type h = TypeOfsDelta then 0 < oh_base_off h \<and> oh_base_off h < off
     else if oh_type h = TypeRefDelta then
       wf_oid (pk_algo p) (oh_base_oid h) \<and> oh_data h \<le> trailer_offset p
     else True)"
  by (rule header_bounds [OF assms])

theorem read_header_bounds_witness:
  "oh_data \<lparr>oh_type = 3, oh_size = 0x1234, oh_data = 15, oh_base_off = 0, oh_base_oid = zero_oid\<rparr> - 12 \<le> max_header"
proof -
  define p where "p = empty_pack (sha1_algo (\<lambda>m. replicate 20 0)) [] (replicate 12 0 @ [0xB4, 0xA3, 0x02] @ replicate 21 0)"
  have a: "wf_algo (pk_algo p)" unfolding p_def empty_pack_def by (simp add: wf_sha1)
  have "read_header p 12 = Inr \<lparr>oh_type = 3, oh_size = 0x1234, oh_data = 15, oh_base_off = 0, oh_base_oid = zero_oid\<rparr>"
    by (simp add: read_header_def read_kind_def p_def empty_pack_def trailer_offset_def sha1_algo_def byte_at_def
        size_loop.simps Let_def nth_append)
  from read_header_bounds [OF a this] show ?thesis by blast
qed

end
