(* ===== verification/Layout.thy ===== *)
theory Layout
  imports PackHeader
begin

text \<open>
  The layout of a pack: \<open>buildLayout\<close> of \<open>internal/odb/verify.go\<close>. Every entry in offset order, and
  for each entry the deltas that stand on it, kept as one flat child list with a start index per
  entry. The parent links are scratch data of the construction. \<open>slices.SortFunc\<close> promises no order
  among equal offsets; \<open>sort_key\<close> keeps index order there.
\<close>

record pack_entry =
  pe_off :: int
  pe_size :: int
  pe_idx :: nat
  pe_hdr :: byte
  pe_typ :: obj_type
  pe_root :: bool

record layout =
  ly_ents :: "pack_entry list"
  child_start :: "nat list"
  child_list :: "nat list"
  ly_bad :: "nat list"
  header_errs :: "nat \<Rightarrow> header_error option"
  ly_trailer :: int

definition data_off :: "pack_entry \<Rightarrow> int" where
  "data_off e = pe_off e + int (unat (pe_hdr e))"

definition entry_end :: "layout \<Rightarrow> nat \<Rightarrow> int" where
  "entry_end l i = (if i + 1 < length (ly_ents l) then pe_off (ly_ents l ! (i + 1)) else ly_trailer l)"

definition children :: "layout \<Rightarrow> nat \<Rightarrow> nat list" where
  "children l i = take (child_start l ! Suc i - child_start l ! i) (drop (child_start l ! i) (child_list l))"

definition pos_at :: "pack_entry list \<Rightarrow> int \<Rightarrow> nat option" where
  "pos_at es off =
     (let pos = sort_search (length es) (\<lambda>k. off \<le> pe_off (es ! k))
      in if pos < length es \<and> pe_off (es ! pos) = off then Some pos else None)"

section \<open>Reading the headers\<close>

record build =
  bl_ents :: "pack_entry list"
  bl_parent :: "nat option list"
  bl_bad :: "nat list"
  bl_errs :: "nat \<Rightarrow> header_error option"

definition sorted_entries :: "pack \<Rightarrow> pack_entry list" where
  "sorted_entries p =
     sort_key pe_off (map (\<lambda>i. \<lparr>pe_off = offset_at p i, pe_size = 0, pe_idx = i, pe_hdr = 0,
       pe_typ = TypeNone, pe_root = False\<rparr>) [0..<pk_num p])"

definition mark_bad :: "nat \<Rightarrow> header_error option \<Rightarrow> build \<Rightarrow> build" where
  "mark_bad i msg b =
     b\<lparr>bl_ents := (bl_ents b)[i := (bl_ents b ! i)\<lparr>pe_typ := TypeBad\<rparr>], bl_bad := bl_bad b @ [i],
       bl_errs := (case msg of None \<Rightarrow> bl_errs b | Some m \<Rightarrow> (bl_errs b)(i := Some m))\<rparr>"

definition link :: "nat \<Rightarrow> nat option \<Rightarrow> header_error option \<Rightarrow> build \<Rightarrow> build" where
  "link i pos msg b =
     (case pos of
        Some q \<Rightarrow> b\<lparr>bl_parent := (bl_parent b)[i := Some q]\<rparr>
      | None \<Rightarrow> mark_bad i msg b)"

definition base_pos :: "pack \<Rightarrow> pack_entry list \<Rightarrow> obj_header \<Rightarrow> nat option" where
  "base_pos p es h =
     (if oh_type h = TypeOfsDelta then pos_at es (oh_base_off h)
      else if oh_type h = TypeRefDelta then
        (case find p (oh_base_oid h) of None \<Rightarrow> None | Some bi \<Rightarrow> pos_at es (offset_at p bi))
      else None)"

definition entry_step :: "pack \<Rightarrow> nat \<Rightarrow> build \<Rightarrow> build" where
  "entry_step p i b =
     (let e = bl_ents b ! i in
      case read_header p (pe_off e) of
        Inl err \<Rightarrow> mark_bad i (Some err) b
      | Inr h \<Rightarrow>
          if max_header < oh_data h - pe_off e then mark_bad i (Some (MalformedHeader (pe_off e))) b
          else
            let e' = e\<lparr>pe_typ := oh_type h, pe_size := oh_size h, pe_hdr := word_of_int (oh_data h - pe_off e)\<rparr>;
                b' = b\<lparr>bl_ents := (bl_ents b)[i := e']\<rparr>
            in if oh_type h = TypeOfsDelta then link i (base_pos p (bl_ents b') h) None b'
               else if oh_type h = TypeRefDelta then
                 link i (base_pos p (bl_ents b') h) (Some (BadDeltaBase (oh_data h))) b'
               else b')"

definition read_entries :: "pack \<Rightarrow> build" where
  "read_entries p =
     (let es = sorted_entries p; n = length es in
      fold (entry_step p) [0..<n]
        \<lparr>bl_ents = es, bl_parent = replicate n None, bl_bad = [], bl_errs = (\<lambda>_. None)\<rparr>)"

section \<open>The child lists\<close>

definition count_children :: "nat option list \<Rightarrow> nat list" where
  "count_children parent =
     fold (\<lambda>q cs. case q of None \<Rightarrow> cs | Some q \<Rightarrow> cs[Suc q := cs ! Suc q + 1])
       parent (replicate (Suc (length parent)) 0)"

definition prefix_sums :: "nat list \<Rightarrow> nat list" where
  "prefix_sums cs = fold (\<lambda>i cs. cs[i := cs ! i + cs ! (i - 1)]) [1..<length cs] cs"

definition fill_step :: "nat option list \<Rightarrow> nat \<Rightarrow> nat list \<times> nat list \<Rightarrow> nat list \<times> nat list" where
  "fill_step parent i s =
     (case parent ! i of None \<Rightarrow> s | Some q \<Rightarrow> ((fst s)[snd s ! q := i], (snd s)[q := snd s ! q + 1]))"

definition fill_children :: "nat option list \<Rightarrow> nat list \<Rightarrow> nat list" where
  "fill_children parent start =
     fst (fold (fill_step parent) [0..<length parent]
       (replicate (start ! length parent) 0, take (length parent) start))"

definition build_layout :: "pack \<Rightarrow> layout" where
  "build_layout p =
     (let b = read_entries p; parent = bl_parent b; start = prefix_sums (count_children parent) in
      \<lparr>ly_ents = map2 (\<lambda>e q. if q = None then e\<lparr>pe_root := True\<rparr> else e) (bl_ents b) parent,
       child_start = start, child_list = fill_children parent start, ly_bad = bl_bad b,
       header_errs = bl_errs b, ly_trailer = trailer_offset p\<rparr>)"

text \<open>\<open>parentOf\<close>: the base of an entry, read back off the pack.\<close>

definition parent_of :: "pack \<Rightarrow> layout \<Rightarrow> nat \<Rightarrow> nat option" where
  "parent_of p l i =
     (case read_header p (pe_off (ly_ents l ! i)) of
        Inl err \<Rightarrow> None
      | Inr h \<Rightarrow> base_pos p (ly_ents l) h)"

section \<open>The arrays are right\<close>

definition kids :: "nat option list \<Rightarrow> nat \<Rightarrow> nat list" where
  "kids parent q = filter (\<lambda>i. parent ! i = Some q) [0..<length parent]"

definition in_range :: "nat option list \<Rightarrow> bool" where
  "in_range parent \<longleftrightarrow> list_all (\<lambda>q. case q of None \<Rightarrow> True | Some q \<Rightarrow> q < length parent) parent"

lemma count_step:
  "length cs = Suc n \<Longrightarrow> list_all (\<lambda>q. case q of None \<Rightarrow> True | Some q \<Rightarrow> q < n) ps \<Longrightarrow>
   length (fold (\<lambda>q cs. case q of None \<Rightarrow> cs | Some q \<Rightarrow> cs[Suc q := cs ! Suc q + 1]) ps cs) = Suc n \<and>
   (\<forall>q \<le> n. fold (\<lambda>q cs. case q of None \<Rightarrow> cs | Some q \<Rightarrow> cs[Suc q := cs ! Suc q + 1]) ps cs ! q =
      cs ! q + (case q of 0 \<Rightarrow> 0 | Suc r \<Rightarrow> count_list ps (Some r)))"
proof (induction ps arbitrary: cs)
  case Nil
  then show ?case by (simp split: nat.split)
next
  case (Cons p ps)
  show ?case
  proof (cases p)
    case None
    with Cons show ?thesis by (simp split: nat.split)
  next
    case (Some r)
    then have "length (cs[Suc r := cs ! Suc r + 1]) = Suc n" using Cons.prems(1) by simp
    from Cons.IH [OF this] Cons.prems Some show ?thesis
      by (auto split: nat.splits simp: nth_list_update)
  qed
qed

lemma count_children_nth:
  assumes "in_range parent"
  shows "length (count_children parent) = Suc (length parent)"
    and "q \<le> length parent \<Longrightarrow>
      count_children parent ! q = (case q of 0 \<Rightarrow> 0 | Suc r \<Rightarrow> count_list parent (Some r))"
  using count_step [of "replicate (Suc (length parent)) 0" "length parent" parent] assms
  by (auto simp: count_children_def in_range_def split: nat.split simp del: replicate_Suc)

lemma prefix_step:
  fixes cs :: "nat list"
  shows "k \<le> length cs \<Longrightarrow> 0 < k \<Longrightarrow>
   length (fold (\<lambda>i cs. cs[i := cs ! i + cs ! (i - 1)]) [1..<k] cs) = length cs \<and>
   (\<forall>j < length cs. fold (\<lambda>i cs. cs[i := cs ! i + cs ! (i - 1)]) [1..<k] cs ! j =
      (if j < k then sum_list (take (Suc j) cs) else cs ! j))"
proof (induction k)
  case (Suc k)
  show ?case
  proof (cases "k = 0")
    case True
    with Suc.prems show ?thesis by (cases cs) auto
  next
    case False
    define F where "F = fold (\<lambda>i cs. cs[i := cs ! i + cs ! (i - 1)]) [1..<k] cs"
    have IH: "length F = length cs" "\<And>j. j < length cs \<Longrightarrow> F ! j = (if j < k then sum_list (take (Suc j) cs) else cs ! j)"
      using Suc.IH Suc.prems False unfolding F_def by auto
    have "fold (\<lambda>i cs. cs[i := cs ! i + cs ! (i - 1)]) [1..<Suc k] cs = F[k := F ! k + F ! (k - 1)]"
      using False by (simp add: F_def)
    moreover have "F ! k + F ! (k - 1) = sum_list (take (Suc k) cs)"
      using IH(2) [of k] IH(2) [of "k - 1"] Suc.prems False by (simp add: take_Suc_conv_app_nth)
    ultimately show ?thesis using IH Suc.prems by (auto simp: nth_list_update less_Suc_eq)
  qed
qed simp


lemma prefix_sums_nth:
  assumes "0 < length cs"
  shows "length (prefix_sums cs) = length cs"
    and "j < length cs \<Longrightarrow> prefix_sums cs ! j = sum_list (take (Suc j) cs)"
  using prefix_step [of "length cs" cs] assms by (auto simp: prefix_sums_def)

lemma count_list_kids: "count_list parent (Some q) = length (kids parent q)"
proof -
  have "count_list xs y = length (filter (\<lambda>i. xs ! i = y) [0..<length xs])" for xs and y :: "nat option"
  proof (induction xs rule: rev_induct)
    case (snoc x xs)
    have "filter (\<lambda>i. (xs @ [x]) ! i = y) [0..<length xs] = filter (\<lambda>i. xs ! i = y) [0..<length xs]"
      by (rule filter_cong) (simp_all add: nth_append)
    with snoc show ?case by simp
  qed simp
  then show ?thesis by (simp add: kids_def)
qed

text \<open>Where the children of entry \<open>q\<close> start: after those of every earlier entry.\<close>

definition start_of :: "nat option list \<Rightarrow> nat \<Rightarrow> nat" where
  "start_of parent q = sum_list (map (\<lambda>r. length (kids parent r)) [0..<q])"

lemma start_of_Suc: "start_of parent (Suc q) = start_of parent q + length (kids parent q)"
  by (simp add: start_of_def)

lemma start_of_mono: "q \<le> r \<Longrightarrow> start_of parent q \<le> start_of parent r"
  by (induction r) (auto simp: le_Suc_eq start_of_Suc)

lemma start_nth:
  assumes "in_range parent"
  shows "length (prefix_sums (count_children parent)) = Suc (length parent)"
    and "q \<le> length parent \<Longrightarrow> prefix_sums (count_children parent) ! q = start_of parent q"
proof -
  let ?cs = "count_children parent"
  note len = count_children_nth(1) [OF assms]
  then show "length (prefix_sums ?cs) = Suc (length parent)" using prefix_sums_nth(1) [of ?cs] by simp
  assume q: "q \<le> length parent"
  have "sum_list (take (Suc j) ?cs) = start_of parent j" if "j \<le> length parent" for j
    using that
  proof (induction j)
    case 0
    have "?cs = ?cs ! 0 # tl ?cs" using len by (cases ?cs) simp_all
    then have "take (Suc 0) ?cs = [?cs ! 0]" by (metis take_Suc_Cons take0)
    then show ?case using count_children_nth(2) [OF assms, of 0] by (simp add: start_of_def)
  next
    case (Suc j)
    then have "sum_list (take (Suc (Suc j)) ?cs) = start_of parent j + ?cs ! Suc j"
      using len by (simp add: take_Suc_conv_app_nth [of "Suc j"])
    then show ?case using count_children_nth(2) [OF assms, of "Suc j"] Suc.prems
      by (simp add: count_list_kids start_of_Suc)
  qed
  then show "prefix_sums ?cs ! q = start_of parent q"
    using prefix_sums_nth(2) [of ?cs q] len q by simp
qed

definition seen :: "nat option list \<Rightarrow> nat \<Rightarrow> nat \<Rightarrow> nat list" where
  "seen parent k q = filter (\<lambda>i. parent ! i = Some q) [0..<k]"

lemma seen_Suc: "seen parent (Suc k) q = seen parent k q @ (if parent ! k = Some q then [k] else [])"
  by (simp add: seen_def)

lemma seen_le: "k \<le> length parent \<Longrightarrow> length (seen parent k q) \<le> length (kids parent q)"
proof -
  assume "k \<le> length parent"
  then have "[0..<length parent] = [0..<k] @ [k..<length parent]"
    by (metis le_add_diff_inverse upt_add_eq_append zero_le)
  then show ?thesis by (simp add: seen_def kids_def)
qed

lemma fill_inv:
  assumes "in_range parent" and "k \<le> length parent" and "length xs = start_of parent (length parent)"
    and "length fl = length parent" and "\<forall>q < length parent. fl ! q = start_of parent q"
  defines "s \<equiv> fold (fill_step parent) [0..<k] (xs, fl)"
  shows "length (fst s) = start_of parent (length parent) \<and> length (snd s) = length parent \<and>
    (\<forall>q < length parent. snd s ! q = start_of parent q + length (seen parent k q) \<and>
       (\<forall>j < length (seen parent k q). fst s ! (start_of parent q + j) = seen parent k q ! j))"
  using assms(2) unfolding s_def
proof (induction k)
  case 0
  then show ?case using assms(3-5) by (simp add: seen_def)
next
  case (Suc k)
  let ?n = "length parent"
  define t where "t = fold (fill_step parent) [0..<k] (xs, fl)"
  from Suc have IH: "length (fst t) = start_of parent ?n" "length (snd t) = ?n"
    "\<And>q. q < ?n \<Longrightarrow> snd t ! q = start_of parent q + length (seen parent k q)"
    "\<And>q j. q < ?n \<Longrightarrow> j < length (seen parent k q) \<Longrightarrow> fst t ! (start_of parent q + j) = seen parent k q ! j"
    by (auto simp: t_def)
  have step: "fold (fill_step parent) [0..<Suc k] (xs, fl) = fill_step parent k t" by (simp add: t_def)
  show ?case
  proof (cases "parent ! k")
    case None
    then have "fill_step parent k t = t" "seen parent (Suc k) = seen parent k"
      by (auto simp: fill_step_def seen_Suc)
    with IH step show ?thesis by simp
  next
    case (Some q)
    have q: "q < ?n"
      using assms(1) Suc.prems Some unfolding in_range_def list_all_length by (metis Suc_le_eq option.simps(5))
    have full: "length (seen parent (Suc k) q) \<le> length (kids parent q)"
      using seen_le [OF Suc.prems] .
    then have room: "Suc (length (seen parent k q)) \<le> length (kids parent q)" using Some by (simp add: seen_Suc)
    define w where "w = start_of parent q + length (seen parent k q)"
    have w: "start_of parent q \<le> w" "w < start_of parent (Suc q)" using room by (auto simp: w_def start_of_Suc)
    have t': "fill_step parent k t = ((fst t)[w := k], (snd t)[q := Suc w])"
      using Some IH(3) [OF q] by (simp add: fill_step_def w_def)
    have "start_of parent (Suc q) \<le> start_of parent ?n" using q by (intro start_of_mono) simp
    then have wlt: "w < length (fst t)" using w IH(1) by simp
    have other: "start_of parent r + j \<noteq> w" if "r < ?n" "r \<noteq> q" "j < length (seen parent k r)" for r j
    proof -
      have j: "start_of parent r + j < start_of parent (Suc r)"
        using that(3) seen_le [of k parent r] Suc.prems by (simp add: start_of_Suc)
      show ?thesis
      proof (cases "r < q")
        case True
        then have "start_of parent (Suc r) \<le> start_of parent q" by (intro start_of_mono) simp
        with j w show ?thesis by simp
      next
        case False
        then have "start_of parent (Suc q) \<le> start_of parent r" using that(2) by (intro start_of_mono) simp
        with w show ?thesis by simp
      qed
    qed
    show ?thesis unfolding step t'
    proof (intro conjI allI impI)
      fix r assume r: "r < ?n"
      show "snd ((fst t)[w := k], (snd t)[q := Suc w]) ! r = start_of parent r + length (seen parent (Suc k) r)"
        using IH(2) IH(3) [OF r] r Some by (auto simp: seen_Suc w_def nth_list_update)
      fix j assume j: "j < length (seen parent (Suc k) r)"
      show "fst ((fst t)[w := k], (snd t)[q := Suc w]) ! (start_of parent r + j) = seen parent (Suc k) r ! j"
      proof (cases "r = q")
        case False
        then have "seen parent (Suc k) r = seen parent k r" using Some by (simp add: seen_Suc)
        with j IH(4) [OF r] other [OF r False, of j] show ?thesis by (simp add: nth_list_update_neq [OF not_sym])
      next
        case True
        with j Some IH(4) [OF r] wlt show ?thesis
          by (auto simp: seen_Suc nth_append w_def nth_list_update less_Suc_eq)
      qed
    qed (use IH(1,2) in simp_all)
  qed
qed

text \<open>The flat arrays hold, for every entry, exactly the entries whose parent it is, in order.\<close>

lemma fill_children_kids:
  assumes "in_range parent" and "q < length parent"
  defines "start \<equiv> prefix_sums (count_children parent)"
  shows "take (start ! Suc q - start ! q) (drop (start ! q) (fill_children parent start)) = kids parent q"
proof -
  let ?n = "length parent" and ?xs = "fill_children parent start"
  have st: "length start = Suc ?n" "\<And>r. r \<le> ?n \<Longrightarrow> start ! r = start_of parent r"
    using start_nth [OF assms(1)] by (auto simp: start_def)
  have xs: "length ?xs = start_of parent ?n"
    "\<And>j. j < length (kids parent q) \<Longrightarrow> ?xs ! (start_of parent q + j) = kids parent q ! j"
    using fill_inv [OF assms(1) order_refl, of "replicate (start ! ?n) 0" "take ?n start"] st assms(2)
    by (auto simp: fill_children_def seen_def kids_def)
  have "start_of parent (Suc q) \<le> start_of parent ?n" using assms(2) by (intro start_of_mono) simp
  then have "start_of parent q + length (kids parent q) \<le> length ?xs" by (simp add: xs(1) start_of_Suc)
  then show ?thesis
    using st assms(2) xs(2) by (intro nth_equalityI) (simp_all add: start_of_Suc)
qed


section \<open>The links are right\<close>

text \<open>What the loop does to one entry, as a function of the offsets alone.\<close>

definition entry_parent :: "pack \<Rightarrow> pack_entry list \<Rightarrow> nat \<Rightarrow> nat option" where
  "entry_parent p es i =
     (case read_header p (pe_off (es ! i)) of
        Inl err \<Rightarrow> None
      | Inr h \<Rightarrow> if max_header < oh_data h - pe_off (es ! i) then None else base_pos p es h)"

definition entry_type :: "pack \<Rightarrow> pack_entry list \<Rightarrow> nat \<Rightarrow> obj_type" where
  "entry_type p es i =
     (case read_header p (pe_off (es ! i)) of
        Inl err \<Rightarrow> TypeBad
      | Inr h \<Rightarrow>
          if max_header < oh_data h - pe_off (es ! i) then TypeBad
          else if oh_type h \<in> {TypeOfsDelta, TypeRefDelta} \<and> base_pos p es h = None then TypeBad
          else oh_type h)"

lemma pos_at_cong: "map pe_off es = map pe_off es' \<Longrightarrow> pos_at es = pos_at es'"
proof -
  assume eq: "map pe_off es = map pe_off es'"
  then have len: "length es = length es'" using map_eq_imp_length_eq by blast
  have nth: "pe_off (es ! k) = pe_off (es' ! k)" if "k < length es'" for k
    using eq len that by (metis nth_map)
  have loop: "sort_search_loop f i j = sort_search_loop g i j"
    if "\<And>k. k < j \<Longrightarrow> f k = g k" for f g i j
    using that
  proof (induction f i j rule: sort_search_loop.induct)
    case (1 f i j)
    show ?case
    proof (cases "i < j")
      case True
      then have "(i + j) div 2 < j" by simp
      with 1 True show ?thesis
        by (simp add: sort_search_loop.simps [of f i j] sort_search_loop.simps [of g i j] Let_def)
    qed (simp add: sort_search_loop.simps)
  qed
  show ?thesis
  proof
    fix off
    have "sort_search (length es) (\<lambda>k. off \<le> pe_off (es ! k)) = sort_search (length es') (\<lambda>k. off \<le> pe_off (es' ! k))"
      unfolding sort_search_def len by (rule loop) (simp add: nth)
    then show "pos_at es off = pos_at es' off" unfolding pos_at_def Let_def using len nth by auto
  qed
qed

lemma base_pos_cong: "map pe_off es = map pe_off es' \<Longrightarrow> base_pos p es h = base_pos p es' h"
  by (simp only: base_pos_def pos_at_cong [of es es'])

lemma pos_at_SomeD: "pos_at es off = Some q \<Longrightarrow> q < length es \<and> pe_off (es ! q) = off"
  by (auto simp: pos_at_def Let_def split: if_splits)

lemma pos_at_None:
  assumes "sorted (map pe_off es)" and "pos_at es off = None" and "k < length es"
  shows "pe_off (es ! k) \<noteq> off"
proof
  assume k: "pe_off (es ! k) = off"
  let ?f = "\<lambda>k. off \<le> pe_off (es ! k)" and ?n = "length es"
  have le: "pe_off (es ! a) \<le> pe_off (es ! b)" if "a \<le> b" "b < ?n" for a b
    using sorted_nth_mono [OF assms(1), of a b] that by simp
  have mono: "mono_below ?n ?f" unfolding mono_below_def using le by (meson order.trans)
  define s where "s = sort_search ?n ?f"
  have "s \<le> k" using sort_search_first(2) [OF mono, of k] k unfolding s_def by force
  with le [of s k] assms(3) k have "pe_off (es ! s) \<le> off" "s < ?n" by auto
  moreover have "?f s" using sort_search_first(3) [OF mono] \<open>s < ?n\<close> by (simp add: s_def)
  ultimately show False using assms(2) by (simp add: pos_at_def Let_def flip: s_def split: if_splits)
qed

lemma base_pos_SomeD: "base_pos p es h = Some q \<Longrightarrow> q < length es"
  by (auto simp: base_pos_def dest: pos_at_SomeD split: if_splits option.splits)

definition links_inv :: "pack \<Rightarrow> pack_entry list \<Rightarrow> nat \<Rightarrow> build \<Rightarrow> bool" where
  "links_inv p es k b \<longleftrightarrow>
     map pe_off (bl_ents b) = map pe_off es \<and> map pe_idx (bl_ents b) = map pe_idx es \<and>
     list_all (\<lambda>e. \<not> pe_root e) (bl_ents b) \<and> length (bl_parent b) = length es \<and>
     (\<forall>i < length es. bl_parent b ! i = (if i < k then entry_parent p es i else None)) \<and>
     (\<forall>i < k. pe_typ (bl_ents b ! i) = entry_type p es i) \<and>
     (\<forall>i. i \<in> set (bl_bad b) \<longleftrightarrow> i < k \<and> entry_type p es i = TypeBad)"

lemma map_update: "i < length xs \<Longrightarrow> f y = f (xs ! i) \<Longrightarrow> map f (xs[i := y]) = map f xs"
  by (metis list_update_id list_update_same_conv map_update nth_map)

lemma entry_step_eq:
  assumes "wf_algo (pk_algo p)" and "map pe_off (bl_ents b) = map pe_off es" and "k < length es"
    and "bl_parent b ! k = None"
  shows "\<exists>e. pe_off e = pe_off (bl_ents b ! k) \<and> pe_idx e = pe_idx (bl_ents b ! k) \<and>
    pe_root e = pe_root (bl_ents b ! k) \<and> pe_typ e = entry_type p es k \<and>
    bl_ents (entry_step p k b) = (bl_ents b)[k := e] \<and>
    bl_parent (entry_step p k b) = (bl_parent b)[k := entry_parent p es k] \<and>
    bl_bad (entry_step p k b) = bl_bad b @ (if entry_type p es k = TypeBad then [k] else [])"
proof -
  have len: "length (bl_ents b) = length es" using assms(2) map_eq_imp_length_eq by blast
  have off: "pe_off (bl_ents b ! k) = pe_off (es ! k)" using assms(2,3) len by (metis nth_map)
  have same: "(bl_parent b)[k := None] = bl_parent b" using assms(4) by (metis list_update_id)
  show ?thesis
  proof (cases "read_header p (pe_off (es ! k))")
    case (Inl err)
    then have "entry_step p k b = mark_bad k (Some err) b" "entry_type p es k = TypeBad" "entry_parent p es k = None"
      by (simp_all add: entry_step_def entry_type_def entry_parent_def off)
    then show ?thesis by (intro exI [of _ "(bl_ents b ! k)\<lparr>pe_typ := TypeBad\<rparr>"]) (simp add: mark_bad_def same)
  next
    case (Inr h)
    define e where "e = (bl_ents b ! k)\<lparr>pe_typ := oh_type h, pe_size := oh_size h,
      pe_hdr := word_of_int (oh_data h - pe_off (es ! k))\<rparr>"
    define b' where "b' = b\<lparr>bl_ents := (bl_ents b)[k := e]\<rparr>"
    have rh: "\<not> max_header < oh_data h - pe_off (es ! k)" "oh_type h \<noteq> TypeBad"
      using header_bounds [OF assms(1) Inr] by auto
    have e: "pe_off e = pe_off (bl_ents b ! k)" "pe_idx e = pe_idx (bl_ents b ! k)"
      "pe_root e = pe_root (bl_ents b ! k)" "pe_typ e = oh_type h" by (simp_all add: e_def)
    have "map pe_off (bl_ents b') = map pe_off es"
      using assms(2,3) len e by (simp add: b'_def map_update)
    then have base: "base_pos p (bl_ents b') h = base_pos p es h" by (rule base_pos_cong)
    have step: "entry_step p k b =
        (if oh_type h = TypeOfsDelta then link k (base_pos p es h) None b'
         else if oh_type h = TypeRefDelta then link k (base_pos p es h) (Some (BadDeltaBase (oh_data h))) b'
         else b')"
      by (simp only: entry_step_def Let_def off Inr sum.case rh(1) if_False e_def [symmetric] b'_def [symmetric] base)
    have kb: "bl_ents b' ! k = e" using assms(3) len by (simp add: b'_def)
    consider (plain) "oh_type h \<notin> {TypeOfsDelta, TypeRefDelta}"
      | (found) q where "oh_type h \<in> {TypeOfsDelta, TypeRefDelta}" "base_pos p es h = Some q"
      | (lost) "oh_type h \<in> {TypeOfsDelta, TypeRefDelta}" "base_pos p es h = None" by blast
    then show ?thesis
    proof cases
      case plain
      then have "entry_step p k b = b'" "entry_type p es k = oh_type h" "entry_parent p es k = None"
        using step Inr rh by (auto simp: entry_type_def entry_parent_def base_pos_def)
      with e rh show ?thesis by (intro exI [of _ e]) (simp add: b'_def same)
    next
      case found
      then have "entry_step p k b = b'\<lparr>bl_parent := (bl_parent b')[k := Some q]\<rparr>"
        "entry_type p es k = oh_type h" "entry_parent p es k = Some q"
        using step Inr rh by (auto simp: entry_type_def entry_parent_def link_def)
      with e rh show ?thesis by (intro exI [of _ e]) (simp add: b'_def)
    next
      case lost
      then have "\<exists>m. entry_step p k b = mark_bad k m b'" "entry_type p es k = TypeBad" "entry_parent p es k = None"
        using step Inr rh by (auto simp: entry_type_def entry_parent_def link_def)
      with e kb show ?thesis
        by (intro exI [of _ "e\<lparr>pe_typ := TypeBad\<rparr>"]) (auto simp: mark_bad_def b'_def same)
    qed
  qed
qed

lemma links_step:
  assumes "wf_algo (pk_algo p)" and "links_inv p es k b" and "k < length es"
  shows "links_inv p es (Suc k) (entry_step p k b)"
proof -
  note inv = assms(2) [unfolded links_inv_def]
  then have len: "length (bl_ents b) = length es" using map_eq_imp_length_eq by blast
  have pk: "bl_parent b ! k = None" using inv assms(3) by simp
  obtain e where e: "pe_off e = pe_off (bl_ents b ! k)" "pe_idx e = pe_idx (bl_ents b ! k)"
    "pe_root e = pe_root (bl_ents b ! k)" "pe_typ e = entry_type p es k"
    "bl_ents (entry_step p k b) = (bl_ents b)[k := e]"
    "bl_parent (entry_step p k b) = (bl_parent b)[k := entry_parent p es k]"
    "bl_bad (entry_step p k b) = bl_bad b @ (if entry_type p es k = TypeBad then [k] else [])"
    using entry_step_eq [OF assms(1) _ assms(3) pk] inv by blast
  have "list_all (\<lambda>e. \<not> pe_root e) ((bl_ents b)[k := e])"
    using inv e(3) assms(3) len by (auto simp: list_all_length nth_list_update)
  moreover have "bl_parent (entry_step p k b) ! i = (if i < Suc k then entry_parent p es i else None)"
    if "i < length es" for i
    using that inv e(6) by (auto simp: nth_list_update less_Suc_eq)
  moreover have "pe_typ (bl_ents (entry_step p k b) ! i) = entry_type p es i" if "i < Suc k" for i
    using that inv e(4,5) assms(3) len by (auto simp: nth_list_update less_Suc_eq)
  moreover have "i \<in> set (bl_bad (entry_step p k b)) \<longleftrightarrow> i < Suc k \<and> entry_type p es i = TypeBad" for i
    using inv e(7) by (auto simp: less_Suc_eq)
  ultimately show ?thesis
    using inv e(1,2,5,6) assms(3) len unfolding links_inv_def by (simp add: map_update)
qed

lemma length_sorted_entries [simp]: "length (sorted_entries p) = pk_num p"
  by (simp add: sorted_entries_def)

lemma read_entries_inv:
  assumes "wf_algo (pk_algo p)"
  shows "links_inv p (sorted_entries p) (pk_num p) (read_entries p)"
proof -
  let ?es = "sorted_entries p"
  let ?b = "\<lparr>bl_ents = ?es, bl_parent = replicate (pk_num p) None, bl_bad = [], bl_errs = (\<lambda>_. None)\<rparr>"
  have "links_inv p ?es k (fold (entry_step p) [0..<k] ?b)" if "k \<le> pk_num p" for k
    using that
  proof (induction k)
    case 0
    have "list_all (\<lambda>e. \<not> pe_root e) ?es" by (auto simp: sorted_entries_def list_all_iff)
    then show ?case by (simp add: links_inv_def)
  next
    case (Suc k)
    then show ?case using links_step [OF assms, of ?es k] by simp
  qed
  then show ?thesis by (simp add: read_entries_def Let_def)
qed

lemma entry_parent_lt: "entry_parent p es i = Some q \<Longrightarrow> q < length es"
  by (auto simp: entry_parent_def dest: base_pos_SomeD split: sum.splits if_splits)

lemma ents_sel:
  assumes "wf_algo (pk_algo p)"
  defines "l \<equiv> build_layout p"
  shows "length (ly_ents l) = pk_num p" and "map pe_off (ly_ents l) = map pe_off (sorted_entries p)"
    and "i < pk_num p \<Longrightarrow> pe_typ (ly_ents l ! i) = entry_type p (sorted_entries p) i"
    and "i < pk_num p \<Longrightarrow> pe_root (ly_ents l ! i) \<longleftrightarrow> entry_parent p (sorted_entries p) i = None"
    and "i < pk_num p \<Longrightarrow> pe_idx (ly_ents l ! i) = pe_idx (sorted_entries p ! i)"
    and "i \<in> set (ly_bad l) \<longleftrightarrow> i < pk_num p \<and> entry_type p (sorted_entries p) i = TypeBad"
proof -
  let ?b = "read_entries p"
  note inv = read_entries_inv [OF assms(1), unfolded links_inv_def length_sorted_entries]
  then have len: "length (bl_ents ?b) = pk_num p" by (metis length_map length_sorted_entries)
  have nth: "ly_ents l ! i = (if bl_parent ?b ! i = None then (bl_ents ?b ! i)\<lparr>pe_root := True\<rparr> else bl_ents ?b ! i)"
    if "i < pk_num p" for i using that inv len by (simp add: l_def build_layout_def Let_def)
  show l: "length (ly_ents l) = pk_num p" using inv len by (simp add: l_def build_layout_def Let_def)
  show "map pe_off (ly_ents l) = map pe_off (sorted_entries p)"
  proof (rule nth_equalityI)
    fix i assume "i < length (map pe_off (ly_ents l))"
    then have i: "i < pk_num p" using l by simp
    have "pe_off (bl_ents ?b ! i) = map pe_off (bl_ents ?b) ! i" using i len by simp
    also have "\<dots> = pe_off (sorted_entries p ! i)" using inv i by simp
    finally show "map pe_off (ly_ents l) ! i = map pe_off (sorted_entries p) ! i"
      using i l nth [OF i] by simp
  qed (simp add: l)
  show "i < pk_num p \<Longrightarrow> pe_typ (ly_ents l ! i) = entry_type p (sorted_entries p) i"
    using nth inv by simp
  show "i < pk_num p \<Longrightarrow> pe_root (ly_ents l ! i) \<longleftrightarrow> entry_parent p (sorted_entries p) i = None"
    using nth inv len by (auto simp: list_all_length)
  show "i < pk_num p \<Longrightarrow> pe_idx (ly_ents l ! i) = pe_idx (sorted_entries p ! i)"
  proof -
    assume i: "i < pk_num p"
    have "pe_idx (bl_ents ?b ! i) = map pe_idx (bl_ents ?b) ! i" using i len by simp
    also have "\<dots> = pe_idx (sorted_entries p ! i)" using inv i by simp
    finally show "pe_idx (ly_ents l ! i) = pe_idx (sorted_entries p ! i)" using nth [OF i] by simp
  qed
  show "i \<in> set (ly_bad l) \<longleftrightarrow> i < pk_num p \<and> entry_type p (sorted_entries p) i = TypeBad"
    using inv by (auto simp: l_def build_layout_def Let_def)
qed

lemma parent_of_eq:
  assumes "wf_algo (pk_algo p)" and "i < pk_num p"
  shows "parent_of p (build_layout p) i = entry_parent p (sorted_entries p) i"
proof -
  note sel = ents_sel [OF assms(1)]
  have off: "pe_off (ly_ents (build_layout p) ! i) = pe_off (sorted_entries p ! i)"
    using sel(1,2) assms(2) by (metis length_sorted_entries nth_map)
  have ok: "\<not> max_header < oh_data h - pe_off (sorted_entries p ! i)"
    if "read_header p (pe_off (sorted_entries p ! i)) = Inr h" for h
    using header_bounds [OF assms(1) that] by auto
  show ?thesis
    using ok base_pos_cong [OF sel(2)]
    by (auto simp: parent_of_def entry_parent_def off split: sum.split)
qed

lemma children_eq:
  assumes "wf_algo (pk_algo p)" and "q < pk_num p"
  shows "children (build_layout p) q = filter (\<lambda>i. parent_of p (build_layout p) i = Some q) [0..<pk_num p]"
proof -
  let ?b = "read_entries p"
  note inv = read_entries_inv [OF assms(1), unfolded links_inv_def length_sorted_entries]
  have rng: "in_range (bl_parent ?b)"
    using inv entry_parent_lt [of p "sorted_entries p"]
    unfolding in_range_def list_all_length by (auto split: option.split)
  have "children (build_layout p) q = kids (bl_parent ?b) q"
    using fill_children_kids [OF rng, of q] inv assms(2)
    by (simp add: children_def build_layout_def Let_def)
  also have "\<dots> = filter (\<lambda>i. parent_of p (build_layout p) i = Some q) [0..<pk_num p]"
    unfolding kids_def using inv parent_of_eq [OF assms(1)] by (intro filter_cong) auto
  finally show ?thesis .
qed


lemma delta_has_parent:
  assumes "wf_algo (pk_algo p)" and "i < pk_num p"
  defines "l \<equiv> build_layout p"
  shows "parent_of p l i = None \<longleftrightarrow> pe_typ (ly_ents l ! i) \<notin> {TypeOfsDelta, TypeRefDelta}"
proof -
  have "oh_type h \<noteq> TypeBad" if "read_header p off = Inr h" for h off
    using header_bounds [OF assms(1) that] by auto
  moreover have "\<not> max_header < oh_data h - off" if "read_header p off = Inr h" for h off
    using header_bounds [OF assms(1) that] by auto
  ultimately have "entry_parent p (sorted_entries p) i = None \<longleftrightarrow>
      entry_type p (sorted_entries p) i \<notin> {TypeOfsDelta, TypeRefDelta}"
    by (auto simp: entry_parent_def entry_type_def base_pos_def split: sum.split)
  then show ?thesis
    using ents_sel(3) [OF assms(1,2)] parent_of_eq [OF assms(1,2)] by (simp add: l_def)
qed

lemma sorted_offsets:
  assumes "wf_algo (pk_algo p)"
  shows "sorted (map pe_off (ly_ents (build_layout p)))"
  unfolding ents_sel(2) [OF assms] by (simp add: sorted_entries_def)

lemma ofs_parent_before:
  assumes "wf_algo (pk_algo p)" and "i < pk_num p"
    and "pe_typ (ly_ents (build_layout p) ! i) = TypeOfsDelta" and "parent_of p (build_layout p) i = Some q"
  shows "q < i"
proof (rule ccontr)
  let ?l = "build_layout p"
  assume "\<not> q < i"
  note len = ents_sel(1) [OF assms(1)]
  have off: "pe_off (ly_ents ?l ! i) = pe_off (sorted_entries p ! i)"
    using ents_sel(1,2) [OF assms(1)] assms(2) by (metis length_sorted_entries nth_map)
  obtain h where h: "read_header p (pe_off (ly_ents ?l ! i)) = Inr h" "oh_type h = TypeOfsDelta"
    using assms(3) ents_sel(3) [OF assms(1,2)] unfolding off
    by (auto simp: entry_type_def split: sum.splits if_splits)
  then have "pos_at (ly_ents ?l) (oh_base_off h) = Some q"
    using assms(4) by (simp add: parent_of_def base_pos_def)
  then have q: "q < pk_num p" "pe_off (ly_ents ?l ! q) = oh_base_off h" using pos_at_SomeD [of "ly_ents ?l"] len by auto
  have "pe_off (ly_ents ?l ! i) \<le> pe_off (ly_ents ?l ! q)"
    using sorted_nth_mono [OF sorted_offsets [OF assms(1)], of i q] \<open>\<not> q < i\<close> q(1) len by simp
  with q(2) header_bounds [OF assms(1) h(1)] h(2) show False by simp
qed

text \<open>
  C6: the layout is the delta forest of the pack. Each entry's span of the flat child list holds
  exactly the entries whose base \<open>parentOf\<close> reads back to it, in offset order; the root bit marks
  exactly the entries with no base in the pack; the bad list is the entries of bad type; every
  delta that is not bad has its base in range, and an offset delta's base comes before it.
\<close>

theorem layout_exact:
  assumes "wf_algo (pk_algo p)" and "i < pk_num p"
  shows "let l = build_layout p in
    length (ly_ents l) = pk_num p \<and>
    children l i = filter (\<lambda>c. parent_of p l c = Some i) [0..<pk_num p] \<and>
    (pe_root (ly_ents l ! i) \<longleftrightarrow> parent_of p l i = None) \<and>
    (i \<in> set (ly_bad l) \<longleftrightarrow> pe_typ (ly_ents l ! i) = TypeBad) \<and>
    (case parent_of p l i of
       None \<Rightarrow> pe_typ (ly_ents l ! i) \<notin> {TypeOfsDelta, TypeRefDelta}
     | Some q \<Rightarrow> q < pk_num p \<and> pe_typ (ly_ents l ! i) \<in> {TypeOfsDelta, TypeRefDelta} \<and>
         (if pe_typ (ly_ents l ! i) = TypeOfsDelta then q < i else True))"
proof -
  note sel = ents_sel [OF assms(1)] and par = parent_of_eq [OF assms]
  have "q < pk_num p" if "parent_of p (build_layout p) i = Some q" for q
    using entry_parent_lt [of p "sorted_entries p" i q] that par by simp
  then show ?thesis
    using sel(1) sel(3,4,6) [of i] children_eq [OF assms] par delta_has_parent [OF assms]
      ofs_parent_before [OF assms] assms(2)
    unfolding Let_def by (auto split: option.split)
qed

text \<open>A pack of one blob, with the index that names it.\<close>

definition demo_pack :: pack where
  "demo_pack = \<lparr>pk_algo = sha1_algo (\<lambda>m. replicate 20 0), pk_num = 1, pk_ver = 1,
     pk_idx = replicate 1024 0 @ [0, 0, 0, 12] @ replicate 60 0,
     pk_data = [80, 65, 67, 75, 0, 0, 0, 2, 0, 0, 0, 1, 0x30] @ replicate 28 0, oid_table = 1024, crc_table = 0,
     off_table = 0, big_off_table = 0\<rparr>"

lemma demo_pack_wf: "wf_algo (pk_algo demo_pack)" "pk_num demo_pack = 1"
  by (simp_all add: demo_pack_def wf_sha1)

theorem layout_exact_witness: "length (ly_ents (build_layout demo_pack)) = 1"
  using layout_exact [OF demo_pack_wf(1), of 0] by (simp add: demo_pack_wf Let_def)

end
