(* ===== verification/Delta.thy ===== *)
theory Delta
  imports Prelude
begin

text \<open>
  Delta streams: \<open>internal/odb/delta.go\<close>. Offsets and sizes are 64-bit words, as in the code; the
  command loop is \<open>delta_loop\<close>. \<open>None\<close> is \<open>errBadDelta\<close>. The reference semantics is a list of
  instructions, and \<open>encode_delta\<close> writes one down the way git's encoder does.
\<close>

section \<open>The decoder\<close>

text \<open>The loop of \<open>deltaVarint\<close> with its accumulator and shift.\<close>

fun varint_loop :: "64 word \<Rightarrow> nat \<Rightarrow> bytes \<Rightarrow> (64 word \<times> bytes) option" where
  "varint_loop v shift [] = None"
| "varint_loop v shift (c # cs) =
     (let v' = v OR push_bit shift (ucast (c AND 0x7F)); shift' = shift + 7
      in if c AND 0x80 = 0 then Some (v', cs)
         else if 63 < shift' then None
         else varint_loop v' shift' cs)"

definition delta_varint :: "bytes \<Rightarrow> (64 word \<times> bytes) option" where
  "delta_varint d = varint_loop 0 0 d"

definition max_delta_output :: "nat \<Rightarrow> nat" where
  "max_delta_output n = n * 0x10000"

text \<open>
  The bytes a copy command carries: for each set bit of the mask, one byte goes to its place in
  the value. \<open>i\<close> runs over the code's loop variable.
\<close>

fun copy_args :: "byte \<Rightarrow> nat \<Rightarrow> nat \<Rightarrow> nat \<Rightarrow> 64 word \<Rightarrow> bytes \<Rightarrow> (64 word \<times> bytes) option" where
  "copy_args cmd base 0 i v d = Some (v, d)"
| "copy_args cmd base (Suc n) i v d =
     (if bit cmd (base + i) then
        (case d of
           [] \<Rightarrow> None
         | c # d' \<Rightarrow> copy_args cmd base n (Suc i) (v OR push_bit (8 * i) (ucast c)) d')
      else copy_args cmd base n (Suc i) v d)"

definition copy_command :: "byte \<Rightarrow> bytes \<Rightarrow> (64 word \<times> 64 word \<times> bytes) option" where
  "copy_command cmd d =
     (case copy_args cmd 0 4 0 0 d of
        None \<Rightarrow> None
      | Some (off, d1) \<Rightarrow>
          (case copy_args cmd 4 3 0 0 d1 of
             None \<Rightarrow> None
           | Some (sz, d2) \<Rightarrow> Some (off, if sz = 0 then 0x10000 else sz, d2)))"

lemma copy_args_shrinks: "copy_args cmd b n i v d = Some (w, d') \<Longrightarrow> length d' \<le> length d"
proof (induction n arbitrary: i v d)
  case (Suc n)
  show ?case
  proof (cases "bit cmd (b + i)")
    case True
    with Suc.prems Suc.IH show ?thesis by (cases d) (auto intro: le_SucI)
  next
    case False
    with Suc.prems Suc.IH show ?thesis by auto
  qed
qed simp

lemma copy_command_shrinks: "copy_command cmd d = Some (off, sz, d') \<Longrightarrow> length d' \<le> length d"
  by (auto simp: copy_command_def split: option.splits dest!: copy_args_shrinks)

function delta_loop :: "bytes \<Rightarrow> bytes \<Rightarrow> bytes \<Rightarrow> bytes option" where
  "delta_loop base [] out = Some out"
| "delta_loop base (cmd # d) out =
     (if cmd AND 0x80 \<noteq> 0 then
        (case copy_command cmd d of
           None \<Rightarrow> None
         | Some (off, sz, d') \<Rightarrow>
             if off + sz < off \<or> word_of_nat (length base) < off + sz then None
             else delta_loop base d' (out @ take (unat sz) (drop (unat off) base)))
      else if cmd \<noteq> 0 then
        (if length d < unat cmd then None
         else delta_loop base (drop (unat cmd) d) (out @ take (unat cmd) d))
      else None)"
  by pat_completeness auto
termination
  by (relation "measure (\<lambda>(base, d, out). length d)") (auto dest!: copy_command_shrinks)

definition apply_delta :: "bytes \<Rightarrow> bytes \<Rightarrow> bytes option" where
  "apply_delta base delta =
     (case delta_varint delta of
        None \<Rightarrow> None
      | Some (src_size, d1) \<Rightarrow>
          if src_size \<noteq> word_of_nat (length base) then None
          else (case delta_varint d1 of
              None \<Rightarrow> None
            | Some (dst_size, d2) \<Rightarrow>
                (case delta_loop base d2 [] of
                   None \<Rightarrow> None
                 | Some out \<Rightarrow> if word_of_nat (length out) \<noteq> dst_size then None else Some out)))"

section \<open>The reference: instructions\<close>

datatype instr = Copy nat nat | Insert bytes

fun run_instr :: "bytes \<Rightarrow> instr \<Rightarrow> bytes" where
  "run_instr base (Copy off sz) = take sz (drop off base)"
| "run_instr base (Insert b) = b"

definition run_instrs :: "bytes \<Rightarrow> instr list \<Rightarrow> bytes" where
  "run_instrs base is = concat (map (run_instr base) is)"

fun instr_ok :: "bytes \<Rightarrow> instr \<Rightarrow> bool" where
  "instr_ok base (Copy off sz) \<longleftrightarrow>
     0 < sz \<and> sz < 2 ^ 24 \<and> off < 2 ^ 32 \<and> off + sz \<le> length base"
| "instr_ok base (Insert b) \<longleftrightarrow> b \<noteq> [] \<and> length b < 128"

text \<open>How git writes them: little-endian bytes with the zero ones left out.\<close>

fun enc_varint :: "nat \<Rightarrow> bytes" where
  "enc_varint n = (if n < 128 then [word_of_nat n]
                   else word_of_nat (128 + n mod 128) # enc_varint (n div 128))"

declare enc_varint.simps [simp del]

definition le_byte :: "nat \<Rightarrow> nat \<Rightarrow> byte" where
  "le_byte n i = word_of_nat (n div 256 ^ i mod 256)"

definition arg_bytes :: "nat \<Rightarrow> nat \<Rightarrow> bytes" where
  "arg_bytes k n = map (le_byte n) (filter (\<lambda>i. le_byte n i \<noteq> 0) [0..<k])"

definition arg_mask :: "nat \<Rightarrow> nat \<Rightarrow> nat \<Rightarrow> byte" where
  "arg_mask base k n = foldr (\<lambda>i w. if le_byte n i \<noteq> 0 then set_bit (base + i) w else w) [0..<k] 0"

fun enc_instr :: "instr \<Rightarrow> bytes" where
  "enc_instr (Copy off sz) =
     (let s = (if sz = 0x10000 then 0 else sz)
      in set_bit 7 (arg_mask 0 4 off OR arg_mask 4 3 s) # arg_bytes 4 off @ arg_bytes 3 s)"
| "enc_instr (Insert b) = word_of_nat (length b) # b"

definition encode_delta :: "bytes \<Rightarrow> instr list \<Rightarrow> bytes" where
  "encode_delta base is =
     enc_varint (length base) @ enc_varint (length (run_instrs base is)) @ concat (map enc_instr is)"

section \<open>Numbers\<close>

lemma or_shift:
  assumes "v < 2 ^ s"
  shows "word_of_nat v OR push_bit s (word_of_nat w) = (word_of_nat (v + w * 2 ^ s) :: 64 word)"
proof -
  have "bit v n \<Longrightarrow> n < s" for n
    using assms by (metis bit_take_bit_iff take_bit_nat_eq_self)
  then have "v OR push_bit s w = v + push_bit s w"
    by (intro disjunctive_add [symmetric]) (metis bit_push_bit_iff not_le)
  then have "(word_of_nat (v + w * 2 ^ s) :: 64 word) = word_of_nat (v OR push_bit s w)"
    by (simp add: push_bit_eq_mult)
  then show ?thesis by (simp add: of_nat_or_eq push_bit_of_nat)
qed

lemma byte_low_bits:
  assumes "n < 128"
  shows "(word_of_nat (128 + n) :: byte) AND 0x7F = word_of_nat n"
    and "(word_of_nat n :: byte) AND 0x7F = word_of_nat n"
proof -
  have m: "(w :: byte) AND 0x7F = take_bit 7 w" for w
    by (simp add: take_bit_eq_mask mask_numeral)
  have "take_bit 7 (128 + n) = n" "take_bit 7 n = n" using assms by (simp_all add: take_bit_eq_mod)
  then show "(word_of_nat (128 + n) :: byte) AND 0x7F = word_of_nat n"
    and "(word_of_nat n :: byte) AND 0x7F = word_of_nat n"
    unfolding m take_bit_of_nat by simp_all
qed

lemma byte_high_bit:
  assumes "n < 128"
  shows "bit (word_of_nat (128 + n) :: byte) 7" and "\<not> bit (word_of_nat n :: byte) 7"
proof -
  have "(128 + n) div 128 = 1" using assms by (simp add: div_nat_eqI)
  then show "bit (word_of_nat (128 + n) :: byte) 7"
    unfolding bit_of_nat_iff by (simp add: bit_iff_odd)
  show "\<not> bit (word_of_nat n :: byte) 7"
    unfolding bit_of_nat_iff using assms by (simp add: bit_iff_odd)
qed

lemma ucast_small: "n < 128 \<Longrightarrow> (ucast (word_of_nat n :: byte) :: 64 word) = word_of_nat n"
  by (simp add: word_unat_eq_iff unat_of_nat unsigned_ucast_eq take_bit_nat_eq_self)

lemma high_bit: "(c :: byte) AND 0x80 = 0 \<longleftrightarrow> \<not> bit c 7"
  using and_exp_eq_0_iff_not_bit [of c 7] by simp

lemma varint_step:
  assumes "v < 2 ^ s" and "n < 128"
  shows "word_of_nat v OR push_bit s (ucast ((word_of_nat (128 + n) :: byte) AND 0x7F)) =
      (word_of_nat (v + n * 2 ^ s) :: 64 word)"
    and "word_of_nat v OR push_bit s (ucast ((word_of_nat n :: byte) AND 0x7F)) =
      (word_of_nat (v + n * 2 ^ s) :: 64 word)"
  unfolding byte_low_bits [OF assms(2)] ucast_small [OF assms(2)] by (rule or_shift [OF assms(1)])+

lemma varint_loop_enc:
  "v < 2 ^ s \<Longrightarrow> n * 2 ^ s < 2 ^ 64 \<Longrightarrow>
    varint_loop (word_of_nat v) s (enc_varint n @ r) = Some (word_of_nat (v + n * 2 ^ s), r)"
proof (induction n arbitrary: v s rule: enc_varint.induct)
  case (1 n)
  show ?case
  proof (cases "n < 128")
    case True
    then have "\<not> bit (word_of_nat n :: byte) 7" by (rule byte_high_bit)
    with True varint_step(2) [OF "1.prems"(1) True] show ?thesis
      by (subst enc_varint.simps) (simp add: Let_def high_bit)
  next
    case False
    let ?m = "n mod 128"
    have m: "?m < 128" by simp
    have "v + ?m * 2 ^ s < (1 + ?m) * 2 ^ s" using "1.prems"(1) by simp
    also have "\<dots> \<le> 128 * 2 ^ s" using m by (intro mult_right_mono) (simp_all add: Suc_le_eq)
    finally have v: "v + ?m * 2 ^ s < 2 ^ (s + 7)" by (simp add: power_add)
    have "n div 128 * 2 ^ (s + 7) = n div 128 * 128 * 2 ^ s" by (simp add: power_add)
    also have "\<dots> \<le> n * 2 ^ s" by simp
    finally have n: "n div 128 * 2 ^ (s + 7) < 2 ^ 64" using "1.prems"(2) by simp
    have "2 ^ (s + 7) \<le> n div 128 * (2 :: nat) ^ (s + 7)" using False by simp
    with n have "(2 :: nat) ^ (s + 7) < 2 ^ 64" by linarith
    then have s: "s + 7 < 64" by (rule power_less_imp_less_exp [rotated]) simp
    have "varint_loop (word_of_nat (v + ?m * 2 ^ s)) (s + 7) (enc_varint (n div 128) @ r) =
        Some (word_of_nat (v + ?m * 2 ^ s + n div 128 * 2 ^ (s + 7)), r)"
      by (rule "1.IH" [OF False v n])
    also have "v + ?m * 2 ^ s + n div 128 * 2 ^ (s + 7) = v + (?m + n div 128 * 128) * 2 ^ s"
    proof -
      have "v + a * 2 ^ s + b * 2 ^ (s + 7) = v + (a + b * 128) * 2 ^ s" for a b
        by (simp add: power_add algebra_simps)
      then show ?thesis .
    qed
    also have "?m + n div 128 * 128 = n" by simp
    finally have rec: "varint_loop (word_of_nat (v + ?m * 2 ^ s)) (s + 7) (enc_varint (n div 128) @ r) =
        Some (word_of_nat (v + n * 2 ^ s), r)" .
    have "bit (word_of_nat (128 + ?m) :: byte) 7" by (rule byte_high_bit [OF m])
    then have "varint_loop (word_of_nat v) s (word_of_nat (128 + ?m) # enc_varint (n div 128) @ r) =
        Some (word_of_nat (v + n * 2 ^ s), r)"
      using varint_step(1) [OF "1.prems"(1) m] rec s
      by (simp only: varint_loop.simps Let_def high_bit simp_thms if_False) simp
    with False show ?thesis by (subst enc_varint.simps) simp
  qed
qed

lemma delta_varint_enc: "n < 2 ^ 64 \<Longrightarrow> delta_varint (enc_varint n @ r) = Some (word_of_nat n, r)"
  using varint_loop_enc [of 0 0 n r] by (simp add: delta_varint_def)

section \<open>Copy arguments\<close>

lemma unat_le_byte: "unat (le_byte n i) = n div 256 ^ i mod 256"
  by (simp add: le_byte_def unat_of_nat take_bit_eq_mod)

lemma ucast_byte: "(ucast (c :: byte) :: 64 word) = word_of_nat (unat c)"
  by (simp add: word_unat_eq_iff unat_of_nat unsigned_ucast_eq take_bit_nat_eq_self)

lemma low_step: "n mod 256 ^ Suc i = n mod 256 ^ i + n div 256 ^ i mod 256 * 256 ^ i"
  for n :: nat
  using mod_mult2_eq [of n "256 ^ i" 256] by (simp add: mult.commute)

lemma copy_args_enc:
  "(\<And>j. j < k \<Longrightarrow> bit cmd (base + (i + j)) \<longleftrightarrow> le_byte n (i + j) \<noteq> 0) \<Longrightarrow>
    copy_args cmd base k i (word_of_nat (n mod 256 ^ i))
      (map (le_byte n) (filter (\<lambda>i. le_byte n i \<noteq> 0) [i..<i + k]) @ r) =
    Some (word_of_nat (n mod 256 ^ (i + k)), r)"
proof (induction k arbitrary: i)
  case 0
  then show ?case by simp
next
  case (Suc k)
  have bit: "bit cmd (base + i) \<longleftrightarrow> le_byte n i \<noteq> 0" using Suc.prems [of 0] by simp
  have upt: "[i..<i + Suc k] = i # [Suc i..<Suc i + k]" by (simp add: upt_rec)
  have IH: "copy_args cmd base k (Suc i) (word_of_nat (n mod 256 ^ Suc i))
      (map (le_byte n) (filter (\<lambda>i. le_byte n i \<noteq> 0) [Suc i..<Suc i + k]) @ r) =
      Some (word_of_nat (n mod 256 ^ (Suc i + k)), r)"
    by (rule Suc.IH) (use Suc.prems in \<open>metis Suc_less_eq add_Suc_shift\<close>)
  show ?case
  proof (cases "le_byte n i = 0")
    case True
    then have "n div 256 ^ i mod 256 = 0" using unat_le_byte [of n i] by simp
    then have "n mod 256 ^ Suc i = n mod 256 ^ i" unfolding low_step by simp
    with IH bit True show ?thesis unfolding upt by simp
  next
    case False
    have "n mod 256 ^ i < 2 ^ (8 * i)" by (simp add: power_mult)
    from or_shift [OF this, of "unat (le_byte n i)"]
    have "word_of_nat (n mod 256 ^ i) OR push_bit (8 * i) (ucast (le_byte n i)) =
        (word_of_nat (n mod 256 ^ Suc i) :: 64 word)"
      unfolding ucast_byte low_step unat_le_byte by (simp add: power_mult)
    with IH bit False show ?thesis unfolding upt by simp
  qed
qed

lemma bit_arg_mask:
  "bit (arg_mask base k n) j \<longleftrightarrow> j < 8 \<and> (\<exists>i < k. j = base + i \<and> le_byte n i \<noteq> 0)"
proof -
  have "bit (foldr (\<lambda>i w. if le_byte n i \<noteq> 0 then set_bit (base + i) w else w) is (0 :: byte)) j \<longleftrightarrow>
      j < 8 \<and> (\<exists>i \<in> set is. j = base + i \<and> le_byte n i \<noteq> 0)" for "is"
    by (induction "is") (auto simp: bit_set_bit_iff)
  from this [of "[0..<k]"] show ?thesis by (auto simp: arg_mask_def)
qed

lemma copy_command_enc:
  fixes off sz r
  defines "s \<equiv> (if sz = 0x10000 then 0 else sz)"
  assumes "off < 2 ^ 32" "0 < sz" "sz < 2 ^ 24"
  shows "copy_command (set_bit 7 (arg_mask 0 4 off OR arg_mask 4 3 s)) (arg_bytes 4 off @ arg_bytes 3 s @ r)
    = Some (word_of_nat off, word_of_nat sz, r)"
proof -
  let ?c = "set_bit 7 (arg_mask 0 4 off OR arg_mask 4 3 s)"
  have b0: "bit ?c (0 + (0 + j)) \<longleftrightarrow> le_byte off (0 + j) \<noteq> 0" if "j < 4" for j
    using that by (auto simp: bit_set_bit_iff bit_or_iff bit_arg_mask)
  have b4: "bit ?c (4 + (0 + j)) \<longleftrightarrow> le_byte s (0 + j) \<noteq> 0" if "j < 3" for j
    using that by (auto simp: bit_set_bit_iff bit_or_iff bit_arg_mask)
  have s: "s < 2 ^ 24" using assms by (simp add: s_def)
  have "copy_args ?c 0 4 0 0 (arg_bytes 4 off @ arg_bytes 3 s @ r) =
      Some (word_of_nat off, arg_bytes 3 s @ r)"
    using copy_args_enc [OF b0, where r = "arg_bytes 3 s @ r"] assms(2) by (simp add: arg_bytes_def)
  moreover have "copy_args ?c 4 3 0 0 (arg_bytes 3 s @ r) = Some (word_of_nat s, r)"
    using copy_args_enc [OF b4, where r = r] s by (simp add: arg_bytes_def)
  moreover have "(word_of_nat s :: 64 word) = 0 \<longleftrightarrow> s = 0"
    using s by (auto simp: word_unat_eq_iff unat_of_nat take_bit_eq_mod)
  ultimately show ?thesis
    using assms(3) by (auto simp: copy_command_def s_def)
qed

section \<open>Streams\<close>

lemma unat_small: "n < 2 ^ 64 \<Longrightarrow> unat (word_of_nat n :: 64 word) = n"
  by (simp add: unat_of_nat take_bit_nat_eq_self)

lemma delta_loop_enc:
  "list_all (instr_ok base) is \<Longrightarrow> length base < 2 ^ 63 \<Longrightarrow>
    delta_loop base (concat (map enc_instr is)) out = Some (out @ run_instrs base is)"
proof (induction "is" arbitrary: out)
  case Nil
  then show ?case by (simp add: run_instrs_def)
next
  case (Cons i "is")
  then have IH: "delta_loop base (concat (map enc_instr is)) out' = Some (out' @ run_instrs base is)" for out'
    by simp
  show ?case
  proof (cases i)
    case (Copy off sz)
    let ?s = "if sz = 0x10000 then 0 else sz"
    let ?c = "set_bit 7 (arg_mask 0 4 off OR arg_mask 4 3 ?s) :: byte"
    from Cons.prems Copy have ok: "0 < sz" "sz < 2 ^ 24" "off < 2 ^ 32" "off + sz \<le> length base" by auto
    have cmd: "?c AND 0x80 \<noteq> 0" by (simp add: high_bit bit_set_bit_iff)
    have un: "unat (word_of_nat off :: 64 word) = off" "unat (word_of_nat sz :: 64 word) = sz"
      "unat (word_of_nat (length base) :: 64 word) = length base"
      using ok Cons.prems(2) by (simp_all add: unat_small)
    have sum: "unat (word_of_nat off + word_of_nat sz :: 64 word) = off + sz"
      using unat_small [of "off + sz"] ok Cons.prems(2) by simp
    have range: "\<not> (word_of_nat off + word_of_nat sz < (word_of_nat off :: 64 word) \<or>
        word_of_nat (length base) < (word_of_nat off + word_of_nat sz :: 64 word))"
      unfolding word_less_nat_alt sum un using ok by simp
    show ?thesis
      using copy_command_enc [OF ok(3,1,2), of "concat (map enc_instr is)"] cmd range un IH
      by (simp add: Copy Let_def run_instrs_def)
  next
    case (Insert b)
    with Cons.prems have ok: "b \<noteq> []" "length b < 128" by auto
    let ?c = "word_of_nat (length b) :: byte"
    have "unat ?c = length b" using ok by (simp add: unat_of_nat take_bit_nat_eq_self)
    moreover have "?c AND 0x80 = 0" using byte_high_bit(2) [OF ok(2)] by (simp add: high_bit)
    ultimately have "?c AND 0x80 = 0" "unat ?c = length b" "?c \<noteq> 0" using ok(1) by auto
    with IH show ?thesis by (simp add: Insert run_instrs_def)
  qed
qed

lemma apply_encode:
  "list_all (instr_ok base) is \<Longrightarrow> length base < 2 ^ 63 \<Longrightarrow> length (run_instrs base is) < 2 ^ 63 \<Longrightarrow>
    apply_delta base (encode_delta base is) = Some (run_instrs base is)"
  using delta_loop_enc [of base "is" "[]"]
  by (simp add: apply_delta_def encode_delta_def delta_varint_enc)

text \<open>
  C24: what git's encoder writes, the decoder reads. For any list of copies inside the base and
  insertions, the stream with the two length varints and the packed copy arguments decodes
  against the base to exactly the bytes the instructions denote.
\<close>

theorem delta_roundtrip:
  assumes "list_all (instr_ok base) is" and "length base < 2 ^ 63"
    and "length (run_instrs base is) < 2 ^ 63"
  shows "apply_delta base (encode_delta base is) = Some (run_instrs base is)"
  using assms by (rule apply_encode)

theorem delta_roundtrip_witness:
  "apply_delta [1, 2, 3, 4, 5] (encode_delta [1, 2, 3, 4, 5] [Copy 1 3, Insert [9], Copy 0 2]) =
     Some [2, 3, 4, 9, 1, 2]"
proof -
  have ok: "list_all (instr_ok [1, 2, 3, 4, 5]) [Copy 1 3, Insert [9], Copy 0 2]" by simp
  show ?thesis
    using delta_roundtrip [OF ok] by (simp add: run_instrs_def)
qed

text \<open>A stream that is accepted is a list of instructions, all inside the base.\<close>

definition in_base :: "bytes \<Rightarrow> instr \<Rightarrow> bool" where
  "in_base base i \<longleftrightarrow> (case i of Copy off sz \<Rightarrow> 0 < sz \<and> sz < 2 ^ 24 \<and> off + sz \<le> length base
     | Insert b \<Rightarrow> 0 < length b \<and> length b < 128)"

lemma unat_word_inverse: "word_of_nat (unat (v :: 64 word)) = v"
  by simp

lemma copy_args_bound:
  "copy_args cmd b k i v d = Some (w, d') \<Longrightarrow> unat v < 256 ^ i \<Longrightarrow> i + k < 8 \<Longrightarrow> unat w < 256 ^ (i + k)"
proof (induction k arbitrary: i v d)
  case (Suc k)
  show ?case
  proof (cases "bit cmd (b + i)")
    case True
    with Suc.prems(1) obtain c d1 where d: "d = c # d1"
      "copy_args cmd b k (Suc i) (v OR push_bit (8 * i) (ucast c)) d1 = Some (w, d')"
      by (cases d) auto
    have v: "unat v < 2 ^ (8 * i)" using Suc.prems(2) by (simp add: power_mult)
    have le: "unat v + unat c * 2 ^ (8 * i) < 256 ^ Suc i"
    proof -
      have "unat v + unat c * 2 ^ (8 * i) < (1 + unat c) * 2 ^ (8 * i)" using v by simp
      also have "\<dots> \<le> 256 * 2 ^ (8 * i)" by (intro mult_right_mono) (simp_all add: Suc_le_eq)
      finally show ?thesis by (simp add: power_mult)
    qed
    have "(256 :: nat) ^ Suc i \<le> 256 ^ 8" using Suc.prems(3) by (intro power_increasing) simp_all
    with le have "unat v + unat c * 2 ^ (8 * i) < 2 ^ 64" by simp
    then have "unat (word_of_nat (unat v + unat c * 2 ^ (8 * i)) :: 64 word) =
        unat v + unat c * 2 ^ (8 * i)" by (rule unat_small)
    moreover have "v OR push_bit (8 * i) (ucast c) = word_of_nat (unat v + unat c * 2 ^ (8 * i))"
      using or_shift [OF v, of "unat c"] unfolding ucast_byte unat_word_inverse .
    ultimately have "unat (v OR push_bit (8 * i) (ucast c)) = unat v + unat c * 2 ^ (8 * i)"
      by (simp only:)
    with le have "unat (v OR push_bit (8 * i) (ucast c)) < 256 ^ Suc i" by (simp only:)
    then have "unat w < 256 ^ (Suc i + k)" by (rule Suc.IH [OF d(2)]) (use Suc.prems(3) in simp)
    then show ?thesis by simp
  next
    case False
    with Suc.prems(1) have "copy_args cmd b k (Suc i) v d = Some (w, d')" by simp
    moreover have "unat v < 256 ^ Suc i" using Suc.prems(2) by simp
    ultimately have "unat w < 256 ^ (Suc i + k)" by (rule Suc.IH) (use Suc.prems(3) in simp)
    then show ?thesis by simp
  qed
qed simp

lemma copy_command_bound:
  assumes "copy_command cmd d = Some (off, sz, d')"
  shows "0 < unat sz \<and> unat sz < 2 ^ 24 \<and> unat off < 2 ^ 32"
proof -
  from assms obtain d1 s where a: "copy_args cmd 0 4 0 0 d = Some (off, d1)"
    "copy_args cmd 4 3 0 0 d1 = Some (s, d')" "sz = (if s = 0 then 0x10000 else s)"
    by (auto simp: copy_command_def split: option.splits)
  have "unat off < 256 ^ (0 + 4)" by (rule copy_args_bound [OF a(1)]) simp_all
  moreover have "unat s < 256 ^ (0 + 3)" by (rule copy_args_bound [OF a(2)]) simp_all
  moreover have "0 < unat s \<longleftrightarrow> s \<noteq> 0" by (simp add: unat_gt_0)
  ultimately show ?thesis using a(3) by auto
qed

lemma run_instrs_Cons: "run_instrs base (i # is) = run_instr base i @ run_instrs base is"
  by (simp add: run_instrs_def)

lemma delta_loop_sound:
  "delta_loop base d out = Some res \<Longrightarrow> length base < 2 ^ 63 \<Longrightarrow>
    \<exists>is. list_all (in_base base) is \<and> res = out @ run_instrs base is \<and> length is \<le> length d"
proof (induction base d out rule: delta_loop.induct)
  case (1 base out)
  then show ?case by (intro exI [of _ "[]"]) (simp add: run_instrs_def)
next
  case (2 base cmd d out)
  show ?case
  proof (cases "cmd AND 0x80 = 0")
    case False
    with "2.prems"(1) obtain off sz d' where c: "copy_command cmd d = Some (off, sz, d')"
      "\<not> (off + sz < off \<or> word_of_nat (length base) < off + sz)"
      "delta_loop base d' (out @ take (unat sz) (drop (unat off) base)) = Some res"
      by (auto split: option.splits if_splits)
    from "2.IH"(1) [OF False c(1) refl refl c(2,3) "2.prems"(2)] obtain "is" where
      i: "list_all (in_base base) is"
      "res = (out @ take (unat sz) (drop (unat off) base)) @ run_instrs base is" "length is \<le> length d'"
      by blast
    note b = copy_command_bound [OF c(1)]
    have "unat (off + sz) = unat off + unat sz"
      using b by (simp add: unat_word_ariths)
    moreover have "unat (off + sz) \<le> length base"
      using c(2) unat_small [of "length base"] "2.prems"(2) by (simp add: word_less_nat_alt not_less)
    ultimately have "in_base base (Copy (unat off) (unat sz))" using b by (simp add: in_base_def)
    with i copy_command_shrinks [OF c(1)] show ?thesis
      by (intro exI [of _ "Copy (unat off) (unat sz) # is"]) (simp add: run_instrs_Cons)
  next
    case True
    with "2.prems"(1) have c: "cmd \<noteq> 0" "\<not> length d < unat cmd"
      "delta_loop base (drop (unat cmd) d) (out @ take (unat cmd) d) = Some res"
      by (auto split: if_splits)
    from "2.IH"(2) [OF _ c(1,2,3) "2.prems"(2)] True obtain "is" where
      i: "list_all (in_base base) is" "res = (out @ take (unat cmd) d) @ run_instrs base is"
      "length is \<le> length (drop (unat cmd) d)"
      by auto
    have "unat cmd < 128"
    proof -
      have "\<not> bit cmd 7" using True by (simp add: high_bit)
      moreover have "n = 7" if "n < LENGTH(8)" "\<not> n < 7" for n using that by simp
      ultimately have "cmd = take_bit 7 cmd"
        by (intro bit_word_eqI) (metis bit_take_bit_iff)
      then have "unat cmd = take_bit 7 (unat cmd)" by (metis unsigned_take_bit_eq)
      moreover have "take_bit 7 (unat cmd) < 2 ^ 7" by (rule take_bit_nat_less_exp)
      ultimately show ?thesis by simp
    qed
    moreover have "0 < unat cmd" using c(1) by (simp add: unat_gt_0)
    ultimately have "in_base base (Insert (take (unat cmd) d))" using c(2) by (simp add: in_base_def)
    with i c(2) \<open>0 < unat cmd\<close> show ?thesis
      by (intro exI [of _ "Insert (take (unat cmd) d) # is"]) (simp add: run_instrs_Cons)
  qed
qed

lemma varint_loop_shrinks: "varint_loop v s d = Some (w, d') \<Longrightarrow> length d' < length d"
proof (induction v s d rule: varint_loop.induct)
  case (2 v shift c cs)
  then show ?case by (auto simp: Let_def intro: less_SucI split: if_splits)
qed simp

lemma delta_varint_shrinks: "delta_varint d = Some (w, d') \<Longrightarrow> length d' < length d"
  unfolding delta_varint_def by (rule varint_loop_shrinks)

lemma length_run_instrs:
  "list_all (in_base base) is \<Longrightarrow> length (run_instrs base is) \<le> length is * 0xFFFFFF"
proof (induction "is")
  case (Cons i "is")
  then have "length (run_instr base i) \<le> 0xFFFFFF" by (cases i) (auto simp: in_base_def)
  with Cons show ?case by (simp add: run_instrs_Cons)
qed (simp add: run_instrs_def)

text \<open>
  C25: a delta that is accepted is a list of instructions. Whatever the bytes, if the decoder
  gives a result then the stream denotes copies that all lie inside the base, with no wrap-around
  of offset plus size, and insertions it holds itself; the result is exactly what those
  instructions denote, and it is bounded by the length of the stream.
\<close>

theorem delta_sound:
  assumes "apply_delta base delta = Some out" and "length base < 2 ^ 63"
  shows "\<exists>is. list_all (in_base base) is \<and> out = run_instrs base is \<and>
    length out \<le> length delta * 0xFFFFFF"
proof -
  from assms(1) obtain s d1 t d2 where d: "delta_varint delta = Some (s, d1)"
    "delta_varint d1 = Some (t, d2)" "delta_loop base d2 [] = Some out"
    by (auto simp: apply_delta_def split: option.splits if_splits)
  from delta_loop_sound [OF d(3) assms(2)] obtain "is" where
    i: "list_all (in_base base) is" "out = run_instrs base is" "length is \<le> length d2" by auto
  have "length d2 < length delta" using delta_varint_shrinks [OF d(1)] delta_varint_shrinks [OF d(2)] by simp
  with i(3) have "length is * 0xFFFFFF \<le> length delta * 0xFFFFFF" by (intro mult_right_mono) simp_all
  with i length_run_instrs [OF i(1)] show ?thesis by (intro exI [of _ "is"]) simp
qed

theorem delta_sound_witness:
  "\<exists>is. list_all (in_base [7, 8]) is \<and> [7, 8, 7, 8] = run_instrs [7, 8] is"
proof -
  have "list_all (instr_ok [7, 8]) [Copy 0 2, Copy 0 2]" by simp
  then have "apply_delta [7, 8] (encode_delta [7, 8] [Copy 0 2, Copy 0 2]) = Some [7, 8, 7, 8]"
    using apply_encode [of "[7, 8]" "[Copy 0 2, Copy 0 2]"] by (simp add: run_instrs_def)
  from delta_sound [OF this] show ?thesis by auto
qed

lemma copy_args_numeral:
  "copy_args cmd b (numeral k) i v d =
     (if bit cmd (b + i) then
        (case d of
           [] \<Rightarrow> None
         | c # d' \<Rightarrow> copy_args cmd b (pred_numeral k) (Suc i) (v OR push_bit (8 * i) (ucast c)) d')
      else copy_args cmd b (pred_numeral k) (Suc i) v d)"
  by (subst numeral_eq_Suc) simp

text \<open>
  The bound the code announces is not one. A stream of two bytes can produce 255 times
  65536 bytes, more than the 65536 bytes for each byte of the stream that \<open>maxDeltaOutput\<close>
  gives; the code only sizes a buffer with it.
\<close>

theorem delta_output_bound_exceeded:
  "let base = replicate 0xFF0000 (0 :: byte); d = [0xC0, 0xFF]
   in case delta_loop base d [] of
        None \<Rightarrow> False
      | Some out \<Rightarrow> max_delta_output (length d) < length out"
proof -
  have "copy_command 0xC0 [0xFF] = Some (0, 0xFF0000, [])"
    by (simp add: copy_command_def copy_args_numeral)
  then show ?thesis by (simp add: max_delta_output_def Let_def)
qed

end
