(* ===== verification/Inflate.thy ===== *)
theory Inflate
  imports Prelude
begin

text \<open>
  What zlib would have complained about: \<open>internal/zlibmsg\<close>. A plain inflate that stops at the first fault.
  An index of Go's that is an \<open>int\<close> is an \<open>int\<close> here where it is subtracted, a \<open>nat\<close> elsewhere.
\<close>

section \<open>Bits\<close>

record zbits =
  zb_data :: bytes
  zb_pos :: nat
  zb_hold :: "64 word"
  zb_n :: nat
  zb_short :: bool

function need :: "nat \<Rightarrow> zbits \<Rightarrow> bool \<times> zbits" where
  "need n b =
     (if n \<le> zb_n b then (True, b)
      else if length (zb_data b) \<le> zb_pos b then (False, b\<lparr>zb_short := True\<rparr>)
      else need n (b\<lparr>zb_hold := zb_hold b OR push_bit (zb_n b) (ucast (zb_data b ! zb_pos b)),
                     zb_pos := zb_pos b + 1, zb_n := zb_n b + 8\<rparr>))"
  by auto
termination by (relation "measure (\<lambda>(n, b). n - zb_n b)") auto

declare need.simps [simp del]

definition take_bits :: "nat \<Rightarrow> zbits \<Rightarrow> nat option \<times> zbits" where
  "take_bits n b =
     (case need n b of
        (False, b1) \<Rightarrow> (None, b1)
      | (True, b1) \<Rightarrow>
          (Some (unat (ucast (zb_hold b1 AND (2 ^ n - 1)) :: 32 word)),
           b1\<lparr>zb_hold := drop_bit n (zb_hold b1), zb_n := zb_n b1 - n\<rparr>))"

definition align :: "zbits \<Rightarrow> zbits" where
  "align b = b\<lparr>zb_hold := drop_bit (zb_n b mod 8) (zb_hold b), zb_n := zb_n b - zb_n b mod 8\<rparr>"

definition byte_next :: "zbits \<Rightarrow> byte option \<times> zbits" where
  "byte_next b = (case take_bits 8 b of (v, b1) \<Rightarrow> (map_option word_of_nat v, b1))"

section \<open>Alphabets\<close>

definition max_code_bits :: nat where "max_code_bits = 15"

record huff_code =
  hc_counts :: "nat list"
  hc_symbols :: "nat list"
  hc_empty :: bool

text \<open>Kraft's rule: what is left of the code space, unless it is overdrawn.\<close>

fun kraft :: "nat list \<Rightarrow> nat list \<Rightarrow> int \<Rightarrow> int option" where
  "kraft counts [] left = Some left"
| "kraft counts (l # ls) left =
     (let left1 = 2 * left - int (counts ! l) in if left1 < 0 then None else kraft counts ls left1)"

definition count_lengths :: "nat list \<Rightarrow> nat list" where
  "count_lengths lengths = fold (\<lambda>l cs. cs[l := cs ! l + 1]) lengths (replicate (max_code_bits + 1) 0)"

definition longest_code :: "nat list \<Rightarrow> nat" where
  "longest_code counts =
     (case filter (\<lambda>l. 0 < counts ! l) (rev [1..<max_code_bits + 1]) of [] \<Rightarrow> 0 | l # _ \<Rightarrow> l)"

definition code_offsets :: "nat list \<Rightarrow> nat list" where
  "code_offsets counts =
     fold (\<lambda>l offs. offs[l + 1 := offs ! l + counts ! l]) [1..<max_code_bits + 1] (replicate (max_code_bits + 2) 0)"

definition place_symbol :: "nat \<times> nat \<Rightarrow> nat list \<times> nat list \<Rightarrow> nat list \<times> nat list" where
  "place_symbol p s =
     (if snd p \<noteq> 0 then ((fst s)[(snd s ! snd p) := fst p], (snd s)[snd p := snd s ! snd p + 1]) else s)"

definition build_code :: "nat list \<Rightarrow> bool \<Rightarrow> huff_code option" where
  "build_code lengths code_lengths =
     (if list_ex (\<lambda>l. max_code_bits < l) lengths then None
      else
        (let counts = count_lengths lengths; longest = longest_code counts in
         if longest = 0 then Some \<lparr>hc_counts = counts, hc_symbols = [], hc_empty = True\<rparr>
         else (case kraft counts [1..<max_code_bits + 1] 1 of
             None \<Rightarrow> None
           | Some left \<Rightarrow>
               if 0 < left \<and> (code_lengths \<or> longest \<noteq> 1) then None
               else Some \<lparr>hc_counts = counts,
                 hc_symbols = fst (fold place_symbol (zip [0..<length lengths] lengths)
                   (replicate (length lengths - counts ! 0) 0, code_offsets counts)),
                 hc_empty = False\<rparr>)))"

datatype decoded = DecodeOK nat | DecodeInvalid | DecodeShort

fun decode_loop :: "huff_code \<Rightarrow> nat list \<Rightarrow> int \<Rightarrow> int \<Rightarrow> int \<Rightarrow> zbits \<Rightarrow> decoded \<times> zbits" where
  "decode_loop c [] value first index b = (DecodeInvalid, b)"
| "decode_loop c (l # ls) value first index b =
     (case take_bits 1 b of
        (None, b1) \<Rightarrow> (DecodeShort, b1)
      | (Some d, b1) \<Rightarrow>
          (let value1 = (if d = 1 then value + 1 else value); n = int (hc_counts c ! l) in
           if value1 - first < n then (DecodeOK (hc_symbols c ! nat (index + value1 - first)), b1)
           else decode_loop c ls (2 * value1) (2 * (first + n)) (index + n) b1))"

definition decode_sym :: "huff_code \<Rightarrow> zbits \<Rightarrow> decoded \<times> zbits" where
  "decode_sym c b = (if hc_empty c then (DecodeInvalid, b) else decode_loop c [1..<max_code_bits + 1] 0 0 0 b)"

definition fixed_lengths :: "nat list" where
  "fixed_lengths = replicate 144 8 @ replicate 112 9 @ replicate 24 7 @ replicate 8 8"

definition fixed_codes :: "huff_code \<times> huff_code" where
  "fixed_codes = (the (build_code fixed_lengths False), the (build_code (replicate 32 5) False))"

definition code_len_order :: "nat list" where
  "code_len_order = [16, 17, 18, 0, 8, 7, 9, 6, 10, 5, 11, 4, 12, 3, 13, 2, 14, 1, 15]"

definition length_base :: "nat list" where
  "length_base = [3, 4, 5, 6, 7, 8, 9, 10, 11, 13, 15, 17, 19, 23, 27, 31,
     35, 43, 51, 59, 67, 83, 99, 115, 131, 163, 195, 227, 258]"

definition length_extra :: "nat list" where
  "length_extra = [0, 0, 0, 0, 0, 0, 0, 0, 1, 1, 1, 1, 2, 2, 2, 2, 3, 3, 3, 3, 4, 4, 4, 4, 5, 5, 5, 5, 0]"

definition dist_base :: "nat list" where
  "dist_base = [1, 2, 3, 4, 5, 7, 9, 13, 17, 25, 33, 49, 65, 97, 129, 193, 257, 385, 513, 769, 1025, 1537, 2049, 3073,
     4097, 6145, 8193, 12289, 16385, 24577]"

definition dist_extra :: "nat list" where
  "dist_extra = [0, 0, 0, 0, 1, 1, 2, 2, 3, 3, 4, 4, 5, 5, 6, 6, 7, 7, 8, 8, 9, 9, 10, 10, 11, 11, 12, 12, 13, 13]"

section \<open>The output\<close>

definition window_size :: nat where "window_size = 32768"

record inflater =
  zi_in :: zbits
  zi_window :: bytes
  zi_next :: nat
  zi_total :: nat
  zi_a :: "32 word"
  zi_b :: "32 word"
  zi_limit :: int
  zi_full :: bool

definition has_room :: "inflater \<Rightarrow> bool" where
  "has_room i \<longleftrightarrow> zi_limit i < 0 \<or> int (zi_total i) < zi_limit i"

definition adler_sum :: "inflater \<Rightarrow> 32 word" where
  "adler_sum i = push_bit 16 (zi_b i) OR zi_a i"

definition emit_byte :: "byte \<Rightarrow> inflater \<Rightarrow> inflater" where
  "emit_byte c i =
     (let a = (zi_a i + ucast c) mod 65521 in
      i\<lparr>zi_window := (zi_window i)[zi_next i := c], zi_next := (zi_next i + 1) mod window_size, zi_total := zi_total i + 1,
        zi_a := a, zi_b := (zi_b i + a) mod 65521\<rparr>)"

definition back_byte :: "nat \<Rightarrow> inflater \<Rightarrow> byte" where
  "back_byte dist i = zi_window i ! nat ((int (zi_next i) - int dist + int window_size) mod int window_size)"

text \<open>\<open>with_bits\<close> runs a read on the input of the inflater.\<close>

definition with_bits :: "(zbits \<Rightarrow> 'a \<times> zbits) \<Rightarrow> inflater \<Rightarrow> 'a \<times> inflater" where
  "with_bits f i = (case f (zi_in i) of (x, b) \<Rightarrow> (x, i\<lparr>zi_in := b\<rparr>))"

datatype fault = NoFault | DataFault bytes | NeedDict

text \<open>The bytes of a stored block, one at a time.\<close>

fun copy_stored :: "nat \<Rightarrow> inflater \<Rightarrow> inflater" where
  "copy_stored 0 i = i"
| "copy_stored (Suc n) i =
     (if \<not> has_room i then i\<lparr>zi_full := True\<rparr>
      else (case with_bits byte_next i of
          (None, i1) \<Rightarrow> i1
        | (Some c, i1) \<Rightarrow> copy_stored n (emit_byte c i1)))"

definition stored_block :: "inflater \<Rightarrow> fault \<times> inflater" where
  "stored_block i =
     (case with_bits (take_bits 16) (i\<lparr>zi_in := align (zi_in i)\<rparr>) of
        (None, i1) \<Rightarrow> (NoFault, i1)
      | (Some len, i1) \<Rightarrow>
          (case with_bits (take_bits 16) i1 of
             (None, i2) \<Rightarrow> (NoFault, i2)
           | (Some nlen, i2) \<Rightarrow>
               if (word_of_nat len :: 32 word) \<noteq> word_of_nat nlen XOR 0xFFFF
               then (DataFault (str ''invalid stored block lengths''), i2)
               else (NoFault, copy_stored len i2)))"

text \<open>The bytes of a match. The flag is that there was no room.\<close>

fun copy_match :: "nat \<Rightarrow> nat \<Rightarrow> inflater \<Rightarrow> bool \<times> inflater" where
  "copy_match dist 0 i = (False, i)"
| "copy_match dist (Suc n) i =
     (if \<not> has_room i then (True, i\<lparr>zi_full := True\<rparr>) else copy_match dist n (emit_byte (back_byte dist i) i))"

section \<open>Blocks\<close>

text \<open>What is left to read, in bits. \<open>need\<close> keeps it, a symbol takes at least one.\<close>

definition bits_left :: "zbits \<Rightarrow> nat" where
  "bits_left b = zb_n b + 8 * (length (zb_data b) - zb_pos b)"

lemma need_left: "need n b = (ok, b1) \<Longrightarrow> bits_left b1 = bits_left b \<and> (ok \<longrightarrow> n \<le> zb_n b1)"
proof (induction n b rule: need.induct)
  case (1 n b)
  show ?case using "1.prems" "1.IH" by (subst (asm) need.simps) (auto simp: bits_left_def split: if_splits)
qed

lemma take_left: "take_bits n b = (r, b1) \<Longrightarrow> bits_left b1 \<le> bits_left b \<and> (r \<noteq> None \<longrightarrow> bits_left b1 + n = bits_left b)"
  using need_left [of n b] unfolding take_bits_def
  by (cases "need n b") (auto simp: bits_left_def split: bool.splits)

lemma decode_loop_left:
  "decode_loop c ls v f x b = (r, b1) \<Longrightarrow> bits_left b1 \<le> bits_left b \<and> (\<forall>s. r = DecodeOK s \<longrightarrow> bits_left b1 < bits_left b)"
proof (induction c ls v f x b rule: decode_loop.induct)
  case (2 c l ls vl ft ix b)
  show ?case
  proof (cases "take_bits 1 b")
    case (Pair d b2)
    show ?thesis
    proof (cases d)
      case None
      then show ?thesis using 2(2) Pair take_left [OF Pair] by auto
    next
      case (Some dd)
      have t: "bits_left b2 + 1 = bits_left b" using take_left [OF Pair] Some by simp
      show ?thesis
      proof (cases "(if dd = 1 then vl + 1 else vl) - ft < int (hc_counts c ! l)")
        case True
        then show ?thesis using 2(2) Pair Some t by (auto simp: Let_def)
      next
        case False
        then show ?thesis using 2(2) 2(1) [OF Pair [symmetric] Some refl refl False] Pair Some t by (auto simp: Let_def)
      qed
    qed
  qed
qed simp

lemma decode_left: "decode_sym c b = (DecodeOK s, b1) \<Longrightarrow> bits_left b1 < bits_left b"
  by (auto simp: decode_sym_def split: if_splits dest: decode_loop_left)

lemma copy_match_in: "zi_in (snd (copy_match d n i)) = zi_in i"
  by (induction d n i rule: copy_match.induct) (auto simp: emit_byte_def Let_def)

text \<open>The match that the length symbol \<open>symb\<close> begins, and what it copies. \<open>None\<close> is that the block is over.\<close>

definition match_step :: "huff_code \<Rightarrow> nat \<Rightarrow> inflater \<Rightarrow> fault option \<times> inflater" where
  "match_step distances symb i =
     (case with_bits (take_bits (length_extra ! (symb - 257))) i of
        (None, i1) \<Rightarrow> (Some NoFault, i1)
      | (Some extra, i1) \<Rightarrow>
          (case with_bits (decode_sym distances) i1 of
             (DecodeShort, i2) \<Rightarrow> (Some NoFault, i2)
           | (DecodeInvalid, i2) \<Rightarrow> (Some (DataFault (str ''invalid distance code'')), i2)
           | (DecodeOK dsym, i2) \<Rightarrow>
               if 29 < dsym then (Some (DataFault (str ''invalid distance code'')), i2)
               else (case with_bits (take_bits (dist_extra ! dsym)) i2 of
                   (None, i3) \<Rightarrow> (Some NoFault, i3)
                 | (Some dextra, i3) \<Rightarrow>
                     (let dist = dist_base ! dsym + dextra in
                      if zi_total i3 < dist then (Some (DataFault (str ''invalid distance too far back'')), i3)
                      else (case copy_match dist (length_base ! (symb - 257) + extra) i3 of
                          (full, i4) \<Rightarrow> (if full then Some NoFault else None, i4))))))"

lemma with_take_left: "with_bits (take_bits n) i = (r, i1) \<Longrightarrow> bits_left (zi_in i1) \<le> bits_left (zi_in i)"
  using take_left [of n "zi_in i"] by (auto simp: with_bits_def split: prod.splits)

lemma with_decode_left: "with_bits (decode_sym c) i = (r, i1) \<Longrightarrow> bits_left (zi_in i1) \<le> bits_left (zi_in i)"
  by (auto simp: with_bits_def decode_sym_def split: prod.splits if_splits dest: decode_loop_left)

lemma with_symbol_left: "with_bits (decode_sym c) i = (DecodeOK s, i1) \<Longrightarrow> bits_left (zi_in i1) < bits_left (zi_in i)"
  by (auto simp: with_bits_def split: prod.splits dest: decode_left)

lemma match_left:
  assumes "match_step distances symb i = (r, i1)"
  shows "bits_left (zi_in i1) \<le> bits_left (zi_in i)"
proof -
  have m: "bits_left (zi_in i3) = bits_left (zi_in i2)" if "copy_match d n i2 = (f, i3)" for d n i2 f i3
    using copy_match_in [of d n i2] that by simp
  show ?thesis using assms unfolding match_step_def
    by (auto simp: m Let_def split: prod.splits option.splits decoded.splits if_splits
        dest!: with_take_left with_decode_left)
qed

function block_loop :: "huff_code \<times> huff_code \<Rightarrow> inflater \<Rightarrow> fault \<times> inflater" where
  "block_loop t i =
     (case with_bits (decode_sym (fst t)) i of
        (DecodeShort, i1) \<Rightarrow> (NoFault, i1)
      | (DecodeInvalid, i1) \<Rightarrow> (DataFault (str ''invalid literal/length code''), i1)
      | (DecodeOK symb, i1) \<Rightarrow>
          if symb < 256 then
            (if \<not> has_room i1 then (NoFault, i1\<lparr>zi_full := True\<rparr>) else block_loop t (emit_byte (word_of_nat symb) i1))
          else if symb = 256 then (NoFault, i1)
          else if 285 < symb then (DataFault (str ''invalid literal/length code''), i1)
          else (case match_step (snd t) symb i1 of
              (Some f, i2) \<Rightarrow> (f, i2)
            | (None, i2) \<Rightarrow> block_loop t i2))"
  by auto

termination
proof (relation "measure (\<lambda>(t, i). bits_left (zi_in i))", goal_cases)
  case 1
  show ?case by simp
next
  case (2 t i x i1 symb)
  then show ?case
    by (auto simp: with_bits_def emit_byte_def Let_def split: prod.splits dest: decode_left)
next
  case (3 t i x i1 symb r i2)
  then have "bits_left (zi_in i1) < bits_left (zi_in i)" by (auto simp: with_bits_def split: prod.splits dest: decode_left)
  moreover have "bits_left (zi_in i2) \<le> bits_left (zi_in i1)" using 3 match_left by metis
  ultimately show ?case by simp
qed

declare block_loop.simps [simp del]

text \<open>The code lengths of a block's alphabets.\<close>

primrec fill_lengths :: "nat \<Rightarrow> nat \<Rightarrow> nat \<Rightarrow> nat list \<Rightarrow> nat list" where
  "fill_lengths 0 at value lens = lens"
| "fill_lengths (Suc n) at value lens = fill_lengths n (at + 1) value (lens[at := value])"

lemma fill_length [simp]: "length (fill_lengths n at value lens) = length lens"
  by (induction n arbitrary: at lens) auto

text \<open>How many lengths a symbol from 16 on repeats, and which. \<open>Inl\<close> ends the run.\<close>

definition repeat_count :: "nat \<Rightarrow> nat \<Rightarrow> nat list \<Rightarrow> inflater \<Rightarrow> (fault + nat \<times> nat) \<times> inflater" where
  "repeat_count symb at lens i =
     (if symb = 16 then
        (if at = 0 then (Inl (DataFault (str ''invalid bit length repeat'')), i)
         else (case with_bits (take_bits 2) i of
             (None, i1) \<Rightarrow> (Inl NoFault, i1)
           | (Some n, i1) \<Rightarrow> (Inr (lens ! (at - 1), 3 + n), i1)))
      else if symb = 17 then
        (case with_bits (take_bits 3) i of
           (None, i1) \<Rightarrow> (Inl NoFault, i1)
         | (Some n, i1) \<Rightarrow> (Inr (0, 3 + n), i1))
      else
        (case with_bits (take_bits 7) i of
           (None, i1) \<Rightarrow> (Inl NoFault, i1)
         | (Some n, i1) \<Rightarrow> (Inr (0, 11 + n), i1)))"

lemma repeat_pos: "repeat_count symb at lens i = (Inr (value, n), i1) \<Longrightarrow> 0 < n"
  by (auto simp: repeat_count_def split: if_splits prod.splits option.splits)

function read_lengths :: "huff_code \<Rightarrow> nat \<Rightarrow> nat list \<Rightarrow> inflater \<Rightarrow> (fault \<times> nat list) \<times> inflater" where
  "read_lengths codes at lens i =
     (if length lens \<le> at then ((NoFault, lens), i)
      else (case with_bits (decode_sym codes) i of
          (DecodeShort, i1) \<Rightarrow> ((NoFault, lens), i1)
        | (DecodeInvalid, i1) \<Rightarrow> ((DataFault (str ''invalid code lengths set''), lens), i1)
        | (DecodeOK symb, i1) \<Rightarrow>
            if symb < 16 then read_lengths codes (at + 1) (lens[at := symb]) i1
            else (case repeat_count symb at lens i1 of
                (Inl f, i2) \<Rightarrow> ((f, lens), i2)
              | (Inr (value, n), i2) \<Rightarrow>
                  if length lens < at + n then ((DataFault (str ''invalid bit length repeat''), lens), i2)
                  else read_lengths codes (at + n) (fill_lengths n at value lens) i2)))"
  by auto
termination
  by (relation "measure (\<lambda>(codes, at, lens, i). length lens - at)") (auto dest!: sym [THEN repeat_pos])

declare read_lengths.simps [simp del]

fun code_lens_loop :: "nat list \<Rightarrow> nat list \<Rightarrow> inflater \<Rightarrow> nat list option \<times> inflater" where
  "code_lens_loop [] lens i = (Some lens, i)"
| "code_lens_loop (k # ks) lens i =
     (case with_bits (take_bits 3) i of
        (None, i1) \<Rightarrow> (None, i1)
      | (Some v, i1) \<Rightarrow> code_lens_loop ks (lens[k := v]) i1)"

text \<open>The rest of \<open>dynamic\<close> once the lengths are read.\<close>

definition dynamic_body :: "nat \<Rightarrow> nat list \<Rightarrow> inflater \<Rightarrow> fault \<times> inflater" where
  "dynamic_body nlen lens i =
     (if lens ! 256 = 0 then (DataFault (str ''invalid code -- missing end-of-block''), i)
      else (case build_code (take nlen lens) False of
          None \<Rightarrow> (DataFault (str ''invalid literal/lengths set''), i)
        | Some lengths \<Rightarrow>
            (case build_code (drop nlen lens) False of
               None \<Rightarrow> (DataFault (str ''invalid distances set''), i)
             | Some distances \<Rightarrow> block_loop (lengths, distances) i)))"

definition dynamic_tables :: "nat \<Rightarrow> nat \<Rightarrow> nat list \<Rightarrow> inflater \<Rightarrow> fault \<times> inflater" where
  "dynamic_tables nlen ndist code_lens i =
     (case build_code code_lens True of
        None \<Rightarrow> (DataFault (str ''invalid code lengths set''), i)
      | Some codes \<Rightarrow>
          if hc_empty codes then dynamic_body nlen (replicate (nlen + ndist) 0) i
          else (case read_lengths codes 0 (replicate (nlen + ndist) 0) i of
              ((f, lens), i1) \<Rightarrow> if f \<noteq> NoFault \<or> zb_short (zi_in i1) then (f, i1) else dynamic_body nlen lens i1))"

definition dynamic_block :: "inflater \<Rightarrow> fault \<times> inflater" where
  "dynamic_block i =
     (case with_bits (take_bits 5) i of
        (None, i1) \<Rightarrow> (NoFault, i1)
      | (Some hlit, i1) \<Rightarrow>
          (case with_bits (take_bits 5) i1 of
             (None, i2) \<Rightarrow> (NoFault, i2)
           | (Some hdist, i2) \<Rightarrow>
               (case with_bits (take_bits 4) i2 of
                  (None, i3) \<Rightarrow> (NoFault, i3)
                | (Some hclen, i3) \<Rightarrow>
                    if 286 < hlit + 257 \<or> 30 < hdist + 1
                    then (DataFault (str ''too many length or distance symbols''), i3)
                    else (case code_lens_loop (take (hclen + 4) code_len_order) (replicate 19 0) i3 of
                        (None, i4) \<Rightarrow> (NoFault, i4)
                      | (Some code_lens, i4) \<Rightarrow> dynamic_tables (hlit + 257) (hdist + 1) code_lens i4))))"

text \<open>No block gives input back.\<close>

lemma align_left: "bits_left (align b) \<le> bits_left b"
  by (simp add: bits_left_def align_def)

lemma with_byte_left: "with_bits byte_next i = (r, i1) \<Longrightarrow> bits_left (zi_in i1) \<le> bits_left (zi_in i)"
  using take_left [of 8 "zi_in i"] by (auto simp: with_bits_def byte_next_def split: prod.splits)

lemma emit_in [simp]: "zi_in (emit_byte c i) = zi_in i"
  by (simp add: emit_byte_def Let_def)

lemma copy_stored_left: "bits_left (zi_in (copy_stored n i)) \<le> bits_left (zi_in i)"
proof (induction n i rule: copy_stored.induct)
  case (2 n i)
  show ?case
  proof (cases "with_bits byte_next i")
    case (Pair r i1)
    show ?thesis using with_byte_left [OF Pair] Pair 2 [OF _ Pair [symmetric]]
      by (cases r) (auto intro: order_trans)
  qed
qed simp

lemma stored_left: "stored_block i = (f, i1) \<Longrightarrow> bits_left (zi_in i1) \<le> bits_left (zi_in i)"
proof -
  assume s: "stored_block i = (f, i1)"
  have a: "bits_left (zi_in (i\<lparr>zi_in := align (zi_in i)\<rparr>)) \<le> bits_left (zi_in i)" by (simp add: align_left)
  obtain r j where 1: "with_bits (take_bits 16) (i\<lparr>zi_in := align (zi_in i)\<rparr>) = (r, j)" by fastforce
  obtain t k where 2: "with_bits (take_bits 16) j = (t, k)" by fastforce
  show ?thesis using s a with_take_left [OF 1] with_take_left [OF 2] copy_stored_left [of _ k]
    unfolding stored_block_def 1 prod.case 2 by (auto split: option.splits if_splits intro: order_trans)
qed

lemma block_left: "block_loop t i = (f, i1) \<Longrightarrow> bits_left (zi_in i1) \<le> bits_left (zi_in i)"
proof (induction t i rule: block_loop.induct)
  case (1 t i)
  obtain r j where d: "with_bits (decode_sym (fst t)) i = (r, j)" by fastforce
  note j = with_decode_left [OF d]
  show ?case
  proof (cases r)
    case (DecodeOK s)
    note IH = 1(1,2) [OF d [symmetric] DecodeOK]
    obtain g k where m: "match_step (snd t) s j = (g, k)" by fastforce
    consider "s < 256" "has_room j" | "s < 256" "\<not> has_room j" | "s = 256" | "285 < s" | "256 < s" "s \<le> 285" by linarith
    then show ?thesis
    proof cases
      case 1
      then show ?thesis using IH(1) j \<open>block_loop t i = _\<close> d DecodeOK by (subst (asm) block_loop.simps) fastforce
    next
      case 5
      then show ?thesis using IH(2) [OF _ _ _ m [symmetric]] j match_left [OF m] \<open>block_loop t i = _\<close> d DecodeOK m
        by (subst (asm) block_loop.simps) (cases g; fastforce)
    qed (use \<open>block_loop t i = _\<close> d DecodeOK j in \<open>auto simp: block_loop.simps [of t i]\<close>)
  qed (use \<open>block_loop t i = _\<close> d j in \<open>auto simp: block_loop.simps [of t i]\<close>)
qed

lemma repeat_left: "repeat_count s at lens i = (r, i1) \<Longrightarrow> bits_left (zi_in i1) \<le> bits_left (zi_in i)"
  by (auto simp: repeat_count_def split: if_splits prod.splits option.splits dest!: with_take_left)

lemma read_left: "read_lengths c at lens i = (r, i1) \<Longrightarrow> bits_left (zi_in i1) \<le> bits_left (zi_in i)"
proof (induction c at lens i rule: read_lengths.induct)
  case (1 c at lens i)
  obtain d j where d: "with_bits (decode_sym c) i = (d, j)" by fastforce
  note j = with_decode_left [OF d]
  show ?case
  proof (cases "length lens \<le> at")
    case True
    then show ?thesis using 1(3) by (simp add: read_lengths.simps)
  next
    case at: False
    show ?thesis
    proof (cases d)
      case (DecodeOK s)
      obtain g k where m: "repeat_count s at lens j = (g, k)" by fastforce
      note IH = 1(1,2) [OF at d [symmetric] DecodeOK]
      show ?thesis
      proof (cases "s < 16")
        case True
        then show ?thesis using IH(1) j 1(3) at d DecodeOK by (subst (asm) (2) read_lengths.simps) fastforce
      next
        case False
        show ?thesis
        proof (cases g)
          case (Inl f)
          then show ?thesis using 1(3) at d DecodeOK False m j repeat_left [OF m] by (subst (asm) read_lengths.simps) auto
        next
          case (Inr p)
          then show ?thesis using IH(2) [OF False m [symmetric] Inr, of "fst p" "snd p"] 1(3) at d DecodeOK False m j repeat_left [OF m]
            by (subst (asm) (2) read_lengths.simps) (cases p; auto split: if_splits)
        qed
      qed
    qed (use 1(3) at d j in \<open>auto simp: read_lengths.simps [of c at lens i]\<close>)
  qed
qed

lemma code_lens_left: "code_lens_loop ks lens i = (r, i1) \<Longrightarrow> bits_left (zi_in i1) \<le> bits_left (zi_in i)"
proof (induction ks lens i rule: code_lens_loop.induct)
  case (2 k ks lens i)
  obtain d j where d: "with_bits (take_bits 3) i = (d, j)" by fastforce
  show ?case using with_take_left [OF d] d 2(2) 2(1) [OF d [symmetric]]
    by (cases d) auto
qed simp

lemma dynamic_body_left: "dynamic_body n lens i = (f, i1) \<Longrightarrow> bits_left (zi_in i1) \<le> bits_left (zi_in i)"
  by (auto simp: dynamic_body_def split: if_splits option.splits dest: block_left)

lemma dynamic_tables_left: "dynamic_tables n d lens i = (f, i1) \<Longrightarrow> bits_left (zi_in i1) \<le> bits_left (zi_in i)"
  by (auto simp: dynamic_tables_def split: if_splits option.splits prod.splits dest!: dynamic_body_left read_left)

lemma dynamic_left: "dynamic_block i = (f, i1) \<Longrightarrow> bits_left (zi_in i1) \<le> bits_left (zi_in i)"
  unfolding dynamic_block_def
  by (auto split: if_splits option.splits prod.splits dest!: with_take_left code_lens_left dynamic_tables_left)

section \<open>The stream\<close>

text \<open>\<open>Inl\<close> is that the header ends the run.\<close>

definition zlib_header :: "inflater \<Rightarrow> (fault + unit) \<times> inflater" where
  "zlib_header i =
     (case need 16 (zi_in i) of
        (False, b) \<Rightarrow> (Inl NoFault, i\<lparr>zi_in := b\<rparr>)
      | (True, b) \<Rightarrow>
          (let cmf = ucast (zb_hold b AND 0xFF) :: 32 word; flg = ucast (drop_bit 8 (zb_hold b) AND 0xFF) :: 32 word;
               i1 = i\<lparr>zi_in := b\<rparr>;
               i2 = i\<lparr>zi_in := b\<lparr>zb_hold := drop_bit 16 (zb_hold b), zb_n := zb_n b - 16\<rparr>\<rparr> in
           if (push_bit 8 cmf + flg) mod 31 \<noteq> 0 then (Inl (DataFault (str ''incorrect header check'')), i1)
           else if cmf AND 0x0F \<noteq> 8 then (Inl (DataFault (str ''unknown compression method'')), i1)
           else if 15 < drop_bit 4 cmf + 8 then (Inl (DataFault (str ''invalid window size'')), i1)
           else if flg AND 0x20 \<noteq> 0 then (Inl NeedDict, i2)
           else (Inr (), i2)))"

fun want_loop :: "nat \<Rightarrow> inflater \<Rightarrow> bytes option \<times> inflater" where
  "want_loop 0 i = (Some [], i)"
| "want_loop (Suc n) i =
     (case with_bits byte_next i of
        (None, i1) \<Rightarrow> (None, i1)
      | (Some c, i1) \<Rightarrow> (case want_loop n i1 of (cs, i2) \<Rightarrow> (map_option ((#) c) cs, i2)))"

definition check_adler :: "inflater \<Rightarrow> fault \<times> inflater" where
  "check_adler i =
     (case want_loop 4 (i\<lparr>zi_in := align (zi_in i)\<rparr>) of
        (None, i1) \<Rightarrow> (NoFault, i1)
      | (Some want, i1) \<Rightarrow>
          if be32 want \<noteq> unat (adler_sum i1) then (DataFault (str ''incorrect data check''), i1) else (NoFault, i1))"

definition one_block :: "nat \<Rightarrow> inflater \<Rightarrow> fault \<times> inflater" where
  "one_block kind i =
     (if kind = 0 then stored_block i else if kind = 1 then block_loop fixed_codes i else dynamic_block i)"

lemma one_block_left: "one_block kind i = (f, i1) \<Longrightarrow> bits_left (zi_in i1) \<le> bits_left (zi_in i)"
  by (auto simp: one_block_def split: if_splits dest: stored_left block_left dynamic_left)

lemma turn_left:
  assumes "(Some final, i1) = with_bits (take_bits 1) i" "(r, i2) = with_bits (take_bits 2) i1" "(f, i3) = one_block kind i2"
  shows "bits_left (zi_in i3) < bits_left (zi_in i)"
proof -
  have "bits_left (zi_in i1) < bits_left (zi_in i)"
    using assms(1) take_left [of 1 "zi_in i"] by (auto simp: with_bits_def split: prod.splits)
  moreover have "bits_left (zi_in i2) \<le> bits_left (zi_in i1)" by (rule with_take_left [OF assms(2) [symmetric]])
  ultimately show ?thesis using one_block_left [OF assms(3) [symmetric]] by linarith
qed

text \<open>\<open>run\<close> after the header, one block a turn.\<close>

function run_blocks :: "inflater \<Rightarrow> fault \<times> inflater" where
  "run_blocks i =
     (case with_bits (take_bits 1) i of
        (None, i1) \<Rightarrow> (NoFault, i1)
      | (Some final, i1) \<Rightarrow>
          (case with_bits (take_bits 2) i1 of
             (None, i2) \<Rightarrow> (NoFault, i2)
           | (Some kind, i2) \<Rightarrow>
               if 2 < kind then (DataFault (str ''invalid block type''), i2)
               else (case one_block kind i2 of
                   (f, i3) \<Rightarrow>
                     if f \<noteq> NoFault \<or> zb_short (zi_in i3) \<or> zi_full i3 then (f, i3)
                     else if final = 1 then check_adler i3
                     else run_blocks i3)))"
  by auto
termination by (relation "measure (\<lambda>i. bits_left (zi_in i))") (use turn_left in \<open>fastforce+\<close>)

declare run_blocks.simps [simp del]

definition run_inflater :: "inflater \<Rightarrow> fault" where
  "run_inflater i = (case zlib_header i of (Inl f, i1) \<Rightarrow> f | (Inr _, i1) \<Rightarrow> fst (run_blocks i1))"

definition new_inflater :: "bytes \<Rightarrow> int \<Rightarrow> inflater" where
  "new_inflater raw limit =
     \<lparr>zi_in = \<lparr>zb_data = raw, zb_pos = 0, zb_hold = 0, zb_n = 0, zb_short = False\<rparr>,
      zi_window = replicate window_size 0, zi_next = 0, zi_total = 0, zi_a = 1, zi_b = 0,
      zi_limit = limit, zi_full = False\<rparr>"

definition fault_line :: "fault \<Rightarrow> bytes" where
  "fault_line f =
     (case f of
        NoFault \<Rightarrow> []
      | NeedDict \<Rightarrow> str ''inflate: needs dictionary (no message)''
      | DataFault msg \<Rightarrow> str ''inflate: data stream error ('' @ msg @ str '')'')"

definition diagnose :: "bytes \<Rightarrow> int \<Rightarrow> bytes" where
  "diagnose raw limit = fault_line (run_inflater (new_inflater raw limit))"

end
