(* ===== verification/DeltaWalk.thy ===== *)
theory DeltaWalk
  imports Layout Delta Inflate
begin

text \<open>
  The delta walk: \<open>internal/odb/deltawalk.go\<close> and the reports of \<open>internal/odb/verify.go\<close> it makes.
  The decompressor is a parameter: \<open>we_inflate\<close> is \<open>Inflate\<close> at a data offset and a size,
  \<open>we_copy\<close> the bytes \<open>StreamHash\<close> copies. The budget is
  shared by every worker of the pack; \<open>we_others k\<close> is what the other workers together add to it
  before this worker's \<open>k\<close>-th step, so a theorem for every \<open>we_others\<close> holds for every interleaving.
\<close>

record walk_env =
  we_pack :: pack
  we_layout :: layout
  we_inflate :: "int \<Rightarrow> int \<Rightarrow> bytes option"
  we_copy :: "int \<Rightarrow> int \<Rightarrow> bytes option"
  we_threshold :: int
  we_others :: "nat \<Rightarrow> int"

text \<open>What the walk says of an entry, in the order it says it.\<close>

datatype event =
    HeaderMsg oid header_error
  | InflateMsg oid bytes
  | CannotUnpack oid int
  | Corrupt oid
  | Object oid obj_type int "bytes option"
  | Progress

definition hash_literal :: "algo \<Rightarrow> bytes \<Rightarrow> bytes \<Rightarrow> oid" where
  "hash_literal a name content =
     from_bytes (digest a (name @ str '' '' @ dec_int (int (length content)) @ [0] @ content))"

definition walk_entry :: "walk_env \<Rightarrow> nat \<Rightarrow> pack_entry" where
  "walk_entry w i = ly_ents (we_layout w) ! i"

definition entry_oid :: "walk_env \<Rightarrow> nat \<Rightarrow> oid" where
  "entry_oid w i = oid_at (we_pack w) (pe_idx (walk_entry w i))"

text \<open>\<open>InflateMessage\<close>: one byte more room than the entry's size, so that a longer payload is noticed.\<close>

definition inflate_message :: "pack \<Rightarrow> int \<Rightarrow> int \<Rightarrow> bytes" where
  "inflate_message p data_offset n =
     (if data_offset < 0 \<or> int (length (pk_data p)) < data_offset then []
      else diagnose (drop (nat data_offset) (pk_data p)) (n + 1))"

definition cannot_unpack :: "walk_env \<Rightarrow> nat \<Rightarrow> event list" where
  "cannot_unpack w i =
     (case header_errs (we_layout w) i of
        Some m \<Rightarrow> [HeaderMsg (entry_oid w i) m]
      | None \<Rightarrow>
          (let m = inflate_message (we_pack w) (data_off (walk_entry w i)) (pe_size (walk_entry w i))
           in if m \<noteq> [] then [InflateMsg (entry_oid w i) m] else [])) @
     [CannotUnpack (entry_oid w i) (pe_off (walk_entry w i))]"

text \<open>The stack of \<open>failSubtree\<close>, its top at the head.\<close>

partial_function (option) fail_loop :: "walk_env \<Rightarrow> nat list \<Rightarrow> event list \<Rightarrow> event list option" where
  "fail_loop w stack out =
     (case stack of
        [] \<Rightarrow> Some out
      | i # rest \<Rightarrow> fail_loop w (rev (children (we_layout w) i) @ rest) (out @ cannot_unpack w i))"

definition fail_subtree :: "walk_env \<Rightarrow> nat \<Rightarrow> event list option" where
  "fail_subtree w root = fail_loop w (rev (children (we_layout w) root)) []"

definition finish :: "walk_env \<Rightarrow> nat \<Rightarrow> obj_type \<Rightarrow> bytes \<Rightarrow> event list" where
  "finish w i t data =
     (if hash_literal (pk_algo (we_pack w)) (type_name t) data \<noteq> entry_oid w i then [Corrupt (entry_oid w i)]
      else [Object (entry_oid w i) t (int (length data)) (Some data), Progress])"

definition stream_hash :: "walk_env \<Rightarrow> int \<Rightarrow> int \<Rightarrow> obj_type \<Rightarrow> oid option" where
  "stream_hash w off sz t =
     (case we_copy w off sz of
        None \<Rightarrow> None
      | Some b \<Rightarrow> Some (from_bytes (digest (pk_algo (we_pack w)) (type_header t sz @ b))))"

definition finish_streamed :: "walk_env \<Rightarrow> nat \<Rightarrow> event list" where
  "finish_streamed w i =
     (let e = walk_entry w i in
      case stream_hash w (data_off e) (pe_size e) (pe_typ e) of
        None \<Rightarrow> cannot_unpack w i
      | Some got \<Rightarrow>
          if got \<noteq> entry_oid w i then [Corrupt (entry_oid w i)]
          else [Object (entry_oid w i) (pe_typ e) (pe_size e) None, Progress])"

definition materialize_root :: "walk_env \<Rightarrow> nat \<Rightarrow> (obj_type \<times> bytes) option" where
  "materialize_root w i =
     (let e = walk_entry w i in
      if pe_typ e \<in> {TypeRefDelta, TypeOfsDelta} then None
      else map_option (Pair (pe_typ e)) (we_inflate w (data_off e) (pe_size e)))"

text \<open>One delta on a decoded base.\<close>

definition decode_child :: "walk_env \<Rightarrow> bytes \<Rightarrow> nat \<Rightarrow> bytes option" where
  "decode_child w base c =
     (case we_inflate w (data_off (walk_entry w c)) (pe_size (walk_entry w c)) of
        None \<Rightarrow> None
      | Some delta \<Rightarrow> apply_delta base delta)"

section \<open>The budget\<close>

definition take_budget :: "nat \<Rightarrow> nat \<Rightarrow> int \<Rightarrow> int option" where
  "take_budget depth n budget =
     (if depth = 0 then Some budget
      else if budget < int n then None
      else Some (budget - int n))"

definition give_budget :: "nat \<Rightarrow> nat \<Rightarrow> int \<Rightarrow> int" where
  "give_budget depth n budget = (if depth = 0 then budget else budget + int n)"

section \<open>The walk down\<close>

record frame =
  fr_entry :: nat
  fr_data :: bytes
  fr_next :: nat

text \<open>The stack has its top at the head, the deferred list its end at the head.\<close>

record walk_state =
  ws_budget :: int
  ws_tick :: nat
  ws_stack :: "frame list"
  ws_deferred :: "nat list"
  ws_out :: "event list"

definition tick :: "walk_env \<Rightarrow> walk_state \<Rightarrow> walk_state" where
  "tick w s = s\<lparr>ws_budget := ws_budget s + we_others w (ws_tick s), ws_tick := Suc (ws_tick s)\<rparr>"

definition new_frame :: "walk_env \<Rightarrow> nat \<Rightarrow> bytes \<Rightarrow> frame" where
  "new_frame w c out = \<lparr>fr_entry = c, fr_data = out, fr_next = child_start (we_layout w) ! c\<rparr>"

text \<open>A child decoded: where its buffer goes. \<open>fr\<close> and \<open>rest\<close> are the stack, \<open>i\<close> its depth.\<close>

definition place_child :: "walk_env \<Rightarrow> nat \<Rightarrow> bool \<Rightarrow> nat \<Rightarrow> bytes \<Rightarrow> frame \<Rightarrow> frame list \<Rightarrow> walk_state \<Rightarrow> walk_state" where
  "place_child w c is_last i out fr rest s =
     (if child_start (we_layout w) ! Suc c = child_start (we_layout w) ! c then s
      else if is_last then
        (let given = give_budget i (length (fr_data fr)) (ws_budget s) in
         case take_budget i (length out) given of
           None \<Rightarrow> s\<lparr>ws_budget := given, ws_deferred := c # ws_deferred s, ws_stack := rest\<rparr>
         | Some b \<Rightarrow> s\<lparr>ws_budget := b, ws_stack := new_frame w c out # rest\<rparr>)
      else
        (case take_budget (Suc i) (length out) (ws_budget s) of
           None \<Rightarrow> s\<lparr>ws_deferred := c # ws_deferred s\<rparr>
         | Some b \<Rightarrow> s\<lparr>ws_budget := b, ws_stack := new_frame w c out # fr # rest\<rparr>))"

text \<open>One turn of the loop of \<open>spread\<close> on a stack with top \<open>fr\<close>.\<close>

definition spread_step :: "walk_env \<Rightarrow> obj_type \<Rightarrow> frame \<Rightarrow> frame list \<Rightarrow> walk_state \<Rightarrow> walk_state option" where
  "spread_step w t fr rest s =
     (let i = length rest; end_pos = child_start (we_layout w) ! Suc (fr_entry fr) in
      if end_pos \<le> fr_next fr then
        Some (s\<lparr>ws_budget := give_budget i (length (fr_data fr)) (ws_budget s), ws_stack := rest\<rparr>)
      else
        let c = child_list (we_layout w) ! fr_next fr;
            fr' = fr\<lparr>fr_next := Suc (fr_next fr)\<rparr>;
            is_last = (end_pos \<le> fr_next fr');
            s' = s\<lparr>ws_stack := fr' # rest\<rparr>
        in if pe_typ (walk_entry w c) = TypeBad then Some s'
           else (case decode_child w (fr_data fr) c of
               None \<Rightarrow>
                 (case fail_subtree w c of
                    None \<Rightarrow> None
                  | Some evs \<Rightarrow> Some (s'\<lparr>ws_out := ws_out s @ cannot_unpack w c @ evs\<rparr>))
             | Some out \<Rightarrow>
                 Some (place_child w c is_last i out fr' rest (s'\<lparr>ws_out := ws_out s @ finish w c t out\<rparr>))))"

partial_function (option) spread_loop :: "walk_env \<Rightarrow> obj_type \<Rightarrow> walk_state \<Rightarrow> walk_state option" where
  "spread_loop w t s =
     (case ws_stack s of
        [] \<Rightarrow> Some s
      | fr # rest \<Rightarrow>
          Option.bind (spread_step w t fr rest (tick w s)) (spread_loop w t))"

definition spread :: "walk_env \<Rightarrow> nat \<Rightarrow> obj_type \<Rightarrow> bytes \<Rightarrow> walk_state \<Rightarrow> walk_state option" where
  "spread w base t data s = spread_loop w t (s\<lparr>ws_stack := [new_frame w base data]\<rparr>)"

section \<open>The way back up\<close>

partial_function (option) up_path :: "walk_env \<Rightarrow> nat \<Rightarrow> nat list option" where
  "up_path w i =
     (case parent_of (we_pack w) (we_layout w) i of
        None \<Rightarrow> Some [i]
      | Some q \<Rightarrow> Option.bind (up_path w q) (\<lambda>path. Some (i # path)))"

text \<open>\<open>rebuild\<close>: the outer option is the loop's return, the inner one the decoder's error.\<close>

definition rebuild :: "walk_env \<Rightarrow> nat \<Rightarrow> bytes option option" where
  "rebuild w i =
     (case up_path w i of
        None \<Rightarrow> None
      | Some path \<Rightarrow>
          Some (case materialize_root w (last path) of
              None \<Rightarrow> None
            | Some (t, data) \<Rightarrow>
                fold (\<lambda>c d. case d of None \<Rightarrow> None | Some base \<Rightarrow> decode_child w base c)
                  (rev (butlast path)) (Some data)))"

partial_function (option) deferred_loop :: "walk_env \<Rightarrow> obj_type \<Rightarrow> walk_state \<Rightarrow> walk_state option" where
  "deferred_loop w t s =
     (case ws_deferred s of
        [] \<Rightarrow> Some s
      | d # ds \<Rightarrow>
          Option.bind (rebuild w d) (\<lambda>r.
            case r of
              None \<Rightarrow> Option.bind (fail_subtree w d) (\<lambda>evs.
                deferred_loop w t (s\<lparr>ws_deferred := ds, ws_out := ws_out s @ cannot_unpack w d @ evs\<rparr>))
            | Some data \<Rightarrow> Option.bind (spread w d t data (s\<lparr>ws_deferred := ds\<rparr>)) (deferred_loop w t)))"

definition walk_chain :: "walk_env \<Rightarrow> nat \<Rightarrow> walk_state \<Rightarrow> walk_state option" where
  "walk_chain w root s =
     (let e = walk_entry w root; kids = children (we_layout w) root in
      if pe_typ e = TypeBad then Some s
      else if pe_typ e = TypeBlob \<and> 0 < we_threshold w \<and> we_threshold w \<le> pe_size e \<and> kids = [] then
        Some (s\<lparr>ws_out := ws_out s @ finish_streamed w root\<rparr>)
      else (case materialize_root w root of
          None \<Rightarrow> Option.bind (fail_subtree w root)
            (\<lambda>evs. Some (s\<lparr>ws_out := ws_out s @ cannot_unpack w root @ evs\<rparr>))
        | Some (t, data) \<Rightarrow>
            let s' = s\<lparr>ws_out := ws_out s @ finish w root t data\<rparr> in
            if kids = [] then Some s'
            else Option.bind (spread w root t data (s'\<lparr>ws_deferred := []\<rparr>)) (deferred_loop w t)))"

end
