(* ===== verification/DeltaForest.thy ===== *)
theory DeltaForest
  imports DeltaWalk "HOL-Library.Multiset"
begin

text \<open>
  The delta walk against its specification. A chain is a tree of entries; the specification decodes
  it top down by recursion on the tree, with no stack, no budget and no second decoding. The theorem
  is the one the repository's documentation claims: whatever the budget and whatever the other
  workers take from it, the walk ends, reports the same objects and complaints, and returns what it
  reserved.
\<close>

section \<open>Trees of entries\<close>

datatype dtree = DNode (droot: nat) (dsub: "dtree list")

fun is_tree :: "(nat \<Rightarrow> nat list) \<Rightarrow> dtree \<Rightarrow> bool" where
  "is_tree ch (DNode i ts) \<longleftrightarrow> ch i = map droot ts \<and> list_all (is_tree ch) ts"

fun tsize :: "dtree \<Rightarrow> nat" where
  "tsize (DNode i ts) = Suc (sum_list (map tsize ts))"

fun fail_ref :: "walk_env \<Rightarrow> dtree \<Rightarrow> event list" where
  "fail_ref w (DNode i ts) = cannot_unpack w i @ concat (map (fail_ref w) ts)"

text \<open>What is reported of a child and everything under it, given its base's bytes.\<close>

fun child_ref :: "walk_env \<Rightarrow> obj_type \<Rightarrow> bytes \<Rightarrow> dtree \<Rightarrow> event list" where
  "child_ref w ty base (DNode c ts) =
     (if pe_typ (walk_entry w c) = TypeBad then []
      else (case decode_child w base c of
          None \<Rightarrow> cannot_unpack w c @ concat (map (fail_ref w) ts)
        | Some out \<Rightarrow> finish w c ty out @ concat (map (child_ref w ty out) ts)))"

fun chain_ref :: "walk_env \<Rightarrow> dtree \<Rightarrow> event list" where
  "chain_ref w (DNode r ts) =
     (let e = walk_entry w r in
      if pe_typ e = TypeBad then []
      else if pe_typ e = TypeBlob \<and> 0 < we_threshold w \<and> we_threshold w \<le> pe_size e \<and> ts = [] then
        finish_streamed w r
      else (case materialize_root w r of
          None \<Rightarrow> cannot_unpack w r @ concat (map (fail_ref w) ts)
        | Some (ty, data) \<Rightarrow> finish w r ty data @ concat (map (child_ref w ty data) ts)))"

lemma mset_concat_rev [simp]: "mset (concat (map f (rev xs))) = mset (concat (map f xs))"
  by (induction xs) simp_all

lemma sum_list_rev_map [simp]: "sum_list (map f (rev xs)) = (sum_list (map f xs) :: nat)"
  by (induction xs) simp_all

lemma tsize_unfold: "tsize t = Suc (sum_list (map tsize (dsub t)))"
  by (cases t) simp

lemma is_tree_unfold: "is_tree ch t \<longleftrightarrow> ch (droot t) = map droot (dsub t) \<and> list_all (is_tree ch) (dsub t)"
  by (cases t) simp

lemma fail_ref_unfold: "fail_ref w t = cannot_unpack w (droot t) @ concat (map (fail_ref w) (dsub t))"
  by (cases t) simp

lemma fail_loop_spec:
  assumes "list_all (is_tree (children (we_layout w))) ts"
  shows "\<exists>evs. fail_loop w (map droot ts) out = Some (out @ evs) \<and>
    mset evs = mset (concat (map (fail_ref w) ts))"
  using assms
proof (induction "sum_list (map tsize ts)" arbitrary: ts out rule: less_induct)
  case less
  show ?case
  proof (cases ts)
    case Nil
    then show ?thesis by (subst fail_loop.simps) simp
  next
    case (Cons t us)
    let ?vs = "rev (dsub t) @ us"
    have ch: "rev (children (we_layout w) (droot t)) @ map droot us = map droot ?vs"
      using less.prems Cons by (simp add: is_tree_unfold [of _ t] rev_map)
    have "sum_list (map tsize ?vs) < sum_list (map tsize ts)"
      using Cons by (simp add: tsize_unfold [of t])
    moreover have "list_all (is_tree (children (we_layout w))) ?vs"
      using less.prems Cons by (simp add: is_tree_unfold [of _ t])
    ultimately obtain evs where evs: "fail_loop w (map droot ?vs) (out @ cannot_unpack w (droot t)) =
        Some ((out @ cannot_unpack w (droot t)) @ evs)" "mset evs = mset (concat (map (fail_ref w) ?vs))"
      using less.hyps by blast
    have "fail_loop w (map droot ts) out = Some (out @ cannot_unpack w (droot t) @ evs)"
      using evs(1) Cons by (subst fail_loop.simps) (simp add: ch)
    moreover have "mset (cannot_unpack w (droot t) @ evs) = mset (concat (map (fail_ref w) ts))"
      using evs(2) Cons by (simp add: fail_ref_unfold [of w t])
    ultimately show ?thesis by blast
  qed
qed

lemma fail_subtree_spec:
  assumes "is_tree (children (we_layout w)) t"
  shows "\<exists>evs. fail_subtree w (droot t) = Some evs \<and> mset evs = mset (concat (map (fail_ref w) (dsub t)))"
proof -
  have "list_all (is_tree (children (we_layout w))) (rev (dsub t))" "rev (children (we_layout w) (droot t)) = map droot (rev (dsub t))"
    using assms by (simp_all add: is_tree_unfold [of _ t] rev_map)
  with fail_loop_spec [of w "rev (dsub t)" "[]"] show ?thesis by (simp add: fail_subtree_def)
qed

section \<open>States of the walk\<close>

text \<open>What the walk relies on of its layout, for the entries below \<open>n\<close>.\<close>

definition forest :: "walk_env \<Rightarrow> nat \<Rightarrow> bool" where
  "forest w n \<longleftrightarrow>
     (\<forall>i < n. child_start (we_layout w) ! i \<le> child_start (we_layout w) ! Suc i \<and>
        child_start (we_layout w) ! Suc i \<le> length (child_list (we_layout w)) \<and>
        (\<forall>c \<in> set (children (we_layout w) i). c < n \<and> parent_of (we_pack w) (we_layout w) c = Some i))"

text \<open>The bytes an entry has, from the bottom of its chain.\<close>

inductive decodes :: "walk_env \<Rightarrow> obj_type \<Rightarrow> nat \<Rightarrow> bytes \<Rightarrow> bool" for w ty where
  base: "parent_of (we_pack w) (we_layout w) r = None \<Longrightarrow> materialize_root w r = Some (ty, d) \<Longrightarrow>
    decodes w ty r d"
| delta: "decodes w ty q d \<Longrightarrow> parent_of (we_pack w) (we_layout w) c = Some q \<Longrightarrow>
    decode_child w d c = Some out \<Longrightarrow> decodes w ty c out"

lemma up_path_decodes:
  "decodes w ty i d \<Longrightarrow>
     \<exists>path r. up_path w i = Some (path @ [r]) \<and>
       (\<exists>d0. materialize_root w r = Some (ty, d0) \<and>
         fold (\<lambda>c d. case d of None \<Rightarrow> None | Some base \<Rightarrow> decode_child w base c) (rev path) (Some d0) = Some d)"
proof (induction rule: decodes.induct)
  case (base r d)
  then have "up_path w r = Some ([] @ [r])" by (subst up_path.simps) simp
  with base show ?case by (intro exI [of _ "[]"]) auto
next
  case (delta q d c out)
  then obtain path r d0 where IH: "up_path w q = Some (path @ [r])" "materialize_root w r = Some (ty, d0)"
    "fold (\<lambda>c d. case d of None \<Rightarrow> None | Some base \<Rightarrow> decode_child w base c) (rev path) (Some d0) = Some d" by blast
  have "up_path w c = Some ((c # path) @ [r])"
    using delta.hyps(2) IH(1) by (subst up_path.simps) simp
  with IH delta.hyps(3) show ?case
    by (intro exI [of _ "c # path"] exI [of _ r]) simp
qed

lemma rebuild_decodes: "decodes w ty i d \<Longrightarrow> rebuild w i = Some (Some d)"
  using up_path_decodes [of w ty i d] by (auto simp: rebuild_def)

definition pending :: "walk_env \<Rightarrow> frame \<Rightarrow> nat list" where
  "pending w f =
     take (child_start (we_layout w) ! Suc (fr_entry f) - fr_next f) (drop (fr_next f) (child_list (we_layout w)))"

definition frame_ok :: "walk_env \<Rightarrow> obj_type \<Rightarrow> nat \<Rightarrow> frame \<Rightarrow> dtree list \<Rightarrow> bool" where
  "frame_ok w ty n f ts \<longleftrightarrow> fr_entry f < n \<and> decodes w ty (fr_entry f) (fr_data f) \<and>
     child_start (we_layout w) ! fr_entry f \<le> fr_next f \<and>
     pending w f = map droot ts \<and> list_all (is_tree (children (we_layout w))) ts"

definition later_ok :: "walk_env \<Rightarrow> obj_type \<Rightarrow> nat \<Rightarrow> nat \<Rightarrow> dtree \<times> bytes \<Rightarrow> bool" where
  "later_ok w ty n d x \<longleftrightarrow> d < n \<and> droot (fst x) = d \<and> is_tree (children (we_layout w)) (fst x) \<and> decodes w ty d (snd x)"

definition conf :: "walk_env \<Rightarrow> obj_type \<Rightarrow> nat \<Rightarrow> walk_state \<Rightarrow> dtree list list \<Rightarrow> (dtree \<times> bytes) list \<Rightarrow> bool" where
  "conf w ty n s tss ds \<longleftrightarrow> list_all2 (frame_ok w ty n) (ws_stack s) tss \<and> list_all2 (later_ok w ty n) (ws_deferred s) ds"

definition frame_work :: "walk_env \<Rightarrow> obj_type \<Rightarrow> bytes \<Rightarrow> dtree list \<Rightarrow> event list" where
  "frame_work w ty data ts = concat (map (child_ref w ty data) ts)"

definition total :: "walk_env \<Rightarrow> obj_type \<Rightarrow> walk_state \<Rightarrow> dtree list list \<Rightarrow> (dtree \<times> bytes) list \<Rightarrow> event multiset" where
  "total w ty s tss ds = mset (ws_out s) +
     mset (concat (map2 (\<lambda>f ts. frame_work w ty (fr_data f) ts) (ws_stack s) tss)) +
     mset (concat (map (\<lambda>x. frame_work w ty (snd x) (dsub (fst x))) ds))"

definition weight :: "dtree list list \<Rightarrow> (dtree \<times> bytes) list \<Rightarrow> nat" where
  "weight tss ds = sum_list (map (\<lambda>ts. sum_list (map tsize ts)) tss) + sum_list (map (\<lambda>x. tsize (fst x)) ds)"

definition reserved :: "frame list \<Rightarrow> int" where
  "reserved fs = sum_list (map (\<lambda>f. int (length (fr_data f))) (butlast fs))"

definition balance :: "walk_env \<Rightarrow> walk_state \<Rightarrow> int" where
  "balance w s = ws_budget s + reserved (ws_stack s) - sum_list (map (we_others w) [0..<ws_tick s])"

lemma reserved_Nil [simp]: "reserved [] = 0"
  by (simp add: reserved_def)

lemma reserved_Cons: "reserved (f # fs) = (if fs = [] then 0 else int (length (fr_data f)) + reserved fs)"
  by (simp add: reserved_def)

lemma reserved_two: "reserved (f # g # fs) = int (length (fr_data f)) + reserved (g # fs)"
  by (simp add: reserved_def)

lemma frame_okD:
  assumes "forest w n" and "frame_ok w ty n f ts"
  defines "e \<equiv> child_start (we_layout w) ! Suc (fr_entry f)"
  shows "e \<le> fr_next f \<longleftrightarrow> ts = []"
    and "ts = t # us \<Longrightarrow> child_list (we_layout w) ! fr_next f = droot t \<and> is_tree (children (we_layout w)) t \<and>
      droot t < n \<and> parent_of (we_pack w) (we_layout w) (droot t) = Some (fr_entry f) \<and>
      frame_ok w ty n (f\<lparr>fr_next := Suc (fr_next f)\<rparr>) us \<and> (e \<le> Suc (fr_next f) \<longleftrightarrow> us = [])"
proof -
  let ?l = "we_layout w"
  have f: "fr_entry f < n" "decodes w ty (fr_entry f) (fr_data f)" "child_start ?l ! fr_entry f \<le> fr_next f"
    "pending w f = map droot ts" "list_all (is_tree (children ?l)) ts"
    using assms(2) by (auto simp: frame_ok_def)
  have fo: "e \<le> length (child_list ?l)"
    "\<And>c. c \<in> set (children ?l (fr_entry f)) \<Longrightarrow> c < n \<and> parent_of (we_pack w) ?l c = Some (fr_entry f)"
    using assms(1) f(1) by (auto simp: forest_def e_def)
  have len: "length ts = e - fr_next f"
    using arg_cong [OF f(4), of length] fo(1) by (auto simp: pending_def e_def)
  then show nil: "e \<le> fr_next f \<longleftrightarrow> ts = []" by auto
  assume ts: "ts = t # us"
  with len have lt: "fr_next f < e" by auto
  have pend: "pending w f = child_list ?l ! fr_next f # pending w (f\<lparr>fr_next := Suc (fr_next f)\<rparr>)"
  proof -
    have "drop (fr_next f) (child_list ?l) = child_list ?l ! fr_next f # drop (Suc (fr_next f)) (child_list ?l)"
      using lt fo(1) by (intro Cons_nth_drop_Suc [symmetric]) simp
    moreover have "e - fr_next f = Suc (e - Suc (fr_next f))" using lt by simp
    ultimately show ?thesis by (simp add: pending_def flip: e_def)
  qed
  have "child_list ?l ! fr_next f \<in> set (children ?l (fr_entry f))"
  proof -
    have "drop (child_start ?l ! fr_entry f) (child_list ?l) ! (fr_next f - child_start ?l ! fr_entry f) = child_list ?l ! fr_next f"
      using f(3) lt fo(1) by simp
    moreover have "fr_next f - child_start ?l ! fr_entry f < length (children ?l (fr_entry f))"
      using f(3) lt fo(1) by (simp add: children_def flip: e_def)
    ultimately show ?thesis by (metis (no_types, lifting) children_def length_take min_less_iff_conj nth_mem nth_take)
  qed
  moreover have "e \<le> Suc (fr_next f) \<longleftrightarrow> us = []" using len ts by (cases us) auto
  ultimately show "child_list ?l ! fr_next f = droot t \<and> is_tree (children ?l) t \<and>
      droot t < n \<and> parent_of (we_pack w) ?l (droot t) = Some (fr_entry f) \<and>
      frame_ok w ty n (f\<lparr>fr_next := Suc (fr_next f)\<rparr>) us \<and> (e \<le> Suc (fr_next f) \<longleftrightarrow> us = [])"
    using pend ts f fo(2) by (auto simp: frame_ok_def)
qed

lemma new_frame_ok:
  assumes "forest w n" and "is_tree (children (we_layout w)) t" and "droot t < n" and "decodes w ty (droot t) out"
  shows "frame_ok w ty n (new_frame w (droot t) out) (dsub t)"
    and "child_start (we_layout w) ! Suc (droot t) = child_start (we_layout w) ! droot t \<longleftrightarrow> dsub t = []"
proof -
  have ch: "children (we_layout w) (droot t) = map droot (dsub t)" "list_all (is_tree (children (we_layout w))) (dsub t)"
    using assms(2) by (simp_all add: is_tree_unfold [of _ t])
  then show "frame_ok w ty n (new_frame w (droot t) out) (dsub t)"
    using assms(3,4) by (simp add: frame_ok_def new_frame_def pending_def children_def)
  have "length (children (we_layout w) (droot t)) =
      child_start (we_layout w) ! Suc (droot t) - child_start (we_layout w) ! droot t"
    using assms(1,3) by (auto simp: children_def forest_def)
  moreover have "child_start (we_layout w) ! droot t \<le> child_start (we_layout w) ! Suc (droot t)"
    using assms(1,3) by (auto simp: forest_def)
  ultimately show "child_start (we_layout w) ! Suc (droot t) = child_start (we_layout w) ! droot t \<longleftrightarrow> dsub t = []"
    using ch(1) by auto
qed


section \<open>The loop\<close>

definition effort :: "walk_state \<Rightarrow> dtree list list \<Rightarrow> nat" where
  "effort s tss = 2 * sum_list (map (\<lambda>ts. sum_list (map tsize ts)) tss) + length (ws_stack s)"

lemma place_child_spec:
  assumes fo: "forest w n" and st: "ws_stack s = fr # rest" and cf: "conf w ty n s (us # tss) ds"
    and t: "is_tree (children (we_layout w)) t" "droot t < n" "decodes w ty (droot t) out"
    and is_last: "is_last \<longleftrightarrow> us = []"
  defines "s1 \<equiv> place_child w (droot t) is_last (length rest) out fr rest s"
  shows "\<exists>tss1 ds1. conf w ty n s1 tss1 ds1 \<and>
    total w ty s1 tss1 ds1 = total w ty s (us # tss) ds + mset (frame_work w ty out (dsub t)) \<and>
    weight tss1 ds1 \<le> weight (us # tss) ds + tsize t \<and>
    effort s1 tss1 < effort s (us # tss) + 2 * tsize t \<and> balance w s1 = balance w s"
proof -
  have cf': "frame_ok w ty n fr us" "list_all2 (frame_ok w ty n) rest tss" "list_all2 (later_ok w ty n) (ws_deferred s) ds"
    using cf st by (auto simp: conf_def)
  note nf = new_frame_ok [OF fo t]
  have nd: "fr_data (new_frame w (droot t) out) = out" by (simp add: new_frame_def)
  have later: "later_ok w ty n (droot t) (t, out)" using t by (simp add: later_ok_def)
  consider (leaf) "dsub t = []"
    | (last_ok) b where "dsub t \<noteq> []" "is_last" "take_budget (length rest) (length out)
        (give_budget (length rest) (length (fr_data fr)) (ws_budget s)) = Some b"
    | (last_no) "dsub t \<noteq> []" "is_last" "take_budget (length rest) (length out)
        (give_budget (length rest) (length (fr_data fr)) (ws_budget s)) = None"
    | (more_ok) b where "dsub t \<noteq> []" "\<not> is_last" "take_budget (Suc (length rest)) (length out) (ws_budget s) = Some b"
    | (more_no) "dsub t \<noteq> []" "\<not> is_last" "take_budget (Suc (length rest)) (length out) (ws_budget s) = None"
    by (cases "take_budget (length rest) (length out) (give_budget (length rest) (length (fr_data fr)) (ws_budget s))";
        cases "take_budget (Suc (length rest)) (length out) (ws_budget s)") blast+
  then show ?thesis
  proof cases
    case leaf
    then have "s1 = s" using nf(2) by (simp add: s1_def place_child_def)
    with cf leaf show ?thesis
      by (intro exI [of _ "us # tss"] exI [of _ ds]) (simp add: frame_work_def tsize_unfold [of t])
  next
    case last_ok
    then have us: "us = []" using is_last by simp
    from last_ok have s1: "s1 = s\<lparr>ws_budget := b, ws_stack := new_frame w (droot t) out # rest\<rparr>"
      using nf(2) by (simp add: s1_def place_child_def)
    have "b + reserved (new_frame w (droot t) out # rest) = ws_budget s + reserved (fr # rest)"
      using last_ok(3) nd by (auto simp: take_budget_def give_budget_def reserved_Cons split: if_splits)
    with s1 st have "balance w s1 = balance w s" by (simp add: balance_def)
    with s1 nf(1) cf' us st nd show ?thesis
      by (intro exI [of _ "dsub t # tss"] exI [of _ ds])
        (simp add: conf_def total_def frame_work_def weight_def effort_def tsize_unfold [of t])
  next
    case last_no
    then have us: "us = []" using is_last by simp
    from last_no have s1: "s1 = s\<lparr>ws_budget := give_budget (length rest) (length (fr_data fr)) (ws_budget s),
        ws_deferred := droot t # ws_deferred s, ws_stack := rest\<rparr>"
      using nf(2) by (simp add: s1_def place_child_def)
    have "balance w s1 = balance w s"
      using s1 st by (auto simp: balance_def give_budget_def reserved_Cons)
    with s1 later cf' us st show ?thesis
      by (intro exI [of _ tss] exI [of _ "(t, out) # ds"])
        (simp add: conf_def total_def frame_work_def weight_def effort_def)
  next
    case more_ok
    then have s1: "s1 = s\<lparr>ws_budget := b, ws_stack := new_frame w (droot t) out # fr # rest\<rparr>"
      using nf(2) by (simp add: s1_def place_child_def)
    have "balance w s1 = balance w s"
      using s1 st nd more_ok(3) by (auto simp: balance_def take_budget_def reserved_two split: if_splits)
    with s1 nf(1) cf' st nd show ?thesis
      by (intro exI [of _ "dsub t # us # tss"] exI [of _ ds])
        (simp add: conf_def total_def frame_work_def weight_def effort_def tsize_unfold [of t])
  next
    case more_no
    then have s1: "s1 = s\<lparr>ws_deferred := droot t # ws_deferred s\<rparr>"
      using nf(2) by (simp add: s1_def place_child_def)
    have "balance w s1 = balance w s" using s1 by (simp add: balance_def)
    with s1 later cf' st show ?thesis
      by (intro exI [of _ "us # tss"] exI [of _ "(t, out) # ds"])
        (simp add: conf_def total_def frame_work_def weight_def effort_def tsize_unfold [of t])
  qed
qed

lemma tick_spec:
  "conf w ty n (tick w s) tss ds \<longleftrightarrow> conf w ty n s tss ds" "total w ty (tick w s) tss ds = total w ty s tss ds"
  "effort (tick w s) tss = effort s tss" "balance w (tick w s) = balance w s" "ws_stack (tick w s) = ws_stack s"
  by (simp_all add: tick_def conf_def total_def effort_def balance_def)

lemma spread_step_spec:
  assumes fo: "forest w n" and st: "ws_stack s = fr # rest" and cf: "conf w ty n s tss ds"
  shows "\<exists>s1 tss1 ds1. spread_step w ty fr rest s = Some s1 \<and> conf w ty n s1 tss1 ds1 \<and>
    total w ty s1 tss1 ds1 = total w ty s tss ds \<and> weight tss1 ds1 \<le> weight tss ds \<and>
    effort s1 tss1 < effort s tss \<and> balance w s1 = balance w s"
proof -
  let ?l = "we_layout w"
  obtain ts tss' where tss: "tss = ts # tss'" and ok: "frame_ok w ty n fr ts"
    and rest: "list_all2 (frame_ok w ty n) rest tss'" and ds: "list_all2 (later_ok w ty n) (ws_deferred s) ds"
    using cf st by (auto simp: conf_def list_all2_Cons1)
  show ?thesis
  proof (cases ts)
    case Nil
    define s1 where "s1 = s\<lparr>ws_budget := give_budget (length rest) (length (fr_data fr)) (ws_budget s), ws_stack := rest\<rparr>"
    have "spread_step w ty fr rest s = Some s1"
      using frame_okD(1) [OF fo ok] Nil by (simp add: spread_step_def s1_def Let_def)
    moreover have "balance w s1 = balance w s"
      using st by (auto simp: balance_def give_budget_def reserved_Cons s1_def)
    ultimately show ?thesis using tss rest ds Nil st
      by (intro exI [of _ s1] exI [of _ tss'] exI [of _ ds])
        (simp add: conf_def total_def frame_work_def weight_def effort_def s1_def)
  next
    case (Cons t us)
    note c = frame_okD(2) [OF fo ok Cons]
    define fr' where "fr' = fr\<lparr>fr_next := Suc (fr_next fr)\<rparr>"
    define s' where "s' = s\<lparr>ws_stack := fr' # rest\<rparr>"
    have data: "fr_data fr' = fr_data fr" and nx: "fr_next fr' = Suc (fr_next fr)" by (simp_all add: fr'_def)
    have cf': "conf w ty n s' (us # tss') ds" using c rest ds by (simp add: conf_def s'_def fr'_def)
    have tot: "total w ty s tss ds = total w ty s' (us # tss') ds + mset (child_ref w ty (fr_data fr) t)"
      using st tss Cons data by (simp add: total_def frame_work_def s'_def)
    have wt: "weight tss ds = weight (us # tss') ds + tsize t" using tss Cons by (simp add: weight_def)
    have eff: "effort s tss = effort s' (us # tss') + 2 * tsize t"
      using st tss Cons by (simp add: effort_def s'_def)
    have pos: "0 < tsize t" by (simp add: tsize_unfold [of t])
    have bal: "balance w s' = balance w s" using st data by (simp add: balance_def s'_def reserved_Cons)
    have more: "\<not> child_start ?l ! Suc (fr_entry fr) \<le> fr_next fr"
      using frame_okD(1) [OF fo ok] Cons by simp
    have child: "child_list ?l ! fr_next fr = droot t" using c by simp
    have lst: "child_start ?l ! Suc (fr_entry fr) \<le> Suc (fr_next fr) \<longleftrightarrow> us = []" using c by simp
    have step: "spread_step w ty fr rest s =
       (if pe_typ (walk_entry w (droot t)) = TypeBad then Some s'
        else (case decode_child w (fr_data fr) (droot t) of
            None \<Rightarrow> (case fail_subtree w (droot t) of None \<Rightarrow> None
              | Some evs \<Rightarrow> Some (s'\<lparr>ws_out := ws_out s @ cannot_unpack w (droot t) @ evs\<rparr>))
          | Some out \<Rightarrow> Some (place_child w (droot t) (us = []) (length rest) out fr' rest
              (s'\<lparr>ws_out := ws_out s @ finish w (droot t) ty out\<rparr>))))"
      by (simp only: spread_step_def Let_def more if_False child fr'_def [symmetric] nx lst s'_def [symmetric])
    have ref: "child_ref w ty (fr_data fr) t =
       (if pe_typ (walk_entry w (droot t)) = TypeBad then []
        else (case decode_child w (fr_data fr) (droot t) of
            None \<Rightarrow> cannot_unpack w (droot t) @ concat (map (fail_ref w) (dsub t))
          | Some out \<Rightarrow> finish w (droot t) ty out @ frame_work w ty out (dsub t)))"
      by (cases t) (simp add: frame_work_def cong: option.case_cong)
    consider (bad) "pe_typ (walk_entry w (droot t)) = TypeBad"
      | (fail) "pe_typ (walk_entry w (droot t)) \<noteq> TypeBad" "decode_child w (fr_data fr) (droot t) = None"
      | (good) out where "pe_typ (walk_entry w (droot t)) \<noteq> TypeBad" "decode_child w (fr_data fr) (droot t) = Some out"
      by (cases "decode_child w (fr_data fr) (droot t)") auto
    then show ?thesis
    proof cases
      case bad
      with step ref cf' tot wt eff pos bal show ?thesis
        by (intro exI [of _ s'] exI [of _ "us # tss'"] exI [of _ ds]) simp
    next
      case fail
      obtain evs where evs: "fail_subtree w (droot t) = Some evs" "mset evs = mset (concat (map (fail_ref w) (dsub t)))"
        using fail_subtree_spec c by blast
      define s1 where "s1 = s'\<lparr>ws_out := ws_out s @ cannot_unpack w (droot t) @ evs\<rparr>"
      have "total w ty s1 (us # tss') ds = total w ty s tss ds"
        using tot ref fail evs(2) by (simp add: total_def s1_def s'_def)
      moreover have "conf w ty n s1 (us # tss') ds" "effort s1 (us # tss') = effort s' (us # tss')" "balance w s1 = balance w s'"
        using cf' by (simp_all add: s1_def conf_def effort_def balance_def)
      ultimately show ?thesis using step fail evs(1) wt eff pos bal
        by (intro exI [of _ s1] exI [of _ "us # tss'"] exI [of _ ds]) (simp add: s1_def)
    next
      case good
      define s2 where "s2 = s'\<lparr>ws_out := ws_out s @ finish w (droot t) ty out\<rparr>"
      have st2: "ws_stack s2 = fr' # rest" by (simp add: s2_def s'_def)
      have cf2: "conf w ty n s2 (us # tss') ds" using cf' by (simp add: s2_def conf_def)
      have dec: "decodes w ty (droot t) out"
        using ok c good(2) by (auto simp: frame_ok_def intro: decodes.delta)
      obtain tss1 ds1 where r: "conf w ty n (place_child w (droot t) (us = []) (length rest) out fr' rest s2) tss1 ds1"
        "total w ty (place_child w (droot t) (us = []) (length rest) out fr' rest s2) tss1 ds1 =
          total w ty s2 (us # tss') ds + mset (frame_work w ty out (dsub t))"
        "weight tss1 ds1 \<le> weight (us # tss') ds + tsize t"
        "effort (place_child w (droot t) (us = []) (length rest) out fr' rest s2) tss1 < effort s2 (us # tss') + 2 * tsize t"
        "balance w (place_child w (droot t) (us = []) (length rest) out fr' rest s2) = balance w s2"
        using place_child_spec [OF fo st2 cf2 _ _ dec refl] c by blast
      have "total w ty s2 (us # tss') ds + mset (frame_work w ty out (dsub t)) = total w ty s tss ds"
        using tot ref good by (simp add: total_def s2_def s'_def)
      moreover have "effort s2 (us # tss') = effort s' (us # tss')" "balance w s2 = balance w s'"
        by (simp_all add: s2_def effort_def balance_def)
      ultimately show ?thesis using step good r wt eff bal by (auto simp: s2_def)
    qed
  qed
qed

lemma spread_loop_spec:
  assumes fo: "forest w n" and "conf w ty n s tss ds"
  shows "\<exists>s1 ds1. spread_loop w ty s = Some s1 \<and> ws_stack s1 = [] \<and> conf w ty n s1 [] ds1 \<and>
    total w ty s1 [] ds1 = total w ty s tss ds \<and> weight [] ds1 \<le> weight tss ds \<and> balance w s1 = balance w s"
  using assms(2)
proof (induction "effort s tss" arbitrary: s tss ds rule: less_induct)
  case less
  show ?case
  proof (cases "ws_stack s")
    case Nil
    then have "spread_loop w ty s = Some s" by (subst spread_loop.simps) simp
    moreover have "tss = []" using less.prems Nil by (simp add: conf_def)
    ultimately show ?thesis using less.prems Nil by auto
  next
    case (Cons fr rest)
    have st: "ws_stack (tick w s) = fr # rest" using Cons by (simp add: tick_spec)
    obtain s1 tss1 ds1 where r: "spread_step w ty fr rest (tick w s) = Some s1" "conf w ty n s1 tss1 ds1"
      "total w ty s1 tss1 ds1 = total w ty s tss ds" "weight tss1 ds1 \<le> weight tss ds"
      "effort s1 tss1 < effort s tss" "balance w s1 = balance w s"
      using spread_step_spec [OF fo st, of ty tss ds] less.prems by (auto simp: tick_spec)
    have "spread_loop w ty s = spread_loop w ty s1"
      using Cons r(1) by (subst spread_loop.simps) simp
    moreover obtain s2 ds2 where "spread_loop w ty s1 = Some s2" "ws_stack s2 = []" "conf w ty n s2 [] ds2"
      "total w ty s2 [] ds2 = total w ty s1 tss1 ds1" "weight [] ds2 \<le> weight tss1 ds1" "balance w s2 = balance w s1"
      using less.hyps [OF r(5,2)] by blast
    ultimately show ?thesis using r
      by (intro exI [of _ s2] exI [of _ ds2]) simp
  qed
qed


section \<open>The deferred entries and the whole chain\<close>

lemma deferred_loop_spec:
  assumes fo: "forest w n" and "conf w ty n s [] ds" and "ws_stack s = []"
  shows "\<exists>s1. deferred_loop w ty s = Some s1 \<and> ws_stack s1 = [] \<and> mset (ws_out s1) = total w ty s [] ds \<and>
    balance w s1 = balance w s"
  using assms(2,3)
proof (induction "weight [] ds" arbitrary: s ds rule: less_induct)
  case less
  show ?case
  proof (cases "ws_deferred s")
    case Nil
    then have "deferred_loop w ty s = Some s" by (subst deferred_loop.simps) simp
    moreover have "ds = []" using less.prems Nil by (simp add: conf_def)
    ultimately show ?thesis using less.prems by (simp add: total_def)
  next
    case (Cons d later)
    obtain t data ds' where ds: "ds = (t, data) # ds'" and ok: "later_ok w ty n d (t, data)"
      and rest: "list_all2 (later_ok w ty n) later ds'"
      using less.prems Cons by (auto simp: conf_def list_all2_Cons1)
    then have t: "droot t = d" "d < n" "is_tree (children (we_layout w)) t" "decodes w ty d data"
      by (auto simp: later_ok_def)
    let ?s = "s\<lparr>ws_deferred := later, ws_stack := [new_frame w d data]\<rparr>"
    have nf: "frame_ok w ty n (new_frame w d data) (dsub t)"
      using new_frame_ok(1) [OF fo t(3)] t by simp
    have nd: "fr_data (new_frame w d data) = data" by (simp add: new_frame_def)
    have cf: "conf w ty n ?s [dsub t] ds'" using nf rest by (simp add: conf_def)
    have tot: "total w ty ?s [dsub t] ds' = total w ty s [] ds"
      using less.prems(2) ds by (simp add: total_def nd)
    have wt: "weight [dsub t] ds' < weight [] ds" using ds by (simp add: weight_def tsize_unfold [of t])
    have bal: "balance w ?s = balance w s" using less.prems(2) by (simp add: balance_def reserved_Cons)
    obtain s1 ds1 where r: "spread_loop w ty ?s = Some s1" "ws_stack s1 = []" "conf w ty n s1 [] ds1"
      "total w ty s1 [] ds1 = total w ty ?s [dsub t] ds'" "weight [] ds1 \<le> weight [dsub t] ds'" "balance w s1 = balance w ?s"
      using spread_loop_spec [OF fo cf] by blast
    have "deferred_loop w ty s = deferred_loop w ty s1"
      using Cons r(1) rebuild_decodes [OF t(4)]
      by (subst deferred_loop.simps) (simp add: spread_def)
    moreover have "weight [] ds1 < weight [] ds" using r(5) wt by simp
    then obtain s2 where "deferred_loop w ty s1 = Some s2" "ws_stack s2 = []"
      "mset (ws_out s2) = total w ty s1 [] ds1" "balance w s2 = balance w s1"
      using less.hyps r(2,3) by blast
    ultimately show ?thesis using r tot bal by simp
  qed
qed

lemma walk_chain_spec:
  assumes fo: "forest w n" and t: "is_tree (children (we_layout w)) t" "droot t < n"
    and root: "parent_of (we_pack w) (we_layout w) (droot t) = None" and st: "ws_stack s = []"
  shows "\<exists>s1. walk_chain w (droot t) s = Some s1 \<and> mset (ws_out s1) = mset (ws_out s) + mset (chain_ref w t) \<and>
    balance w s1 = balance w s \<and> ws_stack s1 = []"
proof -
  let ?r = "droot t"
  have kids: "children (we_layout w) ?r = map droot (dsub t)" using t by (simp add: is_tree_unfold [of _ t])
  have ref: "chain_ref w t =
     (let e = walk_entry w ?r in
      if pe_typ e = TypeBad then []
      else if pe_typ e = TypeBlob \<and> 0 < we_threshold w \<and> we_threshold w \<le> pe_size e \<and> dsub t = [] then
        finish_streamed w ?r
      else (case materialize_root w ?r of
          None \<Rightarrow> cannot_unpack w ?r @ concat (map (fail_ref w) (dsub t))
        | Some (ty, data) \<Rightarrow> finish w ?r ty data @ frame_work w ty data (dsub t)))"
    by (cases t) (simp add: frame_work_def Let_def cong: option.case_cong)
  consider (bad) "pe_typ (walk_entry w ?r) = TypeBad"
    | (big) "pe_typ (walk_entry w ?r) \<noteq> TypeBad" "pe_typ (walk_entry w ?r) = TypeBlob \<and> 0 < we_threshold w \<and>
        we_threshold w \<le> pe_size (walk_entry w ?r) \<and> dsub t = []"
    | (fail) "pe_typ (walk_entry w ?r) \<noteq> TypeBad" "\<not> (pe_typ (walk_entry w ?r) = TypeBlob \<and> 0 < we_threshold w \<and>
        we_threshold w \<le> pe_size (walk_entry w ?r) \<and> dsub t = [])" "materialize_root w ?r = None"
    | (good) ty data where "pe_typ (walk_entry w ?r) \<noteq> TypeBad" "\<not> (pe_typ (walk_entry w ?r) = TypeBlob \<and> 0 < we_threshold w \<and>
        we_threshold w \<le> pe_size (walk_entry w ?r) \<and> dsub t = [])" "materialize_root w ?r = Some (ty, data)"
    by (cases "materialize_root w ?r") fastforce+
  then show ?thesis
  proof cases
    case bad
    then show ?thesis using ref st by (simp add: walk_chain_def)
  next
    case big
    then show ?thesis using ref st kids by (simp add: walk_chain_def balance_def)
  next
    case fail
    obtain evs where "fail_subtree w ?r = Some evs" "mset evs = mset (concat (map (fail_ref w) (dsub t)))"
      using fail_subtree_spec [OF t(1)] by blast
    with fail show ?thesis using ref st kids by (auto simp: walk_chain_def balance_def Let_def)
  next
    case good
    define s1 where "s1 = s\<lparr>ws_out := ws_out s @ finish w ?r ty data\<rparr>"
    have bal1: "balance w s1 = balance w s" by (simp add: s1_def balance_def)
    have cr: "chain_ref w t = finish w ?r ty data @ frame_work w ty data (dsub t)"
      using ref good by (auto simp: Let_def)
    have step: "walk_chain w ?r s = (if dsub t = [] then Some s1
        else Option.bind (spread w ?r ty data (s1\<lparr>ws_deferred := []\<rparr>)) (deferred_loop w ty))"
      using good kids unfolding walk_chain_def Let_def s1_def by simp
    show ?thesis
    proof (cases "dsub t = []")
      case True
      with step cr st bal1 show ?thesis by (auto simp: s1_def frame_work_def)
    next
      case False
      let ?s = "s1\<lparr>ws_deferred := [], ws_stack := [new_frame w ?r data]\<rparr>"
      have "decodes w ty ?r data" using root good(3) by (rule decodes.base)
      from new_frame_ok(1) [OF fo t this] have cf: "conf w ty n ?s [dsub t] []" by (simp add: conf_def)
      have nd: "fr_data (new_frame w ?r data) = data" by (simp add: new_frame_def)
      obtain s2 ds2 where r: "spread_loop w ty ?s = Some s2" "ws_stack s2 = []" "conf w ty n s2 [] ds2"
        "total w ty s2 [] ds2 = total w ty ?s [dsub t] []" "balance w s2 = balance w ?s"
        using spread_loop_spec [OF fo cf] by blast
      obtain s3 where s3: "deferred_loop w ty s2 = Some s3" "ws_stack s3 = []"
        "mset (ws_out s3) = total w ty s2 [] ds2" "balance w s3 = balance w s2"
        using deferred_loop_spec [OF fo r(3,2)] by blast
      have "walk_chain w ?r s = Some s3" using step False r(1) s3(1) by (simp add: spread_def)
      moreover have "mset (ws_out s3) = mset (ws_out s) + mset (chain_ref w t)"
        using s3(3) r(4) cr nd by (simp add: total_def s1_def)
      moreover have "balance w s3 = balance w s"
        using s3(4) r(5) bal1 st by (simp add: balance_def reserved_Cons s1_def)
      ultimately show ?thesis using s3(2) by blast
    qed
  qed
qed


section \<open>Every root has its tree\<close>

text \<open>
  A chain of bases that starts at a root never repeats an entry, so with \<open>n\<close> entries no chain is
  longer than \<open>n\<close>, and the entries under a root form a finite tree.
\<close>

fun rooted_path :: "walk_env \<Rightarrow> nat list \<Rightarrow> bool" where
  "rooted_path w [] \<longleftrightarrow> False"
| "rooted_path w [r] \<longleftrightarrow> parent_of (we_pack w) (we_layout w) r = None"
| "rooted_path w (c # q # path) \<longleftrightarrow>
     parent_of (we_pack w) (we_layout w) c = Some q \<and> rooted_path w (q # path)"

lemma rooted_path_unique:
  "rooted_path w (c # path) \<Longrightarrow> rooted_path w (c # path') \<Longrightarrow> path = path'"
proof (induction path arbitrary: c path')
  case Nil
  then show ?case by (cases path') simp_all
next
  case (Cons q path)
  then show ?case by (cases path') auto
qed

lemma rooted_path_drop: "rooted_path w (xs @ c # ys) \<Longrightarrow> rooted_path w (c # ys)"
proof (induction xs)
  case (Cons x xs)
  then show ?case by (cases xs) auto
qed simp

lemma rooted_path_distinct: "rooted_path w path \<Longrightarrow> distinct path"
proof (induction path)
  case (Cons c path)
  show ?case
  proof (cases path)
    case (Cons q rest)
    with Cons.prems have "rooted_path w path" by simp
    moreover have "c \<notin> set path"
    proof
      assume "c \<in> set path"
      then obtain xs ys where split: "path = xs @ c # ys" by (meson split_list)
      have "rooted_path w (c # ys)" using rooted_path_drop [of w "c # xs" c ys] Cons.prems split by simp
      with Cons.prems have "path = ys" by (rule rooted_path_unique)
      with split show False by simp
    qed
    ultimately show ?thesis using Cons.IH by simp
  qed simp
qed simp

lemma tree_exists:
  assumes fo: "forest w n"
  shows "rooted_path w (c # path) \<Longrightarrow> set (c # path) \<subseteq> {..<n} \<Longrightarrow>
    \<exists>t. droot t = c \<and> is_tree (children (we_layout w)) t"
proof (induction "n - length path" arbitrary: c path rule: less_induct)
  case less
  let ?ch = "children (we_layout w)"
  have d: "distinct (c # path)" by (rule rooted_path_distinct [OF less.prems(1)])
  then have "length (c # path) \<le> card {..<n}"
    using less.prems(2) card_mono [of "{..<n}" "set (c # path)"] distinct_card [of "c # path"] by auto
  then have short: "length path < n" by simp
  have c: "c < n" using less.prems(2) by simp
  have "\<exists>t. droot t = k \<and> is_tree ?ch t" if k: "k \<in> set (?ch c)" for k
  proof -
    have "k < n" "parent_of (we_pack w) (we_layout w) k = Some c"
      using fo c k by (auto simp: forest_def)
    then have "rooted_path w (k # c # path)" "set (k # c # path) \<subseteq> {..<n}"
      using less.prems by auto
    with short show ?thesis using less.hyps [of "c # path" k] by simp
  qed
  then obtain f where f: "\<And>k. k \<in> set (?ch c) \<Longrightarrow> droot (f k) = k \<and> is_tree ?ch (f k)" by metis
  have "map droot (map f (?ch c)) = ?ch c" using f by (simp add: map_idI)
  with f have "is_tree ?ch (DNode c (map f (?ch c)))" by (simp add: list_all_iff)
  then show ?case by (intro exI [of _ "DNode c (map f (?ch c))"]) simp
qed

lemma forest_layout:
  assumes "wf_algo (pk_algo p)" and "we_pack w = p" and "we_layout w = build_layout p"
  shows "forest w (pk_num p)"
proof -
  let ?b = "read_entries p" and ?l = "build_layout p"
  note inv = read_entries_inv [OF assms(1), unfolded links_inv_def length_sorted_entries]
  have rng: "in_range (bl_parent ?b)"
    using inv entry_parent_lt [of p "sorted_entries p"]
    unfolding in_range_def list_all_length by (auto split: option.split)
  have st: "child_start ?l ! q = start_of (bl_parent ?b) q" if "q \<le> pk_num p" for q
    using start_nth(2) [OF rng] that inv by (simp add: build_layout_def Let_def)
  have len: "length (child_list ?l) = start_of (bl_parent ?b) (pk_num p)"
  proof -
    have "length (fill_children (bl_parent ?b) s) = s ! length (bl_parent ?b)" for s
    proof -
      have "length (fst (fold (fill_step (bl_parent ?b)) ks (xs, fl))) = length xs" for ks xs fl
        by (induction ks arbitrary: xs fl) (auto simp: fill_step_def split: option.split)
      then show ?thesis by (simp add: fill_children_def)
    qed
    then show ?thesis using start_nth(2) [OF rng] inv by (simp add: build_layout_def Let_def)
  qed
  show ?thesis unfolding forest_def assms(2,3)
  proof (intro allI impI conjI ballI)
    fix i assume i: "i < pk_num p"
    show "child_start ?l ! i \<le> child_start ?l ! Suc i" using i by (simp add: st start_of_mono)
    show "child_start ?l ! Suc i \<le> length (child_list ?l)" using i by (simp add: st len start_of_mono)
    fix c assume "c \<in> set (children ?l i)"
    then show "c < pk_num p" "parent_of p ?l c = Some i" using children_eq [OF assms(1) i] by auto
  qed
qed

text \<open>
  C2: the budget changes nothing but memory. Whatever the budget, whatever the other workers of the
  pack take from it and give back meanwhile, and whatever the entries hold, the walk from a root ends;
  it reports exactly what decoding the root's tree top down reports, each entry once; and when it ends
  it has given back all it reserved. In particular nothing that will not decode is lost because an
  entry was deferred and rebuilt.
\<close>

theorem walk_chain_exact:
  assumes "wf_algo (pk_algo p)" and "we_pack w = p" and "we_layout w = build_layout p"
    and "r < pk_num p" and "pe_root (walk_entry w r)" and "ws_stack s = []"
  shows "\<exists>t s'. droot t = r \<and> is_tree (children (build_layout p)) t \<and> walk_chain w r s = Some s' \<and>
    mset (ws_out s') = mset (ws_out s) + mset (chain_ref w t) \<and>
    ws_budget s' - sum_list (map (we_others w) [0..<ws_tick s']) =
      ws_budget s - sum_list (map (we_others w) [0..<ws_tick s])"
proof -
  note fo = forest_layout [OF assms(1-3)]
  have root: "parent_of (we_pack w) (we_layout w) r = None"
    using assms(2-5) parent_of_eq [OF assms(1,4)] ents_sel(4) [OF assms(1,4)] by (simp add: walk_entry_def)
  then obtain t where t: "droot t = r" "is_tree (children (we_layout w)) t"
    using tree_exists [OF fo, of r "[]"] assms(4) by auto
  from walk_chain_spec [OF fo t(2), of s] t assms(4,6) root
  obtain s' where "walk_chain w r s = Some s'" "mset (ws_out s') = mset (ws_out s) + mset (chain_ref w t)"
    "balance w s' = balance w s" "ws_stack s' = []" by auto
  with t assms(3,6) show ?thesis
    by (intro exI [of _ t] exI [of _ s']) (simp add: balance_def)
qed

definition demo_walk :: walk_env where
  "demo_walk = \<lparr>we_pack = demo_pack, we_layout = build_layout demo_pack, we_inflate = (\<lambda>off sz. Some []),
     we_copy = (\<lambda>off sz. Some []), we_threshold = 0, we_others = (\<lambda>k. -7)\<rparr>"

definition demo_state :: walk_state where
  "demo_state = \<lparr>ws_budget = 100, ws_tick = 0, ws_stack = [], ws_deferred = [], ws_out = []\<rparr>"

lemma demo_entries_eq: "sorted_entries demo_pack = [\<lparr>pe_off = 12, pe_size = 0, pe_idx = 0, pe_hdr = 0, pe_typ = TypeNone, pe_root = False\<rparr>]"
  by (simp add: sorted_entries_def demo_pack_def offset_at_def sha1_algo_def be32_at_def be32_def upt_rec)

lemma demo_header: "\<exists>h. read_header demo_pack 12 = Inr h \<and> oh_type h = TypeBlob"
  by (simp add: read_header_def read_kind_def demo_pack_def trailer_offset_def sha1_algo_def byte_at_def
      size_loop.simps nth_append)

lemma demo_type: "entry_type demo_pack (sorted_entries demo_pack) 0 = TypeBlob"
  using demo_header header_bounds [OF demo_pack_wf(1), of 12]
  by (fastforce simp: entry_type_def demo_entries_eq)

lemma demo_root: "pe_root (walk_entry demo_walk 0)"
proof -
  have n: "0 < pk_num demo_pack" by (simp add: demo_pack_wf)
  have "pe_typ (ly_ents (build_layout demo_pack) ! 0) = TypeBlob"
    using ents_sel(3) [OF demo_pack_wf(1) n] demo_type by simp
  then have "parent_of demo_pack (build_layout demo_pack) 0 = None"
    using delta_has_parent [OF demo_pack_wf(1) n] by simp
  then show ?thesis
    using ents_sel(4) [OF demo_pack_wf(1) n] parent_of_eq [OF demo_pack_wf(1) n]
    by (simp add: walk_entry_def demo_walk_def)
qed

theorem walk_chain_exact_witness:
  "\<exists>t s'. droot t = 0 \<and> walk_chain demo_walk 0 demo_state = Some s' \<and> mset (ws_out s') = mset (chain_ref demo_walk t)"
proof -
  have "we_pack demo_walk = demo_pack" "we_layout demo_walk = build_layout demo_pack" "0 < pk_num demo_pack"
    "ws_stack demo_state = []" "ws_out demo_state = []"
    by (simp_all add: demo_walk_def demo_state_def demo_pack_wf)
  with walk_chain_exact [OF demo_pack_wf(1) this(1-3) demo_root this(4)] show ?thesis by auto
qed

end
