(* ===== verification/PackVerify.thy ===== *)
theory PackVerify
  imports DeltaForest
begin

text \<open>
  \<open>Pack.Verify\<close>: the checks of a whole pack, \<open>internal/odb/verify.go\<close>. The pack's file as
  \<open>hashThrough\<close> reads it is the parameter \<open>file\<close> (\<open>None\<close> when it cannot be opened or read), and
  \<open>crc\<close> is \<open>crc32.ChecksumIEEE\<close>. The workers hand their events to one \<open>Emit\<close>; here they are walked
  one root after the other, and \<open>we_others\<close> stands for the rest of the workers.
\<close>

datatype header_fault = TooShort | NotPack | PackVersion nat | CountDiffers nat nat | IndexDiffers

datatype verify_event =
    IndexNotOpened
  | IndexHashMismatch
  | HeaderFault header_fault
  | CannotAccess
  | CannotRead
  | PackHashMismatch
  | PackHashNotIndexed
  | CrcMismatch oid int
  | Walked event

definition complaint :: "verify_event \<Rightarrow> bool" where
  "complaint e = (case e of Walked (Object x t n d) \<Rightarrow> False | Walked Progress \<Rightarrow> False | _ \<Rightarrow> True)"

definition verify_index_checksum :: "pack \<Rightarrow> bool" where
  "verify_index_checksum p =
     (let rawsz = raw_size (pk_algo p); n = length (pk_idx p) in
      if n < rawsz then False
      else digest (pk_algo p) (take (n - rawsz) (pk_idx p)) = drop (n - rawsz) (pk_idx p))"

text \<open>The copy of the pack's hash that its index keeps, and the pack's own.\<close>

definition indexed_hash :: "pack \<Rightarrow> bytes" where
  "indexed_hash p =
     (let rawsz = raw_size (pk_algo p); n = length (pk_idx p)
      in take rawsz (drop (n - 2 * rawsz) (pk_idx p)))"

definition pack_trailer :: "pack \<Rightarrow> bytes" where
  "pack_trailer p = drop (length (pk_data p) - raw_size (pk_algo p)) (pk_data p)"

definition validate_pack_header :: "pack \<Rightarrow> header_fault option" where
  "validate_pack_header p =
     (let d = pk_data p; ver = be32_at d 4; n = be32_at d 8 in
      if length d < 12 + raw_size (pk_algo p) then Some TooShort
      else if take 4 d \<noteq> str ''PACK'' then Some NotPack
      else if ver \<noteq> 2 \<and> ver \<noteq> 3 then Some (PackVersion ver)
      else if n \<noteq> pk_num p then Some (CountDiffers n (pk_num p))
      else if pack_trailer p \<noteq> indexed_hash p then Some IndexDiffers
      else None)"

definition checksum_complaints :: "pack \<Rightarrow> bytes option \<Rightarrow> verify_event list" where
  "checksum_complaints p file =
     (case file of
        None \<Rightarrow> [CannotRead]
      | Some f \<Rightarrow>
          (if digest (pk_algo p) (take (length (pk_data p) - raw_size (pk_algo p)) f) \<noteq> pack_trailer p
           then [PackHashMismatch] else []) @
          (if indexed_hash p \<noteq> pack_trailer p then [PackHashNotIndexed] else []))"

definition slice :: "bytes \<Rightarrow> int \<Rightarrow> int \<Rightarrow> bytes" where
  "slice b i j = take (nat (j - i)) (drop (nat i) b)"

definition check_crc :: "walk_env \<Rightarrow> (bytes \<Rightarrow> nat) \<Rightarrow> nat \<Rightarrow> verify_event list" where
  "check_crc w crc i =
     (let p = we_pack w; e = walk_entry w i; end_pos = entry_end (we_layout w) i in
      if pe_off e < 0 \<or> int (length (pk_data p)) < end_pos \<or> end_pos < pe_off e then []
      else if crc (slice (pk_data p) (pe_off e) end_pos) \<noteq> crc_at p (pe_idx e)
        then [CrcMismatch (entry_oid w i) (pe_off e)]
      else [])"

definition check_crcs :: "walk_env \<Rightarrow> (bytes \<Rightarrow> nat) \<Rightarrow> verify_event list" where
  "check_crcs w crc =
     (if 1 < pk_ver (we_pack w) then concat (map (check_crc w crc) [0..<length (ly_ents (we_layout w))]) else [])"

fun bad_events :: "walk_env \<Rightarrow> nat list \<Rightarrow> event list option" where
  "bad_events w [] = Some []"
| "bad_events w (i # is) =
     Option.bind (fail_subtree w i) (\<lambda>evs.
       Option.bind (bad_events w is) (\<lambda>more. Some (cannot_unpack w i @ evs @ more)))"

fun walk_roots :: "walk_env \<Rightarrow> nat list \<Rightarrow> walk_state \<Rightarrow> walk_state option" where
  "walk_roots w [] s = Some s"
| "walk_roots w (i # is) s =
     (if pe_root (walk_entry w i) then Option.bind (walk_chain w i s) (walk_roots w is)
      else walk_roots w is s)"

definition default_chain_budget :: int where
  "default_chain_budget = 256 * 2 ^ 20"

definition start_state :: "int \<Rightarrow> walk_state" where
  "start_state budget =
     \<lparr>ws_budget = (if budget \<le> 0 then default_chain_budget else budget), ws_tick = 0, ws_stack = [],
      ws_deferred = [], ws_out = []\<rparr>"

definition verify_objects :: "walk_env \<Rightarrow> (bytes \<Rightarrow> nat) \<Rightarrow> int \<Rightarrow> (bool \<times> verify_event list) option" where
  "verify_objects w crc budget =
     Option.bind (bad_events w (ly_bad (we_layout w))) (\<lambda>bads.
       Option.bind (walk_roots w [0..<length (ly_ents (we_layout w))] (start_state budget)) (\<lambda>s.
         let evs = map Walked bads @ check_crcs w crc @ map Walked (ws_out s)
         in Some (list_all (\<lambda>e. \<not> complaint e) evs, evs)))"

definition verify :: "walk_env \<Rightarrow> (bytes \<Rightarrow> nat) \<Rightarrow> bytes option \<Rightarrow> int \<Rightarrow> bool \<Rightarrow> (bool \<times> verify_event list) option" where
  "verify w crc file budget opened =
     (let p = we_pack w in
      if \<not> opened then Some (False, [IndexNotOpened])
      else
        let a = (if verify_index_checksum p then [] else [IndexHashMismatch]) in
        case validate_pack_header p of
          Some m \<Rightarrow> Some (False, a @ [HeaderFault m, CannotAccess])
        | None \<Rightarrow>
            Option.bind (verify_objects w crc budget) (\<lambda>(ok, evs).
              let sums = checksum_complaints p file
              in Some (a = [] \<and> sums = [] \<and> ok, a @ evs @ sums)))"

section \<open>Verification always ends\<close>

lemma bad_events_spec:
  assumes "\<And>i. i \<in> set is \<Longrightarrow> \<exists>t. droot t = i \<and> is_tree (children (we_layout w)) t"
  shows "\<exists>evs. bad_events w is = Some evs"
  using assms
proof (induction "is")
  case (Cons i "is")
  then obtain t where "droot t = i" "is_tree (children (we_layout w)) t" by auto
  then obtain evs where "fail_subtree w i = Some evs" using fail_subtree_spec by blast
  with Cons show ?case by auto
qed simp

lemma root_tree:
  fixes w :: walk_env
  assumes "wf_algo (pk_algo p)" and "we_pack w = p" and "we_layout w = build_layout p"
    and "i < pk_num p" and "parent_of p (build_layout p) i = None"
  shows "\<exists>t. droot t = i \<and> is_tree (children (we_layout w)) t"
  using tree_exists [OF forest_layout [OF assms(1-3)], of i "[]"] assms by simp

lemma tree_unique: "is_tree ch t \<Longrightarrow> is_tree ch t' \<Longrightarrow> droot t = droot t' \<Longrightarrow> t = t'"
proof (induction t arbitrary: t')
  case (DNode i ts)
  obtain ts' where t': "t' = DNode i ts'" using DNode.prems(3) by (cases t') simp
  have eq: "map droot ts = map droot ts'" using DNode.prems t' by simp
  have "ts = ts'"
  proof (rule nth_equalityI)
    show len: "length ts = length ts'" using eq by (metis length_map)
    fix k assume k: "k < length ts"
    then have "droot (ts ! k) = droot (ts' ! k)" using eq len by (metis nth_map)
    with k len DNode show "ts ! k = ts' ! k" using t' by (auto simp: list_all_length)
  qed
  with t' show ?case by simp
qed

lemma set_mset_eq: "mset xs = mset ys + mset zs \<Longrightarrow> set xs = set ys \<union> set zs"
  by (metis set_mset_mset set_mset_union)

lemma walk_roots_spec:
  fixes w :: walk_env
  assumes wf: "wf_algo (pk_algo p)" and p: "we_pack w = p" and l: "we_layout w = build_layout p"
  shows "set is \<subseteq> {..<pk_num p} \<Longrightarrow> ws_stack s = [] \<Longrightarrow>
    \<exists>s'. walk_roots w is s = Some s' \<and> set (ws_out s) \<subseteq> set (ws_out s') \<and>
      (\<forall>i \<in> set is. \<forall>t. pe_root (walk_entry w i) \<longrightarrow> droot t = i \<longrightarrow> is_tree (children (we_layout w)) t \<longrightarrow>
         set (chain_ref w t) \<subseteq> set (ws_out s'))"
proof (induction "is" arbitrary: s)
  case (Cons i "is")
  show ?case
  proof (cases "pe_root (walk_entry w i)")
    case False
    with Cons show ?thesis by auto
  next
    case True
    have i: "i < pk_num p" using Cons.prems(1) by simp
    have root: "parent_of p (build_layout p) i = None"
      using True l parent_of_eq [OF wf i] ents_sel(4) [OF wf i] by (simp add: walk_entry_def)
    obtain t where t: "droot t = i" "is_tree (children (we_layout w)) t"
      using root_tree [OF wf p l i root] by blast
    obtain s1 where s1: "walk_chain w i s = Some s1" "mset (ws_out s1) = mset (ws_out s) + mset (chain_ref w t)"
      "ws_stack s1 = []"
      using walk_chain_spec [OF forest_layout [OF wf p l] t(2), of s] t root p l i Cons.prems(2) by auto
    note out1 = set_mset_eq [OF s1(2)]
    obtain s' where s': "walk_roots w is s1 = Some s'" "set (ws_out s1) \<subseteq> set (ws_out s')"
      "\<forall>k \<in> set is. \<forall>t. pe_root (walk_entry w k) \<longrightarrow> droot t = k \<longrightarrow> is_tree (children (we_layout w)) t \<longrightarrow>
         set (chain_ref w t) \<subseteq> set (ws_out s')"
      using Cons.IH [of s1] Cons.prems(1) s1(3) by auto
    have "set (chain_ref w t') \<subseteq> set (ws_out s')"
      if "droot t' = i" "is_tree (children (we_layout w)) t'" for t'
      using tree_unique [OF that(2) t(2)] that(1) t(1) out1 s'(2) by auto
    then show ?thesis using True s1(1) s' out1 by (intro exI [of _ s']) auto
  qed
qed simp

lemma verify_objects_spec:
  fixes w :: walk_env
  assumes wf: "wf_algo (pk_algo p)" and p: "we_pack w = p" and l: "we_layout w = build_layout p"
  shows "\<exists>ok evs. verify_objects w crc budget = Some (ok, evs) \<and>
    (ok \<longrightarrow> ly_bad (build_layout p) = [] \<and> check_crcs w crc = [] \<and>
      (\<forall>i < pk_num p. \<forall>t. pe_root (walk_entry w i) \<longrightarrow> droot t = i \<longrightarrow> is_tree (children (we_layout w)) t \<longrightarrow>
         list_all (\<lambda>e. \<not> complaint (Walked e)) (chain_ref w t)))"
proof -
  have par: "parent_of p (build_layout p) i = None \<and> i < pk_num p" if "i \<in> set (ly_bad (build_layout p))" for i
  proof -
    have i: "i < pk_num p" "entry_type p (sorted_entries p) i = TypeBad"
      using that ents_sel(6) [OF wf] by auto
    then show ?thesis using delta_has_parent [OF wf i(1)] ents_sel(3) [OF wf i(1)] by simp
  qed
  then obtain bads where bads: "bad_events w (ly_bad (we_layout w)) = Some bads"
    using bad_events_spec [of "ly_bad (we_layout w)" w] root_tree [OF wf p l] l by auto
  have "set [0..<length (ly_ents (we_layout w))] \<subseteq> {..<pk_num p}" using l ents_sel(1) [OF wf] by auto
  then obtain s where s: "walk_roots w [0..<length (ly_ents (we_layout w))] (start_state budget) = Some s"
    "\<forall>i < pk_num p. \<forall>t. pe_root (walk_entry w i) \<longrightarrow> droot t = i \<longrightarrow> is_tree (children (we_layout w)) t \<longrightarrow>
       set (chain_ref w t) \<subseteq> set (ws_out s)"
    using walk_roots_spec [OF wf p l, of "[0..<length (ly_ents (we_layout w))]" "start_state budget"]
      l ents_sel(1) [OF wf] by (auto simp: start_state_def)
  let ?evs = "map Walked bads @ check_crcs w crc @ map Walked (ws_out s)"
  have res: "verify_objects w crc budget = Some (list_all (\<lambda>e. \<not> complaint e) ?evs, ?evs)"
    using bads s(1) by (simp add: verify_objects_def Let_def)
  moreover have "ly_bad (build_layout p) = [] \<and> check_crcs w crc = [] \<and>
      (\<forall>i < pk_num p. \<forall>t. pe_root (walk_entry w i) \<longrightarrow> droot t = i \<longrightarrow> is_tree (children (we_layout w)) t \<longrightarrow>
         list_all (\<lambda>e. \<not> complaint (Walked e)) (chain_ref w t))"
    if ok: "list_all (\<lambda>e. \<not> complaint e) ?evs"
  proof (intro conjI allI impI)
    show "ly_bad (build_layout p) = []"
    proof (cases "ly_bad (we_layout w)")
      case (Cons b bs)
      with bads obtain evs more where "bads = cannot_unpack w b @ evs @ more"
        by (auto simp: bind_eq_Some_conv)
      then have "CannotUnpack (entry_oid w b) (pe_off (walk_entry w b)) \<in> set bads" by (simp add: cannot_unpack_def)
      moreover have "complaint (Walked (CannotUnpack x y))" for x y by (simp add: complaint_def)
      ultimately show ?thesis using ok unfolding list_all_iff set_append set_map by blast
    qed (simp add: l)
    have "e \<notin> set (check_crcs w crc)" for e
    proof
      assume "e \<in> set (check_crcs w crc)"
      then have "complaint e" by (auto simp: check_crcs_def check_crc_def complaint_def Let_def split: if_splits)
      with \<open>e \<in> _\<close> ok show False by (auto simp: list_all_iff)
    qed
    then show "check_crcs w crc = []" by (metis list.set_intros(1) neq_Nil_conv)
    fix i t assume "i < pk_num p" "pe_root (walk_entry w i)" "droot t = i" "is_tree (children (we_layout w)) t"
    with s(2) have "set (chain_ref w t) \<subseteq> set (ws_out s)" by blast
    with ok show "list_all (\<lambda>e. \<not> complaint (Walked e)) (chain_ref w t)"
      by (auto simp: list_all_iff)
  qed
  ultimately show ?thesis by blast
qed

section \<open>What success means\<close>

text \<open>An entry is good when it decodes, from the bottom of its chain, to bytes that hash to its name.\<close>

definition entry_good :: "walk_env \<Rightarrow> nat \<Rightarrow> bool" where
  "entry_good w i \<longleftrightarrow>
     (\<exists>ty d. decodes w ty i d \<and> hash_literal (pk_algo (we_pack w)) (type_name ty) d = entry_oid w i) \<or>
     stream_hash w (data_off (walk_entry w i)) (pe_size (walk_entry w i)) (pe_typ (walk_entry w i)) = Some (entry_oid w i)"

lemma finish_silent:
  "list_all (\<lambda>e. \<not> complaint (Walked e)) (finish w i ty d) \<Longrightarrow>
     hash_literal (pk_algo (we_pack w)) (type_name ty) d = entry_oid w i"
  by (auto simp: finish_def complaint_def split: if_splits)

lemma cannot_unpack_loud: "\<not> list_all (\<lambda>e. \<not> complaint (Walked e)) (cannot_unpack w i)"
  by (simp add: cannot_unpack_def complaint_def)

text \<open>The entry at the front of a path to a root, in the root's tree, when nothing was said.\<close>

definition calm :: "walk_env \<Rightarrow> nat \<Rightarrow> bool" where
  "calm w n \<longleftrightarrow>
     (\<forall>q < n. \<forall>c < n. parent_of (we_pack w) (we_layout w) c = Some q \<longrightarrow> c \<in> set (children (we_layout w) q)) \<and>
     (\<forall>i < n. pe_typ (walk_entry w i) \<noteq> TypeBad) \<and>
     (\<forall>r < n. \<forall>t. parent_of (we_pack w) (we_layout w) r = None \<longrightarrow> droot t = r \<longrightarrow>
        is_tree (children (we_layout w)) t \<longrightarrow> list_all (\<lambda>e. \<not> complaint (Walked e)) (chain_ref w t))"

lemma path_good:
  fixes w :: walk_env
  assumes fo: "forest w n" and calm: "calm w n"
  shows "rooted_path w (i # path) \<Longrightarrow> set (i # path) \<subseteq> {..<n} \<Longrightarrow>
    \<exists>t. droot t = i \<and> is_tree (children (we_layout w)) t \<and>
      ((\<exists>ty d. decodes w ty i d \<and> list_all (\<lambda>e. \<not> complaint (Walked e)) (finish w i ty d @ frame_work w ty d (dsub t))) \<or>
       dsub t = [] \<and> list_all (\<lambda>e. \<not> complaint (Walked e)) (finish_streamed w i))"
proof (induction path arbitrary: i)
  have nb: "pe_typ (walk_entry w i) \<noteq> TypeBad" if "i < n" for i using calm that by (simp add: calm_def)
  case Nil
  then have r: "parent_of (we_pack w) (we_layout w) i = None" "i < n" by auto
  obtain t where t: "droot t = i" "is_tree (children (we_layout w)) t" using tree_exists [OF fo Nil] by blast
  have q: "list_all (\<lambda>e. \<not> complaint (Walked e)) (chain_ref w t)"
    using calm r t by (simp add: calm_def)
  obtain ts where T: "t = DNode i ts" using t(1) by (cases t) simp
  show ?case
  proof (cases "pe_typ (walk_entry w i) = TypeBlob \<and> 0 < we_threshold w \<and> we_threshold w \<le> pe_size (walk_entry w i) \<and> ts = []")
    case True
    with q T nb [OF r(2)] t show ?thesis by (intro exI [of _ t]) (simp add: Let_def)
  next
    case False
    have "chain_ref w t = (case materialize_root w i of
          None \<Rightarrow> cannot_unpack w i @ concat (map (fail_ref w) ts)
        | Some (ty, data) \<Rightarrow> finish w i ty data @ concat (map (child_ref w ty data) ts))"
      unfolding T chain_ref.simps Let_def using False nb [OF r(2)] by (simp only: if_False)
    with q cannot_unpack_loud [of w i] obtain ty d where d: "materialize_root w i = Some (ty, d)"
      "list_all (\<lambda>e. \<not> complaint (Walked e)) (finish w i ty d @ frame_work w ty d ts)"
      by (cases "materialize_root w i") (auto simp: frame_work_def)
    with decodes.base [OF r(1) d(1)] t T show ?thesis by (intro exI [of _ t]) auto
  qed
next
  have nb: "pe_typ (walk_entry w i) \<noteq> TypeBad" if "i < n" for i using calm that by (simp add: calm_def)
  case (Cons q path)
  have "rooted_path w (q # path)" "set (q # path) \<subseteq> {..<n}" using Cons.prems by auto
  from Cons.IH [OF this] obtain t where t: "droot t = q" "is_tree (children (we_layout w)) t" and
    good: "(\<exists>ty d. decodes w ty q d \<and> list_all (\<lambda>e. \<not> complaint (Walked e)) (finish w q ty d @ frame_work w ty d (dsub t))) \<or>
       dsub t = [] \<and> list_all (\<lambda>e. \<not> complaint (Walked e)) (finish_streamed w q)" by blast
  have p: "parent_of (we_pack w) (we_layout w) i = Some q" "q < n" "i < n" using Cons.prems by auto
  have "i \<in> droot ` set (dsub t)" using calm p t by (auto simp: calm_def is_tree_unfold [of _ t])
  then obtain u where u: "u \<in> set (dsub t)" "droot u = i" "is_tree (children (we_layout w)) u"
    using t(2) by (auto simp: is_tree_unfold [of _ t] list_all_iff)
  obtain us where U: "u = DNode i us" using u(2) by (cases u) simp
  from u(1) have "dsub t \<noteq> []" by auto
  with good obtain ty d where d: "decodes w ty q d" "list_all (\<lambda>e. \<not> complaint (Walked e)) (frame_work w ty d (dsub t))" by auto
  then have "list_all (\<lambda>e. \<not> complaint (Walked e)) (child_ref w ty d u)"
    using u(1) by (auto simp: frame_work_def list_all_iff)
  then obtain out where out: "decode_child w d i = Some out"
    "list_all (\<lambda>e. \<not> complaint (Walked e)) (finish w i ty out @ frame_work w ty out us)"
    using nb [OF p(3)] cannot_unpack_loud [of w i] U by (cases "decode_child w d i") (auto simp: frame_work_def)
  from decodes.delta [OF d(1) p(1) out(1)] out(2) u U show ?case by (intro exI [of _ u]) auto
qed

text \<open>
  C3: what it means for a pack to verify. When \<open>Verify\<close> returns true, both checksums hold, the pack's
  header is one git reads, no entry is of bad type, every recorded CRC is right, and every entry whose
  chain of bases ends at an entry that is not a delta decodes through that chain to bytes that hash to
  the name the index gives it.
\<close>

theorem verify_sound:
  fixes w :: walk_env
  assumes wf: "wf_algo (pk_algo p)" and p: "we_pack w = p" and l: "we_layout w = build_layout p"
    and v: "verify w crc file budget opened = Some (True, evs)"
  shows "verify_index_checksum p \<and> validate_pack_header p = None \<and> checksum_complaints p file = [] \<and>
    check_crcs w crc = [] \<and> (\<forall>i < pk_num p. pe_typ (walk_entry w i) \<noteq> TypeBad) \<and>
    (\<forall>i path. set (i # path) \<subseteq> {..<pk_num p} \<longrightarrow> rooted_path w (i # path) \<longrightarrow> entry_good w i)"
proof -
  obtain ok oevs where o: "verify_objects w crc budget = Some (ok, oevs)" and
    ok: "ok \<Longrightarrow> ly_bad (build_layout p) = [] \<and> check_crcs w crc = [] \<and>
      (\<forall>i < pk_num p. \<forall>t. pe_root (walk_entry w i) \<longrightarrow> droot t = i \<longrightarrow> is_tree (children (we_layout w)) t \<longrightarrow>
         list_all (\<lambda>e. \<not> complaint (Walked e)) (chain_ref w t))"
    using verify_objects_spec [OF wf p l, of crc budget] by blast
  from v o have pieces: "verify_index_checksum p" "validate_pack_header p = None" "checksum_complaints p file = []" ok
    by (auto simp: verify_def Let_def p split: if_splits option.splits)
  note ok = ok [OF pieces(4)]
  have nb: "pe_typ (walk_entry w i) \<noteq> TypeBad" if "i < pk_num p" for i
    using ok ents_sel(3) [OF wf that] ents_sel(6) [OF wf, of i] that by (simp add: walk_entry_def l)
  have quiet: "list_all (\<lambda>e. \<not> complaint (Walked e)) (chain_ref w t)"
    if "r < pk_num p" "parent_of (we_pack w) (we_layout w) r = None" "droot t = r" "is_tree (children (we_layout w)) t" for r t
  proof -
    have "pe_root (walk_entry w r)"
      using that(2) ents_sel(4) [OF wf that(1)] parent_of_eq [OF wf that(1)] p l by (simp add: walk_entry_def)
    with ok that show ?thesis by blast
  qed
  have ch: "c \<in> set (children (we_layout w) q)"
    if "q < pk_num p" "c < pk_num p" "parent_of (we_pack w) (we_layout w) c = Some q" for c q
    using that children_eq [OF wf that(1)] by (simp add: p l)
  have calm: "calm w (pk_num p)" using ch nb quiet by (auto simp: calm_def)
  have "entry_good w i" if path: "set (i # path) \<subseteq> {..<pk_num p}" "rooted_path w (i # path)" for i path
  proof -
    obtain t where "(\<exists>ty d. decodes w ty i d \<and> list_all (\<lambda>e. \<not> complaint (Walked e)) (finish w i ty d @ frame_work w ty d (dsub t))) \<or>
       dsub t = [] \<and> list_all (\<lambda>e. \<not> complaint (Walked e)) (finish_streamed w i)"
      using path_good [OF forest_layout [OF wf p l] calm path(2,1)] by blast
    then show ?thesis
    proof (elim disjE exE conjE)
      fix ty d assume "decodes w ty i d" "list_all (\<lambda>e. \<not> complaint (Walked e)) (finish w i ty d @ frame_work w ty d (dsub t))"
      with finish_silent [of w i ty d] show ?thesis unfolding entry_good_def by auto
    next
      assume "list_all (\<lambda>e. \<not> complaint (Walked e)) (finish_streamed w i)"
      with cannot_unpack_loud [of w i] show ?thesis unfolding entry_good_def finish_streamed_def Let_def
        by (auto simp: complaint_def split: option.splits if_splits)
    qed
  qed
  with pieces ok nb show ?thesis by blast
qed

text \<open>
  C7: verification always comes to an end, whatever the pack holds: every loop of it, over the stacks
  of failed and deferred entries included, returns.
\<close>

theorem verify_terminates:
  fixes w :: walk_env
  assumes "wf_algo (pk_algo (we_pack w))" and "we_layout w = build_layout (we_pack w)"
  shows "verify w crc file budget opened \<noteq> None"
proof -
  obtain ok evs where "verify_objects w crc budget = Some (ok, evs)"
    using verify_objects_spec [OF assms(1) refl assms(2), of crc budget] by blast
  then show ?thesis by (auto simp: verify_def Let_def split: option.splits)
qed


section \<open>Two packs\<close>

lemma demo_header_eq: "read_header demo_pack 12 =
    Inr \<lparr>oh_type = 3, oh_size = 0, oh_data = 13, oh_base_off = 0, oh_base_oid = zero_oid\<rparr>"
  by (simp add: read_header_def read_kind_def demo_pack_def trailer_offset_def sha1_algo_def byte_at_def
      size_loop.simps nth_append)

lemma demo_facts: "trailer_offset demo_pack = 21" "verify_index_checksum demo_pack"
  "validate_pack_header demo_pack = None" "checksum_complaints demo_pack (Some []) = []" "pk_ver demo_pack = 1"
  "digest (pk_algo demo_pack) m = replicate 20 0" "oid_at demo_pack 0 = from_bytes (replicate 20 0)"
  by (simp_all add: trailer_offset_def verify_index_checksum_def validate_pack_header_def checksum_complaints_def
      pack_trailer_def indexed_hash_def demo_pack_def sha1_algo_def be32_at_def be32_def oid_at_def from_raw_def
      from_bytes_def max_raw_size_def)

lemma demo_layout: "build_layout demo_pack =
    \<lparr>ly_ents = [\<lparr>pe_off = 12, pe_size = 0, pe_idx = 0, pe_hdr = 1, pe_typ = 3, pe_root = True\<rparr>],
     child_start = [0, 0], child_list = [], ly_bad = [], header_errs = (\<lambda>_. None), ly_trailer = 21\<rparr>"
  by (simp add: build_layout_def read_entries_def demo_entries_eq entry_step_def demo_header_eq max_header_def
      max_raw_size_def count_children_def prefix_sums_def fill_children_def fill_step_def demo_facts
      demo_pack_wf Let_def)

lemma demo_verify: "verify demo_walk (\<lambda>b. 0) (Some []) 0 True =
    Some (True, [Walked (Object (from_bytes (replicate 20 0)) TypeBlob 0 (Some [])), Walked Progress])"
  by (simp add: verify_def verify_objects_def demo_facts demo_layout demo_walk_def check_crcs_def start_state_def
      walk_chain_def walk_entry_def children_def materialize_root_def data_off_def finish_def hash_literal_def
      entry_oid_def complaint_def Let_def)

theorem verify_sound_witness: "entry_good demo_walk 0 \<and> pk_num demo_pack = 1"
proof -
  have w: "we_pack demo_walk = demo_pack" "we_layout demo_walk = build_layout demo_pack" by (simp_all add: demo_walk_def)
  have "parent_of demo_pack (build_layout demo_pack) 0 = None"
    by (simp add: parent_of_def demo_layout demo_header_eq base_pos_def)
  then have "rooted_path demo_walk [0]" by (simp add: w)
  moreover have "\<forall>i path. set (i # path) \<subseteq> {..<pk_num demo_pack} \<longrightarrow> rooted_path demo_walk (i # path) \<longrightarrow> entry_good demo_walk i"
    using verify_sound [OF demo_pack_wf(1) w demo_verify] by blast
  ultimately show ?thesis by (auto simp: demo_pack_wf(2) intro: allE [of _ 0] dest: spec [of _ "[]"])
qed

theorem verify_terminates_witness: "verify demo_walk (\<lambda>b. 0) None 7 True \<noteq> None"
  by (rule verify_terminates) (simp_all add: demo_walk_def demo_pack_wf)

end
