(* ===== verification/PackObjects.thy ===== *)
theory PackObjects
  imports PackVerify
begin

text \<open>
  What a pack hands to the check of objects. Every \<open>Object\<close> event of \<open>Verify\<close> is of one of the four types
  and its bytes hash to its name, whether the pack as a whole verifies or not.
\<close>

definition sound_event :: "algo \<Rightarrow> event \<Rightarrow> bool" where
  "sound_event a e \<longleftrightarrow>
     (case e of
        Object x t n buf \<Rightarrow> t \<in> {TypeCommit, TypeTree, TypeBlob, TypeTag} \<and>
          (case buf of
             Some d \<Rightarrow> hash_literal a (type_name t) d = x \<and> n = int (length d)
           | None \<Rightarrow> t = TypeBlob \<and> (\<exists>b. from_bytes (digest a (type_header t n @ b)) = x))
      | _ \<Rightarrow> True)"

lemma sound_silent:
  "list_all (sound_event a) (cannot_unpack w i)" "list_all (sound_event a) (fail_ref w t)"
proof -
  show c: "list_all (sound_event a) (cannot_unpack w i)" for i
    by (auto simp: cannot_unpack_def sound_event_def Let_def split: option.splits)
  show "list_all (sound_event a) (fail_ref w t)"
  proof (induction t)
    case (DNode i ts)
    then show ?case using c by (auto simp: list_all_iff)
  qed
qed

lemma sound_finish:
  assumes "t \<in> {TypeCommit, TypeTree, TypeBlob, TypeTag}"
  shows "list_all (sound_event (pk_algo (we_pack w))) (finish w i t d)"
  using assms by (auto simp: finish_def sound_event_def)

lemma sound_child:
  assumes "ty \<in> {TypeCommit, TypeTree, TypeBlob, TypeTag}"
  shows "list_all (sound_event (pk_algo (we_pack w))) (child_ref w ty base t)"
proof (induction t arbitrary: base)
  case (DNode c ts)
  have sub: "list_all (sound_event (pk_algo (we_pack w))) (concat (map (child_ref w ty out) ts))" for out
    using DNode by (auto simp: list_all_iff)
  have "list_all (sound_event (pk_algo (we_pack w))) (concat (map (fail_ref w) ts))"
    using sound_silent(2) by (auto simp: list_all_iff)
  then show ?case using sub sound_silent(1) sound_finish [OF assms] by (simp split: option.splits)
qed

lemma entry_types:
  fixes w :: walk_env
  assumes "wf_algo (pk_algo p)" and "we_layout w = build_layout p" and "i < pk_num p"
  shows "pe_typ (walk_entry w i) \<in> {TypeBad, TypeCommit, TypeTree, TypeBlob, TypeTag, TypeOfsDelta, TypeRefDelta}"
proof -
  have "pe_typ (walk_entry w i) = entry_type p (sorted_entries p) i"
    using ents_sel(3) [OF assms(1,3)] by (simp add: walk_entry_def assms(2))
  then show ?thesis
    using header_bounds [OF assms(1)] by (auto simp: entry_type_def split: sum.splits)
qed

lemma sound_chain:
  fixes w :: walk_env
  assumes "wf_algo (pk_algo p)" and "we_pack w = p" and "we_layout w = build_layout p" and "droot t < pk_num p"
  shows "list_all (sound_event (pk_algo p)) (chain_ref w t)"
proof -
  obtain r ts where t: "t = DNode r ts" by (cases t)
  have ty: "pe_typ (walk_entry w r) \<in> {TypeBad, TypeCommit, TypeTree, TypeBlob, TypeTag, TypeOfsDelta, TypeRefDelta}"
    using entry_types [OF assms(1,3)] assms(4) t by simp
  have fails: "list_all (sound_event (pk_algo p)) (concat (map (fail_ref w) ts))"
    using sound_silent(2) by (auto simp: list_all_iff)
  have kids: "list_all (sound_event (pk_algo p)) (finish w r k d @ concat (map (child_ref w k d) ts))"
    if "k \<in> {TypeCommit, TypeTree, TypeBlob, TypeTag}" for k d
    using sound_child [OF that, of w] sound_finish [OF that, of w] assms(2) by (auto simp: list_all_iff)
  have str: "list_all (sound_event (pk_algo p)) (finish_streamed w r)" if "pe_typ (walk_entry w r) = TypeBlob"
    using that sound_silent(1) assms(2)
    by (auto simp: finish_streamed_def sound_event_def stream_hash_def Let_def split: option.splits)
  have root: "k \<in> {TypeCommit, TypeTree, TypeBlob, TypeTag}"
    if "materialize_root w r = Some (k, d)" "pe_typ (walk_entry w r) \<noteq> TypeBad" for k d
    using that ty by (auto simp: materialize_root_def Let_def split: if_splits)
  show ?thesis
    using fails sound_silent(1) str kids root unfolding t
    by (cases "materialize_root w r") (auto simp: Let_def)
qed

section \<open>Where the events come from\<close>

text \<open>What the trees below the given roots contribute.\<close>

definition tree_events :: "(nat \<Rightarrow> nat list) \<Rightarrow> (dtree \<Rightarrow> event set) \<Rightarrow> nat set \<Rightarrow> event set" where
  "tree_events ch f I = {e. \<exists>t. droot t \<in> I \<and> is_tree ch t \<and> e \<in> f t}"

lemma tree_events_empty [simp]: "tree_events ch f {} = {}"
  by (simp add: tree_events_def)

lemma tree_events_insert:
  assumes "is_tree ch t" and "droot t = i"
  shows "tree_events ch f (insert i I) = f t \<union> tree_events ch f I"
proof -
  have "u = t" if "is_tree ch u" "droot u = i" for u
    using tree_unique [OF that(1) assms(1)] that(2) assms(2) by simp
  then show ?thesis unfolding tree_events_def using assms by blast
qed

lemma tree_eventsD: "e \<in> tree_events ch f I \<Longrightarrow> \<exists>t. droot t \<in> I \<and> is_tree ch t \<and> e \<in> f t"
  by (simp add: tree_events_def)

lemma roots_events:
  fixes w :: walk_env
  assumes wf: "wf_algo (pk_algo p)" and p: "we_pack w = p" and l: "we_layout w = build_layout p"
  shows "walk_roots w is s = Some s' \<Longrightarrow> set is \<subseteq> {..<pk_num p} \<Longrightarrow> ws_stack s = [] \<Longrightarrow>
    set (ws_out s') = set (ws_out s) \<union>
      tree_events (children (we_layout w)) (\<lambda>t. set (chain_ref w t)) {i \<in> set is. pe_root (walk_entry w i)}"
proof (induction "is" arbitrary: s)
  case (Cons i "is")
  show ?case
  proof (cases "pe_root (walk_entry w i)")
    case False
    then have "{k \<in> set (i # is). pe_root (walk_entry w k)} = {k \<in> set is. pe_root (walk_entry w k)}" by auto
    with Cons False show ?thesis by simp
  next
    case True
    have i: "i < pk_num p" using Cons.prems(2) by simp
    have root: "parent_of p (build_layout p) i = None"
      using True l parent_of_eq [OF wf i] ents_sel(4) [OF wf i] by (simp add: walk_entry_def)
    obtain t where t: "droot t = i" "is_tree (children (we_layout w)) t"
      using root_tree [OF wf p l i root] by blast
    obtain s1 where s1: "walk_chain w i s = Some s1" "mset (ws_out s1) = mset (ws_out s) + mset (chain_ref w t)"
      "ws_stack s1 = []"
      using walk_chain_spec [OF forest_layout [OF wf p l] t(2), of s] t root p l i Cons.prems(3) by auto
    have "set (ws_out s') = set (ws_out s1) \<union>
        tree_events (children (we_layout w)) (\<lambda>t. set (chain_ref w t)) {i \<in> set is. pe_root (walk_entry w i)}"
      using Cons.IH [of s1] Cons.prems True s1 by simp
    moreover have "{k \<in> set (i # is). pe_root (walk_entry w k)} = insert i {k \<in> set is. pe_root (walk_entry w k)}"
      using True by auto
    ultimately show ?thesis using set_mset_eq [OF s1(2)] tree_events_insert [OF t(2,1)] by (simp add: Un_assoc)
  qed
qed simp

lemma bads_events:
  assumes wf: "wf_algo (pk_algo p)" and p: "we_pack w = p" and l: "we_layout w = build_layout p"
    and "bad_events w is = Some evs" and "set is \<subseteq> {i. i < pk_num p \<and> parent_of p (build_layout p) i = None}"
  shows "set evs = tree_events (children (we_layout w)) (\<lambda>t. set (fail_ref w t)) (set is)"
  using assms(4,5)
proof (induction "is" arbitrary: evs)
  case (Cons i "is")
  obtain e1 e2 where e: "fail_subtree w i = Some e1" "bad_events w is = Some e2" "evs = cannot_unpack w i @ e1 @ e2"
    using Cons.prems(1) by (auto simp: bind_eq_Some_conv)
  obtain t where t: "droot t = i" "is_tree (children (we_layout w)) t"
    using root_tree [OF wf p l, of i] Cons.prems(2) by auto
  have "mset e1 = mset (concat (map (fail_ref w) (dsub t)))" using fail_subtree_spec [OF t(2)] t(1) e(1) by auto
  from mset_eq_setD [OF this] have "set (cannot_unpack w i @ e1) = set (fail_ref w t)"
    using t(1) by (simp add: fail_ref_unfold [of w t])
  moreover have "set e2 = tree_events (children (we_layout w)) (\<lambda>t. set (fail_ref w t)) (set is)"
    using Cons.IH [OF e(2)] Cons.prems(2) by simp
  moreover have "set evs = set (cannot_unpack w i @ e1) \<union> set e2" using e(3) by auto
  ultimately show ?case using tree_events_insert [OF t(2,1)] by simp
qed simp

lemma verify_events_sound:
  fixes w :: walk_env
  assumes wf: "wf_algo (pk_algo (we_pack w))" and l: "we_layout w = build_layout (we_pack w)"
    and v: "verify w crc file budget opened = Some (ok, evs)" and e: "Walked ev \<in> set evs"
  shows "sound_event (pk_algo (we_pack w)) ev"
proof -
  let ?p = "we_pack w"
  note n = ents_sel [OF wf, folded l]
  obtain ok' oevs where o: "verify_objects w crc budget = Some (ok', oevs)" "Walked ev \<in> set oevs"
    using v e by (auto simp: verify_def Let_def bind_eq_Some_conv checksum_complaints_def split: if_splits option.splits)
  obtain bads s where b: "bad_events w (ly_bad (we_layout w)) = Some bads"
    and s: "walk_roots w [0..<length (ly_ents (we_layout w))] (start_state budget) = Some s"
    and evs: "oevs = map Walked bads @ check_crcs w crc @ map Walked (ws_out s)"
    using o(1) by (auto simp: verify_objects_def Let_def bind_eq_Some_conv)
  have none: "parent_of ?p (build_layout ?p) i = None" if "i \<in> set (ly_bad (we_layout w))" for i
    using that n(3,6) delta_has_parent [OF wf, of i] l by auto
  have "set bads = tree_events (children (we_layout w)) (\<lambda>t. set (fail_ref w t)) (set (ly_bad (we_layout w)))"
    by (rule bads_events [OF wf refl l b]) (use none n(6) in auto)
  then have "list_all (sound_event (pk_algo ?p)) bads"
    using sound_silent(2) by (auto simp: list_all_iff dest!: tree_eventsD)
  moreover have "set (ws_out s) = tree_events (children (we_layout w)) (\<lambda>t. set (chain_ref w t))
      {i \<in> set [0..<length (ly_ents (we_layout w))]. pe_root (walk_entry w i)}"
    using roots_events [OF wf refl l s] n(1) by (simp add: start_state_def atLeast0LessThan)
  then have "list_all (sound_event (pk_algo ?p)) (ws_out s)"
    using sound_chain [OF wf refl l] n(1) by (auto simp: list_all_iff dest!: tree_eventsD)
  moreover have "Walked ev \<notin> set (check_crcs w crc)"
    by (auto simp: check_crcs_def check_crc_def Let_def)
  ultimately show ?thesis using o(2) evs by (auto simp: list_all_iff)
qed

text \<open>
  C5: what a pack hands to the check of objects is typed and named right. Whatever the pack holds and
  whether or not it verifies, every \<open>Object\<close> event of \<open>Verify\<close> has one of the four types of objects, and its
  contents hash, under that type, to the name it is given; a blob that was streamed has the hash of its
  header and some bytes as its name.
\<close>

theorem verify_objects_typed:
  fixes w :: walk_env
  assumes "wf_algo (pk_algo (we_pack w))" and "we_layout w = build_layout (we_pack w)"
    and "verify w crc file budget opened = Some (ok, evs)" and "Walked (Object x t n buf) \<in> set evs"
  shows "t \<in> {TypeCommit, TypeTree, TypeBlob, TypeTag} \<and>
    (case buf of
       Some d \<Rightarrow> hash_literal (pk_algo (we_pack w)) (type_name t) d = x \<and> n = int (length d)
     | None \<Rightarrow> t = TypeBlob \<and> (\<exists>b. from_bytes (digest (pk_algo (we_pack w)) (type_header t n @ b)) = x))"
  using verify_events_sound [OF assms] by (simp add: sound_event_def)

theorem verify_objects_typed_witness:
  "hash_literal (pk_algo demo_pack) (type_name TypeBlob) [] = from_bytes (replicate 20 0)"
proof -
  have w: "wf_algo (pk_algo (we_pack demo_walk))" "we_layout demo_walk = build_layout (we_pack demo_walk)"
    by (simp_all add: demo_walk_def demo_pack_wf)
  have "Walked (Object (from_bytes (replicate 20 0)) TypeBlob 0 (Some [])) \<in> set [Walked (Object (from_bytes (replicate 20 0)) TypeBlob 0 (Some [])), Walked Progress]"
    by simp
  from verify_objects_typed [OF w demo_verify this] show ?thesis by (simp add: demo_walk_def)
qed

end
