(* ===== verification/PackCycles.thy ===== *)
theory PackCycles
  imports PackObjects
begin

text \<open>
  Which entries a verification looks at. The walk of a pack starts at the entries that have no base in
  it and goes down; an entry whose chain of bases comes back to itself is below none of them.
\<close>

section \<open>The names the walk speaks of\<close>

fun event_oid :: "event \<Rightarrow> oid option" where
  "event_oid (HeaderMsg x m) = Some x"
| "event_oid (InflateMsg x m) = Some x"
| "event_oid (CannotUnpack x off) = Some x"
| "event_oid (Corrupt x) = Some x"
| "event_oid (Object x t n d) = Some x"
| "event_oid Progress = None"

definition event_names :: "event set \<Rightarrow> oid set" where
  "event_names es = {x. \<exists>e \<in> es. event_oid e = Some x}"

definition walked_names :: "verify_event list \<Rightarrow> oid set" where
  "walked_names evs = event_names {e. Walked e \<in> set evs}"

lemma event_names_Un [simp]: "event_names (A \<union> B) = event_names A \<union> event_names B"
  by (auto simp: event_names_def)

lemma event_names_empty [simp]: "event_names {} = {}"
  by (simp add: event_names_def)

lemma event_names_UN [simp]: "event_names (\<Union>i \<in> I. f i) = (\<Union>i \<in> I. event_names (f i))"
  by (auto simp: event_names_def)

fun dnodes :: "dtree \<Rightarrow> nat set" where
  "dnodes (DNode i ts) = insert i (\<Union>t \<in> set ts. dnodes t)"

lemma names_unpack [simp]: "event_names (set (cannot_unpack w i)) = {entry_oid w i}"
  by (auto simp: event_names_def cannot_unpack_def Let_def split: option.splits)

lemma names_finish [simp]: "event_names (set (finish w i t d)) = {entry_oid w i}"
  by (auto simp: event_names_def finish_def)

lemma names_streamed [simp]: "event_names (set (finish_streamed w i)) = {entry_oid w i}"
proof (cases "stream_hash w (data_off (walk_entry w i)) (pe_size (walk_entry w i)) (pe_typ (walk_entry w i))")
  case None
  then show ?thesis by (simp add: finish_streamed_def Let_def)
next
  case (Some x)
  then show ?thesis by (auto simp: finish_streamed_def Let_def event_names_def)
qed

lemma names_fail: "event_names (set (fail_ref w t)) = entry_oid w ` dnodes t"
proof (induction t)
  case (DNode i ts)
  then show ?case by (simp add: image_UN)
qed

lemma names_child:
  "\<forall>i \<in> dnodes t. pe_typ (walk_entry w i) \<noteq> TypeBad \<Longrightarrow> event_names (set (child_ref w ty base t)) = entry_oid w ` dnodes t"
proof (induction t arbitrary: base)
  case (DNode c ts)
  have kids: "event_names (set (child_ref w ty out t)) = entry_oid w ` dnodes t" if "t \<in> set ts" for t out
    using DNode that by auto
  show ?case
  proof (cases "decode_child w base c")
    case None
    with DNode.prems show ?thesis by (simp add: names_fail image_UN)
  next
    case (Some out)
    with DNode.prems kids show ?thesis by (simp add: image_UN)
  qed
qed

lemma names_chain:
  assumes "\<forall>i \<in> dnodes t. pe_typ (walk_entry w i) \<noteq> TypeBad"
  shows "event_names (set (chain_ref w t)) = entry_oid w ` dnodes t"
proof -
  obtain r ts where t: "t = DNode r ts" by (cases t)
  have kids: "event_names (set (child_ref w ty d u)) = entry_oid w ` dnodes u" if "u \<in> set ts" for u ty d
    using names_child [of u w ty d] assms that t by auto
  show ?thesis
  proof (cases "materialize_root w r")
    case None
    with assms show ?thesis unfolding t by (simp add: Let_def names_fail image_UN)
  next
    case (Some td)
    with assms kids show ?thesis unfolding t by (cases td) (simp add: Let_def image_UN)
  qed
qed

section \<open>The entries below the roots\<close>

lemma dnodes_closed: "is_tree ch t \<Longrightarrow> q \<in> dnodes t \<Longrightarrow> i \<in> set (ch q) \<Longrightarrow> i \<in> dnodes t"
proof (induction t)
  case (DNode r ts)
  show ?case
  proof (cases "q = r")
    case True
    then obtain u where "u \<in> set ts" "i = droot u" using DNode.prems by auto
    moreover have "droot u \<in> dnodes u" for u by (cases u) simp
    ultimately show ?thesis by auto
  next
    case False
    then obtain u where "u \<in> set ts" "q \<in> dnodes u" using DNode.prems by auto
    with DNode.IH [of u] DNode.prems show ?thesis by (auto simp: list_all_iff)
  qed
qed

definition on_a_path :: "walk_env \<Rightarrow> nat \<Rightarrow> nat \<Rightarrow> bool" where
  "on_a_path w n i \<longleftrightarrow> (\<exists>path. set (i # path) \<subseteq> {..<n} \<and> rooted_path w (i # path))"

lemma dnodes_on_path:
  assumes "forest w n"
  shows "is_tree (children (we_layout w)) t \<Longrightarrow> on_a_path w n (droot t) \<Longrightarrow> i \<in> dnodes t \<Longrightarrow> on_a_path w n i"
proof (induction t)
  case (DNode r ts)
  have "on_a_path w n (droot u)" if u: "u \<in> set ts" for u
  proof -
    obtain path where path: "set (r # path) \<subseteq> {..<n}" "rooted_path w (r # path)"
      using DNode.prems(2) by (auto simp: on_a_path_def)
    have "droot u \<in> set (children (we_layout w) r)" using DNode.prems(1) u by auto
    then have "droot u < n" "parent_of (we_pack w) (we_layout w) (droot u) = Some r"
      using assms path(1) by (auto simp: forest_def)
    with path have "set (droot u # r # path) \<subseteq> {..<n}" "rooted_path w (droot u # r # path)" by auto
    then show ?thesis unfolding on_a_path_def by blast
  qed
  with DNode show ?case by (auto simp: list_all_iff)
qed

lemma path_in_tree:
  fixes w :: walk_env
  assumes wf: "wf_algo (pk_algo p)" and p: "we_pack w = p" and l: "we_layout w = build_layout p"
  shows "set (i # path) \<subseteq> {..<pk_num p} \<Longrightarrow> rooted_path w (i # path) \<Longrightarrow>
    \<exists>t. parent_of p (build_layout p) (droot t) = None \<and> droot t < pk_num p \<and>
      is_tree (children (we_layout w)) t \<and> i \<in> dnodes t"
proof (induction path arbitrary: i)
  case Nil
  then have "parent_of p (build_layout p) i = None" "i < pk_num p" using p l by auto
  moreover obtain t where "droot t = i" "is_tree (children (we_layout w)) t"
    using root_tree [OF wf p l] calculation by blast
  moreover have "droot t \<in> dnodes t" by (cases t) simp
  ultimately show ?case by blast
next
  case (Cons q path)
  then have up: "parent_of p (build_layout p) i = Some q" "i < pk_num p" "q < pk_num p" using p l by auto
  obtain t where t: "parent_of p (build_layout p) (droot t) = None" "droot t < pk_num p"
    "is_tree (children (we_layout w)) t" "q \<in> dnodes t"
    using Cons.IH [of q] Cons.prems by auto
  have "i \<in> set (children (we_layout w) q)" using children_eq [OF wf up(3)] up l by simp
  with dnodes_closed [OF t(3,4)] t show ?case by blast
qed

section \<open>What a verification reports on\<close>

lemma verify_walks:
  fixes w :: walk_env
  assumes wf: "wf_algo (pk_algo (we_pack w))" and l: "we_layout w = build_layout (we_pack w)"
    and v: "verify w crc file budget True = Some (ok, evs)" and hdr: "validate_pack_header (we_pack w) = None"
  shows "{e. Walked e \<in> set evs} = {e. \<exists>t. droot t < pk_num (we_pack w) \<and>
    parent_of (we_pack w) (we_layout w) (droot t) = None \<and> is_tree (children (we_layout w)) t \<and>
    (e \<in> set (chain_ref w t) \<or> pe_typ (walk_entry w (droot t)) = TypeBad \<and> e \<in> set (fail_ref w t))}"
    (is "?L = ?R")
proof -
  let ?p = "we_pack w"
  note n = ents_sel [OF wf, folded l]
  obtain ok' oevs where o: "verify_objects w crc budget = Some (ok', oevs)" "?L = {e. Walked e \<in> set oevs}"
    using v hdr by (auto simp: verify_def Let_def bind_eq_Some_conv checksum_complaints_def split: if_splits option.splits)
  obtain bads s where b: "bad_events w (ly_bad (we_layout w)) = Some bads"
    and s: "walk_roots w [0..<length (ly_ents (we_layout w))] (start_state budget) = Some s"
    and evs: "oevs = map Walked bads @ check_crcs w crc @ map Walked (ws_out s)"
    using o(1) by (auto simp: verify_objects_def Let_def bind_eq_Some_conv)
  have L: "?L = set bads \<union> set (ws_out s)"
    unfolding o(2) evs by (auto simp: check_crcs_def check_crc_def Let_def)
  have root: "pe_root (walk_entry w i) \<longleftrightarrow> parent_of ?p (we_layout w) i = None" if "i < pk_num ?p" for i
    using that parent_of_eq [OF wf that] n(4) l by (simp add: walk_entry_def)
  have none: "parent_of ?p (build_layout ?p) i = None" if "i \<in> set (ly_bad (we_layout w))" for i
    using that n(3,6) delta_has_parent [OF wf, of i] l by auto
  have bad: "i \<in> set (ly_bad (we_layout w)) \<longleftrightarrow>
      i < pk_num ?p \<and> parent_of ?p (we_layout w) i = None \<and> pe_typ (walk_entry w i) = TypeBad" for i
    using n(3,6) none l by (auto simp: walk_entry_def)
  have "set bads = tree_events (children (we_layout w)) (\<lambda>t. set (fail_ref w t)) (set (ly_bad (we_layout w)))"
    by (rule bads_events [OF wf refl l b]) (use none n(6) in auto)
  moreover have "set (ws_out s) = tree_events (children (we_layout w)) (\<lambda>t. set (chain_ref w t))
      {i \<in> set [0..<length (ly_ents (we_layout w))]. pe_root (walk_entry w i)}"
    using roots_events [OF wf refl l s] n(1) by (simp add: start_state_def atLeast0LessThan)
  moreover have "{i \<in> set [0..<length (ly_ents (we_layout w))]. pe_root (walk_entry w i)} =
      {i. i < pk_num ?p \<and> parent_of ?p (we_layout w) i = None}" using n(1) root by auto
  ultimately show ?thesis unfolding L tree_events_def bad by auto
qed

text \<open>Only a root can be of bad type.\<close>

lemma dnodes_unbad:
  fixes w :: walk_env
  assumes "wf_algo (pk_algo (we_pack w))" and "we_layout w = build_layout (we_pack w)"
  shows "is_tree (children (we_layout w)) t \<Longrightarrow> droot t < pk_num (we_pack w) \<Longrightarrow>
    pe_typ (walk_entry w (droot t)) \<noteq> TypeBad \<Longrightarrow> \<forall>i \<in> dnodes t. pe_typ (walk_entry w i) \<noteq> TypeBad"
proof (induction t)
  case (DNode r ts)
  have "is_tree (children (we_layout w)) u \<and> droot u < pk_num (we_pack w) \<and> pe_typ (walk_entry w (droot u)) \<noteq> TypeBad"
    if "u \<in> set ts" for u
  proof -
    have "droot u \<in> set (children (we_layout w) r)" using DNode.prems(1) that by auto
    then have u: "droot u < pk_num (we_pack w)" "parent_of (we_pack w) (we_layout w) (droot u) = Some r"
      using forest_layout [OF assms(1) refl assms(2)] DNode.prems(2) by (auto simp: forest_def)
    have "parent_of (we_pack w) (we_layout w) (droot u) = None" if "pe_typ (walk_entry w (droot u)) = TypeBad"
      using delta_has_parent [OF assms(1) u(1)] that by (simp add: assms(2) walk_entry_def)
    then show ?thesis using DNode.prems(1) that u by (auto simp: list_all_iff)
  qed
  with DNode show ?case by auto
qed

lemma walked_in_trees:
  fixes w :: walk_env
  assumes "wf_algo (pk_algo (we_pack w))" and "we_layout w = build_layout (we_pack w)"
    and "verify w crc file budget True = Some (ok, evs)" and "validate_pack_header (we_pack w) = None"
  shows "x \<in> walked_names evs \<longleftrightarrow> (\<exists>t. droot t < pk_num (we_pack w) \<and>
    parent_of (we_pack w) (we_layout w) (droot t) = None \<and> is_tree (children (we_layout w)) t \<and> x \<in> entry_oid w ` dnodes t)"
proof -
  have chain: "event_names (set (chain_ref w t) \<union> (if pe_typ (walk_entry w (droot t)) = TypeBad then set (fail_ref w t) else {})) =
      entry_oid w ` dnodes t" if "is_tree (children (we_layout w)) t" "droot t < pk_num (we_pack w)" for t
  proof (cases "pe_typ (walk_entry w (droot t)) = TypeBad")
    case True
    then have "chain_ref w t = []" by (cases t) (simp add: Let_def)
    with True show ?thesis by (simp add: names_fail)
  next
    case False
    with names_chain [OF dnodes_unbad [OF assms(1,2) that False]] show ?thesis by simp
  qed
  show ?thesis unfolding walked_names_def verify_walks [OF assms] using chain
    by (fastforce simp: event_names_def split: if_splits)
qed

lemma closed_not_on_path:
  "\<forall>i \<in> C. \<exists>q \<in> C. parent_of (we_pack w) (we_layout w) i = Some q \<Longrightarrow> rooted_path w (i # path) \<Longrightarrow> i \<notin> C"
proof (induction path arbitrary: i)
  case (Cons q path)
  then show ?case by fastforce
qed auto

text \<open>
  C32: what \<open>Verify\<close> decodes. When the pack's header is accepted, its walk reports, well or ill, on exactly
  the entries whose chain of bases ends at an entry that has no base in the pack. So the entries of a
  cycle of reference deltas of any length, and all that is built on them, are never walked: whatever set
  of entries has the base of each inside the set, the walk never speaks of them, although none of them
  can be decoded. Only their CRC is compared, where the index has one.
\<close>

theorem cycle_not_reported:
  fixes w :: walk_env
  assumes "wf_algo (pk_algo (we_pack w))" and "we_layout w = build_layout (we_pack w)"
    and "verify w crc file budget True = Some (ok, evs)" and "validate_pack_header (we_pack w) = None"
    and "\<forall>i \<in> C. \<exists>q \<in> C. parent_of (we_pack w) (we_layout w) i = Some q"
  shows "walked_names evs = entry_oid w ` {i. on_a_path w (pk_num (we_pack w)) i} \<and>
    C \<inter> {i. on_a_path w (pk_num (we_pack w)) i} = {}"
proof -
  let ?p = "we_pack w" and ?n = "pk_num (we_pack w)"
  note fo = forest_layout [OF assms(1) refl assms(2)] and names = walked_in_trees [OF assms(1-4)]
  have "walked_names evs = entry_oid w ` {i. on_a_path w ?n i}"
  proof (intro equalityI subsetI)
    fix x assume "x \<in> walked_names evs"
    then obtain t i where t: "droot t < ?n" "parent_of ?p (we_layout w) (droot t) = None"
      "is_tree (children (we_layout w)) t" "i \<in> dnodes t" "x = entry_oid w i" unfolding names by auto
    then have "on_a_path w ?n (droot t)" unfolding on_a_path_def by (intro exI [of _ "[]"]) simp
    with dnodes_on_path [OF fo t(3)] t show "x \<in> entry_oid w ` {i. on_a_path w ?n i}" by blast
  next
    fix x assume "x \<in> entry_oid w ` {i. on_a_path w ?n i}"
    then obtain i path where "x = entry_oid w i" "set (i # path) \<subseteq> {..<?n}" "rooted_path w (i # path)"
      by (auto simp: on_a_path_def)
    with path_in_tree [OF assms(1) refl assms(2)] show "x \<in> walked_names evs" unfolding names assms(2) by fastforce
  qed
  with closed_not_on_path [OF assms(5)] show ?thesis by (auto simp: on_a_path_def)
qed

section \<open>Two entries, each the base of the other\<close>

definition cycle_pack :: pack where
  "cycle_pack = \<lparr>pk_algo = sha1_algo (\<lambda>m. replicate 20 0), pk_num = 2, pk_ver = 1,
     pk_idx = [0, 0, 0, 0] @ [0, 0, 0, 1] @ concat (replicate 254 [0, 0, 0, 2]) @
       [0, 0, 0, 12] @ replicate 20 1 @ [0, 0, 0, 41] @ replicate 20 2 @ replicate 40 0,
     pk_data = [80, 65, 67, 75, 0, 0, 0, 2, 0, 0, 0, 2] @ (0x70 # replicate 20 2 @ replicate 8 0) @
       (0x70 # replicate 20 1 @ replicate 8 0) @ replicate 20 0,
     oid_table = 1024, crc_table = 0, off_table = 0, big_off_table = 0\<rparr>"

lemma length_concat_replicate: "length (concat (replicate n xs)) = n * length xs"
  by (induction n) simp_all

lemma cycle_facts: "trailer_offset cycle_pack = 70" "verify_index_checksum cycle_pack"
  "validate_pack_header cycle_pack = None" "checksum_complaints cycle_pack (Some []) = []"
  "pk_num cycle_pack = 2" "pk_ver cycle_pack = 1"
  by (simp_all add: trailer_offset_def verify_index_checksum_def validate_pack_header_def checksum_complaints_def
      pack_trailer_def indexed_hash_def cycle_pack_def sha1_algo_def be32_at_def be32_def length_concat_replicate)

lemma cycle_wf: "wf_algo (pk_algo cycle_pack)"
  unfolding cycle_pack_def pack.select_convs by (rule wf_sha1) simp

lemma cycle_offsets: "offset_at cycle_pack 0 = 12" "offset_at cycle_pack (Suc 0) = 41"
  by (simp_all add: offset_at_def cycle_pack_def sha1_algo_def be32_at_def be32_def length_concat_replicate)

definition name_of :: "byte \<Rightarrow> oid" where
  "name_of b = from_bytes (replicate 20 b)"

lemma cycle_names: "oid_at cycle_pack 0 = name_of 1" "oid_at cycle_pack (Suc 0) = name_of 2"
  by (simp_all add: name_of_def oid_at_def cycle_pack_def sha1_algo_def length_concat_replicate from_raw_def
      from_bytes_def max_raw_size_def)

lemma concat_replicate_step: "concat (replicate 254 xs) = xs @ concat (replicate 253 xs)"
  using replicate_Suc [of 253 xs] by simp

lemma cycle_fan: "fanout_at cycle_pack 0 = 0" "fanout_at cycle_pack (Suc 0) = 1" "fanout_at cycle_pack 2 = 2"
  by (simp_all add: fanout_at_def fanout_base_def cycle_pack_def be32_at_def be32_def concat_replicate_step)

lemma name_compare: "oid_compare (name_of b) (name_of b) = 0"
  by (simp add: oid_compare_def bytes_compare_zero)

lemma name_first: "oid_h (name_of b) ! 0 = b"
  by (simp add: name_of_def from_bytes_def pad_raw_def max_raw_size_def nth_append)

lemma cycle_find: "find cycle_pack (name_of 1) = Some 0" "find cycle_pack (name_of 2) = Some (Suc 0)"
  unfolding find_def name_first cycle_facts(5) Let_def
  by (simp_all add: cycle_fan [simplified] find_loop.simps [of _ 0 "Suc 0"] find_loop.simps [of _ "Suc 0" 2]
      cycle_names name_compare)

lemma cycle_headers:
  "read_header cycle_pack 12 = Inr \<lparr>oh_type = 7, oh_size = 0, oh_data = 33, oh_base_off = 0, oh_base_oid = name_of 2\<rparr>"
  "read_header cycle_pack 41 = Inr \<lparr>oh_type = 7, oh_size = 0, oh_data = 62, oh_base_off = 0, oh_base_oid = name_of 1\<rparr>"
proof -
  have b: "byte_at cycle_pack 12 = Some 0x70" "byte_at cycle_pack 41 = Some 0x70"
    by (simp_all add: byte_at_def cycle_pack_def nth_append)
  have r: "raw_size (pk_algo cycle_pack) = 20" by (simp add: cycle_pack_def sha1_algo_def)
  have d: "from_raw (pk_algo cycle_pack) (drop 13 (pk_data cycle_pack)) = name_of 2"
    "from_raw (pk_algo cycle_pack) (drop 42 (pk_data cycle_pack)) = name_of 1"
    by (simp_all add: from_raw_def r name_of_def from_bytes_def max_raw_size_def) (simp_all add: cycle_pack_def)
  show "read_header cycle_pack 12 = Inr \<lparr>oh_type = 7, oh_size = 0, oh_data = 33, oh_base_off = 0, oh_base_oid = name_of 2\<rparr>"
    "read_header cycle_pack 41 = Inr \<lparr>oh_type = 7, oh_size = 0, oh_data = 62, oh_base_off = 0, oh_base_oid = name_of 1\<rparr>"
    by (simp_all add: read_header_def read_kind_def cycle_facts b r d size_loop.simps)
qed


lemma cycle_sorted: "sorted_entries cycle_pack =
    [\<lparr>pe_off = 12, pe_size = 0, pe_idx = 0, pe_hdr = 0, pe_typ = TypeNone, pe_root = False\<rparr>,
     \<lparr>pe_off = 41, pe_size = 0, pe_idx = Suc 0, pe_hdr = 0, pe_typ = TypeNone, pe_root = False\<rparr>]"
proof -
  have "[0..<pk_num cycle_pack] = [0, Suc 0]" by (simp add: cycle_facts upt_rec)
  then show ?thesis by (simp add: sorted_entries_def cycle_offsets)
qed

lemma cycle_pos: "pe_off e = 12 \<Longrightarrow> pe_off f = 41 \<Longrightarrow> pos_at [e, f] 12 = Some 0"
  "pe_off e = 12 \<Longrightarrow> pe_off f = 41 \<Longrightarrow> pos_at [e, f] 41 = Some (Suc 0)"
  by (simp_all add: pos_at_def sort_search_def sort_search_loop.simps Let_def)

lemma cycle_layout: "build_layout cycle_pack =
    \<lparr>ly_ents = [\<lparr>pe_off = 12, pe_size = 0, pe_idx = 0, pe_hdr = 21, pe_typ = 7, pe_root = False\<rparr>,
       \<lparr>pe_off = 41, pe_size = 0, pe_idx = Suc 0, pe_hdr = 21, pe_typ = 7, pe_root = False\<rparr>],
     child_start = [0, Suc 0, 2], child_list = [Suc 0, 0], ly_bad = [], header_errs = (\<lambda>_. None), ly_trailer = 70\<rparr>"
proof -
  have u: "[0..<length (sorted_entries cycle_pack)] = [0, Suc 0]" by (simp add: cycle_sorted upt_rec)
  have b: "read_entries cycle_pack = \<lparr>bl_ents =
      [\<lparr>pe_off = 12, pe_size = 0, pe_idx = 0, pe_hdr = 21, pe_typ = 7, pe_root = False\<rparr>,
       \<lparr>pe_off = 41, pe_size = 0, pe_idx = Suc 0, pe_hdr = 21, pe_typ = 7, pe_root = False\<rparr>],
      bl_parent = [Some (Suc 0), Some 0], bl_bad = [], bl_errs = (\<lambda>_. None)\<rparr>"
    unfolding read_entries_def Let_def u
    by (simp add: cycle_sorted entry_step_def cycle_headers base_pos_def cycle_find cycle_offsets cycle_pos
        link_def max_header_def max_raw_size_def Let_def)
  have s: "prefix_sums (count_children [Some (Suc 0), Some 0]) = [0, Suc 0, 2]"
    by (simp add: prefix_sums_def count_children_def upt_rec)
  show ?thesis unfolding build_layout_def Let_def b
    by (simp add: s fill_children_def fill_step_def cycle_facts upt_rec numeral_2_eq_2)
qed

definition cycle_walk :: walk_env where
  "cycle_walk = \<lparr>we_pack = cycle_pack, we_layout = build_layout cycle_pack, we_inflate = (\<lambda>off sz. None),
     we_copy = (\<lambda>off sz. None), we_threshold = 0, we_others = (\<lambda>k. 0)\<rparr>"

text \<open>Nothing is said of the two, and the pack verifies, although neither can be decompressed.\<close>

theorem cycle_not_reported_witness:
  "verify cycle_walk (\<lambda>b. 0) (Some []) 0 True = Some (True, []) \<and>
   {0, 1} \<inter> {i. on_a_path cycle_walk (pk_num cycle_pack) i} = {} \<and> (\<forall>d. decode_child cycle_walk d 0 = None) \<and> pk_num cycle_pack = 2"
proof -
  have u: "[0..<length (ly_ents (build_layout cycle_pack))] = [0, Suc 0]" by (simp add: cycle_layout upt_rec)
  have v: "verify cycle_walk (\<lambda>b. 0) (Some []) 0 True = Some (True, [])"
    unfolding verify_def verify_objects_def Let_def cycle_walk_def walk_env.select_convs u
    by (simp add: cycle_facts cycle_layout check_crcs_def start_state_def walk_entry_def)
  have w: "we_pack cycle_walk = cycle_pack" "we_layout cycle_walk = build_layout cycle_pack" by (simp_all add: cycle_walk_def)
  have par: "parent_of cycle_pack (build_layout cycle_pack) 0 = Some 1" "parent_of cycle_pack (build_layout cycle_pack) 1 = Some 0"
    by (simp_all add: parent_of_def cycle_layout cycle_headers base_pos_def cycle_find cycle_offsets cycle_pos)
  then have c: "\<forall>i \<in> {0, 1}. \<exists>q \<in> {0, 1}. parent_of (we_pack cycle_walk) (we_layout cycle_walk) i = Some q" by (simp add: w)
  have a: "wf_algo (pk_algo (we_pack cycle_walk))" "we_layout cycle_walk = build_layout (we_pack cycle_walk)"
    "validate_pack_header (we_pack cycle_walk) = None"
    using cycle_wf by (simp_all add: w cycle_facts)
  from cycle_not_reported [OF a(1,2) v a(3) c] v show ?thesis
    by (simp add: cycle_facts decode_child_def cycle_walk_def)
qed

end
