(* ===== verification/Loose.thy ===== *)
theory Loose
  imports DeltaWalk
begin

text \<open>
  Loose objects: \<open>internal/odb/loose.go\<close>, \<open>internal/odb/write.go\<close> and the size test of
  \<open>internal/odb/inflatebound.go\<close>. What Go's zlib reader does with a file is the parameter
  \<open>zreader\<close>: whether it opens, the bytes it delivers, whether asking for \<open>n\<close> bytes surfaces an error
  other than \<open>io.EOF\<close>, how much input is then left, and whether the stream ends cleanly. What zlib would
  have said of the file's bytes is \<open>diagnose\<close> of \<open>Inflate\<close>.
\<close>

section \<open>The size test\<close>

definition max_inflate_ratio :: int where
  "max_inflate_ratio = 2048"

text \<open>Go's division truncates; both arguments are not negative where it is reached.\<close>

definition plausible_size :: "int \<Rightarrow> int \<Rightarrow> bool" where
  "plausible_size sz compressed =
     (if sz < 0 \<or> compressed < 0 then False else sz div max_inflate_ratio \<le> compressed)"

section \<open>The header\<close>

text \<open>The loop over the digits; the size is an \<open>int64\<close>, and the loop does not look for overflow.\<close>

fun size_digits :: "64 word \<Rightarrow> bytes \<Rightarrow> 64 word \<times> bytes" where
  "size_digits v [] = (v, [])"
| "size_digits v (x # xs) =
     (if 9 < x - ascii CHR ''0'' then (v, x # xs)
      else size_digits (v * 10 + ucast (x - ascii CHR ''0'')) xs)"

definition parse_loose_header :: "bytes \<Rightarrow> (bytes \<times> int) option" where
  "parse_loose_header hdr =
     (case index_byte hdr (ascii CHR '' '') of
        None \<Rightarrow> None
      | Some sp \<Rightarrow>
          (case drop (Suc sp) hdr of
             [] \<Rightarrow> None
           | x # xs \<Rightarrow>
               let d = x - ascii CHR ''0'' in
               if 9 < d then None
               else
                 let (v, rest) = (if d \<noteq> 0 then size_digits (ucast d) xs else (0, xs))
                 in if rest \<noteq> [] then None else Some (take sp hdr, sint v)))"

section \<open>Reading\<close>

record zreader =
  zr_open :: bool
  zr_out :: bytes
  zr_fails :: "nat \<Rightarrow> bool"
  zr_left :: "nat \<Rightarrow> nat"
  zr_clean :: bool

datatype loose_error =
    ZlibSays bytes
  | UnpackHeader
  | ParseHeader
  | ParseType bytes
  | UnpackContents
  | CorruptLoose oid
  | GarbageAtEnd oid
  | LooseHashMismatch oid
  | UnableToMmap

record loose_result =
  lr_type :: obj_type
  lr_type_name :: bytes
  lr_size :: int
  lr_contents :: "bytes option"
  lr_real :: "oid option"
  lr_errors :: "loose_error list"
  lr_mismatch :: bool
  lr_failed :: bool

definition empty_result :: loose_result where
  "empty_result = \<lparr>lr_type = TypeNone, lr_type_name = [], lr_size = 0, lr_contents = None, lr_real = None,
     lr_errors = [], lr_mismatch = False, lr_failed = False\<rparr>"

definition max_header_len :: nat where
  "max_header_len = 32"

text \<open>\<open>zlibmsg.Whole\<close>: the room of a caller that reads to the end of the stream.\<close>

definition whole_stream :: int where "whole_stream = -1"

definition inflate_failed :: "bytes \<Rightarrow> int \<Rightarrow> loose_error list" where
  "inflate_failed raw m = (if diagnose raw m \<noteq> [] then [ZlibSays (diagnose raw m)] else [])"

definition fail_with :: "loose_result \<Rightarrow> loose_error list \<Rightarrow> loose_result" where
  "fail_with res es = res\<lparr>lr_failed := True, lr_errors := lr_errors res @ es\<rparr>"

text \<open>\<open>out\<close> is a zeroed buffer of \<open>size\<close> bytes: what the stream does not fill stays zero.\<close>

definition filled :: "nat \<Rightarrow> bytes \<Rightarrow> bytes" where
  "filled n b = take n b @ replicate (n - length b) 0"

text \<open>How many bytes the reader was asked for: the header's at least, and the object with its header.\<close>

definition bytes_asked :: "nat \<Rightarrow> nat \<Rightarrow> nat" where
  "bytes_asked nul n = max max_header_len (Suc nul + n)"

text \<open>The reader is asked again only where the bytes read for the header do not cover the object.\<close>

definition read_fails :: "zreader \<Rightarrow> nat \<Rightarrow> nat \<Rightarrow> bool" where
  "read_fails z nul n \<longleftrightarrow>
     min max_header_len (length (zr_out z)) < Suc nul + n \<and> zr_fails z (Suc nul + n)"

text \<open>\<open>atStreamEnd\<close>: nothing follows what was asked for, and the stream ends with no error.\<close>

definition at_stream_end :: "zreader \<Rightarrow> nat \<Rightarrow> nat \<Rightarrow> bool" where
  "at_stream_end z nul n \<longleftrightarrow> length (zr_out z) \<le> bytes_asked nul n \<and> zr_clean z"

definition stream_check ::
    "algo \<Rightarrow> zreader \<Rightarrow> bytes \<Rightarrow> nat \<Rightarrow> int \<Rightarrow> oid \<Rightarrow> loose_result \<Rightarrow> loose_result" where
  "stream_check a z raw nul sz expected res =
     (let body = drop (Suc nul) (zr_out z); n = nat sz; got = take n body in
      if read_fails z nul n \<or> length got \<noteq> n then
        fail_with res (inflate_failed raw whole_stream @ [CorruptLoose expected])
      else if zr_left z (bytes_asked nul n) \<noteq> 0 then fail_with res [GarbageAtEnd expected]
      else
        let real = from_bytes (digest a (take (Suc nul) (zr_out z) @ got));
            res' = res\<lparr>lr_real := Some real\<rparr>
        in if real \<noteq> expected then fail_with res' [LooseHashMismatch expected] else res')"

definition read_contents ::
    "algo \<Rightarrow> zreader \<Rightarrow> bytes \<Rightarrow> nat \<Rightarrow> oid \<Rightarrow> loose_result \<Rightarrow> loose_result" where
  "read_contents a z raw nul expected res =
     (let sz = lr_size res; n = nat sz; body = drop (Suc nul) (zr_out z) in
      if \<not> plausible_size sz (int (length raw)) then fail_with res [UnpackContents]
      else if read_fails z nul n then
        fail_with res (inflate_failed raw whole_stream @ [CorruptLoose expected, UnpackContents])
      else if \<not> at_stream_end z nul n then
        fail_with res [CorruptLoose expected, UnpackContents]
      else if zr_left z (bytes_asked nul n) \<noteq> 0 then fail_with res [GarbageAtEnd expected, UnpackContents]
      else
        let out = filled n body; real = hash_literal a (lr_type_name res) out;
            res' = res\<lparr>lr_contents := Some out, lr_real := Some real\<rparr>
        in if real \<noteq> expected then res'\<lparr>lr_failed := True, lr_mismatch := True\<rparr> else res')"

definition read_loose_bytes ::
    "algo \<Rightarrow> zreader \<Rightarrow> bytes \<Rightarrow> oid \<Rightarrow> int \<Rightarrow> loose_result" where
  "read_loose_bytes a z raw expected threshold =
     (let m = int max_header_len; hdr = take max_header_len (zr_out z) in
      if \<not> zr_open z then fail_with empty_result (inflate_failed raw m @ [UnpackHeader])
      else if zr_fails z max_header_len \<and> diagnose raw m \<noteq> [] then
        fail_with empty_result [ZlibSays (diagnose raw m), UnpackHeader]
      else (case index_byte hdr 0 of
          None \<Rightarrow> fail_with empty_result [UnpackHeader]
        | Some nul \<Rightarrow>
            (case parse_loose_header (take nul hdr) of
               None \<Rightarrow> fail_with empty_result [ParseHeader]
             | Some (name, sz) \<Rightarrow>
                 let res = empty_result\<lparr>lr_type_name := name, lr_type := type_from_name name, lr_size := sz\<rparr> in
                 if type_from_name name = TypeBad then fail_with res [ParseType (take nul hdr)]
                 else if type_from_name name = TypeBlob \<and> threshold < sz then
                   stream_check a z raw nul sz expected res
                 else read_contents a z raw nul expected res)))"

text \<open>\<open>ReadLoose\<close>, on what the file system and the decompressor make of the file.\<close>

datatype loose_file = Unreadable | EmptyFile | Unmappable | Mapped zreader bytes

definition read_loose :: "algo \<Rightarrow> loose_file \<Rightarrow> oid \<Rightarrow> int \<Rightarrow> loose_result" where
  "read_loose a f expected threshold =
     (case f of
        Unreadable \<Rightarrow> fail_with empty_result [UnableToMmap]
      | EmptyFile \<Rightarrow> fail_with empty_result [UnpackHeader]
      | Unmappable \<Rightarrow> fail_with empty_result [UnableToMmap]
      | Mapped z raw \<Rightarrow> read_loose_bytes a z raw expected threshold)"

section \<open>Writing\<close>

text \<open>The bytes \<open>deflateObject\<close> hands to the compressor.\<close>

definition loose_payload :: "obj_type \<Rightarrow> bytes \<Rightarrow> bytes" where
  "loose_payload t content = type_name t @ str '' '' @ dec_int (int (length content)) @ [0] @ content"

text \<open>
  The calls that write a file beside its place and rename it, in order; a write can stop at any byte.
  \<open>faults\<close> says which of them fails. The files are a map from paths to bytes, and the temporary name is
  the system's choice. The result is whether all went well and every state of the files on the way, the
  last one last: what another process, or the next run after a crash, can find. The error of
  \<open>os.Remove\<close> is ignored.
\<close>

datatype write_call =
  StatPath | MakeDir | CreateTemp | WriteByte nat | CloseTemp | ChmodTemp | RenameTemp | RemoveTemp

definition write_beside ::
    "(write_call \<Rightarrow> bool) \<Rightarrow> 'path \<Rightarrow> 'path \<Rightarrow> bytes \<Rightarrow> ('path \<Rightarrow> bytes option) \<Rightarrow>
     bool \<times> ('path \<Rightarrow> bytes option) list" where
  "write_beside faults tmp path body fs =
     (if faults CreateTemp then (False, [])
      else
        let n = length (takeWhile (\<lambda>k. \<not> faults (WriteByte k)) [0..<length body]);
            states = map (\<lambda>k. fs(tmp := Some (take k body))) [0..<Suc n]
        in if n < length body \<or> faults CloseTemp \<or> faults ChmodTemp \<or> faults RenameTemp then
             (False, states @ (if faults RemoveTemp then [] else [(last states)(tmp := None)]))
           else (True, states @ [(last states)(tmp := None, path := Some body)]))"

text \<open>The name stored, or none, and the states on the way.\<close>

definition write_loose ::
    "(bytes \<Rightarrow> bytes) \<Rightarrow> algo \<Rightarrow> (write_call \<Rightarrow> bool) \<Rightarrow> 'path \<Rightarrow> (oid \<Rightarrow> 'path) \<Rightarrow>
     obj_type \<Rightarrow> bytes \<Rightarrow> oid \<Rightarrow> ('path \<Rightarrow> bytes option) \<Rightarrow> oid option \<times> ('path \<Rightarrow> bytes option) list" where
  "write_loose deflate a faults tmp path_of t content want fs =
     (let x = hash_literal a (type_name t) content; path = path_of x in
      if valid_oid want \<and> oid_compare x want \<noteq> 0 then (None, [])
      else if fs path \<noteq> None \<and> \<not> faults StatPath then (Some x, [])
      else if faults MakeDir then (None, [])
      else (case write_beside faults tmp path (deflate (loose_payload t content)) fs of
          (ok, states) \<Rightarrow> (if ok then Some x else None, states)))"

text \<open>What is there when all is over.\<close>

definition final_files :: "('path \<Rightarrow> bytes option) \<Rightarrow> ('path \<Rightarrow> bytes option) list \<Rightarrow> 'path \<Rightarrow> bytes option" where
  "final_files fs states = last (fs # states)"

section \<open>The header is a name and a canonical number\<close>

definition is_dec :: "byte \<Rightarrow> bool" where
  "is_dec x \<longleftrightarrow> x - 48 \<le> 9"

definition digit_val :: "bytes \<Rightarrow> nat" where
  "digit_val xs = foldl (\<lambda>v x. v * 10 + unat (x - 48)) 0 xs"

lemma ascii_zero: "ascii CHR ''0'' = (48 :: byte)"
  by simp

lemma size_digits_step [simp]:
  "is_dec x \<Longrightarrow> size_digits v (x # xs) = size_digits (v * 10 + ucast (x - 48)) xs"
  by (simp add: is_dec_def flip: not_less)

lemma size_digits_append:
  "list_all is_dec xs \<Longrightarrow> size_digits v (xs @ ys) = size_digits (foldl (\<lambda>v x. v * 10 + ucast (x - 48)) v xs) ys"
  by (induction xs arbitrary: v) (simp_all del: size_digits.simps(2))

lemma size_digits_rest: "snd (size_digits v xs) = [] \<Longrightarrow> list_all is_dec xs"
  by (induction v xs rule: size_digits.induct) (auto simp: is_dec_def not_less split: if_splits)

lemma foldl_digits:
  "foldl (\<lambda>v (x :: byte). v * 10 + ucast (x - 48)) (of_nat k) xs =
     (of_nat (foldl (\<lambda>v x. v * 10 + unat (x - 48)) k xs) :: 64 word)"
proof (induction xs arbitrary: k)
  case (Cons x xs)
  have "(of_nat k :: 64 word) * 10 + ucast (x - 48 :: byte) = of_nat (k * 10 + unat (x - 48))"
    by simp
  with Cons show ?case by (simp only: foldl_Cons)
qed simp

lemma digit_val_snoc: "digit_val (xs @ [x]) = digit_val xs * 10 + unat (x - 48)"
  by (simp add: digit_val_def)

lemma dec_byte:
  assumes "d < 10"
  shows "unat ((word_of_nat (48 + d) :: byte) - 48) = d" and "is_dec (word_of_nat (48 + d))"
proof -
  have "unat (word_of_nat d :: byte) = d" using assms by (simp add: unat_of_nat take_bit_eq_mod)
  then show "unat ((word_of_nat (48 + d) :: byte) - 48) = d" by simp
  then show "is_dec (word_of_nat (48 + d))" using assms unfolding is_dec_def word_le_nat_alt by simp
qed

lemma dec_digits_facts: "digit_val (dec_digits n) = n \<and> list_all is_dec (dec_digits n)"
proof (induction n rule: less_induct)
  case (less n)
  show ?case
  proof (cases "n < 10")
    case True
    then show ?thesis
      using dec_byte [OF True] by (subst (1 2) dec_digits.simps) (simp add: digit_val_def del: of_nat_add)
  next
    case False
    then have "n div 10 < n" by simp
    from less [OF this] dec_byte [of "n mod 10"] False show ?thesis
      by (subst (1 2) dec_digits.simps) (simp add: digit_val_snoc del: of_nat_add)
  qed
qed

lemma dec_digits_zero: "dec_digits 0 = [48]"
  by (subst dec_digits.simps) simp

lemma dec_digits_hd: "n \<noteq> 0 \<Longrightarrow> hd (dec_digits n) \<noteq> 48"
proof (induction n rule: less_induct)
  case (less n)
  show ?case
  proof (cases "n < 10")
    case True
    then show ?thesis using dec_byte(1) [OF True] less.prems by (subst dec_digits.simps) auto
  next
    case False
    then have "n div 10 < n" "n div 10 \<noteq> 0" by auto
    from less.IH [OF this] False show ?thesis by (subst dec_digits.simps) simp
  qed
qed

lemma is_dec_le: "is_dec x \<Longrightarrow> unat (x - 48) < 10"
  by (simp add: is_dec_def word_le_nat_alt)

lemma is_dec_byte: "is_dec x \<Longrightarrow> word_of_nat (48 + unat (x - 48)) = x"
  by simp

lemma digit_val_zero: "list_all is_dec xs \<Longrightarrow> digit_val xs = 0 \<Longrightarrow> list_all (\<lambda>x. x = 48) xs"
proof (induction xs rule: rev_induct)
  case (snoc x xs)
  then have "unat (x - 48) = 0" "digit_val xs = 0" by (simp_all add: digit_val_snoc)
  then have "x = 48" by (simp add: unat_eq_0)
  with snoc \<open>digit_val xs = 0\<close> show ?case by simp
qed simp

text \<open>A number without a leading zero is the decimal of its value.\<close>

lemma canonical_digits:
  "list_all is_dec xs \<Longrightarrow> xs \<noteq> [] \<Longrightarrow> xs = [48] \<or> hd xs \<noteq> 48 \<Longrightarrow> dec_digits (digit_val xs) = xs"
proof (induction xs rule: rev_induct)
  case (snoc x xs)
  have x: "unat (x - 48) < 10" "is_dec x" using snoc.prems(1) is_dec_le by auto
  show ?case
  proof (cases "xs = []")
    case True
    then show ?thesis using x is_dec_byte [of x]
      by (subst dec_digits.simps) (simp add: digit_val_def del: of_nat_add)
  next
    case False
    then have hd: "hd xs \<noteq> 48" using snoc.prems(3) by auto
    have "digit_val xs \<noteq> 0"
      using digit_val_zero [of xs] snoc.prems(1) hd False by (cases xs) auto
    then have ge: "\<not> digit_val (xs @ [x]) < 10" by (simp add: digit_val_snoc)
    have "digit_val (xs @ [x]) div 10 = digit_val xs" "digit_val (xs @ [x]) mod 10 = unat (x - 48)"
      using x by (simp_all add: digit_val_snoc)
    with ge snoc.IH snoc.prems(1) False hd is_dec_byte [OF x(2)] show ?thesis
      by (subst dec_digits.simps) (simp del: of_nat_add)
  qed
qed simp

lemma loose_header_eq:
  "parse_loose_header hdr = Some (name, sz) \<longleftrightarrow>
     (\<exists>n. 32 \<notin> set name \<and> hdr = name @ 32 # dec_digits n \<and> sz = sint (word_of_nat n :: 64 word))"
proof
  assume l: "parse_loose_header hdr = Some (name, sz)"
  then obtain sp where sp: "index_byte hdr 32 = Some sp" by (auto simp: parse_loose_header_def split: option.splits)
  with l obtain x xs where xs: "drop (Suc sp) hdr = x # xs" by (auto simp: parse_loose_header_def split: list.splits)
  define ds where "ds = x # xs"
  have rest: "is_dec x" "name = take sp hdr"
    "(if x - 48 \<noteq> 0 then size_digits (ucast (x - 48)) xs else (0, xs)) = (fst (if x - 48 \<noteq> 0 then size_digits (ucast (x - 48)) xs else (0, xs)), [])"
    "sz = sint (fst (if x - 48 \<noteq> 0 then size_digits (ucast (x - 48)) xs else (0, xs)))"
    using l sp xs by (auto simp: parse_loose_header_def is_dec_def Let_def not_less case_prod_beta prod_eq_iff split: if_splits)
  have "list_all is_dec ds \<and> (ds = [48] \<or> hd ds \<noteq> 48) \<and> sz = sint (word_of_nat (digit_val ds) :: 64 word)"
  proof (cases "x = 48")
    case True
    with rest show ?thesis by (simp add: ds_def digit_val_def)
  next
    case False
    then have x: "x - 48 \<noteq> 0" by simp
    with rest have s: "snd (size_digits (ucast (x - 48)) xs) = []" "sz = sint (fst (size_digits (ucast (x - 48)) xs))"
      by (auto simp: prod_eq_iff)
    have d: "list_all is_dec xs" by (rule size_digits_rest [OF s(1)])
    have "size_digits (ucast (x - 48)) xs = (word_of_nat (digit_val ds), [])"
      using size_digits_append [OF d, of "ucast (x - 48)" "[]"] foldl_digits [of "unat (x - 48)" xs]
      by (simp add: ds_def digit_val_def)
    with s d rest(1) False show ?thesis by (simp add: ds_def)
  qed
  moreover have "hdr = name @ 32 # ds" "32 \<notin> set name"
    using index_byte_split [OF sp] index_byte_SomeD [OF sp] xs rest(2) by (auto simp: ds_def)
  ultimately show "\<exists>n. 32 \<notin> set name \<and> hdr = name @ 32 # dec_digits n \<and> sz = sint (word_of_nat n :: 64 word)"
    using canonical_digits [of ds] by (intro exI [of _ "digit_val ds"]) (simp add: ds_def)
next
  assume "\<exists>n. 32 \<notin> set name \<and> hdr = name @ 32 # dec_digits n \<and> sz = sint (word_of_nat n :: 64 word)"
  then obtain n where n: "32 \<notin> set name" "hdr = name @ 32 # dec_digits n" "sz = sint (word_of_nat n :: 64 word)" by blast
  obtain x xs where ds: "dec_digits n = x # xs" by (cases "dec_digits n") auto
  note f = dec_digits_facts [of n]
  have dx: "is_dec x" "list_all is_dec xs" using f ds by auto
  have "(if x - 48 \<noteq> 0 then size_digits (ucast (x - 48)) xs else (0, xs)) = (word_of_nat n, [])"
  proof (cases "n = 0")
    case True
    with ds show ?thesis by (simp add: dec_digits_zero)
  next
    case False
    with ds dec_digits_hd [of n] have "x - 48 \<noteq> 0" by simp
    moreover have "size_digits (ucast (x - 48)) xs = (word_of_nat n, [])"
      using size_digits_append [OF dx(2), of "ucast (x - 48)" "[]"] foldl_digits [of "unat (x - 48)" xs] f
      by (simp add: ds digit_val_def)
    ultimately show ?thesis by simp
  qed
  then show "parse_loose_header hdr = Some (name, sz)"
    using n ds dx by (simp add: parse_loose_header_def is_dec_def Let_def not_less)
qed

text \<open>
  Exactly which headers are read. \<open>parseLooseHeader\<close> accepts a header just when it is a name
  with no space in it, one space and the canonical decimal of some number; the size it answers is
  that number wrapped to 64 bits.
\<close>

theorem loose_header_exact:
  "parse_loose_header hdr = Some (name, sz) \<longleftrightarrow>
     (\<exists>n. 32 \<notin> set name \<and> hdr = name @ 32 # dec_digits n \<and> sz = sint (word_of_nat n :: 64 word))"
  by (rule loose_header_eq)


text \<open>
  The loop has no overflow check, so a size of twenty digits is taken for another: this header
  announces a blob of five bytes.
\<close>

theorem loose_size_wraps:
  "parse_loose_header (str ''blob 18446744073709551621'') = Some (str ''blob'', 5)"
  by (simp add: parse_loose_header_def)

section \<open>What a successful read means\<close>

lemma fail_with_failed [simp]: "lr_failed (fail_with res es)"
  by (simp add: fail_with_def)

lemma length_filled [simp]: "length (filled n b) = n"
  by (simp add: filled_def)

lemma stream_check_ok:
  assumes "\<not> lr_failed (stream_check a z raw nul sz x res)"
  shows "stream_check a z raw nul sz x res = res\<lparr>lr_real := Some x\<rparr> \<and>
    x = from_bytes (digest a (take (Suc nul) (zr_out z) @ take (nat sz) (drop (Suc nul) (zr_out z)))) \<and>
    length (take (nat sz) (drop (Suc nul) (zr_out z))) = nat sz"
  using assms by (auto simp: stream_check_def Let_def split: if_splits)

lemma read_contents_ok:
  assumes "\<not> lr_failed (read_contents a z raw nul x res)"
  shows "\<exists>c. read_contents a z raw nul x res = res\<lparr>lr_contents := Some c, lr_real := Some x\<rparr> \<and>
    hash_literal a (lr_type_name res) c = x \<and> int (length c) = lr_size res"
  using assms by (auto simp: read_contents_def Let_def plausible_size_def split: if_splits)

lemma loose_read_holds:
  assumes "\<not> lr_failed (read_loose_bytes a z raw x threshold)"
  shows "let r = read_loose_bytes a z raw x threshold in
    lr_real r = Some x \<and> lr_errors r = [] \<and> lr_type r \<in> {TypeCommit, TypeTree, TypeBlob, TypeTag} \<and>
    (case lr_contents r of
       Some c \<Rightarrow> hash_literal a (lr_type_name r) c = x \<and> int (length c) = lr_size r
     | None \<Rightarrow> lr_type r = TypeBlob \<and> threshold < lr_size r \<and>
         (\<exists>nul. index_byte (zr_out z) 0 = Some nul \<and>
            x = from_bytes (digest a (take (Suc nul + nat (lr_size r)) (zr_out z)))))"
proof -
  let ?r = "read_loose_bytes a z raw x threshold"
  obtain nul name sz where nul: "index_byte (take max_header_len (zr_out z)) 0 = Some nul"
    and hdr: "parse_loose_header (take nul (take max_header_len (zr_out z))) = Some (name, sz)"
    and known: "type_from_name name \<noteq> TypeBad"
    and r: "?r = (if type_from_name name = TypeBlob \<and> threshold < sz
      then stream_check a z raw nul sz x (empty_result\<lparr>lr_type_name := name, lr_type := type_from_name name, lr_size := sz\<rparr>)
      else read_contents a z raw nul x (empty_result\<lparr>lr_type_name := name, lr_type := type_from_name name, lr_size := sz\<rparr>))"
    using assms unfolding read_loose_bytes_def Let_def
    by (auto split: if_splits option.splits)
  have four: "type_from_name name \<in> {TypeCommit, TypeTree, TypeBlob, TypeTag}"
    using known by (auto simp: type_from_name_def split: if_splits)
  let ?res = "empty_result\<lparr>lr_type_name := name, lr_type := type_from_name name, lr_size := sz\<rparr>"
  show ?thesis
  proof (cases "type_from_name name = TypeBlob \<and> threshold < sz")
    case True
    then have "?r = ?res\<lparr>lr_real := Some x\<rparr>"
      "x = from_bytes (digest a (take (Suc nul) (zr_out z) @ take (nat sz) (drop (Suc nul) (zr_out z))))"
      using r assms stream_check_ok [of a z raw nul sz x ?res] by auto
    moreover have "index_byte (zr_out z) 0 = Some nul"
      using index_byte_append_Some [OF nul, of "drop max_header_len (zr_out z)"] by simp
    ultimately show ?thesis using True
      by (auto simp: Let_def empty_result_def simp flip: take_add)
  next
    case False
    then obtain c where "?r = ?res\<lparr>lr_contents := Some c, lr_real := Some x\<rparr>" "hash_literal a name c = x" "int (length c) = sz"
      using r assms read_contents_ok [of a z raw nul x ?res] by auto
    then show ?thesis using four by (auto simp: Let_def empty_result_def)
  qed
qed

text \<open>
  A loose object that reads without failure is the object it is named for. No complaint was
  made, the type is one of the four, and either the contents are in hand, have the announced size and
  hash to the expected name, or it is a blob past the threshold whose header and announced number of
  bytes hash to it as they streamed by.
\<close>

theorem loose_read_sound:
  assumes "\<not> lr_failed (read_loose_bytes a z raw x threshold)"
  shows "let r = read_loose_bytes a z raw x threshold in
    lr_real r = Some x \<and> lr_errors r = [] \<and> lr_type r \<in> {TypeCommit, TypeTree, TypeBlob, TypeTag} \<and>
    (case lr_contents r of
       Some c \<Rightarrow> hash_literal a (lr_type_name r) c = x \<and> int (length c) = lr_size r
     | None \<Rightarrow> lr_type r = TypeBlob \<and> threshold < lr_size r \<and>
         (\<exists>nul. index_byte (zr_out z) 0 = Some nul \<and>
            x = from_bytes (digest a (take (Suc nul + nat (lr_size r)) (zr_out z)))))"
  by (rule loose_read_holds [OF assms])

section \<open>What is written is read back\<close>

text \<open>A reader over a whole stream that decompresses to \<open>b\<close>.\<close>

definition good_reader :: "zreader \<Rightarrow> bytes \<Rightarrow> bool" where
  "good_reader z b \<longleftrightarrow> zr_open z \<and> zr_out z = b \<and> zr_clean z \<and> (\<forall>n. \<not> zr_fails z n) \<and> (\<forall>n. zr_left z n = 0)"

lemma index_byte_take: "index_byte xs c = Some i \<Longrightarrow> i < n \<Longrightarrow> index_byte (take n xs) c = Some i"
proof -
  assume i: "index_byte xs c = Some i" "i < n"
  then have "xs = take i xs @ c # drop (Suc i) xs" "c \<notin> set (take i xs)"
    using index_byte_split index_byte_SomeD by metis+
  moreover have "i \<le> length xs" using index_byte_lt [OF i(1)] by simp
  ultimately have "take n xs = take i xs @ c # take (n - Suc i) (drop (Suc i) xs)"
    using i(2) by (metis (no_types, lifting) Suc_diff_Suc length_take min.absorb2 take_Suc_Cons take_all_iff take_append less_imp_le)
  then show ?thesis using \<open>c \<notin> set (take i xs)\<close> \<open>i \<le> length xs\<close> by simp
qed

lemma no_zero_header: "t \<in> {TypeCommit, TypeTree, TypeBlob, TypeTag} \<Longrightarrow> 0 \<notin> set (type_name t) \<and> 32 \<notin> set (type_name t) \<and> length (type_name t) \<le> 6"
  by (auto simp: type_name_def)

lemma dec_no_zero: "0 \<notin> set (dec_digits n)"
proof
  assume "0 \<in> set (dec_digits n)"
  then have "is_dec 0" using dec_digits_facts [of n] by (auto simp: list_all_iff)
  then show False by (simp add: is_dec_def)
qed

lemma dec_length: "n < 10 ^ k \<Longrightarrow> 0 < k \<Longrightarrow> length (dec_digits n) \<le> k"
proof (induction k arbitrary: n)
  case (Suc k)
  show ?case
  proof (cases "n < 10")
    case True
    then show ?thesis by (subst dec_digits.simps) simp
  next
    case False
    then have "k \<noteq> 0" using Suc.prems(1) by (cases k) auto
    moreover have "n div 10 < 10 ^ k" using Suc.prems(1) by (simp add: less_mult_imp_div_less mult.commute)
    ultimately have "length (dec_digits (n div 10)) \<le> k" using Suc.IH by simp
    with False show ?thesis by (subst dec_digits.simps) simp
  qed
qed simp

text \<open>
  C33: an object that is written is read back. When the stream decompresses to what \<open>deflateObject\<close>
  gave the compressor, and the file is not smaller than the format's ratio allows, reading it under its
  own name does not fail and gives the type, the size and, below the threshold, the contents.
\<close>

theorem loose_roundtrip:
  assumes "t \<in> {TypeCommit, TypeTree, TypeBlob, TypeTag}" and "length content < 2 ^ 63"
    and "good_reader z (loose_payload t content)" and "plausible_size (int (length content)) (int (length raw))"
  shows "let r = read_loose_bytes a z raw (hash_literal a (type_name t) content) threshold in
    \<not> lr_failed r \<and> lr_type r = t \<and> lr_size r = int (length content) \<and> lr_errors r = [] \<and>
    lr_contents r = (if t = TypeBlob \<and> threshold < int (length content) then None else Some content)"
proof -
  let ?n = "length content" and ?h = "type_name t @ 32 # dec_digits (length content)"
  let ?x = "hash_literal a (type_name t) content"
  have pay: "loose_payload t content = ?h @ 0 # content" by (simp add: loose_payload_def dec_int_def)
  have z: "zr_open z" "zr_out z = ?h @ 0 # content" "zr_clean z" "\<And>n. \<not> zr_fails z n" "\<And>n. zr_left z n = 0"
    using assms(3) by (auto simp: good_reader_def pay)
  note nt = no_zero_header [OF assms(1)]
  have "?n < 10 ^ 19" using assms(2) by simp
  from dec_length [OF this] have len: "length ?h < 32" using nt by simp
  have nul: "index_byte (zr_out z) 0 = Some (length ?h)"
    unfolding z(2) by (rule index_byte_append) (use nt dec_no_zero in simp)
  then have nul32: "index_byte (take max_header_len (zr_out z)) 0 = Some (length ?h)"
    by (rule index_byte_take) (use len in \<open>simp add: max_header_len_def\<close>)
  have th: "take (length ?h) (take max_header_len (zr_out z)) = ?h"
    using len unfolding z(2) by (simp add: max_header_len_def)
  have tn: "type_from_name (type_name t) = t" "t \<noteq> TypeBad" using assms(1) by (auto simp: type_name_def type_from_name_def)
  have sz: "sint (word_of_nat ?n :: 64 word) = int ?n"
  proof -
    have "fits 63 (word_of_nat ?n)" unfolding fits_unat using assms(2) by (simp add: unat_of_nat take_bit_eq_mod)
    then have "sint (word_of_nat ?n :: 64 word) = int (unat (word_of_nat ?n :: 64 word))" by (rule fits_sint) simp
    moreover have "unat (word_of_nat ?n :: 64 word) = ?n" using assms(2) by (simp add: unat_of_nat take_bit_eq_mod)
    ultimately show ?thesis by simp
  qed
  have ph: "parse_loose_header ?h = Some (type_name t, int ?n)"
    unfolding loose_header_eq using nt sz by auto
  have body: "drop (Suc (length ?h)) (zr_out z) = content" "take (Suc (length ?h)) (zr_out z) = ?h @ [0]"
    unfolding z(2) by simp_all
  have fill: "filled ?n content = content" by (simp add: filled_def)
  have real: "from_bytes (digest a ((?h @ [0]) @ content)) = ?x"
    by (simp add: hash_literal_def dec_int_def)
  let ?res = "empty_result\<lparr>lr_type_name := type_name t, lr_type := t, lr_size := int ?n\<rparr>"
  have r: "read_loose_bytes a z raw ?x threshold =
      (if t = TypeBlob \<and> threshold < int ?n then stream_check a z raw (length ?h) (int ?n) ?x ?res
       else read_contents a z raw (length ?h) ?x ?res)"
    unfolding read_loose_bytes_def Let_def nul32 option.case th ph prod.case tn(1) using z(1,4) tn(2) by simp
  have s: "stream_check a z raw (length ?h) (int ?n) ?x ?res = ?res\<lparr>lr_real := Some ?x\<rparr>"
    unfolding stream_check_def Let_def body using z real by (simp add: read_fails_def)
  have c: "read_contents a z raw (length ?h) ?x ?res = ?res\<lparr>lr_contents := Some content, lr_real := Some ?x\<rparr>"
    unfolding read_contents_def Let_def body using z assms(4) fill by (simp add: read_fails_def at_stream_end_def bytes_asked_def)
  show ?thesis unfolding r s c by (simp add: Let_def empty_result_def)
qed


text \<open>
  The bytes read for the header are not held against the announced size: what a small object has too
  many of is dropped without a word, because the stream has nothing left by then.
\<close>

lemma read_contents_drops:
  assumes "zr_out z = h @ 0 # content @ extra" and "length (zr_out z) \<le> max_header_len" and "zr_clean z"
    and "\<And>n. zr_left z n = 0" and "lr_size res = int (length content)" and "plausible_size (lr_size res) (int (length raw))"
    and "x = hash_literal a (lr_type_name res) content"
  shows "read_contents a z raw (length h) x res = res\<lparr>lr_contents := Some content, lr_real := Some x\<rparr>"
proof -
  have out: "filled (nat (lr_size res)) (drop (Suc (length h)) (zr_out z)) = content"
    unfolding assms(1,5) filled_def by simp
  have "\<not> read_fails z (length h) (length content)" using assms(1,2) by (simp add: read_fails_def min_def)
  moreover have "at_stream_end z (length h) (length content)"
    using assms(2,3) by (simp add: at_stream_end_def bytes_asked_def)
  ultimately show ?thesis unfolding read_contents_def Let_def out using assms(4-7) by simp
qed

section \<open>Writing is all or nothing\<close>

lemma write_beside_ok:
  "write_beside faults tmp path body fs = (True, states) \<Longrightarrow>
     final_files fs states = fs(tmp := None, path := Some body)"
  by (auto simp: write_beside_def final_files_def Let_def split: if_splits)

lemma write_beside_calm:
  "\<exists>states. write_beside (\<lambda>c. False) tmp path body fs = (True, states) \<and>
     final_files fs states = fs(tmp := None, path := Some body)"
proof -
  have all: "takeWhile (\<lambda>k. True) ks = ks" for ks :: "nat list" by (simp add: takeWhile_eq_all_conv)
  show ?thesis by (simp add: write_beside_def final_files_def all Let_def)
qed

lemma written_prefix: "last (map (\<lambda>k. fs(tmp := Some (take k body))) [0..<Suc n]) = fs(tmp := Some (take n body))"
  by simp

lemma write_beside_states:
  assumes "write_beside faults tmp path body fs = (ok, states)" and "s \<in> set states" and "tmp \<noteq> path"
  shows "s path = fs path \<or> s path = Some body" and "p \<noteq> path \<Longrightarrow> p \<noteq> tmp \<Longrightarrow> s p = fs p"
proof -
  define n where "n = length (takeWhile (\<lambda>k. \<not> faults (WriteByte k)) [0..<length body])"
  define m where "m = map (\<lambda>k. fs(tmp := Some (take k body))) [0..<Suc n]"
  have l: "last m = fs(tmp := Some (take n body))" unfolding m_def by (rule written_prefix)
  have "\<not> faults CreateTemp" using assms(1,2) by (auto simp: write_beside_def)
  then have st: "states = m @ (if faults RemoveTemp then [] else [(last m)(tmp := None)]) \<or>
      states = m @ [(last m)(tmp := None, path := Some body)]"
    using assms(1) unfolding write_beside_def Let_def n_def [symmetric] m_def [symmetric] by (simp only: if_False split: if_splits) auto
  have "set states \<subseteq> set m \<union> {(last m)(tmp := None), (last m)(tmp := None, path := Some body)}"
    using st by (auto split: if_splits)
  then consider k where "s = fs(tmp := Some (take k body))" | "s = (last m)(tmp := None)"
    | "s = (last m)(tmp := None, path := Some body)"
    using assms(2) by (auto simp: m_def simp del: upt_Suc)
  then have "(s path = fs path \<or> s path = Some body) \<and> (p \<noteq> path \<longrightarrow> p \<noteq> tmp \<longrightarrow> s p = fs p)"
    using assms(3) unfolding l by cases auto
  then show "s path = fs path \<or> s path = Some body" "p \<noteq> path \<Longrightarrow> p \<noteq> tmp \<Longrightarrow> s p = fs p" by blast+
qed

lemma write_beside_failed:
  assumes "write_beside faults tmp path body fs = (False, states)" and "tmp \<noteq> path" and "fs tmp = None"
  shows "final_files fs states path = fs path" and "\<not> faults RemoveTemp \<Longrightarrow> final_files fs states = fs"
proof -
  define n where "n = length (takeWhile (\<lambda>k. \<not> faults (WriteByte k)) [0..<length body])"
  define m where "m = map (\<lambda>k. fs(tmp := Some (take k body))) [0..<Suc n]"
  have l: "last m = fs(tmp := Some (take n body))" and ne: "m \<noteq> []"
    unfolding m_def by (rule written_prefix) simp
  have st: "states = [] \<or> states = m @ (if faults RemoveTemp then [] else [(last m)(tmp := None)])"
    using assms(1) unfolding write_beside_def Let_def n_def [symmetric] m_def [symmetric] by (simp split: if_splits)
  have "fs(tmp := None) = fs" using assms(3) by auto
  then show "final_files fs states path = fs path" "\<not> faults RemoveTemp \<Longrightarrow> final_files fs states = fs"
    using st assms(2) ne l by (auto simp: final_files_def split: if_splits)
qed

text \<open>
  C34: nobody ever finds a half-written object. Whichever calls of \<open>WriteLoose\<close> fail, and at whichever
  byte the write stops, in every state of the files on the way the object's path has what it had
  before or the complete compressed object, and no path but it and the temporary one has changed. A
  write that fails leaves the object's path as it was, and no trace at all unless the temporary file
  could not be removed either; one that succeeds leaves the complete object at its path, or what was
  there already, and no temporary file. Content that does not hash to the wanted name is refused.
\<close>

theorem write_loose_atomic:
  assumes "x = hash_literal a (type_name t) content" and "body = deflate (loose_payload t content)"
    and "fs tmp = None" and "tmp \<noteq> path_of x"
    and "write_loose deflate a faults tmp path_of t content want fs = (r, states)"
  shows "(\<forall>s \<in> set states. s (path_of x) \<in> {fs (path_of x), Some body} \<and>
      (\<forall>p. p \<noteq> path_of x \<longrightarrow> p \<noteq> tmp \<longrightarrow> s p = fs p)) \<and>
    (case r of
       None \<Rightarrow> final_files fs states (path_of x) = fs (path_of x) \<and> (faults RemoveTemp \<or> final_files fs states = fs)
     | Some y \<Rightarrow> y = x \<and> (valid_oid want \<longrightarrow> oid_h want = oid_h x) \<and>
         final_files fs states = (if fs (path_of x) \<noteq> None \<and> \<not> faults StatPath then fs else fs(path_of x := Some body)))"
proof (cases "valid_oid want \<and> oid_compare x want \<noteq> 0 \<or> fs (path_of x) \<noteq> None \<and> \<not> faults StatPath \<or> faults MakeDir")
  case True
  then show ?thesis
    using assms(5) by (auto simp: write_loose_def Let_def assms(1) [symmetric] final_files_def oid_compare_def bytes_compare_zero
        split: if_splits)
next
  case False
  obtain ok where w: "write_beside faults tmp (path_of x) body fs = (ok, states)" and r: "r = (if ok then Some x else None)"
    using assms(5) False unfolding write_loose_def Let_def assms(1) [symmetric] assms(2) [symmetric]
    by (auto split: prod.splits)
  have same: "valid_oid want \<longrightarrow> oid_h want = oid_h x"
    using False by (auto simp: oid_compare_def bytes_compare_zero)
  have clear: "fs(tmp := None) = fs" using assms(3) by auto
  have way: "\<forall>s \<in> set states. s (path_of x) \<in> {fs (path_of x), Some body} \<and>
      (\<forall>p. p \<noteq> path_of x \<longrightarrow> p \<noteq> tmp \<longrightarrow> s p = fs p)"
    using write_beside_states [OF w _ assms(4)] by blast
  show ?thesis
  proof (cases ok)
    case True
    then have "final_files fs states = fs(path_of x := Some body)"
      using write_beside_ok [of faults tmp "path_of x" body fs states] w clear by simp
    with way True r same False show ?thesis by auto
  next
    case no: False
    then have "write_beside faults tmp (path_of x) body fs = (False, states)" using w by simp
    note failed = write_beside_failed [OF this assms(4,3)]
    then have "final_files fs states (path_of x) = fs (path_of x)"
      "\<not> faults RemoveTemp \<Longrightarrow> final_files fs states = fs" by blast+
    with way no r show ?thesis by auto
  qed
qed

text \<open>A blob of one byte, as the standard library reads it back.\<close>

definition demo_blob :: zreader where
  "demo_blob = \<lparr>zr_open = True, zr_out = loose_payload TypeBlob [65], zr_fails = (\<lambda>n. False),
     zr_left = (\<lambda>n. 0), zr_clean = True\<rparr>"

theorem loose_roundtrip_witness:
  "lr_contents (read_loose_bytes (sha1_algo (\<lambda>m. replicate 20 7)) demo_blob (replicate 9 0)
     (hash_literal (sha1_algo (\<lambda>m. replicate 20 7)) (type_name TypeBlob) [65]) 512) = Some [65]"
proof -
  have "good_reader demo_blob (loose_payload TypeBlob [65])" by (simp add: good_reader_def demo_blob_def)
  from loose_roundtrip [OF _ _ this, of "replicate 9 0" "sha1_algo (\<lambda>m. replicate 20 7)" 512]
  show ?thesis by (simp add: plausible_size_def max_inflate_ratio_def Let_def)
qed

theorem loose_read_sound_witness:
  "lr_real (read_loose_bytes (sha1_algo (\<lambda>m. replicate 20 7)) demo_blob (replicate 9 0) (from_bytes (replicate 20 7)) 512) =
     Some (from_bytes (replicate 20 7))"
proof -
  have "parse_loose_header [98, 108, 111, 98, 32, 49] = Some ([98, 108, 111, 98], 1)"
    by (simp add: parse_loose_header_def)
  then have "\<not> lr_failed (read_loose_bytes (sha1_algo (\<lambda>m. replicate 20 7)) demo_blob (replicate 9 0) (from_bytes (replicate 20 7)) 512)"
    by (simp add: read_loose_bytes_def demo_blob_def loose_payload_def type_name_def dec_int_def dec_digits.simps
        max_header_len_def type_from_name_def empty_result_def read_contents_def plausible_size_def
        max_inflate_ratio_def read_fails_def filled_def hash_literal_def sha1_algo_def at_stream_end_def bytes_asked_def Let_def)
  from loose_read_sound [OF this] show ?thesis by (simp add: Let_def)
qed

text \<open>The disk is full after three bytes and the temporary file cannot be removed.\<close>

theorem write_loose_atomic_witness:
  "let faults = (\<lambda>c. c = WriteByte 3 \<or> c = RemoveTemp);
       (r, states) = write_loose (\<lambda>b. b) (sha1_algo (\<lambda>m. replicate 20 7)) faults (0 :: nat) (\<lambda>x. 1) TypeBlob [65] zero_oid (\<lambda>p. None)
   in r = None \<and> final_files (\<lambda>p. None) states 1 = None \<and> final_files (\<lambda>p. None) states 0 = Some [98, 108, 111]"
proof -
  let ?f = "\<lambda>c. c = WriteByte 3 \<or> c = RemoveTemp"
  let ?w = "write_loose (\<lambda>b. b) (sha1_algo (\<lambda>m. replicate 20 7)) ?f (0 :: nat) (\<lambda>x. 1) TypeBlob [65] zero_oid (\<lambda>p. None)"
  have w: "?w = (None, map (\<lambda>k. [0 \<mapsto> take k [98, 108, 111, 98, 32, 49, 0, 65]]) [0, 1, 2, 3])"
    by (simp add: write_loose_def write_beside_def valid_oid_def zero_oid_def Let_def loose_payload_def type_name_def
        dec_int_def dec_digits.simps upt_rec numeral_eq_Suc)
  then obtain r states where rs: "?w = (r, states)" "r = None" by simp
  have "final_files (\<lambda>p. None) states 1 = None"
    using write_loose_atomic [OF refl refl _ _ rs(1)] rs(2) by simp
  moreover have "final_files (\<lambda>p. None) states 0 = Some [98, 108, 111]"
  proof -
    have "states = map (\<lambda>k. [0 \<mapsto> take k [98, 108, 111, 98, 32, 49, 0, 65]]) [0, 1, 2, 3]"
      using w unfolding rs(1) by (simp only: prod.inject)
    then show ?thesis by (simp add: final_files_def)
  qed
  ultimately show ?thesis using rs by (simp add: Let_def)
qed

end
