(* ===== verification/DeltaCache.thy ===== *)
theory DeltaCache
  imports GitObj
begin

text \<open>
  The delta base cache: \<open>internal/odb/cache.go\<close>. A pack is named by its number in the database. A
  shard is the code's map from keys to list elements together with the recency list, its front at the
  head; the locks are left out, each operation being one step of its shard.
\<close>

type_synonym delta_key = "nat \<times> int"
type_synonym delta_value = "obj_type \<times> bytes"

definition delta_cache_limit :: nat where
  "delta_cache_limit = 96 * 2 ^ 20"

definition delta_cache_shards :: nat where
  "delta_cache_shards = 64"

definition shard_limit :: nat where
  "shard_limit = delta_cache_limit div delta_cache_shards"

record shard =
  sh_map :: "delta_key \<Rightarrow> delta_value option"
  sh_lru :: "delta_key list"
  sh_size :: nat

type_synonym delta_cache = "nat \<Rightarrow> shard"

definition empty_shard :: shard where
  "empty_shard = \<lparr>sh_map = (\<lambda>_. None), sh_lru = [], sh_size = 0\<rparr>"

definition new_delta_cache :: delta_cache where
  "new_delta_cache = (\<lambda>_. empty_shard)"

definition shard_of :: "int \<Rightarrow> nat" where
  "shard_of off =
     (let h = (word_of_int off :: 64 word) in unat (h XOR drop_bit 17 h) mod delta_cache_shards)"

definition move_to_front :: "delta_key \<Rightarrow> shard \<Rightarrow> shard" where
  "move_to_front k s = s\<lparr>sh_lru := k # remove1 k (sh_lru s)\<rparr>"

definition shard_get :: "delta_key \<Rightarrow> shard \<Rightarrow> delta_value option \<times> shard" where
  "shard_get k s = (case sh_map s k of None \<Rightarrow> (None, s) | Some v \<Rightarrow> (Some v, move_to_front k s))"

definition value_size :: "(delta_key \<Rightarrow> delta_value option) \<Rightarrow> delta_key \<Rightarrow> nat" where
  "value_size m k = (case m k of None \<Rightarrow> 0 | Some v \<Rightarrow> length (snd v))"

text \<open>The eviction loop; \<open>xs\<close> is the recency list from its back.\<close>

fun evict :: "delta_key list \<Rightarrow> (delta_key \<Rightarrow> delta_value option) \<Rightarrow> nat \<Rightarrow> shard" where
  "evict [] m n = \<lparr>sh_map = m, sh_lru = [], sh_size = n\<rparr>"
| "evict (k # ks) m n =
     (if shard_limit < n then evict ks (m(k := None)) (n - value_size m k)
      else \<lparr>sh_map = m, sh_lru = rev (k # ks), sh_size = n\<rparr>)"

definition shard_put :: "delta_key \<Rightarrow> delta_value \<Rightarrow> shard \<Rightarrow> shard" where
  "shard_put k v s =
     (if sh_map s k \<noteq> None then move_to_front k s
      else evict (rev (k # sh_lru s)) ((sh_map s)(k := Some v)) (sh_size s + length (snd v)))"

definition cache_get :: "delta_cache \<Rightarrow> delta_key \<Rightarrow> delta_value option \<times> delta_cache" where
  "cache_get c k =
     (let i = shard_of (snd k); r = shard_get k (c i) in (fst r, c(i := snd r)))"

definition cache_put :: "delta_cache \<Rightarrow> delta_key \<Rightarrow> delta_value \<Rightarrow> delta_cache" where
  "cache_put c k v =
     (if shard_limit < length (snd v) then c
      else (let i = shard_of (snd k) in c(i := shard_put k v (c i))))"

section \<open>The shard invariant\<close>

definition shard_inv :: "shard \<Rightarrow> bool" where
  "shard_inv s \<longleftrightarrow> distinct (sh_lru s) \<and> (\<forall>k. sh_map s k \<noteq> None \<longleftrightarrow> k \<in> set (sh_lru s)) \<and>
     sh_size s = sum_list (map (value_size (sh_map s)) (sh_lru s)) \<and> sh_size s \<le> shard_limit"

definition cache_inv :: "delta_cache \<Rightarrow> bool" where
  "cache_inv c \<longleftrightarrow> (\<forall>i. shard_inv (c i))"

lemma new_cache_inv: "cache_inv new_delta_cache"
  by (simp add: cache_inv_def new_delta_cache_def shard_inv_def empty_shard_def)

lemma sum_remove1:
  "k \<in> set ks \<Longrightarrow> f k + sum_list (map f (remove1 k ks)) = (sum_list (map f ks) :: nat)"
  by (induction ks) auto

lemma shard_invD:
  assumes "shard_inv s"
  shows "distinct (sh_lru s)" and "sh_map s k \<noteq> None \<longleftrightarrow> k \<in> set (sh_lru s)"
    and "sh_size s = sum_list (map (value_size (sh_map s)) (sh_lru s))" and "sh_size s \<le> shard_limit"
  using assms unfolding shard_inv_def by metis+

lemma move_to_front_inv:
  assumes "shard_inv s" and "sh_map s k \<noteq> None"
  shows "shard_inv (move_to_front k s)"
proof -
  note inv = shard_invD [OF assms(1)]
  have k: "k \<in> set (sh_lru s)" using inv(2) assms(2) by metis
  then have "set (k # remove1 k (sh_lru s)) = set (sh_lru s)" using inv(1) by auto
  moreover have "distinct (k # remove1 k (sh_lru s))" using inv(1) by simp
  ultimately show ?thesis
    using inv(2-4) sum_remove1 [OF k, of "value_size (sh_map s)"]
    unfolding shard_inv_def move_to_front_def by simp
qed

lemma evict_spec:
  assumes "distinct ks" and "\<forall>k. m k \<noteq> None \<longleftrightarrow> k \<in> set ks" and "n = sum_list (map (value_size m) ks)"
  shows "shard_inv (evict ks m n) \<and> (\<forall>k. sh_map (evict ks m n) k = None \<or> sh_map (evict ks m n) k = m k)"
  using assms
proof (induction ks m n rule: evict.induct)
  case (1 m n)
  then show ?case by (simp add: shard_inv_def)
next
  case (2 k ks m n)
  show ?case
  proof (cases "shard_limit < n")
    case True
    have sz: "value_size (m(k := None)) j = value_size m j" if "j \<in> set ks" for j
      using that "2.prems"(1) by (auto simp: value_size_def)
    have "n - value_size m k = sum_list (map (value_size (m(k := None))) ks)"
      using "2.prems"(3) sz by (simp cong: map_cong)
    moreover have "distinct ks" using "2.prems"(1) by simp
    moreover have "\<forall>j. (m(k := None)) j \<noteq> None \<longleftrightarrow> j \<in> set ks"
      using "2.prems"(1,2) by (metis distinct.simps(2) fun_upd_other fun_upd_same set_ConsD list.set_intros(2))
    ultimately have IH: "shard_inv (evict ks (m(k := None)) (n - value_size m k))"
      "\<forall>j. sh_map (evict ks (m(k := None)) (n - value_size m k)) j = None \<or>
        sh_map (evict ks (m(k := None)) (n - value_size m k)) j = (m(k := None)) j"
      using "2.IH" [OF True] by blast+
    show ?thesis unfolding evict.simps(2) if_P [OF True] using IH by (metis fun_upd_apply)
  next
    case False
    then have e: "evict (k # ks) m n = \<lparr>sh_map = m, sh_lru = rev (k # ks), sh_size = n\<rparr>" by simp
    have "shard_inv \<lparr>sh_map = m, sh_lru = rev (k # ks), sh_size = n\<rparr>"
      unfolding shard_inv_def shard.select_convs set_rev distinct_rev rev_map [symmetric] sum_list_rev
      using "2.prems" False by simp
    then show ?thesis unfolding e by simp
  qed
qed

lemma shard_put_spec:
  assumes inv: "shard_inv s"
  shows "shard_inv (shard_put k v s) \<and>
    (\<forall>j. sh_map (shard_put k v s) j = None \<or> sh_map (shard_put k v s) j = sh_map s j \<or>
       sh_map s k = None \<and> j = k \<and> sh_map (shard_put k v s) j = Some v)"
proof (cases "sh_map s k")
  case (Some w)
  then show ?thesis using move_to_front_inv [OF inv, of k] by (simp add: shard_put_def move_to_front_def)
next
  case None
  let ?m = "(sh_map s)(k := Some v)" and ?ks = "rev (k # sh_lru s)"
  note i = shard_invD [OF inv]
  have nk: "k \<notin> set (sh_lru s)" using i(2) [of k] None by simp
  have put: "shard_put k v s = evict ?ks ?m (sh_size s + length (snd v))"
    using None by (simp add: shard_put_def)
  have "value_size ?m j = value_size (sh_map s) j" if "j \<in> set (sh_lru s)" for j
    using that nk by (auto simp: value_size_def)
  then have "sum_list (map (value_size ?m) (sh_lru s)) = sh_size s" using i(3) by (simp cong: map_cong)
  then have "sh_size s + length (snd v) = sum_list (map (value_size ?m) (k # sh_lru s))"
    by (simp add: value_size_def)
  then have "sh_size s + length (snd v) = sum_list (map (value_size ?m) ?ks)"
    unfolding rev_map [symmetric] sum_list_rev .
  moreover have "distinct ?ks" using i(1) nk by simp
  moreover have "\<forall>j. ?m j \<noteq> None \<longleftrightarrow> j \<in> set ?ks" using i(2) by auto
  ultimately have e: "shard_inv (shard_put k v s)"
    "\<forall>j. sh_map (shard_put k v s) j = None \<or> sh_map (shard_put k v s) j = ?m j"
    using evict_spec [of ?ks ?m "sh_size s + length (snd v)"] unfolding put by blast+
  have "sh_map (shard_put k v s) j = None \<or> sh_map (shard_put k v s) j = sh_map s j \<or>
      sh_map s k = None \<and> j = k \<and> sh_map (shard_put k v s) j = Some v" for j
    using spec [OF e(2), of j] None by (cases "j = k") auto
  with e(1) show ?thesis by blast
qed

lemma shard_get_spec:
  assumes "shard_inv s"
  shows "fst (shard_get k s) = sh_map s k \<and> shard_inv (snd (shard_get k s)) \<and> sh_map (snd (shard_get k s)) = sh_map s"
  using assms move_to_front_inv [OF assms, of k]
  by (cases "sh_map s k") (simp_all add: shard_get_def move_to_front_def)

section \<open>The cache\<close>

text \<open>What a key maps to, through the shard its offset selects.\<close>

definition cached :: "delta_cache \<Rightarrow> delta_key \<Rightarrow> delta_value option" where
  "cached c k = sh_map (c (shard_of (snd k))) k"

lemma cache_get_spec:
  assumes "cache_inv c"
  shows "fst (cache_get c k) = cached c k" and "cache_inv (snd (cache_get c k))"
    and "cached (snd (cache_get c k)) j = cached c j"
  using assms shard_get_spec [of "c (shard_of (snd k))" k]
  by (auto simp: cache_get_def cache_inv_def cached_def Let_def)

lemma cache_put_spec:
  assumes "cache_inv c"
  shows "cache_inv (cache_put c k v)"
    and "cached (cache_put c k v) j = None \<or> cached (cache_put c k v) j = cached c j \<or>
      cached c k = None \<and> j = k \<and> cached (cache_put c k v) j = Some v"
proof -
  note p = shard_put_spec [of "c (shard_of (snd k))" k v]
  show "cache_inv (cache_put c k v)" using assms p by (simp add: cache_put_def cache_inv_def Let_def)
  show "cached (cache_put c k v) j = None \<or> cached (cache_put c k v) j = cached c j \<or>
      cached c k = None \<and> j = k \<and> cached (cache_put c k v) j = Some v"
  proof (cases "shard_limit < length (snd v) \<or> shard_of (snd j) \<noteq> shard_of (snd k)")
    case True
    then show ?thesis by (auto simp: cache_put_def cached_def Let_def)
  next
    case False
    then show ?thesis using assms p unfolding cache_put_def cached_def cache_inv_def Let_def
      by (metis fun_upd_same)
  qed
qed

text \<open>The operations a worker performs on the cache, in any order.\<close>

datatype cache_op = Get delta_key | Put delta_key delta_value

fun cache_step :: "cache_op \<Rightarrow> delta_cache \<Rightarrow> delta_cache" where
  "cache_step (Get k) c = snd (cache_get c k)"
| "cache_step (Put k v) c = cache_put c k v"

text \<open>
  C23: the cache never outgrows its limit and never answers with bytes nobody stored. After any
  sequence of lookups and insertions, the sizes each shard counts are those of the values it holds,
  all the shards together hold at most \<open>deltaCacheLimit\<close> bytes, and every value cached for a key was
  put there under that key.
\<close>

theorem delta_cache_bounded:
  "let c = fold cache_step ops new_delta_cache in
     (\<forall>i. sh_size (c i) = sum_list (map (value_size (sh_map (c i))) (sh_lru (c i)))) \<and>
     sum_list (map (\<lambda>i. sh_size (c i)) [0..<delta_cache_shards]) \<le> delta_cache_limit \<and>
     (\<forall>k. set_option (cached c k) \<subseteq> {v. Put k v \<in> set ops})"
proof -
  let ?c = "fold cache_step ops new_delta_cache"
  have inv: "cache_inv (fold cache_step xs c)" if "cache_inv c" for xs c
    using that
  proof (induction xs arbitrary: c)
    case (Cons x xs)
    then show ?case using cache_get_spec(2) cache_put_spec(1) by (cases x) simp_all
  qed simp
  note i = inv [OF new_cache_inv, of ops]
  have sz: "sh_size (?c i) \<le> shard_limit" for i using i shard_invD(4) by (simp only: cache_inv_def)
  have "sum_list (map f [0..<n]) \<le> n * shard_limit" if "\<And>i. f i \<le> shard_limit" for n and f :: "nat \<Rightarrow> nat"
  proof (induction n)
    case (Suc n)
    with that [of n] show ?case by simp
  qed simp
  from this [of "\<lambda>i. sh_size (?c i)" delta_cache_shards] sz
  have total: "sum_list (map (\<lambda>i. sh_size (?c i)) [0..<delta_cache_shards]) \<le> delta_cache_shards * shard_limit" by simp
  have vals: "set_option (cached (fold cache_step xs new_delta_cache) k) \<subseteq> {v. Put k v \<in> set xs}" for xs k
  proof (induction xs rule: rev_induct)
    case Nil
    show ?case by (simp add: cached_def new_delta_cache_def empty_shard_def)
  next
    case (snoc x xs)
    note c = inv [OF new_cache_inv, of xs]
    show ?case
    proof (cases x)
      case (Get j)
      with snoc cache_get_spec(3) [OF c] show ?thesis by auto
    next
      case (Put j w)
      with snoc cache_put_spec(2) [OF c, of j w k] show ?thesis
        by (elim disjE conjE) (simp_all add: subset_iff)
    qed
  qed
  have "delta_cache_shards * shard_limit \<le> delta_cache_limit"
    by (simp add: shard_limit_def delta_cache_shards_def delta_cache_limit_def)
  with total have "sum_list (map (\<lambda>i. sh_size (?c i)) [0..<delta_cache_shards]) \<le> delta_cache_limit" by simp
  moreover have "\<forall>i. sh_size (?c i) = sum_list (map (value_size (sh_map (?c i))) (sh_lru (?c i)))"
    using i shard_invD(3) unfolding cache_inv_def by blast
  ultimately show ?thesis using vals [of ops] unfolding Let_def by blast
qed

end
