(* ===== verification/ObjectDb.thy ===== *)
theory ObjectDb
  imports DeltaCache Loose PackIndex
begin

text \<open>
  The object database: \<open>internal/odb/db.go\<close>. Packs are a list, each with the flag that it opened. For
  every object directory \<open>db_loose\<close> gives the regular file where a loose object would be, and
  \<open>db_inflate\<close> is \<open>Inflate\<close> on a pack of the list; both stand for the file system and Go's zlib. The
  state is the delta cache and the list of packed objects that would not decode. Reading by name can leave one pack for another and come back,
  so the reader is a partial function: \<open>None\<close> is a read that never returns.
\<close>

record database =
  db_algo :: algo
  db_packs :: "(bool \<times> pack) list"
  db_loose :: "(oid \<Rightarrow> loose_file option) list"
  db_inflate :: "nat \<Rightarrow> int \<Rightarrow> int \<Rightarrow> bytes option"

record db_state =
  ds_cache :: delta_cache
  ds_bad :: "oid set"

datatype location = InPack nat nat | InLoose loose_file

definition pack_no :: "database \<Rightarrow> nat \<Rightarrow> pack" where
  "pack_no db k = snd (db_packs db ! k)"

text \<open>The loop of \<open>Find\<close> over the packs, from pack number \<open>k\<close>.\<close>

fun find_in_packs :: "nat \<Rightarrow> (bool \<times> pack) list \<Rightarrow> oid \<Rightarrow> (nat \<times> nat) option" where
  "find_in_packs k [] x = None"
| "find_in_packs k ((opened, p) # ps) x =
     (if opened then (case find p x of Some i \<Rightarrow> Some (k, i) | None \<Rightarrow> find_in_packs (Suc k) ps x)
      else find_in_packs (Suc k) ps x)"

fun find_loose :: "(oid \<Rightarrow> loose_file option) list \<Rightarrow> oid \<Rightarrow> loose_file option" where
  "find_loose [] x = None"
| "find_loose (d # ds) x = (case d x of Some f \<Rightarrow> Some f | None \<Rightarrow> find_loose ds x)"

definition db_find :: "database \<Rightarrow> oid \<Rightarrow> location option" where
  "db_find db x =
     (if \<not> valid_oid x then None
      else (case find_in_packs 0 (db_packs db) x of
          Some (k, i) \<Rightarrow> Some (InPack k i)
        | None \<Rightarrow> map_option InLoose (find_loose (db_loose db) x)))"

definition db_has :: "database \<Rightarrow> oid \<Rightarrow> bool" where
  "db_has db x \<longleftrightarrow> db_find db x \<noteq> None"

definition has_packed :: "database \<Rightarrow> oid \<Rightarrow> bool" where
  "has_packed db x \<longleftrightarrow> find_in_packs 0 (db_packs db) x \<noteq> None"

definition mark_bad_packed :: "oid \<Rightarrow> db_state \<Rightarrow> db_state" where
  "mark_bad_packed x st = st\<lparr>ds_bad := insert x (ds_bad st)\<rparr>"

definition max_delta_chain :: nat where
  "max_delta_chain = 4096"

datatype read_error =
    Missing oid
  | LooseSays loose_error
  | CorruptObject oid
  | CorruptPacked oid
  | TooDeep
  | ReadHeader header_error
  | InflateFailed
  | BadDelta

text \<open>Where the base of an entry is.\<close>

datatype base_ref = NoBase | BaseAt int | BaseElsewhere oid

definition delta_base :: "pack \<Rightarrow> obj_header \<Rightarrow> base_ref" where
  "delta_base p h =
     (if oh_type h = TypeOfsDelta then BaseAt (oh_base_off h)
      else if oh_type h = TypeRefDelta then
        (case find p (oh_base_oid h) of
           Some i \<Rightarrow> BaseAt (offset_at p i)
         | None \<Rightarrow> BaseElsewhere (oh_base_oid h))
      else NoBase)"

definition inflate_entry :: "database \<Rightarrow> nat \<Rightarrow> obj_header \<Rightarrow> read_error + bytes" where
  "inflate_entry db k h =
     (case db_inflate db k (oh_data h) (oh_size h) of None \<Rightarrow> Inl InflateFailed | Some b \<Rightarrow> Inr b)"

text \<open>The last step of a delta: the base is in hand.\<close>

definition on_base ::
    "database \<Rightarrow> nat \<Rightarrow> obj_header \<Rightarrow> read_error + (obj_type \<times> bytes) \<Rightarrow> read_error + (obj_type \<times> bytes)" where
  "on_base db k h base =
     (case base of
        Inl e \<Rightarrow> Inl e
      | Inr (t, b) \<Rightarrow>
          (case inflate_entry db k h of
             Inl e \<Rightarrow> Inl e
           | Inr delta \<Rightarrow> (case apply_delta b delta of None \<Rightarrow> Inl BadDelta | Some out \<Rightarrow> Inr (t, out))))"

text \<open>After the entry a name leads to has been read: a failure marks the object bad.\<close>

definition named_result ::
    "oid \<Rightarrow> (read_error + (obj_type \<times> bytes)) \<times> db_state \<Rightarrow> (read_error + (obj_type \<times> bytes)) \<times> db_state" where
  "named_result x r =
     (case fst r of Inl e \<Rightarrow> (Inl (CorruptPacked x), mark_bad_packed x (snd r)) | Inr v \<Rightarrow> (Inr v, snd r))"

definition loose_result_of :: "database \<Rightarrow> loose_file \<Rightarrow> oid \<Rightarrow> read_error + (obj_type \<times> bytes)" where
  "loose_result_of db f x =
     (let res = read_loose (db_algo db) f x (2 ^ 62) in
      if lr_failed res then (case lr_errors res of e # _ \<Rightarrow> Inl (LooseSays e) | [] \<Rightarrow> Inl (CorruptObject x))
      else Inr (lr_type res, (case lr_contents res of Some b \<Rightarrow> b | None \<Rightarrow> [])))"

definition cache_base :: "delta_key \<Rightarrow> (read_error + (obj_type \<times> bytes)) \<times> db_state \<Rightarrow> db_state" where
  "cache_base key r =
     (case fst r of Inl e \<Rightarrow> snd r | Inr v \<Rightarrow> (snd r)\<lparr>ds_cache := cache_put (ds_cache (snd r)) key v\<rparr>)"

text \<open>\<open>readPacked\<close>, with \<open>readBase\<close> and the calls of \<open>Read\<close> it makes written out at their place.\<close>

partial_function (option) read_packed ::
    "database \<Rightarrow> db_state \<Rightarrow> nat \<Rightarrow> int \<Rightarrow> nat \<Rightarrow> ((read_error + (obj_type \<times> bytes)) \<times> db_state) option" where
  "read_packed db st k off depth =
     (if max_delta_chain < depth then Some (Inl TooDeep, st)
      else (case read_header (pack_no db k) off of
          Inl e \<Rightarrow> Some (Inl (ReadHeader e), st)
        | Inr h \<Rightarrow>
            (case delta_base (pack_no db k) h of
               NoBase \<Rightarrow>
                 Some ((case inflate_entry db k h of Inl e \<Rightarrow> Inl e | Inr b \<Rightarrow> Inr (oh_type h, b)), st)
             | BaseAt b \<Rightarrow>
                 (let got = cache_get (ds_cache st) (k, b); st1 = st\<lparr>ds_cache := snd got\<rparr> in
                  case fst got of
                    Some v \<Rightarrow> Some (on_base db k h (Inr v), st1)
                  | None \<Rightarrow> Option.bind (read_packed db st1 k b (Suc depth))
                      (\<lambda>r. Some (on_base db k h (fst r), cache_base (k, b) r)))
             | BaseElsewhere x \<Rightarrow>
                 (case db_find db x of
                    None \<Rightarrow> Some (Inl (Missing x), st)
                  | Some (InLoose f) \<Rightarrow> Some (on_base db k h (loose_result_of db f x), st)
                  | Some (InPack j i) \<Rightarrow> Option.bind (read_packed db st j (offset_at (pack_no db j) i) 0)
                      (\<lambda>r. Some (on_base db k h (fst (named_result x r)), snd (named_result x r)))))))"

definition read_object :: "database \<Rightarrow> db_state \<Rightarrow> oid \<Rightarrow> ((read_error + (obj_type \<times> bytes)) \<times> db_state) option" where
  "read_object db st x =
     (case db_find db x of
        None \<Rightarrow> Some (Inl (Missing x), st)
      | Some (InLoose f) \<Rightarrow> Some (loose_result_of db f x, st)
      | Some (InPack j i) \<Rightarrow> map_option (named_result x) (read_packed db st j (offset_at (pack_no db j) i) 0))"

section \<open>Types without contents\<close>

text \<open>The loop of \<open>TypeInPack\<close>; \<open>fuel\<close> is the number of turns it has left.\<close>

fun type_loop :: "pack \<Rightarrow> nat \<Rightarrow> int \<Rightarrow> obj_type option" where
  "type_loop p 0 off = None"
| "type_loop p (Suc fuel) off =
     (case read_header p off of
        Inl e \<Rightarrow> None
      | Inr h \<Rightarrow>
          (case delta_base p h of
             NoBase \<Rightarrow> Some (oh_type h)
           | BaseAt b \<Rightarrow> type_loop p fuel b
           | BaseElsewhere x \<Rightarrow> None))"

definition type_in_pack :: "database \<Rightarrow> oid \<Rightarrow> (obj_type \<times> nat) option" where
  "type_in_pack db x =
     (case db_find db x of
        Some (InPack k i) \<Rightarrow>
          map_option (\<lambda>t. (t, k)) (type_loop (pack_no db k) (Suc max_delta_chain) (offset_at (pack_no db k) i))
      | _ \<Rightarrow> None)"

text \<open>\<open>Info\<close>: the same walk, with the size the last header announces and the other packs tried too.\<close>

definition loose_info :: "database \<Rightarrow> loose_file \<Rightarrow> oid \<Rightarrow> (obj_type \<times> int) option" where
  "loose_info db f x =
     (let res = read_loose (db_algo db) f x 0 in
      if lr_type res = TypeNone \<and> lr_type_name res = [] then None else Some (lr_type res, lr_size res))"

partial_function (option) info_loop :: "database \<Rightarrow> nat \<Rightarrow> int \<Rightarrow> nat \<Rightarrow> (obj_type \<times> int) option option" where
  "info_loop db k off depth =
     (if max_delta_chain < depth then Some None
      else (case read_header (pack_no db k) off of
          Inl e \<Rightarrow> Some None
        | Inr h \<Rightarrow>
            (case delta_base (pack_no db k) h of
               NoBase \<Rightarrow> Some (Some (oh_type h, oh_size h))
             | BaseAt b \<Rightarrow> info_loop db k b (Suc depth)
             | BaseElsewhere x \<Rightarrow>
                 (case db_find db x of
                    None \<Rightarrow> Some None
                  | Some (InLoose f) \<Rightarrow> Some (loose_info db f x)
                  | Some (InPack j i) \<Rightarrow> info_loop db j (offset_at (pack_no db j) i) 0))))"

definition db_info :: "database \<Rightarrow> oid \<Rightarrow> (obj_type \<times> int) option option" where
  "db_info db x =
     (case db_find db x of
        None \<Rightarrow> Some None
      | Some (InLoose f) \<Rightarrow> Some (loose_info db f x)
      | Some (InPack j i) \<Rightarrow> info_loop db j (offset_at (pack_no db j) i) 0)"

section \<open>What the entries mean\<close>

text \<open>The object an entry of a pack is, with no cache and no bound on the chain.\<close>

inductive stored :: "database \<Rightarrow> nat \<Rightarrow> int \<Rightarrow> obj_type \<Rightarrow> bytes \<Rightarrow> bool" for db where
  whole: "read_header (pack_no db k) off = Inr h \<Longrightarrow> delta_base (pack_no db k) h = NoBase \<Longrightarrow>
    inflate_entry db k h = Inr b \<Longrightarrow> stored db k off (oh_type h) b"
| near: "read_header (pack_no db k) off = Inr h \<Longrightarrow> delta_base (pack_no db k) h = BaseAt b \<Longrightarrow>
    stored db k b t base \<Longrightarrow> on_base db k h (Inr (t, base)) = Inr (t, out) \<Longrightarrow> stored db k off t out"
| far: "read_header (pack_no db k) off = Inr h \<Longrightarrow> delta_base (pack_no db k) h = BaseElsewhere x \<Longrightarrow>
    db_find db x = Some (InPack j i) \<Longrightarrow> stored db j (offset_at (pack_no db j) i) t base \<Longrightarrow>
    on_base db k h (Inr (t, base)) = Inr (t, out) \<Longrightarrow> stored db k off t out"
| loose: "read_header (pack_no db k) off = Inr h \<Longrightarrow> delta_base (pack_no db k) h = BaseElsewhere x \<Longrightarrow>
    db_find db x = Some (InLoose f) \<Longrightarrow> loose_result_of db f x = Inr (t, base) \<Longrightarrow>
    on_base db k h (Inr (t, base)) = Inr (t, out) \<Longrightarrow> stored db k off t out"

text \<open>The case an entry falls into is fixed by its header.\<close>

lemma stored_iff:
  "stored db k off t b \<longleftrightarrow>
     (case read_header (pack_no db k) off of
        Inl e \<Rightarrow> False
      | Inr h \<Rightarrow>
          (case delta_base (pack_no db k) h of
             NoBase \<Rightarrow> t = oh_type h \<and> inflate_entry db k h = Inr b
           | BaseAt o' \<Rightarrow> (\<exists>base. stored db k o' t base \<and> on_base db k h (Inr (t, base)) = Inr (t, b))
           | BaseElsewhere x \<Rightarrow>
               (case db_find db x of
                  None \<Rightarrow> False
                | Some (InLoose f) \<Rightarrow>
                    (\<exists>base. loose_result_of db f x = Inr (t, base) \<and> on_base db k h (Inr (t, base)) = Inr (t, b))
                | Some (InPack j i) \<Rightarrow>
                    (\<exists>base. stored db j (offset_at (pack_no db j) i) t base \<and>
                       on_base db k h (Inr (t, base)) = Inr (t, b)))))"
  by (subst stored.simps) (auto split: sum.splits base_ref.splits option.splits location.splits)

lemma on_base_type: "on_base db k h (Inr (t, b)) = Inr (t', out) \<Longrightarrow> t' = t"
  by (auto simp: on_base_def split: sum.splits option.splits)

lemma stored_unique: "stored db k off t b \<Longrightarrow> stored db k off t' b' \<Longrightarrow> t' = t \<and> b' = b"
proof (induction arbitrary: t' b' rule: stored.induct)
  case (whole k off h b)
  from whole.prems whole.hyps show ?case by (subst (asm) stored_iff) simp
next
  case (near k off h b t base out)
  from near.prems near.hyps obtain base' where
    "stored db k b t' base'" "on_base db k h (Inr (t', base')) = Inr (t', b')"
    by (subst (asm) stored_iff) auto
  with near.IH near.hyps show ?case by fastforce
next
  case (far k off h x j i t base out)
  from far.prems far.hyps obtain base' where
    "stored db j (offset_at (pack_no db j) i) t' base'" "on_base db k h (Inr (t', base')) = Inr (t', b')"
    by (subst (asm) stored_iff) auto
  with far.IH far.hyps show ?case by fastforce
next
  case (loose k off h x f t base out)
  from loose.prems loose.hyps show ?case by (subst (asm) stored_iff) auto
qed

definition cache_true :: "database \<Rightarrow> delta_cache \<Rightarrow> bool" where
  "cache_true db c \<longleftrightarrow> (\<forall>k off v. cached c (k, off) = Some v \<longrightarrow> stored db k off (fst v) (snd v))"

definition good_state :: "database \<Rightarrow> db_state \<Rightarrow> bool" where
  "good_state db st \<longleftrightarrow> cache_inv (ds_cache st) \<and> cache_true db (ds_cache st)"

lemma good_stateD:
  assumes "good_state db st"
  shows "cache_inv (ds_cache st)"
    and "cached (ds_cache st) (k, off) = Some v \<Longrightarrow> stored db k off (fst v) (snd v)"
  using assms unfolding good_state_def cache_true_def by blast+

lemma good_stateI:
  assumes "cache_inv (ds_cache st)"
    and "\<And>k off v. cached (ds_cache st) (k, off) = Some v \<Longrightarrow> stored db k off (fst v) (snd v)"
  shows "good_state db st"
  using assms unfolding good_state_def cache_true_def by blast

lemma good_get:
  assumes "good_state db st"
  shows "good_state db (st\<lparr>ds_cache := snd (cache_get (ds_cache st) key)\<rparr>)"
  using good_stateD [OF assms] cache_get_spec(2,3) [OF good_stateD(1) [OF assms]]
  by (intro good_stateI) simp_all

lemma good_get_hit:
  assumes "good_state db st" and "fst (cache_get (ds_cache st) (k, off)) = Some v"
  shows "stored db k off (fst v) (snd v)"
  using good_stateD [OF assms(1)] cache_get_spec(1) [OF good_stateD(1) [OF assms(1)]] assms(2) by simp

lemma good_put:
  assumes "good_state db (snd r)" and "\<And>v. fst r = Inr v \<Longrightarrow> stored db k off (fst v) (snd v)"
  shows "good_state db (cache_base (k, off) r)"
proof (cases "fst r")
  case (Inr v)
  have "stored db k' off' (fst w) (snd w)"
    if "cached (cache_put (ds_cache (snd r)) (k, off) v) (k', off') = Some w" for k' off' w
    using cache_put_spec(2) [OF good_stateD(1) [OF assms(1)], of "(k, off)" v "(k', off')"]
      good_stateD(2) [OF assms(1), of k' off' w] assms(2) [OF Inr] that by auto
  then show ?thesis
    using cache_put_spec(1) [OF good_stateD(1) [OF assms(1)]] Inr
    by (intro good_stateI) (simp_all add: cache_base_def)
qed (use assms in \<open>simp add: cache_base_def\<close>)

lemma cache_base_bad [simp]: "ds_bad (cache_base key r) = ds_bad (snd r)"
  by (simp add: cache_base_def split: sum.split)

lemma good_mark: "good_state db (mark_bad_packed x st) = good_state db st"
  by (simp add: good_state_def mark_bad_packed_def)

lemma named_result_good: "good_state db (snd (named_result x r)) = good_state db (snd r)"
  by (simp add: named_result_def good_mark split: sum.split)

lemma named_result_ok: "fst (named_result x r) = Inr v \<longleftrightarrow> fst r = Inr v"
  by (auto simp: named_result_def split: sum.split)

lemma named_result_bad: "ds_bad (snd r) \<subseteq> ds_bad (snd (named_result x r))"
  by (auto simp: named_result_def mark_bad_packed_def split: sum.split)

lemma on_base_okE:
  assumes "on_base db k h base = Inr v"
  obtains t b where "base = Inr (t, b)" and "fst v = t" and "on_base db k h (Inr (t, b)) = Inr (t, snd v)"
  using assms by (cases base; cases v) (auto simp: on_base_def split: sum.splits option.splits)

section \<open>What a read returns\<close>

lemma read_packed_good:
  assumes "read_packed db st k off depth = Some r" and "good_state db st"
  shows "good_state db (snd r) \<and> ds_bad st \<subseteq> ds_bad (snd r) \<and>
    (\<forall>v. fst r = Inr v \<longrightarrow> stored db k off (fst v) (snd v))"
  using assms
proof (induction rule: read_packed.raw_induct [rotated, consumes 1, case_names step])
  case (step rp db st k off depth r)
  note IH = step(1) and run = step(2) and good = step(3)
  show ?case
  proof (cases "max_delta_chain < depth \<or> (\<exists>e. read_header (pack_no db k) off = Inl e)")
    case True
    with run good show ?thesis by (auto split: if_splits)
  next
    case False
    then obtain h where h: "read_header (pack_no db k) off = Inr h" and d: "\<not> max_delta_chain < depth"
      by (cases "read_header (pack_no db k) off") auto
    note run' = run [unfolded h if_not_P [OF d] sum.case]
    show ?thesis
    proof (cases "delta_base (pack_no db k) h")
      case NoBase
      with run' good h show ?thesis by (auto simp: stored_iff split: sum.splits)
    next
      case (BaseAt b)
      define st1 where "st1 = st\<lparr>ds_cache := snd (cache_get (ds_cache st) (k, b))\<rparr>"
      have g1: "good_state db st1" unfolding st1_def by (rule good_get [OF good])
      have bad1: "ds_bad st1 = ds_bad st" by (simp add: st1_def)
      have base: "stored db k off (fst v) (snd v)"
        if "on_base db k h w = Inr v" "\<And>u. w = Inr u \<Longrightarrow> stored db k b (fst u) (snd u)" for v w
        using that(2) BaseAt h by (rule_tac on_base_okE [OF that(1)]) (auto simp: stored_iff [of db k off])
      show ?thesis
      proof (cases "fst (cache_get (ds_cache st) (k, b))")
        case (Some u)
        have "r = (on_base db k h (Inr u), st1)"
          using run' BaseAt Some by (simp add: st1_def Let_def)
        with g1 bad1 base [of "Inr u"] good_get_hit [OF good Some] show ?thesis by simp
      next
        case None
        then obtain r1 where r1: "rp db st1 k b (Suc depth) = Some r1"
          and r: "r = (on_base db k h (fst r1), cache_base (k, b) r1)"
          using run' BaseAt by (auto simp: st1_def Let_def bind_eq_Some_conv)
        note i = IH [OF r1 g1]
        from i have "good_state db (cache_base (k, b) r1)" by (intro good_put) auto
        with i r bad1 base [of "fst r1"] show ?thesis by auto
      qed
    next
      case (BaseElsewhere x)
      have far: "stored db k off (fst v) (snd v)"
        if "db_find db x = Some (InPack j i)" "on_base db k h w = Inr v"
          "\<And>u. w = Inr u \<Longrightarrow> stored db j (offset_at (pack_no db j) i) (fst u) (snd u)" for v w i j
        using that(1,3) BaseElsewhere h by (rule_tac on_base_okE [OF that(2)]) (auto simp: stored_iff [of db k off])
      have near: "stored db k off (fst v) (snd v)"
        if "db_find db x = Some (InLoose f)" "on_base db k h (loose_result_of db f x) = Inr v" for v f
        using that(1) BaseElsewhere h by (rule_tac on_base_okE [OF that(2)]) (auto simp: stored_iff [of db k off])
      show ?thesis
      proof (cases "db_find db x")
        case None
        with run' BaseElsewhere good show ?thesis by auto
      next
        case (Some l)
        show ?thesis
        proof (cases l)
          case (InLoose f)
          with Some run' BaseElsewhere good near show ?thesis by auto
        next
          case (InPack j i)
          with Some run' BaseElsewhere obtain r1 where
            r1: "rp db st j (offset_at (pack_no db j) i) 0 = Some r1"
            and r: "r = (on_base db k h (fst (named_result x r1)), snd (named_result x r1))"
            by (auto simp: bind_eq_Some_conv)
          note ih = IH [OF r1 good]
          have "stored db j (offset_at (pack_no db j) i) (fst u) (snd u)"
            if "fst (named_result x r1) = Inr u" for u using that ih by (simp add: named_result_ok)
          with far [OF _ _ this] Some InPack ih r named_result_bad [of r1 x] show ?thesis
            by (auto simp: named_result_good)
        qed
      qed
    qed
  qed
qed

text \<open>How deep a read has to go: at most \<open>n\<close> levels in this pack, and at most the limit in every other.\<close>

inductive within :: "database \<Rightarrow> nat \<Rightarrow> nat \<Rightarrow> int \<Rightarrow> bool" for db where
  within_whole: "read_header (pack_no db k) off = Inr h \<Longrightarrow> delta_base (pack_no db k) h = NoBase \<Longrightarrow> within db n k off"
| within_near: "read_header (pack_no db k) off = Inr h \<Longrightarrow> delta_base (pack_no db k) h = BaseAt b \<Longrightarrow>
    within db n k b \<Longrightarrow> within db (Suc n) k off"
| within_far: "read_header (pack_no db k) off = Inr h \<Longrightarrow> delta_base (pack_no db k) h = BaseElsewhere x \<Longrightarrow>
    db_find db x = Some (InPack j i) \<Longrightarrow> within db max_delta_chain j (offset_at (pack_no db j) i) \<Longrightarrow>
    within db n k off"
| within_loose: "read_header (pack_no db k) off = Inr h \<Longrightarrow> delta_base (pack_no db k) h = BaseElsewhere x \<Longrightarrow>
    db_find db x = Some (InLoose f) \<Longrightarrow> within db n k off"

declare read_packed.simps [simp del]

lemma read_packed_returns:
  assumes "within db n k off" and "stored db k off t b" and "n + depth \<le> max_delta_chain" and "good_state db st"
  shows "\<exists>st'. read_packed db st k off depth = Some (Inr (t, b), st')"
  using assms
proof (induction arbitrary: t b depth st rule: within.induct)
  case (within_whole k off h n)
  have "inflate_entry db k h = Inr b" "t = oh_type h"
    using within_whole by (simp_all add: stored_iff [of db k off])
  with within_whole show ?case by (subst read_packed.simps) simp
next
  case (within_near k off h o' n)
  obtain base where base: "stored db k o' t base" "on_base db k h (Inr (t, base)) = Inr (t, b)"
    using within_near by (auto simp: stored_iff [of db k off])
  show ?case
  proof (cases "fst (cache_get (ds_cache st) (k, o'))")
    case None
    from within_near.IH [OF base(1) _ good_get [OF within_near.prems(3)], of "Suc depth"] within_near.prems(2)
    obtain st' where "read_packed db (st\<lparr>ds_cache := snd (cache_get (ds_cache st) (k, o'))\<rparr>) k o' (Suc depth) =
      Some (Inr (t, base), st')" by auto
    with within_near.hyps within_near.prems(2) base(2) None show ?thesis
      by (subst read_packed.simps) (simp add: Let_def)
  next
    case (Some v)
    from good_get_hit [OF within_near.prems(3) Some] base(1) have "v = (t, base)"
      using stored_unique by (metis prod.collapse)
    with within_near.hyps within_near.prems(2) base(2) Some show ?thesis
      by (subst read_packed.simps) (simp add: Let_def)
  qed
next
  case (within_far k off h x j i n)
  obtain base where base: "stored db j (offset_at (pack_no db j) i) t base" "on_base db k h (Inr (t, base)) = Inr (t, b)"
    using within_far by (auto simp: stored_iff [of db k off])
  from within_far.IH [OF base(1) _ within_far.prems(3), of 0]
  obtain st' where "read_packed db st j (offset_at (pack_no db j) i) 0 = Some (Inr (t, base), st')" by auto
  with within_far.hyps within_far.prems(2) base(2) show ?case
    by (subst read_packed.simps) (simp add: named_result_def)
next
  case (within_loose k off h x f n)
  obtain base where "loose_result_of db f x = Inr (t, base)" "on_base db k h (Inr (t, base)) = Inr (t, b)"
    using within_loose by (auto simp: stored_iff [of db k off])
  with within_loose show ?case by (subst read_packed.simps) simp
qed

text \<open>Entries that lead to one another by name never come to an end.\<close>

lemma named_cycle_diverges:
  assumes "read_packed db st k off depth = Some r" and "(k, off) \<in> C" and "depth \<le> max_delta_chain"
    and "\<And>k off. (k, off) \<in> C \<Longrightarrow> \<exists>h x j i. read_header (pack_no db k) off = Inr h \<and>
      delta_base (pack_no db k) h = BaseElsewhere x \<and> db_find db x = Some (InPack j i) \<and>
      (j, offset_at (pack_no db j) i) \<in> C"
  shows False
  using assms
proof (induction rule: read_packed.raw_induct [rotated, consumes 1, case_names step])
  case (step rp db st k off depth r)
  obtain h x j i where h: "read_header (pack_no db k) off = Inr h" "delta_base (pack_no db k) h = BaseElsewhere x"
    "db_find db x = Some (InPack j i)" "(j, offset_at (pack_no db j) i) \<in> C"
    using step.prems(1,3) by blast
  with step(2) step.prems(2) obtain r1 where "rp db st j (offset_at (pack_no db j) i) 0 = Some r1"
    by (auto simp: bind_eq_Some_conv)
  from step(1) [OF this h(4) _ step.prems(3)] show ?case by simp
qed

definition object_is :: "database \<Rightarrow> oid \<Rightarrow> obj_type \<Rightarrow> bytes \<Rightarrow> bool" where
  "object_is db x t b \<longleftrightarrow>
     (case db_find db x of
        None \<Rightarrow> False
      | Some (InLoose f) \<Rightarrow> loose_result_of db f x = Inr (t, b)
      | Some (InPack j i) \<Rightarrow> stored db j (offset_at (pack_no db j) i) t b)"

text \<open>
  C9: whatever is cached, a read returns the object. Starting from a cache that holds only stored
  objects (an empty one, or what earlier reads left), a read that returns leaves such a cache, never
  takes an object off the bad list, and puts a packed object it could not decode on it; and the type
  and bytes it returns are those the entries of the pack define.
\<close>

theorem read_object_sound:
  assumes "good_state db st" and "read_object db st x = Some (r, st')"
  shows "good_state db st' \<and> ds_bad st \<subseteq> ds_bad st' \<and> (r = Inl (CorruptPacked x) \<longrightarrow> x \<in> ds_bad st') \<and>
    (case r of Inl e \<Rightarrow> True | Inr v \<Rightarrow> object_is db x (fst v) (snd v))"
proof (cases "db_find db x")
  case None
  with assms show ?thesis by (auto simp: read_object_def)
next
  case (Some l)
  show ?thesis
  proof (cases l)
    case (InLoose f)
    with assms Some show ?thesis
      by (auto simp: read_object_def object_is_def loose_result_of_def Let_def split: sum.split list.splits if_splits)
  next
    case (InPack j i)
    with assms(2) Some obtain r1 where r1: "read_packed db st j (offset_at (pack_no db j) i) 0 = Some r1"
      and r: "(r, st') = named_result x r1" by (auto simp: read_object_def)
    have rs: "r = fst (named_result x r1)" "st' = snd (named_result x r1)" using r by (metis fst_conv snd_conv)+
    note g = read_packed_good [OF r1 assms(1)]
    have "x \<in> ds_bad st'" if "r = Inl (CorruptPacked x)"
      using that rs by (auto simp: named_result_def mark_bad_packed_def split: sum.splits)
    with g Some InPack named_result_bad [of r1 x] rs named_result_ok [of x r1] show ?thesis
      by (auto simp: named_result_good object_is_def split: sum.split)
  qed
qed

text \<open>
  C10: every object a chain of stored entries defines can be read, whatever the cache holds: where the
  delta chain stays within \<open>maxDeltaChain\<close> levels in each pack it passes through, \<open>Read\<close> returns its
  type and bytes.
\<close>

theorem read_object_returns:
  assumes "good_state db st" and "object_is db x t b"
    and "case db_find db x of Some (InPack j i) \<Rightarrow> within db max_delta_chain j (offset_at (pack_no db j) i) | _ \<Rightarrow> True"
  shows "\<exists>st'. read_object db st x = Some (Inr (t, b), st')"
proof (cases "db_find db x")
  case (Some l)
  show ?thesis
  proof (cases l)
    case (InPack j i)
    with Some assms read_packed_returns [of db max_delta_chain j "offset_at (pack_no db j) i" t b 0 st]
    obtain st' where "read_packed db st j (offset_at (pack_no db j) i) 0 = Some (Inr (t, b), st')"
      by (auto simp: object_is_def)
    with Some InPack show ?thesis by (simp add: read_object_def named_result_def)
  qed (use Some assms in \<open>simp add: read_object_def object_is_def\<close>)
qed (use assms in \<open>simp add: object_is_def\<close>)

lemma type_loop_stored: "type_loop (pack_no db k) n off = Some t \<Longrightarrow> stored db k off t' b \<Longrightarrow> t' = t"
proof (induction n arbitrary: off b)
  case (Suc n)
  then show ?case
    by (subst (asm) (2) stored_iff) (auto split: sum.splits base_ref.splits)
qed simp

text \<open>
  C22: the type read from headers alone is the type of the object: when \<open>TypeInPack\<close> answers, and the
  object can be read at all, the read reports that type, and the pack named is the one it is read from.
\<close>

theorem type_in_pack_agrees:
  assumes "good_state db st" and "type_in_pack db x = Some (t, k)" and "read_object db st x = Some (Inr (t', b), st')"
  shows "t' = t \<and> (\<exists>i. db_find db x = Some (InPack k i))"
proof -
  from assms(2) obtain i where i: "db_find db x = Some (InPack k i)"
    and t: "type_loop (pack_no db k) (Suc max_delta_chain) (offset_at (pack_no db k) i) = Some t"
    by (auto simp: type_in_pack_def split: option.splits location.splits)
  from assms(3) i obtain r1 where r1: "read_packed db st k (offset_at (pack_no db k) i) 0 = Some r1"
    and "named_result x r1 = (Inr (t', b), st')" by (auto simp: read_object_def)
  then have "fst r1 = Inr (t', b)" using named_result_ok [of x r1 "(t', b)"] by simp
  with read_packed_good [OF r1 assms(1)] have "stored db k (offset_at (pack_no db k) i) t' b" by simp
  with type_loop_stored [OF t] i show ?thesis by blast
qed

section \<open>Two packs that name each other\<close>

lemma ref_find:
  assumes "wf_algo a" and "ok_entries a es" and "length tr = 2 * raw_size a" and "sorted_wrt (<) (map ie_name es)"
    and "length b = raw_size a"
  shows "find (ref_pack a es tr data) (from_raw a b) = Some m \<longleftrightarrow> m < length es \<and> ie_name (es ! m) = b"
proof -
  have le: "raw_size a \<le> 32" using wf_algo_sizes [OF assms(1)] by auto
  then have x: "oid_h (from_raw a b) = pad_raw b" "length (pad_raw b) = 32"
    using assms(5) by (simp_all add: from_raw_def pad_raw_def max_raw_size_def)
  have num: "pk_num (ref_pack a es tr data) = length es" by (simp add: ref_sel)
  have "pad_raw c = pad_raw b \<longleftrightarrow> c = b" if "length c = raw_size a" for c
    using that assms(5) le by (auto simp: pad_raw_def max_raw_size_def)
  moreover have "length (ie_name (es ! m)) = raw_size a" if "m < length es"
    using ok_entriesD(2) [OF assms(2)] that by simp
  ultimately show ?thesis
    using find_iff [OF parse_ref [OF assms(2,3), of data] ref_sorted [OF assms(1,2,4)], of "from_raw a b" m] x
      ref_name [OF assms(2), of m tr data] num by auto
qed

definition name_of :: "byte \<Rightarrow> bytes" where
  "name_of c = replicate 20 c"

definition one_entry :: "byte \<Rightarrow> idx_entry list" where
  "one_entry c = [\<lparr>ie_name = name_of c, ie_crc = 0, ie_off = 12\<rparr>]"

definition one_pack :: "byte \<Rightarrow> bytes \<Rightarrow> pack" where
  "one_pack c body = ref_pack demo_algo (one_entry c) (replicate 40 0) (replicate 12 0 @ body @ replicate 20 0)"

definition pack_db :: "pack list \<Rightarrow> database" where
  "pack_db ps = \<lparr>db_algo = demo_algo, db_packs = map (Pair True) ps, db_loose = [], db_inflate = (\<lambda>k off sz. Some [65])\<rparr>"

lemma one_ok: "ok_entries demo_algo (one_entry c)" "length (name_of c) = 20" "name_of c = name_of d \<longleftrightarrow> c = d"
  by (simp_all add: ok_entries_def one_entry_def demo_algo_def sha1_algo_def name_of_def)

lemma one_find: "find (one_pack c body) (from_raw demo_algo (name_of d)) = (if c = d then Some 0 else None)"
proof -
  have f: "find (one_pack c body) (from_raw demo_algo (name_of d)) = Some m \<longleftrightarrow> m = 0 \<and> c = d" for m
    using ref_find [OF demo_ok(1) one_ok(1), of "replicate 40 0" c "name_of d" _ m]
    by (auto simp: one_pack_def demo_ok one_ok one_entry_def)
  show ?thesis using f by (cases "find (one_pack c body) (from_raw demo_algo (name_of d))") auto
qed

lemma one_offset: "offset_at (one_pack c body) 0 = 12"
  using ref_offset [OF one_ok(1), of 0 c] by (simp add: one_pack_def one_entry_def)

lemma one_sel: "pk_data (one_pack c body) = replicate 12 0 @ body @ replicate 20 0" "raw_size (pk_algo (one_pack c body)) = 20"
  by (simp_all add: one_pack_def ref_sel demo_ok)

lemma one_kind:
  assumes "t AND 128 = 0" and "t AND 15 = 0"
  shows "read_header (one_pack c (t # body)) 12 = read_kind (one_pack c (t # body)) 12
     \<lparr>oh_type = int (unat (drop_bit 4 t AND 7)), oh_size = 0, oh_data = 0, oh_base_off = 0, oh_base_oid = zero_oid\<rparr> 13"
proof -
  let ?p = "one_pack c (t # body)"
  have b: "byte_at ?p 12 = Some t" by (simp add: byte_at_def one_sel nth_append)
  have s: "size_loop ?p 12 t 13 0 4 = Inr (0, 13)" using assms by (subst size_loop.simps) simp
  have "\<not> trailer_offset ?p \<le> 12" unfolding trailer_offset_def one_sel by simp
  with b s assms show ?thesis by (simp add: read_header_def)
qed

lemma one_header_ref:
  "\<exists>h. read_header (one_pack c (0x70 # name_of d)) 12 = Inr h \<and> oh_type h = TypeRefDelta \<and>
     oh_base_oid h = from_raw demo_algo (name_of d)"
proof -
  let ?p = "one_pack c (0x70 # name_of d)"
  have "from_raw demo_algo (drop 13 (pk_data ?p)) = from_raw demo_algo (name_of d)"
    by (simp add: one_sel from_raw_def demo_ok one_ok)
  moreover have "pk_algo ?p = demo_algo" by (simp add: one_pack_def ref_sel)
  moreover have "trailer_offset ?p = 33" unfolding trailer_offset_def one_sel by (simp add: one_ok)
  moreover have "read_header ?p 12 = read_kind ?p 12
     \<lparr>oh_type = TypeRefDelta, oh_size = 0, oh_data = 0, oh_base_off = 0, oh_base_oid = zero_oid\<rparr> 13"
    using one_kind [of "0x70" c "name_of d"] by simp
  ultimately show ?thesis unfolding read_kind_def by (simp add: demo_ok(4))
qed

definition cyclic_db :: database where
  "cyclic_db = pack_db [one_pack 1 (0x70 # name_of 2), one_pack 2 (0x70 # name_of 1)]"

lemma cyclic_sel: "pack_no cyclic_db 0 = one_pack 1 (0x70 # name_of 2)" "pack_no cyclic_db (Suc 0) = one_pack 2 (0x70 # name_of 1)"
  by (simp_all add: pack_no_def cyclic_db_def pack_db_def)

lemma cyclic_find:
  "db_find cyclic_db (from_raw demo_algo (name_of 1)) = Some (InPack 0 0)"
  "db_find cyclic_db (from_raw demo_algo (name_of 2)) = Some (InPack 1 0)"
  by (simp_all add: db_find_def cyclic_db_def pack_db_def one_find)
    (simp_all add: valid_oid_def from_raw_def demo_ok)

text \<open>
  C35: a repository whose two packs hold reference deltas that name each other's objects makes the
  read run for ever, since the depth starts again at zero whenever the chain leaves a pack: the bound
  of \<open>maxDeltaChain\<close> levels holds inside one pack only.
\<close>

theorem cross_pack_cycle_diverges:
  "read_object cyclic_db st (from_raw demo_algo (name_of 1)) = None"
proof -
  define C where "C = {(0 :: nat, 12 :: int), (Suc 0, 12)}"
  have turn: "\<exists>h x j i. read_header (pack_no cyclic_db k) 12 = Inr h \<and>
      delta_base (pack_no cyclic_db k) h = BaseElsewhere x \<and> db_find cyclic_db x = Some (InPack j i) \<and>
      (j, offset_at (pack_no cyclic_db j) i) \<in> C"
    if "pack_no cyclic_db k = one_pack c (0x70 # name_of d)" "c \<noteq> d"
      "db_find cyclic_db (from_raw demo_algo (name_of d)) = Some (InPack j 0)"
      "(j, offset_at (pack_no cyclic_db j) 0) \<in> C" for k c d j
  proof -
    obtain h where h: "read_header (one_pack c (0x70 # name_of d)) 12 = Inr h" "oh_type h = TypeRefDelta"
      "oh_base_oid h = from_raw demo_algo (name_of d)" using one_header_ref by blast
    have "delta_base (one_pack c (0x70 # name_of d)) h = BaseElsewhere (from_raw demo_algo (name_of d))"
      using h that(2) by (simp add: delta_base_def one_find)
    with h(1) that show ?thesis by metis
  qed
  have off: "offset_at (pack_no cyclic_db 0) 0 = 12" "offset_at (pack_no cyclic_db (Suc 0)) 0 = 12"
    by (simp_all only: cyclic_sel one_offset)
  have C: "\<exists>h x j i. read_header (pack_no cyclic_db k) off = Inr h \<and>
      delta_base (pack_no cyclic_db k) h = BaseElsewhere x \<and> db_find cyclic_db x = Some (InPack j i) \<and>
      (j, offset_at (pack_no cyclic_db j) i) \<in> C" if "(k, off) \<in> C" for k off
  proof -
    from that consider "k = 0" "off = 12" | "k = Suc 0" "off = 12" unfolding C_def by blast
    then show ?thesis
    proof cases
      case 1
      then show ?thesis using turn [of 0 1 2 "Suc 0"] cyclic_sel(1) cyclic_find(2) off by (simp add: C_def)
    next
      case 2
      then show ?thesis using turn [of "Suc 0" 2 1 0] cyclic_sel(2) cyclic_find(1) off by (simp add: C_def)
    qed
  qed
  have "read_packed cyclic_db st 0 12 0 = None"
  proof (rule ccontr)
    assume "read_packed cyclic_db st 0 12 0 \<noteq> None"
    then obtain r where "read_packed cyclic_db st 0 12 0 = Some r" by blast
    from named_cycle_diverges [OF this, of C] C show False by (simp add: C_def)
  qed
  then show ?thesis by (simp add: read_object_def cyclic_find off)
qed

section \<open>A small database\<close>

definition small_db :: database where
  "small_db = pack_db [one_pack 1 [0x30]]"

definition fresh_state :: db_state where
  "fresh_state = \<lparr>ds_cache = new_delta_cache, ds_bad = {}\<rparr>"

lemma start_good: "good_state db fresh_state"
  using new_cache_inv
  by (intro good_stateI) (simp_all add: fresh_state_def cached_def new_delta_cache_def empty_shard_def)

lemma small_find: "db_find small_db (from_raw demo_algo (name_of 1)) = Some (InPack 0 0)"
  by (simp add: db_find_def small_db_def pack_db_def one_find)
    (simp add: valid_oid_def from_raw_def demo_ok)

lemma small_pack: "pack_no small_db 0 = one_pack 1 [0x30]" "offset_at (pack_no small_db 0) 0 = 12"
  by (simp_all add: pack_no_def small_db_def pack_db_def one_offset)

definition small_header :: obj_header where
  "small_header = \<lparr>oh_type = TypeBlob, oh_size = 0, oh_data = 13, oh_base_off = 0, oh_base_oid = zero_oid\<rparr>"

lemma small_entry: "read_header (pack_no small_db 0) 12 = Inr small_header" "delta_base p small_header = NoBase"
  "inflate_entry small_db k small_header = Inr [65]"
  unfolding small_pack
  by (simp_all add: one_kind read_kind_def delta_base_def inflate_entry_def small_db_def pack_db_def small_header_def)

lemma small_read: "read_object small_db st (from_raw demo_algo (name_of 1)) = Some (Inr (TypeBlob, [65]), st)"
proof -
  have "read_packed small_db st 0 12 0 = Some (Inr (TypeBlob, [65]), st)"
    by (subst read_packed.simps) (simp add: small_entry small_header_def [symmetric] max_delta_chain_def,
        simp add: small_header_def)
  then show ?thesis by (simp add: read_object_def small_find small_pack(2) named_result_def)
qed

theorem read_object_sound_witness:
  "object_is small_db (from_raw demo_algo (name_of 1)) TypeBlob [65]"
  using read_object_sound [OF start_good small_read] by simp

lemma small_is: "object_is small_db (from_raw demo_algo (name_of 1)) TypeBlob [65]"
  using small_entry by (simp add: object_is_def small_find small_pack(2) stored_iff small_header_def)

theorem read_object_returns_witness:
  "\<exists>st'. read_object small_db fresh_state (from_raw demo_algo (name_of 1)) = Some (Inr (TypeBlob, [65]), st')"
  by (rule read_object_returns [OF start_good small_is])
    (simp add: small_find small_pack(2) within_whole [OF small_entry(1,2)])

theorem type_in_pack_agrees_witness:
  "type_in_pack small_db (from_raw demo_algo (name_of 1)) = Some (TypeBlob, 0)"
proof -
  have "\<exists>t. type_in_pack small_db (from_raw demo_algo (name_of 1)) = Some (t, 0)"
    by (simp add: type_in_pack_def small_find small_pack(2) small_entry)
  then obtain t where t: "type_in_pack small_db (from_raw demo_algo (name_of 1)) = Some (t, 0)" by blast
  with type_in_pack_agrees [OF start_good t small_read] show ?thesis by simp
qed

end
