(* ===== verification/IndexFile.thy ===== *)
theory IndexFile
  imports Loose DotGit "HOL-Library.Product_Lexorder"
begin

text \<open>
  The index file: \<open>internal/gitrepo/index.go\<close> and \<open>internal/gitrepo/indexwrite.go\<close>. A file is its
  bytes, a position an offset into them. A slice expression out of range stops a Go program; where the
  checks of the code leave one reachable, the model has the error \<open>IxPanic\<close>.
\<close>

section \<open>Numbers and fields\<close>

text \<open>\<open>unicode.IsSpace\<close> and \<open>bytes.Fields\<close>.\<close>

definition is_space_rune :: "rune \<Rightarrow> bool" where
  "is_space_rune r \<longleftrightarrow> r \<in> {9, 10, 11, 12, 13, 32, 0x85, 0xA0, 0x1680, 0x2028, 0x2029, 0x202F, 0x205F, 0x3000} \<or>
     0x2000 \<le> r \<and> r \<le> 0x200A"

text \<open>The runes of a string with the bytes each came from.\<close>

fun chunks_of :: "(rune \<times> nat) list \<Rightarrow> bytes \<Rightarrow> (rune \<times> bytes) list" where
  "chunks_of [] s = []"
| "chunks_of ((r, n) # rs) s = (r, take n s) # chunks_of rs (drop n s)"

definition rune_chunks :: "bytes \<Rightarrow> (rune \<times> bytes) list" where
  "rune_chunks s = chunks_of (runes s) s"

definition space_chunk :: "rune \<times> bytes \<Rightarrow> bool" where
  "space_chunk c \<longleftrightarrow> is_space_rune (fst c)"

definition byte_fields :: "bytes \<Rightarrow> bytes list" where
  "byte_fields s = map (concat \<circ> map snd) (filter (\<lambda>cs. cs \<noteq> []) (split_by space_chunk (rune_chunks s)))"

text \<open>\<open>strings.TrimSpace\<close>.\<close>

definition trim_space :: "bytes \<Rightarrow> bytes" where
  "trim_space s = concat (map snd (rev (dropWhile space_chunk (rev (dropWhile space_chunk (rune_chunks s))))))"

definition num_val :: "nat \<Rightarrow> bytes \<Rightarrow> nat" where
  "num_val base s = foldl (\<lambda>v c. v * base + unat (c - 48)) 0 s"

definition all_digits :: "nat \<Rightarrow> bytes \<Rightarrow> bool" where
  "all_digits base s \<longleftrightarrow> s \<noteq> [] \<and> list_all (\<lambda>c. unat (c - 48) < base) s"

text \<open>\<open>strconv.Atoi\<close> and \<open>strconv.ParseUint\<close>; \<open>None\<close> is any error.\<close>

definition atoi :: "bytes \<Rightarrow> int option" where
  "atoi s =
     (let neg = (take 1 s = str ''-''); ds = (if neg \<or> take 1 s = str ''+'' then drop 1 s else s) in
      if \<not> all_digits 10 ds then None
      else if neg then (if num_val 10 ds \<le> 2 ^ 63 then Some (- int (num_val 10 ds)) else None)
      else if num_val 10 ds < 2 ^ 63 then Some (int (num_val 10 ds)) else None)"

definition parse_uint :: "nat \<Rightarrow> nat \<Rightarrow> bytes \<Rightarrow> nat option" where
  "parse_uint base bits s =
     (if all_digits base s \<and> num_val base s < 2 ^ bits then Some (num_val base s) else None)"

section \<open>Entries\<close>

record index_entry =
  ix_mode :: "32 word"
  ix_oid :: oid
  ix_name :: bytes
  ix_stage :: nat
  ix_stat :: bytes

datatype index_error =
    IxOpenFailed
  | IxTooSmall
  | IxBadSignature nat
  | IxBadVersion nat
  | IxBadChecksum
  | IxCorrupt
  | IxUnordered
  | IxMultipleStages bytes
  | IxUnorderedStages bytes
  | IxUnknownExtension bytes
  | IxPanic

text \<open>\<open>readVarint\<close>: \<open>x\<close> is the byte at \<open>i\<close>, \<open>xs\<close> what follows it, \<open>n\<close> the count with it.\<close>

fun offset_loop :: "byte \<Rightarrow> bytes \<Rightarrow> 64 word \<Rightarrow> nat \<Rightarrow> 64 word \<times> nat" where
  "offset_loop x [] v n = (if x AND 0x80 = 0 then (v, n) else (0, 0))"
| "offset_loop x (y # ys) v n =
     (if x AND 0x80 = 0 then (v, n)
      else offset_loop y ys (push_bit 7 (v + 1) OR ucast (y AND 0x7F)) (Suc n))"

definition read_varint :: "bytes \<Rightarrow> 64 word \<times> nat" where
  "read_varint b = (case b of [] \<Rightarrow> (0, 0) | x # xs \<Rightarrow> offset_loop x xs (ucast (x AND 0x7F)) 1)"

definition fixed_len :: "algo \<Rightarrow> nat" where
  "fixed_len a = 40 + raw_size a + 2"

text \<open>The mask \<open>& ^7\<close> after adding eight.\<close>

definition entry_room :: "nat \<Rightarrow> nat" where
  "entry_room n = (n + 8) div 8 * 8"

text \<open>The name of an entry before version four; \<open>n\<close> is the length its flags give.\<close>

definition plain_name :: "bytes \<Rightarrow> nat \<Rightarrow> nat \<Rightarrow> index_error + bytes" where
  "plain_name data off n =
     (if n < 0xFFF then (if length data < off + n then Inl IxCorrupt else Inr (take n (drop off data)))
      else if length data < off then Inl IxPanic
      else (case index_byte (drop off data) 0 of
          None \<Rightarrow> Inl IxCorrupt
        | Some k \<Rightarrow> Inr (take k (drop off data))))"

text \<open>The name of a version four entry and the position behind it.\<close>

definition packed_name :: "bytes \<Rightarrow> nat \<Rightarrow> bytes \<Rightarrow> index_error + (bytes \<times> nat)" where
  "packed_name data off prev =
     (if length data < off then Inl IxPanic
      else (case read_varint (drop off data) of (strip, n) \<Rightarrow>
        if n = 0 \<or> int (length prev) < sint strip then Inl IxCorrupt
        else (case index_byte (drop (off + n) data) 0 of
            None \<Rightarrow> Inl IxCorrupt
          | Some k \<Rightarrow>
              if sint strip < 0 then Inl IxPanic
              else Inr (take (length prev - nat (sint strip)) prev @ take k (drop (off + n) data), off + n + k + 1))))"

definition entry_flags :: "algo \<Rightarrow> bytes \<Rightarrow> nat \<Rightarrow> 16 word" where
  "entry_flags a data pos = word_of_nat (be16 (drop (pos + 40 + raw_size a) data))"

text \<open>An entry without its name.\<close>

definition entry_base :: "algo \<Rightarrow> bytes \<Rightarrow> nat \<Rightarrow> index_entry" where
  "entry_base a data pos =
     \<lparr>ix_mode = word_of_nat (be32 (drop (pos + 24) data)), ix_oid = from_raw a (drop (pos + 40) data),
      ix_name = [], ix_stage = unat (drop_bit 12 (entry_flags a data pos) AND 3), ix_stat = take 40 (drop pos data)\<rparr>"

definition read_index_entry :: "algo \<Rightarrow> bytes \<Rightarrow> nat \<Rightarrow> nat \<Rightarrow> bytes \<Rightarrow> index_error + (index_entry \<times> nat)" where
  "read_index_entry a data pos ver prev =
     (if length data < pos + fixed_len a then Inl IxCorrupt
      else
        let flags = entry_flags a data pos; e = entry_base a data pos;
            extended = flags AND 0x4000 \<noteq> 0; extra = (if extended then 2 else 0);
            off = pos + fixed_len a + extra
        in if extended \<and> ver < 3 then Inl IxCorrupt
           else if ver < 4 then
             (case plain_name data off (unat (flags AND 0x0FFF)) of
                Inl err \<Rightarrow> Inl err
              | Inr name \<Rightarrow> Inr (e\<lparr>ix_name := name\<rparr>, pos + entry_room (fixed_len a + length name + extra)))
           else
             (case packed_name data off prev of
                Inl err \<Rightarrow> Inl err
              | Inr (name, next) \<Rightarrow> Inr (e\<lparr>ix_name := name\<rparr>, next)))"

fun read_index_entries ::
    "algo \<Rightarrow> bytes \<Rightarrow> nat \<Rightarrow> nat \<Rightarrow> nat \<Rightarrow> bytes \<Rightarrow> index_error + (index_entry list \<times> nat)" where
  "read_index_entries a data ver 0 pos prev = Inr ([], pos)"
| "read_index_entries a data ver (Suc n) pos prev =
     (case read_index_entry a data pos ver prev of
        Inl err \<Rightarrow> Inl err
      | Inr (e, next) \<Rightarrow>
          (case read_index_entries a data ver n next (ix_name e) of
             Inl err \<Rightarrow> Inl err
           | Inr (es, end_pos) \<Rightarrow> Inr (e # es, end_pos)))"

text \<open>\<open>checkEntryOrder\<close>; \<open>None\<close> is no error.\<close>

fun check_entry_order :: "index_entry list \<Rightarrow> index_error option" where
  "check_entry_order (p # n # es) =
     (if ix_name n < ix_name p then Some IxUnordered
      else if ix_name p = ix_name n \<and> ix_stage p = 0 then Some (IxMultipleStages (ix_name p))
      else if ix_name p = ix_name n \<and> ix_stage n < ix_stage p then Some (IxUnorderedStages (ix_name p))
      else check_entry_order (n # es))"
| "check_entry_order es = None"

section \<open>Extensions\<close>

datatype cache_tree = CacheTree (ct_name: bytes) (ct_count: int) (ct_oid: oid) (ct_children: "cache_tree list")

text \<open>A node without its children: its name, count, name of the tree object and number of subtrees.\<close>

definition cache_node :: "algo \<Rightarrow> bytes \<Rightarrow> (bytes \<times> int \<times> oid \<times> int) option \<times> bytes" where
  "cache_node a b =
     (case index_byte b 0 of
        None \<Rightarrow> (None, b)
      | Some nul \<Rightarrow>
          (let b1 = drop (Suc nul) b in
           case index_byte b1 (ascii CHR ''\<newline>'') of
             None \<Rightarrow> (None, b1)
           | Some nl \<Rightarrow>
               (let b2 = drop (Suc nl) b1; fs = byte_fields (take nl b1) in
                if length fs < 2 then (None, b2)
                else (case (atoi (fs ! 0), atoi (fs ! 1)) of
                    (Some count, Some subs) \<Rightarrow>
                      (if count < 0 then (Some (take nul b, count, zero_oid, subs), b2)
                       else if length b2 < raw_size a then (None, b2)
                       else (Some (take nul b, count, from_raw a b2, subs), drop (raw_size a) b2))
                  | _ \<Rightarrow> (None, b2)))))"

text \<open>Up to \<open>n\<close> siblings, stopping at one that will not parse; \<open>fuel\<close> is more than the bytes left.\<close>

fun cache_nodes :: "algo \<Rightarrow> nat \<Rightarrow> nat \<Rightarrow> bytes \<Rightarrow> cache_tree list \<times> bytes" where
  "cache_nodes a 0 n b = ([], b)"
| "cache_nodes a (Suc fuel) 0 b = ([], b)"
| "cache_nodes a (Suc fuel) (Suc n) b =
     (case cache_node a b of
        (None, b1) \<Rightarrow> ([], b1)
      | (Some (name, count, x, subs), b1) \<Rightarrow>
          (case cache_nodes a fuel (nat subs) b1 of (subtrees, b2) \<Rightarrow>
             (case cache_nodes a fuel n b2 of (rest, b3) \<Rightarrow> (CacheTree name count x subtrees # rest, b3))))"

definition parse_cache_tree :: "algo \<Rightarrow> bytes \<Rightarrow> cache_tree option" where
  "parse_cache_tree a b = (case fst (cache_nodes a (Suc (length b)) 1 b) of [] \<Rightarrow> None | t # _ \<Rightarrow> Some t)"

record resolve_undo =
  ru_path :: bytes
  ru_mode :: "nat list"
  ru_oid :: "oid list"

fun undo_modes :: "nat \<Rightarrow> bytes \<Rightarrow> (nat list \<times> bytes) option" where
  "undo_modes 0 b = Some ([], b)"
| "undo_modes (Suc n) b =
     (case index_byte b 0 of
        None \<Rightarrow> None
      | Some k \<Rightarrow>
          map_option (\<lambda>(ms, r). ((case parse_uint 8 32 (take k b) of None \<Rightarrow> 0 | Some m \<Rightarrow> m) # ms, r))
            (undo_modes n (drop (Suc k) b)))"

fun undo_oids :: "algo \<Rightarrow> nat list \<Rightarrow> bytes \<Rightarrow> (oid list \<times> bytes) option" where
  "undo_oids a [] b = Some ([], b)"
| "undo_oids a (m # ms) b =
     (if m = 0 then map_option (\<lambda>(xs, r). (zero_oid # xs, r)) (undo_oids a ms b)
      else if length b < raw_size a then None
      else map_option (\<lambda>(xs, r). (from_raw a b # xs, r)) (undo_oids a ms (drop (raw_size a) b)))"

definition undo_record :: "algo \<Rightarrow> bytes \<Rightarrow> (resolve_undo \<times> bytes) option" where
  "undo_record a b =
     (case index_byte b 0 of
        None \<Rightarrow> None
      | Some nul \<Rightarrow>
          (case undo_modes 3 (drop (Suc nul) b) of
             None \<Rightarrow> None
           | Some (ms, b1) \<Rightarrow>
               (case undo_oids a ms b1 of
                  None \<Rightarrow> None
                | Some (xs, b2) \<Rightarrow> Some (\<lparr>ru_path = take nul b, ru_mode = ms, ru_oid = xs\<rparr>, b2))))"

lemma cache_node_shrinks: "cache_node a b = (Some v, b1) \<Longrightarrow> length b1 < length b"
  by (auto simp: cache_node_def Let_def dest!: index_byte_lt split: option.splits if_splits)

lemma undo_modes_shrinks: "undo_modes n b = Some (ms, r) \<Longrightarrow> length r \<le> length b"
  by (induction n arbitrary: b ms r) (fastforce split: option.splits)+

lemma undo_oids_shrinks: "undo_oids a ms b = Some (xs, r) \<Longrightarrow> length r \<le> length b"
  by (induction ms arbitrary: b xs r) (fastforce split: if_splits)+

lemma undo_record_shrinks: "undo_record a b = Some (u, r) \<Longrightarrow> length r < length b"
  by (auto simp: undo_record_def dest!: index_byte_lt undo_modes_shrinks undo_oids_shrinks split: option.splits)

function parse_resolve_undo :: "algo \<Rightarrow> bytes \<Rightarrow> resolve_undo list" where
  "parse_resolve_undo a b =
     (if b = [] then []
      else (case undo_record a b of None \<Rightarrow> [] | Some (u, r) \<Rightarrow> u # parse_resolve_undo a r))"
  by pat_completeness auto
termination
  by (relation "measure (length \<circ> snd)") (auto dest: undo_record_shrinks)

declare parse_resolve_undo.simps [simp del]

section \<open>The whole file\<close>

record index_file =
  xf_version :: nat
  xf_entries :: "index_entry list"
  xf_cache_tree :: "cache_tree option"
  xf_undo :: "resolve_undo list"
  xf_ignored :: "bytes list"

definition empty_index :: index_file where
  "empty_index = \<lparr>xf_version = 0, xf_entries = [], xf_cache_tree = None, xf_undo = [], xf_ignored = []\<rparr>"

definition known_extensions :: "bytes list" where
  "known_extensions = map str [''TREE'', ''REUC'', ''link'', ''UNTR'', ''FSMN'', ''EOIE'', ''IEOT'', ''sdir'']"

definition take_extension :: "algo \<Rightarrow> bytes \<Rightarrow> bytes \<Rightarrow> index_file \<Rightarrow> index_error + index_file" where
  "take_extension a sig body idx =
     (if sig = str ''TREE'' then Inr (idx\<lparr>xf_cache_tree := parse_cache_tree a body\<rparr>)
      else if sig = str ''REUC'' then Inr (idx\<lparr>xf_undo := parse_resolve_undo a body\<rparr>)
      else if sig \<in> set known_extensions then Inr idx
      else if ascii CHR ''A'' \<le> hd sig \<and> hd sig \<le> ascii CHR ''Z'' then Inr (idx\<lparr>xf_ignored := xf_ignored idx @ [sig]\<rparr>)
      else Inl (IxUnknownExtension sig))"

text \<open>The loop over the extensions; \<open>limit\<close> is where the trailing checksum starts.\<close>

function read_extensions :: "algo \<Rightarrow> bytes \<Rightarrow> nat \<Rightarrow> nat \<Rightarrow> index_file \<Rightarrow> index_error + index_file" where
  "read_extensions a data limit pos idx =
     (if limit < pos + 8 then Inr idx
      else
        let sig = take 4 (drop pos data); n = be32 (drop (pos + 4) data) in
        if limit < pos + 8 + n then Inl IxCorrupt
        else (case take_extension a sig (take n (drop (pos + 8) data)) idx of
            Inl err \<Rightarrow> Inl err
          | Inr idx' \<Rightarrow> read_extensions a data limit (pos + 8 + n) idx'))"
  by pat_completeness auto
termination
  by (relation "measure (\<lambda>(a, data, limit, pos, idx). limit - pos)") auto

declare read_extensions.simps [simp del]

datatype stored_file = NoFile | OpenFails | FileBytes bytes

definition read_index_bytes :: "algo \<Rightarrow> bytes \<Rightarrow> index_error + index_file" where
  "read_index_bytes a data =
     (let rawsz = raw_size a; limit = length data - rawsz; ver = be32 (drop 4 data) in
      if length data < 12 + rawsz then Inl IxTooSmall
      else if take 4 data \<noteq> str ''DIRC'' then Inl (IxBadSignature (be32 data))
      else if ver < 2 \<or> 4 < ver then Inl (IxBadVersion ver)
      else if \<not> list_all (\<lambda>c. c = 0) (drop limit data) \<and> digest a (take limit data) \<noteq> drop limit data then
        Inl IxBadChecksum
      else (case read_index_entries a data ver (be32 (drop 8 data)) 12 [] of
          Inl err \<Rightarrow> Inl err
        | Inr (es, pos) \<Rightarrow>
            (case check_entry_order es of
               Some err \<Rightarrow> Inl err
             | None \<Rightarrow> read_extensions a data limit pos (empty_index\<lparr>xf_version := ver, xf_entries := es\<rparr>))))"

definition read_index :: "algo \<Rightarrow> stored_file \<Rightarrow> index_error + index_file" where
  "read_index a f =
     (case f of NoFile \<Rightarrow> Inr empty_index | OpenFails \<Rightarrow> Inl IxOpenFailed | FileBytes data \<Rightarrow> read_index_bytes a data)"

section \<open>Salvage\<close>

datatype stop = Whole_file | NoHeader | NotAnIndex | UnknownVersion nat | EndsAfter nat nat | EntryUnreadable nat nat

record salvaged_index =
  sv_entries :: "index_entry list"
  sv_stopped :: stop
  sv_count :: nat

text \<open>
  The loop from entry \<open>i\<close> of \<open>n\<close>, on the bytes before the checksum. \<open>None\<close> is a panic of the reader,
  which is a panic of the salvage.
\<close>

fun salvage_loop ::
    "algo \<Rightarrow> bytes \<Rightarrow> nat \<Rightarrow> nat \<Rightarrow> nat \<Rightarrow> nat \<Rightarrow> bytes \<Rightarrow> (index_entry list \<times> stop) option" where
  "salvage_loop a data ver n 0 pos prev = Some ([], Whole_file)"
| "salvage_loop a data ver n (Suc k) pos prev =
     (if length data \<le> pos then Some ([], EndsAfter (n - Suc k) n)
      else (case read_index_entry a data pos ver prev of
          Inl IxPanic \<Rightarrow> None
        | Inl err \<Rightarrow> Some ([], EntryUnreadable (n - k) n)
        | Inr (e, next) \<Rightarrow>
            (case salvage_loop a data ver n k next (ix_name e) of
               None \<Rightarrow> None
             | Some (es, stop) \<Rightarrow> Some (e # es, stop))))"

definition salvage_index :: "algo \<Rightarrow> bytes \<Rightarrow> salvaged_index option" where
  "salvage_index a data =
     (let ver = be32 (drop 4 data); n = be32 (drop 8 data);
          limit = (if 12 + raw_size a < length data then length data - raw_size a else length data);
          nothing = (\<lambda>s. Some \<lparr>sv_entries = [], sv_stopped = s, sv_count = 0\<rparr>)
      in if length data < 12 then nothing NoHeader
         else if take 4 data \<noteq> str ''DIRC'' then nothing NotAnIndex
         else if ver < 2 \<or> 4 < ver then nothing (UnknownVersion ver)
         else map_option (\<lambda>(es, s). \<lparr>sv_entries = es, sv_stopped = s, sv_count = n\<rparr>)
           (salvage_loop a (take limit data) ver n n 12 []))"

section \<open>Writing\<close>

text \<open>\<open>sort.SliceStable\<close> by name and stage.\<close>

definition entry_key :: "index_entry \<Rightarrow> bytes \<times> nat" where
  "entry_key e = (ix_name e, ix_stage e)"

definition patched_stat :: "index_entry \<Rightarrow> bytes" where
  "patched_stat e = take 24 (ix_stat e) @ enc_be 4 (unat (ix_mode e)) @ drop 28 (ix_stat e)"

definition name_flags :: "index_entry \<Rightarrow> 16 word" where
  "name_flags e = push_bit 12 (word_of_nat (ix_stage e)) OR word_of_nat (min 0xFFF (length (ix_name e)))"

definition pad_entry :: "bytes \<Rightarrow> bytes" where
  "pad_entry b = b @ replicate ((8 - length b mod 8) mod 8) 0"

definition write_entry :: "algo \<Rightarrow> index_entry \<Rightarrow> bytes" where
  "write_entry a e =
     pad_entry (patched_stat e @ take (raw_size a) (pad_raw (oid_raw (ix_oid e))) @
       enc_be 2 (unat (name_flags e)) @ ix_name e @ [0])"

definition index_payload :: "algo \<Rightarrow> index_entry list \<Rightarrow> bytes" where
  "index_payload a es =
     str ''DIRC'' @ enc_be 4 2 @ enc_be 4 (length es mod 2 ^ 32) @ concat (map (write_entry a) es)"

definition index_bytes :: "algo \<Rightarrow> index_entry list \<Rightarrow> bytes" where
  "index_bytes a es = (let b = index_payload a (sort_key entry_key es) in b @ digest a b)"

definition write_index ::
    "algo \<Rightarrow> (write_call \<Rightarrow> bool) \<Rightarrow> 'path \<Rightarrow> 'path \<Rightarrow> index_entry list \<Rightarrow>
     ('path \<Rightarrow> bytes option) \<Rightarrow> bool \<times> ('path \<Rightarrow> bytes option)" where
  "write_index a faults tmp path es fs =
     (case write_beside faults tmp path (index_bytes a es) fs of (ok, states) \<Rightarrow> (ok, final_files fs states))"

lemma write_index_calm:
  "write_index a (\<lambda>c. False) tmp path es fs = (True, fs(tmp := None, path := Some (index_bytes a es)))"
  using write_beside_calm [of tmp path "index_bytes a es" fs] by (auto simp: write_index_def)

end
