(* ===== verification/IndexCodec.thy ===== *)
theory IndexCodec
  imports IndexFile "HOL-Library.Multiset"
begin

text \<open>
  What the writer of the index and its two readers do for each other: a written index reads back, the
  salvage of a cut one keeps the entries that lie whole in what is left, and the order check accepts
  exactly the lists without a conflict.
\<close>


lemma name_flags_bits:
  assumes "ix_stage e < 4"
  shows "unat (drop_bit 12 (name_flags e) AND 3) = ix_stage e" and "name_flags e AND 0x4000 = 0"
    and "unat (name_flags e AND 0x0FFF) = min 0xFFF (length (ix_name e))"
proof -
  define m where "m = min 0xFFF (length (ix_name e))"
  define w :: "16 word" where "w = word_of_nat m"
  have m: "m < 4096" by (simp add: m_def)
  then have unat: "unat w = m" by (simp add: w_def unat_of_nat take_bit_eq_mod)
  have low: "w AND 0xFFF = w"
  proof -
    have "take_bit 12 w = w"
      unfolding word_unat_eq_iff using m unat by (simp add: unsigned_take_bit_eq take_bit_nat_eq_self)
    then show ?thesis by (simp add: take_bit_eq_mask mask_numeral)
  qed
  have high: "drop_bit 12 w = 0"
    unfolding word_unat_eq_iff using m unat by (simp add: unat_drop_bit_eq drop_bit_eq_div unat_div)
  have f: "name_flags e = push_bit 12 (word_of_nat (ix_stage e)) OR w"
    by (simp add: name_flags_def w_def m_def)
  from assms consider "ix_stage e = 0" | "ix_stage e = 1" | "ix_stage e = 2" | "ix_stage e = 3" by linarith
  note cases = this
  have "w AND 0x4000 = 0" by (subst low [symmetric]) (simp add: and.assoc)
  note w14 = this
  show "name_flags e AND 0x4000 = 0" unfolding f using cases by cases (simp_all add: bit.conj_disj_distrib2 w14)
  show "unat (drop_bit 12 (name_flags e) AND 3) = ix_stage e"
    unfolding f drop_bit_or high using cases by cases simp_all
  have "name_flags e AND 0xFFF = w" unfolding f using cases by cases (simp_all add: bit.conj_disj_distrib2 low)
  then show "unat (name_flags e AND 0x0FFF) = min 0xFFF (length (ix_name e))" using unat m_def by simp
qed

lemma be16_append: "2 \<le> length x \<Longrightarrow> be16 (x @ y) = be16 x"
  by (simp add: be16_def)
lemma be32_append: "4 \<le> length x \<Longrightarrow> be32 (x @ y) = be32 x"
  by (simp add: be32_def)
lemma be32_take: "4 \<le> n \<Longrightarrow> be32 (take n x) = be32 x"
  by (simp add: be32_def min.absorb1)
lemma be16_take: "2 \<le> n \<Longrightarrow> be16 (take n x) = be16 x"
  by (simp add: be16_def min.absorb1)

text \<open>What the writer takes and the reader gives back.\<close>

definition wf_entry :: "algo \<Rightarrow> index_entry \<Rightarrow> bool" where
  "wf_entry a e \<longleftrightarrow> length (ix_stat e) = 40 \<and> ix_stage e < 4 \<and> wf_oid a (ix_oid e) \<and>
     (0xFFF \<le> length (ix_name e) \<longrightarrow> 0 \<notin> set (ix_name e))"

definition stored_entry :: "index_entry \<Rightarrow> index_entry" where
  "stored_entry e = e\<lparr>ix_stat := patched_stat e\<rparr>"

definition entry_head :: "algo \<Rightarrow> index_entry \<Rightarrow> bytes" where
  "entry_head a e = patched_stat e @ oid_raw (ix_oid e) @ enc_be 2 (unat (name_flags e))"

definition entry_pad :: "algo \<Rightarrow> index_entry \<Rightarrow> bytes" where
  "entry_pad a e = 0 # replicate (entry_room (fixed_len a + length (ix_name e)) - (fixed_len a + length (ix_name e) + 1)) 0"

lemma wf_oid_raw:
  assumes "wf_algo a" and "wf_oid a x"
  shows "length (oid_raw x) = raw_size a" and "take (raw_size a) (pad_raw (oid_raw x)) = oid_raw x"
    and "from_raw a (oid_raw x @ r) = x"
proof -
  obtain b where b: "length b = raw_size a" "x = \<lparr>oid_h = pad_raw b, oid_n = raw_size a\<rparr>"
    using wf_oidE [OF assms] .
  then have "oid_raw x = b" using wf_algo_sizes [OF assms(1)] take_pad_raw [of b] by (auto simp: oid_raw_def)
  with b show "length (oid_raw x) = raw_size a" "take (raw_size a) (pad_raw (oid_raw x)) = oid_raw x"
    "from_raw a (oid_raw x @ r) = x"
    using wf_algo_sizes [OF assms(1)] take_pad_raw [of b] by (auto simp: from_raw_def)
qed

lemma length_patched: "length (ix_stat e) = 40 \<Longrightarrow> length (patched_stat e) = 40"
  by (simp add: patched_stat_def del: enc_be.simps)

lemma entry_room_pad: "n + 1 + (8 - (n + 1) mod 8) mod 8 = entry_room n"
proof -
  obtain q r where n: "n = r + 8 * q" and r: "r < 8"
    using mod_less_divisor [of 8 n] by (metis mod_mult_div_eq zero_less_numeral)
  from r consider "r = 7" | "r < 7" by linarith
  then show ?thesis
  proof cases
    case 2
    then have "(n + 1) mod 8 = r + 1" "(n + 8) div 8 = Suc q" unfolding n by simp_all
    with 2 show ?thesis by (simp add: entry_room_def n)
  qed (simp add: entry_room_def n)
qed

lemma write_entry_eq:
  assumes "wf_algo a" and "wf_entry a e"
  shows "write_entry a e = entry_head a e @ ix_name e @ entry_pad a e"
    and "length (entry_head a e) = fixed_len a"
    and "length (write_entry a e) = entry_room (fixed_len a + length (ix_name e))"
proof -
  have wf: "length (ix_stat e) = 40" "wf_oid a (ix_oid e)" using assms(2) by (simp_all add: wf_entry_def)
  note r = wf_oid_raw [OF assms(1) wf(2)]
  let ?n = "fixed_len a + length (ix_name e)"
  show l: "length (entry_head a e) = fixed_len a"
    using length_patched [OF wf(1)] r(1) by (simp add: entry_head_def fixed_len_def del: enc_be.simps)
  have w: "write_entry a e = pad_entry (entry_head a e @ ix_name e @ [0])"
    by (simp add: write_entry_def entry_head_def r(2))
  have len: "length (entry_head a e @ ix_name e @ [0]) = ?n + 1" using l by simp
  show "write_entry a e = entry_head a e @ ix_name e @ entry_pad a e"
    unfolding w pad_entry_def len entry_pad_def entry_room_pad [symmetric] by simp
  show "length (write_entry a e) = entry_room ?n"
    unfolding w pad_entry_def length_append len length_replicate using entry_room_pad [of ?n] l by simp
qed

lemma index_byte_cut:
  assumes "0 \<notin> set n"
  shows "index_byte (take k (n @ (0 :: byte) # r)) 0 = (if length n < k then Some (length n) else None)"
proof (cases "length n < k")
  case True
  then obtain j where "k = length n + Suc j" by (metis add_Suc_right less_imp_Suc_add)
  with assms show ?thesis by simp
next
  case False
  then have "take k (n @ 0 # r) = take k n" by simp
  moreover have "0 \<notin> set (take k n)" using assms by (meson in_set_takeD)
  ultimately show ?thesis using False by simp
qed

lemma head_fields:
  assumes "wf_algo a" and "wf_entry a e"
  shows "take 40 (entry_head a e @ r) = patched_stat e" and "be32 (drop 24 (entry_head a e @ r)) = unat (ix_mode e)"
    and "from_raw a (drop 40 (entry_head a e @ r)) = ix_oid e"
    and "be16 (drop (40 + raw_size a) (entry_head a e @ r)) = unat (name_flags e)"
proof -
  have wf: "length (ix_stat e) = 40" "wf_oid a (ix_oid e)" using assms(2) by (simp_all add: wf_entry_def)
  note o = wf_oid_raw [OF assms(1) wf(2)] and l = length_patched [OF wf(1)]
  show "take 40 (entry_head a e @ r) = patched_stat e" using l by (simp add: entry_head_def)
  have "drop 24 (entry_head a e @ r) = enc_be 4 (unat (ix_mode e)) @ drop 28 (ix_stat e) @ oid_raw (ix_oid e) @
      enc_be 2 (unat (name_flags e)) @ r"
    using wf(1) by (simp add: entry_head_def patched_stat_def del: enc_be.simps)
  moreover have "unat (ix_mode e) < 2 ^ 32" using unsigned_less [of "ix_mode e"] by simp
  ultimately show "be32 (drop 24 (entry_head a e @ r)) = unat (ix_mode e)" by (simp add: be32_enc_be del: enc_be.simps)
  show "from_raw a (drop 40 (entry_head a e @ r)) = ix_oid e"
    using l o(3) by (simp add: entry_head_def del: enc_be.simps)
  have "drop (40 + raw_size a) (entry_head a e @ r) = enc_be 2 (unat (name_flags e)) @ r"
    using l o(1) by (simp add: entry_head_def del: enc_be.simps)
  moreover have "unat (name_flags e) < 65536" using unsigned_less [of "name_flags e"] by simp
  ultimately show "be16 (drop (40 + raw_size a) (entry_head a e @ r)) = unat (name_flags e)"
    by (simp add: be16_enc_be del: enc_be.simps)
qed

definition entry_need :: "algo \<Rightarrow> index_entry \<Rightarrow> nat" where
  "entry_need a e = fixed_len a + length (ix_name e) + (if 0xFFF \<le> length (ix_name e) then 1 else 0)"

lemma read_written:
  assumes "wf_algo a" and "wf_entry a e" and "data = take m (pre @ write_entry a e @ post)" and "length data = m"
  shows "read_index_entry a data (length pre) 2 prev =
    (if length pre + entry_need a e \<le> m then Inr (stored_entry e, length pre + length (write_entry a e))
     else Inl IxCorrupt)"
proof (cases "length pre + fixed_len a \<le> m")
  case False
  then have "read_index_entry a data (length pre) 2 prev = Inl IxCorrupt"
    using assms(4) by (simp add: read_index_entry_def)
  with False show ?thesis by (simp add: entry_need_def)
next
  case True
  let ?k = "m - length pre - fixed_len a" and ?n = "length (ix_name e)"
  define R where "R = take ?k (ix_name e @ entry_pad a e @ post)"
  note w = write_entry_eq [OF assms(1,2)]
  have d: "drop (length pre) data = entry_head a e @ R"
    using True w(2) by (simp add: assms(3) w(1) R_def)
  note f = head_fields [OF assms(1,2), of R]
  have dd: "drop (length pre + j) data = drop j (entry_head a e @ R)" for j
    by (simp add: d [symmetric] add.commute)
  have off: "drop (length pre + fixed_len a) data = R" using dd [of "fixed_len a"] w(2) by simp
  have lr: "length R = ?k" using assms(4) off True by (metis length_drop diff_diff_left)
  have st: "ix_stage e < 4" using assms(2) by (simp add: wf_entry_def)
  note b = name_flags_bits [OF st]
  have fl: "(word_of_nat (be16 (drop (length pre + 40 + raw_size a) data)) :: 16 word) = name_flags e"
    using f(4) dd [of "40 + raw_size a"] by (simp add: add.assoc)
  have mode: "(word_of_nat (be32 (drop (length pre + 24) data)) :: 32 word) = ix_mode e"
    using f(2) dd [of 24] by simp
  have name: "plain_name data (length pre + fixed_len a) (min 0xFFF ?n) =
    (if length pre + entry_need a e \<le> m then Inr (ix_name e) else Inl IxCorrupt)"
  proof (cases "?n < 0xFFF")
    case short: True
    have "take ?n R = ix_name e" if "?n \<le> ?k" using that by (simp add: R_def)
    with short show ?thesis using assms(4) True off by (auto simp: plain_name_def entry_need_def)
  next
    case long: False
    then have z: "0 \<notin> set (ix_name e)" using assms(2) by (simp add: wf_entry_def)
    have i: "index_byte R 0 = (if ?n < ?k then Some ?n else None)"
      unfolding R_def entry_pad_def append_Cons by (rule index_byte_cut [OF z])
    have "length pre + entry_need a e \<le> m \<longleftrightarrow> ?n < ?k" using True long by (auto simp: entry_need_def)
    moreover have "take ?n R = ix_name e" if "?n < ?k" using that by (simp add: R_def)
    ultimately show ?thesis using long True assms(4) i off by (simp add: plain_name_def del: take_append)
  qed
  show ?thesis
    using True assms(4) b name w(3) f(3) dd [of 40] f(1) d
    by (simp add: read_index_entry_def Let_def entry_base_def entry_flags_def fl mode stored_entry_def)
qed

lemma entry_need_le: "wf_algo a \<Longrightarrow> wf_entry a e \<Longrightarrow> entry_need a e \<le> length (write_entry a e)"
proof -
  have "x + 1 \<le> (x + 8) div 8 * 8" for x :: nat by presburger
  from this [of "fixed_len a + length (ix_name e)"] show ?thesis if "wf_algo a" "wf_entry a e"
    using that by (simp add: write_entry_eq(3) entry_need_def entry_room_def)
qed

lemma fixed_len_pos: "0 < fixed_len a"
  by (simp add: fixed_len_def)

lemma read_written_all:
  assumes "wf_algo a" and "\<forall>e \<in> set es. wf_entry a e"
  shows "read_index_entries a (pre @ concat (map (write_entry a) es) @ post) 2 (length es) (length pre) prev =
    Inr (map stored_entry es, length pre + length (concat (map (write_entry a) es)))"
  using assms(2)
proof (induction es arbitrary: pre prev)
  case (Cons e es)
  let ?d = "pre @ write_entry a e @ concat (map (write_entry a) es) @ post"
  have wf: "wf_entry a e" using Cons.prems by simp
  have "read_index_entry a ?d (length pre) 2 prev = Inr (stored_entry e, length pre + length (write_entry a e))"
    using read_written [OF assms(1) wf, of ?d "length ?d" pre "concat (map (write_entry a) es) @ post" prev]
      entry_need_le [OF assms(1) wf] by simp
  moreover have "read_index_entries a ((pre @ write_entry a e) @ concat (map (write_entry a) es) @ post) 2 (length es)
      (length (pre @ write_entry a e)) (ix_name (stored_entry e)) =
    Inr (map stored_entry es, length (pre @ write_entry a e) + length (concat (map (write_entry a) es)))"
    by (rule Cons.IH) (use Cons.prems in simp)
  ultimately show ?case by simp
qed simp

text \<open>Where entry \<open>i\<close> of a written list ends, as far as a reader has to look.\<close>

definition entry_stop :: "algo \<Rightarrow> index_entry list \<Rightarrow> nat \<Rightarrow> nat" where
  "entry_stop a es i = length (concat (map (write_entry a) (take i es))) + entry_need a (es ! i)"

lemma salvage_written:
  assumes "wf_algo a" and "\<forall>e \<in> set es. wf_entry a e"
    and "data = take m (pre @ concat (map (write_entry a) es) @ post)" and "length data = m"
  shows "\<exists>j stop. salvage_loop a data 2 n (length es) (length pre) prev = Some (map stored_entry (take j es), stop) \<and>
    j \<le> length es \<and> (\<forall>i < length es. i < j \<longleftrightarrow> length pre + entry_stop a es i \<le> m) \<and>
    (stop = Whole_file \<longleftrightarrow> j = length es)"
  using assms(2-)
proof (induction es arbitrary: pre prev)
  case (Cons e es)
  have wf: "wf_entry a e" using Cons.prems by simp
  note need = entry_need_le [OF assms(1) wf]
  have ends: "entry_stop a (e # es) 0 = entry_need a e"
    "entry_stop a (e # es) (Suc i) = length (write_entry a e) + entry_stop a es i" for i
    by (simp_all add: entry_stop_def)
  have r: "read_index_entry a data (length pre) 2 prev =
    (if length pre + entry_need a e \<le> m then Inr (stored_entry e, length pre + length (write_entry a e))
     else Inl IxCorrupt)"
    by (rule read_written [OF assms(1) wf, where post = "concat (map (write_entry a) es) @ post"])
      (use Cons.prems in \<open>simp_all del: take_append\<close>)
  show ?case
  proof (cases "length pre + entry_need a e \<le> m")
    case True
    have "\<exists>j stop. salvage_loop a data 2 n (length es) (length (pre @ write_entry a e)) (ix_name (stored_entry e)) =
        Some (map stored_entry (take j es), stop) \<and> j \<le> length es \<and>
      (\<forall>i < length es. i < j \<longleftrightarrow> length (pre @ write_entry a e) + entry_stop a es i \<le> m) \<and>
      (stop = Whole_file \<longleftrightarrow> j = length es)"
      by (rule Cons.IH) (use Cons.prems in \<open>simp_all del: take_append\<close>)
    then obtain j stop where j: "salvage_loop a data 2 n (length es) (length (pre @ write_entry a e)) (ix_name (stored_entry e)) =
        Some (map stored_entry (take j es), stop)" "j \<le> length es"
      "\<forall>i < length es. i < j \<longleftrightarrow> length (pre @ write_entry a e) + entry_stop a es i \<le> m"
      "stop = Whole_file \<longleftrightarrow> j = length es" by blast
    have pos: "\<not> length data \<le> length pre"
      using True Cons.prems(3) fixed_len_pos [of a] by (auto simp: entry_need_def)
    have "\<forall>i < length (e # es). i < Suc j \<longleftrightarrow> length pre + entry_stop a (e # es) i \<le> m"
    proof (intro allI impI)
      fix i assume "i < length (e # es)"
      then show "i < Suc j \<longleftrightarrow> length pre + entry_stop a (e # es) i \<le> m"
        using True j(3) by (cases i) (simp_all add: ends add.assoc)
    qed
    then show ?thesis using pos r True j by (intro exI [of _ "Suc j"] exI [of _ stop]) simp
  next
    case False
    have none: "\<not> length pre + entry_stop a (e # es) i \<le> m" if "i < length (e # es)" for i
      using that False need by (cases i) (simp_all add: ends)
    show ?thesis
    proof (cases "length data \<le> length pre")
      case True
      with none show ?thesis by (intro exI [of _ 0] exI [of _ "EndsAfter (n - Suc (length es)) n"]) simp
    next
      case no: False
      with none r False show ?thesis
        by (intro exI [of _ 0] exI [of _ "EntryUnreadable (n - length es) n"]) simp
    qed
  qed
qed simp

section \<open>The order of the entries\<close>

text \<open>No path is in the index merged and in conflict, or merged twice.\<close>

definition follows :: "index_entry \<Rightarrow> index_entry \<Rightarrow> bool" where
  "follows p n \<longleftrightarrow> entry_key p \<le> entry_key n \<and> (ix_name p = ix_name n \<longrightarrow> ix_stage p \<noteq> 0)"

lemma follows_trans: "follows x y \<Longrightarrow> follows y z \<Longrightarrow> follows x z"
  unfolding follows_def entry_key_def by auto

lemma check_order_iff: "check_entry_order es = None \<longleftrightarrow> sorted_wrt follows es"
proof -
  have "check_entry_order es = None \<longleftrightarrow> adjacent follows es"
    by (induction es rule: check_entry_order.induct) (auto simp: follows_def entry_key_def)
  also have "\<dots> \<longleftrightarrow> sorted_wrt follows es" by (rule adjacent_sorted_wrt) (rule follows_trans)
  finally show ?thesis .
qed

definition conflict_free :: "index_entry list \<Rightarrow> bool" where
  "conflict_free es \<longleftrightarrow>
     (\<forall>e \<in> set es. ix_stage e = 0 \<longrightarrow> length (filter (\<lambda>x. ix_name x = ix_name e) es) = 1)"

lemma conflict_free_mset:
  assumes "mset es = mset es'"
  shows "conflict_free es = conflict_free es'"
proof -
  have "length (filter P es) = length (filter P es')" for P
    using assms by (metis mset_filter size_mset)
  then show ?thesis using mset_eq_setD [OF assms] by (simp add: conflict_free_def)
qed

lemma sorted_follows_iff:
  "sorted (map entry_key es) \<Longrightarrow> sorted_wrt follows es \<longleftrightarrow> conflict_free es"
proof (induction es)
  case (Cons e es)
  have le: "entry_key e \<le> entry_key x" if "x \<in> set es" for x using that Cons.prems by simp
  have IH: "sorted_wrt follows es \<longleftrightarrow> conflict_free es" using Cons by simp
  show ?case
  proof (cases "\<forall>x \<in> set es. ix_name e = ix_name x \<longrightarrow> ix_stage e \<noteq> 0")
    case True
    have n: "ix_stage e \<noteq> 0 \<and> ix_stage x \<noteq> 0" if "x \<in> set es" "ix_name x = ix_name e" for x
    proof -
      have "ix_stage e \<le> ix_stage x" using le [OF that(1)] that(2) by (simp add: entry_key_def)
      moreover have "ix_stage e \<noteq> 0" using True that by (metis (full_types))
      ultimately show ?thesis by simp
    qed
    have "filter (\<lambda>x. ix_name x = ix_name e) es = []" if "ix_stage e = 0"
      using that n by (auto simp: filter_empty_conv)
    moreover have "filter (\<lambda>y. ix_name y = ix_name x) (e # es) = filter (\<lambda>y. ix_name y = ix_name x) es"
      if "x \<in> set es" "ix_stage x = 0" for x using that n [of x] by (cases "ix_name x = ix_name e") auto
    ultimately have "conflict_free (e # es) \<longleftrightarrow> conflict_free es" by (simp add: conflict_free_def)
    moreover have "\<forall>x \<in> set es. follows e x" using True le by (simp add: follows_def)
    ultimately show ?thesis using IH by simp
  next
    case False
    then obtain x where x: "x \<in> set es" "ix_name e = ix_name x" "ix_stage e = 0" by blast
    then have "filter (\<lambda>y. ix_name y = ix_name e) es \<noteq> []" by (auto simp: filter_empty_conv)
    then have "\<not> conflict_free (e # es)" using x(3) by (auto simp: conflict_free_def)
    moreover have "\<not> follows e x" using x by (simp add: follows_def)
    ultimately show ?thesis using x(1) by auto
  qed
qed (simp add: conflict_free_def)

lemma order_after_sort:
  "check_entry_order (map stored_entry (sort_key entry_key es)) = None \<longleftrightarrow> conflict_free es"
proof -
  let ?s = "sort_key entry_key es"
  have "check_entry_order (map stored_entry ?s) = None \<longleftrightarrow> sorted_wrt follows ?s"
    by (simp add: check_order_iff sorted_wrt_map follows_def [abs_def] entry_key_def stored_entry_def)
  also have "\<dots> \<longleftrightarrow> conflict_free ?s" by (rule sorted_follows_iff) simp
  also have "\<dots> \<longleftrightarrow> conflict_free es" by (rule conflict_free_mset) simp
  finally show ?thesis .
qed

lemma read_back:
  assumes "wf_algo a" and "\<forall>e \<in> set es. wf_entry a e" and "length es < 2 ^ 32"
  shows "if conflict_free es
     then read_index a (FileBytes (index_bytes a es)) =
       Inr (empty_index\<lparr>xf_version := 2, xf_entries := map stored_entry (sort_key entry_key es)\<rparr>)
     else \<exists>err. read_index a (FileBytes (index_bytes a es)) = Inl err"
proof -
  let ?s = "sort_key entry_key es" and ?w = "concat (map (write_entry a) (sort_key entry_key es))"
  define H where "H = str ''DIRC'' @ enc_be 4 2 @ enc_be 4 (length ?s)"
  define D where "D = digest a (H @ ?w)"
  have len: "length H = 12" by (simp add: H_def del: enc_be.simps)
  have ib: "index_bytes a es = H @ ?w @ D"
    using assms(3) by (simp add: index_bytes_def index_payload_def H_def D_def Let_def del: enc_be.simps)
  have ld: "length D = raw_size a" using assms(1) by (simp add: D_def wf_algo_def)
  have h: "take 4 (index_bytes a es) = str ''DIRC''" "be32 (drop 4 (index_bytes a es)) = 2"
    "be32 (drop 8 (index_bytes a es)) = length ?s"
    using assms(3) by (simp_all add: ib H_def be32_enc_be del: enc_be.simps)
  have cut: "take (length (index_bytes a es) - raw_size a) (index_bytes a es) = H @ ?w"
    "drop (length (index_bytes a es) - raw_size a) (index_bytes a es) = D"
    by (simp_all add: ib ld)
  have small: "\<not> length (index_bytes a es) < 12 + raw_size a" by (simp add: ib len ld)
  have es: "read_index_entries a (index_bytes a es) 2 (length ?s) 12 [] =
      Inr (map stored_entry ?s, 12 + length ?w)"
    using read_written_all [OF assms(1), of ?s H D "[]"] assms(2) by (simp add: ib len)
  have ext: "read_extensions a (index_bytes a es) (length (index_bytes a es) - raw_size a) (12 + length ?w) idx = Inr idx"
    for idx by (subst read_extensions.simps) (simp add: ib len ld)
  have "read_index a (FileBytes (index_bytes a es)) =
    (case check_entry_order (map stored_entry ?s) of
       Some err \<Rightarrow> Inl err
     | None \<Rightarrow> Inr (empty_index\<lparr>xf_version := 2, xf_entries := map stored_entry ?s\<rparr>))"
    unfolding read_index_def stored_file.case read_index_bytes_def Let_def h cut length_sort using small D_def
    by (simp add: es [unfolded length_sort] ext cong: option.case_cong)
  with order_after_sort [of es] show ?thesis by (auto split: option.split)
qed

text \<open>
  C19: an index written from any entries reads back as those entries, in git's order, each with its
  mode in its stat block; and the reader refuses what was written exactly when a path in it is both
  merged and something else, which the writer does not look for.
\<close>

theorem index_file_roundtrip:
  assumes "wf_algo a" and "\<forall>e \<in> set es. wf_entry a e" and "length es < 2 ^ 32"
  shows "if conflict_free es
     then read_index a (FileBytes (index_bytes a es)) =
       Inr (empty_index\<lparr>xf_version := 2, xf_entries := map stored_entry (sort_key entry_key es)\<rparr>)
     else \<exists>err. read_index a (FileBytes (index_bytes a es)) = Inl err"
  using read_back [OF assms] .

lemma salvage_cut:
  assumes "wf_algo a" and "\<forall>e \<in> set es. wf_entry a e" and "length es < 2 ^ 32"
    and "12 \<le> t" and "t \<le> length (index_bytes a es)"
  shows "let s = sort_key entry_key es; limit = (if 12 + raw_size a < t then t - raw_size a else t) in
    \<exists>j stop. salvage_index a (take t (index_bytes a es)) =
        Some \<lparr>sv_entries = map stored_entry (take j s), sv_stopped = stop, sv_count = length es\<rparr> \<and>
      (\<forall>i < length es. i < j \<longleftrightarrow> 12 + entry_stop a s i \<le> limit) \<and> (stop = Whole_file \<longleftrightarrow> length es \<le> j)"
proof -
  let ?s = "sort_key entry_key es" and ?w = "concat (map (write_entry a) (sort_key entry_key es))"
  define H where "H = str ''DIRC'' @ enc_be 4 2 @ enc_be 4 (length ?s)"
  define D where "D = digest a (H @ ?w)"
  define limit where "limit = (if 12 + raw_size a < t then t - raw_size a else t)"
  have len: "length H = 12" by (simp add: H_def del: enc_be.simps)
  have ib: "index_bytes a es = H @ ?w @ D"
    using assms(3) by (simp add: index_bytes_def index_payload_def H_def D_def Let_def del: enc_be.simps)
  have h: "take 4 (take t (index_bytes a es)) = str ''DIRC''" "be32 (drop 4 (take t (index_bytes a es))) = 2"
    "be32 (drop 8 (take t (index_bytes a es))) = length ?s"
    using assms(3,4) by (simp_all add: ib H_def be32_take be32_enc_be drop_take del: enc_be.simps)
  have lim: "limit \<le> t" by (simp add: limit_def)
  have "\<exists>j stop. salvage_loop a (take limit (take t (index_bytes a es))) 2 (length ?s) (length ?s) 12 [] =
      Some (map stored_entry (take j ?s), stop) \<and> j \<le> length ?s \<and>
    (\<forall>i < length ?s. i < j \<longleftrightarrow> 12 + entry_stop a ?s i \<le> limit) \<and> (stop = Whole_file \<longleftrightarrow> j = length ?s)"
    unfolding len [symmetric]
    by (rule salvage_written [OF assms(1)]) (use assms(2,5) lim in \<open>simp_all add: ib del: take_append\<close>)
  then obtain j stop where j: "salvage_loop a (take limit (take t (index_bytes a es))) 2 (length es) (length es) 12 [] =
      Some (map stored_entry (take j ?s), stop)" "j \<le> length es"
    "\<forall>i < length es. i < j \<longleftrightarrow> 12 + entry_stop a ?s i \<le> limit" "stop = Whole_file \<longleftrightarrow> j = length es"
    by auto
  have lt: "length (take t (index_bytes a es)) = t" using assms(5) by simp
  have "salvage_index a (take t (index_bytes a es)) =
      Some \<lparr>sv_entries = map stored_entry (take j ?s), sv_stopped = stop, sv_count = length es\<rparr>"
    unfolding salvage_index_def Let_def lt h using assms(4) j(1) by (simp add: limit_def)
  with j show ?thesis unfolding Let_def limit_def by (intro exI [of _ j] exI [of _ stop]) auto
qed

lemma entry_stop_le:
  assumes "wf_algo a" and "\<forall>e \<in> set es. wf_entry a e" and "i < length es"
  shows "entry_stop a es i \<le> length (concat (map (write_entry a) es))"
proof -
  have "map (write_entry a) es = map (write_entry a) (take i es) @ write_entry a (es ! i) # map (write_entry a) (drop (Suc i) es)"
    using id_take_nth_drop [OF assms(3)] by (metis list.simps(9) map_append)
  moreover have "entry_need a (es ! i) \<le> length (write_entry a (es ! i))"
    using assms by (intro entry_need_le) simp_all
  ultimately show ?thesis unfolding entry_stop_def by simp
qed

lemma salvage_whole:
  assumes "wf_algo a" and "\<forall>e \<in> set es. wf_entry a e" and "length es < 2 ^ 32"
  shows "salvage_index a (index_bytes a es) =
    Some \<lparr>sv_entries = map stored_entry (sort_key entry_key es), sv_stopped = Whole_file, sv_count = length es\<rparr>"
proof -
  let ?s = "sort_key entry_key es" and ?t = "length (index_bytes a es)"
  have len: "?t = 12 + length (concat (map (write_entry a) ?s)) + raw_size a"
    using assms(1) by (simp add: index_bytes_def index_payload_def Let_def wf_algo_def del: enc_be.simps)
  then have ends: "12 + entry_stop a ?s i \<le> (if 12 + raw_size a < ?t then ?t - raw_size a else ?t)" if "i < length es" for i
    using entry_stop_le [OF assms(1), of ?s i] assms(2) that by simp
  have "12 \<le> ?t" using len by simp
  from salvage_cut [OF assms this order.refl] obtain j stop where
    j: "salvage_index a (index_bytes a es) =
      Some \<lparr>sv_entries = map stored_entry (take j ?s), sv_stopped = stop, sv_count = length es\<rparr>"
    "\<forall>i < length es. i < j" "stop = Whole_file \<longleftrightarrow> length es \<le> j"
    using ends by (auto simp: Let_def)
  have "length es \<le> j" using j(2) by (meson linorder_not_le nat_neq_iff)
  with j show ?thesis by simp
qed

text \<open>
  C20: what the salvage of a cut index returns. Whatever point past the header the file was cut at, it
  returns, in order, exactly the entries whose fixed part and name end before the last \<open>raw_size\<close> bytes
  of what is left, and says so when that is not all of them. Those last bytes are taken for the
  checksum, which a cut file no longer ends with: an entry that reaches into them is not returned, even
  when it lies whole in the file.
\<close>

theorem salvage_keeps_whole_entries:
  assumes "wf_algo a" and "\<forall>e \<in> set es. wf_entry a e" and "length es < 2 ^ 32"
    and "12 \<le> t" and "t \<le> length (index_bytes a es)"
  shows "let s = sort_key entry_key es; limit = (if 12 + raw_size a < t then t - raw_size a else t) in
    \<exists>j stop. salvage_index a (take t (index_bytes a es)) =
        Some \<lparr>sv_entries = map stored_entry (take j s), sv_stopped = stop, sv_count = length es\<rparr> \<and>
      (\<forall>i < length es. i < j \<longleftrightarrow> 12 + entry_stop a s i \<le> limit) \<and> (stop = Whole_file \<longleftrightarrow> length es \<le> j)"
  using salvage_cut [OF assms] .

section \<open>A small index\<close>

definition demo_entry :: "byte \<Rightarrow> nat \<Rightarrow> index_entry" where
  "demo_entry c st = \<lparr>ix_mode = 0x81A4, ix_oid = from_bytes (replicate 20 c), ix_name = [c], ix_stage = st,
     ix_stat = replicate 40 0\<rparr>"

definition demo_sha :: algo where
  "demo_sha = sha1_algo (\<lambda>m. replicate 20 9)"

lemma demo_sha_ok: "wf_algo demo_sha" "raw_size demo_sha = 20"
  unfolding demo_sha_def by (rule wf_sha1, simp) (simp add: sha1_algo_def)

lemma demo_entry_ok: "st < 4 \<Longrightarrow> wf_entry demo_sha (demo_entry c st)"
  using wf_oidI [of "replicate 20 c" demo_sha]
  by (simp add: wf_entry_def demo_entry_def demo_sha_ok from_bytes_def max_raw_size_def)

theorem index_file_roundtrip_witness:
  "\<exists>r. read_index demo_sha (FileBytes (index_bytes demo_sha [demo_entry 98 0, demo_entry 97 0])) = Inr r \<and>
     map ix_name (xf_entries r) = [[97], [98]]"
proof -
  have f: "conflict_free [demo_entry 98 0, demo_entry 97 0]" by (simp add: conflict_free_def demo_entry_def)
  have s: "map ix_name (sort_key entry_key [demo_entry 98 0, demo_entry 97 0]) = [[97], [98]]"
    by (simp add: entry_key_def demo_entry_def)
  from index_file_roundtrip [of demo_sha "[demo_entry 98 0, demo_entry 97 0]"] f demo_sha_ok(1) demo_entry_ok
  have "read_index demo_sha (FileBytes (index_bytes demo_sha [demo_entry 98 0, demo_entry 97 0])) =
    Inr (empty_index\<lparr>xf_version := 2, xf_entries := map stored_entry (sort_key entry_key [demo_entry 98 0, demo_entry 97 0])\<rparr>)"
    by simp
  moreover have "ix_name \<circ> stored_entry = ix_name" by (auto simp: stored_entry_def)
  ultimately show ?thesis using s by (simp del: sort_key_simps list.map)
qed

theorem salvage_keeps_whole_entries_witness:
  "\<exists>j stop. salvage_index demo_sha (take 12 (index_bytes demo_sha [demo_entry 97 0])) =
     Some \<lparr>sv_entries = map stored_entry (take j [demo_entry 97 0]), sv_stopped = stop, sv_count = 1\<rparr> \<and> stop \<noteq> Whole_file"
proof -
  have "12 \<le> length (index_bytes demo_sha [demo_entry 97 0])"
    by (simp add: index_bytes_def index_payload_def Let_def del: enc_be.simps)
  with salvage_keeps_whole_entries [of demo_sha "[demo_entry 97 0]" 12] demo_entry_ok
  obtain j stop where j: "salvage_index demo_sha (take 12 (index_bytes demo_sha [demo_entry 97 0])) =
      Some \<lparr>sv_entries = map stored_entry (take j [demo_entry 97 0]), sv_stopped = stop, sv_count = 1\<rparr>"
    "0 < j \<longleftrightarrow> 12 + entry_stop demo_sha [demo_entry 97 0] 0 \<le> 12" "stop = Whole_file \<longleftrightarrow> 1 \<le> j"
    by (auto simp: demo_sha_ok Let_def)
  moreover have "0 < entry_stop demo_sha [demo_entry 97 0] 0"
    by (simp add: entry_stop_def entry_need_def fixed_len_pos)
  ultimately show ?thesis by (intro exI [of _ j] exI [of _ stop]) auto
qed

text \<open>
  An index of two entries that lost its checksum and nothing else: the second entry lies whole in the
  file and is not returned.
\<close>

lemma demo_lengths:
  "length (write_entry demo_sha (demo_entry c st)) = 64" "entry_need demo_sha (demo_entry c st) = 63"
proof -
  have "length (patched_stat (demo_entry c st)) = 40" by (rule length_patched) (simp add: demo_entry_def)
  moreover have "length (oid_raw (from_bytes (replicate 20 c))) = 20"
    by (simp add: oid_raw_def from_bytes_def max_raw_size_def)
  moreover have "length (take 20 (pad_raw x)) = 20" for x by simp
  ultimately show "length (write_entry demo_sha (demo_entry c st)) = 64"
    by (simp add: write_entry_def pad_entry_def demo_sha_ok demo_entry_def del: enc_be.simps)
  show "entry_need demo_sha (demo_entry c st) = 63"
    by (simp add: entry_need_def fixed_len_def demo_sha_ok demo_entry_def)
qed

theorem salvage_drops_legible_entry:
  "let es = [demo_entry 97 0, demo_entry 98 0]; cut = take 140 (index_bytes demo_sha es) in
   cut = index_payload demo_sha es \<and>
   (\<exists>stop. salvage_index demo_sha cut =
      Some \<lparr>sv_entries = [stored_entry (demo_entry 97 0)], sv_stopped = stop, sv_count = 2\<rparr>)"
proof -
  let ?es = "[demo_entry 97 0, demo_entry 98 0]"
  have s: "sort_key entry_key ?es = ?es" by (simp add: entry_key_def demo_entry_def)
  have len: "length (index_payload demo_sha ?es) = 140"
    by (simp add: index_payload_def demo_lengths del: enc_be.simps)
  have ib: "index_bytes demo_sha ?es = index_payload demo_sha ?es @ digest demo_sha (index_payload demo_sha ?es)"
    unfolding index_bytes_def s Let_def ..
  then have cut: "take 140 (index_bytes demo_sha ?es) = index_payload demo_sha ?es" using len by simp
  have pre: "wf_algo demo_sha" "\<forall>e \<in> set ?es. wf_entry demo_sha e" "length ?es < 2 ^ 32" "(12 :: nat) \<le> 140"
    "140 \<le> length (index_bytes demo_sha ?es)"
    using demo_entry_ok len by (simp_all add: demo_sha_ok ib)
  have lim: "(if 12 + raw_size demo_sha < 140 then 140 - raw_size demo_sha else 140) = 120" by (simp add: demo_sha_ok)
  obtain j stop where j: "salvage_index demo_sha (take 140 (index_bytes demo_sha ?es)) =
      Some \<lparr>sv_entries = map stored_entry (take j ?es), sv_stopped = stop, sv_count = length ?es\<rparr>"
    "\<forall>i < length ?es. i < j \<longleftrightarrow> 12 + entry_stop demo_sha ?es i \<le> 120"
    using salvage_cut [OF pre, unfolded s Let_def lim] by blast
  have "entry_stop demo_sha ?es 0 = 63" "entry_stop demo_sha ?es 1 = 127"
    by (simp_all add: entry_stop_def demo_lengths)
  then have "0 < j" "\<not> 1 < j" using j(2) [rule_format, of 0] j(2) [rule_format, of 1] by simp_all
  then have "j = 1" by simp
  with j(1) show ?thesis unfolding Let_def using cut by (simp add: numeral_2_eq_2)
qed

end
