(* ===== verification/IndexRepair.thy ===== *)
theory IndexRepair
  imports IndexCodec ObjectDb TreeObj
begin

text \<open>
  Repairing an index that will not parse: \<open>internal/repair/index.go\<close>. Reading HEAD's tree goes through
  the object database, whose state is passed along; \<open>None\<close> is a read that never returns or a panic of
  the index reader. What HEAD names is the parameter \<open>head\<close>, and the quarantine is the parameter
  \<open>take_away\<close>, a call that may fail and changes files.
\<close>

record repaired_index =
  ri_salvaged :: nat
  ri_from_head :: nat
  ri_claimed :: nat

definition staged_work_lost :: "repaired_index \<Rightarrow> nat" where
  "staged_work_lost r = ri_claimed r - ri_salvaged r"

text \<open>The entry made for a path of a tree, whose stat block is the zero value.\<close>

definition tree_path_entry :: "bytes \<Rightarrow> tree_entry \<Rightarrow> index_entry" where
  "tree_path_entry prefix e =
     \<lparr>ix_mode = te_mode e, ix_oid = te_oid e, ix_name = prefix @ te_name e, ix_stage = 0, ix_stat = replicate 40 0\<rparr>"

text \<open>The loop over the entries of one tree; \<open>sub\<close> walks the tree of a directory.\<close>

fun walk_each ::
    "(db_state \<Rightarrow> oid \<Rightarrow> bytes \<Rightarrow> (index_entry list \<times> db_state) option) \<Rightarrow> db_state \<Rightarrow> bytes \<Rightarrow> tree_entry list \<Rightarrow>
     (index_entry list \<times> db_state) option" where
  "walk_each sub st prefix [] = Some ([], st)"
| "walk_each sub st prefix (e # es) =
     (case (if is_gitlink e then Some ([tree_path_entry prefix e], st)
            else if is_dir e then sub st (te_oid e) (prefix @ te_name e @ str ''/'')
            else Some ([tree_path_entry prefix e], st)) of
        None \<Rightarrow> None
      | Some (xs, st1) \<Rightarrow>
          (case walk_each sub st1 prefix es of None \<Rightarrow> None | Some (ys, st2) \<Rightarrow> Some (xs @ ys, st2)))"

text \<open>\<open>walkTreeEntries\<close>; the number counts the levels still allowed.\<close>

primrec walk_tree_entries ::
    "database \<Rightarrow> nat \<Rightarrow> db_state \<Rightarrow> oid \<Rightarrow> bytes \<Rightarrow> (index_entry list \<times> db_state) option" where
  "walk_tree_entries db 0 = (\<lambda>st tree prefix. Some ([], st))"
| "walk_tree_entries db (Suc n) = (\<lambda>st tree prefix.
     (case read_object db st tree of
        None \<Rightarrow> None
      | Some (Inl e, st1) \<Rightarrow> Some ([], st1)
      | Some (Inr (t, data), st1) \<Rightarrow>
          if t \<noteq> TypeTree then Some ([], st1)
          else walk_each (walk_tree_entries db n) st1 prefix (fst (parse_tree data (db_algo db)))))"

definition max_tree_levels :: nat where
  "max_tree_levels = 101"

text \<open>The first line that starts with \<open>tree\<close> decides, wherever it is.\<close>

fun tree_line :: "algo \<Rightarrow> bytes list \<Rightarrow> oid option" where
  "tree_line a [] = None"
| "tree_line a (l # ls) =
     (case cut_prefix l (str ''tree '') of Some hex \<Rightarrow> parse_oid a (trim_space hex) | None \<Rightarrow> tree_line a ls)"

definition head_entries :: "database \<Rightarrow> db_state \<Rightarrow> oid option \<Rightarrow> (index_entry list \<times> db_state) option" where
  "head_entries db st head =
     (case head of
        None \<Rightarrow> Some ([], st)
      | Some x \<Rightarrow>
          (case read_object db st x of
             None \<Rightarrow> None
           | Some (Inl e, st1) \<Rightarrow> Some ([], st1)
           | Some (Inr (t, data), st1) \<Rightarrow>
               if t \<noteq> TypeCommit then Some ([], st1)
               else (case tree_line (db_algo db) (split_on (ascii CHR ''\<newline>'') data) of
                   None \<Rightarrow> Some ([], st1)
                 | Some tree \<Rightarrow>
                     if valid_oid tree then walk_tree_entries db max_tree_levels st1 tree [] else Some ([], st1))))"

text \<open>The paths of HEAD that are not there yet; \<open>have\<close> is the set of names seen.\<close>

fun new_paths :: "bytes set \<Rightarrow> index_entry list \<Rightarrow> index_entry list" where
  "new_paths have [] = []"
| "new_paths have (e # es) =
     (if ix_name e \<in> have then new_paths have es else e # new_paths (insert (ix_name e) have) es)"

definition rebuilt_entries :: "index_entry list \<Rightarrow> index_entry list \<Rightarrow> index_entry list" where
  "rebuilt_entries kept head = kept @ new_paths (ix_name ` set kept) head"

definition repair_index ::
    "database \<Rightarrow> db_state \<Rightarrow> oid option \<Rightarrow> (('path \<Rightarrow> bytes option) \<Rightarrow> bool \<times> ('path \<Rightarrow> bytes option)) \<Rightarrow>
     (write_call \<Rightarrow> bool) \<Rightarrow> 'path \<Rightarrow> 'path \<Rightarrow> ('path \<Rightarrow> bytes option) \<Rightarrow>
     ((bool \<times> repaired_index) \<times> ('path \<Rightarrow> bytes option) \<times> db_state) option" where
  "repair_index db st head take_away faults tmp path fs =
     (case fs path of
        None \<Rightarrow> Some ((False, \<lparr>ri_salvaged = 0, ri_from_head = 0, ri_claimed = 0\<rparr>), fs, st)
      | Some data \<Rightarrow>
          (case salvage_index (db_algo db) data of
             None \<Rightarrow> None
           | Some sv \<Rightarrow>
               (case head_entries db st head of
                  None \<Rightarrow> None
                | Some (hs, st1) \<Rightarrow>
                    (let es = rebuilt_entries (sv_entries sv) hs;
                         out = \<lparr>ri_salvaged = length (sv_entries sv),
                                ri_from_head = length es - length (sv_entries sv), ri_claimed = sv_count sv\<rparr>
                     in case take_away fs of
                          (False, fs1) \<Rightarrow> Some ((False, out), fs1, st1)
                        | (True, fs1) \<Rightarrow>
                            (case write_index (db_algo db) faults tmp path es fs1 of
                               (ok, fs2) \<Rightarrow> Some ((ok, out), fs2, st1))))))"

section \<open>What the readers produce is well formed\<close>

lemma length_stat: "pos + fixed_len a \<le> length data \<Longrightarrow> length (take 40 (drop pos data)) = 40"
  by (simp add: fixed_len_def)

lemma stage_lt: "unat (drop_bit 12 (w :: 16 word) AND 3) < 4"
proof -
  have "drop_bit 12 w AND 3 \<le> 3" by (simp add: word_and_le1)
  then show ?thesis by (simp add: word_le_nat_alt)
qed

lemma plain_name_ok:
  assumes "plain_name data off n = Inr name"
  shows "0xFFF \<le> length name \<longrightarrow> 0 \<notin> set name"
proof (cases "n < 0xFFF")
  case True
  with assms show ?thesis by (auto simp: plain_name_def split: if_splits)
next
  case False
  with assms obtain k where "index_byte (drop off data) 0 = Some k" "name = take k (drop off data)"
    by (auto simp: plain_name_def split: if_splits option.splits)
  then show ?thesis using index_byte_SomeD by metis
qed

lemma packed_name_ok:
  assumes "packed_name data off prev = Inr (name, next)" and "0 \<notin> set prev"
  shows "0 \<notin> set name"
proof -
  obtain strip n where v: "read_varint (drop off data) = (strip, n)" by (cases "read_varint (drop off data)")
  obtain k where k: "index_byte (drop (off + n) data) 0 = Some k"
    using assms(1) by (auto simp: packed_name_def v split: if_splits option.splits)
  have "name = take (length prev - nat (sint strip)) prev @ take k (drop (off + n) data)"
    using assms(1) unfolding packed_name_def v prod.case k option.case by (metis Inl_Inr_False Inr_inject prod.inject)
  moreover have "0 \<notin> set (take k (drop (off + n) data))" using index_byte_SomeD [OF k] by blast
  moreover have "0 \<notin> set (take (length prev - nat (sint strip)) prev)" using assms(2) by (meson in_set_takeD)
  ultimately show ?thesis by simp
qed

lemma read_entry_wf:
  assumes "read_index_entry a data pos ver prev = Inr (e, next)" and "4 \<le> ver \<Longrightarrow> 0 \<notin> set prev"
  shows "wf_entry a e" and "4 \<le> ver \<Longrightarrow> 0 \<notin> set (ix_name e)"
proof -
  have len: "pos + fixed_len a \<le> length data" using assms(1) by (auto simp: read_index_entry_def split: if_splits)
  have x: "wf_oid a (from_raw a (drop (pos + 40) data))"
    by (rule wf_from_raw) (use len in \<open>simp add: fixed_len_def\<close>)
  obtain name where e: "e = (entry_base a data pos)\<lparr>ix_name := name\<rparr>"
    and plain: "ver < 4 \<Longrightarrow> \<exists>off n. plain_name data off n = Inr name"
    and packed: "\<not> ver < 4 \<Longrightarrow> \<exists>off nx. packed_name data off prev = Inr (name, nx)"
    using assms(1) by (auto simp: read_index_entry_def Let_def split: if_splits sum.splits)
  have zero: "0 \<notin> set name" if "\<not> ver < 4"
    using packed [OF that] packed_name_ok assms(2) that by (metis not_less)
  have "0xFFF \<le> length name \<longrightarrow> 0 \<notin> set name"
    using zero plain plain_name_ok by (cases "ver < 4") metis+
  moreover have "ix_stat e = take 40 (drop pos data)" "ix_name e = name" "ix_oid e = from_raw a (drop (pos + 40) data)"
    "ix_stage e = unat (drop_bit 12 (entry_flags a data pos) AND 3)"
    by (simp_all only: e entry_base_def index_entry.simps)
  ultimately show "wf_entry a e"
    using x stage_lt [of "entry_flags a data pos"] length_stat [OF len] unfolding wf_entry_def by metis
  show "0 \<notin> set (ix_name e)" if "4 \<le> ver" using zero that by (simp add: e)
qed

lemma salvage_loop_wf:
  "salvage_loop a data ver n k pos prev = Some (es, s) \<Longrightarrow> (4 \<le> ver \<Longrightarrow> 0 \<notin> set prev) \<Longrightarrow>
     (\<forall>e \<in> set es. wf_entry a e) \<and> length es \<le> k"
proof (induction k arbitrary: pos prev es s)
  case (Suc k)
  show ?case
  proof (cases "length data \<le> pos \<or> (\<exists>err. read_index_entry a data pos ver prev = Inl err)")
    case True
    with Suc.prems(1) show ?thesis by (auto split: if_splits index_error.splits)
  next
    case False
    then obtain e nx where r: "read_index_entry a data pos ver prev = Inr (e, nx)"
      by (cases "read_index_entry a data pos ver prev") auto
    with False Suc.prems(1) obtain es' where l: "salvage_loop a data ver n k nx (ix_name e) = Some (es', s)" "es = e # es'"
      by (auto split: option.splits)
    note w = read_entry_wf [OF r Suc.prems(2)]
    from Suc.IH [OF l(1)] w l(2) show ?thesis by auto
  qed
qed simp

lemma salvage_index_wf:
  assumes "salvage_index a data = Some sv"
  shows "(\<forall>e \<in> set (sv_entries sv). wf_entry a e) \<and> length (sv_entries sv) < 2 ^ 32"
proof -
  have "be32 (drop 8 data) < 2 ^ 32" by (rule be32_lt)
  then show ?thesis
    using assms salvage_loop_wf [of a _ "be32 (drop 4 data)" _ "be32 (drop 8 data)" 12 "[]"]
    by (fastforce simp: salvage_index_def Let_def split: if_splits)
qed

text \<open>A path taken from a tree: no NUL, no stage, the zero stat block.\<close>

definition head_entry_ok :: "algo \<Rightarrow> index_entry \<Rightarrow> bool" where
  "head_entry_ok a e \<longleftrightarrow> wf_entry a e \<and> ix_stage e = 0"

lemma decode_entry_ok:
  assumes "decode_tree_entry buf a = Some (e, rest)"
  shows "0 \<notin> set (te_name e)" and "wf_oid a (te_oid e)"
proof -
  from assms obtain sp nul where n: "index_byte (drop (sp + 1) buf) 0 = Some nul" "te_name e = take nul (drop (sp + 1) buf)"
    "\<not> length buf < sp + 1 + nul + 1 + raw_size a" "te_oid e = from_raw a (drop (sp + 1 + nul + 1) buf)"
    unfolding decode_tree_entry_def Let_def by (auto split: if_splits option.splits)
  show "0 \<notin> set (te_name e)" using index_byte_SomeD [OF n(1)] n(2) by simp
  show "wf_oid a (te_oid e)" unfolding n(4) by (rule wf_from_raw) (use n(3) in simp)
qed

lemma parse_tree_ok: "e \<in> set (fst (parse_tree buf a)) \<Longrightarrow> 0 \<notin> set (te_name e) \<and> wf_oid a (te_oid e)"
proof (induction buf a rule: parse_tree.induct)
  case (1 buf a)
  show ?case
  proof (cases "buf = [] \<or> decode_tree_entry buf a = None")
    case True
    with "1.prems" show ?thesis by (auto simp: parse_tree.simps [of buf a] split: if_splits)
  next
    case False
    then obtain t rest where d: "decode_tree_entry buf a = Some (t, rest)" by auto
    with False "1.prems" have "e = t \<or> e \<in> set (fst (parse_tree rest a))"
      by (auto simp: parse_tree.simps [of buf a] split: prod.splits)
    with "1.IH" [OF _ d refl] False decode_entry_ok [OF d] show ?thesis by auto
  qed
qed

lemma tree_path_ok:
  assumes "0 \<notin> set prefix" and "0 \<notin> set (te_name e)" and "wf_oid a (te_oid e)"
  shows "head_entry_ok a (tree_path_entry prefix e)"
  using assms by (simp add: head_entry_ok_def wf_entry_def tree_path_entry_def)

lemma walk_each_ok:
  assumes "\<And>st x pre xs st'. sub st x pre = Some (xs, st') \<Longrightarrow> 0 \<notin> set pre \<Longrightarrow> \<forall>e \<in> set xs. head_entry_ok a e"
    and "0 \<notin> set prefix" and "\<forall>e \<in> set ts. 0 \<notin> set (te_name e) \<and> wf_oid a (te_oid e)"
  shows "walk_each sub st prefix ts = Some (xs, st') \<Longrightarrow> \<forall>e \<in> set xs. head_entry_ok a e"
  using assms(3)
proof (induction ts arbitrary: st xs)
  case (Cons t ts)
  let ?now = "if is_gitlink t then Some ([tree_path_entry prefix t], st)
     else if is_dir t then sub st (te_oid t) (prefix @ te_name t @ str ''/'')
     else Some ([tree_path_entry prefix t], st)"
  from Cons.prems(1) obtain ys st1 zs st2 where now: "?now = Some (ys, st1)"
    and rest: "walk_each sub st1 prefix ts = Some (zs, st2)" and xs: "xs = ys @ zs"
    by (auto simp del: str_def split: option.splits)
  have t: "0 \<notin> set (te_name t)" "wf_oid a (te_oid t)" using Cons.prems(2) by simp_all
  have "0 \<notin> set (prefix @ te_name t @ str ''/'')" using assms(2) t(1) by simp
  then have "\<forall>e \<in> set ys. head_entry_ok a e"
    using now tree_path_ok [OF assms(2) t] assms(1) by (auto simp del: str_def split: if_splits)
  moreover have "st2 = st'" using Cons.prems(1) now rest by simp
  ultimately show ?case using Cons.IH [OF rest [unfolded \<open>st2 = st'\<close>]] Cons.prems(2) xs by auto
qed simp

lemma walk_tree_ok:
  "walk_tree_entries db n st tree prefix = Some (xs, st') \<Longrightarrow> 0 \<notin> set prefix \<Longrightarrow>
     \<forall>e \<in> set xs. head_entry_ok (db_algo db) e"
proof (induction n arbitrary: st tree prefix xs st')
  case (Suc n)
  have "\<forall>e \<in> set xs. head_entry_ok (db_algo db) e"
    if "walk_each (walk_tree_entries db n) st1 prefix (fst (parse_tree data (db_algo db))) = Some (xs, st')" for st1 data
    by (rule walk_each_ok [OF Suc.IH Suc.prems(2) _ that]) (use parse_tree_ok in auto)
  with Suc.prems(1) show ?case by (auto split: option.splits sum.splits if_splits)
qed simp

lemma head_entries_ok:
  assumes "head_entries db st head = Some (hs, st')"
  shows "\<forall>e \<in> set hs. head_entry_ok (db_algo db) e"
  using assms walk_tree_ok [of db max_tree_levels _ _ "[]"]
  by (fastforce simp: head_entries_def split: option.splits sum.splits if_splits)

lemma new_paths_spec:
  "set (new_paths have es) \<subseteq> set es \<and> ix_name ` set (new_paths have es) = ix_name ` set es - have \<and>
     distinct (map ix_name (new_paths have es))"
  by (induction "have" es rule: new_paths.induct) auto

lemma rebuilt_conflict_free:
  "conflict_free (rebuilt_entries kept hs) \<longleftrightarrow> conflict_free kept"
proof -
  let ?n = "new_paths (ix_name ` set kept) hs"
  note s = new_paths_spec [of "ix_name ` set kept" hs]
  have n1: "filter (\<lambda>x. ix_name x = ix_name e) ?n = []" if "e \<in> set kept" for e
    using s that by (fastforce simp: filter_empty_conv)
  have n2: "filter (\<lambda>x. ix_name x = ix_name e) kept = [] \<and> length (filter (\<lambda>x. ix_name x = ix_name e) ?n) = 1"
    if "e \<in> set ?n" for e
  proof
    show "filter (\<lambda>x. ix_name x = ix_name e) kept = []" using s that by (fastforce simp: filter_empty_conv)
    have "distinct (map ix_name xs) \<Longrightarrow> e \<in> set xs \<Longrightarrow> length (filter (\<lambda>x. ix_name x = ix_name e) xs) = 1" for xs
      by (induction xs) (auto simp: filter_empty_conv image_iff)
    with s that show "length (filter (\<lambda>x. ix_name x = ix_name e) ?n) = 1" by blast
  qed
  have "(\<forall>e \<in> set kept. ix_stage e = 0 \<longrightarrow> length (filter (\<lambda>x. ix_name x = ix_name e) (kept @ ?n)) = 1) \<longleftrightarrow>
      conflict_free kept"
    unfolding conflict_free_def by (intro ball_cong refl) (simp add: n1)
  moreover have "\<forall>e \<in> set ?n. ix_stage e = 0 \<longrightarrow> length (filter (\<lambda>x. ix_name x = ix_name e) (kept @ ?n)) = 1"
    using n2 by simp
  ultimately show ?thesis
    unfolding rebuilt_entries_def conflict_free_def [of "kept @ ?n"] set_append ball_Un by iprover
qed

text \<open>
  C21: what an index repair writes. Where the quarantine and the write succeed, the new index holds
  every entry the damaged one still yields and every path of HEAD besides, no HEAD entry in place of a
  salvaged one, and it reads back whole exactly when the salvaged entries are free of conflicts: a
  file whose only fault is two entries for one path is written back with the same fault.
\<close>

theorem index_repair_exact:
  assumes "wf_algo (db_algo db)" and "repair_index db st head take_away faults tmp path fs = Some ((True, out), fs', st')"
    and "fs path = Some data" and "tmp \<noteq> path"
  shows "\<exists>sv hs body es. salvage_index (db_algo db) data = Some sv \<and> head_entries db st head = Some (hs, st') \<and>
    fs' path = Some body \<and> es = rebuilt_entries (sv_entries sv) hs \<and>
    set (sv_entries sv) \<subseteq> set es \<and> ix_name ` set es = ix_name ` set (sv_entries sv) \<union> ix_name ` set hs \<and>
    out = \<lparr>ri_salvaged = length (sv_entries sv), ri_from_head = length es - length (sv_entries sv), ri_claimed = sv_count sv\<rparr> \<and>
    (length es < 2 ^ 32 \<longrightarrow>
       (if conflict_free (sv_entries sv)
        then read_index (db_algo db) (FileBytes body) =
          Inr (empty_index\<lparr>xf_version := 2, xf_entries := map stored_entry (sort_key entry_key es)\<rparr>)
        else \<exists>err. read_index (db_algo db) (FileBytes body) = Inl err))"
proof -
  obtain sv where sv: "salvage_index (db_algo db) data = Some sv"
    using assms(2,3) by (auto simp: repair_index_def split: option.splits)
  obtain hs st1 where hs: "head_entries db st head = Some (hs, st1)"
    using assms(2,3) sv by (auto simp: repair_index_def split: option.splits)
  let ?es = "rebuilt_entries (sv_entries sv) hs"
  obtain ok1 fs1 where t: "take_away fs = (ok1, fs1)" by (cases "take_away fs")
  have ok: "ok1" and w: "write_index (db_algo db) faults tmp path ?es fs1 = (True, fs')" and st: "st1 = st'"
    and out: "out = \<lparr>ri_salvaged = length (sv_entries sv), ri_from_head = length ?es - length (sv_entries sv), ri_claimed = sv_count sv\<rparr>"
    using assms(2,3) sv hs t by (auto simp: repair_index_def Let_def split: bool.splits prod.splits)
  have body: "fs' path = Some (index_bytes (db_algo db) ?es)"
    using w assms(4) by (auto simp: write_index_def write_beside_ok split: prod.splits)
  have wf: "\<forall>e \<in> set ?es. wf_entry (db_algo db) e"
  proof
    fix e assume "e \<in> set ?es"
    then have "e \<in> set (sv_entries sv) \<or> e \<in> set hs"
      using new_paths_spec [of "ix_name ` set (sv_entries sv)" hs] by (auto simp: rebuilt_entries_def)
    then show "wf_entry (db_algo db) e"
      using salvage_index_wf [OF sv] head_entries_ok [OF hs] by (auto simp: head_entry_ok_def)
  qed
  have names: "ix_name ` set ?es = ix_name ` set (sv_entries sv) \<union> ix_name ` set hs"
    using new_paths_spec [of "ix_name ` set (sv_entries sv)" hs] by (auto simp: rebuilt_entries_def image_Un)
  have incl: "set (sv_entries sv) \<subseteq> set ?es" by (simp add: rebuilt_entries_def)
  have again: "length ?es < 2 ^ 32 \<longrightarrow>
     (if conflict_free (sv_entries sv)
      then read_index (db_algo db) (FileBytes (index_bytes (db_algo db) ?es)) =
        Inr (empty_index\<lparr>xf_version := 2, xf_entries := map stored_entry (sort_key entry_key ?es)\<rparr>)
      else \<exists>err. read_index (db_algo db) (FileBytes (index_bytes (db_algo db) ?es)) = Inl err)"
    using read_back [OF assms(1) wf] unfolding rebuilt_conflict_free by blast
  show ?thesis
    by (rule exI [of _ sv], rule exI [of _ hs], rule exI [of _ "index_bytes (db_algo db) ?es"], rule exI [of _ ?es],
        intro conjI) (rule sv hs [unfolded st] body refl incl names out again)+
qed

lemma small_algo: "db_algo small_db = demo_algo"
  by (simp add: small_db_def pack_db_def)

theorem index_repair_exact_witness:
  "\<exists>out fs' st' body err.
     repair_index small_db fresh_state None (\<lambda>fs. (True, fs)) (\<lambda>c. False) (0 :: nat) 1
       (\<lambda>p. Some (index_bytes demo_algo [demo_entry 97 0, demo_entry 97 0])) = Some ((True, out), fs', st') \<and>
     fs' 1 = Some body \<and> read_index demo_algo (FileBytes body) = Inl err"
proof -
  let ?e = "demo_entry 97 0" and ?fs = "\<lambda>p :: nat. Some (index_bytes demo_algo [demo_entry 97 0, demo_entry 97 0])"
  have wf: "\<forall>e \<in> set [?e, ?e]. wf_entry demo_algo e"
    using demo_entry_ok [of 0 97] by (simp add: wf_entry_def wf_oid_def demo_sha_ok demo_ok)
  have k: "sort_key entry_key [?e, ?e] = [?e, ?e]" by simp
  have sv: "salvage_index demo_algo (index_bytes demo_algo [?e, ?e]) =
      Some \<lparr>sv_entries = map stored_entry [?e, ?e], sv_stopped = Whole_file, sv_count = 2\<rparr>"
    using salvage_whole [OF demo_ok(1) wf] unfolding k by simp
  have hs: "head_entries small_db fresh_state None = Some ([], fresh_state)" by (simp add: head_entries_def)
  have "\<exists>out fs' st'. repair_index small_db fresh_state None (\<lambda>fs. (True, fs)) (\<lambda>c. False) 0 1 ?fs =
      Some ((True, out), fs', st')"
    unfolding repair_index_def option.case small_algo sv hs Let_def prod.case by (simp add: write_index_calm)
  then obtain out fs' st' where r: "repair_index small_db fresh_state None (\<lambda>fs. (True, fs)) (\<lambda>c. False) 0 1 ?fs =
      Some ((True, out), fs', st')" by blast
  have bad: "\<not> conflict_free (map stored_entry [?e, ?e])" by (simp add: conflict_free_def stored_entry_def demo_entry_def)
  have len: "length (rebuilt_entries (map stored_entry [?e, ?e]) []) < 2 ^ 32" by (simp add: rebuilt_entries_def)
  from index_repair_exact [OF _ r refl, unfolded small_algo sv hs] demo_ok(1) bad len
  show ?thesis using r by (auto split: if_splits)
qed

end
