(* ===== verification/Quarantine.thy ===== *)
theory Quarantine
  imports Prelude
begin

text \<open>
  The quarantine of a repair run: \<open>internal/repair/quarantine.go\<close>. A path is the list of its
  components and the files are a map from paths to bytes. Which system calls fail is the parameter
  \<open>faults\<close>; \<open>encode\<close> and \<open>decode\<close> stand for \<open>encoding/json\<close>, and \<open>junk\<close> for what a failed write
  leaves of the manifest. The mutex is left out: a call is one step.
\<close>

type_synonym path = "bytes list"
type_synonym files = "path \<Rightarrow> bytes option"

section \<open>Moving a file\<close>

datatype call = StatCall | MakeRunDir | MakeDestDir | RenameCall | CopyCall | ChmodCopy | RemoveCall | ManifestCall

text \<open>\<open>move\<close> with the copy it falls back to, which refuses to write over a file.\<close>

definition move :: "(call \<Rightarrow> bool) \<Rightarrow> path \<Rightarrow> path \<Rightarrow> files \<Rightarrow> bool \<times> files" where
  "move faults src dest fs =
     (case fs src of
        None \<Rightarrow> (False, fs)
      | Some c \<Rightarrow>
          if \<not> faults RenameCall then (True, fs(src := None, dest := Some c))
          else if fs dest \<noteq> None \<or> faults CopyCall then (False, fs)
          else if faults ChmodCopy \<or> faults RemoveCall then (False, fs(dest := Some c))
          else (True, fs(dest := Some c, src := None)))"

section \<open>The record of a run\<close>

record displaced =
  dp_from :: path
  dp_to :: path
  dp_why :: bytes

record manifest =
  mf_run :: bytes
  mf_files :: "displaced list"

record quarantine =
  q_git_dir :: path
  q_run :: bytes
  q_man :: manifest
  q_made :: bool

definition quarantine_root :: path where
  "quarantine_root = [str ''git-fixed'', str ''quarantine'']"

definition manifest_name :: bytes where
  "manifest_name = str ''manifest.json''"

definition replaced_dir :: bytes where
  "replaced_dir = str ''replaced''"

definition new_quarantine :: "path \<Rightarrow> bytes \<Rightarrow> quarantine" where
  "new_quarantine git_dir run =
     \<lparr>q_git_dir = git_dir, q_run = run, q_man = \<lparr>mf_run = run, mf_files = []\<rparr>, q_made = False\<rparr>"

definition run_dir :: "quarantine \<Rightarrow> path" where
  "run_dir q = q_git_dir q @ quarantine_root @ [q_run q]"

definition manifest_path :: "quarantine \<Rightarrow> path" where
  "manifest_path q = run_dir q @ [manifest_name]"

text \<open>\<open>filepath.Rel\<close> on two absolute paths: the rest below the base, or a path that starts with dots.\<close>

definition relative :: "quarantine \<Rightarrow> path \<Rightarrow> path" where
  "relative q p =
     (let n = length (q_git_dir q); rest = drop n p in
      if n \<le> length p \<and> take n p = q_git_dir q \<and> (rest \<noteq> [] \<longrightarrow> \<not> has_prefix (hd rest) (str ''..'')) then rest
      else str ''abs'' # p)"

definition resolve :: "quarantine \<Rightarrow> path \<Rightarrow> path" where
  "resolve q rel =
     (if 1 < length rel \<and> hd rel = str ''abs'' then tl rel else q_git_dir q @ rel)"

definition ensure_dir :: "(call \<Rightarrow> bool) \<Rightarrow> quarantine \<Rightarrow> bool \<times> quarantine" where
  "ensure_dir faults q =
     (if q_made q then (True, q) else if faults MakeRunDir then (False, q) else (True, q\<lparr>q_made := True\<rparr>))"

definition write_manifest ::
    "(manifest \<Rightarrow> bytes) \<Rightarrow> bytes \<Rightarrow> (call \<Rightarrow> bool) \<Rightarrow> quarantine \<Rightarrow> files \<Rightarrow> bool \<times> files" where
  "write_manifest encode junk faults q fs =
     (if faults ManifestCall then (False, fs(manifest_path q := Some junk))
      else (True, fs(manifest_path q := Some (encode (q_man q)))))"

text \<open>\<open>Take\<close>: whether it succeeded, the quarantine after it and the files after it.\<close>

definition take_file ::
    "(manifest \<Rightarrow> bytes) \<Rightarrow> bytes \<Rightarrow> (call \<Rightarrow> bool) \<Rightarrow> path \<Rightarrow> bytes \<Rightarrow> quarantine \<times> files \<Rightarrow> bool \<times> quarantine \<times> files" where
  "take_file encode junk faults p why s =
     (let q = fst s; fs = snd s; rel = relative q p; dest = run_dir q @ rel in
      if faults StatCall then (False, q, fs)
      else if fs p = None then (True, q, fs)
      else (case ensure_dir faults q of
          (False, q1) \<Rightarrow> (False, q1, fs)
        | (True, q1) \<Rightarrow>
            if faults MakeDestDir then (False, q1, fs)
            else (case move faults p dest fs of
                (False, fs1) \<Rightarrow> (False, q1, fs1)
              | (True, fs1) \<Rightarrow>
                  let q2 = q1\<lparr>q_man := (q_man q1)\<lparr>mf_files :=
                    mf_files (q_man q1) @ [\<lparr>dp_from = rel, dp_to = rel, dp_why = why\<rparr>]\<rparr>\<rparr>
                  in (case write_manifest encode junk faults q2 fs1 of (ok, fs2) \<Rightarrow> (ok, q2, fs2)))))"

section \<open>Undo\<close>

datatype undo_outcome = Skipped | PutBack | UndoFailed

text \<open>One turn of the loop of \<open>Undo\<close>. The first oracle is for setting aside, the second for restoring.\<close>

definition undo_one :: "(call \<Rightarrow> bool) \<Rightarrow> (call \<Rightarrow> bool) \<Rightarrow> quarantine \<Rightarrow> displaced \<Rightarrow> files \<Rightarrow> undo_outcome \<times> files" where
  "undo_one faults1 faults2 q d fs =
     (let src = run_dir q @ dp_to d; dest = resolve q (dp_from d); aside = run_dir q @ [replaced_dir] @ dp_to d;
          step = (if fs dest = None then (True, fs)
                  else if faults1 MakeDestDir then (False, fs)
                  else move faults1 dest aside fs)
      in if fs src = None then (Skipped, fs)
         else (case step of
             (False, fs1) \<Rightarrow> (UndoFailed, fs1)
           | (True, fs1) \<Rightarrow>
               if faults2 MakeDestDir then (UndoFailed, fs1)
               else (case move faults2 src dest fs1 of
                   (False, fs2) \<Rightarrow> (UndoFailed, fs2)
                 | (True, fs2) \<Rightarrow> (PutBack, fs2))))"

text \<open>The loop, over the record from its end; the oracle is asked with the number of turns left.\<close>

fun undo_loop ::
    "(nat \<Rightarrow> (call \<Rightarrow> bool) \<times> (call \<Rightarrow> bool)) \<Rightarrow> quarantine \<Rightarrow> displaced list \<Rightarrow> files \<Rightarrow> bool \<times> displaced list \<times> files" where
  "undo_loop oracle q [] fs = (True, [], fs)"
| "undo_loop oracle q (d # ds) fs =
     (case undo_one (fst (oracle (length ds))) (snd (oracle (length ds))) q d fs of
        (UndoFailed, fs1) \<Rightarrow> (False, [], fs1)
      | (Skipped, fs1) \<Rightarrow> undo_loop oracle q ds fs1
      | (PutBack, fs1) \<Rightarrow> (case undo_loop oracle q ds fs1 of (ok, rs, fs2) \<Rightarrow> (ok, d # rs, fs2)))"

definition undo ::
    "(bytes \<Rightarrow> manifest option) \<Rightarrow> (nat \<Rightarrow> (call \<Rightarrow> bool) \<times> (call \<Rightarrow> bool)) \<Rightarrow> path \<Rightarrow> bytes \<Rightarrow> files \<Rightarrow>
     bool \<times> displaced list \<times> files" where
  "undo decode oracle git_dir run fs =
     (let q = new_quarantine git_dir run in
      case fs (manifest_path q) of
        None \<Rightarrow> (False, [], fs)
      | Some data \<Rightarrow>
          (case decode data of
             None \<Rightarrow> (False, [], fs)
           | Some man \<Rightarrow> undo_loop oracle q (rev (mf_files man)) fs))"

section \<open>Nothing is lost\<close>

definition in_run :: "quarantine \<Rightarrow> path \<Rightarrow> bool" where
  "in_run q x \<longleftrightarrow> take (length (run_dir q)) x = run_dir q"

lemma in_run_append [simp]: "in_run q (run_dir q @ r)"
  by (simp add: in_run_def)

lemma move_keeps:
  assumes "fs dest = None" and "fs x = Some c"
  shows "snd (move faults src dest fs) x = Some c \<or> x = src \<and> snd (move faults src dest fs) dest = Some c"
proof (cases "fs src")
  case (Some d)
  have ne: "x \<noteq> dest" using assms by auto
  consider "snd (move faults src dest fs) = fs" | "snd (move faults src dest fs) = fs(src := None, dest := Some d)"
    | "snd (move faults src dest fs) = fs(dest := Some d)" | "snd (move faults src dest fs) = fs(dest := Some d, src := None)"
    unfolding move_def Some option.case if_distrib [where f = snd] snd_conv by argo
  then show ?thesis
  proof cases
    case 1
    then show ?thesis using assms by simp
  next
    case 2
    then show ?thesis using assms ne Some by (cases "x = src") simp_all
  next
    case 3
    then show ?thesis using assms ne by simp
  next
    case 4
    then show ?thesis using assms ne Some by (cases "x = src") auto
  qed
qed (use assms in \<open>simp add: move_def\<close>)

lemma run_dir_made [simp]: "run_dir (q\<lparr>q_made := b\<rparr>) = run_dir q" "run_dir (q\<lparr>q_man := m\<rparr>) = run_dir q"
  by (simp_all add: run_dir_def)

lemma manifest_path_made [simp]:
  "manifest_path (q\<lparr>q_made := b\<rparr>) = manifest_path q" "manifest_path (q\<lparr>q_man := m\<rparr>) = manifest_path q"
  by (simp_all add: manifest_path_def)

lemma ensure_dir_same: "\<exists>b. snd (ensure_dir faults q) = q\<lparr>q_made := b\<rparr>"
proof (cases "\<not> q_made q \<and> \<not> faults MakeRunDir")
  case True
  then have "snd (ensure_dir faults q) = q\<lparr>q_made := True\<rparr>" by (simp add: ensure_dir_def)
  then show ?thesis ..
next
  case False
  then have "snd (ensure_dir faults q) = q\<lparr>q_made := q_made q\<rparr>" by (auto simp: ensure_dir_def)
  then show ?thesis ..
qed

lemma write_manifest_files: "\<exists>j. snd (write_manifest encode junk faults q fs) = fs(manifest_path q := Some j)"
  by (auto simp: write_manifest_def)

lemma take_file_files:
  "let m = snd (move faults p (run_dir q @ relative q p) fs); fs' = snd (snd (take_file encode junk faults p why (q, fs))) in
     fs' = fs \<or> fs' = m \<or> (\<exists>j. fs' = m(manifest_path q := Some j))"
proof -
  obtain ok1 q1 where e: "ensure_dir faults q = (ok1, q1)" by (cases "ensure_dir faults q")
  then obtain b where q1: "q1 = q\<lparr>q_made := b\<rparr>" using ensure_dir_same [of faults q] by auto
  obtain ok2 fs1 where m: "move faults p (run_dir q @ relative q p) fs = (ok2, fs1)"
    by (cases "move faults p (run_dir q @ relative q p) fs")
  obtain ok3 fs2 where w: "write_manifest encode junk faults (q1\<lparr>q_man := (q_man q1)\<lparr>mf_files :=
      mf_files (q_man q1) @ [\<lparr>dp_from = relative q p, dp_to = relative q p, dp_why = why\<rparr>]\<rparr>\<rparr>) fs1 = (ok3, fs2)"
    by (cases "write_manifest encode junk faults (q1\<lparr>q_man := (q_man q1)\<lparr>mf_files :=
      mf_files (q_man q1) @ [\<lparr>dp_from = relative q p, dp_to = relative q p, dp_why = why\<rparr>]\<rparr>\<rparr>) fs1")
  obtain j where j: "fs2 = fs1(manifest_path q := Some j)" using w write_manifest_files q1 by (metis manifest_path_made snd_conv)
  show ?thesis
    unfolding Let_def take_file_def fst_conv snd_conv e m w prod.case
    by (cases ok1; cases ok2) (auto simp: w j)
qed

text \<open>
  C13: no repair can lose data, whatever fails. Taking a file leaves every file of the repository where
  it was with what it held, except the one taken, which is there or in the quarantine; only the
  record of the run changes besides. The place in the quarantine has to be free, and not the record's.
\<close>

theorem take_never_loses:
  assumes "take_file encode junk faults p why (q, fs) = (ok, q', fs')"
    and "fs (run_dir q @ relative q p) = None" and "relative q p \<noteq> [manifest_name]"
    and "fs x = Some c" and "x \<noteq> manifest_path q"
  shows "fs' x = Some c \<or> x = p \<and> fs' (run_dir q @ relative q p) = Some c"
proof -
  let ?m = "snd (move faults p (run_dir q @ relative q p) fs)"
  have "run_dir q @ relative q p \<noteq> manifest_path q" using assms(3) by (simp add: manifest_path_def)
  moreover have "fs' = fs \<or> fs' = ?m \<or> (\<exists>j. fs' = ?m(manifest_path q := Some j))"
    using take_file_files [of faults p q fs encode junk why] assms(1) by (simp add: Let_def)
  ultimately show ?thesis using move_keeps [of fs "run_dir q @ relative q p" x c faults p, OF assms(2,4)] assms(4,5)
    by auto
qed

section \<open>Undo puts everything back\<close>

abbreviation calm :: "call \<Rightarrow> bool" where
  "calm \<equiv> \<lambda>_. False"

text \<open>The paths a run can name without mistaking one for another.\<close>

definition good_path :: "quarantine \<Rightarrow> path \<Rightarrow> bool" where
  "good_path q p \<longleftrightarrow> \<not> in_run q p \<and> resolve q (relative q p) = p \<and> relative q p \<noteq> [manifest_name] \<and>
     hd (relative q p) \<noteq> replaced_dir"

definition record_of :: "quarantine \<Rightarrow> path \<times> bytes \<Rightarrow> displaced" where
  "record_of q pw = \<lparr>dp_from = relative q (fst pw), dp_to = relative q (fst pw), dp_why = snd pw\<rparr>"

definition src_of :: "quarantine \<Rightarrow> path \<Rightarrow> path" where
  "src_of q p = run_dir q @ relative q p"

definition aside_of :: "quarantine \<Rightarrow> path \<Rightarrow> path" where
  "aside_of q p = run_dir q @ [replaced_dir] @ relative q p"

lemma good_pathD:
  assumes "good_path q p" and "good_path q r"
  shows "src_of q p = src_of q r \<longleftrightarrow> p = r" and "aside_of q p = aside_of q r \<longleftrightarrow> p = r"
    and "src_of q p \<noteq> aside_of q r" and "p \<noteq> src_of q r" and "p \<noteq> aside_of q r"
    and "src_of q p \<noteq> manifest_path q"
proof -
  have inj: "relative q p = relative q r \<longleftrightarrow> p = r" using assms unfolding good_path_def by metis
  then show "src_of q p = src_of q r \<longleftrightarrow> p = r" "aside_of q p = aside_of q r \<longleftrightarrow> p = r"
    by (simp_all add: src_of_def aside_of_def)
  show "src_of q p \<noteq> aside_of q r" using assms(1) by (auto simp: src_of_def aside_of_def good_path_def)
  show "p \<noteq> src_of q r" "p \<noteq> aside_of q r" using assms(1) by (auto simp: src_of_def aside_of_def good_path_def)
  show "src_of q p \<noteq> manifest_path q" using assms(1) by (auto simp: src_of_def manifest_path_def good_path_def)
qed

lemma undo_one_calm:
  assumes "good_path q p" and "fs (src_of q p) = Some c"
  shows "undo_one calm calm q (record_of q (p, why)) fs =
    (PutBack, (if fs p = None then fs else fs(p := None, aside_of q p := fs p))(src_of q p := None, p := Some c))"
proof -
  note g = good_pathD [OF assms(1) assms(1)]
  have s: "src_of q p = run_dir q @ relative q p" "aside_of q p = run_dir q @ replaced_dir # relative q p"
    by (simp_all add: src_of_def aside_of_def)
  have r: "resolve q (relative q p) = p" using assms(1) by (simp add: good_path_def)
  show ?thesis using assms(2) g
    by (auto simp: undo_one_def record_of_def move_def r s [symmetric] split: option.split)
qed

lemma undo_loop_calm:
  assumes "\<forall>x \<in> set ps. good_path q (fst x)" and "distinct (map fst ps)"
    and "\<forall>x \<in> set ps. fs (src_of q (fst x)) = Some (orig (fst x))"
  shows "\<exists>fs'. undo_loop (\<lambda>_. (calm, calm)) q (map (record_of q) ps) fs = (True, map (record_of q) ps, fs') \<and>
    (\<forall>x \<in> set ps. fs' (fst x) = Some (orig (fst x)) \<and>
       (\<forall>c. fs (fst x) = Some c \<longrightarrow> fs' (aside_of q (fst x)) = Some c)) \<and>
    (\<forall>y. (\<forall>x \<in> set ps. y \<noteq> fst x \<and> y \<noteq> src_of q (fst x) \<and> y \<noteq> aside_of q (fst x)) \<longrightarrow> fs' y = fs y)"
  using assms
proof (induction ps arbitrary: fs)
  case (Cons x ps)
  obtain p why where x: "x = (p, why)" by (cases x)
  have gp: "good_path q p" and c: "fs (src_of q p) = Some (orig p)" using Cons.prems(1,3) x by simp_all
  define fs1 where "fs1 = (if fs p = None then fs else fs(p := None, aside_of q p := fs p))(src_of q p := None, p := Some (orig p))"
  have one: "undo_one calm calm q (record_of q x) fs = (PutBack, fs1)"
    unfolding x fs1_def by (rule undo_one_calm [of q p fs "orig p" why, OF gp c])
  have ne: "p \<noteq> fst y" if "y \<in> set ps" for y using Cons.prems(2) that x by auto
  note sep = good_pathD
  have fs1: "fs1 y = fs y" if "y \<noteq> p" "y \<noteq> src_of q p" "y \<noteq> aside_of q p" for y
    using that by (simp add: fs1_def)
  have gy: "good_path q (fst y)" if "y \<in> set ps" for y using Cons.prems(1) that by simp
  have "\<forall>y \<in> set ps. fs1 (src_of q (fst y)) = Some (orig (fst y))"
  proof
    fix y assume y: "y \<in> set ps"
    note g1 = good_pathD [OF gy [OF y] gp] and g2 = good_pathD [OF gp gy [OF y]]
    have "fs1 (src_of q (fst y)) = fs (src_of q (fst y))"
      by (rule fs1) (use g1 g2 ne [OF y] in metis)+
    then show "fs1 (src_of q (fst y)) = Some (orig (fst y))" using Cons.prems(3) y by simp
  qed
  then obtain fs' where r: "undo_loop (\<lambda>_. (calm, calm)) q (map (record_of q) ps) fs1 = (True, map (record_of q) ps, fs')"
    "\<forall>y \<in> set ps. fs' (fst y) = Some (orig (fst y)) \<and> (\<forall>c. fs1 (fst y) = Some c \<longrightarrow> fs' (aside_of q (fst y)) = Some c)"
    "\<forall>y. (\<forall>x \<in> set ps. y \<noteq> fst x \<and> y \<noteq> src_of q (fst x) \<and> y \<noteq> aside_of q (fst x)) \<longrightarrow> fs' y = fs1 y"
    using Cons.IH [of fs1] Cons.prems(1,2) by auto
  have p1: "fs' p = Some (orig p)"
  proof -
    have "fs' p = fs1 p" using r(3) ne good_pathD [OF gp gy] by metis
    then show ?thesis by (simp add: fs1_def)
  qed
  have p2: "fs' (aside_of q p) = Some c" if "fs p = Some c" for c
  proof -
    have "fs' (aside_of q p) = fs1 (aside_of q p)" using r(3) ne good_pathD [OF gp gy] good_pathD [OF gy gp] by metis
    moreover have "aside_of q p \<noteq> p" "aside_of q p \<noteq> src_of q p" using good_pathD [OF gp gp] by metis+
    ultimately show ?thesis using that by (simp add: fs1_def)
  qed
  have rest: "fs1 (fst y) = fs (fst y)" if y: "y \<in> set ps" for y
    by (rule fs1) (use good_pathD [OF gy [OF y] gp] ne [OF y] in metis)+
  show ?case
  proof (intro exI [of _ fs'] conjI)
    show "undo_loop (\<lambda>_. (calm, calm)) q (map (record_of q) (x # ps)) fs = (True, map (record_of q) (x # ps), fs')"
      using one r(1) by simp
    show "\<forall>y \<in> set (x # ps). fs' (fst y) = Some (orig (fst y)) \<and>
        (\<forall>c. fs (fst y) = Some c \<longrightarrow> fs' (aside_of q (fst y)) = Some c)"
      using p1 p2 r(2) rest x by auto
    show "\<forall>y. (\<forall>z \<in> set (x # ps). y \<noteq> fst z \<and> y \<noteq> src_of q (fst z) \<and> y \<noteq> aside_of q (fst z)) \<longrightarrow> fs' y = fs y"
      using r(3) fs1 x by simp
  qed
qed simp

text \<open>Paths of the repository are good, and so is any path outside it.\<close>

lemma good_inside:
  assumes "c \<notin> {str ''abs'', replaced_dir, hd quarantine_root}" and "\<not> has_prefix c (str ''..'')"
    and "c # cs \<noteq> [manifest_name]"
  shows "good_path q (q_git_dir q @ c # cs)"
  using assms
  by (simp add: good_path_def relative_def resolve_def in_run_def run_dir_def quarantine_root_def del: str_def)

lemma good_outside:
  assumes "take (length (q_git_dir q)) p \<noteq> q_git_dir q" and "p \<noteq> []"
  shows "good_path q p"
proof -
  have r: "relative q p = str ''abs'' # p" using assms(1) unfolding relative_def Let_def by (simp del: str_def)
  have "\<not> in_run q p"
  proof
    assume "in_run q p"
    then have "take (length (q_git_dir q)) p = take (length (q_git_dir q)) (run_dir q)"
      unfolding in_run_def by (metis append_eq_conv_conj append_take_drop_id run_dir_def take_append take_all_iff
          append_assoc)
    with assms(1) show False by (simp add: run_dir_def)
  qed
  moreover have "str ''abs'' \<noteq> replaced_dir" by (simp add: replaced_dir_def)
  ultimately show ?thesis unfolding good_path_def r resolve_def using assms(2) by (simp del: str_def)
qed

fun take_each :: "(manifest \<Rightarrow> bytes) \<Rightarrow> (path \<times> bytes) list \<Rightarrow> quarantine \<times> files \<Rightarrow> quarantine \<times> files" where
  "take_each encode [] s = s"
| "take_each encode ((p, why) # ps) s = take_each encode ps (snd (take_file encode [] calm p why s))"

definition noted :: "quarantine \<Rightarrow> path \<times> bytes \<Rightarrow> quarantine" where
  "noted q x = q\<lparr>q_made := True, q_man := (q_man q)\<lparr>mf_files := mf_files (q_man q) @ [record_of q x]\<rparr>\<rparr>"

lemma noted_same [simp]:
  "q_git_dir (noted q x) = q_git_dir q" "run_dir (noted q x) = run_dir q" "manifest_path (noted q x) = manifest_path q"
  "src_of (noted q x) p = src_of q p" "record_of (noted q x) y = record_of q y" "good_path (noted q x) p = good_path q p"
  "mf_files (q_man (noted q x)) = mf_files (q_man q) @ [record_of q x]" "mf_run (q_man (noted q x)) = mf_run (q_man q)"
  by (simp_all add: noted_def run_dir_def manifest_path_def src_of_def record_of_def relative_def good_path_def
      in_run_def resolve_def)

lemma take_file_calm:
  assumes "good_path q p" and "fs p = Some c"
  shows "snd (take_file encode [] calm p why (q, fs)) =
    (noted q (p, why), fs(p := None, src_of q p := Some c, manifest_path q := Some (encode (q_man (noted q (p, why))))))"
proof -
  have e: "ensure_dir calm q = (True, q\<lparr>q_made := True\<rparr>)" by (cases q) (simp add: ensure_dir_def)
  show ?thesis
    by (simp add: take_file_def Let_def assms(2) e move_def write_manifest_def noted_def record_of_def src_of_def)
qed

lemma take_each_calm:
  assumes "\<forall>x \<in> set ps. good_path q (fst x) \<and> fs (fst x) \<noteq> None" and "distinct (map fst ps)"
    and "take_each encode ps (q, fs) = (q', fs')"
  shows "run_dir q' = run_dir q \<and> q_git_dir q' = q_git_dir q \<and>
    mf_files (q_man q') = mf_files (q_man q) @ map (record_of q) ps \<and>
    (\<forall>x \<in> set ps. fs' (src_of q (fst x)) = fs (fst x) \<and> fs' (fst x) = None) \<and>
    (ps \<noteq> [] \<longrightarrow> fs' (manifest_path q) = Some (encode (q_man q'))) \<and>
    (\<forall>y. (\<forall>x \<in> set ps. y \<noteq> fst x \<and> y \<noteq> src_of q (fst x)) \<and> y \<noteq> manifest_path q \<longrightarrow> fs' y = fs y)"
  using assms
proof (induction ps arbitrary: q fs)
  case (Cons x ps)
  obtain p why where x: "x = (p, why)" by (cases x)
  have gp: "good_path q p" using Cons.prems(1) x by simp
  obtain c where c: "fs p = Some c" using Cons.prems(1) x by auto
  define fs1 where "fs1 = fs(p := None, src_of q p := Some c, manifest_path q := Some (encode (q_man (noted q (p, why)))))"
  have run: "take_each encode ps (noted q x, fs1) = (q', fs')"
    using Cons.prems(3) take_file_calm [of q p fs c encode why, OF gp c] by (simp add: x fs1_def)
  have gy: "good_path q (fst y)" if "y \<in> set ps" for y using Cons.prems(1) that by simp
  have ne: "p \<noteq> fst y" if "y \<in> set ps" for y using Cons.prems(2) that x by auto
  have pm: "r \<noteq> manifest_path q" if "good_path q r" for r
    using that by (auto simp: good_path_def manifest_path_def)
  have keep: "fs1 (fst y) = fs (fst y)" if y: "y \<in> set ps" for y
  proof -
    have "fst y \<noteq> p" "fst y \<noteq> src_of q p" "fst y \<noteq> manifest_path q"
      using ne [OF y] good_pathD [OF gy [OF y] gp] pm [OF gy [OF y]] by metis+
    then show ?thesis by (simp add: fs1_def)
  qed
  have "\<forall>y \<in> set ps. good_path (noted q x) (fst y) \<and> fs1 (fst y) \<noteq> None" using keep Cons.prems(1) by simp
  note IH = Cons.IH [OF this _ run, unfolded noted_same]
  have d: "distinct (map fst ps)" using Cons.prems(2) by simp
  note IH = IH [OF d]
  have src: "src_of q p \<noteq> p" "src_of q p \<noteq> manifest_path q" "p \<noteq> manifest_path q"
    using good_pathD [OF gp gp] pm [OF gp] by metis+
  have "fs' (src_of q p) = fs1 (src_of q p)" "fs' p = fs1 p"
    using IH src ne good_pathD [OF gp gy] good_pathD [OF gy gp] by metis+
  then have first: "fs' (src_of q p) = fs p" "fs' p = None" using src c by (simp_all add: fs1_def)
  have man: "fs' (manifest_path q) = Some (encode (q_man q'))"
  proof (cases ps)
    case Nil
    with run show ?thesis by (auto simp: fs1_def x)
  next
    case (Cons y ys)
    with IH show ?thesis by blast
  qed
  have others: "fs' y = fs y" if "y \<noteq> p" "y \<noteq> src_of q p" "\<forall>x \<in> set ps. y \<noteq> fst x \<and> y \<noteq> src_of q (fst x)" "y \<noteq> manifest_path q" for y
  proof -
    have "fs' y = fs1 y" using IH that by blast
    with that show ?thesis by (simp add: fs1_def)
  qed
  show ?case using IH first man others keep x by simp
qed simp

text \<open>
  C12: a run can be undone in full. Whatever a run wrote afterwards outside its quarantine, undoing it
  puts every file it took back where it was with what it held, keeps what stood in the way in the
  run's own directory, and touches nothing else of the repository.
\<close>

theorem quarantine_undo:
  assumes "q = new_quarantine git_dir run" and "take_each encode ps (q, fs) = (q', fs1)" and "ps \<noteq> []"
    and "distinct (map fst ps)" and "\<forall>x \<in> set ps. good_path q (fst x) \<and> fs (fst x) \<noteq> None"
    and "decode (encode (q_man q')) = Some (q_man q')" and "\<forall>y. in_run q y \<longrightarrow> fs2 y = fs1 y"
  shows "\<exists>fs3. undo decode (\<lambda>_. (calm, calm)) git_dir run fs2 = (True, rev (map (record_of q) ps), fs3) \<and>
    (\<forall>x \<in> set ps. fs3 (fst x) = fs (fst x) \<and>
       (\<forall>c. fs2 (fst x) = Some c \<longrightarrow> fs3 (aside_of q (fst x)) = Some c)) \<and>
    (\<forall>y. \<not> in_run q y \<and> y \<notin> fst ` set ps \<longrightarrow> fs3 y = fs2 y)"
proof -
  note t = take_each_calm [OF assms(5,4,2)]
  have files: "mf_files (q_man q') = map (record_of q) ps" using t assms(1) by (simp add: new_quarantine_def)
  have inr: "in_run q (manifest_path q)" "in_run q (src_of q p)" "in_run q (aside_of q p)" for p
    by (simp_all add: manifest_path_def src_of_def aside_of_def)
  have man: "fs2 (manifest_path q) = Some (encode (q_man q'))" using t assms(3,7) inr(1) by simp
  define orig where "orig = (\<lambda>p. the (fs p))"
  have orig: "fs (fst x) = Some (orig (fst x))" if "x \<in> set ps" for x using assms(5) that by (auto simp: orig_def)
  have "\<forall>x \<in> set (rev ps). fs2 (src_of q (fst x)) = Some (orig (fst x))"
    using t orig assms(7) inr(2) by simp
  moreover have "distinct (map fst (rev ps))" using assms(4) by (simp flip: rev_map)
  ultimately obtain fs3 where u: "undo_loop (\<lambda>_. (calm, calm)) q (map (record_of q) (rev ps)) fs2 = (True, map (record_of q) (rev ps), fs3)"
    "\<forall>x \<in> set ps. fs3 (fst x) = Some (orig (fst x)) \<and> (\<forall>c. fs2 (fst x) = Some c \<longrightarrow> fs3 (aside_of q (fst x)) = Some c)"
    "\<forall>y. (\<forall>x \<in> set ps. y \<noteq> fst x \<and> y \<noteq> src_of q (fst x) \<and> y \<noteq> aside_of q (fst x)) \<longrightarrow> fs3 y = fs2 y"
    using undo_loop_calm [of "rev ps" q fs2 orig] assms(5) by auto
  have "undo decode (\<lambda>_. (calm, calm)) git_dir run fs2 = (True, rev (map (record_of q) ps), fs3)"
    unfolding undo_def Let_def assms(1) [symmetric] man option.case assms(6) files using u(1) by (simp add: rev_map)
  moreover have "fs3 y = fs2 y" if "\<not> in_run q y" "y \<notin> fst ` set ps" for y
    using u(3) that inr by (metis imageI)
  ultimately show ?thesis using u(2) orig by (intro exI [of _ fs3]) simp
qed

section \<open>A small run\<close>

definition demo_git :: path where
  "demo_git = [[114], [103]]"

definition demo_file :: path where
  "demo_file = demo_git @ [[105]]"

lemma demo_good: "good_path (new_quarantine demo_git [49]) demo_file"
  using good_inside [of "[105]" "[]" "new_quarantine demo_git [49]"]
  by (simp add: demo_file_def new_quarantine_def replaced_dir_def quarantine_root_def has_prefix_def manifest_name_def)

theorem take_never_loses_witness:
  "\<exists>ok q' fs'. take_file (\<lambda>m. []) [] (\<lambda>c. c = ManifestCall) demo_file [] (new_quarantine demo_git [49], [demo_file \<mapsto> [7]]) = (ok, q', fs') \<and>
     (fs' demo_file = Some [7] \<or> fs' (run_dir (new_quarantine demo_git [49]) @ relative (new_quarantine demo_git [49]) demo_file) = Some [7])"
proof -
  let ?q = "new_quarantine demo_git [49]"
  obtain ok q' fs' where r: "take_file (\<lambda>m. []) [] (\<lambda>c. c = ManifestCall) demo_file [] (?q, [demo_file \<mapsto> [7]]) = (ok, q', fs')"
    by (metis prod_cases3)
  have ne: "demo_file \<noteq> run_dir ?q @ x" for x
    using demo_good in_run_append [of ?q x] unfolding good_path_def by metis
  have "relative ?q demo_file \<noteq> [manifest_name]" using demo_good by (simp add: good_path_def)
  with take_never_loses [OF r, of demo_file "[7]"] ne [THEN not_sym]
  show ?thesis unfolding manifest_path_def using r ne by (auto simp: manifest_path_def)
qed

theorem quarantine_undo_witness:
  "\<exists>q' fs1 fs3. take_each (\<lambda>m. []) [(demo_file, [])] (new_quarantine demo_git [49], [demo_file \<mapsto> [7]]) = (q', fs1) \<and>
     undo (\<lambda>b. Some (q_man q')) (\<lambda>_. (calm, calm)) demo_git [49] (fs1(demo_file \<mapsto> [8])) =
       (True, [record_of (new_quarantine demo_git [49]) (demo_file, [])], fs3) \<and> fs3 demo_file = Some [7]"
proof -
  let ?q = "new_quarantine demo_git [49]"
  obtain q' fs1 where r: "take_each (\<lambda>m. []) [(demo_file, [])] (?q, [demo_file \<mapsto> [7]]) = (q', fs1)"
    by (metis surj_pair)
  define F where "F = fs1(demo_file \<mapsto> [8])"
  have "\<forall>y. in_run ?q y \<longrightarrow> F y = fs1 y" using demo_good by (auto simp: good_path_def F_def)
  from quarantine_undo [OF refl r _ _ _ _ this, of "\<lambda>b. Some (q_man q')"] demo_good
  obtain fs3 where "undo (\<lambda>b. Some (q_man q')) (\<lambda>_. (calm, calm)) demo_git [49] F =
      (True, [record_of ?q (demo_file, [])], fs3)" "fs3 demo_file = Some [7]" by auto
  with r show ?thesis unfolding F_def by blast
qed

end
