(* ===== verification/RefStore.thy ===== *)
theory RefStore
  imports Refname IndexFile Quarantine "HOL-Library.AList"
begin

text \<open>
  References and reflogs on disk: \<open>internal/gitrepo/refs.go\<close>, \<open>internal/gitrepo/reflog.go\<close> and the
  worktree list of \<open>internal/gitrepo/worktree.go\<close>. The files are the map of the quarantine theory from
  paths to bytes; the order in which a directory walk meets files is an argument.
\<close>

section \<open>Paths\<close>

text \<open>\<open>filepath.Join\<close> of an absolute directory and a name with slashes, which it cleans.\<close>

definition join_step :: "path \<Rightarrow> bytes \<Rightarrow> path" where
  "join_step p c = (if c = [] \<or> c = str ''.'' then p else if c = str ''..'' then butlast p else p @ [c])"

definition join_path :: "path \<Rightarrow> bytes \<Rightarrow> path" where
  "join_path dir name = foldl join_step dir (split_on (ascii CHR ''/'') name)"

section \<open>Worktrees\<close>

record worktree =
  wt_dir :: path
  wt_main :: bool
  wt_id :: bytes

record repository =
  rp_algo :: algo
  rp_common :: path
  rp_shown :: bytes

text \<open>\<open>Worktrees\<close>, with what \<open>os.ReadDir\<close> gives of the directory of linked worktrees: each name and
  whether it is a directory, or \<open>None\<close> when the call fails.\<close>

definition worktrees :: "repository \<Rightarrow> (bytes \<times> bool) list option \<Rightarrow> files \<Rightarrow> worktree list" where
  "worktrees r listing fs =
     \<lparr>wt_dir = rp_common r, wt_main = True, wt_id = []\<rparr> #
     (case listing of
        None \<Rightarrow> []
      | Some es \<Rightarrow>
          map (\<lambda>n. \<lparr>wt_dir = rp_common r @ [str ''worktrees'', n], wt_main = False, wt_id = n\<rparr>)
            (filter (\<lambda>n. fs (rp_common r @ [str ''worktrees'', n, str ''gitdir'']) \<noteq> None)
              (sort (map fst (filter snd es)))))"

definition per_worktree_prefixes :: "bytes list" where
  "per_worktree_prefixes = [str ''refs/bisect/'', str ''refs/worktree/'', str ''refs/rewritten/'']"

definition is_per_worktree :: "bytes \<Rightarrow> bool" where
  "is_per_worktree name \<longleftrightarrow> list_ex (has_prefix name) per_worktree_prefixes"

definition worktree_ref_name :: "worktree \<Rightarrow> bytes \<Rightarrow> bytes" where
  "worktree_ref_name w name =
     (if wt_main w \<or> wt_id w = [] then name
      else if name = str ''HEAD'' \<or> is_per_worktree name then str ''worktrees/'' @ wt_id w @ str ''/'' @ name
      else name)"

section \<open>The packed table\<close>

record reference =
  ref_name :: bytes
  ref_oid :: oid
  ref_symref :: bytes
  ref_broken :: bool

definition packed_header :: bytes where
  "packed_header = str ''# pack-refs with: ''"

text \<open>The earliest complaint stays; an empty message is none.\<close>

definition note_bad_packed_line :: "bytes \<Rightarrow> bytes \<Rightarrow> bytes \<Rightarrow> bytes \<Rightarrow> bytes" where
  "note_bad_packed_line shown kind line fatal =
     (if fatal = [] then kind @ str '' line in '' @ shown @ str '': '' @ line else fatal)"

definition packed_line :: "algo \<Rightarrow> bytes \<Rightarrow> bool \<Rightarrow> bytes \<Rightarrow> bytes \<Rightarrow> reference option \<times> bytes" where
  "packed_line a shown first line fatal =
     (let bad = note_bad_packed_line shown (str ''unexpected'') line fatal in
      case line of
        [] \<Rightarrow> (None, fatal)
      | c # rest \<Rightarrow>
          if c = ascii CHR ''#'' then
            (None, if \<not> first \<or> \<not> has_prefix line packed_header then bad else fatal)
          else if c = ascii CHR ''^'' then
            (None, if parse_hex_bytes a rest = None \<or> length line \<noteq> hex_size a + 1 then bad else fatal)
          else if length line < hex_size a + 2 then (None, bad)
          else (case parse_hex_bytes a line of
              None \<Rightarrow> (None, bad)
            | Some x \<Rightarrow>
                if line ! hex_size a \<noteq> ascii CHR '' '' then (None, bad)
                else let name = drop (hex_size a + 1) line; ok = check_refname_format name no_flags
                     in (Some \<lparr>ref_name = name, ref_oid = (if ok then x else null_oid a),
                               ref_symref = [], ref_broken = \<not> ok\<rparr>, fatal)))"

function packed_loop :: "algo \<Rightarrow> bytes \<Rightarrow> bool \<Rightarrow> bytes \<Rightarrow> bytes \<Rightarrow> reference list \<times> bytes" where
  "packed_loop a shown first data fatal =
     (if data = [] then ([], fatal)
      else let i = index_byte data (ascii CHR ''\<newline>'');
               line = (case i of Some k \<Rightarrow> take k data | None \<Rightarrow> data);
               rest = (case i of Some k \<Rightarrow> drop (Suc k) data | None \<Rightarrow> []);
               fatal1 = (case i of Some k \<Rightarrow> fatal
                         | None \<Rightarrow> note_bad_packed_line shown (str ''unterminated'') line fatal)
           in case packed_line a shown first line fatal1 of
                (r, fatal2) \<Rightarrow>
                  (case packed_loop a shown False rest fatal2 of
                     (rs, fatal3) \<Rightarrow> (case r of None \<Rightarrow> rs | Some x \<Rightarrow> x # rs, fatal3)))"
  by pat_completeness auto
termination
  by (relation "measure (\<lambda>(_, _, _, d, _). length d)")
    (auto dest: index_byte_lt split: option.splits)

declare packed_loop.simps [simp del]

text \<open>\<open>packedRefs\<close>: the table, and the message git would die with.\<close>

definition packed_refs :: "repository \<Rightarrow> files \<Rightarrow> bytes \<Rightarrow> reference list \<times> bytes" where
  "packed_refs r fs fatal =
     (case fs (rp_common r @ [str ''packed-refs'']) of
        None \<Rightarrow> ([], fatal)
      | Some data \<Rightarrow> packed_loop (rp_algo r) (rp_shown r) True data fatal)"

definition packed_map :: "repository \<Rightarrow> files \<Rightarrow> bytes \<Rightarrow> oid option" where
  "packed_map r fs = map_of (rev (map (\<lambda>x. (ref_name x, ref_oid x)) (fst (packed_refs r fs []))))"

section \<open>Reference files\<close>

definition trim_ref_line :: "bytes \<Rightarrow> bytes" where
  "trim_ref_line = trim_right (\<lambda>c. c \<in> {ascii CHR '' '', 9, 13, 10})"

definition is_space_byte :: "byte \<Rightarrow> bool" where
  "is_space_byte c \<longleftrightarrow> c = ascii CHR '' '' \<or> c = 9 \<or> c = 10 \<or> c = 11 \<or> c = 12 \<or> c = 13"

definition broken_ref :: "algo \<Rightarrow> bytes \<Rightarrow> bytes \<Rightarrow> reference" where
  "broken_ref a name target = \<lparr>ref_name = name, ref_oid = null_oid a, ref_symref = target, ref_broken = True\<rparr>"

text \<open>\<open>readRefFile\<close>. The number counts the depths still allowed: the code's first call has six left
  below it, and a depth above five follows nothing.\<close>

primrec read_ref_file :: "repository \<Rightarrow> files \<Rightarrow> nat \<Rightarrow> path \<Rightarrow> bytes \<Rightarrow> path \<Rightarrow> reference" where
  "read_ref_file r fs 0 = (\<lambda>p name root.
     (case fs p of
        None \<Rightarrow> broken_ref (rp_algo r) name []
      | Some data \<Rightarrow>
          (case cut_prefix (trim_ref_line data) (str ''ref:'') of
             Some target \<Rightarrow> broken_ref (rp_algo r) name (trim_space target)
           | None \<Rightarrow>
               (case parse_prefix (rp_algo r) (trim_ref_line data) of
                  None \<Rightarrow> broken_ref (rp_algo r) name []
                | Some (x, rest) \<Rightarrow>
                    if rest \<noteq> [] \<and> \<not> is_space_byte (hd rest) then broken_ref (rp_algo r) name []
                    else \<lparr>ref_name = name, ref_oid = x, ref_symref = [], ref_broken = False\<rparr>))))"
| "read_ref_file r fs (Suc n) = (\<lambda>p name root.
     (case fs p of
        None \<Rightarrow> broken_ref (rp_algo r) name []
      | Some data \<Rightarrow>
          (case cut_prefix (trim_ref_line data) (str ''ref:'') of
             Some target \<Rightarrow>
               (let tgt = trim_space target;
                    next = read_ref_file r fs n (join_path root tgt) name root in
                if ref_broken next then
                  (case packed_map r fs tgt of
                     Some x \<Rightarrow> \<lparr>ref_name = name, ref_oid = x, ref_symref = tgt, ref_broken = False\<rparr>
                   | None \<Rightarrow> \<lparr>ref_name = name, ref_oid = ref_oid next, ref_symref = tgt, ref_broken = True\<rparr>)
                else \<lparr>ref_name = name, ref_oid = ref_oid next, ref_symref = tgt, ref_broken = False\<rparr>)
           | None \<Rightarrow>
               (case parse_prefix (rp_algo r) (trim_ref_line data) of
                  None \<Rightarrow> broken_ref (rp_algo r) name []
                | Some (x, rest) \<Rightarrow>
                    if rest \<noteq> [] \<and> \<not> is_space_byte (hd rest) then broken_ref (rp_algo r) name []
                    else \<lparr>ref_name = name, ref_oid = x, ref_symref = [], ref_broken = False\<rparr>))))"

definition max_ref_depth :: nat where
  "max_ref_depth = 6"

text \<open>\<open>Resolve\<close>, with the calls still allowed.\<close>

primrec resolve_ref :: "repository \<Rightarrow> files \<Rightarrow> nat \<Rightarrow> path \<Rightarrow> bytes \<Rightarrow> oid option" where
  "resolve_ref r fs 0 store name = None"
| "resolve_ref r fs (Suc n) store name =
     (let ref = read_ref_file r fs max_ref_depth (join_path store name) name store in
      if \<not> ref_broken ref then Some (ref_oid ref)
      else if ref_symref ref \<noteq> [] then resolve_ref r fs n store (ref_symref ref)
      else packed_map r fs name)"

text \<open>\<open>Head\<close>: the target's name and the object, the null name for an unborn branch.\<close>

definition head_of :: "repository \<Rightarrow> files \<Rightarrow> path \<Rightarrow> (bytes \<times> oid) option" where
  "head_of r fs dir =
     (case fs (dir @ [str ''HEAD'']) of
        None \<Rightarrow> None
      | Some data \<Rightarrow>
          (let line = trim_ref_line data in
           case cut_prefix line (str ''ref:'') of
             Some rest \<Rightarrow>
               (let target = trim_space rest;
                    store = (if \<not> is_per_worktree target \<and> target \<noteq> str ''HEAD'' then rp_common r else dir) in
                case resolve_ref r fs max_ref_depth store target of
                  Some x \<Rightarrow> Some (target, x)
                | None \<Rightarrow> Some (target, null_oid (rp_algo r)))
           | None \<Rightarrow>
               (case parse_hex_bytes (rp_algo r) line of
                  None \<Rightarrow> None
                | Some x \<Rightarrow> if length line \<noteq> hex_size (rp_algo r) then None else Some (str ''HEAD'', x))))"

section \<open>Every reference\<close>

datatype file_kind = RegularFile | SymlinkFile | OtherFile

text \<open>\<open>looseRefs\<close> over what the walk of a directory meets: the rest of the path and the kind.\<close>

definition last_component :: "bytes \<Rightarrow> bytes" where
  "last_component rel = last (split_on (ascii CHR ''/'') rel)"

definition loose_ref :: "repository \<Rightarrow> files \<Rightarrow> path \<Rightarrow> bytes \<times> file_kind \<Rightarrow> reference option" where
  "loose_ref r fs root e =
     (if snd e = OtherFile \<or> take 1 (last_component (fst e)) = str ''.'' then None
      else let name = str ''refs/'' @ fst e;
               ref = read_ref_file r fs max_ref_depth (join_path root name) name root
           in Some (if check_refname_format name no_flags then ref
                    else ref\<lparr>ref_broken := True, ref_oid := null_oid (rp_algo r)\<rparr>))"

definition loose_refs :: "repository \<Rightarrow> files \<Rightarrow> path \<Rightarrow> (bytes \<times> file_kind) list \<Rightarrow> reference list" where
  "loose_refs r fs root listing = List.map_filter (loose_ref r fs root) listing"

text \<open>\<open>Refs\<close>: a table by name, so the reference put in last stays, listed by name. \<open>walk\<close> gives
  the listing of a directory. The code's empty directory name, which no caller passes, is left out.\<close>

definition put_ref :: "reference \<Rightarrow> (bytes \<times> reference) list \<Rightarrow> (bytes \<times> reference) list" where
  "put_ref x t = AList.update (ref_name x) x t"

definition all_refs :: "repository \<Rightarrow> files \<Rightarrow> (path \<Rightarrow> (bytes \<times> file_kind) list) \<Rightarrow> path \<Rightarrow> reference list" where
  "all_refs r fs walk dir =
     (let t0 = fold put_ref (fst (packed_refs r fs [])) [];
          main = loose_refs r fs (rp_common r) (walk (rp_common r));
          t1 = fold put_ref (filter (\<lambda>x. \<not> (dir \<noteq> rp_common r \<and> is_per_worktree (ref_name x))) main) t0;
          t2 = (if dir \<noteq> rp_common r
                then fold put_ref (filter (\<lambda>x. is_per_worktree (ref_name x)) (loose_refs r fs dir (walk dir))) t1
                else t1)
      in sort_key ref_name (map snd t2))"

section \<open>Reflogs\<close>

record reflog_entry =
  rl_old :: oid
  rl_new :: oid
  rl_time :: int

text \<open>The tokens of \<open>bufio.Scanner\<close> with a buffer of \<open>limit\<close> bytes: a line that fills it ends the scan.\<close>

function scan_lines :: "nat \<Rightarrow> bytes \<Rightarrow> bytes list" where
  "scan_lines limit data =
     (if data = [] then []
      else let i = index_byte data (ascii CHR ''\<newline>'');
               line = (case i of Some k \<Rightarrow> take k data | None \<Rightarrow> data);
               rest = (case i of Some k \<Rightarrow> drop (Suc k) data | None \<Rightarrow> [])
           in if limit \<le> length line then []
              else (if line \<noteq> [] \<and> last line = 13 then butlast line else line) # scan_lines limit rest)"
  by pat_completeness auto
termination
  by (relation "measure (\<lambda>(_, d). length d)") (auto dest: index_byte_lt split: option.splits)

declare scan_lines.simps [simp del]

definition reflog_limit :: nat where
  "reflog_limit = 16 * 1024 * 1024"

definition reflog_time :: "bytes \<Rightarrow> int" where
  "reflog_time line =
     (case index_byte line 9 of
        None \<Rightarrow> 0
      | Some tab \<Rightarrow>
          (let fields = byte_fields (take tab line) in
           if tab = 0 \<or> length fields < 2 then 0
           else (case atoi (fields ! (length fields - 2)) of None \<Rightarrow> 0 | Some t \<Rightarrow> t)))"

definition reflog_line :: "algo \<Rightarrow> bytes \<Rightarrow> reflog_entry option" where
  "reflog_line a line =
     (if length line < 2 * hex_size a + 1 then None
      else (case (parse_hex_bytes a line, parse_hex_bytes a (drop (hex_size a + 1) line)) of
          (Some x, Some y) \<Rightarrow> Some \<lparr>rl_old = x, rl_new = y, rl_time = reflog_time line\<rparr>
        | _ \<Rightarrow> None))"

definition reflog :: "repository \<Rightarrow> files \<Rightarrow> path \<Rightarrow> bytes \<Rightarrow> reflog_entry list" where
  "reflog r fs dir name =
     (let p = (if dir \<noteq> rp_common r \<and> (is_per_worktree name \<or> name = str ''HEAD'')
               then join_path (dir @ [str ''logs'']) name
               else join_path (rp_common r @ [str ''logs'']) name)
      in case fs p of None \<Rightarrow> [] | Some data \<Rightarrow> List.map_filter (reflog_line (rp_algo r)) (scan_lines reflog_limit data))"

text \<open>\<open>ReflogNames\<close>; \<open>walk\<close> lists the files below the logs of a directory.\<close>

definition reflog_names :: "repository \<Rightarrow> (path \<Rightarrow> bytes list) \<Rightarrow> path \<Rightarrow> bytes list" where
  "reflog_names r walk dir =
     (let mine = (if dir \<noteq> rp_common r
                  then filter (\<lambda>n. is_per_worktree n \<or> n = str ''HEAD'') (walk (dir @ [str ''logs''])) else []);
          common = filter (\<lambda>n. \<not> (dir \<noteq> rp_common r \<and> is_per_worktree n)) (walk (rp_common r @ [str ''logs'']))
      in sort (remdups (mine @ common)))"

end
