(* ===== verification/PackedRefs.thy ===== *)
theory PackedRefs
  imports RefStore ObjectDb
begin

text \<open>
  Repairing packed-refs and single references: \<open>internal/repair/packedrefs.go\<close> and
  \<open>internal/repair/refs.go\<close>. Objects are read through the database, whose state is passed along, and
  \<open>None\<close> is a read that never returns. The reference table is an association list with one entry for
  each name; only its names are ever sorted, so its order is never seen.
\<close>

section \<open>Reading what still reads\<close>

definition no_cr :: "bytes \<Rightarrow> bytes" where
  "no_cr = trim_right (\<lambda>c. c = 13)"

text \<open>\<open>strings.Cut\<close> at a space.\<close>

definition cut_space :: "bytes \<Rightarrow> (bytes \<times> bytes) option" where
  "cut_space line = map_option (\<lambda>i. (take i line, drop (Suc i) line)) (index_byte line (ascii CHR '' ''))"

text \<open>The reference a line makes, when it makes one.\<close>

definition salvage_ref :: "algo \<Rightarrow> bytes \<Rightarrow> (bytes \<times> oid) option" where
  "salvage_ref a line =
     (case cut_space line of
        None \<Rightarrow> None
      | Some (hex, name) \<Rightarrow>
          (case parse_oid a hex of
             None \<Rightarrow> None
           | Some x \<Rightarrow> if name = [] \<or> \<not> check_refname_format name no_flags then None else Some (name, x)))"

definition salvage_line ::
    "algo \<Rightarrow> bool \<Rightarrow> bytes \<Rightarrow> (bytes \<times> oid) list \<times> bytes list \<Rightarrow> (bytes \<times> oid) list \<times> bytes list" where
  "salvage_line a first raw s =
     (let line = no_cr raw; drop_it = (fst s, snd s @ [line]) in
      case line of
        [] \<Rightarrow> s
      | c # rest \<Rightarrow>
          if c = ascii CHR ''#'' then (if first then s else drop_it)
          else if c = ascii CHR ''^'' then (if parse_oid a (trim_space rest) = None then drop_it else s)
          else (case salvage_ref a line of
              None \<Rightarrow> drop_it
            | Some (name, x) \<Rightarrow> (AList.update name x (fst s), snd s)))"

fun salvage_lines ::
    "algo \<Rightarrow> bool \<Rightarrow> bytes list \<Rightarrow> (bytes \<times> oid) list \<times> bytes list \<Rightarrow> (bytes \<times> oid) list \<times> bytes list" where
  "salvage_lines a first [] s = s"
| "salvage_lines a first (l # ls) s = salvage_lines a False ls (salvage_line a first l s)"

definition read_packed_lines :: "algo \<Rightarrow> bytes \<Rightarrow> (bytes \<times> oid) list \<times> bytes list" where
  "read_packed_lines a data = salvage_lines a True (split_on (ascii CHR ''\<newline>'') data) ([], [])"

definition names_in_dropped_lines :: "bytes list \<Rightarrow> bytes list" where
  "names_in_dropped_lines lines =
     sort (filter (\<lambda>f. has_prefix f (str ''refs/'') \<and> check_refname_format f no_flags)
       (concat (map byte_fields lines)))"

section \<open>Peeling\<close>

text \<open>The first line that starts with \<open>object\<close>, unless an empty line comes before it.\<close>

fun object_line :: "algo \<Rightarrow> bytes list \<Rightarrow> oid option" where
  "object_line a [] = None"
| "object_line a (l # ls) =
     (case cut_prefix l (str ''object '') of
        Some hex \<Rightarrow> parse_oid a (trim_space hex)
      | None \<Rightarrow> if l = [] then None else object_line a ls)"

definition tagged_object :: "algo \<Rightarrow> bytes \<Rightarrow> oid option" where
  "tagged_object a data = object_line a (split_on (ascii CHR ''\<newline>'') data)"

text \<open>The loop of \<open>peel\<close>: the turns left, and whether this is the first.\<close>

fun peel_loop :: "database \<Rightarrow> nat \<Rightarrow> bool \<Rightarrow> db_state \<Rightarrow> oid \<Rightarrow> (oid option \<times> db_state) option" where
  "peel_loop db 0 first st cur = Some (None, st)"
| "peel_loop db (Suc n) first st cur =
     (let stop = (if first then None else Some cur) in
      case read_object db st cur of
        None \<Rightarrow> None
      | Some (Inl e, st1) \<Rightarrow> Some (stop, st1)
      | Some (Inr (t, data), st1) \<Rightarrow>
          if t \<noteq> TypeTag then Some (stop, st1)
          else (case tagged_object (db_algo db) data of
              None \<Rightarrow> Some (None, st1)
            | Some next \<Rightarrow> peel_loop db n False st1 next))"

definition max_peel :: nat where
  "max_peel = 10"

definition peel :: "database \<Rightarrow> db_state \<Rightarrow> oid \<Rightarrow> (oid option \<times> db_state) option" where
  "peel db st x = peel_loop db max_peel True st x"

section \<open>Writing the file\<close>

definition packed_refs_header :: bytes where
  "packed_refs_header = str ''# pack-refs with: peeled fully-peeled sorted '' @ [10]"

definition ref_lines :: "bytes \<Rightarrow> oid \<Rightarrow> oid option \<Rightarrow> bytes" where
  "ref_lines name x peeled =
     oid_string x @ str '' '' @ name @ [10] @
     (case peeled of None \<Rightarrow> [] | Some y \<Rightarrow> str ''^'' @ oid_string y @ [10])"

fun render_loop :: "database \<Rightarrow> db_state \<Rightarrow> (bytes \<times> oid) list \<Rightarrow> (bytes \<times> db_state) option" where
  "render_loop db st [] = Some ([], st)"
| "render_loop db st ((name, x) # rs) =
     (case peel db st x of
        None \<Rightarrow> None
      | Some (peeled, st1) \<Rightarrow>
          map_option (\<lambda>(body, st2). (ref_lines name x peeled @ body, st2)) (render_loop db st1 rs))"

definition by_name :: "(bytes \<times> oid) list \<Rightarrow> (bytes \<times> oid) list" where
  "by_name refs = map (\<lambda>n. (n, the (map_of refs n))) (sort (map fst refs))"

definition render_packed_refs :: "database \<Rightarrow> db_state \<Rightarrow> (bytes \<times> oid) list \<Rightarrow> (bytes \<times> db_state) option" where
  "render_packed_refs db st refs =
     map_option (\<lambda>(body, st1). (packed_refs_header @ body, st1)) (render_loop db st (by_name refs))"

definition write_file_atomic :: "(write_call \<Rightarrow> bool) \<Rightarrow> path \<Rightarrow> path \<Rightarrow> bytes \<Rightarrow> files \<Rightarrow> bool \<times> files" where
  "write_file_atomic faults tmp path body fs =
     (case write_beside faults tmp path body fs of (ok, states) \<Rightarrow> (ok, final_files fs states))"

lemma write_file_atomic_ok:
  "write_file_atomic faults tmp path body fs = (True, fs') \<Longrightarrow> fs' = fs(tmp := None, path := Some body)"
  by (auto simp: write_file_atomic_def write_beside_ok split: prod.splits)

lemma write_file_atomic_calm:
  "write_file_atomic (\<lambda>c. False) tmp path body fs = (True, fs(tmp := None, path := Some body))"
  using write_beside_calm [of tmp path body fs] by (auto simp: write_file_atomic_def)

section \<open>The value a reference last had\<close>

definition split_ref_name :: "repository \<Rightarrow> worktree list \<Rightarrow> bytes \<Rightarrow> path \<times> bytes" where
  "split_ref_name r wts name =
     (case List.find (\<lambda>w. \<not> wt_main w \<and> has_prefix name (str ''worktrees/'' @ wt_id w @ str ''/'') \<and>
          name \<noteq> str ''worktrees/'' @ wt_id w @ str ''/'') wts of
        Some w \<Rightarrow> (wt_dir w, drop (length (str ''worktrees/'' @ wt_id w @ str ''/'')) name)
      | None \<Rightarrow> ((case wts of w # _ \<Rightarrow> wt_dir w | [] \<Rightarrow> rp_common r), name))"

text \<open>The newest value of the log whose object is there and reads.\<close>

fun newest_good :: "database \<Rightarrow> db_state \<Rightarrow> reflog_entry list \<Rightarrow> (oid option \<times> db_state) option" where
  "newest_good db st [] = Some (None, st)"
| "newest_good db st (e # es) =
     (if \<not> valid_oid (rl_new e) \<or> \<not> db_has db (rl_new e) then newest_good db st es
      else (case read_object db st (rl_new e) of
          None \<Rightarrow> None
        | Some (Inl err, st1) \<Rightarrow> newest_good db st1 es
        | Some (Inr v, st1) \<Rightarrow> Some (Some (rl_new e), st1)))"

datatype value_from = LooseFileValue | ReflogValue

definition loose_value :: "database \<Rightarrow> files \<Rightarrow> path \<Rightarrow> oid option" where
  "loose_value db fs p =
     (case fs p of
        None \<Rightarrow> None
      | Some data \<Rightarrow>
          (case parse_oid (db_algo db) (trim_space data) of
             None \<Rightarrow> None | Some x \<Rightarrow> if db_has db x then Some x else None))"

definition last_good_value ::
    "repository \<Rightarrow> worktree list \<Rightarrow> database \<Rightarrow> files \<Rightarrow> db_state \<Rightarrow> bytes \<Rightarrow> ((oid \<times> value_from) option \<times> db_state) option" where
  "last_good_value r wts db fs st name =
     (case split_ref_name r wts name of
        (dir, refname) \<Rightarrow>
          (case loose_value db fs (join_path (rp_common r) refname) of
             Some x \<Rightarrow> Some (Some (x, LooseFileValue), st)
           | None \<Rightarrow> map_option (\<lambda>(v, st1). (map_option (\<lambda>x. (x, ReflogValue)) v, st1))
               (newest_good db st (rev (reflog r fs dir refname)))))"

section \<open>The repair of packed-refs\<close>

text \<open>The references put back for the names of the dropped lines, beside the table with them in it.\<close>

fun restore_loop ::
    "(db_state \<Rightarrow> bytes \<Rightarrow> ((oid \<times> value_from) option \<times> db_state) option) \<Rightarrow> db_state \<Rightarrow> bytes list \<Rightarrow> (bytes \<times> oid) list \<Rightarrow>
     ((bytes \<times> oid \<times> value_from) list \<times> (bytes \<times> oid) list \<times> db_state) option" where
  "restore_loop lgv st [] refs = Some ([], refs, st)"
| "restore_loop lgv st (n # ns) refs =
     (if map_of refs n \<noteq> None then restore_loop lgv st ns refs
      else (case lgv st n of
          None \<Rightarrow> None
        | Some (None, st1) \<Rightarrow> restore_loop lgv st1 ns refs
        | Some (Some (x, from_where), st1) \<Rightarrow>
            map_option (\<lambda>(rs, t, st2). ((n, x, from_where) # rs, t, st2))
              (restore_loop lgv st1 ns (AList.update n x refs))))"

record repaired_packed =
  rk_kept :: nat
  rk_restored :: "(bytes \<times> oid \<times> value_from) list"
  rk_dropped :: "bytes list"

definition repair_packed_refs ::
    "repository \<Rightarrow> worktree list \<Rightarrow> database \<Rightarrow> db_state \<Rightarrow> (files \<Rightarrow> bool \<times> files) \<Rightarrow> (write_call \<Rightarrow> bool) \<Rightarrow> path \<Rightarrow> path \<Rightarrow>
     files \<Rightarrow> ((bool \<times> repaired_packed) \<times> files \<times> db_state) option" where
  "repair_packed_refs r wts db st take_away faults tmp path fs =
     (case fs path of
        None \<Rightarrow> Some ((False, \<lparr>rk_kept = 0, rk_restored = [], rk_dropped = []\<rparr>), fs, st)
      | Some data \<Rightarrow>
          (case read_packed_lines (rp_algo r) data of
             (refs, dropped) \<Rightarrow>
               (case restore_loop (last_good_value r wts db fs) st (names_in_dropped_lines dropped) refs of
                  None \<Rightarrow> None
                | Some (restored, refs1, st1) \<Rightarrow>
                    (let out = \<lparr>rk_kept = length refs1 - length restored, rk_restored = restored, rk_dropped = dropped\<rparr> in
                     case render_packed_refs db st1 refs1 of
                       None \<Rightarrow> None
                     | Some (body, st2) \<Rightarrow>
                         (case take_away fs of
                            (False, fs1) \<Rightarrow> Some ((False, out), fs1, st2)
                          | (True, fs1) \<Rightarrow>
                              (case write_file_atomic faults tmp path body fs1 of
                                 (ok, fs2) \<Rightarrow> Some ((ok, out), fs2, st2)))))))"

section \<open>The repair of one reference\<close>

text \<open>\<open>writeRef\<close>: the file goes to the quarantine, then the new one is written. A write that fails may
  leave part of the line, which is \<open>junk\<close>.\<close>

datatype ref_call = MakeRefDir | WriteRefFile

definition ref_path :: "repository \<Rightarrow> path \<Rightarrow> bytes \<Rightarrow> path option \<Rightarrow> path" where
  "ref_path r dir name known = (case known of Some p \<Rightarrow> p | None \<Rightarrow> join_path dir name)"

definition write_ref ::
    "(path \<Rightarrow> files \<Rightarrow> bool \<times> files) \<Rightarrow> (ref_call \<Rightarrow> bool) \<Rightarrow> bytes option \<Rightarrow> path \<Rightarrow> oid \<Rightarrow> files \<Rightarrow> bool \<times> files" where
  "write_ref take_away faults junk p x fs =
     (case take_away p fs of
        (False, fs1) \<Rightarrow> (False, fs1)
      | (True, fs1) \<Rightarrow>
          if faults MakeRefDir then (False, fs1)
          else if faults WriteRefFile then (False, fs1(p := junk))
          else (True, fs1(p := Some (oid_string x @ [10]))))"

definition repair_ref ::
    "repository \<Rightarrow> worktree list \<Rightarrow> database \<Rightarrow> db_state \<Rightarrow> (path \<Rightarrow> files \<Rightarrow> bool \<times> files) \<Rightarrow> (ref_call \<Rightarrow> bool) \<Rightarrow> bytes option \<Rightarrow>
     bytes \<Rightarrow> path option \<Rightarrow> files \<Rightarrow> (oid option \<times> files \<times> db_state) option" where
  "repair_ref r wts db st take_away faults junk bad_name bad_path fs =
     (case split_ref_name r wts bad_name of
        (dir, name) \<Rightarrow>
          (case newest_good db st (rev (reflog r fs dir name)) of
             None \<Rightarrow> None
           | Some (None, st1) \<Rightarrow> Some (None, fs, st1)
           | Some (Some x, st1) \<Rightarrow>
               (case write_ref take_away faults junk (ref_path r dir name bad_path) x fs of
                  (ok, fs1) \<Rightarrow> Some (if ok then Some x else None, fs1, st1))))"

end
