(* ===== verification/RefsVerify.thy ===== *)
theory RefsVerify
  imports RefStore
begin

text \<open>
  The check of the reference database: \<open>internal/fsckcmd/refsverify.go\<close>. A check returns what it
  prints, each line with the flag that it counts as an error; the verbose lines and the progress
  meter are left out. What a path is and where a symbolic link leads are arguments.
\<close>

type_synonym ref_reports = "(bool \<times> bytes) list"

text \<open>\<open>refReport\<close>: a finding below an error is a warning.\<close>

definition ref_report :: "options \<Rightarrow> bytes \<Rightarrow> msg_id \<Rightarrow> bytes \<Rightarrow> ref_reports" where
  "ref_report q where_at i text =
     (let sev = (case severity_of q i of SevInfo \<Rightarrow> SevWarn | s \<Rightarrow> s);
          line = where_at @ str '': '' @ msg_name i @ str '': '' @ text
      in if severity_of q i = SevIgnore then []
         else if sev = SevWarn then [(False, str ''warning: '' @ line)]
         else [(True, str ''error: '' @ line)])"

text \<open>The status bit a phase adds: \<open>ErrorRefs\<close> when one line counts.\<close>

definition error_refs :: nat where
  "error_refs = 8"

definition refs_status :: "ref_reports \<Rightarrow> nat" where
  "refs_status rs = (if list_ex fst rs then error_refs else 0)"

section \<open>A reference file\<close>

definition check_ref_name :: "options \<Rightarrow> bytes \<Rightarrow> ref_reports" where
  "check_ref_name q refname =
     (if is_root_ref refname then []
      else if \<not> check_refname_format refname no_flags
      then ref_report q refname MsgBadRefName (str ''invalid refname format'') else [])"

definition strip_worktree :: "bytes \<Rightarrow> bytes" where
  "strip_worktree refname =
     (case cut_prefix refname (str ''worktrees/'') of
        None \<Rightarrow> refname
      | Some rest \<Rightarrow> (case index_byte rest (ascii CHR ''/'') of None \<Rightarrow> refname | Some i \<Rightarrow> drop (Suc i) rest))"

definition check_symref_target :: "options \<Rightarrow> bytes \<Rightarrow> bytes \<Rightarrow> ref_reports" where
  "check_symref_target q refname target =
     (if strip_worktree refname = str ''HEAD'' \<and> \<not> has_prefix target (str ''refs/heads/'') then
        ref_report q refname MsgBadHeadTarget (str ''HEAD points to non-branch '' @ [39] @ target @ [39])
      else if is_root_ref target then []
      else if \<not> check_refname_format target no_flags then
        ref_report q refname MsgBadReferentName (str ''points to invalid refname '' @ [39] @ target @ [39])
      else if \<not> has_prefix target (str ''refs/'') \<and> \<not> has_prefix target (str ''worktrees/'') then
        ref_report q refname MsgSymrefTargetIsNotARef (str ''points to non-ref target '' @ [39] @ target @ [39])
      else [])"

definition check_symref_content :: "options \<Rightarrow> bytes \<Rightarrow> bytes \<Rightarrow> ref_reports" where
  "check_symref_content q refname referent =
     (let trimmed = trim_right is_space_byte referent;
          last_byte = (if referent = [] then 0 else last referent)
      in (if length trimmed = length referent \<or> length trimmed < length referent \<and> last_byte \<noteq> 10
          then ref_report q refname MsgRefMissingNewline (str ''misses LF at the end'') else []) @
         (if length trimmed \<noteq> length referent \<and> length trimmed + 1 \<noteq> length referent
          then ref_report q refname MsgTrailingRefContent (str ''has trailing whitespaces or newlines'') else []) @
         check_symref_target q refname trimmed)"

text \<open>The content of a regular file.\<close>

definition check_ref_bytes :: "options \<Rightarrow> algo \<Rightarrow> bytes \<Rightarrow> bytes \<Rightarrow> ref_reports" where
  "check_ref_bytes q a refname data =
     (case cut_prefix data (str ''ref:'') of
        Some rest \<Rightarrow> check_symref_content q refname (trim_left is_space_byte rest)
      | None \<Rightarrow>
          (case parse_prefix a data of
             None \<Rightarrow> ref_report q refname MsgBadRefContent (trim_right is_space_byte data)
           | Some (x, trailing) \<Rightarrow>
               if trailing = [] then ref_report q refname MsgRefMissingNewline (str ''misses LF at the end'')
               else if trailing \<noteq> [10] then
                 ref_report q refname MsgTrailingRefContent (str ''has trailing garbage: '' @ [39] @ trailing @ [39])
               else if is_null x then
                 ref_report q refname MsgBadRefOid (str ''points to invalid object ID '' @ [39] @ oid_string x @ [39])
               else []))"

text \<open>Where a symbolic link leads, below the repository when it does. \<open>join_slash\<close> prints a path.\<close>

definition join_slash :: "path \<Rightarrow> bytes" where
  "join_slash p = (case p of [] \<Rightarrow> str ''.'' | c # cs \<Rightarrow> c @ concat (map (\<lambda>x. ascii CHR ''/'' # x) cs))"

definition link_referent :: "path \<Rightarrow> path \<Rightarrow> bytes" where
  "link_referent gitdir target =
     (let n = length gitdir; rest = drop n target in
      if n \<le> length target \<and> take n target = gitdir \<and> \<not> has_prefix (join_slash rest) (str ''..'') then join_slash rest
      else ascii CHR ''/'' # (if target = [] then [] else join_slash target))"

definition check_ref_content ::
    "options \<Rightarrow> repository \<Rightarrow> files \<Rightarrow> (path \<Rightarrow> path option) \<Rightarrow> bytes \<Rightarrow> path \<Rightarrow> file_kind \<Rightarrow> ref_reports" where
  "check_ref_content q r fs eval_links refname p kind =
     (if kind = SymlinkFile then
        ref_report q refname MsgSymlinkRef (str ''use deprecated symbolic link for symref'') @
        (case eval_links p of
           None \<Rightarrow> []
         | Some target \<Rightarrow> check_symref_target q refname (link_referent (rp_common r) target))
      else (case fs p of None \<Rightarrow> [] | Some data \<Rightarrow> check_ref_bytes q (rp_algo r) refname data))"

text \<open>\<open>checkOneRef\<close>; no kind is a path \<open>os.Lstat\<close> fails on.\<close>

definition check_one_ref ::
    "options \<Rightarrow> repository \<Rightarrow> files \<Rightarrow> (path \<Rightarrow> path option) \<Rightarrow> (path \<Rightarrow> file_kind option) \<Rightarrow> bytes \<Rightarrow> path \<Rightarrow> ref_reports" where
  "check_one_ref q r fs eval_links kind_of refname p =
     (case kind_of p of
        None \<Rightarrow> []
      | Some OtherFile \<Rightarrow> ref_report q refname MsgBadRefFiletype (str ''unexpected file type'')
      | Some kind \<Rightarrow> check_ref_name q refname @ check_ref_content q r fs eval_links refname p kind)"

text \<open>\<open>checkRefsDir\<close> over the files of a walk, by their path below the directory, and \<open>checkRootRefs\<close>
  over the entries of a directory, each with its kind. \<open>os.ReadDir\<close> returns them sorted.\<close>

definition check_refs_dir ::
    "options \<Rightarrow> repository \<Rightarrow> files \<Rightarrow> (path \<Rightarrow> path option) \<Rightarrow> (path \<Rightarrow> file_kind option) \<Rightarrow> path \<Rightarrow> bytes \<Rightarrow> bytes list \<Rightarrow> ref_reports" where
  "check_refs_dir q r fs eval_links kind_of root prefix rels =
     concat (map (\<lambda>rel. check_one_ref q r fs eval_links kind_of (prefix @ str ''refs/'' @ rel) (join_path root rel))
       (filter (\<lambda>rel. \<not> (take 1 (last_component rel) \<noteq> str ''.'' \<and> has_suffix (last_component rel) (str ''.lock'')))
         (sort rels)))"

definition check_root_refs ::
    "options \<Rightarrow> repository \<Rightarrow> files \<Rightarrow> (path \<Rightarrow> path option) \<Rightarrow> (path \<Rightarrow> file_kind option) \<Rightarrow> path \<Rightarrow> bytes \<Rightarrow>
     (bytes \<times> file_kind) list \<Rightarrow> ref_reports" where
  "check_root_refs q r fs eval_links kind_of dir prefix entries =
     concat (map (\<lambda>(name, kind).
         if take 1 name = str ''.'' \<or> has_suffix name (str ''.lock'') then []
         else if kind \<noteq> RegularFile \<or> \<not> is_root_ref name then []
         else check_one_ref q r fs eval_links kind_of (prefix @ name) (dir @ [name])) entries)"

section \<open>The packed table\<close>

definition at_line :: "nat \<Rightarrow> bytes" where
  "at_line n = str ''packed-refs line '' @ dec_digits n"

text \<open>\<open>packedLine\<close> on what is left of the file: the line, what follows it, and the complaint.\<close>

definition fsck_packed_line :: "options \<Rightarrow> bytes \<Rightarrow> nat \<Rightarrow> bytes \<times> bytes \<times> ref_reports" where
  "fsck_packed_line q data line =
     (case index_byte data (ascii CHR ''\<newline>'') of
        None \<Rightarrow> (data, [], ref_report q (at_line line) MsgPackedRefEntryNotTerminated
                  ([39] @ data @ [39] @ str '' is not terminated with a newline''))
      | Some i \<Rightarrow> (take i data, drop (Suc i) data, []))"

definition check_packed_header :: "options \<Rightarrow> bytes \<Rightarrow> bool \<times> ref_reports" where
  "check_packed_header q text_line =
     (case cut_prefix text_line packed_header of
        None \<Rightarrow> (False, ref_report q (str ''packed-refs.header'') MsgBadPackedRefHeader
          ([39] @ text_line @ [39] @ str '' does not start with '' @ [39] @ packed_header @ [39]))
      | Some traits \<Rightarrow> (str ''sorted'' \<in> set (split_on (ascii CHR '' '') traits), []))"

definition check_packed_entry :: "options \<Rightarrow> algo \<Rightarrow> nat \<Rightarrow> bytes \<Rightarrow> ref_reports" where
  "check_packed_entry q a line text_line =
     (case parse_prefix a text_line of
        None \<Rightarrow> ref_report q (at_line line) MsgBadPackedRefEntry ([39] @ text_line @ [39] @ str '' has invalid oid'')
      | Some (x, rest) \<Rightarrow>
          if rest = [] \<or> \<not> is_space_byte (hd rest) then
            ref_report q (at_line line) MsgBadPackedRefEntry
              (str ''has no space after oid '' @ [39] @ oid_string x @ [39] @ str '' but with '' @ [39] @ rest @ [39])
          else
            (if 0 \<in> set (tl rest)
             then ref_report q (at_line line) MsgBadPackedRefEntry
               (str ''refname '' @ [39] @ tl rest @ [39] @ str '' contains NULL binaries'') else []) @
            (if \<not> check_refname_format (tl rest) no_flags
             then ref_report q (at_line line) MsgBadRefName (str ''has bad refname '' @ [39] @ tl rest @ [39]) else []))"

definition check_packed_peeled :: "options \<Rightarrow> algo \<Rightarrow> nat \<Rightarrow> bytes \<Rightarrow> ref_reports" where
  "check_packed_peeled q a line text_line =
     (case parse_prefix a (drop 1 text_line) of
        None \<Rightarrow> ref_report q (at_line line) MsgBadPackedRefEntry
          ([39] @ drop 1 text_line @ [39] @ str '' has invalid peeled oid'')
      | Some (x, rest) \<Rightarrow>
          if rest \<noteq> [] then ref_report q (at_line line) MsgBadPackedRefEntry
            (str ''has trailing garbage after peeled oid '' @ [39] @ rest @ [39])
          else [])"

lemma fsck_packed_line_shorter: "fsck_packed_line q data line = (t, rest, rs) \<Longrightarrow> data \<noteq> [] \<Longrightarrow> length rest < length data"
  by (auto simp: fsck_packed_line_def dest: index_byte_lt split: option.splits)

function packed_content_loop :: "options \<Rightarrow> algo \<Rightarrow> nat \<Rightarrow> bytes \<Rightarrow> ref_reports" where
  "packed_content_loop q a line data =
     (if data = [] then []
      else (case fsck_packed_line q data line of
          (t1, rest1, rs1) \<Rightarrow>
            rs1 @ check_packed_entry q a line t1 @
            (if take 1 rest1 = str ''^'' then
               (case fsck_packed_line q rest1 (line + 1) of
                  (t2, rest2, rs2) \<Rightarrow>
                    rs2 @ check_packed_peeled q a (line + 1) t2 @ packed_content_loop q a (line + 2) rest2)
             else packed_content_loop q a (line + 1) rest1)))"
  by pat_completeness auto
termination
  by (relation "measure (\<lambda>(_, _, _, d). length d)")
    (auto dest!: sym [of _ "fsck_packed_line _ _ _"] dest: fsck_packed_line_shorter, fastforce dest: fsck_packed_line_shorter)

declare packed_content_loop.simps [simp del]

text \<open>\<open>checkPackedRefsContent\<close> on a file that is not empty. Its opening line is read before the loop, and
  once more by the loop when it is no header.\<close>

definition check_packed_content :: "options \<Rightarrow> algo \<Rightarrow> bytes \<Rightarrow> bool \<times> ref_reports" where
  "check_packed_content q a data =
     (case fsck_packed_line q data 1 of
        (t, rest, rs) \<Rightarrow>
          if take 1 data = str ''#'' then
            (case check_packed_header q t of (s, hs) \<Rightarrow> (s, rs @ hs @ packed_content_loop q a 2 rest))
          else (False, rs @ packed_content_loop q a 1 data))"

function packed_sorted_loop :: "options \<Rightarrow> algo \<Rightarrow> nat \<Rightarrow> bytes \<Rightarrow> bytes \<Rightarrow> ref_reports" where
  "packed_sorted_loop q a line prev data =
     (if data = [] then []
      else let i = (case index_byte data (ascii CHR ''\<newline>'') of Some k \<Rightarrow> k | None \<Rightarrow> length data);
               t = take i data; rest = drop (Suc i) data; cur = drop (hex_size a + 1) t
           in if has_prefix t (str ''^'') \<or> length t \<le> hex_size a then packed_sorted_loop q a (line + 1) prev rest
              else if prev \<noteq> [] \<and> cur \<le> prev then
                ref_report q (at_line line) MsgPackedRefUnsorted
                  (str ''refname '' @ [39] @ cur @ [39] @ str '' is less than previous refname '' @ [39] @ prev @ [39])
              else packed_sorted_loop q a (line + 1) cur rest)"
  by pat_completeness auto
termination
  by (relation "measure (\<lambda>(_, _, _, _, d). length d)") auto

declare packed_sorted_loop.simps [simp del]

definition check_packed_sorted :: "options \<Rightarrow> algo \<Rightarrow> bytes \<Rightarrow> ref_reports" where
  "check_packed_sorted q a data =
     (case (if take 1 data = str ''#'' then index_byte data (ascii CHR ''\<newline>'') else None) of
        Some i \<Rightarrow> packed_sorted_loop q a 2 [] (drop (Suc i) data)
      | None \<Rightarrow> packed_sorted_loop q a 1 [] data)"

definition check_packed_bytes :: "options \<Rightarrow> algo \<Rightarrow> bytes \<Rightarrow> ref_reports" where
  "check_packed_bytes q a data =
     (if data = [] then ref_report q (str ''packed-refs'') MsgEmptyPackedRefsFile (str ''file is empty'')
      else (case check_packed_content q a data of
          (s, rs) \<Rightarrow> rs @ (if s then check_packed_sorted q a data else [])))"

definition check_packed_refs ::
    "options \<Rightarrow> repository \<Rightarrow> files \<Rightarrow> (path \<Rightarrow> file_kind option) \<Rightarrow> path \<Rightarrow> ref_reports" where
  "check_packed_refs q r fs kind_of p =
     (case kind_of p of
        None \<Rightarrow> []
      | Some SymlinkFile \<Rightarrow> ref_report q (str ''packed-refs'') MsgBadRefFiletype (str ''not a regular file but a symlink'')
      | Some OtherFile \<Rightarrow> ref_report q (str ''packed-refs'') MsgBadRefFiletype (str ''not a regular file'')
      | Some RegularFile \<Rightarrow> (case fs p of None \<Rightarrow> [] | Some data \<Rightarrow> check_packed_bytes q (rp_algo r) data))"

section \<open>The phase\<close>

text \<open>\<open>checkRefs\<close>: every worktree in turn, the packed table with the main one.\<close>

record ref_listing =
  walked :: "path \<Rightarrow> bytes list"
  listed :: "path \<Rightarrow> (bytes \<times> file_kind) list"
  kind_at :: "path \<Rightarrow> file_kind option"
  link_at :: "path \<Rightarrow> path option"

definition check_worktree_refs :: "options \<Rightarrow> repository \<Rightarrow> files \<Rightarrow> ref_listing \<Rightarrow> worktree \<Rightarrow> ref_reports" where
  "check_worktree_refs q r fs l w =
     (let prefix = (if wt_main w then [] else str ''worktrees/'' @ wt_id w @ str ''/''); dir = wt_dir w in
      check_refs_dir q r fs (link_at l) (kind_at l) (dir @ [str ''refs'']) prefix (walked l (dir @ [str ''refs''])) @
      check_root_refs q r fs (link_at l) (kind_at l) dir prefix (listed l dir) @
      (if wt_main w then check_packed_refs q r fs (kind_at l) (dir @ [str ''packed-refs'']) else []))"

definition check_refs :: "options \<Rightarrow> repository \<Rightarrow> files \<Rightarrow> ref_listing \<Rightarrow> worktree list \<Rightarrow> ref_reports \<times> nat" where
  "check_refs q r fs l wts =
     (let rs = concat (map (check_worktree_refs q r fs l) wts) in (rs, refs_status rs))"

end
