(* ===== verification/PackedRepair.thy ===== *)
theory PackedRepair
  imports PackedRefs RefsVerify
begin

text \<open>
  What the rewrite of packed-refs keeps: the rendered file reads back in every reader of the program,
  and every reference the damaged file still held is in it.
\<close>

section \<open>One line at a time\<close>

lemma nl: "ascii CHR ''\<newline>'' = (10 :: byte)"
  by simp

lemma packed_loop_line:
  "10 \<notin> set l \<Longrightarrow> packed_loop a shown first (l @ 10 # rest) fatal =
     (case packed_line a shown first l fatal of
        (r, f2) \<Rightarrow> (case packed_loop a shown False rest f2 of
          (rs, f3) \<Rightarrow> (case r of None \<Rightarrow> rs | Some x \<Rightarrow> x # rs, f3)))"
  by (subst packed_loop.simps) (simp add: Let_def)

lemma fsck_packed_line_nl:
  "10 \<notin> set l \<Longrightarrow> fsck_packed_line q (l @ 10 # rest) n = (l, rest, [])"
  by (simp add: fsck_packed_line_def)

lemma name_bytes:
  assumes "check_refname_format n no_flags"
  shows "10 \<notin> set n" "13 \<notin> set n" "32 \<notin> set n"
proof -
  have "c \<notin> set n" if "forbidden_byte c" "\<not> is_sep c" for c
    using check_refname_format_bytes [OF assms, of c] that by blast
  then show "10 \<notin> set n" "13 \<notin> set n" "32 \<notin> set n"
    by (simp_all add: forbidden_byte_def is_sep_def)
qed

lemma hex_bytes:
  assumes "c \<in> set (oid_string x)"
  shows "c \<noteq> 10" "c \<noteq> 13" "c \<noteq> 32" "c \<noteq> 35" "c \<noteq> 94"
  using oid_string_lower [OF assms] by (auto simp: is_lower_hex_def)

lemma hex_clean: "10 \<notin> set (oid_string x)" "13 \<notin> set (oid_string x)" "32 \<notin> set (oid_string x)"
  using hex_bytes [of _ x] by blast+

definition good_row :: "algo \<Rightarrow> bytes \<Rightarrow> oid \<Rightarrow> bool" where
  "good_row a n x \<longleftrightarrow> wf_oid a x \<and> check_refname_format n no_flags"

abbreviation row :: "bytes \<Rightarrow> oid \<Rightarrow> bytes" where
  "row n x \<equiv> oid_string x @ 32 # n"

lemma row_cons:
  assumes "wf_algo a" and "wf_oid a x"
  obtains c cs where "oid_string x = c # cs" "c \<noteq> 35" "c \<noteq> 94"
proof -
  have "oid_string x \<noteq> []" using length_oid_string [OF assms] wf_algo_sizes [OF assms(1)] by auto
  then show ?thesis using that hex_bytes(4,5) [of _ x] by (cases "oid_string x") auto
qed

lemma packed_line_row:
  assumes "wf_algo a" and "good_row a n x"
  shows "packed_line a shown first (row n x) fatal =
     (Some \<lparr>ref_name = n, ref_oid = x, ref_symref = [], ref_broken = False\<rparr>, fatal)"
proof -
  have x: "wf_oid a x" and n: "check_refname_format n no_flags" using assms(2) by (simp_all add: good_row_def)
  obtain c cs where c: "oid_string x = c # cs" "c \<noteq> 35" "c \<noteq> 94" using row_cons [OF assms(1) x] .
  have l: "length (oid_string x) = hex_size a" by (rule length_oid_string [OF assms(1) x])
  have "parse_hex_bytes a (row n x) = Some x" by (rule parse_hex_bytes_string [OF assms(1) x])
  moreover have "row n x ! hex_size a = 32" "drop (hex_size a + 1) (row n x) = n"
    using l by (simp_all add: nth_append)
  moreover have "n \<noteq> []" using n by (rule check_refname_format_nonempty)
  moreover have "\<not> length (row n x) < hex_size a + 2" using l \<open>n \<noteq> []\<close> by (cases n) auto
  ultimately show ?thesis
    using c n unfolding packed_line_def by (simp add: Let_def)
qed

lemma packed_line_peel:
  assumes "wf_algo a" and "wf_oid a y"
  shows "packed_line a shown first (94 # oid_string y) fatal = (None, fatal)"
proof -
  have "parse_hex_bytes a (oid_string y) = Some y"
    using parse_hex_bytes_string [OF assms, of "[]"] by simp
  then show ?thesis using length_oid_string [OF assms] by (simp add: packed_line_def)
qed

lemma salvage_ref_row:
  assumes "wf_algo a" and "good_row a n x"
  shows "salvage_ref a (row n x) = Some (n, x)"
proof -
  have x: "wf_oid a x" and n: "check_refname_format n no_flags" using assms(2) by (simp_all add: good_row_def)
  have "parse_oid a (oid_string x) = Some x"
    using parse_hex_bytes_string [OF assms(1) x, of "[]"] length_oid_string [OF assms(1) x]
    by (simp add: parse_oid_eq [OF assms(1)])
  then show ?thesis
    using n hex_clean(3) [of x] check_refname_format_nonempty [OF n] by (simp add: salvage_ref_def cut_space_def)
qed

section \<open>A rendered table\<close>

type_synonym packed_row = "bytes \<times> oid \<times> oid option"

definition rows_body :: "packed_row list \<Rightarrow> bytes" where
  "rows_body rows = concat (map (\<lambda>(n, x, p). ref_lines n x p) rows)"

definition good_rows :: "algo \<Rightarrow> packed_row list \<Rightarrow> bool" where
  "good_rows a rows \<longleftrightarrow> (\<forall>(n, x, p) \<in> set rows. good_row a n x \<and> (\<forall>y. p = Some y \<longrightarrow> wf_oid a y))"

definition row_ref :: "packed_row \<Rightarrow> bytes \<times> oid" where
  "row_ref r = (fst r, fst (snd r))"

definition read_ref :: "bytes \<times> oid \<Rightarrow> reference" where
  "read_ref r = \<lparr>ref_name = fst r, ref_oid = snd r, ref_symref = [], ref_broken = False\<rparr>"

lemma rows_body_Nil [simp]: "rows_body [] = []"
  by (simp add: rows_body_def)

lemma rows_body_Cons:
  "rows_body ((n, x, p) # rows) =
     row n x @ 10 # (case p of None \<Rightarrow> [] | Some y \<Rightarrow> 94 # oid_string y @ [10]) @ rows_body rows"
  by (simp add: rows_body_def ref_lines_def split: option.split)

lemma rows_body_None: "rows_body ((n, x, None) # rows) = row n x @ 10 # rows_body rows"
  and rows_body_Some: "rows_body ((n, x, Some y) # rows) = row n x @ 10 # (94 # oid_string y) @ 10 # rows_body rows"
  by (simp_all add: rows_body_Cons)

lemma good_rows_Cons [simp]:
  "good_rows a ((n, x, p) # rows) \<longleftrightarrow> good_row a n x \<and> (\<forall>y. p = Some y \<longrightarrow> wf_oid a y) \<and> good_rows a rows"
  by (auto simp: good_rows_def)

lemma row_clean: "good_row a n x \<Longrightarrow> 10 \<notin> set (row n x)"
  using hex_clean [of x] name_bytes [of n] by (simp add: good_row_def)

lemma peel_clean: "10 \<notin> set (94 # oid_string y)"
  using hex_clean [of y] by simp

text \<open>The four readers on a rendered table: git's, the salvage, the line check and the order check.\<close>

lemma packed_loop_rows:
  assumes a: "wf_algo a"
  shows "good_rows a rows \<Longrightarrow>
    packed_loop a shown first (rows_body rows) fatal = (map (read_ref \<circ> row_ref) rows, fatal)"
proof (induction rows arbitrary: first)
  case Nil
  then show ?case by (simp add: packed_loop.simps)
next
  case (Cons t rows)
  obtain n x p where t: "t = (n, x, p)" by (cases t)
  have g: "good_row a n x" "good_rows a rows" "p = Some y \<Longrightarrow> wf_oid a y" for y
    using Cons.prems t by auto
  have step: "packed_loop a shown first (row n x @ 10 # r) fatal =
      (case packed_loop a shown False r fatal of (rs, f) \<Rightarrow> (read_ref (n, x) # rs, f))" for r
    using packed_loop_line [OF row_clean [OF g(1)], of a shown first r fatal] packed_line_row [OF a g(1)]
    by (simp add: read_ref_def)
  show ?case
  proof (cases p)
    case None
    then show ?thesis using step Cons.IH [OF g(2)] by (simp add: t rows_body_None row_ref_def del: append_assoc)
  next
    case (Some y)
    have "packed_loop a shown False ((94 # oid_string y) @ 10 # r) fatal = packed_loop a shown False r fatal" for r
      using packed_loop_line [OF peel_clean, of a shown False y r fatal] packed_line_peel [OF a g(3) [OF Some]]
      by (simp split: prod.split)
    then show ?thesis
      using step Cons.IH [OF g(2)] by (simp add: t Some rows_body_Some row_ref_def del: append_assoc append_Cons)
  qed
qed

lemma no_cr_row: "good_row a n x \<Longrightarrow> no_cr (row n x) = row n x"
  using name_bytes(2) [of n] check_refname_format_nonempty [of n] unfolding no_cr_def
  by (intro trim_right_id) (auto simp: good_row_def dest: last_in_set)

lemma no_cr_peel: "no_cr (94 # oid_string y) = 94 # oid_string y"
  unfolding no_cr_def using hex_clean(2) [of y] by (intro trim_right_id) (auto dest: last_in_set)

lemma split_line: "10 \<notin> set l \<Longrightarrow> split_on 10 (l @ 10 # r) = l # split_on 10 r"
  by (rule split_on_append)

lemma rune_chunks_ascii: "\<forall>c \<in> set s. c < 0x80 \<Longrightarrow> rune_chunks s = map (\<lambda>c. (unat c, [c])) s"
  by (induction s) (simp_all add: rune_chunks_def runes_ascii)

lemma trim_space_ascii:
  assumes "\<forall>c \<in> set s. c < 0x80 \<and> \<not> is_space_rune (unat c)"
  shows "trim_space s = s"
proof -
  have r: "rune_chunks s = map (\<lambda>c. (unat c, [c])) s" using assms by (intro rune_chunks_ascii) auto
  have none: "dropWhile space_chunk cs = cs" if "\<forall>x \<in> set cs. \<not> space_chunk x" for cs
    using that by (cases cs) auto
  have "\<forall>x \<in> set (rune_chunks s). \<not> space_chunk x"
    using assms by (auto simp: r space_chunk_def)
  then have "trim_space s = concat (map snd (rune_chunks s))"
    by (simp add: trim_space_def none)
  also have "\<dots> = s" by (simp add: r comp_def)
  finally show ?thesis .
qed

lemma trim_space_hex: "trim_space (oid_string y) = oid_string y"
proof (rule trim_space_ascii, intro ballI)
  fix c assume "c \<in> set (oid_string y)"
  then have "is_lower_hex c" by (rule oid_string_lower)
  then have "48 \<le> unat c" "unat c \<le> 102" by (auto simp: is_lower_hex_def word_le_nat_alt)
  then show "c < 0x80 \<and> \<not> is_space_rune (unat c)" by (simp add: word_less_nat_alt is_space_rune_def)
qed

lemma salvage_line_row:
  assumes "wf_algo a" and "good_row a n x"
  shows "salvage_line a first (row n x) s = (AList.update n x (fst s), snd s)"
proof -
  obtain c cs where c: "oid_string x = c # cs" "c \<noteq> 35" "c \<noteq> 94"
    using row_cons [OF assms(1)] assms(2) unfolding good_row_def by blast
  then show ?thesis
    using salvage_ref_row [OF assms] no_cr_row [OF assms(2)] by (simp add: salvage_line_def Let_def)
qed

lemma salvage_line_peel:
  assumes "wf_algo a" and "wf_oid a y"
  shows "salvage_line a first (94 # oid_string y) s = s"
proof -
  have "parse_oid a (oid_string y) = Some y"
    using parse_hex_bytes_string [OF assms, of "[]"] length_oid_string [OF assms]
    by (simp add: parse_oid_eq [OF assms(1)])
  then show ?thesis using no_cr_peel [of y] trim_space_hex [of y] by (simp add: salvage_line_def Let_def)
qed

lemma salvage_rows:
  assumes a: "wf_algo a"
  shows "good_rows a rows \<Longrightarrow> salvage_lines a first (split_on 10 (rows_body rows)) s =
    (fold (\<lambda>(n, x). AList.update n x) (map row_ref rows) (fst s), snd s)"
proof (induction rows arbitrary: first s)
  case Nil
  then show ?case by (simp add: split_on_def salvage_line_def no_cr_def trim_right_def)
next
  case (Cons t rows)
  obtain n x p where t: "t = (n, x, p)" by (cases t)
  have g: "good_row a n x" "good_rows a rows" "p = Some y \<Longrightarrow> wf_oid a y" for y
    using Cons.prems t by auto
  have step: "salvage_lines a first (split_on 10 (row n x @ 10 # r)) s =
      salvage_lines a False (split_on 10 r) (AList.update n x (fst s), snd s)" for r
    using split_line [OF row_clean [OF g(1)], of r] salvage_line_row [OF a g(1)] by simp
  show ?case
  proof (cases p)
    case None
    then show ?thesis using step Cons.IH [OF g(2)] by (simp add: t rows_body_None row_ref_def del: append_assoc)
  next
    case (Some y)
    have "salvage_lines a False (split_on 10 ((94 # oid_string y) @ 10 # r)) s' =
        salvage_lines a False (split_on 10 r) s'" for r s'
      using split_line [OF peel_clean, of y r] salvage_line_peel [OF a g(3) [OF Some]] by simp
    then show ?thesis
      using step Cons.IH [OF g(2)] by (simp add: t Some rows_body_Some row_ref_def del: append_assoc append_Cons)
  qed
qed

lemma check_entry_row:
  assumes "wf_algo a" and "good_row a n x" and "0 \<notin> set n"
  shows "check_packed_entry q a line (row n x) = []"
proof -
  have "parse_prefix a (row n x) = Some (x, 32 # n)"
    using assms(1,2) by (intro parse_prefix_string) (simp_all add: good_row_def)
  then show ?thesis using assms(2,3) by (simp add: check_packed_entry_def is_space_byte_def good_row_def)
qed

lemma check_peeled_row:
  assumes "wf_algo a" and "wf_oid a y"
  shows "check_packed_peeled q a line (94 # oid_string y) = []"
  using parse_prefix_string [OF assms, of "[]"] by (simp add: check_packed_peeled_def)

lemma rows_body_head: "wf_algo a \<Longrightarrow> good_rows a rows \<Longrightarrow> take 1 (rows_body rows) \<noteq> [94]"
proof (cases rows)
  case (Cons t rs)
  obtain n x p where t: "t = (n, x, p)" by (cases t)
  assume "wf_algo a" "good_rows a rows"
  then obtain c cs where "oid_string x = c # cs" "c \<noteq> 94"
    using row_cons [of a x] unfolding Cons t good_rows_Cons good_row_def by blast
  then show ?thesis by (simp add: Cons t rows_body_Cons)
qed simp

lemma content_rows:
  assumes a: "wf_algo a"
  shows "good_rows a rows \<Longrightarrow> \<forall>(n, x, p) \<in> set rows. 0 \<notin> set n \<Longrightarrow> packed_content_loop q a line (rows_body rows) = []"
proof (induction rows arbitrary: line)
  case Nil
  then show ?case by (simp add: packed_content_loop.simps)
next
  case (Cons t rows)
  obtain n x p where t: "t = (n, x, p)" by (cases t)
  have g: "good_row a n x" "good_rows a rows" "p = Some y \<Longrightarrow> wf_oid a y" "0 \<notin> set n"
    "\<forall>(n, x, p) \<in> set rows. 0 \<notin> set n" for y
    using Cons.prems t by auto
  note first = fsck_packed_line_nl [OF row_clean [OF g(1)], of q]
  have hd: "take 1 (rows_body rows) \<noteq> [94]" by (rule rows_body_head [OF a g(2)])
  show ?case
  proof (cases p)
    case None
    show ?thesis
      using hd check_entry_row [OF a g(1,4)] Cons.IH [OF g(2,5)]
      by (subst packed_content_loop.simps) (simp add: t None rows_body_None first del: append_assoc take_Suc_conv_app_nth)
  next
    case (Some y)
    show ?thesis
      using check_entry_row [OF a g(1,4)] check_peeled_row [OF a g(3) [OF Some]] Cons.IH [OF g(2,5)]
        fsck_packed_line_nl [OF peel_clean, of q y]
      by (subst packed_content_loop.simps) (simp add: t Some rows_body_Some first del: append_assoc)
  qed
qed

lemma sorted_rows:
  assumes a: "wf_algo a"
  shows "good_rows a rows \<Longrightarrow> sorted_wrt (<) (map fst rows) \<Longrightarrow> prev = [] \<or> (\<forall>n \<in> fst ` set rows. prev < n) \<Longrightarrow>
    packed_sorted_loop q a line prev (rows_body rows) = []"
proof (induction rows arbitrary: line prev)
  case Nil
  then show ?case by (simp add: packed_sorted_loop.simps)
next
  case (Cons t rows)
  obtain n x p where t: "t = (n, x, p)" by (cases t)
  have g: "good_row a n x" "good_rows a rows" "p = Some y \<Longrightarrow> wf_oid a y" for y
    using Cons.prems t by auto
  have x: "wf_oid a x" and l: "length (oid_string x) = hex_size a"
    using g(1) length_oid_string [OF a] by (auto simp: good_row_def)
  have n: "n \<noteq> []" using g(1) check_refname_format_nonempty by (auto simp: good_row_def)
  obtain c cs where c: "oid_string x = c # cs" "c \<noteq> 94" using row_cons [OF a x] by metis
  have np: "\<not> has_prefix (row n x) [94]" using c by (simp add: has_prefix_def)
  have cut: "drop (hex_size a + 1) (row n x) = n" using l by simp
  have long: "\<not> length (row n x) \<le> hex_size a" using l by simp
  have ok: "prev \<noteq> [] \<longrightarrow> \<not> n \<le> prev" using Cons.prems(3) t by auto
  have step: "packed_sorted_loop q a line prev (row n x @ 10 # r) = packed_sorted_loop q a (line + 1) n r" for r line
    using row_clean [OF g(1)] np cut long ok
    by (subst packed_sorted_loop.simps) (cases "prev = []", simp_all add: Let_def del: append_assoc)
  have IH: "packed_sorted_loop q a line n (rows_body rows) = []" for line
    using Cons.prems t g(2) by (intro Cons.IH) auto
  show ?case
  proof (cases p)
    case None
    then show ?thesis using step IH by (simp add: t rows_body_None del: append_assoc)
  next
    case (Some y)
    have "packed_sorted_loop q a line n ((94 # oid_string y) @ 10 # r) = packed_sorted_loop q a (line + 1) n r" for line r
      using peel_clean [of y]
      by (subst packed_sorted_loop.simps) (simp add: Let_def has_prefix_def)
    then show ?thesis using step IH by (simp add: t Some rows_body_Some del: append_assoc append_Cons)
  qed
qed

section \<open>The rendered file\<close>

lemma parse_oid_wf: "wf_algo a \<Longrightarrow> parse_oid a s = Some x \<Longrightarrow> wf_oid a x"
  using parse_oid_eq [of a s] parse_hex_bytes_wf [of a s x]
  by (cases "length s = hex_size a") (auto simp: parse_oid_def)

lemma object_line_wf: "wf_algo a \<Longrightarrow> object_line a ls = Some x \<Longrightarrow> wf_oid a x"
  by (induction a ls rule: object_line.induct) (auto intro: parse_oid_wf split: option.splits if_splits)

lemma peel_loop_wf:
  "wf_algo (db_algo db) \<Longrightarrow> peel_loop db n first st cur = Some (Some y, st1) \<Longrightarrow> first \<or> wf_oid (db_algo db) cur \<Longrightarrow>
     wf_oid (db_algo db) y"
proof (induction db n first st cur arbitrary: st1 rule: peel_loop.induct)
  case (2 db n first st cur)
  note IH = 2(1) and a = 2(2) and run = 2(3) and cur = 2(4)
  show ?case
  proof (cases "read_object db st cur")
    case None
    with run show ?thesis by simp
  next
    case (Some r)
    obtain v st' where r: "r = (v, st')" by (cases r)
    show ?thesis
    proof (cases "\<exists>data. v = Inr (TypeTag, data) \<and> tagged_object (db_algo db) data \<noteq> None")
      case True
      then obtain data next_oid where d: "v = Inr (TypeTag, data)" "tagged_object (db_algo db) data = Some next_oid" by blast
      have "wf_oid (db_algo db) next_oid" using d(2) a object_line_wf by (auto simp: tagged_object_def)
      moreover have "peel_loop db n False st' next_oid = Some (Some y, st1)" using run Some r d by simp
      ultimately show ?thesis using IH Some r d a by blast
    next
      case False
      with run Some r cur show ?thesis by (auto simp: Let_def split: sum.splits prod.splits if_splits option.splits)
    qed
  qed
qed simp

lemma render_rows:
  "wf_algo (db_algo db) \<Longrightarrow> render_loop db st refs = Some (body, st1) \<Longrightarrow>
    \<forall>(n, x) \<in> set refs. good_row (db_algo db) n x \<Longrightarrow>
    \<exists>rows. body = rows_body rows \<and> map row_ref rows = refs \<and> good_rows (db_algo db) rows"
proof (induction db st refs arbitrary: body st1 rule: render_loop.induct)
  case (1 db st)
  then have "body = rows_body []" "good_rows (db_algo db) []" by (simp_all add: good_rows_def)
  then show ?case by (intro exI [of _ "[]"]) simp
next
  case (2 db st n x rs)
  obtain p st2 where p: "peel db st x = Some (p, st2)" using 2 by (cases "peel db st x") auto
  obtain b where b: "render_loop db st2 rs = Some (b, st1)" "body = ref_lines n x p @ b"
    using 2(3) p by auto
  obtain rows where rows: "b = rows_body rows" "map row_ref rows = rs" "good_rows (db_algo db) rows"
    using 2(1) [OF p refl 2(2) b(1)] 2(4) by auto
  have "wf_oid (db_algo db) y" if "p = Some y" for y
  proof -
    have "peel_loop db max_peel True st x = Some (Some y, st2)" using p that by (simp add: peel_def)
    from peel_loop_wf [OF 2(2) this] show ?thesis by simp
  qed
  then have "good_rows (db_algo db) ((n, x, p) # rows)" using 2 rows by simp
  moreover have "body = rows_body ((n, x, p) # rows)" using b rows by (simp add: rows_body_def)
  ultimately show ?case using rows(2) by (intro exI [of _ "(n, x, p) # rows"]) (simp add: row_ref_def [of "(n, x, p)"])
qed

lemma map_of_fold_update:
  "map_of (fold (\<lambda>(n, x). AList.update n x) l s) = map_of s ++ map_of (rev l)"
  by (induction l arbitrary: s) (auto simp: update_conv')

lemma map_of_rev_distinct: "distinct (map fst l) \<Longrightarrow> map_of (rev l) = map_of l"
  by (subst map_of_inject_set) (simp_all add: rev_map [symmetric])

lemma by_name_refs:
  assumes "distinct (map fst refs)"
  shows "map_of (by_name refs) = map_of refs" "sorted_wrt (<) (map fst (by_name refs))"
    "distinct (map fst (by_name refs))" "set (by_name refs) = set refs"
proof -
  show m: "map_of (by_name refs) = map_of refs"
  proof
    fix n
    have "n \<in> fst ` set refs \<longleftrightarrow> map_of refs n \<noteq> None" by (simp add: map_of_eq_None_iff)
    then show "map_of (by_name refs) n = map_of refs n"
      by (cases "map_of refs n") (simp_all add: by_name_def map_of_map_restrict restrict_map_def)
  qed
  have f: "map fst (by_name refs) = sort (map fst refs)" by (simp add: by_name_def comp_def)
  then show "sorted_wrt (<) (map fst (by_name refs))" and d: "distinct (map fst (by_name refs))"
    using assms by (simp_all add: strict_sorted_iff)
  show "set (by_name refs) = set refs"
    using assms d m by (simp add: map_of_inject_set)
qed

text \<open>What the rendered file is to each reader.\<close>

lemma packed_header_ok:
  "check_packed_header q (str ''# pack-refs with: peeled fully-peeled sorted '') = (True, [])"
proof -
  have "cut_prefix (str ''# pack-refs with: peeled fully-peeled sorted '') packed_header =
      Some (str ''peeled fully-peeled sorted '')"
    by (simp add: cut_prefix_def has_prefix_def packed_header_def)
  moreover have "split_on 32 (str ''peeled'' @ 32 # str ''fully-peeled'' @ 32 # str ''sorted'' @ 32 # []) =
      str ''peeled'' # str ''fully-peeled'' # str ''sorted'' # split_on 32 []"
    by (subst split_on_append, simp)+ simp
  moreover have "str ''peeled'' @ 32 # str ''fully-peeled'' @ 32 # str ''sorted'' @ 32 # [] = str ''peeled fully-peeled sorted ''"
    by simp
  ultimately show ?thesis by (simp add: check_packed_header_def del: str_def)
qed

lemma rendered_reads:
  assumes a: "wf_algo (db_algo db)" and d: "distinct (map fst refs)"
    and g: "\<forall>(n, x) \<in> set refs. good_row (db_algo db) n x"
    and r: "render_packed_refs db st refs = Some (body, st1)"
  shows "packed_loop (db_algo db) shown True body [] = (map read_ref (by_name refs), [])"
    and "\<exists>t. read_packed_lines (db_algo db) body = (t, []) \<and> map_of t = map_of refs"
    and "\<forall>(n, x) \<in> set refs. 0 \<notin> set n \<Longrightarrow> check_packed_bytes q (db_algo db) body = []"
proof -
  let ?a = "db_algo db" and ?h = "str ''# pack-refs with: peeled fully-peeled sorted ''"
  note by_n = by_name_refs [OF d]
  obtain b where b: "render_loop db st (by_name refs) = Some (b, st1)" "body = packed_refs_header @ b"
    using r by (auto simp: render_packed_refs_def)
  obtain rows where rows: "b = rows_body rows" "map row_ref rows = by_name refs" "good_rows ?a rows"
    using render_rows [OF a b(1)] g by_n(4) by auto
  have body: "body = ?h @ 10 # rows_body rows" using b(2) rows(1) by (simp add: packed_refs_header_def)
  have h10: "10 \<notin> set ?h" by simp
  have names: "map fst rows = map fst (by_name refs)"
    using rows(2) by (metis (no_types, lifting) comp_apply fst_conv map_eq_conv map_map row_ref_def)
  show "packed_loop ?a shown True body [] = (map read_ref (by_name refs), [])"
    unfolding body packed_loop_line [OF h10] packed_loop_rows [OF a rows(3)]
    using rows(2) by (simp add: packed_line_def has_prefix_def packed_header_def flip: map_map)
  have "read_packed_lines ?a body = (fold (\<lambda>(n, x). AList.update n x) (by_name refs) [], [])"
    unfolding read_packed_lines_def nl body split_line [OF h10] salvage_lines.simps salvage_rows [OF a rows(3)]
    using rows(2) by (simp add: salvage_line_def no_cr_def trim_right_def)
  moreover have "map_of (rev (by_name refs)) = map_of refs"
    using by_n by (simp add: map_of_rev_distinct)
  ultimately show "\<exists>t. read_packed_lines ?a body = (t, []) \<and> map_of t = map_of refs"
    by (simp add: map_of_fold_update)
  assume "\<forall>(n, x) \<in> set refs. 0 \<notin> set n"
  then have "\<forall>n \<in> fst ` set (by_name refs). 0 \<notin> set n" using by_n(4) by auto
  then have "\<forall>n \<in> set (map fst rows). 0 \<notin> set n" unfolding names by simp
  then have nul: "\<forall>(n, x, p) \<in> set rows. 0 \<notin> set n" by auto
  have "check_packed_content q ?a body = (True, [])"
    unfolding check_packed_content_def body fsck_packed_line_nl [OF h10] packed_header_ok prod.case
      content_rows [OF a rows(3) nul]
    by simp
  moreover have "check_packed_sorted q ?a body = []"
    unfolding check_packed_sorted_def body
    using sorted_rows [OF a rows(3)] by_n(2) names by simp
  ultimately show "check_packed_bytes q ?a body = []"
    by (simp add: check_packed_bytes_def body)
qed

section \<open>What the old file still held\<close>

definition written_refs :: "algo \<Rightarrow> bytes \<Rightarrow> (bytes \<times> oid) list" where
  "written_refs a data = List.map_filter (\<lambda>l. salvage_ref a (no_cr l)) (split_on 10 data)"

lemma cut_space_None: "32 \<notin> set l \<Longrightarrow> cut_space l = None"
  by (simp add: cut_space_def)

lemma hex_decode_bytes: "hex_decode s = Some b \<Longrightarrow> c \<in> set s \<Longrightarrow> unhex c \<noteq> None"
  by (induction s arbitrary: b rule: hex_decode.induct) (auto split: option.splits)

lemma salvage_ref_mark:
  assumes "wf_algo a" and "c = 35 \<or> c = 94"
  shows "salvage_ref a (c # rest) = None"
proof -
  have u: "unhex c = None" using assms(2) by (auto simp: unhex_def)
  have "parse_oid a (take i (c # rest)) = None" for i
  proof (cases "parse_oid a (take i (c # rest))")
    case (Some x)
    then have l: "length (take i (c # rest)) = hex_size a" and "\<exists>b. hex_decode (take i (c # rest)) = Some b"
      by (auto simp: parse_oid_def split: if_splits option.splits)
    moreover have "0 < hex_size a" using wf_algo_sizes [OF assms(1)] by simp
    ultimately have "c \<in> set (take i (c # rest))" by (cases i) auto
    with hex_decode_bytes u \<open>\<exists>b. _\<close> show ?thesis by blast
  qed
  then have "parse_oid a hex = None" if "cut_space (c # rest) = Some (hex, name)" for hex name
    using that by (auto simp: cut_space_def simp del: index_byte.simps take_Suc_Cons)
  then show ?thesis by (auto simp: salvage_ref_def split: option.split)
qed

lemma salvage_ref_Nil [simp]: "salvage_ref a [] = None"
  by (simp add: salvage_ref_def cut_space_def)

lemma salvage_line_fst:
  assumes "wf_algo a"
  shows "fst (salvage_line a first l s) =
    (case salvage_ref a (no_cr l) of None \<Rightarrow> fst s | Some (n, x) \<Rightarrow> AList.update n x (fst s))"
proof (cases "no_cr l")
  case (Cons c rest)
  then show ?thesis using salvage_ref_mark [OF assms, of c rest]
    by (auto simp: salvage_line_def Let_def split: option.split)
qed (simp add: salvage_line_def)

lemma salvage_lines_fst:
  "wf_algo a \<Longrightarrow> fst (salvage_lines a first ls s) =
     fold (\<lambda>(n, x). AList.update n x) (List.map_filter (\<lambda>l. salvage_ref a (no_cr l)) ls) (fst s)"
  by (induction ls arbitrary: first s)
    (auto simp: salvage_line_fst List.map_filter_def split: option.split)

lemma read_packed_fst:
  "wf_algo a \<Longrightarrow> fst (read_packed_lines a data) = fold (\<lambda>(n, x). AList.update n x) (written_refs a data) []"
  by (simp add: read_packed_lines_def salvage_lines_fst written_refs_def)

text \<open>A line that makes no reference is listed, unless there is nothing in it to lose.\<close>

definition nothing_to_lose :: "algo \<Rightarrow> bool \<Rightarrow> bytes \<Rightarrow> bool" where
  "nothing_to_lose a first l \<longleftrightarrow>
     (case l of [] \<Rightarrow> True
      | c # rest \<Rightarrow> c = 35 \<and> first \<or> c = 94 \<and> parse_oid a (trim_space rest) \<noteq> None)"

lemma salvage_line_snd:
  "set (snd s) \<subseteq> set (snd (salvage_line a first l s))"
  "salvage_ref a (no_cr l) = None \<Longrightarrow> \<not> nothing_to_lose a first (no_cr l) \<Longrightarrow> no_cr l \<in> set (snd (salvage_line a first l s))"
  by (auto simp: salvage_line_def nothing_to_lose_def Let_def split: list.splits option.splits)

lemma salvage_lines_mono: "set (snd s) \<subseteq> set (snd (salvage_lines a first ls s))"
proof (induction ls arbitrary: first s)
  case (Cons l ls)
  from salvage_line_snd(1) [of s a first l] Cons [of "salvage_line a first l s" False] show ?case by simp
qed simp

lemma salvage_lines_snd:
  "i < length ls \<Longrightarrow> salvage_ref a (no_cr (ls ! i)) = None \<Longrightarrow>
     \<not> nothing_to_lose a (first \<and> i = 0) (no_cr (ls ! i)) \<Longrightarrow> no_cr (ls ! i) \<in> set (snd (salvage_lines a first ls s))"
proof (induction ls arbitrary: first s i)
  case (Cons l ls)
  show ?case
  proof (cases i)
    case 0
    with Cons.prems salvage_line_snd(2) [of a l first s]
      salvage_lines_mono [of "salvage_line a first l s" a False ls] show ?thesis by auto
  next
    case (Suc k)
    then show ?thesis using Cons.IH [of k False] Cons.prems by simp
  qed
qed simp

text \<open>A reference git's reader takes from a line is one the salvage takes from it.\<close>

lemma hex_pairs_take: "hex_pairs n (take (2 * n) s) = hex_pairs n s"
  by (induction n s rule: hex_pairs.induct) (auto split: option.splits)

lemma hex_pairs_bytes: "hex_pairs n s = Some b \<Longrightarrow> c \<in> set (take (2 * n) s) \<Longrightarrow> unhex c \<noteq> None"
  by (induction n s arbitrary: b rule: hex_pairs.induct) (auto split: option.splits)

lemma read_line_salvaged:
  assumes a: "wf_algo a" and r: "packed_line a shown first l f = (Some y, f')" and b: "\<not> ref_broken y"
  shows "salvage_ref a (no_cr l) = Some (ref_name y, ref_oid y)"
proof -
  let ?h = "hex_size a"
  obtain x where l: "?h + 2 \<le> length l" "parse_hex_bytes a l = Some x" "l ! ?h = 32"
    "check_refname_format (drop (?h + 1) l) no_flags" "ref_name y = drop (?h + 1) l" "ref_oid y = x"
    using r b by (auto simp: packed_line_def Let_def split: list.splits if_splits option.splits)
  note sz = wf_algo_sizes [OF a]
  have eq: "l = take ?h l @ 32 # drop (?h + 1) l" using l(1,3) by (metis Suc_eq_plus1 add_lessD1 id_take_nth_drop less_add_same_cancel1 order_less_le_trans zero_less_numeral)
  have "parse_hex_bytes a (take ?h l) = Some x"
    using l(1,2) sz hex_pairs_take [of "raw_size a" l] by (auto simp: parse_hex_bytes_def split: if_splits option.splits)
  then have p: "parse_oid a (take ?h l) = Some x" using l(1) by (simp add: parse_oid_eq [OF a])
  obtain h where "hex_pairs (raw_size a) l = Some h"
    using l(2) by (auto simp: parse_hex_bytes_def split: if_splits option.splits)
  from hex_pairs_bytes [OF this, of 32] have sp: "32 \<notin> set (take ?h l)" using sz by (auto simp: unhex_def)
  have cut: "cut_space l = Some (take ?h l, drop (?h + 1) l)"
    using sp l(1) unfolding cut_space_def by (subst (1) eq) simp
  have "no_cr l = l" unfolding no_cr_def
  proof (rule trim_right_id)
    have "last l = last (drop (?h + 1) l)" using l(1) by (simp add: last_drop)
    moreover have "last (drop (?h + 1) l) \<in> set (drop (?h + 1) l)" using l(1) by (intro last_in_set) simp
    ultimately show "l = [] \<or> last l \<noteq> 13" using name_bytes(2) [OF l(4)] by auto
  qed
  then show ?thesis using cut p l(4-6) check_refname_format_nonempty [OF l(4)] by (simp add: salvage_ref_def)
qed

lemma split_on_index:
  "split_on c s = (case index_byte s c of None \<Rightarrow> [s] | Some i \<Rightarrow> take i s # split_on c (drop (Suc i) s))"
proof (cases "index_byte s c")
  case (Some i)
  then have "c \<notin> set (take i s)" using index_byte_SomeD by metis
  then have "split_on c (take i s @ c # drop (Suc i) s) = take i s # split_on c (drop (Suc i) s)" by (rule split_on_append)
  then show ?thesis using Some index_byte_split [OF Some] by simp
next
  case None
  then have "split_on c s = [s]" by (intro split_on_notin) simp
  with None show ?thesis by (simp del: index_byte_None)
qed

lemma packed_loop_salvaged:
  "wf_algo a \<Longrightarrow> y \<in> set (fst (packed_loop a shown first data f)) \<Longrightarrow> \<not> ref_broken y \<Longrightarrow>
     \<exists>l \<in> set (split_on 10 data). salvage_ref a (no_cr l) = Some (ref_name y, ref_oid y)"
proof (induction a shown first data f rule: packed_loop.induct)
  case (1 a shown first data f)
  define line where "line = (case index_byte data 10 of Some k \<Rightarrow> take k data | None \<Rightarrow> data)"
  define rest where "rest = (case index_byte data 10 of Some k \<Rightarrow> drop (Suc k) data | None \<Rightarrow> [])"
  define f1 where "f1 = (case index_byte data 10 of Some k \<Rightarrow> f
    | None \<Rightarrow> note_bad_packed_line shown (str ''unterminated'') line f)"
  obtain r f2 where pl: "packed_line a shown first line f1 = (r, f2)" by (cases "packed_line a shown first line f1")
  obtain rs f3 where rec: "packed_loop a shown False rest f2 = (rs, f3)" by (cases "packed_loop a shown False rest f2")
  have sp: "line \<in> set (split_on 10 data)" "rest \<noteq> [] \<Longrightarrow> set (split_on 10 rest) \<subseteq> set (split_on 10 data)"
    by (cases "index_byte data 10"; simp add: split_on_index [of 10 data] line_def rest_def del: index_byte_None; blast)+
  have ne: "data \<noteq> []" using 1(3) by (auto simp: packed_loop.simps)
  have run: "packed_loop a shown first data f = (case r of None \<Rightarrow> rs | Some x \<Rightarrow> x # rs, f3)"
    unfolding packed_loop.simps [of a shown first data f] Let_def nl line_def [symmetric] rest_def [symmetric]
      f1_def [symmetric] pl prod.case rec
    using ne by simp
  show ?case
  proof (cases "r = Some y")
    case True
    with read_line_salvaged [OF 1(2)] pl 1(4) sp(1) show ?thesis by blast
  next
    case False
    then have y: "y \<in> set rs" using 1(3) run by (auto split: option.splits)
    then have nr: "rest \<noteq> []" using rec by (auto simp: packed_loop.simps)
    have "\<exists>l \<in> set (split_on 10 rest). salvage_ref a (no_cr l) = Some (ref_name y, ref_oid y)"
      using y rec pl 1(2,4) ne
      by (intro "1.IH" [of "index_byte data 10" line rest f1 r f2])
        (simp_all add: line_def rest_def f1_def)
    then show ?thesis using sp(2) [OF nr] by blast
  qed
qed

lemma map_filter_mem: "(y \<in> set (List.map_filter f xs)) \<longleftrightarrow> (\<exists>x \<in> set xs. f x = Some y)"
  by (force simp: List.map_filter_def)

lemma packed_refs_written:
  "wf_algo a \<Longrightarrow> y \<in> set (fst (packed_loop a shown first data f)) \<Longrightarrow> \<not> ref_broken y \<Longrightarrow>
     (ref_name y, ref_oid y) \<in> set (written_refs a data)"
  using packed_loop_salvaged by (simp add: written_refs_def map_filter_mem)

lemma written_good:
  assumes "wf_algo a" and "(n, x) \<in> set (written_refs a data)"
  shows "good_row a n x"
  using assms parse_oid_wf [OF assms(1)]
  by (fastforce simp: written_refs_def map_filter_mem salvage_ref_def good_row_def split: option.splits if_splits)

section \<open>The references put back\<close>

lemma reflog_line_wf: "reflog_line a l = Some e \<Longrightarrow> wf_oid a (rl_old e) \<and> wf_oid a (rl_new e)"
  by (auto simp: reflog_line_def parse_hex_bytes_wf split: option.splits if_splits)

lemma reflog_wf: "e \<in> set (reflog r fs dir name) \<Longrightarrow> wf_oid (rp_algo r) (rl_old e) \<and> wf_oid (rp_algo r) (rl_new e)"
  unfolding reflog_def Let_def by (auto simp: map_filter_mem dest: reflog_line_wf split: option.splits)

text \<open>What the log search picks: an entry of the log whose object is there and reads.\<close>

lemma newest_good_found:
  "newest_good db st es = Some (Some x, st1) \<Longrightarrow>
     db_has db x \<and> (\<exists>st' v. read_object db st' x = Some (Inr v, st1)) \<and> (\<exists>e \<in> set es. rl_new e = x)"
proof (induction db st es rule: newest_good.induct)
  case (2 db st e es)
  have later: ?case if "newest_good db st' es = Some (Some x, st1) \<Longrightarrow>
      db_has db x \<and> (\<exists>st' v. read_object db st' x = Some (Inr v, st1)) \<and> (\<exists>e \<in> set es. rl_new e = x)"
    and "newest_good db st' es = Some (Some x, st1)" for st'
    using that by auto
  show ?case
  proof (cases "\<not> valid_oid (rl_new e) \<or> \<not> db_has db (rl_new e)")
    case True
    then show ?thesis using 2 by (intro later [of st]) auto
  next
    case False
    then obtain v st' where r: "read_object db st (rl_new e) = Some (v, st')"
      using 2(3) by (cases "read_object db st (rl_new e)") auto
    show ?thesis
    proof (cases v)
      case (Inl err)
      then show ?thesis using 2 False r by (intro later [of st']) auto
    next
      case (Inr w)
      then have "x = rl_new e" "read_object db st x = Some (Inr w, st1)" using 2(3) False r by auto
      then show ?thesis using False by (metis list.set_intros(1))
    qed
  qed
qed simp

lemma last_good_value_found:
  assumes "wf_algo (db_algo db)" and "rp_algo r = db_algo db"
    and "last_good_value r wts db fs st name = Some (Some (x, w), st1)"
  shows "wf_oid (db_algo db) x \<and> db_has db x"
proof -
  obtain dir refname where s: "split_ref_name r wts name = (dir, refname)" by (cases "split_ref_name r wts name")
  show ?thesis
  proof (cases "loose_value db fs (join_path (rp_common r) refname)")
    case (Some y)
    then have "y = x" using assms(3) s by (simp add: last_good_value_def)
    with Some show ?thesis
      by (auto simp: loose_value_def dest: parse_oid_wf [OF assms(1)] split: option.splits if_splits)
  next
    case None
    then have "newest_good db st (rev (reflog r fs dir refname)) = Some (Some x, st1)"
      using assms(3) s by (auto simp: last_good_value_def)
    from newest_good_found [OF this] reflog_wf [of _ r fs dir refname] assms(2) show ?thesis by auto
  qed
qed

lemma length_update: "k \<notin> fst ` set t \<Longrightarrow> length (AList.update k v t) = Suc (length t)"
  by (induction t) auto

lemma update_mem: "(k, v) \<in> set (AList.update n x t) \<Longrightarrow> (k, v) = (n, x) \<or> (k, v) \<in> set t"
  by (induction t) (auto split: if_splits)

definition restored_map :: "(bytes \<times> oid \<times> value_from) list \<Rightarrow> bytes \<Rightarrow> oid option" where
  "restored_map rs = map_of (map (\<lambda>(n, x, w). (n, x)) rs)"

lemma restore_loop_facts:
  "restore_loop lgv st ns refs = Some (rs, refs1, st1) \<Longrightarrow>
      \<forall>st n x w st1. lgv st n = Some (Some (x, w), st1) \<longrightarrow> wf_oid a x \<and> has x \<Longrightarrow> distinct (map fst refs) \<Longrightarrow>
      \<forall>(n, x) \<in> set refs. good_row a n x \<Longrightarrow> \<forall>n \<in> set ns. check_refname_format n no_flags \<Longrightarrow>
    map_of refs1 = restored_map rs ++ map_of refs \<and> distinct (map fst refs1) \<and>
      length refs1 = length refs + length rs \<and> (\<forall>(n, x) \<in> set refs1. good_row a n x) \<and>
      (\<forall>(n, x, w) \<in> set rs. n \<in> set ns \<and> map_of refs n = None \<and> has x)"
proof (induction lgv st ns refs arbitrary: rs refs1 st1 rule: restore_loop.induct)
  case (1 lgv st refs)
  then show ?case by (auto simp: restored_map_def)
next
  case (2 lgv st n ns refs)
  note run = 2(4) and hyps = 2(5-8)
  show ?case
  proof (cases "map_of refs n")
    case (Some y)
    then show ?thesis using 2(1) run hyps by auto
  next
    case None
    then obtain v st2 where v: "lgv st n = Some (v, st2)" using run by (cases "lgv st n") auto
    show ?thesis
    proof (cases v)
      case v0: None
      have "restore_loop lgv st2 ns refs = Some (rs, refs1, st1)" using run None v v0 by simp
      from 2(2) [OF _ v refl v0 this hyps(1-3)] None hyps(4)
      have "map_of refs1 = restored_map rs ++ map_of refs \<and> distinct (map fst refs1) \<and>
        length refs1 = length refs + length rs \<and> (\<forall>(n, x) \<in> set refs1. good_row a n x) \<and>
        (\<forall>(n, x, w) \<in> set rs. n \<in> set ns \<and> map_of refs n = None \<and> has x)" by simp
      then show ?thesis by auto
    next
      case (Some xw)
      obtain x w where xw: "xw = (x, w)" by (cases xw)
      obtain rs' where rs': "restore_loop lgv st2 ns (AList.update n x refs) = Some (rs', refs1, st1)"
        "rs = (n, x, w) # rs'"
        using run None v Some xw by auto
      have x: "wf_oid a x" "has x" using hyps(1) [rule_format, of st n x w st2] v Some xw by simp_all
      have good: "\<forall>(k, y) \<in> set (AList.update n x refs). good_row a k y"
        using hyps(3,4) x(1) by (auto simp: good_row_def dest!: update_mem)
      have n: "n \<notin> fst ` set refs" using None by (simp add: map_of_eq_None_iff)
      have d: "distinct (map fst (AList.update n x refs))" using hyps(2) by (rule distinct_update)
      have IH: "map_of refs1 = restored_map rs' ++ map_of (AList.update n x refs) \<and> distinct (map fst refs1) \<and>
          length refs1 = length (AList.update n x refs) + length rs' \<and> (\<forall>(n, x) \<in> set refs1. good_row a n x) \<and>
          (\<forall>(k, y, w) \<in> set rs'. k \<in> set ns \<and> map_of (AList.update n x refs) k = None \<and> has y)"
        using 2(3) [OF _ v _ Some _ rs'(1) hyps(1) d good] None xw hyps(4) by simp
      then have off: "restored_map rs' n = None"
        by (auto simp: restored_map_def map_of_eq_None_iff update_conv' split: if_splits)
      have "map_of refs1 = restored_map rs ++ map_of refs"
        using IH off None by (auto simp: rs'(2) restored_map_def update_conv' map_add_def fun_eq_iff split: option.splits)
      then show ?thesis
        using IH n x(2) None by (auto simp: rs'(2) length_update update_conv' split: if_splits)
    qed
  qed
qed

section \<open>Nothing is lost\<close>

lemma fold_update_distinct: "distinct (map fst s) \<Longrightarrow> distinct (map fst (fold (\<lambda>(n, x). AList.update n x) l s))"
  by (induction l arbitrary: s) (auto simp: distinct_update)

lemma fold_update_mem:
  "(k, v) \<in> set (fold (\<lambda>(n, x). AList.update n x) l s) \<Longrightarrow> (k, v) \<in> set l \<or> (k, v) \<in> set s"
  by (induction l arbitrary: s) (fastforce dest: update_mem)+

definition table_map :: "reference list \<Rightarrow> bytes \<Rightarrow> oid option" where
  "table_map t = map_of (map (\<lambda>z. (ref_name z, ref_oid z)) t)"

lemma table_map_read: "table_map (map read_ref rs) = map_of rs"
  by (simp add: table_map_def read_ref_def comp_def)

text \<open>
  C36: when the repair of packed-refs succeeds, git's own reader finds no fault in the new file, and the
  table it reads gives every name the value of the last line of the old file that holds it, else the
  value restored for it. Every reference the old reader still got is in it. A line that makes no
  reference is listed as dropped, unless it is blank, the first comment or a peeled value; a value is only
  restored when the repository has the object; and the reference check has nothing to say of the new
  file, names with a NUL byte apart.
\<close>

theorem packed_repair_keeps:
  assumes "wf_algo (db_algo db)" and "rp_algo r = db_algo db" and "fs path = Some data"
    and "repair_packed_refs r wts db st take_away faults tmp path fs = Some ((True, out), fs', st')"
  shows "let a = db_algo db; ls = split_on 10 data; t = fst (packed_loop a shown True (the (fs' path)) []) in
    snd (packed_loop a shown True (the (fs' path)) []) = [] \<and>
    table_map t = restored_map (rk_restored out) ++ map_of (rev (written_refs a data)) \<and>
    (\<forall>y \<in> set (fst (packed_loop a shown True data [])). \<not> ref_broken y \<longrightarrow> table_map t (ref_name y) \<noteq> None) \<and>
    (\<forall>i < length ls. salvage_ref a (no_cr (ls ! i)) = None \<longrightarrow>
       nothing_to_lose a (i = 0) (no_cr (ls ! i)) \<or> no_cr (ls ! i) \<in> set (rk_dropped out)) \<and>
    (\<forall>(n, x, w) \<in> set (rk_restored out). db_has db x \<and> map_of (rev (written_refs a data)) n = None) \<and>
    rk_kept out + length (rk_restored out) = length t \<and>
    ((\<forall>z \<in> set t. 0 \<notin> set (ref_name z)) \<longrightarrow> check_packed_bytes q a (the (fs' path)) = [])"
proof -
  let ?a = "db_algo db"
  define refs where "refs = fst (read_packed_lines ?a data)"
  define dropped where "dropped = snd (read_packed_lines ?a data)"
  obtain rs refs1 st1 where rl: "restore_loop (last_good_value r wts db fs) st (names_in_dropped_lines dropped) refs = Some (rs, refs1, st1)"
    using assms(2-4)
    by (cases "restore_loop (last_good_value r wts db fs) st (names_in_dropped_lines dropped) refs")
      (auto simp: repair_packed_refs_def refs_def dropped_def split: prod.splits)
  obtain body st2 where rp: "render_packed_refs db st1 refs1 = Some (body, st2)"
    using assms(2-4) rl
    by (cases "render_packed_refs db st1 refs1")
      (auto simp: repair_packed_refs_def refs_def dropped_def Let_def split: prod.splits)
  have out: "rk_dropped out = dropped" "rk_restored out = rs" "rk_kept out = length refs1 - length rs"
    and new_file: "fs' path = Some body"
    using assms(2-4) rl rp
    by (auto simp: repair_packed_refs_def refs_def dropped_def Let_def
        dest!: write_file_atomic_ok split: prod.splits bool.splits)
  have refs: "refs = fold (\<lambda>(n, x). AList.update n x) (written_refs ?a data) []"
    unfolding refs_def by (rule read_packed_fst [OF assms(1)])
  have m: "map_of refs = map_of (rev (written_refs ?a data))" unfolding refs by (simp add: map_of_fold_update)
  have "distinct (map fst refs)" unfolding refs by (rule fold_update_distinct) simp
  moreover have "\<forall>(n, x) \<in> set refs. good_row ?a n x"
    unfolding refs using written_good [OF assms(1)] fold_update_mem by fastforce
  moreover have "\<forall>st n x w st1. last_good_value r wts db fs st n = Some (Some (x, w), st1) \<longrightarrow> wf_oid ?a x \<and> db_has db x"
    using last_good_value_found [OF assms(1,2)] by blast
  moreover have "\<forall>n \<in> set (names_in_dropped_lines dropped). check_refname_format n no_flags"
    by (simp add: names_in_dropped_lines_def)
  ultimately have f: "map_of refs1 = restored_map rs ++ map_of refs" "distinct (map fst refs1)"
    "length refs1 = length refs + length rs" "\<forall>(n, x) \<in> set refs1. good_row ?a n x"
    "\<forall>(n, x, w) \<in> set rs. n \<in> set (names_in_dropped_lines dropped) \<and> map_of refs n = None \<and> db_has db x"
    using restore_loop_facts [OF rl] by blast+
  have read: "packed_loop ?a shown True body [] = (map read_ref (by_name refs1), [])"
    by (rule rendered_reads(1) [OF assms(1) f(2,4) rp])
  have tm: "table_map (map read_ref (by_name refs1)) = restored_map rs ++ map_of (rev (written_refs ?a data))"
    using f(1) by_name_refs(1) [OF f(2)] m by (simp add: table_map_read)
  have old: "(restored_map rs ++ map_of (rev (written_refs ?a data))) (ref_name y) \<noteq> None"
    if "y \<in> set (fst (packed_loop ?a shown True data []))" "\<not> ref_broken y" for y
  proof -
    have "(ref_name y, ref_oid y) \<in> set (rev (written_refs ?a data))"
      using packed_refs_written [OF assms(1) that] by simp
    then have "map_of (rev (written_refs ?a data)) (ref_name y) \<noteq> None"
      by (metis map_of_eq_None_iff fst_conv image_eqI)
    then show ?thesis by (simp add: map_add_None)
  qed
  have lines: "nothing_to_lose ?a (i = 0) (no_cr (split_on 10 data ! i)) \<or> no_cr (split_on 10 data ! i) \<in> set dropped"
    if "i < length (split_on 10 data)" "salvage_ref ?a (no_cr (split_on 10 data ! i)) = None" for i
    using salvage_lines_snd [OF that, of True "([], [])"] by (auto simp: dropped_def read_packed_lines_def)
  have quiet: "check_packed_bytes q ?a body = []" if "\<forall>z \<in> set (map read_ref (by_name refs1)). 0 \<notin> set (ref_name z)"
    by (rule rendered_reads(3) [OF assms(1) f(2,4) rp])
      (use that by_name_refs(4) [OF f(2)] in \<open>auto simp: read_ref_def\<close>)
  have len: "length (by_name refs1) = length refs1" by (simp add: by_name_def)
  show ?thesis
    using read tm old lines f(3,5) m len quiet unfolding Let_def out new_file option.sel
    by (auto simp del: index_byte_None)
qed

text \<open>A file with one good line and one line of junk, in a repository with no objects.\<close>

definition bare_algo :: algo where
  "bare_algo = sha1_algo (\<lambda>m. replicate 20 0)"

definition bare_db :: database where
  "bare_db = \<lparr>db_algo = bare_algo, db_packs = [], db_loose = [], db_inflate = \<lambda>_ _ _. None\<rparr>"

definition bare_repo :: repository where
  "bare_repo = \<lparr>rp_algo = bare_algo, rp_common = [], rp_shown = str ''packed-refs''\<rparr>"

definition some_oid :: oid where
  "some_oid = from_bytes (replicate 20 171)"

definition some_name :: bytes where
  "some_name = str ''refs/heads/a''"

definition damaged_packed :: bytes where
  "damaged_packed = row some_name some_oid @ 10 # str ''junk'' @ 10 # []"

lemma bare_algo_ok: "wf_algo bare_algo"
  unfolding bare_algo_def by (rule wf_sha1) simp

lemma some_row: "good_row bare_algo some_name some_oid"
proof -
  have "wf_oid bare_algo some_oid"
    using wf_oidI [of "replicate 20 171" bare_algo]
    by (simp add: some_oid_def from_bytes_def bare_algo_def sha1_algo_def max_raw_size_def)
  moreover have "list_all good_component [str ''refs'', str ''heads'', str ''a'']"
    by (simp add: good_component_def forbidden_byte_def pair_ok_def has_suffix_def lock_suffix_def)
  moreover have "split_by is_sep some_name = [str ''refs'', str ''heads'', str ''a'']"
    by (simp add: is_sep_def some_name_def)
  ultimately show ?thesis
    using check_refname_loop_eq [of no_flags some_name 0]
    by (simp add: good_row_def check_refname_format_def no_flags_def some_name_def)
qed

lemma damaged_lines: "split_on 10 damaged_packed = [row some_name some_oid, str ''junk'', []]"
  unfolding damaged_packed_def split_line [OF row_clean [OF some_row]]
  by (subst split_line, simp) (simp add: split_on_def)

lemma damaged_salvage: "read_packed_lines bare_algo damaged_packed = ([(some_name, some_oid)], [str ''junk''])"
  unfolding read_packed_lines_def nl damaged_lines salvage_lines.simps salvage_line_row [OF bare_algo_ok some_row]
  by (simp add: salvage_line_def no_cr_def trim_right_def salvage_ref_def cut_space_def)

lemma damaged_names: "names_in_dropped_lines [str ''junk''] = []"
  by (simp add: names_in_dropped_lines_def byte_fields_def rune_chunks_ascii space_chunk_def is_space_rune_def
      has_prefix_def)

lemma bare_peel: "peel bare_db st x = Some (None, st)"
proof -
  have "read_object bare_db st x = Some (Inl (Missing x), st)"
    by (simp add: read_object_def db_find_def bare_db_def)
  then show ?thesis by (simp add: peel_def max_peel_def eval_nat_numeral)
qed

theorem packed_repair_keeps_witness:
  "\<exists>out fs' st'. repair_packed_refs bare_repo [] bare_db fresh_state (\<lambda>fs. (True, fs)) (\<lambda>_. False) [[1]] [[2]]
      (Map.empty([[2]] \<mapsto> damaged_packed)) = Some ((True, out), fs', st') \<and>
    rk_dropped out = [str ''junk''] \<and>
    table_map (fst (packed_loop bare_algo [] True (the (fs' [[2]])) [])) some_name = Some some_oid"
proof -
  let ?fs = "Map.empty([[2]] \<mapsto> damaged_packed) :: files"
  define out where "out = \<lparr>rk_kept = 1, rk_restored = [], rk_dropped = [str ''junk'']\<rparr>"
  obtain body where "render_packed_refs bare_db fresh_state [(some_name, some_oid)] = Some (body, fresh_state)"
    by (simp add: render_packed_refs_def by_name_def bare_peel)
  then have run: "repair_packed_refs bare_repo [] bare_db fresh_state (\<lambda>fs. (True, fs)) (\<lambda>_. False) [[1]] [[2]] ?fs =
      Some ((True, out), ?fs([[1]] := None, [[2]] := Some body), fresh_state)"
    using damaged_salvage damaged_names
    by (simp add: repair_packed_refs_def bare_repo_def write_file_atomic_calm out_def del: str_def)
  have a: "wf_algo (db_algo bare_db)" "rp_algo bare_repo = db_algo bare_db" "?fs [[2]] = Some damaged_packed"
    using bare_algo_ok by (simp_all add: bare_db_def bare_repo_def)
  have "written_refs bare_algo damaged_packed = [(some_name, some_oid)]"
  proof -
    have "salvage_ref bare_algo (no_cr (str ''junk'')) = None" "no_cr [] = []"
      by (simp_all add: no_cr_def trim_right_def salvage_ref_def cut_space_def)
    then show ?thesis
      using salvage_ref_row [OF bare_algo_ok some_row] no_cr_row [OF some_row]
      unfolding written_refs_def damaged_lines by (simp add: List.map_filter_simps del: str_def)
  qed
  then have "table_map (fst (packed_loop bare_algo [] True (the ((?fs([[1]] := None, [[2]] := Some body)) [[2]])) []))
      some_name = Some some_oid"
    using packed_repair_keeps [OF a run, of "[]" "new_options bare_algo"]
    by (simp add: Let_def out_def restored_map_def bare_db_def)
  with run show ?thesis unfolding out_def by fastforce
qed

section \<open>One reference\<close>

lemma trim_ref_line_written: "wf_algo a \<Longrightarrow> wf_oid a x \<Longrightarrow> trim_ref_line (oid_string x @ [10]) = oid_string x"
proof -
  assume a: "wf_algo a" "wf_oid a x"
  have ne: "oid_string x \<noteq> []" using length_oid_string [OF a] wf_algo_sizes [OF a(1)] by auto
  then have "last (oid_string x) \<in> set (oid_string x)" by simp
  then have "is_lower_hex (last (oid_string x))" by (rule oid_string_lower)
  then have "last (oid_string x) \<notin> {32, 9, 13, 10}" by (auto simp: is_lower_hex_def)
  then have "trim_right (\<lambda>c. c \<in> {32, 9, 13, 10}) (oid_string x) = oid_string x" by (intro trim_right_id) blast
  then show ?thesis by (simp add: trim_ref_line_def trim_right_def)
qed

lemma no_ref_prefix: "wf_algo a \<Longrightarrow> wf_oid a x \<Longrightarrow> cut_prefix (oid_string x @ r) (str ''ref:'') = None"
proof -
  assume a: "wf_algo a" "wf_oid a x"
  obtain c cs where c: "oid_string x = c # cs" using row_cons [OF a] by metis
  then have "is_lower_hex c" using oid_string_lower [of c x] by simp
  then have "c \<noteq> 114" by (auto simp: is_lower_hex_def)
  with c show ?thesis by (simp add: cut_prefix_def has_prefix_def)
qed

lemma written_ref_reads:
  assumes a: "wf_algo (rp_algo r)" "wf_oid (rp_algo r) x" and f: "fs p = Some (oid_string x @ [10])"
  shows "read_ref_file r fs n p name root = \<lparr>ref_name = name, ref_oid = x, ref_symref = [], ref_broken = False\<rparr>"
proof -
  note t = trim_ref_line_written [OF a] and n = no_ref_prefix [OF a, of "[]"]
    and p = parse_prefix_string [OF a, of "[]"]
  show ?thesis using t n p f by (cases n) (simp_all del: str_def)
qed

text \<open>Every entry after the one picked is void, missing or does not read.\<close>

definition unusable :: "database \<Rightarrow> reflog_entry \<Rightarrow> bool" where
  "unusable db e \<longleftrightarrow> \<not> valid_oid (rl_new e) \<or> \<not> db_has db (rl_new e) \<or>
     (\<exists>st err st'. read_object db st (rl_new e) = Some (Inl err, st'))"

lemma newest_good_first:
  "newest_good db st es = Some (Some x, st1) \<Longrightarrow>
     \<exists>skipped e rest. es = skipped @ e # rest \<and> rl_new e = x \<and> (\<forall>e' \<in> set skipped. unusable db e')"
proof (induction db st es rule: newest_good.induct)
  case (2 db st e es)
  have later: ?case if "\<exists>skipped e rest. es = skipped @ e # rest \<and> rl_new e = x \<and> (\<forall>e' \<in> set skipped. unusable db e')"
    and u: "unusable db e"
  proof -
    from that obtain skipped e1 rest where "es = skipped @ e1 # rest" "rl_new e1 = x" "\<forall>e' \<in> set skipped. unusable db e'"
      by blast
    then show ?thesis using u by (intro exI [of _ "e # skipped"] exI [of _ e1] exI [of _ rest]) simp
  qed
  show ?case
  proof (cases "\<not> valid_oid (rl_new e) \<or> \<not> db_has db (rl_new e)")
    case True
    then show ?thesis using 2 by (intro later) (auto simp: unusable_def)
  next
    case False
    then obtain v st' where r: "read_object db st (rl_new e) = Some (v, st')"
      using 2(3) by (cases "read_object db st (rl_new e)") auto
    show ?thesis
    proof (cases v)
      case (Inl err)
      then have "unusable db e" using r by (auto simp: unusable_def)
      then show ?thesis using 2 False r Inl by (intro later) auto
    next
      case (Inr w)
      then have "rl_new e = x" using 2(3) False r by auto
      then show ?thesis by (intro exI [of _ "[]"] exI [of _ e] exI [of _ es]) simp
    qed
  qed
qed simp

text \<open>
  C37: when a malformed reference is repaired, its value is the newest one in its log whose object is there and
  reads, every newer entry failing one of these; the new file reads back as that value without fault, and
  the reference check has nothing to say of its content, unless the value is the null name.
\<close>

theorem repair_ref_exact:
  assumes "wf_algo (db_algo db)" and "rp_algo r = db_algo db"
    and "repair_ref r wts db st take_away faults junk bad_name bad_path fs = Some (Some x, fs', st')"
  shows "let d = split_ref_name r wts bad_name; p = ref_path r (fst d) (snd d) bad_path in
    (\<exists>older e newer. reflog r fs (fst d) (snd d) = older @ e # newer \<and> rl_new e = x \<and> (\<forall>e' \<in> set newer. unusable db e')) \<and>
    db_has db x \<and> (\<exists>st1 v. read_object db st1 x = Some (Inr v, st')) \<and>
    read_ref_file r fs' n p name root = \<lparr>ref_name = name, ref_oid = x, ref_symref = [], ref_broken = False\<rparr> \<and>
    (\<not> is_null x \<longrightarrow> check_ref_bytes q (db_algo db) bad_name (the (fs' p)) = [])"
proof -
  obtain dir refname where d: "split_ref_name r wts bad_name = (dir, refname)" by (cases "split_ref_name r wts bad_name")
  let ?log = "reflog r fs dir refname" and ?p = "ref_path r dir refname bad_path"
  obtain st1 where g: "newest_good db st (rev ?log) = Some (Some x, st1)"
    and w: "write_ref take_away faults junk ?p x fs = (True, fs')" "st1 = st'"
    using assms(3) d by (auto simp: repair_ref_def split: option.splits prod.splits if_splits)
  have f: "fs' ?p = Some (oid_string x @ [10])"
    using w(1) by (auto simp: write_ref_def split: prod.splits bool.splits if_splits)
  obtain skipped e rest where s: "rev ?log = skipped @ e # rest" "rl_new e = x" "\<forall>e' \<in> set skipped. unusable db e'"
    using newest_good_first [OF g] by blast
  then have "?log = rev rest @ e # rev skipped" by (simp add: rev_swap)
  then have log: "\<exists>older e newer. ?log = older @ e # newer \<and> rl_new e = x \<and> (\<forall>e' \<in> set newer. unusable db e')"
    using s(2,3) by (intro exI [of _ "rev rest"] exI [of _ e] exI [of _ "rev skipped"]) simp
  have found: "db_has db x" "\<exists>st1 v. read_object db st1 x = Some (Inr v, st')"
    using newest_good_found [OF g] w(2) by auto
  have x: "wf_oid (rp_algo r) x"
    using reflog_wf [of e r fs dir refname] s(1,2) by (metis in_set_conv_decomp set_rev)
  have a: "wf_algo (rp_algo r)" using assms(1,2) by simp
  have "cut_prefix (oid_string x @ [10]) (str ''ref:'') = None" by (rule no_ref_prefix [OF a x])
  then have "check_ref_bytes q (db_algo db) bad_name (oid_string x @ [10]) = []" if "\<not> is_null x"
    using that parse_prefix_string [OF a x, of "[10]"] assms(2) by (simp add: check_ref_bytes_def del: str_def)
  then show ?thesis
    using log found written_ref_reads [OF a x, of fs' ?p n name root, OF f] f d by (simp add: Let_def)
qed

text \<open>A log of one line in the small repository.\<close>

definition small_oid :: oid where
  "small_oid = from_raw demo_algo (name_of 1)"

definition small_log :: bytes where
  "small_log = oid_string small_oid @ 32 # oid_string small_oid"

definition small_repo :: repository where
  "small_repo = \<lparr>rp_algo = demo_algo, rp_common = [], rp_shown = []\<rparr>"

lemma small_oid_wf: "wf_algo demo_algo" "wf_oid demo_algo small_oid"
  using demo_ok(1) wf_from_raw [of demo_algo "name_of 1"] one_ok(2) by (simp_all add: small_oid_def demo_ok)

lemma small_reflog:
  "reflog small_repo (Map.empty([str ''logs'', str ''x''] \<mapsto> small_log)) [] (str ''x'') =
     [\<lparr>rl_old = small_oid, rl_new = small_oid, rl_time = 0\<rparr>]"
proof -
  let ?h = "oid_string small_oid"
  have h: "length ?h = 40"
    using length_oid_string [OF small_oid_wf] wf_algo_sizes [OF small_oid_wf(1)] demo_ok(4) by simp
  have hs: "hex_size demo_algo = 40" using wf_algo_sizes [OF small_oid_wf(1)] demo_ok(4) by simp
  have clean: "9 \<notin> set small_log" "10 \<notin> set small_log" "13 \<notin> set small_log"
    using oid_string_lower [of 9 small_oid] hex_clean [of small_oid] by (auto simp: small_log_def is_lower_hex_def)
  have ne: "small_log \<noteq> []" "last small_log \<noteq> 13" using clean(3) last_in_set [of small_log] by (auto simp: small_log_def)
  have "\<not> reflog_limit \<le> length small_log" using h by (simp add: small_log_def reflog_limit_def)
  then have scan: "scan_lines reflog_limit small_log = [small_log]"
    using ne scan_lines.simps [of reflog_limit "[]"]
    by (subst scan_lines.simps) (simp add: Let_def index_byte_notin [OF clean(2)])
  have "parse_hex_bytes demo_algo small_log = Some small_oid" "parse_hex_bytes demo_algo ?h = Some small_oid"
    unfolding small_log_def using parse_hex_bytes_string [OF small_oid_wf] parse_hex_bytes_string [OF small_oid_wf, of "[]"]
    by simp_all
  moreover have "drop 41 small_log = ?h" "length small_log = 81" using h by (simp_all add: small_log_def)
  ultimately have "reflog_line demo_algo small_log = Some \<lparr>rl_old = small_oid, rl_new = small_oid, rl_time = 0\<rparr>"
    using hs by (simp add: reflog_line_def reflog_time_def index_byte_notin [OF clean(1)])
  moreover have "join_path [str ''logs''] (str ''x'') = [str ''logs'', str ''x'']"
    by (simp add: join_path_def join_step_def split_on_def)
  ultimately show ?thesis using scan
    by (simp add: reflog_def small_repo_def List.map_filter_simps del: str_def)
qed

theorem repair_ref_exact_witness:
  "\<exists>fs' st'. repair_ref small_repo [] small_db fresh_state (\<lambda>p fs. (True, fs)) (\<lambda>_. False) None (str ''x'') None
      (Map.empty([str ''logs'', str ''x''] \<mapsto> small_log)) = Some (Some small_oid, fs', st') \<and>
    ref_oid (read_ref_file small_repo fs' 0 [str ''x''] (str ''x'') []) = small_oid"
proof -
  let ?fs = "Map.empty([str ''logs'', str ''x''] \<mapsto> small_log) :: files"
  have s: "split_ref_name small_repo [] (str ''x'') = ([], str ''x'')" by (simp add: split_ref_name_def small_repo_def)
  have p: "ref_path small_repo [] (str ''x'') None = [str ''x'']"
    by (simp add: ref_path_def join_path_def join_step_def split_on_def)
  have x: "valid_oid small_oid" "db_has small_db small_oid" "read_object small_db fresh_state small_oid = Some (Inr (TypeBlob, [65]), fresh_state)"
    using small_find small_read by (simp_all add: db_has_def small_oid_def valid_oid_def from_raw_def demo_ok)
  have "newest_good small_db fresh_state (rev (reflog small_repo ?fs [] (str ''x''))) = Some (Some small_oid, fresh_state)"
    unfolding small_reflog using x by simp
  then have run: "repair_ref small_repo [] small_db fresh_state (\<lambda>p fs. (True, fs)) (\<lambda>_. False) None (str ''x'') None ?fs =
      Some (Some small_oid, ?fs([str ''x''] \<mapsto> oid_string small_oid @ [10]), fresh_state)"
    using s p by (simp add: repair_ref_def write_ref_def del: str_def)
  have a: "wf_algo (db_algo small_db)" "rp_algo small_repo = db_algo small_db"
    using small_oid_wf(1) by (simp_all add: small_db_def pack_db_def small_repo_def)
  have "ref_oid (read_ref_file small_repo (?fs([str ''x''] \<mapsto> oid_string small_oid @ [10])) 0 [str ''x''] (str ''x'') []) = small_oid"
    using repair_ref_exact [OF a run, of 0 "str ''x''" "[]"] unfolding Let_def s fst_conv snd_conv p
    by (simp del: str_def read_ref_file.simps)
  with run show ?thesis by blast
qed

end
