(* ===== verification/ObjTable.thy ===== *)
theory ObjTable
  imports GitObj
begin

text \<open>
  The table of objects a run knows: \<open>internal/fsckcmd/objtable.go\<close> and \<open>internal/fsckcmd/edgearena.go\<close>.
  Every operation holds a shard's lock or is one compare-and-swap, so it is one step here. The slabs of
  entries are one list, in the order the indices are handed out.
\<close>

section \<open>Entries\<close>

record obj_entry =
  en_ref :: "64 word"
  en_len :: "32 word"
  en_meta :: "32 word"
  en_hash :: bytes

definition flag_reachable :: "32 word" where [simp]: "flag_reachable = 1"
definition flag_seen :: "32 word" where [simp]: "flag_seen = 2"
definition flag_has_obj :: "32 word" where [simp]: "flag_has_obj = 4"
definition flag_used :: "32 word" where [simp]: "flag_used = 8"
definition flag_walked :: "32 word" where [simp]: "flag_walked = 16"

definition obj_oid :: "algo \<Rightarrow> obj_entry \<Rightarrow> oid" where
  "obj_oid a e = \<lparr>oid_h = en_hash e, oid_n = raw_size a\<rparr>"

definition en_type :: "obj_entry \<Rightarrow> obj_type" where
  "en_type e = sint (ucast (en_meta e) :: 8 word)"

definition set_type :: "obj_type \<Rightarrow> obj_entry \<Rightarrow> obj_entry" where
  "set_type t e =
     (if en_type e \<noteq> TypeNone then e
      else e\<lparr>en_meta := (en_meta e AND NOT 0xff) OR ucast (word_of_int t :: 8 word)\<rparr>)"

definition flags :: "obj_entry \<Rightarrow> 32 word" where
  "flags e = drop_bit 8 (en_meta e)"

definition set_flag :: "32 word \<Rightarrow> obj_entry \<Rightarrow> bool \<times> obj_entry" where
  "set_flag f e =
     (let m = push_bit 8 f in
      if en_meta e AND m \<noteq> 0 then (True, e) else (False, e\<lparr>en_meta := en_meta e OR m\<rparr>))"

definition clear_flags :: "32 word \<Rightarrow> obj_entry \<Rightarrow> obj_entry" where
  "clear_flags f e = e\<lparr>en_meta := en_meta e AND NOT (push_bit 8 f)\<rparr>"

definition has_flag :: "32 word \<Rightarrow> obj_entry \<Rightarrow> bool" where
  "has_flag f e \<longleftrightarrow> flags e AND f \<noteq> 0"

section \<open>Edges\<close>

type_synonym edge = "32 word"

definition edge_unresolved :: edge where
  "edge_unresolved = 0x80000000"

definition make_edge :: "32 word \<Rightarrow> bool \<Rightarrow> obj_type \<Rightarrow> edge" where
  "make_edge target resolved t =
     (if \<not> resolved then edge_unresolved OR (word_of_int t AND 0xf) else target)"

definition edge_ok :: "edge \<Rightarrow> bool" where
  "edge_ok e \<longleftrightarrow> e AND edge_unresolved = 0"

definition edge_type :: "edge \<Rightarrow> obj_type" where
  "edge_type e = int (unat (e AND 0xf))"

record edge_span =
  sp_ref :: "64 word"
  sp_n :: "32 word"

definition set_edges :: "edge_span \<Rightarrow> obj_entry \<Rightarrow> obj_entry" where
  "set_edges s e = snd (set_flag flag_walked (e\<lparr>en_ref := sp_ref s, en_len := sp_n s\<rparr>))"

section \<open>The arena\<close>

text \<open>A chunk is the part of a slab a worker hands out from. \<open>pick\<close> is the chunk \<open>sync.Pool\<close> gives, if
  it gives one.\<close>

record chunk =
  ck_slab :: nat
  ck_size :: nat
  ck_used :: nat

record arena =
  ar_slabs :: "edge list list"
  ar_pool :: "chunk list"

definition edge_slab_size :: nat where
  "edge_slab_size = 8192"

definition new_slab :: "nat \<Rightarrow> arena \<Rightarrow> nat \<times> arena" where
  "new_slab n a = (length (ar_slabs a), a\<lparr>ar_slabs := ar_slabs a @ [replicate n 0]\<rparr>)"

definition take_chunk :: "nat option \<Rightarrow> arena \<Rightarrow> chunk option \<times> arena" where
  "take_chunk pick a =
     (case pick of
        None \<Rightarrow> (None, a)
      | Some i \<Rightarrow>
          if i < length (ar_pool a)
          then (Some (ar_pool a ! i), a\<lparr>ar_pool := take i (ar_pool a) @ drop (Suc i) (ar_pool a)\<rparr>)
          else (None, a))"

definition span_at :: "nat \<Rightarrow> nat \<Rightarrow> nat \<Rightarrow> edge_span" where
  "span_at slab pos n =
     \<lparr>sp_ref = push_bit 32 (ucast (word_of_nat slab :: 32 word)) OR word_of_nat pos, sp_n = word_of_nat n\<rparr>"

definition arena_alloc :: "nat option \<Rightarrow> nat \<Rightarrow> arena \<Rightarrow> edge_span \<times> arena" where
  "arena_alloc pick n a =
     (if n = 0 then (\<lparr>sp_ref = 0, sp_n = 0\<rparr>, a)
      else if edge_slab_size < n then (case new_slab n a of (s, a1) \<Rightarrow> (span_at s 0 n, a1))
      else (case take_chunk pick a of
          (got, a1) \<Rightarrow>
            (let fresh = (case got of None \<Rightarrow> True | Some c \<Rightarrow> ck_size c - ck_used c < n) in
             case (if fresh then (case new_slab edge_slab_size a1 of
                      (s, a2) \<Rightarrow> (\<lparr>ck_slab = s, ck_size = edge_slab_size, ck_used = 0\<rparr>, a2))
                   else (the got, a1)) of
               (c, a2) \<Rightarrow>
                 (span_at (ck_slab c) (ck_used c) n,
                  a2\<lparr>ar_pool := ar_pool a2 @ [c\<lparr>ck_used := ck_used c + n\<rparr>]\<rparr>))))"

definition span_slab :: "edge_span \<Rightarrow> nat" where
  "span_slab s = unat (drop_bit 32 (sp_ref s))"

definition span_pos :: "edge_span \<Rightarrow> nat" where
  "span_pos s = unat (ucast (sp_ref s) :: 32 word)"

definition arena_at :: "edge_span \<Rightarrow> arena \<Rightarrow> edge list" where
  "arena_at s a =
     (if sp_n s = 0 \<or> ar_slabs a = [] then []
      else take (unat (sp_n s)) (drop (span_pos s) (ar_slabs a ! span_slab s)))"

text \<open>The caller writes the edges it found into the room it was given.\<close>

definition write_at :: "'a list \<Rightarrow> nat \<Rightarrow> 'a list \<Rightarrow> 'a list" where
  "write_at b pos es = take pos b @ es @ drop (pos + length es) b"

definition arena_write :: "edge_span \<Rightarrow> edge list \<Rightarrow> arena \<Rightarrow> arena" where
  "arena_write s es a =
     (if es = [] then a
      else a\<lparr>ar_slabs := (ar_slabs a)[span_slab s := write_at (ar_slabs a ! span_slab s) (span_pos s) es]\<rparr>)"

section \<open>The table\<close>

record slot =
  sl_key :: "32 word"
  sl_idx :: "32 word"

record obj_shard =
  sh_slots :: "slot list"
  sh_used :: nat

record obj_table =
  ot_shards :: "obj_shard list"
  ot_start :: nat
  ot_entries :: "obj_entry list"
  ot_arena :: arena

definition empty_slot :: slot where
  "empty_slot = \<lparr>sl_key = 0, sl_idx = 0\<rparr>"

definition empty_obj_shard :: obj_shard where
  "empty_obj_shard = \<lparr>sh_slots = [], sh_used = 0\<rparr>"

text \<open>\<open>shardCount\<close> for a number of processors; the loop doubles at most nine times.\<close>

fun double_until :: "nat \<Rightarrow> nat \<Rightarrow> nat \<Rightarrow> nat \<Rightarrow> nat" where
  "double_until 0 n limit sz = sz"
| "double_until (Suc fuel) n limit sz =
     (if sz < n \<and> sz < limit then double_until fuel n limit (2 * sz) else sz)"

definition shard_count :: "nat \<Rightarrow> nat" where
  "shard_count procs = double_until 8 (64 * procs) (2 ^ 16) 256"

definition new_obj_table :: "nat \<Rightarrow> nat \<Rightarrow> obj_table" where
  "new_obj_table procs expect =
     (let n = shard_count procs in
      \<lparr>ot_shards = replicate n empty_obj_shard,
       ot_start = double_until 21 (2 * (expect div n + 1)) (2 ^ 24) 8,
       ot_entries = [], ot_arena = \<lparr>ar_slabs = [], ar_pool = []\<rparr>\<rparr>)"

text \<open>A name is its 32 bytes. The shard comes from the first two of them, the hash from the second four.\<close>

definition shard_word :: "bytes \<Rightarrow> 32 word" where
  "shard_word h = push_bit 8 (ucast (h ! 0)) OR ucast (h ! 1)"

text \<open>The mask of a table of that many places.\<close>

definition slot_mask :: "nat \<Rightarrow> 32 word" where
  "slot_mask n = word_of_nat (n - 1)"

definition shard_no :: "obj_table \<Rightarrow> bytes \<Rightarrow> nat" where
  "shard_no t h = unat (shard_word h AND slot_mask (length (ot_shards t)))"

definition slot_key :: "bytes \<Rightarrow> 32 word" where
  "slot_key h = word_of_nat (be_val (rev (take 4 (drop 4 h))))"

text \<open>The probe: the slot the name is in, or the first free one. \<open>fuel\<close> is a turn for each slot; the
  code's loop has no bound.\<close>

datatype probe_result = FreeSlot nat | Holds nat

fun probe :: "obj_entry list \<Rightarrow> bytes \<Rightarrow> slot list \<Rightarrow> nat \<Rightarrow> 32 word \<Rightarrow> probe_result option" where
  "probe es h slots 0 i = None"
| "probe es h slots (Suc fuel) i =
     (let sl = slots ! unat i in
      if sl_idx sl = 0 then Some (FreeSlot (unat i))
      else if sl_key sl = slot_key h \<and> en_hash (es ! (unat (sl_idx sl) - 1)) = h
      then Some (Holds (unat (sl_idx sl) - 1))
      else probe es h slots fuel ((i + 1) AND slot_mask (length slots)))"

definition probe_shard :: "obj_entry list \<Rightarrow> bytes \<Rightarrow> slot list \<Rightarrow> probe_result option" where
  "probe_shard es h slots = probe es h slots (length slots) (slot_key h AND slot_mask (length slots))"

text \<open>\<open>Get\<close>: the index of the entry. A search that finds neither the name nor a free slot never returns;
  it is \<open>None\<close> here, and the outer option says so.\<close>

definition table_get :: "obj_table \<Rightarrow> bytes \<Rightarrow> nat option option" where
  "table_get t h =
     (let slots = sh_slots (ot_shards t ! shard_no t h) in
      if slots = [] then Some None
      else (case probe_shard (ot_entries t) h slots of
          None \<Rightarrow> None
        | Some (FreeSlot p) \<Rightarrow> Some None
        | Some (Holds i) \<Rightarrow> Some (Some i)))"

fun free_probe :: "slot list \<Rightarrow> nat \<Rightarrow> 32 word \<Rightarrow> nat option" where
  "free_probe slots 0 i = None"
| "free_probe slots (Suc fuel) i =
     (if sl_idx (slots ! unat i) = 0 then Some (unat i)
      else free_probe slots fuel ((i + 1) AND slot_mask (length slots)))"

definition put_slot :: "slot \<Rightarrow> slot list \<Rightarrow> slot list option" where
  "put_slot sl slots =
     (case free_probe slots (length slots) (sl_key sl AND slot_mask (length slots)) of
        None \<Rightarrow> None | Some p \<Rightarrow> Some (slots[p := sl]))"

fun grow_loop :: "slot list \<Rightarrow> slot list \<Rightarrow> slot list option" where
  "grow_loop [] new = Some new"
| "grow_loop (sl # old) new =
     (if sl_idx sl = 0 then grow_loop old new
      else (case put_slot sl new of None \<Rightarrow> None | Some new1 \<Rightarrow> grow_loop old new1))"

definition grow :: "obj_shard \<Rightarrow> obj_shard option" where
  "grow sh =
     map_option (\<lambda>s. sh\<lparr>sh_slots := s\<rparr>) (grow_loop (sh_slots sh) (replicate (2 * length (sh_slots sh)) empty_slot))"

definition max_obj_index :: nat where
  "max_obj_index = 2 ^ 31 - 1"

definition new_entry :: "bytes \<Rightarrow> obj_entry" where
  "new_entry h = \<lparr>en_ref = 0, en_len = 0, en_meta = 0, en_hash = h\<rparr>"

text \<open>\<open>reconcile\<close>: the entry with the type the reference implies, or a refusal.\<close>

definition reconcile :: "obj_type \<Rightarrow> obj_entry \<Rightarrow> obj_entry option" where
  "reconcile want e =
     (if want = TypeAny then Some e
      else if en_type e = TypeNone then Some (set_type want e)
      else if en_type e \<noteq> want then None
      else Some e)"

definition set_entry :: "nat \<Rightarrow> obj_entry \<Rightarrow> obj_table \<Rightarrow> obj_table" where
  "set_entry i e t = t\<lparr>ot_entries := (ot_entries t)[i := e]\<rparr>"

text \<open>\<open>Lookup\<close>: the table and the index, or no index when the type contradicts the entry. The outer
  \<open>None\<close> is the panic at the index limit or a search without end.\<close>

definition table_lookup :: "obj_table \<Rightarrow> bytes \<Rightarrow> obj_type \<Rightarrow> (obj_table \<times> nat option) option" where
  "table_lookup t h want =
     (let k = shard_no t h; sh = ot_shards t ! k;
          slots = (if sh_slots sh = [] then replicate (ot_start t) empty_slot else sh_slots sh) in
      case probe_shard (ot_entries t) h slots of
        None \<Rightarrow> None
      | Some (Holds i) \<Rightarrow>
          (case reconcile want (ot_entries t ! i) of
             None \<Rightarrow> Some (t, None)
           | Some e \<Rightarrow> Some (set_entry i e t, Some i))
      | Some (FreeSlot p) \<Rightarrow>
          (let idx = length (ot_entries t); e = new_entry h;
               e1 = (if want \<noteq> TypeAny then set_type want e else e);
               sh1 = \<lparr>sh_slots = slots[p := \<lparr>sl_key = slot_key h, sl_idx = word_of_nat (idx + 1)\<rparr>],
                      sh_used = sh_used sh + 1\<rparr> in
           if max_obj_index < idx then None
           else map_option (\<lambda>sh2. (t\<lparr>ot_entries := ot_entries t @ [e1], ot_shards := (ot_shards t)[k := sh2]\<rparr>, Some idx))
             (if length (sh_slots sh1) \<le> 2 * sh_used sh1 then grow sh1 else Some sh1)))"

text \<open>\<open>HashSlots\<close>: the size git's own table would have.\<close>

definition hash_slots_step :: "nat \<Rightarrow> nat \<Rightarrow> nat" where
  "hash_slots_step i sz =
     (if int sz - 1 \<le> (int i + 1) * 2 then (if sz < 32 then 32 else 2 * sz) else sz)"

definition hash_slots :: "obj_table \<Rightarrow> nat" where
  "hash_slots t = fold hash_slots_step [0..<length (ot_entries t)] 0"

definition table_edges :: "obj_table \<Rightarrow> obj_entry \<Rightarrow> edge list option" where
  "table_edges t e =
     (if flags e AND flag_walked = 0 then None
      else Some (arena_at \<lparr>sp_ref = en_ref e, sp_n = en_len e\<rparr> (ot_arena t)))"

end
