(* ===== verification/TableMap.thy ===== *)
theory TableMap
  imports ObjTable "HOL-Library.Multiset"
begin

text \<open>
  The object table against a list of entries. A shard is an open-addressed table that is less than half
  full: every filled slot is reached from its key without crossing a free one. With that, \<open>Get\<close> and
  \<open>Lookup\<close> are a search of the list of entries and an append to it.
\<close>

section \<open>Probing\<close>

definition pos :: "nat \<Rightarrow> 32 word \<Rightarrow> nat \<Rightarrow> nat" where
  "pos L key m = (unat key + m) mod L"

definition reach :: "slot list \<Rightarrow> 32 word \<Rightarrow> nat \<Rightarrow> bool" where
  "reach slots key p \<longleftrightarrow> (\<exists>m < length slots. p = pos (length slots) key m \<and>
     (\<forall>m' < m. sl_idx (slots ! pos (length slots) key m') \<noteq> 0))"

definition probe_ok :: "slot list \<Rightarrow> bool" where
  "probe_ok slots \<longleftrightarrow> (\<forall>p < length slots. sl_idx (slots ! p) \<noteq> 0 \<longrightarrow> reach slots (sl_key (slots ! p)) p)"

definition filled_slots :: "slot list \<Rightarrow> slot list" where
  "filled_slots slots = filter (\<lambda>s. sl_idx s \<noteq> 0) slots"

lemma pos_lt: "0 < L \<Longrightarrow> pos L key m < L"
  by (simp add: pos_def)

lemma mask_word: "j \<le> 32 \<Longrightarrow> unat (w AND slot_mask (2 ^ j)) = unat w mod 2 ^ j"
proof -
  assume "j \<le> 32"
  have "slot_mask (2 ^ j) = mask j"
    unfolding slot_mask_def by (simp add: mask_eq_exp_minus_1 of_nat_diff)
  then have "w AND slot_mask (2 ^ j) = take_bit j w" by (simp add: take_bit_eq_mask)
  then show ?thesis by (simp only: unsigned_take_bit_eq take_bit_eq_mod [of j "unat w"])
qed

lemma next_pos:
  assumes "j \<le> 32" and "unat i = pos (2 ^ j) key m"
  shows "unat ((i + 1) AND slot_mask (2 ^ j) :: 32 word) = pos (2 ^ j) key (Suc m)"
proof -
  have "unat (i + 1) mod 2 ^ j = (unat i + 1) mod 2 ^ 32 mod 2 ^ j" by (simp add: unat_word_ariths)
  also have "\<dots> = (unat i + 1) mod 2 ^ j"
    using assms(1) by (intro mod_mod_cancel le_imp_power_dvd)
  also have "\<dots> = pos (2 ^ j) key (Suc m)" using assms(2) by (simp add: pos_def mod_Suc_eq)
  finally show ?thesis using assms(1) by (simp add: mask_word)
qed

lemma pos_onto:
  assumes "q < L"
  obtains m where "m < L" "pos L key m = q"
proof -
  let ?m = "(q + (L - unat key mod L)) mod L"
  have "pos L key ?m = (unat key mod L + (q + (L - unat key mod L))) mod L"
    unfolding pos_def by (simp add: mod_simps)
  also have "unat key mod L + (q + (L - unat key mod L)) = q + L"
    using assms mod_less_divisor [of L "unat key"] by linarith
  finally have "pos L key ?m = q" using assms by simp
  with that [of ?m] assms show ?thesis by simp
qed

text \<open>The first place a search stops.\<close>

lemma first_stop:
  assumes "q < L" and "P q"
  obtains m where "m < L" "P (pos L key m)" "\<forall>m' < m. \<not> P (pos L key m')"
proof -
  obtain m0 where "m0 < L" "pos L key m0 = q" using pos_onto [OF assms(1)] .
  then have "P (pos L key m0)" using assms(2) by simp
  let ?m = "LEAST m. P (pos L key m)"
  have "P (pos L key ?m)" "?m \<le> m0" using \<open>P (pos L key m0)\<close> by (rule LeastI, rule Least_le)
  moreover have "\<forall>m' < ?m. \<not> P (pos L key m')" using not_less_Least by blast
  ultimately show ?thesis using that \<open>m0 < L\<close> by (meson le_less_trans)
qed

definition matches_slot :: "obj_entry list \<Rightarrow> bytes \<Rightarrow> slot \<Rightarrow> bool" where
  "matches_slot es h sl \<longleftrightarrow> sl_key sl = slot_key h \<and> en_hash (es ! (unat (sl_idx sl) - 1)) = h"

definition probe_end :: "slot list \<Rightarrow> nat \<Rightarrow> probe_result" where
  "probe_end slots p = (if sl_idx (slots ! p) = 0 then FreeSlot p else Holds (unat (sl_idx (slots ! p)) - 1))"

lemma probe_at:
  assumes "length slots = 2 ^ j" and "j \<le> 32"
  shows "unat i = pos (2 ^ j) key m \<Longrightarrow> m \<le> m1 \<Longrightarrow> m1 < m + fuel \<Longrightarrow>
    (\<forall>m'. m \<le> m' \<and> m' < m1 \<longrightarrow> sl_idx (slots ! pos (2 ^ j) key m') \<noteq> 0 \<and>
       \<not> matches_slot es h (slots ! pos (2 ^ j) key m')) \<Longrightarrow>
    sl_idx (slots ! pos (2 ^ j) key m1) = 0 \<or> matches_slot es h (slots ! pos (2 ^ j) key m1) \<Longrightarrow>
    probe es h slots fuel i = Some (probe_end slots (pos (2 ^ j) key m1))"
proof (induction fuel arbitrary: i m)
  case (Suc fuel)
  show ?case
  proof (cases "m = m1")
    case True
    then show ?thesis using Suc.prems by (auto simp: probe_end_def matches_slot_def Let_def)
  next
    case False
    then have go: "sl_idx (slots ! unat i) \<noteq> 0" "\<not> matches_slot es h (slots ! unat i)"
      using Suc.prems by auto
    have "probe es h slots fuel ((i + 1) AND slot_mask (2 ^ j)) = Some (probe_end slots (pos (2 ^ j) key m1))"
      using next_pos [OF assms(2) Suc.prems(1)] False Suc.prems by (intro Suc.IH [of _ "Suc m"]) auto
    then show ?thesis using go assms(1) by (auto simp: matches_slot_def Let_def)
  qed
qed simp

lemma free_probe_at:
  assumes "length slots = 2 ^ j" and "j \<le> 32"
  shows "unat i = pos (2 ^ j) key m \<Longrightarrow> m \<le> m1 \<Longrightarrow> m1 < m + fuel \<Longrightarrow>
    (\<forall>m'. m \<le> m' \<and> m' < m1 \<longrightarrow> sl_idx (slots ! pos (2 ^ j) key m') \<noteq> 0) \<Longrightarrow>
    sl_idx (slots ! pos (2 ^ j) key m1) = 0 \<Longrightarrow>
    free_probe slots fuel i = Some (pos (2 ^ j) key m1)"
proof (induction fuel arbitrary: i m)
  case (Suc fuel)
  show ?case
  proof (cases "m = m1")
    case True
    then show ?thesis using Suc.prems by simp
  next
    case False
    then have go: "sl_idx (slots ! unat i) \<noteq> 0" using Suc.prems by auto
    have "free_probe slots fuel ((i + 1) AND slot_mask (2 ^ j)) = Some (pos (2 ^ j) key m1)"
      using next_pos [OF assms(2) Suc.prems(1)] False Suc.prems by (intro Suc.IH [of _ "Suc m"]) auto
    then show ?thesis using go assms(1) by simp
  qed
qed simp

lemma start_pos: "j \<le> 32 \<Longrightarrow> unat (key AND slot_mask (2 ^ j)) = pos (2 ^ j) key 0"
  by (simp add: mask_word pos_def)

lemma free_exists:
  assumes "length (filled_slots slots) < length slots"
  obtains q where "q < length slots" "sl_idx (slots ! q) = 0"
proof -
  have "\<not> (\<forall>s \<in> set slots. sl_idx s \<noteq> 0)"
  proof
    assume "\<forall>s \<in> set slots. sl_idx s \<noteq> 0"
    then have "filled_slots slots = slots" unfolding filled_slots_def by (rule filter_True)
    with assms show False by simp
  qed
  then show ?thesis using that by (auto simp: in_set_conv_nth)
qed

section \<open>Putting a slot in\<close>

lemma reach_update:
  assumes "reach slots key p" and "sl_idx sl \<noteq> 0"
  shows "reach (slots[q := sl]) key p"
proof -
  obtain m where m: "m < length slots" "p = pos (length slots) key m"
    "\<forall>m' < m. sl_idx (slots ! pos (length slots) key m') \<noteq> 0"
    using assms(1) by (auto simp: reach_def)
  then have "\<forall>m' < m. sl_idx (slots[q := sl] ! pos (length slots) key m') \<noteq> 0"
    using assms(2) pos_lt [of "length slots" key] by (metis nth_list_update_eq nth_list_update_neq list_update_beyond not_less)
  with m show ?thesis unfolding reach_def by auto
qed

lemma put_at:
  assumes "probe_ok slots" and "p < length slots" and "sl_idx (slots ! p) = 0" and "sl_idx sl \<noteq> 0"
    and "reach slots (sl_key sl) p"
  shows "probe_ok (slots[p := sl])" "mset (filled_slots (slots[p := sl])) = add_mset sl (mset (filled_slots slots))"
proof -
  show "probe_ok (slots[p := sl])"
    unfolding probe_ok_def length_list_update
  proof (intro allI impI)
    fix q assume q: "q < length slots" "sl_idx (slots[p := sl] ! q) \<noteq> 0"
    show "reach (slots[p := sl]) (sl_key (slots[p := sl] ! q)) q"
    proof (cases "q = p")
      case True
      then show ?thesis using reach_update [OF assms(5,4)] assms(2) by simp
    next
      case False
      then show ?thesis using q assms(1,4) reach_update unfolding probe_ok_def by auto
    qed
  qed
  have "mset (slots[p := sl]) = add_mset sl (mset slots - {#slots ! p#})"
    using assms(2) by (rule mset_update)
  then have "filter_mset (\<lambda>s. sl_idx s \<noteq> 0) (mset (slots[p := sl])) =
      add_mset sl (filter_mset (\<lambda>s. sl_idx s \<noteq> 0) (mset slots))"
    using assms(3,4) by simp
  then show "mset (filled_slots (slots[p := sl])) = add_mset sl (mset (filled_slots slots))"
    by (simp add: filled_slots_def)
qed

lemma put_slot_ok:
  assumes "length slots = 2 ^ j" and "j \<le> 32" and "probe_ok slots"
    and "length (filled_slots slots) < length slots" and "sl_idx sl \<noteq> 0"
  shows "\<exists>s. put_slot sl slots = Some s \<and> length s = 2 ^ j \<and> probe_ok s \<and>
    mset (filled_slots s) = add_mset sl (mset (filled_slots slots))"
proof -
  obtain q where q: "q < length slots" "sl_idx (slots ! q) = 0" using free_exists [OF assms(4)] .
  obtain m where m: "m < 2 ^ j" "sl_idx (slots ! pos (2 ^ j) (sl_key sl) m) = 0"
    "\<forall>m' < m. sl_idx (slots ! pos (2 ^ j) (sl_key sl) m') \<noteq> 0"
    using first_stop [of q "2 ^ j" "\<lambda>p. sl_idx (slots ! p) = 0" "sl_key sl"] q assms(1) by metis
  let ?p = "pos (2 ^ j) (sl_key sl) m"
  have "put_slot sl slots = Some (slots[?p := sl])"
    using free_probe_at [OF assms(1,2) start_pos [OF assms(2)], of m "length slots" "sl_key sl"] m assms(1)
    by (simp add: put_slot_def)
  moreover have "reach slots (sl_key sl) ?p" using m assms(1) unfolding reach_def by auto
  moreover have "?p < length slots" using assms(1) by (simp add: pos_lt)
  ultimately show ?thesis using put_at [OF assms(3) _ m(2) assms(5)] assms(1) by simp
qed

section \<open>Growing a shard\<close>

lemma empty_ok: "probe_ok (replicate n empty_slot)" "filled_slots (replicate n empty_slot) = []"
  by (simp_all add: probe_ok_def filled_slots_def empty_slot_def)

lemma filled_length: "mset (filled_slots a) = mset (filled_slots b) \<Longrightarrow> length (filled_slots a) = length (filled_slots b)"
  by (metis size_mset)

lemma grow_loop_ok:
  assumes "j \<le> 32"
  shows "length new = 2 ^ j \<Longrightarrow> probe_ok new \<Longrightarrow> length (filled_slots new) + length (filled_slots old) < 2 ^ j \<Longrightarrow>
    \<exists>s. grow_loop old new = Some s \<and> length s = 2 ^ j \<and> probe_ok s \<and>
      mset (filled_slots s) = mset (filled_slots new) + mset (filled_slots old)"
proof (induction old arbitrary: new)
  case Nil
  then show ?case by (simp add: filled_slots_def)
next
  case (Cons sl old)
  show ?case
  proof (cases "sl_idx sl = 0")
    case True
    then have "filled_slots (sl # old) = filled_slots old" by (simp add: filled_slots_def)
    then show ?thesis using Cons True by simp
  next
    case False
    then have f: "filled_slots (sl # old) = sl # filled_slots old" by (simp add: filled_slots_def)
    obtain s where s: "put_slot sl new = Some s" "length s = 2 ^ j" "probe_ok s"
      "mset (filled_slots s) = add_mset sl (mset (filled_slots new))"
      using put_slot_ok [OF Cons.prems(1) assms Cons.prems(2) _ False] Cons.prems by auto
    have "length (filled_slots s) = Suc (length (filled_slots new))"
      using s(4) by (metis size_add_mset size_mset)
    then show ?thesis using Cons.IH [OF s(2,3)] Cons.prems(3) f s(1,4) False by auto
  qed
qed

section \<open>The invariant\<close>

definition slot_fits :: "obj_entry list \<Rightarrow> (bytes \<Rightarrow> nat) \<Rightarrow> nat \<Rightarrow> slot \<Rightarrow> bool" where
  "slot_fits es place k sl \<longleftrightarrow> unat (sl_idx sl) \<le> length es \<and>
     sl_key sl = slot_key (en_hash (es ! (unat (sl_idx sl) - 1))) \<and> place (en_hash (es ! (unat (sl_idx sl) - 1))) = k"

definition shard_inv :: "nat \<Rightarrow> obj_entry list \<Rightarrow> (bytes \<Rightarrow> nat) \<Rightarrow> nat \<Rightarrow> obj_shard \<Rightarrow> bool" where
  "shard_inv start es place k sh \<longleftrightarrow> sh_used sh = length (filled_slots (sh_slots sh)) \<and> sh_used sh \<le> length es \<and>
     (sh_slots sh \<noteq> [] \<longrightarrow> (\<exists>j. length (sh_slots sh) = 2 ^ j) \<and> probe_ok (sh_slots sh) \<and>
        start \<le> length (sh_slots sh) \<and> 2 * sh_used sh < length (sh_slots sh) \<and> length (sh_slots sh) \<le> max start (4 * sh_used sh) \<and>
        (\<forall>sl \<in> set (filled_slots (sh_slots sh)). slot_fits es place k sl))"

definition entry_indexed :: "obj_table \<Rightarrow> nat \<Rightarrow> bool" where
  "entry_indexed t i \<longleftrightarrow> (\<exists>sl \<in> set (filled_slots (sh_slots (ot_shards t ! shard_no t (en_hash (ot_entries t ! i))))).
     unat (sl_idx sl) = Suc i)"

definition max_objects :: nat where
  "max_objects = 2 ^ 30"

definition table_inv :: "obj_table \<Rightarrow> bool" where
  "table_inv t \<longleftrightarrow> (\<exists>m \<le> 16. length (ot_shards t) = 2 ^ m) \<and> (\<exists>s. 3 \<le> s \<and> s \<le> 24 \<and> ot_start t = 2 ^ s) \<and>
     length (ot_entries t) \<le> max_objects \<and> distinct (map en_hash (ot_entries t)) \<and>
     (\<forall>k < length (ot_shards t). shard_inv (ot_start t) (ot_entries t) (shard_no t) k (ot_shards t ! k)) \<and>
     (\<forall>i < length (ot_entries t). entry_indexed t i)"

lemma shard_no_lt: "table_inv t \<Longrightarrow> shard_no t h < length (ot_shards t)"
  by (auto simp: table_inv_def shard_no_def mask_word)

text \<open>The search of one shard, whichever slots it has.\<close>

lemma probe_shard_ok:
  assumes len: "length slots = 2 ^ j" "j \<le> 32" and ok: "probe_ok slots" "length (filled_slots slots) < length slots"
    and fits: "\<forall>sl \<in> set (filled_slots slots). slot_fits es place k sl"
    and there: "\<And>i. i < length es \<Longrightarrow> en_hash (es ! i) = h \<Longrightarrow> \<exists>sl \<in> set (filled_slots slots). unat (sl_idx sl) = Suc i"
    and d: "distinct (map en_hash es)"
  shows "case index_byte (map en_hash es) h of
      Some i \<Rightarrow> probe_shard es h slots = Some (Holds i)
    | None \<Rightarrow> \<exists>p. probe_shard es h slots = Some (FreeSlot p) \<and> p < length slots \<and> sl_idx (slots ! p) = 0 \<and>
        reach slots (slot_key h) p"
proof -
  let ?L = "2 ^ j :: nat" and ?key = "slot_key h"
  have run: "probe_shard es h slots = Some (probe_end slots (pos ?L ?key m))"
    if "m < ?L" "sl_idx (slots ! pos ?L ?key m) = 0 \<or> matches_slot es h (slots ! pos ?L ?key m)"
      "\<forall>m' < m. sl_idx (slots ! pos ?L ?key m') \<noteq> 0 \<and> \<not> matches_slot es h (slots ! pos ?L ?key m')" for m
    unfolding probe_shard_def len(1)
    by (rule probe_at [OF len start_pos [OF len(2)]]) (use that in auto)
  have idx: "unat (sl_idx (slots ! p)) - 1 < length es" "en_hash (es ! (unat (sl_idx (slots ! p)) - 1)) = h"
    if "p < length slots" "sl_idx (slots ! p) \<noteq> 0" "matches_slot es h (slots ! p)" for p
  proof -
    have "slots ! p \<in> set (filled_slots slots)" using that by (simp add: filled_slots_def)
    then have "unat (sl_idx (slots ! p)) \<le> length es" using fits by (auto simp: slot_fits_def)
    moreover have "0 < unat (sl_idx (slots ! p))" using that(2) by (simp add: unat_gt_0)
    ultimately show "unat (sl_idx (slots ! p)) - 1 < length es" by linarith
    show "en_hash (es ! (unat (sl_idx (slots ! p)) - 1)) = h" using that(3) by (simp add: matches_slot_def)
  qed
  show ?thesis
  proof (cases "index_byte (map en_hash es) h")
    case None
    then have absent: "en_hash (es ! i) \<noteq> h" if "i < length es" for i using that by auto
    obtain q where q: "q < length slots" "sl_idx (slots ! q) = 0" using free_exists [OF ok(2)] .
    then obtain m where m: "m < ?L" "sl_idx (slots ! pos ?L ?key m) = 0" "\<forall>m' < m. sl_idx (slots ! pos ?L ?key m') \<noteq> 0"
      using first_stop [of q ?L "\<lambda>p. sl_idx (slots ! p) = 0" ?key] len(1) by metis
    have nm: "\<not> matches_slot es h (slots ! pos ?L ?key m')" if "m' < m" for m'
      using idx [of "pos ?L ?key m'"] absent m(3) that len(1) by (auto simp: pos_lt)
    have "probe_shard es h slots = Some (FreeSlot (pos ?L ?key m))"
      using run [OF m(1)] m nm by (simp add: probe_end_def)
    moreover have "reach slots ?key (pos ?L ?key m)" unfolding reach_def len(1) using m by auto
    ultimately show ?thesis unfolding None option.case using m(2) len(1) by (auto simp: pos_lt)
  next
    case (Some i)
    then have i: "i < length es" "en_hash (es ! i) = h" using index_byte_SomeD [OF Some] by auto
    obtain p where p: "p < length slots" "sl_idx (slots ! p) \<noteq> 0" "unat (sl_idx (slots ! p)) = Suc i"
      using there [OF i] by (auto simp: filled_slots_def in_set_conv_nth)
    have "slots ! p \<in> set (filled_slots slots)" using p by (simp add: filled_slots_def)
    then have key: "sl_key (slots ! p) = ?key" using fits p(3) i(2) by (auto simp: slot_fits_def)
    have hit: "matches_slot es h (slots ! p)" using key p(3) i(2) by (simp add: matches_slot_def)
    obtain m1 where m1: "m1 < ?L" "p = pos ?L ?key m1" "\<forall>m' < m1. sl_idx (slots ! pos ?L ?key m') \<noteq> 0"
      using ok(1) p(1,2) key len(1) unfolding probe_ok_def reach_def by metis
    define m where "m = (LEAST m. matches_slot es h (slots ! pos ?L ?key m))"
    have mh: "matches_slot es h (slots ! pos ?L ?key m)" and le: "m \<le> m1"
      unfolding m_def using hit m1(2) by (auto intro: LeastI Least_le)
    have before: "\<not> matches_slot es h (slots ! pos ?L ?key m')" if "m' < m" for m'
      using that not_less_Least unfolding m_def by blast
    have filled: "sl_idx (slots ! pos ?L ?key m) \<noteq> 0" using le m1 p(2) by (cases "m = m1") auto
    have "probe_shard es h slots = Some (Holds (unat (sl_idx (slots ! pos ?L ?key m)) - 1))"
      using run [of m] mh before m1(1,3) le filled by (simp add: probe_end_def)
    moreover have "unat (sl_idx (slots ! pos ?L ?key m)) - 1 = i"
      using idx [OF _ filled mh] i d len(1) by (auto simp: pos_lt distinct_conv_nth)
    ultimately show ?thesis using Some by simp
  qed
qed

section \<open>Get and Lookup\<close>

definition entry_index :: "obj_entry list \<Rightarrow> bytes \<Rightarrow> nat option" where
  "entry_index es h = index_byte (map en_hash es) h"

definition lookup_spec :: "obj_entry list \<Rightarrow> bytes \<Rightarrow> obj_type \<Rightarrow> obj_entry list \<times> nat option" where
  "lookup_spec es h want =
     (case entry_index es h of
        Some i \<Rightarrow> (case reconcile want (es ! i) of None \<Rightarrow> (es, None) | Some e \<Rightarrow> (es[i := e], Some i))
      | None \<Rightarrow> (es @ [if want \<noteq> TypeAny then set_type want (new_entry h) else new_entry h], Some (length es)))"

lemma entry_index_Some: "entry_index es h = Some i \<Longrightarrow> i < length es \<and> en_hash (es ! i) = h"
  using index_byte_SomeD [of "map en_hash es" h i] by (auto simp: entry_index_def)

lemma shard_length:
  assumes "table_inv t" and "k < length (ot_shards t)" and "sh_slots (ot_shards t ! k) \<noteq> []"
  obtains j where "length (sh_slots (ot_shards t ! k)) = 2 ^ j" "j \<le> 32"
proof -
  let ?sh = "ot_shards t ! k"
  have inv: "shard_inv (ot_start t) (ot_entries t) (shard_no t) k ?sh" using assms(1,2) by (auto simp: table_inv_def)
  then obtain j where j: "length (sh_slots ?sh) = 2 ^ j" using assms(3) by (auto simp: shard_inv_def)
  obtain s where "s \<le> 24" "ot_start t = 2 ^ s" using assms(1) by (auto simp: table_inv_def)
  then have "ot_start t \<le> 2 ^ 24" using power_increasing [of s 24 "2 :: nat"] by simp
  moreover have "sh_used ?sh \<le> 2 ^ 30" using inv assms(1) by (auto simp: shard_inv_def table_inv_def max_objects_def)
  ultimately have "(2 :: nat) ^ j \<le> 2 ^ 32" using inv j assms(3) by (auto simp: shard_inv_def)
  then have "j \<le> 32" by (simp only: power_increasing_iff [of 2])
  with j that show ?thesis by blast
qed

text \<open>One search in the shard of a name, with the slots a new shard would be made with.\<close>

lemma shard_search:
  assumes inv: "table_inv t" and k: "k = shard_no t h"
    and slots: "slots = (if sh_slots (ot_shards t ! k) = [] then replicate (ot_start t) empty_slot else sh_slots (ot_shards t ! k))"
  shows "(\<exists>j \<le> 32. length slots = 2 ^ j)" "probe_ok slots" "length (filled_slots slots) = sh_used (ot_shards t ! k)"
    "2 * sh_used (ot_shards t ! k) < length slots" "8 \<le> length slots" "ot_start t \<le> length slots" "length slots \<le> max (ot_start t) (4 * sh_used (ot_shards t ! k))"
    "\<forall>sl \<in> set (filled_slots slots). slot_fits (ot_entries t) (shard_no t) k sl"
    "set (filled_slots slots) = set (filled_slots (sh_slots (ot_shards t ! k)))"
    "case entry_index (ot_entries t) h of
      Some i \<Rightarrow> probe_shard (ot_entries t) h slots = Some (Holds i)
    | None \<Rightarrow> \<exists>p. probe_shard (ot_entries t) h slots = Some (FreeSlot p) \<and> p < length slots \<and>
        sl_idx (slots ! p) = 0 \<and> reach slots (slot_key h) p"
proof -
  let ?sh = "ot_shards t ! k"
  have kl: "k < length (ot_shards t)" using shard_no_lt [OF inv] k by simp
  have si: "shard_inv (ot_start t) (ot_entries t) (shard_no t) k ?sh" using inv kl by (auto simp: table_inv_def)
  obtain s where s: "3 \<le> s" "s \<le> 24" "ot_start t = 2 ^ s" using inv by (auto simp: table_inv_def)
  show j: "\<exists>j \<le> 32. length slots = 2 ^ j"
  proof (cases "sh_slots ?sh = []")
    case True
    then show ?thesis using s slots by (intro exI [of _ s]) simp
  next
    case False
    then show ?thesis using shard_length [OF inv kl False] slots by auto
  qed
  have fne: "sh_slots ?sh = [] \<Longrightarrow> filled_slots (sh_slots ?sh) = []" by (simp add: filled_slots_def)
  show ok: "probe_ok slots" using si slots by (auto simp: shard_inv_def empty_ok)
  show fl: "length (filled_slots slots) = sh_used ?sh" using si slots fne by (auto simp: shard_inv_def empty_ok)
  show lt: "2 * sh_used ?sh < length slots" using si slots s fne by (auto simp: shard_inv_def)
  have "(2 :: nat) ^ 3 \<le> 2 ^ s" using s(1) by (intro power_increasing) simp_all
  then have s8: "8 \<le> ot_start t" using s(3) by simp
  show sl: "ot_start t \<le> length slots" using si slots by (auto simp: shard_inv_def)
  then show "8 \<le> length slots" using s8 by linarith
  show "length slots \<le> max (ot_start t) (4 * sh_used ?sh)" using si slots by (auto simp: shard_inv_def)
  show fs: "set (filled_slots slots) = set (filled_slots (sh_slots ?sh))" using slots fne by (simp add: empty_ok)
  show ft: "\<forall>sl \<in> set (filled_slots slots). slot_fits (ot_entries t) (shard_no t) k sl"
    using si fne unfolding fs by (auto simp: shard_inv_def)
  obtain j where jl: "j \<le> 32" "length slots = 2 ^ j" using j by blast
  have there: "\<exists>sl \<in> set (filled_slots slots). unat (sl_idx sl) = Suc i"
    if "i < length (ot_entries t)" "en_hash (ot_entries t ! i) = h" for i
    using inv that k unfolding fs table_inv_def entry_indexed_def by blast
  have d: "distinct (map en_hash (ot_entries t))" using inv by (simp add: table_inv_def)
  show "case entry_index (ot_entries t) h of
      Some i \<Rightarrow> probe_shard (ot_entries t) h slots = Some (Holds i)
    | None \<Rightarrow> \<exists>p. probe_shard (ot_entries t) h slots = Some (FreeSlot p) \<and> p < length slots \<and>
        sl_idx (slots ! p) = 0 \<and> reach slots (slot_key h) p"
    unfolding entry_index_def
    by (rule probe_shard_ok [OF jl(2,1) ok _ ft there d]) (use fl lt in simp_all)
qed

lemma table_get_exact:
  assumes "table_inv t"
  shows "table_get t h = Some (entry_index (ot_entries t) h)"
proof (cases "sh_slots (ot_shards t ! shard_no t h) = []")
  case True
  have "entry_index (ot_entries t) h = None"
  proof (cases "entry_index (ot_entries t) h")
    case (Some i)
    then have "entry_indexed t i" "en_hash (ot_entries t ! i) = h"
      using entry_index_Some assms by (auto simp: table_inv_def)
    with True show ?thesis by (simp add: entry_indexed_def filled_slots_def)
  qed
  with True show ?thesis by (simp add: table_get_def)
next
  case False
  then show ?thesis
    using shard_search(10) [OF assms refl refl, of h] by (auto simp: table_get_def Let_def split: option.splits)
qed

lemma slot_fits_append:
  assumes "slot_fits es place k sl" and "sl_idx sl \<noteq> 0"
  shows "slot_fits (es @ [e]) place k sl"
proof -
  have "0 < unat (sl_idx sl)" using assms(2) by (simp add: unat_gt_0)
  with assms(1) show ?thesis by (auto simp: slot_fits_def nth_append)
qed

lemma idx_word: "n < 2 ^ 32 \<Longrightarrow> unat (word_of_nat n :: 32 word) = n"
  by (simp add: unat_of_nat take_bit_nat_eq_self)

lemma shard_inv_append: "shard_inv start es place k sh \<Longrightarrow> shard_inv start (es @ [e]) place k sh"
  using slot_fits_append [of es place k _ e] by (auto simp: shard_inv_def filled_slots_def)

lemma table_inv_set_entry:
  assumes "table_inv t" and "en_hash e = en_hash (ot_entries t ! i)"
  shows "table_inv (set_entry i e t)"
proof (cases "i < length (ot_entries t)")
  case True
  let ?es = "(ot_entries t)[i := e]"
  have hash: "en_hash (?es ! k) = en_hash (ot_entries t ! k)" for k
    using assms(2) True by (cases "k = i") simp_all
  have fits: "slot_fits ?es place k sl = slot_fits (ot_entries t) place k sl" for place k sl
    by (simp add: slot_fits_def hash)
  have "map en_hash ?es = map en_hash (ot_entries t)"
    by (rule nth_equalityI) (simp_all add: hash)
  moreover have "shard_no (set_entry i e t) = shard_no t"
    by (intro ext) (simp add: shard_no_def set_entry_def)
  moreover have "shard_inv st ?es place k sh = shard_inv st (ot_entries t) place k sh" for st place k sh
    by (simp add: shard_inv_def fits)
  ultimately show ?thesis
    using assms(1) by (simp add: table_inv_def entry_indexed_def set_entry_def hash)
qed (use assms in \<open>simp add: set_entry_def list_update_beyond\<close>)

lemma reconcile_hash: "reconcile want e = Some e' \<Longrightarrow> en_hash e' = en_hash e"
  by (auto simp: reconcile_def set_type_def split: if_splits)

text \<open>The shard after an insertion, grown or not.\<close>

lemma shard_insert:
  assumes inv: "table_inv t" and k: "k = shard_no t h" and room: "length (ot_entries t) < max_objects"
    and slots: "slots = (if sh_slots (ot_shards t ! k) = [] then replicate (ot_start t) empty_slot else sh_slots (ot_shards t ! k))"
    and p: "p < length slots" "sl_idx (slots ! p) = 0" "reach slots (slot_key h) p"
    and sl: "sl = \<lparr>sl_key = slot_key h, sl_idx = word_of_nat (length (ot_entries t) + 1)\<rparr>"
    and sh1: "sh1 = \<lparr>sh_slots = slots[p := sl], sh_used = sh_used (ot_shards t ! k) + 1\<rparr>"
    and e: "en_hash e = h"
  shows "\<exists>sh2. (if length (sh_slots sh1) \<le> 2 * sh_used sh1 then grow sh1 else Some sh1) = Some sh2 \<and>
    shard_inv (ot_start t) (ot_entries t @ [e]) (shard_no t) k sh2 \<and>
    set (filled_slots (sh_slots sh2)) = insert sl (set (filled_slots (sh_slots (ot_shards t ! k))))"
proof -
  let ?u = "sh_used (ot_shards t ! k)"
  note f = shard_search [OF inv k slots]
  obtain j where j: "j \<le> 32" "length slots = 2 ^ j" using f(1) by blast
  have idx: "unat (sl_idx sl) = length (ot_entries t) + 1"
    unfolding sl slot.simps using room by (intro idx_word) (simp add: max_objects_def)
  then have nz: "sl_idx sl \<noteq> 0" by (metis Suc_eq_plus1 nat.distinct(1) unat_0)
  have put: "probe_ok (slots[p := sl])" "mset (filled_slots (slots[p := sl])) = add_mset sl (mset (filled_slots slots))"
    using put_at [OF f(2) p(1,2) nz] p(3) by (simp_all add: sl)
  have fl: "length (filled_slots (slots[p := sl])) = ?u + 1"
    using arg_cong [OF put(2), of size] f(3) by simp
  have fs: "set (filled_slots (slots[p := sl])) = insert sl (set (filled_slots (sh_slots (ot_shards t ! k))))"
    using arg_cong [OF put(2), of set_mset] f(9) by simp
  have kl: "k < length (ot_shards t)" using shard_no_lt [OF inv] k by simp
  then have ul: "?u \<le> length (ot_entries t)" using inv by (auto simp: table_inv_def shard_inv_def)
  have fit_new: "slot_fits (ot_entries t @ [e]) (shard_no t) k sl"
    using idx e k by (simp add: slot_fits_def sl)
  have fit: "\<forall>x \<in> insert sl (set (filled_slots (sh_slots (ot_shards t ! k)))). slot_fits (ot_entries t @ [e]) (shard_no t) k x"
    using fit_new f(8) slot_fits_append unfolding f(9) by (auto simp: filled_slots_def)
  show ?thesis
  proof (cases "length slots \<le> 2 * (?u + 1)")
    case False
    then show ?thesis
      using put(1) fl fs fit f(6,7) ul j(2) unfolding sh1
      by (intro exI [of _ sh1]) (auto simp: sh1 shard_inv_def)
  next
    case True
    have "2 * length slots \<le> 2 ^ 32" using True ul room by (simp add: max_objects_def)
    then have "(2 :: nat) ^ Suc j \<le> 2 ^ 32" using j(2) by simp
    then have j1: "Suc j \<le> 32" by (simp only: power_increasing_iff [of 2])
    have "?u + 1 < 2 * length slots" using f(4,5) by linarith
    then obtain s where s: "grow_loop (slots[p := sl]) (replicate (2 * length slots) empty_slot) = Some s"
      "length s = 2 ^ Suc j" "probe_ok s" "mset (filled_slots s) = mset (filled_slots (slots[p := sl]))"
      using grow_loop_ok [OF j1, of "replicate (2 * length slots) empty_slot" "slots[p := sl]"] fl j(2)
      by (auto simp: empty_ok)
    have sf: "set (filled_slots s) = set (filled_slots (slots[p := sl]))" "length (filled_slots s) = ?u + 1"
      using s(4) fl by (metis set_mset_mset, metis size_mset)
    have sn: "s \<noteq> []" using s(2) by (metis length_0_conv power_not_zero zero_neq_numeral)
    have b: "ot_start t \<le> 2 ^ Suc j" "2 * (?u + 1) < 2 ^ Suc j" "2 ^ Suc j \<le> 4 * (?u + 1)"
      using f(4-6) True j(2) by simp_all
    have "shard_inv (ot_start t) (ot_entries t @ [e]) (shard_no t) k (sh1\<lparr>sh_slots := s\<rparr>)"
      unfolding shard_inv_def sh1 using s(2,3) sf fs fit b ul sn
      by (auto simp del: power_Suc intro: exI [of _ "Suc j"])
    moreover have "grow sh1 = Some (sh1\<lparr>sh_slots := s\<rparr>)" using s(1) by (simp add: grow_def sh1)
    ultimately show ?thesis using True sf(1) fs unfolding sh1 by (intro exI [of _ "sh1\<lparr>sh_slots := s\<rparr>"]) (simp add: sh1)
  qed
qed

lemma table_lookup_exact:
  assumes inv: "table_inv t" and room: "length (ot_entries t) < max_objects"
  shows "\<exists>t'. table_lookup t h want = Some (t', snd (lookup_spec (ot_entries t) h want)) \<and>
    ot_entries t' = fst (lookup_spec (ot_entries t) h want) \<and> table_inv t' \<and> ot_arena t' = ot_arena t"
proof -
  define k where "k = shard_no t h"
  define slots where "slots = (if sh_slots (ot_shards t ! k) = [] then replicate (ot_start t) empty_slot else sh_slots (ot_shards t ! k))"
  note search = shard_search [OF inv k_def slots_def]
  show ?thesis
  proof (cases "entry_index (ot_entries t) h")
    case (Some i)
    then have run: "probe_shard (ot_entries t) h slots = Some (Holds i)" using search(10) by simp
    show ?thesis
    proof (cases "reconcile want (ot_entries t ! i)")
      case None
      with run Some inv show ?thesis
        by (simp add: table_lookup_def Let_def lookup_spec_def flip: k_def slots_def)
    next
      case r: (Some e)
      have "table_inv (set_entry i e t)" using table_inv_set_entry [OF inv] reconcile_hash [OF r] by simp
      with run Some r show ?thesis
        by (simp add: table_lookup_def Let_def lookup_spec_def set_entry_def flip: k_def slots_def)
    qed
  next
    case None
    then obtain p where p: "probe_shard (ot_entries t) h slots = Some (FreeSlot p)" "p < length slots"
      "sl_idx (slots ! p) = 0" "reach slots (slot_key h) p"
      using search(10) by auto
    let ?n = "length (ot_entries t)"
    define e where "e = (if want \<noteq> TypeAny then set_type want (new_entry h) else new_entry h)"
    have eh: "en_hash e = h" by (simp add: e_def set_type_def new_entry_def)
    define sl where "sl = \<lparr>sl_key = slot_key h, sl_idx = word_of_nat (?n + 1) :: 32 word\<rparr>"
    define sh1 where "sh1 = \<lparr>sh_slots = slots[p := sl], sh_used = sh_used (ot_shards t ! k) + 1\<rparr>"
    obtain sh2 where sh2: "(if length (sh_slots sh1) \<le> 2 * sh_used sh1 then grow sh1 else Some sh1) = Some sh2"
      "shard_inv (ot_start t) (ot_entries t @ [e]) (shard_no t) k sh2"
      "set (filled_slots (sh_slots sh2)) = insert sl (set (filled_slots (sh_slots (ot_shards t ! k))))"
      using shard_insert [OF inv k_def room slots_def p(2-4) sl_def sh1_def eh] by blast
    define t' where "t' = t\<lparr>ot_entries := ot_entries t @ [e], ot_shards := (ot_shards t)[k := sh2]\<rparr>"
    have run: "table_lookup t h want = Some (t', Some ?n)"
      unfolding table_lookup_def Let_def k_def [symmetric] slots_def [symmetric] p(1) option.case probe_result.case
        e_def [symmetric] sl_def [symmetric]
      unfolding sh1_def [symmetric] sh2(1) t'_def using room
      by (simp add: max_obj_index_def max_objects_def)
    have spec: "lookup_spec (ot_entries t) h want = (ot_entries t @ [e], Some ?n)"
      by (simp add: lookup_spec_def None e_def)
    have kl: "k < length (ot_shards t)" using shard_no_lt [OF inv] k_def by simp
    have sn: "shard_no t' = shard_no t" by (intro ext) (simp add: shard_no_def t'_def)
    have idx: "unat (sl_idx sl) = Suc ?n"
      unfolding sl_def slot.simps using room by (subst idx_word) (simp_all add: max_objects_def)
    have shards: "shard_inv (ot_start t) (ot_entries t @ [e]) (shard_no t) j (ot_shards t' ! j)"
      if "j < length (ot_shards t)" for j
      using that inv sh2(2) shard_inv_append kl by (cases "j = k") (auto simp: t'_def table_inv_def)
    have old: "set (filled_slots (sh_slots (ot_shards t ! j))) \<subseteq> set (filled_slots (sh_slots (ot_shards t' ! j)))" for j
      using sh2(3) kl by (cases "j = k") (auto simp: t'_def)
    have ind: "entry_indexed t' i" if "i < Suc ?n" for i
    proof (cases "i = ?n")
      case True
      then show ?thesis using idx sh2(3) kl eh sn by (auto simp: entry_indexed_def t'_def k_def [symmetric])
    next
      case False
      then have i: "i < ?n" using that by simp
      then have "entry_indexed t i" using inv by (simp add: table_inv_def)
      moreover have "ot_entries t' ! i = ot_entries t ! i" using i by (simp add: t'_def nth_append)
      ultimately show ?thesis using old unfolding entry_indexed_def sn by fastforce
    qed
    have "h \<notin> en_hash ` set (ot_entries t)" using None by (simp add: entry_index_def)
    then have "distinct (map en_hash (ot_entries t @ [e]))" using inv eh by (simp add: table_inv_def)
    then have "table_inv t'"
      using inv room shards ind sn by (simp add: table_inv_def t'_def)
    then show ?thesis using run spec by (simp add: t'_def)
  qed
qed

lemma new_table_inv: "table_inv (new_obj_table procs expect)"
proof -
  have d: "\<exists>m. double_until fuel n limit (2 ^ b) = 2 ^ m \<and> b \<le> m \<and> m \<le> b + fuel" for fuel n limit b
  proof (induction fuel arbitrary: b)
    case (Suc fuel)
    obtain m where "double_until fuel n limit (2 ^ Suc b) = 2 ^ m" "Suc b \<le> m" "m \<le> Suc b + fuel"
      using Suc [of "Suc b"] by blast
    then show ?case by (cases "2 ^ b < n \<and> 2 ^ b < limit") (auto intro: exI [of _ m])
  qed auto
  obtain m where m: "shard_count procs = 2 ^ m" "m \<le> 16"
    using d [of 8 "64 * procs" "2 ^ 16" 8] by (auto simp: shard_count_def)
  obtain s where s: "double_until 21 (2 * (expect div shard_count procs + 1)) (2 ^ 24) 8 = 2 ^ s" "3 \<le> s" "s \<le> 24"
    using d [of 21 "2 * (expect div shard_count procs + 1)" "2 ^ 24" 3] by auto
  have "shard_inv start [] place k empty_obj_shard" for start place k
    by (simp add: shard_inv_def empty_obj_shard_def filled_slots_def)
  then show ?thesis
    using m s by (auto simp: table_inv_def new_obj_table_def Let_def)
qed

section \<open>The interface\<close>

text \<open>What the passes of the checker rely on: a table is its list of entries.\<close>

definition note_name :: "bytes \<Rightarrow> bytes list \<Rightarrow> bytes list" where
  "note_name h hs = (if h \<in> set hs then hs else hs @ [h])"

fun run_lookups ::
    "('t \<Rightarrow> bytes \<Rightarrow> obj_type \<Rightarrow> ('t \<times> nat option) option) \<Rightarrow> 't \<Rightarrow> (bytes \<times> obj_type) list \<Rightarrow> ('t \<times> nat option list) option" where
  "run_lookups lookup t [] = Some (t, [])"
| "run_lookups lookup t ((h, want) # ops) =
     (case lookup t h want of
        None \<Rightarrow> None
      | Some (t1, r) \<Rightarrow> map_option (\<lambda>(t2, rs). (t2, r # rs)) (run_lookups lookup t1 ops))"

lemma lookup_spec_names:
  "map en_hash (fst (lookup_spec es h want)) = note_name h (map en_hash es)"
proof (cases "entry_index es h")
  case None
  then have "h \<notin> set (map en_hash es)" by (simp add: entry_index_def)
  with None show ?thesis by (simp add: lookup_spec_def note_name_def set_type_def new_entry_def)
next
  case (Some i)
  note i = entry_index_Some [OF Some]
  then have "h \<in> set (map en_hash es)" by force
  moreover have "map en_hash (es[i := e]) = map en_hash es" if "en_hash e = en_hash (es ! i)" for e
    using that i by (metis length_map list_update_id map_update nth_map)
  ultimately show ?thesis using Some by (auto simp: lookup_spec_def note_name_def reconcile_hash split: option.split)
qed

lemma note_name_index: "index_byte hs h = Some i \<Longrightarrow> index_byte (note_name g hs) h = Some i"
  by (simp add: note_name_def index_byte_append_Some)

lemma lookup_spec_index:
  "snd (lookup_spec es h want) = Some i \<Longrightarrow> index_byte (note_name h (map en_hash es)) h = Some i"
proof (cases "entry_index es h")
  case None
  assume "snd (lookup_spec es h want) = Some i"
  then have "i = length (map en_hash es)" using None by (simp add: lookup_spec_def)
  moreover have "h \<notin> set (map en_hash es)" using None by (simp add: entry_index_def)
  ultimately show ?thesis by (simp add: note_name_def)
next
  case (Some j)
  assume "snd (lookup_spec es h want) = Some i"
  then have "j = i" using Some by (auto simp: lookup_spec_def split: option.splits)
  then show ?thesis using Some note_name_index by (simp add: entry_index_def)
qed

locale object_index =
  fixes inv :: "'t \<Rightarrow> bool"
    and entries :: "'t \<Rightarrow> obj_entry list"
    and get :: "'t \<Rightarrow> bytes \<Rightarrow> nat option option"
    and lookup :: "'t \<Rightarrow> bytes \<Rightarrow> obj_type \<Rightarrow> ('t \<times> nat option) option"
    and update :: "nat \<Rightarrow> obj_entry \<Rightarrow> 't \<Rightarrow> 't"
  assumes get_search: "inv t \<Longrightarrow> get t h = Some (entry_index (entries t) h)"
    and lookup_step: "inv t \<Longrightarrow> length (entries t) < max_objects \<Longrightarrow>
      \<exists>t'. lookup t h want = Some (t', snd (lookup_spec (entries t) h want)) \<and>
        entries t' = fst (lookup_spec (entries t) h want) \<and> inv t'"
    and update_step: "inv t \<Longrightarrow> en_hash e = en_hash (entries t ! i) \<Longrightarrow>
      inv (update i e t) \<and> entries (update i e t) = (entries t)[i := e]"
begin

lemma lookup_then_get:
  assumes "inv t" and "length (entries t) < max_objects" and "lookup t h want = Some (t', Some i)"
  shows "get t' h = Some (Some i)" and "get t g = Some (Some j) \<Longrightarrow> get t' g = Some (Some j)"
proof -
  obtain t1 where t1: "lookup t h want = Some (t1, snd (lookup_spec (entries t) h want))"
    "entries t1 = fst (lookup_spec (entries t) h want)" "inv t1"
    using lookup_step [OF assms(1,2)] by blast
  then have t': "t1 = t'" "snd (lookup_spec (entries t) h want) = Some i" using assms(3) by simp_all
  have names: "map en_hash (entries t') = note_name h (map en_hash (entries t))"
    using t1(2) t'(1) lookup_spec_names by simp
  show "get t' h = Some (Some i)"
    using get_search [of t' h] t1(3) t' names lookup_spec_index by (simp add: entry_index_def)
  show "get t g = Some (Some j) \<Longrightarrow> get t' g = Some (Some j)"
    using get_search [of t g] get_search [of t' g] assms(1) t1(3) t'(1) names note_name_index
    by (simp add: entry_index_def)
qed

lemma run_lookups_exact:
  "inv t \<Longrightarrow> length (entries t) + length ops \<le> max_objects \<Longrightarrow>
    \<exists>t' rs. run_lookups lookup t ops = Some (t', rs) \<and> inv t' \<and>
      map en_hash (entries t') = fold note_name (map fst ops) (map en_hash (entries t)) \<and> length rs = length ops \<and>
      (\<forall>k < length ops. \<forall>i. rs ! k = Some i \<longrightarrow> get t' (fst (ops ! k)) = Some (Some i)) \<and>
      (\<forall>h i. get t h = Some (Some i) \<longrightarrow> get t' h = Some (Some i))"
proof (induction ops arbitrary: t)
  case Nil
  then show ?case by simp
next
  case (Cons op ops)
  obtain h want where op: "op = (h, want)" by (cases op)
  have room: "length (entries t) < max_objects" using Cons.prems(2) by simp
  obtain t1 where t1: "lookup t h want = Some (t1, snd (lookup_spec (entries t) h want))"
    "entries t1 = fst (lookup_spec (entries t) h want)" "inv t1"
    using lookup_step [OF Cons.prems(1) room] by blast
  have names: "map en_hash (entries t1) = note_name h (map en_hash (entries t))"
    using t1(2) lookup_spec_names by simp
  have "length (entries t1) \<le> Suc (length (entries t))"
    using arg_cong [OF names, of length] by (auto simp: note_name_def split: if_splits)
  then obtain t' rs where IH: "run_lookups lookup t1 ops = Some (t', rs)" "inv t'"
    "map en_hash (entries t') = fold note_name (map fst ops) (map en_hash (entries t1))" "length rs = length ops"
    "\<forall>k < length ops. \<forall>i. rs ! k = Some i \<longrightarrow> get t' (fst (ops ! k)) = Some (Some i)"
    "\<forall>h i. get t1 h = Some (Some i) \<longrightarrow> get t' h = Some (Some i)"
    using Cons.IH [OF t1(3)] Cons.prems(2) by auto
  let ?r = "snd (lookup_spec (entries t) h want)"
  have here: "get t' h = Some (Some i)" if "?r = Some i" for i
    using lookup_then_get(1) [OF Cons.prems(1) room, of h want t1 i] t1(1) that IH(6) by simp
  have keep: "get t1 g = Some (Some i)" if "get t g = Some (Some i)" for g i
    using get_search [OF Cons.prems(1), of g] get_search [OF t1(3), of g] that names
      note_name_index [of "map en_hash (entries t)" g i h]
    by (simp add: entry_index_def)
  have "run_lookups lookup t (op # ops) = Some (t', ?r # rs)" using t1(1) IH(1) by (simp add: op)
  moreover have "\<forall>k < length (op # ops). \<forall>i. (?r # rs) ! k = Some i \<longrightarrow> get t' (fst ((op # ops) ! k)) = Some (Some i)"
    using here IH(5) by (simp add: op nth_Cons split: nat.split)
  ultimately show ?case using IH keep names by (simp add: op)
qed

end

interpretation table: object_index table_inv ot_entries table_get table_lookup set_entry
proof
  show "\<exists>t'. table_lookup t h want = Some (t', snd (lookup_spec (ot_entries t) h want)) \<and>
      ot_entries t' = fst (lookup_spec (ot_entries t) h want) \<and> table_inv t'"
    if "table_inv t" "length (ot_entries t) < max_objects" for t h want
    using table_lookup_exact [OF that] by blast
  show "table_inv (set_entry i e t) \<and> ot_entries (set_entry i e t) = (ot_entries t)[i := e]"
    if "table_inv t" "en_hash e = en_hash (ot_entries t ! i)" for t e i
    using table_inv_set_entry [OF that] by (simp add: set_entry_def)
qed (rule table_get_exact)

text \<open>
  C38: whatever names are looked up in a new table, up to a billion of them, every call returns; the table
  then holds each name once, in the order of its first appearance, every index a call gave still names the
  same object, and exactly the names that were never looked up are not found. Growing a shard
  moves nothing a reader can see.
\<close>

theorem object_table_exact:
  assumes "length ops \<le> max_objects"
  shows "\<exists>t rs. run_lookups table_lookup (new_obj_table procs expect) ops = Some (t, rs) \<and>
    map en_hash (ot_entries t) = fold note_name (map fst ops) [] \<and> length rs = length ops \<and>
    (\<forall>k < length ops. \<forall>i. rs ! k = Some i \<longrightarrow> table_get t (fst (ops ! k)) = Some (Some i)) \<and>
    (\<forall>h. table_get t h = Some None \<longleftrightarrow> h \<notin> fst ` set ops)"
proof -
  have new: "ot_entries (new_obj_table procs expect) = []" by (simp add: new_obj_table_def Let_def)
  obtain t rs where r: "run_lookups table_lookup (new_obj_table procs expect) ops = Some (t, rs)" "table_inv t"
    "map en_hash (ot_entries t) = fold note_name (map fst ops) []" "length rs = length ops"
    "\<forall>k < length ops. \<forall>i. rs ! k = Some i \<longrightarrow> table_get t (fst (ops ! k)) = Some (Some i)"
    using table.run_lookups_exact [OF new_table_inv [of procs expect], of ops] assms new by auto
  have "set (fold note_name hs acc) = set acc \<union> set hs" for hs acc
    by (induction hs arbitrary: acc) (auto simp: note_name_def)
  then have "set (map en_hash (ot_entries t)) = fst ` set ops" unfolding r(3) by simp
  then have "table_get t h = Some None \<longleftrightarrow> h \<notin> fst ` set ops" for h
    using table_get_exact [OF r(2), of h] by (simp add: entry_index_def)
  with r show ?thesis by blast
qed

theorem object_table_exact_witness:
  "\<exists>t rs. run_lookups table_lookup (new_obj_table 4 0) [(replicate 32 1, TypeBlob), (replicate 32 1, TypeTree)] = Some (t, rs) \<and>
    map en_hash (ot_entries t) = [replicate 32 1]"
proof -
  have "length [(replicate 32 1 :: bytes, TypeBlob), (replicate 32 1, TypeTree)] \<le> max_objects"
    by (simp add: max_objects_def)
  from object_table_exact [OF this, of 4 0] show ?thesis by (auto simp: note_name_def)
qed

end
