(* ===== verification/EdgeArena.thy ===== *)
theory EdgeArena
  imports ObjTable
begin

text \<open>
  The arena of edges hands out room that no later allocation touches, whichever chunk the pool
  returns, so what was written to a span stays there.
\<close>

section \<open>Spans\<close>

lemma pack_unpack:
  fixes x y :: "32 word"
  shows "drop_bit 32 (push_bit 32 (ucast x) OR ucast y :: 64 word) = ucast x"
    "(ucast (push_bit 32 (ucast x) OR ucast y :: 64 word) :: 32 word) = y"
proof -
  have long: "\<not> bit (w :: 32 word) n" if "32 \<le> n" for w n
    using that bit_imp_le_length [of w n] by auto
  show "drop_bit 32 (push_bit 32 (ucast x) OR ucast y :: 64 word) = ucast x"
  proof (rule bit_word_eqI)
    fix n assume "n < LENGTH(64)"
    then show "bit (drop_bit 32 (push_bit 32 (ucast x) OR ucast y :: 64 word)) n = bit (ucast x :: 64 word) n"
      by (cases "n < 32") (simp_all add: bit_simps long)
  qed
  show "(ucast (push_bit 32 (ucast x) OR ucast y :: 64 word) :: 32 word) = y"
    by (rule bit_word_eqI) (simp add: bit_simps)
qed

lemma word_of_nat_narrow: "n < 2 ^ 32 \<Longrightarrow> (word_of_nat n :: 64 word) = ucast (word_of_nat n :: 32 word)"
  by (simp add: word_unat_eq_iff unat_of_nat take_bit_nat_eq_self unsigned_ucast_eq)

lemma span_of_at:
  assumes "s < 2 ^ 32" and "p < 2 ^ 32" and "n < 2 ^ 32"
  shows "span_slab (span_at s p n) = s" "span_pos (span_at s p n) = p" "unat (sp_n (span_at s p n)) = n"
proof -
  have u: "unat (word_of_nat k :: 32 word) = k" if "k < 2 ^ 32" for k
    using that by (simp add: unat_of_nat take_bit_nat_eq_self)
  have "unat (ucast (word_of_nat s :: 32 word) :: 64 word) = s"
    using assms(1) u [OF assms(1)] by (simp add: unsigned_ucast_eq take_bit_nat_eq_self)
  then show "span_slab (span_at s p n) = s"
    unfolding span_slab_def span_at_def edge_span.simps word_of_nat_narrow [OF assms(2)] pack_unpack(1) .
  show "span_pos (span_at s p n) = p"
    unfolding span_pos_def span_at_def edge_span.simps word_of_nat_narrow [OF assms(2)] pack_unpack(2)
    by (rule u [OF assms(2)])
  show "unat (sp_n (span_at s p n)) = n"
    unfolding span_at_def edge_span.simps by (rule u [OF assms(3)])
qed

section \<open>The invariant\<close>

definition arena_inv :: "arena \<Rightarrow> bool" where
  "arena_inv a \<longleftrightarrow> distinct (map ck_slab (ar_pool a)) \<and>
     (\<forall>c \<in> set (ar_pool a). ck_slab c < length (ar_slabs a) \<and> ck_size c = length (ar_slabs a ! ck_slab c) \<and>
        ck_used c \<le> ck_size c \<and> ck_size c = edge_slab_size)"

definition in_arena :: "arena \<Rightarrow> nat \<Rightarrow> nat \<Rightarrow> edge list \<Rightarrow> bool" where
  "in_arena a s p es \<longleftrightarrow> s < length (ar_slabs a) \<and> p + length es \<le> length (ar_slabs a ! s) \<and>
     take (length es) (drop p (ar_slabs a ! s)) = es \<and> (\<forall>c \<in> set (ar_pool a). ck_slab c = s \<longrightarrow> p + length es \<le> ck_used c)"

text \<open>Room: inside a slab, used by no chunk of the pool and by nothing written so far.\<close>

definition room_at :: "arena \<Rightarrow> arena \<Rightarrow> nat \<Rightarrow> nat \<Rightarrow> nat \<Rightarrow> bool" where
  "room_at a a' s p n \<longleftrightarrow> s < length (ar_slabs a') \<and> p + n \<le> length (ar_slabs a' ! s) \<and>
     (\<forall>c \<in> set (ar_pool a'). ck_slab c = s \<longrightarrow> p + n \<le> ck_used c) \<and>
     (\<forall>s0 p0 es. in_arena a s0 p0 es \<longrightarrow> in_arena a' s0 p0 es \<and> (s0 = s \<longrightarrow> p0 + length es \<le> p))"

lemma new_slab_keeps:
  assumes "in_arena a s p es"
  shows "in_arena (snd (new_slab n a)) s p es" "s \<noteq> fst (new_slab n a)"
  using assms by (auto simp: in_arena_def new_slab_def nth_append)

lemma new_slab_inv: "arena_inv a \<Longrightarrow> arena_inv (snd (new_slab n a))"
  by (auto simp: arena_inv_def new_slab_def nth_append)

text \<open>A chunk that leaves the pool takes nothing with it.\<close>

lemma take_chunk_cases:
  assumes "take_chunk pick a = (got, a1)"
  shows "got = None \<and> a1 = a \<or>
    (\<exists>c xs ys. got = Some c \<and> ar_pool a = xs @ c # ys \<and> a1 = a\<lparr>ar_pool := xs @ ys\<rparr>)"
proof (cases pick)
  case (Some i)
  show ?thesis
  proof (cases "i < length (ar_pool a)")
    case True
    then have "ar_pool a = take i (ar_pool a) @ ar_pool a ! i # drop (Suc i) (ar_pool a)" by (rule id_take_nth_drop)
    with True Some assms show ?thesis
      by (intro disjI2 exI [of _ "ar_pool a ! i"] exI [of _ "take i (ar_pool a)"] exI [of _ "drop (Suc i) (ar_pool a)"])
        (simp add: take_chunk_def)
  qed (use assms Some in \<open>simp add: take_chunk_def\<close>)
qed (use assms in \<open>simp add: take_chunk_def\<close>)

lemma smaller_pool:
  assumes "set (ar_pool a1) \<subseteq> set (ar_pool a)" and "ar_slabs a1 = ar_slabs a"
  shows "in_arena a s p es \<Longrightarrow> in_arena a1 s p es"
  using assms by (auto simp: in_arena_def)

lemma fresh_room:
  assumes "arena_inv a1" and "\<And>s p es. in_arena a s p es \<Longrightarrow> in_arena a1 s p es"
    and "new_slab k a1 = (s, a2)" and "n \<le> k"
  shows "room_at a (a2\<lparr>ar_pool := ar_pool a2 @ [\<lparr>ck_slab = s, ck_size = k, ck_used = n\<rparr>]\<rparr>) s 0 n"
    "room_at a a2 s 0 n" "k = edge_slab_size \<Longrightarrow> arena_inv (a2\<lparr>ar_pool := ar_pool a2 @ [\<lparr>ck_slab = s, ck_size = k, ck_used = n\<rparr>]\<rparr>)"
proof -
  have s: "s = length (ar_slabs a1)" "a2 = a1\<lparr>ar_slabs := ar_slabs a1 @ [replicate k 0]\<rparr>"
    using assms(3) by (simp_all add: new_slab_def)
  have keep: "in_arena a2 s0 p0 es \<and> s0 < s" if "in_arena a s0 p0 es" for s0 p0 es
  proof -
    have "in_arena a1 s0 p0 es" using assms(2) that .
    then show ?thesis using new_slab_keeps(1) [of a1 s0 p0 es k] assms(3) s(1) by (auto simp: in_arena_def)
  qed
  have old: "ck_slab c < s" if "c \<in> set (ar_pool a2)" for c
    using assms(1) that s by (auto simp: arena_inv_def)
  show "room_at a (a2\<lparr>ar_pool := ar_pool a2 @ [\<lparr>ck_slab = s, ck_size = k, ck_used = n\<rparr>]\<rparr>) s 0 n"
    "room_at a a2 s 0 n"
    unfolding room_at_def using keep old s assms(4) by (fastforce simp: in_arena_def)+
  show "arena_inv (a2\<lparr>ar_pool := ar_pool a2 @ [\<lparr>ck_slab = s, ck_size = k, ck_used = n\<rparr>]\<rparr>)" if "k = edge_slab_size"
    using assms(1,4) that old s by (force simp: arena_inv_def nth_append)
qed

lemma reuse_room:
  assumes inv: "arena_inv a" and pool: "ar_pool a = xs @ c # ys" and n: "n \<le> ck_size c - ck_used c"
    and a': "a' = a\<lparr>ar_pool := xs @ ys @ [c\<lparr>ck_used := ck_used c + n\<rparr>]\<rparr>"
  shows "arena_inv a'" "room_at a a' (ck_slab c) (ck_used c) n"
proof -
  have c: "ck_slab c < length (ar_slabs a)" "ck_size c = length (ar_slabs a ! ck_slab c)" "ck_used c \<le> ck_size c"
    "ck_size c = edge_slab_size"
    using inv pool by (auto simp: arena_inv_def)
  have "ck_slab c \<notin> ck_slab ` (set xs \<union> set ys)" using inv pool by (simp add: arena_inv_def image_Un)
  then have other: "ck_slab d \<noteq> ck_slab c" if "d \<in> set xs \<union> set ys" for d
    using that by (metis imageI)
  have "ck_slab d < length (ar_slabs a') \<and> ck_size d = length (ar_slabs a' ! ck_slab d) \<and>
      ck_used d \<le> ck_size d \<and> ck_size d = edge_slab_size" if "d \<in> set (ar_pool a')" for d
  proof (cases "d = c\<lparr>ck_used := ck_used c + n\<rparr>")
    case True
    then show ?thesis using c n by (simp add: a')
  next
    case False
    then have "d \<in> set (ar_pool a)" using that by (auto simp: a' pool)
    moreover have sl: "ar_slabs a' = ar_slabs a" by (simp add: a')
    ultimately show ?thesis unfolding sl using inv unfolding arena_inv_def by blast
  qed
  moreover have "distinct (map ck_slab (ar_pool a'))" using inv pool by (auto simp: arena_inv_def a')
  ultimately show "arena_inv a'" unfolding arena_inv_def by blast
  have "in_arena a' s0 p0 es \<and> (s0 = ck_slab c \<longrightarrow> p0 + length es \<le> ck_used c)" if "in_arena a s0 p0 es" for s0 p0 es
    using that other by (auto simp: in_arena_def a' pool)
  then show "room_at a a' (ck_slab c) (ck_used c) n"
    using n c other by (auto simp: room_at_def a')
qed

lemma arena_alloc_room:
  assumes inv: "arena_inv a" and n: "0 < n" and al: "arena_alloc pick n a = (sp, a')"
  shows "\<exists>s p. sp = span_at s p n \<and> arena_inv a' \<and> room_at a a' s p n \<and> p \<le> edge_slab_size \<and>
    length (ar_slabs a') \<le> Suc (length (ar_slabs a))"
proof (cases "edge_slab_size < n")
  case True
  obtain s a2 where ns: "new_slab n a = (s, a2)" by (cases "new_slab n a")
  have "arena_inv a2" using new_slab_inv [OF inv, of n] ns by simp
  moreover have "room_at a a2 s 0 n" using fresh_room(2) [OF inv _ ns] by simp
  moreover have "length (ar_slabs a2) = Suc (length (ar_slabs a))" using ns by (auto simp: new_slab_def)
  ultimately show ?thesis using al True n ns by (auto simp: arena_alloc_def)
next
  case False
  obtain got a1 where tc: "take_chunk pick a = (got, a1)" by (cases "take_chunk pick a")
  consider (none) "got = None" "a1 = a"
    | (some) c xs ys where "got = Some c" "ar_pool a = xs @ c # ys" "a1 = a\<lparr>ar_pool := xs @ ys\<rparr>"
    using take_chunk_cases [OF tc] by blast
  then have sub: "set (ar_pool a1) \<subseteq> set (ar_pool a)" "ar_slabs a1 = ar_slabs a"
    and inv1: "arena_inv a1"
    using inv by (cases; auto simp: arena_inv_def)+
  show ?thesis
  proof (cases "case got of None \<Rightarrow> True | Some c \<Rightarrow> ck_size c - ck_used c < n")
    case True
    obtain s a2 where ns: "new_slab edge_slab_size a1 = (s, a2)" by (cases "new_slab edge_slab_size a1")
    let ?a' = "a2\<lparr>ar_pool := ar_pool a2 @ [\<lparr>ck_slab = s, ck_size = edge_slab_size, ck_used = n\<rparr>]\<rparr>"
    have "arena_inv ?a'" "room_at a ?a' s 0 n"
      using fresh_room(1,3) [OF inv1 smaller_pool [OF sub] ns] False by simp_all
    moreover have "length (ar_slabs ?a') = Suc (length (ar_slabs a))" using ns sub(2) by (auto simp: new_slab_def)
    moreover have "sp = span_at s 0 n \<and> a' = ?a'"
      using al False n tc True ns by (simp add: arena_alloc_def Let_def)
    ultimately show ?thesis by auto
  next
    case reuse: False
    then obtain c where c: "got = Some c" "\<not> ck_size c - ck_used c < n" by (cases got) auto
    then obtain xs ys where p: "ar_pool a = xs @ c # ys" "a1 = a\<lparr>ar_pool := xs @ ys\<rparr>"
      using take_chunk_cases [OF tc] by auto
    let ?a' = "a\<lparr>ar_pool := xs @ ys @ [c\<lparr>ck_used := ck_used c + n\<rparr>]\<rparr>"
    have "n \<le> ck_size c - ck_used c" using c(2) by simp
    then have "arena_inv ?a'" "room_at a ?a' (ck_slab c) (ck_used c) n" using reuse_room [OF inv p(1)] by simp_all
    moreover have "ck_used c \<le> edge_slab_size" using inv p(1) by (auto simp: arena_inv_def)
    moreover have "sp = span_at (ck_slab c) (ck_used c) n \<and> a' = ?a'"
      using al False n tc c p by (simp add: arena_alloc_def Let_def)
    ultimately show ?thesis by auto
  qed
qed

section \<open>Writing\<close>

definition arena_store :: "nat option \<Rightarrow> nat \<Rightarrow> edge list \<Rightarrow> arena \<Rightarrow> edge_span \<times> arena" where
  "arena_store pick n es a =
     (case arena_alloc pick n a of (sp, a1) \<Rightarrow> (sp\<lparr>sp_n := word_of_nat (length es)\<rparr>, arena_write sp es a1))"

lemma write_at_length: "p + length es \<le> length b \<Longrightarrow> length (write_at b p es) = length b"
  by (simp add: write_at_def)

lemma write_at_read: "p + length es \<le> length b \<Longrightarrow> take (length es) (drop p (write_at b p es)) = es"
  by (simp add: write_at_def)

lemma write_at_before: "p0 + m \<le> p \<Longrightarrow> p + length es \<le> length b \<Longrightarrow> take m (drop p0 (write_at b p es)) = take m (drop p0 b)"
proof -
  assume "p0 + m \<le> p" "p + length es \<le> length b"
  then have "drop p0 (write_at b p es) = drop p0 (take p b) @ es @ drop (p + length es) b" by (simp add: write_at_def)
  moreover have "m \<le> length (drop p0 (take p b))" using \<open>p0 + m \<le> p\<close> \<open>p + length es \<le> length b\<close> by simp
  ultimately have "take m (drop p0 (write_at b p es)) = take m (drop p0 (take p b))" by simp
  also have "\<dots> = take m (drop p0 b)" using \<open>p0 + m \<le> p\<close> by (simp add: drop_take)
  finally show ?thesis .
qed

lemma arena_store_keeps:
  assumes inv: "arena_inv a" and n: "length es \<le> n" "n < 2 ^ 32" and room: "Suc (length (ar_slabs a)) < 2 ^ 32"
    and st: "arena_store pick n es a = (sp, a')"
  shows "arena_inv a'" "length (ar_slabs a') \<le> Suc (length (ar_slabs a))" "unat (sp_n sp) = length es"
    "es \<noteq> [] \<Longrightarrow> in_arena a' (span_slab sp) (span_pos sp) es"
    "in_arena a s0 p0 es0 \<Longrightarrow> in_arena a' s0 p0 es0"
proof -
  obtain sp1 a1 where al: "arena_alloc pick n a = (sp1, a1)" by (cases "arena_alloc pick n a")
  have sp: "sp = sp1\<lparr>sp_n := word_of_nat (length es)\<rparr>" and a': "a' = arena_write sp1 es a1"
    using st al by (simp_all add: arena_store_def)
  show "unat (sp_n sp) = length es" using n by (simp add: sp unat_of_nat take_bit_nat_eq_self)
  have "arena_inv a' \<and> length (ar_slabs a') \<le> Suc (length (ar_slabs a)) \<and>
        (es \<noteq> [] \<longrightarrow> in_arena a' (span_slab sp) (span_pos sp) es) \<and> (in_arena a s0 p0 es0 \<longrightarrow> in_arena a' s0 p0 es0)"
  proof (cases "n = 0")
    case True
    then show ?thesis
      using al inv n(1) by (simp add: a' arena_alloc_def arena_write_def)
  next
    case False
    then obtain s p where s: "sp1 = span_at s p n" "arena_inv a1" "room_at a a1 s p n" "p \<le> edge_slab_size"
      "length (ar_slabs a1) \<le> Suc (length (ar_slabs a))"
      using arena_alloc_room [OF inv _ al] by auto
    have sl: "s < length (ar_slabs a1)" "p + n \<le> length (ar_slabs a1 ! s)"
      "\<forall>c \<in> set (ar_pool a1). ck_slab c = s \<longrightarrow> p + n \<le> ck_used c"
      "\<And>s0 p0 es. in_arena a s0 p0 es \<Longrightarrow> in_arena a1 s0 p0 es \<and> (s0 = s \<longrightarrow> p0 + length es \<le> p)"
      using s(3) by (auto simp: room_at_def)
    have "s < 2 ^ 32" using sl(1) s(5) room by linarith
    moreover have "p < 2 ^ 32" using s(4) by (simp add: edge_slab_size_def)
    ultimately have un: "span_slab sp1 = s" "span_pos sp1 = p"
      using span_of_at n(2) s(1) by simp_all
    then have un': "span_slab sp = s" "span_pos sp = p" by (simp_all add: sp span_slab_def span_pos_def)
    have fit: "p + length es \<le> length (ar_slabs a1 ! s)" using sl(2) n(1) by simp
    define b where "b = write_at (ar_slabs a1 ! s) p es"
    have lb: "length b = length (ar_slabs a1 ! s)" unfolding b_def using fit by (rule write_at_length)
    have eq: "a' = (if es = [] then a1 else a1\<lparr>ar_slabs := (ar_slabs a1)[s := b]\<rparr>)"
      by (simp add: a' arena_write_def un b_def)
    have "arena_inv a'" using s(2) sl(1) lb by (auto simp: eq arena_inv_def nth_list_update)
    moreover have "in_arena a' s p es" if "es \<noteq> []"
      using that sl(1,3) n(1) lb fit write_at_read [OF fit] by (fastforce simp: eq in_arena_def b_def [symmetric])
    moreover have "in_arena a' s0 p0 es0" if "in_arena a s0 p0 es0"
    proof (cases "s0 = s")
      case True
      then have "take (length es0) (drop p0 b) = take (length es0) (drop p0 (ar_slabs a1 ! s))"
        using sl(4) [OF that] write_at_before [OF _ fit] unfolding b_def by blast
      then show ?thesis using sl(4) [OF that] True lb sl(1) by (simp add: eq in_arena_def)
    next
      case False
      then show ?thesis using sl(4) [OF that] by (simp add: eq in_arena_def)
    qed
    ultimately show ?thesis
      using s(5) un' by (simp add: eq)
  qed
  then show "arena_inv a'" "length (ar_slabs a') \<le> Suc (length (ar_slabs a))"
    "es \<noteq> [] \<Longrightarrow> in_arena a' (span_slab sp) (span_pos sp) es"
    "in_arena a s0 p0 es0 \<Longrightarrow> in_arena a' s0 p0 es0"
    by blast+
qed

section \<open>Any run\<close>

fun store_all :: "(nat option \<times> nat \<times> edge list) list \<Rightarrow> arena \<Rightarrow> edge_span list \<times> arena" where
  "store_all [] a = ([], a)"
| "store_all ((pick, n, es) # ops) a =
     (case arena_store pick n es a of (sp, a1) \<Rightarrow> (case store_all ops a1 of (sps, a2) \<Rightarrow> (sp # sps, a2)))"

definition empty_arena :: arena where
  "empty_arena = \<lparr>ar_slabs = [], ar_pool = []\<rparr>"

lemma store_all_keeps:
  "arena_inv a \<Longrightarrow> \<forall>(pick, n, es) \<in> set ops. length es \<le> n \<and> n < 2 ^ 32 \<Longrightarrow>
     length (ar_slabs a) + length ops < 2 ^ 32 \<Longrightarrow> store_all ops a = (sps, a') \<Longrightarrow>
   length sps = length ops \<and> (\<forall>s p es. in_arena a s p es \<longrightarrow> in_arena a' s p es) \<and>
     (\<forall>k < length ops. unat (sp_n (sps ! k)) = length (snd (snd (ops ! k))) \<and>
        (snd (snd (ops ! k)) \<noteq> [] \<longrightarrow> in_arena a' (span_slab (sps ! k)) (span_pos (sps ! k)) (snd (snd (ops ! k)))))"
proof (induction ops arbitrary: a sps)
  case Nil
  then show ?case by simp
next
  case (Cons op ops)
  obtain pick n es where op: "op = (pick, n, es)" by (cases op)
  obtain sp a1 where st: "arena_store pick n es a = (sp, a1)" by (cases "arena_store pick n es a")
  obtain sps1 where r: "store_all ops a1 = (sps1, a')" "sps = sp # sps1"
    using Cons.prems(4) op st by (auto split: prod.splits)
  have n: "length es \<le> n" "n < 2 ^ 32" "Suc (length (ar_slabs a)) < 2 ^ 32" using Cons.prems(2,3) op by auto
  note k = arena_store_keeps [OF Cons.prems(1) n st]
  have IH: "length sps1 = length ops" "\<forall>s p es. in_arena a1 s p es \<longrightarrow> in_arena a' s p es"
    "\<forall>k < length ops. unat (sp_n (sps1 ! k)) = length (snd (snd (ops ! k))) \<and>
        (snd (snd (ops ! k)) \<noteq> [] \<longrightarrow> in_arena a' (span_slab (sps1 ! k)) (span_pos (sps1 ! k)) (snd (snd (ops ! k))))"
    using Cons.IH [OF k(1) _ _ r(1)] Cons.prems(2,3) k(2) by auto
  have "unat (sp_n (sps ! i)) = length (snd (snd ((op # ops) ! i))) \<and>
        (snd (snd ((op # ops) ! i)) \<noteq> [] \<longrightarrow> in_arena a' (span_slab (sps ! i)) (span_pos (sps ! i)) (snd (snd ((op # ops) ! i))))"
    if "i < length (op # ops)" for i
    using that IH k(3,4) by (cases i) (auto simp: op r(2))
  moreover have "\<forall>s p es. in_arena a s p es \<longrightarrow> in_arena a' s p es" using IH(2) k(5) by blast
  ultimately show ?case using IH(1) r(2) by simp
qed

text \<open>
  Whatever chunks the pool gives, the edges recorded for every object read back from its span after all the
  others were recorded: no two spans overlap and a slab that was outgrown is never handed out again.
\<close>

lemma edge_arena_exact:
  assumes "\<forall>(pick, n, es) \<in> set ops. length es \<le> n \<and> n < 2 ^ 32" and "length ops < 2 ^ 32"
    and "store_all ops empty_arena = (sps, a)"
  shows "length sps = length ops \<and> (\<forall>k < length ops. arena_at (sps ! k) a = snd (snd (ops ! k)))"
proof -
  have "arena_inv empty_arena" by (simp add: arena_inv_def empty_arena_def)
  from store_all_keeps [OF this assms(1) _ assms(3)] assms(2)
  have r: "length sps = length ops" "\<forall>k < length ops. unat (sp_n (sps ! k)) = length (snd (snd (ops ! k))) \<and>
        (snd (snd (ops ! k)) \<noteq> [] \<longrightarrow> in_arena a (span_slab (sps ! k)) (span_pos (sps ! k)) (snd (snd (ops ! k))))"
    by (auto simp: empty_arena_def)
  have "arena_at (sps ! k) a = snd (snd (ops ! k))" if "k < length ops" for k
  proof (cases "snd (snd (ops ! k)) = []")
    case True
    then have "sp_n (sps ! k) = 0" using r(2) that by (metis length_0_conv unat_0 word_unat_eq_iff)
    with True show ?thesis by (simp add: arena_at_def)
  next
    case False
    then have "in_arena a (span_slab (sps ! k)) (span_pos (sps ! k)) (snd (snd (ops ! k)))"
      "unat (sp_n (sps ! k)) = length (snd (snd (ops ! k)))" using r(2) that by auto
    moreover have "sp_n (sps ! k) \<noteq> 0" using calculation(2) False by auto
    ultimately show ?thesis by (auto simp: arena_at_def in_arena_def)
  qed
  with r(1) show ?thesis by simp
qed

end
