(* ===== verification/Reporter.thy ===== *)
theory Reporter
  imports GitObj
begin

text \<open>
  The lines a run prints: \<open>internal/fsckcmd/report.go\<close>. A line is queued with a key that says where
  it came from; \<open>add\<close> holds the reporter's lock, so it is one step. The verbose lines, which are not
  queued, are left out.
\<close>

definition phase_refs :: nat where [simp]: "phase_refs = 0"
definition phase_objects :: nat where [simp]: "phase_objects = 1"
definition phase_heads :: nat where [simp]: "phase_heads = 2"
definition phase_index :: nat where [simp]: "phase_index = 3"
definition phase_index_files :: nat where [simp]: "phase_index_files = 4"
definition phase_connectivity :: nat where [simp]: "phase_connectivity = 5"
definition phase_graphs :: nat where [simp]: "phase_graphs = 6"

record msg_key =
  key_phase :: nat
  key_group :: int
  key_pos :: int
  key_oid :: oid
  key_seq :: int

definition key_less :: "msg_key \<Rightarrow> msg_key \<Rightarrow> bool" where
  "key_less a b =
     (if key_phase a \<noteq> key_phase b then key_phase a < key_phase b
      else if key_group a \<noteq> key_group b then key_group a < key_group b
      else if key_pos a \<noteq> key_pos b then key_pos a < key_pos b
      else (let c = oid_compare (key_oid a) (key_oid b)
            in if c \<noteq> 0 then c < 0 else key_seq a < key_seq b))"

text \<open>The key of a phase, the other fields zero.\<close>

definition at_phase :: "nat \<Rightarrow> msg_key" where
  "at_phase p = \<lparr>key_phase = p, key_group = 0, key_pos = 0, key_oid = zero_oid, key_seq = 0\<rparr>"

record message =
  msg_at :: msg_key
  msg_out :: bool
  msg_line :: bytes

record reporter =
  rep_msgs :: "message list"
  rep_seq :: int

definition new_reporter :: reporter where
  "new_reporter = \<lparr>rep_msgs = [], rep_seq = 0\<rparr>"

definition add_line :: "msg_key \<Rightarrow> bool \<Rightarrow> bytes \<Rightarrow> reporter \<Rightarrow> reporter" where
  "add_line k to_stdout line r =
     (let n = rep_seq r + 1
      in \<lparr>rep_msgs = rep_msgs r @ [\<lparr>msg_at = k\<lparr>key_seq := n\<rparr>, msg_out = to_stdout, msg_line = line\<rparr>], rep_seq = n\<rparr>)"

definition err_line :: "msg_key \<Rightarrow> bytes \<Rightarrow> reporter \<Rightarrow> reporter" where
  "err_line k line = add_line k False line"

definition out_line :: "msg_key \<Rightarrow> bytes \<Rightarrow> reporter \<Rightarrow> reporter" where
  "out_line k line = add_line k True line"

end
