(* ===== verification/FlushOrder.thy ===== *)
theory FlushOrder
  imports Reporter "HOL-Library.Sorting_Algorithms"
begin

text \<open>
  \<open>Flush\<close> of \<open>internal/fsckcmd/report.go\<close>: the queued lines in the order of their keys, by a stable
  sort. What a flush prints does not depend on how the workers interleaved.
\<close>

definition key_compare :: "msg_key \<Rightarrow> msg_key \<Rightarrow> comp" where
  "key_compare a b = (if key_less a b then Less else if key_less b a then Greater else Equiv)"

definition key_rank :: "msg_key \<Rightarrow> nat \<times> int \<times> int \<times> bytes \<times> int" where
  "key_rank k = (key_phase k, key_group k, key_pos k, oid_h (key_oid k), key_seq k)"

lemma key_less_rank: "key_less a b \<longleftrightarrow>
    key_phase a < key_phase b \<or> key_phase a = key_phase b \<and>
      (key_group a < key_group b \<or> key_group a = key_group b \<and>
        (key_pos a < key_pos b \<or> key_pos a = key_pos b \<and>
          (oid_h (key_oid a) < oid_h (key_oid b) \<or> oid_h (key_oid a) = oid_h (key_oid b) \<and> key_seq a < key_seq b)))"
  using bytes_compare_neg [of "oid_h (key_oid a)" "oid_h (key_oid b)"]
    bytes_compare_zero [of "oid_h (key_oid a)" "oid_h (key_oid b)"]
  by (auto simp: key_less_def oid_compare_def Let_def)

lemma key_compare_less: "key_compare a b = Less \<longleftrightarrow> key_less a b"
  by (simp add: key_compare_def)

lemma key_less_asym: "key_less a b \<Longrightarrow> \<not> key_less b a"
  unfolding key_less_rank by auto

lemma key_less_trans: "key_less a b \<Longrightarrow> key_less b c \<Longrightarrow> key_less a c"
  unfolding key_less_rank by (elim disjE conjE) (simp_all, force+)

lemma key_unordered: "\<not> key_less a b \<Longrightarrow> \<not> key_less b a \<Longrightarrow> key_rank a = key_rank b"
  unfolding key_less_rank key_rank_def by auto

lemma key_rank_less: "key_rank a = key_rank b \<Longrightarrow> key_less a c = key_less b c \<and> key_less c a = key_less c b"
  by (simp add: key_less_rank key_rank_def)

lemma key_compare_equiv: "key_compare a b = Equiv \<longleftrightarrow> key_rank a = key_rank b"
proof
  assume "key_compare a b = Equiv"
  then show "key_rank a = key_rank b" using key_unordered [of a b] by (simp add: key_compare_def split: if_splits)
next
  assume e: "key_rank a = key_rank b"
  have "\<not> key_less b b" using key_less_asym by blast
  then show "key_compare a b = Equiv" using key_rank_less [OF e, of b] by (simp add: key_compare_def)
qed

lift_definition by_key :: "message comparator" is "\<lambda>a b. key_compare (msg_at a) (msg_at b)"
proof
  fix a b c :: message
  show "key_compare (msg_at a) (msg_at a) = Equiv" by (simp add: key_compare_equiv)
  show "key_compare (msg_at a) (msg_at b) = Equiv \<Longrightarrow> key_compare (msg_at b) (msg_at c) = Equiv \<Longrightarrow>
      key_compare (msg_at a) (msg_at c) = Equiv" by (simp add: key_compare_equiv)
  show "key_compare (msg_at a) (msg_at b) = Less \<Longrightarrow> key_compare (msg_at b) (msg_at c) = Less \<Longrightarrow>
      key_compare (msg_at a) (msg_at c) = Less" using key_less_trans by (simp add: key_compare_less)
  show "key_compare (msg_at b) (msg_at a) = Greater \<longleftrightarrow> key_compare (msg_at a) (msg_at b) = Less"
    using key_less_asym by (auto simp: key_compare_def)
qed

text \<open>The lines in the order they are printed, each with the stream it goes to, and the reporter afterwards.\<close>

definition flush :: "reporter \<Rightarrow> (bool \<times> bytes) list \<times> reporter" where
  "flush r = (map (\<lambda>m. (msg_out m, msg_line m)) (Sorting_Algorithms.sort by_key (rep_msgs r)), r\<lparr>rep_msgs := []\<rparr>)"

section \<open>Independence of the interleaving\<close>

text \<open>A call of \<open>Errf\<close> or \<open>Outf\<close> as a worker makes it, and where its line belongs.\<close>

type_synonym queued = "msg_key \<times> bool \<times> bytes"

definition place :: "queued \<Rightarrow> nat \<times> int \<times> int \<times> bytes" where
  "place q = (key_phase (fst q), key_group (fst q), key_pos (fst q), oid_h (key_oid (fst q)))"

definition queue_line :: "queued \<Rightarrow> reporter \<Rightarrow> reporter" where
  "queue_line q = add_line (fst q) (fst (snd q)) (snd (snd q))"

definition queue_all :: "queued list \<Rightarrow> reporter \<Rightarrow> reporter" where
  "queue_all qs r = fold queue_line qs r"


text \<open>The numbers already given out.\<close>

definition seq_ok :: "reporter \<Rightarrow> bool" where
  "seq_ok r \<longleftrightarrow> sorted_wrt (<) (map (\<lambda>m. key_seq (msg_at m)) (rep_msgs r)) \<and>
     (\<forall>m \<in> set (rep_msgs r). key_seq (msg_at m) \<le> rep_seq r)"

definition as_queued :: "message \<Rightarrow> (nat \<times> int \<times> int \<times> bytes) \<times> bool \<times> bytes" where
  "as_queued m = (place (msg_at m, msg_out m, msg_line m), msg_out m, msg_line m)"

lemma compare_by_key: "compare by_key a b = key_compare (msg_at a) (msg_at b)"
  by transfer simp

lift_definition by_order :: "'a::linorder comparator" is "\<lambda>a b. if a < b then Less else if b < a then Greater else Equiv"
  by standard (auto split: if_splits)

definition by_place :: "((nat \<times> int \<times> int \<times> bytes) \<times> 'b) comparator" where
  "by_place = key fst (prod_lex by_order (prod_lex by_order (prod_lex by_order by_order)))"

lemma compare_by_order: "compare by_order a b = (if a < b then Less else if b < a then Greater else Equiv)"
  by transfer simp

lemma map_insort: "map f (Sorting_Algorithms.insort (key f cmp) x xs) = Sorting_Algorithms.insort cmp (f x) (map f xs)"
  by (induction xs) simp_all

lemma map_sort_key: "map f (Sorting_Algorithms.sort (key f cmp) xs) = Sorting_Algorithms.sort cmp (map f xs)"
  by (induction xs) (simp_all add: map_insort)

lemma place_equiv: "compare by_place x y = Equiv \<longleftrightarrow> fst x = fst y"
  by (cases "fst x"; cases "fst y") (auto simp: by_place_def compare_prod_lex_apply compare_by_order split: comp.splits if_splits)

lemma place_not_greater:
  assumes "compare by_key a b \<noteq> Greater"
  shows "compare (key as_queued by_place) a b \<noteq> Greater"
  using assms unfolding compare_by_key key_compare_def key_less_rank
  by (auto simp: by_place_def as_queued_def place_def compare_prod_lex_apply compare_by_order split: if_splits)

lemma same_place_by_seq:
  assumes "fst (as_queued a) = fst (as_queued b)"
  shows "compare by_key a b = (if key_seq (msg_at a) < key_seq (msg_at b) then Less
    else if key_seq (msg_at b) < key_seq (msg_at a) then Greater else Equiv)"
  using assms by (simp add: compare_by_key key_compare_def key_less_rank as_queued_def place_def)

lemma sorted_coarser:
  assumes "\<And>a b. compare c a b \<noteq> Greater \<Longrightarrow> compare d a b \<noteq> Greater"
  shows "Sorting_Algorithms.sorted c xs \<Longrightarrow> Sorting_Algorithms.sorted d xs"
  using assms by (induction c xs rule: Sorting_Algorithms.sorted.induct) simp_all

lemma sort_id: "Sorting_Algorithms.sorted c xs \<Longrightarrow> Sorting_Algorithms.sort c xs = xs"
  by (rule sort_eqI) simp_all

lemma sorted_wrt_by_key:
  "sorted_wrt (<) (map (\<lambda>m. key_seq (msg_at m)) xs) \<Longrightarrow> \<forall>x \<in> set xs. fst (as_queued x) = p \<Longrightarrow>
    Sorting_Algorithms.sorted by_key xs"
proof (induction xs)
  case (Cons x xs)
  show ?case
  proof (rule sorted_ConsI)
    show "Sorting_Algorithms.sorted by_key xs" using Cons by simp
    show "compare by_key x y \<noteq> Greater" if "xs = y # ys" for y ys
      using Cons.prems that by (auto simp: same_place_by_seq)
  qed
qed simp

lemma flush_as_places:
  assumes "seq_ok r"
  shows "map as_queued (Sorting_Algorithms.sort by_key (rep_msgs r)) =
    Sorting_Algorithms.sort by_place (map as_queued (rep_msgs r))"
proof -
  let ?ms = "rep_msgs r"
  have "Sorting_Algorithms.sort (key as_queued by_place) ?ms = Sorting_Algorithms.sort by_key ?ms"
  proof (rule sort_eqI)
    show "Sorting_Algorithms.sorted (key as_queued by_place) (Sorting_Algorithms.sort by_key ?ms)"
      by (rule sorted_coarser [OF _ sorted_sort]) (rule place_not_greater)
    show "filter (\<lambda>z. compare (key as_queued by_place) y z = Equiv) ?ms =
        filter (\<lambda>z. compare (key as_queued by_place) y z = Equiv) (Sorting_Algorithms.sort by_key ?ms)" for y
    proof -
      let ?f = "filter (\<lambda>z. compare (key as_queued by_place) y z = Equiv) ?ms"
      have "sorted_wrt (<) (map (\<lambda>m. key_seq (msg_at m)) ?f)"
        using assms by (simp add: seq_ok_def sorted_wrt_map sorted_wrt_filter)
      then have "Sorting_Algorithms.sorted by_key ?f"
        by (rule sorted_wrt_by_key [of _ "fst (as_queued y)"]) (simp add: place_equiv)
      then show ?thesis by (simp add: filter_sort sort_id)
    qed
  qed simp
  then show ?thesis by (simp add: map_sort_key [symmetric])
qed

lemma queue_all_rep:
  "seq_ok r \<Longrightarrow> seq_ok (queue_all qs r) \<and>
    map as_queued (rep_msgs (queue_all qs r)) = map as_queued (rep_msgs r) @ map (\<lambda>q. (place q, snd q)) qs"
proof (induction qs arbitrary: r)
  case (Cons q qs)
  have "seq_ok (queue_line q r)"
    using Cons.prems unfolding seq_ok_def queue_line_def add_line_def
    by (auto simp: Let_def sorted_wrt_append intro: order.trans [OF _ zle_add1_eq_le [THEN iffD1]])
  moreover have "map as_queued (rep_msgs (queue_line q r)) = map as_queued (rep_msgs r) @ [(place q, snd q)]"
    by (simp add: queue_line_def add_line_def as_queued_def place_def Let_def)
  ultimately show ?case using Cons.IH [of "queue_line q r"] by (simp add: queue_all_def)
qed (simp add: queue_all_def)

lemma flush_places:
  assumes "seq_ok r"
  shows "fst (flush (queue_all qs r)) =
    map snd (Sorting_Algorithms.sort by_place (map as_queued (rep_msgs r) @ map (\<lambda>q. (place q, snd q)) qs))"
proof -
  have "map snd (map as_queued (Sorting_Algorithms.sort by_key (rep_msgs (queue_all qs r)))) =
      map snd (Sorting_Algorithms.sort by_place (map as_queued (rep_msgs (queue_all qs r))))"
    using flush_as_places [of "queue_all qs r"] queue_all_rep [OF assms] by simp
  then show ?thesis
    using queue_all_rep [OF assms, of qs] by (simp add: flush_def as_queued_def comp_def)
qed

text \<open>The jobs of a phase, each the lines it queues in order. The workers take turns in any way.\<close>

inductive interleaving :: "'a list list \<Rightarrow> 'a list \<Rightarrow> bool" where
  finished: "\<forall>w \<in> set ws. w = [] \<Longrightarrow> interleaving ws []"
| turn: "i < length ws \<Longrightarrow> ws ! i = q # rest \<Longrightarrow> interleaving (ws[i := rest]) qs \<Longrightarrow> interleaving ws (q # qs)"

definition own_places :: "queued list list \<Rightarrow> bool" where
  "own_places ws \<longleftrightarrow> (\<forall>i < length ws. \<forall>j < length ws. i \<noteq> j \<longrightarrow> place ` set (ws ! i) \<inter> place ` set (ws ! j) = {})"

lemma interleaving_set: "interleaving ws qs \<Longrightarrow> set qs = (\<Union>w \<in> set ws. set w)"
proof (induction rule: interleaving.induct)
  case (turn i ws q rest qs)
  have "(\<Union>w \<in> set ws. set w) = (\<Union>k < length ws. set (ws ! k))" by (auto simp: set_conv_nth)
  also have "\<dots> = insert q (\<Union>k < length ws. set (ws[i := rest] ! k))"
    using turn.hyps by (force simp: nth_list_update split: if_splits)
  also have "(\<Union>k < length ws. set (ws[i := rest] ! k)) = (\<Union>w \<in> set (ws[i := rest]). set w)"
    by (auto simp: set_conv_nth)
  finally show ?case using turn.IH by simp
qed simp

lemma interleaving_mset: "interleaving ws qs \<Longrightarrow> mset qs = mset (concat ws)"
proof (induction rule: interleaving.induct)
  case (finished ws)
  then have "concat ws = []" by simp
  then show ?case by simp
next
  case (turn i ws q rest qs)
  have ws: "ws = take i ws @ (q # rest) # drop (Suc i) ws" using turn.hyps by (metis id_take_nth_drop)
  have "ws[i := rest] = take i ws @ rest # drop (Suc i) ws" using turn.hyps by (simp add: upd_conv_take_nth_drop)
  then show ?case using turn.IH by (subst ws) simp
qed

lemma interleaving_filter:
  "interleaving ws qs \<Longrightarrow> i < length ws \<Longrightarrow> (\<forall>j < length ws. j \<noteq> i \<longrightarrow> filter P (ws ! j) = []) \<Longrightarrow>
    filter P qs = filter P (ws ! i)"
proof (induction rule: interleaving.induct)
  case (turn k ws q rest qs)
  have "filter P rest = []" if "k \<noteq> i"
    using turn.prems(2) turn.hyps(1,2) that by (auto split: if_splits)
  then have "\<forall>j < length ws. j \<noteq> i \<longrightarrow> filter P (ws[k := rest] ! j) = []"
    using turn.prems(2) turn.hyps(1) by (auto simp: nth_list_update)
  then have IH: "filter P qs = filter P (ws[k := rest] ! i)" using turn.IH turn.prems(1) by simp
  show ?case
  proof (cases "k = i")
    case True
    with IH turn.hyps show ?thesis by simp
  next
    case False
    then have "\<not> P q" using turn.prems(2) turn.hyps by force
    with IH False show ?thesis by simp
  qed
next
  case (finished ws)
  then have "ws ! i = []" by simp
  then show ?case by simp
qed

lemma concat_filter:
  "i < length ws \<Longrightarrow> (\<forall>j < length ws. j \<noteq> i \<longrightarrow> filter P (ws ! j) = []) \<Longrightarrow> filter P (concat ws) = filter P (ws ! i)"
proof -
  assume i: "i < length ws" and others: "\<forall>j < length ws. j \<noteq> i \<longrightarrow> filter P (ws ! j) = []"
  have e: "concat (map (filter P) xs) = []" if "\<forall>x \<in> set xs. filter P x = []" for xs
    using that by (induction xs) simp_all
  have "\<forall>x \<in> set (take i ws). filter P x = []" "\<forall>x \<in> set (drop (Suc i) ws). filter P x = []"
    using others i by (force simp: set_conv_nth)+
  then have "concat (map (filter P) (take i ws @ ws ! i # drop (Suc i) ws)) = filter P (ws ! i)"
    by (simp only: map_append list.map concat_append concat.simps e append_Nil append_Nil2)
  then show ?thesis using id_take_nth_drop [OF i] by (simp add: filter_concat)
qed

lemma interleaving_places:
  assumes "interleaving ws qs" and "own_places ws"
  shows "filter (\<lambda>q. place q = p) qs = filter (\<lambda>q. place q = p) (concat ws)"
proof (cases "\<exists>i < length ws. p \<in> place ` set (ws ! i)")
  case True
  then obtain i where i: "i < length ws" "p \<in> place ` set (ws ! i)" by blast
  have "\<forall>j < length ws. j \<noteq> i \<longrightarrow> filter (\<lambda>q. place q = p) (ws ! j) = []"
    using assms(2) i unfolding own_places_def by (force simp: filter_empty_conv)
  then show ?thesis using interleaving_filter [OF assms(1) i(1)] concat_filter [OF i(1)] by simp
next
  case False
  then have "\<forall>w \<in> set ws. \<forall>q \<in> set w. place q \<noteq> p" by (force simp: set_conv_nth)
  then show ?thesis using interleaving_set [OF assms(1)] by (auto simp: filter_empty_conv filter_concat)
qed

text \<open>C39: However the workers interleave the lines of their jobs, a flush prints what it prints when the jobs
  run one after the other, as long as no two jobs queue lines under the same phase, group, position and
  name.\<close>

theorem flush_order_exact:
  assumes "seq_ok r" and "interleaving jobs qs" and "own_places jobs"
  shows "fst (flush (queue_all qs r)) = fst (flush (queue_all (concat jobs) r))"
proof -
  let ?k = "\<lambda>q. (place q, snd q)"
  let ?old = "map as_queued (rep_msgs r)"
  have "Sorting_Algorithms.sort by_place (?old @ map ?k qs) = Sorting_Algorithms.sort by_place (?old @ map ?k (concat jobs))"
  proof (rule sort_eqI)
    show "mset (?old @ map ?k qs) = mset (Sorting_Algorithms.sort by_place (?old @ map ?k (concat jobs)))"
      using interleaving_mset [OF assms(2)] by simp
    show "filter (\<lambda>z. compare by_place y z = Equiv) (?old @ map ?k qs) =
        filter (\<lambda>z. compare by_place y z = Equiv) (Sorting_Algorithms.sort by_place (?old @ map ?k (concat jobs)))" for y
      unfolding stable_sort using interleaving_places [OF assms(2,3), of "fst y"]
      by (simp add: place_equiv filter_map comp_def eq_commute [of "fst y"])
  qed simp
  then show ?thesis by (simp only: flush_places [OF assms(1)])
qed

definition example_line :: "nat \<Rightarrow> bytes \<Rightarrow> queued" where
  "example_line g line = ((at_phase phase_objects)\<lparr>key_group := int g\<rparr>, False, line)"

definition example_jobs :: "queued list list" where
  "example_jobs = [[example_line 2 [97], example_line 2 [98]], [example_line 1 [99]]]"

theorem flush_order_exact_witness:
  "fst (flush (queue_all [example_line 2 [97], example_line 1 [99], example_line 2 [98]] new_reporter)) =
   fst (flush (queue_all (concat example_jobs) new_reporter)) \<and>
   fst (flush (queue_all (concat example_jobs) new_reporter)) = [(False, [99]), (False, [97]), (False, [98])]"
proof
  have "interleaving example_jobs [example_line 2 [97], example_line 1 [99], example_line 2 [98]]"
    unfolding example_jobs_def
    by (rule turn [of 0], simp, simp, rule turn [of 1], simp, simp, rule turn [of 0], simp, simp, rule finished) simp
  moreover have "own_places example_jobs"
    by (auto simp: own_places_def example_jobs_def example_line_def place_def at_phase_def less_Suc_eq numeral_2_eq_2)
  moreover have "seq_ok new_reporter" by (simp add: seq_ok_def new_reporter_def)
  ultimately show "fst (flush (queue_all [example_line 2 [97], example_line 1 [99], example_line 2 [98]] new_reporter)) =
      fst (flush (queue_all (concat example_jobs) new_reporter))"
    by (intro flush_order_exact)
  show "fst (flush (queue_all (concat example_jobs) new_reporter)) = [(False, [99]), (False, [97]), (False, [98])]"
    by (simp add: flush_def queue_all_def queue_line_def add_line_def example_jobs_def example_line_def new_reporter_def
        compare_by_key key_compare_def key_less_def oid_compare_def at_phase_def Let_def bytes_compare_zero)
qed

end
