(* ===== verification/Links.thy ===== *)
theory Links
  imports TreeObj
begin

text \<open>
  What an object points at: \<open>internal/fsckcmd/walk.go\<close>. Each reader returns the links of an object and
  the errors git would print while it reads it.
\<close>

record obj_link =
  ln_oid :: oid
  ln_type :: obj_type
  ln_name :: bytes
  ln_via_tag :: bool

definition plain_link :: "oid \<Rightarrow> obj_type \<Rightarrow> bytes \<Rightarrow> obj_link" where
  "plain_link x t name = \<lparr>ln_oid = x, ln_type = t, ln_name = name, ln_via_tag = False\<rparr>"

section \<open>Trees\<close>

definition entry_link :: "bytes \<Rightarrow> bool \<Rightarrow> tree_entry \<Rightarrow> obj_link option" where
  "entry_link name named e =
     (case walk_kind e of
        (t, follow) \<Rightarrow>
          if \<not> follow then None
          else Some (plain_link (te_oid e) t
            (if named \<and> name \<noteq> [] then name @ te_name e @ (if t = TypeTree then str ''/'' else []) else [])))"

definition tree_links_from :: "tree_entry list \<Rightarrow> bytes \<Rightarrow> bool \<Rightarrow> obj_link list" where
  "tree_links_from entries name named = List.map_filter (entry_link name named) entries"

definition tree_links :: "bytes \<Rightarrow> algo \<Rightarrow> bytes \<Rightarrow> bool \<Rightarrow> obj_link list \<times> bytes list" where
  "tree_links buf a name named = (tree_links_from (fst (parse_tree buf a)) name named, [])"

section \<open>Commits\<close>

text \<open>The digits at the end of a name, from the last: their value and the power after them, both wrapping
  at 64 bits, and how much of the name is left.\<close>

fun name_digits :: "bytes \<Rightarrow> 64 word \<Rightarrow> 64 word \<Rightarrow> 64 word \<times> 64 word \<times> bytes" where
  "name_digits [] gen pw = (gen, pw, [])"
| "name_digits (c # cs) gen pw =
     (if ascii CHR ''0'' \<le> c \<and> c \<le> ascii CHR ''9''
      then name_digits cs (gen + pw * ucast (c - ascii CHR ''0'')) (pw * 10)
      else (gen, pw, c # cs))"

text \<open>The generation a commit's own name ends in, and the name before that ending.\<close>

definition name_generation :: "bytes \<Rightarrow> 64 word \<times> bytes" where
  "name_generation name =
     (if name = [] then (0, [])
      else if last name = ascii CHR ''^'' then (1, butlast name)
      else (case name_digits (rev name) 0 1 of
          (gen, pw, left) \<Rightarrow>
            if 1 < sint pw \<and> left \<noteq> [] \<and> hd left = ascii CHR ''~'' then (gen, rev (tl left))
            else (0, rev left)))"

definition parent_name :: "bytes \<Rightarrow> nat \<Rightarrow> bytes" where
  "parent_name name counter =
     (case name_generation name of
        (generation, prefix) \<Rightarrow>
          if 0 < counter then name @ str ''^'' @ dec_int (int counter + 1)
          else if 0 < sint generation then prefix @ str ''~'' @ dec_int (sint (generation + 1))
          else name @ str ''^'')"

function parent_links :: "oid \<Rightarrow> algo \<Rightarrow> bytes \<Rightarrow> bool \<Rightarrow> nat \<Rightarrow> bytes \<Rightarrow> obj_link list \<times> bytes list" where
  "parent_links x a name named counter buf =
     (if hex_size a + 7 < length buf \<and> take 7 buf = str ''parent '' then
        (case parse_hex_bytes a (drop 7 buf) of
           None \<Rightarrow> ([], [str ''bad parents in commit '' @ oid_string x])
         | Some parent \<Rightarrow>
             if buf ! (7 + hex_size a) \<noteq> 10 then ([], [str ''bad parents in commit '' @ oid_string x])
             else (case parent_links x a name named (Suc counter) (drop (8 + hex_size a) buf) of
                 (ls, errs) \<Rightarrow>
                   (plain_link parent TypeCommit (if named \<and> name \<noteq> [] then parent_name name counter else []) # ls, errs)))
      else ([], []))"
  by pat_completeness auto
termination
  by (relation "measure (\<lambda>(x, a, name, named, counter, buf). length buf)") auto

declare parent_links.simps [simp del]

definition commit_links :: "oid \<Rightarrow> bytes \<Rightarrow> algo \<Rightarrow> bytes \<Rightarrow> bool \<Rightarrow> obj_link list \<times> bytes list" where
  "commit_links x buf a name named =
     (if length buf \<le> hex_size a + 5 \<or> take 5 buf \<noteq> str ''tree '' \<or> buf ! (5 + hex_size a) \<noteq> 10
      then ([], [str ''bogus commit object '' @ oid_string x])
      else (case parse_hex_bytes a (drop 5 buf) of
          None \<Rightarrow> ([], [str ''bad tree pointer in commit '' @ oid_string x])
        | Some tree \<Rightarrow>
            (case parent_links x a name named 0 (drop (6 + hex_size a) buf) of
               (ls, errs) \<Rightarrow>
                 (plain_link tree TypeTree (if named \<and> name \<noteq> [] then name @ str '':'' else []) # ls, errs))))"

section \<open>Tags\<close>

definition tag_links :: "oid \<Rightarrow> bytes \<Rightarrow> algo \<Rightarrow> bytes \<Rightarrow> bool \<Rightarrow> obj_link list \<times> bytes list" where
  "tag_links x buf a name named =
     (let bad = ([], [str ''bad tag pointer in '' @ oid_string x]) in
      if length buf < hex_size a + 24 then bad
      else if take 7 buf \<noteq> str ''object '' then bad
      else (case parse_hex_bytes a (drop 7 buf) of
          None \<Rightarrow> bad
        | Some target \<Rightarrow>
            if buf ! (7 + hex_size a) \<noteq> 10 then bad
            else let rest = drop (8 + hex_size a) buf in
              if length rest < 5 \<or> take 5 rest \<noteq> str ''type '' then bad
              else let rest1 = drop 5 rest in
                (case index_byte rest1 10 of
                   None \<Rightarrow> bad
                 | Some nl \<Rightarrow>
                     if 20 \<le> nl then bad
                     else let type_text = take nl rest1; t = type_from_name type_text in
                       if t = TypeBad then ([], [str ''unknown tag type '' @ [39] @ type_text @ [39] @ str '' in '' @ oid_string x])
                       else ([\<lparr>ln_oid = target, ln_type = t, ln_name = (if named then name else []), ln_via_tag = True\<rparr>], []))))"

definition walk_links :: "obj_type \<Rightarrow> oid \<Rightarrow> bytes \<Rightarrow> algo \<Rightarrow> bytes \<Rightarrow> bool \<Rightarrow> obj_link list \<times> bytes list" where
  "walk_links t x buf a name named =
     (if t = TypeTree then tree_links buf a name named
      else if t = TypeCommit then commit_links x buf a name named
      else if t = TypeTag then tag_links x buf a name named
      else ([], []))"

end
