(* ===== verification/LinkFacts.thy ===== *)
theory LinkFacts
  imports Links Loose TagGrammar
begin

text \<open>
  What the links of \<open>Links\<close> are: those of an object the checks of \<open>ObjectCheck\<close> pass, and the names a
  walk along first parents builds.
\<close>

section \<open>Objects the checks pass\<close>

lemma hex_line_length: "hex_line n h \<Longrightarrow> length h = n"
  by (simp add: hex_line_def)

definition line_oid :: "algo \<Rightarrow> bytes \<Rightarrow> oid" where
  "line_oid a h = the (parse_hex_bytes a h)"

lemma parse_line_oid:
  assumes "wf_algo a" and "hex_line (hex_size a) h"
  shows "parse_hex_bytes a (h @ r) = Some (line_oid a h)"
  using parse_hex_bytes_line [OF assms, of r] by (metis line_oid_def option.sel)

lemma str_lengths:
  "length (str ''parent '') = 7" "length (str ''tree '') = 5" "length (str ''object '') = 7" "length (str ''type '') = 5"
  by (simp_all add: str_def)

lemma framed:
  assumes "length u = k" and "length h = n"
  shows "take k (u @ h @ c # r) = u" "drop k (u @ h @ c # r) = h @ c # r" "(u @ h @ c # r) ! (k + n) = c"
    "drop (Suc k + n) (u @ h @ c # r) = r" "length (u @ h @ c # r) = k + n + 1 + length r"
  using assms by (simp_all add: nth_append)

definition parent_lines :: "bytes list \<Rightarrow> bytes" where
  "parent_lines ps = concat (map (\<lambda>p. str ''parent '' @ p @ [10]) ps)"

lemma parent_links_lines:
  assumes "wf_algo a"
  shows "list_all (hex_line (hex_size a)) ps \<Longrightarrow>
    parent_links x a [] False k (parent_lines ps @ str ''author '' @ r) = (map (\<lambda>p. plain_link (line_oid a p) TypeCommit []) ps, [])"
proof (induction ps arbitrary: k)
  case Nil
  have "take 7 (str ''author '' @ r) \<noteq> str ''parent ''" by (simp add: str_def)
  then show ?case by (subst parent_links.simps) (simp add: parent_lines_def)
next
  case (Cons p ps)
  let ?rest = "parent_lines ps @ str ''author '' @ r"
  have p: "hex_line (hex_size a) p" "length p = hex_size a" using Cons.prems hex_line_length by auto
  have buf: "parent_lines (p # ps) @ str ''author '' @ r = str ''parent '' @ p @ 10 # ?rest"
    by (simp add: parent_lines_def)
  have "drop 7 (str ''parent '' @ p @ 10 # ?rest) = p @ 10 # ?rest"
    "take 7 (str ''parent '' @ p @ 10 # ?rest) = str ''parent ''"
    "(str ''parent '' @ p @ 10 # ?rest) ! (7 + hex_size a) = 10"
    "drop (8 + hex_size a) (str ''parent '' @ p @ 10 # ?rest) = ?rest"
    "hex_size a + 7 < length (str ''parent '' @ p @ 10 # ?rest)"
    using framed [OF str_lengths(1) p(2), of 10 ?rest] by (simp_all add: eval_nat_numeral del: str_def)
  then show ?case
    using Cons parse_line_oid [OF assms p(1)] unfolding buf
    by (subst parent_links.simps) simp
qed

lemma shaped_commit_links:
  assumes "wf_algo a" and "hex_line (hex_size a) t" and "list_all (hex_line (hex_size a)) ps"
  shows "walk_links TypeCommit x (str ''tree '' @ t @ 10 # parent_lines ps @ str ''author '' @ r) a [] False =
    (plain_link (line_oid a t) TypeTree [] # map (\<lambda>p. plain_link (line_oid a p) TypeCommit []) ps, [])"
proof -
  let ?rest = "parent_lines ps @ str ''author '' @ r"
  let ?buf = "str ''tree '' @ t @ 10 # ?rest"
  have "drop 5 ?buf = t @ 10 # ?rest" "take 5 ?buf = str ''tree ''" "?buf ! (5 + hex_size a) = 10"
    "drop (6 + hex_size a) ?buf = ?rest" "\<not> length ?buf \<le> hex_size a + 5"
    using framed [OF str_lengths(2) hex_line_length [OF assms(2)], of 10 ?rest]
    by (simp_all add: eval_nat_numeral del: str_def)
  then show ?thesis
    using parse_line_oid [OF assms(1,2)] parent_links_lines [OF assms(1,3)]
    by (simp add: walk_links_def commit_links_def)
qed

lemma shaped_tag_links:
  assumes "wf_algo a" and "hex_line (hex_size a) h" and "10 \<notin> set ty" and "type_from_name ty \<noteq> TypeBad" and "9 \<le> length r"
  shows "walk_links TypeTag x (str ''object '' @ h @ [10] @ str ''type '' @ ty @ [10] @ str ''tag '' @ r) a [] False =
    ([\<lparr>ln_oid = line_oid a h, ln_type = type_from_name ty, ln_name = [], ln_via_tag = True\<rparr>], [])"
proof -
  let ?rest = "str ''type '' @ ty @ 10 # str ''tag '' @ r"
  let ?buf = "str ''object '' @ h @ 10 # ?rest"
  have ty: "length ty < 20" "3 \<le> length ty"
    using assms(4) by (auto simp: type_from_name_def str_def split: if_splits)
  have "drop 7 ?buf = h @ 10 # ?rest" "take 7 ?buf = str ''object ''" "?buf ! (7 + hex_size a) = 10"
    "drop (8 + hex_size a) ?buf = ?rest" "\<not> length ?buf < hex_size a + 24"
    using framed [OF str_lengths(3) hex_line_length [OF assms(2)], of 10 ?rest] ty assms(5) str_lengths
    by (simp_all add: eval_nat_numeral del: str_def)
  moreover have "\<not> length ?rest < 5" "take 5 ?rest = str ''type ''" "drop 5 ?rest = ty @ 10 # str ''tag '' @ r"
    using framed [OF str_lengths(4) refl, of ty 10 "str ''tag '' @ r"] str_lengths by (simp_all del: str_def)
  moreover have "index_byte (ty @ 10 # str ''tag '' @ r) 10 = Some (length ty)"
    using assms(3) by (simp add: index_byte_append index_byte_notin)
  ultimately show ?thesis
    using parse_line_oid [OF assms(1,2)] ty assms(4)
    by (simp add: walk_links_def tag_links_def Let_def)
qed

text \<open>C40: An object its check has nothing to say about can be parsed, and its links are what its lines name: a
  commit's tree and then its parents in order, a tag's object with the type the tag gives it. With every
  message reported, the object pass therefore refuses no object the object checks pass.\<close>

theorem clean_links_exact:
  assumes "loud q x" and "wf_algo (opt_algo q)"
  shows "(fst (check_commit q x buf) = q \<longrightarrow>
      (\<exists>t ps rest. buf = str ''tree '' @ t @ 10 # parent_lines ps @ str ''author '' @ rest \<and>
        walk_links TypeCommit x buf (opt_algo q) [] False =
          (plain_link (line_oid (opt_algo q) t) TypeTree [] # map (\<lambda>p. plain_link (line_oid (opt_algo q) p) TypeCommit []) ps, []))) \<and>
    (tag_with_info q x buf = (q, r, info) \<longrightarrow>
      walk_links TypeTag x buf (opt_algo q) [] False =
        ([\<lparr>ln_oid = tag_object info, ln_type = tag_target info, ln_name = [], ln_via_tag = True\<rparr>], []))"
proof (intro conjI impI)
  assume "fst (check_commit q x buf) = q"
  then have "commit_shape (hexsz q) buf" using commit_check_silent [OF assms(1)] by blast
  then obtain t ps author committer body where buf: "buf = str ''tree '' @ t @ 10 # parent_lines ps @
      str ''author '' @ author @ str ''committer '' @ committer @ body"
    and lines: "hex_line (hexsz q) t" "list_all (hex_line (hexsz q)) ps"
    unfolding commit_shape_def parent_lines_def by blast
  have "walk_links TypeCommit x buf (opt_algo q) [] False =
    (plain_link (line_oid (opt_algo q) t) TypeTree [] # map (\<lambda>p. plain_link (line_oid (opt_algo q) p) TypeCommit []) ps, [])"
    unfolding buf using shaped_commit_links [OF assms(2)] lines by (simp add: hexsz_def)
  with buf show "\<exists>t ps rest. buf = str ''tree '' @ t @ 10 # parent_lines ps @ str ''author '' @ rest \<and>
        walk_links TypeCommit x buf (opt_algo q) [] False =
          (plain_link (line_oid (opt_algo q) t) TypeTree [] # map (\<lambda>p. plain_link (line_oid (opt_algo q) p) TypeCommit []) ps, [])"
    by blast
next
  assume "tag_with_info q x buf = (q, r, info)"
  then obtain h ty name l rest where buf: "buf = str ''object '' @ h @ [10] @ str ''type '' @ ty @ [10] @
         str ''tag '' @ name @ [10] @ str ''tagger '' @ l @ rest"
    and ok: "hex_line (hexsz q) h" "10 \<notin> set ty" "type_from_name ty \<noteq> TypeBad" "ident_line l"
    and info: "parse_hex_bytes (opt_algo q) h = Some (tag_object info)" "tag_target info = type_from_name ty"
    unfolding tag_check_silent [OF assms] by blast
  have "2 \<le> length l" using ok(4) by (auto simp: ident_line_def)
  then have "9 \<le> length (name @ [10] @ str ''tagger '' @ l @ rest)" by (simp add: str_def)
  from shaped_tag_links [OF assms(2) _ ok(2,3) this, of h x] ok(1) info
  show "walk_links TypeTag x buf (opt_algo q) [] False =
        ([\<lparr>ln_oid = tag_object info, ln_type = tag_target info, ln_name = [], ln_via_tag = True\<rparr>], [])"
    unfolding buf by (simp add: hexsz_def line_oid_def)
qed

theorem clean_links_exact_witness:
  "walk_links TypeTag zero_oid v1_tag (sha1_algo (\<lambda>m. replicate 20 0)) [] False =
     ([\<lparr>ln_oid = null_oid (sha1_algo (\<lambda>m. replicate 20 0)), ln_type = TypeCommit, ln_name = [], ln_via_tag = True\<rparr>], [])"
proof -
  let ?q = "(new_options (sha1_algo (\<lambda>m. replicate 20 0))) \<lparr>msg_type := Some (\<lambda>i. SevError)\<rparr>"
  have "tag_with_info ?q zero_oid v1_tag = (?q, 0, v1_info)"
    unfolding tag_check_silent [OF v1_loud] by (rule v1_tag_shape)
  from clean_links_exact [OF v1_loud, THEN conjunct2, THEN mp, OF this]
  show ?thesis by (simp add: new_options_def v1_info_def)
qed

section \<open>The names of ancestors\<close>

lemma dec_digit_word:
  assumes "d < 10"
  shows "ascii CHR ''0'' \<le> (word_of_nat (48 + d) :: byte) \<and> (word_of_nat (48 + d) :: byte) \<le> ascii CHR ''9''"
    and "ucast ((word_of_nat (48 + d) :: byte) - ascii CHR ''0'') = (word_of_nat d :: 64 word)"
proof -
  show "ascii CHR ''0'' \<le> (word_of_nat (48 + d) :: byte) \<and> (word_of_nat (48 + d) :: byte) \<le> ascii CHR ''9''"
    using assms by (simp add: word_le_nat_alt unat_of_nat take_bit_nat_eq_self del: of_nat_add)
  have "unat (ucast ((word_of_nat (48 + d) :: byte) - 48) :: 64 word) = d"
    using dec_byte(1) [OF assms] assms by (simp add: unsigned_ucast_eq take_bit_nat_eq_self del: of_nat_add)
  then have "ucast ((word_of_nat (48 + d) :: byte) - 48) = (word_of_nat d :: 64 word)"
    using assms by (simp add: word_unat_eq_iff unat_of_nat take_bit_nat_eq_self del: of_nat_add)
  then show "ucast ((word_of_nat (48 + d) :: byte) - ascii CHR ''0'') = (word_of_nat d :: 64 word)"
    by (simp del: of_nat_add)
qed

lemma name_digits_dec:
  "name_digits (rev (dec_digits n) @ left) gen pw =
    name_digits left (gen + pw * word_of_nat n) (pw * 10 ^ length (dec_digits n))"
proof (induction n arbitrary: gen pw rule: less_induct)
  case (less n)
  show ?case
  proof (cases "n < 10")
    case True
    then show ?thesis
      using dec_digit_word [OF True] by (subst (1 2) dec_digits.simps) (simp del: of_nat_add)
  next
    case False
    have m: "n mod 10 < 10" by simp
    have "(word_of_nat n :: 64 word) = 10 * word_of_nat (n div 10) + word_of_nat (n mod 10)"
      by (metis mult_div_mod_eq of_nat_add of_nat_mult of_nat_numeral)
    then have v: "gen + pw * word_of_nat (n mod 10) + pw * 10 * word_of_nat (n div 10) = gen + pw * word_of_nat n"
      by (simp add: algebra_simps)
    have "n div 10 < n" using False by simp
    note IH = less.IH [OF this]
    have "name_digits (rev (dec_digits n) @ left) gen pw =
        name_digits (rev (dec_digits (n div 10)) @ left) (gen + pw * word_of_nat (n mod 10)) (pw * 10)"
      using dec_digit_word [OF m] False by (subst dec_digits.simps) (simp del: of_nat_add)
    also have "\<dots> = name_digits left (gen + pw * word_of_nat n) (pw * 10 ^ length (dec_digits n))"
      unfolding IH v using False by (subst (2) dec_digits.simps) (simp add: mult.assoc)
    finally show ?thesis .
  qed
qed

text \<open>The name of the \<open>n\<close>-th ancestor along first parents, as the walk builds it from the name of the root.\<close>

definition ancestor_name :: "bytes \<Rightarrow> nat \<Rightarrow> bytes" where
  "ancestor_name root n = ((\<lambda>name. parent_name name 0) ^^ n) root"

lemma generation_caret: "name_generation (root @ str ''^'') = (1, root)"
  by (simp add: name_generation_def str_def)

lemma generation_tilde:
  assumes "0 < n" and "n < 10 ^ 18"
  shows "name_generation (root @ str ''~'' @ dec_digits n) = (word_of_nat n, root)"
proof -
  let ?k = "length (dec_digits n)"
  have k: "0 < ?k" "?k \<le> 18" using dec_length [OF assms(2)] by simp_all
  have "(10::nat) ^ ?k \<le> 10 ^ 18" "(10::nat) ^ 1 \<le> 10 ^ ?k" using k by (intro power_increasing; simp add: Suc_le_eq)+
  then have b: "10 ^ ?k < (2::nat) ^ 63" "1 < (10::nat) ^ ?k" by simp_all
  have "sint (10 ^ ?k :: 64 word) = sint (word_of_nat (10 ^ ?k) :: 64 word)" by simp
  also have "\<dots> = int (10 ^ ?k)"
    using b(1) by (simp add: signed_of_nat signed_take_bit_int_eq_self del: of_nat_power)
  finally have pw: "1 < sint (10 ^ ?k :: 64 word)" using b(2) by simp
  have d: "is_dec (last (dec_digits n))" using dec_digits_facts [of n] by (simp add: list_all_iff)
  then have "last (dec_digits n) \<noteq> ascii CHR ''^''" by (auto simp: is_dec_def)
  moreover have "rev (root @ str ''~'' @ dec_digits n) = rev (dec_digits n) @ ascii CHR ''~'' # rev root"
    by (simp add: str_def)
  moreover have "\<not> (ascii CHR ''~'' :: byte) \<le> ascii CHR ''9''" by simp
  ultimately show ?thesis
    using pw by (simp add: name_generation_def name_digits_dec del: str_def rev_append)
qed

lemma parent_of_tilde:
  assumes "0 < n" and "n < 10 ^ 18"
  shows "parent_name (root @ str ''~'' @ dec_digits n) 0 = root @ str ''~'' @ dec_digits (Suc n)"
proof -
  have lt: "Suc n < 2 ^ 63" using assms(2) by simp
  have s: "sint (word_of_nat m :: 64 word) = int m" if "m < 2 ^ 63" for m
    using that by (simp add: signed_of_nat signed_take_bit_int_eq_self)
  have "sint (word_of_nat n :: 64 word) = int n" "sint (word_of_nat n + 1 :: 64 word) = int (Suc n)"
    using s [of n] s [of "Suc n"] lt by (simp_all add: add.commute)
  then show ?thesis
    using assms(1) generation_tilde [OF assms, of root] by (simp add: parent_name_def dec_int_def nat_add_distrib del: str_def)
qed

text \<open>Along first parents a commit gets the name git understands: the root's name, then with \<open>^\<close>, then with
  \<open>~n\<close> for the \<open>n\<close>-th ancestor, as long as the root's own name does not end that way.\<close>

theorem ancestor_names_exact:
  assumes "fst (name_generation root) = 0" and "n \<le> 10 ^ 18"
  shows "ancestor_name root n =
    (if n = 0 then root else if n = 1 then root @ str ''^'' else root @ str ''~'' @ dec_digits n)"
  using assms(2)
proof (induction n)
  case (Suc n)
  consider "n = 0" | "n = 1" | "2 \<le> n" by linarith
  then show ?case
  proof cases
    case 1
    then show ?thesis using assms(1) by (simp add: ancestor_name_def parent_name_def case_prod_beta)
  next
    case 2
    have "parent_name (root @ str ''^'') 0 = root @ str ''~'' @ dec_digits 2"
      using generation_caret [of root] by (simp add: parent_name_def dec_int_def del: str_def)
    with Suc 2 show ?thesis by (simp add: ancestor_name_def numeral_2_eq_2 del: str_def)
  next
    case 3
    then show ?thesis using Suc parent_of_tilde [of n root] by (simp add: ancestor_name_def del: str_def)
  qed
qed (simp add: ancestor_name_def)

theorem ancestor_names_exact_witness:
  "ancestor_name (str ''refs/tags/v2'') 12 = str ''refs/tags/v2~12''"
proof -
  have "fst (name_generation (str ''refs/tags/v2'')) = 0" by (simp add: name_generation_def str_def)
  note * = ancestor_names_exact [OF this, of 12]
  have "dec_digits 12 = [49, 50]" by (simp add: dec_digits.simps [of 12] dec_digits.simps [of "Suc 0"])
  with * show ?thesis by (simp add: str_def)
qed

end
