(* ===== verification/RunState.thy ===== *)
theory RunState
  imports Links ObjectCheck BlobCheck GitConfig ObjectDb PackVerify IndexFile RefsVerify ObjTable Reporter "HOL-Library.Monad_Syntax"
begin

text \<open>
  The state of a run of the checker and the helpers every pass uses: \<open>internal/fsckcmd/run.go\<close> and the
  first functions of \<open>internal/fsckcmd/objcheck.go\<close>. A step returns an option: \<open>None\<close> is a read that
  never returns, a search of the object table that never returns, or the panic at the table's limit.
  Pack numbers stand for packs; \<open>re_pack_path\<close> gives the paths their messages show. \<open>re_creates\<close> says whether a file can be
  created at a path, its directories included; \<open>rs_lost\<close> holds the files a run has written.
\<close>

section \<open>Status bits and options\<close>

definition error_object :: "32 word" where "error_object = 1"
definition error_reachable :: "32 word" where "error_reachable = 2"
definition error_pack :: "32 word" where "error_pack = 4"
definition error_refs_bit :: "32 word" where "error_refs_bit = 8"
definition error_commit_graph :: "32 word" where "error_commit_graph = 16"
definition error_midx :: "32 word" where "error_midx = 32"
definition error_rev_index :: "32 word" where "error_rev_index = 64"
definition error_bitmap :: "32 word" where "error_bitmap = 128"
definition error_index :: "32 word" where "error_index = 256"

text \<open>\<open>ro_collect\<close> is that the caller wants the damaged objects. Verbose output, progress and the number
  of workers are left out.\<close>

record run_options =
  ro_show_root :: bool
  ro_show_tags :: bool
  ro_unreachable :: bool
  ro_reflogs :: bool
  ro_full :: bool
  ro_refs :: bool
  ro_connectivity :: bool
  ro_strict :: bool
  ro_keep_cache :: bool
  ro_lost_found :: bool
  ro_dangling :: bool
  ro_names :: bool
  ro_args :: "bytes list"
  ro_collect :: bool

definition default_options :: run_options where
  "default_options = \<lparr>ro_show_root = False, ro_show_tags = False, ro_unreachable = False, ro_reflogs = True,
     ro_full = True, ro_refs = True, ro_connectivity = False, ro_strict = False, ro_keep_cache = False,
     ro_lost_found = False, ro_dangling = True, ro_names = False, ro_args = [], ro_collect = False\<rparr>"

text \<open>What a run is given: the repository with its object database, the directory listings and files it reads,
  the walk of each pack with its file and the checksum function, the tree check's normalizer, and the
  chunk \<open>sync.Pool\<close> gives the arena. \<open>re_stored\<close> is what reading a path of the operating system returns and
  \<open>re_regular\<close> whether a regular file is there; \<open>re_config\<close> are the settings in reading order.\<close>

record object_dir =
  od_path :: bytes
  od_shown :: bytes
  od_names :: "nat \<Rightarrow> bytes list option"

record run_env =
  re_db :: database
  re_repo :: repository
  re_pack_path :: "nat \<Rightarrow> bytes"
  re_git_dir :: path
  re_creates :: "path \<Rightarrow> bool"
  re_dirs :: "object_dir list"
  re_threshold :: int
  re_errno :: "bytes \<Rightarrow> bytes"
  re_verify :: "nat \<Rightarrow> walk_env"
  re_crc :: "bytes \<Rightarrow> nat"
  re_pack_file :: "nat \<Rightarrow> bytes option"
  re_norm :: normalizer
  re_pick :: "arena \<Rightarrow> nat option"
  re_files :: files
  re_ref_walk :: "path \<Rightarrow> (bytes \<times> file_kind) list"
  re_log_walk :: "path \<Rightarrow> bytes list"
  re_worktrees :: "(bytes \<times> bool) list option"
  re_index_file :: "path \<Rightarrow> stored_file"
  re_shown :: "path \<Rightarrow> bytes"
  re_ref_files :: ref_listing
  re_stored :: "bytes \<Rightarrow> stored_file"
  re_regular :: "bytes \<Rightarrow> bool"
  re_pack_os :: "nat \<Rightarrow> bytes"
  re_config :: "entry list"

record run_state =
  rs_opts :: run_options
  rs_table :: obj_table
  rs_db :: db_state
  rs_fsck :: options
  rs_rep :: reporter
  rs_status :: "32 word"
  rs_heads :: nat
  rs_fatal :: bytes
  rs_pending :: "nat list"
  rs_damaged :: "(oid \<times> bool) list"
  rs_partial :: bool
  rs_lost :: files

definition entry_at :: "run_state \<Rightarrow> nat \<Rightarrow> obj_entry" where
  "entry_at s i = ot_entries (rs_table s) ! i"

definition env_algo :: "run_env \<Rightarrow> algo" where
  "env_algo v = rp_algo (re_repo v)"

text \<open>The name of an entry.\<close>

definition oid_of :: "run_env \<Rightarrow> run_state \<Rightarrow> nat \<Rightarrow> oid" where
  "oid_of v s i = obj_oid (env_algo v) (entry_at s i)"

definition update_entry :: "nat \<Rightarrow> (obj_entry \<Rightarrow> obj_entry) \<Rightarrow> run_state \<Rightarrow> run_state" where
  "update_entry i f s = s\<lparr>rs_table := set_entry i (f (entry_at s i)) (rs_table s)\<rparr>"

text \<open>\<open>SetFlag\<close> on an entry of the run: whether the flag was set, and the state with it set.\<close>

definition flag_entry :: "32 word \<Rightarrow> nat \<Rightarrow> run_state \<Rightarrow> bool \<times> run_state" where
  "flag_entry f i s = (fst (set_flag f (entry_at s i)), update_entry i (\<lambda>e. snd (set_flag f e)) s)"

definition err :: "msg_key \<Rightarrow> bytes \<Rightarrow> run_state \<Rightarrow> run_state" where
  "err k line s = s\<lparr>rs_rep := err_line k line (rs_rep s)\<rparr>"

definition out :: "msg_key \<Rightarrow> bytes \<Rightarrow> run_state \<Rightarrow> run_state" where
  "out k line s = s\<lparr>rs_rep := out_line k line (rs_rep s)\<rparr>"

definition add_status :: "32 word \<Rightarrow> run_state \<Rightarrow> run_state" where
  "add_status bits s = s\<lparr>rs_status := rs_status s OR bits\<rparr>"

definition name_object :: "oid \<Rightarrow> bytes \<Rightarrow> run_state \<Rightarrow> run_state" where
  "name_object x name s = s\<lparr>rs_fsck := put_object_name (rs_fsck s) x name\<rparr>"

definition shown :: "run_state \<Rightarrow> oid \<Rightarrow> bytes" where
  "shown s x = describe (rs_fsck s) x"

section \<open>Damaged objects\<close>

definition note_damaged :: "oid \<Rightarrow> bool \<Rightarrow> run_state \<Rightarrow> run_state" where
  "note_damaged x rooted s =
     (if \<not> ro_collect (rs_opts s) then s else s\<lparr>rs_damaged := rs_damaged s @ [(x, rooted)]\<rparr>)"

definition named_damaged :: "run_state \<Rightarrow> oid \<Rightarrow> bool" where
  "named_damaged s x \<longleftrightarrow> list_ex (\<lambda>d. fst d = x) (rs_damaged s)"

definition note_partial :: "run_state \<Rightarrow> run_state" where
  "note_partial s = s\<lparr>rs_partial := True\<rparr>"

text \<open>\<open>reportDamaged\<close>: what the caller is given, the list and whether it is whole.\<close>

fun damaged_loop :: "run_state \<Rightarrow> (oid \<times> bool) list \<Rightarrow> oid list \<Rightarrow> oid list option" where
  "damaged_loop s [] acc = Some acc"
| "damaged_loop s ((x, rooted) # ds) acc =
     do {
       e \<leftarrow> table_get (rs_table s) (oid_h x);
       let reached = rooted \<or> (case e of None \<Rightarrow> False | Some i \<Rightarrow> has_flag flag_reachable (entry_at s i));
       damaged_loop s ds (if reached \<and> x \<notin> set acc then acc @ [x] else acc)
     }"

definition report_damaged :: "run_state \<Rightarrow> (oid list \<times> bool) option option" where
  "report_damaged s =
     (if \<not> ro_collect (rs_opts s) then Some None
      else map_option (\<lambda>xs. Some (xs, \<not> rs_partial s)) (damaged_loop s (rs_damaged s) []))"

section \<open>Reads\<close>

text \<open>The first fatal condition stays.\<close>

definition note_fatal_msg :: "bytes \<Rightarrow> run_state \<Rightarrow> run_state" where
  "note_fatal_msg msg s = (if rs_fatal s = [] then s\<lparr>rs_fatal := msg\<rparr> else s)"

definition corrupt_packed_text :: "run_env \<Rightarrow> oid \<Rightarrow> bytes" where
  "corrupt_packed_text v x =
     str ''packed object '' @ oid_string x @ str '' (stored in '' @
       (case db_find (re_db v) x of Some (InPack k i) \<Rightarrow> re_pack_path v k | _ \<Rightarrow> []) @ str '') is corrupt''"

definition note_fatal :: "run_env \<Rightarrow> read_error \<Rightarrow> run_state \<Rightarrow> run_state" where
  "note_fatal v e s = (case e of CorruptPacked x \<Rightarrow> note_fatal_msg (corrupt_packed_text v x) s | _ \<Rightarrow> s)"

definition run_read :: "run_env \<Rightarrow> oid \<Rightarrow> run_state \<Rightarrow> ((read_error + (obj_type \<times> bytes)) \<times> run_state) option" where
  "run_read v x s =
     do {
       (r, d) \<leftarrow> read_object (re_db v) (rs_db s) x;
       let s1 = s\<lparr>rs_db := d\<rparr>;
       Some (r, (case r of Inl e \<Rightarrow> note_fatal v e s1 | Inr _ \<Rightarrow> s1))
     }"

definition ensure_type :: "run_env \<Rightarrow> nat \<Rightarrow> run_state \<Rightarrow> (obj_type \<times> run_state) option" where
  "ensure_type v i s =
     (if en_type (entry_at s i) \<noteq> TypeNone then Some (en_type (entry_at s i), s)
      else do {
        info \<leftarrow> db_info (re_db v) (oid_of v s i);
        Some (case info of None \<Rightarrow> (TypeNone, s) | Some (t, n) \<Rightarrow> (t, update_entry i (set_type t) s))
      })"

section \<open>The table of objects\<close>

definition run_lookup :: "oid \<Rightarrow> obj_type \<Rightarrow> run_state \<Rightarrow> (nat option \<times> run_state) option" where
  "run_lookup x want s =
     do {
       (t, r) \<leftarrow> table_lookup (rs_table s) (oid_h x) want;
       Some (r, s\<lparr>rs_table := t\<rparr>)
     }"

definition printable_type :: "run_state \<Rightarrow> oid \<Rightarrow> obj_type \<Rightarrow> bytes option" where
  "printable_type s x t =
     do {
       t1 \<leftarrow> (if t = TypeNone \<or> t = TypeBad then
              do {
                e \<leftarrow> table_get (rs_table s) (oid_h x);
                Some (case e of None \<Rightarrow> t | Some i \<Rightarrow> en_type (entry_at s i))
              }
            else Some t);
       Some (if type_name t1 \<noteq> [] \<and> t1 \<noteq> TypeNone then type_name t1 else str ''unknown'')
     }"

definition obj_error :: "msg_key \<Rightarrow> oid \<Rightarrow> bytes \<Rightarrow> run_state \<Rightarrow> run_state option" where
  "obj_error k x line s =
     do {
       ty \<leftarrow> printable_type s x TypeNone;
       Some (err k (str ''error in '' @ ty @ str '' '' @ shown s x @ str '': '' @ line) (add_status error_object s))
     }"

definition link_type_name :: "obj_type \<Rightarrow> bytes" where
  "link_type_name t = (if type_name t \<noteq> [] \<and> t \<noteq> TypeAny then type_name t else str ''unknown'')"

text \<open>\<open>%7s\<close>: at least seven bytes, padded on the left.\<close>

definition pad7 :: "bytes \<Rightarrow> bytes" where
  "pad7 s = replicate (7 - length s) (ascii CHR '' '') @ s"

text \<open>\<open>fsckError\<close> for one finding of a check, and for what a check has logged. The key takes the
  name the finding is about.\<close>

definition fsck_error :: "msg_key \<Rightarrow> finding \<Rightarrow> run_state \<Rightarrow> run_state option" where
  "fsck_error k f s =
     do {
       ty \<leftarrow> printable_type s (f_oid f) (f_type f);
       let line = ty @ str '' '' @ shown s (f_oid f) @ str '': '' @ f_text f;
       let at = k\<lparr>key_oid := f_oid f\<rparr>;
       Some (if f_sev f = SevWarn then err at (str ''warning in '' @ line) s
             else add_status error_object (err at (str ''error in '' @ line) s))
     }"

fun fsck_errors :: "msg_key \<Rightarrow> finding list \<Rightarrow> run_state \<Rightarrow> run_state option" where
  "fsck_errors k [] s = Some s"
| "fsck_errors k (f # fs) s = do { s1 \<leftarrow> fsck_error k f s; fsck_errors k fs s1 }"

text \<open>A check of \<open>ObjectCheck\<close> or \<open>BlobCheck\<close> inside the run: its new findings are printed.\<close>

definition run_check :: "msg_key \<Rightarrow> (options \<Rightarrow> options \<times> int) \<Rightarrow> run_state \<Rightarrow> (int \<times> run_state) option" where
  "run_check k check s =
     (case check (rs_fsck s) of
        (q, r) \<Rightarrow> map_option (Pair r) (fsck_errors k (drop (length (logged (rs_fsck s))) (logged q)) (s\<lparr>rs_fsck := q\<rparr>)))"

text \<open>\<open>markReachable\<close>: a root.\<close>

definition mark_reachable :: "nat \<Rightarrow> run_state \<Rightarrow> run_state" where
  "mark_reachable i s =
     (case flag_entry flag_reachable i s of
        (old, s1) \<Rightarrow>
          if old then s
          else if \<not> has_flag flag_has_obj (entry_at s1 i) then s1
          else s1\<lparr>rs_pending := rs_pending s1 @ [i]\<rparr>)"

end
