(* ===== verification/Connectivity.thy ===== *)
theory Connectivity
  imports RunState "HOL-Library.Multiset"
begin

text \<open>
  The walk from the roots and the reports after it: \<open>internal/fsckcmd/connectivity.go\<close>. The workers are
  a step relation over the tasks they hold: reading an object or following one link of it is one step.
  The loop of a single worker is written out as well.
\<close>

definition conn_key :: "oid \<Rightarrow> msg_key" where
  "conn_key x = (at_phase phase_connectivity)\<lparr>key_oid := x\<rparr>"

section \<open>Following links\<close>

text \<open>\<open>markLinkInto\<close>: the entry the link leads to if it is newly reachable and has an object.\<close>

definition mark_link_into ::
    "run_env \<Rightarrow> msg_key \<Rightarrow> nat \<Rightarrow> obj_type \<Rightarrow> bool \<Rightarrow> nat option \<Rightarrow> run_state \<Rightarrow> (nat list \<times> run_state) option" where
  "mark_link_into v k p t via target s =
     (let x = oid_of v s p in
      case target of
        None \<Rightarrow> do {
          ty \<leftarrow> printable_type s x (en_type (entry_at s p));
          let s1 = out k (str ''broken link from '' @ pad7 ty @ str '' '' @ shown s x) s;
          let s2 = out k (str ''broken link from '' @ pad7 (link_type_name t) @ str '' unknown'') s1;
          Some ([], note_partial (add_status error_reachable s2))
        }
      | Some i \<Rightarrow> do {
          s1 \<leftarrow> (if \<not> via \<and> en_type (entry_at s i) \<noteq> TypeNone \<and> en_type (entry_at s i) \<noteq> t
                then obj_error k x (str ''wrong object type in link'') s else Some s);
          let (old, s2) = flag_entry flag_reachable i s1;
          if old then Some ([], s2)
          else if \<not> has_flag flag_has_obj (entry_at s2 i) then
            (let y = oid_of v s2 i in
             if db_has (re_db v) y then Some ([], s2)
             else do {
               tp \<leftarrow> printable_type s2 x (en_type (entry_at s2 p));
               ti \<leftarrow> printable_type s2 y (en_type (entry_at s2 i));
               Some ([], add_status error_reachable
                 (out k (str ''broken link from '' @ pad7 tp @ str '' '' @ shown s2 x @ [10] @
                         str ''              to '' @ pad7 ti @ str '' '' @ shown s2 y) s2))
             })
          else Some ([i], s2)
        })"

text \<open>What \<open>traverseOne\<close> follows: the edges the object pass recorded, or the links of the object itself.\<close>

datatype todo = EdgeTo edge | LinkTo obj_link

definition visit :: "run_env \<Rightarrow> nat \<Rightarrow> run_state \<Rightarrow> (todo list \<times> run_state) option" where
  "visit v i s =
     do {
       (t, s1) \<leftarrow> ensure_type v i s;
       let x = oid_of v s1 i;
       let k = conn_key x;
       if t = TypeBlob \<or> t = TypeNone then Some ([], s1)
       else (case table_edges (rs_table s1) (entry_at s1 i) of
           Some es \<Rightarrow> Some (map EdgeTo es, s1)
         | None \<Rightarrow> do {
             (r, s2) \<leftarrow> run_read v x s1;
             Some (case r of
                 Inl e \<Rightarrow> ([], err k (str ''error: Unknown object type for '' @ shown s2 x) s2)
               | Inr (_, buf) \<Rightarrow>
                   (case walk_links t x buf (env_algo v) (object_name (rs_fsck s2) x) (ro_names (rs_opts s2)) of
                      (ls, errs) \<Rightarrow> (map LinkTo ls, fold (\<lambda>m. err k (str ''error: '' @ m)) errs s2)))
           })
     }"

definition follow :: "run_env \<Rightarrow> nat \<Rightarrow> todo \<Rightarrow> run_state \<Rightarrow> (nat list \<times> run_state) option" where
  "follow v p item s =
     (let k = conn_key (oid_of v s p) in
      case item of
        EdgeTo e \<Rightarrow>
          if \<not> edge_ok e then mark_link_into v k p (edge_type e) False None s
          else mark_link_into v k p (en_type (entry_at s (unat e))) False (Some (unat e)) s
      | LinkTo l \<Rightarrow> do {
          let s1 = (if ln_name l \<noteq> [] then name_object (ln_oid l) (ln_name l) s else s);
          (target, s2) \<leftarrow> run_lookup (ln_oid l) (ln_type l) s1;
          mark_link_into v k p (ln_type l) (ln_via_tag l) target s2
        })"

fun follow_all :: "run_env \<Rightarrow> nat \<Rightarrow> todo list \<Rightarrow> run_state \<Rightarrow> (nat list \<times> run_state) option" where
  "follow_all v p [] s = Some ([], s)"
| "follow_all v p (x # xs) s =
     do {
       (new, s1) \<leftarrow> follow v p x s;
       (rest, s2) \<leftarrow> follow_all v p xs s1;
       Some (new @ rest, s2)
     }"

definition traverse_one :: "run_env \<Rightarrow> nat \<Rightarrow> run_state \<Rightarrow> (nat list \<times> run_state) option" where
  "traverse_one v i s = do { (items, s1) \<leftarrow> visit v i s; follow_all v i items s1 }"

section \<open>The walk\<close>

text \<open>One worker: the last entry of the stack first.\<close>

partial_function (option) traverse_loop :: "run_env \<Rightarrow> nat list \<Rightarrow> run_state \<Rightarrow> run_state option" where
  "traverse_loop v stack s =
     (if stack = [] then Some s
      else do {
        (new, s1) \<leftarrow> traverse_one v (last stack) s;
        traverse_loop v (butlast stack @ new) s1
      })"

definition traverse_reachable :: "run_env \<Rightarrow> run_state \<Rightarrow> run_state option" where
  "traverse_reachable v s = traverse_loop v (rs_pending s) (s\<lparr>rs_pending := []\<rparr>)"

text \<open>Any number of workers: what is left to do, on the shared stack and in the workers' own, is a multiset,
  and any part of it may be next.\<close>

datatype task = Visit nat | Follow nat "todo list"

inductive walk_step :: "run_env \<Rightarrow> task multiset \<times> run_state \<Rightarrow> task multiset \<times> run_state \<Rightarrow> bool" for v where
  visit_step: "visit v i s = Some (items, s') \<Longrightarrow>
    walk_step v (add_mset (Visit i) ts, s) (add_mset (Follow i items) ts, s')"
| follow_step: "follow v i x s = Some (new, s') \<Longrightarrow>
    walk_step v (add_mset (Follow i (x # xs)) ts, s) (add_mset (Follow i xs) (ts + mset (map Visit new)), s')"
| done_step: "walk_step v (add_mset (Follow i []) ts, s) (ts, s)"

section \<open>The reports\<close>

definition referent_one :: "run_env \<Rightarrow> nat \<Rightarrow> run_state \<Rightarrow> run_state option" where
  "referent_one v i s =
     (if \<not> has_flag flag_has_obj (entry_at s i) \<or> has_flag flag_reachable (entry_at s i) then Some s
      else do {
        (ty, s1) \<leftarrow> (if en_type (entry_at s i) \<noteq> TypeNone then Some (Some (en_type (entry_at s i)), s)
            else do {
              (r, s1) \<leftarrow> run_read v (oid_of v s i) s;
              Some (case r of Inl e \<Rightarrow> (None, s1) | Inr (t, _) \<Rightarrow> (Some t, update_entry i (set_type t) s1))
            });
        case ty of
          None \<Rightarrow> Some s1
        | Some t \<Rightarrow>
            if t = TypeBlob then Some s1
            else (case table_edges (rs_table s1) (entry_at s1 i) of
                Some es \<Rightarrow> Some (fold (\<lambda>e s. if edge_ok e then snd (flag_entry flag_used (unat e) s) else s) es s1)
              | None \<Rightarrow> do {
                  (r, s2) \<leftarrow> run_read v (oid_of v s1 i) s1;
                  case r of
                    Inl e \<Rightarrow> Some s2
                  | Inr (_, buf) \<Rightarrow>
                      fold (\<lambda>l so. do {
                          s \<leftarrow> so;
                          (target, s1) \<leftarrow> run_lookup (ln_oid l) (ln_type l) s;
                          Some (case target of None \<Rightarrow> s1 | Some j \<Rightarrow> snd (flag_entry flag_used j s1))
                        }) (fst (walk_links t (oid_of v s2 i) buf (env_algo v) [] False)) (Some s2)
                })
      })"

text \<open>A pass over the entries there are when it starts.\<close>

fun each_entry :: "(nat \<Rightarrow> run_state \<Rightarrow> run_state option) \<Rightarrow> nat list \<Rightarrow> run_state \<Rightarrow> run_state option" where
  "each_entry f [] s = Some s"
| "each_entry f (i # is) s = do { s1 \<leftarrow> f i s; each_entry f is s1 }"

definition mark_unreachable_referents :: "run_env \<Rightarrow> run_state \<Rightarrow> run_state option" where
  "mark_unreachable_referents v s = each_entry (referent_one v) [0..<length (ot_entries (rs_table s))] s"

definition report_key :: "oid \<Rightarrow> msg_key" where
  "report_key x = (conn_key x)\<lparr>key_group := 1\<rparr>"

definition named_entry :: "run_env \<Rightarrow> nat \<Rightarrow> run_state \<Rightarrow> bytes option" where
  "named_entry v i s =
     map_option (\<lambda>ty. ty @ str '' '' @ shown s (oid_of v s i)) (printable_type s (oid_of v s i) (en_type (entry_at s i)))"

definition check_reachable_object :: "run_env \<Rightarrow> nat \<Rightarrow> run_state \<Rightarrow> run_state option" where
  "check_reachable_object v i s =
     (let x = oid_of v s i in
      if has_flag flag_has_obj (entry_at s i) then Some s
      else if has_packed (re_db v) x then Some s
      else do {
        line \<leftarrow> named_entry v i s;
        Some (note_damaged x True (add_status error_reachable (out (report_key x) (str ''missing '' @ line) s)))
      })"

definition write_lost_found :: "run_env \<Rightarrow> msg_key \<Rightarrow> nat \<Rightarrow> run_state \<Rightarrow> run_state option" where
  "write_lost_found v k i s =
     (let x = oid_of v s i;
          kind = (if en_type (entry_at s i) = TypeCommit then str ''commit'' else str ''other'');
          p = join_path (re_git_dir v @ [str ''lost-found'', kind]) (shown s x) in
      if \<not> re_creates v p then Some (err k (str ''error: could not create lost-found'') s)
      else if en_type (entry_at s i) = TypeBlob then do {
        (r, s1) \<leftarrow> run_read v x s;
        Some (s1\<lparr>rs_lost := (rs_lost s1)(p \<mapsto> (case r of Inl e \<Rightarrow> [] | Inr (_, data) \<Rightarrow> data))\<rparr>)
      }
      else Some (s\<lparr>rs_lost := (rs_lost s)(p \<mapsto> shown s x @ [10])\<rparr>))"

definition check_unreachable_object :: "run_env \<Rightarrow> nat \<Rightarrow> run_state \<Rightarrow> run_state option" where
  "check_unreachable_object v i s =
     (let k = report_key (oid_of v s i) in
      if \<not> has_flag flag_has_obj (entry_at s i) then Some s
      else if ro_unreachable (rs_opts s) then do {
        line \<leftarrow> named_entry v i s;
        Some (out k (str ''unreachable '' @ line) s)
      }
      else if has_flag flag_used (entry_at s i) then Some s
      else do {
        s1 \<leftarrow> (if ro_dangling (rs_opts s) then
                do { line \<leftarrow> named_entry v i s; Some (out k (str ''dangling '' @ line) s) }
              else Some s);
        if ro_lost_found (rs_opts s1) then write_lost_found v k i s1 else Some s1
      })"

definition check_one_object :: "run_env \<Rightarrow> nat \<Rightarrow> run_state \<Rightarrow> run_state option" where
  "check_one_object v i s =
     (if has_flag flag_reachable (entry_at s i) then check_reachable_object v i s
      else check_unreachable_object v i s)"

text \<open>The reports after the walk, and the whole pass with one worker.\<close>

definition report_objects :: "run_env \<Rightarrow> run_state \<Rightarrow> run_state option" where
  "report_objects v s =
     do {
       s1 \<leftarrow> (if ro_connectivity (rs_opts s) \<and> (ro_dangling (rs_opts s) \<or> ro_lost_found (rs_opts s))
             then mark_unreachable_referents v s else Some s);
       each_entry (check_one_object v) [0..<length (ot_entries (rs_table s1))] s1
     }"

definition check_connectivity :: "run_env \<Rightarrow> run_state \<Rightarrow> run_state option" where
  "check_connectivity v s = do { s1 \<leftarrow> traverse_reachable v s; report_objects v s1 }"

end
