(* ===== verification/Reach.thy ===== *)
theory Reach
  imports Connectivity TableMap
begin

text \<open>
  What the walk of \<open>Connectivity\<close> marks. After an object pass every entry with an object has its type and
  its edges; then, however the workers share the walk, it ends and the marked entries are exactly the ones
  a path of edges through present objects leads to from a root.
\<close>

section \<open>Flags of an entry\<close>

lemma flag_bit:
  assumes "k < 24"
  shows "has_flag (2 ^ k) e \<longleftrightarrow> bit (en_meta e) (k + 8)"
  unfolding has_flag_def flags_def and_exp_eq_0_iff_not_bit by (simp add: bit_drop_bit_eq add.commute)

lemma push_flag: "k < 24 \<Longrightarrow> push_bit 8 (2 ^ k :: 32 word) = 2 ^ (k + 8)"
  by (simp add: push_bit_of_1 [symmetric] add.commute flip: push_bit_of_1)

lemma set_flag_eq:
  assumes "k < 24"
  shows "set_flag (2 ^ k) e = (bit (en_meta e) (k + 8), e\<lparr>en_meta := en_meta e OR 2 ^ (k + 8)\<rparr>)"
proof -
  have "en_meta e OR 2 ^ (k + 8) = en_meta e" if "bit (en_meta e) (k + 8)"
    using that by (intro bit_eqI) (auto simp: bit_or_iff bit_exp_iff)
  then show ?thesis
    unfolding set_flag_def Let_def push_flag [OF assms] and_exp_eq_0_iff_not_bit by auto
qed

lemma flag_numbers:
  "flag_reachable = 2 ^ 0" "flag_seen = 2 ^ 1" "flag_has_obj = 2 ^ 2" "flag_used = 2 ^ 3" "flag_walked = 2 ^ 4"
  by simp_all

declare flag_reachable_def [simp del] flag_seen_def [simp del] flag_has_obj_def [simp del] flag_used_def [simp del] flag_walked_def [simp del]

text \<open>Setting one flag leaves the rest of an entry.\<close>

lemma set_flag_keeps:
  assumes "k < 24"
  shows "en_hash (snd (set_flag (2 ^ k) e)) = en_hash e" "en_ref (snd (set_flag (2 ^ k) e)) = en_ref e"
    "en_len (snd (set_flag (2 ^ k) e)) = en_len e" "en_type (snd (set_flag (2 ^ k) e)) = en_type e"
    "j < 24 \<Longrightarrow> has_flag (2 ^ j) (snd (set_flag (2 ^ k) e)) \<longleftrightarrow> has_flag (2 ^ j) e \<or> j = k"
    "fst (set_flag (2 ^ k) e) \<longleftrightarrow> has_flag (2 ^ k) e"
proof -
  have "ucast (en_meta e OR 2 ^ (k + 8)) = (ucast (en_meta e) :: 8 word)"
    by (rule bit_word_eqI) (auto simp: bit_simps)
  then show "en_type (snd (set_flag (2 ^ k) e)) = en_type e" by (simp add: set_flag_eq [OF assms] en_type_def)
  show "has_flag (2 ^ j) (snd (set_flag (2 ^ k) e)) \<longleftrightarrow> has_flag (2 ^ j) e \<or> j = k" if "j < 24"
    using that assms by (auto simp: set_flag_eq flag_bit bit_or_iff bit_exp_iff)
qed (simp_all add: set_flag_eq [OF assms] flag_bit [OF assms])

lemma set_reachable:
  defines "e' \<equiv> \<lambda>e. snd (set_flag flag_reachable e)"
  shows "en_hash (e' e) = en_hash e" "en_type (e' e) = en_type e" "en_ref (e' e) = en_ref e" "en_len (e' e) = en_len e"
    "has_flag flag_reachable (e' e)" "has_flag flag_has_obj (e' e) = has_flag flag_has_obj e"
    "has_flag flag_used (e' e) = has_flag flag_used e" "has_flag flag_walked (e' e) = has_flag flag_walked e"
    "fst (set_flag flag_reachable e) = has_flag flag_reachable e"
  unfolding e'_def flag_numbers by (simp_all only: set_flag_keeps) simp_all

section \<open>The graph of a table\<close>

definition entry_count :: "run_state \<Rightarrow> nat" where
  "entry_count s = length (ot_entries (rs_table s))"

definition present :: "run_state \<Rightarrow> nat \<Rightarrow> bool" where
  "present s i \<longleftrightarrow> has_flag flag_has_obj (entry_at s i)"

definition marked :: "run_state \<Rightarrow> nat \<Rightarrow> bool" where
  "marked s i \<longleftrightarrow> has_flag flag_reachable (entry_at s i)"

definition graph_edges :: "run_state \<Rightarrow> nat \<Rightarrow> edge list" where
  "graph_edges s i =
     (if en_type (entry_at s i) = TypeBlob then []
      else case table_edges (rs_table s) (entry_at s i) of None \<Rightarrow> [] | Some es \<Rightarrow> es)"

text \<open>What the object pass leaves behind for an entry that has an object.\<close>

definition entry_ready :: "run_state \<Rightarrow> nat \<Rightarrow> bool" where
  "entry_ready s i \<longleftrightarrow> en_type (entry_at s i) \<noteq> TypeNone \<and>
     (en_type (entry_at s i) \<noteq> TypeBlob \<longrightarrow> table_edges (rs_table s) (entry_at s i) \<noteq> None) \<and>
     (\<forall>e \<in> set (graph_edges s i). edge_ok e \<longrightarrow> unat e < entry_count s)"

definition walk_ready :: "run_state \<Rightarrow> bool" where
  "walk_ready s \<longleftrightarrow> table_inv (rs_table s) \<and> (\<forall>i < entry_count s. present s i \<longrightarrow> entry_ready s i)"

inductive reached :: "run_state \<Rightarrow> nat \<Rightarrow> bool" for s where
  root: "i < entry_count s \<Longrightarrow> marked s i \<Longrightarrow> reached s i"
| edge: "reached s i \<Longrightarrow> present s i \<Longrightarrow> e \<in> set (graph_edges s i) \<Longrightarrow> edge_ok e \<Longrightarrow> reached s (unat e)"

text \<open>A line of the reports after the walk.\<close>

definition report_msg :: "message \<Rightarrow> bool" where
  "report_msg m \<longleftrightarrow> key_phase (msg_at m) = phase_connectivity \<and> key_group (msg_at m) = 1"

definition report_msgs :: "run_state \<Rightarrow> message list" where
  "report_msgs s = filter report_msg (rep_msgs (rs_rep s))"

text \<open>The walk leaves the graph, and everything else a later pass reads but the marks.\<close>

definition same_graph :: "run_state \<Rightarrow> run_state \<Rightarrow> bool" where
  "same_graph s s' \<longleftrightarrow> entry_count s' = entry_count s \<and> table_inv (rs_table s') \<and>
     ot_arena (rs_table s') = ot_arena (rs_table s) \<and>
     (\<forall>i < entry_count s. \<exists>b. entry_at s' i = (if b then snd (set_flag flag_reachable (entry_at s i)) else entry_at s i)) \<and>
     rs_opts s' = rs_opts s \<and> rs_db s' = rs_db s \<and> rs_fsck s' = rs_fsck s \<and> rs_fatal s' = rs_fatal s \<and>
     rs_pending s' = rs_pending s \<and> rs_damaged s' = rs_damaged s \<and> rs_lost s' = rs_lost s \<and> rs_heads s' = rs_heads s \<and>
     report_msgs s' = report_msgs s"

lemma same_graphD:
  assumes "same_graph s s'" and "i < entry_count s"
  shows "en_hash (entry_at s' i) = en_hash (entry_at s i)" "en_type (entry_at s' i) = en_type (entry_at s i)"
    "present s' i = present s i" "table_edges (rs_table s') (entry_at s' i) = table_edges (rs_table s) (entry_at s i)"
    "graph_edges s' i = graph_edges s i" "has_flag flag_used (entry_at s' i) = has_flag flag_used (entry_at s i)"
    "marked s i \<Longrightarrow> marked s' i" "entry_ready s' i = entry_ready s i"
proof -
  obtain b where b: "entry_at s' i = (if b then snd (set_flag flag_reachable (entry_at s i)) else entry_at s i)"
    using assms unfolding same_graph_def by blast
  have a: "ot_arena (rs_table s') = ot_arena (rs_table s)" "entry_count s' = entry_count s"
    using assms unfolding same_graph_def by blast+
  show "en_hash (entry_at s' i) = en_hash (entry_at s i)" using b set_reachable(1) by simp
  show t: "en_type (entry_at s' i) = en_type (entry_at s i)" using b set_reachable(2) by simp
  show "present s' i = present s i" using b set_reachable(6) by (simp add: present_def)
  show "has_flag flag_used (entry_at s' i) = has_flag flag_used (entry_at s i)"
    using b set_reachable(7) by simp
  show "marked s i \<Longrightarrow> marked s' i" using b set_reachable(5) by (simp add: marked_def)
  show e: "table_edges (rs_table s') (entry_at s' i) = table_edges (rs_table s) (entry_at s i)"
    using b a(1) set_reachable(3,4,8) [of "entry_at s i"]
    by (simp add: table_edges_def has_flag_def)
  show g: "graph_edges s' i = graph_edges s i" by (simp add: graph_edges_def t e)
  show "entry_ready s' i = entry_ready s i" by (simp add: entry_ready_def t e g a(2))
qed

lemma same_graph_basic:
  assumes "same_graph s s'"
  shows "entry_count s' = entry_count s" "table_inv (rs_table s')"
  using assms by (simp_all add: same_graph_def)

lemma same_graph_refl: "table_inv (rs_table s) \<Longrightarrow> same_graph s s"
  unfolding same_graph_def by (auto intro: exI [of _ False])

lemma same_graph_trans:
  assumes "same_graph s s1" and "same_graph s1 s2"
  shows "same_graph s s2"
proof -
  have "\<exists>b. entry_at s2 i = (if b then snd (set_flag flag_reachable (entry_at s i)) else entry_at s i)" if i: "i < entry_count s" for i
  proof -
    have i1: "i < entry_count s1" using i assms(1) by (simp add: same_graph_def)
    obtain b1 b2 where "entry_at s1 i = (if b1 then snd (set_flag flag_reachable (entry_at s i)) else entry_at s i)"
      "entry_at s2 i = (if b2 then snd (set_flag flag_reachable (entry_at s1 i)) else entry_at s1 i)"
      using assms i i1 unfolding same_graph_def by blast
    moreover have "snd (set_flag flag_reachable (snd (set_flag flag_reachable e))) = snd (set_flag flag_reachable e)" for e
      unfolding flag_numbers by (simp add: set_flag_eq [of 0, simplified] or.assoc)
    ultimately show ?thesis by (auto intro: exI [of _ "b1 \<or> b2"])
  qed
  then show ?thesis using assms unfolding same_graph_def by auto
qed

lemma printable_returns:
  assumes "table_inv (rs_table s)"
  obtains ty where "printable_type s x t = Some ty"
proof -
  have "printable_type s x t \<noteq> None" by (simp add: printable_type_def table_get_exact [OF assms])
  with that show thesis by blast
qed

text \<open>One link of the graph.\<close>

definition broken_target :: "run_env \<Rightarrow> run_state \<Rightarrow> nat \<Rightarrow> bool" where
  "broken_target v s j \<longleftrightarrow> \<not> marked s j \<and> \<not> present s j \<and> \<not> db_has (re_db v) (oid_of v s j)"

lemma entry_at_update:
  "j < entry_count s \<Longrightarrow> entry_at (update_entry j f s) i = (if i = j then f (entry_at s j) else entry_at s i)"
  by (auto simp: entry_at_def update_entry_def set_entry_def entry_count_def)

lemma flag_entry_graph:
  assumes "table_inv (rs_table s)" and "j < entry_count s"
  shows "same_graph s (snd (flag_entry flag_reachable j s))"
    "fst (flag_entry flag_reachable j s) = marked s j"
    "marked (snd (flag_entry flag_reachable j s)) i \<longleftrightarrow> marked s i \<or> i = j"
proof -
  let ?s = "update_entry j (\<lambda>e. snd (set_flag flag_reachable e)) s"
  have at: "entry_at ?s i = (if i = j then snd (set_flag flag_reachable (entry_at s j)) else entry_at s i)" for i
    using entry_at_update [OF assms(2)] .
  have "table_inv (rs_table ?s)"
    using table_inv_set_entry [OF assms(1)] set_reachable(1) by (simp add: update_entry_def entry_at_def)
  moreover have "\<exists>b. entry_at ?s i = (if b then snd (set_flag flag_reachable (entry_at s i)) else entry_at s i)" for i
    unfolding at by (rule exI [of _ "i = j"]) simp
  ultimately show "same_graph s (snd (flag_entry flag_reachable j s))"
    unfolding same_graph_def flag_entry_def snd_conv
    by (simp add: update_entry_def set_entry_def entry_count_def report_msgs_def)
  show "fst (flag_entry flag_reachable j s) = marked s j"
    using set_reachable(9) by (simp add: flag_entry_def marked_def)
  show "marked (snd (flag_entry flag_reachable j s)) i \<longleftrightarrow> marked s i \<or> i = j"
    using set_reachable(5) by (auto simp: flag_entry_def marked_def at)
qed

lemma same_graph_out:
  "same_graph s s' \<Longrightarrow> same_graph s (out (conn_key x) l s')" "same_graph s s' \<Longrightarrow> same_graph s (err (conn_key x) l s')"
  "same_graph s s' \<Longrightarrow> same_graph s (add_status b s')" "same_graph s s' \<Longrightarrow> same_graph s (note_partial s')"
  by (simp_all add: same_graph_def out_def err_def add_status_def note_partial_def entry_count_def entry_at_def report_msgs_def
      out_line_def err_line_def add_line_def report_msg_def conn_key_def at_phase_def Let_def)

lemma marked_out:
  "marked (out k l s) = marked s" "marked (err k l s) = marked s" "marked (add_status b s) = marked s"
  "marked (note_partial s) = marked s"
  by (simp_all add: fun_eq_iff marked_def out_def err_def add_status_def note_partial_def entry_at_def)

lemma status_out:
  "rs_status (out k l s) = rs_status s" "rs_status (err k l s) = rs_status s" "rs_status (note_partial s) = rs_status s"
  "rs_status (add_status b s) = rs_status s OR b" "rs_status (snd (flag_entry f j s)) = rs_status s"
  by (simp_all add: out_def err_def note_partial_def add_status_def flag_entry_def update_entry_def)

lemma follow_none:
  assumes "table_inv (rs_table s)"
  shows "\<exists>s'. mark_link_into v (conn_key x) p t via None s = Some ([], s') \<and> same_graph s s' \<and> marked s' = marked s \<and>
    rs_status s' = rs_status s OR error_reachable"
proof -
  obtain ty where "printable_type s (oid_of v s p) (en_type (entry_at s p)) = Some ty"
    using printable_returns [OF assms] .
  then show ?thesis
    using same_graph_refl [OF assms] by (simp add: mark_link_into_def Let_def same_graph_out marked_out status_out)
qed

lemma follow_some:
  assumes inv: "table_inv (rs_table s)" and j: "j < entry_count s"
  shows "\<exists>s'. mark_link_into v (conn_key x) p (en_type (entry_at s j)) via (Some j) s =
      Some (if marked s j \<or> \<not> present s j then [] else [j], s') \<and>
    same_graph s s' \<and> marked s' = (\<lambda>i. marked s i \<or> i = j) \<and>
    rs_status s' = (if broken_target v s j then rs_status s OR error_reachable else rs_status s)"
proof -
  define s2 where "s2 = snd (flag_entry flag_reachable j s)"
  have fe: "flag_entry flag_reachable j s = (marked s j, s2)"
    using flag_entry_graph(2) [OF inv j] by (simp add: s2_def prod_eq_iff)
  have g: "same_graph s s2" "marked s2 = (\<lambda>i. marked s i \<or> i = j)"
    using flag_entry_graph [OF inv j] by (auto simp: s2_def)
  have st: "rs_status s2 = rs_status s" by (simp add: s2_def status_out)
  have p2: "present s2 j = present s j" using same_graphD(3) [OF g(1) j] .
  have o2: "oid_of v s2 j = oid_of v s j" using same_graphD(1) [OF g(1) j] by (simp add: oid_of_def obj_oid_def)
  have inv2: "table_inv (rs_table s2)" using g(1) by (simp add: same_graph_def)
  obtain ty1 where t1: "printable_type s2 (oid_of v s p) (en_type (entry_at s2 p)) = Some ty1"
    using printable_returns [OF inv2] .
  obtain ty2 where t2: "printable_type s2 (oid_of v s j) (en_type (entry_at s2 j)) = Some ty2"
    using printable_returns [OF inv2] .
  have start: "mark_link_into v (conn_key x) p (en_type (entry_at s j)) via (Some j) s =
      (if marked s j then Some ([], s2) else if \<not> present s j then
         (if db_has (re_db v) (oid_of v s j) then Some ([], s2)
          else Some ([], add_status error_reachable
                 (out (conn_key x) (str ''broken link from '' @ pad7 ty1 @ str '' '' @ shown s2 (oid_of v s p) @ [10] @
                         str ''              to '' @ pad7 ty2 @ str '' '' @ shown s2 (oid_of v s j)) s2)))
       else Some ([j], s2))"
    unfolding mark_link_into_def Let_def option.case
    by (simp add: fe t1 t2 o2 present_def [symmetric] p2 del: str_def)
  show ?thesis
    unfolding start
    by (auto simp: g st broken_target_def same_graph_out marked_out status_out)
qed

lemma follow_edge:
  assumes inv: "table_inv (rs_table s)" and e: "edge_ok e \<Longrightarrow> unat e < entry_count s"
  shows "\<exists>s'. follow v p (EdgeTo e) s =
      Some (if edge_ok e \<and> \<not> marked s (unat e) \<and> present s (unat e) then [unat e] else [], s') \<and>
    same_graph s s' \<and> marked s' = (\<lambda>i. marked s i \<or> edge_ok e \<and> i = unat e) \<and>
    rs_status s' = (if \<not> edge_ok e \<or> broken_target v s (unat e) then rs_status s OR error_reachable else rs_status s)"
proof (cases "edge_ok e")
  case True
  obtain s' where "mark_link_into v (conn_key (oid_of v s p)) p (en_type (entry_at s (unat e))) False (Some (unat e)) s =
      Some (if marked s (unat e) \<or> \<not> present s (unat e) then [] else [unat e], s')"
    "same_graph s s'" "marked s' = (\<lambda>i. marked s i \<or> i = unat e)"
    "rs_status s' = (if broken_target v s (unat e) then rs_status s OR error_reachable else rs_status s)"
    using follow_some [OF inv e [OF True]] by blast
  with True show ?thesis by (intro exI [of _ s']) (simp add: follow_def Let_def)
next
  case False
  then show ?thesis
    using follow_none [OF inv] by (simp add: follow_def Let_def)
qed

lemma visit_ready:
  assumes "walk_ready s" and "i < entry_count s" and "present s i"
  shows "visit v i s = Some (map EdgeTo (graph_edges s i), s)"
proof -
  have r: "entry_ready s i" using assms by (simp add: walk_ready_def)
  then have "ensure_type v i s = Some (en_type (entry_at s i), s)" by (simp add: entry_ready_def ensure_type_def)
  then show ?thesis
    using r by (auto simp: visit_def graph_edges_def entry_ready_def)
qed

section \<open>The invariant of the walk\<close>

definition unreachable_bit :: "run_state \<Rightarrow> bool" where
  "unreachable_bit s \<longleftrightarrow> rs_status s AND error_reachable \<noteq> 0"

lemma unreachable_bit_or: "rs_status s' = rs_status s OR error_reachable \<Longrightarrow> unreachable_bit s'"
  by (simp add: unreachable_bit_def error_reachable_def bit.conj_disj_distrib2)

definition edge_done :: "run_state \<Rightarrow> edge \<Rightarrow> bool" where
  "edge_done s e \<longleftrightarrow> (if edge_ok e then marked s (unat e) else unreachable_bit s)"

text \<open>What a walk can complain about: an edge that was refused, or a name with no object behind it.\<close>

definition broken_walk :: "run_env \<Rightarrow> run_state \<Rightarrow> bool" where
  "broken_walk v s \<longleftrightarrow> (\<exists>i. reached s i \<and> present s i \<and> (\<exists>e \<in> set (graph_edges s i). \<not> edge_ok e)) \<or>
     (\<exists>j. reached s j \<and> \<not> present s j \<and> \<not> db_has (re_db v) (oid_of v s j))"

definition task_ok :: "run_state \<Rightarrow> run_state \<Rightarrow> task \<Rightarrow> bool" where
  "task_ok s0 s t =
     (case t of
        Visit i \<Rightarrow> i < entry_count s0 \<and> marked s i \<and> present s0 i
      | Follow i xs \<Rightarrow> i < entry_count s0 \<and> marked s i \<and> present s0 i \<and> set xs \<subseteq> EdgeTo ` set (graph_edges s0 i))"

definition visited_to :: "run_state \<Rightarrow> task multiset \<Rightarrow> run_state \<Rightarrow> nat \<Rightarrow> bool" where
  "visited_to s0 T s i \<longleftrightarrow> Visit i \<in># T \<or>
     (\<forall>e \<in> set (graph_edges s0 i). edge_done s e \<or> (\<exists>xs. Follow i xs \<in># T \<and> EdgeTo e \<in> set xs))"

definition walk_inv :: "run_env \<Rightarrow> run_state \<Rightarrow> task multiset \<Rightarrow> run_state \<Rightarrow> bool" where
  "walk_inv v s0 T s \<longleftrightarrow> same_graph s0 s \<and>
     (\<forall>i < entry_count s0. marked s i \<longrightarrow> reached s0 i) \<and>
     (\<forall>t \<in># T. task_ok s0 s t) \<and>
     (\<forall>i < entry_count s0. marked s i \<and> present s0 i \<longrightarrow> visited_to s0 T s i) \<and>
     (unreachable_bit s \<longrightarrow> unreachable_bit s0 \<or> broken_walk v s0) \<and> (unreachable_bit s0 \<longrightarrow> unreachable_bit s)"

definition task_weight :: "run_state \<Rightarrow> task \<Rightarrow> nat" where
  "task_weight s0 t = (case t of Visit i \<Rightarrow> 2 + length (graph_edges s0 i) | Follow i xs \<Rightarrow> 1 + length xs)"

definition entry_weight :: "run_state \<Rightarrow> run_state \<Rightarrow> nat \<Rightarrow> nat" where
  "entry_weight s0 s j = (if \<not> marked s j \<and> present s0 j then 3 + length (graph_edges s0 j) else 0)"

definition walk_weight :: "run_state \<Rightarrow> task multiset \<Rightarrow> run_state \<Rightarrow> nat" where
  "walk_weight s0 T s = sum_mset (image_mset (task_weight s0) T) + (\<Sum>j < entry_count s0. entry_weight s0 s j)"

lemma ready_same:
  assumes "walk_ready s0" and "same_graph s0 s"
  shows "walk_ready s"
proof -
  have "entry_count s = entry_count s0" "table_inv (rs_table s)" using assms(2) by (simp_all add: same_graph_def)
  then show ?thesis using assms same_graphD(3,8) [OF assms(2)] by (simp add: walk_ready_def)
qed

lemma ready_edge:
  assumes "walk_ready s" and "i < entry_count s" and "present s i" and "e \<in> set (graph_edges s i)" and "edge_ok e"
  shows "unat e < entry_count s"
  using assms by (simp add: walk_ready_def entry_ready_def)

lemma reached_lt: "reached s i \<Longrightarrow> walk_ready s \<Longrightarrow> i < entry_count s"
proof (induction rule: reached.induct)
  case (edge i e)
  then show ?case using ready_edge by blast
qed simp

lemma reached_edge:
  assumes "walk_ready s0" and "i < entry_count s0" and "reached s0 i" and "present s0 i" and "e \<in> set (graph_edges s0 i)" and "edge_ok e"
  shows "reached s0 (unat e)"
  using reached.edge assms by blast

lemma entry_weight_mark:
  assumes "marked s' = (\<lambda>i. marked s i \<or> i = j)" and "j < entry_count s0"
  shows "(\<Sum>i < entry_count s0. entry_weight s0 s' i) + entry_weight s0 s j = (\<Sum>i < entry_count s0. entry_weight s0 s i)"
proof -
  have "(\<Sum>i < entry_count s0. entry_weight s0 s i) = entry_weight s0 s j + (\<Sum>i \<in> {..<entry_count s0} - {j}. entry_weight s0 s i)"
    using assms(2) by (simp add: sum.remove)
  moreover have "(\<Sum>i < entry_count s0. entry_weight s0 s' i) = entry_weight s0 s' j + (\<Sum>i \<in> {..<entry_count s0} - {j}. entry_weight s0 s' i)"
    using assms(2) by (simp add: sum.remove)
  moreover have "(\<Sum>i \<in> {..<entry_count s0} - {j}. entry_weight s0 s' i) = (\<Sum>i \<in> {..<entry_count s0} - {j}. entry_weight s0 s i)"
    by (rule sum.cong) (simp_all add: entry_weight_def assms(1))
  moreover have "entry_weight s0 s' j = 0" by (simp add: entry_weight_def assms(1))
  ultimately show ?thesis by simp
qed

lemma walk_inv_visit:
  assumes ready: "walk_ready s0" and inv: "walk_inv v s0 (add_mset (Visit i) T) s" and "visit v i s = Some (items, s')"
  shows "walk_inv v s0 (add_mset (Follow i items) T) s' \<and>
    walk_weight s0 (add_mset (Follow i items) T) s' < walk_weight s0 (add_mset (Visit i) T) s"
proof -
  have g: "same_graph s0 s" and i: "i < entry_count s0" "present s0 i" "marked s i"
    using inv by (simp_all add: walk_inv_def task_ok_def)
  have "i < entry_count s" "present s i" using i same_graphD(3) [OF g i(1)] same_graph_basic [OF g] by simp_all
  with visit_ready [OF ready_same [OF ready g]] assms(3) same_graphD(5) [OF g i(1)]
  have e: "items = map EdgeTo (graph_edges s0 i)" "s' = s" by simp_all
  have v: "visited_to s0 (add_mset (Follow i items) T) s j" if "visited_to s0 (add_mset (Visit i) T) s j" for j
    using that unfolding visited_to_def e(1) by (cases "j = i") auto
  show ?thesis
    using inv i v unfolding walk_inv_def e(2) by (auto simp: task_ok_def e(1) walk_weight_def task_weight_def)
qed

lemma walk_inv_done:
  assumes "walk_inv v s0 (add_mset (Follow i []) T) s"
  shows "walk_inv v s0 T s \<and> walk_weight s0 T s < walk_weight s0 (add_mset (Follow i []) T) s"
proof -
  have "visited_to s0 T s j" if "visited_to s0 (add_mset (Follow i []) T) s j" for j
    using that unfolding visited_to_def by fastforce
  then show ?thesis
    using assms unfolding walk_inv_def by (auto simp: walk_weight_def task_weight_def)
qed

lemma walk_inv_follow:
  assumes ready: "walk_ready s0" and inv: "walk_inv v s0 (add_mset (Follow i (x # xs)) T) s"
    and f: "follow v i x s = Some (new, s')"
  shows "walk_inv v s0 (add_mset (Follow i xs) (T + mset (map Visit new))) s' \<and>
    walk_weight s0 (add_mset (Follow i xs) (T + mset (map Visit new))) s' < walk_weight s0 (add_mset (Follow i (x # xs)) T) s"
proof -
  let ?T = "add_mset (Follow i (x # xs)) T" and ?T' = "add_mset (Follow i xs) (T + mset (map Visit new))"
  have g: "same_graph s0 s" using inv by (simp add: walk_inv_def)
  have sound: "reached s0 k" if "k < entry_count s0" "marked s k" for k using inv that by (simp add: walk_inv_def)
  have tasks: "task_ok s0 s t" if "t \<in># ?T" for t using inv that unfolding walk_inv_def by blast
  have seen: "visited_to s0 ?T s k" if "k < entry_count s0" "marked s k" "present s0 k" for k
    using inv that unfolding walk_inv_def by blast
  have bits: "unreachable_bit s \<Longrightarrow> unreachable_bit s0 \<or> broken_walk v s0" "unreachable_bit s0 \<Longrightarrow> unreachable_bit s"
    using inv unfolding walk_inv_def by blast+
  have i: "i < entry_count s0" "marked s i" "present s0 i" "set xs \<subseteq> EdgeTo ` set (graph_edges s0 i)"
    using tasks [of "Follow i (x # xs)"] by (simp_all add: task_ok_def)
  obtain e where e: "x = EdgeTo e" "e \<in> set (graph_edges s0 i)"
    using tasks [of "Follow i (x # xs)"] by (auto simp: task_ok_def)
  have lt: "unat e < entry_count s0" "reached s0 (unat e)" if "edge_ok e"
    using ready_edge [OF ready i(1,3) e(2) that] reached_edge [OF ready i(1) sound [OF i(1,2)] i(3) e(2) that] .
  have "edge_ok e \<Longrightarrow> unat e < entry_count s" using lt(1) same_graph_basic [OF g] by simp
  from follow_edge [OF same_graph_basic(2) [OF g] this, of v i] f e(1)
  have new: "new = (if edge_ok e \<and> \<not> marked s (unat e) \<and> present s (unat e) then [unat e] else [])"
    and g1: "same_graph s s'" and m: "marked s' = (\<lambda>k. marked s k \<or> edge_ok e \<and> k = unat e)"
    and st: "rs_status s' = (if \<not> edge_ok e \<or> broken_target v s (unat e) then rs_status s OR error_reachable else rs_status s)"
    by simp_all
  have pr: "present s k = present s0 k" if "k < entry_count s0" for k using same_graphD(3) [OF g that] .
  have mono: "edge_done s e' \<Longrightarrow> edge_done s' e'" for e'
    using unreachable_bit_or [of s' s] st by (auto simp: edge_done_def m unreachable_bit_def split: if_splits)
  have done_e: "edge_done s' e"
    using unreachable_bit_or [of s' s] st by (auto simp: edge_done_def m)
  have g': "same_graph s0 s'" using same_graph_trans [OF g g1] .
  have sound': "reached s0 k" if "k < entry_count s0" "marked s' k" for k
    using that sound lt(2) by (auto simp: m)
  have tasks': "task_ok s0 s' t" if "t \<in># ?T'" for t
  proof -
    from that consider "t = Follow i xs" | "t \<in># T" | "t = Visit (unat e)" "edge_ok e" "present s (unat e)"
      by (auto simp: new split: if_splits)
    then show ?thesis
    proof cases
      case 1
      then show ?thesis using i by (simp add: task_ok_def m)
    next
      case 2
      then show ?thesis using tasks [of t] by (auto simp: task_ok_def m split: task.splits)
    next
      case 3
      then show ?thesis using lt(1) pr by (simp add: task_ok_def m)
    qed
  qed
  have seen': "visited_to s0 ?T' s' k" if k: "k < entry_count s0" "marked s' k" "present s0 k" for k
  proof (cases "marked s k")
    case False
    then have "edge_ok e" "k = unat e" using k(2) by (simp_all add: m)
    then have "Visit k \<in># ?T'" using False pr [OF k(1)] k(3) by (simp add: new)
    then show ?thesis by (simp add: visited_to_def)
  next
    case True
    from seen [OF k(1) True k(3)] show ?thesis
      unfolding visited_to_def
    proof (elim disjE)
      assume all: "\<forall>e' \<in> set (graph_edges s0 k). edge_done s e' \<or> (\<exists>ys. Follow k ys \<in># ?T \<and> EdgeTo e' \<in> set ys)"
      have "edge_done s' e' \<or> (\<exists>ys. Follow k ys \<in># ?T' \<and> EdgeTo e' \<in> set ys)" if "e' \<in> set (graph_edges s0 k)" for e'
        using bspec [OF all that] mono [of e'] done_e e(1) by (auto split: if_splits)
      then show "Visit k \<in># ?T' \<or> (\<forall>e' \<in> set (graph_edges s0 k). edge_done s' e' \<or> (\<exists>ys. Follow k ys \<in># ?T' \<and> EdgeTo e' \<in> set ys))"
        by blast
    qed auto
  qed
  have hit: "broken_walk v s0" if "\<not> edge_ok e \<or> broken_target v s (unat e)"
  proof (cases "edge_ok e")
    case False
    then show ?thesis using sound [OF i(1,2)] i(3) e(2) unfolding broken_walk_def by blast
  next
    case True
    have "oid_of v s (unat e) = oid_of v s0 (unat e)"
      using same_graphD(1) [OF g lt(1) [OF True]] by (simp add: oid_of_def obj_oid_def)
    then show ?thesis using that True lt pr unfolding broken_walk_def broken_target_def by metis
  qed
  have bits': "unreachable_bit s' \<Longrightarrow> unreachable_bit s0 \<or> broken_walk v s0" "unreachable_bit s0 \<Longrightarrow> unreachable_bit s'"
    using bits hit unreachable_bit_or [of s' s] st by (auto simp: unreachable_bit_def split: if_splits)
  have "walk_weight s0 ?T' s' < walk_weight s0 ?T s"
  proof (cases "edge_ok e")
    case True
    then have m': "marked s' = (\<lambda>k. marked s k \<or> k = unat e)" using m by simp
    show ?thesis
      using entry_weight_mark [OF m' lt(1) [OF True]] pr [OF lt(1) [OF True]] True
      by (auto simp: walk_weight_def task_weight_def entry_weight_def new)
  next
    case False
    then show ?thesis using m by (simp add: walk_weight_def task_weight_def entry_weight_def new)
  qed
  with g' sound' tasks' seen' bits' show ?thesis unfolding walk_inv_def by blast
qed

section \<open>The walk ends\<close>

inductive_cases walk_stepE: "walk_step v (T, s) c"

lemma walk_step_inv:
  assumes "walk_ready s0" and "walk_inv v s0 (fst c) (snd c)" and "walk_step v c c'"
  shows "walk_inv v s0 (fst c') (snd c') \<and> walk_weight s0 (fst c') (snd c') < walk_weight s0 (fst c) (snd c)"
  using assms(3,2)
proof cases
  case (visit_step i s items s' ts)
  then show ?thesis using walk_inv_visit [OF assms(1)] assms(2) by simp
next
  case (follow_step i x s new s' xs ts)
  then show ?thesis using walk_inv_follow [OF assms(1)] assms(2) by simp
next
  case (done_step i ts s)
  then show ?thesis using walk_inv_done assms(2) by simp
qed

lemma follow_returns:
  assumes "walk_ready s0" and "walk_inv v s0 (add_mset (Follow i (x # xs)) T) s"
  shows "\<exists>new s'. follow v i x s = Some (new, s')"
proof -
  have g: "same_graph s0 s" and t: "task_ok s0 s (Follow i (x # xs))" using assms(2) by (simp_all add: walk_inv_def)
  then obtain e where e: "x = EdgeTo e" "e \<in> set (graph_edges s0 i)" "i < entry_count s0" "present s0 i"
    by (auto simp: task_ok_def)
  have "unat e < entry_count s" if "edge_ok e"
    using ready_edge [OF assms(1) e(3,4,2) that] same_graph_basic [OF g] by simp
  from follow_edge [OF same_graph_basic(2) [OF g] this, of v i] e(1) show ?thesis by blast
qed

lemma visit_returns:
  assumes "walk_ready s0" and "walk_inv v s0 (add_mset (Visit i) T) s"
  shows "\<exists>items s'. visit v i s = Some (items, s')"
proof -
  have g: "same_graph s0 s" and i: "i < entry_count s0" "present s0 i"
    using assms(2) by (simp_all add: walk_inv_def task_ok_def)
  have "i < entry_count s" "present s i" using i same_graphD(3) [OF g i(1)] same_graph_basic [OF g] by simp_all
  from visit_ready [OF ready_same [OF assms(1) g] this] show ?thesis by blast
qed

lemma walk_progress:
  assumes "walk_ready s0" and "walk_inv v s0 T s" and "T \<noteq> {#}"
  shows "\<exists>c. walk_step v (T, s) c"
proof -
  obtain t ts where T: "T = add_mset t ts" using assms(3) multiset_cases by blast
  show ?thesis
  proof (cases t)
    case (Visit i)
    then show ?thesis using visit_returns [OF assms(1)] assms(2) T walk_step.visit_step by blast
  next
    case (Follow i xs)
    show ?thesis
    proof (cases xs)
      case Nil
      then show ?thesis using T Follow walk_step.done_step by blast
    next
      case (Cons y ys)
      then show ?thesis using follow_returns [OF assms(1)] assms(2) T Follow walk_step.follow_step by blast
    qed
  qed
qed

lemma walk_steps_inv:
  assumes "walk_ready s0" and "walk_inv v s0 T s"
  shows "(walk_step v ^^ k) (T, s) c \<Longrightarrow> walk_inv v s0 (fst c) (snd c) \<and> k + walk_weight s0 (fst c) (snd c) \<le> walk_weight s0 T s"
proof (induction k arbitrary: c)
  case (Suc k)
  then obtain d where d: "(walk_step v ^^ k) (T, s) d" "walk_step v d c" by auto
  from Suc.IH [OF d(1)] walk_step_inv [OF assms(1) _ d(2)] show ?case by fastforce
qed (use assms in simp)

definition roots_ok :: "run_state \<Rightarrow> nat list \<Rightarrow> bool" where
  "roots_ok s ps \<longleftrightarrow> set ps = {i. i < entry_count s \<and> marked s i \<and> present s i}"

lemma walk_start:
  assumes "walk_ready s" and "roots_ok s ps"
  shows "walk_inv v s (mset (map Visit ps)) s"
  using assms same_graph_refl unfolding walk_inv_def
  by (auto simp: roots_ok_def walk_ready_def task_ok_def visited_to_def intro: reached.root)

lemma walk_finished:
  assumes ready: "walk_ready s0" and inv: "walk_inv v s0 {#} s"
  shows "same_graph s0 s" "i < entry_count s0 \<Longrightarrow> marked s i \<longleftrightarrow> reached s0 i"
    "unreachable_bit s \<Longrightarrow> unreachable_bit s0 \<or> broken_walk v s0"
    "unreachable_bit s0 \<or> (\<exists>i. reached s0 i \<and> present s0 i \<and> (\<exists>e \<in> set (graph_edges s0 i). \<not> edge_ok e)) \<Longrightarrow> unreachable_bit s"
proof -
  show g: "same_graph s0 s" using inv by (simp add: walk_inv_def)
  have seen: "edge_done s e" if "i < entry_count s0" "marked s i" "present s0 i" "e \<in> set (graph_edges s0 i)" for i e
    using inv that by (auto simp: walk_inv_def visited_to_def)
  have all: "marked s i" if "reached s0 i" for i
    using that
  proof induction
    case (root i)
    then show ?case using same_graphD(7) [OF g] by blast
  next
    case (edge i e)
    then show ?case using seen [OF reached_lt [OF edge.hyps(1) ready]] by (simp add: edge_done_def)
  qed
  show "marked s i \<longleftrightarrow> reached s0 i" if "i < entry_count s0"
    using all inv that by (auto simp: walk_inv_def)
  show "unreachable_bit s \<Longrightarrow> unreachable_bit s0 \<or> broken_walk v s0" using inv by (simp add: walk_inv_def)
  show "unreachable_bit s" if "unreachable_bit s0 \<or> (\<exists>i. reached s0 i \<and> present s0 i \<and> (\<exists>e \<in> set (graph_edges s0 i). \<not> edge_ok e))"
    using that
  proof (elim disjE exE conjE bexE)
    assume "unreachable_bit s0"
    then show ?thesis using inv by (simp add: walk_inv_def)
  next
    fix i e assume "reached s0 i" "present s0 i" "e \<in> set (graph_edges s0 i)" "\<not> edge_ok e"
    then show ?thesis using seen [OF reached_lt [OF _ ready] all] by (auto simp: edge_done_def)
  qed
qed

text \<open>The single worker takes steps of the relation.\<close>

lemma follow_all_steps:
  assumes ready: "walk_ready s0"
  shows "walk_inv v s0 (add_mset (Follow i xs) T) s \<Longrightarrow>
    \<exists>new s'. follow_all v i xs s = Some (new, s') \<and>
      (walk_step v)\<^sup>*\<^sup>* (add_mset (Follow i xs) T, s) (T + mset (map Visit new), s') \<and>
      walk_inv v s0 (T + mset (map Visit new)) s' \<and>
      walk_weight s0 (T + mset (map Visit new)) s' < walk_weight s0 (add_mset (Follow i xs) T) s"
proof (induction xs arbitrary: T s)
  case Nil
  have "walk_step v (add_mset (Follow i []) T, s) (T, s)" by (rule walk_step.done_step)
  then show ?case using walk_inv_done [OF Nil] by auto
next
  case (Cons x xs)
  obtain new s1 where f: "follow v i x s = Some (new, s1)" using follow_returns [OF ready Cons.prems] by blast
  note inv1 = walk_inv_follow [OF ready Cons.prems f]
  have step: "walk_step v (add_mset (Follow i (x # xs)) T, s) (add_mset (Follow i xs) (T + mset (map Visit new)), s1)"
    using f by (rule walk_step.follow_step)
  from Cons.IH [OF inv1 [THEN conjunct1]] obtain rest s2 where r: "follow_all v i xs s1 = Some (rest, s2)"
    "(walk_step v)\<^sup>*\<^sup>* (add_mset (Follow i xs) (T + mset (map Visit new)), s1) (T + mset (map Visit new) + mset (map Visit rest), s2)"
    "walk_inv v s0 (T + mset (map Visit new) + mset (map Visit rest)) s2"
    "walk_weight s0 (T + mset (map Visit new) + mset (map Visit rest)) s2 < walk_weight s0 (add_mset (Follow i xs) (T + mset (map Visit new))) s1"
    by blast
  have "T + mset (map Visit new) + mset (map Visit rest) = T + mset (map Visit (new @ rest))" by simp
  with r inv1 f step show ?case by (intro exI [of _ "new @ rest"] exI [of _ s2]) (auto simp: add.assoc intro: converse_rtranclp_into_rtranclp)
qed

lemma traverse_loop_steps:
  assumes ready: "walk_ready s0"
  shows "walk_inv v s0 (mset (map Visit stack)) s \<Longrightarrow>
    \<exists>s'. traverse_loop v stack s = Some s' \<and> (walk_step v)\<^sup>*\<^sup>* (mset (map Visit stack), s) ({#}, s')"
proof (induction "walk_weight s0 (mset (map Visit stack)) s" arbitrary: stack s rule: less_induct)
  case less
  show ?case
  proof (cases "stack = []")
    case True
    then show ?thesis by (simp add: traverse_loop.simps)
  next
    case False
    then obtain i where st: "stack = butlast stack @ [i]" "last stack = i" by (metis append_butlast_last_id)
    let ?T = "mset (map Visit (butlast stack))"
    have T: "mset (map Visit stack) = add_mset (Visit i) ?T" by (subst st(1)) simp
    obtain items s1 where v: "visit v i s = Some (items, s1)" using visit_returns [OF ready] less.prems T by metis
    note inv1 = walk_inv_visit [OF ready less.prems [unfolded T] v]
    from follow_all_steps [OF ready inv1 [THEN conjunct1]] obtain new s2 where f: "follow_all v i items s1 = Some (new, s2)"
      "(walk_step v)\<^sup>*\<^sup>* (add_mset (Follow i items) ?T, s1) (?T + mset (map Visit new), s2)"
      "walk_inv v s0 (?T + mset (map Visit new)) s2"
      "walk_weight s0 (?T + mset (map Visit new)) s2 < walk_weight s0 (add_mset (Follow i items) ?T) s1"
      by blast
    have T2: "?T + mset (map Visit new) = mset (map Visit (butlast stack @ new))" by simp
    have "walk_weight s0 (mset (map Visit (butlast stack @ new))) s2 < walk_weight s0 (mset (map Visit stack)) s"
      using inv1 f(4) unfolding T T2 by linarith
    from less.hyps [OF this f(3) [unfolded T2]] obtain s' where s': "traverse_loop v (butlast stack @ new) s2 = Some s'"
      "(walk_step v)\<^sup>*\<^sup>* (mset (map Visit (butlast stack @ new)), s2) ({#}, s')" by blast
    have "traverse_loop v stack s = Some s'"
      using False st(2) v f(1) s'(1) by (subst traverse_loop.simps) (simp add: traverse_one_def)
    moreover have "walk_step v (mset (map Visit stack), s) (add_mset (Follow i items) ?T, s1)"
      unfolding T using v by (rule walk_step.visit_step)
    ultimately show ?thesis
      using f(2) s'(2) unfolding T2 by (meson converse_rtranclp_into_rtranclp rtranclp_trans)
  qed
qed

section \<open>The reports\<close>

datatype verdict = Fine | MissingObject | UnreachableObject | DanglingObject

text \<open>What a run says of an entry, given what the walk has reached.\<close>

definition verdict :: "run_env \<Rightarrow> run_state \<Rightarrow> (nat \<Rightarrow> bool) \<Rightarrow> nat \<Rightarrow> verdict" where
  "verdict v s r i =
     (if r i then (if present s i \<or> has_packed (re_db v) (oid_of v s i) then Fine else MissingObject)
      else if \<not> present s i then Fine
      else if ro_unreachable (rs_opts s) then UnreachableObject
      else if has_flag flag_used (entry_at s i) \<or> \<not> ro_dangling (rs_opts s) then Fine
      else DanglingObject)"

definition verdict_word :: "verdict \<Rightarrow> bytes" where
  "verdict_word r = (case r of Fine \<Rightarrow> [] | MissingObject \<Rightarrow> str ''missing '' | UnreachableObject \<Rightarrow> str ''unreachable ''
     | DanglingObject \<Rightarrow> str ''dangling '')"

definition verdict_line :: "run_env \<Rightarrow> run_state \<Rightarrow> (nat \<Rightarrow> bool) \<Rightarrow> nat \<Rightarrow> (oid \<times> bytes) option" where
  "verdict_line v s r i =
     (if verdict v s r i = Fine then None
      else Some (oid_of v s i, verdict_word (verdict v s r i) @ the (named_entry v i s)))"

definition report_lines :: "run_state \<Rightarrow> (oid \<times> bytes) list" where
  "report_lines s = map (\<lambda>m. (key_oid (msg_at m), msg_line m)) (report_msgs s)"

definition same_view :: "run_state \<Rightarrow> run_state \<Rightarrow> bool" where
  "same_view s s' \<longleftrightarrow> rs_table s' = rs_table s \<and> rs_opts s' = rs_opts s \<and> rs_fsck s' = rs_fsck s"

lemma same_view_verdict:
  assumes "same_view s s'"
  shows "verdict v s' r i = verdict v s r i" "verdict_line v s' r i = verdict_line v s r i" "marked s' = marked s"
    "named_entry v i s' = named_entry v i s"
proof -
  have e: "entry_at s' = entry_at s" "oid_of v s' = oid_of v s" "rs_table s' = rs_table s" "rs_fsck s' = rs_fsck s" "rs_opts s' = rs_opts s"
    using assms by (simp_all add: same_view_def fun_eq_iff entry_at_def oid_of_def)
  show n: "named_entry v i s' = named_entry v i s" for i by (simp only: named_entry_def printable_type_def shown_def e)
  show w: "verdict v s' r i = verdict v s r i" for i by (simp add: verdict_def present_def e)
  show "verdict_line v s' r i = verdict_line v s r i" by (simp add: verdict_line_def n w e)
  show "marked s' = marked s" by (simp add: marked_def e fun_eq_iff)
qed

lemma report_lines_out:
  "report_lines (out (report_key x) l s) = report_lines s @ [(x, l)]"
  "report_lines (add_status b s) = report_lines s" "report_lines (note_damaged x rooted s) = report_lines s"
  by (simp_all add: report_lines_def report_msgs_def out_def out_line_def add_line_def report_msg_def report_key_def
      conn_key_def at_phase_def add_status_def note_damaged_def Let_def)

lemma out_fields:
  "rs_table (out k l s) = rs_table s" "rs_opts (out k l s) = rs_opts s" "rs_fsck (out k l s) = rs_fsck s"
  "rs_damaged (out k l s) = rs_damaged s" "unreachable_bit (out k l s) = unreachable_bit s"
  "rs_table (add_status b s) = rs_table s" "rs_opts (add_status b s) = rs_opts s" "rs_fsck (add_status b s) = rs_fsck s"
  "rs_damaged (add_status b s) = rs_damaged s" "unreachable_bit (add_status error_reachable s)"
  by (simp_all add: out_def add_status_def unreachable_bit_def error_reachable_def bit.conj_disj_distrib2)

lemma damaged_fields:
  "rs_table (note_damaged x r s) = rs_table s" "rs_opts (note_damaged x r s) = rs_opts s"
  "rs_fsck (note_damaged x r s) = rs_fsck s" "unreachable_bit (note_damaged x r s) = unreachable_bit s"
  "ro_collect (rs_opts s) \<Longrightarrow> rs_damaged (note_damaged x r s) = rs_damaged s @ [(x, r)]"
  by (simp_all add: note_damaged_def unreachable_bit_def)

definition after_report :: "run_env \<Rightarrow> run_state \<Rightarrow> (nat \<Rightarrow> bool) \<Rightarrow> nat list \<Rightarrow> run_state \<Rightarrow> run_state \<Rightarrow> bool" where
  "after_report v s0 r is s s' \<longleftrightarrow> same_view s s' \<and>
     report_lines s' = report_lines s @ List.map_filter (verdict_line v s0 r) is \<and>
     (unreachable_bit s' \<longleftrightarrow> unreachable_bit s \<or> (\<exists>i \<in> set is. verdict v s0 r i = MissingObject)) \<and>
     (ro_collect (rs_opts s) \<longrightarrow>
        rs_damaged s' = rs_damaged s @ map (\<lambda>i. (oid_of v s0 i, True)) (filter (\<lambda>i. verdict v s0 r i = MissingObject) is))"

lemma check_one_report:
  assumes inv: "table_inv (rs_table s)" and lost: "\<not> ro_lost_found (rs_opts s)"
  shows "\<exists>s'. check_one_object v i s = Some s' \<and> after_report v s (marked s) [i] s s'"
proof -
  have "named_entry v i s \<noteq> None"
    using printable_returns [OF inv, of "oid_of v s i" "en_type (entry_at s i)"] by (auto simp: named_entry_def)
  then obtain l where l: "named_entry v i s = Some l" by blast
  show ?thesis
  proof (cases "verdict v s (marked s) i")
    case Fine
    then have "check_one_object v i s = Some s"
      using lost unfolding check_one_object_def check_reachable_object_def check_unreachable_object_def Let_def
        verdict_def present_def marked_def by (auto split: if_splits)
    with Fine show ?thesis
      by (simp add: after_report_def verdict_line_def same_view_def List.map_filter_simps)
  next
    case MissingObject
    then have "check_one_object v i s = Some (note_damaged (oid_of v s i) True
        (add_status error_reachable (out (report_key (oid_of v s i)) (str ''missing '' @ l) s)))"
      unfolding check_one_object_def check_reachable_object_def Let_def l verdict_def present_def marked_def
      by (auto split: if_splits)
    with MissingObject show ?thesis
      by (simp add: after_report_def verdict_line_def verdict_word_def same_view_def List.map_filter_simps l
          report_lines_out out_fields damaged_fields del: str_def)
  next
    case UnreachableObject
    then have "check_one_object v i s = Some (out (report_key (oid_of v s i)) (str ''unreachable '' @ l) s)"
      unfolding check_one_object_def check_unreachable_object_def Let_def l verdict_def present_def marked_def
      by (auto split: if_splits)
    with UnreachableObject show ?thesis
      by (simp add: after_report_def verdict_line_def verdict_word_def same_view_def List.map_filter_simps l
          report_lines_out out_fields del: str_def)
  next
    case DanglingObject
    then have "check_one_object v i s = Some (out (report_key (oid_of v s i)) (str ''dangling '' @ l) s)"
      using lost unfolding check_one_object_def check_unreachable_object_def Let_def l verdict_def present_def marked_def
      by (auto simp: out_fields split: if_splits)
    with DanglingObject show ?thesis
      by (simp add: after_report_def verdict_line_def verdict_word_def same_view_def List.map_filter_simps l
          report_lines_out out_fields del: str_def)
  qed
qed

lemma each_entry_report:
  assumes "table_inv (rs_table s0)" and "\<not> ro_lost_found (rs_opts s0)"
  shows "same_view s0 s \<Longrightarrow> \<exists>s'. each_entry (check_one_object v) is s = Some s' \<and> after_report v s0 (marked s0) is s s'"
proof (induction "is" arbitrary: s)
  case Nil
  then show ?case by (simp add: after_report_def same_view_def List.map_filter_simps)
next
  case (Cons i "is")
  have "table_inv (rs_table s)" "\<not> ro_lost_found (rs_opts s)" using Cons.prems assms by (simp_all add: same_view_def)
  from check_one_report [OF this] obtain s1 where s1: "check_one_object v i s = Some s1" "after_report v s (marked s) [i] s s1"
    by blast
  have v1: "same_view s0 s1" using s1(2) Cons.prems by (simp add: after_report_def same_view_def)
  from Cons.IH [OF v1] obtain s' where s': "each_entry (check_one_object v) is s1 = Some s'" "after_report v s0 (marked s0) is s1 s'"
    by blast
  have "oid_of v s i = oid_of v s0 i" using Cons.prems by (simp add: same_view_def oid_of_def entry_at_def)
  then have "after_report v s0 (marked s0) [i] s s1"
    using s1(2) same_view_verdict [OF Cons.prems] Cons.prems
    by (auto simp: after_report_def List.map_filter_simps split: option.splits)
  with s'(2) v1 Cons.prems have "after_report v s0 (marked s0) (i # is) s s'"
    by (auto simp: after_report_def same_view_def List.map_filter_simps split: option.splits)
  with s1(1) s'(1) show ?case by auto
qed

section \<open>The whole pass\<close>

text \<open>What the pass leaves, given the state it starts in.\<close>

definition connectivity_outcome :: "run_env \<Rightarrow> run_state \<Rightarrow> run_state \<Rightarrow> bool" where
  "connectivity_outcome v s s' \<longleftrightarrow>
     report_lines s' = report_lines s @ List.map_filter (verdict_line v s (reached s)) [0..<entry_count s] \<and>
     (unreachable_bit s' \<longleftrightarrow> unreachable_bit s \<or>
        (\<exists>i. reached s i \<and> present s i \<and> (\<exists>e \<in> set (graph_edges s i). \<not> edge_ok e)) \<or>
        (\<exists>i < entry_count s. verdict v s (reached s) i = MissingObject)) \<and>
     (ro_collect (rs_opts s) \<longrightarrow> rs_damaged s' = rs_damaged s @
        map (\<lambda>i. (oid_of v s i, True)) (filter (\<lambda>i. verdict v s (reached s) i = MissingObject) [0..<entry_count s]))"

lemma reached_view:
  assumes "same_view s s'"
  shows "reached s i \<longleftrightarrow> reached s' i" "entry_count s' = entry_count s" "walk_ready s' = walk_ready s"
    "roots_ok s' ps = roots_ok s ps" "present s' = present s" "graph_edges s' = graph_edges s" "oid_of v s' = oid_of v s"
proof -
  have e: "entry_count s' = entry_count s" "marked s' = marked s" "present s' = present s" "graph_edges s' = graph_edges s"
    "entry_at s' = entry_at s" "oid_of v s' = oid_of v s" "rs_table s' = rs_table s"
    using assms by (simp_all add: same_view_def entry_count_def marked_def present_def graph_edges_def entry_at_def oid_of_def fun_eq_iff)
  have "reached s' i" if "reached s i" for i
    using that by induction (use e reached.intros [where s = s'] in auto)
  moreover have "reached s i" if "reached s' i" for i
    using that by induction (use e reached.intros [where s = s] in auto)
  ultimately show "reached s i \<longleftrightarrow> reached s' i" by blast
  show "entry_count s' = entry_count s" "walk_ready s' = walk_ready s" "roots_ok s' ps = roots_ok s ps"
    "present s' = present s" "graph_edges s' = graph_edges s" "oid_of v s' = oid_of v s"
    by (simp_all add: e walk_ready_def entry_ready_def roots_ok_def)
qed

lemma same_graph_printable:
  assumes g: "same_graph s s1" and inv: "table_inv (rs_table s)"
  shows "printable_type s1 x t = printable_type s x t"
proof -
  have n: "length (ot_entries (rs_table s1)) = length (ot_entries (rs_table s))"
    using same_graph_basic [OF g] by (simp add: entry_count_def)
  have "map en_hash (ot_entries (rs_table s1)) = map en_hash (ot_entries (rs_table s))"
    using same_graphD(1) [OF g] n by (intro nth_equalityI) (simp_all add: entry_at_def entry_count_def)
  then have idx: "entry_index (ot_entries (rs_table s1)) (oid_h x) = entry_index (ot_entries (rs_table s)) (oid_h x)"
    by (simp add: entry_index_def)
  have "en_type (entry_at s1 i) = en_type (entry_at s i)" if "entry_index (ot_entries (rs_table s)) (oid_h x) = Some i" for i
    using entry_index_Some [OF that] same_graphD(2) [OF g] by (simp add: entry_count_def)
  then show ?thesis
    using table_get_exact [OF inv] table_get_exact [OF same_graph_basic(2) [OF g]] idx
    by (simp add: printable_type_def split: option.splits)
qed

lemma same_graph_verdict:
  assumes g: "same_graph s s1" and inv: "table_inv (rs_table s)" and i: "i < entry_count s" and r: "r i = r' i"
  shows "verdict v s1 r i = verdict v s r' i" "verdict_line v s1 r i = verdict_line v s r' i" "oid_of v s1 i = oid_of v s i"
proof -
  show o: "oid_of v s1 i = oid_of v s i" using same_graphD(1) [OF g i] by (simp add: oid_of_def obj_oid_def)
  have "rs_opts s1 = rs_opts s" using g by (simp add: same_graph_def)
  with o r show w: "verdict v s1 r i = verdict v s r' i" using same_graphD(3,6) [OF g i] by (simp add: verdict_def)
  have "rs_fsck s1 = rs_fsck s" using g by (simp add: same_graph_def)
  then have "named_entry v i s1 = named_entry v i s"
    using same_graph_printable [OF g inv] same_graphD(2) [OF g i] o by (simp add: named_entry_def shown_def)
  with w o show "verdict_line v s1 r i = verdict_line v s r' i" by (simp add: verdict_line_def)
qed

lemma map_filter_cong: "(\<And>x. x \<in> set xs \<Longrightarrow> f x = g x) \<Longrightarrow> List.map_filter f xs = List.map_filter g xs"
  by (induction xs) (auto split: option.splits)

lemma not_held:
  assumes "wf_algo (env_algo v)" and "\<not> db_has (re_db v) (oid_of v s i)"
  shows "\<not> has_packed (re_db v) (oid_of v s i)"
proof -
  have "valid_oid (oid_of v s i)"
    using wf_algo_sizes [OF assms(1)] by (simp add: valid_oid_def oid_of_def obj_oid_def)
  then show ?thesis using assms(2) by (auto simp: db_has_def db_find_def has_packed_def split: option.splits)
qed

lemma report_after_walk:
  assumes ready: "walk_ready s" and wf: "wf_algo (env_algo v)" and plain: "\<not> ro_connectivity (rs_opts s)" "\<not> ro_lost_found (rs_opts s)"
    and inv: "walk_inv v s {#} s1"
  shows "\<exists>s'. report_objects v s1 = Some s' \<and> connectivity_outcome v s s'"
proof -
  note fin = walk_finished [OF ready inv]
  have t: "table_inv (rs_table s)" using ready by (simp add: walk_ready_def)
  have same: "rs_opts s1 = rs_opts s" "report_msgs s1 = report_msgs s" "rs_damaged s1 = rs_damaged s" "entry_count s1 = entry_count s"
    using fin(1) by (simp_all add: same_graph_def)
  let ?n = "entry_count s"
  have "\<not> ro_lost_found (rs_opts s1)" using plain same by simp
  from each_entry_report [OF same_graph_basic(2) [OF fin(1)] this, of s1 v "[0..<?n]"] obtain s' where
    s': "each_entry (check_one_object v) [0..<?n] s1 = Some s'" "after_report v s1 (marked s1) [0..<?n] s1 s'"
    by (auto simp: same_view_def)
  have run: "report_objects v s1 = Some s'"
    using s'(1) plain same by (simp add: report_objects_def entry_count_def)
  have v: "verdict v s1 (marked s1) i = verdict v s (reached s) i" "verdict_line v s1 (marked s1) i = verdict_line v s (reached s) i"
    "oid_of v s1 i = oid_of v s i" if "i < ?n" for i
    using same_graph_verdict [OF fin(1) t that, of "marked s1" "reached s" v] fin(2) [OF that] by blast+
  have lines: "List.map_filter (verdict_line v s1 (marked s1)) [0..<?n] = List.map_filter (verdict_line v s (reached s)) [0..<?n]"
    by (rule map_filter_cong) (simp add: v(2))
  have lost: "map (\<lambda>i. (oid_of v s1 i, True)) (filter (\<lambda>i. verdict v s1 (marked s1) i = MissingObject) [0..<?n]) =
      map (\<lambda>i. (oid_of v s i, True)) (filter (\<lambda>i. verdict v s (reached s) i = MissingObject) [0..<?n])"
    using v(1,3) by (intro map_cong filter_cong) auto
  have hit: "\<exists>i < ?n. verdict v s (reached s) i = MissingObject"
    if "reached s j" "\<not> present s j" "\<not> db_has (re_db v) (oid_of v s j)" for j
    using reached_lt [OF that(1) ready] not_held [OF wf that(3)] that(1,2) by (auto simp: verdict_def)
  have "unreachable_bit s' \<longleftrightarrow> unreachable_bit s1 \<or> (\<exists>i < ?n. verdict v s (reached s) i = MissingObject)"
    using s'(2) v(1) by (auto simp: after_report_def)
  then have "unreachable_bit s' \<longleftrightarrow> unreachable_bit s \<or>
        (\<exists>i. reached s i \<and> present s i \<and> (\<exists>e \<in> set (graph_edges s i). \<not> edge_ok e)) \<or>
        (\<exists>i < ?n. verdict v s (reached s) i = MissingObject)"
    using fin(3,4) hit unfolding broken_walk_def by blast
  then have "connectivity_outcome v s s'"
    using s'(2) lines lost same unfolding connectivity_outcome_def after_report_def report_lines_def by simp
  with run show ?thesis by blast
qed

lemma connectivity_runs:
  assumes "walk_ready s" and "roots_ok s (rs_pending s)" and "wf_algo (env_algo v)"
    and "\<not> ro_connectivity (rs_opts s)" and "\<not> ro_lost_found (rs_opts s)"
  shows "\<exists>bound. \<forall>k T s1. (walk_step v ^^ k) (mset (map Visit (rs_pending s)), s\<lparr>rs_pending := []\<rparr>) (T, s1) \<longrightarrow>
      k \<le> bound \<and> (T \<noteq> {#} \<longrightarrow> (\<exists>c. walk_step v (T, s1) c)) \<and>
      (T = {#} \<longrightarrow> (\<forall>i < entry_count s. marked s1 i \<longleftrightarrow> reached s i) \<and>
        (\<exists>s'. report_objects v s1 = Some s' \<and> connectivity_outcome v s s'))"
    and "\<exists>s'. check_connectivity v s = Some s' \<and> connectivity_outcome v s s'"
proof -
  let ?s = "s\<lparr>rs_pending := []\<rparr>" and ?T = "mset (map Visit (rs_pending s))"
  have view: "same_view s ?s" by (simp add: same_view_def)
  note rv = reached_view [OF view]
  have ready: "walk_ready ?s" and inv: "walk_inv v ?s ?T ?s"
    using assms(1,2) rv(3,4) walk_start by blast+
  have same: "connectivity_outcome v ?s s' = connectivity_outcome v s s'" for s'
  proof -
    have e: "reached ?s = reached s" "verdict v ?s = verdict v s" "verdict_line v ?s = verdict_line v s"
      using rv(1) same_view_verdict(1,2) [OF view] by (intro ext; simp)+
    show ?thesis
      unfolding connectivity_outcome_def e rv(2,5-7) by (simp add: report_lines_def report_msgs_def unreachable_bit_def)
  qed
  have done_walk: "(\<forall>i < entry_count s. marked s1 i \<longleftrightarrow> reached s i) \<and>
      (\<exists>s'. report_objects v s1 = Some s' \<and> connectivity_outcome v s s')" if "walk_inv v ?s {#} s1" for s1
    using report_after_walk [OF ready assms(3) _ _ that] assms(4,5) walk_finished(2) [OF ready that] rv(1,2) same by simp
  have "k \<le> walk_weight ?s ?T ?s \<and> (T \<noteq> {#} \<longrightarrow> (\<exists>c. walk_step v (T, s1) c)) \<and>
      (T = {#} \<longrightarrow> (\<forall>i < entry_count s. marked s1 i \<longleftrightarrow> reached s i) \<and>
        (\<exists>s'. report_objects v s1 = Some s' \<and> connectivity_outcome v s s'))"
    if "(walk_step v ^^ k) (?T, ?s) (T, s1)" for k T s1
    using walk_steps_inv [OF ready inv that] walk_progress [OF ready] done_walk by auto
  then show "\<exists>bound. \<forall>k T s1. (walk_step v ^^ k) (?T, ?s) (T, s1) \<longrightarrow>
      k \<le> bound \<and> (T \<noteq> {#} \<longrightarrow> (\<exists>c. walk_step v (T, s1) c)) \<and>
      (T = {#} \<longrightarrow> (\<forall>i < entry_count s. marked s1 i \<longleftrightarrow> reached s i) \<and>
        (\<exists>s'. report_objects v s1 = Some s' \<and> connectivity_outcome v s s'))"
    by blast
  obtain s1 where s1: "traverse_loop v (rs_pending s) ?s = Some s1" "(walk_step v)\<^sup>*\<^sup>* (?T, ?s) ({#}, s1)"
    using traverse_loop_steps [OF ready inv] by blast
  then obtain k where "(walk_step v ^^ k) (?T, ?s) ({#}, s1)" using rtranclp_power by metis
  from walk_steps_inv [OF ready inv this] have "walk_inv v ?s {#} s1" by simp
  from done_walk [OF this] s1(1) show "\<exists>s'. check_connectivity v s = Some s' \<and> connectivity_outcome v s s'"
    by (auto simp: check_connectivity_def traverse_reachable_def)
qed

text \<open>C4: The connectivity pass. However the workers share the walk it ends after a bounded number of steps, no worker
  is ever stuck, and at its end exactly the entries are marked that a path of edges through present objects
  leads to from a root. The reports then say missing of exactly the reached entries with no object and in no
  pack, and unreachable or dangling of exactly the unreached ones the options ask for; the status bit for
  unreachable objects is set exactly when an object is missing or a link of a reached object was refused.
  The loop of a single worker is one of these walks.\<close>

theorem connectivity_exact:
  assumes "walk_ready s" and "roots_ok s (rs_pending s)" and "wf_algo (env_algo v)"
    and "\<not> ro_connectivity (rs_opts s)" and "\<not> ro_lost_found (rs_opts s)"
  shows "(\<exists>bound. \<forall>k T s1. (walk_step v ^^ k) (mset (map Visit (rs_pending s)), s\<lparr>rs_pending := []\<rparr>) (T, s1) \<longrightarrow>
      k \<le> bound \<and> (T \<noteq> {#} \<longrightarrow> (\<exists>c. walk_step v (T, s1) c)) \<and>
      (T = {#} \<longrightarrow> (\<forall>i < entry_count s. marked s1 i \<longleftrightarrow> reached s i) \<and>
        (\<exists>s'. report_objects v s1 = Some s' \<and> connectivity_outcome v s s'))) \<and>
    (\<exists>s'. check_connectivity v s = Some s' \<and> connectivity_outcome v s s')"
  using connectivity_runs [OF assms] by blast

section \<open>A small repository\<close>

text \<open>A tree that is a root, the blob it names, which is missing, and a blob nothing names.\<close>

definition demo_hash :: "byte \<Rightarrow> bytes" where
  "demo_hash c = replicate 20 c @ replicate 12 0"

definition demo_entry :: "byte \<Rightarrow> obj_type \<Rightarrow> nat \<Rightarrow> 32 word \<Rightarrow> obj_entry" where
  "demo_entry c t n fl = \<lparr>en_ref = 0, en_len = word_of_nat n, en_meta = push_bit 8 fl OR ucast (word_of_int t :: 8 word), en_hash = demo_hash c\<rparr>"

definition demo_lookups :: "(bytes \<times> obj_type) list" where
  "demo_lookups = [(demo_hash 1, TypeTree), (demo_hash 2, TypeBlob), (demo_hash 3, TypeBlob)]"

definition demo_table :: obj_table where
  "demo_table = set_entry 0 (demo_entry 1 TypeTree 1 21) (set_entry 1 (demo_entry 2 TypeBlob 0 0)
     (set_entry 2 (demo_entry 3 TypeBlob 0 4) (fst (the (run_lookups table_lookup (new_obj_table 2 0) demo_lookups)))))
     \<lparr>ot_arena := \<lparr>ar_slabs = [[1]], ar_pool = []\<rparr>\<rparr>"

definition demo_state :: run_state where
  "demo_state = \<lparr>rs_opts = default_options, rs_table = demo_table, rs_db = fresh_state,
     rs_fsck = new_options (sha1_algo (\<lambda>m. replicate 20 0)), rs_rep = new_reporter, rs_status = 0, rs_heads = 1,
     rs_fatal = [], rs_pending = [0], rs_damaged = [], rs_partial = False, rs_lost = Map.empty\<rparr>"

definition demo_algo20 :: algo where
  "demo_algo20 = sha1_algo (\<lambda>m. replicate 20 0)"

definition demo_walk :: walk_env where
  "demo_walk = \<lparr>we_pack = empty_pack demo_algo20 [] [],
     we_layout = build_layout (empty_pack demo_algo20 [] []), we_inflate = \<lambda>a b. None,
     we_copy = \<lambda>a b. None, we_threshold = 0, we_others = \<lambda>n. 0\<rparr>"

definition demo_env :: run_env where
  "demo_env = \<lparr>re_db = \<lparr>db_algo = demo_algo20, db_packs = [], db_loose = [], db_inflate = \<lambda>k off n. None\<rparr>,
     re_repo = \<lparr>rp_algo = demo_algo20, rp_common = [], rp_shown = []\<rparr>, re_pack_path = \<lambda>k. [],
     re_git_dir = [], re_creates = \<lambda>p. True, re_dirs = [], re_threshold = 0, re_errno = \<lambda>p. [], re_verify = \<lambda>k. demo_walk,
     re_crc = \<lambda>b. 0, re_pack_file = \<lambda>k. None, re_norm = \<lparr>nf_is_normal = \<lambda>b. True, nf_bytes = \<lambda>b. b\<rparr>, re_pick = \<lambda>a. None, re_files = Map.empty,
     re_ref_walk = \<lambda>p. [], re_log_walk = \<lambda>p. [], re_worktrees = None, re_index_file = \<lambda>p. NoFile, re_shown = \<lambda>p. [],
     re_ref_files = \<lparr>walked = \<lambda>p. [], listed = \<lambda>p. [], kind_at = \<lambda>p. None, link_at = \<lambda>p. None\<rparr>,
     re_stored = \<lambda>p. NoFile, re_regular = \<lambda>p. False, re_pack_os = \<lambda>k. [], re_config = []\<rparr>"

lemma table_inv_arena: "table_inv (t\<lparr>ot_arena := a\<rparr>) = table_inv t"
proof -
  have n: "shard_no (t\<lparr>ot_arena := a\<rparr>) = shard_no t" by (simp add: shard_no_def fun_eq_iff)
  have "entry_indexed (t\<lparr>ot_arena := a\<rparr>) i = entry_indexed t i" for i by (simp add: entry_indexed_def n)
  then show ?thesis unfolding table_inv_def n by simp
qed

lemma demo_table_inv: "table_inv demo_table \<and> ot_entries demo_table =
    [demo_entry 1 TypeTree 1 21, demo_entry 2 TypeBlob 0 0, demo_entry 3 TypeBlob 0 4]"
proof -
  have d: "demo_hash 1 \<noteq> demo_hash 2" "demo_hash 1 \<noteq> demo_hash 3" "demo_hash 2 \<noteq> demo_hash 3"
    by (simp_all add: demo_hash_def)
  have "length (ot_entries (new_obj_table 2 0)) + length demo_lookups \<le> max_objects"
    by (simp add: new_obj_table_def Let_def demo_lookups_def max_objects_def)
  from table.run_lookups_exact [OF new_table_inv this] obtain t rs where
    t: "run_lookups table_lookup (new_obj_table 2 0) demo_lookups = Some (t, rs)" "table_inv t"
    "map en_hash (ot_entries t) = fold note_name (map fst demo_lookups) (map en_hash (ot_entries (new_obj_table 2 0)))"
    by blast
  have "map en_hash (ot_entries t) = [demo_hash 1, demo_hash 2, demo_hash 3]"
    unfolding t(3) using d by (simp add: demo_lookups_def note_name_def new_obj_table_def Let_def)
  then obtain a b c where es: "ot_entries t = [a, b, c]" "en_hash a = demo_hash 1" "en_hash b = demo_hash 2" "en_hash c = demo_hash 3"
    by (auto simp: map_eq_Cons_conv)
  let ?t2 = "set_entry 2 (demo_entry 3 TypeBlob 0 4) t"
  let ?t1 = "set_entry 1 (demo_entry 2 TypeBlob 0 0) ?t2"
  let ?t0 = "set_entry 0 (demo_entry 1 TypeTree 1 21) ?t1"
  have "table_inv ?t2" by (rule table_inv_set_entry [OF t(2)]) (simp add: es demo_entry_def)
  then have "table_inv ?t1" by (rule table_inv_set_entry) (simp add: es demo_entry_def set_entry_def)
  then have "table_inv ?t0" by (rule table_inv_set_entry) (simp add: es demo_entry_def set_entry_def)
  then have "table_inv (?t0\<lparr>ot_arena := \<lparr>ar_slabs = [[1]], ar_pool = []\<rparr>\<rparr>)"
    by (simp only: table_inv_arena)
  then show ?thesis
    unfolding demo_table_def t(1) option.sel fst_conv by (simp add: set_entry_def es numeral_2_eq_2)
qed

lemma demo_fields:
  "rs_table demo_state = demo_table" "rs_opts demo_state = default_options" "rs_pending demo_state = [0]"
  "rs_damaged demo_state = []" "rs_status demo_state = 0" "report_lines demo_state = []"
  "rs_fsck demo_state = new_options (sha1_algo (\<lambda>m. replicate 20 0))"
  by (simp_all add: demo_state_def report_lines_def report_msgs_def new_reporter_def)

lemma demo_arena: "ot_arena demo_table = \<lparr>ar_slabs = [[1]], ar_pool = []\<rparr>"
  by (simp add: demo_table_def)

lemma demo_entries:
  "entry_count demo_state = 3" "entry_at demo_state 0 = demo_entry 1 TypeTree 1 21"
  "entry_at demo_state 1 = demo_entry 2 TypeBlob 0 0" "entry_at demo_state 2 = demo_entry 3 TypeBlob 0 4"
  using demo_table_inv by (simp_all add: entry_count_def entry_at_def demo_fields numeral_2_eq_2)

lemma demo_marks:
  "present demo_state 0" "\<not> present demo_state 1" "present demo_state 2"
  "marked demo_state 0" "\<not> marked demo_state 1" "\<not> marked demo_state 2"
  by (simp_all add: present_def marked_def demo_entries demo_entry_def has_flag_def flags_def flag_has_obj_def flag_reachable_def
      demo_entries(3) [unfolded One_nat_def])

lemma demo_graph: "graph_edges demo_state 0 = [1]" "en_type (entry_at demo_state 0) = TypeTree"
  "en_type (entry_at demo_state 1) = TypeBlob" "en_type (entry_at demo_state 2) = TypeBlob"
  by (simp_all add: graph_edges_def demo_entries demo_entry_def en_type_def table_edges_def flags_def flag_walked_def
      arena_at_def span_pos_def span_slab_def demo_fields demo_arena demo_entries(3) [unfolded One_nat_def])

lemma demo_reached: "reached demo_state i \<longleftrightarrow> i \<in> {0, 1}"
proof
  assume "reached demo_state i"
  then show "i \<in> {0, 1}"
  proof induction
    case (root i)
    then have "i = 0 \<or> i = 1 \<or> i = 2" by (auto simp: demo_entries)
    then show ?case using root(2) demo_marks by auto
  next
    case (edge i e)
    then show ?case using demo_marks(2) demo_graph(1) by auto
  qed
next
  have "reached demo_state 0" by (rule reached.root) (simp_all add: demo_entries demo_marks)
  moreover from reached.edge [OF this demo_marks(1), of 1] have "reached demo_state 1"
    by (simp add: demo_graph edge_ok_def edge_unresolved_def)
  ultimately show "i \<in> {0, 1} \<Longrightarrow> reached demo_state i" by auto
qed

lemma demo_ready: "walk_ready demo_state" "roots_ok demo_state (rs_pending demo_state)"
proof -
  have three: "i < 3 \<longleftrightarrow> i = 0 \<or> i = 1 \<or> i = 2" for i :: nat by auto
  have "table_edges (rs_table demo_state) (entry_at demo_state 0) \<noteq> None"
    by (simp add: table_edges_def demo_entries demo_entry_def flags_def flag_walked_def)
  moreover have "graph_edges demo_state 2 = []" by (simp add: graph_edges_def demo_graph)
  ultimately show "walk_ready demo_state"
    using demo_table_inv demo_marks demo_graph demo_entries(1)
    by (auto simp: walk_ready_def three entry_ready_def demo_fields)
  show "roots_ok demo_state (rs_pending demo_state)"
    using demo_marks by (auto simp: roots_ok_def demo_entries three demo_fields)
qed

theorem connectivity_exact_witness:
  "\<exists>s'. check_connectivity demo_env demo_state = Some s' \<and> unreachable_bit s' \<and>
    report_lines s' = [(\<lparr>oid_h = demo_hash 2, oid_n = 20\<rparr>, str ''missing blob '' @ hex_encode (replicate 20 2)),
      (\<lparr>oid_h = demo_hash 3, oid_n = 20\<rparr>, str ''dangling blob '' @ hex_encode (replicate 20 3))]"
proof -
  have wf: "wf_algo (env_algo demo_env)" using wf_sha1 by (simp add: demo_env_def env_algo_def demo_algo20_def)
  have opts: "\<not> ro_connectivity (rs_opts demo_state)" "\<not> ro_lost_found (rs_opts demo_state)"
    by (simp_all add: demo_fields default_options_def)
  from connectivity_exact [OF demo_ready wf opts] obtain s' where
    s': "check_connectivity demo_env demo_state = Some s'" "connectivity_outcome demo_env demo_state s'" by blast
  have oids: "oid_of demo_env demo_state 1 = \<lparr>oid_h = demo_hash 2, oid_n = 20\<rparr>"
    "oid_of demo_env demo_state 2 = \<lparr>oid_h = demo_hash 3, oid_n = 20\<rparr>"
    by (simp_all add: oid_of_def obj_oid_def demo_entries(3,4) demo_entry_def env_algo_def demo_env_def demo_algo20_def sha1_algo_def del: One_nat_def)
  have v: "verdict demo_env demo_state (reached demo_state) 0 = Fine"
    "verdict demo_env demo_state (reached demo_state) 1 = MissingObject"
    "verdict demo_env demo_state (reached demo_state) 2 = DanglingObject"
    using demo_marks demo_reached opts
    by (simp_all add: verdict_def demo_entries demo_entry_def has_flag_def flags_def flag_used_def demo_env_def
        has_packed_def demo_fields default_options_def)
  have "verdict_line demo_env demo_state (reached demo_state) 0 = None" by (simp add: verdict_line_def v)
  moreover have "verdict_line demo_env demo_state (reached demo_state) 1 =
      Some (\<lparr>oid_h = demo_hash 2, oid_n = 20\<rparr>, str ''missing blob '' @ hex_encode (replicate 20 2))"
    unfolding verdict_line_def v oids verdict_word_def named_entry_def demo_graph
    by (simp add: printable_type_def type_name_def shown_def demo_fields describe_def object_name_def new_options_def oid_string_def demo_hash_def)
  moreover have "verdict_line demo_env demo_state (reached demo_state) 2 =
      Some (\<lparr>oid_h = demo_hash 3, oid_n = 20\<rparr>, str ''dangling blob '' @ hex_encode (replicate 20 3))"
    unfolding verdict_line_def v oids verdict_word_def named_entry_def demo_graph
    by (simp add: printable_type_def type_name_def shown_def demo_fields describe_def object_name_def new_options_def oid_string_def demo_hash_def)
  moreover have "[0..<entry_count demo_state] = [0, 1, 2]" by (simp add: demo_entries upt_rec)
  ultimately have "report_lines s' = [(\<lparr>oid_h = demo_hash 2, oid_n = 20\<rparr>, str ''missing blob '' @ hex_encode (replicate 20 2)),
      (\<lparr>oid_h = demo_hash 3, oid_n = 20\<rparr>, str ''dangling blob '' @ hex_encode (replicate 20 3))]"
    using s'(2) by (simp add: connectivity_outcome_def demo_fields List.map_filter_simps del: str_def hex_encode.simps)
  moreover have "unreachable_bit s'"
    using s'(2) v(2) unfolding connectivity_outcome_def demo_entries(1) by force
  ultimately show ?thesis using s'(1) by blast
qed

end
