(* ===== verification/ObjectPass.thy ===== *)
theory ObjectPass
  imports RunState
begin

text \<open>
  The object pass: \<open>internal/fsckcmd/objects.go\<close> and the check of one object in
  \<open>internal/fsckcmd/objcheck.go\<close>. Every object is one step; the directory listings, the loose files and
  the walk of a pack come from the environment. Progress and verbose lines are left out.
\<close>

section \<open>One object\<close>

text \<open>\<open>Object\<close> of \<open>internal/fsck/object.go\<close>; no contents are a blob too large to hold.\<close>

definition contents :: "bytes option \<Rightarrow> bytes" where
  "contents buf = (case buf of None \<Rightarrow> [] | Some b \<Rightarrow> b)"

definition fsck_object :: "normalizer \<Rightarrow> oid \<Rightarrow> obj_type \<Rightarrow> bytes option \<Rightarrow> options \<Rightarrow> options \<times> int" where
  "fsck_object nf x t buf q =
     (if t = TypeBlob then check_blob q x buf
      else if t = TypeTree then check_tree nf q x (contents buf)
      else if t = TypeCommit then check_commit q x (contents buf)
      else if t = TypeTag then check_tag q x (contents buf)
      else report q x t MsgUnknownType (str ''unknown type '' @ [39] @ dec_int t @ [39] @ str '' (internal fsck error)''))"

text \<open>The loop both \<open>treeEdges\<close> and \<open>checkObject\<close> have: each target is looked up with the type the link
  implies and marked used; a refused one makes the object broken.\<close>

fun resolve_links :: "(oid \<times> obj_type) list \<Rightarrow> run_state \<Rightarrow> (edge list \<times> bool \<times> run_state) option" where
  "resolve_links [] s = Some ([], False, s)"
| "resolve_links ((x, t) # ls) s =
     do {
       (target, s1) \<leftarrow> run_lookup x t s;
       let s2 = (case target of None \<Rightarrow> s1 | Some i \<Rightarrow> snd (flag_entry flag_used i s1));
       (es, broken, s3) \<leftarrow> resolve_links ls s2;
       Some (make_edge (word_of_nat (case target of None \<Rightarrow> 0 | Some i \<Rightarrow> i)) (target \<noteq> None) t # es, broken \<or> target = None, s3)
     }"

text \<open>The room for the edges is taken before they are resolved, and they are written into it.\<close>

definition alloc_edges :: "run_env \<Rightarrow> nat \<Rightarrow> run_state \<Rightarrow> edge_span \<times> run_state" where
  "alloc_edges v n s =
     (case arena_alloc (re_pick v (ot_arena (rs_table s))) n (ot_arena (rs_table s)) of
        (span, a) \<Rightarrow> (span, s\<lparr>rs_table := (rs_table s)\<lparr>ot_arena := a\<rparr>\<rparr>))"

definition write_edges :: "edge_span \<Rightarrow> edge list \<Rightarrow> run_state \<Rightarrow> run_state" where
  "write_edges span es s = s\<lparr>rs_table := (rs_table s)\<lparr>ot_arena := arena_write span es (ot_arena (rs_table s))\<rparr>\<rparr>"

definition link_edges :: "run_env \<Rightarrow> nat \<Rightarrow> (oid \<times> obj_type) list \<Rightarrow> run_state \<Rightarrow> (edge_span \<times> edge list \<times> bool \<times> run_state) option" where
  "link_edges v room ls s =
     do {
       let (span, s1) = alloc_edges v room s;
       (es, broken, s2) \<leftarrow> resolve_links ls s1;
       Some (span, es, broken, write_edges span es s2)
     }"

definition tree_targets :: "tree_entry list \<Rightarrow> (oid \<times> obj_type) list" where
  "tree_targets entries =
     List.map_filter (\<lambda>e. case walk_kind e of (t, follow) \<Rightarrow> if follow then Some (te_oid e, t) else None) entries"

definition tree_edges :: "run_env \<Rightarrow> tree_entry list \<Rightarrow> run_state \<Rightarrow> (edge_span \<times> edge list \<times> bool \<times> run_state) option" where
  "tree_edges v entries s = link_edges v (length entries) (tree_targets entries) s"

definition record_edges :: "nat \<Rightarrow> edge_span \<Rightarrow> nat \<Rightarrow> run_state \<Rightarrow> run_state" where
  "record_edges i span n s =
     (if ro_names (rs_opts s) then s else update_entry i (set_edges (span\<lparr>sp_n := word_of_nat n\<rparr>)) s)"

definition broken_links :: "msg_key \<Rightarrow> oid \<Rightarrow> bool \<Rightarrow> run_state \<Rightarrow> run_state option" where
  "broken_links k x broken s = (if broken then obj_error k x (str ''broken links'') s else Some s)"

text \<open>The lines \<open>--root\<close> and \<open>--tags\<close> add. The tag is checked a second time for its fields.\<close>

definition extra_lines :: "msg_key \<Rightarrow> oid \<Rightarrow> obj_type \<Rightarrow> bytes option \<Rightarrow> nat \<Rightarrow> run_state \<Rightarrow> run_state option" where
  "extra_lines k x t buf n s =
     do {
       let s1 = (if t = TypeCommit \<and> ro_show_root (rs_opts s) \<and> n = 1 then out k (str ''root '' @ shown s x) s else s);
       if t = TypeTag \<and> ro_show_tags (rs_opts s1) then
         (case tag_with_info (rs_fsck s1) x (contents buf) of
            (q, r, info) \<Rightarrow> do {
              (ret, s2) \<leftarrow> run_check k (\<lambda>_. (q, r)) s1;
              if valid_oid (tag_object info) then do {
                ty \<leftarrow> printable_type s2 (tag_object info) (tag_target info);
                Some (out k (str ''tagged '' @ ty @ str '' '' @ shown s2 (tag_object info) @ str '' ('' @ tag_label info @
                  str '') in '' @ shown s2 x) s2)
              } else Some s2
            })
       else Some s1
     }"

definition check_object :: "run_env \<Rightarrow> msg_key \<Rightarrow> nat \<Rightarrow> obj_type \<Rightarrow> bytes option \<Rightarrow> run_state \<Rightarrow> run_state option" where
  "check_object v k i t buf s =
     (let x = oid_of v s i; (old, s1) = flag_entry flag_seen i s in
      if old then Some s1
      else if t = TypeTree then
        (case parse_tree (contents buf) (env_algo v) of
           (entries, bad) \<Rightarrow> do {
             (span, es, broken, s2) \<leftarrow> tree_edges v entries s1;
             (ret, s3) \<leftarrow> run_check k (\<lambda>q. tree_entries (re_norm v) q x entries bad) s2;
             s4 \<leftarrow> broken_links k x broken (record_edges i span (length es) s3);
             if ret \<noteq> 0 then Some s4 else extra_lines k x t buf (length es) s4
           })
      else do {
        let ls = fst (walk_links t x (contents buf) (env_algo v) (object_name (rs_fsck s1) x) (ro_names (rs_opts s1)));
        (span, es, broken, s2) \<leftarrow> link_edges v (length ls) (map (\<lambda>l. (ln_oid l, ln_type l)) ls) s1;
        s3 \<leftarrow> broken_links k x broken (record_edges i span (length es) s2);
        (ret, s4) \<leftarrow> run_check k (fsck_object (re_norm v) x t buf) s3;
        if ret \<noteq> 0 then Some s4 else extra_lines k x t buf (length ls) s4
      })"

text \<open>\<open>parsable\<close>, with the errors it prints.\<close>

definition parsable :: "run_env \<Rightarrow> msg_key \<Rightarrow> oid \<Rightarrow> obj_type \<Rightarrow> bytes option \<Rightarrow> run_state \<Rightarrow> bool \<times> run_state" where
  "parsable v k x t buf s =
     (if t = TypeCommit \<or> t = TypeTag then
        (let errs = snd (walk_links t x (contents buf) (env_algo v) [] False)
         in (errs = [], fold (\<lambda>m. err k (str ''error: '' @ m)) errs s))
      else (True, s))"

text \<open>An object that was read: both a loose file and a pack entry end here. \<open>refusal\<close> is the line for one
  that is refused.\<close>

definition take_object ::
    "run_env \<Rightarrow> msg_key \<Rightarrow> oid \<Rightarrow> obj_type \<Rightarrow> bytes option \<Rightarrow> bytes \<Rightarrow> run_state \<Rightarrow> run_state option" where
  "take_object v k x t buf refusal s =
     do {
       (target, s1) \<leftarrow> run_lookup x t s;
       case target of
         None \<Rightarrow> Some (err k refusal (add_status error_object s1))
       | Some i \<Rightarrow>
           (case parsable v k x t buf s1 of
              (ok, s2) \<Rightarrow>
                if \<not> ok then Some (err k refusal (add_status error_object s2))
                else check_object v k i t buf
                  (snd (flag_entry flag_has_obj i (update_entry i (clear_flags (flag_reachable OR flag_seen)) s2))))
     }"

section \<open>Loose objects\<close>

definition loose_key :: "nat \<Rightarrow> oid \<Rightarrow> msg_key" where
  "loose_key dirno x = (at_phase phase_objects)\<lparr>key_group := int dirno, key_oid := x\<rparr>"

definition loose_error_text :: "run_env \<Rightarrow> bytes \<Rightarrow> oid \<Rightarrow> loose_error \<Rightarrow> bytes" where
  "loose_error_text v path x e =
     (case e of
        ZlibSays m \<Rightarrow> m
      | UnpackHeader \<Rightarrow> str ''unable to unpack header of '' @ path
      | ParseHeader \<Rightarrow> str ''unable to parse header of '' @ path
      | ParseType h \<Rightarrow> str ''unable to parse type from header '' @ [39] @ h @ [39] @ str '' of '' @ path
      | UnpackContents \<Rightarrow> str ''unable to unpack contents of '' @ path
      | CorruptLoose y \<Rightarrow> str ''corrupt loose object '' @ [39] @ oid_string y @ [39]
      | GarbageAtEnd y \<Rightarrow> str ''garbage at end of loose object '' @ [39] @ oid_string y @ [39]
      | LooseHashMismatch y \<Rightarrow> str ''hash mismatch for '' @ path @ str '' (expected '' @ oid_string y @ str '')''
      | UnableToMmap \<Rightarrow> str ''unable to mmap '' @ path @ str '': '' @ re_errno v path)"

definition check_loose_object :: "run_env \<Rightarrow> nat \<Rightarrow> oid \<Rightarrow> loose_file \<Rightarrow> bytes \<Rightarrow> run_state \<Rightarrow> run_state option" where
  "check_loose_object v dirno x f path s =
     (let k = loose_key dirno x;
          res = read_loose (env_algo v) f x (re_threshold v);
          s1 = fold (\<lambda>e. err k (str ''error: '' @ loose_error_text v path x e)) (lr_errors res) s in
      if lr_failed res then
        (let s2 = (if lr_mismatch res then
                     err k (str ''error: '' @ oid_string (case lr_real res of None \<Rightarrow> zero_oid | Some y \<Rightarrow> y) @
                       str '': hash-path mismatch, found at: '' @ path) s1
                   else if lr_errors res \<noteq> [] \<or> lr_contents res = None then
                     err k (str ''error: '' @ oid_string x @ str '': object corrupt or missing: '' @ path) s1
                   else s1)
         in Some (note_damaged x False (add_status error_object s2)))
      else take_object v k x (lr_type res) (lr_contents res)
        (str ''error: '' @ oid_string x @ str '': object could not be parsed: '' @ path) s1)"

text \<open>The files of one fanout directory: objects by name, and what is not one.\<close>

datatype loose_name = LooseObject oid bytes | LooseCruft bytes

definition loose_names :: "run_env \<Rightarrow> object_dir \<Rightarrow> nat \<Rightarrow> loose_name list" where
  "loose_names v d i =
     (let sub = hex_encode [word_of_nat i] in
      case od_names d i of
        None \<Rightarrow> []
      | Some names \<Rightarrow>
          List.map_filter (\<lambda>name.
            (let path = od_shown d @ str ''/'' @ sub @ str ''/'' @ name in
             case parse_oid (env_algo v) (sub @ name) of
               Some x \<Rightarrow> if length name = hex_size (env_algo v) - 2 then Some (LooseObject x path)
                         else if \<not> has_prefix name (str ''tmp_obj_'') then Some (LooseCruft path) else None
             | None \<Rightarrow> if \<not> has_prefix name (str ''tmp_obj_'') then Some (LooseCruft path) else None)) (sort names))"

text \<open>The loose file at a path of directory number \<open>dirno\<close>; one that cannot be opened is unreadable.\<close>

definition file_at :: "run_env \<Rightarrow> nat \<Rightarrow> oid \<Rightarrow> loose_file" where
  "file_at v dirno x = (case (db_loose (re_db v) ! dirno) x of None \<Rightarrow> Unreadable | Some f \<Rightarrow> f)"

definition check_loose_dir :: "run_env \<Rightarrow> nat \<Rightarrow> object_dir \<Rightarrow> run_state \<Rightarrow> run_state option" where
  "check_loose_dir v dirno d s =
     (let found = concat (map (loose_names v d) [0..<256]);
          cruft = List.map_filter (\<lambda>n. case n of LooseCruft p \<Rightarrow> Some p | _ \<Rightarrow> None) found;
          s1 = fold (\<lambda>p. err (loose_key dirno zero_oid) (str ''bad sha1 file: '' @ p)) cruft s in
      fold (\<lambda>n so. case n of
          LooseObject x p \<Rightarrow> do { s \<leftarrow> so; check_loose_object v dirno x (file_at v dirno x) p s }
        | LooseCruft p \<Rightarrow> so) found (Some s1))"

section \<open>Packs\<close>

definition pack_key :: "nat \<Rightarrow> oid \<Rightarrow> msg_key" where
  "pack_key k x = (at_phase phase_objects)\<lparr>key_group := 1 + int k, key_oid := x\<rparr>"

text \<open>The words of a verification event; a malformed header is followed by the line that gives its offset.\<close>

definition header_fault_text :: "bytes \<Rightarrow> header_fault \<Rightarrow> bytes" where
  "header_fault_text path f =
     (case f of
        TooShort \<Rightarrow> str ''file '' @ path @ str '' is far too short to be a packfile''
      | NotPack \<Rightarrow> str ''file '' @ path @ str '' is not a GIT packfile''
      | PackVersion n \<Rightarrow> str ''packfile '' @ path @ str '' is version '' @ dec_int (int n) @
          str '' and not supported (try upgrading GIT to a newer version)''
      | CountDiffers n m \<Rightarrow> str ''packfile '' @ path @ str '' claims to have '' @ dec_int (int n) @
          str '' objects while index indicates '' @ dec_int (int m) @ str '' objects''
      | IndexDiffers \<Rightarrow> str ''packfile '' @ path @ str '' does not match index'')"

definition unpack_text :: "bytes \<Rightarrow> oid \<Rightarrow> int \<Rightarrow> bytes" where
  "unpack_text path x off = str ''cannot unpack '' @ oid_string x @ str '' from '' @ path @ str '' at offset '' @ dec_int off"

text \<open>What one event does to the run. The offset is that of the event after it.\<close>

definition emit :: "nat \<Rightarrow> oid \<Rightarrow> bytes \<Rightarrow> run_state \<Rightarrow> run_state" where
  "emit k x line s =
     (let s1 = (if valid_oid x \<and> has_prefix line (str ''cannot unpack '')
                then s\<lparr>rs_db := mark_bad_packed x (rs_db s)\<rparr> else s)
      in err (pack_key k x) (str ''error: '' @ line) s1)"

definition take_event :: "run_env \<Rightarrow> nat \<Rightarrow> int \<Rightarrow> verify_event \<Rightarrow> run_state \<Rightarrow> run_state option" where
  "take_event v k off e s =
     (let path = re_pack_path v k in
      case e of
        IndexNotOpened \<Rightarrow> Some (emit k zero_oid (str ''packfile '' @ path @ str '' index not opened'') s)
      | IndexHashMismatch \<Rightarrow> Some (emit k zero_oid (str ''Packfile index for '' @ path @ str '' hash mismatch'') s)
      | HeaderFault f \<Rightarrow> Some (emit k zero_oid (header_fault_text path f) s)
      | CannotAccess \<Rightarrow> Some (emit k zero_oid (str ''packfile '' @ path @ str '' cannot be accessed'') s)
      | CannotRead \<Rightarrow> Some (emit k zero_oid (path @ str '' cannot be read: '' @ re_errno v path) s)
      | PackHashMismatch \<Rightarrow> Some (emit k zero_oid (path @ str '' pack checksum mismatch'') s)
      | PackHashNotIndexed \<Rightarrow> Some (emit k zero_oid (path @ str '' pack checksum does not match its index'') s)
      | CrcMismatch x at \<Rightarrow> Some (emit k x (str ''index CRC mismatch for object '' @ oid_string x @ str '' from '' @ path @
          str '' at offset '' @ dec_int at) s)
      | Walked (HeaderMsg x m) \<Rightarrow> Some (emit k x (str ''object header at '' @ dec_int off @ str '' in '' @ path @ str '' is malformed'') s)
      | Walked (InflateMsg x m) \<Rightarrow> Some (emit k x m s)
      | Walked (CannotUnpack x at) \<Rightarrow> Some (emit k x (unpack_text path x at) s)
      | Walked (Corrupt x) \<Rightarrow> Some (emit k x (str ''packed '' @ oid_string x @ str '' from '' @ path @ str '' is corrupt'') s)
      | Walked (Object x t n buf) \<Rightarrow>
          take_object v (pack_key k x) x t buf (str ''error: '' @ oid_string x @ str '': object corrupt or missing'') s
      | Walked Progress \<Rightarrow> Some s)"

definition event_offset :: "verify_event list \<Rightarrow> int" where
  "event_offset es = (case es of Walked (CannotUnpack x at) # _ \<Rightarrow> at | _ \<Rightarrow> 0)"

fun take_events :: "run_env \<Rightarrow> nat \<Rightarrow> verify_event list \<Rightarrow> run_state \<Rightarrow> run_state option" where
  "take_events v k [] s = Some s"
| "take_events v k (e # es) s = do { s1 \<leftarrow> take_event v k (event_offset es) e s; take_events v k es s1 }"

definition check_pack :: "run_env \<Rightarrow> nat \<Rightarrow> run_state \<Rightarrow> run_state option" where
  "check_pack v k s =
     do {
       (ok, es) \<leftarrow> verify (re_verify v k) (re_crc v) (re_pack_file v k) 0 (fst (db_packs (re_db v) ! k));
       s1 \<leftarrow> take_events v k es s;
       Some (if ok then s1 else add_status error_pack s1)
     }"

fun each_pack :: "run_env \<Rightarrow> nat list \<Rightarrow> run_state \<Rightarrow> run_state option" where
  "each_pack v [] s = Some s"
| "each_pack v (k # ks) s = do { s1 \<leftarrow> check_pack v k s; each_pack v ks s1 }"

fun each_dir :: "run_env \<Rightarrow> (nat \<times> object_dir) list \<Rightarrow> run_state \<Rightarrow> run_state option" where
  "each_dir v [] s = Some s"
| "each_dir v ((i, d) # ds) s = do { s1 \<leftarrow> check_loose_dir v i d s; each_dir v ds s1 }"

definition check_object_dirs :: "run_env \<Rightarrow> run_state \<Rightarrow> run_state option" where
  "check_object_dirs v s =
     do {
       s1 \<leftarrow> each_dir v (zip [0..<length (re_dirs v)] (re_dirs v)) s;
       if ro_full (rs_opts s1) then each_pack v [0..<length (db_packs (re_db v))] s1 else Some s1
     }"

section \<open>Blobs a tree named\<close>

definition deferred_key :: msg_key where
  "deferred_key = (at_phase phase_objects)\<lparr>key_group := 2 ^ 20\<rparr>"

definition note_failure :: "int \<Rightarrow> run_state \<Rightarrow> run_state" where
  "note_failure ret s = (if ret \<noteq> 0 then add_status error_object s else s)"

fun finish_blobs :: "run_env \<Rightarrow> bytes \<Rightarrow> oid list \<Rightarrow> run_state \<Rightarrow> run_state option" where
  "finish_blobs v kind [] s = Some s"
| "finish_blobs v kind (x # xs) s =
     do {
       (r, s1) \<leftarrow> run_read v x s;
       (ret, s2) \<leftarrow> (case r of
           Inl e \<Rightarrow> run_check deferred_key (\<lambda>q. report_missing_blob q x kind) (note_damaged x False s1)
         | Inr (t, data) \<Rightarrow>
             if t \<noteq> TypeBlob then run_check deferred_key (\<lambda>q. report_non_blob q x t kind) s1
             else run_check deferred_key (\<lambda>q. check_blob q x (Some data)) s1);
       finish_blobs v kind xs (note_failure ret s2)
     }"

definition finish_deferred_blobs :: "run_env \<Rightarrow> run_state \<Rightarrow> run_state option" where
  "finish_deferred_blobs v s =
     (case pending_blobs (rs_fsck s) of
        (modules, attributes) \<Rightarrow> do {
          s1 \<leftarrow> finish_blobs v (str ''.gitmodules'') (sorted_key_list_of_set oid_h modules) s;
          finish_blobs v (str ''.gitattributes'') (sorted_key_list_of_set oid_h attributes) s1
        })"

section \<open>Connectivity only\<close>

fun mark_objects :: "oid list \<Rightarrow> run_state \<Rightarrow> run_state option" where
  "mark_objects [] s = Some s"
| "mark_objects (x # xs) s =
     do {
       (target, s1) \<leftarrow> run_lookup x TypeAny s;
       mark_objects xs (case target of None \<Rightarrow> s1 | Some i \<Rightarrow> snd (flag_entry flag_has_obj i s1))
     }"

definition dir_objects :: "run_env \<Rightarrow> object_dir \<Rightarrow> oid list" where
  "dir_objects v d = List.map_filter (\<lambda>n. case n of LooseObject x p \<Rightarrow> Some x | _ \<Rightarrow> None)
     (concat (map (loose_names v d) [0..<256]))"

definition pack_objects :: "bool \<times> pack \<Rightarrow> oid list" where
  "pack_objects p = (if fst p then map (oid_at (snd p)) [0..<pk_num (snd p)] else [])"

definition mark_for_connectivity :: "run_env \<Rightarrow> run_state \<Rightarrow> run_state option" where
  "mark_for_connectivity v s =
     mark_objects (concat (map (dir_objects v) (re_dirs v)) @ concat (map pack_objects (db_packs (re_db v)))) s"

end
