(* ===== verification/Heads.thy ===== *)
theory Heads
  imports RunState RefsVerify
begin

text \<open>
  The starting points of a run: \<open>internal/fsckcmd/heads.go\<close>. References, \<open>HEAD\<close> and the reflogs of every
  worktree, the arguments, and what every index names. \<open>re_ref_walk\<close>, \<open>re_log_walk\<close> and \<open>re_worktrees\<close> give
  the listings of directories, \<open>re_index_file\<close> the index files. \<open>None\<close> is a read or search that never
  returns, the panic at the table's limit, or a slice expression out of range in the index reader.
\<close>

definition run_refs :: "run_env \<Rightarrow> reference list" where
  "run_refs v = all_refs (re_repo v) (re_files v) (re_ref_walk v) (rp_common (re_repo v))"

definition run_worktrees :: "run_env \<Rightarrow> worktree list" where
  "run_worktrees v = worktrees (re_repo v) (re_worktrees v) (re_files v)"

definition run_head :: "run_env \<Rightarrow> worktree \<Rightarrow> (bytes \<times> oid) option" where
  "run_head v w = head_of (re_repo v) (re_files v) (wt_dir w)"

section \<open>The read before everything\<close>

fun read_all :: "run_env \<Rightarrow> oid list \<Rightarrow> run_state \<Rightarrow> run_state option" where
  "read_all v [] s = Some s"
| "read_all v (x # xs) s =
     do {
       s1 \<leftarrow> (if valid_oid x \<and> \<not> is_null x then do { (r, s1) \<leftarrow> run_read v x s; Some s1 } else Some s);
       read_all v xs s1
     }"

definition snapshot_refs :: "run_env \<Rightarrow> run_state \<Rightarrow> run_state option" where
  "snapshot_refs v s =
     (if ro_args (rs_opts s) \<noteq> [] then read_all v (List.map_filter (parse_oid (env_algo v)) (ro_args (rs_opts s))) s
      else read_all v (map ref_oid (run_refs v) @
        List.map_filter (\<lambda>w. map_option snd (run_head v w)) (run_worktrees v)) s)"

section \<open>References\<close>

definition heads_key :: "int \<Rightarrow> oid \<Rightarrow> msg_key" where
  "heads_key g x = (at_phase phase_heads)\<lparr>key_group := g, key_oid := x\<rparr>"

text \<open>The entry of a name when it has an object.\<close>

definition held_entry :: "run_state \<Rightarrow> oid \<Rightarrow> nat option option" where
  "held_entry s x =
     map_option (\<lambda>e. case e of None \<Rightarrow> None
       | Some i \<Rightarrow> if has_flag flag_has_obj (entry_at s i) then Some i else None) (table_get (rs_table s) (oid_h x))"

text \<open>An entry becomes a root under a name.\<close>

definition use_entry :: "nat \<Rightarrow> run_state \<Rightarrow> run_state" where
  "use_entry i s = snd (flag_entry flag_used i s)"

definition reparse :: "run_env \<Rightarrow> msg_key \<Rightarrow> oid \<Rightarrow> run_state \<Rightarrow> run_state option" where
  "reparse v k x s =
     do {
       (r, s1) \<leftarrow> run_read v x s;
       Some (case r of
           Inl e \<Rightarrow> s1
         | Inr (t, buf) \<Rightarrow> fold (\<lambda>m. err k (str ''error: '' @ m)) (snd (walk_links t x buf (env_algo v) [] False)) s1)
     }"

definition refuse_ref :: "run_env \<Rightarrow> msg_key \<Rightarrow> bytes \<Rightarrow> oid \<Rightarrow> run_state \<Rightarrow> run_state option" where
  "refuse_ref v k refname x s =
     do {
       s1 \<leftarrow> reparse v k x s;
       let s2 = add_status error_reachable (err k (str ''error: '' @ refname @ str '': invalid sha1 pointer '' @ oid_string x) s1);
       Some (if named_damaged s2 x then s2
             else if \<not> db_has (re_db v) x then note_damaged x True s2
             else note_partial s2)
     }"

definition take_ref :: "run_env \<Rightarrow> msg_key \<Rightarrow> bytes \<Rightarrow> oid \<Rightarrow> nat \<Rightarrow> run_state \<Rightarrow> run_state option" where
  "take_ref v k refname x i s =
     do {
       (t, s1) \<leftarrow> ensure_type v i s;
       let s2 = (if t \<noteq> TypeCommit \<and> is_branch_ref refname
                 then add_status error_refs_bit (err k (str ''error: '' @ refname @ str '': not a commit'') s1) else s1);
       let s3 = use_entry i (s2\<lparr>rs_heads := rs_heads s2 + 1\<rparr>);
       Some (mark_reachable i (name_object x refname s3))
     }"

definition handle_ref :: "run_env \<Rightarrow> bytes \<Rightarrow> oid \<Rightarrow> bool \<Rightarrow> run_state \<Rightarrow> run_state option" where
  "handle_ref v refname x broken s =
     do {
       e \<leftarrow> (if broken then Some None else held_entry s x);
       (case e of
          None \<Rightarrow> refuse_ref v (heads_key 0 x) refname x s
        | Some i \<Rightarrow> take_ref v (heads_key 0 x) refname x i s)
     }"

definition handle_arg :: "run_env \<Rightarrow> bytes \<Rightarrow> run_state \<Rightarrow> run_state option" where
  "handle_arg v arg s =
     (case parse_oid (env_algo v) arg of
        None \<Rightarrow> Some (add_status error_object
          (err (at_phase phase_heads) (str ''error: invalid parameter: expected sha1, got '' @ [39] @ arg @ [39]) s))
      | Some x \<Rightarrow> handle_ref v arg x False s)"

fun run_each :: "('a \<Rightarrow> run_state \<Rightarrow> run_state option) \<Rightarrow> 'a list \<Rightarrow> run_state \<Rightarrow> run_state option" where
  "run_each f [] s = Some s"
| "run_each f (x # xs) s = do { s1 \<leftarrow> f x s; run_each f xs s1 }"

definition handle_args :: "run_env \<Rightarrow> run_state \<Rightarrow> run_state option" where
  "handle_args v s = run_each (handle_arg v) (ro_args (rs_opts s)) s"

section \<open>Reflogs\<close>

definition handle_reflog_oid :: "run_env \<Rightarrow> bytes \<Rightarrow> oid \<Rightarrow> int \<Rightarrow> run_state \<Rightarrow> run_state option" where
  "handle_reflog_oid v refname x time s =
     (if \<not> valid_oid x \<or> is_null x then Some s
      else do {
        e \<leftarrow> held_entry s x;
        Some (case e of
            None \<Rightarrow> note_partial (add_status error_reachable
              (err (heads_key 1 x) (str ''error: '' @ refname @ str '': invalid reflog entry '' @ oid_string x) s))
          | Some i \<Rightarrow>
              (let s1 = (if time \<noteq> 0 then name_object x (refname @ [64, 123] @ dec_int time @ str ''}'') s else s)
               in mark_reachable i (use_entry i s1)))
      })"

definition handle_reflog_entry :: "run_env \<Rightarrow> bytes \<Rightarrow> reflog_entry \<Rightarrow> run_state \<Rightarrow> run_state option" where
  "handle_reflog_entry v refname e s =
     do { s1 \<leftarrow> handle_reflog_oid v refname (rl_old e) 0 s; handle_reflog_oid v refname (rl_new e) (rl_time e) s1 }"

definition handle_reflogs :: "run_env \<Rightarrow> worktree \<Rightarrow> run_state \<Rightarrow> run_state option" where
  "handle_reflogs v w s =
     run_each (\<lambda>name. run_each (handle_reflog_entry v (worktree_ref_name w name)) (reflog (re_repo v) (re_files v) (wt_dir w) name))
       (reflog_names (re_repo v) (re_log_walk v) (wt_dir w)) s"

definition handle_worktree :: "run_env \<Rightarrow> worktree \<Rightarrow> run_state \<Rightarrow> run_state option" where
  "handle_worktree v w s =
     do {
       s1 \<leftarrow> (case run_head v w of
           None \<Rightarrow> Some s
         | Some (target, x) \<Rightarrow> if is_null x then Some s else handle_ref v (worktree_ref_name w (str ''HEAD'')) x False s);
       if ro_reflogs (rs_opts s1) then handle_reflogs v w s1 else Some s1
     }"

definition default_heads :: "run_env \<Rightarrow> run_state \<Rightarrow> run_state option" where
  "default_heads v s =
     do {
       s1 \<leftarrow> run_each (\<lambda>x. handle_ref v (ref_name x) (ref_oid x) (ref_broken x)) (run_refs v) s;
       run_each (handle_worktree v) (run_worktrees v) s1
     }"

definition note_no_heads :: "run_state \<Rightarrow> run_state" where
  "note_no_heads s =
     (if rs_heads s \<noteq> 0 then s
      else (case err ((at_phase phase_heads)\<lparr>key_group := 2 ^ 20\<rparr>) (str ''notice: No default references'') s of
          s1 \<Rightarrow> s1\<lparr>rs_opts := (rs_opts s1)\<lparr>ro_unreachable := False\<rparr>\<rparr>))"

section \<open>Indexes\<close>

definition index_key :: msg_key where
  "index_key = at_phase phase_index"

text \<open>The lines before the error of \<open>ReadIndex\<close>, and the error.\<close>

definition hex32 :: "nat \<Rightarrow> bytes" where
  "hex32 n = hex_encode [word_of_nat (n div 2 ^ 24), word_of_nat (n div 2 ^ 16), word_of_nat (n div 2 ^ 8), word_of_nat n]"

definition index_error_text :: "bytes \<Rightarrow> index_error \<Rightarrow> bytes list \<times> bytes" where
  "index_error_text path e =
     (let corrupt = str ''index file corrupt'' in
      case e of
        IxOpenFailed \<Rightarrow> ([], path @ str '': index file open failed'')
      | IxTooSmall \<Rightarrow> ([], path @ str '': index file smaller than expected'')
      | IxBadSignature n \<Rightarrow> ([str ''bad signature 0x'' @ hex32 n], corrupt)
      | IxBadVersion n \<Rightarrow> ([str ''bad index version '' @ dec_digits n], corrupt)
      | IxBadChecksum \<Rightarrow> ([str ''bad index file sha1 signature''], corrupt)
      | IxCorrupt \<Rightarrow> ([], corrupt)
      | IxUnordered \<Rightarrow> ([], str ''unordered stage entries in index'')
      | IxMultipleStages name \<Rightarrow> ([], str ''multiple stage entries for merged file '' @ [39] @ name @ [39])
      | IxUnorderedStages name \<Rightarrow> ([], str ''unordered stage entries for '' @ [39] @ name @ [39])
      | IxUnknownExtension sig \<Rightarrow> ([], str ''index uses '' @ sig @ str '' extension, which we do not understand'')
      | IxPanic \<Rightarrow> ([], []))"

definition index_mode_is :: "nat \<Rightarrow> 32 word \<Rightarrow> bool" where
  "index_mode_is fmt m \<longleftrightarrow> m AND 0xF000 = word_of_nat fmt"

definition fsck_index_entry :: "run_env \<Rightarrow> bytes \<Rightarrow> index_entry \<Rightarrow> run_state \<Rightarrow> run_state option" where
  "fsck_index_entry v prefix ce s =
     (if index_mode_is 0xE000 (ix_mode ce) then Some s
      else do {
        (target, s1) \<leftarrow> run_lookup (ix_oid ce) TypeBlob s;
        Some (case target of
            None \<Rightarrow> s1
          | Some i \<Rightarrow> mark_reachable i (name_object (ix_oid ce) (prefix @ str '':'' @ ix_name ce) (use_entry i s1)))
      })"

definition index_pointer_text :: "oid \<Rightarrow> bytes \<Rightarrow> bytes \<Rightarrow> bytes" where
  "index_pointer_text x what path = str ''error: '' @ oid_string x @ str '': invalid sha1 pointer in '' @ what @ str '' of '' @ path"

text \<open>A node of the cache tree without its subtrees; the boolean is whether they follow.\<close>

definition fsck_cache_node :: "run_env \<Rightarrow> bytes \<Rightarrow> int \<Rightarrow> oid \<Rightarrow> run_state \<Rightarrow> (bool \<times> run_state) option" where
  "fsck_cache_node v path n x s =
     (if n < 0 then Some (True, s)
      else do {
        e \<leftarrow> held_entry s x;
        (case e of
           None \<Rightarrow> Some (False, add_status error_refs_bit (err index_key (index_pointer_text x (str ''cache-tree'') path) s))
         | Some i \<Rightarrow> do {
             (t, s1) \<leftarrow> ensure_type v i (mark_reachable i (name_object x (str '':'') (use_entry i s)));
             s2 \<leftarrow> (if t \<noteq> TypeTree then obj_error index_key x (str ''non-tree in cache-tree'') s1 else Some s1);
             Some (True, s2)
           })
      })"

fun fsck_cache_trees :: "run_env \<Rightarrow> bytes \<Rightarrow> cache_tree list \<Rightarrow> run_state \<Rightarrow> run_state option" where
  "fsck_cache_trees v path [] s = Some s"
| "fsck_cache_trees v path (CacheTree name n x subtrees # rest) s =
     do {
       (into, s1) \<leftarrow> fsck_cache_node v path n x s;
       s2 \<leftarrow> (if into then fsck_cache_trees v path subtrees s1 else Some s1);
       fsck_cache_trees v path rest s2
     }"

definition fsck_undo_stage :: "bytes \<Rightarrow> resolve_undo \<Rightarrow> nat \<Rightarrow> run_state \<Rightarrow> run_state option" where
  "fsck_undo_stage path u n s =
     (let m = ru_mode u ! n; x = ru_oid u ! n in
      if m = 0 \<or> \<not> index_mode_is 0x8000 (word_of_nat m) then Some s
      else do {
        e \<leftarrow> held_entry s x;
        Some (case e of
            None \<Rightarrow> add_status error_refs_bit (err index_key (index_pointer_text x (str ''resolve-undo'') path) s)
          | Some i \<Rightarrow> mark_reachable i
              (name_object x (str '':('' @ dec_digits n @ str ''):'' @ ru_path u) (use_entry i s)))
      })"

definition fsck_index :: "run_env \<Rightarrow> index_file \<Rightarrow> bytes \<Rightarrow> bool \<Rightarrow> run_state \<Rightarrow> run_state option" where
  "fsck_index v idx path current s =
     do {
       s1 \<leftarrow> run_each (fsck_index_entry v (if current then [] else path)) (xf_entries idx) s;
       s2 \<leftarrow> fsck_cache_trees v path (case xf_cache_tree idx of None \<Rightarrow> [] | Some t \<Rightarrow> [t]) s1;
       run_each (\<lambda>u. run_each (fsck_undo_stage path u) [0..<3]) (xf_undo idx) s2
     }"

definition check_index :: "run_env \<Rightarrow> worktree \<Rightarrow> run_state \<Rightarrow> run_state option" where
  "check_index v w s =
     (let p = wt_dir w @ [str ''index'']; path = re_shown v p in
      case read_index (env_algo v) (re_index_file v p) of
        Inl IxPanic \<Rightarrow> None
      | Inl e \<Rightarrow>
          (case index_error_text path e of
             (errs, msg) \<Rightarrow> Some (add_status error_index (fold (\<lambda>m. err index_key (str ''error: '' @ m)) (errs @ [msg]) s)))
      | Inr idx \<Rightarrow>
          fsck_index v idx path (wt_main w)
            (fold (\<lambda>sig. err index_key (str ''ignoring '' @ sig @ str '' extension'')) (xf_ignored idx) s))"

definition check_indexes :: "run_env \<Rightarrow> run_state \<Rightarrow> run_state option" where
  "check_indexes v s = run_each (check_index v) (run_worktrees v) s"

section \<open>Reference files\<close>

text \<open>\<open>checkRefs\<close> inside the run: its lines in the order it writes them.\<close>

definition run_check_refs :: "run_env \<Rightarrow> ref_listing \<Rightarrow> run_state \<Rightarrow> run_state" where
  "run_check_refs v l s =
     fold (\<lambda>(bad, line) s. let s1 = err (at_phase phase_refs) line s in if bad then add_status error_refs_bit s1 else s1)
       (fst (check_refs (rs_fsck s) (re_repo v) (re_files v) l (run_worktrees v))) s"

end
