(* ===== verification/ConfigRead.thy ===== *)
theory ConfigRead
  imports GitConfig IndexFile
begin

text \<open>
  Reading settings: the \<open>Config\<close> of \<open>internal/gitrepo/repo.go\<close>. The settings in effect are a list in
  reading order, the environment's last; which files and variables they come from is left out. A setting
  without a value counts as empty here. Letters outside ASCII are not lowered.
\<close>

definition config_get_all :: "entry list \<Rightarrow> bytes \<Rightarrow> bytes list" where
  "config_get_all es key =
     map (\<lambda>e. case e_value e of None \<Rightarrow> [] | Some v \<Rightarrow> v)
       (filter (\<lambda>e. map to_lower (e_key e) = map to_lower key) es)"

definition config_get :: "entry list \<Rightarrow> bytes \<Rightarrow> bytes option" where
  "config_get es key = (case config_get_all es key of [] \<Rightarrow> None | vs \<Rightarrow> Some (last vs))"

section \<open>Numbers of any base\<close>

text \<open>\<open>strconv.ParseInt\<close> with base zero: the base from the prefix, underscores between digits.\<close>

definition digit_value :: "byte \<Rightarrow> nat option" where
  "digit_value c =
     (if ascii CHR ''0'' \<le> c \<and> c \<le> ascii CHR ''9'' then Some (unat (c - ascii CHR ''0''))
      else if is_alpha c then Some (unat (to_lower c - ascii CHR ''a'') + 10)
      else None)"

definition base_prefix :: "bytes \<Rightarrow> nat \<times> bytes" where
  "base_prefix s =
     (if take 1 s \<noteq> str ''0'' then (10, s)
      else if 3 \<le> length s \<and> to_lower (s ! 1) = ascii CHR ''b'' then (2, drop 2 s)
      else if 3 \<le> length s \<and> to_lower (s ! 1) = ascii CHR ''o'' then (8, drop 2 s)
      else if 3 \<le> length s \<and> to_lower (s ! 1) = ascii CHR ''x'' then (16, drop 2 s)
      else (8, drop 1 s))"

text \<open>The digits, underscores skipped; \<open>None\<close> is a character that is no digit of the base.\<close>

fun digits_loop :: "nat \<Rightarrow> bytes \<Rightarrow> nat \<Rightarrow> nat option" where
  "digits_loop base [] n = Some n"
| "digits_loop base (c # cs) n =
     (if c = ascii CHR ''_'' then digits_loop base cs n
      else (case digit_value c of
          None \<Rightarrow> None
        | Some d \<Rightarrow> if base \<le> d then None else digits_loop base cs (n * base + d)))"

datatype last_seen = NothingYet | SawDigit | SawUnderscore | SawOther

fun underscore_loop :: "bool \<Rightarrow> last_seen \<Rightarrow> bytes \<Rightarrow> bool" where
  "underscore_loop hex i [] \<longleftrightarrow> i \<noteq> SawUnderscore"
| "underscore_loop hex i (c # cs) \<longleftrightarrow>
     (if (case digit_value c of None \<Rightarrow> False | Some d \<Rightarrow> d < 10 \<or> hex \<and> d < 16) then underscore_loop hex SawDigit cs
      else if c = ascii CHR ''_'' then i = SawDigit \<and> underscore_loop hex SawUnderscore cs
      else i \<noteq> SawUnderscore \<and> underscore_loop hex SawOther cs)"

definition underscore_ok :: "bytes \<Rightarrow> bool" where
  "underscore_ok s =
     (if take 1 s = str ''0'' \<and> 2 \<le> length s \<and> to_lower (s ! 1) \<in> {ascii CHR ''b'', ascii CHR ''o'', ascii CHR ''x''}
      then underscore_loop (to_lower (s ! 1) = ascii CHR ''x'') SawDigit (drop 2 s)
      else underscore_loop False NothingYet s)"

definition parse_int0 :: "bytes \<Rightarrow> int option" where
  "parse_int0 v =
     (let neg = (take 1 v = str ''-''); s = (if neg \<or> take 1 v = str ''+'' then drop 1 v else v) in
      if s = [] then None
      else (case base_prefix s of (base, ds) \<Rightarrow>
        (case digits_loop base ds 0 of
           None \<Rightarrow> None
         | Some n \<Rightarrow>
             if ascii CHR ''_'' \<in> set ds \<and> \<not> underscore_ok s then None
             else if neg then (if n \<le> 2 ^ 63 then Some (- int n) else None)
             else if n < 2 ^ 63 then Some (int n) else None)))"

section \<open>Booleans and sizes\<close>

definition config_bool :: "entry list \<Rightarrow> bytes \<Rightarrow> bool \<Rightarrow> bool" where
  "config_bool es key def =
     (case config_get es key of
        None \<Rightarrow> def
      | Some v \<Rightarrow>
          if map to_lower v \<in> set (map str [[], ''true'', ''yes'', ''on'', ''1'']) then True
          else if map to_lower v \<in> set (map str [''false'', ''no'', ''off'', ''0'']) then False
          else (case parse_int0 v of None \<Rightarrow> def | Some n \<Rightarrow> n \<noteq> 0))"

definition size_suffix :: "byte \<Rightarrow> int option" where
  "size_suffix c =
     (if to_lower c = ascii CHR ''k'' then Some 1024
      else if to_lower c = ascii CHR ''m'' then Some (1024 * 1024)
      else if to_lower c = ascii CHR ''g'' then Some (1024 * 1024 * 1024)
      else None)"

text \<open>The product wraps at 64 bits.\<close>

definition config_int :: "entry list \<Rightarrow> bytes \<Rightarrow> int \<Rightarrow> int" where
  "config_int es key def =
     (case config_get es key of
        None \<Rightarrow> def
      | Some v \<Rightarrow>
          if v = [] then def
          else (case (case size_suffix (last v) of Some m \<Rightarrow> (m, butlast v) | None \<Rightarrow> (1, v)) of
              (mult, ds) \<Rightarrow>
                (case atoi (trim_space ds) of
                   None \<Rightarrow> def
                 | Some n \<Rightarrow> sint (word_of_int (n * mult) :: 64 word))))"

end
