(* ===== verification/GraphFiles.thy ===== *)
theory GraphFiles
  imports RunState ConfigRead
begin

text \<open>
  The derived files a run verifies: reverse indexes, bitmaps and the list of commit graphs, from
  \<open>internal/fsckcmd/graphs.go\<close>. Paths are clean, so joining them adds a slash. Objects of a pack at the
  same offset, whose order \<open>sort.Slice\<close> leaves open, come in the order of the index.
\<close>

section \<open>Names\<close>

definition trim_suffix :: "bytes \<Rightarrow> bytes \<Rightarrow> bytes" where
  "trim_suffix s suf = (if has_suffix s suf then take (length s - length suf) s else s)"

definition slash :: "bytes \<Rightarrow> bytes \<Rightarrow> bytes" where
  "slash a b = a @ ascii CHR ''/'' # b"

text \<open>The verbs \<open>%x\<close> and \<open>%X\<close>.\<close>

fun hex_nat :: "nat \<Rightarrow> bytes" where
  "hex_nat n = (if n < 16 then [hex_digit (word_of_nat n)] else hex_nat (n div 16) @ [hex_digit (word_of_nat (n mod 16))])"

declare hex_nat.simps [simp del]

definition to_upper :: "byte \<Rightarrow> byte" where
  "to_upper c = (if ascii CHR ''a'' \<le> c \<and> c \<le> ascii CHR ''z'' then c - 32 else c)"

definition upper_hex :: "nat \<Rightarrow> bytes" where
  "upper_hex n = map to_upper (hex_nat n)"

text \<open>The test of a trailing checksum.\<close>

definition sealed :: "algo \<Rightarrow> bytes \<Rightarrow> bool" where
  "sealed a data =
     (let n = length data - raw_size a in digest a (take n data) = drop n data)"

section \<open>Reverse indexes\<close>

definition rev_index_size :: "algo \<Rightarrow> nat \<Rightarrow> nat" where
  "rev_index_size a num = 12 + num * 4 + 2 * raw_size a"

definition rev_magic :: nat where
  "rev_magic = 0x52494458"

text \<open>The empty string is a file that loads.\<close>

definition load_rev_index :: "algo \<Rightarrow> pack \<Rightarrow> bytes \<Rightarrow> bytes" where
  "load_rev_index a p data =
     (let want = rev_index_size a (pk_num p) in
      if length data < want then str ''is too small''
      else if length data \<noteq> want then str ''is corrupt''
      else if be32 data \<noteq> rev_magic then str ''has unknown signature''
      else if be32 (drop 4 data) \<noteq> 1 then str ''has unsupported version '' @ dec_digits (be32 (drop 4 data))
      else if be32 (drop 8 data) \<noteq> 1 \<and> be32 (drop 8 data) \<noteq> 2 then
        str ''has unsupported hash id '' @ dec_digits (be32 (drop 8 data))
      else [])"

definition offset_order :: "pack \<Rightarrow> nat list" where
  "offset_order p = sort_key (offset_at p) [0..<pk_num p]"

definition stored_position :: "bytes \<Rightarrow> nat \<Rightarrow> nat" where
  "stored_position data i = be32 (drop (12 + i * 4) data)"

definition verify_rev_index :: "algo \<Rightarrow> pack \<Rightarrow> bytes \<Rightarrow> bytes list" where
  "verify_rev_index a p data =
     (if sealed a data then [] else [str ''invalid checksum'']) @
     List.map_filter (\<lambda>(i, nr).
         if nr \<noteq> stored_position data i then
           Some (str ''invalid rev-index position at '' @ dec_digits i @ str '': '' @ dec_digits nr @ str '' != '' @
             dec_digits (stored_position data i))
         else None)
       (zip [0..<pk_num p] (offset_order p))"

definition files_key :: "int \<Rightarrow> msg_key" where
  "files_key g = (at_phase phase_index_files)\<lparr>key_group := g\<rparr>"

definition error_line :: "msg_key \<Rightarrow> bytes \<Rightarrow> run_state \<Rightarrow> run_state" where
  "error_line k m s = err k (str ''error: '' @ m) s"

definition check_rev_index :: "run_env \<Rightarrow> nat \<Rightarrow> run_state \<Rightarrow> run_state" where
  "check_rev_index v k s =
     (let path = re_pack_path v k; key = files_key 0; p = snd (db_packs (re_db v) ! k);
          failed = (\<lambda>m s. add_status error_rev_index (error_line key (m @ quoted path) s)) in
      if \<not> fst (db_packs (re_db v) ! k) then s
      else (case re_stored v (trim_suffix (re_pack_os v k) (str ''.pack'') @ str ''.rev'') of
          NoFile \<Rightarrow> s
        | OpenFails \<Rightarrow> failed (str ''unable to load rev-index for pack '') s
        | FileBytes data \<Rightarrow>
            (let bad = load_rev_index (env_algo v) p data; msgs = verify_rev_index (env_algo v) p data in
             if bad \<noteq> [] then
               failed (str ''unable to load rev-index for pack '')
                 (error_line key (str ''reverse-index file '' @ trim_suffix path (str ''.pack'') @ str ''.rev '' @ bad) s)
             else if msgs \<noteq> [] then
               failed (str ''invalid rev-index for pack '') (fold (error_line key) msgs s)
             else s)))"

definition check_pack_rev_indexes :: "run_env \<Rightarrow> run_state \<Rightarrow> run_state" where
  "check_pack_rev_indexes v s = fold (check_rev_index v) [0..<length (db_packs (re_db v))] s"

section \<open>Bitmaps\<close>

definition contents_of :: "stored_file \<Rightarrow> bytes option" where
  "contents_of f = (case f of FileBytes b \<Rightarrow> Some b | _ \<Rightarrow> None)"

text \<open>\<open>midxChecksumName\<close>.\<close>

definition midx_bitmap_name :: "algo \<Rightarrow> stored_file \<Rightarrow> bytes option" where
  "midx_bitmap_name a f =
     (case contents_of f of
        None \<Rightarrow> None
      | Some data \<Rightarrow>
          if length data < raw_size a then None
          else Some (str ''multi-pack-index-'' @ oid_string (from_bytes (drop (length data - raw_size a) data)) @ str ''.bitmap''))"

text \<open>The path that is read and the one that is shown.\<close>

definition dir_bitmap :: "run_env \<Rightarrow> object_dir \<Rightarrow> (bytes \<times> bytes) option" where
  "dir_bitmap v d =
     (let midx = slash (od_path d) (str ''pack/multi-pack-index'') in
      if \<not> re_regular v midx then None
      else map_option (\<lambda>name. (slash (slash (od_path d) (str ''pack'')) name, slash (slash (od_shown d) (str ''pack'')) name))
        (midx_bitmap_name (env_algo v) (re_stored v midx)))"

definition pack_bitmap :: "run_env \<Rightarrow> nat \<Rightarrow> bytes \<times> bytes" where
  "pack_bitmap v k =
     (trim_suffix (re_pack_os v k) (str ''.pack'') @ str ''.bitmap'', trim_suffix (re_pack_path v k) (str ''.pack'') @ str ''.bitmap'')"

definition bitmap_bad :: "algo \<Rightarrow> stored_file \<Rightarrow> bool" where
  "bitmap_bad a f = (case contents_of f of None \<Rightarrow> False | Some data \<Rightarrow> length data < raw_size a \<or> \<not> sealed a data)"

definition verify_bitmap :: "run_env \<Rightarrow> bytes \<times> bytes \<Rightarrow> run_state \<Rightarrow> run_state" where
  "verify_bitmap v f s =
     (if bitmap_bad (env_algo v) (re_stored v (fst f))
      then add_status error_bitmap (error_line (files_key 1) (str ''bitmap file '' @ quoted (snd f) @ str '' has invalid checksum'') s)
      else s)"

definition verify_bitmap_files :: "run_env \<Rightarrow> run_state \<Rightarrow> run_state" where
  "verify_bitmap_files v s =
     fold (verify_bitmap v)
       (List.map_filter (dir_bitmap v) (re_dirs v) @ map (pack_bitmap v) [0..<length (db_packs (re_db v))]) s"

section \<open>Commit graphs of an object directory\<close>

definition commit_graph_files :: "run_env \<Rightarrow> object_dir \<Rightarrow> bytes list" where
  "commit_graph_files v d =
     (let single = slash (od_path d) (str ''info/commit-graph'');
          graphs = slash (od_path d) (str ''info/commit-graphs'') in
      if re_regular v single then [single]
      else (case contents_of (re_stored v (slash graphs (str ''commit-graph-chain''))) of
          None \<Rightarrow> []
        | Some data \<Rightarrow>
            map (\<lambda>line. slash graphs (str ''graph-'' @ line @ str ''.graph''))
              (filter (\<lambda>line. line \<noteq> []) (map trim_space (split_on (ascii CHR ''\<newline>'') (trim_space data))))))"

end
