(* ===== verification/CommitGraph.thy ===== *)
theory CommitGraph
  imports GraphFiles
begin

text \<open>
  The check of commit graphs: \<open>internal/fsckcmd/commitgraph.go\<close>. The layers of a chain are one list, oldest
  first, and a layer is known by its number; the layers below it are the code's \<open>base\<close>. Reading a commit
  reads its parents' records in turn, with no bound: \<open>None\<close> is a read that never returns.
\<close>

section \<open>Reading a layer\<close>

text \<open>The chunk table both derived files have: twelve bytes an entry, from \<open>off\<close>, \<open>n\<close> entries left.\<close>

fun find_chunk :: "bytes \<Rightarrow> nat \<Rightarrow> nat \<Rightarrow> bytes \<Rightarrow> bytes option" where
  "find_chunk data off 0 name = None"
| "find_chunk data off (Suc n) name =
     (if take 4 (drop off data) \<noteq> name then find_chunk data (off + 12) n name
      else let start = be64 (drop (off + 4) data); stop = be64 (drop (off + 16) data) in
        if stop < start \<or> length data < stop then None else Some (take (stop - start) (drop start data)))"

record graph_layer =
  gl_data :: bytes
  gl_num :: nat
  gl_fanout :: bytes
  gl_lookup :: bytes
  gl_commits :: bytes
  gl_edges :: bytes
  gl_gen :: "bytes option"

definition no_bytes :: "bytes option \<Rightarrow> bytes" where
  "no_bytes b = (case b of None \<Rightarrow> [] | Some b \<Rightarrow> b)"

definition graph_magic :: nat where
  "graph_magic = 0x43475048"

definition load_graph_bytes :: "algo \<Rightarrow> bytes \<Rightarrow> bytes + graph_layer" where
  "load_graph_bytes a data =
     (let chunks = unat (data ! 6); rawsz = raw_size a; get = find_chunk data 8 chunks;
          fanout = no_bytes (get (str ''OIDF'')); num = be32 (drop (255 * 4) fanout) in
      if length data < 8 then Inl (str ''error: commit-graph file is too small'')
      else if take 4 data \<noteq> str ''CGPH'' then
        Inl (str ''error: commit-graph signature '' @ upper_hex (be32 data) @ str '' does not match signature '' @ upper_hex graph_magic)
      else if data ! 4 \<noteq> 1 then
        Inl (str ''error: commit-graph version '' @ upper_hex (unat (data ! 4)) @ str '' does not match version 1'')
      else if unat (data ! 5) \<noteq> alg_format a then
        Inl (str ''error: commit-graph hash version '' @ upper_hex (unat (data ! 5)) @ str '' does not match version '' @ upper_hex (alg_format a))
      else if length data < 8 + (chunks + 1) * 12 + rawsz then
        Inl (str ''error: commit-graph file is too small to hold '' @ dec_digits chunks @ str '' chunks'')
      else if length fanout < 256 * 4 then Inl (str ''error: commit-graph is missing the OID Fanout chunk'')
      else (case (get (str ''OIDL''), get (str ''CDAT'')) of
          (None, _) \<Rightarrow> Inl (str ''error: commit-graph is missing the OID Lookup chunk'')
        | (Some _, None) \<Rightarrow> Inl (str ''error: commit-graph is missing the Commit Data chunk'')
        | (Some lookup, Some commits) \<Rightarrow>
            if length lookup < num * rawsz then Inl (str ''error: commit-graph oid table and fanout disagree on size'')
            else if length commits < num * (rawsz + 16) then Inl (str ''error: commit-graph is missing the Commit Data chunk'')
            else Inr \<lparr>gl_data = data, gl_num = num, gl_fanout = fanout, gl_lookup = lookup, gl_commits = commits,
                      gl_edges = no_bytes (get (str ''EDGE'')), gl_gen = get (str ''GDA2'')\<rparr>))"

definition load_commit_graph :: "algo \<Rightarrow> bytes \<Rightarrow> stored_file \<Rightarrow> bytes + graph_layer" where
  "load_commit_graph a path f =
     (case contents_of f of
        None \<Rightarrow> Inl (str ''error: Could not open commit-graph '' @ quoted path)
      | Some data \<Rightarrow> load_graph_bytes a data)"

definition fanout_value :: "graph_layer \<Rightarrow> nat \<Rightarrow> nat" where
  "fanout_value g k = be32 (drop (k * 4) (gl_fanout g))"

definition graph_oid :: "algo \<Rightarrow> graph_layer \<Rightarrow> nat \<Rightarrow> oid" where
  "graph_oid a g i = from_raw a (drop (i * raw_size a) (gl_lookup g))"

section \<open>The record of a commit\<close>

definition parent_none :: nat where "parent_none = 0x70000000"
definition gen_v1_max :: nat where "gen_v1_max = 0x3FFFFFFF"

text \<open>The positions in the chunk of extra edges, and whether the list has its end.\<close>

function extra_positions :: "bytes \<Rightarrow> nat list \<times> bool" where
  "extra_positions b =
     (if length b < 4 then ([], False)
      else if 2 ^ 31 \<le> be32 b then ([be32 b - 2 ^ 31], True)
      else (case extra_positions (drop 4 b) of (ps, whole) \<Rightarrow> (be32 b # ps, whole)))"
  by pat_completeness auto
termination
  by (relation "measure length") auto

declare extra_positions.simps [simp del]

definition parent_positions :: "graph_layer \<Rightarrow> nat \<Rightarrow> nat \<Rightarrow> nat list \<times> bool" where
  "parent_positions g edge0 edge1 =
     (if edge0 = parent_none then ([], True)
      else if edge1 = parent_none then ([edge0], True)
      else if edge1 < 2 ^ 31 then ([edge0, edge1], True)
      else (case extra_positions (drop ((edge1 - 2 ^ 31) * 4) (gl_edges g)) of (ps, whole) \<Rightarrow> (edge0 # ps, whole)))"

record graph_record =
  gr_tree :: oid
  gr_gen :: nat
  gr_date :: nat
  gr_overflow :: bool
  gr_parents :: "nat list"
  gr_whole :: bool

definition graph_record_at :: "algo \<Rightarrow> graph_layer \<Rightarrow> nat \<Rightarrow> graph_record" where
  "graph_record_at a g i =
     (let rawsz = raw_size a; b = drop (i * (rawsz + 16)) (gl_commits g); fields = drop rawsz b;
          packed = be32 (drop 8 fields); date = (packed mod 4) * 2 ^ 32 + be32 (drop 12 fields);
          off = (case gl_gen g of None \<Rightarrow> None
                 | Some gen \<Rightarrow> if i * 4 + 4 \<le> length gen then Some (be32 (drop (i * 4) gen)) else None) in
      case parent_positions g (be32 fields) (be32 (drop 4 fields)) of
        (ps, whole) \<Rightarrow>
          \<lparr>gr_tree = from_raw a b,
           gr_gen = (case off of None \<Rightarrow> packed div 4 | Some n \<Rightarrow> if 2 ^ 31 \<le> n then packed div 4 else date + n),
           gr_date = date, gr_overflow = (case off of None \<Rightarrow> False | Some n \<Rightarrow> 2 ^ 31 \<le> n),
           gr_parents = ps, gr_whole = whole\<rparr>)"

section \<open>Positions through the layers\<close>

definition lex_base :: "graph_layer list \<Rightarrow> nat \<Rightarrow> nat" where
  "lex_base ls n = sum_list (map gl_num (take n ls)) mod 2 ^ 32"

text \<open>The layer and the place in it of a position, as layer \<open>n\<close> sees it.\<close>

definition locate :: "graph_layer list \<Rightarrow> nat \<Rightarrow> nat \<Rightarrow> (nat \<times> nat) option" where
  "locate ls n pos =
     (if pos < lex_base ls n then
        map_option (\<lambda>m. (m, pos - lex_base ls m))
          (List.find (\<lambda>m. pos < (lex_base ls m + gl_num (ls ! m)) mod 2 ^ 32 \<and> lex_base ls m \<le> pos) [0..<n])
      else if gl_num (ls ! n) \<le> pos - lex_base ls n then None
      else Some (n, pos - lex_base ls n))"

record graph_parent =
  gp_oid :: oid
  gp_gen :: nat

text \<open>\<open>commitAt\<close> and \<open>commitByPosition\<close>: the parents at a list of positions. The inner \<open>None\<close> is a
  position that cannot be read.\<close>

partial_function (option) graph_parents ::
    "algo \<Rightarrow> graph_layer list \<Rightarrow> nat \<Rightarrow> nat list \<Rightarrow> graph_parent list option option" where
  "graph_parents a ls n ps =
     (if ps = [] then Some (Some [])
      else (case locate ls n (hd ps) of
          None \<Rightarrow> Some None
        | Some at \<Rightarrow>
            (if gr_overflow (graph_record_at a (ls ! fst at) (snd at)) then Some None
             else do {
               q \<leftarrow> graph_parents a ls (fst at) (gr_parents (graph_record_at a (ls ! fst at) (snd at)));
               if q = None \<or> \<not> gr_whole (graph_record_at a (ls ! fst at) (snd at)) then Some None
               else do {
                 qs \<leftarrow> graph_parents a ls n (tl ps);
                 Some (map_option (\<lambda>xs. \<lparr>gp_oid = graph_oid a (ls ! fst at) (snd at),
                   gp_gen = gr_gen (graph_record_at a (ls ! fst at) (snd at))\<rparr> # xs) qs)
               }
             })))"

definition graph_commit_at :: "algo \<Rightarrow> graph_layer list \<Rightarrow> nat \<Rightarrow> nat \<Rightarrow> (graph_record \<times> graph_parent list option) option" where
  "graph_commit_at a ls n i =
     (let r = graph_record_at a (ls ! n) i in
      if gr_overflow r then Some (r, None)
      else map_option (\<lambda>q. (r, if gr_whole r then q else None)) (graph_parents a ls n (gr_parents r)))"

section \<open>The commit in the database\<close>

function parent_fields :: "algo \<Rightarrow> bytes \<Rightarrow> oid list \<times> bytes" where
  "parent_fields a buf =
     (if hex_size a + 7 < length buf \<and> take 7 buf = str ''parent '' then
        (case parse_hex_bytes a (drop 7 buf) of
           None \<Rightarrow> ([], buf)
         | Some x \<Rightarrow> (case parent_fields a (drop (8 + hex_size a) buf) of (xs, r) \<Rightarrow> (x # xs, r)))
      else ([], buf))"
  by pat_completeness auto
termination
  by (relation "measure (length \<circ> snd)") auto

declare parent_fields.simps [simp del]

text \<open>A number as the code adds it up, at 64 bits; zero when a character is no digit.\<close>

definition date_value :: "bytes \<Rightarrow> nat" where
  "date_value f =
     (if list_all (\<lambda>c. ascii CHR ''0'' \<le> c \<and> c \<le> ascii CHR ''9'') f then num_val 10 f mod 2 ^ 64 else 0)"

definition committer_date :: "bytes \<Rightarrow> nat" where
  "committer_date line =
     (case last_index_byte line (ascii CHR ''>'') of
        None \<Rightarrow> 0
      | Some gt \<Rightarrow>
          (let fields = byte_fields (drop (Suc gt) line) in if gt = 0 \<or> fields = [] then 0 else date_value (hd fields)))"

function date_loop :: "bytes \<Rightarrow> nat" where
  "date_loop buf =
     (case index_byte buf (ascii CHR ''\<newline>'') of
        None \<Rightarrow> 0
      | Some nl \<Rightarrow>
          if has_prefix (take nl buf) (str ''committer '') then committer_date (take nl buf)
          else if nl = 0 then 0
          else date_loop (drop (Suc nl) buf))"
  by pat_completeness auto
termination
  by (relation "measure length") (auto dest: index_byte_lt)

declare date_loop.simps [simp del]

definition parse_commit_fields :: "algo \<Rightarrow> bytes \<Rightarrow> oid \<times> oid list \<times> nat" where
  "parse_commit_fields a buf =
     (let tree = hex_size a + 5 < length buf \<and> take 5 buf = str ''tree '';
          b = (if tree then drop (6 + hex_size a) buf else buf);
          t = (if tree then (case parse_hex_bytes a (drop 5 buf) of None \<Rightarrow> zero_oid | Some x \<Rightarrow> x) else zero_oid) in
      case parent_fields a b of (ps, r) \<Rightarrow> (t, ps, date_loop r))"

section \<open>Checking a layer\<close>

definition graph_key :: "int \<Rightarrow> msg_key" where
  "graph_key g = (at_phase phase_graphs)\<lparr>key_group := g\<rparr>"

definition fanout_lines :: "graph_layer \<Rightarrow> nat \<Rightarrow> nat \<Rightarrow> nat \<Rightarrow> bytes list" where
  "fanout_lines g from to_pos i =
     List.map_filter (\<lambda>k. if fanout_value g k \<noteq> i then
         Some (str ''commit-graph has incorrect fanout value: fanout['' @ dec_digits k @ str ''] = '' @
           dec_digits (fanout_value g k) @ str '' != '' @ dec_digits i)
       else None) [from..<to_pos]"

text \<open>The names in order, with the fanout; the result has the fanout position it ends at.\<close>

fun order_lines :: "algo \<Rightarrow> graph_layer \<Rightarrow> nat list \<Rightarrow> oid \<Rightarrow> nat \<Rightarrow> bytes list \<times> nat" where
  "order_lines a g [] prev pos = ([], pos)"
| "order_lines a g (i # is) prev pos =
     (let cur = graph_oid a g i; b = unat (oid_h cur ! 0);
          bad = 0 < i \<and> 0 \<le> oid_compare prev cur in
      case order_lines a g is cur (max pos b) of
        (ls, end_pos) \<Rightarrow>
          ((if bad then [str ''commit-graph has incorrect OID order: '' @ oid_string prev @ str '' then '' @ oid_string cur] else []) @
           fanout_lines g pos b i @ ls, end_pos))"

definition table_lines :: "algo \<Rightarrow> graph_layer \<Rightarrow> bytes list" where
  "table_lines a g =
     (if length (gl_data g) < raw_size a \<or> \<not> sealed a (gl_data g)
      then [str ''the commit-graph file has incorrect checksum and is likely corrupt''] else []) @
     (case order_lines a g [0..<gl_num g] zero_oid 0 of
        (ls, pos) \<Rightarrow> ls @ fanout_lines g pos 256 (gl_num g))"

definition commit_name :: "oid \<Rightarrow> bytes" where
  "commit_name x = str ''commit '' @ oid_string x"

fun compare_parents :: "oid \<Rightarrow> graph_parent list \<Rightarrow> oid list \<Rightarrow> bytes list" where
  "compare_parents x [] ys = []"
| "compare_parents x (g # gs) [] = [str ''commit-graph parent list for '' @ commit_name x @ str '' is too long'']"
| "compare_parents x (g # gs) (y # ys) =
     (if gp_oid g \<noteq> y then [str ''commit-graph parent for '' @ oid_string x @ str '' is '' @ oid_string (gp_oid g) @ str '' != '' @ oid_string y]
      else []) @ compare_parents x gs ys"

text \<open>The greatest generation of the parents both lists have.\<close>

definition parent_gen :: "graph_parent list \<Rightarrow> oid list \<Rightarrow> nat" where
  "parent_gen gs ys = foldl max 0 (map gp_gen (take (length ys) gs))"

text \<open>The two commits remembered: one without a generation and one with.\<close>

record gen_seen =
  gs_zero :: oid
  gs_some :: oid

definition note_gen :: "oid \<Rightarrow> nat \<Rightarrow> gen_seen \<Rightarrow> gen_seen" where
  "note_gen x n z = (if n \<noteq> 0 then z\<lparr>gs_some := x\<rparr> else z\<lparr>gs_zero := x\<rparr>)"

definition generation_lines :: "graph_layer \<Rightarrow> oid \<Rightarrow> graph_record \<Rightarrow> nat \<Rightarrow> nat \<Rightarrow> bytes list" where
  "generation_lines g x r parents date =
     (let m = (if gl_gen g = None \<and> parents = gen_v1_max then parents - 1 else parents) in
      (if gr_gen r < m + 1 then [str ''commit-graph generation for '' @ commit_name x @ str '' is '' @ dec_digits (gr_gen r) @ str '' < '' @ dec_digits (m + 1)]
       else []) @
      (if gr_date r \<noteq> date then [str ''commit date for '' @ commit_name x @ str '' in commit-graph is '' @ dec_digits (gr_date r) @ str '' != '' @ dec_digits date]
       else []))"

definition compare_commit ::
    "algo \<Rightarrow> graph_layer \<Rightarrow> oid \<Rightarrow> bytes \<Rightarrow> graph_record \<Rightarrow> graph_parent list \<Rightarrow> gen_seen \<Rightarrow> bytes list \<times> gen_seen" where
  "compare_commit a g x buf r gs z =
     (case parse_commit_fields a buf of
        (tree, ys, date) \<Rightarrow>
          (let z1 = note_gen x (gr_gen r) z in
           ((if gr_tree r \<noteq> tree then [str ''root tree OID for '' @ commit_name x @ str '' in commit-graph is '' @ oid_string (gr_tree r) @ str '' != '' @ oid_string tree]
             else []) @
            compare_parents x gs ys @
            (if length gs < length ys then [str ''commit-graph parent list for '' @ commit_name x @ str '' terminates early''] else []) @
            (if valid_oid (gs_zero z1) then [] else generation_lines g x r (parent_gen gs ys) date),
            z1)))"

definition check_graph_commit ::
    "run_env \<Rightarrow> graph_layer list \<Rightarrow> nat \<Rightarrow> nat \<Rightarrow> gen_seen \<Rightarrow> run_state \<Rightarrow> (bytes list \<times> gen_seen \<times> run_state) option" where
  "check_graph_commit v ls n i z s =
     (let a = env_algo v; x = graph_oid a (ls ! n) i in
      do {
        (r, s1) \<leftarrow> run_read v x s;
        (case r of
           Inr (t, buf) \<Rightarrow>
             if t \<noteq> TypeCommit then
               Some ([str ''failed to parse '' @ commit_name x @ str '' from object database for commit-graph''], z, s1)
             else do {
               (rec, ps) \<leftarrow> graph_commit_at a ls n i;
               Some (case ps of
                   None \<Rightarrow> ([str ''failed to parse '' @ commit_name x @ str '' from commit-graph''], z, s1)
                 | Some gs \<Rightarrow> (case compare_commit a (ls ! n) x buf rec gs z of (lines, z1) \<Rightarrow> (lines, z1, s1)))
             }
         | Inl e \<Rightarrow> Some ([str ''failed to parse '' @ commit_name x @ str '' from object database for commit-graph''], z, s1))
      })"

fun check_graph_commits ::
    "run_env \<Rightarrow> graph_layer list \<Rightarrow> nat \<Rightarrow> nat list \<Rightarrow> gen_seen \<Rightarrow> run_state \<Rightarrow> (bool \<times> gen_seen \<times> run_state) option" where
  "check_graph_commits v ls n [] z s = Some (True, z, s)"
| "check_graph_commits v ls n (i # is) z s =
     do {
       (lines, z1, s1) \<leftarrow> check_graph_commit v ls n i z s;
       (ok, z2, s2) \<leftarrow> check_graph_commits v ls n is z1 (fold (err (graph_key 0)) lines s1);
       Some (lines = [] \<and> ok, z2, s2)
     }"

definition verify_one_commit_graph :: "run_env \<Rightarrow> graph_layer list \<Rightarrow> nat \<Rightarrow> run_state \<Rightarrow> (bool \<times> run_state) option" where
  "verify_one_commit_graph v ls n s =
     (let g = ls ! n; lines = table_lines (env_algo v) g in
      if \<not> list_all (\<lambda>i. fanout_value g i \<le> fanout_value g (Suc i)) [0..<255]
      then Some (False, err (graph_key 0) (str ''error: commit-graph fanout values out of order'') s)
      else if lines \<noteq> [] then Some (False, fold (err (graph_key 0)) lines s)
      else do {
        (ok, z, s1) \<leftarrow> check_graph_commits v ls n [0..<gl_num g] \<lparr>gs_zero = zero_oid, gs_some = zero_oid\<rparr> s;
        Some (if valid_oid (gs_zero z) \<and> valid_oid (gs_some z)
              then (False, err (graph_key 0) (str ''commit-graph has both zero and non-zero generations (e.g., commits '' @
                quoted (oid_string (gs_zero z)) @ str '' and '' @ quoted (oid_string (gs_some z)) @ str '')'') s1)
              else (ok, s1))
      })"

text \<open>The layers of a directory, up to the first that will not load.\<close>

fun load_layers :: "algo \<Rightarrow> (bytes \<Rightarrow> stored_file) \<Rightarrow> bytes list \<Rightarrow> bytes + graph_layer list" where
  "load_layers a files [] = Inr []"
| "load_layers a files (p # ps) =
     (case load_commit_graph a p (files p) of
        Inl m \<Rightarrow> Inl m
      | Inr g \<Rightarrow> (case load_layers a files ps of Inl m \<Rightarrow> Inl m | Inr gs \<Rightarrow> Inr (g # gs)))"

fun verify_layers :: "run_env \<Rightarrow> graph_layer list \<Rightarrow> nat list \<Rightarrow> run_state \<Rightarrow> (bool \<times> run_state) option" where
  "verify_layers v ls [] s = Some (True, s)"
| "verify_layers v ls (n # ns) s =
     do {
       (ok, s1) \<leftarrow> verify_one_commit_graph v ls n s;
       (rest, s2) \<leftarrow> verify_layers v ls ns s1;
       Some (ok \<and> rest, s2)
     }"

definition verify_commit_graphs :: "run_env \<Rightarrow> object_dir \<Rightarrow> run_state \<Rightarrow> (bool \<times> run_state) option" where
  "verify_commit_graphs v d s =
     (case load_layers (env_algo v) (re_stored v) (commit_graph_files v d) of
        Inl m \<Rightarrow> Some (False, err (graph_key 0) m (err (graph_key 0) m s))
      | Inr ls \<Rightarrow> verify_layers v ls [0..<length ls] s)"

end
