(* ===== verification/MultiPack.thy ===== *)
theory MultiPack
  imports CommitGraph PackIndex
begin

text \<open>
  The check of a multi-pack-index: \<open>internal/fsckcmd/midx.go\<close>, and \<open>verifyGraphFiles\<close>, which runs it and the
  check of the commit graphs for every object directory. A pack it names is opened from the files of the
  directory.
\<close>

definition midx_magic :: nat where
  "midx_magic = 0x4d494458"

text \<open>\<open>OpenPack\<close> over the files of a directory.\<close>

definition open_pack :: "algo \<Rightarrow> (bytes \<Rightarrow> stored_file) \<Rightarrow> bytes \<Rightarrow> pack option" where
  "open_pack a files idx =
     (case contents_of (files idx) of
        None \<Rightarrow> None
      | Some b \<Rightarrow>
          (case contents_of (files (trim_suffix idx (str ''.idx'') @ str ''.pack'')) of
             None \<Rightarrow> None
           | Some data \<Rightarrow> (case parse_idx (empty_pack a b data) of Inl e \<Rightarrow> None | Inr p \<Rightarrow> Some p)))"

record midx =
  mx_data :: bytes
  mx_names :: "bytes list"
  mx_fanout :: bytes
  mx_lookup :: bytes
  mx_offsets :: bytes
  mx_large :: "bytes option"

text \<open>A file that is no index to check: too small, a fatal message, or a line that ends the check.\<close>

datatype midx_fault = MidxTooSmall | MidxDies bytes | MidxLine bytes

definition midx_names :: "bytes \<Rightarrow> bytes list" where
  "midx_names b = split_on 0 (trim_right (\<lambda>c. c = 0) b)"

fun names_disorder :: "bytes list \<Rightarrow> (bytes \<times> bytes) option" where
  "names_disorder (x # y # ys) = (if y \<le> x then Some (x, y) else names_disorder (y # ys))"
| "names_disorder xs = None"

definition hex8 :: "nat \<Rightarrow> bytes" where
  "hex8 n = replicate (8 - length (hex_nat n)) (ascii CHR ''0'') @ hex_nat n"

definition midx_required :: "bytes \<Rightarrow> midx_fault" where
  "midx_required what = MidxLine (str ''fatal: multi-pack-index required '' @ what @ str '' chunk missing or corrupted'')"

definition midx_chunks :: "(bytes \<Rightarrow> bytes option) \<Rightarrow> bytes \<Rightarrow> nat \<Rightarrow> midx_fault + midx" where
  "midx_chunks get data packs =
     (case get (str ''PNAM'') of
        None \<Rightarrow> Inl (midx_required (str ''pack-name''))
      | Some pnam \<Rightarrow>
          if length (no_bytes (get (str ''OIDF''))) < 256 * 4 then Inl (midx_required (str ''OID fanout''))
          else (case get (str ''OIDL'') of
              None \<Rightarrow> Inl (midx_required (str ''OID lookup''))
            | Some lookup \<Rightarrow>
                (case get (str ''OOFF'') of
                   None \<Rightarrow> Inl (midx_required (str ''object offsets''))
                 | Some offs \<Rightarrow>
                     if length (midx_names pnam) mod 2 ^ 32 \<noteq> packs then
                       Inl (MidxLine (str ''fatal: multi-pack-index pack-name chunk is too short''))
                     else (case names_disorder (midx_names pnam) of
                         Some (x, y) \<Rightarrow> Inl (MidxLine (str ''fatal: multi-pack-index pack names out of order: '' @ quoted x @ str '' before '' @ quoted y))
                       | None \<Rightarrow>
                           Inr \<lparr>mx_data = data, mx_names = midx_names pnam, mx_fanout = no_bytes (get (str ''OIDF'')),
                                mx_lookup = lookup, mx_offsets = offs, mx_large = get (str ''LOFF'')\<rparr>))))"

definition load_midx :: "algo \<Rightarrow> bytes \<Rightarrow> midx_fault + midx" where
  "load_midx a data =
     (let chunks = unat (data ! 6) in
      if length data < 12 + raw_size a then Inl MidxTooSmall
      else if take 4 data \<noteq> str ''MIDX'' then
        Inl (MidxDies (str ''multi-pack-index signature 0x'' @ hex8 (be32 data) @ str '' does not match signature 0x'' @ hex8 midx_magic))
      else if data ! 4 \<noteq> 1 then
        Inl (MidxDies (str ''multi-pack-index version '' @ dec_digits (unat (data ! 4)) @ str '' not recognized''))
      else if unat (data ! 5) \<noteq> alg_format a then
        Inl (MidxDies (str ''multi-pack-index hash version '' @ dec_digits (unat (data ! 5)) @ str '' does not match version '' @ dec_digits (alg_format a)))
      else if length data < 12 + (chunks + 1) * 12 + raw_size a then Inl MidxTooSmall
      else midx_chunks (find_chunk data 12 chunks) data (be32 (drop 8 data)))"

section \<open>The checks\<close>

definition midx_fanout :: "midx \<Rightarrow> nat \<Rightarrow> nat" where
  "midx_fanout x k = be32 (drop (k * 4) (mx_fanout x))"

definition midx_num :: "midx \<Rightarrow> nat" where
  "midx_num x = midx_fanout x 255"

definition midx_oid :: "algo \<Rightarrow> midx \<Rightarrow> nat \<Rightarrow> oid" where
  "midx_oid a x i = from_raw a (drop (i * raw_size a) (mx_lookup x))"

definition midx_packs :: "algo \<Rightarrow> (bytes \<Rightarrow> stored_file) \<Rightarrow> bytes \<Rightarrow> midx \<Rightarrow> pack option list" where
  "midx_packs a files dir x =
     map (\<lambda>name. open_pack a files (slash (slash dir (str ''pack'')) (trim_suffix name (str ''.idx'') @ str ''.idx''))) (mx_names x)"

definition position_lines :: "pack option list \<Rightarrow> bytes list" where
  "position_lines ps =
     List.map_filter (\<lambda>(i, p). if p = None then Some (str ''failed to load pack in position '' @ dec_digits i) else None)
       (zip [0..<length ps] ps)"

definition midx_fanout_lines :: "midx \<Rightarrow> bytes list" where
  "midx_fanout_lines x =
     List.map_filter (\<lambda>i. if midx_fanout x (Suc i) < midx_fanout x i then
         Some (str ''oid fanout out of order: fanout['' @ dec_digits i @ str ''] = '' @ hex_nat (midx_fanout x i) @ str '' > '' @
           hex_nat (midx_fanout x (Suc i)) @ str '' = fanout['' @ dec_digits (Suc i) @ str '']'')
       else None) [0..<255]"

definition midx_order_lines :: "algo \<Rightarrow> midx \<Rightarrow> bytes list" where
  "midx_order_lines a x =
     List.map_filter (\<lambda>i. let prev = midx_oid a x (i - 1); cur = midx_oid a x i in
         if 0 \<le> oid_compare prev cur then
           Some (str ''oid lookup out of order: oid['' @ dec_digits (i - 1) @ str ''] = '' @ oid_string prev @ str '' >= '' @
             oid_string cur @ str '' = oid['' @ dec_digits i @ str '']'')
         else None) [1..<midx_num x]"

text \<open>The offset of an object, from the chunk of large ones when its top bit says so.\<close>

definition midx_offset :: "midx \<Rightarrow> nat \<Rightarrow> nat option" where
  "midx_offset x i =
     (let off = be32 (drop (i * 8 + 4) (mx_offsets x)) in
      if off < 2 ^ 31 then Some off
      else (case mx_large x of
          None \<Rightarrow> None
        | Some large \<Rightarrow>
            (let pos = (off - 2 ^ 31) * 8 in if length large < pos + 8 then None else Some (be64 (drop pos large)))))"

definition midx_pack :: "midx \<Rightarrow> nat \<Rightarrow> nat" where
  "midx_pack x i = be32 (drop (i * 8) (mx_offsets x))"

text \<open>\<open>uint64\<close> of an offset the index gives.\<close>

definition unsigned_offset :: "int \<Rightarrow> nat" where
  "unsigned_offset n = nat (n mod 2 ^ 64)"

definition entry_lines :: "algo \<Rightarrow> midx \<Rightarrow> pack option list \<Rightarrow> nat \<Rightarrow> bytes list" where
  "entry_lines a x ps i =
     (let cur = midx_oid a x i; k = midx_pack x i;
          lost = str ''failed to load pack entry for oid['' @ dec_digits i @ str ''] = '' @ oid_string cur in
      case midx_offset x i of
        None \<Rightarrow> [str ''multi-pack-index large offset out of bounds'']
      | Some off \<Rightarrow>
          if length ps \<le> k then [lost]
          else (case ps ! k of
              None \<Rightarrow> [lost]
            | Some p \<Rightarrow>
                (case find p cur of
                   None \<Rightarrow> [lost]
                 | Some pos \<Rightarrow>
                     if unsigned_offset (offset_at p pos) \<noteq> off then
                       [str ''incorrect object offset for oid['' @ dec_digits i @ str ''] = '' @ oid_string cur @ str '': '' @
                        hex_nat off @ str '' != '' @ hex_nat (unsigned_offset (offset_at p pos))]
                     else [])))"

text \<open>The lines, and whether they end with the complaint about the size.\<close>

definition midx_lines :: "algo \<Rightarrow> midx \<Rightarrow> pack option list \<Rightarrow> bytes list \<times> bool" where
  "midx_lines a x ps =
     (let start = (if sealed a (mx_data x) then [] else [str ''incorrect checksum'']) @ position_lines ps @ midx_fanout_lines x in
      if midx_num x = 0 then (start @ [str ''the midx contains no oid''], False)
      else if length (mx_lookup x) < midx_num x * raw_size a \<or> length (mx_offsets x) < midx_num x * 8 then (start, True)
      else (start @ midx_order_lines a x @ concat (map (entry_lines a x ps) [0..<midx_num x]), False))"

definition too_small_lines :: "bytes \<Rightarrow> bytes list" where
  "too_small_lines path =
     replicate 3 (str ''error: multi-pack-index file '' @ path @ str '' is too small'') @
     [str ''error: multi-pack-index file exists, but failed to parse'']"

definition verify_multi_pack_index :: "run_env \<Rightarrow> object_dir \<Rightarrow> run_state \<Rightarrow> bool \<times> run_state" where
  "verify_multi_pack_index v d s =
     (let a = env_algo v; path = slash (od_shown d) (str ''pack/multi-pack-index'');
          say = (\<lambda>lines s. fold (err (graph_key 1)) lines s) in
      case contents_of (re_stored v (slash (od_path d) (str ''pack/multi-pack-index''))) of
        None \<Rightarrow> (True, s)
      | Some data \<Rightarrow>
          (case load_midx a data of
             Inl MidxTooSmall \<Rightarrow> (False, say (too_small_lines path) s)
           | Inl (MidxDies m) \<Rightarrow> (False, note_fatal_msg m s)
           | Inl (MidxLine m) \<Rightarrow> (False, say [m] s)
           | Inr x \<Rightarrow>
               (case midx_lines a x (midx_packs a (re_stored v) (od_path d) x) of
                  (lines, small) \<Rightarrow>
                    (lines = [] \<and> \<not> small, say (lines @ (if small then too_small_lines path else [])) s))))"

section \<open>Every object directory\<close>

fun verify_graphs :: "run_env \<Rightarrow> object_dir list \<Rightarrow> run_state \<Rightarrow> run_state option" where
  "verify_graphs v [] s = Some s"
| "verify_graphs v (d # ds) s =
     do {
       (ok, s1) \<leftarrow> verify_commit_graphs v d s;
       verify_graphs v ds (if ok then s1 else add_status error_commit_graph s1)
     }"

definition verify_midxs :: "run_env \<Rightarrow> run_state \<Rightarrow> run_state" where
  "verify_midxs v s =
     fold (\<lambda>d s. case verify_multi_pack_index v d s of (ok, s1) \<Rightarrow> if ok then s1 else add_status error_midx s1) (re_dirs v) s"

definition verify_graph_files :: "run_env \<Rightarrow> run_state \<Rightarrow> run_state option" where
  "verify_graph_files v s =
     do {
       s1 \<leftarrow> (if config_bool (re_config v) (str ''core.commitgraph'') True then verify_graphs v (re_dirs v) s else Some s);
       Some (if config_bool (re_config v) (str ''core.multipackindex'') True then verify_midxs v s1 else s1)
     }"

end
