(* ===== verification/CheckerRun.thy ===== *)
theory CheckerRun
  imports Connectivity ObjectPass Heads MultiPack FlushOrder
begin

text \<open>
  The whole run of the checker: \<open>Run\<close> of \<open>internal/fsckcmd/run.go\<close> with the settings it reads. The
  repository and its database are open; what \<open>Open\<close> refuses is left out. The line its decompressor adds
  before a fatal message is left out too. A pass that works in parallel is one order of its steps.
\<close>

section \<open>Settings\<close>

text \<open>\<open>parseSize\<close>; the sum wraps at 64 bits.\<close>

definition parse_size :: "bytes \<Rightarrow> int option" where
  "parse_size s =
     (if s = [] \<or> \<not> list_all (\<lambda>c. ascii CHR ''0'' \<le> c \<and> c \<le> ascii CHR ''9'') s then None
      else Some (sint (foldl (\<lambda>n c. n * 10 + ucast (c - ascii CHR ''0'')) (0 :: 64 word) s)))"

text \<open>A setting changes the options or ends the run with a message.\<close>

definition set_msg_type :: "bytes \<Rightarrow> bytes \<Rightarrow> options \<Rightarrow> bytes + options" where
  "set_msg_type name value q =
     (case msg_id_by_name name of
        None \<Rightarrow> Inl (str ''Unhandled message id: '' @ name)
      | Some i \<Rightarrow>
          (case (if i = MsgLargePathname then
                   (case index_byte value (ascii CHR '':'') of
                      None \<Rightarrow> Inr (q, value)
                    | Some c \<Rightarrow>
                        (case parse_size (drop (Suc c) value) of
                           None \<Rightarrow> Inl (str ''unable to parse max tree entry len: '' @ drop (Suc c) value)
                         | Some n \<Rightarrow> Inr (q\<lparr>max_tree_entry_len := n\<rparr>, take c value)))
                 else Inr (q, value)) of
             Inl m \<Rightarrow> Inl m
           | Inr (q1, val) \<Rightarrow>
               (case parse_severity val of
                  None \<Rightarrow> Inl (str ''Unknown fsck message type: '' @ quoted val)
                | Some sev \<Rightarrow>
                    if sev \<noteq> SevError \<and> default_severity i = SevFatal then
                      Inl (str ''Cannot demote '' @ name @ str '' to '' @ val)
                    else Inr (set_severity q1 i sev))))"

fun skip_lines :: "algo \<Rightarrow> bytes list \<Rightarrow> options \<Rightarrow> bytes + options" where
  "skip_lines a [] q = Inr q"
| "skip_lines a (l # ls) q =
     (let line = trim_space l in
      if line = [] \<or> hd line = ascii CHR ''#'' then skip_lines a ls q
      else (case parse_oid a line of
          None \<Rightarrow> Inl (str ''invalid object name: '' @ line)
        | Some x \<Rightarrow> skip_lines a ls (add_skip q x)))"

definition load_skiplist :: "run_env \<Rightarrow> bytes \<Rightarrow> options \<Rightarrow> bytes + options" where
  "load_skiplist v path q =
     (case contents_of (re_stored v path) of
        None \<Rightarrow> Inl (str ''could not open '' @ quoted path)
      | Some data \<Rightarrow> skip_lines (env_algo v) (split_on (ascii CHR ''\<newline>'') data) q)"

definition apply_setting :: "run_env \<Rightarrow> entry \<Rightarrow> options \<Rightarrow> bytes + options" where
  "apply_setting v e q =
     (case (cut_prefix (map to_lower (e_key e)) (str ''fsck.''), e_value e) of
        (Some name, Some value) \<Rightarrow>
          if name = str ''skiplist'' then load_skiplist v value q else set_msg_type name value q
      | _ \<Rightarrow> Inr q)"

fun apply_config :: "run_env \<Rightarrow> entry list \<Rightarrow> options \<Rightarrow> bytes + options" where
  "apply_config v [] q = Inr q"
| "apply_config v (e # es) q = (case apply_setting v e q of Inl m \<Rightarrow> Inl m | Inr q1 \<Rightarrow> apply_config v es q1)"

section \<open>The run\<close>

text \<open>What a run ends with: its status, the lines it printed with the flag that says standard output, the
  message of a death, which \<open>Stopped\<close> is told, what \<open>ObjectsDamaged\<close> was told, and the files it left. The
  state a run ends in goes with it.\<close>

record run_result =
  rr_status :: nat
  rr_lines :: "(bool \<times> bytes) list"
  rr_fatal :: bytes
  rr_damaged :: "(oid list \<times> bool) option"
  rr_lost :: files

text \<open>What came out so far goes before what a flush prints.\<close>

type_synonym running = "(bool \<times> bytes) list \<times> run_state"

definition flush_run :: "running \<Rightarrow> running" where
  "flush_run r = (case flush (rs_rep (snd r)) of (ls, rep) \<Rightarrow> (fst r @ ls, (snd r)\<lparr>rs_rep := rep\<rparr>))"

definition died :: "run_state \<Rightarrow> bool" where
  "died s \<longleftrightarrow> rs_fatal s \<noteq> []"

definition die :: "(oid list \<times> bool) option \<Rightarrow> running \<Rightarrow> run_result \<times> run_state" where
  "die damaged r =
     (case flush_run r of (ls, s) \<Rightarrow>
        (\<lparr>rr_status = 128, rr_lines = ls @ [(False, str ''fatal: '' @ rs_fatal s)], rr_fatal = rs_fatal s,
          rr_damaged = damaged, rr_lost = rs_lost s\<rparr>, s))"

definition object_phase :: "run_env \<Rightarrow> run_state \<Rightarrow> run_state option" where
  "object_phase v s =
     (if ro_connectivity (rs_opts s) then mark_for_connectivity v s
      else do { s1 \<leftarrow> check_object_dirs v s; finish_deferred_blobs v s1 })"

text \<open>The packed table is read for its message only when the references were.\<close>

definition heads_phase :: "run_env \<Rightarrow> run_state \<Rightarrow> run_state option" where
  "heads_phase v s =
     (let args = ro_args (rs_opts s); refused = snd (packed_refs (re_repo v) (re_files v) []) in
      do {
        s1 \<leftarrow> handle_args v s;
        s2 \<leftarrow> (if args = [] then map_option (\<lambda>s. s\<lparr>rs_opts := (rs_opts s)\<lparr>ro_keep_cache := True\<rparr>\<rparr>) (default_heads v s1)
              else Some s1);
        let s3 = note_no_heads s2;
        Some (if args = [] \<and> refused \<noteq> [] then note_fatal_msg refused s3 else s3)
      })"

definition index_phase :: "run_env \<Rightarrow> run_state \<Rightarrow> run_state option" where
  "index_phase v s = (if ro_keep_cache (rs_opts s) then check_indexes v s else Some s)"

text \<open>From the reverse indexes to the end.\<close>

definition last_phases :: "run_env \<Rightarrow> running \<Rightarrow> (run_result \<times> run_state) option" where
  "last_phases v r =
     (case flush_run (fst r, verify_bitmap_files v (check_pack_rev_indexes v (snd r))) of (ls, s) \<Rightarrow>
        do {
          s1 \<leftarrow> check_connectivity v s;
          damaged \<leftarrow> report_damaged s1;
          if died s1 then Some (die damaged (flush_run (ls, s1)))
          else (case flush_run (ls, s1) of (ls2, s2) \<Rightarrow>
            do {
              s3 \<leftarrow> verify_graph_files v s2;
              (case flush_run (ls2, s3) of (ls4, s4) \<Rightarrow>
                 Some (if died s4 then die damaged (ls4, s4)
                       else (\<lparr>rr_status = unat (rs_status s4), rr_lines = ls4, rr_fatal = [], rr_damaged = damaged,
                               rr_lost = rs_lost s4\<rparr>, s4)))
            })
        })"

definition run_phases :: "run_env \<Rightarrow> run_state \<Rightarrow> (run_result \<times> run_state) option" where
  "run_phases v s0 =
     (case flush_run ([], if ro_refs (rs_opts s0) then run_check_refs v (re_ref_files v) s0 else s0) of (ls, s) \<Rightarrow>
        do {
          s1 \<leftarrow> snapshot_refs v s;
          if died s1 then Some (die None (ls, s1))
          else do {
            s2 \<leftarrow> object_phase v s1;
            (case flush_run (ls, s2) of (ls3, s3) \<Rightarrow>
               if died s3 then Some (die None (ls3, s3))
               else do {
                 s4 \<leftarrow> heads_phase v s3;
                 (case flush_run (ls3, s4) of (ls5, s5) \<Rightarrow>
                    if died s5 then Some (die None (ls5, s5))
                    else do { s6 \<leftarrow> index_phase v s5; last_phases v (flush_run (ls5, s6)) })
               })
          }
        })"

text \<open>\<open>packedObjects\<close>, and the state \<open>Run\<close> starts from.\<close>

definition packed_objects :: "database \<Rightarrow> nat" where
  "packed_objects db = sum_list (map (\<lambda>(opened, p). if opened then pk_num p else 0) (db_packs db))"

definition run_start :: "run_env \<Rightarrow> nat \<Rightarrow> run_options \<Rightarrow> options \<Rightarrow> run_state" where
  "run_start v procs opts q =
     \<lparr>rs_opts = opts, rs_table = new_obj_table procs (packed_objects (re_db v)), rs_db = fresh_state, rs_fsck = q,
      rs_rep = new_reporter, rs_status = 0, rs_heads = 0, rs_fatal = [], rs_pending = [], rs_damaged = [],
      rs_partial = False, rs_lost = Map.empty\<rparr>"

definition start_options :: "run_env \<Rightarrow> run_options \<Rightarrow> options" where
  "start_options v opts =
     (let q = (new_options (env_algo v))\<lparr>strict := ro_strict opts\<rparr> in if ro_names opts then enable_object_names q else q)"

definition big_file_threshold :: "run_env \<Rightarrow> int" where
  "big_file_threshold v = config_int (re_config v) (str ''core.bigfilethreshold'') (512 * 1024 * 1024)"

definition run_fsck :: "run_env \<Rightarrow> nat \<Rightarrow> run_options \<Rightarrow> (run_result \<times> run_state) option" where
  "run_fsck v procs opts =
     (case apply_config v (re_config v) (start_options v opts) of
        Inl m \<Rightarrow> Some (\<lparr>rr_status = 128, rr_lines = [(False, str ''fatal: '' @ m)], rr_fatal = [], rr_damaged = None,
                         rr_lost = Map.empty\<rparr>, run_start v procs opts (start_options v opts))
      | Inr q \<Rightarrow> run_phases (v\<lparr>re_threshold := big_file_threshold v\<rparr>) (run_start v procs opts q))"

end
