(* ===== verification/ScanFacts.thy ===== *)
theory ScanFacts
  imports CheckerRun Reach EdgeArena
begin

text \<open>
  What the steps of a run leave alone. A quiet step prints, counts and reads; a building step also adds
  entries to the table and edges to the arena. \<open>quiets\<close> collects the quiet steps.
\<close>

named_theorems quiets

section \<open>Quiet steps\<close>

definition status_grows :: "run_state \<Rightarrow> run_state \<Rightarrow> bool" where
  "status_grows s s' \<longleftrightarrow> (\<forall>n. bit (rs_status s) n \<longrightarrow> bit (rs_status s') n)"

definition quiet :: "run_state \<Rightarrow> run_state \<Rightarrow> bool" where
  "quiet s s' \<longleftrightarrow> rs_table s' = rs_table s \<and> rs_opts s' = rs_opts s \<and> rs_pending s' = rs_pending s \<and> status_grows s s'"

lemma quiet_refl [quiets, simp]: "quiet s s"
  by (simp add: quiet_def status_grows_def)

lemma quiet_trans: "quiet s s1 \<Longrightarrow> quiet s1 s2 \<Longrightarrow> quiet s s2"
  by (simp add: quiet_def status_grows_def)

lemma quiet_steps [quiets]:
  "quiet s (err k m s)" "quiet s (out k m s)" "quiet s (add_status b s)" "quiet s (note_damaged x r s)"
  "quiet s (note_partial s)" "quiet s (note_fatal_msg m s)" "quiet s (note_fatal v e s)" "quiet s (name_object x n s)"
  "quiet s (s\<lparr>rs_db := d\<rparr>)" "quiet s (s\<lparr>rs_fsck := q\<rparr>)" "quiet s (s\<lparr>rs_rep := rep\<rparr>)" "quiet s (s\<lparr>rs_heads := hn\<rparr>)"
  "quiet s (note_failure ret s)" "quiet s (error_line k m s)"
  by (simp_all add: quiet_def status_grows_def err_def out_def add_status_def note_damaged_def note_partial_def
      note_fatal_msg_def note_fatal_def name_object_def note_failure_def error_line_def bit_or_iff split: read_error.splits)

lemma quiet_fold [quiets]: "(\<And>x s. quiet s (f x s)) \<Longrightarrow> quiet s (fold f xs s)"
  by (induction xs arbitrary: s) (auto intro: quiet_trans)

lemmas quiet_after = quiet_steps [THEN quiet_trans [rotated]]

lemma quiet_fold_after: "quiet s s1 \<Longrightarrow> (\<And>x s. quiet s (f x s)) \<Longrightarrow> quiet s (fold f xs s1)"
  by (rule quiet_trans [OF _ quiet_fold])

lemma quiet_fsck_error [quiets]:
  assumes "fsck_error k f s = Some s'"
  shows "quiet s s'"
proof -
  obtain ty where "printable_type s (f_oid f) (f_type f) = Some ty"
    using assms by (auto simp: fsck_error_def bind_eq_Some_conv)
  with assms show ?thesis by (auto simp: fsck_error_def Let_def quiet_after split: if_splits simp del: str_def)
qed

lemma quiet_fsck_errors [quiets]: "fsck_errors k fs s = Some s' \<Longrightarrow> quiet s s'"
  by (induction fs arbitrary: s) (auto simp: bind_eq_Some_conv intro: quiet_trans quiet_fsck_error)

lemma quiet_run_check [quiets]: "run_check k c s = Some (r, s') \<Longrightarrow> quiet s s'"
  unfolding run_check_def
  by (auto split: prod.splits dest!: quiet_fsck_errors intro: quiet_trans [OF quiet_steps(10)])

lemma quiet_obj_error [quiets]: "obj_error k x m s = Some s' \<Longrightarrow> quiet s s'"
  unfolding obj_error_def by (auto simp: bind_eq_Some_conv intro!: quiet_after)

lemma obj_error_bit: "obj_error k x m s = Some s' \<Longrightarrow> bit (rs_status s') 0"
  unfolding obj_error_def
  by (auto simp: bind_eq_Some_conv err_def add_status_def error_object_def bit_or_iff)

lemma quiet_run_read [quiets]: "run_read v x s = Some (r, s') \<Longrightarrow> quiet s s'"
  unfolding run_read_def
  by (cases r) (auto simp: bind_eq_Some_conv Let_def intro!: quiet_after)

lemma quiet_broken_links [quiets]: "broken_links k x b s = Some s' \<Longrightarrow> quiet s s'"
  unfolding broken_links_def by (auto split: if_splits intro: quiets)

lemma broken_links_bit: "broken_links k x True s = Some s' \<Longrightarrow> bit (rs_status s') 0"
  unfolding broken_links_def by (auto dest: obj_error_bit)

lemma quiet_extra_lines [quiets]:
  assumes "extra_lines k x t buf n s = Some s'"
  shows "quiet s s'"
proof -
  define s1 where "s1 = (if t = TypeCommit \<and> ro_show_root (rs_opts s) \<and> n = 1 then out k (str ''root '' @ shown s x) s else s)"
  have q: "quiet s s1" by (simp add: s1_def quiets)
  have "quiet s1 s'"
    using assms unfolding extra_lines_def Let_def s1_def [symmetric]
    by (auto simp: bind_eq_Some_conv split: if_splits prod.splits intro: quiet_trans quiets)
  with q show ?thesis by (rule quiet_trans)
qed

lemma quiet_parsable [quiets]: "parsable v k x t buf s = (ok, s') \<Longrightarrow> quiet s s'"
  unfolding parsable_def Let_def by (auto split: if_splits intro: quiets)

lemma quiet_finish_blobs [quiets]: "finish_blobs v kind xs s = Some s' \<Longrightarrow> quiet s s'"
proof (induction xs arbitrary: s)
  case (Cons x xs)
  from Cons.prems obtain r s1 ret s2 where r: "run_read v x s = Some (r, s1)" and
    c: "(case r of
           Inl e \<Rightarrow> run_check deferred_key (\<lambda>q. report_missing_blob q x kind) (note_damaged x False s1)
         | Inr (t, data) \<Rightarrow>
             if t \<noteq> TypeBlob then run_check deferred_key (\<lambda>q. report_non_blob q x t kind) s1
             else run_check deferred_key (\<lambda>q. check_blob q x (Some data)) s1) = Some (ret, s2)"
    and f: "finish_blobs v kind xs (note_failure ret s2) = Some s'"
    by (auto simp: bind_eq_Some_conv)
  have "quiet s1 s2"
    using c by (auto split: sum.splits prod.splits if_splits intro: quiet_trans quiets)
  with quiet_run_read [OF r] Cons.IH [OF f] show ?case by (blast intro: quiet_trans quiet_steps(13))
qed simp

lemma quiet_finish [quiets]: "finish_deferred_blobs v s = Some s' \<Longrightarrow> quiet s s'"
  unfolding finish_deferred_blobs_def
  by (auto simp: bind_eq_Some_conv split: prod.splits intro: quiet_trans quiet_finish_blobs)

lemma quiet_flush [quiets]: "quiet (snd r) (snd (flush_run r))"
  by (simp add: flush_run_def flush_def quiets)

lemma quiet_check_refs [quiets]: "quiet s (run_check_refs v l s)"
  unfolding run_check_refs_def by (rule quiet_fold) (simp add: case_prod_beta Let_def quiet_after)

lemma quiet_rev_indexes [quiets]: "quiet s (check_pack_rev_indexes v s)"
proof -
  have "quiet s (check_rev_index v k s)" for k s
    unfolding check_rev_index_def Let_def
    by (cases "re_stored v (trim_suffix (re_pack_os v k) (str ''.pack'') @ str ''.rev'')")
      (simp_all add: quiet_after quiet_fold_after quiet_steps del: str_def)
  then show ?thesis unfolding check_pack_rev_indexes_def by (rule quiet_fold_after [OF quiet_refl])
qed

lemma quiet_bitmaps [quiets]: "quiet s (verify_bitmap_files v s)"
  unfolding verify_bitmap_files_def verify_bitmap_def by (rule quiet_fold) (simp add: quiet_after)

lemma quiet_read_all [quiets]: "read_all v xs s = Some s' \<Longrightarrow> quiet s s'"
  by (induction xs arbitrary: s) (auto simp: bind_eq_Some_conv split: if_splits intro: quiet_trans quiet_run_read)

lemma quiet_snapshot [quiets]: "snapshot_refs v s = Some s' \<Longrightarrow> quiet s s'"
  unfolding snapshot_refs_def by (auto split: if_splits intro: quiets)

end
