(* ===== verification/Growth.thy ===== *)
theory Growth
  imports ScanFacts
begin

text \<open>
  Steps that add to the table of a run. \<open>builds\<close> says what they keep, as long as the state they end in is
  \<open>small\<close> enough for the table and the arena to address; sizes never shrink, so every state before it is.
\<close>

declare flag_reachable_def [simp del] flag_seen_def [simp del] flag_has_obj_def [simp del] flag_used_def [simp del] flag_walked_def [simp del]

section \<open>Entries\<close>

definition four_types :: "obj_type set" where
  "four_types = {TypeCommit, TypeTree, TypeBlob, TypeTag}"

lemma set_type_keeps:
  "en_hash (set_type t e) = en_hash e" "en_ref (set_type t e) = en_ref e" "en_len (set_type t e) = en_len e"
  "k < 24 \<Longrightarrow> has_flag (2 ^ k) (set_type t e) \<longleftrightarrow> has_flag (2 ^ k) e"
  "en_type e \<noteq> TypeNone \<Longrightarrow> set_type t e = e"
  "t \<in> four_types \<Longrightarrow> en_type e = TypeNone \<Longrightarrow> en_type (set_type t e) = t"
proof -
  let ?m = "(en_meta e AND NOT 0xff) OR ucast (word_of_int t :: 8 word)"
  have high: "\<not> bit (ucast (word_of_int t :: 8 word) :: 32 word) (k + 8)" "\<not> bit (255 :: 32 word) (k + 8)" for k
    using bit_imp_le_length [of "word_of_int t :: 8 word" "k + 8"] bit_mask_iff [of 8 "k + 8", where ?'a = "32 word"]
    by (auto simp: bit_simps mask_numeral)
  have "bit ?m (k + 8) \<longleftrightarrow> bit (en_meta e) (k + 8)" if "k < 24"
    using that high [of k] by (simp only: bit_or_iff bit_and_iff bit_not_iff) (simp add: possible_bit_def)
  then show "k < 24 \<Longrightarrow> has_flag (2 ^ k) (set_type t e) \<longleftrightarrow> has_flag (2 ^ k) e"
    by (simp add: set_type_def flag_bit)
  have "(ucast ?m :: 8 word) = word_of_int t"
  proof (rule bit_word_eqI)
    fix n assume "n < LENGTH(8)"
    moreover from this have "bit (255 :: 32 word) n" using bit_mask_iff [of 8 n, where ?'a = "32 word"] by (simp add: mask_numeral)
    ultimately show "bit (ucast ?m :: 8 word) n = bit (word_of_int t :: 8 word) n" by (auto simp: bit_simps)
  qed
  then show "t \<in> four_types \<Longrightarrow> en_type e = TypeNone \<Longrightarrow> en_type (set_type t e) = t"
    by (auto simp: set_type_def en_type_def four_types_def)
qed (simp_all add: set_type_def)

definition same_core :: "obj_entry \<Rightarrow> obj_entry \<Rightarrow> bool" where
  "same_core e e' \<longleftrightarrow> en_hash e' = en_hash e \<and> en_ref e' = en_ref e \<and> en_len e' = en_len e \<and>
     has_flag flag_reachable e' = has_flag flag_reachable e \<and> has_flag flag_has_obj e' = has_flag flag_has_obj e \<and>
     has_flag flag_walked e' = has_flag flag_walked e \<and> (en_type e \<noteq> TypeNone \<longrightarrow> en_type e' = en_type e)"

lemma same_core_refl [simp]: "same_core e e"
  by (simp add: same_core_def)

lemma same_core_trans: "same_core e e1 \<Longrightarrow> same_core e1 e2 \<Longrightarrow> same_core e e2"
  by (simp add: same_core_def)

lemma same_core_steps:
  "same_core e (set_type t e)" "same_core e (snd (set_flag flag_used e))" "same_core e (snd (set_flag flag_seen e))"
proof -
  note k = set_type_keeps(4) [of _ t e]
  show "same_core e (set_type t e)"
    unfolding same_core_def flag_numbers k [of 0, simplified] k [of 2, simplified] k [of 4, simplified]
    by (simp add: set_type_keeps k [of 0, simplified] k [of 2, simplified] k [of 4, simplified])
  have "same_core e (snd (set_flag (2 ^ k) e))" if "k = 3 \<or> k = 1" for k
  proof -
    have "k < 24" using that by auto
    note s = set_flag_keeps [OF this]
    show ?thesis unfolding same_core_def flag_numbers using that by (auto simp: s(1-4) s(5) [of 0 e, simplified] s(5) [of 2 e, simplified] s(5) [of 4 e, simplified])
  qed
  from this [of 3] this [of 1] show "same_core e (snd (set_flag flag_used e))" "same_core e (snd (set_flag flag_seen e))"
    unfolding flag_numbers by simp_all
qed

lemma new_entry_core:
  "\<not> has_flag f (new_entry h)" "en_type (new_entry h) = TypeNone" "en_hash (new_entry h) = h"
  by (simp_all add: new_entry_def has_flag_def flags_def en_type_def)

section \<open>Steps that build\<close>

definition table_ok :: "run_state \<Rightarrow> bool" where
  "table_ok s \<longleftrightarrow> table_inv (rs_table s) \<and> arena_inv (ot_arena (rs_table s))"

definition slab_count :: "run_state \<Rightarrow> nat" where
  "slab_count s = length (ar_slabs (ot_arena (rs_table s)))"

definition small :: "run_state \<Rightarrow> bool" where
  "small s \<longleftrightarrow> entry_count s < max_objects \<and> Suc (slab_count s) < 2 ^ 32"

definition keeps_edges :: "arena \<Rightarrow> arena \<Rightarrow> bool" where
  "keeps_edges a a' \<longleftrightarrow> (\<forall>sl p es. in_arena a sl p es \<longrightarrow> in_arena a' sl p es)"

definition grown :: "run_state \<Rightarrow> run_state \<Rightarrow> bool" where
  "grown s s' \<longleftrightarrow> table_ok s' \<and> keeps_edges (ot_arena (rs_table s)) (ot_arena (rs_table s')) \<and>
     (\<forall>i < entry_count s. same_core (entry_at s i) (entry_at s' i)) \<and>
     (\<forall>i < entry_count s'. entry_count s \<le> i \<longrightarrow> \<not> marked s' i \<and> \<not> present s' i)"

definition builds :: "run_state \<Rightarrow> run_state \<Rightarrow> bool" where
  "builds s s' \<longleftrightarrow> entry_count s \<le> entry_count s' \<and> slab_count s \<le> slab_count s' \<and> rs_opts s' = rs_opts s \<and>
     rs_pending s' = rs_pending s \<and> status_grows s s' \<and> (table_ok s \<longrightarrow> small s' \<longrightarrow> grown s s')"

lemma builds_small: "builds s s' \<Longrightarrow> small s' \<Longrightarrow> small s"
  by (simp add: builds_def small_def)

lemma builds_ok: "builds s s' \<Longrightarrow> table_ok s \<Longrightarrow> small s' \<Longrightarrow> table_ok s'"
  by (simp add: builds_def grown_def)

lemma grown_trans:
  assumes "grown s s1" and "grown s1 s2" and "entry_count s \<le> entry_count s1"
  shows "grown s s2"
proof -
  have "same_core (entry_at s i) (entry_at s2 i)" if "i < entry_count s" for i
    using assms that same_core_trans unfolding grown_def by (meson less_le_trans)
  moreover have "\<not> marked s2 i \<and> \<not> present s2 i" if "i < entry_count s2" "entry_count s \<le> i" for i
  proof (cases "i < entry_count s1")
    case True
    then have "same_core (entry_at s1 i) (entry_at s2 i)" "\<not> marked s1 i" "\<not> present s1 i"
      using assms that by (simp_all add: grown_def)
    then show ?thesis by (simp add: same_core_def marked_def present_def)
  qed (use assms that in \<open>simp add: grown_def\<close>)
  ultimately show ?thesis using assms(1,2) unfolding grown_def keeps_edges_def by blast
qed

lemma builds_trans:
  assumes "builds s s1" and "builds s1 s2"
  shows "builds s s2"
proof -
  have "grown s s2" if "table_ok s" "small s2"
    using assms that grown_trans builds_small [OF assms(2)] builds_ok [OF assms(1)]
    unfolding builds_def by blast
  then show ?thesis using assms unfolding builds_def status_grows_def by auto
qed

lemma builds_quiet: "quiet s s' \<Longrightarrow> builds s s'"
  by (auto simp: builds_def quiet_def grown_def entry_count_def slab_count_def table_ok_def entry_at_def keeps_edges_def)

lemma builds_refl [simp]: "builds s s"
  by (rule builds_quiet) simp

text \<open>One entry changed in ways the core does not see.\<close>

lemma builds_update:
  assumes "\<And>e. same_core e (f e)"
  shows "builds s (update_entry i f s)"
proof -
  have at: "same_core (entry_at s j) (entry_at (update_entry i f s) j)" if "j < entry_count s" for j
    using assms that by (cases "i < entry_count s") (auto simp: entry_at_update, simp add: update_entry_def set_entry_def entry_at_def entry_count_def)
  have "en_hash (f (entry_at s i)) = en_hash (ot_entries (rs_table s) ! i)" using assms by (simp add: same_core_def entry_at_def)
  then have "table_inv (rs_table s) \<Longrightarrow> table_inv (rs_table (update_entry i f s))"
    by (simp add: update_entry_def table_inv_set_entry)
  with at show ?thesis
    by (auto simp: builds_def grown_def keeps_edges_def table_ok_def update_entry_def set_entry_def entry_count_def slab_count_def
        status_grows_def)
qed

lemma builds_used: "builds s (snd (flag_entry flag_used i s))" "builds s (use_entry i s)"
  by (simp_all add: flag_entry_def use_entry_def builds_update same_core_steps)

lemma builds_seen: "builds s (snd (flag_entry flag_seen i s))"
  by (simp add: flag_entry_def builds_update same_core_steps)

lemma ensure_type_builds: "ensure_type v i s = Some (t, s') \<Longrightarrow> builds s s'"
  by (auto simp: ensure_type_def bind_eq_Some_conv builds_update same_core_steps split: if_splits option.splits)

section \<open>Lookups\<close>

lemma table_lookup_sizes:
  assumes "table_lookup t h want = Some (t', r)"
  shows "length (ot_entries t) \<le> length (ot_entries t')" "ot_arena t' = ot_arena t"
  using assms by (auto simp: table_lookup_def Let_def set_entry_def split: option.splits probe_result.splits if_splits)

lemma core_update: "i < length es \<Longrightarrow> same_core (es ! k) e \<Longrightarrow> same_core (es ! i) (es[k := e] ! i)"
  by (cases "k = i") auto

lemma lookup_core:
  assumes "i < length es"
  shows "same_core (es ! i) (fst (lookup_spec es h want) ! i)"
  using assms by (auto simp: lookup_spec_def nth_append reconcile_def split: option.splits if_splits intro!: core_update same_core_steps(1))

lemma lookup_new:
  assumes "i < length (fst (lookup_spec es h want))" and "length es \<le> i"
  shows "\<not> has_flag flag_reachable (fst (lookup_spec es h want) ! i)" "\<not> has_flag flag_has_obj (fst (lookup_spec es h want) ! i)"
proof -
  have "fst (lookup_spec es h want) ! i = (if want \<noteq> TypeAny then set_type want (new_entry h) else new_entry h)"
    using assms by (auto simp: lookup_spec_def nth_append split: option.splits if_splits)
  then show "\<not> has_flag flag_reachable (fst (lookup_spec es h want) ! i)" "\<not> has_flag flag_has_obj (fst (lookup_spec es h want) ! i)"
    using same_core_steps(1) [of "new_entry h" want] by (auto simp: same_core_def new_entry_core)
qed

lemma lookup_hit:
  assumes "snd (lookup_spec es h want) = Some i"
  shows "i < length (fst (lookup_spec es h want))" "en_hash (fst (lookup_spec es h want) ! i) = h"
    "want \<in> four_types \<Longrightarrow> en_type (fst (lookup_spec es h want) ! i) = want"
proof -
  have any: "want \<in> four_types \<Longrightarrow> want \<noteq> TypeAny" by (auto simp: four_types_def)
  show "i < length (fst (lookup_spec es h want))" "en_hash (fst (lookup_spec es h want) ! i) = h"
    "want \<in> four_types \<Longrightarrow> en_type (fst (lookup_spec es h want) ! i) = want"
    using assms entry_index_Some [of es h] any
    by (auto simp: lookup_spec_def reconcile_def set_type_keeps new_entry_core split: option.splits if_splits)
qed

lemma run_lookup_builds:
  assumes "run_lookup x want s = Some (r, s')"
  shows "builds s s'" "ot_arena (rs_table s') = ot_arena (rs_table s)"
    "table_ok s \<Longrightarrow> small s' \<Longrightarrow> r = Some i \<Longrightarrow> i < entry_count s' \<and> en_hash (entry_at s' i) = oid_h x \<and>
       (want \<in> four_types \<longrightarrow> en_type (entry_at s' i) = want)"
proof -
  obtain t where t: "table_lookup (rs_table s) (oid_h x) want = Some (t, r)" and s': "s' = s\<lparr>rs_table := t\<rparr>"
    using assms by (auto simp: run_lookup_def bind_eq_Some_conv)
  note sizes = table_lookup_sizes [OF t]
  show "ot_arena (rs_table s') = ot_arena (rs_table s)" using sizes(2) by (simp add: s')
  have spec: "ot_entries t = fst (lookup_spec (ot_entries (rs_table s)) (oid_h x) want)"
    "r = snd (lookup_spec (ot_entries (rs_table s)) (oid_h x) want)" "table_inv t" if "table_ok s" "small s'"
  proof -
    have "length (ot_entries (rs_table s)) < max_objects" using that(2) sizes(1) by (simp add: small_def entry_count_def s')
    from table_lookup_exact [OF _ this, of "oid_h x" want] that(1) t
    show "ot_entries t = fst (lookup_spec (ot_entries (rs_table s)) (oid_h x) want)"
      "r = snd (lookup_spec (ot_entries (rs_table s)) (oid_h x) want)" "table_inv t"
      by (auto simp: table_ok_def)
  qed
  have "grown s s'" if "table_ok s" "small s'"
    using spec [OF that] that sizes lookup_core lookup_new
    by (auto simp: grown_def table_ok_def keeps_edges_def s' entry_count_def entry_at_def marked_def present_def)
  then show "builds s s'" using sizes by (simp add: builds_def s' entry_count_def slab_count_def status_grows_def)
  show "i < entry_count s' \<and> en_hash (entry_at s' i) = oid_h x \<and> (want \<in> four_types \<longrightarrow> en_type (entry_at s' i) = want)"
    if "table_ok s" "small s'" "r = Some i"
    using spec [OF that(1,2)] lookup_hit [of "ot_entries (rs_table s)" "oid_h x" want i] that(3)
    by (auto simp: s' entry_count_def entry_at_def)
qed

end
