(* ===== verification/EdgeScan.thy ===== *)
theory EdgeScan
  imports Growth
begin

text \<open>
  The edges the object pass records: each link becomes an edge to the entry of its target, and what was
  written stays in the arena.
\<close>

section \<open>Edges\<close>

lemma edge_refused: "\<not> edge_ok (make_edge w False t)"
proof -
  have "bit (make_edge w False t AND edge_unresolved) 31"
    by (simp add: make_edge_def edge_unresolved_def bit_simps)
  then show ?thesis unfolding edge_ok_def by force
qed

lemma edge_resolved:
  assumes "i < max_objects"
  shows "edge_ok (make_edge (word_of_nat i) True t)" "unat (make_edge (word_of_nat i) True t) = i"
proof -
  have i: "unat (word_of_nat i :: 32 word) = i" using assms by (simp add: idx_word max_objects_def)
  then show "unat (make_edge (word_of_nat i) True t) = i" by (simp add: make_edge_def)
  have u: "edge_unresolved = 2 ^ 31" by (simp add: edge_unresolved_def)
  have "\<not> bit (word_of_nat i :: 32 word) 31"
  proof
    assume "bit (word_of_nat i :: 32 word) 31"
    then have "bit (unat (word_of_nat i :: 32 word)) 31" by (simp only: bit_unsigned_iff) simp
    then have "bit i 31" unfolding i .
    then show False using assms by (simp add: bit_iff_odd max_objects_def)
  qed
  then show "edge_ok (make_edge (word_of_nat i) True t)"
    unfolding edge_ok_def make_edge_def u and_exp_eq_0_iff_not_bit by simp
qed

definition link_met :: "run_state \<Rightarrow> bool \<Rightarrow> oid \<times> obj_type \<Rightarrow> edge \<Rightarrow> bool" where
  "link_met s broken l e \<longleftrightarrow>
     (if edge_ok e then unat e < entry_count s \<and> en_hash (entry_at s (unat e)) = oid_h (fst l) else broken)"

lemma link_met_later:
  assumes "builds s s'" and "table_ok s" and "small s'" and "link_met s b l e" and "b \<Longrightarrow> b'"
  shows "link_met s' b' l e"
  using assms by (auto simp: link_met_def builds_def grown_def same_core_def split: if_splits)

lemma resolve_links_met:
  assumes "resolve_links ls s = Some (es, broken, s')"
  shows "builds s s' \<and> ot_arena (rs_table s') = ot_arena (rs_table s) \<and> length es = length ls \<and>
    (table_ok s \<longrightarrow> small s' \<longrightarrow> list_all2 (link_met s' broken) ls es)"
  using assms
proof (induction ls arbitrary: s es broken s')
  case (Cons l ls)
  obtain x t where l: "l = (x, t)" by (cases l)
  obtain target s1 es1 b1 where look: "run_lookup x t s = Some (target, s1)" and
    rest: "resolve_links ls (case target of None \<Rightarrow> s1 | Some i \<Rightarrow> snd (flag_entry flag_used i s1)) = Some (es1, b1, s')" and
    es: "es = make_edge (word_of_nat (case target of None \<Rightarrow> 0 | Some i \<Rightarrow> i)) (target \<noteq> None) t # es1" and
    b: "broken \<longleftrightarrow> b1 \<or> target = None"
    using Cons.prems by (auto simp: l Let_def bind_eq_Some_conv split: prod.splits)
  define s2 where "s2 = (case target of None \<Rightarrow> s1 | Some i \<Rightarrow> snd (flag_entry flag_used i s1))"
  note rest = rest [folded s2_def]
  note b1 = run_lookup_builds [OF look]
  have b2: "builds s1 s2" by (simp add: s2_def builds_used split: option.splits)
  have a2: "ot_arena (rs_table s2) = ot_arena (rs_table s1)"
    by (simp add: s2_def flag_entry_def update_entry_def set_entry_def split: option.splits)
  note IH = Cons.IH [OF rest]
  have bs: "builds s s2" using b1(1) b2 by (rule builds_trans)
  have met: "list_all2 (link_met s' broken) (l # ls) es" if ok: "table_ok s" "small s'"
  proof -
    have small: "small s2" "small s1" using builds_small IH b2 ok by blast+
    have ok2: "table_ok s1" "table_ok s2" using builds_ok b1(1) bs ok small by blast+
    have "link_met s' broken l (hd es)"
    proof (cases target)
      case None
      then show ?thesis using edge_refused [of 0 t] by (simp add: link_met_def es b)
    next
      case (Some i)
      have i: "i < entry_count s1" "en_hash (entry_at s1 i) = oid_h x"
        using b1(3) [OF ok(1) small(2) Some] by simp_all
      have core: "same_core (entry_at s1 i) (entry_at s' i)" "entry_count s1 \<le> entry_count s'"
        using builds_trans [OF b2] IH ok2(1) ok(2) i(1) by (auto simp: builds_def grown_def)
      have "i < max_objects" using i(1) small(2) by (simp add: small_def)
      note e = edge_resolved [OF this, of t]
      show ?thesis using i core Some e by (simp add: link_met_def es l same_core_def)
    qed
    moreover have "list_all2 (link_met s' broken) ls es1"
      using IH ok2 ok by (auto simp: b link_met_def elim!: list_all2_mono split: if_splits)
    ultimately show ?thesis by (simp add: es)
  qed
  then show ?case using builds_trans [OF bs] IH a2 b1(2) es by auto
qed simp

section \<open>The arena\<close>

lemma arena_alloc_slabs:
  assumes "arena_alloc pick n a = (sp, a')"
  shows "length (ar_slabs a) \<le> length (ar_slabs a')"
  using assms
  by (auto simp: arena_alloc_def new_slab_def take_chunk_def split: prod.splits option.splits if_splits)

lemma arena_write_slabs: "length (ar_slabs (arena_write sp es a)) = length (ar_slabs a)"
  by (simp add: arena_write_def)

lemma alloc_builds:
  assumes "alloc_edges v n s = (sp, s1)"
  shows "builds s s1"
proof -
  obtain a where a: "arena_alloc (re_pick v (ot_arena (rs_table s))) n (ot_arena (rs_table s)) = (sp, a)"
    and s1: "s1 = s\<lparr>rs_table := (rs_table s)\<lparr>ot_arena := a\<rparr>\<rparr>"
    using assms by (auto simp: alloc_edges_def split: prod.splits)
  have "arena_inv a \<and> keeps_edges (ot_arena (rs_table s)) a" if "arena_inv (ot_arena (rs_table s))"
  proof (cases "n = 0")
    case True
    then show ?thesis using a that by (simp add: arena_alloc_def keeps_edges_def)
  next
    case False
    then show ?thesis using arena_alloc_room [OF that _ a] by (auto simp: room_at_def keeps_edges_def)
  qed
  then show ?thesis using arena_alloc_slabs [OF a]
    by (auto simp: builds_def grown_def s1 entry_count_def slab_count_def status_grows_def table_ok_def table_inv_arena entry_at_def)
qed

lemma link_edges_met:
  assumes run: "link_edges v room ls s = Some (sp, es, broken, s')" and fits: "length ls \<le> room" "room < 2 ^ 32"
  shows "builds s s'" "length es = length ls"
    "table_ok s \<Longrightarrow> small s' \<Longrightarrow> list_all2 (link_met s' broken) ls es \<and>
       (es \<noteq> [] \<longrightarrow> in_arena (ot_arena (rs_table s')) (span_slab sp) (span_pos sp) es)"
proof -
  obtain s1 s2 where al: "alloc_edges v room s = (sp, s1)" and res: "resolve_links ls s1 = Some (es, broken, s2)"
    and s': "s' = write_edges sp es s2"
    using run by (auto simp: link_edges_def bind_eq_Some_conv split: prod.splits)
  note b1 = alloc_builds [OF al]
  note r = resolve_links_met [OF res]
  have b12: "builds s s2" using builds_trans [OF b1] r by blast
  have e': "entry_count s' = entry_count s2" "entry_at s' = entry_at s2" "slab_count s' = slab_count s2" "rs_opts s' = rs_opts s2"
    "rs_pending s' = rs_pending s2" "rs_status s' = rs_status s2" "table_inv (rs_table s') = table_inv (rs_table s2)"
    by (simp_all add: s' write_edges_def entry_count_def entry_at_def fun_eq_iff slab_count_def arena_write_slabs table_inv_arena)
  show len: "length es = length ls" using r by blast
  define a where "a = ot_arena (rs_table s)"
  have st: "arena_store (re_pick v a) room es a = (sp\<lparr>sp_n := word_of_nat (length es)\<rparr>, ot_arena (rs_table s'))"
    using al r by (auto simp: arena_store_def alloc_edges_def a_def s' write_edges_def split: prod.splits)
  have ar: "arena_inv (ot_arena (rs_table s'))" "keeps_edges a (ot_arena (rs_table s'))"
    "es \<noteq> [] \<Longrightarrow> in_arena (ot_arena (rs_table s')) (span_slab sp) (span_pos sp) es"
    if ok: "table_ok s" "small s'"
  proof -
    have "slab_count s \<le> slab_count s'" using b12 e' by (simp add: builds_def)
    then have room: "Suc (length (ar_slabs a)) < 2 ^ 32" using ok(2) by (simp add: small_def slab_count_def a_def)
    note k = arena_store_keeps [OF _ _ fits(2) room st]
    show "arena_inv (ot_arena (rs_table s'))" "keeps_edges a (ot_arena (rs_table s'))"
      "es \<noteq> [] \<Longrightarrow> in_arena (ot_arena (rs_table s')) (span_slab sp) (span_pos sp) es"
      using k ok(1) fits(1) len by (auto simp: table_ok_def a_def keeps_edges_def span_slab_def span_pos_def)
  qed
  have small2: "small s' \<Longrightarrow> small s2" by (simp add: small_def e')
  have core: "marked s' = marked s2" "present s' = present s2" by (simp_all add: fun_eq_iff marked_def present_def e')
  have "grown s s'" if "table_ok s" "small s'"
    using b12 ar(1,2) that small2 by (auto simp: builds_def grown_def table_ok_def e' core a_def)
  then show "builds s s'" using b12 by (simp add: builds_def e' status_grows_def)
  show "list_all2 (link_met s' broken) ls es \<and>
       (es \<noteq> [] \<longrightarrow> in_arena (ot_arena (rs_table s')) (span_slab sp) (span_pos sp) es)" if "table_ok s" "small s'"
  proof
    have "table_ok s1" using builds_ok [OF b1 that(1)] builds_small [of s1 s2] r small2 [OF that(2)] by blast
    then have "list_all2 (link_met s2 broken) ls es" using r small2 [OF that(2)] by blast
    moreover have "link_met s' = link_met s2" by (simp add: fun_eq_iff link_met_def e')
    ultimately show "list_all2 (link_met s' broken) ls es" by simp
  qed (use ar(3) that in blast)
qed

end
