(* ===== verification/ObjectScan.thy ===== *)
theory ObjectScan
  imports EdgeScan
begin

text \<open>
  The object pass establishes what the walk from the roots needs: every entry with an object has its type
  and, in the arena, an edge for every link of contents that were read and checked under its name.
\<close>

declare flag_reachable_def [simp del] flag_seen_def [simp del] flag_has_obj_def [simp del] flag_used_def [simp del] flag_walked_def [simp del]

section \<open>Links of checked objects\<close>

definition object_links :: "algo \<Rightarrow> obj_type \<Rightarrow> bytes option \<Rightarrow> (oid \<times> obj_type) list" where
  "object_links a t buf = map (\<lambda>l. (ln_oid l, ln_type l)) (fst (walk_links t zero_oid (contents buf) a [] False))"

lemma plain_link_fields [simp]: "ln_oid (plain_link x t n) = x" "ln_type (plain_link x t n) = t"
  by (simp_all add: plain_link_def)

lemma parent_links_same:
  "map (\<lambda>l. (ln_oid l, ln_type l)) (fst (parent_links x a name named c b)) =
   map (\<lambda>l. (ln_oid l, ln_type l)) (fst (parent_links x' a name' named' c' b))"
proof (induction "length b" arbitrary: b c c' rule: less_induct)
  case less
  show ?case
  proof (cases "hex_size a + 7 < length b \<and> take 7 b = str ''parent ''")
    case True
    then have shorter: "length (drop (8 + hex_size a) b) < length b" by (cases b) auto
    show ?thesis
      using less [OF shorter, of "Suc c" "Suc c'"] True
      by (subst (1 2) parent_links.simps) (cases "parse_hex_bytes a (drop 7 b)"; cases "b ! (7 + hex_size a) = 10"; simp add: case_prod_beta split del: if_split del: str_def)
  qed (subst (1 2) parent_links.simps, simp only: if_False)
qed

lemma walk_links_same:
  "map (\<lambda>l. (ln_oid l, ln_type l)) (fst (walk_links t x (contents buf) a name named)) = object_links a t buf"
proof -
  have entry: "map_option (\<lambda>l. (ln_oid l, ln_type l)) (entry_link name named e) =
      map_option (\<lambda>l. (ln_oid l, ln_type l)) (entry_link [] False e)" for e
    by (simp add: entry_link_def split: prod.splits)
  have tree: "map (\<lambda>l. (ln_oid l, ln_type l)) (List.map_filter (entry_link name named) es) =
      map (\<lambda>l. (ln_oid l, ln_type l)) (List.map_filter (entry_link [] False) es)" for es
  proof (induction es)
    case (Cons e es)
    then show ?case using entry [of e] by (cases "entry_link name named e"; cases "entry_link [] False e") auto
  qed simp
  have commit: "map (\<lambda>l. (ln_oid l, ln_type l)) (fst (commit_links x b a name named)) =
      map (\<lambda>l. (ln_oid l, ln_type l)) (fst (commit_links zero_oid b a [] False))" for b
    using parent_links_same [of x a name named 0 "drop (6 + hex_size a) b" zero_oid "[]" False 0]
    by (cases "parse_hex_bytes a (drop 5 b)"; cases "length b \<le> hex_size a + 5 \<or> take 5 b \<noteq> str ''tree '' \<or> b ! (5 + hex_size a) \<noteq> 10";
      simp add: commit_links_def case_prod_beta split del: if_split del: str_def)
  have tag: "map (\<lambda>l. (ln_oid l, ln_type l)) (fst (tag_links x b a name named)) =
      map (\<lambda>l. (ln_oid l, ln_type l)) (fst (tag_links zero_oid b a [] False))" for b
    by (simp add: tag_links_def Let_def split: option.splits del: str_def index_byte_None)
  show ?thesis
    using tree commit tag by (simp add: object_links_def walk_links_def tree_links_def tree_links_from_def)
qed

lemma tree_targets_links: "tree_targets (fst (parse_tree (contents buf) a)) = object_links a TypeTree buf"
proof -
  have "List.map_filter (\<lambda>e. case walk_kind e of (t, go) \<Rightarrow> if go then Some (te_oid e, t) else None) es =
      map (\<lambda>l. (ln_oid l, ln_type l)) (List.map_filter (entry_link [] False) es)" for es
    by (induction es) (simp_all add: entry_link_def split: prod.splits)
  then show ?thesis by (simp add: tree_targets_def object_links_def walk_links_def tree_links_def tree_links_from_def)
qed

section \<open>What is checked and what is recorded\<close>

text \<open>Contents the pass has read and checked under a name, in a loose file or in a pack.\<close>

definition loose_found :: "run_env \<Rightarrow> nat \<Rightarrow> oid set" where
  "loose_found v d = {x. \<exists>p. LooseObject x p \<in> set (concat (map (loose_names v (re_dirs v ! d)) [0..<256]))}"

definition loose_check :: "run_env \<Rightarrow> nat \<Rightarrow> oid \<Rightarrow> loose_result" where
  "loose_check v d x = read_loose (env_algo v) (file_at v d x) x (re_threshold v)"

definition pack_walk :: "run_env \<Rightarrow> nat \<Rightarrow> (bool \<times> verify_event list) option" where
  "pack_walk v k = verify (re_verify v k) (re_crc v) (re_pack_file v k) 0 (fst (db_packs (re_db v) ! k))"

inductive checked :: "run_env \<Rightarrow> bool \<Rightarrow> bytes \<Rightarrow> obj_type \<Rightarrow> bytes option \<Rightarrow> bool" for v full where
  loose: "d < length (re_dirs v) \<Longrightarrow> x \<in> loose_found v d \<Longrightarrow> \<not> lr_failed (loose_check v d x) \<Longrightarrow>
    checked v full (oid_h x) (lr_type (loose_check v d x)) (lr_contents (loose_check v d x))"
| packed: "full \<Longrightarrow> k < length (db_packs (re_db v)) \<Longrightarrow> pack_walk v k = Some (ok, es) \<Longrightarrow>
    Walked (Object x t n buf) \<in> set es \<Longrightarrow> checked v full (oid_h x) t buf"

definition edges_at :: "arena \<Rightarrow> obj_entry \<Rightarrow> edge list \<Rightarrow> bool" where
  "edges_at a e es \<longleftrightarrow> unat (en_len e) = length es \<and>
     (es \<noteq> [] \<longrightarrow> in_arena a (span_slab \<lparr>sp_ref = en_ref e, sp_n = en_len e\<rparr>) (span_pos \<lparr>sp_ref = en_ref e, sp_n = en_len e\<rparr>) es)"

definition object_bit :: "run_state \<Rightarrow> bool" where
  "object_bit s \<longleftrightarrow> bit (rs_status s) 0"

definition recorded :: "run_env \<Rightarrow> run_state \<Rightarrow> nat \<Rightarrow> bool" where
  "recorded v s i \<longleftrightarrow>
     (\<exists>t buf es. checked v (ro_full (rs_opts s)) (en_hash (entry_at s i)) t buf \<and> t \<in> four_types \<and>
        en_type (entry_at s i) = t \<and> has_flag flag_walked (entry_at s i) \<and>
        edges_at (ot_arena (rs_table s)) (entry_at s i) es \<and>
        list_all2 (link_met s (object_bit s)) (object_links (env_algo v) t buf) es)"

lemma edges_at_read:
  assumes "edges_at a e es" and "has_flag flag_walked e"
  shows "table_edges (t\<lparr>ot_arena := a\<rparr>) e = Some es"
proof (cases "es = []")
  case True
  then have "en_len e = 0" using assms(1) by (simp add: edges_at_def unat_eq_0)
  then show ?thesis using assms(2) True by (simp add: table_edges_def has_flag_def arena_at_def)
next
  case False
  then have "unat (en_len e) = length es" "in_arena a (span_slab \<lparr>sp_ref = en_ref e, sp_n = en_len e\<rparr>) (span_pos \<lparr>sp_ref = en_ref e, sp_n = en_len e\<rparr>) es"
    using assms(1) by (simp_all add: edges_at_def)
  moreover from this False have "en_len e \<noteq> 0" by auto
  ultimately show ?thesis using assms(2) by (auto simp: table_edges_def has_flag_def arena_at_def in_arena_def)
qed

text \<open>The record of an entry stays when its core does.\<close>

lemma recorded_moves:
  assumes rec: "recorded v s i" and core: "same_core (entry_at s i) (entry_at s' i)"
    and n: "entry_count s \<le> entry_count s'" and hash: "\<And>k. k < entry_count s \<Longrightarrow> en_hash (entry_at s' k) = en_hash (entry_at s k)"
    and keep: "keeps_edges (ot_arena (rs_table s)) (ot_arena (rs_table s'))" and st: "status_grows s s'"
    and o: "rs_opts s' = rs_opts s"
  shows "recorded v s' i"
proof -
  obtain t buf es where r: "checked v (ro_full (rs_opts s)) (en_hash (entry_at s i)) t buf" "t \<in> four_types"
    "en_type (entry_at s i) = t" "has_flag flag_walked (entry_at s i)" "edges_at (ot_arena (rs_table s)) (entry_at s i) es"
    "list_all2 (link_met s (object_bit s)) (object_links (env_algo v) t buf) es"
    using rec by (auto simp: recorded_def)
  have "t \<noteq> TypeNone" using r(2) by (auto simp: four_types_def)
  then have "en_type (entry_at s' i) = t" using core r(3) by (simp add: same_core_def)
  moreover have "edges_at (ot_arena (rs_table s')) (entry_at s' i) es"
    using r(5) keep core by (simp add: edges_at_def same_core_def keeps_edges_def span_slab_def span_pos_def)
  moreover have "list_all2 (link_met s' (object_bit s')) (object_links (env_algo v) t buf) es"
  proof (rule list_all2_mono [OF r(6)])
    fix l e assume "link_met s (object_bit s) l e"
    then show "link_met s' (object_bit s') l e"
      using n hash st by (auto simp: link_met_def object_bit_def status_grows_def split: if_splits)
  qed
  ultimately show ?thesis using r core o unfolding recorded_def same_core_def by auto
qed

section \<open>The invariant\<close>

definition scan_ok :: "run_env \<Rightarrow> run_state \<Rightarrow> bool" where
  "scan_ok v s \<longleftrightarrow> table_ok s \<and> \<not> ro_names (rs_opts s) \<and>
     (\<forall>i < entry_count s. \<not> marked s i \<and> (present s i \<longrightarrow> recorded v s i))"

definition keeps_present :: "run_state \<Rightarrow> run_state \<Rightarrow> bool" where
  "keeps_present s s' \<longleftrightarrow>
     (\<forall>i < entry_count s. en_hash (entry_at s' i) = en_hash (entry_at s i) \<and> (present s i \<longrightarrow> present s' i))"

definition scans :: "run_env \<Rightarrow> run_state \<Rightarrow> run_state \<Rightarrow> bool" where
  "scans v s s' \<longleftrightarrow> entry_count s \<le> entry_count s' \<and> slab_count s \<le> slab_count s' \<and> rs_opts s' = rs_opts s \<and>
     rs_pending s' = rs_pending s \<and> status_grows s s' \<and>
     (scan_ok v s \<longrightarrow> small s' \<longrightarrow> scan_ok v s' \<and> keeps_present s s')"

lemma scans_small: "scans v s s' \<Longrightarrow> small s' \<Longrightarrow> small s"
  by (simp add: scans_def small_def)

lemma scans_trans:
  assumes "scans v s s1" and "scans v s1 s2"
  shows "scans v s s2"
proof -
  have "scan_ok v s2 \<and> keeps_present s s2" if "scan_ok v s" "small s2"
  proof -
    have "scan_ok v s1" "keeps_present s s1" using assms that scans_small [OF assms(2)] by (auto simp: scans_def)
    moreover from this have "scan_ok v s2" "keeps_present s1 s2" using assms(2) that by (auto simp: scans_def)
    ultimately show ?thesis using assms(1) by (auto simp: keeps_present_def scans_def)
  qed
  then show ?thesis using assms by (auto simp: scans_def status_grows_def)
qed

lemma builds_keeps:
  assumes b: "builds s s'" and "table_ok s" and "small s'" and i: "i < entry_count s"
  shows "same_core (entry_at s i) (entry_at s' i)" "marked s' i = marked s i" "present s' i = present s i"
    "en_hash (entry_at s' i) = en_hash (entry_at s i)" "recorded v s i \<Longrightarrow> recorded v s' i"
proof -
  have g: "grown s s'" using assms by (simp add: builds_def)
  then show core: "same_core (entry_at s i) (entry_at s' i)" using i by (simp add: grown_def)
  then show "marked s' i = marked s i" "present s' i = present s i" "en_hash (entry_at s' i) = en_hash (entry_at s i)"
    by (simp_all add: same_core_def marked_def present_def)
  have "\<And>k. k < entry_count s \<Longrightarrow> en_hash (entry_at s' k) = en_hash (entry_at s k)"
    using g by (simp add: grown_def same_core_def)
  then show "recorded v s i \<Longrightarrow> recorded v s' i"
    using recorded_moves [OF _ core] b g by (simp add: builds_def grown_def)
qed

lemma scans_builds:
  assumes b: "builds s s'"
  shows "scans v s s'"
proof -
  have "scan_ok v s' \<and> keeps_present s s'" if ok: "scan_ok v s" "small s'"
  proof
    have t: "table_ok s" using ok(1) by (simp add: scan_ok_def)
    note k = builds_keeps [OF b t ok(2)]
    have new: "\<not> marked s' i \<and> \<not> present s' i" if "i < entry_count s'" "\<not> i < entry_count s" for i
      using b t ok(2) that by (simp add: builds_def grown_def)
    show "scan_ok v s'"
      unfolding scan_ok_def using ok(1) k new builds_ok [OF b t ok(2)] b unfolding scan_ok_def builds_def by metis
    show "keeps_present s s'" using k by (simp add: keeps_present_def)
  qed
  then show ?thesis using b by (simp add: scans_def builds_def)
qed

lemma scans_quiet: "quiet s s' \<Longrightarrow> scans v s s'"
  by (rule scans_builds [OF builds_quiet])

end
