(* ===== verification/ObjectStep.thy ===== *)
theory ObjectStep
  imports ObjectScan
begin

text \<open>One object through the pass: it keeps the invariant, and unless the run complains it becomes present.\<close>

declare flag_reachable_def [simp del] flag_seen_def [simp del] flag_has_obj_def [simp del] flag_used_def [simp del] flag_walked_def [simp del]

definition links_fit :: "algo \<Rightarrow> obj_type \<Rightarrow> bytes option \<Rightarrow> bool" where
  "links_fit a t buf \<longleftrightarrow> length (object_links a t buf) < 2 ^ 32 \<and>
     (t = TypeTree \<longrightarrow> length (fst (parse_tree (contents buf) a)) < 2 ^ 32)"

lemma map_filter_length: "length (List.map_filter f xs) \<le> length xs"
  by (induction xs) (auto split: option.splits)

lemma link_met_quiet:
  assumes "quiet s s'"
  shows "link_met s' b = link_met s b" "ot_arena (rs_table s') = ot_arena (rs_table s)"
  using assms by (simp_all add: quiet_def link_met_def fun_eq_iff entry_count_def entry_at_def)

lemma object_bit_later: "quiet s s' \<Longrightarrow> object_bit s \<Longrightarrow> object_bit s'"
  by (simp add: quiet_def status_grows_def object_bit_def)

lemma quiet_record: "quiet s s' \<Longrightarrow> entry_at s' = entry_at s \<and> entry_count s' = entry_count s \<and> slab_count s' = slab_count s"
  by (simp add: quiet_def entry_at_def entry_count_def slab_count_def fun_eq_iff)

definition linked :: "run_env \<Rightarrow> nat \<Rightarrow> (oid \<times> obj_type) list \<Rightarrow> run_state \<Rightarrow> run_state \<Rightarrow> bool" where
  "linked v i ls s s' \<longleftrightarrow>
     (\<exists>sp es broken s1. builds s s1 \<and> length es = length ls \<and>
        (table_ok s \<longrightarrow> small s1 \<longrightarrow> list_all2 (link_met s1 broken) ls es \<and>
           (es \<noteq> [] \<longrightarrow> in_arena (ot_arena (rs_table s1)) (span_slab sp) (span_pos sp) es)) \<and>
        quiet (update_entry i (set_edges (sp\<lparr>sp_n := word_of_nat (length es)\<rparr>)) s1) s' \<and> (broken \<longrightarrow> object_bit s'))"

lemma linkedI:
  assumes l: "link_edges v room ls s0 = Some (sp, es, broken, s1)" and fits: "length ls \<le> room" "room < 2 ^ 32"
    and s0: "builds s s0" and q: "quiet s1 s2" and n: "\<not> ro_names (rs_opts s)"
    and rest: "quiet (record_edges i sp (length es) s2) s'" and b: "broken \<Longrightarrow> object_bit s'"
  shows "linked v i ls s s'"
proof -
  note m = link_edges_met [OF l fits]
  have b2: "builds s s2" using s0 m(1) builds_quiet [OF q] builds_trans by blast
  have "rs_opts s2 = rs_opts s" using b2 by (simp add: builds_def)
  then have rec: "record_edges i sp (length es) s2 = update_entry i (set_edges (sp\<lparr>sp_n := word_of_nat (length es)\<rparr>)) s2"
    using n by (simp add: record_edges_def)
  have "list_all2 (link_met s2 broken) ls es \<and>
      (es \<noteq> [] \<longrightarrow> in_arena (ot_arena (rs_table s2)) (span_slab sp) (span_pos sp) es)" if "table_ok s" "small s2"
  proof -
    have "small s1" using builds_small [OF builds_quiet [OF q]] that(2) by blast
    then have "table_ok s0" using builds_ok [OF s0 that(1)] builds_small [OF m(1)] by blast
    from m(3) [OF this \<open>small s1\<close>] show ?thesis unfolding link_met_quiet [OF q] .
  qed
  then show ?thesis unfolding linked_def using b2 m(2) rest b rec by metis
qed

lemma check_object_linked:
  assumes run: "check_object v k i t buf s = Some s'" and seen: "\<not> has_flag flag_seen (entry_at s i)"
    and n: "\<not> ro_names (rs_opts s)" and fits: "links_fit (env_algo v) t buf"
  shows "linked v i (object_links (env_algo v) t buf) s s'"
proof -
  define s1 where "s1 = snd (flag_entry flag_seen i s)"
  have old: "\<not> fst (flag_entry flag_seen i s)"
    using seen set_flag_keeps(6) [of 1 "entry_at s i"] by (simp add: flag_entry_def flag_numbers)
  then have fe: "flag_entry flag_seen i s = (False, s1)" by (simp add: s1_def prod_eq_iff)
  have b1: "builds s s1" by (simp add: s1_def builds_seen)
  let ?x = "oid_of v s i" and ?ls = "object_links (env_algo v) t buf"
  show ?thesis
  proof (cases "t = TypeTree")
    case True
    obtain entries bad where pt: "parse_tree (contents buf) (env_algo v) = (entries, bad)" by (cases "parse_tree (contents buf) (env_algo v)")
    obtain sp es broken s2 ret s3 s4 where st: "tree_edges v entries s1 = Some (sp, es, broken, s2)"
      "run_check k (\<lambda>q. tree_entries (re_norm v) q ?x entries bad) s2 = Some (ret, s3)"
      "broken_links k ?x broken (record_edges i sp (length es) s3) = Some s4"
      and fin: "(if ret \<noteq> 0 then Some s4 else extra_lines k ?x t buf (length es) s4) = Some s'"
      using run True by (auto simp: check_object_def fe pt Let_def bind_eq_Some_conv split: if_splits)
    have ls: "tree_targets entries = ?ls" using tree_targets_links [of buf "env_algo v"] True pt by simp
    have le: "link_edges v (length entries) ?ls s1 = Some (sp, es, broken, s2)"
      using st(1) ls by (simp add: tree_edges_def)
    have len: "length ?ls \<le> length entries" unfolding ls [symmetric] tree_targets_def by (rule map_filter_length)
    have q4: "quiet s4 s'" using fin quiet_extra_lines by (auto split: if_splits)
    have "object_bit s'" if "broken"
      using broken_links_bit st(3) that object_bit_later [OF q4] by (simp add: object_bit_def)
    then show ?thesis
      using linkedI [OF le len _ b1 quiet_run_check [OF st(2)] n quiet_trans [OF quiet_broken_links [OF st(3)] q4]] fits True pt
      by (simp add: links_fit_def)
  next
    case False
    define ls where "ls = fst (walk_links t ?x (contents buf) (env_algo v) (object_name (rs_fsck s1) ?x) (ro_names (rs_opts s1)))"
    have ols: "map (\<lambda>l. (ln_oid l, ln_type l)) ls = ?ls" unfolding ls_def by (rule walk_links_same)
    obtain sp es broken s2 s3 ret s4 where st: "link_edges v (length ls) (map (\<lambda>l. (ln_oid l, ln_type l)) ls) s1 = Some (sp, es, broken, s2)"
      "broken_links k ?x broken (record_edges i sp (length es) s2) = Some s3"
      "run_check k (fsck_object (re_norm v) ?x t buf) s3 = Some (ret, s4)"
      and fin: "(if ret \<noteq> 0 then Some s4 else extra_lines k ?x t buf (length ls) s4) = Some s'"
      using run False by (auto simp: check_object_def fe Let_def ls_def bind_eq_Some_conv split: if_splits)
    have q3: "quiet s3 s'"
      using quiet_run_check [OF st(3)] fin quiet_extra_lines quiet_trans by (auto split: if_splits)
    have len: "length ls = length ?ls" using ols by (metis length_map)
    have "object_bit s'" if "broken"
      using broken_links_bit st(2) that object_bit_later [OF q3] by (simp add: object_bit_def)
    then show ?thesis
      using linkedI [OF st(1) [unfolded ols] _ _ b1 quiet_refl n quiet_trans [OF quiet_broken_links [OF st(2)] q3]] fits len
      by (simp add: links_fit_def)
  qed
qed

section \<open>An object is taken\<close>

definition sizes :: "run_state \<Rightarrow> run_state \<Rightarrow> bool" where
  "sizes s s' \<longleftrightarrow> entry_count s \<le> entry_count s' \<and> slab_count s \<le> slab_count s' \<and> rs_opts s' = rs_opts s \<and>
     rs_pending s' = rs_pending s \<and> status_grows s s'"

lemma sizes_trans: "sizes s s1 \<Longrightarrow> sizes s1 s2 \<Longrightarrow> sizes s s2"
  by (simp add: sizes_def status_grows_def)

lemma sizes_steps: "builds s s' \<Longrightarrow> sizes s s'" "quiet s s' \<Longrightarrow> sizes s s'" "sizes s (update_entry i f s)"
  using builds_quiet [of s s']
  by (auto simp: sizes_def builds_def update_entry_def set_entry_def entry_count_def slab_count_def status_grows_def)

lemma sizes_small: "sizes s s' \<Longrightarrow> small s' \<Longrightarrow> small s"
  by (simp add: sizes_def small_def)

lemma scans_sizes: "scans v s s' \<longleftrightarrow> sizes s s' \<and> (scan_ok v s \<longrightarrow> small s' \<longrightarrow> scan_ok v s' \<and> keeps_present s s')"
  by (auto simp: scans_def sizes_def)

lemma update_entry_ok:
  assumes "table_ok s" and "en_hash (f (entry_at s i)) = en_hash (entry_at s i)"
  shows "table_ok (update_entry i f s)"
  using assms table_inv_set_entry [of "rs_table s" "f (entry_at s i)" i]
  by (simp add: table_ok_def update_entry_def entry_at_def) (simp add: set_entry_def)

lemma update_entry_rest:
  "ot_arena (rs_table (update_entry i f s)) = ot_arena (rs_table s)" "entry_count (update_entry i f s) = entry_count s"
  "rs_opts (update_entry i f s) = rs_opts s" "rs_status (update_entry i f s) = rs_status s"
  "slab_count (update_entry i f s) = slab_count s"
  by (simp_all add: update_entry_def set_entry_def entry_count_def slab_count_def)

text \<open>The entry before its links are walked.\<close>

definition fresh_entry :: "obj_entry \<Rightarrow> obj_entry" where
  "fresh_entry e = snd (set_flag flag_has_obj (clear_flags (flag_reachable OR flag_seen) e))"

lemma fresh_entry_facts:
  "en_hash (fresh_entry e) = en_hash e" "en_type (fresh_entry e) = en_type e" "has_flag flag_has_obj (fresh_entry e)"
  "\<not> has_flag flag_reachable (fresh_entry e)" "\<not> has_flag flag_seen (fresh_entry e)"
proof -
  let ?c = "clear_flags (flag_reachable OR flag_seen) e"
  have m: "en_meta ?c = en_meta e AND NOT (2 ^ 8 OR 2 ^ 9)"
    by (simp add: clear_flags_def flag_reachable_def flag_seen_def)
  have low: "(ucast (en_meta ?c) :: 8 word) = ucast (en_meta e)"
    unfolding m
  proof (rule bit_word_eqI)
    fix n assume n: "n < LENGTH(8)"
    then have "\<not> bit (2 ^ 8 OR 2 ^ 9 :: 32 word) n" by (simp only: bit_or_iff bit_exp_iff) auto
    with n show "bit (ucast (en_meta e AND NOT (2 ^ 8 OR 2 ^ 9)) :: 8 word) n = bit (ucast (en_meta e) :: 8 word) n"
      by (auto simp: bit_simps)
  qed
  have c: "en_type ?c = en_type e" "en_hash ?c = en_hash e"
    unfolding en_type_def low by (simp_all add: clear_flags_def)
  have off: "\<not> has_flag (2 ^ 0) ?c" "\<not> has_flag (2 ^ 1) ?c"
    by (subst flag_bit, simp, subst m, simp add: bit_simps)+
  have k: "(2 :: nat) < 24" by simp
  note s = set_flag_keeps(1-4) [OF k, of ?c]
  show "en_hash (fresh_entry e) = en_hash e" "en_type (fresh_entry e) = en_type e" "has_flag flag_has_obj (fresh_entry e)"
    "\<not> has_flag flag_reachable (fresh_entry e)" "\<not> has_flag flag_seen (fresh_entry e)"
    unfolding fresh_entry_def flag_numbers
    using c off s(1-4) set_flag_keeps(5) [OF k, of 0 ?c] set_flag_keeps(5) [OF k, of 1 ?c] set_flag_keeps(5) [OF k, of 2 ?c] by (simp_all add: flag_numbers)
qed

lemma set_edges_facts:
  "en_hash (set_edges sp e) = en_hash e" "en_type (set_edges sp e) = en_type e" "en_ref (set_edges sp e) = sp_ref sp"
  "en_len (set_edges sp e) = sp_n sp" "has_flag flag_walked (set_edges sp e)"
  "has_flag flag_has_obj (set_edges sp e) = has_flag flag_has_obj e"
  "has_flag flag_reachable (set_edges sp e) = has_flag flag_reachable e"
proof -
  let ?e = "e\<lparr>en_ref := sp_ref sp, en_len := sp_n sp\<rparr>"
  have f: "has_flag f ?e = has_flag f e" "en_type ?e = en_type e" for f by (simp_all add: has_flag_def flags_def en_type_def)
  have k: "(4 :: nat) < 24" by simp
  note s = set_flag_keeps(1-4) [OF k, of ?e]
  show "en_hash (set_edges sp e) = en_hash e" "en_type (set_edges sp e) = en_type e" "en_ref (set_edges sp e) = sp_ref sp"
    "en_len (set_edges sp e) = sp_n sp" "has_flag flag_walked (set_edges sp e)"
    "has_flag flag_has_obj (set_edges sp e) = has_flag flag_has_obj e"
    "has_flag flag_reachable (set_edges sp e) = has_flag flag_reachable e"
    unfolding set_edges_def flag_numbers using s set_flag_keeps(5) [OF k, of 0 ?e] set_flag_keeps(5) [OF k, of 2 ?e] set_flag_keeps(5) [OF k, of 4 ?e] f
    by simp_all
qed

lemma linked_sizes: "linked v i ls s s' \<Longrightarrow> sizes s s'"
  unfolding linked_def using sizes_steps sizes_trans by metis

lemma check_object_sizes:
  assumes run: "check_object v k i t buf s = Some s'" and n: "\<not> ro_names (rs_opts s)" and fits: "links_fit (env_algo v) t buf"
  shows "sizes s s'"
proof (cases "fst (flag_entry flag_seen i s)")
  case True
  then have "s' = snd (flag_entry flag_seen i s)" using run by (simp add: check_object_def Let_def case_prod_beta)
  then show ?thesis by (simp add: sizes_steps(1) [OF builds_seen])
next
  case False
  then have "\<not> has_flag flag_seen (entry_at s i)"
    using set_flag_keeps(6) [of 1 "entry_at s i"] by (simp add: flag_entry_def flag_numbers)
  from linked_sizes [OF check_object_linked [OF run this n fits]] show ?thesis .
qed

text \<open>An entry whose links were just recorded is recorded, and the others stay.\<close>

lemma linked_scan:
  assumes l: "linked v i (object_links (env_algo v) t buf) s s'" and t: "table_ok s" and n: "\<not> ro_names (rs_opts s)"
    and sm: "small s'" and i: "i < entry_count s" and ty: "en_type (entry_at s i) = t" "t \<in> four_types"
    and e: "present s i" "\<not> marked s i" and ch: "checked v (ro_full (rs_opts s)) (en_hash (entry_at s i)) t buf"
    and fits: "links_fit (env_algo v) t buf"
    and others: "\<And>j. j < entry_count s \<Longrightarrow> j \<noteq> i \<Longrightarrow> \<not> marked s j \<and> (present s j \<longrightarrow> recorded v s j)"
  shows "scan_ok v s'" "keeps_present s s'"
proof -
  let ?ls = "object_links (env_algo v) t buf"
  obtain sp es broken s1 where b: "builds s s1" and len: "length es = length ?ls"
    and met: "table_ok s \<longrightarrow> small s1 \<longrightarrow> list_all2 (link_met s1 broken) ?ls es \<and>
           (es \<noteq> [] \<longrightarrow> in_arena (ot_arena (rs_table s1)) (span_slab sp) (span_pos sp) es)"
    and q: "quiet (update_entry i (set_edges (sp\<lparr>sp_n := word_of_nat (length es)\<rparr>)) s1) s'" and bit: "broken \<longrightarrow> object_bit s'"
    using l unfolding linked_def by blast
  define sp' where "sp' = sp\<lparr>sp_n := word_of_nat (length es)\<rparr>"
  define s2 where "s2 = update_entry i (set_edges sp') s1"
  note q = q [folded sp'_def, folded s2_def]
  have r: "entry_at s' = entry_at s2" "entry_count s' = entry_count s1" "slab_count s' = slab_count s1"
    "ot_arena (rs_table s') = ot_arena (rs_table s1)" "rs_opts s' = rs_opts s" "status_grows s1 s'"
    using quiet_record [OF q] q b update_entry_rest [of i "set_edges sp'" s1] link_met_quiet(2) [OF q]
    by (auto simp: s2_def builds_def quiet_def status_grows_def)
  have sm1: "small s1" using sm r by (simp add: small_def)
  note keep = builds_keeps [OF b t sm1]
  have g: "grown s s1" using b t sm1 by (simp add: builds_def)
  have n1: "entry_count s \<le> entry_count s1" using b by (simp add: builds_def)
  have at: "entry_at s' j = (if j = i then set_edges sp' (entry_at s1 i) else entry_at s1 j)" if "j < entry_count s1" for j
    using that i n1 by (simp add: r s2_def entry_at_update)
  have hash: "en_hash (entry_at s' j) = en_hash (entry_at s1 j)" if "j < entry_count s1" for j
    using at [OF that] set_edges_facts by simp
  have tok: "table_ok s'"
  proof -
    have "table_ok s2" unfolding s2_def using update_entry_ok [of s1] builds_ok [OF b t sm1] set_edges_facts(1) by blast
    then show ?thesis using q by (simp add: table_ok_def quiet_def)
  qed
  have reci: "recorded v s' i"
  proof -
    have i1: "i < entry_count s1" using i n1 by simp
    have core: "same_core (entry_at s i) (entry_at s1 i)" by (rule keep(1) [OF i])
    have tn: "t \<noteq> TypeNone" using ty(2) by (auto simp: four_types_def)
    have l32: "length es < 2 ^ 32" using fits len by (simp add: links_fit_def)
    have "edges_at (ot_arena (rs_table s')) (entry_at s' i) es"
      using met t sm1 l32 unfolding at [OF i1] r(4)
      by (auto simp: edges_at_def set_edges_facts sp'_def unat_of_nat take_bit_nat_eq_self span_slab_def span_pos_def)
    moreover have "list_all2 (link_met s' (object_bit s')) ?ls es"
    proof (rule list_all2_mono)
      show "list_all2 (link_met s1 broken) ?ls es" using met t sm1 by simp
      fix l e assume "link_met s1 broken l e"
      then show "link_met s' (object_bit s') l e" using bit hash r by (auto simp: link_met_def split: if_splits)
    qed
    ultimately show ?thesis
      using ch core ty tn at [OF i1] r(2-) unfolding recorded_def same_core_def by (auto simp: set_edges_facts)
  qed
  have rec: "recorded v s' j" if "recorded v s1 j" "j < entry_count s1" "j \<noteq> i" for j
    using recorded_moves [OF that(1), of s'] that at r(2-) hash by (simp add: keeps_edges_def builds_def b [unfolded builds_def])
  have flags: "present s' j = present s1 j" "marked s' j = marked s1 j" if "j < entry_count s1" for j
    using at [OF that] by (auto simp: present_def marked_def set_edges_facts)
  have new: "\<not> marked s1 j \<and> \<not> present s1 j" if "j < entry_count s1" "\<not> j < entry_count s" for j
    using g that by (simp add: grown_def)
  have "\<not> marked s' j \<and> (present s' j \<longrightarrow> recorded v s' j)" if j: "j < entry_count s'" for j
  proof -
    have j1: "j < entry_count s1" using j r by simp
    consider "j = i" | "j \<noteq> i" "j < entry_count s" | "\<not> j < entry_count s" by blast
    then show ?thesis
    proof cases
      case 1
      then show ?thesis using reci flags j1 keep(2) [OF i] e by simp
    next
      case 2
      then show ?thesis using others [of j] flags [OF j1] keep [OF 2(2)] rec j1 by auto
    next
      case 3
      then show ?thesis using new [OF j1] flags [OF j1] by simp
    qed
  qed
  then show "scan_ok v s'" using tok n r by (simp add: scan_ok_def)
  show "keeps_present s s'" using keep flags hash n1 by (auto simp: keeps_present_def)
qed

text \<open>An object that is read again: the old flags go, and it is present before its links are known.\<close>

lemma fresh_state:
  assumes "table_ok s" and "i < entry_count s" and ok: "scan_ok v s"
  defines "s' \<equiv> update_entry i fresh_entry s"
  shows "table_ok s'" "entry_count s' = entry_count s" "en_hash (entry_at s' j) = en_hash (entry_at s j)"
    "en_type (entry_at s' i) = en_type (entry_at s i)" "present s' i" "\<not> marked s' i" "\<not> has_flag flag_seen (entry_at s' i)"
    "j < entry_count s \<Longrightarrow> present s j \<Longrightarrow> present s' j"
    "j < entry_count s \<Longrightarrow> j \<noteq> i \<Longrightarrow> \<not> marked s' j \<and> (present s' j \<longrightarrow> recorded v s' j)"
proof -
  show "table_ok s'" unfolding s'_def using assms(1) by (simp add: update_entry_ok fresh_entry_facts)
  show n: "entry_count s' = entry_count s" by (simp add: s'_def update_entry_rest)
  have at: "entry_at s' j = (if j = i then fresh_entry (entry_at s i) else entry_at s j)" for j
    using assms(2) by (auto simp: s'_def update_entry_def set_entry_def entry_at_def entry_count_def)
  show hash: "en_hash (entry_at s' j) = en_hash (entry_at s j)" for j by (simp add: at fresh_entry_facts)
  show "en_type (entry_at s' i) = en_type (entry_at s i)" "present s' i" "\<not> marked s' i" "\<not> has_flag flag_seen (entry_at s' i)"
    by (simp_all add: at fresh_entry_facts present_def marked_def)
  show "j < entry_count s \<Longrightarrow> present s j \<Longrightarrow> present s' j"
    by (simp add: at present_def fresh_entry_facts)
  show "\<not> marked s' j \<and> (present s' j \<longrightarrow> recorded v s' j)" if j: "j < entry_count s" "j \<noteq> i"
  proof -
    have "recorded v s' j" if "recorded v s j"
    proof (rule recorded_moves [OF that])
      show "same_core (entry_at s j) (entry_at s' j)" using j by (simp add: at)
    qed (simp_all add: hash n keeps_edges_def status_grows_def, simp_all add: s'_def update_entry_rest)
    then show ?thesis using ok j by (simp add: scan_ok_def present_def marked_def at)
  qed
qed

definition taken :: "run_state \<Rightarrow> bytes \<Rightarrow> bool" where
  "taken s h \<longleftrightarrow> object_bit s \<or> (\<exists>i < entry_count s. en_hash (entry_at s i) = h \<and> present s i)"

lemma taken_later: "taken s h \<Longrightarrow> scans v s s' \<Longrightarrow> scan_ok v s \<Longrightarrow> small s' \<Longrightarrow> taken s' h"
  by (auto simp: taken_def scans_def keeps_present_def status_grows_def object_bit_def)

lemma take_object_scans:
  assumes run: "take_object v k x t buf refusal s = Some s'" and n: "\<not> ro_names (rs_opts s)"
    and ch: "checked v (ro_full (rs_opts s)) (oid_h x) t buf" and ty: "t \<in> four_types" and fits: "links_fit (env_algo v) t buf"
  shows "scans v s s'" "scan_ok v s \<Longrightarrow> small s' \<Longrightarrow> taken s' (oid_h x)"
proof -
  obtain target s1 where look: "run_lookup x t s = Some (target, s1)"
    using run by (auto simp: take_object_def bind_eq_Some_conv)
  note b1 = run_lookup_builds [OF look]
  have complains: "scans v s s' \<and> taken s' (oid_h x)" if "quiet s1 s2" "s' = err k refusal (add_status error_object s2)" for s2
  proof
    have "quiet s1 s'" using that by (simp add: quiet_after)
    then show "scans v s s'" using scans_builds [OF builds_trans [OF b1(1) builds_quiet]] by blast
    show "taken s' (oid_h x)" by (simp add: that(2) taken_def object_bit_def err_def add_status_def error_object_def bit_or_iff)
  qed
  have "scans v s s' \<and> (scan_ok v s \<longrightarrow> small s' \<longrightarrow> taken s' (oid_h x))"
  proof (cases target)
    case None
    then have "s' = err k refusal (add_status error_object s1)" using run look by (simp add: take_object_def)
    then show ?thesis using complains [OF quiet_refl] by blast
  next
    case (Some i)
    obtain ok s2 where p: "parsable v k x t buf s1 = (ok, s2)" by (cases "parsable v k x t buf s1")
    have q2: "quiet s1 s2" by (rule quiet_parsable [OF p])
    have b2: "builds s s2" by (rule builds_trans [OF b1(1) builds_quiet [OF q2]])
    show ?thesis
    proof (cases ok)
      case False
      then have "s' = err k refusal (add_status error_object s2)" using run look Some p by (simp add: take_object_def)
      then show ?thesis using complains [OF q2] by blast
    next
      case True
      define s3 where "s3 = update_entry i fresh_entry s2"
      have "snd (flag_entry flag_has_obj i (update_entry i (clear_flags (flag_reachable OR flag_seen)) s2)) = s3 \<or>
          \<not> i < entry_count s2"
        by (auto simp: s3_def flag_entry_def update_entry_def set_entry_def entry_at_def entry_count_def fresh_entry_def)
      moreover define s3' where "s3' = snd (flag_entry flag_has_obj i (update_entry i (clear_flags (flag_reachable OR flag_seen)) s2))"
      ultimately have s3: "i < entry_count s2 \<Longrightarrow> s3' = s3" by auto
      have co: "check_object v k i t buf s3' = Some s'" using run look Some p True by (simp add: take_object_def s3'_def)
      have z3: "sizes s s3'"
        using sizes_trans [OF sizes_steps(1) [OF b2] sizes_trans [OF sizes_steps(3) sizes_steps(3)]]
        by (simp add: s3'_def flag_entry_def)
      have o3: "\<not> ro_names (rs_opts s3')" "rs_opts s3' = rs_opts s" using z3 n by (simp_all add: sizes_def)
      have z: "sizes s3' s'" by (rule check_object_sizes [OF co o3(1) fits])
      have main: "scan_ok v s' \<and> keeps_present s s' \<and> taken s' (oid_h x)" if ok: "scan_ok v s" "small s'"
      proof -
        have sm: "small s3'" "small s2"
          using sizes_small [OF z ok(2)] by (auto simp: s3'_def small_def flag_entry_def update_entry_rest)
        have t0: "table_ok s" using ok(1) by (simp add: scan_ok_def)
        have r2: "entry_at s2 = entry_at s1" "entry_count s2 = entry_count s1" using quiet_record [OF q2] by simp_all
        have i: "i < entry_count s2" "en_hash (entry_at s2 i) = oid_h x" "en_type (entry_at s2 i) = t"
          using b1(3) [OF t0 _ Some] builds_small [OF builds_quiet [OF q2] sm(2)] ty r2 by simp_all
        have sc: "scan_ok v s2" "keeps_present s s2" using scans_builds [OF b2, of v] ok(1) sm(2) by (auto simp: scans_def)
        have t2: "table_ok s2" using sc(1) by (simp add: scan_ok_def)
        note f = fresh_state [OF t2 i(1) sc(1), folded s3_def]
        note lk = check_object_linked [OF co [unfolded s3 [OF i(1)]] f(7) _ fits]
        have o: "\<not> ro_names (rs_opts s3)" "rs_opts s3 = rs_opts s" using o3 s3 [OF i(1)] by simp_all
        have i3: "i < entry_count s3" "en_hash (entry_at s3 i) = oid_h x" "en_type (entry_at s3 i) = t"
          using i f(2) f(3) [of i] f(4) by simp_all
        have ls: "scan_ok v s'" "keeps_present s3 s'"
          using linked_scan [OF lk [OF o(1)] f(1) o(1) ok(2) i3(1,3) ty f(5,6) _ fits] ch i3(2) o(2) f(2,9) by simp_all
        have k23: "keeps_present s2 s3" using f(3,8) by (simp add: keeps_present_def)
        have "entry_count s \<le> entry_count s2" using b2 by (simp add: builds_def)
        then have "keeps_present s s'" using sc(2) k23 ls(2) f(2) by (auto simp: keeps_present_def)
        moreover have "taken s' (oid_h x)"
          using ls(2) i3(1,2) f(5) z s3 [OF i(1)] by (auto simp: taken_def keeps_present_def sizes_def intro!: exI [of _ i])
        ultimately show ?thesis using ls(1) by simp
      qed
      then show ?thesis using sizes_trans [OF z3 z] by (simp add: scans_sizes)
    qed
  qed
  then show "scans v s s'" "scan_ok v s \<Longrightarrow> small s' \<Longrightarrow> taken s' (oid_h x)" by simp_all
qed

end
