(* ===== verification/ObjectRuns.thy ===== *)
theory ObjectRuns
  imports ObjectStep PackObjects
begin

text \<open>
  The whole object pass: every loose file and every pack entry that is read and checked is present in the
  table at the end, with its links, or the run has complained.
\<close>

declare flag_reachable_def [simp del] flag_seen_def [simp del] flag_has_obj_def [simp del] flag_used_def [simp del] flag_walked_def [simp del]

text \<open>What a run relies on: the packs of the walk are those of the database, laid out by
  \<open>buildLayout\<close>, and of the repository's hash.\<close>

definition env_ok :: "run_env \<Rightarrow> bool" where
  "env_ok v \<longleftrightarrow> (\<forall>k < length (db_packs (re_db v)). wf_algo (pk_algo (we_pack (re_verify v k))) \<and>
     we_layout (re_verify v k) = build_layout (we_pack (re_verify v k)) \<and>
     we_pack (re_verify v k) = snd (db_packs (re_db v) ! k) \<and> pk_algo (snd (db_packs (re_db v) ! k)) = env_algo v)"

text \<open>The spans of the arena have room for the links of what is checked.\<close>

definition all_fit :: "run_env \<Rightarrow> bool \<Rightarrow> bool" where
  "all_fit v full \<longleftrightarrow> (\<forall>h t buf. checked v full h t buf \<longrightarrow> links_fit (env_algo v) t buf)"

definition covers :: "run_env \<Rightarrow> bytes set \<Rightarrow> run_state \<Rightarrow> run_state \<Rightarrow> bool" where
  "covers v H s s' \<longleftrightarrow> scans v s s' \<and> (scan_ok v s \<longrightarrow> small s' \<longrightarrow> (\<forall>h \<in> H. taken s' h))"

lemma covers_scans: "scans v s s' \<Longrightarrow> covers v {} s s'"
  by (simp add: covers_def)

lemma covers_quiet: "quiet s s' \<Longrightarrow> covers v {} s s'"
  by (simp add: covers_scans scans_quiet)

lemma covers_trans:
  assumes "covers v H s s1" and "covers v H' s1 s2"
  shows "covers v (H \<union> H') s s2"
proof -
  note sc = scans_trans [of v s s1 s2]
  have "taken s2 h" if "scan_ok v s" "small s2" "h \<in> H \<union> H'" for h
  proof -
    have sm: "small s1" using assms(2) that(2) scans_small by (auto simp: covers_def)
    then have ok1: "scan_ok v s1" using assms(1) that(1) by (simp add: covers_def scans_def)
    show ?thesis using that(3) assms that(1,2) sm ok1 taken_later by (auto simp: covers_def)
  qed
  then show ?thesis using assms sc by (simp add: covers_def)
qed

lemma covers_opts: "covers v H s s' \<Longrightarrow> rs_opts s' = rs_opts s"
  by (simp add: covers_def scans_def)

section \<open>Loose files\<close>

lemma loose_typed:
  assumes "\<not> lr_failed (read_loose a f x threshold)"
  shows "lr_type (read_loose a f x threshold) \<in> four_types"
proof -
  obtain z raw where f: "f = Mapped z raw"
    using assms by (auto simp: read_loose_def fail_with_def split: loose_file.splits)
  let ?r = "read_loose_bytes a z raw x threshold"
  obtain nul name sz where known: "type_from_name name \<noteq> TypeBad"
    and r: "?r = (if type_from_name name = TypeBlob \<and> threshold < sz
      then stream_check a z raw nul sz x (empty_result\<lparr>lr_type_name := name, lr_type := type_from_name name, lr_size := sz\<rparr>)
      else read_contents a z raw nul x (empty_result\<lparr>lr_type_name := name, lr_type := type_from_name name, lr_size := sz\<rparr>))"
    using assms unfolding f read_loose_def read_loose_bytes_def Let_def
    by (auto split: if_splits option.splits)
  have "lr_type ?r = type_from_name name"
    unfolding r by (auto simp: stream_check_def read_contents_def fail_with_def Let_def split: if_splits)
  then show ?thesis using known by (auto simp: f read_loose_def four_types_def type_from_name_def split: if_splits)
qed

lemma loose_object_covers:
  assumes run: "check_loose_object v d x (file_at v d x) p s = Some s'" and d: "d < length (re_dirs v)" "x \<in> loose_found v d"
    and n: "\<not> ro_names (rs_opts s)" and fit: "all_fit v (ro_full (rs_opts s))"
  shows "covers v {oid_h x} s s'"
proof -
  define s1 where "s1 = fold (\<lambda>e. err (loose_key d x) (str ''error: '' @ loose_error_text v p x e)) (lr_errors (loose_check v d x)) s"
  have q1: "quiet s s1" unfolding s1_def by (rule quiet_fold) (rule quiet_steps)
  show ?thesis
  proof (cases "lr_failed (loose_check v d x)")
    case True
    define s2 where "s2 = (if lr_mismatch (loose_check v d x) then
        err (loose_key d x) (str ''error: '' @ oid_string (case lr_real (loose_check v d x) of None \<Rightarrow> zero_oid | Some y \<Rightarrow> y) @
          str '': hash-path mismatch, found at: '' @ p) s1
      else if lr_errors (loose_check v d x) \<noteq> [] \<or> lr_contents (loose_check v d x) = None then
        err (loose_key d x) (str ''error: '' @ oid_string x @ str '': object corrupt or missing: '' @ p) s1
      else s1)"
    have "quiet s1 s2" by (simp add: s2_def quiet_steps)
    moreover have s': "s' = note_damaged x False (add_status error_object s2)"
      using run True unfolding check_loose_object_def Let_def loose_check_def [symmetric] s1_def [symmetric] s2_def [symmetric] by simp
    ultimately have "quiet s s'" using q1 by (simp add: quiet_after quiet_trans [of s s1])
    moreover have "object_bit s'"
      by (simp add: s' object_bit_def note_damaged_def add_status_def error_object_def bit_or_iff)
    ultimately show ?thesis by (simp add: covers_def scans_quiet taken_def)
  next
    case False
    then have t: "take_object v (loose_key d x) x (lr_type (loose_check v d x)) (lr_contents (loose_check v d x))
        (str ''error: '' @ oid_string x @ str '': object could not be parsed: '' @ p) s1 = Some s'"
      using run unfolding check_loose_object_def Let_def loose_check_def [symmetric] s1_def [symmetric] by simp
    have o: "rs_opts s1 = rs_opts s" using q1 by (simp add: quiet_def)
    note ch = checked.loose [OF d False, where full = "ro_full (rs_opts s)"]
    have ty: "lr_type (loose_check v d x) \<in> four_types" using loose_typed False by (simp add: loose_check_def)
    have f: "links_fit (env_algo v) (lr_type (loose_check v d x)) (lr_contents (loose_check v d x))"
      using fit ch by (auto simp: all_fit_def)
    have "covers v {oid_h x} s1 s'" using take_object_scans [OF t _ _ ty f] o n ch by (simp add: covers_def)
    from covers_trans [OF covers_quiet [OF q1] this] show ?thesis by simp
  qed
qed

lemma loose_fold_covers:
  assumes "d < length (re_dirs v)"
  shows "fold (\<lambda>n so. case n of LooseObject x p \<Rightarrow> do { s \<leftarrow> so; check_loose_object v d x (file_at v d x) p s } | LooseCruft p \<Rightarrow> so)
      ns (Some s) = Some s' \<Longrightarrow> \<forall>x p. LooseObject x p \<in> set ns \<longrightarrow> x \<in> loose_found v d \<Longrightarrow> \<not> ro_names (rs_opts s) \<Longrightarrow>
    all_fit v (ro_full (rs_opts s)) \<Longrightarrow> covers v {oid_h x | x p. LooseObject x p \<in> set ns} s s'"
proof (induction ns arbitrary: s)
  case Nil
  then show ?case by (simp add: covers_quiet)
next
  case (Cons n ns)
  let ?f = "\<lambda>n so. case n of LooseObject x p \<Rightarrow> do { s \<leftarrow> so; check_loose_object v d x (file_at v d x) p s } | LooseCruft p \<Rightarrow> so"
  have none: "fold ?f ns None = None" for ns by (induction ns) (auto split: loose_name.splits)
  show ?case
  proof (cases n)
    case (LooseObject x p)
    then obtain s1 where s1: "check_loose_object v d x (file_at v d x) p s = Some s1" and rest: "fold ?f ns (Some s1) = Some s'"
      using Cons.prems(1) none by (cases "check_loose_object v d x (file_at v d x) p s") auto
    have c: "covers v {oid_h x} s s1" using loose_object_covers [OF s1 assms _ Cons.prems(3,4)] Cons.prems(2) LooseObject by auto
    note o = covers_opts [OF c]
    have "covers v ({oid_h x} \<union> {oid_h x | x p. LooseObject x p \<in> set ns}) s s'"
      by (rule covers_trans [OF c Cons.IH [OF rest]]) (use Cons.prems o in auto)
    moreover have "{oid_h x} \<union> {oid_h x | x p. LooseObject x p \<in> set ns} = {oid_h x | x p. LooseObject x p \<in> set (n # ns)}"
      by (auto simp: LooseObject)
    ultimately show ?thesis by simp
  next
    case (LooseCruft p)
    then show ?thesis using Cons by simp
  qed
qed

lemma loose_dir_covers:
  assumes run: "check_loose_dir v d (re_dirs v ! d) s = Some s'" and d: "d < length (re_dirs v)"
    and n: "\<not> ro_names (rs_opts s)" and fit: "all_fit v (ro_full (rs_opts s))"
  shows "covers v (oid_h ` loose_found v d) s s'"
proof -
  define found where "found = concat (map (loose_names v (re_dirs v ! d)) [0..<256])"
  define s1 where "s1 = fold (\<lambda>p. err (loose_key d zero_oid) (str ''bad sha1 file: '' @ p))
    (List.map_filter (\<lambda>n. case n of LooseCruft p \<Rightarrow> Some p | _ \<Rightarrow> None) found) s"
  have q: "quiet s s1" unfolding s1_def by (rule quiet_fold) (rule quiet_steps)
  then have o: "rs_opts s1 = rs_opts s" by (simp add: quiet_def)
  have lf: "loose_found v d = {x. \<exists>p. LooseObject x p \<in> set found}" unfolding loose_found_def found_def ..
  have "fold (\<lambda>n so. case n of LooseObject x p \<Rightarrow> do { s \<leftarrow> so; check_loose_object v d x (file_at v d x) p s } | LooseCruft p \<Rightarrow> so)
      found (Some s1) = Some s'"
    using run by (simp add: check_loose_dir_def Let_def found_def s1_def)
  then have "covers v {oid_h x | x p. LooseObject x p \<in> set found} s1 s'"
    by (rule loose_fold_covers [OF d]) (use lf o n fit in auto)
  from covers_trans [OF covers_quiet [OF q] this]
  show ?thesis by (simp add: lf image_def setcompr_eq_image)
qed

lemma each_dir_covers:
  "each_dir v (map (\<lambda>d. (d, re_dirs v ! d)) ds) s = Some s' \<Longrightarrow> set ds \<subseteq> {..<length (re_dirs v)} \<Longrightarrow> \<not> ro_names (rs_opts s) \<Longrightarrow>
    all_fit v (ro_full (rs_opts s)) \<Longrightarrow> covers v (\<Union>d \<in> set ds. oid_h ` loose_found v d) s s'"
proof (induction ds arbitrary: s)
  case (Cons d ds)
  obtain s1 where s1: "check_loose_dir v d (re_dirs v ! d) s = Some s1" and r: "each_dir v (map (\<lambda>d. (d, re_dirs v ! d)) ds) s1 = Some s'"
    using Cons.prems(1) by (auto simp: bind_eq_Some_conv)
  have c: "covers v (oid_h ` loose_found v d) s s1" using loose_dir_covers [OF s1] Cons.prems by simp
  note o = covers_opts [OF c]
  show ?case using covers_trans [OF c Cons.IH [OF r]] Cons.prems o by simp
qed (simp add: covers_quiet)

section \<open>Packs\<close>

definition named_in :: "verify_event list \<Rightarrow> bytes set" where
  "named_in es = {oid_h x | x t n buf. Walked (Object x t n buf) \<in> set es}"

lemma quiet_emit [quiets]: "quiet s (emit k x m s)"
  by (simp add: emit_def Let_def quiet_after)

lemma take_event_covers:
  assumes run: "take_event v k off e s = Some s'" and k: "k < length (db_packs (re_db v))" and full: "ro_full (rs_opts s)"
    and w: "pack_walk v k = Some (ok, es)" "e \<in> set es" and env: "env_ok v"
    and n: "\<not> ro_names (rs_opts s)" and fit: "all_fit v True"
  shows "covers v (named_in [e]) s s'"
proof (cases "\<exists>x t n buf. e = Walked (Object x t n buf)")
  case True
  then obtain x t m buf where e: "e = Walked (Object x t m buf)" by blast
  have ch: "checked v True (oid_h x) t buf" using checked.packed [OF TrueI k w(1)] w(2) e by simp
  have ty: "t \<in> four_types"
    using verify_events_sound [of "re_verify v k"] w e env k
    by (force simp: pack_walk_def env_ok_def sound_event_def four_types_def)
  have f: "links_fit (env_algo v) t buf" using fit ch by (auto simp: all_fit_def)
  have tk: "take_object v (pack_key k x) x t buf (str ''error: '' @ oid_string x @ str '': object corrupt or missing'') s = Some s'"
    using run by (simp add: take_event_def e Let_def)
  show ?thesis using take_object_scans [OF tk n _ ty f] ch full by (auto simp: covers_def named_in_def e)
next
  case False
  then have "quiet s s'" "named_in [e] = {}"
    using run by (auto simp: take_event_def named_in_def Let_def quiets split: verify_event.splits event.splits)
  then show ?thesis by (simp add: covers_quiet)
qed

lemma take_events_covers:
  assumes k: "k < length (db_packs (re_db v))" and w: "pack_walk v k = Some (ok, es)" and env: "env_ok v" and fit: "all_fit v True"
  shows "take_events v k us s = Some s' \<Longrightarrow> set us \<subseteq> set es \<Longrightarrow> ro_full (rs_opts s) \<Longrightarrow> \<not> ro_names (rs_opts s) \<Longrightarrow>
    covers v (named_in us) s s'"
proof (induction us arbitrary: s)
  case Nil
  then show ?case by (simp add: covers_quiet named_in_def)
next
  case (Cons e us)
  obtain s1 where s1: "take_event v k (event_offset us) e s = Some s1" and r: "take_events v k us s1 = Some s'"
    using Cons.prems(1) by (auto simp: bind_eq_Some_conv)
  have c: "covers v (named_in [e]) s s1" using take_event_covers [OF s1 k _ w _ env _ fit] Cons.prems by simp
  note o = covers_opts [OF c]
  have "named_in [e] \<union> named_in us = named_in (e # us)" by (auto simp: named_in_def)
  then show ?case using covers_trans [OF c Cons.IH [OF r]] Cons.prems o by simp
qed

definition pack_found :: "run_env \<Rightarrow> nat \<Rightarrow> bytes set" where
  "pack_found v k = {h. \<exists>ok es. pack_walk v k = Some (ok, es) \<and> h \<in> named_in es}"

lemma check_pack_covers:
  assumes run: "check_pack v k s = Some s'" and k: "k < length (db_packs (re_db v))" and env: "env_ok v" and fit: "all_fit v True"
    and o: "ro_full (rs_opts s)" "\<not> ro_names (rs_opts s)"
  shows "covers v (pack_found v k) s s'"
proof -
  obtain ok es s1 where w: "pack_walk v k = Some (ok, es)" and t: "take_events v k es s = Some s1"
    and s': "s' = (if ok then s1 else add_status error_pack s1)"
    using run by (auto simp: check_pack_def pack_walk_def bind_eq_Some_conv)
  have "quiet s1 s'" by (simp add: s' quiets)
  from covers_trans [OF take_events_covers [OF k w env fit t _ o] covers_quiet [OF this]]
  show ?thesis using w by (simp add: pack_found_def)
qed

lemma each_pack_covers:
  assumes env: "env_ok v" and fit: "all_fit v True"
  shows "each_pack v ks s = Some s' \<Longrightarrow> set ks \<subseteq> {..<length (db_packs (re_db v))} \<Longrightarrow> ro_full (rs_opts s) \<Longrightarrow>
    \<not> ro_names (rs_opts s) \<Longrightarrow> covers v (\<Union>k \<in> set ks. pack_found v k) s s'"
proof (induction ks arbitrary: s)
  case (Cons k ks)
  obtain s1 where s1: "check_pack v k s = Some s1" and r: "each_pack v ks s1 = Some s'"
    using Cons.prems(1) by (auto simp: bind_eq_Some_conv)
  have c: "covers v (pack_found v k) s s1" using check_pack_covers [OF s1 _ env fit] Cons.prems by simp
  note o = covers_opts [OF c]
  show ?case using covers_trans [OF c Cons.IH [OF r]] Cons.prems o by simp
qed (simp add: covers_quiet)

section \<open>The pass\<close>

definition found :: "run_env \<Rightarrow> bool \<Rightarrow> bytes set" where
  "found v full = (\<Union>d < length (re_dirs v). oid_h ` loose_found v d) \<union>
     (if full then (\<Union>k < length (db_packs (re_db v)). pack_found v k) else {})"

lemma checked_found: "checked v full h t buf \<Longrightarrow> h \<in> found v full"
  by (induction rule: checked.induct) (auto simp: found_def pack_found_def named_in_def)

lemma object_dirs_covers:
  assumes run: "check_object_dirs v s = Some s'" and env: "env_ok v" and fit: "all_fit v (ro_full (rs_opts s))"
    and n: "\<not> ro_names (rs_opts s)"
  shows "covers v (found v (ro_full (rs_opts s))) s s'"
proof -
  have zip: "zip [0..<length (re_dirs v)] (re_dirs v) = map (\<lambda>d. (d, re_dirs v ! d)) [0..<length (re_dirs v)]"
    by (rule nth_equalityI) auto
  obtain s1 where s1: "each_dir v (map (\<lambda>d. (d, re_dirs v ! d)) [0..<length (re_dirs v)]) s = Some s1"
    and r: "(if ro_full (rs_opts s1) then each_pack v [0..<length (db_packs (re_db v))] s1 else Some s1) = Some s'"
    using run by (auto simp: check_object_dirs_def zip bind_eq_Some_conv)
  have c: "covers v (\<Union>d < length (re_dirs v). oid_h ` loose_found v d) s s1"
    using each_dir_covers [OF s1 _ n fit] by (simp add: atLeast0LessThan)
  note o = covers_opts [OF c]
  show ?thesis
  proof (cases "ro_full (rs_opts s)")
    case True
    then have "covers v (\<Union>k < length (db_packs (re_db v)). pack_found v k) s1 s'"
      using each_pack_covers [OF env, of "[0..<length (db_packs (re_db v))]" s1 s'] r o fit n by (simp add: atLeast0LessThan)
    from covers_trans [OF c this] show ?thesis using True by (simp add: found_def)
  next
    case False
    then show ?thesis using c r o by (simp add: found_def)
  qed
qed

end
