(* ===== verification/RootMarks.thy ===== *)
theory RootMarks
  imports ObjectRuns Reach CheckerRun
begin

text \<open>
  The pass over the starting points, after the object pass: every reference, \<open>HEAD\<close>, reflog entry or
  argument it takes is marked and has an object, or the run has complained; and what the object pass
  recorded stays.
\<close>

declare flag_reachable_def [simp del] flag_seen_def [simp del] flag_has_obj_def [simp del] flag_used_def [simp del] flag_walked_def [simp del]

section \<open>The invariant\<close>

definition rooted :: "run_env \<Rightarrow> run_state \<Rightarrow> bool" where
  "rooted v s \<longleftrightarrow> table_ok s \<and> roots_ok s (rs_pending s) \<and> (\<forall>i < entry_count s. present s i \<longrightarrow> recorded v s i)"

definition keeps_marks :: "run_state \<Rightarrow> run_state \<Rightarrow> bool" where
  "keeps_marks s s' \<longleftrightarrow> (\<forall>i < entry_count s. en_hash (entry_at s' i) = en_hash (entry_at s i) \<and>
     present s' i = present s i \<and> (marked s i \<longrightarrow> marked s' i))"

definition complained :: "run_state \<Rightarrow> bool" where
  "complained s \<longleftrightarrow> rs_status s \<noteq> 0"

definition root_held :: "run_state \<Rightarrow> bytes \<Rightarrow> bool" where
  "root_held s h \<longleftrightarrow> complained s \<or> (\<exists>i < entry_count s. en_hash (entry_at s i) = h \<and> marked s i \<and> present s i)"

text \<open>The options a run keeps: the pass itself turns on the check of the index and may turn off \<open>--unreachable\<close>.\<close>

definition mode :: "run_options \<Rightarrow> bool \<times> bool \<times> bool \<times> bool \<times> bytes list" where
  "mode q = (ro_full q, ro_connectivity q, ro_lost_found q, ro_reflogs q, ro_args q)"

definition marks :: "run_env \<Rightarrow> bytes set \<Rightarrow> run_state \<Rightarrow> run_state \<Rightarrow> bool" where
  "marks v H s s' \<longleftrightarrow> entry_count s \<le> entry_count s' \<and> slab_count s \<le> slab_count s' \<and>
     mode (rs_opts s') = mode (rs_opts s) \<and> status_grows s s' \<and>
     (rooted v s \<longrightarrow> small s' \<longrightarrow> rooted v s' \<and> keeps_marks s s' \<and> (\<forall>h \<in> H. root_held s' h))"

lemma complained_later: "status_grows s s' \<Longrightarrow> complained s \<Longrightarrow> complained s'"
  by (auto simp: status_grows_def complained_def bit_eq_iff)

lemma marks_small: "marks v H s s' \<Longrightarrow> small s' \<Longrightarrow> small s"
  by (simp add: marks_def small_def)

lemma root_held_later:
  assumes "root_held s h" and "keeps_marks s s'" and "status_grows s s'" and "entry_count s \<le> entry_count s'"
  shows "root_held s' h"
proof (cases "complained s")
  case True
  then show ?thesis using complained_later [OF assms(3)] by (simp add: root_held_def)
next
  case False
  then obtain i where "i < entry_count s" "en_hash (entry_at s i) = h" "marked s i" "present s i"
    using assms(1) by (auto simp: root_held_def)
  then have "i < entry_count s' \<and> en_hash (entry_at s' i) = h \<and> marked s' i \<and> present s' i"
    using assms(2,4) by (simp add: keeps_marks_def)
  then show ?thesis by (auto simp: root_held_def)
qed

lemma marks_trans:
  assumes "marks v H s s1" and "marks v H' s1 s2"
  shows "marks v (H \<union> H') s s2"
proof -
  have "rooted v s2 \<and> keeps_marks s s2 \<and> (\<forall>h \<in> H \<union> H'. root_held s2 h)" if "rooted v s" "small s2"
  proof -
    have a: "rooted v s1" "keeps_marks s s1" "\<forall>h \<in> H. root_held s1 h" "entry_count s \<le> entry_count s1"
      using assms(1) that marks_small [OF assms(2)] by (auto simp: marks_def)
    have b: "rooted v s2" "keeps_marks s1 s2" "\<forall>h \<in> H'. root_held s2 h" "entry_count s1 \<le> entry_count s2" "status_grows s1 s2"
      using assms(2) that a(1) by (auto simp: marks_def)
    have "keeps_marks s s2" using a(2,4) b(2) by (simp add: keeps_marks_def)
    then show ?thesis using a(3) b root_held_later by auto
  qed
  then show ?thesis using assms by (auto simp: marks_def status_grows_def)
qed

lemma marks_builds:
  assumes b: "builds s s'"
  shows "marks v {} s s'"
proof -
  have "rooted v s' \<and> keeps_marks s s'" if r: "rooted v s" "small s'"
  proof
    have t: "table_ok s" using r(1) by (simp add: rooted_def)
    note k = builds_keeps [OF b t r(2)]
    have g: "grown s s'" "entry_count s \<le> entry_count s'" "rs_pending s' = rs_pending s" using b t r(2) by (simp_all add: builds_def)
    have new: "\<not> marked s' i" "\<not> present s' i" if "i < entry_count s'" "\<not> i < entry_count s" for i
      using g that by (simp_all add: grown_def)
    have "marked s' i \<and> present s' i \<longleftrightarrow> i < entry_count s \<and> marked s i \<and> present s i" if "i < entry_count s'" for i
      using new [OF that] k(2,3) [of i] by blast
    then have "i < entry_count s' \<and> marked s' i \<and> present s' i \<longleftrightarrow> i < entry_count s \<and> marked s i \<and> present s i" for i
      using g(2) by (cases "i < entry_count s'") auto
    then have "roots_ok s' (rs_pending s')" using r(1) g(3) by (simp add: rooted_def roots_ok_def)
    moreover have "present s' i \<longrightarrow> recorded v s' i" if "i < entry_count s'" for i
      using new [OF that] k(3,5) [of i] r(1) unfolding rooted_def by blast
    ultimately show "rooted v s'" using builds_ok [OF b t r(2)] by (simp add: rooted_def)
    show "keeps_marks s s'" using k by (simp add: keeps_marks_def)
  qed
  then show ?thesis using b by (simp add: marks_def builds_def)
qed

lemma marks_quiet: "quiet s s' \<Longrightarrow> marks v {} s s'"
  by (rule marks_builds [OF builds_quiet])

lemma marks_complaint:
  assumes "quiet s s'" and "complained s'"
  shows "marks v H s s'"
  using marks_quiet [OF assms(1), of v] assms(2) by (simp add: marks_def root_held_def)

lemma marks_then:
  assumes "builds s s1" and "marks v H s1 s2"
  shows "marks v H s s2"
  using marks_trans [OF marks_builds [OF assms(1)] assms(2)] by simp

lemma marks_after:
  assumes "marks v H s s1" and "quiet s1 s2"
  shows "marks v H s s2"
  using marks_trans [OF assms(1) marks_quiet [OF assms(2)]] by simp

lemma marks_subset: "marks v H s s' \<Longrightarrow> H' \<subseteq> H \<Longrightarrow> marks v H' s s'"
  by (auto simp: marks_def)

lemma complains:
  "complained (add_status error_reachable s)" "complained (add_status error_refs_bit s)" "complained (add_status error_object s)"
  "complained (err k m s) = complained s" "complained (note_partial s) = complained s" "complained (note_damaged x b s) = complained s"
  by (auto simp: complained_def add_status_def error_reachable_def error_refs_bit_def error_object_def err_def note_partial_def
      note_damaged_def or_eq_0_iff)

lemma marks_options:
  assumes "mode q = mode (rs_opts s)"
  shows "marks v {} s (s\<lparr>rs_opts := q\<rparr>)"
proof -
  have f: "ro_full q = ro_full (rs_opts s)" using assms by (simp add: mode_def)
  have e: "entry_at (s\<lparr>rs_opts := q\<rparr>) = entry_at s" "entry_count (s\<lparr>rs_opts := q\<rparr>) = entry_count s"
    "marked (s\<lparr>rs_opts := q\<rparr>) = marked s" "present (s\<lparr>rs_opts := q\<rparr>) = present s" "object_bit (s\<lparr>rs_opts := q\<rparr>) = object_bit s"
    by (simp_all add: fun_eq_iff entry_at_def entry_count_def marked_def present_def object_bit_def)
  then have l: "link_met (s\<lparr>rs_opts := q\<rparr>) = link_met s" by (simp add: fun_eq_iff link_met_def)
  have "recorded v (s\<lparr>rs_opts := q\<rparr>) = recorded v s" by (simp add: fun_eq_iff recorded_def e l f)
  then show ?thesis using assms
    by (simp add: marks_def rooted_def keeps_marks_def e roots_ok_def table_ok_def slab_count_def status_grows_def)
qed

section \<open>A root is marked\<close>

lemma recorded_mark:
  assumes "recorded v s i" and "\<And>k. k < entry_count s \<Longrightarrow> en_hash (entry_at s' k) = en_hash (entry_at s k)"
    and "entry_at s' i = entry_at s i \<or> entry_at s' i = snd (set_flag flag_reachable (entry_at s i))"
    and "entry_count s' = entry_count s" "ot_arena (rs_table s') = ot_arena (rs_table s)" "rs_opts s' = rs_opts s"
    "rs_status s' = rs_status s"
  shows "recorded v s' i"
proof -
  have e: "en_hash (entry_at s' i) = en_hash (entry_at s i)" "en_type (entry_at s' i) = en_type (entry_at s i)"
    "has_flag flag_walked (entry_at s' i) = has_flag flag_walked (entry_at s i)"
    "en_ref (entry_at s' i) = en_ref (entry_at s i)" "en_len (entry_at s' i) = en_len (entry_at s i)"
    using assms(3) set_reachable by auto
  have "link_met s' b l x" if "link_met s b l x" for b l x
    using that assms(2,4) by (auto simp: link_met_def split: if_splits)
  then have "list_all2 (link_met s' b) ls es" if "list_all2 (link_met s b) ls es" for b ls es
    using that by (auto elim: list_all2_mono)
  then show ?thesis
    using assms(1,5,6,7) unfolding recorded_def e edges_at_def object_bit_def by metis
qed

lemma mark_reachable_marks:
  assumes i: "rooted v s \<Longrightarrow> small s \<Longrightarrow> i < entry_count s"
  shows "marks v (if present s i then {en_hash (entry_at s i)} else {}) s (mark_reachable i s)"
proof -
  define s1 where "s1 = snd (flag_entry flag_reachable i s)"
  define s' where "s' = mark_reachable i s"
  have s1: "s1 = update_entry i (\<lambda>e. snd (set_flag flag_reachable e)) s" by (simp add: s1_def flag_entry_def)
  have old: "fst (flag_entry flag_reachable i s) = marked s i"
    using set_reachable(9) by (simp add: flag_entry_def marked_def)
  have s': "s' = (if marked s i then s else if \<not> present s1 i then s1 else s1\<lparr>rs_pending := rs_pending s1 @ [i]\<rparr>)"
    using old by (simp add: s'_def mark_reachable_def case_prod_beta s1_def present_def)
  have rest: "entry_count s' = entry_count s" "slab_count s' = slab_count s" "rs_opts s' = rs_opts s" "rs_status s' = rs_status s"
    "ot_arena (rs_table s') = ot_arena (rs_table s)"
    unfolding s' s1 by (simp_all add: update_entry_def set_entry_def entry_count_def slab_count_def)
  have main: "rooted v s' \<and> keeps_marks s s' \<and> (present s i \<longrightarrow> root_held s' (en_hash (entry_at s i)))"
    if r: "rooted v s" "small s'"
  proof -
    have sm: "small s" using r(2) rest by (simp add: small_def)
    note i = i [OF r(1) sm]
    have t: "table_ok s" and p: "set (rs_pending s) = {i. i < entry_count s \<and> marked s i \<and> present s i}"
      using r(1) by (simp_all add: rooted_def roots_ok_def)
    have inv: "table_inv (rs_table s)" using t by (simp add: table_ok_def)
    note fl = flag_entry_graph [OF inv i, folded s1_def]
    note g = same_graphD [OF fl(1)]
    have at1: "entry_at s1 k = (if k = i then snd (set_flag flag_reachable (entry_at s i)) else entry_at s k)" for k
      unfolding s1 using entry_at_update [OF i] .
    have at: "entry_at s' k = entry_at s k \<or> entry_at s' k = snd (set_flag flag_reachable (entry_at s k))" for k
    proof -
      have "entry_at s' k = entry_at s k \<or> entry_at s' k = entry_at s1 k" unfolding s' by (simp add: entry_at_def)
      then show ?thesis by (auto simp: at1)
    qed
    have pr: "present s' k = present s k" "en_hash (entry_at s' k) = en_hash (entry_at s k)" for k
      using at [of k] set_reachable(1,6) by (auto simp: present_def)
    have mk: "marked s' k \<longleftrightarrow> marked s k \<or> k = i" for k
      using fl(3) [of k] unfolding s' by (auto simp: marked_def entry_at_def)
    have p1: "present s1 i = present s i" using g(3) [OF i] .
    have pend: "rs_pending s1 = rs_pending s" by (simp add: s1 update_entry_def)
    have "set (rs_pending s') = {k. k < entry_count s' \<and> marked s' k \<and> present s' k}"
      unfolding mk pr rest using p i p1 pend unfolding s' by auto
    moreover have "table_ok s'"
      using t same_graph_basic(2) [OF fl(1)] unfolding s' by (simp add: table_ok_def s1 update_entry_def set_entry_def)
    moreover have "recorded v s' k" if "k < entry_count s'" "present s' k" for k
      using recorded_mark [of v s k s'] r(1) that pr at rest unfolding rooted_def by metis
    ultimately have "rooted v s'" by (simp add: rooted_def roots_ok_def)
    moreover have "keeps_marks s s'" using pr mk by (simp add: keeps_marks_def)
    moreover have "present s i \<longrightarrow> root_held s' (en_hash (entry_at s i))"
      using i rest pr mk by (auto simp: root_held_def)
    ultimately show ?thesis by blast
  qed
  then show ?thesis
    using rest unfolding marks_def s'_def [symmetric] by (auto simp: status_grows_def)
qed

lemma held_entry_is:
  assumes "held_entry s x = Some (Some i)"
  shows "table_ok s \<Longrightarrow> i < entry_count s \<and> en_hash (entry_at s i) = oid_h x" "present s i"
proof -
  obtain e where "table_get (rs_table s) (oid_h x) = Some e" "e = Some i" "present s i"
    using assms by (auto simp: held_entry_def present_def split: option.splits if_splits)
  then show "table_ok s \<Longrightarrow> i < entry_count s \<and> en_hash (entry_at s i) = oid_h x" "present s i"
    using table_get_exact [of "rs_table s" "oid_h x"] entry_index_Some [of "ot_entries (rs_table s)" "oid_h x" i]
    by (auto simp: table_ok_def entry_count_def entry_at_def)
qed

text \<open>An entry is marked after steps that build.\<close>

lemma mark_after:
  assumes b: "builds s s1" and i: "rooted v s \<Longrightarrow> small s1 \<Longrightarrow> i < entry_count s1"
    and H: "\<And>h. h \<in> H \<Longrightarrow> rooted v s \<Longrightarrow> small s1 \<Longrightarrow> present s1 i \<and> en_hash (entry_at s1 i) = h"
  shows "marks v H s (mark_reachable i s1)"
proof -
  define s' where "s' = mark_reachable i s1"
  have small: "small s' \<longleftrightarrow> small s1"
    by (simp add: s'_def mark_reachable_def small_def flag_entry_def update_entry_def set_entry_def entry_count_def slab_count_def)
  have sizes: "entry_count s' = entry_count s1" "slab_count s' = slab_count s1" "rs_opts s' = rs_opts s1" "status_grows s1 s'"
    by (simp_all add: s'_def mark_reachable_def flag_entry_def update_entry_def set_entry_def entry_count_def slab_count_def
        status_grows_def)
  have "rooted v s' \<and> keeps_marks s s' \<and> (\<forall>h \<in> H. root_held s' h)" if r: "rooted v s" "small s'"
  proof -
    have sm: "small s1" using small r(2) by simp
    have m1: "marks v {} s s1" by (rule marks_builds [OF b])
    have "marks v (if present s1 i then {en_hash (entry_at s1 i)} else {}) s1 s'"
      unfolding s'_def by (rule mark_reachable_marks) (use i r(1) sm in blast)
    moreover have "H \<subseteq> (if present s1 i then {en_hash (entry_at s1 i)} else {})" using H r(1) sm by fastforce
    ultimately have "marks v H s1 s'" by (rule marks_subset)
    then have "marks v H s s'" using marks_trans [OF m1] by fastforce
    then show ?thesis using r by (simp add: marks_def)
  qed
  then show ?thesis using sizes b unfolding s'_def [symmetric] by (auto simp: marks_def builds_def status_grows_def)
qed

lemma mark_held:
  assumes h: "held_entry s x = Some (Some i)" and b: "builds s s1"
  shows "marks v {oid_h x} s (mark_reachable i s1)"
proof -
  have idx: "i < entry_count s1 \<and> present s1 i \<and> en_hash (entry_at s1 i) = oid_h x" if "rooted v s" "small s1"
  proof -
    have t: "table_ok s" using that(1) by (simp add: rooted_def)
    then have "i < entry_count s" "en_hash (entry_at s i) = oid_h x" "present s i" using held_entry_is [OF h] by blast+
    with builds_keeps [OF b t that(2)] b show ?thesis by (simp add: builds_def)
  qed
  show ?thesis by (rule mark_after [OF b]) (use idx in auto)
qed

lemma mark_looked_up:
  assumes l: "run_lookup x t s = Some (Some i, s1)" and b: "builds s1 s2"
  shows "marks v {} s (mark_reachable i s2)"
proof (rule mark_after)
  note bl = run_lookup_builds [OF l]
  show "builds s s2" by (rule builds_trans [OF bl(1) b])
  show "i < entry_count s2" if "rooted v s" "small s2"
    using bl(3) [of i] that builds_small [OF b that(2)] b by (simp add: rooted_def builds_def)
qed simp

section \<open>References\<close>

lemma refuse_ref_marks:
  assumes "refuse_ref v k refname x s = Some s'"
  shows "marks v H s s'"
proof -
  obtain s1 where s1: "reparse v k x s = Some s1" and s': "s' = (let s2 = add_status error_reachable
      (err k (str ''error: '' @ refname @ str '': invalid sha1 pointer '' @ oid_string x) s1) in
       (if named_damaged s2 x then s2 else if \<not> db_has (re_db v) x then note_damaged x True s2 else note_partial s2))"
    using assms by (auto simp: refuse_ref_def Let_def bind_eq_Some_conv)
  obtain r s0 where r: "run_read v x s = Some (r, s0)" and s1': "s1 = (case r of Inl e \<Rightarrow> s0
      | Inr (t, buf) \<Rightarrow> fold (\<lambda>m. err k (str ''error: '' @ m)) (snd (walk_links t x buf (env_algo v) [] False)) s0)"
    using s1 by (auto simp: reparse_def bind_eq_Some_conv)
  have "quiet s0 s1" by (simp add: s1' quiet_fold quiet_steps split: sum.splits prod.splits)
  then have "quiet s s1" using quiet_trans [OF quiet_run_read [OF r]] by blast
  then have "quiet s s'" by (simp add: s' Let_def quiet_after)
  moreover have "complained s'" by (simp add: s' Let_def complains del: str_def)
  ultimately show ?thesis by (rule marks_complaint)
qed

lemma builds_steps: "builds s s1 \<Longrightarrow> quiet s1 s2 \<Longrightarrow> builds s s2" "builds s s1 \<Longrightarrow> builds s (use_entry i s1)"
  using builds_trans builds_quiet builds_used by blast+

lemma builds_named: "builds s s1 \<Longrightarrow> builds s (name_object x n (use_entry i s1))"
  by (rule builds_steps(1) [OF builds_steps(2) quiet_steps(8)])

lemma take_ref_marks:
  assumes h: "held_entry s x = Some (Some i)" and t: "take_ref v k refname x i s = Some s'"
  shows "marks v {oid_h x} s s'"
proof -
  obtain ty s1 where e: "ensure_type v i s = Some (ty, s1)"
    and s': "s' = (let s2 = (if ty \<noteq> TypeCommit \<and> is_branch_ref refname
                 then add_status error_refs_bit (err k (str ''error: '' @ refname @ str '': not a commit'') s1) else s1);
       s3 = use_entry i (s2\<lparr>rs_heads := rs_heads s2 + 1\<rparr>) in mark_reachable i (name_object x refname s3))"
    using t by (auto simp: take_ref_def Let_def bind_eq_Some_conv)
  define s2 where "s2 = (if ty \<noteq> TypeCommit \<and> is_branch_ref refname
                 then add_status error_refs_bit (err k (str ''error: '' @ refname @ str '': not a commit'') s1) else s1)"
  have "builds s s2"
    using builds_steps(1) [OF ensure_type_builds [OF e]] by (simp add: s2_def quiet_after)
  then have "builds s (s2\<lparr>rs_heads := rs_heads s2 + 1\<rparr>)" using builds_steps(1) by (simp add: quiet_steps)
  from builds_steps(1) [OF builds_steps(2) [OF this] quiet_steps(8)]
  have "marks v {oid_h x} s (mark_reachable i (name_object x refname (use_entry i (s2\<lparr>rs_heads := rs_heads s2 + 1\<rparr>))))"
    by (rule mark_held [OF h])
  then show ?thesis by (simp add: s' Let_def s2_def)
qed

lemma handle_ref_marks:
  assumes "handle_ref v refname x broken s = Some s'"
  shows "marks v {oid_h x} s s'"
proof (cases "broken \<or> held_entry s x = Some None")
  case True
  then have "refuse_ref v (heads_key 0 x) refname x s = Some s'" using assms by (auto simp: handle_ref_def split: if_splits)
  then show ?thesis by (rule refuse_ref_marks)
next
  case False
  then obtain i where "held_entry s x = Some (Some i)" "take_ref v (heads_key 0 x) refname x i s = Some s'"
    using assms by (auto simp: handle_ref_def bind_eq_Some_conv split: option.splits)
  then show ?thesis by (rule take_ref_marks)
qed

lemma run_each_marks:
  assumes "\<And>x s s'. x \<in> set xs \<Longrightarrow> mode (rs_opts s) = q \<Longrightarrow> f x s = Some s' \<Longrightarrow> marks v (H x) s s'"
  shows "run_each f xs s = Some s' \<Longrightarrow> mode (rs_opts s) = q \<Longrightarrow> marks v (\<Union>x \<in> set xs. H x) s s'"
  using assms
proof (induction xs arbitrary: s)
  case Nil
  then show ?case by (simp add: marks_quiet)
next
  case (Cons x xs)
  obtain s1 where s1: "f x s = Some s1" and r: "run_each f xs s1 = Some s'" using Cons.prems(1) by (auto simp: bind_eq_Some_conv)
  have m: "marks v (H x) s s1" using Cons.prems(2,3) s1 by simp
  then have "mode (rs_opts s1) = q" using Cons.prems(2) by (simp add: marks_def)
  then show ?case using marks_trans [OF m Cons.IH [OF r]] Cons.prems(3) by simp
qed

lemma handle_reflog_marks:
  assumes "handle_reflog_oid v refname x time s = Some s'"
  shows "marks v (if valid_oid x \<and> \<not> is_null x then {oid_h x} else {}) s s'"
proof (cases "valid_oid x \<and> \<not> is_null x")
  case False
  then have "s' = s" using assms by (auto simp: handle_reflog_oid_def)
  then show ?thesis unfolding if_not_P [OF False] by (simp add: marks_quiet)
next
  case True
  then obtain e where e: "held_entry s x = Some e" and s': "s' = (case e of
      None \<Rightarrow> note_partial (add_status error_reachable
              (err (heads_key 1 x) (str ''error: '' @ refname @ str '': invalid reflog entry '' @ oid_string x) s))
    | Some i \<Rightarrow> (let s1 = (if time \<noteq> 0 then name_object x (refname @ [64, 123] @ dec_int time @ str ''}'') s else s)
               in mark_reachable i (use_entry i s1)))"
    using assms by (auto simp: handle_reflog_oid_def bind_eq_Some_conv)
  have "marks v {oid_h x} s s'"
  proof (cases e)
    case None
    then show ?thesis by (simp add: s' marks_complaint quiet_after complains del: str_def)
  next
    case (Some i)
    define s1 where "s1 = (if time \<noteq> 0 then name_object x (refname @ [64, 123] @ dec_int time @ str ''}'') s else s)"
    have "builds s (use_entry i s1)"
      using builds_steps(2) [OF builds_quiet, of s s1 i] by (simp add: s1_def quiet_steps)
    then show ?thesis using mark_held e Some by (simp add: s' s1_def)
  qed
  then show ?thesis using True by simp
qed

section \<open>Indexes\<close>

lemma index_entry_marks:
  assumes "fsck_index_entry v prefix ce s = Some s'"
  shows "marks v {} s s'"
proof (cases "index_mode_is 0xE000 (ix_mode ce)")
  case True
  then show ?thesis using assms by (simp add: fsck_index_entry_def marks_quiet)
next
  case False
  then obtain target s1 where l: "run_lookup (ix_oid ce) TypeBlob s = Some (target, s1)" and s': "s' = (case target of
      None \<Rightarrow> s1 | Some i \<Rightarrow> mark_reachable i (name_object (ix_oid ce) (prefix @ str '':'' @ ix_name ce) (use_entry i s1)))"
    using assms by (auto simp: fsck_index_entry_def bind_eq_Some_conv)
  show ?thesis
  proof (cases target)
    case None
    then show ?thesis using run_lookup_builds(1) [OF l] by (simp add: s' marks_builds)
  next
    case (Some i)
    have "builds s1 (name_object (ix_oid ce) (prefix @ str '':'' @ ix_name ce) (use_entry i s1))"
      by (simp add: builds_named)
    then show ?thesis using mark_looked_up l Some by (simp add: s')
  qed
qed

lemma cache_node_marks:
  assumes "fsck_cache_node v path n x s = Some (into, s')"
  shows "marks v {} s s'"
proof (cases "n < 0")
  case True
  then show ?thesis using assms by (simp add: fsck_cache_node_def marks_quiet)
next
  case False
  then obtain e where e: "held_entry s x = Some e" using assms by (auto simp: fsck_cache_node_def bind_eq_Some_conv)
  show ?thesis
  proof (cases e)
    case None
    then show ?thesis using assms e False by (auto simp: fsck_cache_node_def marks_quiet quiet_after)
  next
    case (Some i)
    have b: "builds s (name_object x (str '':'') (use_entry i s))"
      by (simp add: builds_named)
    obtain t s1 where s1: "ensure_type v i (mark_reachable i (name_object x (str '':'') (use_entry i s))) = Some (t, s1)"
      and s2: "(if t \<noteq> TypeTree then obj_error index_key x (str ''non-tree in cache-tree'') s1 else Some s1) = Some s'"
      using assms e False Some by (auto simp: fsck_cache_node_def bind_eq_Some_conv)
    have q: "quiet s1 s'" using s2 by (auto split: if_splits intro: quiet_obj_error)
    have "marks v {} s s1"
      using marks_trans [OF marks_subset [OF mark_held [OF _ b]] marks_builds [OF ensure_type_builds [OF s1]]] e Some by auto
    then show ?thesis by (rule marks_after [OF _ q])
  qed
qed

lemma cache_trees_marks: "fsck_cache_trees v path ts s = Some s' \<Longrightarrow> marks v {} s s'"
proof (induction v path ts s arbitrary: s' rule: fsck_cache_trees.induct)
  case (1 v path s)
  then show ?case by (simp add: marks_quiet)
next
  case (2 v path name n x subtrees rest s)
  obtain into s1 s2 where s: "fsck_cache_node v path n x s = Some (into, s1)"
    "(if into then fsck_cache_trees v path subtrees s1 else Some s1) = Some s2" "fsck_cache_trees v path rest s2 = Some s'"
    using "2.prems" by (auto simp: bind_eq_Some_conv)
  have "marks v {} s1 s2"
    using "2.IH"(1) [OF s(1) refl] s(2) marks_quiet [OF quiet_refl] by (cases into) auto
  moreover have "marks v {} s2 s'" using "2.IH"(2) [OF s(1) refl s(2) s(3)] .
  ultimately show ?case using marks_trans [OF marks_trans [OF cache_node_marks [OF s(1)]]] by fastforce
qed

lemma undo_stage_marks:
  assumes "fsck_undo_stage path u n s = Some s'"
  shows "marks v {} s s'"
proof (cases "ru_mode u ! n = 0 \<or> \<not> index_mode_is 0x8000 (word_of_nat (ru_mode u ! n))")
  case True
  then show ?thesis using assms by (simp add: fsck_undo_stage_def marks_quiet)
next
  case False
  let ?x = "ru_oid u ! n"
  obtain e where e: "held_entry s ?x = Some e" and s': "s' = (case e of
      None \<Rightarrow> add_status error_refs_bit (err index_key (index_pointer_text ?x (str ''resolve-undo'') path) s)
    | Some i \<Rightarrow> mark_reachable i (name_object ?x (str '':('' @ dec_digits n @ str ''):'' @ ru_path u) (use_entry i s)))"
    using assms False by (auto simp: fsck_undo_stage_def Let_def bind_eq_Some_conv)
  show ?thesis
  proof (cases e)
    case None
    then show ?thesis by (simp add: s' marks_quiet quiet_after)
  next
    case (Some i)
    have "builds s (name_object ?x (str '':('' @ dec_digits n @ str ''):'' @ ru_path u) (use_entry i s))"
      by (simp add: builds_named)
    then show ?thesis using marks_subset [OF mark_held] e Some by (simp add: s')
  qed
qed

lemma run_each_marks_none:
  assumes "\<And>x s s'. f x s = Some s' \<Longrightarrow> marks v {} s s'" and "run_each f xs s = Some s'"
  shows "marks v {} s s'"
  using run_each_marks [of xs "mode (rs_opts s)" f v "\<lambda>_. {}" s s'] assms by simp

lemma check_indexes_marks:
  assumes "check_indexes v s = Some s'"
  shows "marks v {} s s'"
proof -
  have index: "marks v {} s s'" if r: "fsck_index v idx path current s = Some s'" for idx path current s s'
  proof -
    obtain s1 s2 where s: "run_each (fsck_index_entry v (if current then [] else path)) (xf_entries idx) s = Some s1"
      "fsck_cache_trees v path (case xf_cache_tree idx of None \<Rightarrow> [] | Some t \<Rightarrow> [t]) s1 = Some s2"
      "run_each (\<lambda>u. run_each (fsck_undo_stage path u) [0..<3]) (xf_undo idx) s2 = Some s'"
      using r unfolding fsck_index_def bind_eq_Some_conv by blast
    have "marks v {} s2 s'"
      by (rule run_each_marks_none [OF _ s(3)]) (rule run_each_marks_none [OF undo_stage_marks])
    then show ?thesis
      using marks_trans [OF marks_trans [OF run_each_marks_none [OF index_entry_marks s(1)] cache_trees_marks [OF s(2)]]]
      by fastforce
  qed
  have one: "marks v {} s s'" if "check_index v w s = Some s'" for w s s'
  proof (cases "read_index (env_algo v) (re_index_file v (wt_dir w @ [str ''index'']))")
    case (Inl e)
    obtain errs msg where t: "index_error_text (re_shown v (wt_dir w @ [str ''index''])) e = (errs, msg)"
      by (cases "index_error_text (re_shown v (wt_dir w @ [str ''index''])) e")
    show ?thesis
      using that Inl t
      by (auto simp: check_index_def Let_def split: index_error.splits intro!: marks_quiet quiet_after quiet_fold_after)
  next
    case (Inr idx)
    then have "fsck_index v idx (re_shown v (wt_dir w @ [str ''index''])) (wt_main w)
        (fold (\<lambda>sig. err index_key (str ''ignoring '' @ sig @ str '' extension'')) (xf_ignored idx) s) = Some s'"
      using that by (simp add: check_index_def Let_def)
    moreover have "quiet s (fold (\<lambda>sig. err index_key (str ''ignoring '' @ sig @ str '' extension'')) (xf_ignored idx) s)"
      by (rule quiet_fold) (rule quiet_steps)
    ultimately show ?thesis using marks_trans [OF marks_quiet index] by fastforce
  qed
  show ?thesis by (rule run_each_marks_none [OF one]) (use assms in \<open>simp_all add: check_indexes_def\<close>)
qed

section \<open>All the starting points\<close>

definition head_roots :: "run_env \<Rightarrow> worktree \<Rightarrow> bytes set" where
  "head_roots v w = (case run_head v w of None \<Rightarrow> {} | Some (target, x) \<Rightarrow> if is_null x then {} else {oid_h x})"

definition named_oid :: "oid \<Rightarrow> bytes set" where
  "named_oid x = (if valid_oid x \<and> \<not> is_null x then {oid_h x} else {})"

definition log_roots :: "run_env \<Rightarrow> worktree \<Rightarrow> bytes set" where
  "log_roots v w = (\<Union>name \<in> set (reflog_names (re_repo v) (re_log_walk v) (wt_dir w)).
     \<Union>e \<in> set (reflog (re_repo v) (re_files v) (wt_dir w) name). named_oid (rl_old e) \<union> named_oid (rl_new e))"

definition arg_roots :: "run_env \<Rightarrow> bytes \<Rightarrow> bytes set" where
  "arg_roots v arg = (case parse_oid (env_algo v) arg of None \<Rightarrow> {} | Some x \<Rightarrow> {oid_h x})"

text \<open>The names a run starts from: its arguments, or every reference, \<open>HEAD\<close> and, unless switched off,
  every name in a reflog.\<close>

definition run_roots :: "run_env \<Rightarrow> run_options \<Rightarrow> bytes set" where
  "run_roots v opts =
     (if ro_args opts \<noteq> [] then \<Union>arg \<in> set (ro_args opts). arg_roots v arg
      else (\<Union>r \<in> set (run_refs v). {oid_h (ref_oid r)}) \<union>
        (\<Union>w \<in> set (run_worktrees v). head_roots v w \<union> (if ro_reflogs opts then log_roots v w else {})))"

lemma handle_arg_marks:
  assumes "handle_arg v arg s = Some s'"
  shows "marks v (arg_roots v arg) s s'"
  using assms handle_ref_marks
  by (auto simp: handle_arg_def arg_roots_def marks_quiet quiet_after simp del: str_def split: option.splits)

lemma reflogs_marks:
  assumes "handle_reflogs v w s = Some s'"
  shows "marks v (log_roots v w) s s'"
proof -
  have entry: "marks v (named_oid (rl_old e) \<union> named_oid (rl_new e)) s s'" if r: "handle_reflog_entry v n e s = Some s'" for n e s s'
  proof -
    obtain s1 where "handle_reflog_oid v n (rl_old e) 0 s = Some s1" "handle_reflog_oid v n (rl_new e) (rl_time e) s1 = Some s'"
      using r by (auto simp: handle_reflog_entry_def bind_eq_Some_conv)
    then show ?thesis unfolding named_oid_def using marks_trans handle_reflog_marks by metis
  qed
  have log: "marks v (\<Union>e \<in> set (reflog (re_repo v) (re_files v) (wt_dir w) name). named_oid (rl_old e) \<union> named_oid (rl_new e)) s s'"
    if r: "run_each (handle_reflog_entry v (worktree_ref_name w name)) (reflog (re_repo v) (re_files v) (wt_dir w) name) s = Some s'"
    for name s s'
    by (rule run_each_marks [OF entry r refl])
  show ?thesis unfolding log_roots_def
    by (rule run_each_marks [OF log assms [unfolded handle_reflogs_def] refl])
qed

lemma worktree_marks:
  assumes "handle_worktree v w s = Some s'"
  shows "marks v (head_roots v w \<union> (if ro_reflogs (rs_opts s) then log_roots v w else {})) s s'"
proof -
  obtain s1 where s1: "(case run_head v w of
           None \<Rightarrow> Some s
         | Some (target, x) \<Rightarrow> if is_null x then Some s else handle_ref v (worktree_ref_name w (str ''HEAD'')) x False s) = Some s1"
    and r: "(if ro_reflogs (rs_opts s1) then handle_reflogs v w s1 else Some s1) = Some s'"
    using assms by (auto simp: handle_worktree_def bind_eq_Some_conv simp del: str_def)
  have m: "marks v (head_roots v w) s s1"
    using s1 handle_ref_marks by (auto simp: head_roots_def marks_quiet simp del: str_def split: option.splits if_splits)
  then have "ro_reflogs (rs_opts s1) = ro_reflogs (rs_opts s)" by (simp add: marks_def mode_def)
  moreover have "marks v (if ro_reflogs (rs_opts s1) then log_roots v w else {}) s1 s'"
    using r reflogs_marks by (auto simp: marks_quiet split: if_splits)
  ultimately show ?thesis using marks_trans [OF m] by simp
qed

lemma default_heads_marks:
  assumes "default_heads v s = Some s'"
  shows "marks v ((\<Union>r \<in> set (run_refs v). {oid_h (ref_oid r)}) \<union>
    (\<Union>w \<in> set (run_worktrees v). head_roots v w \<union> (if ro_reflogs (rs_opts s) then log_roots v w else {}))) s s'"
proof -
  obtain s1 where s1: "run_each (\<lambda>x. handle_ref v (ref_name x) (ref_oid x) (ref_broken x)) (run_refs v) s = Some s1"
    and r: "run_each (handle_worktree v) (run_worktrees v) s1 = Some s'"
    using assms by (auto simp: default_heads_def bind_eq_Some_conv)
  have m: "marks v (\<Union>r \<in> set (run_refs v). {oid_h (ref_oid r)}) s s1"
    by (rule run_each_marks [OF handle_ref_marks s1 refl])
  have o: "ro_reflogs (rs_opts s1) = ro_reflogs (rs_opts s)" using m by (simp add: marks_def mode_def)
  have w: "marks v (head_roots v w \<union> (if ro_reflogs (rs_opts s) then log_roots v w else {})) t t'"
    if "mode (rs_opts t) = mode (rs_opts s1)" "handle_worktree v w t = Some t'" for w t t'
    using worktree_marks [OF that(2)] that(1) o by (simp add: mode_def)
  show ?thesis by (rule marks_trans [OF m run_each_marks [OF w r refl]])
qed

lemma heads_phase_marks:
  assumes "heads_phase v s = Some s'"
  shows "marks v (run_roots v (rs_opts s)) s s'"
proof -
  let ?args = "ro_args (rs_opts s)" and ?all = "\<Union>arg \<in> set (ro_args (rs_opts s)). arg_roots v arg"
  define refused where "refused = snd (packed_refs (re_repo v) (re_files v) [])"
  obtain s1 s2 where s1: "handle_args v s = Some s1"
    and s2: "(if ?args = [] then map_option (\<lambda>s. s\<lparr>rs_opts := (rs_opts s)\<lparr>ro_keep_cache := True\<rparr>\<rparr>) (default_heads v s1) else Some s1) = Some s2"
    and s': "s' = (if ?args = [] \<and> refused \<noteq> [] then note_fatal_msg refused (note_no_heads s2) else note_no_heads s2)"
    using assms unfolding heads_phase_def refused_def Let_def bind_eq_Some_conv by (auto split del: if_split)
  have m1: "marks v ?all s s1"
    using run_each_marks [OF handle_arg_marks s1 [unfolded handle_args_def] refl] .
  have o1: "mode (rs_opts s1) = mode (rs_opts s)" using m1 by (simp add: marks_def)
  have m2: "marks v (run_roots v (rs_opts s)) s s2"
  proof (cases "?args = []")
    case False
    then show ?thesis using s2 m1 by (simp add: run_roots_def)
  next
    case True
    then obtain t where t: "default_heads v s1 = Some t" and s2: "s2 = t\<lparr>rs_opts := (rs_opts t)\<lparr>ro_keep_cache := True\<rparr>\<rparr>"
      using s2 by auto
    have "marks v {} t s2" unfolding s2 by (rule marks_options) (simp add: mode_def)
    from marks_trans [OF marks_trans [OF m1 default_heads_marks [OF t]] this] show ?thesis
      using True o1 by (simp add: run_roots_def mode_def)
  qed
  have m3: "marks v {} s2 (note_no_heads s2)"
  proof (cases "rs_heads s2 = 0")
    case True
    define s3 where "s3 = err ((at_phase phase_heads)\<lparr>key_group := 2 ^ 20\<rparr>) (str ''notice: No default references'') s2"
    have q: "marks v {} s2 s3" unfolding s3_def by (rule marks_quiet) (rule quiet_steps)
    have "note_no_heads s2 = s3\<lparr>rs_opts := (rs_opts s3)\<lparr>ro_unreachable := False\<rparr>\<rparr>"
      using True by (simp add: note_no_heads_def s3_def)
    moreover have "marks v {} s3 (s3\<lparr>rs_opts := (rs_opts s3)\<lparr>ro_unreachable := False\<rparr>\<rparr>)"
      by (rule marks_options) (simp add: mode_def)
    ultimately show ?thesis using marks_trans [OF q] by fastforce
  qed (simp add: note_no_heads_def marks_quiet)
  have "quiet (note_no_heads s2) s'" by (simp add: s' quiet_steps)
  from marks_after [OF marks_trans [OF m2 m3] this] show ?thesis by simp
qed

end
