(* ===== verification/RunGrowth.thy ===== *)
theory RunGrowth
  imports ObjectStep
begin

text \<open>
  Status bits and sizes only grow in the passes after the starting points, whatever the state they run in.
\<close>

named_theorems swelling

definition swells :: "run_state \<Rightarrow> run_state \<Rightarrow> bool" where
  "swells s s' \<longleftrightarrow> entry_count s \<le> entry_count s' \<and> slab_count s \<le> slab_count s' \<and> status_grows s s'"

lemma swells_trans: "swells s s1 \<Longrightarrow> swells s1 s2 \<Longrightarrow> swells s s2"
  by (simp add: swells_def status_grows_def)

lemma swells_sizes: "sizes s s' \<Longrightarrow> swells s s'"
  by (simp add: swells_def sizes_def)

lemma swells_quiet [swelling]: "quiet s s' \<Longrightarrow> swells s s'"
  by (rule swells_sizes [OF sizes_steps(2)])

lemma swells_builds [swelling]: "builds s s' \<Longrightarrow> swells s s'"
  by (rule swells_sizes [OF sizes_steps(1)])

lemma swells_update: "swells s (update_entry i f s)" "swells s (snd (flag_entry g i s))"
  by (simp_all add: swells_sizes sizes_steps flag_entry_def)

lemma swells_refl [simp, swelling]: "swells s s"
  by (rule swells_quiet) simp

section \<open>The walk\<close>

lemma swells_link_into:
  assumes "mark_link_into v k p t via target s = Some (new, s')"
  shows "swells s s'"
proof (cases target)
  case None
  then show ?thesis using assms
    by (auto simp: mark_link_into_def Let_def bind_eq_Some_conv intro!: swells_quiet quiet_after)
next
  case (Some i)
  define x where "x = oid_of v s p"
  obtain s1 where s1: "(if \<not> via \<and> en_type (entry_at s i) \<noteq> TypeNone \<and> en_type (entry_at s i) \<noteq> t
                then obj_error k x (str ''wrong object type in link'') s else Some s) = Some s1"
    and r: "(case flag_entry flag_reachable i s1 of (old, s2) \<Rightarrow>
        if old then Some ([], s2)
        else if \<not> has_flag flag_has_obj (entry_at s2 i) then
          (let y = oid_of v s2 i in
             if db_has (re_db v) y then Some ([], s2)
             else do {
               tp \<leftarrow> printable_type s2 x (en_type (entry_at s2 p));
               ti \<leftarrow> printable_type s2 y (en_type (entry_at s2 i));
               Some ([], add_status error_reachable
                 (out k (str ''broken link from '' @ pad7 tp @ str '' '' @ shown s2 x @ [10] @
                         str ''              to '' @ pad7 ti @ str '' '' @ shown s2 y) s2))
             })
        else Some ([i], s2)) = Some (new, s')"
    using assms Some unfolding mark_link_into_def x_def by (auto simp: Let_def bind_eq_Some_conv)
  have q: "quiet s s1" using s1 by (auto split: if_splits intro: quiet_obj_error)
  obtain old s2 where f: "flag_entry flag_reachable i s1 = (old, s2)" by (cases "flag_entry flag_reachable i s1")
  have b: "swells s1 s2" using swells_update(2) [of s1 flag_reachable i] f by simp
  have "quiet s2 s'"
    using r by (auto simp: f Let_def bind_eq_Some_conv quiet_after split: if_splits)
  then show ?thesis using swells_trans [OF swells_trans [OF swells_quiet [OF q] b] swells_quiet] by blast
qed

lemma swells_follow: "follow v p item s = Some (new, s') \<Longrightarrow> swells s s'"
proof (cases item)
  case (EdgeTo e)
  then show "follow v p item s = Some (new, s') \<Longrightarrow> ?thesis"
    by (auto simp: follow_def Let_def split: if_splits intro: swells_link_into)
next
  case (LinkTo l)
  define s1 where "s1 = (if ln_name l \<noteq> [] then name_object (ln_oid l) (ln_name l) s else s)"
  assume f: "follow v p item s = Some (new, s')"
  then obtain target s2 where l: "run_lookup (ln_oid l) (ln_type l) s1 = Some (target, s2)"
    and m: "mark_link_into v (conn_key (oid_of v s p)) p (ln_type l) (ln_via_tag l) target s2 = Some (new, s')"
    using LinkTo by (auto simp: follow_def Let_def bind_eq_Some_conv s1_def)
  have "quiet s s1" by (simp add: s1_def quiet_steps)
  then show ?thesis
    using swells_trans [OF swells_quiet swells_trans [OF swells_builds [OF run_lookup_builds(1) [OF l]] swells_link_into [OF m]]]
    by blast
qed

lemma swells_follow_all: "follow_all v p xs s = Some (new, s') \<Longrightarrow> swells s s'"
proof (induction xs arbitrary: s new)
  case (Cons x xs)
  then obtain n1 s1 n2 where "follow v p x s = Some (n1, s1)" "follow_all v p xs s1 = Some (n2, s')"
    by (auto simp: bind_eq_Some_conv)
  with Cons.IH show ?case using swells_follow swells_trans by blast
qed simp

lemma swells_visit:
  assumes "visit v i s = Some (items, s')"
  shows "swells s s'"
proof -
  obtain t s1 where e: "ensure_type v i s = Some (t, s1)"
    and r: "(let x = oid_of v s1 i; k = conn_key x in
       if t = TypeBlob \<or> t = TypeNone then Some ([], s1)
       else (case table_edges (rs_table s1) (entry_at s1 i) of
           Some es \<Rightarrow> Some (map EdgeTo es, s1)
         | None \<Rightarrow> do {
             (r, s2) \<leftarrow> run_read v x s1;
             Some (case r of
                 Inl e \<Rightarrow> ([], err k (str ''error: Unknown object type for '' @ shown s2 x) s2)
               | Inr (_, buf) \<Rightarrow>
                   (case walk_links t x buf (env_algo v) (object_name (rs_fsck s2) x) (ro_names (rs_opts s2)) of
                      (ls, errs) \<Rightarrow> (map LinkTo ls, fold (\<lambda>m. err k (str ''error: '' @ m)) errs s2)))
           })) = Some (items, s')"
    using assms unfolding visit_def by (auto simp: bind_eq_Some_conv)
  have "quiet s1 s'"
  proof (cases "t = TypeBlob \<or> t = TypeNone \<or> table_edges (rs_table s1) (entry_at s1 i) \<noteq> None")
    case True
    then show ?thesis using r by (auto simp: Let_def split: if_splits)
  next
    case False
    then obtain rd s2 where rd: "run_read v (oid_of v s1 i) s1 = Some (rd, s2)"
      and out: "(items, s') = (case rd of
                 Inl e \<Rightarrow> ([], err (conn_key (oid_of v s1 i)) (str ''error: Unknown object type for '' @ shown s2 (oid_of v s1 i)) s2)
               | Inr (_, buf) \<Rightarrow>
                   (case walk_links t (oid_of v s1 i) buf (env_algo v) (object_name (rs_fsck s2) (oid_of v s1 i)) (ro_names (rs_opts s2)) of
                      (ls, errs) \<Rightarrow> (map LinkTo ls, fold (\<lambda>m. err (conn_key (oid_of v s1 i)) (str ''error: '' @ m)) errs s2)))"
      using r by (auto simp: Let_def bind_eq_Some_conv)
    have "quiet s2 s'" using out
      by (auto split: sum.splits prod.splits intro!: quiet_fold quiet_steps)
    then show ?thesis using quiet_trans [OF quiet_run_read [OF rd]] by blast
  qed
  then show ?thesis using swells_trans [OF swells_builds [OF ensure_type_builds [OF e]] swells_quiet] by blast
qed

lemma swells_loop: "traverse_loop v stack s = Some s' \<Longrightarrow> swells s s'"
proof (induction rule: traverse_loop.raw_induct [rotated, consumes 1, case_names step])
  case (step loop v stack s s')
  show ?case
  proof (cases "stack = []")
    case True
    then show ?thesis using step(2) by simp
  next
    case False
    then obtain new s1 where t: "traverse_one v (last stack) s = Some (new, s1)" and l: "loop v (butlast stack @ new) s1 = Some s'"
      using step(2) by (auto simp: bind_eq_Some_conv)
    obtain items s0 where "visit v (last stack) s = Some (items, s0)" "follow_all v (last stack) items s0 = Some (new, s1)"
      using t by (auto simp: traverse_one_def bind_eq_Some_conv)
    then have "swells s s1" using swells_visit swells_follow_all swells_trans by blast
    with step(1) [OF l] show ?thesis using swells_trans by blast
  qed
qed

section \<open>The reports\<close>

lemma quiet_check_one: "check_one_object v i s = Some s' \<Longrightarrow> swells s s'"
proof -
  assume c: "check_one_object v i s = Some s'"
  have lost: "swells s s'" if "write_lost_found v k i s = Some s'" for k s
  proof -
    have "quiet s s0 \<Longrightarrow> quiet s (s0\<lparr>rs_lost := f\<rparr>)" for s s0 f by (simp add: quiet_def status_grows_def)
    then show ?thesis
      using that by (auto simp: write_lost_found_def Let_def bind_eq_Some_conv quiet_after split: if_splits
          intro!: swells_quiet dest!: quiet_run_read)
  qed
  have reachable: "swells s s'" if "check_reachable_object v i s = Some s'"
    using that by (auto simp: check_reachable_object_def Let_def bind_eq_Some_conv quiet_after split: if_splits intro!: swells_quiet)
  have unreachable: "swells s s'" if u: "check_unreachable_object v i s = Some s'"
  proof (cases "\<not> has_flag flag_has_obj (entry_at s i) \<or> ro_unreachable (rs_opts s) \<or> has_flag flag_used (entry_at s i)")
    case True
    then show ?thesis using u
      by (auto simp: check_unreachable_object_def Let_def bind_eq_Some_conv quiet_after split: if_splits intro!: swells_quiet)
  next
    case False
    then obtain s1 where s1: "(if ro_dangling (rs_opts s) then
                do { line \<leftarrow> named_entry v i s; Some (out (report_key (oid_of v s i)) (str ''dangling '' @ line) s) }
              else Some s) = Some s1"
      and r: "(if ro_lost_found (rs_opts s1) then write_lost_found v (report_key (oid_of v s i)) i s1 else Some s1) = Some s'"
      using u by (auto simp: check_unreachable_object_def Let_def bind_eq_Some_conv)
    have "quiet s s1" using s1 by (auto simp: bind_eq_Some_conv quiet_after split: if_splits)
    moreover have "swells s1 s'" using r lost by (auto split: if_splits)
    ultimately show ?thesis using swells_trans swells_quiet by blast
  qed
  show ?thesis using c reachable unreachable by (auto simp: check_one_object_def split: if_splits)
qed

lemma swells_each: "(\<And>i s s'. f i s = Some s' \<Longrightarrow> swells s s') \<Longrightarrow> each_entry f is s = Some s' \<Longrightarrow> swells s s'"
proof (induction "is" arbitrary: s)
  case (Cons i "is")
  then obtain s1 where "f i s = Some s1" "each_entry f is s1 = Some s'" by (auto simp: bind_eq_Some_conv)
  with Cons show ?case using swells_trans by blast
qed simp

lemma swells_fold: "(\<And>x s. swells s (f x s)) \<Longrightarrow> swells s (fold f xs s)"
  by (induction xs arbitrary: s) (auto intro: swells_trans)

lemma swells_lookups:
  "fold (\<lambda>l so. do {
      s \<leftarrow> so;
      (target, s1) \<leftarrow> run_lookup (ln_oid l) (ln_type l) s;
      Some (case target of None \<Rightarrow> s1 | Some j \<Rightarrow> snd (flag_entry flag_used j s1))
    }) ls (Some s) = Some s' \<Longrightarrow> swells s s'"
proof (induction ls arbitrary: s)
  case (Cons l ls)
  let ?f = "\<lambda>l so. do {
      s \<leftarrow> so;
      (target, s1) \<leftarrow> run_lookup (ln_oid l) (ln_type l) s;
      Some (case target of None \<Rightarrow> s1 | Some j \<Rightarrow> snd (flag_entry flag_used j s1))
    }"
  have none: "fold ?f ls None = None" for ls by (induction ls) auto
  obtain target s1 where look: "run_lookup (ln_oid l) (ln_type l) s = Some (target, s1)"
  proof (cases "run_lookup (ln_oid l) (ln_type l) s")
    case None
    then show thesis using Cons.prems none [of ls] by simp
  next
    case (Some r)
    then show thesis using that by (cases r) simp
  qed
  have "fold ?f ls (Some (case target of None \<Rightarrow> s1 | Some j \<Rightarrow> snd (flag_entry flag_used j s1))) = Some s'"
    using Cons.prems look by simp
  from Cons.IH [OF this] show ?case
    using swells_trans [OF swells_builds [OF run_lookup_builds(1) [OF look]]] swells_trans swells_update(2)
    by (cases target) (auto, blast)
qed simp

lemma swells_referent:
  assumes "referent_one v i s = Some s'"
  shows "swells s s'"
proof (cases "\<not> has_flag flag_has_obj (entry_at s i) \<or> has_flag flag_reachable (entry_at s i)")
  case True
  then show ?thesis using assms by (auto simp: referent_one_def)
next
  case False
  define body where "body = (\<lambda>t s1. if t = TypeBlob then Some s1
            else (case table_edges (rs_table s1) (entry_at s1 i) of
                Some es \<Rightarrow> Some (fold (\<lambda>e s. if edge_ok e then snd (flag_entry flag_used (unat e) s) else s) es s1)
              | None \<Rightarrow> do {
                  (r, s2) \<leftarrow> run_read v (oid_of v s1 i) s1;
                  case r of
                    Inl e \<Rightarrow> Some s2
                  | Inr (_, buf) \<Rightarrow>
                      fold (\<lambda>l so. do {
                          s \<leftarrow> so;
                          (target, s1) \<leftarrow> run_lookup (ln_oid l) (ln_type l) s;
                          Some (case target of None \<Rightarrow> s1 | Some j \<Rightarrow> snd (flag_entry flag_used j s1))
                        }) (fst (walk_links t (oid_of v s2 i) buf (env_algo v) [] False)) (Some s2)
                }))"
  obtain ty s1 where ty: "(if en_type (entry_at s i) \<noteq> TypeNone then Some (Some (en_type (entry_at s i)), s)
            else do {
              (r, s1) \<leftarrow> run_read v (oid_of v s i) s;
              Some (case r of Inl e \<Rightarrow> (None, s1) | Inr (t, _) \<Rightarrow> (Some t, update_entry i (set_type t) s1))
            }) = Some (ty, s1)"
    and r: "(case ty of None \<Rightarrow> Some s1 | Some t \<Rightarrow> body t s1) = Some s'"
    using assms False unfolding referent_one_def body_def if_not_P [OF False] by (auto simp only: bind_eq_Some_conv split_paired_Ex prod.case)
  have "swells s s1"
  proof (cases "en_type (entry_at s i) \<noteq> TypeNone")
    case True
    then show ?thesis using ty by simp
  next
    case False
    then obtain rd s0 where rd: "run_read v (oid_of v s i) s = Some (rd, s0)"
      and out: "(ty, s1) = (case rd of Inl e \<Rightarrow> (None, s0) | Inr (t, _) \<Rightarrow> (Some t, update_entry i (set_type t) s0))"
      using ty by (auto simp: bind_eq_Some_conv)
    have "swells s0 s1" using out swells_update(1) by (auto split: sum.splits prod.splits)
    then show ?thesis using swells_trans [OF swells_quiet [OF quiet_run_read [OF rd]]] by blast
  qed
  moreover have "swells s1 s'" if b: "body t s1 = Some s'" for t
  proof (cases "t = TypeBlob")
    case True
    then show ?thesis using b by (simp add: body_def)
  next
    case False
    show ?thesis
    proof (cases "table_edges (rs_table s1) (entry_at s1 i)")
      case None
      then obtain rd s2 where rd: "run_read v (oid_of v s1 i) s1 = Some (rd, s2)"
        and out: "(case rd of
            Inl e \<Rightarrow> Some s2
          | Inr (_, buf) \<Rightarrow>
              fold (\<lambda>l so. do {
                  s \<leftarrow> so;
                  (target, s1) \<leftarrow> run_lookup (ln_oid l) (ln_type l) s;
                  Some (case target of None \<Rightarrow> s1 | Some j \<Rightarrow> snd (flag_entry flag_used j s1))
                }) (fst (walk_links t (oid_of v s2 i) buf (env_algo v) [] False)) (Some s2)) = Some s'"
        using b False unfolding body_def by (auto simp: bind_eq_Some_conv)
      have "swells s2 s'"
      proof (cases rd)
        case (Inl e)
        then show ?thesis using out by simp
      next
        case (Inr tb)
        then show ?thesis using out swells_lookups by (cases tb) simp
      qed
      then show ?thesis using swells_trans [OF swells_quiet [OF quiet_run_read [OF rd]]] by blast
    next
      case (Some es)
      then have "s' = fold (\<lambda>e s. if edge_ok e then snd (flag_entry flag_used (unat e) s) else s) es s1"
        using b False by (simp add: body_def)
      then show ?thesis by (simp add: swells_fold swells_update)
    qed
  qed
  ultimately show ?thesis using r swells_trans by (cases ty) auto
qed

lemma swells_connectivity:
  assumes "check_connectivity v s = Some s'"
  shows "swells s s'"
proof -
  obtain s1 s2 where t: "traverse_loop v (rs_pending s) (s\<lparr>rs_pending := []\<rparr>) = Some s1"
    and m: "(if ro_connectivity (rs_opts s1) \<and> (ro_dangling (rs_opts s1) \<or> ro_lost_found (rs_opts s1))
             then mark_unreachable_referents v s1 else Some s1) = Some s2"
    and r: "each_entry (check_one_object v) [0..<length (ot_entries (rs_table s2))] s2 = Some s'"
    using assms by (auto simp: check_connectivity_def traverse_reachable_def report_objects_def bind_eq_Some_conv split del: if_split)
  have "swells s (s\<lparr>rs_pending := []\<rparr>)" by (simp add: swells_def entry_count_def slab_count_def status_grows_def)
  note a = swells_trans [OF this swells_loop [OF t]]
  have b: "swells s1 s2"
    using m swells_each [OF swells_referent] by (auto simp: mark_unreachable_referents_def split: if_splits)
  show ?thesis by (rule swells_trans [OF swells_trans [OF a b] swells_each [OF quiet_check_one r]])
qed

section \<open>Graph files\<close>

lemma quiet_graph_commits: "check_graph_commits v ls n is z s = Some (ok, z', s') \<Longrightarrow> quiet s s'"
proof (induction "is" arbitrary: s z ok)
  case (Cons i "is")
  then obtain lines z1 s1 ok1 where c: "check_graph_commit v ls n i z s = Some (lines, z1, s1)"
    and r: "check_graph_commits v ls n is z1 (fold (err (graph_key 0)) lines s1) = Some (ok1, z', s')"
    by (auto simp: bind_eq_Some_conv)
  obtain rd s0 where rd: "run_read v (graph_oid (env_algo v) (ls ! n) i) s = Some (rd, s0)"
    using c by (auto simp: check_graph_commit_def Let_def bind_eq_Some_conv)
  have "s1 = s0"
  proof (cases rd)
    case (Inl e)
    then show ?thesis using c rd by (simp add: check_graph_commit_def Let_def del: str_def)
  next
    case (Inr tb)
    obtain t buf where tb: "tb = (t, buf)" by (cases tb)
    show ?thesis
    proof (cases "t = TypeCommit")
      case True
      then obtain rec ps where g: "graph_commit_at (env_algo v) ls n i = Some (rec, ps)"
        using c rd Inr tb by (auto simp: check_graph_commit_def Let_def bind_eq_Some_conv simp del: str_def)
      then show ?thesis using c rd Inr tb True
        by (cases ps) (simp_all add: check_graph_commit_def Let_def case_prod_beta del: str_def)
    qed (use c rd Inr tb in \<open>simp add: check_graph_commit_def Let_def del: str_def\<close>)
  qed
  then have "quiet s s1" using quiet_run_read [OF rd] by blast
  then have "quiet s (fold (err (graph_key 0)) lines s1)" by (rule quiet_fold_after) (rule quiet_steps)
  with Cons.IH [OF r] show ?case using quiet_trans by blast
qed simp

lemma quiet_one_graph: "verify_one_commit_graph v ls n s = Some (ok, s') \<Longrightarrow> quiet s s'"
  by (auto simp: verify_one_commit_graph_def Let_def bind_eq_Some_conv quiet_after quiet_fold_after quiet_steps
      split: if_splits dest!: quiet_graph_commits intro!: quiet_fold)

lemma quiet_layers: "verify_layers v ls ns s = Some (ok, s') \<Longrightarrow> quiet s s'"
  by (induction ns arbitrary: s ok) (auto simp: bind_eq_Some_conv intro: quiet_trans quiet_one_graph)

lemma quiet_graphs: "verify_graphs v ds s = Some s' \<Longrightarrow> quiet s s'"
proof (induction ds arbitrary: s)
  case (Cons d ds)
  then obtain ok s1 where c: "verify_commit_graphs v d s = Some (ok, s1)"
    and r: "verify_graphs v ds (if ok then s1 else add_status error_commit_graph s1) = Some s'"
    by (auto simp: bind_eq_Some_conv)
  have "quiet s s1"
    using c by (auto simp: verify_commit_graphs_def quiet_after split: sum.splits intro: quiet_layers)
  then have "quiet s (if ok then s1 else add_status error_commit_graph s1)" by (simp add: quiet_after)
  with Cons.IH [OF r] show ?case using quiet_trans by blast
qed simp

lemma quiet_graph_files: "verify_graph_files v s = Some s' \<Longrightarrow> quiet s s'"
proof -
  assume g: "verify_graph_files v s = Some s'"
  have one: "quiet s (snd (verify_multi_pack_index v d s))" for d s
    unfolding verify_multi_pack_index_def Let_def
    by (cases "contents_of (re_stored v (slash (od_path d) (str ''pack/multi-pack-index'')))")
      (auto simp: quiet_steps case_prod_beta split: sum.splits midx_fault.splits simp del: str_def
        intro!: quiet_fold quiet_fold_after)
  have mid: "quiet s (verify_midxs v s)" for s
  proof -
    have "quiet s (case verify_multi_pack_index v d s of (ok, s1) \<Rightarrow> if ok then s1 else add_status error_midx s1)" for d s
      using one [of s d] by (auto simp: quiet_after split: prod.splits)
    then show ?thesis unfolding verify_midxs_def by (rule quiet_fold)
  qed
  obtain s1 where c: "(if config_bool (re_config v) (str ''core.commitgraph'') True then verify_graphs v (re_dirs v) s else Some s) = Some s1"
    and s': "s' = (if config_bool (re_config v) (str ''core.multipackindex'') True then verify_midxs v s1 else s1)"
    using g by (auto simp: verify_graph_files_def bind_eq_Some_conv simp del: str_def)
  have "quiet s s1" using c quiet_graphs quiet_refl by (metis option.inject)
  then show ?thesis using mid [of s1] quiet_trans [of s s1 s'] by (simp add: s' del: str_def)
qed

end
