(* ===== verification/CleanRun.thy ===== *)
theory CleanRun
  imports RootMarks RunGrowth
begin

text \<open>
  What a clean exit means. The passes of a run are put together: the object pass records every object it
  could check, the starting points are marked, and the walk reaches everything they need.
\<close>

declare flag_reachable_def [simp del] flag_seen_def [simp del] flag_has_obj_def [simp del] flag_used_def [simp del] flag_walked_def [simp del]

section \<open>What is needed\<close>

text \<open>The names a repository needs: those a run starts from, and every name that checked contents link to.\<close>

inductive needed :: "run_env \<Rightarrow> run_options \<Rightarrow> bytes \<Rightarrow> bool" for v opts where
  root: "h \<in> run_roots v opts \<Longrightarrow> needed v opts h"
| link: "needed v opts h \<Longrightarrow> checked v (ro_full opts) h t buf \<Longrightarrow> (y, ty) \<in> set (object_links (env_algo v) t buf) \<Longrightarrow>
    needed v opts (oid_h y)"

text \<open>No two checked contents of one name lead to different objects: the hash has no collision here.\<close>

definition one_content :: "run_env \<Rightarrow> bool \<Rightarrow> bool" where
  "one_content v full \<longleftrightarrow> (\<forall>h t buf t' buf'. checked v full h t buf \<longrightarrow> checked v full h t' buf' \<longrightarrow>
     object_links (env_algo v) t buf = object_links (env_algo v) t' buf')"

section \<open>The states of a run\<close>

lemma flush_quiet: "flush_run (ls, s) = (ls', s') \<Longrightarrow> quiet s s'"
  using quiet_flush [of "(ls, s)"] by simp

lemma die_status: "rr_status (fst (die d r)) = 128"
  by (simp add: die_def case_prod_beta)

lemma last_phases_states:
  assumes run: "last_phases v (ls, s0) = Some (r, s)" and ok: "rr_status r = 0"
  obtains s1 s2 where "quiet s0 s1" "check_connectivity v s1 = Some s2" "quiet s2 s" "rs_status s = 0"
proof -
  obtain ls1 s1 where f1: "flush_run (ls, verify_bitmap_files v (check_pack_rev_indexes v s0)) = (ls1, s1)" by fastforce
  obtain s2 damaged where c: "check_connectivity v s1 = Some s2" and dm: "report_damaged s2 = Some damaged"
    using run by (auto simp: last_phases_def f1 bind_eq_Some_conv)
  obtain ls3 s3 where f3: "flush_run (ls1, s2) = (ls3, s3)" by fastforce
  have alive: "\<not> died s2"
  proof
    assume "died s2"
    then have "die damaged (flush_run (ls1, s2)) = (r, s)" using run by (simp add: last_phases_def f1 c dm)
    then show False using die_status [of damaged "flush_run (ls1, s2)"] ok by simp
  qed
  then obtain s4 where g: "verify_graph_files v s3 = Some s4"
    using run by (auto simp: last_phases_def f1 c dm f3 bind_eq_Some_conv)
  obtain ls5 s5 where f5: "flush_run (ls3, s4) = (ls5, s5)" by fastforce
  have "(if died s5 then die damaged (ls5, s5)
      else (\<lparr>rr_status = unat (rs_status s5), rr_lines = ls5, rr_fatal = [], rr_damaged = damaged, rr_lost = rs_lost s5\<rparr>, s5)) = (r, s)"
    using run alive by (simp add: last_phases_def f1 c dm f3 g f5)
  moreover have "\<not> died s5"
  proof
    assume "died s5"
    then show False using calculation die_status [of damaged "(ls5, s5)"] ok by simp
  qed
  ultimately have "s = s5" "rs_status s5 = 0" using ok by (auto simp: unat_eq_0)
  moreover have "quiet s0 s1"
    using quiet_trans [OF quiet_rev_indexes quiet_trans [OF quiet_bitmaps flush_quiet [OF f1]]] .
  moreover have "quiet s2 s5"
    using quiet_trans [OF flush_quiet [OF f3] quiet_trans [OF quiet_graph_files [OF g] flush_quiet [OF f5]]] .
  ultimately show ?thesis using that c by blast
qed

lemma run_phases_states:
  assumes run: "run_phases v s0 = Some (r, s)" and ok: "rr_status r = 0"
  obtains s1 s2 s3 s4 s5 s6 s7 s8 where "quiet s0 s1" "object_phase v s1 = Some s2" "quiet s2 s3" "heads_phase v s3 = Some s4"
    "quiet s4 s5" "index_phase v s5 = Some s6" "quiet s6 s7" "check_connectivity v s7 = Some s8" "quiet s8 s" "rs_status s = 0"
proof -
  have dead: "die d x \<noteq> (r, s)" for d x using die_status [of d x] ok by force
  obtain ls0 t0 where f0: "flush_run ([], if ro_refs (rs_opts s0) then run_check_refs v (re_ref_files v) s0 else s0) = (ls0, t0)"
    by fastforce
  obtain s1 where s1: "snapshot_refs v t0 = Some s1" "\<not> died s1"
    using run dead by (auto simp: run_phases_def f0 bind_eq_Some_conv split: if_splits)
  obtain s2 where s2: "object_phase v s1 = Some s2"
    using run s1 by (auto simp: run_phases_def f0 bind_eq_Some_conv)
  obtain ls3 s3 where f3: "flush_run (ls0, s2) = (ls3, s3)" by fastforce
  have d3: "\<not> died s3" using run s1 s2 f3 dead by (auto simp: run_phases_def f0)
  obtain s4 where s4: "heads_phase v s3 = Some s4"
    using run s1 s2 f3 d3 by (auto simp: run_phases_def f0 bind_eq_Some_conv)
  obtain ls5 s5 where f5: "flush_run (ls3, s4) = (ls5, s5)" by fastforce
  have d5: "\<not> died s5" using run s1 s2 f3 d3 s4 f5 dead by (auto simp: run_phases_def f0)
  obtain s6 where s6: "index_phase v s5 = Some s6"
    using run s1 s2 f3 d3 s4 f5 d5 by (auto simp: run_phases_def f0 bind_eq_Some_conv)
  obtain ls7 s7' where f7: "flush_run (ls5, s6) = (ls7, s7')" by fastforce
  have last: "last_phases v (ls7, s7') = Some (r, s)"
    using run s1 s2 f3 d3 s4 f5 d5 s6 f7 by (simp add: run_phases_def f0)
  obtain s7 s8 where l: "quiet s7' s7" "check_connectivity v s7 = Some s8" "quiet s8 s" "rs_status s = 0"
    using last_phases_states [OF last ok] .
  have "quiet s0 t0"
  proof (cases "ro_refs (rs_opts s0)")
    case True
    then show ?thesis using quiet_trans [OF quiet_check_refs flush_quiet] f0 by simp
  next
    case False
    then show ?thesis using flush_quiet f0 by simp
  qed
  then have "quiet s0 s1" using quiet_trans quiet_snapshot [OF s1(1)] by blast
  moreover have "quiet s6 s7" using quiet_trans [OF flush_quiet [OF f7] l(1)] .
  ultimately show ?thesis using that s2 flush_quiet [OF f3] s4 flush_quiet [OF f5] s6 l(2-4) by blast
qed

section \<open>From pass to pass\<close>

lemma start_scan_ok:
  assumes "\<not> ro_names opts"
  shows "scan_ok v (run_start v procs opts q)" "rs_pending (run_start v procs opts q) = []"
proof -
  let ?s = "run_start v procs opts q"
  have "ot_entries (rs_table ?s) = []" "arena_inv (ot_arena (rs_table ?s))"
    by (simp_all add: run_start_def new_obj_table_def Let_def arena_inv_def empty_arena_def)
  moreover have "table_inv (rs_table ?s)" by (simp add: run_start_def new_table_inv)
  ultimately show "scan_ok v ?s" using assms by (simp add: scan_ok_def table_ok_def entry_count_def run_start_def)
  show "rs_pending ?s = []" by (simp add: run_start_def)
qed

lemma quiet_small: "quiet s s' \<Longrightarrow> small s' = small s"
  by (simp add: quiet_record small_def)

lemma scan_rooted:
  assumes "scan_ok v s" and "rs_pending s = []"
  shows "rooted v s"
  using assms by (auto simp: scan_ok_def rooted_def roots_ok_def)

lemma rooted_ready:
  assumes "rooted v s"
  shows "walk_ready s" "roots_ok s (rs_pending s)"
proof -
  have "entry_ready s i" if i: "i < entry_count s" "present s i" for i
  proof -
    obtain t buf es where r: "t \<in> four_types" "en_type (entry_at s i) = t" "has_flag flag_walked (entry_at s i)"
      "edges_at (ot_arena (rs_table s)) (entry_at s i) es"
      "list_all2 (link_met s (object_bit s)) (object_links (env_algo v) t buf) es"
      using assms i by (auto simp: rooted_def recorded_def)
    have e: "table_edges (rs_table s) (entry_at s i) = Some es"
      using edges_at_read [OF r(4,3), of "rs_table s"] by simp
    have "unat x < entry_count s" if "x \<in> set es" "edge_ok x" for x
      using r(5) that by (auto simp: list_all2_conv_all_nth in_set_conv_nth link_met_def)
    moreover have "t \<noteq> TypeNone" using r(1) by (auto simp: four_types_def)
    ultimately show ?thesis using e r(2) by (auto simp: entry_ready_def graph_edges_def)
  qed
  then show "walk_ready s" "roots_ok s (rs_pending s)" using assms by (auto simp: walk_ready_def rooted_def table_ok_def)
qed

text \<open>The state the walk starts in, after a run that ends clean.\<close>

definition pass_done :: "run_env \<Rightarrow> run_options \<Rightarrow> run_state \<Rightarrow> bool" where
  "pass_done v opts s \<longleftrightarrow> rooted v s \<and> mode (rs_opts s) = mode opts \<and>
     (\<forall>h \<in> found v (ro_full opts). \<exists>i < entry_count s. en_hash (entry_at s i) = h \<and> present s i) \<and>
     (\<forall>h \<in> run_roots v opts. \<exists>i < entry_count s. en_hash (entry_at s i) = h \<and> marked s i \<and> present s i)"

lemma passes_done:
  assumes run: "run_phases v (run_start v procs opts q) = Some (r, s)" and ok: "rr_status r = 0" and sm: "small s"
    and env: "env_ok v" and fit: "all_fit v (ro_full opts)" and opts: "\<not> ro_names opts" "\<not> ro_connectivity opts"
  obtains s1 s2 where "pass_done v opts s1" "check_connectivity v s1 = Some s2" "rs_status s2 = 0"
proof -
  define s0 where "s0 = run_start v procs opts q"
  obtain s1 s2 s3 s4 s5 s6 s7 s8 where st: "quiet s0 s1" "object_phase v s1 = Some s2" "quiet s2 s3" "heads_phase v s3 = Some s4"
    "quiet s4 s5" "index_phase v s5 = Some s6" "quiet s6 s7" "check_connectivity v s7 = Some s8" "quiet s8 s" "rs_status s = 0"
    using run_phases_states [OF run [folded s0_def] ok] .
  have o0: "rs_opts s0 = opts" by (simp add: s0_def run_start_def)
  have sc0: "scan_ok v s0" "rs_pending s0 = []" using start_scan_ok [OF opts(1), of v procs q] by (simp_all add: s0_def)
  have o1: "rs_opts s1 = opts" using st(1) o0 by (simp add: quiet_def)
  obtain t where t: "check_object_dirs v s1 = Some t" and fin: "finish_deferred_blobs v t = Some s2"
    using st(2) opts(2) o1 by (auto simp: object_phase_def bind_eq_Some_conv)
  have c: "covers v (found v (ro_full opts)) s0 s3"
    using covers_trans [OF covers_trans [OF covers_quiet [OF st(1)] object_dirs_covers [OF t env]]
        covers_quiet [OF quiet_trans [OF quiet_finish [OF fin] st(3)]]] fit opts o1 by simp
  have o3: "rs_opts s3 = opts" using covers_opts [OF c] o0 by simp
  have idx: "marks v {} s5 s6"
    using st(6) check_indexes_marks by (auto simp: index_phase_def marks_quiet split: if_splits)
  have m: "marks v (run_roots v opts) s3 s7"
    using marks_after [OF marks_trans [OF marks_after [OF heads_phase_marks [OF st(4)] st(5)] idx] st(7)] o3 by simp
  have small: "small s7" using sm swells_connectivity [OF st(8)] quiet_record [OF st(9)] by (simp add: swells_def small_def)
  then have small3: "small s3" by (rule marks_small [OF m])
  have cov: "scan_ok v s3" "\<And>h. h \<in> found v (ro_full opts) \<Longrightarrow> taken s3 h" "rs_pending s3 = []"
    using c sc0 small3 by (auto simp: covers_def scans_def)
  have after: "rooted v s7" "keeps_marks s3 s7" "\<And>h. h \<in> run_roots v opts \<Longrightarrow> root_held s7 h"
    using m scan_rooted [OF cov(1,3)] small by (auto simp: marks_def)
  have g78: "status_grows s7 s8" using swells_connectivity [OF st(8)] by (simp add: swells_def)
  have clean8: "rs_status s8 = 0"
    using st(9,10) complained_later [of s8 s] by (auto simp: quiet_def complained_def)
  have clean7: "rs_status s7 = 0" using clean8 complained_later [OF g78] by (auto simp: complained_def)
  have clean3: "rs_status s3 = 0" using clean7 m complained_later [of s3 s7] by (auto simp: marks_def complained_def)
  have n37: "entry_count s3 \<le> entry_count s7" using m by (simp add: marks_def)
  have held: "\<exists>i < entry_count s7. en_hash (entry_at s7 i) = h \<and> present s7 i" if h: "h \<in> found v (ro_full opts)" for h
  proof -
    have "\<not> object_bit s3" using clean3 by (simp add: object_bit_def)
    then obtain i where "i < entry_count s3" "en_hash (entry_at s3 i) = h" "present s3 i" using cov(2) [OF h] by (auto simp: taken_def)
    then have "i < entry_count s7 \<and> en_hash (entry_at s7 i) = h \<and> present s7 i" using after(2) n37 by (simp add: keeps_marks_def)
    then show ?thesis by blast
  qed
  have roots: "\<exists>i < entry_count s7. en_hash (entry_at s7 i) = h \<and> marked s7 i \<and> present s7 i" if "h \<in> run_roots v opts" for h
    using after(3) [OF that] clean7 by (simp add: root_held_def complained_def)
  have "mode (rs_opts s7) = mode opts" using m o3 by (simp add: marks_def)
  then show ?thesis using that [OF _ st(8) clean8] after(1) held roots by (simp add: pass_done_def)
qed

section \<open>The walk reaches what is needed\<close>

lemma entry_unique:
  assumes "table_inv (rs_table s)" and "i < entry_count s" "j < entry_count s" and "en_hash (entry_at s i) = en_hash (entry_at s j)"
  shows "i = j"
  using assms nth_eq_iff_index_eq [of "map en_hash (ot_entries (rs_table s))" i j]
  by (simp add: table_inv_def entry_count_def entry_at_def)

lemma object_links_blob: "object_links a TypeBlob buf = []"
  by (simp add: object_links_def walk_links_def)

lemma needed_reached:
  assumes p: "pass_done v opts s" and one: "one_content v (ro_full opts)"
    and fine: "\<And>i e. reached s i \<Longrightarrow> present s i \<Longrightarrow> e \<in> set (graph_edges s i) \<Longrightarrow> edge_ok e"
  shows "needed v opts h \<Longrightarrow> \<exists>i < entry_count s. en_hash (entry_at s i) = h \<and> reached s i"
proof (induction rule: needed.induct)
  case (root h)
  then show ?case using p reached.root [of _ s] unfolding pass_done_def by blast
next
  case (link h t buf y ty)
  obtain i where i: "i < entry_count s" "en_hash (entry_at s i) = h" "reached s i" using link.IH by blast
  have r: "rooted v s" and full: "ro_full (rs_opts s) = ro_full opts" using p by (auto simp: pass_done_def mode_def)
  then have inv: "table_inv (rs_table s)" by (simp add: rooted_def table_ok_def)
  obtain j where j: "j < entry_count s" "en_hash (entry_at s j) = h" "present s j"
    using p checked_found [OF link.hyps(2)] by (auto simp: pass_done_def)
  have "j = i" using entry_unique [OF inv j(1) i(1)] i(2) j(2) by simp
  with j have pi: "present s i" by simp
  obtain t' buf' es where rec: "checked v (ro_full opts) h t' buf'" "en_type (entry_at s i) = t'" "has_flag flag_walked (entry_at s i)"
    "edges_at (ot_arena (rs_table s)) (entry_at s i) es"
    "list_all2 (link_met s (object_bit s)) (object_links (env_algo v) t' buf') es"
    using r i(1,2) pi full by (auto simp: rooted_def recorded_def)
  have links: "object_links (env_algo v) t buf = object_links (env_algo v) t' buf'"
    using one link.hyps(2) rec(1) unfolding one_content_def by blast
  then have "t' \<noteq> TypeBlob" using link.hyps(3) object_links_blob by auto
  then have ge: "graph_edges s i = es"
    using edges_at_read [OF rec(4,3), of "rs_table s"] rec(2) by (simp add: graph_edges_def)
  obtain k where k: "k < length es" "object_links (env_algo v) t' buf' ! k = (y, ty)"
    using link.hyps(3) list_all2_lengthD [OF rec(5)] unfolding links by (auto simp: in_set_conv_nth)
  then have met: "link_met s (object_bit s) (y, ty) (es ! k)" using list_all2_nthD2 [OF rec(5) k(1)] by simp
  have mem: "es ! k \<in> set (graph_edges s i)" using k(1) ge by simp
  have e: "edge_ok (es ! k)" using fine [OF i(3) pi mem] .
  then have "unat (es ! k) < entry_count s" "en_hash (entry_at s (unat (es ! k))) = oid_h y"
    using met by (simp_all add: link_met_def)
  then show ?case using reached.edge [OF i(3) pi mem e] by blast
qed

lemma clean_needed:
  assumes p: "pass_done v opts s" and con: "check_connectivity v s = Some s'" and clean: "rs_status s' = 0"
    and wf: "wf_algo (env_algo v)" and one: "one_content v (ro_full opts)" and opts: "\<not> ro_connectivity opts" "\<not> ro_lost_found opts"
    and h: "needed v opts h"
  shows "(\<exists>t buf. checked v (ro_full opts) h t buf) \<or> has_packed (re_db v) \<lparr>oid_h = h, oid_n = raw_size (env_algo v)\<rparr>"
proof -
  have r: "rooted v s" and md: "mode (rs_opts s) = mode opts" using p by (auto simp: pass_done_def)
  have o: "\<not> ro_connectivity (rs_opts s)" "\<not> ro_lost_found (rs_opts s)" "ro_full (rs_opts s) = ro_full opts"
    using md opts by (simp_all add: mode_def)
  obtain s1 where "check_connectivity v s = Some s1" "connectivity_outcome v s s1"
    using connectivity_runs(2) [OF rooted_ready [OF r] wf o(1,2)] by blast
  then have out: "connectivity_outcome v s s'" using con by simp
  have quiet: "\<not> unreachable_bit s'" using clean by (simp add: unreachable_bit_def)
  have fine: "edge_ok e" if "reached s i" "present s i" "e \<in> set (graph_edges s i)" for i e
    using out quiet that unfolding connectivity_outcome_def by blast
  obtain i where i: "i < entry_count s" "en_hash (entry_at s i) = h" "reached s i"
    using needed_reached [OF p one _ h] fine by blast
  have "verdict v s (reached s) i \<noteq> MissingObject" using out quiet i(1) unfolding connectivity_outcome_def by blast
  then consider "present s i" | "has_packed (re_db v) (oid_of v s i)"
    using i(3) by (auto simp: verdict_def split: if_splits)
  then show ?thesis
  proof cases
    case 1
    then have "recorded v s i" using r i(1) by (simp add: rooted_def)
    then show ?thesis using i(2) o(3) by (auto simp: recorded_def)
  next
    case 2
    then show ?thesis using i(2) by (simp add: oid_of_def obj_oid_def)
  qed
qed

section \<open>What was checked has its name\<close>

lemma loose_hash:
  assumes ok: "\<not> lr_failed (read_loose a f x threshold)"
  shows "case lr_contents (read_loose a f x threshold) of
      Some c \<Rightarrow> hash_literal a (type_name (lr_type (read_loose a f x threshold))) c = x
    | None \<Rightarrow> lr_type (read_loose a f x threshold) = TypeBlob"
proof -
  obtain z raw where f: "f = Mapped z raw"
    using ok by (auto simp: read_loose_def fail_with_def split: loose_file.splits)
  let ?r = "read_loose_bytes a z raw x threshold"
  have r: "read_loose a f x threshold = ?r" by (simp add: f read_loose_def)
  have ok': "\<not> lr_failed ?r" using ok r by simp
  obtain nul name sz where known: "type_from_name name \<noteq> TypeBad"
    and rr: "?r = (if type_from_name name = TypeBlob \<and> threshold < sz
      then stream_check a z raw nul sz x (empty_result\<lparr>lr_type_name := name, lr_type := type_from_name name, lr_size := sz\<rparr>)
      else read_contents a z raw nul x (empty_result\<lparr>lr_type_name := name, lr_type := type_from_name name, lr_size := sz\<rparr>))"
    using ok' unfolding read_loose_bytes_def Let_def by (auto split: if_splits option.splits)
  have t: "lr_type ?r = type_from_name name" "lr_type_name ?r = name"
    unfolding rr by (auto simp: stream_check_def read_contents_def fail_with_def Let_def split: if_splits)
  have "type_name (lr_type ?r) = lr_type_name ?r"
    using known unfolding t by (auto simp: type_from_name_def type_name_def split: if_splits)
  then show ?thesis using loose_read_holds [OF ok'] unfolding r Let_def by (auto split: option.splits)
qed

lemma checked_hash:
  assumes "checked v full h t buf" and env: "env_ok v"
  shows "t \<in> four_types \<and> (case buf of Some c \<Rightarrow> oid_h (hash_literal (env_algo v) (type_name t) c) = h | None \<Rightarrow> t = TypeBlob)"
  using assms(1)
proof cases
  case (loose d x)
  then show ?thesis
    using loose_typed [of "env_algo v" "file_at v d x" x "re_threshold v"] loose_hash [of "env_algo v" "file_at v d x" x "re_threshold v"]
    by (auto simp: loose_check_def split: option.splits)
next
  case (packed k ok es x n)
  have e: "wf_algo (pk_algo (we_pack (re_verify v k)))" "we_layout (re_verify v k) = build_layout (we_pack (re_verify v k))"
    "pk_algo (we_pack (re_verify v k)) = env_algo v"
    using env packed(3) by (auto simp: env_ok_def)
  from verify_events_sound [OF e(1,2) packed(4) [unfolded pack_walk_def] packed(5)] show ?thesis
    using packed(1) e(3) by (auto simp: sound_event_def four_types_def split: option.splits)
qed

section \<open>The theorem\<close>

text \<open>The run reads its threshold from the settings before anything else.\<close>

definition run_view :: "run_env \<Rightarrow> run_env" where
  "run_view v = v\<lparr>re_threshold := big_file_threshold v\<rparr>"

definition held_object :: "run_env \<Rightarrow> bool \<Rightarrow> bytes \<Rightarrow> bool" where
  "held_object v full h \<longleftrightarrow>
     (\<exists>t buf. checked v full h t buf \<and> t \<in> four_types \<and>
        (case buf of Some c \<Rightarrow> oid_h (hash_literal (env_algo v) (type_name t) c) = h | None \<Rightarrow> t = TypeBlob))"

text \<open>
  C1: what exit status zero means. When a run over the whole repository ends with status 0, every object
  the repository needs is there: starting from the arguments, or from every reference, \<open>HEAD\<close> and reflog
  entry, and following every link of everything that was read, each name is that of an object the run has
  read, hashed to that name and checked, or of one an index of a pack lists. The run is one without
  \<open>--connectivity-only\<close>, \<open>--name-objects\<close> and \<open>--lost-found\<close>; the hash has no collision among what was read, and
  the table of objects and the edge arena have room.
\<close>

theorem clean_run_complete:
  assumes "run_fsck v procs opts = Some (r, s)" and "rr_status r = 0" and "small s"
    and "wf_algo (env_algo v)" and "env_ok v" and "all_fit (run_view v) (ro_full opts)" and "one_content (run_view v) (ro_full opts)"
    and "\<not> ro_names opts" and "\<not> ro_connectivity opts" and "\<not> ro_lost_found opts"
    and "needed (run_view v) opts h"
  shows "held_object (run_view v) (ro_full opts) h \<or> has_packed (re_db v) \<lparr>oid_h = h, oid_n = raw_size (env_algo v)\<rparr>"
proof -
  let ?v = "run_view v"
  obtain q where run: "run_phases ?v (run_start v procs opts q) = Some (r, s)"
    using assms(1,2) by (auto simp: run_fsck_def run_view_def split: sum.splits)
  have start: "run_start v procs opts q = run_start ?v procs opts q" by (simp add: run_start_def run_view_def)
  have same: "env_algo ?v = env_algo v" "re_db ?v = re_db v" "env_ok ?v = env_ok v"
    by (simp_all add: run_view_def env_algo_def env_ok_def)
  obtain s1 s2 where p: "pass_done ?v opts s1" "check_connectivity ?v s1 = Some s2" "rs_status s2 = 0"
    using passes_done [OF run [unfolded start] assms(2,3) _ assms(6,8,9)] same(3) assms(5) by blast
  have "(\<exists>t buf. checked ?v (ro_full opts) h t buf) \<or> has_packed (re_db v) \<lparr>oid_h = h, oid_n = raw_size (env_algo v)\<rparr>"
    using clean_needed [OF p] assms(4,7,9-11) same by simp
  then show ?thesis using checked_hash same(3) assms(5) unfolding held_object_def by blast
qed

end
