(* ===== verification/CleanDemo.thy ===== *)
theory CleanDemo
  imports CleanRun
begin

text \<open>
  A repository of one loose blob, and a run that is given its name: the run ends with status zero.
\<close>

declare flag_reachable_def [simp del] flag_seen_def [simp del] flag_has_obj_def [simp del] flag_used_def [simp del] flag_walked_def [simp del]

definition clean_algo :: algo where
  "clean_algo = sha1_algo (\<lambda>m. replicate 20 7)"

definition clean_name :: oid where
  "clean_name = from_bytes (replicate 20 7)"

definition clean_reader :: zreader where
  "clean_reader = \<lparr>zr_open = True, zr_out = loose_payload TypeBlob [65], zr_fails = (\<lambda>n. False), zr_left = (\<lambda>n. 0), zr_clean = True\<rparr>"

definition clean_file :: loose_file where
  "clean_file = Mapped clean_reader (replicate 9 0)"

definition clean_dir :: object_dir where
  "clean_dir = \<lparr>od_path = [], od_shown = [], od_names = (\<lambda>i. if i = 7 then Some [hex_encode (replicate 19 7)] else None)\<rparr>"

definition clean_env :: run_env where
  "clean_env = demo_env\<lparr>re_db := \<lparr>db_algo = clean_algo, db_packs = [],
       db_loose = [\<lambda>x. if x = clean_name then Some clean_file else None], db_inflate = \<lambda>k off n. None\<rparr>,
     re_repo := \<lparr>rp_algo = clean_algo, rp_common = [], rp_shown = []\<rparr>, re_dirs := [clean_dir]\<rparr>"

definition clean_options :: run_options where
  "clean_options = default_options\<lparr>ro_refs := False, ro_args := [hex_encode (replicate 20 7)]\<rparr>"

lemma clean_fields [simp]:
  "db_packs (re_db clean_env) = []" "re_dirs clean_env = [clean_dir]" "re_config clean_env = []" "env_algo clean_env = clean_algo"
  "re_stored clean_env = (\<lambda>p. NoFile)" "re_regular clean_env = (\<lambda>p. False)"
  "rp_algo (re_repo clean_env) = clean_algo" "db_loose (re_db clean_env) = [\<lambda>x. if x = clean_name then Some clean_file else None]"
  by (simp_all add: clean_env_def demo_env_def env_algo_def run_view_def big_file_threshold_def config_int_def config_get_def config_get_all_def)

definition clean_view :: run_env where
  "clean_view = clean_env\<lparr>re_threshold := 536870912\<rparr>"

lemma clean_view_fields [simp]:
  "db_packs (re_db clean_view) = []" "re_dirs clean_view = [clean_dir]" "re_config clean_view = []" "env_algo clean_view = clean_algo"
  "re_stored clean_view = (\<lambda>p. NoFile)" "re_regular clean_view = (\<lambda>p. False)" "re_threshold clean_view = 536870912"
  "rp_algo (re_repo clean_view) = clean_algo" "db_algo (re_db clean_view) = clean_algo" "db_loose (re_db clean_view) = [\<lambda>x. if x = clean_name then Some clean_file else None]"
  by (simp_all add: clean_view_def env_algo_def clean_env_def demo_env_def)

lemma clean_sizes [simp]: "raw_size clean_algo = 20" "hex_size clean_algo = 40" "digest clean_algo m = replicate 20 7"
  by (simp_all add: clean_algo_def sha1_algo_def)

lemma clean_parse: "parse_oid clean_algo (hex_encode (replicate 20 7)) = Some clean_name"
  by (simp add: parse_oid_def clean_name_def length_hex_encode)

lemma concat_one: "(\<And>i. i \<noteq> k \<Longrightarrow> f i = []) \<Longrightarrow> concat (map f [0..<n]) = (if k < n then f k else [])"
  by (induction n) (auto simp: less_Suc_eq)

definition clean_path :: bytes where
  "clean_path = str ''/07/'' @ hex_encode (replicate 19 7)"

lemma clean_found: "concat (map (loose_names clean_view clean_dir) [0..<256]) = [LooseObject clean_name clean_path]"
proof -
  have h: "hex_encode [7] @ hex_encode (replicate 19 7) = hex_encode (replicate 20 7)" "hex_encode [7] = [48, 55]"
    using replicate_Suc [of 19 "7 :: byte"] by (simp_all add: hex_digit_def)
  have "loose_names clean_view clean_dir i = []" if "i \<noteq> 7" for i
    using that by (simp add: loose_names_def clean_dir_def)
  moreover have "loose_names clean_view clean_dir 7 = [LooseObject clean_name clean_path]"
    using clean_parse h by (simp add: loose_names_def clean_dir_def clean_path_def length_hex_encode List.map_filter_simps)
  ultimately show ?thesis by (subst concat_one [where k = 7]) simp_all
qed

lemma clean_read: "1 \<le> n \<Longrightarrow> read_loose clean_algo clean_file clean_name n =
  empty_result\<lparr>lr_type_name := str ''blob'', lr_type := TypeBlob, lr_size := 1, lr_contents := Some [65], lr_real := Some clean_name\<rparr>"
  by (simp add: read_loose_def clean_file_def read_loose_bytes_def clean_reader_def loose_payload_def type_name_def dec_int_def dec_digits.simps
        max_header_len_def type_from_name_def empty_result_def read_contents_def at_stream_end_def bytes_asked_def plausible_size_def parse_loose_header_def
        max_inflate_ratio_def read_fails_def filled_def hash_literal_def Let_def clean_name_def)

lemma clean_names [simp]: "oid_h clean_name = replicate 20 7 @ replicate 12 0" "oid_n clean_name = 20" "valid_oid clean_name"
  by (simp_all add: clean_name_def from_bytes_def pad_raw_def max_raw_size_def valid_oid_def)

lemma blob_parts:
  "parsable v k x TypeBlob buf s = (True, s)" "walk_links TypeBlob x b a n f = ([], [])"
  "link_edges v 0 [] s = Some (\<lparr>sp_ref = 0, sp_n = 0\<rparr>, [], False, s)"
  by (simp_all add: parsable_def walk_links_def link_edges_def alloc_edges_def arena_alloc_def write_edges_def arena_write_def)

lemma blob_check:
  assumes "rs_fsck s = start_options clean_view clean_options"
  shows "run_check k (fsck_object nf x TypeBlob (Some [65])) s = Some (0, s)"
proof -
  have "check_blob (rs_fsck s) x (Some [65]) = (rs_fsck s, 0)"
    by (simp add: assms check_blob_def start_options_def skipped_def new_options_def take_gitmodules_def
        take_gitattributes_def clean_options_def default_options_def)
  then show ?thesis by (simp add: run_check_def fsck_object_def)
qed

definition clean_entry :: obj_entry where
  "clean_entry = set_edges \<lparr>sp_ref = 0, sp_n = 0\<rparr> (snd (set_flag flag_seen (fresh_entry (set_type TypeBlob (new_entry (oid_h clean_name))))))"

lemma clean_entry_facts:
  "en_hash clean_entry = oid_h clean_name" "en_type clean_entry = TypeBlob" "has_flag flag_has_obj clean_entry"
  "\<not> has_flag flag_reachable clean_entry"
proof -
  let ?e = "set_type TypeBlob (new_entry (oid_h clean_name))"
  have e: "en_hash ?e = oid_h clean_name" "en_type ?e = TypeBlob"
    using set_type_keeps(1,6) [of TypeBlob] new_entry_core(2,3) by (simp_all add: four_types_def del: TypeBlob_def)
  note f = fresh_entry_facts [of ?e] and c = same_core_steps(3) [of "fresh_entry ?e"]
  show "en_hash clean_entry = oid_h clean_name" "en_type clean_entry = TypeBlob" "has_flag flag_has_obj clean_entry"
  "\<not> has_flag flag_reachable clean_entry"
    unfolding clean_entry_def set_edges_facts using e f c by (simp_all add: same_core_def del: clean_names)
qed

lemma set_entry_one: "ot_entries t = [e] \<Longrightarrow> set_entry 0 x t = t\<lparr>ot_entries := [x]\<rparr>"
  by (simp add: set_entry_def)

lemma clean_take:
  assumes "table_inv (rs_table s)" "ot_entries (rs_table s) = []" "rs_opts s = clean_options" "rs_fsck s = start_options clean_view clean_options"
  shows "\<exists>t. check_loose_object clean_view 0 clean_name clean_file clean_path s = Some (s\<lparr>rs_table := t\<rparr>) \<and> table_inv t \<and>
    ot_entries t = [clean_entry] \<and> ot_arena t = ot_arena (rs_table s)"
proof -
  let ?e = "set_type TypeBlob (new_entry (oid_h clean_name))" and ?k = "loose_key 0 clean_name"
  obtain t where t: "table_lookup (rs_table s) (oid_h clean_name) TypeBlob = Some (t, Some 0)" "ot_entries t = [?e]" "table_inv t"
    "ot_arena t = ot_arena (rs_table s)"
    using table_lookup_exact [OF assms(1), of "oid_h clean_name" TypeBlob] assms(2)
    by (auto simp: lookup_spec_def entry_index_def max_objects_def TypeAny_def)
  have l: "run_lookup clean_name TypeBlob s = Some (Some 0, s\<lparr>rs_table := t\<rparr>)"
    using t(1) by (simp add: run_lookup_def del: TypeBlob_def clean_names)
  define s3 where "s3 = s\<lparr>rs_table := t\<lparr>ot_entries := [fresh_entry ?e]\<rparr>\<rparr>"
  have s3: "snd (flag_entry flag_has_obj 0 (update_entry 0 (clear_flags (flag_reachable OR flag_seen)) (s\<lparr>rs_table := t\<rparr>))) = s3"
    by (simp add: flag_entry_def update_entry_def set_entry_def entry_at_def s3_def fresh_entry_def t(2) del: TypeBlob_def clean_names)
  define s4 where "s4 = s\<lparr>rs_table := t\<lparr>ot_entries := [snd (set_flag flag_seen (fresh_entry ?e))]\<rparr>\<rparr>"
  have old: "\<not> fst (flag_entry flag_seen 0 s3)"
    using set_flag_keeps(6) [of 1 "fresh_entry ?e"] fresh_entry_facts(5) [of ?e]
    by (simp add: flag_entry_def flag_numbers s3_def entry_at_def del: TypeBlob_def clean_names)
  have s4: "flag_entry flag_seen 0 s3 = (False, s4)"
    using old by (simp add: flag_entry_def prod_eq_iff s3_def s4_def update_entry_def set_entry_def entry_at_def del: TypeBlob_def clean_names)
  define s5 where "s5 = s\<lparr>rs_table := t\<lparr>ot_entries := [clean_entry]\<rparr>\<rparr>"
  have s5: "record_edges 0 \<lparr>sp_ref = 0, sp_n = 0\<rparr> 0 s4 = s5"
    by (simp add: record_edges_def s4_def s5_def assms(3) clean_options_def default_options_def update_entry_def set_entry_def
        entry_at_def clean_entry_def del: TypeBlob_def clean_names)
  have chk: "run_check ?k (fsck_object (re_norm clean_view) x TypeBlob (Some [65])) s5 = Some (0, s5)" for x
    by (rule blob_check) (simp add: s5_def assms(4))
  have "check_object clean_view ?k 0 TypeBlob (Some [65]) s3 = Some s5"
    unfolding check_object_def Let_def s4 prod.case if_False blob_parts(2)
    using blob_parts(3) [of clean_view s4] s5 chk by (simp add: broken_links_def extra_lines_def)
  then have "check_loose_object clean_view 0 clean_name clean_file clean_path s = Some s5"
    using l blob_parts(1) [of clean_view ?k clean_name "Some [65]" "s\<lparr>rs_table := t\<rparr>"] s3
    by (simp add: check_loose_object_def clean_read empty_result_def take_object_def)
  moreover have "table_inv (t\<lparr>ot_entries := [clean_entry]\<rparr>)"
    using table_inv_set_entry [OF t(3), of clean_entry 0] by (simp add: set_entry_def t(2) clean_entry_facts set_type_keeps(1) new_entry_core(3) del: TypeBlob_def clean_names)
  ultimately show ?thesis unfolding s5_def by (intro exI [of _ "t\<lparr>ot_entries := [clean_entry]\<rparr>"]) (simp add: t(4))
qed

section \<open>The passes\<close>

definition clean_state :: "obj_table \<Rightarrow> nat list \<Rightarrow> nat \<Rightarrow> run_state" where
  "clean_state t ps n = \<lparr>rs_opts = clean_options, rs_table = t, rs_db = fresh_state, rs_fsck = start_options clean_view clean_options,
     rs_rep = new_reporter, rs_status = 0, rs_heads = n, rs_fatal = [], rs_pending = ps, rs_damaged = [], rs_partial = False,
     rs_lost = Map.empty\<rparr>"

lemma clean_state_fields [simp]:
  "rs_opts (clean_state t ps n) = clean_options" "rs_table (clean_state t ps n) = t" "rs_fatal (clean_state t ps n) = []"
  "rs_fsck (clean_state t ps n) = start_options clean_view clean_options" "rs_status (clean_state t ps n) = 0"
  "rs_pending (clean_state t ps n) = ps" "rs_heads (clean_state t ps n) = n" "rs_db (clean_state t ps n) = fresh_state"
  "rs_lost (clean_state t ps n) = Map.empty"
  "(clean_state t ps n)\<lparr>rs_table := t'\<rparr> = clean_state t' ps n" "(clean_state t ps n)\<lparr>rs_pending := ps'\<rparr> = clean_state t ps' n"
  "(clean_state t ps n)\<lparr>rs_heads := n'\<rparr> = clean_state t ps n'" "(clean_state t ps n)\<lparr>rs_db := fresh_state\<rparr> = clean_state t ps n"
  by (simp_all add: clean_state_def)

lemma clean_options_fields [simp]:
  "ro_args clean_options = [hex_encode (replicate 20 7)]" "\<not> ro_refs clean_options" "\<not> ro_connectivity clean_options"
  "ro_full clean_options" "\<not> ro_names clean_options" "\<not> ro_lost_found clean_options" "\<not> ro_keep_cache clean_options"
  "\<not> ro_collect clean_options"
  by (simp_all add: clean_options_def default_options_def)

lemma clean_flush [simp]: "flush_run (ls, clean_state t ps n) = (ls, clean_state t ps n)"
  by (simp add: flush_run_def flush_def clean_state_def new_reporter_def)

lemma clean_snapshot: "snapshot_refs clean_view (clean_state t ps n) = Some (clean_state t ps n)"
proof -
  have "read_object (re_db clean_view) fresh_state clean_name = Some (Inr (TypeBlob, [65]), fresh_state)"
    by (simp add: read_object_def db_find_def clean_read loose_result_of_def empty_result_def)
  then show ?thesis by (simp add: snapshot_refs_def clean_parse run_read_def)
qed

lemma no_pending: "finish_deferred_blobs v (clean_state t ps n) = Some (clean_state t ps n)"
proof -
  have "sorted_key_list_of_set oid_h ({} :: oid set) = []"
    unfolding sorted_key_list_of_set_def by (rule folding_on.empty [where S = "{}"]) (unfold_locales, simp)
  moreover have "pending_blobs (start_options clean_view clean_options) = ({}, {})"
    by (simp add: pending_blobs_def start_options_def new_options_def)
  ultimately show ?thesis by (simp add: finish_deferred_blobs_def)
qed

lemma clean_objects:
  assumes "table_inv t" "ot_entries t = []"
  shows "\<exists>t'. object_phase clean_view (clean_state t [] 0) = Some (clean_state t' [] 0) \<and> table_inv t' \<and> ot_entries t' = [clean_entry] \<and>
    ot_arena t' = ot_arena t"
proof -
  obtain t' where t': "check_loose_object clean_view 0 clean_name clean_file clean_path (clean_state t [] 0) = Some (clean_state t' [] 0)"
    "table_inv t'" "ot_entries t' = [clean_entry]" "ot_arena t' = ot_arena t"
    using clean_take [of "clean_state t [] 0"] assms by auto
  have "file_at clean_view 0 clean_name = clean_file" by (simp add: file_at_def)
  then have "check_object_dirs clean_view (clean_state t [] 0) = Some (clean_state t' [] 0)"
    using t'(1) by (simp add: check_object_dirs_def check_loose_dir_def clean_found List.map_filter_simps)
  then have "object_phase clean_view (clean_state t [] 0) = Some (clean_state t' [] 0)"
    by (simp add: object_phase_def no_pending)
  with t'(2-4) show ?thesis by blast
qed

lemma clean_heads:
  assumes "table_inv t" "ot_entries t = [clean_entry]"
  shows "\<exists>t' e. heads_phase clean_view (clean_state t [] 0) = Some (clean_state t' [0] 1) \<and> ot_entries t' = [e] \<and>
    has_flag flag_has_obj e \<and> has_flag flag_reachable e \<and> en_type e = TypeBlob \<and> ot_arena t' = ot_arena t"
proof -
  define e1 where "e1 = snd (set_flag flag_used clean_entry)"
  define e2 where "e2 = snd (set_flag flag_reachable e1)"
  note c = same_core_steps(2) [of clean_entry] clean_entry_facts
  have f1: "has_flag flag_has_obj e1" "\<not> has_flag flag_reachable e1" "en_type e1 = TypeBlob"
    using c by (simp_all add: same_core_def e1_def)
  have f2: "has_flag flag_has_obj e2" "has_flag flag_reachable e2" "en_type e2 = TypeBlob"
    using f1 set_reachable [of e1] by (simp_all add: e2_def)
  let ?s = "clean_state t [] 0"
  have h: "held_entry ?s clean_name = Some (Some 0)"
    using table_get_exact [OF assms(1), of "oid_h clean_name"] clean_entry_facts assms(2)
    by (simp add: held_entry_def entry_index_def entry_at_def del: clean_names)
  have br: "\<not> is_branch_ref (hex_encode (replicate 20 7))"
    using replicate_Suc [of 19 "7 :: byte"] by (simp add: is_branch_ref_def has_prefix_def hex_digit_def)
  have u: "use_entry 0 (clean_state t [] 1) = clean_state (t\<lparr>ot_entries := [e1]\<rparr>) [] 1"
    by (simp add: use_entry_def flag_entry_def update_entry_def set_entry_def entry_at_def assms(2) e1_def)
  have nm: "name_object x m (clean_state t' ps n) = clean_state t' ps n" for x m t' ps n
    by (simp add: name_object_def start_options_def new_options_def put_object_name_def clean_state_def)
  have m: "mark_reachable 0 (clean_state (t\<lparr>ot_entries := [e1]\<rparr>) [] 1) = clean_state (t\<lparr>ot_entries := [e2]\<rparr>) [0] 1"
    using f1(2) f2(1) set_reachable(9) [of e1]
    by (simp add: mark_reachable_def flag_entry_def update_entry_def set_entry_def entry_at_def e2_def)
  have et: "ensure_type clean_view 0 ?s = Some (TypeBlob, ?s)"
    by (simp add: ensure_type_def entry_at_def assms(2) clean_entry_facts)
  have "handle_arg clean_view (hex_encode (replicate 20 7)) ?s = Some (clean_state (t\<lparr>ot_entries := [e2]\<rparr>) [0] 1)"
    using h et br by (simp add: handle_arg_def clean_parse handle_ref_def take_ref_def u nm m Let_def del: One_nat_def)
  then have "heads_phase clean_view ?s = Some (clean_state (t\<lparr>ot_entries := [e2]\<rparr>) [0] 1)"
    by (simp add: heads_phase_def handle_args_def note_no_heads_def Let_def del: One_nat_def)
  then show ?thesis using f2 by (intro exI [of _ "t\<lparr>ot_entries := [e2]\<rparr>"] exI [of _ e2]) simp
qed

lemma clean_walk:
  assumes "ot_entries t = [e]" "has_flag flag_has_obj e" "has_flag flag_reachable e" "en_type e = TypeBlob"
  shows "check_connectivity clean_view (clean_state t [0] n) = Some (clean_state t [] n)"
  using assms
  by (simp add: check_connectivity_def traverse_reachable_def traverse_loop.simps traverse_one_def visit_def ensure_type_def
      entry_at_def report_objects_def check_one_object_def check_reachable_object_def Let_def)

lemma clean_graphs: "verify_graph_files clean_view (clean_state t ps n) = Some (clean_state t ps n)"
  by (simp add: verify_graph_files_def config_bool_def config_get_def config_get_all_def verify_commit_graphs_def commit_graph_files_def
      contents_of_def verify_midxs_def verify_multi_pack_index_def Let_def)

lemma clean_run: "\<exists>r t. run_fsck clean_env 1 clean_options = Some (r, clean_state t [] 1) \<and> rr_status r = 0 \<and> small (clean_state t [] 1)"
proof -
  have start: "run_start clean_env 1 clean_options (start_options clean_env clean_options) = clean_state (new_obj_table 1 0) [] 0"
    by (simp add: run_start_def clean_state_def packed_objects_def start_options_def)
  obtain t where t: "object_phase clean_view (clean_state (new_obj_table 1 0) [] 0) = Some (clean_state t [] 0)" "table_inv t"
    "ot_entries t = [clean_entry]" "ot_arena t = empty_arena"
    using clean_objects [OF new_table_inv, of 1 0] by (auto simp: new_obj_table_def empty_arena_def Let_def)
  obtain t' e where t': "heads_phase clean_view (clean_state t [] 0) = Some (clean_state t' [0] 1)" "ot_entries t' = [e]"
    "has_flag flag_has_obj e" "has_flag flag_reachable e" "en_type e = TypeBlob" "ot_arena t' = empty_arena"
    using clean_heads [OF t(2,3)] t(4) by metis
  have "check_pack_rev_indexes clean_view s = s" "verify_bitmap_files clean_view s = s" for s
    by (simp_all add: check_pack_rev_indexes_def verify_bitmap_files_def dir_bitmap_def List.map_filter_simps)
  then have "run_phases clean_view (clean_state (new_obj_table 1 0) [] 0) =
      Some (\<lparr>rr_status = 0, rr_lines = [], rr_fatal = [], rr_damaged = None, rr_lost = Map.empty\<rparr>, clean_state t' [] 1)"
    by (simp add: run_phases_def clean_snapshot died_def t t' index_phase_def last_phases_def clean_walk [OF t'(2-5)]
        report_damaged_def clean_graphs del: One_nat_def)
  then have "run_fsck clean_env 1 clean_options =
      Some (\<lparr>rr_status = 0, rr_lines = [], rr_fatal = [], rr_damaged = None, rr_lost = Map.empty\<rparr>, clean_state t' [] 1)"
    using start by (simp add: run_fsck_def big_file_threshold_def config_int_def config_get_def config_get_all_def clean_view_def)
  moreover have "small (clean_state t' [] 1)"
    using t'(2,6) by (simp add: small_def entry_count_def slab_count_def empty_arena_def max_objects_def)
  ultimately show ?thesis by auto
qed

lemma clean_checked: "checked clean_view True h t buf \<longleftrightarrow> h = oid_h clean_name \<and> t = TypeBlob \<and> buf = Some [65]"
proof -
  have "loose_found clean_view 0 = {clean_name}" by (simp add: loose_found_def clean_found)
  moreover have "file_at clean_view 0 clean_name = clean_file" by (simp add: file_at_def)
  then have "loose_check clean_view 0 clean_name =
      empty_result\<lparr>lr_type_name := str ''blob'', lr_type := TypeBlob, lr_size := 1, lr_contents := Some [65], lr_real := Some clean_name\<rparr>"
    by (simp add: loose_check_def clean_read)
  ultimately show ?thesis
    by (auto simp: checked.simps empty_result_def simp del: clean_names)
qed

theorem clean_run_complete_witness:
  "held_object (run_view clean_env) True (oid_h clean_name) \<or>
   has_packed (re_db clean_env) \<lparr>oid_h = oid_h clean_name, oid_n = raw_size (env_algo clean_env)\<rparr>"
proof -
  obtain r t where run: "run_fsck clean_env 1 clean_options = Some (r, clean_state t [] 1)" "rr_status r = 0" "small (clean_state t [] 1)"
    using clean_run by blast
  have v: "run_view clean_env = clean_view"
    by (simp add: clean_view_def run_view_def big_file_threshold_def config_int_def config_get_def config_get_all_def)
  have env: "wf_algo (env_algo clean_env)" "env_ok clean_env" by (simp_all add: clean_algo_def wf_sha1 env_ok_def)
  have links: "object_links clean_algo TypeBlob (Some [65]) = []" by (simp add: object_links_def walk_links_def)
  have fit: "all_fit (run_view clean_env) True" "one_content (run_view clean_env) True"
    using links unfolding v by (auto simp: all_fit_def one_content_def clean_checked links_fit_def simp del: clean_names)
  have need: "needed (run_view clean_env) clean_options (oid_h clean_name)"
    unfolding v by (rule needed.root) (simp add: run_roots_def arg_roots_def clean_parse)
  show ?thesis
    using clean_run_complete [OF run env _ _ _ _ _ need] fit by (simp del: clean_names)
qed

end
