(* ===== verification/ParseOpt.thy ===== *)
theory ParseOpt
  imports RunState
begin

text \<open>
  The command line: \<open>internal/parseopt/parseopt.go\<close>, and the table of options and their defaults in
  \<open>cmd/git-fixed/fsck.go\<close> and \<open>cmd/git-fixed/main.go\<close>. The variables an option points at are cells of a store, one
  for numbers and one for strings; an option names its cell.
\<close>

section \<open>The tables\<close>

record bool_opt =
  bo_short :: byte
  bo_long :: bytes
  bo_help :: bytes
  bo_value :: nat

record str_opt =
  so_short :: byte
  so_long :: bytes
  so_arg :: bytes
  so_help :: bytes
  so_value :: nat

record opt_set =
  op_usage :: "bytes list"
  op_opts :: "bool_opt list"
  op_strs :: "str_opt list"

record opt_cells =
  oc_ints :: "nat \<Rightarrow> int"
  oc_strs :: "nat \<Rightarrow> bytes"

datatype opt_error = ErrHelp | ErrUsage bytes

definition set_int :: "nat \<Rightarrow> int \<Rightarrow> opt_cells \<Rightarrow> opt_cells" where
  "set_int k v m = m\<lparr>oc_ints := (oc_ints m)(k := v)\<rparr>"

definition set_str :: "nat \<Rightarrow> bytes \<Rightarrow> opt_cells \<Rightarrow> opt_cells" where
  "set_str k v m = m\<lparr>oc_strs := (oc_strs m)(k := v)\<rparr>"

section \<open>Long options\<close>

text \<open>\<open>resolve\<close>: the two loops, each with the abbreviations seen so far. A result is an option of one of
  the two tables.\<close>

type_synonym opt_found = "bool_opt option \<times> str_opt option"

fun resolve_strs :: "bytes \<Rightarrow> str_opt list \<Rightarrow> bool_opt option \<Rightarrow> str_opt option \<Rightarrow> nat \<Rightarrow> opt_found" where
  "resolve_strs name [] b s n = (if n \<noteq> 1 then (None, None) else (b, s))"
| "resolve_strs name (x # xs) b s n =
     (if so_long x = name then (None, Some x)
      else if so_long x \<noteq> [] \<and> has_prefix (so_long x) name then resolve_strs name xs b (Some x) (n + 1)
      else resolve_strs name xs b s n)"

fun resolve_opts :: "bytes \<Rightarrow> bool_opt list \<Rightarrow> str_opt list \<Rightarrow> bool_opt option \<Rightarrow> nat \<Rightarrow> opt_found" where
  "resolve_opts name [] strs b n = resolve_strs name strs b None n"
| "resolve_opts name (x # xs) strs b n =
     (if bo_long x = name then (Some x, None)
      else if has_prefix (bo_long x) name then resolve_opts name xs strs (Some x) (n + 1)
      else resolve_opts name xs strs b n)"

definition resolve_opt :: "opt_set \<Rightarrow> bytes \<Rightarrow> opt_found" where
  "resolve_opt q name = resolve_opts name (op_opts q) (op_strs q) None 0"

definition find_opt :: "opt_set \<Rightarrow> bytes \<Rightarrow> bool_opt option" where
  "find_opt q name = fst (resolve_opt q name)"

definition quoted_name :: "string \<Rightarrow> bytes \<Rightarrow> string \<Rightarrow> bytes" where
  "quoted_name before name after = str before @ [96] @ name @ [39] @ str after"

definition true_words :: "bytes list" where
  "true_words = [str ''true'', str ''yes'', str ''on'', str ''1'']"

definition false_words :: "bytes list" where
  "false_words = [str ''false'', str ''no'', str ''off'', str ''0'']"

text \<open>The value after an equals sign, when it is a word for a boolean.\<close>

definition word_value :: "bytes \<Rightarrow> int option" where
  "word_value v = (if v \<in> set true_words then Some 1 else if v \<in> set false_words then Some 0 else None)"

definition assign_long :: "opt_set \<Rightarrow> bytes \<Rightarrow> bytes \<Rightarrow> int \<Rightarrow> opt_cells \<Rightarrow> opt_error + opt_cells" where
  "assign_long q name arg value m =
     (case Option.bind (cut_prefix arg (str ''no-'')) (find_opt q) of
        Some x \<Rightarrow> Inr (set_int (bo_value x) (1 - value) m)
      | None \<Rightarrow>
          (case find_opt q arg of
             None \<Rightarrow> Inl (ErrUsage (quoted_name ''unknown option '' name ''''))
           | Some x \<Rightarrow> Inr (set_int (bo_value x) value m)))"

definition long_bool :: "opt_set \<Rightarrow> bytes \<Rightarrow> opt_cells \<Rightarrow> opt_error + opt_cells" where
  "long_bool q name m =
     (case index_byte name 61 of
        None \<Rightarrow> assign_long q name name 1 m
      | Some i \<Rightarrow>
          (case word_value (drop (i + 1) name) of
             None \<Rightarrow> Inl (ErrUsage (quoted_name ''option '' (take i name) '' takes no value''))
           | Some v \<Rightarrow> assign_long q name (take i name) v m))"

text \<open>\<open>long\<close>: how many of the arguments after it were taken, and the cells.\<close>

definition long_opt :: "opt_set \<Rightarrow> bytes \<Rightarrow> bytes list \<Rightarrow> opt_cells \<Rightarrow> opt_error + (nat \<times> opt_cells)" where
  "long_opt q name rest m =
     (let arg = (case index_byte name 61 of None \<Rightarrow> name | Some i \<Rightarrow> take i name) in
      case snd (resolve_opt q arg) of
        Some x \<Rightarrow>
          (case index_byte name 61 of
             Some i \<Rightarrow> Inr (0, set_str (so_value x) (drop (i + 1) name) m)
           | None \<Rightarrow>
               (case rest of
                  [] \<Rightarrow> Inl (ErrUsage (quoted_name ''option '' arg '' requires a value''))
                | v # _ \<Rightarrow> Inr (1, set_str (so_value x) v m)))
      | None \<Rightarrow> map_sum id (Pair 0) (long_bool q name m))"

section \<open>Bundles of letters\<close>

text \<open>A byte printed as a character is the UTF-8 form of that code point.\<close>

definition char_text :: "byte \<Rightarrow> bytes" where
  "char_text c = (if c < 128 then [c] else [0xC0 OR drop_bit 6 c, 0x80 OR (c AND 0x3F)])"

definition short_str :: "opt_set \<Rightarrow> byte \<Rightarrow> str_opt option" where
  "short_str q c = List.find (\<lambda>x. so_short x = c) (op_strs q)"

fun short_opt :: "opt_set \<Rightarrow> bytes \<Rightarrow> bytes list \<Rightarrow> opt_cells \<Rightarrow> opt_error + (nat \<times> opt_cells)" where
  "short_opt q [] rest m = Inr (0, m)"
| "short_opt q (c # cs) rest m =
     (case short_str q c of
        Some x \<Rightarrow>
          (if cs \<noteq> [] then Inr (0, set_str (so_value x) cs m)
           else (case rest of
               [] \<Rightarrow> Inl (ErrUsage (quoted_name ''switch '' (char_text c) '' requires a value''))
             | v # _ \<Rightarrow> Inr (1, set_str (so_value x) v m)))
      | None \<Rightarrow>
          (case List.find (\<lambda>x. bo_short x = c) (op_opts q) of
             None \<Rightarrow> Inl (ErrUsage (quoted_name ''unknown switch '' (char_text c) ''''))
           | Some x \<Rightarrow> short_opt q cs rest (set_int (bo_value x) 1 m)))"

section \<open>The whole line\<close>

function parse_args :: "opt_set \<Rightarrow> bytes list \<Rightarrow> opt_cells \<Rightarrow> opt_error + (bytes list \<times> opt_cells)" where
  "parse_args q args m =
     (case args of
        [] \<Rightarrow> Inr ([], m)
      | arg # after \<Rightarrow>
          if arg = str ''--'' then Inr (after, m)
          else if arg = str ''-h'' \<or> arg = str ''--help'' then Inl ErrHelp
          else if has_prefix arg (str ''--'') then
            (case long_opt q (drop 2 arg) after m of
               Inl e \<Rightarrow> Inl e
             | Inr (used, m1) \<Rightarrow> parse_args q (drop used after) m1)
          else if 1 < length arg \<and> hd arg = 45 then
            (case short_opt q (drop 1 arg) after m of
               Inl e \<Rightarrow> Inl e
             | Inr (used, m1) \<Rightarrow> parse_args q (drop used after) m1)
          else Inr (args, m))"
  by auto
termination by (relation "measure (\<lambda>(q, args, m). length args)") auto

declare parse_args.simps [simp del]

section \<open>The usage text\<close>

definition usage_opts_width :: nat where "usage_opts_width = 24"
definition usage_gap :: nat where "usage_gap = 2"

definition spell :: "byte \<Rightarrow> bytes \<Rightarrow> bytes" where
  "spell short long =
     (if short = 0 then long
      else if long = [] then [45] @ char_text short
      else [45] @ char_text short @ str '', '' @ long)"

definition option_line :: "bytes \<Rightarrow> bytes \<Rightarrow> bytes" where
  "option_line names help =
     (let line = str ''    '' @ names in
      (if length line \<le> usage_opts_width then line @ replicate (usage_opts_width - length line + usage_gap) 32
       else line @ [10] @ replicate (usage_opts_width + usage_gap) 32) @ help @ [10])"

definition usage_text :: "opt_set \<Rightarrow> bytes" where
  "usage_text q =
     concat (map (\<lambda>(i, u). (if 0 < i then str ''   or: '' else str ''usage: '') @ u @ [10])
       (zip [0..<length (op_usage q)] (op_usage q))) @ [10] @
     concat (map (\<lambda>x. option_line (spell (bo_short x) (if bo_long x \<noteq> [] then str ''--[no-]'' @ bo_long x else []))
       (bo_help x)) (op_opts q)) @
     concat (map (\<lambda>x. option_line (spell (so_short x) (if so_long x \<noteq> [] then str ''--'' @ so_long x else []) @
       (if so_arg x \<noteq> [] then [32] @ so_arg x else [])) (so_help x)) (op_strs q)) @ [10]"

section \<open>The options of the program\<close>

text \<open>\<open>fsckFlags.table\<close> in its order; the flag at place \<open>k\<close> of the table is cell \<open>k\<close>. \<open>dryRun\<close>, \<open>undo\<close> and
  \<open>listRuns\<close> are the cells 14 to 16 and \<open>dir\<close> is string cell 0.\<close>

definition bool_option :: "byte \<Rightarrow> string \<Rightarrow> string \<Rightarrow> nat \<Rightarrow> bool_opt" where
  "bool_option c name help k = \<lparr>bo_short = c, bo_long = str name, bo_help = str help, bo_value = k\<rparr>"

definition fsck_table :: "bool_opt list" where
  "fsck_table =
     [bool_option 118 ''verbose'' ''be verbose'' 0,
      bool_option 0 ''unreachable'' ''show unreachable objects'' 1,
      bool_option 0 ''dangling'' ''show dangling objects'' 2,
      bool_option 0 ''tags'' ''report tags'' 3,
      bool_option 0 ''root'' ''report root nodes'' 4,
      bool_option 0 ''cache'' ''make index objects head nodes'' 5,
      bool_option 0 ''reflogs'' ''make reflogs head nodes (default)'' 6,
      bool_option 0 ''full'' ''also consider packs and alternate objects'' 7,
      bool_option 0 ''connectivity-only'' ''check only connectivity'' 8,
      bool_option 0 ''references'' ''check reference database consistency'' 9,
      bool_option 0 ''strict'' ''enable more strict checking'' 10,
      bool_option 0 ''lost-found'' ''write dangling objects in .git/lost-found'' 11,
      bool_option 0 ''progress'' ''show progress'' 12,
      bool_option 0 ''name-objects'' ''show verbose names for reachable objects'' 13]"

definition program_usage :: "bytes list" where
  "program_usage =
     [str ''git-fixed [-C <directory>] [--dry-run] [<fsck options>] [<object>...]'',
      str ''git-fixed [-C <directory>] --undo [<run>]'',
      str ''git-fixed [-C <directory>] --list-runs'']"

definition program_set :: opt_set where
  "program_set =
     \<lparr>op_usage = program_usage,
      op_opts =
        [bool_option 110 ''dry-run'' ''report what is wrong, and repair nothing'' 14,
         bool_option 0 ''undo'' ''put a run's displaced files back'' 15,
         bool_option 0 ''list-runs'' ''list the runs whose files can be put back'' 16] @ fsck_table,
      op_strs =
        [\<lparr>so_short = 67, so_long = str ''directory'', so_arg = str ''<directory>'',
          so_help = str ''run as if started in <directory>'', so_value = 0\<rparr>]\<rparr>"

text \<open>\<open>newFsckFlags\<close>, with the other variables at Go's zero values.\<close>

definition start_cells :: opt_cells where
  "start_cells = \<lparr>oc_ints = (\<lambda>k. 0)(2 := 1, 6 := 1, 7 := 1, 9 := 1, 12 := -1), oc_strs = (\<lambda>k. [])\<rparr>"

definition flag_on :: "opt_cells \<Rightarrow> nat \<Rightarrow> bool" where
  "flag_on m k \<longleftrightarrow> oc_ints m k \<noteq> 0"

text \<open>\<open>options\<close>: what the flags ask of a run of the checker. The command always collects damaged objects. Meters,
  verbose lines and the number of workers do not appear in the options of the model.\<close>

definition fsck_options :: "opt_cells \<Rightarrow> bytes list \<Rightarrow> run_options" where
  "fsck_options m names =
     (let o1 = default_options\<lparr>ro_args := names, ro_unreachable := flag_on m 1, ro_dangling := flag_on m 2,
            ro_show_tags := flag_on m 3, ro_show_root := flag_on m 4, ro_keep_cache := flag_on m 5,
            ro_reflogs := flag_on m 6, ro_full := flag_on m 7, ro_connectivity := flag_on m 8,
            ro_refs := flag_on m 9, ro_strict := flag_on m 10, ro_lost_found := flag_on m 11,
            ro_names := flag_on m 13, ro_collect := True\<rparr> in
      if ro_lost_found o1 then o1\<lparr>ro_full := True, ro_reflogs := False\<rparr> else o1)"

definition same_verdict :: "run_options \<Rightarrow> bool" where
  "same_verdict x \<longleftrightarrow>
     ro_args x = [] \<and> ro_strict x = ro_strict default_options \<and>
     ro_connectivity x = ro_connectivity default_options \<and> ro_keep_cache x = ro_keep_cache default_options \<and>
     ro_lost_found x = ro_lost_found default_options \<and> ro_full x = ro_full default_options \<and>
     ro_refs x = ro_refs default_options \<and> ro_reflogs x = ro_reflogs default_options"

text \<open>What \<open>run\<close> of \<open>cmd/git-fixed/main.go\<close> turns the arguments into: a status with what it prints to the two
  streams, or one of the three jobs in a directory. \<open>cwd\<close> is what \<open>os.Getwd\<close> answers.\<close>

datatype command =
    Stop int bytes bytes
  | ListRuns bytes
  | UndoRun bytes "bytes list"
  | Diagnose bytes bool bool run_options

definition command_of :: "bytes + bytes \<Rightarrow> bytes list \<Rightarrow> command" where
  "command_of cwd args =
     (case parse_args program_set args start_cells of
        Inl (ErrUsage msg) \<Rightarrow> Stop 129 [] (str ''error: '' @ msg @ [10] @ usage_text program_set)
      | Inl ErrHelp \<Rightarrow> Stop 129 (usage_text program_set) []
      | Inr (names, m) \<Rightarrow>
          (case (if oc_strs m 0 = [] then cwd else Inr (oc_strs m 0)) of
             Inl e \<Rightarrow> Stop 128 [] (str ''fatal: '' @ e @ [10])
           | Inr dir \<Rightarrow>
               if flag_on m 15 \<and> flag_on m 14 then
                 Stop 129 [] (str ''error: --undo puts files back, so it cannot be a --dry-run'' @ [10] @ usage_text program_set)
               else if flag_on m 16 then ListRuns dir
               else if flag_on m 15 then UndoRun dir names
               else Diagnose dir (flag_on m 14) (same_verdict (fsck_options m names)) (fsck_options m names)))"

section \<open>The grammar of a command line\<close>

text \<open>The option a long name spells: the first with exactly that name, or the only one whose name begins with it.\<close>

definition all_opts :: "opt_set \<Rightarrow> (bool_opt + str_opt) list" where
  "all_opts q = map Inl (op_opts q) @ map Inr (op_strs q)"

fun long_of :: "bool_opt + str_opt \<Rightarrow> bytes" where
  "long_of (Inl x) = bo_long x"
| "long_of (Inr x) = so_long x"

definition named :: "opt_set \<Rightarrow> bytes \<Rightarrow> (bool_opt + str_opt) option" where
  "named q p =
     (case filter (\<lambda>x. long_of x = p) (all_opts q) of
        x # _ \<Rightarrow> Some x
      | [] \<Rightarrow> (case filter (\<lambda>x. has_prefix (long_of x) p) (all_opts q) of [x] \<Rightarrow> Some x | _ \<Rightarrow> None))"

definition table_ok :: "opt_set \<Rightarrow> bool" where
  "table_ok q \<longleftrightarrow> (\<forall>x \<in> set (all_opts q). long_of x \<noteq> [] \<and> \<not> has_prefix (long_of x) (str ''no-''))"

text \<open>Letters of switches, and what they set.\<close>

definition switch :: "opt_set \<Rightarrow> byte \<Rightarrow> bool_opt option" where
  "switch q c = (if short_str q c = None then List.find (\<lambda>x. bo_short x = c) (op_opts q) else None)"

definition switches :: "opt_set \<Rightarrow> bytes \<Rightarrow> bool" where
  "switches q cs \<longleftrightarrow> (\<forall>c \<in> set cs. switch q c \<noteq> None)"

definition switched :: "opt_set \<Rightarrow> bytes \<Rightarrow> opt_cells \<Rightarrow> opt_cells" where
  "switched q cs = fold (\<lambda>c. set_int (bo_value (the (switch q c))) 1) cs"

text \<open>One option at the head of a line: the arguments after it and what it does to the cells.\<close>

inductive one_option :: "opt_set \<Rightarrow> bytes list \<Rightarrow> bytes list \<Rightarrow> (opt_cells \<Rightarrow> opt_cells) \<Rightarrow> bool" for q where
  on: "named q p = Some (Inl x) \<Longrightarrow> p \<noteq> [] \<Longrightarrow> p \<noteq> str ''help'' \<Longrightarrow> 61 \<notin> set p \<Longrightarrow>
    one_option q (([45, 45] @ p) # after) after (set_int (bo_value x) 1)"
| off: "named q p = Some (Inl x) \<Longrightarrow> 61 \<notin> set p \<Longrightarrow>
    one_option q (([45, 45] @ str ''no-'' @ p) # after) after (set_int (bo_value x) 0)"
| word: "named q p = Some (Inl x) \<Longrightarrow> 61 \<notin> set p \<Longrightarrow> word_value w = Some v \<Longrightarrow>
    one_option q (([45, 45] @ p @ [61] @ w) # after) after (set_int (bo_value x) v)"
| unword: "named q p = Some (Inl x) \<Longrightarrow> 61 \<notin> set p \<Longrightarrow> word_value w = Some v \<Longrightarrow>
    one_option q (([45, 45] @ str ''no-'' @ p @ [61] @ w) # after) after (set_int (bo_value x) (1 - v))"
| joined: "named q p = Some (Inr x) \<Longrightarrow> 61 \<notin> set p \<Longrightarrow>
    one_option q (([45, 45] @ p @ [61] @ w) # after) after (set_str (so_value x) w)"
| apart: "named q p = Some (Inr x) \<Longrightarrow> p \<noteq> [] \<Longrightarrow> p \<noteq> str ''help'' \<Longrightarrow> 61 \<notin> set p \<Longrightarrow>
    one_option q (([45, 45] @ p) # w # after) after (set_str (so_value x) w)"
| letters: "switches q cs \<Longrightarrow> cs \<noteq> [] \<Longrightarrow> hd cs \<noteq> 45 \<Longrightarrow> cs \<noteq> str ''h'' \<Longrightarrow>
    one_option q ((45 # cs) # after) after (switched q cs)"
| letters_joined: "switches q cs \<Longrightarrow> short_str q c = Some x \<Longrightarrow> hd (cs @ [c]) \<noteq> 45 \<Longrightarrow> w \<noteq> [] \<Longrightarrow>
    one_option q ((45 # cs @ c # w) # after) after (set_str (so_value x) w \<circ> switched q cs)"
| letters_apart: "switches q cs \<Longrightarrow> short_str q c = Some x \<Longrightarrow> hd (cs @ [c]) \<noteq> 45 \<Longrightarrow> cs @ [c] \<noteq> str ''h'' \<Longrightarrow>
    one_option q ((45 # cs @ [c]) # w # after) after (set_str (so_value x) w \<circ> switched q cs)"

text \<open>A whole line: options, then the operands, after \<open>--\<close> or from the first argument that is no option.\<close>

definition operand :: "bytes \<Rightarrow> bool" where
  "operand arg \<longleftrightarrow> arg = [] \<or> hd arg \<noteq> 45 \<or> arg = [45]"

inductive command_line :: "opt_set \<Rightarrow> bytes list \<Rightarrow> bytes list \<Rightarrow> (opt_cells \<Rightarrow> opt_cells) \<Rightarrow> bool" for q where
  ended: "command_line q [] [] id"
| dashes: "command_line q (str ''--'' # names) names id"
| operands: "operand arg \<Longrightarrow> command_line q (arg # names) (arg # names) id"
| option: "one_option q args after f \<Longrightarrow> command_line q after names g \<Longrightarrow> command_line q args names (g \<circ> f)"

section \<open>Resolution\<close>

fun as_found :: "(bool_opt + str_opt) option \<Rightarrow> opt_found" where
  "as_found None = (None, None)"
| "as_found (Some (Inl x)) = (Some x, None)"
| "as_found (Some (Inr x)) = (None, Some x)"

lemma resolve_strs_spec:
  "resolve_strs name xs b s n =
     (case filter (\<lambda>x. so_long x = name) xs of
        x # _ \<Rightarrow> (None, Some x)
      | [] \<Rightarrow> (let ys = filter (\<lambda>x. so_long x \<noteq> [] \<and> has_prefix (so_long x) name) xs in
               if n + length ys \<noteq> 1 then (None, None) else (b, if ys = [] then s else Some (last ys))))"
  by (induction name xs b s n rule: resolve_strs.induct) (auto simp: Let_def split: list.splits)

lemma resolve_opts_spec:
  "resolve_opts name xs strs b n =
     (case filter (\<lambda>x. bo_long x = name) xs of
        x # _ \<Rightarrow> (Some x, None)
      | [] \<Rightarrow> (let ys = filter (\<lambda>x. has_prefix (bo_long x) name) xs in
               resolve_strs name strs (if ys = [] then b else Some (last ys)) None (n + length ys)))"
  by (induction name xs strs b n rule: resolve_opts.induct) (auto simp: Let_def split: list.splits)

lemma table_okD:
  "table_ok q \<Longrightarrow> x \<in> set (op_strs q) \<Longrightarrow> so_long x \<noteq> []"
  by (force simp: table_ok_def all_opts_def)

lemma one_of_two:
  "length xs + length ys = Suc 0 \<longleftrightarrow> (\<exists>x. xs = [x] \<and> ys = []) \<or> (\<exists>y. xs = [] \<and> ys = [y])"
  by (cases xs; cases ys) auto

lemma resolve_named:
  assumes "table_ok q"
  shows "resolve_opt q p = as_found (named q p)"
proof -
  let ?b = "filter (\<lambda>x. bo_long x = p) (op_opts q)" and ?s = "filter (\<lambda>x. so_long x = p) (op_strs q)"
  let ?bp = "filter (\<lambda>x. has_prefix (bo_long x) p) (op_opts q)" and ?sp = "filter (\<lambda>x. has_prefix (so_long x) p) (op_strs q)"
  have sp: "filter (\<lambda>x. so_long x \<noteq> [] \<and> has_prefix (so_long x) p) (op_strs q) = ?sp"
    using table_okD [OF assms] by (intro filter_cong) auto
  have ex: "filter (\<lambda>x. long_of x = p) (all_opts q) = map Inl ?b @ map Inr ?s"
    by (simp add: all_opts_def filter_map comp_def)
  have pr: "filter (\<lambda>x. has_prefix (long_of x) p) (all_opts q) = map Inl ?bp @ map Inr ?sp"
    by (simp add: all_opts_def filter_map comp_def)
  show ?thesis
    unfolding resolve_opt_def named_def resolve_opts_spec resolve_strs_spec sp ex pr
    by (cases ?b; cases ?s; cases ?bp; cases ?sp) (auto simp: Let_def split: list.splits)
qed

lemma find_named:
  "table_ok q \<Longrightarrow> find_opt q p = (case named q p of Some (Inl x) \<Rightarrow> Some x | _ \<Rightarrow> None)"
  by (auto simp: find_opt_def resolve_named split: option.splits sum.splits)

lemma named_prefix: "named q p = Some x \<Longrightarrow> x \<in> set (all_opts q) \<and> has_prefix (long_of x) p"
proof -
  assume a: "named q p = Some x"
  have "x \<in> set (filter (\<lambda>x. long_of x = p) (all_opts q)) \<or> x \<in> set (filter (\<lambda>x. has_prefix (long_of x) p) (all_opts q))"
    using a unfolding named_def by (auto split: list.splits simp del: set_filter)
  then show ?thesis by (auto simp: has_prefix_def)
qed

lemma named_no: "table_ok q \<Longrightarrow> has_prefix p (str ''no-'') \<Longrightarrow> named q p = None"
proof (rule ccontr)
  assume q: "table_ok q" and p: "has_prefix p (str ''no-'')" and "named q p \<noteq> None"
  then obtain x where x: "named q p = Some x" by auto
  then have "has_prefix (long_of x) (str ''no-'')" using named_prefix [OF x] p
    by (auto simp: has_prefix_iff simp del: str_def)
  then show False using q named_prefix [OF x] by (auto simp: table_ok_def simp del: str_def)
qed

section \<open>One long option\<close>

text \<open>What an argument spells, with the equals sign taken apart.\<close>

lemma assign_cases:
  assumes "table_ok q"
  shows "assign_long q name arg value m = Inr m' \<longleftrightarrow>
     (\<exists>p x. arg = str ''no-'' @ p \<and> named q p = Some (Inl x) \<and> m' = set_int (bo_value x) (1 - value) m) \<or>
     (\<exists>x. named q arg = Some (Inl x) \<and> m' = set_int (bo_value x) value m)"
proof (cases "has_prefix arg (str ''no-'')")
  case True
  then obtain p where p: "arg = str ''no-'' @ p" by (auto simp: has_prefix_iff simp del: str_def)
  have "named q arg = None" by (rule named_no [OF assms True])
  then show ?thesis unfolding assign_long_def p
    by (auto simp: find_named [OF assms] split: option.splits sum.splits simp del: str_def)
next
  case False
  then have "cut_prefix arg (str ''no-'') = None" by (simp add: cut_prefix_def del: str_def)
  moreover have "arg \<noteq> str ''no-'' @ p" for p using False by (auto simp: has_prefix_iff simp del: str_def)
  ultimately show ?thesis unfolding assign_long_def
    by (auto simp: find_named [OF assms] split: option.splits sum.splits simp del: str_def)
qed

lemma long_plain:
  assumes "61 \<notin> set name"
  shows "long_opt q name rest m =
     (case snd (resolve_opt q name) of
        Some x \<Rightarrow> (case rest of [] \<Rightarrow> Inl (ErrUsage (quoted_name ''option '' name '' requires a value''))
          | v # _ \<Rightarrow> Inr (1, set_str (so_value x) v m))
      | None \<Rightarrow> map_sum id (Pair 0) (assign_long q name name 1 m))"
  using assms by (auto simp: long_opt_def long_bool_def index_byte_notin split: option.splits)

lemma long_equals:
  assumes "61 \<notin> set p"
  shows "long_opt q (p @ 61 # w) rest m =
     (case snd (resolve_opt q p) of
        Some x \<Rightarrow> Inr (0, set_str (so_value x) w m)
      | None \<Rightarrow> map_sum id (Pair 0)
          (case word_value w of
             None \<Rightarrow> Inl (ErrUsage (quoted_name ''option '' p '' takes no value''))
           | Some v \<Rightarrow> assign_long q (p @ 61 # w) p v m))"
  using assms by (auto simp: long_opt_def long_bool_def split: option.splits)

lemma snd_resolve:
  "table_ok q \<Longrightarrow> snd (resolve_opt q p) = (case named q p of Some (Inr x) \<Rightarrow> Some x | _ \<Rightarrow> None)"
  by (auto simp: resolve_named split: option.splits sum.splits)

lemma map_sum_Inr: "map_sum id (Pair (0 :: nat)) r = Inr (k, m') \<longleftrightarrow> k = 0 \<and> r = Inr m'"
  by (cases r) auto

lemma equals_split: "61 \<in> set name \<Longrightarrow> \<exists>p w. name = p @ 61 # w \<and> (61 :: byte) \<notin> set p"
  using split_list_first [of 61 name] by blast

lemma long_option:
  assumes q: "table_ok q" and r: "long_opt q name rest m = Inr (k, m')" and n: "name \<noteq> []" "name \<noteq> str ''help''"
  shows "\<exists>f. one_option q (([45, 45] @ name) # rest) (drop k rest) f \<and> m' = f m"
proof (cases "61 \<in> set name")
  case False
  show ?thesis
  proof (cases "\<exists>x. named q name = Some (Inr x)")
    case True
    then obtain x v vs where "named q name = Some (Inr x)" "rest = v # vs" "k = 1" "m' = set_str (so_value x) v m"
      using r by (auto simp: long_plain [OF False] snd_resolve [OF q] split: list.splits)
    then show ?thesis using one_option.apart [of q name x v vs] n False by (auto simp del: str_def append_Cons)
  next
    case no: False
    then have a: "k = 0" "assign_long q name name 1 m = Inr m'"
      using r by (auto simp: long_plain [OF False] snd_resolve [OF q] map_sum_Inr split: option.splits sum.splits)
    from a(2) [unfolded assign_cases [OF q]] show ?thesis
    proof (elim disjE exE conjE)
      fix p x assume "name = str ''no-'' @ p" "named q p = Some (Inl x)" "m' = set_int (bo_value x) (1 - 1) m"
      then show ?thesis using one_option.off [of q p x rest] False a(1)
        by (intro exI [of _ "set_int (bo_value x) 0"]) simp
    next
      fix x assume "named q name = Some (Inl x)" "m' = set_int (bo_value x) 1 m"
      then show ?thesis using one_option.on [of q name x rest] n False a(1) by (auto simp del: str_def append_Cons)
    qed
  qed
next
  case True
  then obtain p w where s: "name = p @ 61 # w" "61 \<notin> set p" using equals_split by blast
  show ?thesis
  proof (cases "\<exists>x. named q p = Some (Inr x)")
    case True
    then obtain x where "named q p = Some (Inr x)" "k = 0" "m' = set_str (so_value x) w m"
      using r by (auto simp: s(1) long_equals [OF s(2)] snd_resolve [OF q])
    then show ?thesis using one_option.joined [of q p x w rest] s by auto
  next
    case no: False
    then obtain v where a: "k = 0" "word_value w = Some v" "assign_long q name p v m = Inr m'"
      using r by (auto simp: s(1) long_equals [OF s(2)] snd_resolve [OF q] map_sum_Inr split: option.splits sum.splits)
    from a(3) [unfolded assign_cases [OF q]] show ?thesis
    proof (elim disjE exE conjE)
      fix t x assume "p = str ''no-'' @ t" "named q t = Some (Inl x)" "m' = set_int (bo_value x) (1 - v) m"
      then show ?thesis using one_option.unword [of q t x w v rest] s a by auto
    next
      fix x assume "named q p = Some (Inl x)" "m' = set_int (bo_value x) v m"
      then show ?thesis using one_option.word [of q p x w v rest] s a by auto
    qed
  qed
qed

section \<open>One bundle\<close>

lemma switched_Cons: "switched q (c # cs) = switched q cs \<circ> set_int (bo_value (the (switch q c))) 1"
  by (simp add: switched_def)

lemma short_step:
  "switch q c = Some x \<Longrightarrow> short_opt q (c # cs) rest m = short_opt q cs rest (set_int (bo_value x) 1 m)"
  by (simp add: switch_def split: if_splits)

lemma short_switches:
  "switches q cs \<Longrightarrow> short_opt q (cs @ ds) rest m = short_opt q ds rest (switched q cs m)"
proof (induction cs arbitrary: m)
  case Nil
  then show ?case by (simp add: switched_def)
next
  case (Cons c cs)
  then obtain x where x: "switch q c = Some x" and "switches q cs" by (auto simp: switches_def)
  then show ?case using Cons.IH by (simp add: short_step switched_Cons del: short_opt.simps)
qed

lemma short_cases:
  assumes "short_opt q ls rest m = Inr (k, m')"
  shows "(switches q ls \<and> k = 0 \<and> m' = switched q ls m) \<or>
     (\<exists>cs c w x. ls = cs @ c # w \<and> w \<noteq> [] \<and> switches q cs \<and> short_str q c = Some x \<and> k = 0 \<and>
        m' = set_str (so_value x) w (switched q cs m)) \<or>
     (\<exists>cs c w ws x. ls = cs @ [c] \<and> rest = w # ws \<and> switches q cs \<and> short_str q c = Some x \<and> k = 1 \<and>
        m' = set_str (so_value x) w (switched q cs m))"
  using assms
proof (induction ls arbitrary: m)
  case Nil
  then show ?case by (simp add: switches_def switched_def)
next
  case (Cons c ls)
  have none: "switches q []" "switched q [] = id" by (auto simp: switches_def switched_def)
  show ?case
  proof (cases "short_str q c")
    case (Some x)
    then consider "ls \<noteq> []" "k = 0" "m' = set_str (so_value x) ls m"
      | w ws where "ls = []" "rest = w # ws" "k = 1" "m' = set_str (so_value x) w m"
      using Cons.prems by (auto split: if_splits list.splits)
    then show ?thesis
    proof cases
      case 1
      then show ?thesis using Some none by (intro disjI2 disjI1 exI [of _ "[]"]) auto
    next
      case 2
      then show ?thesis using Some none by (intro disjI2 exI [of _ "[]"]) auto
    qed
  next
    case None
    then obtain x where x: "switch q c = Some x" and r: "short_opt q ls rest (set_int (bo_value x) 1 m) = Inr (k, m')"
      using Cons.prems by (auto simp: switch_def split: option.splits)
    have sw: "switches q (c # cs) \<longleftrightarrow> switches q cs" for cs using x by (simp add: switches_def)
    have sd: "switched q (c # cs) m = switched q cs (set_int (bo_value x) 1 m)" for cs using x by (simp add: switched_Cons)
    from Cons.IH [OF r] show ?thesis
    proof (elim disjE exE conjE)
      assume "switches q ls" "k = 0" "m' = switched q ls (set_int (bo_value x) 1 m)"
      then show ?thesis by (simp add: sw sd)
    next
      fix cs d w y
      assume "ls = cs @ d # w" "w \<noteq> []" "switches q cs" "short_str q d = Some y" "k = 0"
        "m' = set_str (so_value y) w (switched q cs (set_int (bo_value x) 1 m))"
      then show ?thesis by (intro disjI2 disjI1 exI [of _ "c # cs"]) (auto simp: sw sd)
    next
      fix cs d w ws y
      assume "ls = cs @ [d]" "rest = w # ws" "switches q cs" "short_str q d = Some y" "k = 1"
        "m' = set_str (so_value y) w (switched q cs (set_int (bo_value x) 1 m))"
      then show ?thesis by (intro disjI2 exI [of _ "c # cs"]) (auto simp: sw sd)
    qed
  qed
qed

lemma short_option:
  assumes r: "short_opt q ls rest m = Inr (k, m')" and n: "ls \<noteq> []" "hd ls \<noteq> 45" "ls \<noteq> str ''h''"
  shows "\<exists>f. one_option q ((45 # ls) # rest) (drop k rest) f \<and> m' = f m"
  using short_cases [OF r]
proof (elim disjE exE conjE)
  assume "switches q ls" "k = 0" "m' = switched q ls m"
  then show ?thesis using one_option.letters [of q ls rest] n by (auto simp del: str_def)
next
  fix cs c w x assume "ls = cs @ c # w" "w \<noteq> []" "switches q cs" "short_str q c = Some x" "k = 0"
    "m' = set_str (so_value x) w (switched q cs m)"
  moreover then have "hd (cs @ [c]) \<noteq> 45" using n by (cases cs) auto
  ultimately show ?thesis using one_option.letters_joined [of q cs c x w rest]
    by (intro exI [of _ "set_str (so_value x) w \<circ> switched q cs"]) simp
next
  fix cs c w ws x assume "ls = cs @ [c]" "rest = w # ws" "switches q cs" "short_str q c = Some x" "k = 1"
    "m' = set_str (so_value x) w (switched q cs m)"
  then show ?thesis using one_option.letters_apart [of q cs c x w ws] n
    by (intro exI [of _ "set_str (so_value x) w \<circ> switched q cs"]) (simp del: str_def)
qed

section \<open>The line\<close>

lemma parse_long:
  assumes "name \<noteq> []" "name \<noteq> str ''help''"
  shows "parse_args q (([45, 45] @ name) # after) m =
     (case long_opt q name after m of
        Inl e \<Rightarrow> Inl e | Inr (used, m1) \<Rightarrow> parse_args q (drop used after) m1)"
  using assms by (subst parse_args.simps) (simp add: has_prefix_def)

lemma parse_short:
  assumes "ls \<noteq> []" "hd ls \<noteq> 45" "ls \<noteq> str ''h''"
  shows "parse_args q ((45 # ls) # after) m =
     (case short_opt q ls after m of
        Inl e \<Rightarrow> Inl e | Inr (used, m1) \<Rightarrow> parse_args q (drop used after) m1)"
  using assms by (cases ls) (auto simp: parse_args.simps [of q "_ # _"] has_prefix_def)

lemma named_help_no: "str ''no-'' @ p \<noteq> str ''help''" "p @ 61 # w \<noteq> str ''help''"
  by (auto simp: append_eq_Cons_conv)

lemma assign_plain:
  "table_ok q \<Longrightarrow> named q p = Some (Inl x) \<Longrightarrow> assign_long q name p v m = Inr (set_int (bo_value x) v m)"
  "table_ok q \<Longrightarrow> named q p = Some (Inl x) \<Longrightarrow>
     assign_long q name (str ''no-'' @ p) v m = Inr (set_int (bo_value x) (1 - v) m)"
  using assign_cases by blast+

lemma no_resolved: "table_ok q \<Longrightarrow> snd (resolve_opt q (str ''no-'' @ p)) = None"
  by (simp add: snd_resolve named_no del: str_def)

lemma option_parse:
  assumes "one_option q args after f" and q: "table_ok q"
  shows "parse_args q args m = parse_args q after (f m)"
  using assms(1)
proof cases
  case (on p x)
  then show ?thesis using q by (simp add: parse_long long_plain snd_resolve assign_plain del: append_Cons str_def)
next
  case (off p x)
  have n: "61 \<notin> set (str ''no-'' @ p)" "str ''no-'' @ p \<noteq> []" using off by auto
  show ?thesis using off q assign_plain(2) [OF q off(3), of "str ''no-'' @ p" 1 m]
    by (simp add: parse_long [OF n(2) named_help_no(1)] long_plain [OF n(1)] no_resolved del: append_Cons str_def)
next
  case (word p x w v)
  then show ?thesis using q parse_long [OF _ named_help_no(2), of p w q after m]
    by (simp add: long_equals snd_resolve assign_plain del: str_def)
next
  case (unword p x w v)
  have n: "61 \<notin> set (str ''no-'' @ p)" using unword by auto
  show ?thesis using unword q parse_long [OF _ named_help_no(2), of "str ''no-'' @ p" w q after m]
      assign_plain(2) [OF q unword(3), of "(str ''no-'' @ p) @ 61 # w" v m]
    by (simp add: long_equals [OF n, simplified append_assoc] no_resolved del: str_def)
next
  case (joined p x w)
  then show ?thesis using q parse_long [OF _ named_help_no(2), of p w q after m]
    by (simp add: long_equals snd_resolve del: str_def)
next
  case (apart p x w)
  then show ?thesis using q by (simp add: parse_long long_plain snd_resolve del: append_Cons str_def)
next
  case (letters cs)
  then show ?thesis using short_switches [of q cs "[]" after m] by (simp add: parse_short del: str_def)
next
  case (letters_joined cs c x w)
  moreover have "hd (cs @ c # w) \<noteq> 45" "cs @ c # w \<noteq> str ''h''" using letters_joined by (cases cs; auto)+
  ultimately show ?thesis
    using parse_short [of "cs @ c # w" q after m] short_switches [of q cs "c # w" after m] by (simp del: str_def)
next
  case (letters_apart cs c x w)
  then show ?thesis
    using parse_short [of "cs @ [c]" q "w # after" m] short_switches [of q cs "[c]" "w # after" m] by (simp del: str_def)
qed

lemma line_parse:
  assumes "command_line q args names f" and "table_ok q"
  shows "parse_args q args m = Inr (names, f m)"
  using assms(1)
proof (induction arbitrary: m)
  case ended
  then show ?case by (simp add: parse_args.simps)
next
  case (dashes names)
  then show ?case by (simp add: parse_args.simps)
next
  case (operands arg names)
  then show ?case by (cases arg) (auto simp: parse_args.simps operand_def has_prefix_def)
next
  case (option args after f names g)
  then show ?case using option_parse [OF option.hyps(1) assms(2)] by simp
qed

lemma parse_line:
  assumes q: "table_ok q"
  shows "parse_args q args m = Inr (names, m') \<Longrightarrow> \<exists>f. command_line q args names f \<and> m' = f m"
proof (induction "length args" arbitrary: args m rule: less_induct)
  case less
  note r = less.prems
  have step: "\<exists>f. command_line q args names f \<and> m' = f m"
    if "one_option q args after f" "length after < length args" for after f
  proof -
    have "parse_args q after (f m) = Inr (names, m')" using option_parse [OF that(1) q] r by metis
    with less.hyps [OF that(2)] obtain g where "command_line q after names g" "m' = g (f m)" by blast
    then show ?thesis using command_line.option [OF that(1)] by (intro exI [of _ "g \<circ> f"]) simp
  qed
  show ?case
  proof (cases args)
    case Nil
    then show ?thesis using r command_line.ended [of q] by (intro exI [of _ id]) (simp add: parse_args.simps)
  next
    case (Cons arg after)
    consider (dashes) "arg = str ''--''" | (asked) "arg = str ''-h'' \<or> arg = str ''--help''"
      | (long) name where "arg = [45, 45] @ name" "name \<noteq> []" "name \<noteq> str ''help''"
      | (short) ls where "arg = 45 # ls" "ls \<noteq> []" "hd ls \<noteq> 45" "ls \<noteq> str ''h''"
      | (operand) "operand arg"
    proof (cases "operand arg")
      case False
      then obtain ls where ls: "arg = 45 # ls" "ls \<noteq> []" by (cases arg) (auto simp: operand_def)
      show ?thesis
      proof (cases "hd ls = 45")
        case True
        then obtain name where "arg = [45, 45] @ name" using ls by (cases ls) auto
        then show ?thesis using that(1-3) by (cases "name = [] \<or> name = str ''help''") (auto simp del: str_def, auto)
      next
        case False
        then show ?thesis using that(2,4) ls by (cases "ls = str ''h''") (auto simp del: str_def, auto)
      qed
    qed (use that in blast)
    then show ?thesis
    proof cases
      case dashes
      then show ?thesis using r Cons command_line.dashes [of q after] by (auto simp: parse_args.simps)
    next
      case asked
      then show ?thesis using r Cons by (auto simp: parse_args.simps)
    next
      case long
      then obtain k m1 where k: "long_opt q name after m = Inr (k, m1)"
        using r Cons parse_long [OF long(2,3), of q after m] by (auto split: sum.splits simp del: str_def append_Cons)
      from long_option [OF q k long(2,3)] obtain f where "one_option q args (drop k after) f"
        using Cons long(1) by blast
      then show ?thesis by (rule step) (simp add: Cons)
    next
      case short
      then obtain k m1 where k: "short_opt q ls after m = Inr (k, m1)"
        using r Cons parse_short [OF short(2,3,4), of q after m] by (auto split: sum.splits simp del: str_def append_Cons)
      from short_option [OF k short(2,3,4)] obtain f where "one_option q args (drop k after) f"
        using Cons short(1) by blast
      then show ?thesis by (rule step) (simp add: Cons)
    next
      case operand
      then show ?thesis using r Cons command_line.operands [OF operand, of q after] line_parse [OF _ q] by fastforce
    qed
  qed
qed

text \<open>
  C27: Parse accepts exactly the command lines of the declarative grammar, and does to the variables what
  the grammar says: abbreviations that fit one option of both tables, negations, values joined and apart,
  bundles of letters, and the two ways the operands begin.
\<close>

theorem parse_exact:
  assumes "table_ok q"
  shows "parse_args q args m = Inr (names, m') \<longleftrightarrow> (\<exists>f. command_line q args names f \<and> m' = f m)"
  using parse_line [OF assms] line_parse [OF _ assms] by blast

lemma program_table_ok: "table_ok program_set"
  by (simp add: table_ok_def all_opts_def program_set_def fsck_table_def bool_option_def has_prefix_def)

text \<open>
  The program's own table, and a line with an abbreviation, a negation, a bundle with a value and two operands.
\<close>

theorem parse_exact_witness:
  "table_ok program_set \<and>
   (\<exists>f. command_line program_set [str ''--unr'', str ''--no-dang'', str ''-nvC'', str ''/r'', str ''--full=off'', str ''HEAD'', str ''--'']
      [str ''HEAD'', str ''--''] f \<and>
      flag_on (f start_cells) 1 \<and> \<not> flag_on (f start_cells) 2 \<and> flag_on (f start_cells) 14 \<and> flag_on (f start_cells) 0 \<and>
      oc_strs (f start_cells) 0 = str ''/r'' \<and> \<not> flag_on (f start_cells) 7)"
proof -
  let ?m = "start_cells\<lparr>oc_ints := (oc_ints start_cells)(1 := 1, 2 := 0, 14 := 1, 0 := 1, 7 := 0), oc_strs := (oc_strs start_cells)(0 := str ''/r'')\<rparr>"
  have "parse_args program_set [str ''--unr'', str ''--no-dang'', str ''-nvC'', str ''/r'', str ''--full=off'', str ''HEAD'', str ''--'']
     start_cells = Inr ([str ''HEAD'', str ''--''], ?m)"
    by (simp add: parse_args.simps has_prefix_def long_opt_def resolve_opt_def program_set_def fsck_table_def bool_option_def
        long_bool_def assign_long_def cut_prefix_def find_opt_def set_int_def set_str_def short_str_def word_value_def
        true_words_def false_words_def)
  then obtain f where f: "command_line program_set [str ''--unr'', str ''--no-dang'', str ''-nvC'', str ''/r'', str ''--full=off'', str ''HEAD'', str ''--'']
      [str ''HEAD'', str ''--''] f" "?m = f start_cells"
    using parse_exact [OF program_table_ok] by blast
  show ?thesis using program_table_ok by (intro conjI exI [of _ f]) (rule f(1) | simp add: flag_on_def f(2) [symmetric])+
qed

end
