(* ===== verification/BitView.thy ===== *)
theory BitView
  imports Inflate
begin

text \<open>
  The register of \<open>Inflate\<close> against the bits of the stream in order. \<open>holds_bits b bs\<close> says that \<open>bs\<close> are the bits a
  reader still has: the register holds no bit past its count, and reading never fills it past 23 bits.
\<close>

definition byte_bits :: "byte \<Rightarrow> bool list" where
  "byte_bits c = map (bit c) [0..<8]"

definition stream_bits :: "bytes \<Rightarrow> bool list" where
  "stream_bits s = concat (map byte_bits s)"

definition holds_bits :: "zbits \<Rightarrow> bool list \<Rightarrow> bool" where
  "holds_bits b bs \<longleftrightarrow> bs = map (bit (zb_hold b)) [0..<zb_n b] @ stream_bits (drop (zb_pos b) (zb_data b)) \<and>
     zb_n b \<le> 23 \<and> (\<forall>k \<ge> zb_n b. \<not> bit (zb_hold b) k) \<and> \<not> zb_short b"

text \<open>A number written with its lowest bit first.\<close>

definition lsb_value :: "bool list \<Rightarrow> nat" where
  "lsb_value bs = horner_sum of_bool 2 bs"

lemma byte_bits_length [simp]: "length (byte_bits c) = 8"
  by (simp add: byte_bits_def)

lemma stream_bits_Nil [simp]: "stream_bits [] = []"
  by (simp add: stream_bits_def)

lemma stream_bits_Cons: "stream_bits (c # s) = byte_bits c @ stream_bits s"
  by (simp add: stream_bits_def)

lemma stream_bits_append: "stream_bits (s @ t) = stream_bits s @ stream_bits t"
  by (simp add: stream_bits_def)

lemma stream_bits_length [simp]: "length (stream_bits s) = 8 * length s"
  by (induction s) (auto simp: stream_bits_Cons)

lemma reads_length: "holds_bits b bs \<Longrightarrow> length bs = zb_n b + 8 * (length (zb_data b) - zb_pos b)"
  by (simp add: holds_bits_def)

lemma bit_push_ucast: "n \<le> 23 \<Longrightarrow> bit (push_bit n (ucast (c :: byte)) :: 64 word) k \<longleftrightarrow> n \<le> k \<and> k < n + 8 \<and> bit c (k - n)"
  by (auto simp: bit_push_bit_iff bit_ucast_iff dest: bit_imp_le_length)

lemma reads_fill:
  assumes r: "holds_bits b bs" and n: "zb_n b \<le> 15" and p: "zb_pos b < length (zb_data b)"
  shows "holds_bits (b\<lparr>zb_hold := zb_hold b OR push_bit (zb_n b) (ucast (zb_data b ! zb_pos b)),
                  zb_pos := zb_pos b + 1, zb_n := zb_n b + 8\<rparr>) bs"
proof -
  let ?c = "zb_data b ! zb_pos b" and ?h = "zb_hold b OR push_bit (zb_n b) (ucast (zb_data b ! zb_pos b)) :: 64 word"
  have z: "\<not> bit (zb_hold b) k" if "zb_n b \<le> k" for k using r that by (simp add: holds_bits_def)
  have h: "bit ?h k \<longleftrightarrow> (if k < zb_n b then bit (zb_hold b) k else k < zb_n b + 8 \<and> bit ?c (k - zb_n b))" for k
    using z n by (auto simp: bit_or_iff bit_push_ucast)
  have low: "map (bit ?h) [0..<zb_n b] = map (bit (zb_hold b)) [0..<zb_n b]"
    by (rule map_cong [OF refl]) (simp add: h)
  have high: "map (bit ?h) [zb_n b..<zb_n b + 8] = byte_bits ?c"
    by (rule nth_equalityI) (auto simp: h byte_bits_def simp del: upt_Suc)
  have "map (bit ?h) [0..<zb_n b + 8] = map (bit (zb_hold b)) [0..<zb_n b] @ byte_bits ?c"
    using low high upt_add_eq_append [of 0 "zb_n b" 8] by (simp del: upt_Suc)
  moreover have "stream_bits (drop (zb_pos b) (zb_data b)) = byte_bits ?c @ stream_bits (drop (Suc (zb_pos b)) (zb_data b))"
    using p by (simp add: Cons_nth_drop_Suc [symmetric] stream_bits_Cons)
  ultimately show ?thesis using r n by (simp add: holds_bits_def h)
qed

lemma need_reads:
  assumes "holds_bits b bs" and "n \<le> 16"
  shows "if n \<le> length bs then \<exists>b1. need n b = (True, b1) \<and> holds_bits b1 bs \<and> n \<le> zb_n b1
     else \<exists>b1. need n b = (False, b1) \<and> zb_short b1"
  using assms
proof (induction n b rule: need.induct)
  case (1 n b)
  note len = reads_length [OF 1(2)]
  consider "n \<le> zb_n b" | "zb_n b < n" "length (zb_data b) \<le> zb_pos b" | "zb_n b < n" "zb_pos b < length (zb_data b)" by linarith
  then show ?case
  proof cases
    case 1
    then show ?thesis using \<open>holds_bits b bs\<close> len by (simp add: need.simps)
  next
    case 2
    then show ?thesis using len by (simp add: need.simps)
  next
    case 3
    then have "\<not> n \<le> zb_n b" "\<not> length (zb_data b) \<le> zb_pos b" "zb_n b \<le> 15" using \<open>n \<le> 16\<close> by auto
    note IH = 1(1) [OF this(1,2) reads_fill [OF 1(2) this(3) 3(2)] 1(3)]
    have "need n b = need n (b\<lparr>zb_hold := zb_hold b OR push_bit (zb_n b) (ucast (zb_data b ! zb_pos b)),
        zb_pos := zb_pos b + 1, zb_n := zb_n b + 8\<rparr>)"
      using 3 by (subst need.simps) simp
    with IH show ?thesis by (simp only:)
  qed
qed

lemma reads_drop:
  assumes r: "holds_bits b bs" and n: "n \<le> zb_n b"
  shows "holds_bits (b\<lparr>zb_hold := drop_bit n (zb_hold b), zb_n := zb_n b - n\<rparr>) (drop n bs)"
proof -
  have "map (bit (drop_bit n (zb_hold b))) [0..<zb_n b - n] = drop n (map (bit (zb_hold b)) [0..<zb_n b])"
    by (rule nth_equalityI) (auto simp: bit_drop_bit_eq)
  then show ?thesis using r n by (auto simp: holds_bits_def bit_drop_bit_eq)
qed

lemma reads_low:
  assumes r: "holds_bits b bs" and n: "n \<le> zb_n b" and m: "n \<le> 16"
  shows "unat (ucast (zb_hold b AND (2 ^ n - 1)) :: 32 word) = lsb_value (take n bs)"
proof -
  have "zb_hold b AND (2 ^ n - 1) = take_bit n (zb_hold b)" by (simp add: take_bit_eq_mask mask_eq_exp_minus_1)
  moreover have "take n bs = map (bit (zb_hold b)) [0..<n]" using r n by (simp add: holds_bits_def take_map)
  moreover have "unat (ucast (take_bit n (zb_hold b)) :: 32 word) = take_bit n (unat (zb_hold b))"
    using m by (simp add: unsigned_ucast_eq unsigned_take_bit_eq min_def)
  moreover have "bit (zb_hold b) = bit (unat (zb_hold b))"
    by (rule ext) (auto simp: bit_unsigned_iff dest: bit_imp_le_length)
  ultimately show ?thesis by (simp add: lsb_value_def horner_sum_bit_eq_take_bit)
qed

lemma take_reads:
  assumes r: "holds_bits b bs" and m: "n \<le> 16"
  shows "if n \<le> length bs then \<exists>b1. take_bits n b = (Some (lsb_value (take n bs)), b1) \<and> holds_bits b1 (drop n bs)
     else \<exists>b1. take_bits n b = (None, b1) \<and> zb_short b1"
proof (cases "n \<le> length bs")
  case True
  then obtain b1 where b: "need n b = (True, b1)" "holds_bits b1 bs" "n \<le> zb_n b1" using need_reads [OF r m] by auto
  then show ?thesis using True reads_drop [OF b(2,3)] reads_low [OF b(2,3) m] by (simp add: take_bits_def)
next
  case False
  then show ?thesis using need_reads [OF r m] by (auto simp: take_bits_def)
qed

lemma align_reads:
  assumes r: "holds_bits b bs"
  shows "holds_bits (align b) (drop (length bs mod 8) bs)"
proof -
  have "length bs mod 8 = zb_n b mod 8" using reads_length [OF r] by simp
  then show ?thesis using reads_drop [OF r, of "zb_n b mod 8"] by (simp add: align_def)
qed

end
