(* ===== verification/Canonical.thy ===== *)
theory Canonical
  imports BitView
begin

text \<open>
  What the alphabets of \<open>Inflate\<close> are: the canonical prefix code of a list of code lengths, as RFC 1951 defines
  it, accepted exactly when Kraft's sum allows it, and decoded exactly.
\<close>

section \<open>The canonical code\<close>

text \<open>How many symbols have the length \<open>l\<close>, the first code of that length, the rank of a symbol among
  those of its length, and its code read as a number, the first bit the highest.\<close>

definition with_length :: "nat list \<Rightarrow> nat \<Rightarrow> nat" where
  "with_length lens l = length (filter (\<lambda>x. x = l) lens)"

fun first_code :: "nat list \<Rightarrow> nat \<Rightarrow> nat" where
  "first_code lens 0 = 0"
| "first_code lens (Suc l) = 2 * (first_code lens l + (if l = 0 then 0 else with_length lens l))"

definition rank :: "nat list \<Rightarrow> nat \<Rightarrow> nat" where
  "rank lens s = with_length (take s lens) (lens ! s)"

definition code_of :: "nat list \<Rightarrow> nat \<Rightarrow> nat" where
  "code_of lens s = first_code lens (lens ! s) + rank lens s"

definition msb_value :: "bool list \<Rightarrow> nat" where
  "msb_value bs = foldl (\<lambda>v d. 2 * v + of_bool d) 0 bs"

definition codes_for :: "nat list \<Rightarrow> bool list \<Rightarrow> nat \<Rightarrow> bool" where
  "codes_for lens bs s \<longleftrightarrow> s < length lens \<and> lens ! s \<noteq> 0 \<and> lens ! s \<le> length bs \<and>
     msb_value (take (lens ! s) bs) = code_of lens s"

text \<open>Kraft's sum in units of the longest code, and the lists that make an alphabet.\<close>

definition kraft_sum :: "nat list \<Rightarrow> nat" where
  "kraft_sum lens = sum_list (map (\<lambda>l. 2 ^ (max_code_bits - l)) (filter (\<lambda>l. l \<noteq> 0) lens))"

definition legal_lengths :: "nat list \<Rightarrow> bool \<Rightarrow> bool" where
  "legal_lengths lens strict \<longleftrightarrow> (\<forall>l \<in> set lens. l \<le> max_code_bits) \<and>
     ((\<forall>l \<in> set lens. l = 0) \<or> kraft_sum lens = 2 ^ max_code_bits \<or>
      kraft_sum lens < 2 ^ max_code_bits \<and> \<not> strict \<and> (\<forall>l \<in> set lens. l \<le> 1))"

section \<open>The counts\<close>

lemma count_lengths_spec:
  assumes "\<forall>l \<in> set lens. l \<le> max_code_bits"
  shows "length (count_lengths lens) = max_code_bits + 1 \<and> (\<forall>l \<le> max_code_bits. count_lengths lens ! l = with_length lens l)"
proof -
  have "length (fold (\<lambda>l cs. cs[l := cs ! l + 1]) xs cs) = length cs \<and>
      (\<forall>l < length cs. fold (\<lambda>l cs. cs[l := cs ! l + 1]) xs cs ! l = cs ! l + length (filter (\<lambda>x. x = l) xs))"
    if "\<forall>x \<in> set xs. x < length cs" for xs and cs :: "nat list"
    using that
  proof (induction xs arbitrary: cs)
    case (Cons x xs)
    then have "\<forall>y \<in> set xs. y < length (cs[x := cs ! x + 1])" by simp
    from Cons.IH [OF this] show ?case using Cons.prems by (auto simp: nth_list_update)
  qed simp
  from this [of lens "replicate (max_code_bits + 1) 0"] assms show ?thesis
    by (simp add: count_lengths_def with_length_def less_Suc_eq_le del: replicate_Suc)
qed

lemma longest_zero:
  assumes "\<forall>l \<in> set lens. l \<le> max_code_bits"
  shows "longest_code (count_lengths lens) = 0 \<longleftrightarrow> (\<forall>l \<in> set lens. l = 0)"
    and "longest_code (count_lengths lens) = 1 \<longleftrightarrow> (\<forall>l \<in> set lens. l \<le> 1) \<and> (\<exists>l \<in> set lens. l \<noteq> 0)"
proof -
  let ?P = "\<lambda>l. 0 < count_lengths lens ! l"
  have P: "?P l \<longleftrightarrow> l \<in> set lens" if "l \<le> max_code_bits" for l
    using count_lengths_spec [OF assms] that by (auto simp: with_length_def filter_empty_conv)
  define xs where "xs = filter ?P (rev [1..<max_code_bits + 1])"
  have mem: "l \<in> set xs \<longleftrightarrow> l \<in> set lens \<and> l \<noteq> 0" for l
    using P [of l] assms by (auto simp: xs_def simp del: upt_Suc)
  have "sorted_wrt (>) (rev [1..<max_code_bits + 1])" by (simp add: sorted_wrt_rev del: upt_Suc)
  then have srt: "sorted_wrt (>) xs" by (simp add: xs_def sorted_wrt_filter)
  have lc: "longest_code (count_lengths lens) = (case xs of [] \<Rightarrow> 0 | l # _ \<Rightarrow> l)" by (simp add: longest_code_def xs_def)
  have "longest_code (count_lengths lens) = 0 \<and> (\<forall>l \<in> set lens. l = 0) \<or>
    longest_code (count_lengths lens) \<in> set lens \<and> longest_code (count_lengths lens) \<noteq> 0 \<and>
    (\<forall>l \<in> set lens. l \<le> longest_code (count_lengths lens))"
  proof (cases xs)
    case Nil
    then have "l \<notin> set xs" for l by simp
    then show ?thesis using mem lc Nil by auto
  next
    case (Cons x ys)
    have "l \<le> x" if "l \<in> set lens" for l
      using mem [of l] that srt Cons by (cases "l = 0") auto
    then show ?thesis using mem [of x] lc Cons by simp
  qed
  note longest = this
  show "longest_code (count_lengths lens) = 0 \<longleftrightarrow> (\<forall>l \<in> set lens. l = 0)"
    using longest by auto
  show "longest_code (count_lengths lens) = 1 \<longleftrightarrow> (\<forall>l \<in> set lens. l \<le> 1) \<and> (\<exists>l \<in> set lens. l \<noteq> 0)"
    using longest by (metis One_nat_def le_antisym le_numeral_extra(3) less_one linorder_not_less not_gr_zero)
qed

lemma kraft_spec:
  assumes "0 \<le> left"
  shows "kraft counts ls left = (let v = 2 ^ length ls * left - (\<Sum>k < length ls. int (counts ! (ls ! k)) * 2 ^ (length ls - Suc k)) in
     if v < 0 then None else Some v)"
  using assms
proof (induction counts ls left rule: kraft.induct)
  case (1 counts left)
  then show ?case by simp
next
  case (2 counts l ls left)
  let ?n = "length ls" and ?s = "\<Sum>k < length ls. int (counts ! (ls ! k)) * 2 ^ (length ls - Suc k)"
  have sum: "(\<Sum>k < length (l # ls). int (counts ! ((l # ls) ! k)) * 2 ^ (length (l # ls) - Suc k)) = int (counts ! l) * 2 ^ ?n + ?s"
    by (simp add: sum.lessThan_Suc_shift del: sum.lessThan_Suc)
  have s0: "0 \<le> ?s" by (intro sum_nonneg) simp
  show ?case
  proof (cases "2 * left - int (counts ! l) < 0")
    case True
    then have "2 ^ ?n * (2 * left) < 2 ^ ?n * int (counts ! l)" by (intro mult_strict_left_mono) auto
    then have "2 ^ length (l # ls) * left - (int (counts ! l) * 2 ^ ?n + ?s) < 0"
      (is "?x - (?y + _) < 0")
    proof -
      have "?x = 2 ^ ?n * (2 * left)" "?y = 2 ^ ?n * int (counts ! l)" by simp_all
      then have "?x < ?y" using \<open>2 ^ ?n * (2 * left) < _\<close> by (simp only:)
      then show ?thesis using s0 by linarith
    qed
    then show ?thesis using True unfolding sum by (simp add: Let_def)
  next
    case False
    have "2 ^ length (l # ls) * left - (int (counts ! l) * 2 ^ ?n + ?s) = 2 ^ ?n * (2 * left - int (counts ! l)) - ?s"
      by (simp add: algebra_simps)
    then show ?thesis using False 2 unfolding sum by (simp add: Let_def)
  qed
qed

section \<open>The symbols in order\<close>

definition group_start :: "nat list \<Rightarrow> nat \<Rightarrow> nat" where
  "group_start lens l = sum (with_length lens) {1..<l}"

definition place_of :: "nat list \<Rightarrow> nat \<Rightarrow> nat" where
  "place_of lens s = group_start lens (lens ! s) + rank lens s"

lemma group_start_Suc: "1 \<le> l \<Longrightarrow> group_start lens (Suc l) = group_start lens l + with_length lens l"
  by (simp add: group_start_def)

lemma group_start_mono: "l \<le> m \<Longrightarrow> group_start lens l \<le> group_start lens m"
  unfolding group_start_def by (rule sum_mono2) auto

lemma with_length_take_le: "with_length (take m lens) l \<le> with_length lens l"
proof -
  have "with_length lens l = with_length (take m lens) l + with_length (drop m lens) l"
    unfolding with_length_def by (metis append_take_drop_id filter_append length_append)
  then show ?thesis by simp
qed

lemma with_length_take_Suc:
  "s < length lens \<Longrightarrow> with_length (take (Suc s) lens) l = with_length (take s lens) l + (if lens ! s = l then 1 else 0)"
  by (simp add: with_length_def take_Suc_conv_app_nth)

lemma rank_less:
  assumes "s < length lens"
  shows "rank lens s < with_length lens (lens ! s)"
proof -
  have "rank lens s < with_length (take (Suc s) lens) (lens ! s)" using assms by (simp add: rank_def with_length_take_Suc)
  also have "\<dots> \<le> with_length lens (lens ! s)" by (rule with_length_take_le)
  finally show ?thesis .
qed

lemma rank_mono:
  assumes "s < t" "t < length lens" "lens ! s = lens ! t"
  shows "rank lens s < rank lens t"
proof -
  have "rank lens s < with_length (take (Suc s) lens) (lens ! s)" using assms by (simp add: rank_def with_length_take_Suc)
  also have "\<dots> \<le> with_length (take t lens) (lens ! s)"
    using with_length_take_le [of "Suc s" "take t lens" "lens ! s"] assms(1) by (simp add: min_def)
  finally show ?thesis using assms(3) by (simp add: rank_def)
qed

lemma place_less:
  assumes "s < length lens" "lens ! s \<noteq> 0"
  shows "place_of lens s < group_start lens (Suc (lens ! s))"
  using rank_less [OF assms(1)] assms(2) by (simp add: place_of_def group_start_Suc)

lemma place_inj:
  assumes s: "s < length lens" "lens ! s \<noteq> 0" and t: "t < length lens" "lens ! t \<noteq> 0" and eq: "place_of lens s = place_of lens t"
  shows "s = t"
proof -
  have apart: "place_of lens x < place_of lens y" if "x < length lens" "lens ! x \<noteq> 0" "lens ! x < lens ! y" for x y
  proof -
    have "place_of lens x < group_start lens (Suc (lens ! x))" by (rule place_less [OF that(1,2)])
    also have "\<dots> \<le> group_start lens (lens ! y)" using that by (intro group_start_mono) simp
    finally show ?thesis by (simp add: place_of_def)
  qed
  have "lens ! s = lens ! t" using apart [of s t] apart [of t s] s t eq by linarith
  then show ?thesis using rank_mono [of s t lens] rank_mono [of t s lens] s t eq
    by (cases s t rule: linorder_cases) (auto simp: place_of_def)
qed

lemma code_offsets_spec:
  assumes "\<forall>l \<le> max_code_bits. counts ! l = with_length lens l"
  shows "length (code_offsets counts) = max_code_bits + 2 \<and>
     (\<forall>l. 1 \<le> l \<and> l \<le> max_code_bits + 1 \<longrightarrow> code_offsets counts ! l = group_start lens l)"
proof -
  let ?f = "\<lambda>l offs. offs[l + 1 := offs ! l + counts ! l]"
  have "length (fold ?f [1..<Suc n] (replicate (max_code_bits + 2) 0)) = max_code_bits + 2 \<and>
      (\<forall>l. 1 \<le> l \<and> l \<le> Suc n \<longrightarrow> fold ?f [1..<Suc n] (replicate (max_code_bits + 2) 0) ! l = group_start lens l)"
    if "n \<le> max_code_bits" for n
    using that
  proof (induction n)
    case 0
    have "l = 1" if "1 \<le> l" "l \<le> Suc 0" for l using that by simp
    then show ?case by (auto simp: group_start_def)
  next
    case (Suc n)
    then have "[1..<Suc (Suc n)] = [1..<Suc n] @ [Suc n]" by simp
    moreover obtain offs where f: "fold ?f [1..<Suc n] (replicate (max_code_bits + 2) 0) = offs" by blast
    ultimately have step: "fold ?f [1..<Suc (Suc n)] (replicate (max_code_bits + 2) 0) = ?f (Suc n) offs"
      by (simp del: upt_Suc replicate_Suc)
    have IH: "length offs = max_code_bits + 2" "\<And>l. 1 \<le> l \<Longrightarrow> l \<le> Suc n \<Longrightarrow> offs ! l = group_start lens l"
      using Suc f by auto
    have "?f (Suc n) offs ! l = group_start lens l" if "1 \<le> l" "l \<le> Suc (Suc n)" for l
      using IH that Suc.prems assms group_start_Suc [of "Suc n" lens]
      by (cases "l = Suc (Suc n)") (auto simp: nth_list_update)
    then show ?case unfolding step using IH(1) by simp
  qed
  from this [of max_code_bits] show ?thesis by (simp add: code_offsets_def del: upt_Suc replicate_Suc)
qed

lemma placed_symbols:
  fixes lens :: "nat list" and N :: nat and offs :: "nat list"
  assumes fit: "\<forall>l \<in> set lens. l \<le> max_code_bits" and N: "N = group_start lens (max_code_bits + 1)"
    and offs: "length offs = max_code_bits + 2" "\<And>l. 1 \<le> l \<Longrightarrow> l \<le> max_code_bits + 1 \<Longrightarrow> offs ! l = group_start lens l"
    and m: "m \<le> length lens"
  defines "st \<equiv> fold place_symbol (zip [0..<m] (take m lens)) (replicate N 0, offs)"
  shows "length (fst st) = N \<and> length (snd st) = max_code_bits + 2 \<and>
     (\<forall>l. 1 \<le> l \<and> l \<le> max_code_bits \<longrightarrow> snd st ! l = group_start lens l + with_length (take m lens) l) \<and>
     (\<forall>s < m. lens ! s \<noteq> 0 \<longrightarrow> fst st ! place_of lens s = s)"
  using m unfolding st_def
proof (induction m)
  case 0
  then show ?case using offs by (simp add: with_length_def)
next
  case (Suc m)
  let ?st = "fold place_symbol (zip [0..<m] (take m lens)) (replicate N 0, offs)"
  have m: "m < length lens" using Suc by simp
  obtain sy os where st: "fold place_symbol (zip [0..<m] (take m lens)) (replicate N 0, offs) = (sy, os)" by fastforce
  note IH = Suc.IH [OF less_imp_le [OF m], unfolded st fst_conv snd_conv]
  have "fold place_symbol (zip [0..<Suc m] (take (Suc m) lens)) (replicate N 0, offs) =
      place_symbol (m, lens ! m) (sy, os)"
    using m st by (simp add: take_Suc_conv_app_nth)
  then have step: "fold place_symbol (zip [0..<Suc m] (take (Suc m) lens)) (replicate N 0, offs) =
      (if lens ! m \<noteq> 0 then (sy[(os ! (lens ! m)) := m], os[lens ! m := os ! (lens ! m) + 1]) else (sy, os))"
    by (simp add: place_symbol_def)
  have lm: "lens ! m \<le> max_code_bits" using fit m by simp
  show ?case
  proof (cases "lens ! m = 0")
    case True
    then show ?thesis using IH m unfolding step by (auto simp: with_length_take_Suc less_Suc_eq)
  next
    case False
    have p: "os ! (lens ! m) = place_of lens m" using IH False lm by (simp add: place_of_def rank_def)
    have "place_of lens m < group_start lens (Suc (lens ! m))" by (rule place_less [OF m False])
    also have "\<dots> \<le> N" unfolding N using lm by (intro group_start_mono) simp
    finally have pN: "place_of lens m < N" .
    have other: "place_of lens s \<noteq> place_of lens m" if "s < m" "lens ! s \<noteq> 0" for s
      using place_inj [of s lens m] that m False by auto
    have sy: "\<forall>s < Suc m. lens ! s \<noteq> 0 \<longrightarrow> sy[place_of lens m := m] ! place_of lens s = s"
    proof (intro allI impI)
      fix s assume "s < Suc m" and nz: "lens ! s \<noteq> 0"
      then show "sy[place_of lens m := m] ! place_of lens s = s"
        using IH pN other [of s] by (cases "s = m") auto
    qed
    have os: "\<forall>l. 1 \<le> l \<and> l \<le> max_code_bits \<longrightarrow>
        os[lens ! m := place_of lens m + 1] ! l = group_start lens l + with_length (take (Suc m) lens) l"
      using IH m lm p by (auto simp: nth_list_update with_length_take_Suc)
    show ?thesis unfolding step p using IH False sy os by simp
  qed
qed

lemma total_placed:
  assumes "\<forall>l \<in> set lens. l \<le> max_code_bits"
  shows "length lens - with_length lens 0 = group_start lens (max_code_bits + 1)"
proof -
  have "length xs = (\<Sum>l \<in> {0..n}. length (filter (\<lambda>x. x = l) xs))" if "\<forall>x \<in> set xs. x \<le> n" for xs and n :: nat
    using that
  proof (induction xs)
    case (Cons x xs)
    have "(\<Sum>l \<in> {0..n}. length (filter (\<lambda>y. y = l) (x # xs))) = (\<Sum>l \<in> {0..n}. (if x = l then 1 else 0) + length (filter (\<lambda>y. y = l) xs))"
      by (intro sum.cong) auto
    then show ?case using Cons by (simp add: sum.distrib)
  qed simp
  from this [OF assms] have "length lens = with_length lens 0 + sum (with_length lens) {1..max_code_bits}"
    by (simp add: with_length_def sum.atLeast_Suc_atMost)
  moreover have "{1..max_code_bits} = {1..<max_code_bits + 1}" by auto
  ultimately show ?thesis by (simp add: group_start_def)
qed

section \<open>What is accepted\<close>

lemma kraft_sum_counts:
  assumes "\<forall>l \<in> set lens. l \<le> max_code_bits"
  shows "kraft_sum lens = (\<Sum>l \<in> {1..max_code_bits}. with_length lens l * 2 ^ (max_code_bits - l))"
  using assms
proof (induction lens)
  case Nil
  then show ?case by (simp add: kraft_sum_def with_length_def)
next
  case (Cons x lens)
  have c: "with_length (x # lens) l = (if x = l then 1 else 0) + with_length lens l" for l by (simp add: with_length_def)
  have x: "(\<Sum>l \<in> {1..max_code_bits}. (if x = l then 1 else 0) * 2 ^ (max_code_bits - l)) = (if x = 0 then 0 else (2 :: nat) ^ (max_code_bits - x))"
    using Cons.prems by (auto simp: if_distrib [of "\<lambda>z. z * _"] sum.delta cong: if_cong)
  have "kraft_sum (x # lens) = (if x = 0 then 0 else 2 ^ (max_code_bits - x)) + kraft_sum lens" by (simp add: kraft_sum_def)
  also have "\<dots> = (\<Sum>l \<in> {1..max_code_bits}. (if x = l then 1 else 0) * 2 ^ (max_code_bits - l) + with_length lens l * 2 ^ (max_code_bits - l))"
    unfolding sum.distrib x using Cons by simp
  finally show ?case by (simp only: c distrib_right)
qed

lemma kraft_lengths:
  assumes fit: "\<forall>l \<in> set lens. l \<le> max_code_bits"
  shows "kraft (count_lengths lens) [1..<max_code_bits + 1] 1 =
     (if 2 ^ max_code_bits < kraft_sum lens then None else Some (2 ^ max_code_bits - int (kraft_sum lens)))"
proof -
  let ?n = max_code_bits
  have "(\<Sum>k < ?n. int (count_lengths lens ! (Suc k)) * 2 ^ (?n - Suc k)) = (\<Sum>k < ?n. int (with_length lens (Suc k) * 2 ^ (?n - Suc k)))"
    using count_lengths_spec [OF fit] by (intro sum.cong) auto
  also have "\<dots> = int (\<Sum>k < ?n. with_length lens (Suc k) * 2 ^ (?n - Suc k))" by simp
  also have "(\<Sum>k < ?n. with_length lens (Suc k) * 2 ^ (?n - Suc k)) = kraft_sum lens"
    unfolding kraft_sum_counts [OF fit] by (simp add: sum.atLeast1_atMost_eq)
  finally have s: "(\<Sum>k < ?n. int (count_lengths lens ! (Suc k)) * 2 ^ (?n - Suc k)) = int (kraft_sum lens)" .
  show ?thesis using s unfolding kraft_spec [of 1, simplified]
    by (auto simp: Let_def simp del: upt_Suc)
qed

lemma build_code_spec:
  "build_code lens strict = None \<longleftrightarrow> \<not> legal_lengths lens strict"
  "build_code lens strict = Some c \<Longrightarrow>
     (hc_empty c \<longleftrightarrow> (\<forall>l \<in> set lens. l = 0)) \<and> (\<forall>l \<le> max_code_bits. hc_counts c ! l = with_length lens l) \<and>
     (\<not> hc_empty c \<longrightarrow> (\<forall>s < length lens. lens ! s \<noteq> 0 \<longrightarrow> hc_symbols c ! place_of lens s = s))"
proof -
  have "(build_code lens strict = None \<longleftrightarrow> \<not> legal_lengths lens strict) \<and>
      (build_code lens strict = Some c \<longrightarrow>
       (hc_empty c \<longleftrightarrow> (\<forall>l \<in> set lens. l = 0)) \<and> (\<forall>l \<le> max_code_bits. hc_counts c ! l = with_length lens l) \<and>
       (\<not> hc_empty c \<longrightarrow> (\<forall>s < length lens. lens ! s \<noteq> 0 \<longrightarrow> hc_symbols c ! place_of lens s = s)))"
  proof (cases "\<forall>l \<in> set lens. l \<le> max_code_bits")
    case False
    then show ?thesis by (auto simp: build_code_def legal_lengths_def list_ex_iff not_le)
  next
    case fit: True
    then have ex: "\<not> list_ex (\<lambda>l. max_code_bits < l) lens" by (auto simp: list_ex_iff)
    note counts = count_lengths_spec [OF fit]
    show ?thesis
    proof (cases "\<forall>l \<in> set lens. l = 0")
      case True
      then show ?thesis using ex counts longest_zero(1) [OF fit]
        by (auto simp: build_code_def Let_def legal_lengths_def)
    next
      case False
      then have lz: "longest_code (count_lengths lens) \<noteq> 0" using longest_zero(1) [OF fit] by simp
      have l1: "longest_code (count_lengths lens) \<noteq> 1 \<longleftrightarrow> \<not> (\<forall>l \<in> set lens. l \<le> 1)"
        using longest_zero(2) [OF fit] False by auto
      let ?sy = "fst (fold place_symbol (zip [0..<length lens] lens)
          (replicate (length lens - count_lengths lens ! 0) 0, code_offsets (count_lengths lens)))"
      have c0: "length lens - count_lengths lens ! 0 = group_start lens (max_code_bits + 1)"
        using counts total_placed [OF fit] by simp
      have off: "length (code_offsets (count_lengths lens)) = max_code_bits + 2"
        "\<And>l. 1 \<le> l \<Longrightarrow> l \<le> max_code_bits + 1 \<Longrightarrow> code_offsets (count_lengths lens) ! l = group_start lens l"
        using code_offsets_spec [of "count_lengths lens" lens] counts by auto
      have sy: "\<forall>s < length lens. lens ! s \<noteq> 0 \<longrightarrow> ?sy ! place_of lens s = s"
        using placed_symbols [OF fit c0 off le_refl] by simp
      show ?thesis using ex lz l1 counts sy False fit
        unfolding build_code_def Let_def kraft_lengths [OF fit] legal_lengths_def
        by (auto split: if_splits)
    qed
  qed
  then show "build_code lens strict = None \<longleftrightarrow> \<not> legal_lengths lens strict"
    and "build_code lens strict = Some c \<Longrightarrow>
     (hc_empty c \<longleftrightarrow> (\<forall>l \<in> set lens. l = 0)) \<and> (\<forall>l \<le> max_code_bits. hc_counts c ! l = with_length lens l) \<and>
     (\<not> hc_empty c \<longrightarrow> (\<forall>s < length lens. lens ! s \<noteq> 0 \<longrightarrow> hc_symbols c ! place_of lens s = s))"
    by blast+
qed

section \<open>What is decoded\<close>

lemma msb_take_Suc: "l < length bs \<Longrightarrow> msb_value (take (Suc l) bs) = 2 * msb_value (take l bs) + of_bool (bs ! l)"
  by (simp add: msb_value_def take_Suc_conv_app_nth)

lemma rank_surj: "r < with_length lens l \<Longrightarrow> \<exists>s < length lens. lens ! s = l \<and> rank lens s = r"
proof (induction lens rule: rev_induct)
  case Nil
  then show ?case by (simp add: with_length_def)
next
  case (snoc x lens)
  have keep: "rank (lens @ [x]) s = rank lens s" if "s < length lens" for s using that by (simp add: rank_def nth_append)
  have new: "rank (lens @ [x]) (length lens) = with_length lens x" by (simp add: rank_def)
  show ?case
  proof (cases "r < with_length lens l")
    case True
    then obtain s where "s < length lens" "lens ! s = l" "rank lens s = r" using snoc.IH by blast
    then show ?thesis using keep by (intro exI [of _ s]) (simp add: nth_append)
  next
    case False
    then have "x = l" "r = with_length lens l" using snoc.prems by (auto simp: with_length_def split: if_splits)
    then show ?thesis using new by (intro exI [of _ "length lens"]) simp
  qed
qed

text \<open>Once a prefix is below the codes of the next length, no longer code begins with it.\<close>

lemma first_code_above:
  assumes "1 \<le> l" "l < m"
  shows "2 ^ (m - l) * (first_code lens l + with_length lens l) \<le> first_code lens m"
  using assms(2)
proof (induction m)
  case (Suc m)
  show ?case
  proof (cases "l = m")
    case True
    then show ?thesis using assms(1) by simp
  next
    case False
    then have "2 ^ (m - l) * (first_code lens l + with_length lens l) \<le> first_code lens m" "l \<le> m" using Suc by auto
    then show ?thesis by (simp add: Suc_diff_le)
  qed
qed simp

lemma msb_below: "l \<le> m \<Longrightarrow> m \<le> length bs \<Longrightarrow> msb_value (take m bs) < 2 ^ (m - l) * (msb_value (take l bs) + 1)"
proof (induction m)
  case (Suc m)
  show ?case
  proof (cases "l = Suc m")
    case False
    then have "msb_value (take m bs) + 1 \<le> 2 ^ (m - l) * (msb_value (take l bs) + 1)" "l \<le> m" using Suc by auto
    then show ?thesis using Suc.prems msb_take_Suc [of m bs] by (simp add: Suc_diff_le)
  qed simp
qed simp

lemma codes_unique:
  assumes s: "codes_for lens bs s" and t: "codes_for lens bs t"
  shows "s = t"
proof -
  have no: False if x: "codes_for lens bs x" and y: "codes_for lens bs y" and lt: "lens ! x < lens ! y" for x y
  proof -
    let ?l = "lens ! x" and ?m = "lens ! y"
    have "msb_value (take ?l bs) + 1 \<le> first_code lens ?l + with_length lens ?l"
      using x rank_less [of x lens] by (simp add: codes_for_def code_of_def)
    then have "2 ^ (?m - ?l) * (msb_value (take ?l bs) + 1) \<le> 2 ^ (?m - ?l) * (first_code lens ?l + with_length lens ?l)"
      by (rule mult_le_mono2)
    also have "\<dots> \<le> first_code lens ?m" using x lt by (intro first_code_above) (auto simp: codes_for_def)
    also have "\<dots> \<le> msb_value (take ?m bs)" using y by (simp add: codes_for_def code_of_def)
    also have "\<dots> < 2 ^ (?m - ?l) * (msb_value (take ?l bs) + 1)" using y lt by (intro msb_below) (auto simp: codes_for_def)
    finally show False by simp
  qed
  have "lens ! s = lens ! t" using no [OF s t] no [OF t s] by (metis nat_neq_iff)
  moreover from this have "rank lens s = rank lens t" using s t by (simp add: codes_for_def code_of_def)
  ultimately show ?thesis using rank_mono [of s t lens] rank_mono [of t s lens] s t
    by (cases s t rule: linorder_cases) (auto simp: codes_for_def)
qed

text \<open>What a read of one symbol must do: \<open>None\<close> is a pattern no symbol has.\<close>

definition symbol_at :: "nat list \<Rightarrow> bool list \<Rightarrow> nat option" where
  "symbol_at lens bs = List.find (codes_for lens bs) [0..<length lens]"

lemma symbol_at_Some: "symbol_at lens bs = Some s \<longleftrightarrow> codes_for lens bs s"
proof
  assume "symbol_at lens bs = Some s"
  then show "codes_for lens bs s" by (auto simp: symbol_at_def find_Some_iff)
next
  assume c: "codes_for lens bs s"
  then have "symbol_at lens bs \<noteq> None" by (auto simp: symbol_at_def find_None_iff codes_for_def)
  then obtain t where "symbol_at lens bs = Some t" by auto
  then show "symbol_at lens bs = Some s" using codes_unique [OF c] by (auto simp: symbol_at_def find_Some_iff)
qed

lemma symbol_at_None: "symbol_at lens bs = None \<longleftrightarrow> (\<forall>s. \<not> codes_for lens bs s)"
  using symbol_at_Some [of lens bs] by (metis not_None_eq)

definition decodes_to :: "nat list \<Rightarrow> bool list \<Rightarrow> decoded \<times> zbits \<Rightarrow> bool" where
  "decodes_to lens bs r \<longleftrightarrow>
     (case symbol_at lens bs of
        Some s \<Rightarrow> fst r = DecodeOK s \<and> holds_bits (snd r) (drop (lens ! s) bs)
      | None \<Rightarrow> if length bs < max_code_bits then fst r = DecodeShort \<and> zb_short (snd r) else fst r = DecodeInvalid)"

declare first_code.simps(2) [simp del]

lemma decode_loop_spec:
  assumes fit: "\<forall>l \<in> set lens. l \<le> max_code_bits"
    and counts: "\<And>l. l \<le> max_code_bits \<Longrightarrow> hc_counts c ! l = with_length lens l"
    and symbols: "\<And>s. s < length lens \<Longrightarrow> lens ! s \<noteq> 0 \<Longrightarrow> hc_symbols c ! place_of lens s = s"
    and "l \<le> max_code_bits" "l \<le> length bs" "holds_bits b (drop l bs)"
    and none: "\<And>s. codes_for lens bs s \<Longrightarrow> l < lens ! s"
    and "first_code lens (Suc l) \<le> 2 * msb_value (take l bs)"
  shows "decodes_to lens bs (decode_loop c [Suc l..<Suc max_code_bits] (int (2 * msb_value (take l bs)))
     (int (first_code lens (Suc l))) (int (group_start lens (Suc l))) b)"
  using assms(4-)
proof (induction "max_code_bits - l" arbitrary: l b)
  case 0
  then have "l = max_code_bits" by simp
  moreover have "symbol_at lens bs = None"
  proof (rule ccontr)
    assume "symbol_at lens bs \<noteq> None"
    then obtain s where s: "codes_for lens bs s" by (auto simp: symbol_at_None)
    then have "lens ! s \<le> max_code_bits" using fit by (simp add: codes_for_def)
    then show False using "0.prems"(4) [OF s] \<open>l = max_code_bits\<close> by simp
  qed
  ultimately show ?case using 0 by (simp add: decodes_to_def)
next
  case (Suc n)
  then have l: "l < max_code_bits" by simp
  then have list: "[Suc l..<Suc max_code_bits] = Suc l # [Suc (Suc l)..<Suc max_code_bits]" by (simp add: upt_conv_Cons del: upt_Suc)
  show ?case
  proof (cases "l < length bs")
    case False
    then have e: "drop l bs = []" "length bs = l" using Suc.prems by auto
    obtain b1 where "take_bits 1 b = (None, b1)" "zb_short b1" using take_reads [OF Suc.prems(3), of 1] e by auto
    moreover have "symbol_at lens bs = None"
      unfolding symbol_at_None using Suc.prems(4) e by (fastforce simp: codes_for_def)
    ultimately show ?thesis using e l unfolding list by (simp add: decodes_to_def del: upt_Suc)
  next
    case True
    then have d: "drop l bs = bs ! l # drop (Suc l) bs" by (simp add: Cons_nth_drop_Suc)
    obtain b1 where t: "take_bits 1 b = (Some (of_bool (bs ! l)), b1)" "holds_bits b1 (drop (Suc l) bs)"
      using take_reads [OF Suc.prems(3), of 1] d by (auto simp: lsb_value_def)
    let ?v = "msb_value (take (Suc l) bs)" and ?f = "first_code lens (Suc l)" and ?n = "with_length lens (Suc l)"
    have v: "?v = 2 * msb_value (take l bs) + of_bool (bs ! l)" by (rule msb_take_Suc [OF True])
    then have fv: "?f \<le> ?v" using Suc.prems(5) by simp
    have cnt: "hc_counts c ! Suc l = ?n" using counts l by simp
    have unfold_step: "decode_loop c (Suc l # ls) (int (2 * msb_value (take l bs))) (int ?f) ix b =
       (if int ?v - int ?f < int ?n then (DecodeOK (hc_symbols c ! nat (ix + int ?v - int ?f)), b1)
        else decode_loop c ls (2 * int ?v) (2 * (int ?f + int ?n)) (ix + int ?n) b1)" for ls ix
      using t(1) v by (simp add: cnt Let_def)
    show ?thesis
    proof (cases "?v < ?f + ?n")
      case True
      then have "?v - ?f < ?n" using fv by linarith
      from rank_surj [OF this] obtain s where s: "s < length lens" "lens ! s = Suc l" "rank lens s = ?v - ?f" by blast
      then have "codes_for lens bs s" using fv \<open>l < length bs\<close> by (simp add: codes_for_def code_of_def)
      then have "symbol_at lens bs = Some s" by (simp add: symbol_at_Some)
      moreover have "nat (int (group_start lens (Suc l)) + int ?v - int ?f) = place_of lens s"
        using s fv by (simp add: place_of_def)
      ultimately show ?thesis using True fv t(2) s symbols [of s] unfolding list unfold_step
        by (simp add: decodes_to_def)
    next
      case False
      have none: "Suc l < lens ! s" if s: "codes_for lens bs s" for s
      proof (rule ccontr)
        assume "\<not> Suc l < lens ! s"
        then have "lens ! s = Suc l" using Suc.prems(4) [OF s] by simp
        then show False using s False rank_less [of s lens] by (simp add: codes_for_def code_of_def)
      qed
      have "decodes_to lens bs (decode_loop c [Suc (Suc l)..<Suc max_code_bits] (int (2 * ?v))
          (int (first_code lens (Suc (Suc l)))) (int (group_start lens (Suc (Suc l)))) b1)"
        using Suc.hyps(2) l \<open>l < length bs\<close> t(2) none False by (intro Suc.hyps(1)) (auto simp: first_code.simps(2) [of lens "Suc l"])
      moreover have "int (first_code lens (Suc (Suc l))) = 2 * (int ?f + int ?n)"
        "int (group_start lens (Suc (Suc l))) = int (group_start lens (Suc l)) + int ?n"
        by (simp_all add: group_start_Suc first_code.simps)
      ultimately show ?thesis using False unfolding list unfold_step by simp
    qed
  qed
qed

lemma decode_spec:
  assumes c: "build_code lens strict = Some c" and r: "holds_bits b bs"
  shows "if \<forall>l \<in> set lens. l = 0 then decode_sym c b = (DecodeInvalid, b) else decodes_to lens bs (decode_sym c b)"
proof (cases "\<forall>l \<in> set lens. l = 0")
  case True
  then show ?thesis using build_code_spec(2) [OF c] by (simp add: decode_sym_def)
next
  case False
  have "legal_lengths lens strict" using build_code_spec(1) [of lens strict] c by simp
  then have fit: "\<forall>l \<in> set lens. l \<le> max_code_bits" by (simp add: legal_lengths_def)
  have "decodes_to lens bs (decode_loop c [Suc 0..<Suc max_code_bits] (int (2 * msb_value (take 0 bs)))
     (int (first_code lens (Suc 0))) (int (group_start lens (Suc 0))) b)"
    using build_code_spec(2) [OF c] False r
    by (intro decode_loop_spec [OF fit]) (auto simp: codes_for_def first_code.simps)
  moreover have "\<not> hc_empty c" using False build_code_spec(2) [OF c] by blast
  ultimately show ?thesis using False
    by (auto simp: decode_sym_def group_start_def first_code.simps msb_value_def del: upt_Suc)
qed

end
