(* ===== verification/InflateSpec.thy ===== *)
theory InflateSpec
  imports Canonical
begin

text \<open>
  An inflate without a register, a window or a table: a function of the bits of the stream and of the whole output.
  \<open>diagnose\<close> names the fault it finds, whatever the stream and whatever the room for output.
\<close>

section \<open>The reference\<close>

text \<open>The bits still to read and the bytes written. A step ends the run with a fault, \<open>NoFault\<close> where the input or
  the room ends, or goes on.\<close>

type_synonym flow = "bool list \<times> bytes"
type_synonym 'a step = "flow \<Rightarrow> fault + 'a \<times> flow"

definition and_then :: "'a step \<Rightarrow> ('a \<Rightarrow> 'b step) \<Rightarrow> 'b step" where
  "and_then m f s = (case m s of Inl e \<Rightarrow> Inl e | Inr (x, s1) \<Rightarrow> f x s1)"

definition give :: "'a \<Rightarrow> 'a step" where
  "give x s = Inr (x, s)"

definition refuse :: "string \<Rightarrow> 'a step" where
  "refuse msg s = Inl (DataFault (str msg))"

definition grab :: "nat \<Rightarrow> nat step" where
  "grab n s = (if n \<le> length (fst s) then Inr (lsb_value (take n (fst s)), drop n (fst s), snd s) else Inl NoFault)"

definition to_byte :: "unit step" where
  "to_byte s = Inr ((), drop (length (fst s) mod 8) (fst s), snd s)"

definition put :: "int \<Rightarrow> byte \<Rightarrow> unit step" where
  "put limit c s = (if limit < 0 \<or> int (length (snd s)) < limit then Inr ((), fst s, snd s @ [c]) else Inl NoFault)"

definition symbol_step :: "nat list \<Rightarrow> string \<Rightarrow> nat step" where
  "symbol_step lens msg s =
     (if \<forall>l \<in> set lens. l = 0 then refuse msg s
      else (case symbol_at lens (fst s) of
          Some k \<Rightarrow> Inr (k, drop (lens ! k) (fst s), snd s)
        | None \<Rightarrow> if length (fst s) < max_code_bits then Inl NoFault else refuse msg s))"

primrec spec_bytes :: "int \<Rightarrow> nat \<Rightarrow> unit step" where
  "spec_bytes limit 0 = give ()"
| "spec_bytes limit (Suc n) =
     (\<lambda>s. if 0 \<le> limit \<and> limit \<le> int (length (snd s)) then Inl NoFault
       else and_then (grab 8) (\<lambda>c. and_then (put limit (word_of_nat c)) (\<lambda>_. spec_bytes limit n)) s)"

definition spec_stored :: "int \<Rightarrow> unit step" where
  "spec_stored limit =
     and_then to_byte (\<lambda>_. and_then (grab 16) (\<lambda>len. and_then (grab 16) (\<lambda>inv.
       if len + inv \<noteq> 65535 then refuse ''invalid stored block lengths'' else spec_bytes limit len)))"

primrec spec_match :: "int \<Rightarrow> nat \<Rightarrow> nat \<Rightarrow> unit step" where
  "spec_match limit dist 0 = give ()"
| "spec_match limit dist (Suc n) =
     (\<lambda>s. and_then (put limit (snd s ! (length (snd s) - dist))) (\<lambda>_. spec_match limit dist n) s)"

definition spec_copy :: "int \<Rightarrow> nat list \<Rightarrow> nat \<Rightarrow> unit step" where
  "spec_copy limit dl k =
     and_then (grab (length_extra ! (k - 257))) (\<lambda>extra.
     and_then (symbol_step dl ''invalid distance code'') (\<lambda>d.
       if 29 < d then refuse ''invalid distance code''
       else and_then (grab (dist_extra ! d)) (\<lambda>more.
         (\<lambda>s. if length (snd s) < dist_base ! d + more then refuse ''invalid distance too far back'' s
           else spec_match limit (dist_base ! d + more) (length_base ! (k - 257) + extra) s))))"

text \<open>No step gives bits back, and a symbol takes one.\<close>

definition shrinks :: "'a step \<Rightarrow> bool" where
  "shrinks m \<longleftrightarrow> (\<forall>s x s1. m s = Inr (x, s1) \<longrightarrow> length (fst s1) \<le> length (fst s))"

named_theorems shrink_rules

lemma shrinks_then [shrink_rules]: "shrinks m \<Longrightarrow> (\<And>x. shrinks (f x)) \<Longrightarrow> shrinks (and_then m f)"
  unfolding shrinks_def and_then_def by (fastforce split: sum.splits)

lemma shrinks_basic [shrink_rules]:
  "shrinks (give x)" "shrinks (refuse msg)" "shrinks (grab n)" "shrinks to_byte" "shrinks (put limit c)" "shrinks (symbol_step lens msg)"
  by (auto simp: shrinks_def give_def refuse_def grab_def to_byte_def put_def symbol_step_def split: if_splits option.splits)

lemma shrinks_if [shrink_rules]: "shrinks m \<Longrightarrow> shrinks n \<Longrightarrow> shrinks (if b then m else n)"
  by simp

lemma shrinks_stop: "shrinks (\<lambda>s. Inl e)"
  by (simp add: shrinks_def)

lemma shrinks_state: "(\<And>t. shrinks (m t)) \<Longrightarrow> shrinks (\<lambda>s. m s s)"
  unfolding shrinks_def by blast

lemma shrinks_cond: "shrinks m \<Longrightarrow> shrinks n \<Longrightarrow> shrinks (\<lambda>s. if P s then m s else n s)"
  unfolding shrinks_def by metis

lemma shrinks_bytes [shrink_rules]: "shrinks (spec_bytes limit n)"
proof (induction n)
  case (Suc n)
  show ?case unfolding spec_bytes.simps
    by (rule shrinks_cond [OF shrinks_stop]) (intro shrink_rules Suc)
qed (simp add: shrink_rules)

lemma shrinks_match [shrink_rules]: "shrinks (spec_match limit dist n)"
proof (induction n)
  case (Suc n)
  show ?case unfolding spec_match.simps
    by (rule shrinks_state) (intro shrink_rules Suc)
qed (simp add: shrink_rules)

lemma shrinks_copy [shrink_rules]: "shrinks (spec_copy limit dl k)"
  unfolding spec_copy_def
  by (intro shrinks_then shrinks_if shrinks_basic shrinks_cond [OF shrinks_basic(2)] shrinks_match)

lemma shrinksD: "shrinks m \<Longrightarrow> m s = Inr (x, s1) \<Longrightarrow> length (fst s1) \<le> length (fst s)"
  unfolding shrinks_def by blast

lemma symbol_step_less: "symbol_step lens msg s = Inr (k, s1) \<Longrightarrow> length (fst s1) < length (fst s)"
  by (auto simp: symbol_step_def refuse_def symbol_at_Some codes_for_def split: if_splits option.splits)

function spec_block :: "int \<Rightarrow> nat list \<Rightarrow> nat list \<Rightarrow> unit step" where
  "spec_block limit ll dl s =
     (case symbol_step ll ''invalid literal/length code'' s of
        Inl e \<Rightarrow> Inl e
      | Inr (k, s1) \<Rightarrow>
          if k < 256 then (case put limit (word_of_nat k) s1 of Inl e \<Rightarrow> Inl e | Inr (_, s2) \<Rightarrow> spec_block limit ll dl s2)
          else if k = 256 then Inr ((), s1)
          else if 285 < k then refuse ''invalid literal/length code'' s1
          else (case spec_copy limit dl k s1 of Inl e \<Rightarrow> Inl e | Inr (_, s2) \<Rightarrow> spec_block limit ll dl s2))"
  by pat_completeness auto
termination
  by (relation "measure (\<lambda>(limit, ll, dl, s). length (fst s))")
    (auto dest!: symbol_step_less shrinksD [OF shrinks_basic(5)] shrinksD [OF shrinks_copy] intro: le_less_trans)

declare spec_block.simps [simp del]

text \<open>The code lengths of a block, appended to those read so far.\<close>

definition spec_repeat :: "nat \<Rightarrow> nat list \<Rightarrow> (nat \<times> nat) step" where
  "spec_repeat k acc =
     (if k = 16 then
        (if acc = [] then refuse ''invalid bit length repeat'' else and_then (grab 2) (\<lambda>n. give (last acc, 3 + n)))
      else if k = 17 then and_then (grab 3) (\<lambda>n. give (0, 3 + n))
      else and_then (grab 7) (\<lambda>n. give (0, 11 + n)))"

function spec_lengths :: "nat list \<Rightarrow> nat \<Rightarrow> nat list \<Rightarrow> nat list step" where
  "spec_lengths cl n acc s =
     (if n \<le> length acc then Inr (acc, s)
      else (case symbol_step cl ''invalid code lengths set'' s of
          Inl e \<Rightarrow> Inl e
        | Inr (k, s1) \<Rightarrow>
            if k < 16 then spec_lengths cl n (acc @ [k]) s1
            else (case spec_repeat k acc s1 of
                Inl e \<Rightarrow> Inl e
              | Inr ((v, r), s2) \<Rightarrow>
                  if n < length acc + r then refuse ''invalid bit length repeat'' s2
                  else spec_lengths cl n (acc @ replicate r v) s2)))"
  by pat_completeness auto
termination
proof (relation "measure (\<lambda>(cl, n, acc, s). length (fst s))", goal_cases)
  case (2 cl n acc s p k s1)
  then show ?case by (auto dest: symbol_step_less)
next
  case (3 cl n acc s p k s1 q vr s2 v r)
  have "shrinks (spec_repeat k acc)" unfolding spec_repeat_def by (intro shrink_rules)
  then have "length (fst s2) \<le> length (fst s1)" using 3 shrinksD by metis
  moreover have "length (fst s1) < length (fst s)" using 3 symbol_step_less by metis
  ultimately show ?case by simp
qed simp

declare spec_lengths.simps [simp del]

primrec spec_code_lens :: "nat list \<Rightarrow> nat list \<Rightarrow> nat list step" where
  "spec_code_lens [] lens = give lens"
| "spec_code_lens (k # ks) lens = and_then (grab 3) (\<lambda>v. spec_code_lens ks (lens[k := v]))"

definition spec_body :: "int \<Rightarrow> nat \<Rightarrow> nat list \<Rightarrow> unit step" where
  "spec_body limit n lens =
     (if lens ! 256 = 0 then refuse ''invalid code -- missing end-of-block''
      else if \<not> legal_lengths (take n lens) False then refuse ''invalid literal/lengths set''
      else if \<not> legal_lengths (drop n lens) False then refuse ''invalid distances set''
      else spec_block limit (take n lens) (drop n lens))"

definition spec_tables :: "int \<Rightarrow> nat \<Rightarrow> nat \<Rightarrow> nat list \<Rightarrow> unit step" where
  "spec_tables limit n d cl =
     (if \<not> legal_lengths cl True then refuse ''invalid code lengths set''
      else if \<forall>l \<in> set cl. l = 0 then spec_body limit n (replicate (n + d) 0)
      else and_then (spec_lengths cl (n + d) []) (spec_body limit n))"

definition spec_dynamic :: "int \<Rightarrow> unit step" where
  "spec_dynamic limit =
     and_then (grab 5) (\<lambda>hlit. and_then (grab 5) (\<lambda>hdist. and_then (grab 4) (\<lambda>hclen.
       if 29 < hlit \<or> 29 < hdist then refuse ''too many length or distance symbols''
       else and_then (spec_code_lens (take (hclen + 4) code_len_order) (replicate 19 0))
         (spec_tables limit (hlit + 257) (hdist + 1)))))"

definition spec_kind :: "int \<Rightarrow> nat \<Rightarrow> unit step" where
  "spec_kind limit kind =
     (if kind = 0 then spec_stored limit
      else if kind = 1 then spec_block limit fixed_lengths (replicate 32 5)
      else spec_dynamic limit)"

text \<open>Adler's checksum of the output, RFC 1950.\<close>

definition adler_a :: "bytes \<Rightarrow> nat" where
  "adler_a out = (1 + sum_list (map unat out)) mod 65521"

definition adler_b :: "bytes \<Rightarrow> nat" where
  "adler_b out = (\<Sum>n \<in> {1..length out}. adler_a (take n out)) mod 65521"

definition adler32 :: "bytes \<Rightarrow> nat" where
  "adler32 out = adler_b out * 65536 + adler_a out"

definition four_bytes :: "nat step" where
  "four_bytes =
     and_then (grab 8) (\<lambda>a. and_then (grab 8) (\<lambda>b. and_then (grab 8) (\<lambda>c. and_then (grab 8) (\<lambda>d.
       give (((a * 256 + b) * 256 + c) * 256 + d)))))"

definition spec_trailer :: "unit step" where
  "spec_trailer =
     and_then to_byte (\<lambda>_. and_then four_bytes (\<lambda>want s.
       if want \<noteq> adler32 (snd s) then refuse ''incorrect data check'' s else give () s))"

definition header_fields :: "unit step" where
  "header_fields =
     and_then (grab 8) (\<lambda>cmf. and_then (grab 8) (\<lambda>flg.
       if (cmf * 256 + flg) mod 31 \<noteq> 0 then refuse ''incorrect header check''
       else if cmf mod 16 \<noteq> 8 then refuse ''unknown compression method''
       else if 7 < cmf div 16 then refuse ''invalid window size''
       else if odd (flg div 32) then (\<lambda>_. Inl NeedDict)
       else give ()))"

definition spec_header :: "unit step" where
  "spec_header s = (if length (fst s) < 16 then Inl NoFault else header_fields s)"

lemma shrinks_block: "shrinks (spec_block limit ll dl)"
proof -
  have "spec_block limit ll dl s = Inr (x, s1) \<longrightarrow> length (fst s1) \<le> length (fst s)" for s x s1
  proof (induction limit ll dl s rule: spec_block.induct)
    case (1 limit ll dl s)
    show ?case
    proof (cases "symbol_step ll ''invalid literal/length code'' s")
      case (Inr p)
      obtain k s2 where p: "p = (k, s2)" by (rule prod.exhaust)
      note lt = symbol_step_less [OF Inr [unfolded p]]
      consider "k < 256" | "k = 256" | "285 < k" | "256 < k" "k \<le> 285" by linarith
      then show ?thesis
      proof cases
        case 1
        show ?thesis
        proof (cases "put limit (word_of_nat k) s2")
          case q: (Inr q)
          obtain u s3 where q3: "q = (u, s3)" by (rule prod.exhaust)
          note IH = "1.IH"(1) [OF Inr p [symmetric] 1 q q3 [symmetric]]
          show ?thesis using IH lt shrinksD [OF shrinks_basic(5) q [unfolded q3]] Inr p 1 q q3
            by (auto simp: spec_block.simps [of limit ll dl s])
        qed (use Inr p 1 in \<open>simp add: spec_block.simps [of limit ll dl s]\<close>)
      next
        case 4
        then have k: "\<not> k < 256" "k \<noteq> 256" "\<not> 285 < k" by auto
        show ?thesis
        proof (cases "spec_copy limit dl k s2")
          case q: (Inr q)
          obtain u s3 where q3: "q = (u, s3)" by (rule prod.exhaust)
          note IH = "1.IH"(2) [OF Inr p [symmetric] k q q3 [symmetric]]
          show ?thesis using IH lt shrinksD [OF shrinks_copy q [unfolded q3]] Inr p k q q3
            by (auto simp: spec_block.simps [of limit ll dl s])
        qed (use Inr p k in \<open>simp add: spec_block.simps [of limit ll dl s]\<close>)
      qed (use lt Inr p in \<open>auto simp: spec_block.simps [of limit ll dl s] refuse_def\<close>)
    qed (simp add: spec_block.simps)
  qed
  then show ?thesis unfolding shrinks_def by blast
qed

lemma shrinks_repeat [shrink_rules]: "shrinks (spec_repeat k acc)"
  unfolding spec_repeat_def by (intro shrink_rules)

lemma shrinks_lengths [shrink_rules]: "shrinks (spec_lengths cl n acc)"
proof -
  have "spec_lengths cl n acc s = Inr (x, s1) \<longrightarrow> length (fst s1) \<le> length (fst s)" for s x s1
  proof (induction cl n acc s rule: spec_lengths.induct)
    case (1 cl n acc s)
    show ?case
    proof (cases "n \<le> length acc")
      case False
      show ?thesis
      proof (cases "symbol_step cl ''invalid code lengths set'' s")
        case (Inr p)
        obtain k s2 where p: "p = (k, s2)" by (rule prod.exhaust)
        note lt = symbol_step_less [OF Inr [unfolded p]]
        show ?thesis
        proof (cases "k < 16")
          case True
          then show ?thesis using lt Inr p "1.IH"(1) [OF False Inr p [symmetric] True] False
            by (auto simp: spec_lengths.simps [of cl n acc s])
        next
          case k: False
          show ?thesis
          proof (cases "spec_repeat k acc s2")
            case r: (Inr q)
            obtain v m s3 where q: "q = ((v, m), s3)" by (metis prod.exhaust)
            have "length (fst s3) \<le> length (fst s2)" using shrinksD [OF shrinks_repeat r [unfolded q]] .
            then show ?thesis using lt Inr p "1.IH"(2) [OF False Inr p [symmetric] k r q [symmetric] refl] False k r q
              by (auto simp: spec_lengths.simps [of cl n acc s] refuse_def)
          qed (use Inr p k False in \<open>simp add: spec_lengths.simps [of cl n acc s]\<close>)
        qed
      qed (use False in \<open>simp add: spec_lengths.simps\<close>)
    qed (simp add: spec_lengths.simps)
  qed
  then show ?thesis unfolding shrinks_def by blast
qed

lemma shrinks_code_lens [shrink_rules]: "shrinks (spec_code_lens ks lens)"
  by (induction ks arbitrary: lens) (auto intro: shrink_rules)

lemma shrinks_kind: "shrinks (spec_kind limit kind)"
  unfolding spec_kind_def spec_stored_def spec_dynamic_def spec_tables_def spec_body_def
  by (intro shrink_rules shrinks_block)

function spec_blocks :: "int \<Rightarrow> unit step" where
  "spec_blocks limit s =
     (case grab 1 s of
        Inl e \<Rightarrow> Inl e
      | Inr (final, s1) \<Rightarrow>
          (case grab 2 s1 of
             Inl e \<Rightarrow> Inl e
           | Inr (kind, s2) \<Rightarrow>
               if 2 < kind then refuse ''invalid block type'' s2
               else (case spec_kind limit kind s2 of
                   Inl e \<Rightarrow> Inl e
                 | Inr (_, s3) \<Rightarrow> if final = 1 then spec_trailer s3 else spec_blocks limit s3)))"
  by pat_completeness auto
termination
proof (relation "measure (\<lambda>(limit, s). length (fst s))", goal_cases)
  case (2 limit s p final s1 q kind s2 r u s3)
  have "length (fst s1) < length (fst s)" using 2(1,2) by (auto simp: grab_def split: if_splits)
  moreover have "length (fst s2) \<le> length (fst s1)" using shrinksD [OF shrinks_basic(3)] 2(3,4) by metis
  moreover have "length (fst s3) \<le> length (fst s2)" using shrinksD [OF shrinks_kind] 2(6,7) by metis
  ultimately show ?case by simp
qed simp

declare spec_blocks.simps [simp del]

text \<open>The fault a stream has, \<open>NoFault\<close> for one that decodes, ends early or fills the room.\<close>

definition stream_fault :: "int \<Rightarrow> bytes \<Rightarrow> fault" where
  "stream_fault limit raw =
     (case and_then spec_header (\<lambda>_. spec_blocks limit) (stream_bits raw, []) of Inl e \<Rightarrow> e | Inr _ \<Rightarrow> NoFault)"

end
