(* ===== verification/InflateExact.thy ===== *)
theory InflateExact
  imports InflateSpec
begin

text \<open>
  \<open>Inflate\<close> refines the reference of \<open>InflateSpec\<close>: the register holds the next bits of the stream, the ring of
  32 KiB the last bytes of the output, the two words the checksum so far. \<open>simulates\<close> is the simulation.
\<close>

section \<open>The output\<close>

definition keeps :: "inflater \<Rightarrow> bytes \<Rightarrow> bool" where
  "keeps i out \<longleftrightarrow> zi_total i = length out \<and> zi_next i = length out mod window_size \<and>
     length (zi_window i) = window_size \<and>
     (\<forall>k < length out. length out \<le> k + window_size \<longrightarrow> zi_window i ! (k mod window_size) = out ! k) \<and>
     unat (zi_a i) = adler_a out \<and> unat (zi_b i) = adler_b out"

definition simulates :: "int \<Rightarrow> inflater \<Rightarrow> flow \<Rightarrow> bool" where
  "simulates limit i s \<longleftrightarrow> holds_bits (zi_in i) (fst s) \<and> keeps i (snd s) \<and> zi_limit i = limit \<and> \<not> zi_full i"

lemma window_pos [simp]: "0 < window_size"
  by (simp add: window_size_def)

lemma ring_apart: "a < b \<Longrightarrow> b < a + w \<Longrightarrow> a mod w \<noteq> b mod (w :: nat)"
proof
  assume "a < b" "b < a + w" "a mod w = b mod w"
  then have "w dvd b - a" using mod_eq_dvd_iff_nat [of a b w] by simp
  then show False using \<open>a < b\<close> \<open>b < a + w\<close> nat_dvd_not_less [of "b - a" w] by simp
qed

lemma adler_a_less: "adler_a out < 65521" "adler_b out < 65521"
  by (simp_all add: adler_a_def adler_b_def)

lemma adler_snoc:
  "adler_a (out @ [c]) = (adler_a out + unat c) mod 65521"
  "adler_b (out @ [c]) = (adler_b out + adler_a (out @ [c])) mod 65521"
proof -
  show "adler_a (out @ [c]) = (adler_a out + unat c) mod 65521"
    by (simp add: adler_a_def mod_simps add.assoc)
  have "(\<Sum>n \<in> {1..Suc (length out)}. adler_a (take n (out @ [c]))) = (\<Sum>n \<in> {1..length out}. adler_a (take n out)) + adler_a (out @ [c])"
    by (simp add: sum.nat_ivl_Suc')
  then show "adler_b (out @ [c]) = (adler_b out + adler_a (out @ [c])) mod 65521"
    by (simp add: adler_b_def mod_simps)
qed

lemma emit_keeps:
  assumes k: "keeps i out"
  shows "keeps (emit_byte c i) (out @ [c])"
proof -
  let ?a = "(zi_a i + ucast c) mod 65521 :: 32 word"
  have ua: "unat (zi_a i) < 65521" "unat (zi_b i) < 65521" using k adler_a_less by (simp_all add: keeps_def)
  have lt: "unat c < 256" using unsigned_less [where 'a = nat, of c] by simp
  have "unat c < 4294967296" using lt by linarith
  then have "unat (ucast c :: 32 word) = unat c" by (simp add: unsigned_ucast_eq take_bit_nat_eq_self_iff)
  note c = this lt
  have small: "unat (x + y :: 32 word) = unat x + unat y" if "unat x < 65521" "unat y < 65521" for x y
  proof -
    have "unat x + unat y < 4294967296" using that by linarith
    then show ?thesis by (simp add: unat_word_ariths)
  qed
  have "unat (ucast c :: 32 word) < 65521" using c by linarith
  from small [OF ua(1) this] have a: "unat ?a = adler_a (out @ [c])"
    using c k by (simp add: unat_mod adler_snoc keeps_def)
  have "unat ?a < 65521" using a adler_a_less by simp
  from small [OF ua(2) this] have "unat ((zi_b i + ?a) mod 65521) = (unat (zi_b i) + unat ?a) mod 65521"
    by (simp add: unat_mod)
  then have b: "unat ((zi_b i + ?a) mod 65521) = adler_b (out @ [c])"
    using k a adler_snoc(2) [of out c] by (simp add: keeps_def)
  have w: "(zi_window i)[length out mod window_size := c] ! (n mod window_size) = (out @ [c]) ! n"
    if n: "n < Suc (length out)" "Suc (length out) \<le> n + window_size" for n
  proof (cases "n = length out")
    case True
    then show ?thesis using k by (simp add: keeps_def)
  next
    case False
    then have "n mod window_size \<noteq> length out mod window_size" using n by (intro ring_apart) auto
    then show ?thesis using k n False by (simp add: keeps_def nth_append)
  qed
  show ?thesis using k a b w by (simp add: keeps_def emit_byte_def Let_def mod_Suc_eq)
qed

lemma back_keeps:
  assumes k: "keeps i out" and d: "1 \<le> d" "d \<le> window_size" "d \<le> length out"
  shows "back_byte d i = out ! (length out - d)"
proof -
  have "(int (zi_next i) - int d + int window_size) mod int window_size = (int (length out) - int d) mod int window_size"
    using k by (simp add: keeps_def zmod_int mod_simps)
  also have "\<dots> = int ((length out - d) mod window_size)" using d by (simp add: zmod_int)
  finally have "back_byte d i = zi_window i ! ((length out - d) mod window_size)"
    by (simp only: back_byte_def nat_int)
  then show ?thesis using k d by (simp add: keeps_def)
qed

section \<open>The simulation\<close>

text \<open>What a read of the inflater must answer, given what the reference does.\<close>

definition agrees :: "int \<Rightarrow> 'a option \<times> inflater \<Rightarrow> fault + 'a \<times> flow \<Rightarrow> bool" where
  "agrees limit r q \<longleftrightarrow>
     (case q of
        Inl e \<Rightarrow> e = NoFault \<and> fst r = None \<and> zb_short (zi_in (snd r))
      | Inr (x, s) \<Rightarrow> fst r = Some x \<and> simulates limit (snd r) s)"

text \<open>What a block must do: the same fault, and where the reference stops without one, the marks that stop the run.\<close>

definition matches_block :: "int \<Rightarrow> fault \<times> inflater \<Rightarrow> fault + unit \<times> flow \<Rightarrow> bool" where
  "matches_block limit r q \<longleftrightarrow>
     (case q of
        Inl e \<Rightarrow> fst r = e \<and> (e = NoFault \<longrightarrow> zb_short (zi_in (snd r)) \<or> zi_full (snd r))
      | Inr (_, s) \<Rightarrow> fst r = NoFault \<and> simulates limit (snd r) s)"

lemma keeps_input [simp]: "keeps (i\<lparr>zi_in := b\<rparr>) out = keeps i out"
  by (simp add: keeps_def)

lemma take_agrees:
  assumes "simulates limit i s" and "n \<le> 16"
  shows "agrees limit (with_bits (take_bits n) i) (grab n s)"
proof -
  have r: "holds_bits (zi_in i) (fst s)" using assms(1) by (simp add: simulates_def)
  show ?thesis using take_reads [OF r assms(2)] assms(1)
    by (auto simp: agrees_def with_bits_def grab_def simulates_def)
qed

lemma align_follows:
  assumes "simulates limit i s" and "to_byte s = Inr (u, s1)"
  shows "simulates limit (i\<lparr>zi_in := align (zi_in i)\<rparr>) s1"
  using assms align_reads by (auto simp: simulates_def to_byte_def)

lemma put_room: "simulates limit i s \<Longrightarrow> has_room i \<longleftrightarrow> (limit < 0 \<or> int (length (snd s)) < limit)"
  by (auto simp: simulates_def keeps_def has_room_def)

lemma put_follows:
  assumes f: "simulates limit i s"
  shows "if has_room i then \<exists>s1. put limit c s = Inr ((), s1) \<and> snd s1 = snd s @ [c] \<and> simulates limit (emit_byte c i) s1
     else put limit c s = Inl NoFault"
proof -
  have e: "zi_limit (emit_byte c i) = zi_limit i" "zi_full (emit_byte c i) = zi_full i" by (simp_all add: emit_byte_def Let_def)
  show ?thesis using put_room [OF f] f emit_keeps [of i "snd s" c] by (auto simp: put_def simulates_def e)
qed

lemma symbol_follows:
  assumes f: "simulates limit i s" and c: "build_code lens strict = Some c"
  shows "case symbol_step lens msg s of
      Inr (k, s1) \<Rightarrow> \<exists>i1. with_bits (decode_sym c) i = (DecodeOK k, i1) \<and> simulates limit i1 s1
    | Inl e \<Rightarrow> (\<exists>i1. with_bits (decode_sym c) i = (DecodeShort, i1) \<and> zb_short (zi_in i1) \<and> e = NoFault) \<or>
        (\<exists>i1. with_bits (decode_sym c) i = (DecodeInvalid, i1) \<and> e = DataFault (str msg))"
proof -
  have "holds_bits (zi_in i) (fst s)" using f by (simp add: simulates_def)
  from decode_spec [OF c this] show ?thesis using f
    by (cases "decode_sym c (zi_in i)")
      (auto simp: symbol_step_def with_bits_def decodes_to_def simulates_def refuse_def
        split: if_splits option.splits simp del: str_def)
qed

lemma lsb_value_less: "lsb_value bs < 2 ^ length bs"
  unfolding lsb_value_def by (induction bs) auto

lemma take_cases:
  assumes f: "simulates limit i s" and n: "n \<le> 16"
  obtains (whole) x s1 i1 where "grab n s = Inr (x, s1)" "with_bits (take_bits n) i = (Some x, i1)" "simulates limit i1 s1"
      "x < 2 ^ n" "snd s1 = snd s"
    | (short) i1 where "grab n s = Inl NoFault" "with_bits (take_bits n) i = (None, i1)" "zb_short (zi_in i1)"
proof (cases "n \<le> length (fst s)")
  case True
  obtain r i1 where r: "with_bits (take_bits n) i = (r, i1)" by (rule prod.exhaust)
  have g: "grab n s = Inr (lsb_value (take n (fst s)), drop n (fst s), snd s)" using True by (simp add: grab_def)
  have "lsb_value (take n (fst s)) < 2 ^ n" using lsb_value_less [of "take n (fst s)"] True by simp
  then show ?thesis using whole [of _ "(drop n (fst s), snd s)" i1] take_agrees [OF f n] g r by (auto simp: agrees_def)
next
  case False
  obtain r i1 where r: "with_bits (take_bits n) i = (r, i1)" by (rule prod.exhaust)
  have g: "grab n s = Inl NoFault" using False by (simp add: grab_def)
  show ?thesis using short [of i1] take_agrees [OF f n] g r by (auto simp: agrees_def)
qed

lemma le16: "(1 :: nat) \<le> 16" "(2 :: nat) \<le> 16" "(3 :: nat) \<le> 16" "(4 :: nat) \<le> 16" "(5 :: nat) \<le> 16" "(7 :: nat) \<le> 16"
  "(8 :: nat) \<le> 16" "(16 :: nat) \<le> 16"
  by simp_all

lemma symbol_cases:
  assumes "simulates limit i s" and "build_code lens strict = Some c"
  obtains (decoded) k s1 i1 where "symbol_step lens msg s = Inr (k, s1)" "with_bits (decode_sym c) i = (DecodeOK k, i1)" "simulates limit i1 s1"
    | (short) i1 where "symbol_step lens msg s = Inl NoFault" "with_bits (decode_sym c) i = (DecodeShort, i1)" "zb_short (zi_in i1)"
    | (bad) i1 where "symbol_step lens msg s = Inl (DataFault (str msg))" "with_bits (decode_sym c) i = (DecodeInvalid, i1)"
  using symbol_follows [OF assms, of msg] by (auto split: sum.splits)

lemma matches_Inl: "matches_block limit (f, i) (Inl e) \<longleftrightarrow> f = e \<and> (e = NoFault \<longrightarrow> zb_short (zi_in i) \<or> zi_full i)"
  and matches_Inr: "matches_block limit (f, i) (Inr (u, s)) \<longleftrightarrow> f = NoFault \<and> simulates limit i s"
  by (simp_all add: matches_block_def)

lemma matches_refuse: "matches_block limit (f, i) (refuse msg s) \<longleftrightarrow> f = DataFault (str msg)"
  by (auto simp: refuse_def matches_Inl simp del: str_def)

lemmas matches = matches_Inl matches_Inr matches_refuse

section \<open>Stored blocks\<close>

lemma byte_take: "with_bits byte_next i = (case with_bits (take_bits 8) i of (v, i1) \<Rightarrow> (map_option word_of_nat v, i1))"
  by (simp add: with_bits_def byte_next_def split: prod.splits)

lemma copy_stored_matches:
  "simulates limit i s \<Longrightarrow> matches_block limit (NoFault, copy_stored n i) (spec_bytes limit n s)"
proof (induction n arbitrary: i s)
  case 0
  then show ?case by (simp add: matches give_def)
next
  case (Suc n)
  show ?case
  proof (cases "has_room i")
    case False
    then show ?thesis using put_room [OF Suc.prems] by (auto simp: matches)
  next
    case True
    then have lim: "\<not> (0 \<le> limit \<and> limit \<le> int (length (snd s)))" using put_room [OF Suc.prems] by auto
    show ?thesis
    proof (cases rule: take_cases [OF Suc.prems le16(7), case_names whole short])
      case (whole x s1 i1)
      have "has_room i1" using put_room [OF whole(3)] put_room [OF Suc.prems] True whole(5) by simp
      then obtain s2 where p: "put limit (word_of_nat x) s1 = Inr ((), s2)" "simulates limit (emit_byte (word_of_nat x) i1) s2"
        using put_follows [OF whole(3), of "word_of_nat x"] by auto
      show ?thesis using Suc.IH [OF p(2)] lim True whole(2) unfolding spec_bytes.simps
        by (auto simp: and_then_def byte_take whole(1) p(1))
    next
      case (short i1)
      then show ?thesis using lim True by (simp add: and_then_def byte_take matches)
    qed
  qed
qed

lemma complement_16:
  assumes "m < 2 ^ 16" "n < 2 ^ 16"
  shows "(word_of_nat m :: 32 word) \<noteq> word_of_nat n XOR 0xFFFF \<longleftrightarrow> m + n \<noteq> 65535"
proof -
  have u: "unat (word_of_nat k :: 32 word) = k" if "k < 2 ^ 16" for k
    using that by (simp add: unat_of_nat take_bit_nat_eq_self_iff)
  have mask: "(65535 :: nat) = mask 16" by (simp add: mask_eq_exp_minus_1)
  have low: "n AND 65535 = n" using assms(2) unfolding mask by (simp add: take_bit_eq_mask [symmetric] take_bit_nat_eq_self_iff)
  have bound: "k < 16" if "bit n k" for k using that low unfolding mask by (metis bit_and_iff bit_mask_iff)
  have "(n XOR 65535) + n = (n XOR 65535) OR n"
    using bound by (intro disjunctive_add) (auto simp: bit_xor_iff mask bit_mask_iff)
  also have "\<dots> = 65535"
    using bound by (intro bit_eqI) (auto simp: bit_xor_iff bit_or_iff mask bit_mask_iff)
  finally have "(n XOR 65535) + n = 65535" .
  moreover have "unat (word_of_nat n XOR 0xFFFF :: 32 word) = n XOR 65535"
    using u [OF assms(2)] by (simp add: unsigned_xor_eq)
  ultimately have "unat (word_of_nat n XOR 0xFFFF :: 32 word) + n = 65535" by simp
  then show ?thesis using u [OF assms(1)] by (auto simp: word_unat_eq_iff)
qed

lemma stored_matches:
  assumes f: "simulates limit i s"
  shows "matches_block limit (stored_block i) (spec_stored limit s)"
proof -
  obtain s0 where 0: "to_byte s = Inr ((), s0)" by (simp add: to_byte_def)
  note f0 = align_follows [OF f 0]
  show ?thesis
  proof (cases rule: take_cases [OF f0 le16(8), case_names whole short])
    case a: (whole len s1 i1)
    show ?thesis
    proof (cases rule: take_cases [OF a(3) le16(8), case_names whole short])
      case b: (whole inv s2 i2)
      show ?thesis using copy_stored_matches [OF b(3), of len] complement_16 [OF a(4) b(4)]
        unfolding spec_stored_def stored_block_def
        by (auto simp: and_then_def 0 a(1) b(1) a(2) b(2) matches_refuse simp del: str_def)
    next
      case (short i2)
      then show ?thesis unfolding spec_stored_def stored_block_def
        by (simp add: and_then_def 0 a(1) a(2) matches)
    qed
  next
    case (short i1)
    then show ?thesis unfolding spec_stored_def stored_block_def
      by (simp add: and_then_def 0 matches)
  qed
qed

section \<open>Compressed blocks\<close>

lemma copy_match_follows:
  assumes "simulates limit i s" and "1 \<le> d" "d \<le> window_size" "d \<le> length (snd s)"
  shows "case spec_match limit d n s of
      Inr (_, s1) \<Rightarrow> \<exists>i1. copy_match d n i = (False, i1) \<and> simulates limit i1 s1
    | Inl e \<Rightarrow> e = NoFault \<and> (\<exists>i1. copy_match d n i = (True, i1) \<and> zi_full i1)"
  using assms
proof (induction n arbitrary: i s)
  case 0
  then show ?case by (simp add: give_def)
next
  case (Suc n)
  let ?c = "snd s ! (length (snd s) - d)"
  have c: "back_byte d i = ?c"
    using Suc.prems by (intro back_keeps) (auto simp: simulates_def)
  show ?case
  proof (cases "has_room i")
    case True
    then obtain s1 where p: "put limit ?c s = Inr ((), s1)" "snd s1 = snd s @ [?c]" "simulates limit (emit_byte ?c i) s1"
      using put_follows [OF Suc.prems(1), of ?c] by auto
    have "d \<le> length (snd s1)" using p(2) Suc.prems(4) by simp
    from Suc.IH [OF p(3) Suc.prems(2,3) this] show ?thesis using True by (auto simp: and_then_def p(1) c split: sum.splits)
  next
    case False
    then have "put limit ?c s = Inl NoFault" using put_follows [OF Suc.prems(1), of ?c] by simp
    then show ?thesis using False by (simp add: and_then_def)
  qed
qed

lemma length_extra_le: "k \<le> 28 \<Longrightarrow> length_extra ! k \<le> 16"
proof -
  assume "k \<le> 28"
  then have "length_extra ! k \<in> set length_extra" by (intro nth_mem) (simp add: length_extra_def)
  then show ?thesis by (auto simp: length_extra_def)
qed

lemma dist_bounds:
  assumes "d \<le> 29"
  shows "dist_extra ! d \<le> 16" and "1 \<le> dist_base ! d" and "dist_base ! d + 2 ^ (dist_extra ! d) \<le> Suc window_size"
proof -
  have "(dist_base ! d, dist_extra ! d) \<in> set (zip dist_base dist_extra)"
    using assms by (subst in_set_zip) (auto simp: dist_base_def dist_extra_def intro: exI [of _ d])
  then have "dist_extra ! d \<le> 16 \<and> 1 \<le> dist_base ! d \<and> dist_base ! d + 2 ^ (dist_extra ! d) \<le> Suc window_size"
    by (auto simp: dist_base_def dist_extra_def window_size_def)
  then show "dist_extra ! d \<le> 16" and "1 \<le> dist_base ! d" and "dist_base ! d + 2 ^ (dist_extra ! d) \<le> Suc window_size"
    by blast+
qed

lemma match_follows:
  assumes f: "simulates limit i s" and c: "build_code dl strict = Some c" and k: "k \<le> 285"
  shows "case spec_copy limit dl k s of
      Inr (_, s1) \<Rightarrow> \<exists>i1. match_step c k i = (None, i1) \<and> simulates limit i1 s1
    | Inl e \<Rightarrow> \<exists>i1. match_step c k i = (Some e, i1) \<and> (e = NoFault \<longrightarrow> zb_short (zi_in i1) \<or> zi_full i1)"
proof -
  have l16: "length_extra ! (k - 257) \<le> 16" using k by (intro length_extra_le) simp
  show ?thesis
  proof (cases rule: take_cases [OF f l16, case_names whole short])
    case a: (whole extra s1 i1)
    show ?thesis
    proof (cases rule: symbol_cases [OF a(3) c, of "''invalid distance code''", case_names decoded short bad])
      case b: (decoded d s2 i2)
      show ?thesis
      proof (cases "29 < d")
        case True
        then show ?thesis unfolding spec_copy_def match_step_def
          by (simp add: and_then_def a(1,2) b(1,2) refuse_def del: str_def)
      next
        case False
        then have d: "d \<le> 29" by simp
        show ?thesis
        proof (cases rule: take_cases [OF b(3) dist_bounds(1) [OF d], case_names whole short])
          case e: (whole more s3 i3)
          let ?dist = "dist_base ! d + more" and ?len = "length_base ! (k - 257) + extra"
          have t: "zi_total i3 = length (snd s3)" using e(3) by (simp add: simulates_def keeps_def)
          show ?thesis
          proof (cases "length (snd s3) < ?dist")
            case True
            then show ?thesis using d unfolding spec_copy_def match_step_def
              by (simp add: and_then_def a(1,2) b(1,2) e(1,2) refuse_def t Let_def del: str_def)
          next
            case far: False
            have "1 \<le> ?dist" "?dist \<le> window_size" using dist_bounds [OF d] e(4) by linarith+
            from copy_match_follows [OF e(3) this, of ?len] far show ?thesis
              using d unfolding spec_copy_def match_step_def
              by (auto simp: and_then_def a(1,2) b(1,2) e(1,2) t Let_def simp del: str_def split: sum.splits)
          qed
        next
          case (short i3)
          then show ?thesis using d unfolding spec_copy_def match_step_def
            by (simp add: and_then_def a(1,2) b(1,2) del: str_def)
        qed
      qed
    next
      case (short i2)
      then show ?thesis unfolding spec_copy_def match_step_def by (simp add: and_then_def a(1,2) del: str_def)
    next
      case (bad i2)
      then show ?thesis unfolding spec_copy_def match_step_def by (simp add: and_then_def a(1,2) del: str_def)
    qed
  next
    case (short i1)
    then show ?thesis unfolding spec_copy_def match_step_def by (simp add: and_then_def del: str_def)
  qed
qed

lemma block_matches:
  assumes "simulates limit i s" and "build_code ll x = Some cl" and "build_code dl y = Some cd"
  shows "matches_block limit (block_loop (cl, cd) i) (spec_block limit ll dl s)"
  using assms
proof (induction limit ll dl s arbitrary: i rule: spec_block.induct)
  case (1 limit ll dl s)
  let ?bad = "''invalid literal/length code''"
  show ?case
  proof (cases rule: symbol_cases [OF 1(3,4), of ?bad, case_names decoded short bad])
    case a: (decoded k s1 i1)
    consider "k < 256" | "k = 256" | "285 < k" | "256 < k" "k \<le> 285" by linarith
    then show ?thesis
    proof cases
      case lit: 1
      show ?thesis
      proof (cases "has_room i1")
        case True
        then obtain s2 where p: "put limit (word_of_nat k) s1 = Inr ((), s2)" "simulates limit (emit_byte (word_of_nat k) i1) s2"
          using put_follows [OF a(3), of "word_of_nat k"] by auto
        have "matches_block limit (block_loop (cl, cd) (emit_byte (word_of_nat k) i1)) (spec_block limit ll dl s2)"
          by (rule 1(1), rule a(1), rule refl, rule lit, rule p(1), rule refl, rule p(2), rule 1(4), rule 1(5))
        then show ?thesis using lit True
          by (simp add: spec_block.simps [of limit ll dl s] block_loop.simps [of "(cl, cd)" i] a(1,2) p(1))
      next
        case False
        then have "put limit (word_of_nat k) s1 = Inl NoFault" using put_follows [OF a(3), of "word_of_nat k"] by simp
        then show ?thesis using lit False
          by (simp add: spec_block.simps [of limit ll dl s] block_loop.simps [of "(cl, cd)" i] a(1,2) matches)
      qed
    next
      case big: 4
      then have k: "\<not> k < 256" "k \<noteq> 256" "\<not> 285 < k" by auto
      note m = match_follows [OF a(3) 1(5) big(2)]
      show ?thesis
      proof (cases "spec_copy limit dl k s1")
        case (Inl e)
        then show ?thesis using m k
          by (auto simp: spec_block.simps [of limit ll dl s] block_loop.simps [of "(cl, cd)" i] a(1,2) matches)
      next
        case (Inr q)
        obtain u s2 where q: "q = (u, s2)" by (rule prod.exhaust)
        obtain i2 where i2: "match_step cd k i1 = (None, i2)" "simulates limit i2 s2" using m Inr q by auto
        have "matches_block limit (block_loop (cl, cd) i2) (spec_block limit ll dl s2)"
          by (rule 1(2), rule a(1), rule refl, rule k(1), rule k(2), rule k(3), rule Inr, rule q [symmetric], rule i2(2), rule 1(4), rule 1(5))
        then show ?thesis using k Inr q i2(1)
          by (simp add: spec_block.simps [of limit ll dl s] block_loop.simps [of "(cl, cd)" i] a(1,2))
      qed
    qed (use a in \<open>simp_all add: spec_block.simps [of limit ll dl s] block_loop.simps [of "(cl, cd)" i] matches del: str_def\<close>)
  next
    case (short i1)
    then show ?thesis by (simp add: spec_block.simps [of limit ll dl s] block_loop.simps [of "(cl, cd)" i] matches)
  next
    case (bad i1)
    then show ?thesis by (simp add: spec_block.simps [of limit ll dl s] block_loop.simps [of "(cl, cd)" i] matches del: str_def)
  qed
qed

lemma built: "legal_lengths lens strict \<Longrightarrow> \<exists>c. build_code lens strict = Some c"
  using build_code_spec(1) [of lens strict] by auto

lemma fixed_legal: "legal_lengths fixed_lengths False" "legal_lengths (replicate 32 5) False"
  by (auto simp: legal_lengths_def fixed_lengths_def kraft_sum_def max_code_bits_def sum_list_replicate)

lemma fixed_matches:
  assumes "simulates limit i s"
  shows "matches_block limit (block_loop fixed_codes i) (spec_block limit fixed_lengths (replicate 32 5) s)"
proof -
  obtain cl cd where "build_code fixed_lengths False = Some cl" "build_code (replicate 32 5) False = Some cd"
    using built [OF fixed_legal(1)] built [OF fixed_legal(2)] by blast
  then show ?thesis using block_matches [OF assms, of fixed_lengths False cl "replicate 32 5" False cd]
    by (simp add: fixed_codes_def)
qed

section \<open>Blocks with their own alphabets\<close>

text \<open>The array of lengths: those read, then zeros.\<close>

definition padded :: "nat \<Rightarrow> nat list \<Rightarrow> nat list" where
  "padded n acc = acc @ replicate (n - length acc) 0"

lemma padded_length: "length acc \<le> n \<Longrightarrow> length (padded n acc) = n"
  by (simp add: padded_def)

lemma padded_write: "length acc < n \<Longrightarrow> (padded n acc)[length acc := v] = padded n (acc @ [v])"
  by (cases "n - length acc") (auto simp: padded_def Suc_diff_Suc list_update_append diff_Suc split: nat.splits)

lemma padded_fill: "length acc + r \<le> n \<Longrightarrow> fill_lengths r (length acc) v (padded n acc) = padded n (acc @ replicate r v)"
proof (induction r arbitrary: acc)
  case (Suc r)
  then show ?case using Suc.IH [of "acc @ [v]"] by (simp add: padded_write replicate_append_same [symmetric])
qed simp

lemma repeat_follows:
  assumes f: "simulates limit i s" and n: "length acc \<le> n"
  shows "case spec_repeat k acc s of
      Inr (p, s1) \<Rightarrow> \<exists>i1. repeat_count k (length acc) (padded n acc) i = (Inr p, i1) \<and> simulates limit i1 s1
    | Inl e \<Rightarrow> \<exists>i1. repeat_count k (length acc) (padded n acc) i = (Inl e, i1) \<and> (e = NoFault \<longrightarrow> zb_short (zi_in i1))"
proof -
  have prev: "padded n acc ! (length acc - Suc 0) = last acc" if "acc \<noteq> []"
    using that by (simp add: padded_def nth_append last_conv_nth)
  show ?thesis
    by (cases rule: take_cases [OF f le16(2)]; cases rule: take_cases [OF f le16(3)]; cases rule: take_cases [OF f le16(6)])
      (auto simp: spec_repeat_def repeat_count_def and_then_def give_def refuse_def prev simp del: str_def)
qed

definition lengths_agree :: "int \<Rightarrow> (fault \<times> nat list) \<times> inflater \<Rightarrow> fault + nat list \<times> flow \<Rightarrow> bool" where
  "lengths_agree limit r q \<longleftrightarrow>
     (case q of
        Inl e \<Rightarrow> fst (fst r) = e \<and> (e = NoFault \<longrightarrow> zb_short (zi_in (snd r)))
      | Inr (lens, s) \<Rightarrow> fst r = (NoFault, lens) \<and> simulates limit (snd r) s)"

lemma lengths_agrees:
  assumes "simulates limit i s" and "build_code cl True = Some c" and "length acc \<le> n"
  shows "lengths_agree limit (read_lengths c (length acc) (padded n acc) i) (spec_lengths cl n acc s)"
  using assms
proof (induction cl n acc s arbitrary: i rule: spec_lengths.induct)
  case (1 cl n acc s)
  note pl = padded_length [OF 1(5)]
  note steps = spec_lengths.simps [of cl n acc s] read_lengths.simps [of c "length acc" "padded n acc" i] pl
  show ?case
  proof (cases "n \<le> length acc")
    case True
    then have "padded n acc = acc" "length acc = n" using 1(5) by (auto simp: padded_def)
    then show ?thesis using 1(3)
      by (simp add: spec_lengths.simps [of cl n acc s] read_lengths.simps [of c n acc i] lengths_agree_def)
  next
    case more: False
    show ?thesis
    proof (cases rule: symbol_cases [OF 1(3,4), of "''invalid code lengths set''", case_names decoded short bad])
      case a: (decoded k s1 i1)
      show ?thesis
      proof (cases "k < 16")
        case True
        have "length (acc @ [k]) \<le> n" using more by simp
        have "lengths_agree limit (read_lengths c (length (acc @ [k])) (padded n (acc @ [k])) i1) (spec_lengths cl n (acc @ [k]) s1)"
          by (rule 1(1), rule more, rule a(1), rule refl, rule True, rule a(3), rule 1(4), rule \<open>length (acc @ [k]) \<le> n\<close>)
        moreover have "(padded n acc)[length acc := k] = padded n (acc @ [k])" using more by (simp add: padded_write)
        ultimately show ?thesis using more True a(1,2) by (simp add: steps)
      next
        case k: False
        note r = repeat_follows [OF a(3) 1(5), of k]
        show ?thesis
        proof (cases "spec_repeat k acc s1")
          case (Inl e)
          then show ?thesis using r more k a(1,2) by (auto simp: steps lengths_agree_def)
        next
          case (Inr q)
          obtain v m s2 where q: "q = ((v, m), s2)" by (metis prod.exhaust)
          obtain i2 where i2: "repeat_count k (length acc) (padded n acc) i1 = (Inr (v, m), i2)" "simulates limit i2 s2"
            using r Inr q by auto
          show ?thesis
          proof (cases "n < length acc + m")
            case True
            then show ?thesis using more k a(1,2) Inr q i2 by (simp add: steps refuse_def lengths_agree_def del: str_def)
          next
            case fit: False
            then have le: "length (acc @ replicate m v) \<le> n" by simp
            have "lengths_agree limit (read_lengths c (length (acc @ replicate m v)) (padded n (acc @ replicate m v)) i2)
                (spec_lengths cl n (acc @ replicate m v) s2)"
              by (rule 1(2), rule more, rule a(1), rule refl, rule k, rule Inr, rule q [symmetric], rule refl, rule fit,
                  rule i2(2), rule 1(4), rule le)
            then show ?thesis using more k a(1,2) Inr q i2(1) fit by (simp add: steps padded_fill)
          qed
        qed
      qed
    next
      case (short i1)
      then show ?thesis using more by (simp add: steps lengths_agree_def)
    next
      case (bad i1)
      then show ?thesis using more by (simp add: steps lengths_agree_def del: str_def)
    qed
  qed
qed

lemma code_lens_follows:
  "simulates limit i s \<Longrightarrow> agrees limit (code_lens_loop ks lens i) (spec_code_lens ks lens s)"
proof (induction ks arbitrary: lens i s)
  case Nil
  then show ?case by (simp add: agrees_def give_def)
next
  case (Cons k ks)
  show ?case
  proof (cases rule: take_cases [OF Cons.prems le16(3), case_names whole short])
    case (whole v s1 i1)
    from Cons.IH [OF whole(3), of "lens[k := v]"] show ?thesis by (simp add: and_then_def whole(1,2))
  next
    case (short i1)
    then show ?thesis by (simp add: and_then_def agrees_def)
  qed
qed

lemma body_matches:
  assumes "simulates limit i s"
  shows "matches_block limit (dynamic_body n lens i) (spec_body limit n lens s)"
proof -
  note spec = build_code_spec(1)
  show ?thesis
  proof (cases "build_code (take n lens) False")
    case None
    then show ?thesis using spec [of "take n lens" False] by (simp add: dynamic_body_def spec_body_def matches del: str_def)
  next
    case l: (Some cl)
    show ?thesis
    proof (cases "build_code (drop n lens) False")
      case None
      then show ?thesis using l spec [of "take n lens" False] spec [of "drop n lens" False]
        by (simp add: dynamic_body_def spec_body_def matches del: str_def)
    next
      case (Some cd)
      then show ?thesis using l spec [of "take n lens" False] spec [of "drop n lens" False] block_matches [OF assms l Some]
        by (simp add: dynamic_body_def spec_body_def matches del: str_def)
    qed
  qed
qed

lemma tables_matches:
  assumes f: "simulates limit i s"
  shows "matches_block limit (dynamic_tables n d cl i) (spec_tables limit n d cl s)"
proof (cases "build_code cl True")
  case None
  then show ?thesis using build_code_spec(1) [of cl True] by (simp add: dynamic_tables_def spec_tables_def matches del: str_def)
next
  case (Some c)
  then have legal: "legal_lengths cl True" using build_code_spec(1) [of cl True] by simp
  have empty: "hc_empty c \<longleftrightarrow> (\<forall>l \<in> set cl. l = 0)" using build_code_spec(2) [OF Some] by simp
  show ?thesis
  proof (cases "hc_empty c")
    case True
    then show ?thesis using Some legal empty body_matches [OF f] by (simp add: dynamic_tables_def spec_tables_def)
  next
    case False
    have p: "padded (n + d) [] = replicate (n + d) 0" by (simp add: padded_def)
    have r: "lengths_agree limit (read_lengths c 0 (replicate (n + d) 0) i) (spec_lengths cl (n + d) [] s)"
      using lengths_agrees [OF f Some, of "[]" "n + d"] unfolding p list.size(3) by blast
    show ?thesis
    proof (cases "spec_lengths cl (n + d) [] s")
      case (Inl e)
      then show ?thesis using r Some legal empty False
        by (cases "read_lengths c 0 (replicate (n + d) 0) i")
          (auto simp: dynamic_tables_def spec_tables_def and_then_def matches lengths_agree_def simp del: replicate.simps)
    next
      case (Inr q)
      obtain lens s1 where q: "q = (lens, s1)" by (rule prod.exhaust)
      obtain i1 where i1: "read_lengths c 0 (replicate (n + d) 0) i = ((NoFault, lens), i1)" "simulates limit i1 s1"
        using r Inr q by (cases "read_lengths c 0 (replicate (n + d) 0) i") (auto simp: lengths_agree_def)
      have "\<not> zb_short (zi_in i1)" using i1(2) by (simp add: simulates_def holds_bits_def)
      then show ?thesis using Some legal empty False Inr q i1(1) body_matches [OF i1(2), of n lens]
        by (auto simp: dynamic_tables_def spec_tables_def and_then_def)
    qed
  qed
qed

lemma dynamic_matches:
  assumes f: "simulates limit i s"
  shows "matches_block limit (dynamic_block i) (spec_dynamic limit s)"
proof (cases rule: take_cases [OF f le16(5), case_names whole short])
  case a: (whole hlit s1 i1)
  show ?thesis
  proof (cases rule: take_cases [OF a(3) le16(5), case_names whole short])
    case b: (whole hdist s2 i2)
    show ?thesis
    proof (cases rule: take_cases [OF b(3) le16(4), case_names whole short])
      case c: (whole hclen s3 i3)
      have many: "286 < hlit + 257 \<or> 30 < hdist + 1 \<longleftrightarrow> 29 < hlit \<or> 29 < hdist" by auto
      note steps = dynamic_block_def spec_dynamic_def and_then_def a(1,2) b(1,2) c(1,2) many
      obtain r i4 where r: "code_lens_loop (take (hclen + 4) code_len_order) (replicate 19 0) i3 = (r, i4)" by (rule prod.exhaust)
      note g = code_lens_follows [OF c(3), of "take (hclen + 4) code_len_order" "replicate 19 0", unfolded r]
      show ?thesis
      proof (cases "29 < hlit \<or> 29 < hdist")
        case True
        then show ?thesis by (auto simp: steps matches simp del: str_def)
      next
        case False
        show ?thesis
        proof (cases "spec_code_lens (take (hclen + 4) code_len_order) (replicate 19 0) s3")
          case (Inl e)
          then show ?thesis using g r False by (auto simp: steps agrees_def matches simp del: replicate.simps)
        next
          case (Inr q)
          obtain lens s4 where q: "q = (lens, s4)" by (rule prod.exhaust)
          then have "r = Some lens" "simulates limit i4 s4" using g Inr by (auto simp: agrees_def)
          then show ?thesis using r q Inr False tables_matches [of limit i4 s4 "hlit + 257" "hdist + 1" lens]
            by (simp add: steps)
        qed
      qed
    qed (simp add: dynamic_block_def spec_dynamic_def and_then_def a(1,2) b(1,2) matches)
  qed (simp add: dynamic_block_def spec_dynamic_def and_then_def a(1,2) matches)
qed (simp add: dynamic_block_def spec_dynamic_def and_then_def matches)

lemma kind_matches:
  "simulates limit i s \<Longrightarrow> matches_block limit (one_block kind i) (spec_kind limit kind s)"
  using stored_matches fixed_matches dynamic_matches by (simp add: one_block_def spec_kind_def)

section \<open>The stream\<close>

lemma want_follows:
  assumes "simulates limit i s"
  shows "agrees limit (map_prod (map_option be32) id (want_loop (Suc (Suc (Suc (Suc 0)))) i))
     (four_bytes s)"
proof (cases rule: take_cases [OF assms le16(7), case_names whole short])
  case a: (whole xa sa ia)
  show ?thesis
  proof (cases rule: take_cases [OF a(3) le16(7), case_names whole short])
    case b: (whole xb sb ib)
    show ?thesis
    proof (cases rule: take_cases [OF b(3) le16(7), case_names whole short])
      case c: (whole xc sc ic)
      show ?thesis
      proof (cases rule: take_cases [OF c(3) le16(7), case_names whole short])
        case d: (whole xd sd jd)
        have u: "unat (word_of_nat x :: byte) = x" if "x < 2 ^ 8" for x
          using that by (simp add: unat_of_nat take_bit_nat_eq_self_iff)
        have "be32 [word_of_nat xa, word_of_nat xb, word_of_nat xc, word_of_nat xd] = ((xa * 256 + xb) * 256 + xc) * 256 + xd"
          using u [OF a(4)] u [OF b(4)] u [OF c(4)] u [OF d(4)] by (simp add: be32_def)
        then show ?thesis using d(3)
          by (simp add: four_bytes_def byte_take a(1,2) b(1,2) c(1,2) d(1,2) and_then_def agrees_def give_def)
      qed (simp add: four_bytes_def byte_take a(1,2) b(1,2) c(1,2) and_then_def agrees_def)
    qed (simp add: four_bytes_def byte_take a(1,2) b(1,2) and_then_def agrees_def)
  qed (simp add: four_bytes_def byte_take a(1,2) and_then_def agrees_def)
qed (simp add: four_bytes_def byte_take and_then_def agrees_def)

lemma adler_word:
  assumes "keeps i out"
  shows "unat (adler_sum i) = adler32 out"
proof -
  have a: "unat (zi_a i) < 65521" "unat (zi_b i) < 65521" using assms adler_a_less by (simp_all add: keeps_def)
  have "bit (zi_a i) k \<Longrightarrow> k < 16" for k
  proof (rule ccontr)
    assume "bit (zi_a i) k" "\<not> k < 16"
    then have "bit (unat (zi_a i)) k" by (simp add: bit_unsigned_iff bit_imp_le_length)
    moreover have "unat (zi_a i) < 2 ^ k"
    proof -
      have "(2 :: nat) ^ 16 \<le> 2 ^ k" using \<open>\<not> k < 16\<close> by (intro power_increasing) auto
      then show ?thesis using a(1) by simp
    qed
    ultimately show False by (simp add: bit_iff_odd)
  qed
  then have low: "\<not> bit (zi_a i) k" if "16 \<le> k" for k using that by (meson not_le)
  have "push_bit 16 (zi_b i) OR zi_a i = push_bit 16 (zi_b i) + zi_a i"
    by (intro disjunctive_add [symmetric]) (auto simp: bit_push_bit_iff low)
  moreover have "unat (push_bit 16 (zi_b i) + zi_a i) = unat (zi_b i) * 65536 + unat (zi_a i)"
  proof -
    have s: "unat (zi_b i) * 65536 + unat (zi_a i) < 4294967296" using a by linarith
    have "push_bit 16 (zi_b i) = zi_b i * 65536" by (simp add: push_bit_eq_mult)
    then show ?thesis using s by (simp add: unat_word_ariths)
  qed
  ultimately show ?thesis using assms by (simp add: adler_sum_def adler32_def keeps_def)
qed

lemma trailer_matches:
  assumes f: "simulates limit i s"
  shows "fst (check_adler i) = (case spec_trailer s of Inl e \<Rightarrow> e | Inr _ \<Rightarrow> NoFault)"
proof -
  obtain s0 where 0: "to_byte s = Inr ((), s0)" by (simp add: to_byte_def)
  note f0 = align_follows [OF f 0]
  have spec: "spec_trailer s = and_then four_bytes (\<lambda>w s. if w \<noteq> adler32 (snd s) then refuse ''incorrect data check'' s else give () s) s0"
    using 0 by (simp add: spec_trailer_def and_then_def [of to_byte])
  have four: "want_loop 4 = want_loop (Suc (Suc (Suc (Suc 0))))" by (simp add: eval_nat_numeral)
  obtain r j where r: "want_loop 4 (i\<lparr>zi_in := align (zi_in i)\<rparr>) = (r, j)" by (rule prod.exhaust)
  note w = want_follows [OF f0, folded four, unfolded r map_prod_simp]
  show ?thesis
  proof (cases "four_bytes s0")
    case (Inl e)
    then show ?thesis using w r by (auto simp: spec check_adler_def agrees_def and_then_def)
  next
    case (Inr q)
    obtain x s1 where q: "q = (x, s1)" by (rule prod.exhaust)
    obtain cs where cs: "r = Some cs" "be32 cs = x" "simulates limit j s1" using w Inr q by (auto simp: agrees_def)
    then have "unat (adler_sum j) = adler32 (snd s1)" by (intro adler_word) (simp add: simulates_def)
    then show ?thesis using Inr q r cs by (simp add: spec check_adler_def and_then_def refuse_def give_def del: str_def)
  qed
qed

lemma blocks_match:
  "simulates limit i s \<Longrightarrow> fst (run_blocks i) = (case spec_blocks limit s of Inl e \<Rightarrow> e | Inr _ \<Rightarrow> NoFault)"
proof (induction limit s arbitrary: i rule: spec_blocks.induct)
  case (1 limit s)
  note steps = spec_blocks.simps [of limit s] run_blocks.simps [of i]
  show ?case
  proof (cases rule: take_cases [OF 1(2) le16(1), case_names whole short])
    case a: (whole final s1 i1)
    show ?thesis
    proof (cases rule: take_cases [OF a(3) le16(2), case_names whole short])
      case b: (whole kind s2 i2)
      show ?thesis
      proof (cases "2 < kind")
        case True
        then show ?thesis using a b by (simp add: steps refuse_def del: str_def)
      next
        case k: False
        obtain f i3 where f: "one_block kind i2 = (f, i3)" by (rule prod.exhaust)
        note m = kind_matches [OF b(3), of kind, unfolded f]
        show ?thesis
        proof (cases "spec_kind limit kind s2")
          case (Inl e)
          then show ?thesis using a b k f m by (auto simp: steps matches)
        next
          case (Inr q)
          obtain u s3 where q: "q = (u, s3)" by (rule prod.exhaust)
          have n: "f = NoFault" "simulates limit i3 s3" using m Inr q by (auto simp: matches)
          then have marks: "\<not> zb_short (zi_in i3)" "\<not> zi_full i3" by (simp_all add: simulates_def holds_bits_def)
          show ?thesis
          proof (cases "final = 1")
            case True
            then show ?thesis using trailer_matches [OF n(2)] a b k f Inr q n(1) marks by (simp add: steps)
          next
            case False
            have "fst (run_blocks i3) = (case spec_blocks limit s3 of Inl e \<Rightarrow> e | Inr _ \<Rightarrow> NoFault)"
              by (rule 1(1), rule a(1), rule refl, rule b(1), rule refl, rule k, rule Inr, rule q [symmetric], rule False, rule n(2))
            then show ?thesis using False a b k f Inr q n(1) marks by (simp add: steps)
          qed
        qed
      qed
    next
      case (short i2)
      then show ?thesis using a by (simp add: steps)
    qed
  next
    case (short i1)
    then show ?thesis by (simp add: steps)
  qed
qed

lemma bit_flag: "bit (0x20 :: 32 word) n \<longleftrightarrow> n = 5"
proof -
  have e: "(0x20 :: 32 word) = push_bit 5 1" by simp
  show ?thesis unfolding e bit_push_bit_iff bit_1_iff by (auto simp only: possible_bit_word) simp_all
qed

lemma header_word:
  assumes "unat (c :: 32 word) < 256" "unat f < 256"
  shows "(push_bit 8 c + f) mod 31 = 0 \<longleftrightarrow> (unat c * 256 + unat f) mod 31 = 0"
    and "c AND 0x0F = 8 \<longleftrightarrow> unat c mod 16 = 8"
    and "15 < drop_bit 4 c + 8 \<longleftrightarrow> 7 < unat c div 16"
    and "f AND 0x20 = 0 \<longleftrightarrow> even (unat f div 32)"
proof -
  have "unat c * 256 + unat f < 4294967296" using assms by linarith
  then have "unat (push_bit 8 c + f) = unat c * 256 + unat f" by (simp add: push_bit_eq_mult unat_word_ariths)
  then have "unat ((push_bit 8 c + f) mod 31) = (unat c * 256 + unat f) mod 31" by (simp add: unat_mod)
  then show "(push_bit 8 c + f) mod 31 = 0 \<longleftrightarrow> (unat c * 256 + unat f) mod 31 = 0" by (simp add: word_unat_eq_iff)
  have "c AND 0x0F = take_bit 4 c" by (simp add: take_bit_eq_mask mask_eq_exp_minus_1)
  then have "unat (c AND 0x0F) = unat c mod 16" by (simp add: take_bit_eq_mod unat_mod)
  then show "c AND 0x0F = 8 \<longleftrightarrow> unat c mod 16 = 8" by (simp add: word_unat_eq_iff)
  have "unat (drop_bit 4 c) = unat c div 16" by (simp add: drop_bit_eq_div unat_div)
  moreover have "unat c div 16 < 16" using assms(1) by (simp add: less_mult_imp_div_less)
  ultimately have "unat (drop_bit 4 c + 8) = unat c div 16 + 8" by (simp add: unat_word_ariths)
  then show "15 < drop_bit 4 c + 8 \<longleftrightarrow> 7 < unat c div 16" by (simp add: word_less_nat_alt)
  have "f AND 0x20 = (if bit f 5 then 0x20 else 0)"
    by (cases "bit f 5"; rule bit_word_eqI; simp only: bit_and_iff bit_flag if_True if_False bit_0_eq; blast)
  moreover have "bit f 5 \<longleftrightarrow> odd (unat f div 32)" 
  proof -
    have "bit f 5 \<longleftrightarrow> bit (unat f) 5" by (simp add: bit_unsigned_iff)
    also have "\<dots> \<longleftrightarrow> odd (unat f div 2 ^ 5)" by (rule bit_iff_odd)
    finally show ?thesis by simp
  qed
  ultimately show "f AND 0x20 = 0 \<longleftrightarrow> even (unat f div 32)" by simp
qed

lemma header_low:
  assumes r: "holds_bits b bs" and n: "16 \<le> zb_n b"
  defines "c \<equiv> ucast (zb_hold b AND 0xFF) :: 32 word" and "f \<equiv> ucast (drop_bit 8 (zb_hold b) AND 0xFF) :: 32 word"
  shows "unat c = lsb_value (take 8 bs)" and "unat f = lsb_value (take 8 (drop 8 bs))"
    and "unat c < 256" "unat f < 256"
proof -
  have ff: "(0xFF :: 64 word) = 2 ^ 8 - 1" by simp
  show 1: "unat c = lsb_value (take 8 bs)" unfolding c_def ff using n by (intro reads_low [OF r]) auto
  have "holds_bits (b\<lparr>zb_hold := drop_bit 8 (zb_hold b), zb_n := zb_n b - 8\<rparr>) (drop 8 bs)"
    using n by (intro reads_drop [OF r]) simp
  from reads_low [OF this, of 8] show 2: "unat f = lsb_value (take 8 (drop 8 bs))" using n unfolding f_def ff by simp
  have "lsb_value (take 8 xs) < 256" for xs
  proof -
    have "lsb_value (take 8 xs) < 2 ^ length (take 8 xs)" by (rule lsb_value_less)
    also have "\<dots> \<le> 2 ^ 8" by (intro power_increasing) auto
    finally show ?thesis by simp
  qed
  then show "unat c < 256" "unat f < 256" using 1 2 by simp_all
qed

lemma header_matches:
  assumes f: "simulates limit i s"
  shows "case spec_header s of
      Inl e \<Rightarrow> fst (zlib_header i) = Inl e
    | Inr (_, s1) \<Rightarrow> fst (zlib_header i) = Inr () \<and> simulates limit (snd (zlib_header i)) s1"
proof -
  have r: "holds_bits (zi_in i) (fst s)" using f by (simp add: simulates_def)
  show ?thesis
  proof (cases "16 \<le> length (fst s)")
    case False
    then show ?thesis using need_reads [OF r, of 16] by (auto simp: spec_header_def zlib_header_def)
  next
    case True
    then obtain b where b: "need 16 (zi_in i) = (True, b)" "holds_bits b (fst s)" "16 \<le> zb_n b"
      using need_reads [OF r, of 16] by auto
    note low = header_low [OF b(2,3)]
    note word = header_word [OF low(3,4), unfolded low(1,2)]
    have "holds_bits (b\<lparr>zb_hold := drop_bit 16 (zb_hold b), zb_n := zb_n b - 16\<rparr>) (drop 16 (fst s))"
      by (rule reads_drop [OF b(2,3)])
    then have "simulates limit (i\<lparr>zi_in := b\<lparr>zb_hold := drop_bit 16 (zb_hold b), zb_n := zb_n b - 16\<rparr>\<rparr>) (drop 16 (fst s), snd s)"
      using f by (simp add: simulates_def)
    moreover have "8 \<le> length (fst s) - 8" using True by simp
    ultimately show ?thesis using True b(1) word
      by (simp add: spec_header_def header_fields_def zlib_header_def Let_def grab_def and_then_def refuse_def give_def del: str_def)
  qed
qed

lemma start_follows: "simulates limit (new_inflater raw limit) (stream_bits raw, [])"
  by (auto simp: simulates_def new_inflater_def holds_bits_def keeps_def adler_a_def adler_b_def)

lemma diagnose_lines:
  "diagnose raw limit = fault_line (stream_fault limit raw)"
proof -
  let ?i = "new_inflater raw limit" and ?s = "(stream_bits raw, [])"
  note h = header_matches [OF start_follows [of limit raw]]
  have "run_inflater ?i = stream_fault limit raw"
  proof (cases "spec_header ?s")
    case (Inl e)
    then show ?thesis using h
      by (cases "zlib_header ?i") (simp add: run_inflater_def stream_fault_def and_then_def)
  next
    case (Inr q)
    obtain u s1 where q: "q = (u, s1)" by (rule prod.exhaust)
    then have "fst (zlib_header ?i) = Inr ()" "simulates limit (snd (zlib_header ?i)) s1" using h Inr by simp_all
    then show ?thesis using Inr q blocks_match [of limit "snd (zlib_header ?i)" s1]
      by (cases "zlib_header ?i") (simp add: run_inflater_def stream_fault_def and_then_def)
  qed
  then show ?thesis by (simp add: diagnose_def)
qed

text \<open>
  C8: Diagnose names the fault of the stream. Its register of 64 bits, its ring of 32 KiB and its tables of counts and
  symbols give, on every byte sequence and with every amount of room, the message that the reference of
  \<open>InflateSpec\<close> gives, which reads a list of bits with canonical prefix codes and keeps the whole output.
\<close>

theorem diagnose_exact:
  "diagnose raw limit = fault_line (stream_fault limit raw)"
  by (rule diagnose_lines)

end
