(* ===== verification/InflateReach.thy ===== *)
theory InflateReach
  imports InflateExact
begin

text \<open>
  A fault counts when the reader reaches it. With less input or less room the reference either stops without a
  fault or does exactly what it does with more: what comes after the place of a fault never changes the answer.
\<close>

text \<open>\<open>m\<close> has the input cut before \<open>t\<close> and perhaps less room than \<open>m'\<close>.\<close>

definition below :: "bool list \<Rightarrow> 'a step \<Rightarrow> 'a step \<Rightarrow> bool" where
  "below t m m' \<longleftrightarrow> (\<forall>bs out.
     (case m (bs, out) of
        Inl e \<Rightarrow> e = NoFault \<or> m' (bs @ t, out) = Inl e
      | Inr (x, s) \<Rightarrow> m' (bs @ t, out) = Inr (x, fst s @ t, snd s)))"

named_theorems below_rules

lemma below_Inl: "below t m m' \<Longrightarrow> m (bs, out) = Inl e \<Longrightarrow> e \<noteq> NoFault \<Longrightarrow> m' (bs @ t, out) = Inl e"
  unfolding below_def by (drule spec [of _ bs], drule spec [of _ out]) simp

lemma below_Inr: "below t m m' \<Longrightarrow> m (bs, out) = Inr (x, bs1, out1) \<Longrightarrow> m' (bs @ t, out) = Inr (x, bs1 @ t, out1)"
  unfolding below_def by (drule spec [of _ bs], drule spec [of _ out]) simp

lemma belowI:
  assumes "\<And>bs out e. m (bs, out) = Inl e \<Longrightarrow> e \<noteq> NoFault \<Longrightarrow> m' (bs @ t, out) = Inl e"
    and "\<And>bs out x bs1 out1. m (bs, out) = Inr (x, bs1, out1) \<Longrightarrow> m' (bs @ t, out) = Inr (x, bs1 @ t, out1)"
  shows "below t m m'"
  using assms unfolding below_def by (auto split: sum.splits)

lemma below_then [below_rules]:
  assumes m: "below t m m'" and f: "\<And>x. below t (f x) (f' x)"
  shows "below t (and_then m f) (and_then m' f')"
proof (rule belowI)
  fix bs out e assume a: "and_then m f (bs, out) = Inl e" "e \<noteq> NoFault"
  show "and_then m' f' (bs @ t, out) = Inl e"
  proof (cases "m (bs, out)")
    case (Inl d)
    then show ?thesis using a below_Inl [OF m Inl] by (simp add: and_then_def)
  next
    case (Inr q)
    obtain x bs1 out1 where q: "q = (x, bs1, out1)" by (metis prod.exhaust)
    have "m' (bs @ t, out) = Inr (x, bs1 @ t, out1)" by (rule below_Inr [OF m]) (simp add: Inr q)
    then show ?thesis using a Inr q below_Inl [OF f, of x bs1 out1 e] by (simp add: and_then_def)
  qed
next
  fix bs out x bs1 out1 assume a: "and_then m f (bs, out) = Inr (x, bs1, out1)"
  then obtain y bs2 out2 where y: "m (bs, out) = Inr (y, bs2, out2)" "f y (bs2, out2) = Inr (x, bs1, out1)"
    by (auto simp: and_then_def split: sum.splits)
  then show "and_then m' f' (bs @ t, out) = Inr (x, bs1 @ t, out1)"
    using below_Inr [OF m y(1)] below_Inr [OF f y(2)] by (simp add: and_then_def)
qed

lemma below_basic [below_rules]:
  "below t (give x) (give x)" "below t (refuse msg) (refuse msg)" "below t (grab n) (grab n)"
  by (auto intro!: belowI simp: give_def refuse_def grab_def split: if_splits)

lemma below_stop [below_rules]: "below t (\<lambda>s. Inl e) (\<lambda>s. Inl e)"
  by (rule belowI) auto

lemma below_silent: "below t (\<lambda>s. Inl NoFault) m"
  by (rule belowI) auto

lemma below_if [below_rules]: "below t m m' \<Longrightarrow> below t n n' \<Longrightarrow> below t (if b then m else n) (if b then m' else n')"
  by simp

text \<open>Tests of the output alone.\<close>

lemma below_out:
  assumes "\<And>out. below t (m out) (m' out)"
  shows "below t (\<lambda>s. m (snd s) s) (\<lambda>s. m' (snd s) s)"
  using below_Inl [OF assms] below_Inr [OF assms] by (intro belowI) auto

lemma below_byte: "8 dvd length t \<Longrightarrow> below t to_byte to_byte"
  by (rule belowI) (auto simp: to_byte_def elim!: dvdE)

definition less_room :: "int \<Rightarrow> int \<Rightarrow> bool" where
  "less_room l m \<longleftrightarrow> m < 0 \<or> 0 \<le> l \<and> l \<le> m"

lemma below_put: "less_room l m \<Longrightarrow> below t (put l c) (put m c)"
  by (rule belowI) (auto simp: put_def less_room_def split: if_splits)

lemma codes_longer:
  assumes "\<forall>l \<in> set lens. l \<le> max_code_bits"
  shows "codes_for lens bs k \<Longrightarrow> codes_for lens (bs @ t) k"
    and "max_code_bits \<le> length bs \<Longrightarrow> codes_for lens (bs @ t) k \<Longrightarrow> codes_for lens bs k"
proof -
  show "codes_for lens bs k \<Longrightarrow> codes_for lens (bs @ t) k" by (simp add: codes_for_def)
  assume "max_code_bits \<le> length bs" and c: "codes_for lens (bs @ t) k"
  moreover have "lens ! k \<le> max_code_bits" using assms c by (simp add: codes_for_def)
  ultimately show "codes_for lens bs k" by (simp add: codes_for_def)
qed

lemma below_symbol:
  assumes fit: "\<forall>l \<in> set lens. l \<le> max_code_bits"
  shows "below t (symbol_step lens msg) (symbol_step lens msg)"
proof (cases "\<forall>l \<in> set lens. l = 0")
  case True
  then have "symbol_step lens msg = refuse msg" by (simp add: symbol_step_def fun_eq_iff)
  then show ?thesis by (simp add: below_rules)
next
  case False
  note codes = codes_longer [OF fit]
  show ?thesis
  proof (rule belowI)
    fix bs out e assume a: "symbol_step lens msg (bs, out) = Inl e" "e \<noteq> NoFault"
    then have n: "symbol_at lens bs = None" "max_code_bits \<le> length bs" "e = DataFault (str msg)"
      using False by (auto simp: symbol_step_def refuse_def split: option.splits if_splits)
    then have "symbol_at lens (bs @ t) = None" using codes(2) [OF n(2), of t] unfolding symbol_at_None by blast
    then show "symbol_step lens msg (bs @ t, out) = Inl e" using False n by (auto simp: symbol_step_def refuse_def)
  next
    fix bs out k bs1 out1 assume "symbol_step lens msg (bs, out) = Inr (k, bs1, out1)"
    then have s: "symbol_at lens bs = Some k" "bs1 = drop (lens ! k) bs" "out1 = out" "lens ! k \<le> length bs"
      using False by (auto simp: symbol_step_def refuse_def symbol_at_Some codes_for_def split: option.splits if_splits)
    then have "symbol_at lens (bs @ t) = Some k" using codes(1) by (simp add: symbol_at_Some)
    then show "symbol_step lens msg (bs @ t, out) = Inr (k, bs1 @ t, out1)" using False s by (auto simp: symbol_step_def)
  qed
qed

lemma below_bytes: "less_room l m \<Longrightarrow> below t (spec_bytes l n) (spec_bytes m n)"
proof (induction n)
  case (Suc n)
  let ?f = "\<lambda>l. and_then (grab 8) (\<lambda>c. and_then (put l (word_of_nat c)) (\<lambda>_. spec_bytes l n))"
  have b: "below t (?f l) (?f m)" by (intro below_rules below_put Suc)
  have fits: "0 \<le> m \<and> m \<le> x \<longrightarrow> 0 \<le> l \<and> l \<le> x" for x using Suc.prems by (auto simp: less_room_def)
  have "below t (if 0 \<le> l \<and> l \<le> int (length out) then \<lambda>s. Inl NoFault else ?f l)
      (if 0 \<le> m \<and> m \<le> int (length out) then \<lambda>s. Inl NoFault else ?f m)" for out :: bytes
    using b below_silent fits [of "int (length out)"] by auto
  from below_out [OF this] show ?case by (simp add: if_distribR cong: if_cong)
qed (simp add: below_rules)

lemma below_match: "less_room l m \<Longrightarrow> below t (spec_match l d n) (spec_match m d n)"
proof (induction n)
  case (Suc n)
  have "below t (and_then (put l (out ! (length out - d))) (\<lambda>_. spec_match l d n))
      (and_then (put m (out ! (length out - d))) (\<lambda>_. spec_match m d n))" for out
    by (intro below_rules below_put Suc)
  from below_out [OF this] show ?case by simp
qed (simp add: below_rules)

lemma below_copy:
  assumes r: "less_room l m" and fit: "\<forall>x \<in> set dl. x \<le> max_code_bits"
  shows "below t (spec_copy l dl k) (spec_copy m dl k)"
proof -
  have "below t (\<lambda>s. if length (snd s) < d then refuse msg s else spec_match l d n s)
      (\<lambda>s. if length (snd s) < d then refuse msg s else spec_match m d n s)" for d n msg
  proof -
    have "below t (if length out < d then refuse msg else spec_match l d n) (if length out < d then refuse msg else spec_match m d n)"
      for out :: bytes
      by (intro below_rules below_match r)
    from below_out [OF this] show ?thesis by (simp add: if_distribR)
  qed
  then show ?thesis unfolding spec_copy_def by (intro below_rules below_symbol fit)
qed

section \<open>The loops\<close>

text \<open>The same at one place, for the loops: a step before the loop has used up input.\<close>

definition below_at :: "bool list \<Rightarrow> 'a step \<Rightarrow> 'a step \<Rightarrow> flow \<Rightarrow> bool" where
  "below_at t m m' s \<longleftrightarrow>
     (case m s of
        Inl e \<Rightarrow> e = NoFault \<or> m' (fst s @ t, snd s) = Inl e
      | Inr (x, s1) \<Rightarrow> m' (fst s @ t, snd s) = Inr (x, fst s1 @ t, snd s1))"

lemma below_iff: "below t m m' \<longleftrightarrow> (\<forall>s. below_at t m m' s)"
  by (simp only: below_def below_at_def split_paired_All fst_conv snd_conv)

lemma below_at: "below t m m' \<Longrightarrow> below_at t m m' s"
  unfolding below_iff by blast

lemma below_at_then:
  assumes m: "below_at t m m' s" and f: "\<And>x s1. m s = Inr (x, s1) \<Longrightarrow> below_at t (f x) (f' x) s1"
  shows "below_at t (and_then m f) (and_then m' f') s"
proof (cases "m s")
  case (Inl e)
  then show ?thesis using m by (auto simp: below_at_def and_then_def)
next
  case (Inr q)
  obtain x s1 where q: "q = (x, s1)" by (rule prod.exhaust)
  have "m' (fst s @ t, snd s) = Inr (x, fst s1 @ t, snd s1)" using m Inr q by (simp add: below_at_def)
  then have "and_then m' f' (fst s @ t, snd s) = f' x (fst s1 @ t, snd s1)" "and_then m f s = f x s1"
    using Inr q by (simp_all add: and_then_def)
  then show ?thesis using f [OF Inr [unfolded q]] unfolding below_at_def by (simp only:)
qed

lemma below_at_if: "(b \<Longrightarrow> below_at t m m' s) \<Longrightarrow> (\<not> b \<Longrightarrow> below_at t n n' s) \<Longrightarrow>
    below_at t (if b then m else n) (if b then m' else n') s"
  by simp

lemma below_block:
  assumes r: "less_room l m" and fit: "\<forall>x \<in> set ll. x \<le> max_code_bits" "\<forall>x \<in> set dl. x \<le> max_code_bits"
  shows "below t (spec_block l ll dl) (spec_block m ll dl)"
proof -
  let ?sym = "symbol_step ll ''invalid literal/length code''"
  have step: "spec_block x ll dl = and_then ?sym (\<lambda>k.
      if k < 256 then and_then (put x (word_of_nat k)) (\<lambda>_. spec_block x ll dl)
      else if k = 256 then give ()
      else if 285 < k then refuse ''invalid literal/length code''
      else and_then (spec_copy x dl k) (\<lambda>_. spec_block x ll dl))" for x
    by (rule ext, subst spec_block.simps) (simp add: and_then_def give_def split: sum.splits prod.splits)
  have "below_at t (spec_block l ll dl) (spec_block m ll dl) s" for s
  proof (induction "length (fst s)" arbitrary: s rule: less_induct)
    case less
    have rest: "below_at t (and_then (n x) (\<lambda>_. spec_block l ll dl)) (and_then (n' x) (\<lambda>_. spec_block m ll dl)) s1"
      if "?sym s = Inr (k, s1)" "below t (n x) (n' x)" "shrinks (n x)" for k s1 x and n n' :: "'b \<Rightarrow> unit step"
    proof (rule below_at_then [OF below_at [OF that(2)]])
      fix u s2 assume "n x s1 = Inr (u, s2)"
      then have "length (fst s2) < length (fst s)"
        using shrinksD [OF that(3)] symbol_step_less [OF that(1)] le_less_trans by blast
      then show "below_at t (spec_block l ll dl) (spec_block m ll dl) s2" by (rule less.hyps)
    qed
    show ?case
    proof (subst (1 2) step, rule below_at_then [OF below_at [OF below_symbol [OF fit(1)]]])
      fix k s1 assume k: "?sym s = Inr (k, s1)"
      show "below_at t
         (if k < 256 then and_then (put l (word_of_nat k)) (\<lambda>_. spec_block l ll dl) else if k = 256 then give ()
          else if 285 < k then refuse ''invalid literal/length code'' else and_then (spec_copy l dl k) (\<lambda>_. spec_block l ll dl))
         (if k < 256 then and_then (put m (word_of_nat k)) (\<lambda>_. spec_block m ll dl) else if k = 256 then give ()
          else if 285 < k then refuse ''invalid literal/length code'' else and_then (spec_copy m dl k) (\<lambda>_. spec_block m ll dl)) s1"
        by (intro below_at_if rest [OF k] below_put [OF r] below_copy [OF r fit(2)] shrinks_basic shrinks_copy
            below_at [OF below_basic(1)] below_at [OF below_basic(2)])
    qed
  qed
  then show ?thesis by (simp add: below_iff)
qed

lemma below_repeat: "below t (spec_repeat k acc) (spec_repeat k acc)"
  unfolding spec_repeat_def by (intro below_rules)

lemma below_lengths:
  assumes fit: "\<forall>x \<in> set cl. x \<le> max_code_bits"
  shows "below t (spec_lengths cl n acc) (spec_lengths cl n acc)"
proof -
  let ?sym = "symbol_step cl ''invalid code lengths set''"
  have step: "spec_lengths cl n acc = (if n \<le> length acc then give acc else and_then ?sym (\<lambda>k.
      if k < 16 then spec_lengths cl n (acc @ [k])
      else and_then (spec_repeat k acc) (\<lambda>p.
        if n < length acc + snd p then refuse ''invalid bit length repeat''
        else spec_lengths cl n (acc @ replicate (snd p) (fst p)))))" for acc
    by (rule ext, subst spec_lengths.simps) (auto simp: and_then_def give_def split: sum.splits prod.splits)
  have "below_at t (spec_lengths cl n acc) (spec_lengths cl n acc) s" for s acc
  proof (induction "length (fst s)" arbitrary: s acc rule: less_induct)
    case less
    have "below_at t (and_then (spec_repeat k acc) (\<lambda>p.
          if n < length acc + snd p then refuse ''invalid bit length repeat'' else spec_lengths cl n (acc @ replicate (snd p) (fst p))))
        (and_then (spec_repeat k acc) (\<lambda>p.
          if n < length acc + snd p then refuse ''invalid bit length repeat'' else spec_lengths cl n (acc @ replicate (snd p) (fst p)))) s1"
      if "?sym s = Inr (k, s1)" for k s1
    proof (rule below_at_then [OF below_at [OF below_repeat]])
      fix p s2 assume "spec_repeat k acc s1 = Inr (p, s2)"
      then have "length (fst s2) < length (fst s)"
        using shrinksD [OF shrinks_repeat] symbol_step_less [OF that] le_less_trans by blast
      then show "below_at t (if n < length acc + snd p then refuse ''invalid bit length repeat'' else spec_lengths cl n (acc @ replicate (snd p) (fst p)))
          (if n < length acc + snd p then refuse ''invalid bit length repeat'' else spec_lengths cl n (acc @ replicate (snd p) (fst p))) s2"
        by (intro below_at_if below_at [OF below_basic(2)] less.hyps)
    qed
    note again = this
    have "below_at t (spec_lengths cl n acc') (spec_lengths cl n acc') s1" if "?sym s = Inr (k, s1)" for k s1 acc'
      using less.hyps symbol_step_less [OF that] by blast
    then show ?case
      by (subst (1 2) step)
        (rule below_at_if below_at_then [OF below_at [OF below_symbol [OF fit]]] below_at [OF below_basic(1)] again | assumption)+
  qed
  then show ?thesis by (simp add: below_iff)
qed

section \<open>The stream\<close>

lemma below_code_lens: "below t (spec_code_lens ks lens) (spec_code_lens ks lens)"
  by (induction ks arbitrary: lens) (auto intro!: below_rules)

lemma below_body: "less_room l m \<Longrightarrow> below t (spec_body l n lens) (spec_body m n lens)"
  unfolding spec_body_def
  by (cases "legal_lengths (take n lens) False"; cases "legal_lengths (drop n lens) False")
    (auto intro!: below_rules below_block simp: legal_lengths_def dest: in_set_takeD in_set_dropD)

lemma below_tables: "less_room l m \<Longrightarrow> below t (spec_tables l n d cl) (spec_tables m n d cl)"
  unfolding spec_tables_def
  by (cases "legal_lengths cl True") (auto intro!: below_rules below_body below_lengths simp: legal_lengths_def)

lemma below_kind:
  assumes r: "less_room l m" and t: "8 dvd length t"
  shows "below t (spec_kind l k) (spec_kind m k)"
proof -
  have fix_fit: "\<forall>x \<in> set fixed_lengths. x \<le> max_code_bits" "\<forall>x \<in> set (replicate 32 5). x \<le> max_code_bits"
    using fixed_legal by (simp_all add: legal_lengths_def del: replicate.simps)
  show ?thesis unfolding spec_kind_def spec_stored_def spec_dynamic_def
    by (intro below_rules below_byte [OF t] below_bytes [OF r] below_block [OF r fix_fit] below_code_lens below_tables [OF r])
qed

lemma below_trailer:
  assumes t: "8 dvd length t"
  shows "below t spec_trailer spec_trailer"
proof -
  have "below t (\<lambda>s. if want \<noteq> adler32 (snd s) then refuse msg s else give () s) (\<lambda>s. if want \<noteq> adler32 (snd s) then refuse msg s else give () s)"
    for want msg
  proof -
    have "below t (if want \<noteq> adler32 out then refuse msg else give ()) (if want \<noteq> adler32 out then refuse msg else give ())" for out
      by (intro below_rules)
    from below_out [OF this] show ?thesis by (simp add: if_distribR)
  qed
  then show ?thesis unfolding spec_trailer_def four_bytes_def by (intro below_rules below_byte [OF t])
qed

lemma below_blocks:
  assumes r: "less_room l m" and t: "8 dvd length t"
  shows "below t (spec_blocks l) (spec_blocks m)"
proof -
  have step: "spec_blocks x = and_then (grab 1) (\<lambda>final. and_then (grab 2) (\<lambda>kind.
      if 2 < kind then refuse ''invalid block type''
      else and_then (spec_kind x kind) (\<lambda>_. if final = 1 then spec_trailer else spec_blocks x)))" for x
    by (rule ext, subst spec_blocks.simps) (simp add: and_then_def split: sum.splits prod.splits)
  have "below_at t (spec_blocks l) (spec_blocks m) s" for s
  proof (induction "length (fst s)" arbitrary: s rule: less_induct)
    case less
    have "below_at t (if final = 1 then spec_trailer else spec_blocks l) (if final = 1 then spec_trailer else spec_blocks m) s3"
      if "grab 1 s = Inr (final, s1)" "grab 2 s1 = Inr (kind, s2)" "spec_kind l kind s2 = Inr (u, s3)" for final kind u s1 s2 s3
    proof -
      have "length (fst s1) < length (fst s)" using that(1) by (auto simp: grab_def split: if_splits)
      moreover have "length (fst s2) \<le> length (fst s1)" by (rule shrinksD [OF shrinks_basic(3) that(2)])
      moreover have "length (fst s3) \<le> length (fst s2)" by (rule shrinksD [OF shrinks_kind that(3)])
      ultimately have "length (fst s3) < length (fst s)" by linarith
      then show ?thesis by (intro below_at_if below_at [OF below_trailer [OF t]] less.hyps)
    qed
    note rest = this
    show ?case
      by (subst (1 2) step)
        (rule below_at_then [OF below_at [OF below_basic(3)]] below_at_if below_at [OF below_basic(2)]
          below_at_then [OF below_at [OF below_kind [OF r t]]] rest | assumption)+
  qed
  then show ?thesis by (simp add: below_iff)
qed

lemma below_header: "below t spec_header spec_header"
proof -
  have b: "below t header_fields header_fields"
    unfolding header_fields_def by (intro below_rules below_stop)
  show ?thesis
    by (rule belowI) (auto simp: spec_header_def split: if_splits dest: below_Inl [OF b] below_Inr [OF b])
qed

lemma fault_upto:
  assumes "less_room l m"
  shows "stream_fault l (take k raw) = NoFault \<or> stream_fault l (take k raw) = stream_fault m raw"
proof -
  let ?t = "stream_bits (drop k raw)" and ?s = "(stream_bits (take k raw), [] :: bytes)"
  have b: "below ?t (and_then spec_header (\<lambda>_. spec_blocks l)) (and_then spec_header (\<lambda>_. spec_blocks m))"
    by (intro below_rules below_header below_blocks assms) simp
  have "stream_bits raw = stream_bits (take k raw) @ ?t" by (simp flip: stream_bits_append)
  then show ?thesis
    using below_at [OF b, of ?s] by (auto simp: stream_fault_def below_at_def split: sum.splits)
qed

lemma diagnose_upto:
  assumes "m < 0 \<or> 0 \<le> l \<and> l \<le> m"
  shows "diagnose (take k raw) l = [] \<or> diagnose (take k raw) l = diagnose raw m"
  using fault_upto [of l m k raw] assms
  by (auto simp: diagnose_lines less_room_def fault_line_def)

text \<open>
  C11: a fault counts only when the reader reaches it. Cut the stream anywhere and leave less room for its output:
  Diagnose then says nothing, or exactly what it says of the whole stream. So a truncated object is never given a
  message its whole would not get, and what follows the place of a fault, or the room beyond it, is never looked at.
\<close>

theorem fault_is_reached:
  assumes "m < 0 \<or> 0 \<le> l \<and> l \<le> m"
  shows "diagnose (take k raw) l = [] \<or> diagnose (take k raw) l = diagnose raw m"
  using assms by (rule diagnose_upto)

text \<open>A block of type three is refused in its first byte, with no room at all, so whatever follows it is.\<close>

lemma bad_type: "diagnose [0x78, 0x9C, 0x07] 0 = str ''inflate: data stream error (invalid block type)''"
  by (simp add: diagnose_lines stream_fault_def stream_bits_def byte_bits_def upt_rec and_then_def spec_header_def
      header_fields_def grab_def lsb_value_def spec_blocks.simps refuse_def give_def fault_line_def)

theorem fault_is_reached_witness:
  "((-1 :: int) < 0 \<or> (0 :: int) \<le> 0 \<and> (0 :: int) \<le> -1) \<and>
   diagnose [0x78, 0x9C, 0x07, 0x63, 0x00, 0xFF] (-1) = str ''inflate: data stream error (invalid block type)''"
  using fault_is_reached [of "-1" 0 3 "[0x78, 0x9C, 0x07, 0x63, 0x00, 0xFF]"] bad_type by simp

end
