(* ===== verification/LooseDiagnosis.thy ===== *)
theory LooseDiagnosis
  imports Loose InflateReach
begin

text \<open>
  The two decoders of a loose object together: \<open>ReadLoose\<close> of \<open>internal/odb/loose.go\<close> asks \<open>Diagnose\<close> with 32 bytes of room
  when the header fails and with none to spare when the contents do.
\<close>

lemma inflate_failed_whole: "ZlibSays m \<in> set (inflate_failed raw l) \<Longrightarrow> 0 \<le> l \<or> l = whole_stream \<Longrightarrow> m \<noteq> [] \<and> m = diagnose raw whole_stream"
  using diagnose_upto [of whole_stream l "length raw" raw]
  by (auto simp: inflate_failed_def whole_stream_def split: if_splits)

lemma fail_errors [simp]: "lr_errors (fail_with res es) = lr_errors res @ es"
  by (simp add: fail_with_def)

lemma stream_says:
  "ZlibSays m \<in> set (lr_errors (stream_check a z raw nul sz x res)) \<Longrightarrow> ZlibSays m \<notin> set (lr_errors res) \<Longrightarrow>
     m \<noteq> [] \<and> m = diagnose raw whole_stream"
  using inflate_failed_whole [of m raw whole_stream] by (auto simp: stream_check_def Let_def split: if_splits)

lemma contents_says:
  "ZlibSays m \<in> set (lr_errors (read_contents a z raw nul x res)) \<Longrightarrow> ZlibSays m \<notin> set (lr_errors res) \<Longrightarrow>
     m \<noteq> [] \<and> m = diagnose raw whole_stream"
  using inflate_failed_whole [of m raw whole_stream] by (auto simp: read_contents_def Let_def split: if_splits)

lemma header_says: "diagnose raw (int n) \<noteq> [] \<Longrightarrow> diagnose raw (int n) = diagnose raw whole_stream"
  using diagnose_upto [of whole_stream "int n" "length raw" raw] by (auto simp: whole_stream_def)

lemma loose_says_whole:
  assumes "ZlibSays m \<in> set (lr_errors (read_loose_bytes a z raw x threshold))"
  shows "m \<noteq> [] \<and> m = diagnose raw whole_stream"
proof (cases "zr_open z \<and> \<not> (zr_fails z max_header_len \<and> diagnose raw (int max_header_len) \<noteq> [])")
  case False
  then consider "\<not> zr_open z" | "zr_open z" "zr_fails z max_header_len" "diagnose raw (int max_header_len) \<noteq> []" by blast
  then show ?thesis
  proof cases
    case 1
    then have "ZlibSays m \<in> set (inflate_failed raw (int max_header_len))"
      using assms by (simp add: read_loose_bytes_def Let_def empty_result_def)
    then show ?thesis using inflate_failed_whole by simp
  next
    case 2
    then have "m = diagnose raw (int max_header_len)" using assms by (simp add: read_loose_bytes_def Let_def empty_result_def)
    then show ?thesis using header_says [OF 2(3)] 2(3) by simp
  qed
next
  case True
  let ?hdr = "take max_header_len (zr_out z)"
  have r: "read_loose_bytes a z raw x threshold =
    (case index_byte ?hdr 0 of
       None \<Rightarrow> fail_with empty_result [UnpackHeader]
     | Some nul \<Rightarrow>
         (case parse_loose_header (take nul ?hdr) of
            None \<Rightarrow> fail_with empty_result [ParseHeader]
          | Some (name, sz) \<Rightarrow>
              let res = empty_result\<lparr>lr_type_name := name, lr_type := type_from_name name, lr_size := sz\<rparr> in
              if type_from_name name = TypeBad then fail_with res [ParseType (take nul ?hdr)]
              else if type_from_name name = TypeBlob \<and> threshold < sz then stream_check a z raw nul sz x res
              else read_contents a z raw nul x res))"
    using True by (simp only: read_loose_bytes_def Let_def) auto
  show ?thesis
  proof (cases "index_byte ?hdr 0")
    case None
    show ?thesis using assms unfolding r None option.case by (simp add: empty_result_def)
  next
    case (Some nul)
    show ?thesis
    proof (cases "parse_loose_header (take nul ?hdr)")
      case None
      show ?thesis using assms unfolding r Some option.case None by (simp add: empty_result_def)
    next
      case p: (Some q)
      obtain name sz where q: "q = (name, sz)" by (rule prod.exhaust)
      let ?res = "empty_result\<lparr>lr_type_name := name, lr_type := type_from_name name, lr_size := sz\<rparr>"
      have e: "lr_errors ?res = []" by (simp add: empty_result_def)
      have "read_loose_bytes a z raw x threshold \<in>
          {fail_with ?res [ParseType (take nul ?hdr)], stream_check a z raw nul sz x ?res, read_contents a z raw nul x ?res}"
        using Some p unfolding r q by (simp add: Let_def)
      then consider "ZlibSays m \<in> set (lr_errors (stream_check a z raw nul sz x ?res))" | "ZlibSays m \<in> set (lr_errors (read_contents a z raw nul x ?res))"
        using assms e by fastforce
      then show ?thesis
      proof cases
        case 1
        then show ?thesis by (rule stream_says) (simp add: e)
      next
        case 2
        then show ?thesis by (rule contents_says) (simp add: e)
      qed
    qed
  qed
qed

end
