(* ===== verification/Spec2Isabelle.thy ===== *)
theory Spec2Isabelle
  imports TagGrammar BlobRules TreeOrder PackIndex PackCycles Loose ObjectDb IndexRepair Quarantine PackedRepair TableMap EdgeArena FlushOrder LinkFacts Reach CheckerRun CleanDemo ParseOpt LooseDiagnosis
begin

text \<open>
  \<open>git-fixed\<close> checks a git repository the way \<open>git fsck\<close> does, line for line, and repairs what it can. This
  library models its core in HOL and proves what makes it correct. Paths below are under \<open>src/\<close>.

  How the program is put together. A run of the checker (\<open>internal/fsckcmd\<close>) opens the object database
  (\<open>internal/odb\<close>), which finds objects in packs and loose files; decodes every object; hands its bytes to
  the checks of \<open>internal/fsck\<close>, which report through the options of the run; records in a table which
  objects exist and what they point at; marks what references, reflogs, \<open>HEAD\<close>, indexes and arguments
  name; verifies the files git derives from the objects; walks from the marked objects and reports what is
  missing, dangling or unreachable. The lines are queued and printed in one order. The repair
  (\<open>internal/repair\<close>) moves damaged files into a quarantine that can be undone, and writes better ones.

  Conventions. A byte is an \<open>8 word\<close>, a string or file a list of bytes, an offset or size of fixed width a
  word of that width with Go's wrap-around; an \<open>int\<close> that cannot overflow is \<open>nat\<close> or \<open>int\<close>. An operation
  that can fail returns a sum or an option, and each early return and panic of the code is a branch. State
  is a record passed along. What is not under \<open>src/\<close> (hash functions, zlib, CRC, Unicode normalization, JSON,
  the file system) is an argument of the definitions that use it.
\<close>

subsection \<open>Which theory models what\<close>

text \<open>
  Shared. \<open>Prelude\<close>: bytes, big-endian words, cuts of byte strings, result types. \<open>Search\<close>: binary search
  over sorted tables, the locale of ordered tables. \<open>GitObj\<close>: \<open>internal/gitobj\<close>, object names of both hash
  widths and the object types. \<open>Fsck_Options\<close>: \<open>internal/fsck/msgid.go\<close> and \<open>options.go\<close>, message table,
  severities, skip list, \<open>report\<close>.

  The checks of single objects. \<open>Refname\<close>: \<open>internal/fsck/refname.go\<close>. \<open>DotGit\<close>: \<open>internal/gitpath/dotgit.go\<close>.
  \<open>TreeObj\<close>, \<open>TreeOrder\<close>: \<open>internal/fsck/tree.go\<close> and what its order check decides. \<open>ObjectCheck\<close>,
  \<open>ObjectGrammar\<close>, \<open>TagGrammar\<close>: \<open>internal/fsck/object.go\<close>, commits and tags, and the grammars the checks are
  silent on. \<open>GitConfig\<close>: \<open>internal/gitconfig/parse.go\<close>. \<open>BlobCheck\<close>, \<open>BlobRules\<close>: \<open>internal/fsck/blob.go\<close>,
  \<open>.gitmodules\<close> and \<open>.gitattributes\<close>.

  The object database. \<open>Delta\<close>: \<open>internal/odb/delta.go\<close>. \<open>Pack\<close>, \<open>PackHeader\<close>, \<open>PackIndex\<close>:
  \<open>internal/odb/pack.go\<close>, the index parser, its search and the entry headers. \<open>Layout\<close>, \<open>DeltaWalk\<close>,
  \<open>DeltaForest\<close>, \<open>PackVerify\<close>, \<open>PackObjects\<close>, \<open>PackCycles\<close>: \<open>internal/odb/verify.go\<close> and \<open>deltawalk.go\<close>, the delta forest
  of a pack, its walk under a shared memory budget, and the whole of \<open>Verify\<close>. \<open>Loose\<close>:
  \<open>internal/odb/loose.go\<close>, \<open>write.go\<close>, \<open>inflatebound.go\<close>. \<open>DeltaCache\<close>, \<open>ObjectDb\<close>: \<open>internal/odb/cache.go\<close>
  and \<open>db.go\<close>, reads by name through the cache.

  What zlib would have said. \<open>Inflate\<close>: \<open>internal/zlibmsg\<close>, the second inflate that words a complaint. \<open>BitView\<close>,
  \<open>Canonical\<close>, \<open>InflateSpec\<close>, \<open>InflateExact\<close>, \<open>InflateReach\<close>: a reference inflate over lists of bits and canonical codes, and
  the proofs against it. \<open>LooseDiagnosis\<close>: every line of zlib's that a read of a loose object prints is the one it
  would print of the whole file.

  Files of the repository. \<open>IndexFile\<close>, \<open>IndexCodec\<close>: \<open>internal/gitrepo/index.go\<close> and \<open>indexwrite.go\<close>.
  \<open>RefStore\<close>: \<open>internal/gitrepo/refs.go\<close>, \<open>reflog.go\<close>, \<open>worktree.go\<close>. \<open>ConfigRead\<close>: the settings of
  \<open>internal/gitrepo/repo.go\<close>.

  A run of the checker. \<open>ObjTable\<close>, \<open>TableMap\<close>, \<open>EdgeArena\<close>: \<open>internal/fsckcmd/objtable.go\<close> and
  \<open>edgearena.go\<close>, the concurrent table and the arena of edges. \<open>Reporter\<close>, \<open>FlushOrder\<close>: \<open>report.go\<close>. \<open>Links\<close>,
  \<open>LinkFacts\<close>: \<open>walk.go\<close>. \<open>RunState\<close>: the state of a run. \<open>ObjectPass\<close>: \<open>objects.go\<close>, \<open>objcheck.go\<close>. \<open>Heads\<close>:
  \<open>heads.go\<close>. \<open>RefsVerify\<close>: \<open>refsverify.go\<close>. \<open>GraphFiles\<close>, \<open>CommitGraph\<close>, \<open>MultiPack\<close>: \<open>graphs.go\<close>,
  \<open>commitgraph.go\<close>, \<open>midx.go\<close>. \<open>Connectivity\<close>, \<open>Reach\<close>: \<open>connectivity.go\<close>, the walk as the loop the code has and as
  a step relation of any number of workers. \<open>CheckerRun\<close>: \<open>run.go\<close>, the composition. \<open>ScanFacts\<close>, \<open>Growth\<close>,
  \<open>EdgeScan\<close>, \<open>ObjectScan\<close>, \<open>ObjectStep\<close>, \<open>ObjectRuns\<close>, \<open>RootMarks\<close>, \<open>RunGrowth\<close>, \<open>CleanRun\<close>, \<open>CleanDemo\<close>: what the
  passes keep and establish, up to what a clean exit means.

  The command line. \<open>ParseOpt\<close>: \<open>internal/parseopt/parseopt.go\<close> and the option table of \<open>cmd/git-fixed\<close>.

  The repair. \<open>Quarantine\<close>: \<open>internal/repair/quarantine.go\<close>. \<open>IndexRepair\<close>: \<open>index.go\<close>. \<open>PackedRefs\<close>,
  \<open>PackedRepair\<close>: \<open>packedrefs.go\<close> and \<open>refs.go\<close>.
\<close>

subsection \<open>What is proved\<close>

text \<open>
  The whole run: if the checker ends with status 0, every name a run starts from (arguments, or references, \<open>HEAD\<close> and
  reflogs) and every name that contents checked in the run link to is an object held with that hash, or one
  that a pack lists (\<open>clean_run_complete\<close>, with a repository it applies to). It rests on: the object pass
  records an edge for every link of every object it could check; the roots are marked; the walk marks
  exactly what the marked objects reach, in every interleaving of the workers (\<open>connectivity_exact\<close>); the
  table is a map (\<open>object_table_exact\<close>); and status bits are never cleared.

  Packs: the layout is exactly the delta forest, the walk of a chain equals a recursion on the tree whatever
  the budget does, \<open>Verify\<close> ends on every input, and when it answers true the entries it reaches are right and
  typed; the entries of a cycle of reference deltas are the exception and are proved to be missed.

  Reads: an object read by name is what its entries decode to, whatever is cached; chains within the limit
  are always read; a cycle across packs is never left. Deltas, indexes of packs, loose files, index files
  and configuration have round trips; what is salvaged of a truncated index file is characterised exactly. A loose
  object is never there in part, whichever calls fail and in every state on the way.

  Checks: commits, tags, trees, reference names and \<open>.gitmodules\<close>, its names and URLs included, are compared with
  declarative grammars; no accepted URL smuggles a newline to a credential helper.

  Repair: whatever call fails, a taken file is not lost; undo restores; a rewritten \<open>packed-refs\<close> keeps every
  reference that could be read; a repaired reference gets the newest readable value of its log; a repaired
  index holds what was salvaged and every path of \<open>HEAD\<close>.

  Diagnosis of streams: the decoder refines the reference on every input, and a truncated stream or a smaller room
  never changes a message into another.

  The command line: parsing accepts exactly a declarative grammar of options and operands.
\<close>

subsection \<open>Bounds and fuel\<close>

text \<open>
  A bound of the code is the number of calls still allowed, an argument that counts down: \<open>max_ref_depth\<close>,
  6 reads of symbolic references; \<open>max_peel\<close>, 10 tags; \<open>max_tree_levels\<close>, 101 levels of \<open>HEAD\<close>'s tree in the repair
  of an index. \<open>type_loop\<close> starts with \<open>max_delta_chain + 1\<close>, 4097, since the code's depth runs from 0 to
  4096. Only the probe of a shard has fuel of the model's own: the number of its slots, which is enough
  because a shard is never full (\<open>TableMap\<close>). Every other loop is a structural recursion, has a termination proof, or is a
  \<open>partial_function\<close> over options where the code has no bound of its own: reading with bases in several
  packs and the parents of a commit graph, which need not end; the loops of the delta walk and of the
  connectivity walk, which are proved to end.

  \<open>clean_run_complete\<close> assumes of the repository: fewer than \<open>max_objects = 2 ^ 30\<close> table entries and \<open>2 ^ 32\<close> slabs
  (\<open>small\<close>), lists of links below \<open>2 ^ 32\<close> (\<open>all_fit\<close>), no two checked contents of one name with different links
  (\<open>one_content\<close>), and packs of the repository's own hash (\<open>env_ok\<close>).
\<close>

subsection \<open>Not modelled\<close>

text \<open>
  The repair run (\<open>internal/repair/repair.go\<close>, \<open>scan.go\<close>, \<open>sources.go\<close>, \<open>walk.go\<close>, \<open>remote.go\<close>): it chooses among
  recovery sources by running git, network and other repositories, so its core is the calls themselves.
  Progress lines, the memory watch, memory maps and the release of their pages: timers,
  runtime and kernel. Opening a repository: environment, directories and alternates. Of a run, the verbose
  lines and the text of a fatal error's prefix, which are printed at once and carry no state. What the commands
  under \<open>cmd/\<close> print and call. The builders of test repositories.
\<close>

end
